(* ===== verification/Prelude.thy ===== *)
theory Prelude
  imports Main "HOL-Library.Word" "HOL-Library.Multiset"
begin

text \<open>
  The shared vocabulary of the development: the machine types of the i686 target (the kernel and
  the C library are compiled for 32 bits, so \<open>size_t\<close>, \<open>uintptr_t\<close> and every pointer are
  32 bit words), the error numbers of \<^verbatim>\<open>libc/include/errno.h\<close> as the functions return them (negated,
  in a 32 bit register), arrays as lists with the two C array operations the kernel uses
  (\<open>realloc\<close> and \<open>memmove\<close> of elements), the theorem collections of the development and the
  generic lemmas on words, lists and windows of a cyclic buffer that several components share.
\<close>

unbundle bit_operations_syntax

named_theorems abs_simps \<open>abstraction of an operation of a concrete data structure\<close>
named_theorems inv_intros \<open>an operation keeps the invariant of its component\<close>
named_theorems frame_simps \<open>what an operation leaves unchanged\<close>

type_synonym u8 = "8 word"
type_synonym u16 = "16 word"
type_synonym u32 = "32 word"
type_synonym u64 = "64 word"
type_synonym ptr = "32 word"

abbreviation NULL :: ptr where "NULL \<equiv> 0"

section \<open>Error numbers\<close>

abbreviation (input) EPERM :: u32 where "EPERM \<equiv> 1"
abbreviation (input) ENOENT :: u32 where "ENOENT \<equiv> 2"
abbreviation (input) EINTR :: u32 where "EINTR \<equiv> 4"
abbreviation (input) ECHILD :: u32 where "ECHILD \<equiv> 10"
abbreviation (input) EAGAIN :: u32 where "EAGAIN \<equiv> 11"
abbreviation (input) EINVAL :: u32 where "EINVAL \<equiv> 22"

section \<open>Arrays\<close>

text \<open>
  \<open>arr_memmove d dst src n\<close> is \<open>memmove(d + dst, d + src, n * sizeof(*d))\<close> on the array \<open>d\<close>
  (\<open>CMem\<close> proves that the byte loop of \<^verbatim>\<open>memmove.c\<close> copies an overlapping block correctly);
  \<open>arr_realloc junk d n\<close> is \<open>realloc(d, n * sizeof(*d))\<close>: the first \<open>n\<close> elements survive and
  the slots beyond the old array hold whatever the heap held, written \<open>junk\<close>.
\<close>

definition arr_memmove :: "'a list \<Rightarrow> nat \<Rightarrow> nat \<Rightarrow> nat \<Rightarrow> 'a list" where
  "arr_memmove d dst src n = take dst d @ take n (drop src d) @ drop (dst + n) d"

definition arr_realloc :: "'a \<Rightarrow> 'a list \<Rightarrow> nat \<Rightarrow> 'a list" where
  "arr_realloc junk d n = take n d @ replicate (n - length d) junk"

lemma length_arr_realloc [simp]: "length (arr_realloc j d n) = n"
  by (simp add: arr_realloc_def)

lemma length_arr_memmove [simp]:
  "dst + n \<le> length d \<Longrightarrow> src + n \<le> length d \<Longrightarrow> length (arr_memmove d dst src n) = length d"
  by (simp add: arr_memmove_def)

lemma arr_realloc_shrink [simp]: "n \<le> length d \<Longrightarrow> arr_realloc j d n = take n d"
  by (simp add: arr_realloc_def)

lemma arr_realloc_grow1: "arr_realloc j d (Suc (length d)) = d @ [j]"
  by (simp add: arr_realloc_def)

section \<open>Words\<close>

lemma unat_Suc32: "unat (x :: u32) + 1 < 2 ^ 32 \<Longrightarrow> unat (x + 1) = unat x + 1"
  by (simp add: unat_word_ariths)

lemma unat_pred32: "x \<noteq> (0 :: u32) \<Longrightarrow> unat (x - 1) = unat x - 1"
  by (rule unat_minus_one)

lemma unat_sub32: "y \<le> (x :: u32) \<Longrightarrow> unat (x - y) = unat x - unat y"
  by (rule unat_sub)

lemma unat_add32: "unat (x :: u32) + unat y < 2 ^ 32 \<Longrightarrow> unat (x + y) = unat x + unat y"
  by (simp add: unat_word_ariths)

lemma unat_mult32: "unat (x :: u32) * unat y < 2 ^ 32 \<Longrightarrow> unat (x * y) = unat x * unat y"
  by (simp add: unat_word_ariths)

lemma unat_less32: "unat (x :: u32) < 2 ^ 32"
  using unsigned_less [of x] by simp

lemma unat_less64: "unat (x :: u64) < 2 ^ 64"
  using unsigned_less [of x] by simp

lemma unat_eq_zero32: "unat (x :: u32) = 0 \<longleftrightarrow> x = 0"
  by (simp add: unat_eq_0)

lemma sint_nonneg_iff: "0 \<le> sint (w :: 'a::len word) \<longleftrightarrow> unat w < 2 ^ (LENGTH('a) - 1)"
proof -
  obtain n where n: "LENGTH('a) = Suc n" by (cases "LENGTH('a)") auto
  have lt: "unat w < 2 ^ Suc n" using unsigned_less [of w] n by simp
  have "0 \<le> sint w \<longleftrightarrow> \<not> bit w n"
    using bit_last_iff [of w] n by (simp add: not_less)
  also have "\<dots> \<longleftrightarrow> \<not> bit (unat w) n"
    by (simp add: bit_unsigned_iff)
  also have "\<dots> \<longleftrightarrow> unat w < 2 ^ n"
  proof -
    have "unat w div 2 ^ n < 2" using lt by (simp add: less_mult_imp_div_less mult.commute)
    then have "odd (unat w div 2 ^ n) \<longleftrightarrow> unat w div 2 ^ n \<noteq> 0"
      by (cases "unat w div 2 ^ n") auto
    then show ?thesis by (simp add: bit_iff_odd div_eq_0_iff)
  qed
  finally show ?thesis using n by simp
qed

lemma unat_half: "unat (drop_bit 1 w) = unat (w :: 'a::len word) div 2"
  by (simp only: unat_drop_bit_eq) (simp add: drop_bit_eq_div)

lemma unat_ucast_down [simp]: "unat (ucast (x :: u64) :: u32) = unat x mod 2 ^ 32"
  by (simp add: unsigned_ucast_eq take_bit_eq_mod)

lemma unat_ucast_up [simp]: "unat (ucast (x :: u32) :: u64) = unat x"
  using unat_less32 [of x] by (simp add: unsigned_ucast_eq take_bit_eq_mod)

lemma unat_of_nat_eq32: "n < 2 ^ 32 \<Longrightarrow> unat (of_nat n :: u32) = n"
  by (simp add: unat_of_nat take_bit_nat_eq_self)

lemma of_nat_unatI: "unat (w :: 'a::len word) = n \<Longrightarrow> w = of_nat n"
  by auto

lemma word_unatI: "unat (a :: 'a::len word) = unat b \<Longrightarrow> a = b"
  by (rule unsigned_word_eqI)

lemma mask_cleared: "((f :: 'a::len word) AND NOT m) AND m = 0"
  by (rule bit_eqI) (auto simp: bit_simps)

lemma mask_set: "((f :: 'a::len word) OR m) AND m = m"
  by (rule bit_eqI) (auto simp: bit_simps)

lemma flag2_cleared [simp]: "((f :: u32) AND - 3) AND 2 = 0"
proof -
  have "NOT (2 :: u32) = - 3" by simp
  then show ?thesis using mask_cleared [of f 2] by metis
qed

lemma sint_small: "unat (x :: u32) < 2 ^ 31 \<Longrightarrow> sint x = int (unat x)"
proof -
  assume "unat x < 2 ^ 31"
  then have "0 \<le> sint x" by (subst sint_nonneg_iff) simp
  moreover have "sint x < 2 ^ 32" using sint_lt [of x] by simp
  ultimately show ?thesis using uint_sint [of x] by (simp add: take_bit_int_eq_self)
qed

lemma sint_le_unat: "sint (x :: u32) \<le> int (unat x)"
proof (cases "unat x < 2 ^ 31")
  case False
  then have "sint x < 0" using sint_nonneg_iff [of x] by simp
  then show ?thesis by linarith
qed (simp add: sint_small)

lemma unat_sub_wrap: "(x :: u32) < y \<Longrightarrow> unat (x - y) = 2 ^ 32 - (unat y - unat x)"
proof -
  assume less: "x < y"
  then have lt: "uint x < uint y" by (simp add: word_less_def)
  have "uint (x - y) = (uint x - uint y + 2 ^ 32) mod 2 ^ 32" by (simp add: uint_word_ariths)
  also have "\<dots> = uint x - uint y + 2 ^ 32"
  proof (rule mod_pos_pos_trivial)
    have "uint y < 2 ^ 32" using uint_lt2p [of y] by simp
    then show "0 \<le> uint x - uint y + 2 ^ 32" using uint_ge_0 [of x] by linarith
  qed (use lt in simp)
  finally have "int (unat (x - y)) = int (unat x) - int (unat y) + 2 ^ 32" by simp
  then have "int (unat (x - y) + unat y) = int (unat x + 2 ^ 32)" by (simp only: of_nat_add of_nat_power of_nat_numeral)
  then have "unat (x - y) + unat y = unat x + 2 ^ 32" by (simp only: of_nat_eq_iff)
  moreover have "unat x < unat y" using less by (simp add: word_less_nat_alt)
  ultimately show ?thesis using unat_less32 [of y] by linarith
qed

section \<open>Lists\<close>

lemma removeAll_remove1 [simp]: "removeAll x (remove1 x xs) = removeAll x xs"
  by (induction xs) auto

lemma count_list_removeAll: "count_list (removeAll x xs) y = (if x = y then 0 else count_list xs y)"
  by (induction xs) auto

lemma remdups_snoc: "remdups (xs @ [x]) = remdups (removeAll x xs) @ [x]"
  by (induction xs) auto

lemma filter_removeAll: "filter P (removeAll x xs) = removeAll x (filter P xs)"
  by (induction xs) auto

lemma length_takeWhile_hole: "x \<in> set xs \<Longrightarrow> \<not> P x \<Longrightarrow> length (takeWhile P xs) < length xs"
  by (induction xs) auto

lemma filter_full: "length (filter P xs) = length xs \<Longrightarrow> x \<in> set xs \<Longrightarrow> P x"
  using length_filter_less [of x xs P] by (rule_tac ccontr) simp

lemma nth_replaced:
  assumes "i < length xs" "j \<le> length xs" "i \<noteq> j"
  shows "(take j xs @ x # drop (Suc j) xs) ! i = xs ! i"
proof (cases "i < j")
  case False
  then obtain m where "i = Suc (j + m)" using assms(3) by (metis add_Suc_right less_iff_Suc_add linorder_neqE_nat)
  then show ?thesis using assms by (simp add: nth_append)
qed (use assms in \<open>simp add: nth_append\<close>)

lemma find_first: "\<forall>x \<in> set us. \<not> P x \<Longrightarrow> P c \<Longrightarrow> find P (us @ c # vs) = Some c"
  by (induction us) auto

lemma flag1_simps [simp]: "((f :: u8) OR 1) AND 1 = 1" "((f :: u8) AND NOT 1) AND 1 = 0" "((f :: u8) AND - 2) AND 1 = 0"
proof -
  show "(f OR 1) AND 1 = 1" by (rule mask_set)
  show a: "(f AND NOT 1) AND 1 = 0" by (rule mask_cleared)
  have "NOT (1 :: u8) = - 2" by simp
  then show "(f AND - 2) AND 1 = 0" using a by metis
qed

end
