(* ===== verification/KList.thy ===== *)
theory KList
  imports Prelude
begin

text \<open>
  The growable pointer list of \<^verbatim>\<open>types/src/list.c\<close>, the container every kernel queue and every
  table of the system is kept in. A \<open>list_t\<close> holds a 32 bit element count and a heap array of
  pointers that the operations reallocate to exactly that count. The theory shows that the
  array operations implement the sequence operations their names promise (locale
  \<open>seq_container\<close>, interpreted on them), and that \<open>list_sort\<close> is a stable sort.
  Not modelled: the \<open>lock\<close> field (no function of the file touches it) and \<open>list_free\<close>, which
  only returns the two heap blocks.
\<close>

section \<open>The data structure and its operations\<close>

record list_t =
  lsize :: u32
  ldata :: "ptr list"

text \<open>The bytes \<open>size * count\<close> of the EXTEND macro are computed in 32 bits, hence the slots.\<close>

definition slots :: "u32 \<Rightarrow> nat" where
  "slots n = unat (4 * n) div 4"

definition EXTEND :: "ptr \<Rightarrow> list_t \<Rightarrow> list_t" where
  "EXTEND junk l =
     (let count = lsize l + 1 in
      if count = 1 then \<lparr>lsize = count, ldata = [junk]\<rparr>
      else \<lparr>lsize = count, ldata = arr_realloc junk (ldata l) (slots count)\<rparr>)"

definition list_create :: list_t where
  "list_create = \<lparr>lsize = 0, ldata = []\<rparr>"

definition list_push_front :: "ptr \<Rightarrow> list_t \<Rightarrow> ptr \<Rightarrow> list_t" where
  "list_push_front junk l x =
     (let e = EXTEND junk l;
          d = (if lsize e > 1 then arr_memmove (ldata e) 1 0 (unat (lsize e - 1)) else ldata e)
      in e\<lparr>ldata := d[0 := x]\<rparr>)"

definition list_push_back :: "ptr \<Rightarrow> list_t \<Rightarrow> ptr \<Rightarrow> list_t" where
  "list_push_back junk l x =
     (let e = EXTEND junk l in e\<lparr>ldata := (ldata e)[unat (lsize e - 1) := x]\<rparr>)"

definition list_pop_back :: "list_t \<Rightarrow> ptr \<times> list_t" where
  "list_pop_back l =
     (if lsize l = 0 then (NULL, l)
      else let x = ldata l ! unat (lsize l - 1); n = lsize l - 1 in
        (x, if n \<noteq> 0 then \<lparr>lsize = n, ldata = arr_realloc NULL (ldata l) (slots n)\<rparr>
            else \<lparr>lsize = n, ldata = []\<rparr>))"

definition list_pop_front :: "list_t \<Rightarrow> ptr \<times> list_t" where
  "list_pop_front l =
     (if lsize l = 0 then (NULL, l)
      else let x = ldata l ! 0; n = lsize l - 1 in
        (x, if n = 0 then \<lparr>lsize = n, ldata = []\<rparr>
            else \<lparr>lsize = n,
                  ldata = arr_realloc NULL (arr_memmove (ldata l) 0 1 (unat n)) (slots n)\<rparr>))"

text \<open>The body of the loop of \<open>list_delete_element\<close> once the element is found at index \<open>i\<close>.\<close>

definition list_delete_at :: "list_t \<Rightarrow> nat \<Rightarrow> list_t" where
  "list_delete_at l i =
     (let d = (ldata l)[i := NULL]; n = lsize l - 1 in
      if n \<noteq> 0 then
        let d' = (if i \<noteq> unat n then arr_memmove d i (i + 1) (unat n - i) else d)
        in \<lparr>lsize = n, ldata = arr_realloc NULL d' (slots n)\<rparr>
      else \<lparr>lsize = n, ldata = []\<rparr>)"

function list_delete_loop :: "list_t \<Rightarrow> ptr \<Rightarrow> nat \<Rightarrow> list_t" where
  "list_delete_loop l x i =
     (if i < unat (lsize l)
      then if ldata l ! i = x then list_delete_at l i else list_delete_loop l x (Suc i)
      else l)"
  by pat_completeness auto
termination
  by (relation "measure (\<lambda>(l, x, i). unat (lsize l) - i)") auto

definition list_delete_element :: "list_t \<Rightarrow> ptr \<Rightarrow> list_t" where
  "list_delete_element l x = list_delete_loop l x 0"

definition list_head :: "list_t \<Rightarrow> ptr" where
  "list_head l = (if lsize l = 0 then NULL else ldata l ! 0)"

definition list_tail :: "list_t \<Rightarrow> ptr" where
  "list_tail l = (if lsize l = 0 then NULL else ldata l ! unat (lsize l - 1))"

function list_contains_loop :: "list_t \<Rightarrow> ptr \<Rightarrow> nat \<Rightarrow> bool" where
  "list_contains_loop l x i =
     (if i < unat (lsize l)
      then if ldata l ! i = x then True else list_contains_loop l x (Suc i)
      else False)"
  by pat_completeness auto
termination
  by (relation "measure (\<lambda>(l, x, i). unat (lsize l) - i)") auto

definition list_contains :: "list_t \<Rightarrow> ptr \<Rightarrow> bool" where
  "list_contains l x = list_contains_loop l x 0"

text \<open>
  The insertion sort. The inner loop counts \<open>j\<close> down to \<open>-1\<close>; the third argument of
  \<open>sort_shift\<close> is \<open>j + 1\<close>.
\<close>

fun sort_shift :: "('a \<Rightarrow> 'a \<Rightarrow> bool) \<Rightarrow> 'a list \<Rightarrow> 'a \<Rightarrow> nat \<Rightarrow> 'a list" where
  "sort_shift P d key 0 = d[0 := key]"
| "sort_shift P d key (Suc j) =
     (if P (d ! j) key then sort_shift P (d[Suc j := d ! j]) key j else d[Suc j := key])"

definition list_sort :: "list_t \<Rightarrow> (ptr \<Rightarrow> ptr \<Rightarrow> bool) \<Rightarrow> list_t" where
  "list_sort l P = l\<lparr>ldata := fold (\<lambda>i d. sort_shift P d (d ! i) i) [1..<unat (lsize l)] (ldata l)\<rparr>"

text \<open>A client's calls, on the list and on the sequence it stands for; the result is the returned pointer.\<close>

datatype list_op = PushFront ptr | PushBack ptr | PopFront | PopBack | Delete ptr | Head | Tail | Contains ptr

fun list_step :: "ptr \<Rightarrow> list_t \<Rightarrow> list_op \<Rightarrow> ptr \<times> list_t" where
  "list_step j l (PushFront x) = (NULL, list_push_front j l x)"
| "list_step j l (PushBack x) = (NULL, list_push_back j l x)"
| "list_step j l PopFront = list_pop_front l"
| "list_step j l PopBack = list_pop_back l"
| "list_step j l (Delete x) = (NULL, list_delete_element l x)"
| "list_step j l Head = (list_head l, l)"
| "list_step j l Tail = (list_tail l, l)"
| "list_step j l (Contains x) = (if list_contains l x then 1 else 0, l)"

fun seq_step :: "ptr list \<Rightarrow> list_op \<Rightarrow> ptr \<times> ptr list" where
  "seq_step s (PushFront x) = (NULL, x # s)"
| "seq_step s (PushBack x) = (NULL, s @ [x])"
| "seq_step s PopFront = (if s = [] then (NULL, []) else (hd s, tl s))"
| "seq_step s PopBack = (if s = [] then (NULL, []) else (last s, butlast s))"
| "seq_step s (Delete x) = (NULL, remove1 x s)"
| "seq_step s Head = (if s = [] then NULL else hd s, s)"
| "seq_step s Tail = (if s = [] then NULL else last s, s)"
| "seq_step s (Contains x) = (if x \<in> set s then 1 else 0, s)"

fun list_run :: "ptr \<Rightarrow> list_t \<Rightarrow> list_op list \<Rightarrow> ptr list \<times> list_t" where
  "list_run j l [] = ([], l)"
| "list_run j l (c # cs) = (let (r, l') = list_step j l c; (rs, l'') = list_run j l' cs in (r # rs, l''))"

fun seq_run :: "ptr list \<Rightarrow> list_op list \<Rightarrow> ptr list \<times> ptr list" where
  "seq_run s [] = ([], s)"
| "seq_run s (c # cs) = (let (r, s') = seq_step s c; (rs, s'') = seq_run s' cs in (r # rs, s''))"

declare list_delete_loop.simps [simp del] list_contains_loop.simps [simp del]

section \<open>The abstract value and the invariant\<close>

text \<open>
  The count agrees with the array, and a 32 bit address space has no room for \<open>2^30\<close> pointers.
\<close>

definition list_max :: nat where "list_max = 2 ^ 30 - 1"

definition list_inv :: "list_t \<Rightarrow> bool" where
  "list_inv l \<longleftrightarrow> length (ldata l) = unat (lsize l) \<and> unat (lsize l) \<le> list_max"

lemma slots_eq: "unat n \<le> list_max \<Longrightarrow> slots n = unat n"
  by (simp add: slots_def list_max_def unat_word_ariths)

lemma EXTEND_data:
  assumes "list_inv l" and "length (ldata l) < list_max"
  shows "EXTEND j l = \<lparr>lsize = lsize l + 1, ldata = ldata l @ [j]\<rparr>"
    and "unat (lsize l + 1) = Suc (length (ldata l))"
proof -
  have len: "length (ldata l) = unat (lsize l)" using assms by (simp add: list_inv_def)
  show u: "unat (lsize l + 1) = Suc (length (ldata l))"
    using assms by (simp add: unat_Suc32 list_inv_def list_max_def)
  have "slots (lsize l + 1) = Suc (length (ldata l))"
    using assms u by (simp add: slots_eq)
  moreover have "ldata l = []" if "lsize l + 1 = 1"
    using that len by simp
  ultimately show "EXTEND j l = \<lparr>lsize = lsize l + 1, ldata = ldata l @ [j]\<rparr>"
    by (auto simp: EXTEND_def Let_def arr_realloc_grow1)
qed


section \<open>The contract of a sequence container\<close>

text \<open>
  What the rest of the kernel relies on: under the invariant and below the capacity, the
  operations are the operations of a plain sequence. The lemmas inside the locale are the two
  disciplines the kernel builds on it: a first-in first-out queue (\<open>push_back\<close>,
  \<open>pop_front\<close>: the ready queue, the socket backlog) and a stack (\<open>push_back\<close>, \<open>pop_back\<close>:
  the wait queues, the path stack).
\<close>

locale seq_container =
  fixes seq :: "'l \<Rightarrow> 'a list"
    and inv :: "'l \<Rightarrow> bool"
    and cap :: nat
    and create :: 'l
    and push_front push_back :: "'l \<Rightarrow> 'a \<Rightarrow> 'l"
    and pop_front pop_back :: "'l \<Rightarrow> 'a \<times> 'l"
    and delete :: "'l \<Rightarrow> 'a \<Rightarrow> 'l"
    and contains :: "'l \<Rightarrow> 'a \<Rightarrow> bool"
  assumes create: "inv create" "seq create = []"
    and push_front: "inv l \<Longrightarrow> length (seq l) < cap \<Longrightarrow>
      inv (push_front l x) \<and> seq (push_front l x) = x # seq l"
    and push_back: "inv l \<Longrightarrow> length (seq l) < cap \<Longrightarrow>
      inv (push_back l x) \<and> seq (push_back l x) = seq l @ [x]"
    and pop_front: "inv l \<Longrightarrow> seq l \<noteq> [] \<Longrightarrow>
      inv (snd (pop_front l)) \<and> fst (pop_front l) = hd (seq l) \<and> seq (snd (pop_front l)) = tl (seq l)"
    and pop_back: "inv l \<Longrightarrow> seq l \<noteq> [] \<Longrightarrow>
      inv (snd (pop_back l)) \<and> fst (pop_back l) = last (seq l) \<and> seq (snd (pop_back l)) = butlast (seq l)"
    and delete: "inv l \<Longrightarrow> inv (delete l x) \<and> seq (delete l x) = remove1 x (seq l)"
    and contains: "inv l \<Longrightarrow> contains l x \<longleftrightarrow> x \<in> set (seq l)"
begin

fun pop_fronts :: "nat \<Rightarrow> 'l \<Rightarrow> 'a list \<times> 'l" where
  "pop_fronts 0 l = ([], l)"
| "pop_fronts (Suc n) l =
     (let (x, l') = pop_front l; (xs, l'') = pop_fronts n l' in (x # xs, l''))"

lemma push_backs:
  "inv l \<Longrightarrow> length (seq l) + length xs \<le> cap \<Longrightarrow>
   inv (foldl push_back l xs) \<and> seq (foldl push_back l xs) = seq l @ xs"
proof (induction xs arbitrary: l)
  case Nil
  then show ?case by simp
next
  case (Cons x xs)
  then have "inv (push_back l x)" "seq (push_back l x) = seq l @ [x]"
    using push_back [of l x] by auto
  with Cons.IH [of "push_back l x"] Cons.prems show ?case by simp
qed

lemma pop_fronts:
  "inv l \<Longrightarrow> n \<le> length (seq l) \<Longrightarrow>
   fst (pop_fronts n l) = take n (seq l) \<and> inv (snd (pop_fronts n l)) \<and>
   seq (snd (pop_fronts n l)) = drop n (seq l)"
proof (induction n arbitrary: l)
  case 0
  then show ?case by simp
next
  case (Suc n)
  then have ne: "seq l \<noteq> []" by auto
  have p: "inv (snd (pop_front l))" "fst (pop_front l) = hd (seq l)" "seq (snd (pop_front l)) = tl (seq l)"
    using pop_front [OF Suc.prems(1) ne] by auto
  have "n \<le> length (seq (snd (pop_front l)))"
    using Suc.prems p(3) by simp
  from Suc.IH [OF p(1) this] p ne show ?case
    by (simp add: split_beta take_Suc drop_Suc)
qed

lemma fifo:
  assumes "inv l" and "seq l = []" and "length xs \<le> cap"
  shows "fst (pop_fronts (length xs) (foldl push_back l xs)) = xs"
  using push_backs [of l xs] pop_fronts [of "foldl push_back l xs" "length xs"] assms by simp

lemma push_pop_back:
  assumes "inv l" and "length (seq l) < cap"
  shows "fst (pop_back (push_back l x)) = x \<and> seq (snd (pop_back (push_back l x))) = seq l"
  using push_back [OF assms, of x] pop_back [of "push_back l x"] by simp

lemma push_delete:
  assumes "inv l" and "length (seq l) < cap" and "x \<notin> set (seq l)"
  shows "seq (delete (push_back l x) x) = seq l \<and> \<not> contains (delete (push_back l x) x) x"
  using push_back [OF assms(1,2), of x] delete [of "push_back l x" x]
    contains [of "delete (push_back l x) x" x] assms(3)
  by (simp add: remove1_append)

end

section \<open>The operations satisfy the contract\<close>

lemma list_inv_Nil: "list_inv l \<Longrightarrow> lsize l = 0 \<longleftrightarrow> ldata l = []"
  by (auto simp: list_inv_def unat_eq_zero32 [symmetric])

lemma list_push_back_seq [abs_simps]:
  assumes "list_inv l" and "length (ldata l) < list_max"
  shows "list_push_back j l x = \<lparr>lsize = lsize l + 1, ldata = ldata l @ [x]\<rparr>"
  using EXTEND_data(1) [OF assms, of j] EXTEND_data(2) [OF assms] assms
  by (simp add: list_push_back_def list_inv_def Let_def list_update_append)

lemma list_push_front_seq [abs_simps]:
  assumes "list_inv l" and "length (ldata l) < list_max"
  shows "list_push_front j l x = \<lparr>lsize = lsize l + 1, ldata = x # ldata l\<rparr>"
proof (cases "ldata l = []")
  case True
  then have "lsize l = 0" using assms by (simp add: list_inv_Nil)
  with True EXTEND_data(1) [OF assms, of j] EXTEND_data(2) [OF assms] show ?thesis
    by (simp add: list_push_front_def)
next
  case False
  then have "unat (lsize l) > 0" using assms by (simp add: list_inv_def flip: length_greater_0_conv)
  then have "lsize l + 1 > 1"
    using EXTEND_data(2) [OF assms] assms by (simp add: word_less_nat_alt list_inv_def)
  moreover have "unat (lsize l + 1 - 1) = length (ldata l)"
    using assms by (simp add: list_inv_def)
  moreover have "arr_memmove (ldata l @ [j]) 1 0 (length (ldata l)) = hd (ldata l) # ldata l"
    using False by (cases "ldata l") (simp_all add: arr_memmove_def)
  ultimately show ?thesis
    using EXTEND_data(1) [OF assms, of j] EXTEND_data(2) [OF assms] by (simp add: list_push_front_def Let_def)
qed

lemma list_inv_pred:
  assumes "list_inv l" and "lsize l \<noteq> 0"
  shows "unat (lsize l - 1) = length (ldata l) - 1" and "slots (lsize l - 1) = length (ldata l) - 1"
    and "ldata l \<noteq> []" and "lsize l - 1 = 0 \<longleftrightarrow> length (ldata l) = 1"
proof -
  show u: "unat (lsize l - 1) = length (ldata l) - 1"
    using assms by (simp add: list_inv_def unat_pred32)
  then show "slots (lsize l - 1) = length (ldata l) - 1"
    using assms by (subst slots_eq) (auto simp: list_inv_def)
  show ne: "ldata l \<noteq> []" using assms by (simp add: list_inv_Nil)
  show "lsize l - 1 = 0 \<longleftrightarrow> length (ldata l) = 1"
    using u ne unat_eq_zero32 [of "lsize l - 1"] by (cases "ldata l") auto
qed

lemma list_pop_back_seq [abs_simps]:
  assumes "list_inv l" and "lsize l \<noteq> 0"
  shows "list_pop_back l = (last (ldata l), \<lparr>lsize = lsize l - 1, ldata = butlast (ldata l)\<rparr>)"
  using assms list_inv_pred [OF assms]
  by (auto simp: list_pop_back_def Let_def last_conv_nth butlast_conv_take length_Suc_conv)

lemma list_pop_front_seq [abs_simps]:
  assumes "list_inv l" and "lsize l \<noteq> 0"
  shows "list_pop_front l = (hd (ldata l), \<lparr>lsize = lsize l - 1, ldata = tl (ldata l)\<rparr>)"
proof (cases "length (ldata l) = 1")
  case True
  then show ?thesis
    using assms list_inv_pred [OF assms]
    by (auto simp: list_pop_front_def Let_def length_Suc_conv)
next
  case False
  obtain a xs where d: "ldata l = a # xs" using list_inv_pred(3) [OF assms] by (cases "ldata l") auto
  have "take (length xs) (arr_memmove (a # xs) 0 1 (length xs)) = xs"
    by (simp add: arr_memmove_def)
  moreover have "length (arr_memmove (a # xs) 0 1 (length xs)) = Suc (length xs)"
    by simp
  ultimately show ?thesis
    using assms list_inv_pred [OF assms] False d
    by (simp add: list_pop_front_def Let_def)
qed

lemma remove1_split:
  "ldata l ! i = x \<Longrightarrow> i < length (ldata l) \<Longrightarrow> x \<notin> set (take i (ldata l)) \<Longrightarrow>
   remove1 x (ldata l) = take i (ldata l) @ drop (Suc i) (ldata l)"
  by (metis id_take_nth_drop remove1.simps(2) remove1_append)

lemma list_delete_at_seq:
  assumes inv: "list_inv l" and i: "i < length (ldata l)"
  shows "list_delete_at l i =
    \<lparr>lsize = lsize l - 1, ldata = take i (ldata l) @ drop (Suc i) (ldata l)\<rparr>"
proof -
  have nz: "lsize l \<noteq> 0" using inv i by (auto simp: list_inv_Nil)
  note p = list_inv_pred [OF inv nz]
  let ?d = "(ldata l)[i := NULL]"
  have mv: "take (length (ldata l) - 1) (arr_memmove ?d i (i + 1) (length (ldata l) - 1 - i)) =
      take i (ldata l) @ drop (Suc i) (ldata l)"
    using i by (simp add: arr_memmove_def)
  have ln: "length (arr_memmove ?d i (i + 1) (length (ldata l) - 1 - i)) = length (ldata l)"
    using i by simp
  show ?thesis
  proof (cases "length (ldata l) = 1")
    case True
    then show ?thesis using p i by (simp add: list_delete_at_def Let_def length_Suc_conv)
  next
    case False
    show ?thesis
    proof (cases "i = length (ldata l) - 1")
      case True
      then show ?thesis using p False i by (simp add: list_delete_at_def Let_def)
    next
      case False2: False
      then show ?thesis using p False i mv ln by (simp add: list_delete_at_def Let_def)
    qed
  qed
qed

lemma list_delete_loop_seq:
  "list_inv l \<Longrightarrow> x \<notin> set (take i (ldata l)) \<Longrightarrow>
   list_delete_loop l x i =
     (if x \<in> set (ldata l) then \<lparr>lsize = lsize l - 1, ldata = remove1 x (ldata l)\<rparr> else l)"
proof (induction l x i rule: list_delete_loop.induct)
  case (1 l x i)
  have len: "unat (lsize l) = length (ldata l)" using "1.prems" by (simp add: list_inv_def)
  show ?case
  proof (cases "i < length (ldata l)")
    case True
    show ?thesis
    proof (cases "ldata l ! i = x")
      case eq: True
      then have "x \<in> set (ldata l)" using True by auto
      with eq True len show ?thesis
        using list_delete_at_seq [OF "1.prems"(1) True] remove1_split [OF eq True "1.prems"(2)]
        by (simp add: list_delete_loop.simps [of l x i])
    next
      case False
      then have "x \<notin> set (take (Suc i) (ldata l))"
        using "1.prems" True by (simp add: take_Suc_conv_app_nth)
      with "1.IH" "1.prems" True False len show ?thesis
        by (simp add: list_delete_loop.simps [of l x i])
    qed
  next
    case False
    with "1.prems" len show ?thesis by (simp add: list_delete_loop.simps [of l x i])
  qed
qed

lemma list_delete_element_seq [abs_simps]:
  "list_inv l \<Longrightarrow> list_delete_element l x =
     (if x \<in> set (ldata l) then \<lparr>lsize = lsize l - 1, ldata = remove1 x (ldata l)\<rparr> else l)"
  by (simp add: list_delete_element_def list_delete_loop_seq)

lemma list_contains_loop_seq:
  "list_inv l \<Longrightarrow> list_contains_loop l x i \<longleftrightarrow> x \<in> set (drop i (ldata l))"
proof (induction l x i rule: list_contains_loop.induct)
  case (1 l x i)
  then show ?case
    by (cases "i < length (ldata l)")
      (auto simp: list_contains_loop.simps [of l x i] list_inv_def Cons_nth_drop_Suc [symmetric])
qed

lemma list_contains_seq [abs_simps]: "list_inv l \<Longrightarrow> list_contains l x \<longleftrightarrow> x \<in> set (ldata l)"
  by (simp add: list_contains_def list_contains_loop_seq)

lemma list_inv_push:
  "list_inv l \<Longrightarrow> length (ldata l) < list_max \<Longrightarrow> length d = Suc (length (ldata l)) \<Longrightarrow>
   list_inv \<lparr>lsize = lsize l + 1, ldata = d\<rparr>"
  using EXTEND_data(2) [of l] by (simp add: list_inv_def)

lemma list_inv_pop:
  "list_inv l \<Longrightarrow> ldata l \<noteq> [] \<Longrightarrow> length d = length (ldata l) - 1 \<Longrightarrow>
   list_inv \<lparr>lsize = lsize l - 1, ldata = d\<rparr>"
  using list_inv_pred(1) [of l] list_inv_Nil [of l] by (auto simp: list_inv_def)

interpretation kl: seq_container ldata list_inv list_max list_create
  "list_push_front j" "list_push_back j" list_pop_front list_pop_back
  list_delete_element list_contains for j
proof (unfold_locales, goal_cases)
  case 1 show ?case by (simp add: list_inv_def list_create_def)
next
  case 2 show ?case by (simp add: list_create_def)
next
  case (3 l x) then show ?case by (simp add: list_push_front_seq list_inv_push)
next
  case (4 l x) then show ?case by (simp add: list_push_back_seq list_inv_push)
next
  case (5 l) then show ?case by (simp add: list_pop_front_seq list_inv_Nil list_inv_pop)
next
  case (6 l) then show ?case by (simp add: list_pop_back_seq list_inv_Nil list_inv_pop)
next
  case (7 l x)
  then show ?case
    by (auto simp: list_delete_element_seq length_remove1 remove1_idem intro!: list_inv_pop)
next
  case (8 l x) then show ?case by (simp add: list_contains_seq)
qed

lemma list_head_tail_seq:
  assumes "list_inv l" and "ldata l \<noteq> []"
  shows "list_head l = hd (ldata l)" and "list_tail l = last (ldata l)"
  using assms list_inv_pred(1) [of l]
  by (simp_all add: list_head_def list_tail_def list_inv_Nil hd_conv_nth last_conv_nth)


section \<open>Refinement of a whole run\<close>

lemma list_step_seq:
  assumes "list_inv l" and "length (ldata l) < list_max"
  shows "fst (list_step j l c) = fst (seq_step (ldata l) c) \<and> list_inv (snd (list_step j l c)) \<and>
    ldata (snd (list_step j l c)) = snd (seq_step (ldata l) c)"
proof (cases "ldata l = []")
  case True
  then have "lsize l = 0" using assms by (simp add: list_inv_Nil)
  with True assms show ?thesis
    by (cases c) (simp_all add: kl.push_front kl.push_back kl.delete kl.contains
        list_pop_front_def list_pop_back_def list_head_def list_tail_def)
next
  case False
  with assms show ?thesis
    by (cases c) (simp_all add: kl.push_front kl.push_back kl.delete kl.contains
        kl.pop_front kl.pop_back list_head_tail_seq)
qed

lemma seq_step_length: "length (snd (seq_step s c)) \<le> Suc (length s)"
  by (cases c) (auto simp: length_remove1)

lemma list_run_seq:
  "list_inv l \<Longrightarrow> length (ldata l) + length cs \<le> list_max \<Longrightarrow>
   fst (list_run j l cs) = fst (seq_run (ldata l) cs) \<and> list_inv (snd (list_run j l cs)) \<and>
   ldata (snd (list_run j l cs)) = snd (seq_run (ldata l) cs)"
proof (induction cs arbitrary: l)
  case Nil
  then show ?case by simp
next
  case (Cons c cs)
  let ?l = "snd (list_step j l c)"
  have st: "fst (list_step j l c) = fst (seq_step (ldata l) c)" "list_inv ?l"
      "ldata ?l = snd (seq_step (ldata l) c)"
    using list_step_seq [of l j c] Cons.prems by auto
  have "length (ldata ?l) + length cs \<le> list_max"
    using seq_step_length [of "ldata l" c] Cons.prems st(3) by simp
  from Cons.IH [OF st(2) this] st show ?case by (simp add: split_beta)
qed

section \<open>Sorting\<close>

lemma length_sort_shift [simp]: "length (sort_shift P d key j) = length d"
  by (induction j arbitrary: d) simp_all

text \<open>On a sorted prefix the inner loop inserts the key behind every element that is not above it.\<close>

lemma sort_shift_split:
  "j < length d \<Longrightarrow> \<exists>k \<le> j. (\<forall>i. k \<le> i \<and> i < j \<longrightarrow> P (d ! i) key) \<and> (k > 0 \<longrightarrow> \<not> P (d ! (k - 1)) key) \<and>
   sort_shift P d key j = take k d @ key # take (j - k) (drop k d) @ drop (Suc j) d"
proof (induction j arbitrary: d)
  case 0
  then show ?case by (cases d) auto
next
  case (Suc j)
  show ?case
  proof (cases "P (d ! j) key")
    case False
    then show ?thesis
      using Suc.prems by (intro exI [of _ "Suc j"]) (auto simp: upd_conv_take_nth_drop)
  next
    case True
    let ?d = "d[Suc j := d ! j]"
    obtain k where k: "k \<le> j" "\<forall>i. k \<le> i \<and> i < j \<longrightarrow> P (?d ! i) key" "k > 0 \<longrightarrow> \<not> P (?d ! (k - 1)) key"
      "sort_shift P ?d key j = take k ?d @ key # take (j - k) (drop k ?d) @ drop (Suc j) ?d"
      using Suc.IH [of ?d] Suc.prems by auto
    have "take (Suc j - k) (drop k d) = take (j - k) (drop k d) @ [d ! j]"
      using k(1) Suc.prems by (simp add: Suc_diff_le take_Suc_conv_app_nth)
    moreover have "drop (Suc j) ?d = d ! j # drop (Suc (Suc j)) d"
      using Suc.prems by (simp add: Cons_nth_drop_Suc [symmetric])
    moreover have "take k ?d = take k d" "take (j - k) (drop k ?d) = take (j - k) (drop k d)"
      using k(1) by (simp_all add: drop_update_swap)
    moreover have "\<forall>i. k \<le> i \<and> i < Suc j \<longrightarrow> P (d ! i) key"
      using k(2) True by (auto simp: less_Suc_eq)
    ultimately show ?thesis using k True by (intro exI [of _ k]) auto
  qed
qed


lemma insert_sorted_stable:
  assumes xs: "xs = sort_key f zs" and k: "k \<le> length xs"
    and above: "\<forall>i. k \<le> i \<and> i < length xs \<longrightarrow> f x < f (xs ! i)"
    and below: "k > 0 \<longrightarrow> \<not> f x < f (xs ! (k - 1))"
  shows "take k xs @ x # drop k xs = sort_key f (zs @ [x])"
proof (rule sym, rule properties_for_sort_key)
  have srt: "sorted (map f xs)" by (simp add: xs)
  have hi: "\<forall>y \<in> set (drop k xs). f x < f y"
    using above k by (auto simp: in_set_conv_nth)
  have lo: "\<forall>y \<in> set (take k xs). f y \<le> f x"
  proof
    fix y assume "y \<in> set (take k xs)"
    then obtain i where i: "i < k" "y = xs ! i" using k by (auto simp: in_set_conv_nth)
    then have "f y \<le> f (xs ! (k - 1))"
      using srt k sorted_nth_mono [of "map f xs" i "k - 1"] by simp
    with below i show "f y \<le> f x" by (meson gr_zeroI less_nat_zero_code linorder_not_less order_trans)
  qed
  show "mset (take k xs @ x # drop k xs) = mset (zs @ [x])"
  proof -
    have "mset (take k xs) + mset (drop k xs) = mset zs"
      by (simp add: xs flip: mset_append)
    then show ?thesis by simp
  qed
  have srt2: "sorted (map f (take k xs))" "sorted (map f (drop k xs))"
    using srt by (simp_all add: sorted_wrt_take sorted_wrt_drop take_map [symmetric] drop_map [symmetric])
  show "sorted (map f (take k xs @ x # drop k xs))"
    using srt2 hi lo by (fastforce simp: sorted_append)
  fix a
  have "filter (\<lambda>y. f a = f y) (take k xs) @ filter (\<lambda>y. f a = f y) (drop k xs) = filter (\<lambda>y. f a = f y) xs"
    by (simp flip: filter_append)
  also have "\<dots> = filter (\<lambda>y. f a = f y) zs"
    using sort_key_stable [of f "f a" zs] by (simp add: xs eq_commute)
  finally have split: "filter (\<lambda>y. f a = f y) (take k xs) @ filter (\<lambda>y. f a = f y) (drop k xs) =
    filter (\<lambda>y. f a = f y) zs" .
  have "filter (\<lambda>y. f a = f y) (drop k xs) = []" if "f a = f x"
    using hi that by (auto simp: filter_empty_conv)
  with split show "filter (\<lambda>y. f a = f y) (take k xs @ x # drop k xs) = filter (\<lambda>y. f a = f y) (zs @ [x])"
    by auto
qed

lemma sort_loop_stable:
  assumes P: "\<And>a b. P a b \<longleftrightarrow> f b < (f a :: 'k::linorder)"
  shows "1 \<le> n \<Longrightarrow> n \<le> length d \<Longrightarrow>
    fold (\<lambda>i d. sort_shift P d (d ! i) i) [1..<n] d = sort_key f (take n d) @ drop n d"
proof (induction n)
  case 0
  then show ?case by simp
next
  case (Suc n)
  show ?case
  proof (cases "n = 0")
    case True
    with Suc.prems show ?thesis by (cases d) simp_all
  next
    case False
    define xs where "xs = sort_key f (take n d)"
    let ?xs = xs and ?x = "d ! n" and ?ys = "drop (Suc n) d"
    have d: "fold (\<lambda>i d. sort_shift P d (d ! i) i) [1..<n] d = ?xs @ ?x # ?ys"
      using Suc False by (simp add: Cons_nth_drop_Suc xs_def)
    have len: "length ?xs = n" using Suc.prems by (simp add: xs_def)
    obtain k where k: "k \<le> n" "\<forall>i. k \<le> i \<and> i < n \<longrightarrow> P ((?xs @ ?x # ?ys) ! i) ?x"
      "k > 0 \<longrightarrow> \<not> P ((?xs @ ?x # ?ys) ! (k - 1)) ?x"
      "sort_shift P (?xs @ ?x # ?ys) ?x n =
        take k (?xs @ ?x # ?ys) @ ?x # take (n - k) (drop k (?xs @ ?x # ?ys)) @ drop (Suc n) (?xs @ ?x # ?ys)"
      using sort_shift_split [of n "?xs @ ?x # ?ys" P ?x] len by auto
    have "take k ?xs @ ?x # drop k ?xs = sort_key f (take n d @ [?x])"
      using k(1,2,3) len by (intro insert_sorted_stable) (auto simp: P nth_append xs_def [symmetric] split: if_splits)
    moreover have "take n d @ [?x] = take (Suc n) d"
      using Suc.prems by (simp add: take_Suc_conv_app_nth)
    ultimately show ?thesis
      using k(1,4) d len False by (simp add: nth_append)
  qed
qed

text \<open>The sort on a sequence, for the clients whose lists are sequences.\<close>

definition sort_seq :: "('a \<Rightarrow> 'a \<Rightarrow> bool) \<Rightarrow> 'a list \<Rightarrow> 'a list" where
  "sort_seq P xs = fold (\<lambda>i d. sort_shift P d (d ! i) i) [1..<length xs] xs"

lemma sort_seq_stable:
  assumes "\<And>a b. P a b \<longleftrightarrow> f b < (f a :: 'k::linorder)"
  shows "sort_seq P xs = sort_key f xs"
  using sort_loop_stable [OF assms, of "length xs" xs] by (cases xs) (simp_all add: sort_seq_def)

lemma mset_sort_shift: "j < length d \<Longrightarrow> key = d ! j \<Longrightarrow> mset (sort_shift P d key j) = mset d"
proof -
  assume j: "j < length d" and key: "key = d ! j"
  obtain k where k: "k \<le> j" "sort_shift P d key j = take k d @ key # take (j - k) (drop k d) @ drop (Suc j) d"
    using sort_shift_split [OF j, of P key] by blast
  have "take j d = take k d @ take (j - k) (drop k d)" using k(1) by (simp flip: take_add)
  then have "mset d = mset ((take k d @ take (j - k) (drop k d)) @ key # drop (Suc j) d)"
    using id_take_nth_drop [OF j] key by metis
  then show ?thesis unfolding k(2) by simp
qed

lemma mset_sort_seq [simp]: "mset (sort_seq P xs) = mset xs"
proof -
  have "n \<le> length xs \<Longrightarrow> length (fold (\<lambda>i d. sort_shift P d (d ! i) i) [1..<n] xs) = length xs \<and>
      mset (fold (\<lambda>i d. sort_shift P d (d ! i) i) [1..<n] xs) = mset xs" for n
    by (induction n) (auto simp: mset_sort_shift)
  then show ?thesis by (simp add: sort_seq_def)
qed

lemma sort_seq_set [simp]: "set (sort_seq P xs) = set xs" "distinct (sort_seq P xs) = distinct xs" "length (sort_seq P xs) = length xs"
  using mset_sort_seq [of P xs] by (metis set_mset_mset, metis mset_eq_imp_distinct_iff, metis size_mset)

section \<open>Properties\<close>

text \<open>
  C35: every sequence of calls on a fresh list, as long as fewer than \<open>2^30\<close> of them are made,
  returns exactly the pointers that the same calls on a mathematical sequence return, leaves the
  list holding that sequence, and keeps the invariant (the count is the array's length),
  whatever the heap blocks held before.
\<close>

theorem list_run_refines_seq:
  assumes "length cs \<le> list_max"
  shows "fst (list_run junk list_create cs) = fst (seq_run [] cs) \<and>
    ldata (snd (list_run junk list_create cs)) = snd (seq_run [] cs) \<and>
    list_inv (snd (list_run junk list_create cs))"
  using list_run_seq [of list_create cs junk] assms kl.create by simp

theorem list_run_refines_seq_witness:
  "length [PushBack 7, PushFront 9, PushBack 8, Delete 7, PopFront, Tail] \<le> list_max \<and>
   fst (list_run 5 list_create [PushBack 7, PushFront 9, PushBack 8, Delete 7, PopFront, Tail]) =
     [0, 0, 0, 0, 9, 8]"
  using list_run_refines_seq [of "[PushBack 7, PushFront 9, PushBack 8, Delete 7, PopFront, Tail]" 5]
  by (simp add: list_max_def)

text \<open>
  C36: when the predicate handed to \<open>list_sort\<close> says "the first argument's key is above the
  second's", the list ends up sorted by that key, holding the same elements, with elements of
  equal key in their original order.
\<close>

theorem list_sort_is_stable_sort:
  fixes key :: "ptr \<Rightarrow> 'k::linorder"
  assumes "list_inv l" and "\<And>a b. P a b \<longleftrightarrow> key b < key a"
  shows "list_sort l P = l\<lparr>ldata := sort_key key (ldata l)\<rparr>"
proof (cases "unat (lsize l) = 0")
  case True
  with assms show ?thesis by (simp add: list_sort_def list_inv_def)
next
  case False
  then have "1 \<le> unat (lsize l)" "unat (lsize l) = length (ldata l)"
    using assms by (simp_all add: list_inv_def)
  with sort_loop_stable [of P key "length (ldata l)" "ldata l"] assms(2) show ?thesis
    by (simp add: list_sort_def)
qed

theorem list_sort_is_stable_sort_witness:
  "list_inv \<lparr>lsize = 3, ldata = [0x21, 0x13, 0x11]\<rparr> \<and>
   ldata (list_sort \<lparr>lsize = 3, ldata = [0x21, 0x13, 0x11]\<rparr>
     (\<lambda>a b. unat (b div 16) < unat (a div 16))) = [0x13, 0x11, 0x21]"
proof -
  have inv: "list_inv \<lparr>lsize = 3, ldata = [0x21, 0x13, 0x11]\<rparr>"
    by (simp add: list_inv_def list_max_def)
  show ?thesis
    using inv list_sort_is_stable_sort [OF inv, of "\<lambda>a b. unat (b div 16) < unat (a div 16)"
        "\<lambda>x. unat (x div 16)"]
    by (simp add: insort_key_def)
qed

end
