(* ===== verification/Udivmod.thy ===== *)
theory Udivmod
  imports Prelude "HOL-Library.While_Combinator"
begin

text \<open>
  The 64 bit unsigned division the compiler calls on the 32 bit target:
  \<^verbatim>\<open>libc/src/udivmoddi4.c\<close>, \<^verbatim>\<open>udivdi3.c\<close> and \<^verbatim>\<open>umoddi3.c\<close>. The routine shifts the divisor left
  until its top bit is set and then subtracts it bit by bit. All values are 64 bit words, so a
  lost carry would show: the theorem is that quotient and remainder are the exact ones for every
  numerator and every nonzero divisor. A zero divisor executes \<open>1 / 0\<close>, which traps: \<open>None\<close>.
\<close>

section \<open>The routine\<close>

text \<open>The first loop, \<open>while ((int64_t)den >= 0)\<close>; on a zero divisor it would not end, hence the option.\<close>

definition udm_justify :: "u64 \<Rightarrow> (u64 \<times> u64) option" where
  "udm_justify den = while_option (\<lambda>(den, qbit). sint den \<ge> 0)
     (\<lambda>(den, qbit). (push_bit 1 den, push_bit 1 qbit)) (den, 1)"

function udm_subtract :: "u64 \<Rightarrow> u64 \<Rightarrow> u64 \<Rightarrow> u64 \<Rightarrow> u64 \<times> u64" where
  "udm_subtract num den quot qbit =
     (if qbit \<noteq> 0 then
        (if den \<le> num then udm_subtract (num - den) (drop_bit 1 den) (quot + qbit) (drop_bit 1 qbit)
         else udm_subtract num (drop_bit 1 den) quot (drop_bit 1 qbit))
      else (quot, num))"
  by pat_completeness auto
termination
proof (relation "measure (\<lambda>(num, den, quot, qbit). unat qbit)")
  fix num den quot qbit :: u64
  assume "qbit \<noteq> 0"
  then have "unat (drop_bit 1 qbit) < unat qbit"
    by (simp only: unat_half) (simp add: unat_gt_0)
  then show "((num - den, drop_bit 1 den, quot + qbit, drop_bit 1 qbit), num, den, quot, qbit)
      \<in> measure (\<lambda>(num, den, quot, qbit). unat qbit)"
    and "((num, drop_bit 1 den, quot, drop_bit 1 qbit), num, den, quot, qbit)
      \<in> measure (\<lambda>(num, den, quot, qbit). unat qbit)" by simp_all
qed simp

declare udm_subtract.simps [simp del]

definition udivmoddi4 :: "u64 \<Rightarrow> u64 \<Rightarrow> (u64 \<times> u64) option" where
  "udivmoddi4 num den =
     (if den = 0 then None
      else case udm_justify den of
        None \<Rightarrow> None
      | Some (d, qbit) \<Rightarrow> Some (udm_subtract num d 0 qbit))"

definition udivdi3 :: "u64 \<Rightarrow> u64 \<Rightarrow> u64 option" where
  "udivdi3 a b = map_option fst (udivmoddi4 a b)"

definition umoddi3 :: "u64 \<Rightarrow> u64 \<Rightarrow> u64 option" where
  "umoddi3 a b = map_option snd (udivmoddi4 a b)"

section \<open>The two loops\<close>

lemma unat_double64: "unat (x :: u64) < 2 ^ 63 \<Longrightarrow> unat (push_bit 1 x) = 2 * unat x"
  by (simp add: push_bit_eq_mult unat_word_ariths)


text \<open>The first loop ends, with the divisor shifted by some \<open>k\<close> so that its top bit is set.\<close>

lemma udm_justify_spec:
  assumes "den \<noteq> 0"
  shows "\<exists>k d q. udm_justify den = Some (d, q) \<and> k < 64 \<and> unat q = 2 ^ k \<and> unat d = unat den * 2 ^ k \<and>
    2 ^ 63 \<le> unat d"
proof -
  let ?b = "\<lambda>(d :: u64, q :: u64). sint d \<ge> 0" and ?c = "\<lambda>(d :: u64, q :: u64). (push_bit 1 d, push_bit 1 q)"
  let ?I = "\<lambda>(d :: u64, q :: u64). \<exists>k. unat q = 2 ^ k \<and> unat d = unat den * 2 ^ k"
  have pos: "unat den > 0" using assms by (simp add: unat_gt_0)
  have step: "?I (?c s) \<and> 2 ^ 64 - unat (fst (?c s)) < 2 ^ 64 - unat (fst s)" if "?I s" and "?b s" for s
  proof -
    obtain d q where s: "s = (d, q)" by (cases s)
    with that obtain k where k: "unat q = 2 ^ k" "unat d = unat den * 2 ^ k" by auto
    have d63: "unat d < 2 ^ 63" using that s by (simp add: sint_nonneg_iff)
    then have "2 ^ k < (2 :: nat) ^ 63" using k pos by (metis le_less_trans mult_le_mono1 nat_mult_1 Suc_leI One_nat_def)
    then have "unat (push_bit 1 q) = 2 ^ Suc k" "unat (push_bit 1 d) = unat den * 2 ^ Suc k"
      using k d63 unat_double64 [of q] unat_double64 [of d] by simp_all
    moreover have "unat d < unat (push_bit 1 d)" "unat (push_bit 1 d) < 2 ^ 64"
      using d63 k pos unat_double64 [of d] by simp_all
    ultimately show ?thesis using s by (auto intro!: exI [of _ "Suc k"])
  qed
  have init: "?I (den, 1)" by (auto intro: exI [of _ 0])
  have "\<exists>t. while_option ?b ?c (den, 1) = Some t"
    by (rule measure_while_option_Some [of ?I ?b ?c "\<lambda>s. 2 ^ 64 - unat (fst s)"]) (fact step, fact init)
  then obtain t where t: "while_option ?b ?c (den, 1) = Some t" by (elim exE)
  obtain d q where dq: "t = (d, q)" by (cases t)
  have "?I t" by (rule while_option_rule [of ?I ?b ?c, OF conjunct1 [OF step] t init])
  then obtain k where k: "unat q = 2 ^ k" "unat d = unat den * 2 ^ k" using dq by auto
  have "\<not> ?b t" by (rule while_option_stop [OF t])
  then have "2 ^ 63 \<le> unat d" using dq by (simp add: sint_nonneg_iff)
  moreover have "k < 64"
  proof -
    have "(2 :: nat) ^ k < 2 ^ 64" using k(1) unat_less64 [of q] by simp
    then show ?thesis by (simp only: power_strict_increasing_iff) 
  qed
  ultimately show ?thesis using t dq k by (auto simp: udm_justify_def)
qed

text \<open>
  The second loop, entered with \<open>qbit = 2^k\<close>: the part of the numerator not yet accounted for is
  below twice the shifted divisor, and what has been subtracted is \<open>quot\<close> times the divisor.
\<close>

lemma udm_subtract_zero: "udm_subtract num d quot 0 = (quot, num)"
  by (simp add: udm_subtract.simps [of num d quot 0])

lemma udm_subtract_spec:
  "unat q = 2 ^ k \<Longrightarrow> unat d = den * 2 ^ k \<Longrightarrow> unat num < den * 2 ^ Suc k \<Longrightarrow>
   unat quot * den + unat num = n \<Longrightarrow> n < 2 ^ 64 \<Longrightarrow> den > 0 \<Longrightarrow>
   \<exists>r. udm_subtract num d quot q = r \<and> unat (fst r) * den + unat (snd r) = n \<and> unat (snd r) < den"
proof (induction k arbitrary: num d quot q)
  case 0
  then have q: "q = 1" by (metis power_0 unat_1 unsigned_word_eqI)
  have "drop_bit 1 q = 0" using q by (simp add: drop_bit_eq_div)
  then have eq: "udm_subtract num d quot q = (if d \<le> num then (quot + q, num - d) else (quot, num))"
    using q udm_subtract.simps [of num d quot q] by (simp add: udm_subtract_zero)
  show ?case
  proof (cases "d \<le> num")
    case True
    then have sub: "unat (num - d) = unat num - den" "den \<le> unat num"
      using "0.prems"(2) by (simp_all add: unat_sub word_le_nat_alt)
    have "(unat quot + 1) * den \<le> n" using "0.prems"(4) sub by simp
    then have "unat quot + 1 < 2 ^ 64"
      using "0.prems"(5,6) by (metis le_less_trans mult_le_mono2 nat_mult_1_right Suc_leI One_nat_def)
    then have "unat (quot + q) = unat quot + 1" using q by (simp add: unat_word_ariths)
    then show ?thesis using True eq sub "0.prems" by simp
  next
    case False
    then show ?thesis using eq "0.prems" by (simp add: word_le_nat_alt)
  qed
next
  case (Suc k)
  have half: "unat (drop_bit 1 q) = 2 ^ k" "unat (drop_bit 1 d) = den * 2 ^ k"
    using Suc.prems by (simp_all only: unat_half) simp_all
  have q0: "q \<noteq> 0" using Suc.prems(1) by auto
  show ?case
  proof (cases "d \<le> num")
    case True
    then have sub: "unat (num - d) = unat num - den * 2 ^ Suc k" "den * 2 ^ Suc k \<le> unat num"
      using Suc.prems(2) by (simp_all add: unat_sub word_le_nat_alt)
    have sum: "(unat quot + 2 ^ Suc k) * den \<le> n"
      using Suc.prems(4) sub by (simp add: algebra_simps)
    then have "unat quot + 2 ^ Suc k < 2 ^ 64"
      using Suc.prems(5,6) by (metis le_less_trans mult_le_mono2 nat_mult_1_right Suc_leI One_nat_def)
    then have add: "unat (quot + q) = unat quot + 2 ^ Suc k"
      using Suc.prems(1) by (simp add: unat_word_ariths)
    have "unat (num - d) < den * 2 ^ Suc k" using sub Suc.prems(3) by simp
    moreover have "unat (quot + q) * den + unat (num - d) = n"
      using add sub Suc.prems(4) by (simp add: algebra_simps)
    ultimately show ?thesis
      using Suc.IH [OF half, of "num - d" "quot + q"] Suc.prems(5,6) q0 True
      by (simp add: udm_subtract.simps [of num d quot q])
  next
    case False
    then have "unat num < den * 2 ^ Suc k" using Suc.prems(2) by (simp add: word_le_nat_alt)
    then show ?thesis
      using Suc.IH [OF half, of num quot] Suc.prems(4,5,6) q0 False
      by (simp add: udm_subtract.simps [of num d quot q])
  qed
qed

section \<open>Properties\<close>

text \<open>
  C40: for every numerator and every nonzero divisor the routine ends and returns the exact
  quotient and remainder of the 64 bit division; the wrappers return the one and the other.
\<close>

theorem udivmoddi4_exact:
  assumes "den \<noteq> 0"
  shows "udivmoddi4 num den = Some (num div den, num mod den) \<and>
    udivdi3 num den = Some (num div den) \<and> umoddi3 num den = Some (num mod den)"
proof -
  obtain k d q where j: "udm_justify den = Some (d, q)" "k < 64" "unat q = 2 ^ k" "unat d = unat den * 2 ^ k"
      "2 ^ 63 \<le> unat d"
    using udm_justify_spec [OF assms] by blast
  have pos: "unat den > 0" using assms by (simp add: unat_gt_0)
  have num: "unat num < 2 ^ 64" by (rule unat_less64)
  then have "unat num < unat den * 2 ^ Suc k" using j(4,5) by simp
  with udm_subtract_spec [OF j(3,4), of num 0 "unat num"] pos num obtain r
    where r: "udm_subtract num d 0 q = r" "unat (fst r) * unat den + unat (snd r) = unat num"
      "unat (snd r) < unat den" by auto
  have "unat (fst r) = unat num div unat den" "unat (snd r) = unat num mod unat den"
    using r(2,3) pos by (metis div_mult_self3 div_less add.commute add_0 less_not_refl2)
      (use r(2,3) pos in \<open>metis mod_mult_self3 mod_less\<close>)
  then have "r = (num div den, num mod den)"
    by (intro prod_eqI) (simp_all add: unsigned_word_eqI unat_div_distrib unat_mod_distrib word_unat_eq_iff)
  with r(1) j(1) assms show ?thesis by (simp add: udivmoddi4_def udivdi3_def umoddi3_def)
qed

theorem udivmoddi4_exact_witness:
  "(10 :: u64) \<noteq> 0 \<and> udivmoddi4 0xFFFFFFFFFFFFFFFF 10 = Some (0x1999999999999999, 5)"
  using udivmoddi4_exact [of 10 "0xFFFFFFFFFFFFFFFF"] by simp

end
