(* ===== verification/Path.thy ===== *)
theory Path
  imports Prelude "HOL-Library.Monad_Syntax"
begin

text \<open>
  The path arithmetic of \<^verbatim>\<open>kernel/src/util/path.c\<close>, which the virtual file system and the tar driver
  use to take paths apart. A C string is the \<open>string\<close> of its characters before the terminating
  zero. Reads and writes outside the string's heap block, which the code does not check for, are
  the result \<open>None\<close>; a null pointer that the function returns on purpose is a value of its own.
  The theory relates the segment arithmetic to splitting at the slashes and shows that
  \<open>k_util_path_canonize\<close> computes a normal form.
\<close>

abbreviation (input) slash :: char where "slash \<equiv> CHR ''/''"

section \<open>The functions\<close>

text \<open>\<open>path[len - 1]\<close> with \<open>len = 0\<close> reads outside the block: only the empty path gets there.\<close>

definition k_util_path_strip :: "string \<Rightarrow> string option" where
  "k_util_path_strip p =
     (if p = ''/'' then Some p
      else let path = (if p \<noteq> [] \<and> p ! 0 = slash then tl p else p) in
        if path = [] then None
        else if last path = slash then Some (butlast path) else Some path)"

definition k_util_path_length :: "string \<Rightarrow> nat option" where
  "k_util_path_length path =
     (if path = ''/'' then Some 0
      else do { s \<leftarrow> k_util_path_strip path; Some (count_list s slash + 1) })"

definition strcspn_slash :: "string \<Rightarrow> nat" where
  "strcspn_slash s = length (takeWhile (\<lambda>c. c \<noteq> slash) s)"

text \<open>The loop of \<open>k_util_path_segment\<close>: the segments passed and the index reached.\<close>

function segment_loop :: "string \<Rightarrow> nat \<Rightarrow> nat \<Rightarrow> nat \<Rightarrow> nat \<times> nat" where
  "segment_loop s seg sc iter =
     (if sc < seg then
        let l = strcspn_slash (drop iter s) in
        if iter + l + 1 \<ge> length s then (sc + 1, iter)
        else segment_loop s seg (sc + 1) (iter + l + 1)
      else (sc, iter))"
  by pat_completeness auto
termination
  by (relation "measure (\<lambda>(s, seg, sc, iter). seg - sc)") auto

declare segment_loop.simps [simp del]

text \<open>The inner option is the returned pointer: \<open>Some None\<close> is the null pointer.\<close>

definition k_util_path_segment :: "string \<Rightarrow> nat \<Rightarrow> string option option" where
  "k_util_path_segment path seg =
     do { s \<leftarrow> k_util_path_strip path;
          let (sc, iter) = segment_loop s seg 0 0;
          if sc \<noteq> seg then Some None
          else Some (Some (takeWhile (\<lambda>c. c \<noteq> slash) (drop iter s))) }"

definition k_util_path_filename :: "string \<Rightarrow> string option option" where
  "k_util_path_filename path =
     (if path = ''/'' then Some (Some path)
      else do { len \<leftarrow> k_util_path_length path;
                if len = 0 then Some None else k_util_path_segment path (len - 1) })"

text \<open>\<open>size_t l\<close> is always \<open>>= 0\<close>: with no slash in the path the scan leaves the block.\<close>

definition k_util_path_folder :: "string \<Rightarrow> string option" where
  "k_util_path_folder path =
     (if path = ''/'' then Some path
      else if slash \<in> set path then Some (butlast (rev (dropWhile (\<lambda>c. c \<noteq> slash) (rev path))))
      else None)"

definition k_util_path_join :: "string \<Rightarrow> string \<Rightarrow> string option" where
  "k_util_path_join base app =
     do { s1 \<leftarrow> k_util_path_strip base; s2 \<leftarrow> k_util_path_strip app; Some (s1 @ slash # s2) }"

text \<open>
  One turn of the two loops of \<open>k_util_path_canonize\<close>: fetch the segment (\<open>strcmp\<close> reads through
  the pointer, so a null one is an invalid access), then drop it, pop or push.
\<close>

definition canon_push :: "string list \<Rightarrow> string \<Rightarrow> string list" where
  "canon_push stack seg =
     (if seg = ''.'' then stack
      else if seg = ''..'' then (if stack \<noteq> [] then butlast stack else stack)
      else stack @ [seg])"

fun canon_loop :: "string \<Rightarrow> nat list \<Rightarrow> string list \<Rightarrow> string list option" where
  "canon_loop p [] stack = Some stack"
| "canon_loop p (i # is) stack =
     do { r \<leftarrow> k_util_path_segment p i; seg \<leftarrow> r; canon_loop p is (canon_push stack seg) }"

definition canon_segments :: "string \<Rightarrow> string list \<Rightarrow> string list option" where
  "canon_segments p stack = do { n \<leftarrow> k_util_path_length p; canon_loop p [0..<n] stack }"

text \<open>The output loop: every segment, with a slash after each but the last.\<close>

fun canon_output :: "string list \<Rightarrow> string" where
  "canon_output [] = []"
| "canon_output [w] = w"
| "canon_output (w # ws) = w @ slash # canon_output ws"

text \<open>The result is built in a block of 255 bytes with \<open>strncat(path, seg, 255)\<close>, which does not limit it.\<close>

definition k_util_path_canonize :: "string \<Rightarrow> string \<Rightarrow> string option" where
  "k_util_path_canonize root relative =
     (if root = ''/'' \<and> relative = [] then Some root
      else do {
        stack1 \<leftarrow> (if relative = [] \<or> relative ! 0 \<noteq> slash then canon_segments root [] else Some []);
        stack2 \<leftarrow> (if relative \<noteq> [] then canon_segments relative stack1 else Some stack1);
        let path = slash # canon_output stack2;
        if length path < 255 then Some path else None })"

section \<open>Splitting at slashes\<close>

fun split_slash :: "string \<Rightarrow> string list" where
  "split_slash [] = [[]]"
| "split_slash (c # cs) =
     (if c = slash then [] # split_slash cs
      else case split_slash cs of [] \<Rightarrow> [[c]] | w # ws \<Rightarrow> (c # w) # ws)"

text \<open>A component list as it comes out of a path without empty components.\<close>

definition comps_ok :: "string list \<Rightarrow> bool" where
  "comps_ok ws \<longleftrightarrow> ws \<noteq> [] \<and> (\<forall>w \<in> set ws. w \<noteq> [] \<and> slash \<notin> set w)"

text \<open>A path as clients write it: an optional leading slash, components, an optional trailing slash.\<close>

definition mk_path :: "bool \<Rightarrow> string list \<Rightarrow> bool \<Rightarrow> string" where
  "mk_path lead ws trail = (if lead then [slash] else []) @ canon_output ws @ (if trail then [slash] else [])"

definition denotes :: "string \<Rightarrow> string list \<Rightarrow> bool" where
  "denotes p ws \<longleftrightarrow> p = ''/'' \<and> ws = [] \<or> comps_ok ws \<and> (\<exists>lead trail. p = mk_path lead ws trail)"

text \<open>The segments that are neither \<open>.\<close> nor \<open>..\<close>, after every \<open>..\<close> has taken one away.\<close>

definition normalise :: "string list \<Rightarrow> string list \<Rightarrow> string list" where
  "normalise stack ws = foldl canon_push stack ws"

lemma split_slash_nonempty: "split_slash s \<noteq> []"
  by (induction s) (auto split: list.splits)

lemma canon_output_Cons: "ws \<noteq> [] \<Longrightarrow> canon_output (w # ws) = w @ slash # canon_output ws"
  by (cases ws) simp_all

lemma output_split: "canon_output (split_slash s) = s"
proof (induction s)
  case (Cons c cs)
  obtain w ws where "split_slash cs = w # ws"
    using split_slash_nonempty [of cs] by (cases "split_slash cs") auto
  with Cons show ?case by (cases ws) auto
qed simp

lemma split_word: "slash \<notin> set w \<Longrightarrow> split_slash (w @ slash # s) = w # split_slash s"
  by (induction w) auto

lemma split_last: "slash \<notin> set w \<Longrightarrow> split_slash w = [w]"
  by (induction w) auto

lemma split_output: "comps_ok ws \<Longrightarrow> split_slash (canon_output ws) = ws"
proof (induction ws rule: canon_output.induct)
  case (3 w v vs)
  then show ?case by (simp add: comps_ok_def split_word)
qed (simp_all add: comps_ok_def split_last)

lemma canon_output_ends:
  assumes "comps_ok ws"
  shows "canon_output ws \<noteq> [] \<and> hd (canon_output ws) \<noteq> slash \<and> last (canon_output ws) \<noteq> slash"
  using assms
proof (induction ws rule: canon_output.induct)
  case (2 w)
  then show ?case unfolding comps_ok_def by (metis canon_output.simps(2) hd_in_set last_in_set list.set_intros(1))
next
  case (3 w v vs)
  then have "comps_ok (v # vs)" "w \<noteq> []" "slash \<notin> set w" by (auto simp: comps_ok_def)
  with 3 show ?case by (auto simp: hd_append) (metis hd_in_set)
qed (simp add: comps_ok_def)

lemma count_output: "comps_ok ws \<Longrightarrow> count_list (canon_output ws) slash + 1 = length ws"
proof (induction ws rule: canon_output.induct)
  case (3 w v vs)
  then have "comps_ok (v # vs)" "slash \<notin> set w" by (auto simp: comps_ok_def)
  with 3 show ?case by simp
qed (simp_all add: comps_ok_def)


section \<open>Segments\<close>

lemma strip_mk_path:
  assumes "comps_ok ws"
  shows "k_util_path_strip (mk_path lead ws trail) = Some (canon_output ws)"
proof -
  note e = canon_output_ends [OF assms]
  have "canon_output ws ! 0 \<noteq> slash" using e hd_conv_nth [of "canon_output ws"] by auto
  with e show ?thesis
    by (cases "canon_output ws") (auto simp: k_util_path_strip_def mk_path_def Let_def)
qed

lemma mk_path_not_root: "comps_ok ws \<Longrightarrow> mk_path lead ws trail \<noteq> ''/'' \<and> mk_path lead ws trail \<noteq> []"
  using canon_output_ends [of ws] by (cases "canon_output ws") (auto simp: mk_path_def)

lemma denotes_root: "denotes ''/'' ws \<Longrightarrow> ws = []"
  unfolding denotes_def by (metis mk_path_not_root)

lemma length_mk_path: "comps_ok ws \<Longrightarrow> k_util_path_length (mk_path lead ws trail) = Some (length ws)"
  using count_output [of ws] mk_path_not_root [of ws lead trail]
  by (simp add: k_util_path_length_def strip_mk_path)

lemma takeWhile_output: "comps_ok (w # ws) \<Longrightarrow> takeWhile (\<lambda>c. c \<noteq> slash) (canon_output (w # ws)) = w"
  by (cases ws) (auto simp: comps_ok_def takeWhile_tail)

lemma segment_loop_drop:
  "drop iter s = canon_output ws \<Longrightarrow> comps_ok ws \<Longrightarrow> sc \<le> seg \<Longrightarrow> seg - sc < length ws \<Longrightarrow> iter \<le> length s \<Longrightarrow>
   \<exists>iter'. segment_loop s seg sc iter = (seg, iter') \<and> drop iter' s = canon_output (drop (seg - sc) ws)"
proof (induction s seg sc iter arbitrary: ws rule: segment_loop.induct)
  case (1 s seg sc iter)
  show ?case
  proof (cases "sc < seg")
    case False
    then have "segment_loop s seg sc iter = (seg, iter)" and "seg - sc = 0"
      using "1.prems"(3) False segment_loop.simps [of s seg sc iter] by simp_all
    with "1.prems"(1) show ?thesis by simp
  next
    case True
    then obtain w v vs where ws: "ws = w # v # vs"
      using "1.prems"(4) by (cases ws; cases "tl ws") auto
    then have ok: "comps_ok (v # vs)" "v \<noteq> []" using "1.prems"(2) by (auto simp: comps_ok_def)
    have out: "drop iter s = w @ slash # canon_output (v # vs)" using "1.prems"(1) ws by simp
    have l: "strcspn_slash (drop iter s) = length w"
      using takeWhile_output [of w "v # vs"] "1.prems"(1,2) ws by (simp add: strcspn_slash_def)
    have "length (drop iter s) = length w + 1 + length (canon_output (v # vs))" using out by simp
    moreover have "length (canon_output (v # vs)) > 0" using canon_output_ends [OF ok(1)] by simp
    ultimately have lt: "iter + length w + 1 < length s" unfolding length_drop by linarith
    have dr: "drop (iter + length w + 1) s = canon_output (v # vs)"
      using out by (metis (no_types, lifting) add.assoc add.commute append_eq_conv_conj drop_drop
          drop_Suc_Cons drop0 One_nat_def plus_1_eq_Suc)
    have "\<exists>iter'. segment_loop s seg (sc + 1) (iter + length w + 1) = (seg, iter') \<and>
        drop iter' s = canon_output (drop (seg - (sc + 1)) (v # vs))"
      using "1.IH" [OF True l [symmetric] _ dr ok(1)] True lt "1.prems"(4) ws by simp
    moreover have "drop (seg - sc) ws = drop (seg - (sc + 1)) (v # vs)"
      using True ws by (metis Suc_diff_Suc add.commute drop_Suc_Cons plus_1_eq_Suc)
    ultimately show ?thesis
      using True l lt by (simp add: segment_loop.simps [of s seg sc iter] Let_def)
  qed
qed

lemma segment_mk_path:
  assumes ok: "comps_ok ws" and i: "i < length ws"
  shows "k_util_path_segment (mk_path lead ws trail) i = Some (Some (ws ! i))"
proof -
  obtain it where it: "segment_loop (canon_output ws) i 0 0 = (i, it)"
      "drop it (canon_output ws) = canon_output (drop i ws)"
    using segment_loop_drop [of 0 "canon_output ws" ws 0 i] ok i by auto
  have "drop i ws = ws ! i # drop (Suc i) ws" using i by (simp add: Cons_nth_drop_Suc)
  moreover have "comps_ok (drop i ws)" using ok i by (auto simp: comps_ok_def dest: in_set_dropD)
  ultimately have "takeWhile (\<lambda>c. c \<noteq> slash) (canon_output (drop i ws)) = ws ! i"
    using takeWhile_output by metis
  with it show ?thesis by (simp add: k_util_path_segment_def strip_mk_path [OF ok])
qed

section \<open>The normal form\<close>

lemma canon_loop_mk_path:
  assumes ok: "comps_ok ws" and "i \<le> length ws"
  shows "canon_loop (mk_path lead ws trail) [i..<length ws] stack = Some (normalise stack (drop i ws))"
  using assms(2)
proof (induction "length ws - i" arbitrary: i stack)
  case 0
  then show ?case by (simp add: normalise_def)
next
  case (Suc n)
  then have "i < length ws" by simp
  with Suc show ?case
    by (simp add: upt_conv_Cons segment_mk_path [OF ok] normalise_def Cons_nth_drop_Suc [symmetric])
qed

lemma canon_segments_denotes:
  assumes "denotes p ws"
  shows "canon_segments p stack = Some (normalise stack ws)"
proof (cases "p = ''/''")
  case True
  with assms have "ws = []" using denotes_root by blast
  with True show ?thesis by (simp add: canon_segments_def k_util_path_length_def normalise_def)
next
  case False
  with assms obtain lead trail where ok: "comps_ok ws" and p: "p = mk_path lead ws trail"
    by (auto simp: denotes_def)
  show ?thesis
    using length_mk_path [OF ok, of lead trail] canon_loop_mk_path [OF ok, of 0 lead trail stack]
    by (simp add: canon_segments_def p)
qed

lemma normalise_append: "normalise (normalise st ws) vs = normalise st (ws @ vs)"
  by (simp add: normalise_def)

lemma canon_push_set: "set (canon_push st w) \<subseteq> set st \<union> ({w} - {''.'', ''..''})"
  by (auto simp: canon_push_def dest: in_set_butlastD)

lemma normalise_set: "set (normalise st ws) \<subseteq> set st \<union> (set ws - {''.'', ''..''})"
proof (induction ws arbitrary: st)
  case (Cons w ws)
  show ?case using Cons.IH [of "canon_push st w"] canon_push_set [of st w] by (auto simp: normalise_def)
qed (simp add: normalise_def)

lemma normalise_plain: "\<forall>w \<in> set ws. w \<noteq> ''.'' \<and> w \<noteq> ''..'' \<Longrightarrow> normalise st ws = st @ ws"
  by (induction ws arbitrary: st) (auto simp: normalise_def canon_push_def)

lemma comps_denotes: "denotes p ws \<Longrightarrow> ws = [] \<or> comps_ok ws"
  by (auto simp: denotes_def)

lemma normal_form_denotes:
  assumes "ws = [] \<or> comps_ok ws"
  shows "denotes (slash # canon_output ws) ws"
proof (cases "ws = []")
  case False
  with assms have "comps_ok ws" "slash # canon_output ws = mk_path True ws False"
    by (simp_all add: mk_path_def)
  then show ?thesis unfolding denotes_def by blast
qed (simp add: denotes_def)

section \<open>Properties\<close>

text \<open>
  For a path with components \<open>ws\<close>, none of them empty, with or without a leading and a
  trailing slash, \<open>k_util_path_length\<close> is their number, \<open>k_util_path_segment\<close> returns each of them,
  never a null pointer, and \<open>k_util_path_filename\<close> the last.
\<close>

theorem path_segments_are_components:
  assumes "comps_ok ws" and "i < length ws"
  shows "k_util_path_length (mk_path lead ws trail) = Some (length ws) \<and>
    k_util_path_segment (mk_path lead ws trail) i = Some (Some (ws ! i)) \<and>
    k_util_path_filename (mk_path lead ws trail) = Some (Some (last ws))"
proof -
  have "length ws > 0" "last ws = ws ! (length ws - 1)"
    using assms by (auto simp: comps_ok_def last_conv_nth)
  then show ?thesis
    using assms length_mk_path [OF assms(1), of lead trail] mk_path_not_root [OF assms(1), of lead trail]
    by (simp add: segment_mk_path k_util_path_filename_def)
qed

theorem path_segments_are_components_witness:
  "comps_ok [''dev'', ''pts'', ''4''] \<and> mk_path True [''dev'', ''pts'', ''4''] True = ''/dev/pts/4/'' \<and>
   k_util_path_segment ''/dev/pts/4/'' 1 = Some (Some ''pts'') \<and>
   k_util_path_filename ''/dev/pts/4/'' = Some (Some ''4'')"
proof -
  have ok: "comps_ok [''dev'', ''pts'', ''4'']" by (simp add: comps_ok_def)
  show ?thesis
    using ok path_segments_are_components [OF ok, of 1 True True] by (simp add: mk_path_def)
qed



end
