(* ===== verification/Pmm.thy ===== *)
theory Pmm
  imports Prelude "HOL-Library.While_Combinator"
begin

text \<open>
  The physical frame allocator of \<^verbatim>\<open>kernel/src/mem/pmm.c\<close>: a bitmap of 32 bit words, one bit per
  4 KiB frame (1: free), a word count that grows as frames are handed in, and the hint
  \<open>first_free_index\<close> below which no word has a free bit. Frames are 64 bit physical addresses, but
  \<open>k_mem_pmm_alloc_frames\<close> keeps the address it found in a 32 bit variable. The theory shows that
  allocation is first fit over the set of free frames, that it gives up only when no run of the
  requested length exists, and that freeing gives exactly the allocated frames back. \<open>k_panic\<close>
  does not return: it is the result \<open>None\<close>. Boot-time set-up from the multiboot memory map
  (\<open>k_mem_pmm_init\<close>) and the spin lock are not modelled.
\<close>

section \<open>State and operations\<close>

record pmm =
  bitmap :: "nat \<Rightarrow> u32"
  bitmap_size :: u32
  first_free_index :: u32
  allocated :: u32
  freed :: u32

text \<open>The three macros, on a 64 bit frame address; \<open>uint32_t index = BITMAP_INDEX(frame)\<close> keeps 32 bits.\<close>

definition BITMAP_INDEX :: "u64 \<Rightarrow> u32" where
  "BITMAP_INDEX frame = ucast (frame div 0x1000 div 32)"

definition BITMAP_BIT_MASK :: "u64 \<Rightarrow> u32" where
  "BITMAP_BIT_MASK frame = push_bit (unat ((frame div 0x1000) mod 32)) 1"

text \<open>\<open>FRAME(i, j)\<close> is a 64 bit product; \<open>uint32_t frame\<close> keeps its low half.\<close>

definition FRAME :: "nat \<Rightarrow> nat \<Rightarrow> u32" where
  "FRAME idx b = ucast (0x1000 * ucast (of_nat idx * 32 + of_nat b :: u32) :: u64)"

definition set_word :: "pmm \<Rightarrow> nat \<Rightarrow> u32 \<Rightarrow> pmm" where
  "set_word p i w = p\<lparr>bitmap := (bitmap p)(i := w)\<rparr>"

definition k_mem_pmm_set_allocated :: "pmm \<Rightarrow> u64 \<Rightarrow> pmm" where
  "k_mem_pmm_set_allocated p frame =
     (let i = unat (BITMAP_INDEX frame) in
      set_word p i (bitmap p i AND NOT (BITMAP_BIT_MASK frame)))"

definition k_mem_pmm_is_allocated :: "pmm \<Rightarrow> u64 \<Rightarrow> bool" where
  "k_mem_pmm_is_allocated p frame =
     (let index = BITMAP_INDEX frame in
      if index \<ge> bitmap_size p then False
      else bitmap p (unat index) AND BITMAP_BIT_MASK frame = 0)"

text \<open>
  The two nested search loops with their common exit, over the positions \<open>(i, j)\<close> in loop order:
  \<open>found_frames\<close> and \<open>frame\<close> are the loop variables, the result the frame when \<open>found\<close> is set.
\<close>

fun pmm_search :: "(nat \<Rightarrow> u32) \<Rightarrow> nat \<Rightarrow> (nat \<times> nat) list \<Rightarrow> nat \<Rightarrow> u32 \<Rightarrow> u32 option" where
  "pmm_search bm frames [] found_frames frame = None"
| "pmm_search bm frames ((i, j) # ps) found_frames frame =
     (let frame' = (if bit (bm i) j \<and> found_frames = 0 then FRAME i j else frame);
          found' = (if bit (bm i) j then found_frames + 1 else 0)
      in if found' \<ge> frames then Some frame' else pmm_search bm frames ps found' frame')"

text \<open>The marking loop: \<open>target_frame\<close> is computed in 32 bits.\<close>

fun pmm_take :: "pmm \<Rightarrow> u32 \<Rightarrow> nat list \<Rightarrow> pmm" where
  "pmm_take p frame [] = p"
| "pmm_take p frame (i # is) =
     (let target = frame + of_nat i * 0x1000 :: u32
      in pmm_take (k_mem_pmm_set_allocated p (ucast target)) frame is)"

function skip_full :: "(nat \<Rightarrow> u32) \<Rightarrow> nat \<Rightarrow> nat \<Rightarrow> nat" where
  "skip_full bm n i = (if i < n \<and> bm i = 0 then skip_full bm n (Suc i) else i)"
  by pat_completeness auto
termination
  by (relation "measure (\<lambda>(bm, n, i). n - i)") auto

declare skip_full.simps [simp del]

definition pmm_advance :: "pmm \<Rightarrow> pmm" where
  "pmm_advance p =
     (let n = unat (bitmap_size p);
          i = skip_full (bitmap p) n (unat (first_free_index p));
          i' = (if i \<ge> n then 0 else i)
      in p\<lparr>first_free_index := of_nat (skip_full (bitmap p) n i')\<rparr>)"

definition k_mem_pmm_alloc_frames :: "pmm \<Rightarrow> u32 \<Rightarrow> (u32 \<times> pmm) option" where
  "k_mem_pmm_alloc_frames p frames =
     (if frames = 0 then None
      else if first_free_index p \<ge> bitmap_size p then None
      else case pmm_search (bitmap p) (unat frames)
             (List.product [unat (first_free_index p)..<unat (bitmap_size p)] [0..<32]) 0 0 of
        None \<Rightarrow> None
      | Some frame \<Rightarrow>
          let q = pmm_advance (pmm_take p frame [0..<unat frames])
          in Some (frame, q\<lparr>allocated := allocated q + frames\<rparr>))"

text \<open>\<open>while (index >= bitmap_size)\<close>: append cleared words; \<open>None\<close> if the 32 bit count wrapped for ever.\<close>

definition pmm_grow :: "pmm \<Rightarrow> u32 \<Rightarrow> pmm option" where
  "pmm_grow p index = while_option (\<lambda>p. index \<ge> bitmap_size p)
     (\<lambda>p. (set_word p (unat (bitmap_size p)) 0)\<lparr>bitmap_size := bitmap_size p + 1\<rparr>) p"

text \<open>
  The addresses the loop \<open>for (f = frame; f < frame + 0x1000 * size; f += 0x1000)\<close> visits from an
  aligned frame: none when the 64 bit end address wraps.
\<close>

definition frame_range :: "u64 \<Rightarrow> u32 \<Rightarrow> u64 list" where
  "frame_range frame sz =
     (if frame < frame + 0x1000 * ucast sz
      then map (\<lambda>k. frame + 0x1000 * of_nat k) [0..<unat sz] else [])"

definition pmm_release :: "pmm \<Rightarrow> u64 \<Rightarrow> pmm" where
  "pmm_release p f =
     (let index = BITMAP_INDEX f;
          q = set_word p (unat index) (bitmap p (unat index) OR BITMAP_BIT_MASK f)
      in q\<lparr>freed := freed p + 1,
           first_free_index := (if index < first_free_index p then index else first_free_index p)\<rparr>)"

fun pmm_free_loop :: "pmm \<Rightarrow> u64 list \<Rightarrow> pmm option" where
  "pmm_free_loop p [] = Some p"
| "pmm_free_loop p (f # fs) =
     (case pmm_grow p (BITMAP_INDEX f) of
        None \<Rightarrow> None
      | Some q \<Rightarrow> if \<not> k_mem_pmm_is_allocated q f then Some q else pmm_free_loop (pmm_release q f) fs)"

definition k_mem_pmm_free :: "pmm \<Rightarrow> u64 \<Rightarrow> u32 \<Rightarrow> pmm option" where
  "k_mem_pmm_free p frame sz =
     (if frame mod 0x1000 \<noteq> 0 then Some p else pmm_free_loop p (frame_range frame sz))"

definition k_mem_pmm_mark_frame :: "pmm \<Rightarrow> u64 \<Rightarrow> pmm option" where
  "k_mem_pmm_mark_frame p frame = k_mem_pmm_free p frame 1"

section \<open>The free set and the invariant\<close>

text \<open>Frame number \<open>n\<close> is the frame at address \<open>4096 * n\<close>.\<close>

definition free_frames :: "pmm \<Rightarrow> nat set" where
  "free_frames p = {n. n < 32 * unat (bitmap_size p) \<and> bit (bitmap p (n div 32)) (n mod 32)}"

definition fbit :: "(nat \<Rightarrow> u32) \<Rightarrow> nat \<Rightarrow> bool" where
  "fbit bm n \<longleftrightarrow> bit (bm (n div 32)) (n mod 32)"

text \<open>
  No word below the hint has a free bit, and the bitmap covers at most 4 GiB: the addresses fit
  the 32 bit variable of the allocator.
\<close>

definition pmm_inv :: "pmm \<Rightarrow> bool" where
  "pmm_inv p \<longleftrightarrow> unat (bitmap_size p) \<le> 2 ^ 15 \<and>
     (\<forall>i. i < unat (bitmap_size p) \<longrightarrow> i < unat (first_free_index p) \<longrightarrow> bitmap p i = 0)"

section \<open>Address arithmetic\<close>

lemma unat_frame: "n < 2 ^ 32 \<Longrightarrow> unat (0x1000 * of_nat n :: u64) = 4096 * n"
  by (simp add: unat_word_ariths unat_of_nat)

lemma BITMAP_INDEX_frame: "n < 2 ^ 32 \<Longrightarrow> unat (BITMAP_INDEX (0x1000 * of_nat n)) = n div 32"
  by (simp add: BITMAP_INDEX_def unat_div_distrib unat_frame)

lemma mask_frame: "n < 2 ^ 32 \<Longrightarrow> BITMAP_BIT_MASK (0x1000 * of_nat n) = push_bit (n mod 32) 1"
  by (simp add: BITMAP_BIT_MASK_def unat_mod_distrib unat_div_distrib unat_frame)

lemma FRAME_frame:
  assumes "32 * i + j < 2 ^ 20"
  shows "ucast (FRAME i j) = (0x1000 * of_nat (32 * i + j) :: u64)" and "unat (FRAME i j) = 4096 * (32 * i + j)"
proof -
  have u: "unat (of_nat i * 32 + of_nat j :: u32) = 32 * i + j"
    using assms by (simp add: unat_word_ariths unat_of_nat)
  have "unat (0x1000 * ucast (of_nat i * 32 + of_nat j :: u32) :: u64) = 4096 * (32 * i + j)"
    using assms u by (simp add: unat_word_ariths)
  then show *: "unat (FRAME i j) = 4096 * (32 * i + j)"
    using assms by (simp add: FRAME_def)
  show "ucast (FRAME i j) = (0x1000 * of_nat (32 * i + j) :: u64)"
    using assms * unat_frame [of "32 * i + j"]
    by (intro word_unatI) simp
qed

lemma bit_push1: "bit (2 ^ k :: u32) j \<longleftrightarrow> j = k \<and> k < 32"
  by (auto simp: bit_exp_iff)


section \<open>The search\<close>

lemma product_positions:
  "map (\<lambda>(i, j). 32 * i + j) (List.product [a..<n] [0..<32]) = [32 * a..<32 * n]"
proof (induction "n - a" arbitrary: a)
  case 0
  then show ?case by simp
next
  case (Suc k)
  then have "a < n" by simp
  then have "[32 * a..<32 * n] = [32 * a..<32 * a + 32] @ [32 * Suc a..<32 * n]"
    using upt_add_eq_append [of "32 * a" "32 * a + 32" "32 * n - (32 * a + 32)"] by (simp add: add.commute)
  moreover have "map (\<lambda>j. 32 * a + j) [0..<32] = [32 * a..<32 * a + 32]"
    using map_add_upt [of "32 * a" 32] by (simp add: add.commute)
  ultimately show ?case
    using Suc \<open>a < n\<close> by (simp add: upt_conv_Cons comp_def)
qed

text \<open>
  At position \<open>b\<close> the loop variables say: the \<open>c\<close> bits before \<open>b\<close> are free, the bit before those
  is not (or lies before the start), the remembered frame is the first of them, and no run of
  \<open>frames\<close> free bits ends before \<open>b\<close>.
\<close>

definition run_at :: "(nat \<Rightarrow> bool) \<Rightarrow> nat \<Rightarrow> nat \<Rightarrow> nat \<Rightarrow> nat \<Rightarrow> bool" where
  "run_at P frames a b c \<longleftrightarrow> a + c \<le> b \<and> c < frames \<and> {b - c..<b} \<subseteq> Collect P \<and>
     (a + c < b \<longrightarrow> \<not> P (b - c - 1)) \<and> (\<forall>n \<ge> a. n + frames \<le> b \<longrightarrow> \<not> {n..<n + frames} \<subseteq> Collect P)"

lemma run_at_start: "frames > 0 \<Longrightarrow> run_at P frames a a 0"
  by (auto simp: run_at_def)

lemma run_at_busy: "run_at P frames a b c \<Longrightarrow> \<not> P b \<Longrightarrow> run_at P frames a (Suc b) 0"
  by (fastforce simp: run_at_def le_Suc_eq subset_iff)

lemma run_at_free:
  assumes r: "run_at P frames a b c" and P: "P b"
  shows "{Suc b - Suc c..<Suc b} \<subseteq> Collect P" and "Suc c < frames \<Longrightarrow> run_at P frames a (Suc b) (Suc c)"
proof -
  show f: "{Suc b - Suc c..<Suc b} \<subseteq> Collect P"
    using r P by (auto simp: run_at_def less_Suc_eq)
  have none: "\<not> {n..<n + frames} \<subseteq> Collect P" if lt: "Suc c < frames" and "n \<ge> a" "n + frames \<le> Suc b" for n
  proof (cases "n + frames \<le> b")
    case True
    then show ?thesis using r that by (auto simp: run_at_def)
  next
    case False
    then have "n \<le> b - c - 1" "b - c - 1 < n + frames" "a + c < b" using that r by (auto simp: run_at_def)
    then show ?thesis using r by (auto simp: run_at_def subset_iff)
  qed
  show "run_at P frames a (Suc b) (Suc c)" if "Suc c < frames"
    using r f none that unfolding run_at_def by simp
qed

lemma pmm_search_run:
  assumes P: "\<And>i j. j < 32 \<Longrightarrow> P (32 * i + j) \<longleftrightarrow> bit (bm i) j"
  shows "map (\<lambda>(i, j). 32 * i + j) ps = [b..<e] \<Longrightarrow> \<forall>(i, j) \<in> set ps. j < 32 \<Longrightarrow> e \<le> 2 ^ 20 \<Longrightarrow> b \<le> e \<Longrightarrow>
    run_at P frames a b c \<Longrightarrow> (c > 0 \<longrightarrow> unat frame = 4096 * (b - c)) \<Longrightarrow>
    (case pmm_search bm frames ps c frame of
       None \<Rightarrow> \<forall>n \<ge> a. n + frames \<le> e \<longrightarrow> \<not> {n..<n + frames} \<subseteq> Collect P
     | Some r \<Rightarrow> \<exists>n \<ge> a. unat r = 4096 * n \<and> n + frames \<le> e \<and> {n..<n + frames} \<subseteq> Collect P \<and>
         (\<forall>m \<ge> a. m < n \<longrightarrow> \<not> {m..<m + frames} \<subseteq> Collect P))"
proof (induction ps arbitrary: b c frame)
  case Nil
  then have "b = e" by (cases "b < e") (simp_all add: upt_conv_Cons)
  with Nil show ?case by (simp add: run_at_def)
next
  case (Cons ij ps)
  obtain i j where ij: "ij = (i, j)" by (cases ij)
  have b: "b = 32 * i + j" "b < e" "map (\<lambda>(i, j). 32 * i + j) ps = [Suc b..<e]" "j < 32"
    using Cons.prems(1,2) ij by (cases "b < e"; simp add: upt_conv_Cons)+
  have P': "P b \<longleftrightarrow> bit (bm i) j" using P [OF b(4), of i] b(1) by simp
  have fr: "unat (FRAME i j) = 4096 * b" using b Cons.prems(3) by (simp add: FRAME_frame)
  note r = Cons.prems(5)
  show ?case
  proof (cases "P b")
    case False
    have "frames > 0" using r by (auto simp: run_at_def)
    then show ?thesis
      using Cons.IH [OF b(3), of 0 frame] run_at_busy [OF r False] Cons.prems(2,3) False P' b ij by simp
  next
    case True
    define fr' where "fr' = (if c = 0 then FRAME i j else frame)"
    have f': "unat fr' = 4096 * (Suc b - Suc c)" using fr Cons.prems(6) by (simp add: fr'_def)
    show ?thesis
    proof (cases "Suc c \<ge> frames")
      case False
      then show ?thesis
        using Cons.IH [OF b(3), of "Suc c" fr'] run_at_free(2) [OF r True] Cons.prems(2,3) True P' b ij f'
        by (simp add: Let_def fr'_def [symmetric])
    next
      case end_run: True
      then have c: "Suc c = frames" using r by (auto simp: run_at_def)
      have le: "a + c \<le> b" using r by (auto simp: run_at_def)
      have "\<not> {m..<m + frames} \<subseteq> Collect P" if "m \<ge> a" "m < b - c" for m
        using r that c le by (auto simp: run_at_def)
      then have "\<exists>n \<ge> a. unat fr' = 4096 * n \<and> n + frames \<le> e \<and> {n..<n + frames} \<subseteq> Collect P \<and>
         (\<forall>m \<ge> a. m < n \<longrightarrow> \<not> {m..<m + frames} \<subseteq> Collect P)"
        using f' run_at_free(1) [OF r True] c le b(2) by (intro exI [of _ "b - c"]) auto
      then show ?thesis using end_run True P' ij by (simp add: Let_def fr'_def)
    qed
  qed
qed


section \<open>Marking, the hint, and freeing\<close>

lemma free_frames_fbit: "free_frames p = {n. n < 32 * unat (bitmap_size p) \<and> fbit (bitmap p) n}"
  by (simp add: free_frames_def fbit_def)

lemma same_frame: "m div 32 = n div 32 \<Longrightarrow> m mod 32 = n mod 32 \<longleftrightarrow> m = (n :: nat)"
  by (metis div_mult_mod_eq)

lemma set_allocated_fbit:
  assumes "n < 2 ^ 32"
  shows "fbit (bitmap (k_mem_pmm_set_allocated p (0x1000 * of_nat n))) m \<longleftrightarrow> fbit (bitmap p) m \<and> m \<noteq> n"
  using assms same_frame [of m n]
  by (auto simp: k_mem_pmm_set_allocated_def Let_def set_word_def fbit_def BITMAP_INDEX_frame mask_frame
      bit_and_iff bit_not_iff bit_push1)

lemma set_allocated_frame [frame_simps]:
  "bitmap_size (k_mem_pmm_set_allocated p f) = bitmap_size p"
  "first_free_index (k_mem_pmm_set_allocated p f) = first_free_index p"
  by (simp_all add: k_mem_pmm_set_allocated_def Let_def set_word_def)

lemma pmm_take_frame [frame_simps]:
  "bitmap_size (pmm_take p f is) = bitmap_size p"
  "first_free_index (pmm_take p f is) = first_free_index p"
  by (induction "is" arbitrary: p) (simp_all add: Let_def frame_simps)

lemma pmm_take_fbit:
  "unat frame = 4096 * n \<Longrightarrow> \<forall>i \<in> set is. n + i < 2 ^ 20 \<Longrightarrow>
   fbit (bitmap (pmm_take p frame is)) m \<longleftrightarrow> fbit (bitmap p) m \<and> m \<notin> (\<lambda>i. n + i) ` set is"
proof (induction "is" arbitrary: p)
  case (Cons i "is")
  have lt: "n + i < 2 ^ 20" using Cons.prems by simp
  have "unat (of_nat i * 0x1000 :: u32) = 4096 * i"
    using lt by (simp add: unat_word_ariths unat_of_nat)
  then have "unat (frame + of_nat i * 0x1000) = 4096 * (n + i)"
    using Cons.prems(1) lt by (simp add: unat_word_ariths)
  then have "ucast (frame + of_nat i * 0x1000) = (0x1000 * of_nat (n + i) :: u64)"
    using lt unat_frame [of "n + i"] by (intro word_unatI) simp
  then show ?case
    using Cons lt set_allocated_fbit [of "n + i" p m] by (auto simp: Let_def)
qed simp

lemma fbit_word_zero: "bm i = 0 \<longleftrightarrow> (\<forall>n. n div 32 = i \<longrightarrow> \<not> fbit bm n)"
proof
  assume z: "\<forall>n. n div 32 = i \<longrightarrow> \<not> fbit bm n"
  show "bm i = 0"
  proof (rule bit_word_eqI)
    fix k assume "k < LENGTH(32)"
    then have "\<not> fbit bm (32 * i + k)" using z by simp
    with \<open>k < LENGTH(32)\<close> show "bit (bm i) k \<longleftrightarrow> bit (0 :: u32) k" by (simp add: fbit_def)
  qed
qed (simp add: fbit_def)

lemma skip_full_spec:
  "i \<le> skip_full bm n i \<and> (i \<le> n \<longrightarrow> skip_full bm n i \<le> n) \<and>
   (\<forall>k. i \<le> k \<and> k < skip_full bm n i \<longrightarrow> bm k = 0)"
proof (induction bm n i rule: skip_full.induct)
  case (1 bm n i)
  show ?case
  proof (cases "i < n \<and> bm i = 0")
    case True
    have eq: "skip_full bm n i = skip_full bm n (Suc i)"
      using True by (simp add: skip_full.simps [of bm n i])
    show ?thesis using 1 True unfolding eq by (metis Suc_le_eq le_eq_less_or_eq less_imp_le_nat)
  next
    case False
    then show ?thesis by (auto simp: skip_full.simps [of bm n i])
  qed
qed

lemma pmm_advance_frame [frame_simps]:
  "bitmap (pmm_advance p) = bitmap p" "bitmap_size (pmm_advance p) = bitmap_size p"
  by (simp_all add: pmm_advance_def Let_def)

lemma pmm_advance_inv:
  assumes "pmm_inv p"
  shows "pmm_inv (pmm_advance p)"
proof -
  define n where "n = unat (bitmap_size p)"
  define f where "f = unat (first_free_index p)"
  define s1 where "s1 = skip_full (bitmap p) n f"
  define s2 where "s2 = skip_full (bitmap p) n (if s1 \<ge> n then 0 else s1)"
  have low: "\<forall>k < n. k < f \<longrightarrow> bitmap p k = 0" using assms by (auto simp: pmm_inv_def n_def f_def)
  have "\<forall>k < n. k < s1 \<longrightarrow> bitmap p k = 0"
    using low skip_full_spec [of f "bitmap p" n] unfolding s1_def by (meson linorder_not_less)
  then have z: "\<forall>k < n. k < s2 \<longrightarrow> bitmap p k = 0"
    using skip_full_spec [of 0 "bitmap p" n] skip_full_spec [of s1 "bitmap p" n]
    unfolding s2_def by (auto split: if_splits)
  have "s2 \<le> n"
    using skip_full_spec [of 0 "bitmap p" n] skip_full_spec [of s1 "bitmap p" n] unfolding s2_def by auto
  then have "unat (of_nat s2 :: u32) = s2"
    using unat_less32 [of "bitmap_size p"] by (simp add: n_def unat_of_nat)
  moreover have "pmm_advance p = p\<lparr>first_free_index := of_nat s2\<rparr>"
    by (simp only: pmm_advance_def Let_def s2_def s1_def n_def f_def)
  ultimately show ?thesis
    using z assms by (simp add: pmm_inv_def n_def)
qed

lemma below_hint_busy:
  assumes "pmm_inv p" and "n \<in> free_frames p"
  shows "32 * unat (first_free_index p) \<le> n"
proof (rule ccontr)
  assume "\<not> ?thesis"
  then have "n div 32 < unat (first_free_index p)" by (simp add: less_mult_imp_div_less mult.commute)
  moreover have "n div 32 < unat (bitmap_size p)"
    using assms(2) by (simp add: free_frames_def less_mult_imp_div_less mult.commute)
  ultimately have "bitmap p (n div 32) = 0" using assms(1) by (auto simp: pmm_inv_def)
  then show False using assms(2) by (simp add: free_frames_def)
qed


lemma free_frames_bound: "pmm_inv p \<Longrightarrow> n \<in> free_frames p \<Longrightarrow> n < 2 ^ 20"
  by (simp add: pmm_inv_def free_frames_def)

lemma pmm_search_free:
  assumes inv: "pmm_inv p" and f: "frames > 0"
  shows "case pmm_search (bitmap p) frames
      (List.product [unat (first_free_index p)..<unat (bitmap_size p)] [0..<32]) 0 0 of
      None \<Rightarrow> \<forall>n. \<not> {n..<n + frames} \<subseteq> free_frames p
    | Some r \<Rightarrow> \<exists>n. unat r = 4096 * n \<and> n + frames \<le> 32 * unat (bitmap_size p) \<and>
        {n..<n + frames} \<subseteq> free_frames p \<and> (\<forall>m < n. \<not> {m..<m + frames} \<subseteq> free_frames p)"
proof -
  let ?a = "32 * unat (first_free_index p)" and ?e = "32 * unat (bitmap_size p)"
  let ?P = "\<lambda>n. n \<in> free_frames p \<or> ?e \<le> n \<and> fbit (bitmap p) n"
  let ?ps = "List.product [unat (first_free_index p)..<unat (bitmap_size p)] [0..<32]"
  have P: "?P (32 * i + j) \<longleftrightarrow> bit (bitmap p i) j" if "j < 32" for i j
    using that by (auto simp: free_frames_fbit fbit_def)
  have win: "{n..<n + frames} \<subseteq> Collect ?P \<longleftrightarrow> {n..<n + frames} \<subseteq> free_frames p" if "n + frames \<le> ?e" for n
    using that by (auto simp: subset_iff)
  have lim: "n + frames \<le> ?e" if w: "{n..<n + frames} \<subseteq> free_frames p" for n
  proof -
    have "n + frames - 1 \<in> free_frames p" using w f by auto
    then have "n + frames - 1 < ?e" by (simp add: free_frames_def)
    then show ?thesis using f by linarith
  qed
  have low: "?a \<le> n" if w: "{n..<n + frames} \<subseteq> free_frames p" for n
    using below_hint_busy [OF inv subsetD [OF w, of n]] f by simp
  show ?thesis
  proof (cases "?a \<le> ?e")
    case True
    have "?e \<le> 2 ^ 20" using inv by (simp add: pmm_inv_def)
    then have *: "case pmm_search (bitmap p) frames ?ps 0 0 of
       None \<Rightarrow> \<forall>n \<ge> ?a. n + frames \<le> ?e \<longrightarrow> \<not> {n..<n + frames} \<subseteq> Collect ?P
     | Some r \<Rightarrow> \<exists>n \<ge> ?a. unat r = 4096 * n \<and> n + frames \<le> ?e \<and> {n..<n + frames} \<subseteq> Collect ?P \<and>
         (\<forall>m \<ge> ?a. m < n \<longrightarrow> \<not> {m..<m + frames} \<subseteq> Collect ?P)"
      using pmm_search_run [of ?P "bitmap p" ?ps ?a ?e frames ?a 0 0, OF P product_positions]
        run_at_start [OF f] True by auto
    show ?thesis
    proof (cases "pmm_search (bitmap p) frames ?ps 0 0")
      case None
      have "\<not> {n..<n + frames} \<subseteq> free_frames p" for n
        using * None win [of n] lim [of n] low [of n] by auto
      then show ?thesis using None by simp
    next
      case (Some r)
      with * obtain n where n: "unat r = 4096 * n" "n + frames \<le> ?e" "{n..<n + frames} \<subseteq> Collect ?P"
          "\<forall>m \<ge> ?a. m < n \<longrightarrow> \<not> {m..<m + frames} \<subseteq> Collect ?P"
        by auto
      have "\<not> {m..<m + frames} \<subseteq> free_frames p" if "m < n" for m
        using n(4) that win [of m] lim [of m] low [of m] by auto
      then show ?thesis using Some n win [of n] by auto
    qed
  next
    case False
    then have "?ps = []" by simp
    then show ?thesis using lim low False by fastforce
  qed
qed

lemma alloc_frames_spec:
  assumes inv: "pmm_inv p" and f: "frames \<noteq> 0"
  shows "case k_mem_pmm_alloc_frames p frames of
      None \<Rightarrow> \<forall>n. \<not> {n..<n + unat frames} \<subseteq> free_frames p
    | Some (frame, q) \<Rightarrow> pmm_inv q \<and> bitmap_size q = bitmap_size p \<and>
        (\<exists>n. unat frame = 4096 * n \<and> {n..<n + unat frames} \<subseteq> free_frames p \<and>
          (\<forall>m < n. \<not> {m..<m + unat frames} \<subseteq> free_frames p) \<and>
          free_frames q = free_frames p - {n..<n + unat frames})"
proof -
  let ?s = "pmm_search (bitmap p) (unat frames)
      (List.product [unat (first_free_index p)..<unat (bitmap_size p)] [0..<32]) 0 0"
  have pos: "unat frames > 0" using f by (simp add: unat_gt_0)
  note srch = pmm_search_free [OF inv pos]
  show ?thesis
  proof (cases "first_free_index p \<ge> bitmap_size p")
    case True
    then have "?s = None" by (simp add: word_le_nat_alt)
    with srch True f show ?thesis by (simp add: k_mem_pmm_alloc_frames_def)
  next
    case False
    show ?thesis
    proof (cases ?s)
      case None
      with srch False f show ?thesis by (simp add: k_mem_pmm_alloc_frames_def)
    next
      case (Some frame)
      with srch obtain n where n: "unat frame = 4096 * n" "n + unat frames \<le> 32 * unat (bitmap_size p)"
          "{n..<n + unat frames} \<subseteq> free_frames p" "\<forall>m < n. \<not> {m..<m + unat frames} \<subseteq> free_frames p" by auto
      define q where "q = pmm_take p frame [0..<unat frames]"
      have "\<forall>i \<in> set [0..<unat frames]. n + i < 2 ^ 20"
        using n(2) inv by (auto simp: pmm_inv_def)
      then have bits: "fbit (bitmap q) m \<longleftrightarrow> fbit (bitmap p) m \<and> m \<notin> {n..<n + unat frames}" for m
        using pmm_take_fbit [OF n(1), of "[0..<unat frames]" p m] by (simp add: q_def image_add_atLeastLessThan add.commute)
      have qf: "bitmap_size q = bitmap_size p" "first_free_index q = first_free_index p"
        by (simp_all add: q_def frame_simps)
      have "bitmap q i = 0" if "bitmap p i = 0" for i
        using that bits fbit_word_zero [of "bitmap p" i] fbit_word_zero [of "bitmap q" i] by blast
      then have "pmm_inv q" using inv by (auto simp: pmm_inv_def qf)
      moreover have "free_frames q = free_frames p - {n..<n + unat frames}"
        unfolding free_frames_fbit qf bits by auto
      moreover have "k_mem_pmm_alloc_frames p frames =
          Some (frame, pmm_advance q\<lparr>allocated := allocated (pmm_advance q) + frames\<rparr>)"
        using Some False f by (simp add: k_mem_pmm_alloc_frames_def Let_def q_def)
      moreover define r where "r = pmm_advance q\<lparr>allocated := allocated (pmm_advance q) + frames\<rparr>"
      moreover have "pmm_inv r = pmm_inv (pmm_advance q)" "free_frames r = free_frames q" "bitmap_size r = bitmap_size p"
        by (simp_all add: r_def pmm_inv_def free_frames_def frame_simps qf)
      ultimately show ?thesis
        using n(1,3,4) pmm_advance_inv [of q] by auto
    qed
  qed
qed


lemma alloc_succeeds:
  assumes "pmm_inv p" and "frames \<noteq> 0" and "{n..<n + unat frames} \<subseteq> free_frames p"
  shows "\<exists>frame q. k_mem_pmm_alloc_frames p frames = Some (frame, q)"
  using alloc_frames_spec [OF assms(1,2)] assms(3) by (cases "k_mem_pmm_alloc_frames p frames") auto

text \<open>Growing appends allocated frames only.\<close>

lemma pmm_grow_spec:
  assumes "unat index < 2 ^ 32 - 1"
  shows "\<exists>q. pmm_grow p index = Some q \<and> unat index < unat (bitmap_size q) \<and>
    unat (bitmap_size q) = max (unat (bitmap_size p)) (unat index + 1) \<and>
    first_free_index q = first_free_index p \<and>
    bitmap q = (\<lambda>i. if unat (bitmap_size p) \<le> i \<and> i \<le> unat index then 0 else bitmap p i)"
proof -
  let ?c = "\<lambda>q. (set_word q (unat (bitmap_size q)) 0)\<lparr>bitmap_size := bitmap_size q + 1\<rparr>"
  let ?b = "\<lambda>q :: pmm. index \<ge> bitmap_size q"
  let ?I = "\<lambda>q. unat (bitmap_size p) \<le> unat (bitmap_size q) \<and>
    unat (bitmap_size q) \<le> max (unat (bitmap_size p)) (unat index + 1) \<and>
    first_free_index q = first_free_index p \<and>
    bitmap q = (\<lambda>i. if unat (bitmap_size p) \<le> i \<and> i < unat (bitmap_size q) then 0 else bitmap p i)"
  have step: "?I (?c q) \<and> 2 ^ 32 - unat (bitmap_size (?c q)) < 2 ^ 32 - unat (bitmap_size q)"
    if "?I q" and "?b q" for q
  proof -
    have le: "unat (bitmap_size q) \<le> unat index" using that(2) by (simp add: word_le_nat_alt)
    then have s: "unat (bitmap_size q + 1) = unat (bitmap_size q) + 1"
      using assms by (intro unat_Suc32) simp
    then show ?thesis
      using that(1) le unat_less32 [of "bitmap_size q"] by (auto simp: set_word_def fun_eq_iff max_def)
  qed
  have init: "?I p" by (auto simp: fun_eq_iff)
  have "\<exists>q. while_option ?b ?c p = Some q"
    by (rule measure_while_option_Some [of ?I ?b ?c "\<lambda>q. 2 ^ 32 - unat (bitmap_size q)"]) (fact step, fact init)
  then obtain q where q: "while_option ?b ?c p = Some q" by (elim exE)
  have I: "?I q" by (rule while_option_rule [of ?I ?b ?c, OF conjunct1 [OF step] q init])
  have nb: "unat index < unat (bitmap_size q)"
    using while_option_stop [OF q] by (simp add: word_le_nat_alt)
  show ?thesis
    using q I nb by (intro exI [of _ q]) (auto simp: pmm_grow_def fun_eq_iff max_def)
qed

lemma release_fbit:
  assumes "n < 2 ^ 32"
  shows "fbit (bitmap (pmm_release p (0x1000 * of_nat n))) m \<longleftrightarrow> fbit (bitmap p) m \<or> m = n"
  using assms same_frame [of m n]
  by (auto simp: pmm_release_def Let_def set_word_def fbit_def BITMAP_INDEX_frame mask_frame
      bit_or_iff bit_push1)

lemma is_allocated_fbit:
  assumes "n < 2 ^ 32" and "n div 32 < unat (bitmap_size p)"
  shows "k_mem_pmm_is_allocated p (0x1000 * of_nat n) \<longleftrightarrow> \<not> fbit (bitmap p) n"
proof -
  have "w AND 2 ^ k = 0 \<longleftrightarrow> \<not> bit w k" if "k < 32" for w :: u32 and k
    by (simp add: and_exp_eq_0_iff_not_bit)
  then show ?thesis
    using assms by (simp add: k_mem_pmm_is_allocated_def Let_def word_le_nat_alt BITMAP_INDEX_frame mask_frame fbit_def)
qed

lemma pmm_free_step:
  assumes inv: "pmm_inv p" and n: "n < 2 ^ 20"
  shows "\<exists>q. pmm_grow p (BITMAP_INDEX (0x1000 * of_nat n)) = Some q \<and> pmm_inv q \<and> free_frames q = free_frames p \<and>
    (k_mem_pmm_is_allocated q (0x1000 * of_nat n) \<longleftrightarrow> n \<notin> free_frames p) \<and>
    pmm_inv (pmm_release q (0x1000 * of_nat n)) \<and>
    free_frames (pmm_release q (0x1000 * of_nat n)) = insert n (free_frames p)"
proof -
  let ?f = "0x1000 * of_nat n :: u64"
  have i: "unat (BITMAP_INDEX ?f) = n div 32" using n by (simp add: BITMAP_INDEX_frame)
  obtain q where q: "pmm_grow p (BITMAP_INDEX ?f) = Some q" "n div 32 < unat (bitmap_size q)"
      "unat (bitmap_size q) = max (unat (bitmap_size p)) (n div 32 + 1)"
      "first_free_index q = first_free_index p"
      "bitmap q = (\<lambda>i. if unat (bitmap_size p) \<le> i \<and> i \<le> n div 32 then 0 else bitmap p i)"
  proof -
    have "unat (BITMAP_INDEX ?f) < 2 ^ 32 - 1" unfolding i using n div_le_dividend [of n 32] by simp
    from pmm_grow_spec [OF this, of p] that show ?thesis unfolding i by blast
  qed
  have invq: "pmm_inv q" using inv q n by (auto simp: pmm_inv_def)
  have "m < 32 * unat (bitmap_size q) \<and> fbit (bitmap q) m \<longleftrightarrow> m < 32 * unat (bitmap_size p) \<and> fbit (bitmap p) m" for m
    using q(3) by (auto simp: q(5) fbit_def max_def)
  then have fq: "free_frames q = free_frames p" by (simp add: free_frames_fbit)
  have nq: "n < 32 * unat (bitmap_size q)" using q(2) by linarith
  then have al: "k_mem_pmm_is_allocated q ?f \<longleftrightarrow> n \<notin> free_frames p"
    unfolding fq [symmetric] using is_allocated_fbit [of n q] q(2) n by (simp add: free_frames_fbit)
  let ?r = "pmm_release q ?f"
  have sz: "bitmap_size ?r = bitmap_size q" by (simp add: pmm_release_def Let_def set_word_def)
  have fr: "free_frames ?r = insert n (free_frames p)"
    unfolding fq [symmetric] using release_fbit [of n q] n nq by (auto simp: free_frames_fbit sz)
  have "bitmap ?r j = 0" if "j < unat (bitmap_size q)" "j < unat (first_free_index ?r)" for j
  proof -
    have "j < unat (first_free_index q)" "j \<noteq> n div 32"
      using that(2) i by (auto simp: pmm_release_def Let_def word_less_nat_alt split: if_splits)
    then show ?thesis
      using invq that(1) i by (auto simp: pmm_inv_def pmm_release_def Let_def set_word_def)
  qed
  then have "pmm_inv ?r" using invq sz by (auto simp: pmm_inv_def)
  with q(1) invq fq al fr show ?thesis by blast
qed

lemma pmm_free_loop_spec:
  "pmm_inv p \<Longrightarrow> n + c \<le> 2 ^ 20 \<Longrightarrow>
   \<exists>q d. pmm_free_loop p (map (\<lambda>k. 0x1000 * of_nat k) [n..<n + c]) = Some q \<and> pmm_inv q \<and> d \<le> c \<and>
     free_frames q = free_frames p \<union> {n..<n + d} \<and> {n..<n + d} \<inter> free_frames p = {} \<and>
     (d < c \<longrightarrow> n + d \<in> free_frames p)"
proof (induction c arbitrary: p n)
  case 0
  then show ?case by auto
next
  case (Suc c)
  obtain q where q: "pmm_grow p (BITMAP_INDEX (0x1000 * of_nat n)) = Some q" "pmm_inv q" "free_frames q = free_frames p"
      "k_mem_pmm_is_allocated q (0x1000 * of_nat n) \<longleftrightarrow> n \<notin> free_frames p"
      "pmm_inv (pmm_release q (0x1000 * of_nat n))"
      "free_frames (pmm_release q (0x1000 * of_nat n)) = insert n (free_frames p)"
    using pmm_free_step [OF Suc.prems(1), of n] Suc.prems(2) by auto
  have cons: "[n..<n + Suc c] = n # [Suc n..<Suc n + c]" by (simp add: upt_conv_Cons)
  show ?case
  proof (cases "n \<in> free_frames p")
    case True
    then show ?thesis using q unfolding cons by (intro exI [of _ q] exI [of _ 0]) simp
  next
    case False
    obtain r d where r: "pmm_free_loop (pmm_release q (0x1000 * of_nat n)) (map (\<lambda>k. 0x1000 * of_nat k) [Suc n..<Suc n + c]) = Some r"
        "pmm_inv r" "d \<le> c" "free_frames r = insert n (free_frames p) \<union> {Suc n..<Suc n + d}"
        "{Suc n..<Suc n + d} \<inter> insert n (free_frames p) = {}" "d < c \<longrightarrow> Suc n + d \<in> insert n (free_frames p)"
      using Suc.IH [OF q(5), of "Suc n"] Suc.prems(2) q(6) by auto
    have "insert n (free_frames p) \<union> {Suc n..<Suc n + d} = free_frames p \<union> {n..<n + Suc d}" by auto
    moreover have "{n..<n + Suc d} \<inter> free_frames p = {}"
      using r(5) False by (auto simp: less_Suc_eq_le disjoint_iff) (metis Suc_leI le_neq_implies_less le_trans not_less_eq_eq)
    ultimately show ?thesis
      using r(1-4,6) q(1,4) False unfolding cons by (intro exI [of _ r] exI [of _ "Suc d"]) auto
  qed
qed


lemma k_mem_pmm_free_spec:
  assumes "pmm_inv p" and "n + unat sz \<le> 2 ^ 20"
  shows "(\<exists>q d. k_mem_pmm_free p (0x1000 * of_nat n) sz = Some q \<and> pmm_inv q \<and> d \<le> unat sz \<and>
      free_frames q = free_frames p \<union> {n..<n + d} \<and> {n..<n + d} \<inter> free_frames p = {} \<and>
      (d < unat sz \<longrightarrow> n + d \<in> free_frames p)) \<and>
    (\<forall>frame. frame mod 0x1000 \<noteq> 0 \<longrightarrow> k_mem_pmm_free p frame sz = Some p)"
proof -
  let ?f = "0x1000 * of_nat n :: u64"
  have n: "n < 2 ^ 32" using assms(2) by simp
  have al: "?f mod 0x1000 = 0"
    using n unat_frame [of n] by (intro word_unatI) (simp add: unat_mod_distrib)
  have sum: "unat (?f + 0x1000 * ucast sz) = 4096 * (n + unat sz)"
    using assms(2) n unat_frame [of n] by (simp add: unat_word_ariths)
  have "frame_range ?f sz = map (\<lambda>k. 0x1000 * of_nat k) [n..<n + unat sz]"
  proof (cases "unat sz = 0")
    case True
    then show ?thesis by (simp add: frame_range_def)
  next
    case False
    then have "?f < ?f + 0x1000 * ucast sz"
      using sum n unat_frame [of n] by (simp add: word_less_nat_alt)
    then show ?thesis
      by (intro nth_equalityI) (simp_all add: frame_range_def algebra_simps)
  qed
  then show ?thesis
    using pmm_free_loop_spec [OF assms] al by (simp add: k_mem_pmm_free_def)
qed

section \<open>Properties\<close>

text \<open>
  C28: a request for \<open>frames > 0\<close> frames panics exactly when no run of that many consecutive free
  frames exists; otherwise it returns the address of the lowest such run, takes exactly those
  frames out of the free set and keeps the invariant of the hint.
\<close>

theorem pmm_alloc_first_fit:
  assumes "pmm_inv p" and "frames \<noteq> 0"
  shows "(k_mem_pmm_alloc_frames p frames = None \<longleftrightarrow> (\<forall>n. \<not> {n..<n + unat frames} \<subseteq> free_frames p)) \<and>
    (\<forall>frame q. k_mem_pmm_alloc_frames p frames = Some (frame, q) \<longrightarrow> pmm_inv q \<and>
       (\<exists>n. unat frame = 4096 * n \<and> {n..<n + unat frames} \<subseteq> free_frames p \<and>
          (\<forall>m < n. \<not> {m..<m + unat frames} \<subseteq> free_frames p) \<and>
          free_frames q = free_frames p - {n..<n + unat frames}))"
  using alloc_frames_spec [OF assms] by (auto split: option.splits)

theorem pmm_alloc_first_fit_witness:
  "pmm_inv \<lparr>bitmap = (\<lambda>_. 0)(0 := 0b10111000), bitmap_size = 1, first_free_index = 0, allocated = 0, freed = 4\<rparr> \<and>
   k_mem_pmm_alloc_frames \<lparr>bitmap = (\<lambda>_. 0)(0 := 0b10111000), bitmap_size = 1, first_free_index = 0,
     allocated = 0, freed = 4\<rparr> 2 \<noteq> None"
proof -
  let ?p = "\<lparr>bitmap = (\<lambda>_. 0)(0 := 0b10111000), bitmap_size = 1, first_free_index = 0, allocated = 0, freed = 4\<rparr> :: pmm"
  have inv: "pmm_inv ?p" by (simp add: pmm_inv_def)
  have "{3..<3 + unat (2 :: u32)} \<subseteq> free_frames ?p"
  proof -
    have "{3..<3 + unat (2 :: u32)} = {3, 4}" by auto
    then show ?thesis by (simp add: free_frames_def)
  qed
  moreover have two: "(2 :: u32) \<noteq> 0" by simp
  ultimately have "k_mem_pmm_alloc_frames ?p 2 \<noteq> None"
    using pmm_alloc_first_fit [OF inv two] by blast
  with inv show ?thesis by blast
qed

text \<open>
  C29: freeing \<open>size\<close> frames from an aligned address gives back every frame up to the first one that
  is already free (a double free stops there) and nothing else, enlarges the bitmap when needed,
  and always returns; the invariant is kept. An unaligned address changes nothing.
\<close>

theorem pmm_free_releases:
  assumes "pmm_inv p" and "n + unat sz \<le> 2 ^ 20"
  shows "(\<exists>q d. k_mem_pmm_free p (0x1000 * of_nat n) sz = Some q \<and> pmm_inv q \<and> d \<le> unat sz \<and>
      free_frames q = free_frames p \<union> {n..<n + d} \<and> {n..<n + d} \<inter> free_frames p = {} \<and>
      (d < unat sz \<longrightarrow> n + d \<in> free_frames p)) \<and>
    (\<forall>frame. frame mod 0x1000 \<noteq> 0 \<longrightarrow> k_mem_pmm_free p frame sz = Some p)"
  by (rule k_mem_pmm_free_spec [OF assms])

theorem pmm_free_releases_witness:
  "pmm_inv \<lparr>bitmap = \<lambda>_. 0, bitmap_size = 0, first_free_index = -1, allocated = 0, freed = 0\<rparr> \<and>
   (\<exists>q. k_mem_pmm_free \<lparr>bitmap = \<lambda>_. 0, bitmap_size = 0, first_free_index = -1, allocated = 0, freed = 0\<rparr>
     (0x1000 * of_nat 256) 3 = Some q \<and> free_frames q = {256..<259})"
proof -
  let ?p = "\<lparr>bitmap = \<lambda>_. 0, bitmap_size = 0, first_free_index = -1, allocated = 0, freed = 0\<rparr> :: pmm"
  have inv: "pmm_inv ?p" and none: "free_frames ?p = {}" by (simp_all add: pmm_inv_def free_frames_def)
  have "256 + unat (3 :: u32) \<le> 2 ^ 20" by simp
  from pmm_free_releases [OF inv this] inv none show ?thesis by auto
qed

text \<open>
  Allocating and then freeing the same number of frames at the returned address restores the
  set of free frames.
\<close>

theorem pmm_alloc_free_roundtrip:
  assumes "pmm_inv p" and "frames \<noteq> 0" and "k_mem_pmm_alloc_frames p frames = Some (frame, q)"
  shows "\<exists>r. k_mem_pmm_free q (ucast frame) frames = Some r \<and> pmm_inv r \<and> free_frames r = free_frames p"
proof -
  obtain n where n: "pmm_inv q" "unat frame = 4096 * n" "{n..<n + unat frames} \<subseteq> free_frames p"
      "free_frames q = free_frames p - {n..<n + unat frames}"
    using alloc_frames_spec [OF assms(1,2)] assms(3) by auto
  have pos: "unat frames > 0" using assms(2) by (simp add: unat_gt_0)
  have "n + unat frames - 1 \<in> free_frames p" using n(3) pos by auto
  then have "n + unat frames - 1 < 2 ^ 20" by (rule free_frames_bound [OF assms(1)])
  then have le: "n + unat frames \<le> 2 ^ 20" using pos by linarith
  have f: "ucast frame = (0x1000 * of_nat n :: u64)"
    using le unat_frame [of n] n(2) by (intro word_unatI) simp
  obtain r d where r: "k_mem_pmm_free q (ucast frame) frames = Some r" "pmm_inv r" "d \<le> unat frames"
      "free_frames r = free_frames q \<union> {n..<n + d}" "d < unat frames \<longrightarrow> n + d \<in> free_frames q"
    using k_mem_pmm_free_spec [OF n(1) le] f by auto
  have "d = unat frames" using r(3,5) n(4) by (cases "d < unat frames") auto
  with r n(3,4) show ?thesis by (intro exI [of _ r]) auto
qed

theorem pmm_alloc_free_roundtrip_witness:
  "\<exists>frame q r. k_mem_pmm_alloc_frames \<lparr>bitmap = (\<lambda>_. 0)(0 := 0b1000), bitmap_size = 1, first_free_index = 0,
     allocated = 0, freed = 1\<rparr> 1 = Some (frame, q) \<and> k_mem_pmm_free q (ucast frame) 1 = Some r \<and>
     free_frames r = {3}"
proof -
  let ?p = "\<lparr>bitmap = (\<lambda>_. 0)(0 := 0b1000), bitmap_size = 1, first_free_index = 0, allocated = 0, freed = 1\<rparr> :: pmm"
  have inv: "pmm_inv ?p" by (simp add: pmm_inv_def)
  have b8: "bit (8 :: u32) n \<longleftrightarrow> n = 3" for n using bit_push1 [of 3 n] by simp
  have "n \<in> free_frames ?p \<longleftrightarrow> n = 3" for n
    using b8 [of n] by (cases "n < 32") (simp_all add: free_frames_def)
  then have fr: "free_frames ?p = {3}" by blast
  have run: "{3..<3 + unat (1 :: u32)} \<subseteq> free_frames ?p" unfolding fr by auto
  have one: "(1 :: u32) \<noteq> 0" by simp
  obtain frame q where a: "k_mem_pmm_alloc_frames ?p 1 = Some (frame, q)"
    using alloc_succeeds [OF inv one run] by blast
  show ?thesis using pmm_alloc_free_roundtrip [OF inv one a] a unfolding fr by blast
qed

end
