(* ===== verification/Proc_State.thy ===== *)
theory Proc_State
  imports Prelude "HOL-Library.Monad_Syntax"
begin

text \<open>
  The state the process code works on (\<^verbatim>\<open>kernel/include/proc/process.h\<close>): process descriptors, wait
  nodes, descriptor tables, and the globals of \<^verbatim>\<open>kernel/src/proc/process.c\<close>. Objects are kept in
  explicit stores indexed by their address. A \<open>list_t\<close> is written as the sequence it holds: the
  theory \<open>KList\<close> proves that the list operations act on that sequence as \<open>@\<close>, \<open>butlast\<close>, \<open>tl\<close>
  and \<open>remove1\<close> do. A block node belongs to one process for its whole life
  (\<open>__k_proc_process_init_block_node\<close>), so a queue of block nodes is a sequence of process
  addresses, and the node's \<open>owners\<close> list is the field \<open>block_node\<close> of the process, \<open>None\<close> once
  \<open>k_proc_process_exit\<close> has freed it. A tree node likewise belongs to one process: the fields
  \<open>parent\<close> and \<open>children\<close>. A computation that dereferences a freed object, panics or does not end
  has the value \<open>None\<close>.
\<close>

record wait_node =
  wn_process :: ptr
  seconds :: u64
  microseconds :: u64
  wnext :: ptr

record fd_t =
  fd_node :: ptr
  fd_offset :: u32
  fd_links :: u32

record fd_list =
  nodes :: "ptr list"
  amount :: u32
  fds_size :: u32

record signal_t =
  handler :: ptr
  sig_flags :: u8

record interrupt_context =
  edi :: u32
  esi :: u32
  ebp :: u32
  unused_reg :: u32
  ebx :: u32
  edx :: u32
  ecx :: u32
  eax :: u32
  int_no :: u32
  err_code :: u32
  eip :: u32
  cs_reg :: u32
  eflags :: u32
  esp :: u32
  ss_reg :: u32

record process =
  pid :: u32
  uid :: u32
  status :: u32
  group_id :: u32
  flags :: u32
  pstate :: u8
  fds :: fd_list
  parent :: ptr
  children :: "ptr list"
  wait_node :: ptr
  wait_queue :: ptr
  block_node :: "ptr list option"
  time_total :: u64
  time_system :: u64
  last_entrance :: u64
  last_sys :: u64
  signals :: "nat \<Rightarrow> signal_t"
  signal_queue :: u64
  signals_ignored :: u64
  interrupted_syscall :: u32
  select_wait_node :: ptr
  select_wait_event :: u8
  timeout_node :: ptr
  kernel_stack_guard :: u32

text \<open>
  An open file of the virtual file system, as far as the process code touches it: the reference
  count and the mode it was opened with.
\<close>

record fs_node =
  links :: u32
  mode :: u32

text \<open>
  \<open>queues\<close> holds every wait queue by its address; \<open>closes\<close> is the sequence of file nodes whose
  driver was told to close them (\<open>node->fs.close(node)\<close>), oldest first.
\<close>

record kernel =
  procs :: "ptr \<Rightarrow> process"
  queues :: "ptr \<Rightarrow> ptr list"
  ready_queue :: "ptr list"
  process_list :: "ptr list"
  process_root :: ptr
  sleep_queue :: ptr
  wnodes :: "ptr \<Rightarrow> wait_node option"
  current_process :: ptr
  idle_process :: ptr
  next_pid :: u32
  fdts :: "ptr \<Rightarrow> fd_t option"
  fs_nodes :: "ptr \<Rightarrow> fs_node option"
  closes :: "ptr list"

abbreviation (input) PROCESS_STATE_STARTING :: u8 where "PROCESS_STATE_STARTING \<equiv> 0"
abbreviation (input) PROCESS_STATE_RUNNING :: u8 where "PROCESS_STATE_RUNNING \<equiv> 1"
abbreviation (input) PROCESS_STATE_FINISHED :: u8 where "PROCESS_STATE_FINISHED \<equiv> 2"
abbreviation (input) PROCESS_STATE_SLEEPING :: u8 where "PROCESS_STATE_SLEEPING \<equiv> 3"
abbreviation (input) PROCESS_FLAG_INTERRUPTED :: u32 where "PROCESS_FLAG_INTERRUPTED \<equiv> 2"

definition upd_proc :: "kernel \<Rightarrow> ptr \<Rightarrow> (process \<Rightarrow> process) \<Rightarrow> kernel" where
  "upd_proc k p f = k\<lparr>procs := (procs k)(p := f (procs k p))\<rparr>"

definition set_queue :: "kernel \<Rightarrow> ptr \<Rightarrow> ptr list \<Rightarrow> kernel" where
  "set_queue k q xs = k\<lparr>queues := (queues k)(q := xs)\<rparr>"

definition PROCESS_IS_SCHEDULABLE :: "process \<Rightarrow> bool" where
  "PROCESS_IS_SCHEDULABLE p \<longleftrightarrow>
     pstate p = PROCESS_STATE_STARTING \<or> pstate p = PROCESS_STATE_RUNNING"

lemma upd_proc_sel [simp]:
  "procs (upd_proc k p f) = (procs k)(p := f (procs k p))"
  "queues (upd_proc k p f) = queues k" "ready_queue (upd_proc k p f) = ready_queue k"
  "process_list (upd_proc k p f) = process_list k" "process_root (upd_proc k p f) = process_root k"
  "sleep_queue (upd_proc k p f) = sleep_queue k" "wnodes (upd_proc k p f) = wnodes k"
  "current_process (upd_proc k p f) = current_process k" "idle_process (upd_proc k p f) = idle_process k"
  "next_pid (upd_proc k p f) = next_pid k" "fdts (upd_proc k p f) = fdts k"
  "fs_nodes (upd_proc k p f) = fs_nodes k" "closes (upd_proc k p f) = closes k"
  by (simp_all add: upd_proc_def)

lemma set_queue_sel [simp]:
  "procs (set_queue k q xs) = procs k"
  "queues (set_queue k q xs) = (queues k)(q := xs)" "ready_queue (set_queue k q xs) = ready_queue k"
  "process_list (set_queue k q xs) = process_list k" "process_root (set_queue k q xs) = process_root k"
  "sleep_queue (set_queue k q xs) = sleep_queue k" "wnodes (set_queue k q xs) = wnodes k"
  "current_process (set_queue k q xs) = current_process k" "idle_process (set_queue k q xs) = idle_process k"
  "next_pid (set_queue k q xs) = next_pid k" "fdts (set_queue k q xs) = fdts k"
  "fs_nodes (set_queue k q xs) = fs_nodes k" "closes (set_queue k q xs) = closes k"
  by (simp_all add: set_queue_def)

lemma upd_proc_same: "f (procs k p) = procs k p \<Longrightarrow> upd_proc k p f = k"
  by (simp add: upd_proc_def)

lemma pstate_same: "pstate P = s \<Longrightarrow> P\<lparr>pstate := s\<rparr> = P"
  by (cases P) simp

text \<open>A zeroed descriptor with its block node and stack guard, and a kernel without processes, for examples.\<close>

definition blank_process :: process where
  "blank_process = \<lparr>pid = 0, uid = 0, status = 0, group_id = 0, flags = 0, pstate = 0,
     fds = \<lparr>nodes = [], amount = 0, fds_size = 0\<rparr>, parent = 0, children = [], wait_node = 0, wait_queue = 0,
     block_node = Some [], time_total = 0, time_system = 0, last_entrance = 0, last_sys = 0,
     signals = (\<lambda>_. \<lparr>handler = 0, sig_flags = 0\<rparr>), signal_queue = 0, signals_ignored = 0,
     interrupted_syscall = 0, select_wait_node = 0, select_wait_event = 0, timeout_node = 0,
     kernel_stack_guard = 0xBEDAABED\<rparr>"

definition blank_kernel :: kernel where
  "blank_kernel = \<lparr>procs = (\<lambda>_. blank_process), queues = (\<lambda>_. []), ready_queue = [], process_list = [],
     process_root = 0, sleep_queue = 0, wnodes = (\<lambda>_. None), current_process = 0, idle_process = 0,
     next_pid = 2, fdts = (\<lambda>_. None), fs_nodes = (\<lambda>_. None), closes = []\<rparr>"

end
