(* ===== verification/Sched.thy ===== *)
theory Sched
  imports Proc_State
begin

text \<open>
  Scheduling and waiting, from \<^verbatim>\<open>kernel/src/proc/process.c\<close>: the ready queue, the wait queues with
  the double bookkeeping between a queue and the processes sleeping on it, the queue of timed
  sleeps and the context switch. \<open>k_proc_process_yield\<close> returns in the context of the process it
  switched to; the code after a yield runs when its process is current again, so a function that
  sleeps is split there. The spin locks are not modelled: every operation below runs to its end.
\<close>

section \<open>The queue of timed sleeps\<close>

text \<open>The search of \<open>__k_proc_process_remove_from_sleep_queue\<close>: predecessor and successor of the target.\<close>

partial_function (option) sq_find ::
  "(ptr \<Rightarrow> wait_node option) \<Rightarrow> ptr \<Rightarrow> ptr \<Rightarrow> ptr \<Rightarrow> (ptr \<times> ptr) option option" where
  "sq_find w target prev node =
     (if node = NULL then Some None
      else case w node of
        None \<Rightarrow> None
      | Some n \<Rightarrow> if node = target then Some (Some (prev, wnext n))
                  else sq_find w target node (wnext n))"

definition sq_unlink :: "kernel \<Rightarrow> ptr \<Rightarrow> (ptr \<times> ptr) option \<Rightarrow> kernel option" where
  "sq_unlink k target r =
     (case r of
        None \<Rightarrow> Some k
      | Some (prev, nxt) \<Rightarrow>
          if target = sleep_queue k then Some (k\<lparr>sleep_queue := nxt\<rparr>)
          else do { n \<leftarrow> wnodes k prev; Some (k\<lparr>wnodes := (wnodes k)(prev \<mapsto> n\<lparr>wnext := nxt\<rparr>)\<rparr>) })"

definition remove_from_sleep_queue :: "kernel \<Rightarrow> ptr \<Rightarrow> kernel option" where
  "remove_from_sleep_queue k target =
     (if target = NULL then Some k
      else do { r \<leftarrow> sq_find (wnodes k) target (sleep_queue k) (sleep_queue k); sq_unlink k target r })"

definition free_node :: "kernel \<Rightarrow> ptr \<Rightarrow> kernel" where
  "free_node k n = k\<lparr>wnodes := (wnodes k)(n := None)\<rparr>"

definition node_later :: "wait_node \<Rightarrow> u64 \<Rightarrow> u64 \<Rightarrow> bool" where
  "node_later n s m \<longleftrightarrow> seconds n > s \<or> (seconds n = s \<and> microseconds n > m)"

definition node_due :: "wait_node \<Rightarrow> u64 \<Rightarrow> u64 \<Rightarrow> bool" where
  "node_due n s m \<longleftrightarrow> seconds n < s \<or> (seconds n = s \<and> microseconds n \<le> m)"

text \<open>The insertion loop of \<open>k_proc_process_timeout\<close> and \<open>k_proc_process_sleep\<close>.\<close>

partial_function (option) sq_position ::
  "(ptr \<Rightarrow> wait_node option) \<Rightarrow> u64 \<Rightarrow> u64 \<Rightarrow> ptr \<Rightarrow> ptr \<Rightarrow> (ptr \<times> ptr) option" where
  "sq_position w s m prev node =
     (if node = NULL then Some (prev, node)
      else case w node of
        None \<Rightarrow> None
      | Some n \<Rightarrow> if node_later n s m then sq_position w s m node (wnext n) else Some (prev, node))"

definition sq_insert :: "kernel \<Rightarrow> ptr \<Rightarrow> wait_node \<Rightarrow> kernel option" where
  "sq_insert k new n =
     (if sleep_queue k = NULL
      then Some (k\<lparr>sleep_queue := new, wnodes := (wnodes k)(new \<mapsto> n\<lparr>wnext := NULL\<rparr>)\<rparr>)
      else do {
        (prev, node) \<leftarrow> sq_position (wnodes k) (seconds n) (microseconds n) (sleep_queue k) (sleep_queue k);
        pn \<leftarrow> wnodes k prev;
        Some (k\<lparr>wnodes := (wnodes k)(prev \<mapsto> pn\<lparr>wnext := new\<rparr>, new \<mapsto> n\<lparr>wnext := node\<rparr>)\<rparr>) })"

definition deadline :: "u64 \<Rightarrow> u64 \<Rightarrow> u64 \<Rightarrow> u64 \<times> u64" where
  "deadline ticks s m =
     (let cs = ticks div 1000000 + s; cm = ticks mod 1000000 + m in
      if cm \<ge> 1000000 then (cs + cm div 1000000, cm mod 1000000) else (cs, cm))"

definition k_proc_process_timeout :: "kernel \<Rightarrow> ptr \<Rightarrow> u64 \<Rightarrow> u64 \<Rightarrow> u64 \<Rightarrow> ptr \<Rightarrow> kernel option" where
  "k_proc_process_timeout k p ticks s m new =
     (let (cs, cm) = deadline ticks s m;
          n = \<lparr>wn_process = p, seconds = cs, microseconds = cm, wnext = NULL\<rparr>
      in sq_insert (upd_proc k p (timeout_node_update (\<lambda>_. new))) new n)"

section \<open>Blocking\<close>

definition k_proc_process_own_block :: "kernel \<Rightarrow> ptr \<Rightarrow> ptr \<Rightarrow> kernel option" where
  "k_proc_process_own_block k p q =
     do { os \<leftarrow> block_node (procs k p);
          Some (upd_proc (set_queue k q (queues k q @ [p])) p (block_node_update (\<lambda>_. Some (os @ [q])))) }"

text \<open>
  The loop of \<open>k_proc_process_release_block\<close>, which is also the first loop of
  \<open>k_proc_process_invalidate_locks\<close>.
\<close>

function k_proc_process_release_block :: "kernel \<Rightarrow> ptr \<Rightarrow> kernel option" where
  "k_proc_process_release_block k p =
     (case block_node (procs k p) of
        None \<Rightarrow> None
      | Some os \<Rightarrow>
          if os = [] then Some k
          else let l = last os;
                   k1 = upd_proc k p (block_node_update (\<lambda>_. Some (butlast os)))
               in k_proc_process_release_block (set_queue k1 l (remove1 p (queues k1 l))) p)"
  by pat_completeness auto
termination
  by (relation "measure (\<lambda>(k, p). case block_node (procs k p) of None \<Rightarrow> 0 | Some os \<Rightarrow> length os)") auto

declare k_proc_process_release_block.simps [simp del]

definition k_proc_process_has_locks :: "kernel \<Rightarrow> ptr \<Rightarrow> bool option" where
  "k_proc_process_has_locks k p =
     do { os \<leftarrow> block_node (procs k p);
          Some (os \<noteq> [] \<or> timeout_node (procs k p) \<noteq> NULL \<or> wait_node (procs k p) \<noteq> NULL) }"

definition drop_wait_node :: "kernel \<Rightarrow> ptr \<Rightarrow> kernel option" where
  "drop_wait_node k p =
     (let n = wait_node (procs k p) in
      if n = NULL then Some k
      else do { k1 \<leftarrow> remove_from_sleep_queue k n;
                Some (upd_proc (free_node k1 n) p (wait_node_update (\<lambda>_. NULL))) })"

definition drop_timeout_node :: "kernel \<Rightarrow> ptr \<Rightarrow> kernel option" where
  "drop_timeout_node k p =
     (let n = timeout_node (procs k p) in
      if n = NULL then Some k
      else do { k1 \<leftarrow> remove_from_sleep_queue k n;
                Some (upd_proc (free_node k1 n) p (timeout_node_update (\<lambda>_. NULL))) })"

definition k_proc_process_invalidate_locks :: "kernel \<Rightarrow> ptr \<Rightarrow> kernel option" where
  "k_proc_process_invalidate_locks k p =
     do { k1 \<leftarrow> k_proc_process_release_block k p; k2 \<leftarrow> drop_wait_node k1 p; drop_timeout_node k2 p }"

definition k_proc_process_mark_ready :: "kernel \<Rightarrow> ptr \<Rightarrow> kernel option" where
  "k_proc_process_mark_ready k p =
     do { b \<leftarrow> k_proc_process_has_locks k p;
          let k1 = (if b then upd_proc k p (\<lambda>x. x\<lparr>flags := flags x OR PROCESS_FLAG_INTERRUPTED\<rparr>) else k);
          let k2 = upd_proc k1 p (pstate_update (\<lambda>_. PROCESS_STATE_RUNNING));
          k3 \<leftarrow> k_proc_process_invalidate_locks k2 p;
          Some (k3\<lparr>ready_queue := ready_queue k3 @ [p]\<rparr>) }"

section \<open>The context switch\<close>

definition k_proc_process_next :: "kernel \<Rightarrow> ptr \<times> kernel" where
  "k_proc_process_next k =
     (case ready_queue k of
        [] \<Rightarrow> (idle_process k, k)
      | p # ps \<Rightarrow> (if p = NULL then idle_process k else p, k\<lparr>ready_queue := ps\<rparr>))"

text \<open>\<open>do ... while(!PROCESS_IS_SCHEDULABLE(new_proc))\<close>; with nothing left and no idle process it does not end.\<close>

function pick_next :: "kernel \<Rightarrow> (ptr \<times> kernel) option" where
  "pick_next k =
     (let (p, k') = k_proc_process_next k in
      if PROCESS_IS_SCHEDULABLE (procs k' p) then Some (p, k')
      else if ready_queue k = [] then None else pick_next k')"
  by pat_completeness auto
termination
  by (relation "measure (\<lambda>k. length (ready_queue k))")
    (auto simp: k_proc_process_next_def split: list.splits)

declare pick_next.simps [simp del]

definition update_stats :: "u64 \<Rightarrow> process \<Rightarrow> process" where
  "update_stats stamp p =
     (let p1 = (if last_entrance p \<noteq> 0 \<and> last_entrance p < stamp
                then p\<lparr>time_total := time_total p + (stamp - last_entrance p)\<rparr> else p);
          p2 = p1\<lparr>last_entrance := 0\<rparr>;
          p3 = (if last_sys p2 \<noteq> 0 \<and> last_sys p2 < stamp
                then p2\<lparr>time_system := time_system p2 + (stamp - last_sys p2)\<rparr> else p2)
      in p3\<lparr>last_sys := 0\<rparr>)"

definition GUARD_MAGIC :: u32 where "GUARD_MAGIC = 0xBEDAABED"

text \<open>\<open>t1\<close> and \<open>t2\<close> are the two readings of the time stamp counter.\<close>

definition k_proc_process_switch :: "u64 \<Rightarrow> u64 \<Rightarrow> kernel \<Rightarrow> kernel option" where
  "k_proc_process_switch t1 t2 k =
     do { (p, k1) \<leftarrow> pick_next k;
          let k2 = k1\<lparr>current_process := p\<rparr>;
          let k3 = (if pstate (procs k2 p) \<noteq> PROCESS_STATE_RUNNING
                    then upd_proc k2 p (pstate_update (\<lambda>_. PROCESS_STATE_RUNNING)) else k2);
          let k4 = upd_proc k3 p (update_stats t1);
          let k5 = upd_proc k4 p (\<lambda>x. x\<lparr>last_entrance := t2, last_sys := t2\<rparr>);
          if kernel_stack_guard (procs k5 p) = GUARD_MAGIC then Some k5 else None }"

definition k_proc_process_yield :: "u64 \<Rightarrow> u64 \<Rightarrow> kernel \<Rightarrow> kernel option" where
  "k_proc_process_yield t1 t2 k =
     (let old = current_process k in
      if process_list k = [] \<or> old = NULL then Some k
      else if old = idle_process k then k_proc_process_switch t1 t2 k
      else if PROCESS_IS_SCHEDULABLE (procs k old)
      then do { k1 \<leftarrow> k_proc_process_mark_ready k old; k_proc_process_switch t1 t2 k1 }
      else k_proc_process_switch t1 t2 k)"

section \<open>Sleeping and waking\<close>

text \<open>
  \<open>k_proc_process_sleep_on_queue\<close> up to the yield, and the value it returns once its process runs
  again. \<open>k_proc_process_sleep_and_unlock\<close> differs only in releasing a spin lock before the yield.
\<close>

definition sleep_prepare :: "kernel \<Rightarrow> ptr \<Rightarrow> ptr \<Rightarrow> kernel option" where
  "sleep_prepare k p q =
     do { k1 \<leftarrow> k_proc_process_own_block k p q;
          Some (upd_proc k1 p (\<lambda>x. x\<lparr>flags := flags x AND NOT PROCESS_FLAG_INTERRUPTED,
                                     pstate := PROCESS_STATE_SLEEPING\<rparr>)) }"

definition k_proc_process_sleep_on_queue :: "u64 \<Rightarrow> u64 \<Rightarrow> kernel \<Rightarrow> ptr \<Rightarrow> ptr \<Rightarrow> kernel option" where
  "k_proc_process_sleep_on_queue t1 t2 k p q =
     do { k1 \<leftarrow> sleep_prepare k p q;
          if p = current_process k1 then k_proc_process_yield t1 t2 k1 else Some k1 }"

definition sleep_result :: "kernel \<Rightarrow> ptr \<Rightarrow> bool" where
  "sleep_result k p \<longleftrightarrow> flags (procs k p) AND PROCESS_FLAG_INTERRUPTED \<noteq> 0"

definition k_proc_process_is_ready :: "kernel \<Rightarrow> ptr \<Rightarrow> bool" where
  "k_proc_process_is_ready k p = PROCESS_IS_SCHEDULABLE (procs k p)"

text \<open>\<open>list_pop_back(queue)\<close> followed by \<open>list_delete_element(node->owners, queue)\<close>.\<close>

definition pop_waiter :: "kernel \<Rightarrow> ptr \<Rightarrow> (ptr \<times> kernel) option" where
  "pop_waiter k q =
     (let p = last (queues k q); k1 = set_queue k q (butlast (queues k q)) in
      do { os \<leftarrow> block_node (procs k1 p);
           Some (p, upd_proc k1 p (block_node_update (\<lambda>_. Some (remove1 q os)))) })"

text \<open>No operation of a wake-up lengthens a queue, so the loops below end.\<close>

definition queues_shrink :: "kernel \<Rightarrow> kernel \<Rightarrow> bool" where
  "queues_shrink k k' \<longleftrightarrow> (\<forall>q. length (queues k' q) \<le> length (queues k q))"

lemma queues_shrink_refl [simp]: "queues k' = queues k \<Longrightarrow> queues_shrink k k'"
  by (simp add: queues_shrink_def)

lemma queues_shrink_trans [trans]: "queues_shrink a b \<Longrightarrow> queues_shrink b c \<Longrightarrow> queues_shrink a c"
  unfolding queues_shrink_def by (meson le_trans)

lemma release_block_shrinks: "k_proc_process_release_block k p = Some k' \<Longrightarrow> queues_shrink k k'"
proof (induction k p rule: k_proc_process_release_block.induct)
  case (1 k p)
  show ?case
  proof (cases "block_node (procs k p)")
    case (Some os)
    show ?thesis
    proof (cases "os = []")
      case False
      let ?k = "upd_proc k p (block_node_update (\<lambda>_. Some (butlast os)))"
      have "queues_shrink k (set_queue ?k (last os) (remove1 p (queues ?k (last os))))"
        by (simp add: queues_shrink_def length_remove1)
      then show ?thesis
        using 1 Some False by (force simp: k_proc_process_release_block.simps [of k] Let_def
            elim: queues_shrink_trans)
    qed (use 1(2) Some in \<open>simp add: k_proc_process_release_block.simps [of k]\<close>)
  qed (use 1(2) in \<open>simp add: k_proc_process_release_block.simps [of k]\<close>)
qed

lemma sq_unlink_frame:
  "sq_unlink k n r = Some k' \<Longrightarrow> queues k' = queues k \<and> procs k' = procs k \<and> ready_queue k' = ready_queue k"
  by (cases r) (auto simp: sq_unlink_def Option.bind_eq_Some_conv split: if_split_asm)

lemma remove_from_sleep_queue_frame [frame_simps]:
  "remove_from_sleep_queue k n = Some k' \<Longrightarrow> queues k' = queues k \<and> procs k' = procs k \<and>
     ready_queue k' = ready_queue k"
  by (auto simp: remove_from_sleep_queue_def Option.bind_eq_Some_conv split: if_split_asm dest!: sq_unlink_frame)

lemma drop_nodes_shrink:
  "drop_wait_node k p = Some k' \<Longrightarrow> queues_shrink k k'"
  "drop_timeout_node k p = Some k' \<Longrightarrow> queues_shrink k k'"
  by (auto simp: drop_wait_node_def drop_timeout_node_def Let_def Option.bind_eq_Some_conv free_node_def
      split: if_splits dest!: remove_from_sleep_queue_frame)

lemma invalidate_locks_shrinks:
  "k_proc_process_invalidate_locks k p = Some k' \<Longrightarrow> queues_shrink k k'"
  by (auto simp: k_proc_process_invalidate_locks_def Option.bind_eq_Some_conv
      dest!: drop_nodes_shrink release_block_shrinks intro: queues_shrink_trans)

lemma mark_ready_shrinks: "k_proc_process_mark_ready k p = Some k' \<Longrightarrow> queues_shrink k k'"
  by (auto simp: k_proc_process_mark_ready_def Let_def Option.bind_eq_Some_conv queues_shrink_def
      dest!: invalidate_locks_shrinks split: if_splits)

lemma pop_waiter_queue:
  "pop_waiter k q = Some (p, k') \<Longrightarrow> queues k q \<noteq> [] \<Longrightarrow> length (queues k' q) < length (queues k q)"
  by (auto simp: pop_waiter_def Let_def Option.bind_eq_Some_conv)

lemma pop_release_queue:
  "pop_waiter k q = Some (p, k0) \<Longrightarrow> k_proc_process_release_block k0 p = Some k1 \<Longrightarrow> queues k q \<noteq> [] \<Longrightarrow>
     length (queues k1 q) < length (queues k q)"
  using pop_waiter_queue release_block_shrinks unfolding queues_shrink_def by (meson le_less_trans)

function k_proc_process_wakeup_queue_single :: "kernel \<Rightarrow> ptr \<Rightarrow> kernel option" where
  "k_proc_process_wakeup_queue_single k q =
     (if queues k q = [] then Some k
      else case pop_waiter k q of
        None \<Rightarrow> None
      | Some (p, k1) \<Rightarrow>
          if pstate (procs k1 p) \<noteq> PROCESS_STATE_FINISHED \<and> \<not> k_proc_process_is_ready k1 p
          then k_proc_process_mark_ready (upd_proc k1 p (pstate_update (\<lambda>_. PROCESS_STATE_RUNNING))) p
          else k_proc_process_wakeup_queue_single k1 q)"
  by pat_completeness auto
termination
  by (relation "measure (\<lambda>(k, q). length (queues k q))")
    (auto dest: pop_waiter_queue)

declare k_proc_process_wakeup_queue_single.simps [simp del]

function k_proc_process_wakeup_queue_single_select :: "kernel \<Rightarrow> ptr \<Rightarrow> ptr \<Rightarrow> u8 \<Rightarrow> kernel option" where
  "k_proc_process_wakeup_queue_single_select k q fsnode event =
     (if queues k q = [] then Some k
      else case pop_waiter k q of
        None \<Rightarrow> None
      | Some (p, k0) \<Rightarrow>
          (case k_proc_process_release_block k0 p of
             None \<Rightarrow> None
           | Some k1 \<Rightarrow>
               if pstate (procs k1 p) \<noteq> PROCESS_STATE_FINISHED \<and> \<not> k_proc_process_is_ready k1 p
               then do { k2 \<leftarrow> drop_timeout_node (upd_proc k1 p (\<lambda>x. x\<lparr>pstate := PROCESS_STATE_RUNNING,
                             select_wait_node := fsnode, select_wait_event := event\<rparr>)) p;
                         k_proc_process_mark_ready k2 p }
               else k_proc_process_wakeup_queue_single_select k1 q fsnode event))"
  by pat_completeness auto
termination
  by (relation "measure (\<lambda>(k, q, n, e). length (queues k q))")
    (auto dest: pop_release_queue)

declare k_proc_process_wakeup_queue_single_select.simps [simp del]

lemma wakeup_single_shrinks:
  "k_proc_process_wakeup_queue_single k q = Some k' \<Longrightarrow> queues k q \<noteq> [] \<Longrightarrow>
     length (queues k' q) < length (queues k q)"
proof (induction k q rule: k_proc_process_wakeup_queue_single.induct)
  case (1 k q)
  obtain p k1 where p: "pop_waiter k q = Some (p, k1)"
    using 1(2,3) by (auto simp: k_proc_process_wakeup_queue_single.simps [of k q] split: option.split_asm)
  have less: "length (queues k1 q) < length (queues k q)" by (rule pop_waiter_queue [OF p 1(3)])
  show ?case
  proof (cases "pstate (procs k1 p) \<noteq> PROCESS_STATE_FINISHED \<and> \<not> k_proc_process_is_ready k1 p")
    case True
    then have "k_proc_process_mark_ready (upd_proc k1 p (pstate_update (\<lambda>_. PROCESS_STATE_RUNNING))) p = Some k'"
      using 1(2,3) p by (simp add: k_proc_process_wakeup_queue_single.simps [of k q])
    from mark_ready_shrinks [OF this] have "length (queues k' q) \<le> length (queues k1 q)"
      by (simp add: queues_shrink_def)
    then show ?thesis using less by simp
  next
    case False
    then have k': "k_proc_process_wakeup_queue_single k1 q = Some k'"
      using 1(2,3) p by (simp add: k_proc_process_wakeup_queue_single.simps [of k q] split: if_split_asm)
    show ?thesis
    proof (cases "queues k1 q = []")
      case True
      then show ?thesis using k' 1(3) by (simp add: k_proc_process_wakeup_queue_single.simps [of k1 q])
    next
      case ne: False
      have "length (queues k' q) < length (queues k1 q)"
        by (rule 1(1) [OF 1(3) p refl _ k' ne]) (use False in auto)
      then show ?thesis using less by simp
    qed
  qed
qed

lemma wakeup_single_select_shrinks:
  "k_proc_process_wakeup_queue_single_select k q fsnode event = Some k' \<Longrightarrow> queues k q \<noteq> [] \<Longrightarrow>
     length (queues k' q) < length (queues k q)"
proof (induction k q fsnode event rule: k_proc_process_wakeup_queue_single_select.induct)
  case (1 k q fsnode event)
  note unf = k_proc_process_wakeup_queue_single_select.simps [of k q]
  obtain p k0 k1 where p: "pop_waiter k q = Some (p, k0)" "k_proc_process_release_block k0 p = Some k1"
    using 1(2,3) by (auto simp: unf split: option.split_asm)
  have less: "length (queues k1 q) < length (queues k q)" by (rule pop_release_queue [OF p 1(3)])
  let ?k1 = "upd_proc k1 p (\<lambda>x. x\<lparr>pstate := PROCESS_STATE_RUNNING,
               select_wait_node := fsnode, select_wait_event := event\<rparr>)"
  show ?case
  proof (cases "pstate (procs k1 p) \<noteq> PROCESS_STATE_FINISHED \<and> \<not> k_proc_process_is_ready k1 p")
    case True
    then obtain k2 where k2: "drop_timeout_node ?k1 p = Some k2" "k_proc_process_mark_ready k2 p = Some k'"
      using 1(2,3) p by (auto simp: unf Option.bind_eq_Some_conv)
    from queues_shrink_trans [OF drop_nodes_shrink(2) [OF k2(1)] mark_ready_shrinks [OF k2(2)]]
    have "length (queues k' q) \<le> length (queues k1 q)" by (simp add: queues_shrink_def)
    then show ?thesis using less by simp
  next
    case False
    then have k': "k_proc_process_wakeup_queue_single_select k1 q fsnode event = Some k'"
      using 1(2,3) p by (simp add: unf split: if_split_asm)
    show ?thesis
    proof (cases "queues k1 q = []")
      case True
      then show ?thesis using k' 1(3) by (simp add: k_proc_process_wakeup_queue_single_select.simps [of k1 q])
    next
      case ne: False
      have "length (queues k' q) < length (queues k1 q)"
        by (rule 1(1) [OF 1(3) p(1) refl p(2) _ k' ne]) (use False in auto)
      then show ?thesis using less by simp
    qed
  qed
qed

function k_proc_process_wakeup_queue :: "kernel \<Rightarrow> ptr \<Rightarrow> kernel option" where
  "k_proc_process_wakeup_queue k q =
     (if queues k q = [] then Some k
      else case k_proc_process_wakeup_queue_single k q of
        None \<Rightarrow> None
      | Some k1 \<Rightarrow> k_proc_process_wakeup_queue k1 q)"
  by pat_completeness auto
termination
  by (relation "measure (\<lambda>(k, q). length (queues k q))") (auto dest: wakeup_single_shrinks)

declare k_proc_process_wakeup_queue.simps [simp del]

function k_proc_process_wakeup_queue_select :: "kernel \<Rightarrow> ptr \<Rightarrow> ptr \<Rightarrow> u8 \<Rightarrow> kernel option" where
  "k_proc_process_wakeup_queue_select k q fsnode event =
     (if queues k q = [] then Some k
      else case k_proc_process_wakeup_queue_single_select k q fsnode event of
        None \<Rightarrow> None
      | Some k1 \<Rightarrow> k_proc_process_wakeup_queue_select k1 q fsnode event)"
  by pat_completeness auto
termination
  by (relation "measure (\<lambda>(k, q, n, e). length (queues k q))") (auto dest: wakeup_single_select_shrinks)

declare k_proc_process_wakeup_queue_select.simps [simp del]

section \<open>Timed wake-ups\<close>

text \<open>One turn of the loop of \<open>__k_proc_process_wakeup_timing\<close>, for the node at the head of the queue.\<close>

definition wakeup_node :: "kernel \<Rightarrow> ptr \<Rightarrow> wait_node \<Rightarrow> kernel option" where
  "wakeup_node k node n =
     (let k0 = k\<lparr>sleep_queue := wnext n\<rparr>; p = wn_process n in
      do { k1 \<leftarrow> (if pstate (procs k0 p) \<noteq> PROCESS_STATE_FINISHED
             then do {
               k2 \<leftarrow> (if timeout_node (procs k0 p) = node
                      then do { k3 \<leftarrow> k_proc_process_release_block k0 p;
                                Some (upd_proc k3 p (\<lambda>x. x\<lparr>select_wait_node := NULL,
                                  select_wait_event := 0, timeout_node := NULL\<rparr>)) }
                      else Some (upd_proc k0 p (wait_node_update (\<lambda>_. NULL))));
               k_proc_process_mark_ready k2 p }
             else Some k0);
           Some (free_node k1 node) })"

partial_function (option) wakeup_timing :: "kernel \<Rightarrow> u64 \<Rightarrow> u64 \<Rightarrow> kernel option" where
  "wakeup_timing k s m =
     (if sleep_queue k = NULL then Some k
      else case wnodes k (sleep_queue k) of
        None \<Rightarrow> None
      | Some n \<Rightarrow>
          if node_due n s m
          then (case wakeup_node k (sleep_queue k) n of
                  None \<Rightarrow> None
                | Some k1 \<Rightarrow> wakeup_timing k1 s m)
          else Some k)"

definition k_proc_process_update_timings :: "kernel \<Rightarrow> u64 \<Rightarrow> kernel option" where
  "k_proc_process_update_timings k ticks = wakeup_timing k (ticks div 1000000) (ticks mod 1000000)"

text \<open>
  \<open>k_proc_process_sleep\<close> up to its yield, with the deadline it keeps in locals, and its result from
  the ticks read afterwards (line 878 compares the deadline's seconds with the new microseconds).
\<close>

definition timed_sleep_prepare :: "kernel \<Rightarrow> ptr \<Rightarrow> u64 \<Rightarrow> u64 \<Rightarrow> ptr \<Rightarrow> kernel option" where
  "timed_sleep_prepare k p ticks us new =
     (let (cs, cm) = deadline ticks (us div 1000000) (us mod 1000000);
          n = \<lparr>wn_process = p, seconds = cs, microseconds = cm, wnext = NULL\<rparr>
      in do { k1 \<leftarrow> sq_insert (upd_proc k p (wait_node_update (\<lambda>_. new))) new n;
              Some (upd_proc k1 p (pstate_update (\<lambda>_. PROCESS_STATE_SLEEPING))) })"

definition timed_sleep_result :: "u64 \<Rightarrow> u64 \<Rightarrow> u64 \<Rightarrow> u32" where
  "timed_sleep_result ticks us ticks' =
     (let (cs, cm) = deadline ticks (us div 1000000) (us mod 1000000);
          ns = ticks' div 1000000; nm = ticks' mod 1000000
      in if cs > ns \<or> (cs = nm \<and> cm > nm) then 1 else 0)"

end
