(* ===== verification/Sched_Inv.thy ===== *)
theory Sched_Inv
  imports Sched
begin

text \<open>
  The invariant of the wait queues and of the queue of timed sleeps, and what the operations of
  \<open>Sched\<close> do under it: waking, being woken by a signal or a timer, and the round robin of the ready
  queue.
\<close>

section \<open>The invariant\<close>

text \<open>
  A process is as often in a queue as the queue is among the owners of its block node; a process
  whose block node was freed is in none.
\<close>

definition links_ok :: "kernel \<Rightarrow> bool" where
  "links_ok k \<longleftrightarrow> (\<forall>p q. count_list (queues k q) p =
     (case block_node (procs k p) of None \<Rightarrow> 0 | Some os \<Rightarrow> count_list os q))"

fun sq_list :: "(ptr \<Rightarrow> wait_node option) \<Rightarrow> ptr \<Rightarrow> ptr list \<Rightarrow> bool" where
  "sq_list w p [] \<longleftrightarrow> p = NULL"
| "sq_list w p (x # xs) \<longleftrightarrow>
     p = x \<and> x \<noteq> NULL \<and> (case w x of None \<Rightarrow> False | Some n \<Rightarrow> sq_list w (wnext n) xs)"

definition holds_node :: "process \<Rightarrow> ptr \<Rightarrow> bool" where
  "holds_node p x \<longleftrightarrow> x \<noteq> NULL \<and> (wait_node p = x \<or> timeout_node p = x)"

text \<open>
  The queue of timed sleeps is a finite list of allocated nodes; the two nodes a process may hold
  are its own, different, and only an unfinished process holds one; every queued node is held.
\<close>

definition timers_ok :: "kernel \<Rightarrow> ptr list \<Rightarrow> bool" where
  "timers_ok k xs \<longleftrightarrow> sq_list (wnodes k) (sleep_queue k) xs \<and> distinct xs \<and>
     (\<forall>p x. holds_node (procs k p) x \<longrightarrow> pstate (procs k p) \<noteq> PROCESS_STATE_FINISHED \<and>
        block_node (procs k p) \<noteq> None \<and> (\<exists>n. wnodes k x = Some n \<and> wn_process n = p)) \<and>
     (\<forall>p. wait_node (procs k p) = timeout_node (procs k p) \<longrightarrow> wait_node (procs k p) = NULL) \<and>
     (\<forall>x \<in> set xs. \<exists>n. wnodes k x = Some n \<and> holds_node (procs k (wn_process n)) x)"

definition sched_inv :: "kernel \<Rightarrow> bool" where
  "sched_inv k \<longleftrightarrow> links_ok k \<and> (\<exists>xs. timers_ok k xs)"

section \<open>Releasing a block node\<close>

lemma links_ok_release:
  assumes "links_ok k" and "block_node (procs k p) = Some os"
  shows "k_proc_process_release_block k p = Some (k\<lparr>procs := (procs k)(p := (procs k p)\<lparr>block_node := Some []\<rparr>),
    queues := (\<lambda>q. removeAll p (queues k q))\<rparr>)"
  using assms
proof (induction os arbitrary: k rule: rev_induct)
  case Nil
  have "\<forall>q. p \<notin> set (queues k q)"
    using Nil unfolding links_ok_def by (metis count_list.simps(1) count_list_0_iff option.simps(5))
  then have "(\<lambda>q. removeAll p (queues k q)) = queues k" by (auto simp: removeAll_id)
  moreover have "(procs k)(p := (procs k p)\<lparr>block_node := Some []\<rparr>) = procs k"
    using Nil by (auto simp: fun_eq_iff)
  ultimately show ?case using Nil by (simp add: k_proc_process_release_block.simps [of k])
next
  case (snoc l os)
  let ?k = "set_queue (upd_proc k p (block_node_update (\<lambda>_. Some os))) l (remove1 p (queues k l))"
  have cnt: "count_list (queues k l) p = Suc (count_list os l)"
    using snoc(2,3) by (auto simp: links_ok_def)
  have "links_ok ?k"
    unfolding links_ok_def
  proof (intro allI)
    fix p' q
    have "count_list (queues k q) p' = (case block_node (procs k p') of None \<Rightarrow> 0 | Some os \<Rightarrow> count_list os q)"
      using snoc(2) by (simp add: links_ok_def)
    then show "count_list (queues ?k q) p' =
        (case block_node (procs ?k p') of None \<Rightarrow> 0 | Some os \<Rightarrow> count_list os q)"
      using snoc(3) cnt by (auto simp: count_list_remove1)
  qed
  then have "k_proc_process_release_block ?k p = Some (?k\<lparr>procs := (procs ?k)(p := (procs ?k p)\<lparr>block_node := Some []\<rparr>),
    queues := (\<lambda>q. removeAll p (queues ?k q))\<rparr>)" by (rule snoc(1)) simp
  moreover have "(\<lambda>q. removeAll p (queues ?k q)) = (\<lambda>q. removeAll p (queues k q))"
    by (auto simp: fun_eq_iff)
  moreover have "k_proc_process_release_block k p = k_proc_process_release_block ?k p"
    using snoc(3) by (simp add: k_proc_process_release_block.simps [of k])
  moreover have "?k\<lparr>procs := (procs ?k)(p := (procs ?k p)\<lparr>block_node := Some []\<rparr>),
      queues := (\<lambda>q. removeAll p (queues k q))\<rparr> =
    k\<lparr>procs := (procs k)(p := (procs k p)\<lparr>block_node := Some []\<rparr>), queues := (\<lambda>q. removeAll p (queues k q))\<rparr>"
    by (simp add: upd_proc_def set_queue_def)
  ultimately show ?case by metis
qed

section \<open>The queue of timed sleeps as a list\<close>

definition head_of :: "ptr list \<Rightarrow> ptr" where
  "head_of xs = (case xs of [] \<Rightarrow> NULL | x # _ \<Rightarrow> x)"

lemma head_of_simps [simp]: "head_of [] = NULL" "head_of (x # xs) = x"
  by (simp_all add: head_of_def)

lemma sq_list_head: "sq_list w p xs \<Longrightarrow> p = head_of xs"
  by (cases xs) auto

lemma sq_list_nonnull: "sq_list w p xs \<Longrightarrow> x \<in> set xs \<Longrightarrow> x \<noteq> NULL \<and> w x \<noteq> None"
  by (induction xs arbitrary: p) (auto split: option.splits)

lemma sq_list_cong: "\<forall>x \<in> set xs. w' x = w x \<Longrightarrow> sq_list w' p xs = sq_list w p xs"
  by (induction xs arbitrary: p) (auto split: option.splits)

lemma sq_list_start: "sq_list w p xs \<Longrightarrow> sq_list w (head_of xs) xs"
  using sq_list_head by metis

lemma sq_find_none: "sq_list w p xs \<Longrightarrow> t \<notin> set xs \<Longrightarrow> sq_find w t prev p = Some None"
proof (induction xs arbitrary: prev p)
  case (Cons x xs)
  then show ?case by (cases "w x") (auto simp: sq_find.simps [of w t prev x])
qed (simp add: sq_find.simps)

lemma sq_find_some:
  "sq_list w p (ys @ t # zs) \<Longrightarrow> t \<notin> set ys \<Longrightarrow>
     sq_find w t prev p = Some (Some (last (prev # ys), head_of zs))"
proof (induction ys arbitrary: prev p)
  case Nil
  then show ?case by (cases "w t") (auto simp: sq_find.simps dest: sq_list_head)
next
  case (Cons y ys)
  then show ?case by (cases "w y") (auto simp: sq_find.simps [of w t prev y])
qed

lemma sq_relink:
  assumes "sq_list w p (us @ v # t # zs)" and "distinct (us @ v # t # zs)" and "w v = Some n"
  shows "sq_list (w(v \<mapsto> n\<lparr>wnext := head_of zs\<rparr>)) p (us @ v # zs)"
  using assms
proof (induction us arbitrary: p)
  case Nil
  then have "sq_list w (head_of zs) zs" by (auto split: option.split_asm dest: sq_list_start)
  moreover have "\<forall>x \<in> set zs. (w(v \<mapsto> n\<lparr>wnext := head_of zs\<rparr>)) x = w x" using Nil by auto
  ultimately have "sq_list (w(v \<mapsto> n\<lparr>wnext := head_of zs\<rparr>)) (head_of zs) zs"
    using sq_list_cong by blast
  then show ?case using Nil by (simp del: fun_upd_apply add: fun_upd_same)
next
  case (Cons u us)
  then show ?case by (auto split: option.splits)
qed

text \<open>The content of a node without its link.\<close>

definition payload :: "(ptr \<Rightarrow> wait_node option) \<Rightarrow> ptr \<Rightarrow> wait_node option" where
  "payload w x = map_option (wnext_update (\<lambda>_. NULL)) (w x)"

lemma payload_upd [simp]:
  "w v = Some n \<Longrightarrow> payload (w(v \<mapsto> n\<lparr>wnext := y\<rparr>)) = payload w"
  by (auto simp: payload_def fun_eq_iff)

lemma payload_Some:
  assumes "payload w = payload w'" and "w x = Some n"
  obtains n' where "w' x = Some n'" "wn_process n' = wn_process n" "seconds n' = seconds n"
    "microseconds n' = microseconds n"
proof goal_cases
  case 1
  have "map_option (wnext_update (\<lambda>_. NULL)) (w' x) = Some (n\<lparr>wnext := NULL\<rparr>)"
    using fun_cong [OF assms(1), of x] assms(2) by (simp add: payload_def)
  then obtain n' where n': "w' x = Some n'" "n'\<lparr>wnext := NULL\<rparr> = n\<lparr>wnext := NULL\<rparr>" by auto
  then have "wn_process (n'\<lparr>wnext := NULL\<rparr>) = wn_process (n\<lparr>wnext := NULL\<rparr>)"
    "seconds (n'\<lparr>wnext := NULL\<rparr>) = seconds (n\<lparr>wnext := NULL\<rparr>)"
    "microseconds (n'\<lparr>wnext := NULL\<rparr>) = microseconds (n\<lparr>wnext := NULL\<rparr>)" by simp_all
  with n' show ?thesis by (intro 1 [of n']) simp_all
qed

lemma remove_from_sleep_queue_list:
  assumes "sq_list (wnodes k) (sleep_queue k) xs" and "distinct xs"
  obtains sq w where "remove_from_sleep_queue k t = Some (k\<lparr>sleep_queue := sq, wnodes := w\<rparr>)"
    "sq_list w sq (remove1 t xs)" "payload w = payload (wnodes k)"
proof (cases "t \<in> set xs")
  case False
  have "remove_from_sleep_queue k t = Some (k\<lparr>sleep_queue := sleep_queue k, wnodes := wnodes k\<rparr>)"
    using sq_find_none [OF assms(1) False] by (simp add: remove_from_sleep_queue_def sq_unlink_def)
  then show ?thesis by (rule that) (use False assms in \<open>simp_all add: remove1_idem\<close>)
next
  case True
  then obtain ys zs where xs: "xs = ys @ t # zs" "t \<notin> set ys" by (meson split_list_first)
  have t: "t \<noteq> NULL" using sq_list_nonnull [OF assms(1) True] by simp
  have find: "sq_find (wnodes k) t (sleep_queue k) (sleep_queue k) = Some (Some (last (sleep_queue k # ys), head_of zs))"
    using sq_find_some assms(1) xs by blast
  have rm: "remove1 t xs = ys @ zs" using xs by (simp add: remove1_append)
  show ?thesis
  proof (cases ys rule: rev_cases)
    case Nil
    then have hd: "sleep_queue k = t" "sq_list (wnodes k) (head_of zs) zs"
      using assms(1) xs by (auto split: option.split_asm dest: sq_list_start)
    have "remove_from_sleep_queue k t = Some (k\<lparr>sleep_queue := head_of zs, wnodes := wnodes k\<rparr>)"
      using t find hd by (simp add: remove_from_sleep_queue_def sq_unlink_def)
    then show ?thesis by (rule that) (use hd rm Nil in simp_all)
  next
    case (snoc us v)
    have "v \<in> set xs" using xs snoc by simp
    then obtain n where n: "wnodes k v = Some n" using sq_list_nonnull [OF assms(1)] by blast
    have ne: "sleep_queue k \<noteq> t" using sq_list_head [OF assms(1)] xs snoc by (cases us) auto
    let ?w = "(wnodes k)(v \<mapsto> n\<lparr>wnext := head_of zs\<rparr>)"
    have "remove_from_sleep_queue k t = Some (k\<lparr>sleep_queue := sleep_queue k, wnodes := ?w\<rparr>)"
      using t find ne n snoc by (simp add: remove_from_sleep_queue_def sq_unlink_def)
    moreover have "sq_list ?w (sleep_queue k) (remove1 t xs)"
      using sq_relink [of "wnodes k" "sleep_queue k" us v t zs n] assms xs snoc n rm by simp
    ultimately show ?thesis by (rule that) (use n in simp)
  qed
qed

lemma timers_okD:
  assumes "timers_ok k xs"
  shows timers_ok_list: "sq_list (wnodes k) (sleep_queue k) xs" and timers_ok_distinct: "distinct xs"
    and timers_ok_held: "holds_node (procs k p) x \<Longrightarrow> pstate (procs k p) \<noteq> PROCESS_STATE_FINISHED \<and>
        block_node (procs k p) \<noteq> None \<and> (\<exists>n. wnodes k x = Some n \<and> wn_process n = p)"
    and timers_ok_two: "wait_node (procs k p) = timeout_node (procs k p) \<Longrightarrow> wait_node (procs k p) = NULL"
    and timers_ok_queued: "x \<in> set xs \<Longrightarrow> \<exists>n. wnodes k x = Some n \<and> holds_node (procs k (wn_process n)) x"
  using assms unfolding timers_ok_def by blast+

lemma timers_ok_drop:
  assumes ok: "timers_ok k xs" and held: "holds_node (procs k p) t"
    and w: "sq_list w sq (remove1 t xs)" "payload w = payload (wnodes k)"
    and P: "\<And>x. holds_node P x \<longleftrightarrow> holds_node (procs k p) x \<and> x \<noteq> t" "pstate P = pstate (procs k p)"
      "block_node P = block_node (procs k p)" "wait_node P = timeout_node P \<longrightarrow> wait_node P = NULL"
  shows "timers_ok (k\<lparr>procs := (procs k)(p := P), sleep_queue := sq, wnodes := w(t := None)\<rparr>) (remove1 t xs)"
proof -
  have node: "\<exists>n'. w x = Some n' \<and> wn_process n' = wn_process n" if "wnodes k x = Some n" for x n
    using payload_Some [OF w(2) [symmetric] that] by metis
  have t: "t \<notin> set (remove1 t xs)" using timers_ok_distinct [OF ok] by simp
  have A: "sq_list (w(t := None)) sq (remove1 t xs)" using w(1) t sq_list_cong by (metis fun_upd_other)
  have own: "holds_node (procs k p') t \<Longrightarrow> p' = p" for p'
    using timers_ok_held [OF ok held] timers_ok_held [OF ok, of p' t] by auto
  have B: "pstate (((procs k)(p := P)) p') \<noteq> PROCESS_STATE_FINISHED \<and> block_node (((procs k)(p := P)) p') \<noteq> None \<and>
      (\<exists>n. (w(t := None)) x = Some n \<and> wn_process n = p')" if "holds_node (((procs k)(p := P)) p') x" for p' x
  proof -
    have h: "holds_node (procs k p') x" "x \<noteq> t" using that P(1) own by (auto split: if_split_asm)
    then show ?thesis using timers_ok_held [OF ok h(1)] node P by (metis fun_upd_apply)
  qed
  have C: "wait_node (((procs k)(p := P)) p') = timeout_node (((procs k)(p := P)) p') \<Longrightarrow>
      wait_node (((procs k)(p := P)) p') = NULL" for p'
    using P(4) timers_ok_two [OF ok] by (cases "p' = p") auto
  have D: "\<exists>n. (w(t := None)) x = Some n \<and> holds_node (((procs k)(p := P)) (wn_process n)) x"
    if x: "x \<in> set (remove1 t xs)" for x
  proof -
    obtain n where n: "wnodes k x = Some n" "holds_node (procs k (wn_process n)) x"
      using timers_ok_queued [OF ok] x by (meson notin_set_remove1)
    then show ?thesis using node [OF n(1)] x t P(1) by (metis fun_upd_apply)
  qed
  show ?thesis using A B C D timers_ok_distinct [OF ok] unfolding timers_ok_def by simp
qed

lemma drop_wait_node_ok:
  assumes "timers_ok k xs"
  obtains sq w where "drop_wait_node k p = Some (k\<lparr>procs := (procs k)(p := (procs k p)\<lparr>wait_node := NULL\<rparr>),
      sleep_queue := sq, wnodes := w\<rparr>)"
    "timers_ok (k\<lparr>procs := (procs k)(p := (procs k p)\<lparr>wait_node := NULL\<rparr>), sleep_queue := sq, wnodes := w\<rparr>)
       (remove1 (wait_node (procs k p)) xs)"
proof (cases "wait_node (procs k p) = NULL")
  case True
  then have e: "(procs k)(p := (procs k p)\<lparr>wait_node := NULL\<rparr>) = procs k" by (auto simp: fun_eq_iff)
  have "NULL \<notin> set xs" using sq_list_nonnull [OF timers_ok_list [OF assms]] by blast
  then show ?thesis
    using that [where sq = "sleep_queue k" and w = "wnodes k"] assms True unfolding e by (simp add: drop_wait_node_def remove1_idem)
next
  case False
  then have held: "holds_node (procs k p) (wait_node (procs k p))" by (simp add: holds_node_def)
  obtain sq w where r: "remove_from_sleep_queue k (wait_node (procs k p)) = Some (k\<lparr>sleep_queue := sq, wnodes := w\<rparr>)"
    "sq_list w sq (remove1 (wait_node (procs k p)) xs)" "payload w = payload (wnodes k)"
    using remove_from_sleep_queue_list [OF timers_okD(1,2) [OF assms]] by blast
  show ?thesis
  proof (rule that)
    show "drop_wait_node k p = Some (k\<lparr>procs := (procs k)(p := (procs k p)\<lparr>wait_node := NULL\<rparr>),
      sleep_queue := sq, wnodes := w(wait_node (procs k p) := None)\<rparr>)"
      using False r(1) by (simp add: drop_wait_node_def Let_def free_node_def upd_proc_def)
    show "timers_ok (k\<lparr>procs := (procs k)(p := (procs k p)\<lparr>wait_node := NULL\<rparr>), sleep_queue := sq,
        wnodes := w(wait_node (procs k p) := None)\<rparr>) (remove1 (wait_node (procs k p)) xs)"
      by (rule timers_ok_drop [OF assms held r(2,3)])
        (use timers_ok_two [OF assms, of p] False in \<open>auto simp: holds_node_def\<close>)
  qed
qed

lemma drop_timeout_node_ok:
  assumes "timers_ok k xs"
  obtains sq w where "drop_timeout_node k p = Some (k\<lparr>procs := (procs k)(p := (procs k p)\<lparr>timeout_node := NULL\<rparr>),
      sleep_queue := sq, wnodes := w\<rparr>)"
    "timers_ok (k\<lparr>procs := (procs k)(p := (procs k p)\<lparr>timeout_node := NULL\<rparr>), sleep_queue := sq, wnodes := w\<rparr>)
       (remove1 (timeout_node (procs k p)) xs)"
proof (cases "timeout_node (procs k p) = NULL")
  case True
  then have e: "(procs k)(p := (procs k p)\<lparr>timeout_node := NULL\<rparr>) = procs k" by (auto simp: fun_eq_iff)
  have "NULL \<notin> set xs" using sq_list_nonnull [OF timers_ok_list [OF assms]] by blast
  then show ?thesis
    using that [where sq = "sleep_queue k" and w = "wnodes k"] assms True unfolding e by (simp add: drop_timeout_node_def remove1_idem)
next
  case False
  then have held: "holds_node (procs k p) (timeout_node (procs k p))" by (simp add: holds_node_def)
  obtain sq w where r: "remove_from_sleep_queue k (timeout_node (procs k p)) = Some (k\<lparr>sleep_queue := sq, wnodes := w\<rparr>)"
    "sq_list w sq (remove1 (timeout_node (procs k p)) xs)" "payload w = payload (wnodes k)"
    using remove_from_sleep_queue_list [OF timers_okD(1,2) [OF assms]] by blast
  show ?thesis
  proof (rule that)
    show "drop_timeout_node k p = Some (k\<lparr>procs := (procs k)(p := (procs k p)\<lparr>timeout_node := NULL\<rparr>),
      sleep_queue := sq, wnodes := w(timeout_node (procs k p) := None)\<rparr>)"
      using False r(1) by (simp add: drop_timeout_node_def Let_def free_node_def upd_proc_def)
    show "timers_ok (k\<lparr>procs := (procs k)(p := (procs k p)\<lparr>timeout_node := NULL\<rparr>), sleep_queue := sq,
        wnodes := w(timeout_node (procs k p) := None)\<rparr>) (remove1 (timeout_node (procs k p)) xs)"
      by (rule timers_ok_drop [OF assms held r(2,3)])
        (use timers_ok_two [OF assms, of p] False in \<open>auto simp: holds_node_def\<close>)
  qed
qed

lemma links_ok_cong:
  "queues k' = queues k \<Longrightarrow> (\<And>p. block_node (procs k' p) = block_node (procs k p)) \<Longrightarrow> links_ok k' = links_ok k"
  by (simp add: links_ok_def)

lemma links_ok_released:
  "links_ok k \<Longrightarrow> block_node P = Some [] \<Longrightarrow>
     links_ok (k\<lparr>procs := (procs k)(p := P), queues := (\<lambda>q. removeAll p (queues k q))\<rparr>)"
  by (auto simp: links_ok_def count_list_removeAll)

lemma timers_ok_cong:
  "sleep_queue k' = sleep_queue k \<Longrightarrow> wnodes k' = wnodes k \<Longrightarrow> procs k' = procs k \<Longrightarrow> timers_ok k' xs = timers_ok k xs"
  by (simp add: timers_ok_def)

lemma timers_ok_proc:
  assumes "timers_ok k xs" "wait_node P = wait_node (procs k p)" "timeout_node P = timeout_node (procs k p)"
    "\<And>x. holds_node P x \<Longrightarrow> pstate P \<noteq> PROCESS_STATE_FINISHED \<and> block_node P \<noteq> None"
  shows "timers_ok (k\<lparr>procs := (procs k)(p := P)\<rparr>) xs"
proof -
  have "holds_node P = holds_node (procs k p)" using assms(2,3) by (simp add: holds_node_def fun_eq_iff)
  then show ?thesis using assms unfolding timers_ok_def by (auto split: if_splits)
qed

section \<open>Making a process ready\<close>

definition locked :: "process \<Rightarrow> bool" where
  "locked P \<longleftrightarrow> block_node P \<noteq> Some [] \<or> timeout_node P \<noteq> NULL \<or> wait_node P \<noteq> NULL"

definition ready_proc :: "process \<Rightarrow> process" where
  "ready_proc P = P\<lparr>flags := (if locked P then flags P OR PROCESS_FLAG_INTERRUPTED else flags P),
     pstate := PROCESS_STATE_RUNNING, block_node := Some [], wait_node := NULL, timeout_node := NULL\<rparr>"

lemma ready_proc_pstate [simp]: "ready_proc (P\<lparr>pstate := s\<rparr>) = ready_proc P"
  by (simp add: ready_proc_def locked_def)

lemma invalidate_locks_ok:
  assumes "links_ok k" and "timers_ok k xs" and "block_node (procs k p) = Some os"
  obtains sq w ys where "k_proc_process_invalidate_locks k p = Some (k\<lparr>
      procs := (procs k)(p := (procs k p)\<lparr>block_node := Some [], wait_node := NULL, timeout_node := NULL\<rparr>),
      queues := (\<lambda>q. removeAll p (queues k q)), sleep_queue := sq, wnodes := w\<rparr>)"
    "timers_ok (k\<lparr>procs := (procs k)(p := (procs k p)\<lparr>block_node := Some [], wait_node := NULL, timeout_node := NULL\<rparr>),
      queues := (\<lambda>q. removeAll p (queues k q)), sleep_queue := sq, wnodes := w\<rparr>) ys"
    "ys = remove1 (timeout_node (procs k p)) (remove1 (wait_node (procs k p)) xs)"
proof -
  let ?k1 = "k\<lparr>procs := (procs k)(p := (procs k p)\<lparr>block_node := Some []\<rparr>), queues := (\<lambda>q. removeAll p (queues k q))\<rparr>"
  have r: "k_proc_process_release_block k p = Some ?k1" by (rule links_ok_release [OF assms(1,3)])
  have "timers_ok (k\<lparr>procs := (procs k)(p := (procs k p)\<lparr>block_node := Some []\<rparr>)\<rparr>) xs"
    by (rule timers_ok_proc [OF assms(2)]) (use timers_ok_held [OF assms(2), of p] in \<open>auto simp: holds_node_def\<close>)
  then have t1: "timers_ok ?k1 xs" by (subst timers_ok_cong [rotated 3]) auto
  let ?k2 = "\<lambda>sq w. ?k1\<lparr>procs := (procs ?k1)(p := (procs ?k1 p)\<lparr>wait_node := NULL\<rparr>), sleep_queue := sq, wnodes := w\<rparr>"
  obtain sq w where d1: "drop_wait_node ?k1 p = Some (?k2 sq w)"
    and t2: "timers_ok (?k2 sq w) (remove1 (wait_node (procs ?k1 p)) xs)" by (rule drop_wait_node_ok [OF t1])
  let ?k2 = "?k2 sq w"
  let ?k3 = "\<lambda>sq' w'. ?k2\<lparr>procs := (procs ?k2)(p := (procs ?k2 p)\<lparr>timeout_node := NULL\<rparr>), sleep_queue := sq', wnodes := w'\<rparr>"
  obtain sq' w' where d2: "drop_timeout_node ?k2 p = Some (?k3 sq' w')"
    and t3: "timers_ok (?k3 sq' w') (remove1 (timeout_node (procs ?k2 p)) (remove1 (wait_node (procs ?k1 p)) xs))"
    by (rule drop_timeout_node_ok [OF t2])
  let ?k3 = "?k3 sq' w'"
  have e: "?k3 = k\<lparr>procs := (procs k)(p := (procs k p)\<lparr>block_node := Some [], wait_node := NULL, timeout_node := NULL\<rparr>),
      queues := (\<lambda>q. removeAll p (queues k q)), sleep_queue := sq', wnodes := w'\<rparr>" by simp
  have "k_proc_process_invalidate_locks k p = Some ?k3"
    using r d1 d2 by (simp only: k_proc_process_invalidate_locks_def Option.bind.simps)
  then show ?thesis using t3 unfolding e by (intro that [where sq = sq' and w = w']) simp_all
qed

lemma mark_ready_ok:
  assumes "links_ok k" and "timers_ok k xs" and "block_node (procs k p) = Some os"
  obtains sq w where "k_proc_process_mark_ready k p = Some (k\<lparr>procs := (procs k)(p := ready_proc (procs k p)),
      queues := (\<lambda>q. removeAll p (queues k q)), sleep_queue := sq, wnodes := w,
      ready_queue := ready_queue k @ [p]\<rparr>)"
    "links_ok (k\<lparr>procs := (procs k)(p := ready_proc (procs k p)),
      queues := (\<lambda>q. removeAll p (queues k q)), sleep_queue := sq, wnodes := w, ready_queue := ready_queue k @ [p]\<rparr>)"
    "timers_ok (k\<lparr>procs := (procs k)(p := ready_proc (procs k p)),
      queues := (\<lambda>q. removeAll p (queues k q)), sleep_queue := sq, wnodes := w, ready_queue := ready_queue k @ [p]\<rparr>)
      (remove1 (timeout_node (procs k p)) (remove1 (wait_node (procs k p)) xs))"
proof -
  let ?P = "(procs k p)\<lparr>flags := (if locked (procs k p) then flags (procs k p) OR PROCESS_FLAG_INTERRUPTED else flags (procs k p)),
     pstate := PROCESS_STATE_RUNNING\<rparr>"
  let ?k = "k\<lparr>procs := (procs k)(p := ?P)\<rparr>"
  have l: "links_ok ?k" using assms(1) by (subst links_ok_cong) auto
  have t: "timers_ok ?k xs" by (rule timers_ok_proc [OF assms(2)]) (use assms(3) in auto)
  have b: "block_node (procs ?k p) = Some os" using assms(3) by simp
  let ?k1 = "\<lambda>sq w. ?k\<lparr>
      procs := (procs ?k)(p := (procs ?k p)\<lparr>block_node := Some [], wait_node := NULL, timeout_node := NULL\<rparr>),
      queues := (\<lambda>q. removeAll p (queues ?k q)), sleep_queue := sq, wnodes := w\<rparr>"
  obtain sq w ys where i: "k_proc_process_invalidate_locks ?k p = Some (?k1 sq w)" "timers_ok (?k1 sq w) ys"
    "ys = remove1 (timeout_node (procs ?k p)) (remove1 (wait_node (procs ?k p)) xs)"
    by (rule invalidate_locks_ok [OF l t b])
  let ?k1 = "?k1 sq w"
  let ?k2 = "k\<lparr>procs := (procs k)(p := ready_proc (procs k p)),
      queues := (\<lambda>q. removeAll p (queues k q)), sleep_queue := sq, wnodes := w, ready_queue := ready_queue k @ [p]\<rparr>"
  have e: "?k1\<lparr>ready_queue := ready_queue ?k1 @ [p]\<rparr> = ?k2" by (simp add: ready_proc_def)
  have h: "k_proc_process_has_locks k p = Some (locked (procs k p))"
    using assms(3) by (simp add: k_proc_process_has_locks_def locked_def)
  have "upd_proc (if locked (procs k p) then upd_proc k p (\<lambda>x. x\<lparr>flags := flags x OR PROCESS_FLAG_INTERRUPTED\<rparr>) else k) p
      (pstate_update (\<lambda>_. PROCESS_STATE_RUNNING)) = ?k" by (simp add: upd_proc_def)
  then have "k_proc_process_mark_ready k p = Some (?k1\<lparr>ready_queue := ready_queue ?k1 @ [p]\<rparr>)"
    unfolding k_proc_process_mark_ready_def h Let_def using i(1) by (simp only: Option.bind.simps)
  then have m: "k_proc_process_mark_ready k p = Some ?k2" unfolding e .
  have "links_ok (k\<lparr>procs := (procs k)(p := ready_proc (procs k p)), queues := (\<lambda>q. removeAll p (queues k q))\<rparr>)"
    by (rule links_ok_released [OF assms(1)]) (simp add: ready_proc_def)
  then have l2: "links_ok ?k2" by (subst links_ok_cong [rotated 2]) auto
  have t2: "timers_ok ?k2 ys" using i(2) by (subst timers_ok_cong [rotated 3]) (auto simp: ready_proc_def)
  show ?thesis by (rule that [OF m l2]) (use t2 i(3) in simp)
qed

section \<open>Waking a queue\<close>

definition eligible :: "process \<Rightarrow> bool" where
  "eligible P \<longleftrightarrow> pstate P \<noteq> PROCESS_STATE_FINISHED \<and> \<not> PROCESS_IS_SCHEDULABLE P"

text \<open>One turn of the loop of \<open>k_proc_process_wakeup_queue_single\<close>; \<open>k_proc_process_wakeup_queue\<close> repeats it.\<close>

definition wake_step :: "kernel \<Rightarrow> ptr \<Rightarrow> kernel option" where
  "wake_step k q =
     (case pop_waiter k q of None \<Rightarrow> None
      | Some (p, k1) \<Rightarrow>
          if eligible (procs k1 p)
          then k_proc_process_mark_ready (upd_proc k1 p (pstate_update (\<lambda>_. PROCESS_STATE_RUNNING))) p
          else Some k1)"

lemma wakeup_queue_step:
  assumes "queues k q \<noteq> []"
  shows "k_proc_process_wakeup_queue k q =
     (case wake_step k q of None \<Rightarrow> None | Some k1 \<Rightarrow> k_proc_process_wakeup_queue k1 q)"
proof (cases "pop_waiter k q")
  case None
  then show ?thesis
    using assms by (simp add: k_proc_process_wakeup_queue.simps [of k q]
        k_proc_process_wakeup_queue_single.simps [of k q] wake_step_def)
next
  case (Some r)
  obtain p k1 where r: "r = (p, k1)" by (cases r)
  show ?thesis
  proof (cases "eligible (procs k1 p)")
    case True
    then show ?thesis
      using assms Some r by (simp add: k_proc_process_wakeup_queue.simps [of k q] eligible_def
          k_proc_process_is_ready_def k_proc_process_wakeup_queue_single.simps [of k q] wake_step_def)
  next
    case False
    then have s: "k_proc_process_wakeup_queue_single k q = k_proc_process_wakeup_queue_single k1 q"
      using assms Some r by (auto simp: eligible_def k_proc_process_is_ready_def
          k_proc_process_wakeup_queue_single.simps [of k q])
    have "k_proc_process_wakeup_queue k q = k_proc_process_wakeup_queue k1 q"
    proof (cases "queues k1 q = []")
      case True
      then show ?thesis
        using assms s by (simp add: k_proc_process_wakeup_queue.simps [of k q]
            k_proc_process_wakeup_queue_single.simps [of k1 q])
    next
      case ne: False
      then show ?thesis
        using assms s by (simp add: k_proc_process_wakeup_queue.simps [of k q] k_proc_process_wakeup_queue.simps [of k1 q])
    qed
    then show ?thesis using Some r False by (simp add: wake_step_def)
  qed
qed

text \<open>What no wake-up touches.\<close>

definition same_rest :: "kernel \<Rightarrow> kernel \<Rightarrow> bool" where
  "same_rest k k' \<longleftrightarrow> process_list k' = process_list k \<and> process_root k' = process_root k \<and>
     current_process k' = current_process k \<and> idle_process k' = idle_process k \<and> next_pid k' = next_pid k \<and>
     fdts k' = fdts k \<and> fs_nodes k' = fs_nodes k \<and> closes k' = closes k"

lemma same_rest_refl [simp]: "same_rest k k"
  by (simp add: same_rest_def)

lemma same_rest_trans [trans]: "same_rest a b \<Longrightarrow> same_rest b c \<Longrightarrow> same_rest a c"
  by (simp add: same_rest_def)

definition off_queue :: "ptr \<Rightarrow> process \<Rightarrow> process" where
  "off_queue q P = P\<lparr>block_node := map_option (remove1 q) (block_node P)\<rparr>"

lemma pop_waiter_ok:
  assumes "links_ok k" and "timers_ok k xs" and "queues k q = us @ [p]"
  obtains k1 where "pop_waiter k q = Some (p, k1)" "links_ok k1" "timers_ok k1 xs"
    "k1 = k\<lparr>procs := (procs k)(p := off_queue q (procs k p)), queues := (queues k)(q := us)\<rparr>"
    "block_node (procs k1 p) \<noteq> None"
proof -
  have "count_list (queues k q) p = (case block_node (procs k p) of None \<Rightarrow> 0 | Some os \<Rightarrow> count_list os q)"
    using assms(1) unfolding links_ok_def by blast
  then obtain os where os: "block_node (procs k p) = Some os" "count_list os q > 0"
    using assms(3) by (cases "block_node (procs k p)") auto
  let ?k = "k\<lparr>procs := (procs k)(p := off_queue q (procs k p)), queues := (queues k)(q := us)\<rparr>"
  have "pop_waiter k q = Some (p, ?k)"
    using assms(3) os by (simp add: pop_waiter_def upd_proc_def set_queue_def off_queue_def)
  moreover have "links_ok ?k"
    unfolding links_ok_def
  proof (intro allI)
    fix p' q'
    have "count_list (queues k q') p' = (case block_node (procs k p') of None \<Rightarrow> 0 | Some os \<Rightarrow> count_list os q')"
      using assms(1) by (simp add: links_ok_def)
    then show "count_list (queues ?k q') p' =
        (case block_node (procs ?k p') of None \<Rightarrow> 0 | Some os \<Rightarrow> count_list os q')"
      using os assms(3) by (auto simp: count_list_remove1 off_queue_def split: if_split_asm)
  qed
  moreover have "timers_ok (k\<lparr>procs := (procs k)(p := off_queue q (procs k p))\<rparr>) xs"
    by (rule timers_ok_proc [OF assms(2)])
      (use timers_ok_held [OF assms(2), of p] os in \<open>auto simp: off_queue_def holds_node_def\<close>)
  then have "timers_ok ?k xs" by (subst timers_ok_cong [rotated 3]) auto
  ultimately show ?thesis by (rule that [where ?k1.0 = ?k]) (use os in \<open>auto simp: off_queue_def\<close>)
qed

lemma wake_step_ok:
  assumes "links_ok k" and "timers_ok k xs" and "queues k q = us @ [p]"
  obtains k' ys where "wake_step k q = Some k'" "links_ok k'" "timers_ok k' ys" "same_rest k k'"
    "eligible (procs k p) \<longrightarrow> procs k' = (procs k)(p := ready_proc (off_queue q (procs k p))) \<and>
       queues k' = (\<lambda>q. removeAll p (queues k q)) \<and> ready_queue k' = ready_queue k @ [p]"
    "\<not> eligible (procs k p) \<longrightarrow> procs k' = (procs k)(p := off_queue q (procs k p)) \<and>
       queues k' = (queues k)(q := us) \<and> ready_queue k' = ready_queue k"
proof -
  obtain k1 where k1: "pop_waiter k q = Some (p, k1)" "links_ok k1" "timers_ok k1 xs"
    "k1 = k\<lparr>procs := (procs k)(p := off_queue q (procs k p)), queues := (queues k)(q := us)\<rparr>"
    "block_node (procs k1 p) \<noteq> None" by (rule pop_waiter_ok [OF assms])
  have el: "eligible (procs k1 p) = eligible (procs k p)"
    unfolding k1(4) by (simp add: eligible_def off_queue_def PROCESS_IS_SCHEDULABLE_def)
  show ?thesis
  proof (cases "eligible (procs k p)")
    case False
    then show ?thesis
      using k1 el by (intro that [of k1 xs]) (simp_all add: wake_step_def same_rest_def)
  next
    case True
    let ?k2 = "upd_proc k1 p (pstate_update (\<lambda>_. PROCESS_STATE_RUNNING))"
    have l: "links_ok ?k2" using k1(2) by (subst links_ok_cong) auto
    have "timers_ok (k1\<lparr>procs := (procs k1)(p := (procs k1 p)\<lparr>pstate := PROCESS_STATE_RUNNING\<rparr>)\<rparr>) xs"
      by (rule timers_ok_proc [OF k1(3)]) (use k1(5) in auto)
    then have t: "timers_ok ?k2 xs" by (simp add: upd_proc_def)
    obtain os where b: "block_node (procs ?k2 p) = Some os" using k1(5) by auto
    let ?k3 = "\<lambda>sq w. ?k2\<lparr>procs := (procs ?k2)(p := ready_proc (procs ?k2 p)),
      queues := (\<lambda>q. removeAll p (queues ?k2 q)), sleep_queue := sq, wnodes := w, ready_queue := ready_queue ?k2 @ [p]\<rparr>"
    obtain sq w where m: "k_proc_process_mark_ready ?k2 p = Some (?k3 sq w)" "links_ok (?k3 sq w)"
      "timers_ok (?k3 sq w) (remove1 (timeout_node (procs ?k2 p)) (remove1 (wait_node (procs ?k2 p)) xs))"
      by (rule mark_ready_ok [OF l t b])
    have q: "(\<lambda>q'. removeAll p (queues ?k2 q')) = (\<lambda>q. removeAll p (queues k q))"
      using assms(3) unfolding k1(4) by (auto simp: fun_eq_iff)
    have pr: "(procs ?k2)(p := ready_proc (procs ?k2 p)) = (procs k)(p := ready_proc (off_queue q (procs k p)))"
      unfolding k1(4) by simp
    have "wake_step k q = Some (?k3 sq w)" using k1(1) el True m(1) by (simp add: wake_step_def)
    then show ?thesis
      by (rule that [OF _ m(2,3)]) (use True q pr k1(4) in \<open>simp_all add: same_rest_def\<close>)
  qed
qed

text \<open>The processes a wake-up makes ready, in the order it does: the last to sleep first.\<close>

definition woken :: "kernel \<Rightarrow> ptr \<Rightarrow> ptr list" where
  "woken k q = rev (remdups (filter (\<lambda>p. eligible (procs k p)) (queues k q)))"

definition off_queue_all :: "ptr \<Rightarrow> process \<Rightarrow> process" where
  "off_queue_all q P = P\<lparr>block_node := map_option (removeAll q) (block_node P)\<rparr>"

lemma links_ok_off_all: "links_ok k \<Longrightarrow> p \<notin> set (queues k q) \<Longrightarrow> off_queue_all q (procs k p) = procs k p"
proof -
  assume a: "links_ok k" "p \<notin> set (queues k q)"
  have "count_list (queues k q) p = (case block_node (procs k p) of None \<Rightarrow> 0 | Some os \<Rightarrow> count_list os q)"
    using a(1) unfolding links_ok_def by blast
  then show ?thesis
    using a(2) by (cases "block_node (procs k p)") (auto simp: off_queue_all_def count_list_0_iff)
qed

lemma eligible_off_queue [simp]: "eligible (off_queue q P) = eligible P" "eligible (off_queue_all q P) = eligible P"
  by (simp_all add: off_queue_def off_queue_all_def eligible_def PROCESS_IS_SCHEDULABLE_def)

lemma off_queue_all_simps [simp]:
  "off_queue_all q (ready_proc P) = ready_proc P" "off_queue_all q (off_queue q P) = off_queue_all q P"
  by (simp_all add: off_queue_def off_queue_all_def ready_proc_def option.map_comp comp_def)

lemma woken_step:
  assumes "queues k q = us @ [p]"
  shows "eligible (procs k p) \<Longrightarrow> queues k1 q = removeAll p us \<Longrightarrow> (\<And>p'. p' \<noteq> p \<Longrightarrow> procs k1 p' = procs k p') \<Longrightarrow>
      woken k q = p # woken k1 q"
    and "\<not> eligible (procs k p) \<Longrightarrow> queues k1 q = us \<Longrightarrow> (\<And>p'. eligible (procs k1 p') = eligible (procs k p')) \<Longrightarrow>
      woken k q = woken k1 q"
proof -
  assume a: "eligible (procs k p)" "queues k1 q = removeAll p us" "\<And>p'. p' \<noteq> p \<Longrightarrow> procs k1 p' = procs k p'"
  have "filter (\<lambda>p. eligible (procs k1 p)) (removeAll p us) = filter (\<lambda>p. eligible (procs k p)) (removeAll p us)"
    by (rule filter_cong) (use a(3) in auto)
  then show "woken k q = p # woken k1 q"
    using assms a(1,2) by (simp add: woken_def remdups_snoc filter_removeAll)
next
  assume "\<not> eligible (procs k p)" "queues k1 q = us" "\<And>p'. eligible (procs k1 p') = eligible (procs k p')"
  then show "woken k q = woken k1 q" using assms by (simp add: woken_def)
qed

lemma wakeup_queue_ok:
  assumes "links_ok k" and "timers_ok k xs"
  shows "\<exists>k' ys. k_proc_process_wakeup_queue k q = Some k' \<and> links_ok k' \<and> timers_ok k' ys \<and> same_rest k k' \<and>
    ready_queue k' = ready_queue k @ woken k q \<and>
    queues k' = (\<lambda>q'. if q' = q then [] else filter (\<lambda>p. p \<notin> set (woken k q)) (queues k q')) \<and>
    procs k' = (\<lambda>p. if p \<in> set (woken k q) then ready_proc (off_queue q (procs k p)) else off_queue_all q (procs k p))"
  using assms
proof (induction "length (queues k q)" arbitrary: k xs rule: less_induct)
  case less
  show ?case
  proof (cases "queues k q" rule: rev_cases)
    case Nil
    have "procs k = (\<lambda>p. off_queue_all q (procs k p))"
      using links_ok_off_all [OF less(2)] Nil by auto
    moreover have "queues k = (\<lambda>q'. if q' = q then [] else queues k q')" using Nil by auto
    ultimately show ?thesis
      using Nil less(2,3) by (auto simp: k_proc_process_wakeup_queue.simps [of k q] woken_def)
  next
    case (snoc us p)
    obtain k1 ys where s: "wake_step k q = Some k1" "links_ok k1" "timers_ok k1 ys" "same_rest k k1"
      and e: "eligible (procs k p) \<longrightarrow> procs k1 = (procs k)(p := ready_proc (off_queue q (procs k p))) \<and>
          queues k1 = (\<lambda>q. removeAll p (queues k q)) \<and> ready_queue k1 = ready_queue k @ [p]"
      and ne: "\<not> eligible (procs k p) \<longrightarrow> procs k1 = (procs k)(p := off_queue q (procs k p)) \<and>
          queues k1 = (queues k)(q := us) \<and> ready_queue k1 = ready_queue k"
      by (rule wake_step_ok [OF less(2,3) snoc])
    have un: "k_proc_process_wakeup_queue k q = k_proc_process_wakeup_queue k1 q"
      using wakeup_queue_step [of k q] snoc s(1) by simp
    have "length (queues k1 q) < length (queues k q)"
      using e ne snoc by (cases "eligible (procs k p)") (auto simp: le_imp_less_Suc)
    from less(1) [OF this s(2,3)] obtain k' zs where k': "k_proc_process_wakeup_queue k1 q = Some k'"
      "links_ok k'" "timers_ok k' zs" "same_rest k1 k'" "ready_queue k' = ready_queue k1 @ woken k1 q"
      "queues k' = (\<lambda>q'. if q' = q then [] else filter (\<lambda>p. p \<notin> set (woken k1 q)) (queues k1 q'))"
      "procs k' = (\<lambda>p. if p \<in> set (woken k1 q) then ready_proc (off_queue q (procs k1 p)) else off_queue_all q (procs k1 p))"
      by blast
    show ?thesis
    proof (intro exI conjI)
      show "k_proc_process_wakeup_queue k q = Some k'" using un k'(1) by simp
      show "same_rest k k'" using s(4) k'(4) by (rule same_rest_trans)
      have w: "woken k q = (if eligible (procs k p) then p # woken k1 q else woken k1 q)"
        using e ne woken_step [OF snoc, of k1] snoc by auto
      have out: "eligible (procs k p) \<Longrightarrow> p \<notin> set (woken k1 q)" "p \<notin> set (woken k1 q)"
        using e ne by (cases "eligible (procs k p)"; auto simp: woken_def)+
      show "ready_queue k' = ready_queue k @ woken k q" using k'(5) e ne w by auto
      show "queues k' = (\<lambda>q'. if q' = q then [] else filter (\<lambda>p. p \<notin> set (woken k q)) (queues k q'))"
        unfolding k'(6) using e ne w
        by (cases "eligible (procs k p)") (auto simp: fun_eq_iff removeAll_filter_not_eq filter_filter intro: filter_cong)
      show "procs k' = (\<lambda>p. if p \<in> set (woken k q) then ready_proc (off_queue q (procs k p)) else off_queue_all q (procs k p))"
        unfolding k'(7) using e ne w out by (cases "eligible (procs k p)") (auto simp: fun_eq_iff)
    qed (fact k'(2,3))+
  qed
qed

section \<open>Sleeping\<close>

lemma links_ok_own:
  assumes "links_ok k" and "block_node (procs k p) = Some os" and "block_node P = Some (os @ [q])"
  shows "links_ok (k\<lparr>procs := (procs k)(p := P), queues := (queues k)(q := queues k q @ [p])\<rparr>)"
  unfolding links_ok_def
proof (intro allI)
  fix p' q'
  have "count_list (queues k q') p' = (case block_node (procs k p') of None \<Rightarrow> 0 | Some os \<Rightarrow> count_list os q')"
    using assms(1) by (simp add: links_ok_def)
  then show "count_list (queues (k\<lparr>procs := (procs k)(p := P), queues := (queues k)(q := queues k q @ [p])\<rparr>) q') p' =
      (case block_node (procs (k\<lparr>procs := (procs k)(p := P), queues := (queues k)(q := queues k q @ [p])\<rparr>) p') of
         None \<Rightarrow> 0 | Some os \<Rightarrow> count_list os q')"
    using assms(2,3) by auto
qed

definition asleep_proc :: "ptr \<Rightarrow> process \<Rightarrow> process" where
  "asleep_proc q P = P\<lparr>block_node := map_option (\<lambda>os. os @ [q]) (block_node P),
     flags := flags P AND NOT PROCESS_FLAG_INTERRUPTED, pstate := PROCESS_STATE_SLEEPING\<rparr>"

lemma sleep_prepare_ok:
  assumes "links_ok k" and "timers_ok k xs" and "block_node (procs k p) = Some os"
  obtains k1 where "sleep_prepare k p q = Some k1"
    "k1 = k\<lparr>procs := (procs k)(p := asleep_proc q (procs k p)), queues := (queues k)(q := queues k q @ [p])\<rparr>"
    "links_ok k1" "timers_ok k1 xs"
proof -
  let ?k = "k\<lparr>procs := (procs k)(p := asleep_proc q (procs k p)), queues := (queues k)(q := queues k q @ [p])\<rparr>"
  have "sleep_prepare k p q = Some ?k"
    using assms(3) by (simp add: sleep_prepare_def k_proc_process_own_block_def upd_proc_def set_queue_def asleep_proc_def)
  moreover have "links_ok ?k" by (rule links_ok_own [OF assms(1,3)]) (simp add: asleep_proc_def assms(3))
  moreover have "timers_ok (k\<lparr>procs := (procs k)(p := asleep_proc q (procs k p))\<rparr>) xs"
    by (rule timers_ok_proc [OF assms(2)]) (use assms(3) in \<open>auto simp: asleep_proc_def\<close>)
  then have "timers_ok ?k xs" by (subst timers_ok_cong [rotated 3]) auto
  ultimately show ?thesis by (rule that [OF _ refl])
qed

section \<open>Yielding\<close>

definition runnable :: "kernel \<Rightarrow> ptr \<Rightarrow> bool" where
  "runnable k p \<longleftrightarrow> p \<noteq> NULL \<and> p \<noteq> idle_process k \<and> PROCESS_IS_SCHEDULABLE (procs k p) \<and>
     kernel_stack_guard (procs k p) = GUARD_MAGIC \<and> \<not> locked (procs k p)"

lemma mark_ready_unlocked:
  assumes "\<not> locked (procs k p)"
  shows "k_proc_process_mark_ready k p =
    Some ((upd_proc k p (pstate_update (\<lambda>_. PROCESS_STATE_RUNNING)))\<lparr>ready_queue := ready_queue k @ [p]\<rparr>)"
  using assms by (simp add: k_proc_process_mark_ready_def k_proc_process_has_locks_def locked_def Let_def
      k_proc_process_invalidate_locks_def k_proc_process_release_block.simps drop_wait_node_def drop_timeout_node_def)

definition entered :: "u64 \<Rightarrow> u64 \<Rightarrow> process \<Rightarrow> process" where
  "entered t1 t2 P = (update_stats t1 (P\<lparr>pstate := PROCESS_STATE_RUNNING\<rparr>))\<lparr>last_entrance := t2, last_sys := t2\<rparr>"

lemma entered_sel [simp]:
  "pstate (entered t1 t2 P) = PROCESS_STATE_RUNNING" "kernel_stack_guard (entered t1 t2 P) = kernel_stack_guard P"
  "locked (entered t1 t2 P) = locked P" "last_entrance (entered t1 t2 P) = t2"
  by (simp_all add: entered_def update_stats_def locked_def Let_def)

lemma switch_picked:
  assumes "pick_next k = Some (p, k1)"
  shows "k_proc_process_switch t1 t2 k =
    (if kernel_stack_guard (procs k1 p) = GUARD_MAGIC
     then Some (k1\<lparr>current_process := p, procs := (procs k1)(p := entered t1 t2 (procs k1 p))\<rparr>) else None)"
proof -
  let ?k2 = "k1\<lparr>current_process := p\<rparr>"
  have *: "(if pstate (procs ?k2 p) \<noteq> PROCESS_STATE_RUNNING
      then upd_proc ?k2 p (pstate_update (\<lambda>_. PROCESS_STATE_RUNNING)) else ?k2) =
      upd_proc ?k2 p (pstate_update (\<lambda>_. PROCESS_STATE_RUNNING))"
  proof (cases "pstate (procs ?k2 p) = PROCESS_STATE_RUNNING")
    case True
    then have "upd_proc ?k2 p (pstate_update (\<lambda>_. PROCESS_STATE_RUNNING)) = ?k2"
      by (intro upd_proc_same pstate_same)
    with True show ?thesis by simp
  qed simp
  show ?thesis
    unfolding k_proc_process_switch_def assms Let_def Option.bind.simps prod.case *
    by (simp add: upd_proc_def entered_def update_stats_def Let_def)
qed

lemma pick_next_ready:
  "ready_queue k = p # ps \<Longrightarrow> p \<noteq> NULL \<Longrightarrow> PROCESS_IS_SCHEDULABLE (procs k p) \<Longrightarrow>
     pick_next k = Some (p, k\<lparr>ready_queue := ps\<rparr>)"
  by (simp add: pick_next.simps [of k] k_proc_process_next_def)

lemma yield_runnable:
  assumes "process_list k \<noteq> []" and "\<forall>p \<in> set (current_process k # ready_queue k). runnable k p"
  obtains k' where "k_proc_process_yield t1 t2 k = Some k'" "process_list k' = process_list k"
    "current_process k' # ready_queue k' = ready_queue k @ [current_process k]"
    "\<forall>p \<in> set (current_process k' # ready_queue k'). runnable k' p"
proof -
  let ?c = "current_process k"
  let ?k1 = "(upd_proc k ?c (pstate_update (\<lambda>_. PROCESS_STATE_RUNNING)))\<lparr>ready_queue := ready_queue k @ [?c]\<rparr>"
  have c: "runnable k ?c" using assms(2) by simp
  obtain p ps where ps: "ready_queue k @ [?c] = p # ps" by (cases "ready_queue k") auto
  have run1: "\<forall>x \<in> set (p # ps). runnable ?k1 x"
    using assms(2) unfolding ps [symmetric]
    by (auto simp: runnable_def PROCESS_IS_SCHEDULABLE_def locked_def)
  have "pick_next ?k1 = Some (p, ?k1\<lparr>ready_queue := ps\<rparr>)"
    by (rule pick_next_ready) (use ps run1 in \<open>auto simp: runnable_def\<close>)
  from switch_picked [OF this, of t1 t2] run1
  have sw: "k_proc_process_switch t1 t2 ?k1 = Some (?k1\<lparr>ready_queue := ps, current_process := p,
      procs := (procs ?k1)(p := entered t1 t2 (procs ?k1 p))\<rparr>)" (is "_ = Some ?k2")
    by (simp add: runnable_def)
  show ?thesis
  proof (rule that)
    show "k_proc_process_yield t1 t2 k = Some ?k2"
      using c assms(1) sw mark_ready_unlocked [of k ?c] by (simp add: k_proc_process_yield_def runnable_def Let_def)
    show "current_process ?k2 # ready_queue ?k2 = ready_queue k @ [current_process k]" using ps by simp
    show "\<forall>x \<in> set (current_process ?k2 # ready_queue ?k2). runnable ?k2 x"
      using run1 by (auto simp: runnable_def PROCESS_IS_SCHEDULABLE_def)
  qed simp
qed

text \<open>A sequence of yields, each with the two time stamps it reads.\<close>

fun yields :: "(u64 \<times> u64) list \<Rightarrow> kernel \<Rightarrow> kernel option" where
  "yields [] k = Some k"
| "yields ((t1, t2) # ts) k = do { k1 \<leftarrow> k_proc_process_yield t1 t2 k; yields ts k1 }"

lemma yields_rotate:
  assumes "process_list k \<noteq> []" and "\<forall>p \<in> set (current_process k # ready_queue k). runnable k p"
  shows "\<exists>k'. yields ts k = Some k' \<and>
    current_process k' # ready_queue k' = rotate (length ts) (current_process k # ready_queue k)"
  using assms
proof (induction ts arbitrary: k)
  case (Cons t ts)
  obtain t1 t2 where t: "t = (t1, t2)" by (cases t)
  obtain k1 where k1: "k_proc_process_yield t1 t2 k = Some k1" "process_list k1 = process_list k"
    "current_process k1 # ready_queue k1 = ready_queue k @ [current_process k]"
    "\<forall>p \<in> set (current_process k1 # ready_queue k1). runnable k1 p"
    by (rule yield_runnable [OF Cons(2,3)])
  from Cons(1) [of k1] obtain k' where "yields ts k1 = Some k'"
    "current_process k' # ready_queue k' = rotate (length ts) (current_process k1 # ready_queue k1)"
    using k1(2,4) Cons(2) by auto
  then show ?case using k1(1,3) t by (simp add: rotate1_rotate_swap rotate_Suc)
qed simp

lemma pick_next_first:
  assumes "NULL \<notin> set (ready_queue k)" and "PROCESS_IS_SCHEDULABLE (procs k (idle_process k))"
  shows "pick_next k = Some (case dropWhile (\<lambda>p. \<not> PROCESS_IS_SCHEDULABLE (procs k p)) (ready_queue k) of
      [] \<Rightarrow> (idle_process k, k\<lparr>ready_queue := []\<rparr>)
    | p # ps \<Rightarrow> (p, k\<lparr>ready_queue := ps\<rparr>))"
  using assms
proof (induction "ready_queue k" arbitrary: k)
  case Nil
  then have "k\<lparr>ready_queue := []\<rparr> = k" by simp
  then show ?case using Nil by (simp add: pick_next.simps [of k] k_proc_process_next_def)
next
  case (Cons x xs)
  have x: "ready_queue k = x # xs" "x \<noteq> NULL" using Cons(2,3) by (metis, metis list.set_intros(1))
  show ?case
  proof (cases "PROCESS_IS_SCHEDULABLE (procs k x)")
    case True
    then show ?thesis using x pick_next_ready [OF x] by simp
  next
    case False
    have "pick_next k = pick_next (k\<lparr>ready_queue := xs\<rparr>)"
      using x False by (simp add: pick_next.simps [of k] k_proc_process_next_def)
    moreover have "NULL \<notin> set xs" using Cons(3) x by simp
    ultimately show ?thesis using Cons(1) [of "k\<lparr>ready_queue := xs\<rparr>"] Cons(4) x False
      by (cases "dropWhile (\<lambda>p. \<not> PROCESS_IS_SCHEDULABLE (procs k p)) xs")
        (simp_all del: dropWhile_eq_Nil_conv)
  qed
qed

section \<open>Example states\<close>

text \<open>Two processes, 1 and 2, asleep on the queue at 100; a running one, 3, with 4 and 5 ready.\<close>

definition sleeping_on :: "ptr \<Rightarrow> process" where
  "sleeping_on q = blank_process\<lparr>pstate := PROCESS_STATE_SLEEPING, block_node := Some [q]\<rparr>"

definition two_asleep :: kernel where
  "two_asleep = blank_kernel\<lparr>procs := (procs blank_kernel)(1 := sleeping_on 100, 2 := sleeping_on 100),
     queues := (\<lambda>_. [])(100 := [1, 2])\<rparr>"

definition three_running :: kernel where
  "three_running = blank_kernel\<lparr>process_list := [3, 4, 5], current_process := 3, ready_queue := [4, 5], idle_process := 9\<rparr>"

lemma two_asleep_inv: "sched_inv two_asleep"
proof -
  have "links_ok two_asleep"
    by (auto simp: links_ok_def two_asleep_def sleeping_on_def blank_kernel_def blank_process_def)
  moreover have "timers_ok two_asleep []"
    by (auto simp: timers_ok_def holds_node_def two_asleep_def sleeping_on_def blank_kernel_def blank_process_def
        split: if_split_asm)
  ultimately show ?thesis by (auto simp: sched_inv_def)
qed

lemma blank_kernel_inv: "sched_inv blank_kernel"
proof -
  have "timers_ok blank_kernel []"
    by (auto simp: timers_ok_def holds_node_def blank_kernel_def blank_process_def)
  then show ?thesis by (auto simp: sched_inv_def links_ok_def blank_kernel_def blank_process_def)
qed

section \<open>Properties\<close>

text \<open>
  C10: \<open>k_proc_process_wakeup_queue\<close> always ends, leaves the queue empty and moves every process that
  sleeps on it, and no other, to the end of the ready queue, the last to sleep first and each once.
  A woken process is running, sits in no wait queue and holds no timer; a process that was waiting
  for this queue alone does not get the interrupted mark. The bookkeeping invariant is kept.
\<close>

theorem wakeup_queue_wakes_all:
  assumes "sched_inv k"
  shows "\<exists>k'. k_proc_process_wakeup_queue k q = Some k' \<and> sched_inv k' \<and> queues k' q = [] \<and>
    ready_queue k' = ready_queue k @ woken k q \<and>
    (\<forall>p. if p \<in> set (queues k q) \<and> eligible (procs k p)
         then pstate (procs k' p) = PROCESS_STATE_RUNNING \<and> (\<forall>q'. p \<notin> set (queues k' q')) \<and>
              wait_node (procs k' p) = NULL \<and> timeout_node (procs k' p) = NULL \<and>
              (\<not> locked ((procs k p)\<lparr>block_node := map_option (remove1 q) (block_node (procs k p))\<rparr>) \<longrightarrow>
                 flags (procs k' p) = flags (procs k p))
         else procs k' p = off_queue_all q (procs k p)) \<and>
    (\<forall>q'. q' \<noteq> q \<longrightarrow> queues k' q' = filter (\<lambda>p. p \<notin> set (woken k q)) (queues k q'))"
proof -
  obtain xs where ok: "links_ok k" "timers_ok k xs" using assms by (auto simp: sched_inv_def)
  obtain k' ys where k': "k_proc_process_wakeup_queue k q = Some k'" "links_ok k'" "timers_ok k' ys"
    "ready_queue k' = ready_queue k @ woken k q"
    "queues k' = (\<lambda>q'. if q' = q then [] else filter (\<lambda>p. p \<notin> set (woken k q)) (queues k q'))"
    "procs k' = (\<lambda>p. if p \<in> set (woken k q) then ready_proc (off_queue q (procs k p)) else off_queue_all q (procs k p))"
    using wakeup_queue_ok [OF ok] by blast
  have w: "p \<in> set (woken k q) \<longleftrightarrow> p \<in> set (queues k q) \<and> eligible (procs k p)" for p
    by (auto simp: woken_def)
  show ?thesis
    by (intro exI [of _ k'] conjI) (use k' w in \<open>auto simp: sched_inv_def ready_proc_def off_queue_def\<close>)
qed

theorem wakeup_queue_wakes_all_witness:
  "sched_inv two_asleep \<and> (\<exists>k'. k_proc_process_wakeup_queue two_asleep 100 = Some k' \<and> queues k' 100 = [] \<and>
     ready_queue k' = [2, 1])"
proof -
  have "ready_queue two_asleep @ woken two_asleep 100 = [2, 1]"
    by (simp add: woken_def two_asleep_def sleeping_on_def eligible_def PROCESS_IS_SCHEDULABLE_def blank_kernel_def
        blank_process_def)
  then show ?thesis using wakeup_queue_wakes_all [OF two_asleep_inv, of 100] two_asleep_inv by auto
qed


text \<open>
  a process that goes to sleep on a queue is asleep at the end of that queue without the
  interrupted mark; if the queue is woken it runs again and \<open>k_proc_process_sleep_on_queue\<close> returns 0;
  if it is made ready in another way (a signal), it leaves the queue, runs again and the call
  returns nonzero. Every intermediate state satisfies the invariant.
\<close>

theorem sleeper_told_why:
  assumes "sched_inv k" and "block_node (procs k p) = Some []"
    and "wait_node (procs k p) = NULL" and "timeout_node (procs k p) = NULL"
  shows "\<exists>k1. sleep_prepare k p q = Some k1 \<and> sched_inv k1 \<and> queues k1 q = queues k q @ [p] \<and>
    pstate (procs k1 p) = PROCESS_STATE_SLEEPING \<and>
    (\<exists>k2. k_proc_process_wakeup_queue k1 q = Some k2 \<and> sched_inv k2 \<and> p \<in> set (ready_queue k2) \<and>
       pstate (procs k2 p) = PROCESS_STATE_RUNNING \<and> \<not> sleep_result k2 p) \<and>
    (\<exists>k3. k_proc_process_mark_ready k1 p = Some k3 \<and> sched_inv k3 \<and> ready_queue k3 = ready_queue k @ [p] \<and>
       (\<forall>q'. p \<notin> set (queues k3 q')) \<and> pstate (procs k3 p) = PROCESS_STATE_RUNNING \<and> sleep_result k3 p)"
proof -
  obtain xs where ok: "links_ok k" "timers_ok k xs" using assms(1) by (auto simp: sched_inv_def)
  obtain k1 where k1: "sleep_prepare k p q = Some k1"
    "k1 = k\<lparr>procs := (procs k)(p := asleep_proc q (procs k p)), queues := (queues k)(q := queues k q @ [p])\<rparr>"
    "links_ok k1" "timers_ok k1 xs"
    by (rule sleep_prepare_ok [OF ok assms(2)])
  have p1: "procs k1 p = asleep_proc q (procs k p)" and q1: "queues k1 q = queues k q @ [p]"
    and r1: "ready_queue k1 = ready_queue k" unfolding k1(2) by simp_all
  have b1: "block_node (procs k1 p) = Some [q]" using p1 assms(2) by (simp add: asleep_proc_def)
  have el: "eligible (procs k1 p)" by (simp add: p1 eligible_def asleep_proc_def PROCESS_IS_SCHEDULABLE_def)
  then have w: "p \<in> set (woken k1 q)" using q1 by (simp add: woken_def)
  have two: "\<exists>k2. k_proc_process_wakeup_queue k1 q = Some k2 \<and> sched_inv k2 \<and> p \<in> set (ready_queue k2) \<and>
       pstate (procs k2 p) = PROCESS_STATE_RUNNING \<and> \<not> sleep_result k2 p"
  proof -
    have "\<not> locked (off_queue q (procs k1 p))"
      using assms(3,4) b1 by (simp add: locked_def off_queue_def p1 asleep_proc_def)
    then have "flags (ready_proc (off_queue q (procs k1 p))) AND PROCESS_FLAG_INTERRUPTED = 0"
      by (simp add: ready_proc_def off_queue_def p1 asleep_proc_def mask_cleared)
    then show ?thesis
      using wakeup_queue_ok [OF k1(3,4), of q] w by (auto simp: sched_inv_def sleep_result_def ready_proc_def)
  qed
  let ?k3 = "\<lambda>sq w. k1\<lparr>procs := (procs k1)(p := ready_proc (procs k1 p)),
      queues := (\<lambda>q. removeAll p (queues k1 q)), sleep_queue := sq, wnodes := w, ready_queue := ready_queue k1 @ [p]\<rparr>"
  obtain sq w where m: "k_proc_process_mark_ready k1 p = Some (?k3 sq w)" "links_ok (?k3 sq w)"
    "timers_ok (?k3 sq w) (remove1 (timeout_node (procs k1 p)) (remove1 (wait_node (procs k1 p)) xs))"
    by (rule mark_ready_ok [OF k1(3,4) b1])
  have "locked (procs k1 p)" using b1 by (simp add: locked_def)
  then have "flags (ready_proc (procs k1 p)) AND PROCESS_FLAG_INTERRUPTED = PROCESS_FLAG_INTERRUPTED"
    by (simp add: ready_proc_def mask_set)
  then have three: "\<exists>k3. k_proc_process_mark_ready k1 p = Some k3 \<and> sched_inv k3 \<and> ready_queue k3 = ready_queue k @ [p] \<and>
       (\<forall>q'. p \<notin> set (queues k3 q')) \<and> pstate (procs k3 p) = PROCESS_STATE_RUNNING \<and> sleep_result k3 p"
    using m r1 by (intro exI [of _ "?k3 sq w"]) (auto simp: sched_inv_def sleep_result_def ready_proc_def)
  have "sched_inv k1" "pstate (procs k1 p) = PROCESS_STATE_SLEEPING"
    using k1(3,4) p1 by (auto simp: sched_inv_def asleep_proc_def)
  with k1(1) q1 two three show ?thesis by blast
qed

theorem sleeper_told_why_witness:
  "sched_inv blank_kernel \<and> block_node (procs blank_kernel 7) = Some [] \<and>
   (\<exists>k1. sleep_prepare blank_kernel 7 100 = Some k1 \<and> queues k1 100 = [7] \<and>
      (\<exists>k2. k_proc_process_wakeup_queue k1 100 = Some k2 \<and> \<not> sleep_result k2 7) \<and>
      (\<exists>k3. k_proc_process_mark_ready k1 7 = Some k3 \<and> sleep_result k3 7))"
proof -
  have b: "block_node (procs blank_kernel 7) = Some []" "wait_node (procs blank_kernel 7) = NULL"
    "timeout_node (procs blank_kernel 7) = NULL" "queues blank_kernel 100 = []"
    by (simp_all add: blank_kernel_def blank_process_def)
  show ?thesis using sleeper_told_why [OF blank_kernel_inv b(1-3), of 100] blank_kernel_inv b by auto
qed


text \<open>
  the ready queue is a round robin: as long as the processes in it and the current one can run
  and nothing else happens, \<open>n\<close> yields always succeed and rotate the current process and the ready
  queue \<open>n\<close> times; so the process waiting at position \<open>i\<close> runs after \<open>i + 1\<close> yields.
\<close>

theorem yield_round_robin:
  assumes "process_list k \<noteq> []" and "\<forall>p \<in> set (current_process k # ready_queue k). runnable k p"
    and "i < length (ready_queue k)"
  shows "(\<forall>ts. \<exists>k'. yields ts k = Some k' \<and>
      current_process k' # ready_queue k' = rotate (length ts) (current_process k # ready_queue k)) \<and>
    (\<forall>ts. length ts = Suc i \<longrightarrow> map_option current_process (yields ts k) = Some (ready_queue k ! i))"
proof (intro conjI allI impI)
  fix ts :: "(u64 \<times> u64) list"
  show r: "\<exists>k'. yields ts k = Some k' \<and>
      current_process k' # ready_queue k' = rotate (length ts) (current_process k # ready_queue k)"
    by (rule yields_rotate [OF assms(1,2)])
  assume "length ts = Suc i"
  then obtain k' where k': "yields ts k = Some k'"
    "current_process k' # ready_queue k' = rotate (Suc i) (current_process k # ready_queue k)" using r by auto
  have "current_process k' = rotate (Suc i) (current_process k # ready_queue k) ! 0"
    using k'(2) by (metis nth_Cons_0)
  also have "\<dots> = ready_queue k ! i" using assms(3) by (subst nth_rotate) auto
  finally show "map_option current_process (yields ts k) = Some (ready_queue k ! i)" using k'(1) by simp
qed

theorem yield_round_robin_witness:
  "map_option current_process (yields [(1, 2), (3, 4)] three_running) = Some 5"
proof -
  have "process_list three_running \<noteq> []"
    "\<forall>p \<in> set (current_process three_running # ready_queue three_running). runnable three_running p"
    "1 < length (ready_queue three_running)"
    by (simp_all add: three_running_def blank_kernel_def blank_process_def runnable_def locked_def
        PROCESS_IS_SCHEDULABLE_def GUARD_MAGIC_def)
  note r = spec [OF conjunct2 [OF yield_round_robin [OF this]], of "[(1, 2), (3, 4)]"]
  have "length [(1 :: u64, 2 :: u64), (3, 4)] = Suc 1" by simp
  from mp [OF r this] show ?thesis by (simp only: three_running_def) simp
qed


text \<open>
  the switch runs the first schedulable process of the ready queue, dropping the others in front
  of it, and the idle process when there is none; it marks it running and current, and refuses (a
  panic) exactly when the guard word of that process's kernel stack was overwritten.
\<close>

theorem switch_runs_first_schedulable:
  assumes "NULL \<notin> set (ready_queue k)" and "PROCESS_IS_SCHEDULABLE (procs k (idle_process k))"
    and "cand = dropWhile (\<lambda>p. \<not> PROCESS_IS_SCHEDULABLE (procs k p)) (ready_queue k)"
    and "p = (if cand = [] then idle_process k else hd cand)"
  shows "(k_proc_process_switch t1 t2 k = None \<longleftrightarrow> kernel_stack_guard (procs k p) \<noteq> GUARD_MAGIC) \<and>
    (\<forall>k'. k_proc_process_switch t1 t2 k = Some k' \<longrightarrow> current_process k' = p \<and> ready_queue k' = tl cand \<and>
       pstate (procs k' p) = PROCESS_STATE_RUNNING \<and> last_entrance (procs k' p) = t2 \<and>
       (\<forall>p'. p' \<noteq> p \<longrightarrow> procs k' p' = procs k p'))"
proof -
  have "pick_next k = Some (p, k\<lparr>ready_queue := tl cand\<rparr>)"
    using pick_next_first [OF assms(1,2)] assms(4) unfolding assms(3) [symmetric] by (cases cand) simp_all
  from switch_picked [OF this, of t1 t2] show ?thesis by auto
qed

theorem switch_runs_first_schedulable_witness:
  "\<exists>k'. k_proc_process_switch 7 8 three_running = Some k' \<and> current_process k' = 4 \<and> ready_queue k' = [5]"
proof -
  have a: "NULL \<notin> set (ready_queue three_running)"
    "PROCESS_IS_SCHEDULABLE (procs three_running (idle_process three_running))"
    by (simp_all add: three_running_def blank_kernel_def blank_process_def PROCESS_IS_SCHEDULABLE_def)
  have c: "dropWhile (\<lambda>p. \<not> PROCESS_IS_SCHEDULABLE (procs three_running p)) (ready_queue three_running) = [4, 5]"
    by (simp add: three_running_def blank_kernel_def blank_process_def PROCESS_IS_SCHEDULABLE_def)
  have g: "kernel_stack_guard (procs three_running 4) = GUARD_MAGIC"
    by (simp add: three_running_def blank_kernel_def blank_process_def GUARD_MAGIC_def)
  show ?thesis
    using switch_runs_first_schedulable [OF a c [symmetric], of 4 7 8] g
    by (cases "k_proc_process_switch 7 8 three_running") auto
qed


end
