(* ===== verification/Sched_Select.thy ===== *)
theory Sched_Select
  imports Sched_Inv
begin

text \<open>
  Waking the processes that wait in \<open>select\<close>: they sit in several queues at once and may hold a
  timeout, so \<open>k_proc_process_wakeup_queue_select\<close> first takes them off everything they wait for,
  then tells them which file became ready.
\<close>

definition wake_select_step :: "kernel \<Rightarrow> ptr \<Rightarrow> ptr \<Rightarrow> u8 \<Rightarrow> kernel option" where
  "wake_select_step k q fsnode event =
     (case pop_waiter k q of None \<Rightarrow> None
      | Some (p, k0) \<Rightarrow>
          (case k_proc_process_release_block k0 p of None \<Rightarrow> None
           | Some k1 \<Rightarrow>
               if eligible (procs k1 p)
               then do { k2 \<leftarrow> drop_timeout_node (upd_proc k1 p (\<lambda>x. x\<lparr>pstate := PROCESS_STATE_RUNNING,
                             select_wait_node := fsnode, select_wait_event := event\<rparr>)) p;
                         k_proc_process_mark_ready k2 p }
               else Some k1))"

lemma wakeup_queue_select_step:
  assumes "queues k q \<noteq> []"
  shows "k_proc_process_wakeup_queue_select k q fsnode event =
     (case wake_select_step k q fsnode event of None \<Rightarrow> None
      | Some k1 \<Rightarrow> k_proc_process_wakeup_queue_select k1 q fsnode event)"
proof -
  note unf = k_proc_process_wakeup_queue_select.simps [of k q] k_proc_process_wakeup_queue_single_select.simps [of k q]
  show ?thesis
  proof (cases "pop_waiter k q")
    case None
    then show ?thesis using assms by (simp add: unf wake_select_step_def)
  next
    case (Some r)
    obtain p k0 where r: "r = (p, k0)" by (cases r)
    show ?thesis
    proof (cases "k_proc_process_release_block k0 p")
      case None
      then show ?thesis using assms Some r by (simp add: unf wake_select_step_def)
    next
      case k1: (Some k1)
      show ?thesis
      proof (cases "eligible (procs k1 p)")
        case True
        then show ?thesis
          using assms Some r k1 by (simp add: unf eligible_def k_proc_process_is_ready_def wake_select_step_def)
      next
        case False
        then have s: "k_proc_process_wakeup_queue_single_select k q fsnode event =
            k_proc_process_wakeup_queue_single_select k1 q fsnode event"
          using assms Some r k1 by (auto simp: eligible_def k_proc_process_is_ready_def unf(2))
        have "k_proc_process_wakeup_queue_select k q fsnode event = k_proc_process_wakeup_queue_select k1 q fsnode event"
          using assms s by (cases "queues k1 q = []")
            (simp_all add: unf(1) k_proc_process_wakeup_queue_select.simps [of k1 q]
              k_proc_process_wakeup_queue_single_select.simps [of k1 q])
        then show ?thesis using Some r k1 False by (simp add: wake_select_step_def)
      qed
    qed
  qed
qed

text \<open>A process the wake-up made ready, and one it only took off its queues.\<close>

definition selected_proc :: "ptr \<Rightarrow> u8 \<Rightarrow> process \<Rightarrow> process" where
  "selected_proc fsnode event P = P\<lparr>pstate := PROCESS_STATE_RUNNING, select_wait_node := fsnode,
     select_wait_event := event, block_node := Some [], wait_node := NULL, timeout_node := NULL,
     flags := (if wait_node P \<noteq> NULL then flags P OR PROCESS_FLAG_INTERRUPTED else flags P)\<rparr>"

lemma wake_select_step_ok:
  assumes "links_ok k" and "timers_ok k xs" and "queues k q = us @ [p]"
  obtains k' ys where "wake_select_step k q fsnode event = Some k'" "links_ok k'" "timers_ok k' ys" "same_rest k k'"
    "queues k' = (\<lambda>q. removeAll p (queues k q))"
    "procs k' = (procs k)(p := if eligible (procs k p) then selected_proc fsnode event (procs k p)
       else (procs k p)\<lparr>block_node := Some []\<rparr>)"
    "ready_queue k' = ready_queue k @ (if eligible (procs k p) then [p] else [])"
proof -
  obtain k0 where k0: "pop_waiter k q = Some (p, k0)" "links_ok k0" "timers_ok k0 xs"
    "k0 = k\<lparr>procs := (procs k)(p := off_queue q (procs k p)), queues := (queues k)(q := us)\<rparr>"
    "block_node (procs k0 p) \<noteq> None" by (rule pop_waiter_ok [OF assms])
  obtain os where os: "block_node (procs k0 p) = Some os" using k0(5) by auto
  have q: "(\<lambda>q'. removeAll p (queues k0 q')) = (\<lambda>q. removeAll p (queues k q))"
    unfolding k0(4) using assms(3) by (auto simp: fun_eq_iff)
  let ?k1 = "k\<lparr>procs := (procs k)(p := (procs k p)\<lparr>block_node := Some []\<rparr>), queues := (\<lambda>q. removeAll p (queues k q))\<rparr>"
  have e1: "k0\<lparr>procs := (procs k0)(p := (procs k0 p)\<lparr>block_node := Some []\<rparr>), queues := (\<lambda>q. removeAll p (queues k0 q))\<rparr> = ?k1"
    unfolding q by (simp add: k0(4) off_queue_def)
  have rel: "k_proc_process_release_block k0 p = Some ?k1"
    using links_ok_release [OF k0(2) os] unfolding e1 .
  have l1: "links_ok ?k1" by (rule links_ok_released [OF assms(1)]) simp
  have "timers_ok (k\<lparr>procs := (procs k)(p := (procs k p)\<lparr>block_node := Some []\<rparr>)\<rparr>) xs"
    by (rule timers_ok_proc [OF assms(2)]) (use timers_ok_held [OF assms(2), of p] in \<open>auto simp: holds_node_def\<close>)
  then have t1: "timers_ok ?k1 xs" by (subst timers_ok_cong [rotated 3]) auto
  have el: "eligible (procs ?k1 p) = eligible (procs k p)" by (simp add: eligible_def PROCESS_IS_SCHEDULABLE_def)
  show ?thesis
  proof (cases "eligible (procs k p)")
    case False
    then have "wake_select_step k q fsnode event = Some ?k1"
      using k0(1) rel el by (simp add: wake_select_step_def)
    then show ?thesis by (rule that [OF _ l1 t1]) (use False in \<open>simp_all add: same_rest_def\<close>)
  next
    case True
    let ?P = "(procs k p)\<lparr>block_node := Some [], pstate := PROCESS_STATE_RUNNING, select_wait_node := fsnode, select_wait_event := event\<rparr>"
    let ?k2 = "?k1\<lparr>procs := (procs ?k1)(p := ?P)\<rparr>"
    have e2: "upd_proc ?k1 p (\<lambda>x. x\<lparr>pstate := PROCESS_STATE_RUNNING, select_wait_node := fsnode, select_wait_event := event\<rparr>) = ?k2"
      by (simp add: upd_proc_def)
    have t2: "timers_ok ?k2 xs" by (rule timers_ok_proc [OF t1]) auto
    let ?k3 = "\<lambda>sq w. ?k2\<lparr>procs := (procs ?k2)(p := (procs ?k2 p)\<lparr>timeout_node := NULL\<rparr>), sleep_queue := sq, wnodes := w\<rparr>"
    obtain sq w where d: "drop_timeout_node ?k2 p = Some (?k3 sq w)"
      "timers_ok (?k3 sq w) (remove1 (timeout_node (procs ?k2 p)) xs)" by (rule drop_timeout_node_ok [OF t2])
    let ?k3 = "?k3 sq w"
    have l3: "links_ok ?k3" using l1 by (subst links_ok_cong [rotated 2]) auto
    have b3: "block_node (procs ?k3 p) = Some []" by simp
    let ?k4 = "\<lambda>sq w. ?k3\<lparr>procs := (procs ?k3)(p := ready_proc (procs ?k3 p)),
      queues := (\<lambda>q. removeAll p (queues ?k3 q)), sleep_queue := sq, wnodes := w, ready_queue := ready_queue ?k3 @ [p]\<rparr>"
    obtain sq' w' where m: "k_proc_process_mark_ready ?k3 p = Some (?k4 sq' w')" "links_ok (?k4 sq' w')"
      "timers_ok (?k4 sq' w') (remove1 (timeout_node (procs ?k3 p)) (remove1 (wait_node (procs ?k3 p))
         (remove1 (timeout_node (procs ?k2 p)) xs)))" by (rule mark_ready_ok [OF l3 d(2) b3])
    have "wake_select_step k q fsnode event = Some (?k4 sq' w')"
      using k0(1) rel el True d(1) m(1) by (simp only: wake_select_step_def option.case prod.case e2 if_True Option.bind.simps)
    then show ?thesis
      by (rule that [OF _ m(2,3)])
        (use True in \<open>simp_all add: same_rest_def fun_eq_iff selected_proc_def ready_proc_def locked_def\<close>)
  qed
qed

lemma wakeup_queue_select_ok:
  assumes "links_ok k" and "timers_ok k xs"
  shows "\<exists>k' ys. k_proc_process_wakeup_queue_select k q fsnode event = Some k' \<and> links_ok k' \<and> timers_ok k' ys \<and>
    same_rest k k' \<and> ready_queue k' = ready_queue k @ woken k q \<and>
    queues k' = (\<lambda>q'. filter (\<lambda>p. p \<notin> set (queues k q)) (queues k q')) \<and>
    procs k' = (\<lambda>p. if p \<in> set (woken k q) then selected_proc fsnode event (procs k p)
       else if p \<in> set (queues k q) then (procs k p)\<lparr>block_node := Some []\<rparr> else procs k p)"
  using assms
proof (induction "length (queues k q)" arbitrary: k xs rule: less_induct)
  case less
  show ?case
  proof (cases "queues k q" rule: rev_cases)
    case Nil
    then show ?thesis
      using less(2,3) by (auto simp: k_proc_process_wakeup_queue_select.simps [of k q] woken_def)
  next
    case (snoc us p)
    obtain k1 ys where s: "wake_select_step k q fsnode event = Some k1" "links_ok k1" "timers_ok k1 ys" "same_rest k k1"
      "queues k1 = (\<lambda>q. removeAll p (queues k q))"
      and pr: "procs k1 = (procs k)(p := if eligible (procs k p) then selected_proc fsnode event (procs k p)
        else (procs k p)\<lparr>block_node := Some []\<rparr>)"
      and rq: "ready_queue k1 = ready_queue k @ (if eligible (procs k p) then [p] else [])"
      by (rule wake_select_step_ok [OF less(2,3) snoc])
    have un: "k_proc_process_wakeup_queue_select k q fsnode event = k_proc_process_wakeup_queue_select k1 q fsnode event"
      using wakeup_queue_select_step [of k q] snoc s(1) by simp
    have q1: "queues k1 q = removeAll p us" using s(5) snoc by simp
    have "length (queues k1 q) < length (queues k q)" using q1 snoc by (simp add: le_imp_less_Suc)
    from less(1) [OF this s(2,3)] obtain k' zs where k': "k_proc_process_wakeup_queue_select k1 q fsnode event = Some k'"
      "links_ok k'" "timers_ok k' zs" "same_rest k1 k'" "ready_queue k' = ready_queue k1 @ woken k1 q"
      "queues k' = (\<lambda>q'. filter (\<lambda>p. p \<notin> set (queues k1 q)) (queues k1 q'))"
      "procs k' = (\<lambda>p. if p \<in> set (woken k1 q) then selected_proc fsnode event (procs k1 p)
         else if p \<in> set (queues k1 q) then (procs k1 p)\<lparr>block_node := Some []\<rparr> else procs k1 p)"
      by blast
    have f: "filter (\<lambda>p. eligible (procs k1 p)) (removeAll p us) = filter (\<lambda>p. eligible (procs k p)) (removeAll p us)"
      by (rule filter_cong) (auto simp: pr)
    have w: "woken k q = (if eligible (procs k p) then p # woken k1 q else woken k1 q)"
      using f q1 snoc by (simp add: woken_def remdups_snoc filter_removeAll)
    have out: "p \<notin> set (woken k1 q)" "p \<notin> set (queues k1 q)" using q1 by (auto simp: woken_def)
    have in_q: "x \<in> set (queues k q) \<longleftrightarrow> x = p \<or> x \<in> set (queues k1 q)" for x using q1 snoc by auto
    show ?thesis
    proof (intro exI conjI)
      show "k_proc_process_wakeup_queue_select k q fsnode event = Some k'" using un k'(1) by simp
      show "same_rest k k'" using s(4) k'(4) by (rule same_rest_trans)
      show "ready_queue k' = ready_queue k @ woken k q" using k'(5) rq w by simp
      show "queues k' = (\<lambda>q'. filter (\<lambda>p. p \<notin> set (queues k q)) (queues k q'))"
        unfolding k'(6) in_q s(5) by (auto simp: fun_eq_iff removeAll_filter_not_eq filter_filter intro: filter_cong)
      show "procs k' = (\<lambda>p. if p \<in> set (woken k q) then selected_proc fsnode event (procs k p)
         else if p \<in> set (queues k q) then (procs k p)\<lparr>block_node := Some []\<rparr> else procs k p)"
        unfolding k'(7) in_q w using out by (auto simp: fun_eq_iff pr)
    qed (fact k'(2,3))+
  qed
qed

text \<open>
  \<open>k_proc_process_wakeup_queue_select\<close> always ends; afterwards nobody who was in the queue is in
  any wait queue, the sleeping ones are ready, in the order the last to sleep first, run without a
  timer, know the file and the event they were woken for, and are not marked interrupted unless
  they were in a timed sleep as well. Processes outside the queue are untouched and the invariant
  is kept.
\<close>

theorem wakeup_select_informs:
  assumes "sched_inv k"
  shows "\<exists>k'. k_proc_process_wakeup_queue_select k q fsnode event = Some k' \<and> sched_inv k' \<and>
    ready_queue k' = ready_queue k @ woken k q \<and>
    (\<forall>p \<in> set (queues k q). (\<forall>q'. p \<notin> set (queues k' q')) \<and> (eligible (procs k p) \<longrightarrow>
       pstate (procs k' p) = PROCESS_STATE_RUNNING \<and> timeout_node (procs k' p) = NULL \<and>
       select_wait_node (procs k' p) = fsnode \<and> select_wait_event (procs k' p) = event \<and>
       (wait_node (procs k p) = NULL \<longrightarrow> flags (procs k' p) = flags (procs k p)))) \<and>
    (\<forall>p. p \<notin> set (queues k q) \<longrightarrow> procs k' p = procs k p \<and> (\<forall>q'. p \<in> set (queues k' q') \<longleftrightarrow> p \<in> set (queues k q')))"
proof -
  obtain xs where ok: "links_ok k" "timers_ok k xs" using assms by (auto simp: sched_inv_def)
  have w: "p \<in> set (woken k q) \<longleftrightarrow> p \<in> set (queues k q) \<and> eligible (procs k p)" for p
    by (auto simp: woken_def)
  from wakeup_queue_select_ok [OF ok, of q fsnode event] show ?thesis
    by (elim exE, intro exI conjI) (auto simp: sched_inv_def w selected_proc_def)
qed

theorem wakeup_select_informs_witness:
  "\<exists>k'. k_proc_process_wakeup_queue_select two_asleep 100 48 1 = Some k' \<and> ready_queue k' = [2, 1] \<and>
     select_wait_node (procs k' 1) = 48"
proof -
  have "ready_queue two_asleep @ woken two_asleep 100 = [2, 1]" "1 \<in> set (queues two_asleep 100)"
    "eligible (procs two_asleep 1)"
    by (simp_all add: woken_def two_asleep_def sleeping_on_def eligible_def PROCESS_IS_SCHEDULABLE_def blank_kernel_def
        blank_process_def)
  then show ?thesis using wakeup_select_informs [OF two_asleep_inv, of 100 48 1] by auto
qed

end
