(* ===== verification/Timers.thy ===== *)
theory Timers
  imports Sched_Inv
begin

text \<open>
  Timed sleeps: the arithmetic of deadlines (\<open>TICKS_SECONDS\<close> and \<open>TICKS_MICROSECONDS\<close> of a 64 bit
  count of microseconds), a sleep that is alone in the queue, and what the insertion loop does in
  every case.
\<close>

abbreviation (input) MICROSECONDS_PER_SECOND :: nat where "MICROSECONDS_PER_SECOND \<equiv> 1000000"

lemma unat_div_M: "unat ((x :: u64) div 1000000) = unat x div 1000000"
  by (simp add: unat_div)

lemma unat_mod_M: "unat ((x :: u64) mod 1000000) = unat x mod 1000000"
  by (simp add: unat_mod)

lemma unat_add64: "unat (x :: u64) + unat y < 2 ^ 64 \<Longrightarrow> unat (x + y) = unat x + unat y"
  by (simp add: unat_word_ariths)

lemma deadline_nat:
  assumes "unat t + unat u < 2 ^ 64" and "deadline t (u div 1000000) (u mod 1000000) = (s, m)"
  shows "unat s = (unat t + unat u) div 1000000 \<and> unat m = (unat t + unat u) mod 1000000"
proof -
  let ?M = "1000000 :: nat"
  let ?cs = "t div 1000000 + u div 1000000" and ?cm = "t mod 1000000 + u mod 1000000"
  have small: "unat t mod ?M < ?M" "unat u mod ?M < ?M" by simp_all
  have d: "unat t div ?M + unat u div ?M \<le> (unat t + unat u) div ?M"
    by (metis add_le_mono div_add1_eq le_add1 add.assoc)
  have lt: "unat t div ?M + unat u div ?M < 2 ^ 64" using d assms(1) by linarith
  have cs: "unat ?cs = unat t div ?M + unat u div ?M"
    using lt by (subst unat_add64) (simp_all only: unat_div_M)
  have cm: "unat ?cm = unat t mod ?M + unat u mod ?M"
  proof (subst unat_add64)
    show "unat (t mod 1000000) + unat (u mod 1000000) < 2 ^ 64"
      unfolding unat_mod_M by (rule less_trans [OF add_strict_mono [OF small]]) simp
  qed (simp only: unat_mod_M)
  have div: "(unat t + unat u) div ?M = unat t div ?M + unat u div ?M + (unat t mod ?M + unat u mod ?M) div ?M"
    by (rule div_add1_eq)
  have md: "(unat t + unat u) mod ?M = (unat t mod ?M + unat u mod ?M) mod ?M"
    by (simp add: mod_add_eq)
  show ?thesis
  proof (cases "?cm \<ge> 1000000")
    case True
    have "unat (?cs + ?cm div 1000000) = unat ?cs + unat ?cm div ?M"
    proof (subst unat_add64)
      show "unat ?cs + unat (?cm div 1000000) < 2 ^ 64"
        unfolding unat_div_M cs cm using div assms(1) by linarith
    qed (simp only: unat_div_M)
    moreover have "s = ?cs + ?cm div 1000000" "m = ?cm mod 1000000"
      using assms(2) True by (auto simp: deadline_def Let_def)
    ultimately show ?thesis unfolding div md by (simp only: unat_mod_M cs cm)
  next
    case False
    then have "unat ?cm < ?M" unfolding word_le_nat_alt by simp
    moreover have "s = ?cs" "m = ?cm" using assms(2) False by (auto simp: deadline_def Let_def)
    ultimately show ?thesis unfolding div md using cs cm by simp
  qed
qed

lemma lex_div_mod: "a < b div M \<or> a = b div M \<and> c \<le> b mod M \<longleftrightarrow> a * M + c \<le> b" if "c < M" for a b c M :: nat
proof -
  have b: "b = b div M * M + b mod M" by simp
  have m: "b mod M < M" using that by simp
  show ?thesis
  proof
    assume "a < b div M \<or> a = b div M \<and> c \<le> b mod M"
    then show "a * M + c \<le> b"
    proof
      assume "a < b div M"
      then have "Suc a * M \<le> b div M * M" by (intro mult_le_mono1) simp
      moreover have "b div M * M \<le> b" by simp
      ultimately show ?thesis using that by (simp only: mult_Suc)
    next
      assume "a = b div M \<and> c \<le> b mod M"
      then have "a * M + c \<le> b div M * M + b mod M" by (elim conjE) (simp only: add_le_cancel_left)
      then show ?thesis by (simp only: b [symmetric])
    qed
  next
    assume le: "a * M + c \<le> b"
    then have "a \<le> b div M" by (metis add_leD1 div_le_mono div_mult_self_is_m mod_less_divisor m gr_zeroI not_less_zero)
    then consider "a < b div M" | (eq) "a = b div M" by linarith
    then show "a < b div M \<or> a = b div M \<and> c \<le> b mod M"
    proof cases
      case eq
      then have "b div M * M + c \<le> b div M * M + b mod M" using le by (simp only: b [symmetric])
      then have "c \<le> b mod M" by (simp only: add_le_cancel_left)
      then show ?thesis using eq by blast
    qed simp
  qed
qed

lemma deadline_due:
  assumes "unat t + unat u < 2 ^ 64" and "deadline t (u div 1000000) (u mod 1000000) = (seconds n, microseconds n)"
  shows "node_due n (t' div 1000000) (t' mod 1000000) \<longleftrightarrow> unat t + unat u \<le> unat t'"
proof -
  have d: "unat (seconds n) = (unat t + unat u) div 1000000" "unat (microseconds n) = (unat t + unat u) mod 1000000"
    using deadline_nat [OF assms] by simp_all
  have "node_due n (t' div 1000000) (t' mod 1000000) \<longleftrightarrow>
      unat (seconds n) < unat t' div 1000000 \<or>
      unat (seconds n) = unat t' div 1000000 \<and> unat (microseconds n) \<le> unat t' mod 1000000"
    unfolding node_due_def word_less_nat_alt word_le_nat_alt word_unat_eq_iff unat_div_M unat_mod_M ..
  also have "\<dots> \<longleftrightarrow> unat (seconds n) * 1000000 + unat (microseconds n) \<le> unat t'"
    by (rule lex_div_mod) (simp add: d)
  finally show ?thesis by (simp add: d)
qed

section \<open>A sleep that is alone in the queue\<close>

lemma timers_ok_push:
  assumes ok: "timers_ok k []" and fresh: "wnodes k new = None" "new \<noteq> NULL"
    and own: "wait_node (procs k p) = NULL" "timeout_node (procs k p) = NULL" "block_node (procs k p) \<noteq> None"
    and P: "wait_node P = new \<and> timeout_node P = NULL \<or> wait_node P = NULL \<and> timeout_node P = new"
      "pstate P \<noteq> PROCESS_STATE_FINISHED" "block_node P = block_node (procs k p)"
    and n: "wn_process n = p" "wnext n = NULL"
  shows "timers_ok (k\<lparr>procs := (procs k)(p := P), sleep_queue := new, wnodes := (wnodes k)(new \<mapsto> n)\<rparr>) [new]"
proof -
  have "holds_node (procs k p') x \<Longrightarrow> x \<noteq> new" for p' x
    using timers_ok_held [OF ok, of p' x] fresh by auto
  moreover have "holds_node P x \<longleftrightarrow> x = new" for x using P(1) fresh(2) by (auto simp: holds_node_def)
  ultimately show ?thesis
    using timers_ok_held [OF ok] timers_ok_two [OF ok] fresh own P n
    unfolding timers_ok_def by (auto split: if_split_asm)
qed

lemma timers_ok_free:
  "timers_ok k xs \<Longrightarrow> x \<notin> set xs \<Longrightarrow> (\<And>p. \<not> holds_node (procs k p) x) \<Longrightarrow> timers_ok (free_node k x) xs"
  unfolding timers_ok_def free_node_def using sq_list_cong [of xs "(wnodes k)(x := None)" "wnodes k"] by fastforce

lemma timers_ok_unhold:
  assumes ok: "timers_ok k [x]" and p: "wait_node (procs k p) = x" "x \<noteq> NULL"
  shows "timers_ok (k\<lparr>sleep_queue := NULL, procs := (procs k)(p := (procs k p)\<lparr>wait_node := NULL\<rparr>)\<rparr>) []"
proof -
  have "timeout_node (procs k p) \<noteq> x" using timers_ok_two [OF ok, of p] p by metis
  then have "holds_node ((procs k p)\<lparr>wait_node := NULL\<rparr>) y \<longleftrightarrow> holds_node (procs k p) y \<and> y \<noteq> x" for y
    using p by (auto simp: holds_node_def)
  then have h: "holds_node (((procs k)(p := (procs k p)\<lparr>wait_node := NULL\<rparr>)) p') y \<Longrightarrow> holds_node (procs k p') y" for p' y
    by (simp split: if_split_asm)
  have B: "pstate (((procs k)(p := (procs k p)\<lparr>wait_node := NULL\<rparr>)) p') \<noteq> PROCESS_STATE_FINISHED \<and>
      block_node (((procs k)(p := (procs k p)\<lparr>wait_node := NULL\<rparr>)) p') \<noteq> None \<and>
      (\<exists>n. wnodes k y = Some n \<and> wn_process n = p')"
    if "holds_node (((procs k)(p := (procs k p)\<lparr>wait_node := NULL\<rparr>)) p') y" for p' y
    using timers_ok_held [OF ok h [OF that]] by (cases "p' = p") simp_all
  show ?thesis using B timers_ok_two [OF ok] unfolding timers_ok_def by simp
qed

lemma wakeup_timing_alone:
  assumes ok: "links_ok k" "timers_ok k [x]" and n: "wnodes k x = Some n" and w: "wait_node (procs k (wn_process n)) = x"
    and due: "node_due n s m"
  shows "\<exists>k'. wakeup_timing k s m = Some k' \<and> links_ok k' \<and> timers_ok k' [] \<and>
      ready_queue k' = ready_queue k @ [wn_process n] \<and>
      procs k' = (procs k)(wn_process n := ready_proc ((procs k (wn_process n))\<lparr>wait_node := NULL\<rparr>))"
proof -
  let ?p = "wn_process n"
  have x: "sleep_queue k = x" "x \<noteq> NULL" "wnext n = NULL"
    using timers_ok_list [OF ok(2)] n by auto
  have held: "holds_node (procs k ?p) x" using w x by (simp add: holds_node_def)
  obtain os where st: "pstate (procs k ?p) \<noteq> PROCESS_STATE_FINISHED" "block_node (procs k ?p) = Some os"
    using timers_ok_held [OF ok(2) held] by auto
  have to: "timeout_node (procs k ?p) \<noteq> x" using timers_ok_two [OF ok(2), of ?p] w x by metis
  let ?k1 = "k\<lparr>sleep_queue := NULL, procs := (procs k)(?p := (procs k ?p)\<lparr>wait_node := NULL\<rparr>)\<rparr>"
  have l1: "links_ok ?k1" using ok(1) by (subst links_ok_cong) auto
  have t1: "timers_ok ?k1 []" by (rule timers_ok_unhold [OF ok(2) w x(2)])
  have b1: "block_node (procs ?k1 ?p) = Some os" using st by simp
  let ?k2 = "\<lambda>sq w. ?k1\<lparr>procs := (procs ?k1)(?p := ready_proc (procs ?k1 ?p)),
      queues := (\<lambda>q. removeAll ?p (queues ?k1 q)), sleep_queue := sq, wnodes := w, ready_queue := ready_queue ?k1 @ [?p]\<rparr>"
  obtain sq v where m: "k_proc_process_mark_ready ?k1 ?p = Some (?k2 sq v)" "links_ok (?k2 sq v)"
    "timers_ok (?k2 sq v) (remove1 (timeout_node (procs ?k1 ?p)) (remove1 (wait_node (procs ?k1 ?p)) []))"
    by (rule mark_ready_ok [OF l1 t1 b1])
  let ?k2 = "?k2 sq v"
  have nh: "\<not> holds_node (procs ?k2 p') x" for p'
  proof (cases "p' = ?p")
    case True
    then show ?thesis by (simp add: holds_node_def ready_proc_def)
  next
    case False
    then have "\<not> holds_node (procs k p') x" using timers_ok_held [OF ok(2), of p' x] n by fastforce
    with False show ?thesis by simp
  qed
  have t3: "timers_ok (free_node ?k2 x) []" by (rule timers_ok_free) (use m(3) nh in auto)
  have l3: "links_ok (free_node ?k2 x)" using m(2) by (subst links_ok_cong) (auto simp: free_node_def)
  have sq: "sq = NULL" using timers_ok_list [OF t3] by (simp add: free_node_def)
  have e: "upd_proc (k\<lparr>sleep_queue := wnext n\<rparr>) ?p (wait_node_update (\<lambda>_. NULL)) = ?k1"
    using x(3) by (simp add: upd_proc_def)
  have "wakeup_node k x n = Some (free_node ?k2 x)"
    unfolding wakeup_node_def Let_def e using st to m(1) by simp
  then have "wakeup_timing k s m = wakeup_timing (free_node ?k2 x) s m"
    using x n due by (simp add: wakeup_timing.simps [of k])
  also have "\<dots> = Some (free_node ?k2 x)" by (simp add: wakeup_timing.simps free_node_def sq)
  finally show ?thesis using t3 l3 by (intro exI [of _ "free_node ?k2 x"]) (simp add: free_node_def)
qed

section \<open>Insertion\<close>

definition later_than :: "(ptr \<Rightarrow> wait_node option) \<Rightarrow> wait_node \<Rightarrow> ptr \<Rightarrow> bool" where
  "later_than w n x \<longleftrightarrow> (case w x of None \<Rightarrow> False | Some y \<Rightarrow> node_later y (seconds n) (microseconds n))"

lemma sq_position_list:
  "sq_list w p xs \<Longrightarrow> sq_position w (seconds n) (microseconds n) prev p =
     Some (last (prev # takeWhile (later_than w n) xs), head_of (dropWhile (later_than w n) xs))"
proof (induction xs arbitrary: p prev)
  case (Cons x xs)
  then show ?case
    by (cases "w x") (auto simp: sq_position.simps [of w _ _ _ x] later_than_def split: option.splits)
qed (simp add: sq_position.simps)

lemma sq_link_in:
  assumes "sq_list w p (us @ v # zs)" and "w v = Some m" and "new \<notin> set (us @ v # zs)" and "new \<noteq> NULL"
    and "distinct (us @ v # zs)"
  shows "sq_list (w(v \<mapsto> m\<lparr>wnext := new\<rparr>, new \<mapsto> n\<lparr>wnext := head_of zs\<rparr>)) p (us @ v # new # zs)"
  using assms
proof (induction us arbitrary: p)
  case Nil
  then have "sq_list w (head_of zs) zs" by (auto dest: sq_list_start)
  moreover have "\<forall>x \<in> set zs. (w(v \<mapsto> m\<lparr>wnext := new\<rparr>, new \<mapsto> n\<lparr>wnext := head_of zs\<rparr>)) x = w x" using Nil by auto
  ultimately have "sq_list (w(v \<mapsto> m\<lparr>wnext := new\<rparr>, new \<mapsto> n\<lparr>wnext := head_of zs\<rparr>)) (head_of zs) zs"
    using sq_list_cong by blast
  moreover have "v \<noteq> new" using Nil(3) by auto
  ultimately show ?case using Nil by (simp del: fun_upd_apply add: fun_upd_same fun_upd_other)
next
  case (Cons u us)
  then show ?case by (auto split: option.splits)
qed

text \<open>A walk along two nodes that point at each other never ends.\<close>

lemma sq_find_cycle:
  assumes "w x = Some a" "wnext a = y" "w y = Some b" "wnext b = x" "x \<noteq> NULL" "y \<noteq> NULL" "t \<noteq> x" "t \<noteq> y"
  shows "sq_find w t prev x = None"
proof -
  have "w' = w \<longrightarrow> t' = t \<longrightarrow> node \<noteq> x \<and> node \<noteq> y" if "sq_find w' t' prev' node = Some r" for w' t' prev' node r
  proof (rule sq_find.raw_induct [OF _ that, where P = "\<lambda>w' t' prev' node r. w' = w \<longrightarrow> t' = t \<longrightarrow> node \<noteq> x \<and> node \<noteq> y"])
    fix f w' t' prev' node r
    assume ih: "\<And>w' t' prev' node r. f w' t' prev' node = Some r \<Longrightarrow> w' = w \<longrightarrow> t' = t \<longrightarrow> node \<noteq> x \<and> node \<noteq> y"
      and f: "(if node = NULL then Some None else case w' node of None \<Rightarrow> None
        | Some n \<Rightarrow> if node = t' then Some (Some (prev', wnext n)) else f w' t' node (wnext n)) = Some r"
    show "w' = w \<longrightarrow> t' = t \<longrightarrow> node \<noteq> x \<and> node \<noteq> y"
    proof (intro impI, rule ccontr)
      assume e: "w' = w" "t' = t" and "\<not> (node \<noteq> x \<and> node \<noteq> y)"
      then have "node = x \<or> node = y" by blast
      then obtain nn where nn: "w node = Some nn" "node \<noteq> NULL" "node \<noteq> t" "wnext nn = x \<or> wnext nn = y"
        using assms by auto
      with f e have "f w t node (wnext nn) = Some r" by simp
      from ih [OF this] nn(4) show False by blast
    qed
  qed
  then show ?thesis by (cases "sq_find w t prev x") blast+
qed

lemma sq_insert_empty:
  "sleep_queue k = NULL \<Longrightarrow> new \<noteq> NULL \<Longrightarrow>
     \<exists>k'. sq_insert k new n = Some k' \<and> sq_list (wnodes k') (sleep_queue k') [new]"
  by (simp add: sq_insert_def)

lemma sq_insert_behind_later:
  assumes "sq_list (wnodes k) (sleep_queue k) (x # xs)" and "distinct (x # xs)"
    and "new \<notin> set (x # xs)" and "new \<noteq> NULL" and "later_than (wnodes k) n x"
  shows "\<exists>k'. sq_insert k new n = Some k' \<and> sq_list (wnodes k') (sleep_queue k')
    (takeWhile (later_than (wnodes k) n) (x # xs) @ new # dropWhile (later_than (wnodes k) n) (x # xs))"
proof -
  let ?L = "later_than (wnodes k) n"
  obtain us v where us: "takeWhile ?L (x # xs) = us @ [v]"
    using assms(5) by (cases "takeWhile ?L (x # xs)" rule: rev_cases) auto
  then have all: "x # xs = us @ v # dropWhile ?L (x # xs)"
    by (metis append.assoc append_Cons append_Nil takeWhile_dropWhile_id)
  then have "v \<in> set (x # xs)" by (metis in_set_conv_decomp)
  then obtain m where m: "wnodes k v = Some m" using sq_list_nonnull [OF assms(1)] by blast
  have nn: "sleep_queue k \<noteq> NULL" using assms(1) by auto
  have "sq_position (wnodes k) (seconds n) (microseconds n) (sleep_queue k) (sleep_queue k) =
      Some (v, head_of (dropWhile ?L (x # xs)))"
    using sq_position_list [OF assms(1), of n "sleep_queue k"] us by simp
  then have "sq_insert k new n = Some (k\<lparr>wnodes := (wnodes k)(v \<mapsto> m\<lparr>wnext := new\<rparr>,
      new \<mapsto> n\<lparr>wnext := head_of (dropWhile ?L (x # xs))\<rparr>)\<rparr>)"
    using nn m by (simp add: sq_insert_def)
  moreover have "sq_list ((wnodes k)(v \<mapsto> m\<lparr>wnext := new\<rparr>, new \<mapsto> n\<lparr>wnext := head_of (dropWhile ?L (x # xs))\<rparr>))
      (sleep_queue k) (us @ v # new # dropWhile ?L (x # xs))"
    by (rule sq_link_in) (use assms(1-4) all m in metis)+
  ultimately show ?thesis unfolding us by simp
qed

lemma sq_insert_before_head:
  assumes "sq_list (wnodes k) (sleep_queue k) (x # xs)" and "new \<noteq> x" and "new \<noteq> NULL"
    and "\<not> later_than (wnodes k) n x"
  shows "\<exists>k'. sq_insert k new n = Some k' \<and>
    (\<forall>t. t \<noteq> x \<and> t \<noteq> new \<longrightarrow> sq_find (wnodes k') t (sleep_queue k') (sleep_queue k') = None)"
proof -
  obtain m where x: "sleep_queue k = x" "x \<noteq> NULL" "wnodes k x = Some m" using assms(1) by (auto split: option.split_asm)
  have "sq_position (wnodes k) (seconds n) (microseconds n) (sleep_queue k) (sleep_queue k) = Some (x, x)"
    using sq_position_list [OF assms(1), of n "sleep_queue k"] assms(4) x by simp
  then have i: "sq_insert k new n = Some (k\<lparr>wnodes := (wnodes k)(x \<mapsto> m\<lparr>wnext := new\<rparr>, new \<mapsto> n\<lparr>wnext := x\<rparr>)\<rparr>)"
    using x by (simp add: sq_insert_def)
  have "sq_find ((wnodes k)(x \<mapsto> m\<lparr>wnext := new\<rparr>, new \<mapsto> n\<lparr>wnext := x\<rparr>)) t x x = None"
    if "t \<noteq> x" "t \<noteq> new" for t
    by (rule sq_find_cycle [of _ x "m\<lparr>wnext := new\<rparr>" new "n\<lparr>wnext := x\<rparr>"]) (use assms x that in auto)
  with i x(1) show ?thesis by simp
qed

section \<open>Properties\<close>

text \<open>
  a process that calls \<open>k_proc_process_sleep\<close> for \<open>u\<close> microseconds at time \<open>t\<close>, when nobody else
  sleeps, stays asleep at every timer tick before \<open>t + u\<close> and at the first one from \<open>t + u\<close> on is
  put at the end of the ready queue, running, without the interrupted mark; the invariant holds
  throughout.
\<close>

theorem timed_sleep_wakes_on_time:
  assumes "sched_inv k" and "sleep_queue k = NULL" and "wnodes k new = None" and "new \<noteq> NULL"
    and "block_node (procs k p) = Some []" and "wait_node (procs k p) = NULL" and "timeout_node (procs k p) = NULL"
    and "unat t + unat u < 2 ^ 64"
  shows "\<exists>k1. timed_sleep_prepare k p t u new = Some k1 \<and> sched_inv k1 \<and>
    pstate (procs k1 p) = PROCESS_STATE_SLEEPING \<and>
    (\<forall>t'. unat t' < unat t + unat u \<longrightarrow> k_proc_process_update_timings k1 t' = Some k1) \<and>
    (\<forall>t'. unat t + unat u \<le> unat t' \<longrightarrow> (\<exists>k2. k_proc_process_update_timings k1 t' = Some k2 \<and> sched_inv k2 \<and>
       ready_queue k2 = ready_queue k @ [p] \<and> pstate (procs k2 p) = PROCESS_STATE_RUNNING \<and>
       flags (procs k2 p) = flags (procs k p) \<and> wait_node (procs k2 p) = NULL))"
proof -
  obtain xs where ok: "links_ok k" "timers_ok k xs" using assms(1) by (auto simp: sched_inv_def)
  have "xs = []" using timers_ok_list [OF ok(2)] assms(2) by (cases xs) auto
  with ok have t0: "timers_ok k []" by simp
  obtain s m where d: "deadline t (u div 1000000) (u mod 1000000) = (s, m)" by fastforce
  let ?n = "\<lparr>wn_process = p, seconds = s, microseconds = m, wnext = NULL\<rparr>"
  let ?P = "(procs k p)\<lparr>wait_node := new, pstate := PROCESS_STATE_SLEEPING\<rparr>"
  let ?k = "k\<lparr>procs := (procs k)(p := ?P), sleep_queue := new, wnodes := (wnodes k)(new \<mapsto> ?n)\<rparr>"
  have prep: "timed_sleep_prepare k p t u new = Some ?k"
    using assms(2) d by (simp add: timed_sleep_prepare_def sq_insert_def upd_proc_def)
  have l: "links_ok ?k" using ok(1) by (subst links_ok_cong) auto
  have ti: "timers_ok ?k [new]" by (rule timers_ok_push [OF t0 assms(3,4,6,7)]) (use assms(5,7) in auto)
  have due: "node_due ?n (t' div 1000000) (t' mod 1000000) \<longleftrightarrow> unat t + unat u \<le> unat t'" for t'
    by (rule deadline_due) (use assms(8) d in auto)
  have early: "k_proc_process_update_timings ?k t' = Some ?k" if "unat t' < unat t + unat u" for t'
    using that due [of t'] assms(4) by (simp add: k_proc_process_update_timings_def wakeup_timing.simps [of ?k])
  have late: "\<exists>k2. k_proc_process_update_timings ?k t' = Some k2 \<and> sched_inv k2 \<and>
       ready_queue k2 = ready_queue k @ [p] \<and> pstate (procs k2 p) = PROCESS_STATE_RUNNING \<and>
       flags (procs k2 p) = flags (procs k p) \<and> wait_node (procs k2 p) = NULL" if "unat t + unat u \<le> unat t'" for t'
    using wakeup_timing_alone [OF l ti, of ?n "t' div 1000000" "t' mod 1000000"] that due [of t'] assms(5,7)
    by (auto simp: k_proc_process_update_timings_def sched_inv_def ready_proc_def locked_def)
  show ?thesis
    by (rule exI [of _ ?k]) (use prep l ti early late in \<open>auto simp: sched_inv_def\<close>)
qed

theorem timed_sleep_wakes_on_time_witness:
  "\<exists>k1. timed_sleep_prepare blank_kernel 7 999999 2000001 64 = Some k1 \<and>
     k_proc_process_update_timings k1 2999999 = Some k1 \<and>
     (\<exists>k2. k_proc_process_update_timings k1 3000000 = Some k2 \<and> ready_queue k2 = [7])"
proof -
  have b: "sleep_queue blank_kernel = NULL" "wnodes blank_kernel 64 = None" "(64 :: ptr) \<noteq> NULL"
    "block_node (procs blank_kernel 7) = Some []" "wait_node (procs blank_kernel 7) = NULL"
    "timeout_node (procs blank_kernel 7) = NULL" "ready_queue blank_kernel = []"
    "unat (999999 :: u64) + unat (2000001 :: u64) < 2 ^ 64"
    by (simp_all add: blank_kernel_def blank_process_def)
  have lt: "unat (2999999 :: u64) < unat (999999 :: u64) + unat (2000001 :: u64)"
    "unat (999999 :: u64) + unat (2000001 :: u64) \<le> unat (3000000 :: u64)" by simp_all
  obtain k1 where k1: "timed_sleep_prepare blank_kernel 7 999999 2000001 64 = Some k1"
    "\<forall>t'. unat t' < unat (999999 :: u64) + unat (2000001 :: u64) \<longrightarrow> k_proc_process_update_timings k1 t' = Some k1"
    "\<forall>t'. unat (999999 :: u64) + unat (2000001 :: u64) \<le> unat t' \<longrightarrow>
       (\<exists>k2. k_proc_process_update_timings k1 t' = Some k2 \<and> ready_queue k2 = ready_queue blank_kernel @ [7])"
    using timed_sleep_wakes_on_time [OF blank_kernel_inv b(1-6,8)] by blast
  show ?thesis using k1(1) mp [OF spec [OF k1(2)] lt(1)] mp [OF spec [OF k1(3)] lt(2)] b(7) by auto
qed

text \<open>
  The insertion into the queue of sleeping processes, case by case. Into an empty queue it puts
  the new node alone. When the head of the queue is due later than the new node, the new node is
  linked in behind the leading nodes that are due later, so the queue keeps all its nodes and is
  in descending order, whereas the timer looks for due nodes from the head. When the head is not
  due later, the head and the new node are linked to each other: the rest of the queue is lost and
  a search for any other node never ends.
\<close>

theorem sleep_queue_insertion:
  assumes "sched_inv k" and "wnodes k new = None" and "new \<noteq> NULL"
  shows "\<exists>k'. sq_insert k new n = Some k' \<and> (\<exists>xs. sq_list (wnodes k) (sleep_queue k) xs \<and>
    (xs = [] \<longrightarrow> sq_list (wnodes k') (sleep_queue k') [new]) \<and>
    (xs \<noteq> [] \<and> later_than (wnodes k) n (hd xs) \<longrightarrow> sq_list (wnodes k') (sleep_queue k')
       (takeWhile (later_than (wnodes k) n) xs @ new # dropWhile (later_than (wnodes k) n) xs)) \<and>
    (xs \<noteq> [] \<and> \<not> later_than (wnodes k) n (hd xs) \<longrightarrow>
       (\<forall>t. t \<noteq> hd xs \<and> t \<noteq> new \<longrightarrow> sq_find (wnodes k') t (sleep_queue k') (sleep_queue k') = None)))"
proof -
  obtain xs where ok: "timers_ok k xs" using assms(1) by (auto simp: sched_inv_def)
  note l = timers_ok_list [OF ok]
  have new: "new \<notin> set xs" using sq_list_nonnull [OF l] assms(2) by blast
  have "\<exists>k'. sq_insert k new n = Some k' \<and>
    (xs = [] \<longrightarrow> sq_list (wnodes k') (sleep_queue k') [new]) \<and>
    (xs \<noteq> [] \<and> later_than (wnodes k) n (hd xs) \<longrightarrow> sq_list (wnodes k') (sleep_queue k')
       (takeWhile (later_than (wnodes k) n) xs @ new # dropWhile (later_than (wnodes k) n) xs)) \<and>
    (xs \<noteq> [] \<and> \<not> later_than (wnodes k) n (hd xs) \<longrightarrow>
       (\<forall>t. t \<noteq> hd xs \<and> t \<noteq> new \<longrightarrow> sq_find (wnodes k') t (sleep_queue k') (sleep_queue k') = None))"
  proof (cases xs)
    case Nil
    then show ?thesis using l sq_insert_empty [of k new n] assms(3) by auto
  next
    case (Cons x ys)
    have xs: "sq_list (wnodes k) (sleep_queue k) (x # ys)" "distinct (x # ys)" "new \<notin> set (x # ys)" "new \<noteq> x"
      using l new Cons timers_ok_distinct [OF ok] by auto
    show ?thesis
    proof (cases "later_than (wnodes k) n x")
      case True
      from sq_insert_behind_later [OF xs(1-3) assms(3) True] Cons True show ?thesis by auto
    next
      case False
      from sq_insert_before_head [OF xs(1,4) assms(3) False] Cons False show ?thesis by auto
    qed
  qed
  with l show ?thesis by blast
qed

text \<open>A queue holding the node 64, due at second 5, of process 7.\<close>

definition one_timer :: kernel where
  "one_timer = blank_kernel\<lparr>procs := (procs blank_kernel)(7 := blank_process\<lparr>wait_node := 64, pstate := 3\<rparr>),
     sleep_queue := 64, wnodes := (\<lambda>_. None)(64 \<mapsto> \<lparr>wn_process = 7, seconds = 5, microseconds = 0, wnext = 0\<rparr>)\<rparr>"

theorem sleep_queue_insertion_witness:
  "sched_inv one_timer \<and>
   (\<exists>k'. sq_insert one_timer 128 \<lparr>wn_process = 8, seconds = 9, microseconds = 0, wnext = 0\<rparr> = Some k' \<and>
      sq_find (wnodes k') 256 (sleep_queue k') (sleep_queue k') = None)"
proof -
  have "timers_ok one_timer [64]"
    by (auto simp: timers_ok_def holds_node_def one_timer_def blank_kernel_def blank_process_def split: if_split_asm)
  moreover have "links_ok one_timer" by (simp add: links_ok_def one_timer_def blank_kernel_def blank_process_def)
  ultimately have inv: "sched_inv one_timer" by (auto simp: sched_inv_def)
  have f: "wnodes one_timer 128 = None" "(128 :: ptr) \<noteq> NULL" by (simp_all add: one_timer_def)
  have hd: "sq_list (wnodes one_timer) (sleep_queue one_timer) xs \<Longrightarrow> xs = [64]" for xs
    by (cases xs) (auto simp: one_timer_def neq_Nil_conv split: list.splits, metis sq_list.elims(1) sq_list.simps(2))
  have nl: "\<not> later_than (wnodes one_timer) \<lparr>wn_process = 8, seconds = 9, microseconds = 0, wnext = 0\<rparr> 64"
    by (simp add: later_than_def one_timer_def node_later_def)
  show ?thesis
    using sleep_queue_insertion [OF inv f, of "\<lparr>wn_process = 8, seconds = 9, microseconds = 0, wnext = 0\<rparr>"] hd nl inv
    by fastforce
qed

end
