(* ===== verification/Signals.thy ===== *)
theory Signals
  imports Sched_Inv
begin

text \<open>
  Signals, from \<^verbatim>\<open>kernel/src/proc/process.c\<close>: posting a signal, choosing the action for the pending
  ones on the way back to user mode, building the frame of a handler on the user stack and undoing
  it when the handler returns to the address \<open>0xDEADBEEF\<close>. User memory is a map from byte
  addresses to the 32 bit words stored there; all accesses below are multiples of four bytes apart.
  Ending the process and entering user mode do not return to the caller: they are results of their
  own.
\<close>

section \<open>Operations\<close>

abbreviation (input) MAX_SIGNAL :: int where "MAX_SIGNAL \<equiv> 64"
abbreviation (input) ERESTARTSYS :: u32 where "ERESTARTSYS \<equiv> 512"

text \<open>
  \<open>(1 << sig)\<close> is computed in a 32 bit \<open>int\<close>, whose shift takes the count modulo 32 on this
  processor, and sign extended to the 64 bits of the sets.
\<close>

definition sig_bit :: "nat \<Rightarrow> u64" where
  "sig_bit sig = scast (push_bit (sig mod 32) 1 :: u32)"

definition IS_SIGNAL_IGNORED :: "process \<Rightarrow> nat \<Rightarrow> bool" where
  "IS_SIGNAL_IGNORED p sig \<longleftrightarrow> signals_ignored p AND sig_bit sig \<noteq> 0"

text \<open>
  The array \<open>sig_defaults\<close> has the 20 entries 0 to \<open>SIGSTOP\<close>; reading past it is \<open>None\<close>. The entry of
  \<open>SIGSTOP\<close> is initialised with \<open>SIGSTOP\<close> itself (19).
\<close>

definition sig_defaults :: "nat \<Rightarrow> u8 option" where
  "sig_defaults sig =
     (if sig \<ge> 20 then None
      else if sig = 19 then Some 19
      else if sig \<in> {2, 3, 6, 9, 10, 11, 12} then Some 1
      else Some 0)"

definition k_proc_process_wakeup_on_signal :: "kernel \<Rightarrow> ptr \<Rightarrow> kernel option" where
  "k_proc_process_wakeup_on_signal k p =
     (if p \<noteq> current_process k \<and> \<not> k_proc_process_is_ready k p then k_proc_process_mark_ready k p else Some k)"

definition k_proc_process_send_signal :: "kernel \<Rightarrow> ptr \<Rightarrow> int \<Rightarrow> kernel option" where
  "k_proc_process_send_signal k p sig =
     (if sig < 0 \<or> sig \<ge> MAX_SIGNAL then Some k
      else k_proc_process_wakeup_on_signal
        (upd_proc k p (\<lambda>x. x\<lparr>signal_queue := signal_queue x OR sig_bit (nat sig)\<rparr>)) p)"

definition ctx_words :: "interrupt_context \<Rightarrow> u32 list" where
  "ctx_words c = [edi c, esi c, ebp c, unused_reg c, ebx c, edx c, ecx c, eax c, int_no c, err_code c,
     eip c, cs_reg c, eflags c, esp c, ss_reg c]"

fun write_words :: "(u32 \<Rightarrow> u32) \<Rightarrow> u32 \<Rightarrow> u32 list \<Rightarrow> u32 \<Rightarrow> u32" where
  "write_words m a [] = m"
| "write_words m a (w # ws) = write_words (m(a := w)) (a + 4) ws"

text \<open>\<open>PUSH(sp, type, value)\<close> for a value of the given words.\<close>

definition PUSH :: "u32 \<times> (u32 \<Rightarrow> u32) \<Rightarrow> u32 list \<Rightarrow> u32 \<times> (u32 \<Rightarrow> u32)" where
  "PUSH s ws = (let sp = fst s - 4 * of_nat (length ws) in (sp, write_words (snd s) sp ws))"

datatype sig_result =
    Returned kernel bool
  | Exited kernel u32
  | Entered kernel "u32 \<Rightarrow> u32" u32 u32

definition handle_signal :: "kernel \<Rightarrow> (u32 \<Rightarrow> u32) \<Rightarrow> ptr \<Rightarrow> nat \<Rightarrow> interrupt_context \<Rightarrow> sig_result option" where
  "handle_signal k m p sig ctx =
     (if int sig \<ge> MAX_SIGNAL then Some (Returned k True)
      else if IS_SIGNAL_IGNORED (procs k p) sig then Some (Returned k True)
      else let cfg = signals (procs k p) sig in
        if handler cfg = NULL
        then do {
          def \<leftarrow> sig_defaults sig;
          if def = 1 then Some (Exited k (push_bit 4 (128 + of_nat sig) OR of_nat sig))
          else if def = 2
          then do {
            let k1 = upd_proc k p (pstate_update (\<lambda>_. PROCESS_STATE_SLEEPING));
            let par = parent (procs k1 p);
            k2 \<leftarrow> (if par \<noteq> NULL then k_proc_process_wakeup_queue k1 (wait_queue (procs k1 par)) else Some k1);
            Some (Returned k2 True) }
          else Some (Returned k (signal_queue (procs k p) = 0)) }
        else
          let (sp, m') = PUSH (PUSH (PUSH (esp ctx, m) (ctx_words ctx)) [of_nat sig]) [0xDEADBEEF]
          in Some (Entered k m' (handler cfg) sp))"

text \<open>The loop over the signal numbers; \<open>is\<close> are those still to visit.\<close>

fun signal_loop :: "kernel \<Rightarrow> (u32 \<Rightarrow> u32) \<Rightarrow> ptr \<Rightarrow> interrupt_context \<Rightarrow> nat list \<Rightarrow> sig_result option" where
  "signal_loop k m p ctx [] = Some (Returned k True)"
| "signal_loop k m p ctx (i # is) =
     (if signal_queue (procs k p) AND sig_bit i \<noteq> 0
      then do {
        r \<leftarrow> handle_signal (upd_proc k p (\<lambda>x. x\<lparr>signal_queue := signal_queue x AND NOT (sig_bit i)\<rparr>)) m p i ctx;
        case r of
          Returned k' stop \<Rightarrow> if stop then Some (Returned k' True) else signal_loop k' m p ctx is
        | r \<Rightarrow> Some r }
      else signal_loop k m p ctx is)"

definition k_proc_process_process_signals ::
  "kernel \<Rightarrow> (u32 \<Rightarrow> u32) \<Rightarrow> ptr \<Rightarrow> interrupt_context \<Rightarrow> sig_result option" where
  "k_proc_process_process_signals k m p ctx =
     (if signal_queue (procs k p) = 0 then Some (Returned k True) else signal_loop k m p ctx [0..<64])"

text \<open>
  The context restored from the frame at the stack pointer: \<open>unused\<close>, the interrupt number, the
  error code, the segments and the flags of the returning context are kept.
\<close>

definition restore_ctx :: "(u32 \<Rightarrow> u32) \<Rightarrow> interrupt_context \<Rightarrow> interrupt_context" where
  "restore_ctx m ctx =
     (let a = esp ctx + 4 in
      ctx\<lparr>eip := m (a + 40), esp := m (a + 52), ebp := m (a + 8), eax := m (a + 28), ebx := m (a + 16),
          ecx := m (a + 24), edx := m (a + 20), edi := m a, esi := m (a + 4)\<rparr>)"

text \<open>
  \<open>__k_proc_process_try_restart_syscalls\<close>: the flag of the result says that the dispatcher runs
  again on the context.
\<close>

definition try_restart_syscalls ::
  "kernel \<Rightarrow> ptr \<Rightarrow> u32 \<Rightarrow> interrupt_context \<Rightarrow> bool \<times> kernel \<times> interrupt_context" where
  "try_restart_syscalls k p sig ctx =
     (if sint sig < 0 \<or> sint sig \<ge> 255 then (False, k, ctx)
      else let x = procs k p in
        if interrupted_syscall x \<noteq> 0 \<and> eax ctx = - ERESTARTSYS
        then let k' = upd_proc k p (interrupted_syscall_update (\<lambda>_. 0)) in
          if sig_flags (signals x (unat sig)) AND 32 \<noteq> 0
          then (True, k', ctx\<lparr>eax := interrupted_syscall x\<rparr>)
          else (False, k', ctx\<lparr>eax := - EINTR\<rparr>)
        else (False, k, ctx))"

datatype return_result =
    Resumed bool kernel interrupt_context
  | Diverted sig_result

definition k_proc_process_return_from_signal ::
  "kernel \<Rightarrow> (u32 \<Rightarrow> u32) \<Rightarrow> interrupt_context \<Rightarrow> return_result option" where
  "k_proc_process_return_from_signal k m ctx =
     (let p = current_process k; sig = m (esp ctx); ctx1 = restore_ctx m ctx in
      do {
        r \<leftarrow> (if signal_queue (procs k p) \<noteq> 0 then k_proc_process_process_signals k m p ctx1 else Some (Returned k True));
        case r of
          Returned k1 _ \<Rightarrow> (case try_restart_syscalls k1 p sig ctx1 of (again, k2, ctx2) \<Rightarrow> Some (Resumed again k2 ctx2))
        | r \<Rightarrow> Some (Diverted r) })"

section \<open>Signal sets\<close>

lemma sig_bit_eq: "sig < 31 \<Longrightarrow> sig_bit sig = push_bit sig 1"
  by (rule bit_eqI) (auto simp: sig_bit_def bit_simps)

lemma sig_bit_bit: "sig < 31 \<Longrightarrow> bit (sig_bit sig) n \<longleftrightarrow> n = sig"
  by (auto simp: sig_bit_eq bit_simps)

lemma sig_bit_test: "sig < 31 \<Longrightarrow> (s AND sig_bit sig \<noteq> 0) = bit s sig"
proof -
  assume "sig < 31"
  then have "bit (s AND sig_bit sig) n \<longleftrightarrow> n = sig \<and> bit s sig" for n by (auto simp: bit_and_iff sig_bit_bit)
  then show ?thesis by (metis bit_0_eq bot_apply bot_bool_def bit_eq_iff)
qed

section \<open>The handler frame\<close>

lemma write_words_out: "(\<And>j. j < length ws \<Longrightarrow> x \<noteq> a + 4 * of_nat j) \<Longrightarrow> write_words m a ws x = m x"
proof (induction ws arbitrary: m a)
  case (Cons w ws)
  have "x \<noteq> a + 4 + 4 * of_nat j" if "j < length ws" for j
    using Cons(2) [of "Suc j"] that by (simp add: algebra_simps)
  then have "write_words (m(a := w)) (a + 4) ws x = (m(a := w)) x" by (rule Cons(1))
  moreover have "x \<noteq> a" using Cons(2) [of 0] by simp
  ultimately show ?case by simp
qed simp

lemma offsets_differ:
  assumes "i < 2 ^ 30" "j < 2 ^ 30" "(4 :: u32) * of_nat i = 4 * of_nat j"
  shows "i = j"
proof -
  have "(of_nat (4 * i) :: u32) = of_nat (4 * j)" using assms(3) by simp
  then have "take_bit 32 (4 * i) = take_bit 32 (4 * j)" by (simp only: word_of_nat_eq_iff) simp
  moreover have "4 * i < 2 ^ 32" "4 * j < 2 ^ 32" using assms(1,2) by simp_all
  ultimately have "4 * i = 4 * j" by (simp only: take_bit_nat_eq_self)
  then show ?thesis by simp
qed

lemma write_words_at:
  "j < length ws \<Longrightarrow> length ws < 2 ^ 30 \<Longrightarrow> write_words m a ws (a + 4 * of_nat j) = ws ! j"
proof (induction ws arbitrary: m a j)
  case (Cons w ws)
  show ?case
  proof (cases j)
    case 0
    have "a \<noteq> a + 4 + 4 * of_nat i" if "i < length ws" for i
      using offsets_differ [of 0 "Suc i"] that Cons(3) by (auto simp: algebra_simps)
    then have "write_words (m(a := w)) (a + 4) ws a = (m(a := w)) a" by (rule write_words_out)
    then show ?thesis using 0 by simp
  next
    case (Suc i)
    have "write_words (m(a := w)) (a + 4) ws (a + 4 + 4 * of_nat i) = ws ! i"
      by (rule Cons(1)) (use Cons(2,3) Suc in simp_all)
    moreover have "a + 4 * of_nat (Suc i) = a + 4 + 4 * of_nat i" by (simp add: algebra_simps)
    ultimately show ?thesis by (simp only: Suc write_words.simps nth_Cons_Suc)
  qed
qed simp

definition frame_at :: "(u32 \<Rightarrow> u32) \<Rightarrow> u32 \<Rightarrow> nat \<Rightarrow> interrupt_context \<Rightarrow> bool" where
  "frame_at m sp sig ctx \<longleftrightarrow> m sp = 0xDEADBEEF \<and> m (sp + 4) = of_nat sig \<and>
     (\<forall>j < 15. m (sp + 8 + 4 * of_nat j) = ctx_words ctx ! j)"

lemma length_ctx_words [simp]: "length (ctx_words c) = 15"
  by (simp add: ctx_words_def)

lemma frame_pushed:
  assumes "(sp, m') = PUSH (PUSH (PUSH (esp ctx, m) (ctx_words ctx)) [of_nat sig]) [0xDEADBEEF]"
  shows "sp = esp ctx - 68 \<and> frame_at m' sp sig ctx \<and> (\<forall>a. (\<forall>j < 17. a \<noteq> sp + 4 * of_nat j) \<longrightarrow> m' a = m a)"
proof -
  have 0: "sp = esp ctx - 60 - 4 - 4"
    "m' = (write_words m (esp ctx - 60) (ctx_words ctx))(esp ctx - 60 - 4 := of_nat sig, esp ctx - 60 - 4 - 4 := 0xDEADBEEF)"
    using assms by (simp_all add: PUSH_def Let_def)
  have "esp ctx - 60 = sp + 8" "esp ctx - 60 - 4 = sp + 4" "esp ctx - 60 - 4 - 4 = sp" unfolding 0(1) by simp_all
  then have m': "m' = (write_words m (sp + 8) (ctx_words ctx))(sp + 4 := of_nat sig, sp := 0xDEADBEEF)"
    using 0(2) by (simp only:)
  have sp: "sp = esp ctx - 68" unfolding 0(1) by simp
  have ne: "sp + 8 + 4 * of_nat j \<noteq> sp + 4" "sp + 8 + 4 * of_nat j \<noteq> sp" if "j < 15" for j
    using offsets_differ [of "j + 2" 1] offsets_differ [of "j + 2" 0] that by (auto simp: algebra_simps)
  have "m' (sp + 8 + 4 * of_nat j) = ctx_words ctx ! j" if "j < 15" for j
    using that ne [OF that] write_words_at [of j "ctx_words ctx" m "sp + 8"] by (simp add: m')
  moreover have "m' a = m a" if "\<forall>j < 17. a \<noteq> sp + 4 * of_nat j" for a
  proof -
    have "a \<noteq> sp + 8 + 4 * of_nat j" if "j < length (ctx_words ctx)" for j
      using \<open>\<forall>j < 17. _\<close> [rule_format, of "j + 2"] that by (simp add: algebra_simps)
    then have "write_words m (sp + 8) (ctx_words ctx) a = m a" by (rule write_words_out)
    then show ?thesis using that [rule_format, of 0] that [rule_format, of 1] by (simp add: m')
  qed
  ultimately show ?thesis using sp by (simp add: frame_at_def m')
qed

lemma restore_frame:
  assumes "frame_at m sp sig c" and "esp ctx = sp + 4"
  shows "restore_ctx m ctx = ctx\<lparr>eip := eip c, esp := esp c, ebp := ebp c, eax := eax c, ebx := ebx c,
     ecx := ecx c, edx := edx c, edi := edi c, esi := esi c\<rparr>"
proof -
  have w: "m (sp + 8 + 4 * of_nat j) = ctx_words c ! j" if "j < 15" for j
    using assms(1) that by (simp add: frame_at_def)
  show ?thesis
    using w [of 0] w [of 1] w [of 2] w [of 4] w [of 5] w [of 6] w [of 7] w [of 10] w [of 13] assms(2)
    by (simp add: restore_ctx_def ctx_words_def Let_def algebra_simps)
qed

section \<open>Delivery\<close>

lemma signal_loop_skip:
  "(\<And>j. j \<in> set js \<Longrightarrow> j < 31 \<and> \<not> bit (signal_queue (procs k p)) j) \<Longrightarrow>
     signal_loop k m p ctx (js @ is) = signal_loop k m p ctx is"
  by (induction js) (auto simp: sig_bit_test)

lemma process_signals_lowest:
  assumes "bit (signal_queue (procs k p)) i" and "i < 31" and "\<And>j. j < i \<Longrightarrow> \<not> bit (signal_queue (procs k p)) j"
  shows "k_proc_process_process_signals k m p ctx = signal_loop k m p ctx (i # [Suc i..<64])"
proof -
  have "[0..<64] = [0..<i] @ i # [Suc i..<64]"
    using assms(2) upt_add_eq_append [of 0 i "64 - i"] by (simp add: upt_conv_Cons)
  moreover have "signal_loop k m p ctx ([0..<i] @ i # [Suc i..<64]) = signal_loop k m p ctx (i # [Suc i..<64])"
    using assms(2,3) by (intro signal_loop_skip) auto
  moreover have "signal_queue (procs k p) \<noteq> 0" using assms(1) by auto
  ultimately show ?thesis by (simp only: k_proc_process_process_signals_def if_False)
qed

section \<open>Properties\<close>

definition posted :: "nat \<Rightarrow> process \<Rightarrow> process" where
  "posted sig P = P\<lparr>signal_queue := signal_queue P OR sig_bit sig\<rparr>"

lemma posted_sel [simp]:
  "pstate (posted sig P) = pstate P" "block_node (posted sig P) = block_node P" "wait_node (posted sig P) = wait_node P"
  "timeout_node (posted sig P) = timeout_node P" "flags (posted sig P) = flags P"
  "locked (posted sig P) = locked P" "PROCESS_IS_SCHEDULABLE (posted sig P) = PROCESS_IS_SCHEDULABLE P"
  by (simp_all add: posted_def locked_def PROCESS_IS_SCHEDULABLE_def)

lemma send_signal_eq:
  "0 \<le> sig \<Longrightarrow> sig < 64 \<Longrightarrow> k_proc_process_send_signal k p sig =
     (let k1 = k\<lparr>procs := (procs k)(p := posted (nat sig) (procs k p))\<rparr> in
      if p \<noteq> current_process k \<and> \<not> PROCESS_IS_SCHEDULABLE (procs k p) then k_proc_process_mark_ready k1 p else Some k1)"
  by (simp add: k_proc_process_send_signal_def k_proc_process_wakeup_on_signal_def k_proc_process_is_ready_def
      upd_proc_def posted_def Let_def PROCESS_IS_SCHEDULABLE_def)

lemma send_signal_ok:
  assumes "sched_inv k" and "block_node (procs k p) \<noteq> None" and "0 \<le> sig" and "sig < 64"
    and "runs \<longleftrightarrow> p = current_process k \<or> PROCESS_IS_SCHEDULABLE (procs k p)"
  obtains k' where "k_proc_process_send_signal k p sig = Some k'" "sched_inv k'" "same_rest k k'"
    "procs k' = (procs k)(p := (if runs then posted (nat sig) (procs k p) else ready_proc (posted (nat sig) (procs k p))))"
    "queues k' = (if runs then queues k else (\<lambda>q. removeAll p (queues k q)))"
    "ready_queue k' = (if runs then ready_queue k else ready_queue k @ [p])"
proof -
  obtain xs os where ok: "links_ok k" "timers_ok k xs" "block_node (procs k p) = Some os"
    using assms(1,2) by (auto simp: sched_inv_def)
  let ?k1 = "k\<lparr>procs := (procs k)(p := posted (nat sig) (procs k p))\<rparr>"
  have l: "links_ok ?k1" using ok(1) by (subst links_ok_cong) auto
  have t: "timers_ok ?k1 xs"
    by (rule timers_ok_proc [OF ok(2)]) (use timers_ok_held [OF ok(2), of p] in \<open>auto simp: holds_node_def\<close>)
  note eq = send_signal_eq [of sig k p, unfolded Let_def]
  show ?thesis
  proof (cases runs)
    case True
    have i: "sched_inv ?k1" using l t by (auto simp: sched_inv_def)
    show ?thesis
      by (rule that [of ?k1]) (use eq assms(3-5) True i in \<open>auto simp: same_rest_def\<close>)
  next
    case False
    have b: "block_node (procs ?k1 p) = Some os" using ok(3) by simp
    let ?k2 = "\<lambda>sq w. ?k1\<lparr>procs := (procs ?k1)(p := ready_proc (procs ?k1 p)),
      queues := (\<lambda>q. removeAll p (queues ?k1 q)), sleep_queue := sq, wnodes := w, ready_queue := ready_queue ?k1 @ [p]\<rparr>"
    obtain sq w where m: "k_proc_process_mark_ready ?k1 p = Some (?k2 sq w)" "links_ok (?k2 sq w)"
      "timers_ok (?k2 sq w) (remove1 (timeout_node (procs ?k1 p)) (remove1 (wait_node (procs ?k1 p)) xs))"
      by (rule mark_ready_ok [OF l t b])
    have s: "k_proc_process_send_signal k p sig = Some (?k2 sq w)" using eq assms(3-5) False m(1) by simp
    have i: "sched_inv (?k2 sq w)" using m(2,3) by (auto simp: sched_inv_def)
    show ?thesis by (rule that [OF s i]) (use False in \<open>simp_all add: same_rest_def\<close>)
  qed
qed

text \<open>
  C30: a signal number outside the range is dropped. A signal from 0 to 30 is added to the pending
  set of the process and to nothing else; if the process is current or can run already, nothing
  more happens; if it sleeps, it leaves every wait queue and timer, becomes ready, last in the
  ready queue, and is marked interrupted if it was waiting for anything. The invariant is kept.
\<close>

theorem send_signal_posts_and_wakes:
  assumes "sched_inv k" and "block_node (procs k p) \<noteq> None" and "0 \<le> sig" and "sig < 31"
  shows "(\<forall>s. s < 0 \<or> s \<ge> 64 \<longrightarrow> k_proc_process_send_signal k p s = Some k) \<and>
    (\<exists>k'. k_proc_process_send_signal k p sig = Some k' \<and> sched_inv k' \<and>
       (\<forall>n. bit (signal_queue (procs k' p)) n \<longleftrightarrow> bit (signal_queue (procs k p)) n \<or> n = nat sig) \<and>
       (\<forall>p'. p' \<noteq> p \<longrightarrow> procs k' p' = procs k p') \<and>
       (if p = current_process k \<or> PROCESS_IS_SCHEDULABLE (procs k p)
        then ready_queue k' = ready_queue k \<and> queues k' = queues k \<and> pstate (procs k' p) = pstate (procs k p)
        else ready_queue k' = ready_queue k @ [p] \<and> (\<forall>q. p \<notin> set (queues k' q)) \<and>
          pstate (procs k' p) = PROCESS_STATE_RUNNING \<and> wait_node (procs k' p) = NULL \<and> timeout_node (procs k' p) = NULL \<and>
          (locked (procs k p) \<longrightarrow> sleep_result k' p)))"
proof (intro conjI)
  show "\<forall>s. s < 0 \<or> s \<ge> 64 \<longrightarrow> k_proc_process_send_signal k p s = Some k"
    by (simp add: k_proc_process_send_signal_def)
  let ?runs = "p = current_process k \<or> PROCESS_IS_SCHEDULABLE (procs k p)"
  have "sig < 64" using assms(4) by simp
  then obtain k' where k': "k_proc_process_send_signal k p sig = Some k'" "sched_inv k'"
    "procs k' = (procs k)(p := (if ?runs then posted (nat sig) (procs k p) else ready_proc (posted (nat sig) (procs k p))))"
    "queues k' = (if ?runs then queues k else (\<lambda>q. removeAll p (queues k q)))"
    "ready_queue k' = (if ?runs then ready_queue k else ready_queue k @ [p])"
    using send_signal_ok [OF assms(1-3) _ refl] by metis
  have bits: "bit (signal_queue (posted (nat sig) P)) n \<longleftrightarrow> bit (signal_queue P) n \<or> n = nat sig" for P n
    using assms(3,4) sig_bit_bit [of "nat sig" n] by (simp add: posted_def bit_or_iff)
  have r: "signal_queue (ready_proc P) = signal_queue P" "pstate (ready_proc P) = PROCESS_STATE_RUNNING"
    "wait_node (ready_proc P) = NULL" "timeout_node (ready_proc P) = NULL"
    "locked P \<Longrightarrow> flags (ready_proc P) AND PROCESS_FLAG_INTERRUPTED \<noteq> 0" for P
    by (simp_all add: ready_proc_def mask_set)
  show "\<exists>k'. k_proc_process_send_signal k p sig = Some k' \<and> sched_inv k' \<and>
       (\<forall>n. bit (signal_queue (procs k' p)) n \<longleftrightarrow> bit (signal_queue (procs k p)) n \<or> n = nat sig) \<and>
       (\<forall>p'. p' \<noteq> p \<longrightarrow> procs k' p' = procs k p') \<and>
       (if ?runs
        then ready_queue k' = ready_queue k \<and> queues k' = queues k \<and> pstate (procs k' p) = pstate (procs k p)
        else ready_queue k' = ready_queue k @ [p] \<and> (\<forall>q. p \<notin> set (queues k' q)) \<and>
          pstate (procs k' p) = PROCESS_STATE_RUNNING \<and> wait_node (procs k' p) = NULL \<and> timeout_node (procs k' p) = NULL \<and>
          (locked (procs k p) \<longrightarrow> sleep_result k' p))"
    by (rule exI [of _ k'], cases ?runs) (use k' bits r in \<open>simp_all add: sleep_result_def\<close>)
qed

theorem send_signal_posts_and_wakes_witness:
  "\<exists>k'. k_proc_process_send_signal two_asleep 1 9 = Some k' \<and> ready_queue k' = [1] \<and> sleep_result k' 1 \<and>
     bit (signal_queue (procs k' 1)) 9"
proof -
  have b: "block_node (procs two_asleep 1) \<noteq> None" "locked (procs two_asleep 1)"
    "\<not> (1 = current_process two_asleep \<or> PROCESS_IS_SCHEDULABLE (procs two_asleep 1))" "ready_queue two_asleep = []"
    by (simp_all add: two_asleep_def sleeping_on_def blank_kernel_def blank_process_def locked_def PROCESS_IS_SCHEDULABLE_def)
  show ?thesis
    using send_signal_posts_and_wakes [OF two_asleep_inv b(1), of 9] b by auto
qed

text \<open>
  C31: on the way to user mode, when the lowest pending signal \<open>i\<close> is one from 0 to 30 and is not
  ignored, it is taken out of the pending set and delivered (no lower signal is pending, not even an
  ignored one, at which the loop of the code would stop). With a handler, the process enters the handler with the return address
  \<open>0xDEADBEEF\<close>, the signal number and the whole interrupted context below the user stack pointer,
  and no other word of its memory is changed; without one, the terminating signals end the process
  with the status \<open>((128 + i) << 4) | i\<close>.
\<close>

theorem lowest_signal_delivered:
  assumes "bit (signal_queue (procs k p)) i" and "i < 31" and "\<forall>j < i. \<not> bit (signal_queue (procs k p)) j"
    and "\<not> bit (signals_ignored (procs k p)) i"
    and "k' = upd_proc k p (\<lambda>x. x\<lparr>signal_queue := signal_queue x AND NOT (sig_bit i)\<rparr>)"
  shows "(\<forall>n. bit (signal_queue (procs k' p)) n \<longleftrightarrow> bit (signal_queue (procs k p)) n \<and> n \<noteq> i) \<and>
    (handler (signals (procs k p) i) \<noteq> NULL \<longrightarrow>
      (\<exists>m'. k_proc_process_process_signals k m p ctx = Some (Entered k' m' (handler (signals (procs k p) i)) (esp ctx - 68)) \<and>
         frame_at m' (esp ctx - 68) i ctx \<and>
         (\<forall>a. (\<forall>j < 17. a \<noteq> esp ctx - 68 + 4 * of_nat j) \<longrightarrow> m' a = m a))) \<and>
    (handler (signals (procs k p) i) = NULL \<and> i \<in> {2, 3, 6, 9, 10, 11, 12} \<longrightarrow>
      k_proc_process_process_signals k m p ctx = Some (Exited k' (push_bit 4 (128 + of_nat i) OR of_nat i)))"
proof -
  have lo: "k_proc_process_process_signals k m p ctx = signal_loop k m p ctx (i # [Suc i..<64])"
    by (rule process_signals_lowest) (use assms(1-3) in auto)
  have test: "signal_queue (procs k p) AND sig_bit i \<noteq> 0" using assms(1,2) sig_bit_test by blast
  have ign: "\<not> IS_SIGNAL_IGNORED (procs k' p) i"
    using assms(2,4) sig_bit_test [of i "signals_ignored (procs k p)"] by (simp add: IS_SIGNAL_IGNORED_def assms(5))
  have cfg: "signals (procs k' p) i = signals (procs k p) i" by (simp add: assms(5))
  have one: "signal_loop k m p ctx (i # is) = handle_signal k' m p i ctx \<bind> (\<lambda>r. case r of
      Returned k1 stop \<Rightarrow> if stop then Some (Returned k1 True) else signal_loop k1 m p ctx is | r \<Rightarrow> Some r)" for "is"
    using test by (simp add: assms(5) [symmetric])
  note run = lo [unfolded one]
  have bits: "\<forall>n. bit (signal_queue (procs k' p)) n \<longleftrightarrow> bit (signal_queue (procs k p)) n \<and> n \<noteq> i"
    using assms(2) bit_imp_le_length [of "signal_queue (procs k p)"]
    by (auto simp: assms(5) bit_simps sig_bit_bit)
  have enter: "\<exists>m'. k_proc_process_process_signals k m p ctx = Some (Entered k' m' (handler (signals (procs k p) i)) (esp ctx - 68)) \<and>
      frame_at m' (esp ctx - 68) i ctx \<and> (\<forall>a. (\<forall>j < 17. a \<noteq> esp ctx - 68 + 4 * of_nat j) \<longrightarrow> m' a = m a)"
    if h: "handler (signals (procs k p) i) \<noteq> NULL"
  proof -
    obtain sp m' where f: "(sp, m') = PUSH (PUSH (PUSH (esp ctx, m) (ctx_words ctx)) [of_nat i]) [0xDEADBEEF]"
      by (metis surj_pair)
    have "handle_signal k' m p i ctx = Some (Entered k' m' (handler (signals (procs k p) i)) sp)"
      using assms(2) ign h f [symmetric] by (simp add: handle_signal_def cfg Let_def)
    with frame_pushed [OF f] show ?thesis by (auto simp: run)
  qed
  have exit: "k_proc_process_process_signals k m p ctx = Some (Exited k' (push_bit 4 (128 + of_nat i) OR of_nat i))"
    if "handler (signals (procs k p) i) = NULL" "i \<in> {2, 3, 6, 9, 10, 11, 12}"
  proof -
    have "sig_defaults i = Some 1" using that(2) by (auto simp: sig_defaults_def)
    then have "handle_signal k' m p i ctx = Some (Exited k' (push_bit 4 (128 + of_nat i) OR of_nat i))"
      using assms(2) ign that(1) by (simp add: handle_signal_def cfg Let_def)
    then show ?thesis by (simp add: run)
  qed
  show ?thesis using bits enter exit by blast
qed

definition example_ctx :: interrupt_context where
  "example_ctx = \<lparr>edi = 1, esi = 2, ebp = 0x5000, unused_reg = 0, ebx = 3, edx = 4, ecx = 5, eax = 6, int_no = 0x80,
     err_code = 0, eip = 0x1234, cs_reg = 0x1B, eflags = 0x202, esp = 0x8000, ss_reg = 0x23\<rparr>"

definition one_pending :: kernel where
  "one_pending = blank_kernel\<lparr>procs := (procs blank_kernel)(7 := blank_process\<lparr>signal_queue := 0b10000000100,
     signals := (\<lambda>_. \<lparr>handler = 0, sig_flags = 0\<rparr>)(2 := \<lparr>handler = 0x4000, sig_flags = 0\<rparr>)\<rparr>)\<rparr>"

theorem lowest_signal_delivered_witness:
  "\<exists>k' m'. k_proc_process_process_signals one_pending (\<lambda>_. 0) 7 example_ctx = Some (Entered k' m' 0x4000 (0x8000 - 68)) \<and>
     frame_at m' (0x8000 - 68) 2 example_ctx"
proof -
  have a: "bit (signal_queue (procs one_pending 7)) 2" "\<not> bit (signals_ignored (procs one_pending 7)) 2"
    "\<forall>j < 2. \<not> bit (signal_queue (procs one_pending 7)) j"
    by (auto simp: one_pending_def blank_process_def less_2_cases_iff bit_numeral_rec)
  have h: "handler (signals (procs one_pending 7) 2) = 0x4000" "esp example_ctx = 0x8000"
    by (simp_all add: one_pending_def example_ctx_def)
  have "(2 :: nat) < 31" by simp
  from lowest_signal_delivered [OF a(1) this a(3) a(2) refl, of "\<lambda>_. 0" example_ctx] h show ?thesis by auto
qed

text \<open>
  when the handler returns with its frame intact, all general registers, the instruction pointer
  and the stack pointer are those of the interrupted context. If a system call had been interrupted
  (its result was \<open>-ERESTARTSYS\<close>), the dispatcher runs it again when the handler was installed with
  \<open>SA_RESTART\<close>, and otherwise the call returns \<open>-EINTR\<close>; the mark of the interrupted call is gone in
  both cases.
\<close>

theorem signal_frame_roundtrip:
  assumes "frame_at m sp sig c" and "sig < 64" and "esp ctx = sp + 4" and "p = current_process k"
    and "signal_queue (procs k p) = 0"
    and "again \<longleftrightarrow> interrupted_syscall (procs k p) \<noteq> 0 \<and> eax c = - ERESTARTSYS"
    and "restarts \<longleftrightarrow> again \<and> sig_flags (signals (procs k p) sig) AND 32 \<noteq> 0"
  shows "\<exists>k' c'. k_proc_process_return_from_signal k m ctx = Some (Resumed restarts k' c') \<and>
    eip c' = eip c \<and> esp c' = esp c \<and> ebp c' = ebp c \<and> ebx c' = ebx c \<and> ecx c' = ecx c \<and> edx c' = edx c \<and>
    edi c' = edi c \<and> esi c' = esi c \<and>
    eax c' = (if restarts then interrupted_syscall (procs k p) else if again then - EINTR else eax c) \<and>
    k' = (if again then upd_proc k p (interrupted_syscall_update (\<lambda>_. 0)) else k)"
proof -
  have s: "m (esp ctx) = of_nat sig" using assms(1,3) by (simp add: frame_at_def)
  have u: "unat (of_nat sig :: u32) = sig" using assms(2) by (simp add: unat_of_nat)
  have "sint (of_nat sig :: u32) = int sig"
    using assms(2) by (simp add: signed_of_nat signed_take_bit_int_eq_self)
  with assms(2) have r: "\<not> (sint (of_nat sig :: u32) < 0 \<or> sint (of_nat sig :: u32) \<ge> 255)" by simp
  show ?thesis
    using assms(4-7) r unfolding k_proc_process_return_from_signal_def restore_frame [OF assms(1,3)] s Let_def
    by (auto simp: try_restart_syscalls_def u Let_def)
qed

theorem signal_frame_roundtrip_witness:
  "\<exists>m k' c'. frame_at m 0x7FBC 2 example_ctx \<and>
     k_proc_process_return_from_signal blank_kernel m (example_ctx\<lparr>eax := 99, ebx := 98, esp := 0x7FC0\<rparr>) =
       Some (Resumed False k' c') \<and> eax c' = 6 \<and> ebx c' = 3 \<and> esp c' = 0x8000"
proof -
  let ?m = "(write_words (\<lambda>_. 0) (0x7FBC + 8) (ctx_words example_ctx))(0x7FBC + 4 := 2, 0x7FBC := 0xDEADBEEF)"
  have "(0x7FBC, ?m) = PUSH (PUSH (PUSH (esp example_ctx, \<lambda>_. 0) (ctx_words example_ctx)) [of_nat 2]) [0xDEADBEEF]"
    by (simp add: PUSH_def example_ctx_def)
  then have f: "frame_at ?m 0x7FBC 2 example_ctx" by (blast dest: frame_pushed)
  have a: "(2 :: nat) < 64" "esp (example_ctx\<lparr>eax := 99, ebx := 98, esp := 0x7FC0\<rparr>) = 0x7FBC + 4"
    "signal_queue (procs blank_kernel (current_process blank_kernel)) = 0"
    "interrupted_syscall (procs blank_kernel (current_process blank_kernel)) = 0"
    by (simp_all add: blank_kernel_def blank_process_def)
  from signal_frame_roundtrip [OF f a(1,2) refl a(3) refl refl] f a(4) show ?thesis
    by (auto simp: example_ctx_def)
qed

end
