(* ===== verification/FdTable.thy ===== *)
theory FdTable
  imports Proc_State
begin

text \<open>
  The descriptor table of a process (\<^verbatim>\<open>kernel/src/proc/process.c\<close>, \<^verbatim>\<open>kernel/src/util/fd.c\<close>): opening
  takes the lowest free slot, closing drops the references of the slot, \<open>fork\<close> copies the table
  with descriptors of its own, and \<open>exec\<close> and \<open>exit\<close> close descriptors in bulk. A slot holds the
  address of an \<open>fd_t\<close>, or 0; descriptors and file nodes are counted. Addresses returned by the
  kernel heap are arguments.
\<close>

section \<open>Operations\<close>

text \<open>\<open>k_fs_vfs_close\<close>: the last reference tells the driver, then frees the node.\<close>

definition k_fs_vfs_close :: "kernel \<Rightarrow> ptr \<Rightarrow> kernel option" where
  "k_fs_vfs_close k node =
     (if node = NULL then Some k
      else do {
        n \<leftarrow> fs_nodes k node;
        let n' = n\<lparr>links := links n - 1\<rparr>;
        if links n' = 0 then Some (k\<lparr>closes := closes k @ [node], fs_nodes := (fs_nodes k)(node := None)\<rparr>)
        else Some (k\<lparr>fs_nodes := (fs_nodes k)(node \<mapsto> n')\<rparr>) })"

definition fd2fdt :: "fd_list \<Rightarrow> int \<Rightarrow> ptr" where
  "fd2fdt f fd = (if fd < 0 \<or> int (unat (fds_size f)) \<le> fd then NULL else nodes f ! nat fd)"

definition set_slot :: "kernel \<Rightarrow> ptr \<Rightarrow> nat \<Rightarrow> ptr \<Rightarrow> kernel" where
  "set_slot k p i x = upd_proc k p (\<lambda>P. P\<lparr>fds := (fds P)\<lparr>nodes := (nodes (fds P))[i := x]\<rparr>\<rparr>)"

definition set_amount :: "kernel \<Rightarrow> ptr \<Rightarrow> u32 \<Rightarrow> kernel" where
  "set_amount k p n = upd_proc k p (\<lambda>P. P\<lparr>fds := (fds P)\<lparr>amount := n\<rparr>\<rparr>)"

text \<open>The search for the first empty slot.\<close>

fun free_slot :: "ptr list \<Rightarrow> nat \<Rightarrow> nat option" where
  "free_slot [] i = None"
| "free_slot (x # xs) i = (if x = NULL then Some i else free_slot xs (Suc i))"

definition k_proc_process_open_node :: "kernel \<Rightarrow> ptr \<Rightarrow> ptr \<Rightarrow> ptr \<Rightarrow> (u32 \<times> kernel) option" where
  "k_proc_process_open_node k p node fdt =
     (let k1 = k\<lparr>fdts := (fdts k)(fdt \<mapsto> \<lparr>fd_node = node, fd_offset = 0, fd_links = 1\<rparr>)\<rparr>;
          f = fds (procs k1 p)
      in if fds_size f = amount f
         then let fd = fds_size f;
                  k2 = upd_proc k1 p (\<lambda>P. P\<lparr>fds := f\<lparr>fds_size := fd + 1, nodes := arr_realloc NULL (nodes f) (unat (fd + 1))\<rparr>\<rparr>);
                  k3 = set_slot k2 p (unat fd) fdt
              in Some (fd, set_amount k3 p (amount f + 1))
         else do {
           i \<leftarrow> free_slot (take (unat (fds_size f)) (nodes f)) 0;
           Some (of_nat i, set_amount (set_slot k1 p i fdt) p (amount f + 1)) })"

definition k_proc_process_close_fd :: "kernel \<Rightarrow> ptr \<Rightarrow> u32 \<Rightarrow> kernel option" where
  "k_proc_process_close_fd k p fd =
     (let f = fds (procs k p) in
      if fds_size f \<le> fd then Some k
      else do {
        let k1 = set_amount k p (amount f - 1);
        let fdt = nodes f ! unat fd;
        t \<leftarrow> fdts k1 fdt;
        k2 \<leftarrow> k_fs_vfs_close k1 (fd_node t);
        let t' = t\<lparr>fd_links := fd_links t - 1\<rparr>;
        let k3 = k2\<lparr>fdts := (fdts k2)(fdt := (if fd_links t' = 0 then None else Some t'))\<rparr>;
        Some (set_slot k3 p (unat fd) NULL) })"

text \<open>The loop of \<open>k_proc_process_exit\<close> over the slots.\<close>

fun close_all :: "kernel \<Rightarrow> ptr \<Rightarrow> nat list \<Rightarrow> kernel option" where
  "close_all k p [] = Some k"
| "close_all k p (i # is) =
     (if nodes (fds (procs k p)) ! i \<noteq> NULL
      then do { k1 \<leftarrow> k_proc_process_close_fd k p (of_nat i); close_all k1 p is }
      else close_all k p is)"

abbreviation (input) O_CLOEXEC :: u32 where "O_CLOEXEC \<equiv> 256"

fun exec_loop :: "kernel \<Rightarrow> ptr \<Rightarrow> nat list \<Rightarrow> kernel option" where
  "exec_loop k p [] = Some k"
| "exec_loop k p (i # is) =
     (if nodes (fds (procs k p)) ! i \<noteq> NULL
      then do {
        t \<leftarrow> fdts k (nodes (fds (procs k p)) ! i);
        n \<leftarrow> fs_nodes k (fd_node t);
        k1 \<leftarrow> (if mode n AND O_CLOEXEC \<noteq> 0 then k_proc_process_close_fd k p (of_nat i) else Some k);
        exec_loop k1 p is }
      else exec_loop k p is)"

definition k_proc_process_prepare_exec :: "kernel \<Rightarrow> kernel option" where
  "k_proc_process_prepare_exec k =
     (let p = current_process k in exec_loop k p [0..<unat (fds_size (fds (procs k p)))])"

text \<open>
  The copying loop of \<open>k_proc_process_fork\<close>: the slots of the source, the heap addresses for the new
  descriptors, one per slot, and the slots built so far.
\<close>

fun copy_fds :: "kernel \<Rightarrow> ptr list \<Rightarrow> ptr list \<Rightarrow> (ptr list \<times> kernel) option" where
  "copy_fds k [] as = Some ([], k)"
| "copy_fds k (x # xs) as =
     (if x = NULL then do { (ys, k') \<leftarrow> copy_fds k xs (tl as); Some (NULL # ys, k') }
      else do {
        t \<leftarrow> fdts k x;
        n \<leftarrow> fs_nodes k (fd_node t);
        let k1 = k\<lparr>fdts := (fdts k)(hd as \<mapsto> t\<lparr>fd_links := 1\<rparr>),
                   fs_nodes := (fs_nodes k)(fd_node t \<mapsto> n\<lparr>links := links n + 1\<rparr>)\<rparr>;
        (ys, k') \<leftarrow> copy_fds k1 xs (tl as);
        Some (hd as # ys, k') })"

section \<open>The invariant\<close>

text \<open>The number of slots through which a table refers to a file node.\<close>

definition node_refs :: "(ptr \<Rightarrow> fd_t option) \<Rightarrow> ptr list \<Rightarrow> ptr \<Rightarrow> nat" where
  "node_refs D xs n = length (filter (\<lambda>x. x \<noteq> NULL \<and> (case D x of None \<Rightarrow> False | Some t \<Rightarrow> fd_node t = n)) xs)"

text \<open>
  The table of process \<open>p\<close>: the array has the recorded size, \<open>amount\<close> counts the used slots, and
  every reference of a slot is counted in its descriptor and in its file node.
\<close>

definition fd_ok :: "kernel \<Rightarrow> ptr \<Rightarrow> bool" where
  "fd_ok k p \<longleftrightarrow> (let f = fds (procs k p); xs = nodes f in
     length xs = unat (fds_size f) \<and> unat (amount f) = length (filter (\<lambda>x. x \<noteq> NULL) xs) \<and>
     (\<forall>x \<in> set xs. x \<noteq> NULL \<longrightarrow> (\<exists>t. fdts k x = Some t \<and> fd_node t \<noteq> NULL \<and> count_list xs x \<le> unat (fd_links t))) \<and>
     (\<forall>n. n \<noteq> NULL \<and> node_refs (fdts k) xs n > 0 \<longrightarrow>
        (\<exists>f. fs_nodes k n = Some f \<and> node_refs (fdts k) xs n \<le> unat (links f))))"

lemma fd_okD:
  assumes "fd_ok k p"
  shows fd_ok_length: "length (nodes (fds (procs k p))) = unat (fds_size (fds (procs k p)))"
    and fd_ok_amount: "unat (amount (fds (procs k p))) = length (filter (\<lambda>x. x \<noteq> NULL) (nodes (fds (procs k p))))"
    and fd_ok_slot: "x \<in> set (nodes (fds (procs k p))) \<Longrightarrow> x \<noteq> NULL \<Longrightarrow>
      \<exists>t. fdts k x = Some t \<and> fd_node t \<noteq> NULL \<and> count_list (nodes (fds (procs k p))) x \<le> unat (fd_links t)"
    and fd_ok_node: "n \<noteq> NULL \<Longrightarrow> node_refs (fdts k) (nodes (fds (procs k p))) n > 0 \<Longrightarrow>
      \<exists>f. fs_nodes k n = Some f \<and> node_refs (fdts k) (nodes (fds (procs k p))) n \<le> unat (links f)"
  using assms unfolding fd_ok_def Let_def by blast+

lemma set_slot_sel [simp]:
  "procs (set_slot k p i x) = (procs k)(p := (procs k p)\<lparr>fds := (fds (procs k p))\<lparr>nodes := (nodes (fds (procs k p)))[i := x]\<rparr>\<rparr>)"
  "fdts (set_slot k p i x) = fdts k" "fs_nodes (set_slot k p i x) = fs_nodes k" "closes (set_slot k p i x) = closes k"
  "queues (set_slot k p i x) = queues k" "ready_queue (set_slot k p i x) = ready_queue k"
  "process_list (set_slot k p i x) = process_list k" "process_root (set_slot k p i x) = process_root k"
  "current_process (set_slot k p i x) = current_process k" "wnodes (set_slot k p i x) = wnodes k"
  "sleep_queue (set_slot k p i x) = sleep_queue k" "idle_process (set_slot k p i x) = idle_process k"
  by (simp_all add: set_slot_def)

lemma set_amount_sel [simp]:
  "procs (set_amount k p n) = (procs k)(p := (procs k p)\<lparr>fds := (fds (procs k p))\<lparr>amount := n\<rparr>\<rparr>)"
  "fdts (set_amount k p n) = fdts k" "fs_nodes (set_amount k p n) = fs_nodes k" "closes (set_amount k p n) = closes k"
  "queues (set_amount k p n) = queues k" "ready_queue (set_amount k p n) = ready_queue k"
  "process_list (set_amount k p n) = process_list k" "process_root (set_amount k p n) = process_root k"
  "current_process (set_amount k p n) = current_process k" "wnodes (set_amount k p n) = wnodes k"
  "sleep_queue (set_amount k p n) = sleep_queue k" "idle_process (set_amount k p n) = idle_process k"
  by (simp_all add: set_amount_def)

lemma fd2fdt_nth:
  assumes "length (nodes f) = unat (fds_size f)" and "i < length (nodes f)"
  shows "fd2fdt f (int i) = nodes f ! i"
proof -
  have "\<not> (int i < 0 \<or> int (unat (fds_size f)) \<le> int i)" using assms by (simp only: of_nat_le_iff) simp
  then show ?thesis by (simp only: fd2fdt_def if_False nat_int)
qed

lemma free_slot_spec:
  "free_slot xs i = (if NULL \<in> set xs then Some (i + length (takeWhile (\<lambda>x. x \<noteq> NULL) xs)) else None)"
  by (induction xs arbitrary: i) auto

lemma node_refs_update:
  assumes "i < length xs" "xs ! i = NULL" "D' x = Some t" "x \<noteq> NULL" "x \<notin> set xs" "\<And>y. y \<in> set xs \<Longrightarrow> D' y = D y"
  shows "node_refs D' (xs[i := x]) n = node_refs D xs n + (if fd_node t = n then 1 else 0)"
proof -
  have xs: "xs = take i xs @ NULL # drop (Suc i) xs" using assms(1,2) by (metis id_take_nth_drop)
  have eq: "node_refs D' ys n = node_refs D ys n" if "set ys \<subseteq> set xs" for ys
    unfolding node_refs_def by (rule arg_cong [of _ _ length], rule filter_cong) (use that assms(6) in auto)
  have "node_refs D' (xs[i := x]) n = node_refs D' (take i xs) n + (if fd_node t = n then 1 else 0) + node_refs D' (drop (Suc i) xs) n"
    using assms(1,3,4) by (simp add: upd_conv_take_nth_drop node_refs_def)
  also have "\<dots> = node_refs D (take i xs) n + (if fd_node t = n then 1 else 0) + node_refs D (drop (Suc i) xs) n"
    using eq [of "take i xs"] eq [of "drop (Suc i) xs"] by (simp add: set_take_subset set_drop_subset)
  finally have "node_refs D' (xs[i := x]) n =
      node_refs D (take i xs) n + (if fd_node t = n then 1 else 0) + node_refs D (drop (Suc i) xs) n" .
  moreover have "node_refs D xs n = node_refs D (take i xs) n + node_refs D (drop (Suc i) xs) n"
    by (subst xs) (simp add: node_refs_def)
  ultimately show ?thesis by simp
qed

lemma node_refs_clear:
  assumes "i < length xs" "xs ! i = x" "x \<noteq> NULL" "D x = Some t"
  shows "node_refs D xs n = node_refs D (xs[i := NULL]) n + (if fd_node t = n then 1 else 0)"
proof -
  have xs: "xs = take i xs @ x # drop (Suc i) xs" using assms(1,2) by (metis id_take_nth_drop)
  show ?thesis using assms by (subst xs) (simp add: upd_conv_take_nth_drop node_refs_def)
qed

lemma node_refs_fresh:
  assumes "D' x = Some t" "x \<noteq> NULL" "\<And>y. y \<in> set (us @ vs) \<Longrightarrow> D' y = D y"
  shows "node_refs D' (us @ x # vs) n = node_refs D (us @ vs) n + (if fd_node t = n then 1 else 0)"
proof -
  have eq: "node_refs D' ys n = node_refs D ys n" if "set ys \<subseteq> set (us @ vs)" for ys
    unfolding node_refs_def by (rule arg_cong [of _ _ length], rule filter_cong) (use that assms(3) in auto)
  show ?thesis using eq [of us] eq [of vs] assms(1,2) by (simp add: node_refs_def)
qed

lemma takeWhile_hole:
  assumes "NULL \<in> set xs" and "j = length (takeWhile (\<lambda>x. x \<noteq> NULL) xs)"
  shows "j < length xs" "xs ! j = NULL" "xs = take j xs @ NULL # drop (Suc j) xs"
proof -
  show j: "j < length xs" unfolding assms(2) by (rule length_takeWhile_hole [OF assms(1)]) simp
  have "\<not> xs ! j \<noteq> NULL" unfolding assms(2) by (rule nth_length_takeWhile) (use j assms(2) in simp)
  then show n: "xs ! j = NULL" by simp
  show "xs = take j xs @ NULL # drop (Suc j) xs" using id_take_nth_drop [OF j] n by simp
qed

text \<open>Both branches of opening put the descriptor into the first slot that is not in use.\<close>

lemma open_node_slot:
  assumes ok: "fd_ok k p" and small: "unat (fds_size (fds (procs k p))) < 2 ^ 32 - 1"
    and xs: "xs = nodes (fds (procs k p))" and j: "j = length (takeWhile (\<lambda>x. x \<noteq> NULL) xs)"
  obtains f' where "k_proc_process_open_node k p node fdt = Some (of_nat j,
      k\<lparr>fdts := (fdts k)(fdt \<mapsto> \<lparr>fd_node = node, fd_offset = 0, fd_links = 1\<rparr>),
        procs := (procs k)(p := (procs k p)\<lparr>fds := f'\<rparr>)\<rparr>)"
    "nodes f' = take j xs @ fdt # drop (Suc j) xs" "amount f' = amount (fds (procs k p)) + 1"
    "length (nodes f') = unat (fds_size f')" "drop j xs = [] \<or> drop j xs = NULL # drop (Suc j) xs" "j < 2 ^ 32" "set (take j xs @ drop (Suc j) xs) \<subseteq> set xs"
    "length (filter (\<lambda>x. x \<noteq> NULL) xs) < 2 ^ 32 - 1"
proof -
  let ?f = "fds (procs k p)"
  have len: "length xs = unat (fds_size ?f)" using fd_ok_length [OF ok] xs by simp
  have am: "unat (amount ?f) = length (filter (\<lambda>x. x \<noteq> NULL) xs)" using fd_ok_amount [OF ok] xs by simp
  have fl: "length (filter (\<lambda>x. x \<noteq> NULL) xs) < 2 ^ 32 - 1"
    using len small by (metis le_less_trans length_filter_le)
  show ?thesis
  proof (cases "fds_size ?f = amount ?f")
    case True
    then have "length (filter (\<lambda>x. x \<noteq> NULL) xs) = length xs" using am len by simp
    then have "\<forall>x \<in> set xs. x \<noteq> NULL" by (blast dest: filter_full)
    then have jl: "j = length xs" using j by (simp add: takeWhile_eq_all_conv [THEN iffD2])
    have su: "unat (fds_size ?f + 1) = Suc (length xs)" using len small unat_Suc32 [of "fds_size ?f"] by simp
    let ?f' = "?f\<lparr>fds_size := fds_size ?f + 1, nodes := xs @ [fdt], amount := amount ?f + 1\<rparr>"
    have fj: "fds_size ?f = of_nat j" by (simp add: jl len)
    have "k_proc_process_open_node k p node fdt = Some (of_nat j,
      k\<lparr>fdts := (fdts k)(fdt \<mapsto> \<lparr>fd_node = node, fd_offset = 0, fd_links = 1\<rparr>),
        procs := (procs k)(p := (procs k p)\<lparr>fds := ?f'\<rparr>)\<rparr>)"
    proof -
      have "unat (amount ?f + 1) = Suc (length xs)" "unat (amount ?f) = length xs" "of_nat j = amount ?f"
        using su len fj True by simp_all
      then show ?thesis
        by (simp add: k_proc_process_open_node_def Let_def set_slot_def set_amount_def upd_proc_def True
            xs [symmetric] arr_realloc_grow1)
    qed
    then show ?thesis by (rule that) (use jl len su fl small in simp_all)
  next
    case False
    then have "length (filter (\<lambda>x. x \<noteq> NULL) xs) \<noteq> length xs" using am len by (metis word_unatI)
    moreover have "NULL \<notin> set xs \<Longrightarrow> filter (\<lambda>x. x \<noteq> NULL) xs = xs" by (intro filter_True) auto
    ultimately have hole: "NULL \<in> set xs" by metis
    note h = takeWhile_hole [OF hole j]
    let ?f' = "?f\<lparr>nodes := xs[j := fdt], amount := amount ?f + 1\<rparr>"
    have o: "k_proc_process_open_node k p node fdt = Some (of_nat j,
      k\<lparr>fdts := (fdts k)(fdt \<mapsto> \<lparr>fd_node = node, fd_offset = 0, fd_links = 1\<rparr>),
        procs := (procs k)(p := (procs k p)\<lparr>fds := ?f'\<rparr>)\<rparr>)"
      using False hole j len xs
      by (simp add: k_proc_process_open_node_def Let_def free_slot_spec set_slot_def set_amount_def upd_proc_def)
    have d: "drop j xs = [] \<or> drop j xs = NULL # drop (Suc j) xs"
      using h(1,2) by (simp add: Cons_nth_drop_Suc [symmetric])
    show ?thesis
      by (rule that [OF o _ _ _ d])
        (use h(1) len small fl in \<open>auto simp: upd_conv_take_nth_drop dest: in_set_takeD in_set_dropD\<close>)
  qed
qed

lemma split_at_hole:
  assumes "drop j xs = [] \<or> drop j xs = NULL # drop (Suc j) xs"
  shows "node_refs D (take j xs @ drop (Suc j) xs) n = node_refs D xs n"
    and "x \<noteq> NULL \<Longrightarrow> count_list (take j xs @ drop (Suc j) xs) x = count_list xs x"
    and "length (filter (\<lambda>x. x \<noteq> NULL) (take j xs @ drop (Suc j) xs)) = length (filter (\<lambda>x. x \<noteq> NULL) xs)"
proof -
  have F: "filter P (take j xs @ drop (Suc j) xs) = filter P xs" if "\<not> P NULL" for P
  proof -
    have "filter P xs = filter P (take j xs) @ filter P (drop j xs)" by (metis append_take_drop_id filter_append)
    moreover have "filter P (drop j xs) = filter P (drop (Suc j) xs)"
      using assms that by (metis drop_Suc drop_drop drop_Nil filter.simps(2) plus_1_eq_Suc)
    ultimately show ?thesis by simp
  qed
  show "node_refs D (take j xs @ drop (Suc j) xs) n = node_refs D xs n"
    unfolding node_refs_def by (rule arg_cong [of _ _ length], rule F) simp
  show "x \<noteq> NULL \<Longrightarrow> count_list (take j xs @ drop (Suc j) xs) x = count_list xs x"
    unfolding count_list_eq_length_filter by (rule arg_cong [of _ _ length], rule F) simp
  show "length (filter (\<lambda>x. x \<noteq> NULL) (take j xs @ drop (Suc j) xs)) = length (filter (\<lambda>x. x \<noteq> NULL) xs)"
    by (rule arg_cong [of _ _ length], rule F) simp
qed

lemma open_node_ok:
  assumes ok: "fd_ok k p" and small: "unat (fds_size (fds (procs k p))) < 2 ^ 32 - 1"
    and fresh: "fdt \<noteq> NULL" "fdts k fdt = None" and nn: "node \<noteq> NULL"
    and ref: "fs_nodes k node = Some n" "node_refs (fdts k) (nodes (fds (procs k p))) node < unat (links n)"
    and xs: "xs = nodes (fds (procs k p))" and j: "j = length (takeWhile (\<lambda>x. x \<noteq> NULL) xs)"
  shows "\<exists>k'. k_proc_process_open_node k p node fdt = Some (of_nat j, k') \<and> fd_ok k' p \<and> j < 2 ^ 32 \<and>
    nodes (fds (procs k' p)) = take j xs @ fdt # drop (Suc j) xs \<and>
    fdts k' = (fdts k)(fdt \<mapsto> \<lparr>fd_node = node, fd_offset = 0, fd_links = 1\<rparr>) \<and>
    fs_nodes k' = fs_nodes k \<and> (\<forall>p'. p' \<noteq> p \<longrightarrow> procs k' p' = procs k p')"
proof -
  obtain f' where o: "k_proc_process_open_node k p node fdt = Some (of_nat j,
      k\<lparr>fdts := (fdts k)(fdt \<mapsto> \<lparr>fd_node = node, fd_offset = 0, fd_links = 1\<rparr>),
        procs := (procs k)(p := (procs k p)\<lparr>fds := f'\<rparr>)\<rparr>)"
    and f': "nodes f' = take j xs @ fdt # drop (Suc j) xs" "amount f' = amount (fds (procs k p)) + 1"
    "length (nodes f') = unat (fds_size f')" and hole: "drop j xs = [] \<or> drop j xs = NULL # drop (Suc j) xs"
    and j32: "j < 2 ^ 32" and sub: "set (take j xs @ drop (Suc j) xs) \<subseteq> set xs"
    and fl: "length (filter (\<lambda>x. x \<noteq> NULL) xs) < 2 ^ 32 - 1"
    by (rule open_node_slot [OF ok small xs j])
  let ?D = "(fdts k)(fdt \<mapsto> \<lparr>fd_node = node, fd_offset = 0, fd_links = 1\<rparr>)"
  let ?k = "k\<lparr>fdts := ?D, procs := (procs k)(p := (procs k p)\<lparr>fds := f'\<rparr>)\<rparr>"
  have slot: "\<exists>t. fdts k x = Some t \<and> fd_node t \<noteq> NULL \<and> count_list xs x \<le> unat (fd_links t)" if "x \<in> set xs" "x \<noteq> NULL" for x
    using fd_ok_slot [OF ok] that xs by simp
  have new: "fdt \<notin> set xs" using slot fresh by fastforce
  have cnt: "count_list (nodes f') x = (if x = fdt then 1 else count_list xs x)" if "x \<noteq> NULL" for x
  proof -
    have "count_list (take j xs @ drop (Suc j) xs) x = count_list xs x" by (rule split_at_hole(2) [OF hole that])
    moreover have "count_list xs fdt = 0" using new by (simp add: count_list_0_iff)
    ultimately show ?thesis by (auto simp: f')
  qed
  have refs: "node_refs ?D (nodes f') m = node_refs (fdts k) xs m + (if node = m then 1 else 0)" for m
  proof -
    have "node_refs ?D (nodes f') m = node_refs (fdts k) (take j xs @ drop (Suc j) xs) m + (if node = m then 1 else 0)"
      unfolding f'(1) by (subst node_refs_fresh [where t = "\<lparr>fd_node = node, fd_offset = 0, fd_links = 1\<rparr>" and D = "fdts k"])
        (use sub new fresh in auto)
    then show ?thesis by (simp only: split_at_hole(1) [OF hole])
  qed
  have "unat (amount f') = length (filter (\<lambda>x. x \<noteq> NULL) (nodes f'))"
  proof -
    have "unat (amount f') = length (filter (\<lambda>x. x \<noteq> NULL) xs) + 1"
      unfolding f'(2) using fl fd_ok_amount [OF ok] xs by (subst unat_Suc32) simp_all
    then show ?thesis using split_at_hole(3) [OF hole] fresh by (simp add: f')
  qed
  moreover have "\<exists>t. ?D x = Some t \<and> fd_node t \<noteq> NULL \<and> count_list (nodes f') x \<le> unat (fd_links t)" if "x \<in> set (nodes f')" "x \<noteq> NULL" for x
  proof -
    have "x = fdt \<or> x \<in> set xs" using that(1) sub by (auto simp: f'(1))
    then show ?thesis using slot [of x] that(2) nn cnt [OF that(2)] by (cases "x = fdt") auto
  qed
  moreover have "\<exists>f. fs_nodes k m = Some f \<and> node_refs ?D (nodes f') m \<le> unat (links f)"
    if "m \<noteq> NULL" "node_refs ?D (nodes f') m > 0" for m
    using that fd_ok_node [OF ok, of m] ref xs refs [of m] by (cases "node = m") auto
  ultimately have "fd_ok ?k p" using f'(3) by (simp add: fd_ok_def Let_def)
  with o f'(1) j32 show ?thesis by auto
qed

lemma clear_slot:
  assumes "i < length xs" "xs ! i = x" "x \<noteq> NULL"
  shows "length (filter (\<lambda>x. x \<noteq> NULL) xs) = Suc (length (filter (\<lambda>x. x \<noteq> NULL) (xs[i := NULL])))"
    and "y \<noteq> NULL \<Longrightarrow> count_list xs y = count_list (xs[i := NULL]) y + (if y = x then 1 else 0)"
    and "set (xs[i := NULL]) \<subseteq> insert NULL (set xs)"
proof -
  have xs: "xs = take i xs @ x # drop (Suc i) xs" using assms(1,2) by (metis id_take_nth_drop)
  show "length (filter (\<lambda>x. x \<noteq> NULL) xs) = Suc (length (filter (\<lambda>x. x \<noteq> NULL) (xs[i := NULL])))"
    using assms by (subst xs) (simp add: upd_conv_take_nth_drop)
  show "y \<noteq> NULL \<Longrightarrow> count_list xs y = count_list (xs[i := NULL]) y + (if y = x then 1 else 0)"
    using assms by (subst xs) (auto simp: upd_conv_take_nth_drop)
  show "set (xs[i := NULL]) \<subseteq> insert NULL (set xs)" by (rule set_update_subset_insert)
qed

text \<open>What closing does to the file node.\<close>

lemma vfs_close_ok:
  assumes "node = NULL \<or> (\<exists>n. fs_nodes k node = Some n \<and> unat (links n) > 0)"
  shows "\<exists>F C. k_fs_vfs_close k node = Some (k\<lparr>fs_nodes := F, closes := C\<rparr>) \<and>
    (\<forall>m. m \<noteq> node \<or> m = NULL \<longrightarrow> F m = fs_nodes k m) \<and>
    (\<forall>n. node \<noteq> NULL \<longrightarrow> fs_nodes k node = Some n \<longrightarrow>
      F node = (if links n = 1 then None else Some (n\<lparr>links := links n - 1\<rparr>)) \<and>
      C = (if links n = 1 then closes k @ [node] else closes k))"
proof (cases "node = NULL")
  case True
  then show ?thesis
    by (intro exI [of _ "fs_nodes k"] exI [of _ "closes k"]) (simp add: k_fs_vfs_close_def)
next
  case False
  then obtain n where n: "fs_nodes k node = Some n" "unat (links n) > 0" using assms by blast
  let ?F = "(fs_nodes k)(node := (if links n = 1 then None else Some (n\<lparr>links := links n - 1\<rparr>)))"
  let ?C = "if links n = 1 then closes k @ [node] else closes k"
  show ?thesis by (rule exI [of _ ?F], rule exI [of _ ?C]) (use False n in \<open>auto simp: k_fs_vfs_close_def\<close>)
qed

lemma node_refs_cong:
  "(\<And>x. x \<in> set xs \<Longrightarrow> x \<noteq> NULL \<Longrightarrow> map_option fd_node (D' x) = map_option fd_node (D x)) \<Longrightarrow> node_refs D' xs n = node_refs D xs n"
  unfolding node_refs_def
proof (rule arg_cong [of _ _ length], rule filter_cong)
  fix x assume a: "\<And>x. x \<in> set xs \<Longrightarrow> x \<noteq> NULL \<Longrightarrow> map_option fd_node (D' x) = map_option fd_node (D x)" "x \<in> set xs"
  show "(x \<noteq> NULL \<and> (case D' x of None \<Rightarrow> False | Some t \<Rightarrow> fd_node t = n)) \<longleftrightarrow>
      (x \<noteq> NULL \<and> (case D x of None \<Rightarrow> False | Some t \<Rightarrow> fd_node t = n))"
    using a(1) [OF a(2)] by (cases "D' x"; cases "D x") auto
qed simp

lemma close_fd_ok:
  assumes ok: "fd_ok k p" and xs: "xs = nodes (fds (procs k p))" and i: "i < length xs" and x: "xs ! i \<noteq> NULL"
  obtains k' t where "k_proc_process_close_fd k p (of_nat i) = Some k'" "fd_ok k' p" "fdts k (xs ! i) = Some t"
    "fds (procs k' p) = (fds (procs k p))\<lparr>amount := amount (fds (procs k p)) - 1, nodes := xs[i := NULL]\<rparr>"
    "fdts k' = (fdts k)(xs ! i := (if fd_links t = 1 then None else Some (t\<lparr>fd_links := fd_links t - 1\<rparr>)))"
    "\<exists>F C D f. k' = k\<lparr>fs_nodes := F, closes := C, fdts := D, procs := (procs k)(p := (procs k p)\<lparr>fds := f\<rparr>)\<rparr>"
    "\<forall>n. fd_node t \<noteq> NULL \<and> fs_nodes k (fd_node t) = Some n \<longrightarrow>
       fs_nodes k' = (fs_nodes k)(fd_node t := (if links n = 1 then None else Some (n\<lparr>links := links n - 1\<rparr>))) \<and>
       closes k' = (if links n = 1 then closes k @ [fd_node t] else closes k)"
proof -
  let ?f = "fds (procs k p)" and ?x = "xs ! i"
  have len: "length xs = unat (fds_size ?f)" using fd_ok_length [OF ok] xs by simp
  have u: "unat (of_nat i :: u32) = i" using i len unat_less32 [of "fds_size ?f"] by (simp add: unat_of_nat)
  obtain t where t: "fdts k ?x = Some t" "count_list xs ?x \<le> unat (fd_links t)" "fd_node t \<noteq> NULL"
    using fd_ok_slot [OF ok, of ?x] i x xs by auto
  note cs = clear_slot [OF i refl x]
  have tl: "unat (fd_links t) > 0" using t(2) cs(2) [of ?x] x by simp
  have refs: "node_refs (fdts k) xs n = node_refs (fdts k) (xs[i := NULL]) n + (if fd_node t = n then 1 else 0)" for n
    by (rule node_refs_clear [where D = "fdts k", OF i refl x t(1)])
  have "fd_node t = NULL \<or> (\<exists>n. fs_nodes k (fd_node t) = Some n \<and> unat (links n) > 0)"
    using fd_ok_node [OF ok, of "fd_node t"] refs [of "fd_node t"] xs by fastforce
  then obtain F C where c: "k_fs_vfs_close (set_amount k p (amount ?f - 1)) (fd_node t) =
      Some ((set_amount k p (amount ?f - 1))\<lparr>fs_nodes := F, closes := C\<rparr>)"
    "\<And>m. m \<noteq> fd_node t \<or> m = NULL \<Longrightarrow> F m = fs_nodes k m"
    "\<And>n. fd_node t \<noteq> NULL \<Longrightarrow> fs_nodes k (fd_node t) = Some n \<Longrightarrow>
      F (fd_node t) = (if links n = 1 then None else Some (n\<lparr>links := links n - 1\<rparr>)) \<and>
      C = (if links n = 1 then closes k @ [fd_node t] else closes k)"
    using vfs_close_ok [of "fd_node t" "set_amount k p (amount ?f - 1)"] unfolding set_amount_sel by blast
  let ?D = "(fdts k)(?x := (if fd_links t = 1 then None else Some (t\<lparr>fd_links := fd_links t - 1\<rparr>)))"
  let ?f' = "?f\<lparr>amount := amount ?f - 1, nodes := xs[i := NULL]\<rparr>"
  let ?k = "k\<lparr>fs_nodes := F, closes := C, fdts := ?D, procs := (procs k)(p := (procs k p)\<lparr>fds := ?f'\<rparr>)\<rparr>"
  have cl: "k_proc_process_close_fd k p (of_nat i) = Some ?k"
    using c(1) t(1) i len u xs
    by (simp add: k_proc_process_close_fd_def Let_def word_le_nat_alt set_slot_def set_amount_def upd_proc_def)
  have D: "map_option fd_node (?D y) = map_option fd_node (fdts k y)" if "y \<in> set (xs[i := NULL])" "y \<noteq> NULL" for y
  proof (cases "y = ?x")
    case True
    then have "count_list (xs[i := NULL]) ?x > 0" using that(1) by (metis count_list_0_iff neq0_conv)
    then have "unat (fd_links t) > 1" using t(2) cs(2) [of ?x] x by simp
    then show ?thesis using True t(1) by auto
  qed simp
  have "unat (amount ?f - 1) = length (filter (\<lambda>x. x \<noteq> NULL) (xs[i := NULL]))"
    using cs(1) fd_ok_amount [OF ok] xs unat_pred32 [of "amount ?f"] by (cases "amount ?f = 0") auto
  moreover have "\<exists>t. ?D y = Some t \<and> fd_node t \<noteq> NULL \<and> count_list (xs[i := NULL]) y \<le> unat (fd_links t)"
    if y: "y \<in> set (xs[i := NULL])" "y \<noteq> NULL" for y
  proof (cases "y = ?x")
    case True
    then have "fd_links t \<noteq> 1" using D [OF y] t(1) by (auto split: if_split_asm)
    moreover have "unat (fd_links t - 1) = unat (fd_links t) - 1" using tl by (intro unat_pred32) auto
    ultimately show ?thesis using True t(2,3) cs(2) [OF y(2)] by simp
  next
    case False
    have "y \<in> set xs" using y cs(3) by blast
    then show ?thesis using False fd_ok_slot [OF ok, of y] y(2) xs cs(2) [OF y(2)] by auto
  qed
  moreover have "\<exists>f. F n = Some f \<and> node_refs ?D (xs[i := NULL]) n \<le> unat (links f)"
    if n: "n \<noteq> NULL" "node_refs ?D (xs[i := NULL]) n > 0" for n
  proof -
    have r: "node_refs ?D (xs[i := NULL]) n = node_refs (fdts k) (xs[i := NULL]) n" by (rule node_refs_cong [OF D])
    obtain f where f: "fs_nodes k n = Some f" "node_refs (fdts k) xs n \<le> unat (links f)"
      using fd_ok_node [OF ok n(1)] refs [of n] n(2) r xs by auto
    show ?thesis
    proof (cases "fd_node t = n")
      case True
      then have "unat (links f) > 1" using f(2) refs [of n] n(2) r by simp
      then have "links f \<noteq> 1" "unat (links f - 1) = unat (links f) - 1" using unat_pred32 [of "links f"] by (cases "links f = 0"; auto)+
      then show ?thesis using True f refs [of n] r c(3) n(1) by auto
    qed (use f c(2) refs [of n] r in auto)
  qed
  ultimately have "fd_ok ?k p" using len by (simp add: fd_ok_def Let_def)
  moreover have "F = (fs_nodes k)(fd_node t := (if links n = 1 then None else Some (n\<lparr>links := links n - 1\<rparr>)))"
    if "fd_node t \<noteq> NULL" "fs_nodes k (fd_node t) = Some n" for n
    using c(2,3) that by (auto simp: fun_eq_iff)
  moreover have "\<exists>F C D f. ?k = k\<lparr>fs_nodes := F, closes := C, fdts := D, procs := (procs k)(p := (procs k p)\<lparr>fds := f\<rparr>)\<rparr>"
    by blast
  ultimately show ?thesis by (intro that [OF cl _ t(1)]) (use c(3) in auto)
qed

section \<open>Closing many\<close>

definition cloexec :: "kernel \<Rightarrow> ptr \<Rightarrow> bool" where
  "cloexec k x \<longleftrightarrow> (case fdts k x of None \<Rightarrow> False | Some t \<Rightarrow>
     (case fs_nodes k (fd_node t) of None \<Rightarrow> False | Some n \<Rightarrow> mode n AND O_CLOEXEC \<noteq> 0))"

lemma fd_ok_file:
  assumes ok: "fd_ok k p" and "x \<in> set (nodes (fds (procs k p)))" and "x \<noteq> NULL"
  obtains t n where "fdts k x = Some t" "fs_nodes k (fd_node t) = Some n"
proof -
  obtain t where t: "fdts k x = Some t" "fd_node t \<noteq> NULL" using fd_ok_slot [OF assms] by blast
  have "x \<in> set (filter (\<lambda>x. x \<noteq> NULL \<and> (case fdts k x of None \<Rightarrow> False | Some t' \<Rightarrow> fd_node t' = fd_node t)) (nodes (fds (procs k p))))"
    using assms(2,3) t by simp
  then have "node_refs (fdts k) (nodes (fds (procs k p))) (fd_node t) > 0"
    unfolding node_refs_def by (rule length_pos_if_in_set)
  with fd_ok_node [OF ok t(2)] that t(1) show ?thesis by blast
qed

text \<open>Closing a slot does not change whether the files of the other slots are to be closed on exec.\<close>

lemma close_fd_cloexec:
  assumes ok: "fd_ok k p" and i: "i < length (nodes (fds (procs k p)))" and x: "nodes (fds (procs k p)) ! i \<noteq> NULL"
  obtains k' where "k_proc_process_close_fd k p (of_nat i) = Some k'" "fd_ok k' p"
    "nodes (fds (procs k' p)) = (nodes (fds (procs k p)))[i := NULL]" "fds_size (fds (procs k' p)) = fds_size (fds (procs k p))"
    "\<forall>y \<in> set (nodes (fds (procs k' p))). y \<noteq> NULL \<longrightarrow> cloexec k' y = cloexec k y"
    "current_process k' = current_process k"
proof -
  let ?xs = "nodes (fds (procs k p))"
  obtain k' t where c: "k_proc_process_close_fd k p (of_nat i) = Some k'" "fd_ok k' p" "fdts k (?xs ! i) = Some t"
    "fds (procs k' p) = (fds (procs k p))\<lparr>amount := amount (fds (procs k p)) - 1, nodes := ?xs[i := NULL]\<rparr>"
    "fdts k' = (fdts k)(?xs ! i := (if fd_links t = 1 then None else Some (t\<lparr>fd_links := fd_links t - 1\<rparr>)))"
    "\<exists>F C D f. k' = k\<lparr>fs_nodes := F, closes := C, fdts := D, procs := (procs k)(p := (procs k p)\<lparr>fds := f\<rparr>)\<rparr>"
    "\<forall>n. fd_node t \<noteq> NULL \<and> fs_nodes k (fd_node t) = Some n \<longrightarrow>
       fs_nodes k' = (fs_nodes k)(fd_node t := (if links n = 1 then None else Some (n\<lparr>links := links n - 1\<rparr>))) \<and>
       closes k' = (if links n = 1 then closes k @ [fd_node t] else closes k)"
    by (rule close_fd_ok [OF ok refl i x])
  have xi: "?xs ! i \<in> set ?xs" using i by simp
  obtain n where n: "fs_nodes k (fd_node t) = Some n" using fd_ok_file [OF ok xi x] c(3) by (metis option.inject)
  have "fd_node t \<noteq> NULL" using fd_ok_slot [OF ok xi x] c(3) by auto
  with c(7) n have F: "fs_nodes k' = (fs_nodes k)(fd_node t := (if links n = 1 then None else Some (n\<lparr>links := links n - 1\<rparr>)))" by blast
  have cl: "cloexec k' y = cloexec k y" if y: "y \<in> set (nodes (fds (procs k' p)))" "y \<noteq> NULL" for y
  proof -
    obtain t' n' where t': "fdts k' y = Some t'" "fs_nodes k' (fd_node t') = Some n'" by (rule fd_ok_file [OF c(2) y])
    have "\<exists>t''. fdts k y = Some t'' \<and> fd_node t'' = fd_node t'"
      using t'(1) c(3) unfolding c(5) by (auto split: if_split_asm)
    moreover have "\<exists>n''. fs_nodes k (fd_node t') = Some n'' \<and> mode n'' = mode n'"
      using t'(2) n unfolding F by (auto split: if_split_asm)
    ultimately show ?thesis using t' by (auto simp: cloexec_def)
  qed
  have cp: "current_process k' = current_process k" using c(6) by auto
  show ?thesis by (rule that [OF c(1,2) _ _ _ cp]) (use cl in \<open>simp_all add: c(4)\<close>)
qed

lemma exec_loop_ok:
  assumes "fd_ok k p" and "\<forall>i \<in> set is. i < length (nodes (fds (procs k p)))" and "distinct is"
  shows "\<exists>k'. exec_loop k p is = Some k' \<and> fd_ok k' p \<and> fds_size (fds (procs k' p)) = fds_size (fds (procs k p)) \<and>
    (\<forall>j < length (nodes (fds (procs k p))). nodes (fds (procs k' p)) ! j =
       (if j \<in> set is \<and> nodes (fds (procs k p)) ! j \<noteq> NULL \<and> cloexec k (nodes (fds (procs k p)) ! j) then NULL
        else nodes (fds (procs k p)) ! j))"
  using assms
proof (induction "is" arbitrary: k)
  case (Cons i "is")
  let ?xs = "nodes (fds (procs k p))"
  have i: "i < length ?xs" "i \<notin> set is" using Cons(3,4) by auto
  show ?case
  proof (cases "?xs ! i = NULL")
    case True
    have "\<exists>k'. exec_loop k p is = Some k' \<and> fd_ok k' p \<and> fds_size (fds (procs k' p)) = fds_size (fds (procs k p)) \<and>
        (\<forall>j < length ?xs. nodes (fds (procs k' p)) ! j =
           (if j \<in> set is \<and> ?xs ! j \<noteq> NULL \<and> cloexec k (?xs ! j) then NULL else ?xs ! j))"
      using Cons(1) [OF Cons(2)] Cons(3,4) by simp
    then show ?thesis using True i by (simp only: exec_loop.simps) auto
  next
    case False
    have xi: "?xs ! i \<in> set ?xs" using i by simp
    obtain t n where t: "fdts k (?xs ! i) = Some t" "fs_nodes k (fd_node t) = Some n" by (rule fd_ok_file [OF Cons(2) xi False])
    have ce: "mode n AND O_CLOEXEC \<noteq> 0 \<longleftrightarrow> cloexec k (?xs ! i)" using t by (simp add: cloexec_def)
    show ?thesis
    proof (cases "cloexec k (?xs ! i)")
      case True
      obtain k1 where k1: "k_proc_process_close_fd k p (of_nat i) = Some k1" "fd_ok k1 p"
        "nodes (fds (procs k1 p)) = ?xs[i := NULL]" "fds_size (fds (procs k1 p)) = fds_size (fds (procs k p))"
        "\<forall>y \<in> set (nodes (fds (procs k1 p))). y \<noteq> NULL \<longrightarrow> cloexec k1 y = cloexec k y"
        by (rule close_fd_cloexec [OF Cons(2) i(1) False])
      have "\<exists>k'. exec_loop k1 p is = Some k' \<and> fd_ok k' p \<and> fds_size (fds (procs k' p)) = fds_size (fds (procs k1 p)) \<and>
          (\<forall>j < length (?xs[i := NULL]). nodes (fds (procs k' p)) ! j =
             (if j \<in> set is \<and> ?xs[i := NULL] ! j \<noteq> NULL \<and> cloexec k1 (?xs[i := NULL] ! j) then NULL else ?xs[i := NULL] ! j))"
        by (rule Cons(1) [OF k1(2), unfolded k1(3)]) (use Cons(3,4) in simp_all)
      then obtain k' where k': "exec_loop k1 p is = Some k'" "fd_ok k' p" "fds_size (fds (procs k' p)) = fds_size (fds (procs k p))"
        "\<forall>j < length ?xs. nodes (fds (procs k' p)) ! j =
             (if j \<in> set is \<and> ?xs[i := NULL] ! j \<noteq> NULL \<and> cloexec k1 (?xs[i := NULL] ! j) then NULL else ?xs[i := NULL] ! j)"
        using k1(4) by auto
      have "nodes (fds (procs k' p)) ! j =
          (if j \<in> set (i # is) \<and> ?xs ! j \<noteq> NULL \<and> cloexec k (?xs ! j) then NULL else ?xs ! j)" if j: "j < length ?xs" for j
      proof (cases "j = i")
        case True
        with k'(4) j i \<open>cloexec k (?xs ! i)\<close> False show ?thesis by simp
      next
        case ne: False
        then have "?xs ! j \<in> set (nodes (fds (procs k1 p)))" unfolding k1(3) using j by (metis length_list_update nth_list_update_neq nth_mem)
        with k1(5) have "?xs ! j \<noteq> NULL \<Longrightarrow> cloexec k1 (?xs ! j) = cloexec k (?xs ! j)" by blast
        with k'(4) j ne show ?thesis by auto
      qed
      then show ?thesis using k'(1-3) t ce True False k1(1) by (intro exI [of _ k']) simp
    next
      case no: False
      have "\<exists>k'. exec_loop k p is = Some k' \<and> fd_ok k' p \<and> fds_size (fds (procs k' p)) = fds_size (fds (procs k p)) \<and>
          (\<forall>j < length ?xs. nodes (fds (procs k' p)) ! j =
             (if j \<in> set is \<and> ?xs ! j \<noteq> NULL \<and> cloexec k (?xs ! j) then NULL else ?xs ! j))"
        using Cons(1) [OF Cons(2)] Cons(3,4) by simp
      moreover have "exec_loop k p (i # is) = exec_loop k p is" using t ce no False by simp
      ultimately show ?thesis using no by auto
    qed
  qed
qed simp

lemma close_all_ok:
  assumes "fd_ok k p" and "\<forall>i \<in> set is. i < length (nodes (fds (procs k p)))" and "distinct is"
  shows "\<exists>k' F C D f. close_all k p is = Some k' \<and> fd_ok k' p \<and>
    k' = k\<lparr>fs_nodes := F, closes := C, fdts := D, procs := (procs k)(p := (procs k p)\<lparr>fds := f\<rparr>)\<rparr> \<and>
    length (nodes f) = length (nodes (fds (procs k p))) \<and>
    (\<forall>j < length (nodes f). nodes f ! j = (if j \<in> set is then NULL else nodes (fds (procs k p)) ! j))"
  using assms
proof (induction "is" arbitrary: k)
  case Nil
  have "k = k\<lparr>fs_nodes := fs_nodes k, closes := closes k, fdts := fdts k, procs := (procs k)(p := (procs k p)\<lparr>fds := fds (procs k p)\<rparr>)\<rparr>" by simp
  with Nil show ?case by (metis close_all.simps(1) empty_iff list.set(1))
next
  case (Cons i "is")
  let ?xs = "nodes (fds (procs k p))"
  have i: "i < length ?xs" "i \<notin> set is" using Cons(3,4) by auto
  show ?case
  proof (cases "?xs ! i = NULL")
    case True
    then have eq: "close_all k p (i # is) = close_all k p is" by simp
    have "\<exists>k' F C D f. close_all k p is = Some k' \<and> fd_ok k' p \<and>
        k' = k\<lparr>fs_nodes := F, closes := C, fdts := D, procs := (procs k)(p := (procs k p)\<lparr>fds := f\<rparr>)\<rparr> \<and>
        length (nodes f) = length ?xs \<and> (\<forall>j < length (nodes f). nodes f ! j = (if j \<in> set is then NULL else ?xs ! j))"
      by (rule Cons(1) [OF Cons(2)]) (use Cons(3,4) in simp_all)
    then obtain k' F C D f where "close_all k p is = Some k'" "fd_ok k' p"
      "k' = k\<lparr>fs_nodes := F, closes := C, fdts := D, procs := (procs k)(p := (procs k p)\<lparr>fds := f\<rparr>)\<rparr>"
      "length (nodes f) = length ?xs" "\<forall>j < length (nodes f). nodes f ! j = (if j \<in> set is then NULL else ?xs ! j)" by blast
    moreover have "\<forall>j < length (nodes f). nodes f ! j = (if j \<in> set (i # is) then NULL else ?xs ! j)"
      using calculation(5) True by auto
    ultimately show ?thesis unfolding eq by blast
  next
    case False
    obtain k1 t where k1: "k_proc_process_close_fd k p (of_nat i) = Some k1" "fd_ok k1 p"
      "fds (procs k1 p) = (fds (procs k p))\<lparr>amount := amount (fds (procs k p)) - 1, nodes := ?xs[i := NULL]\<rparr>"
      "\<exists>F C D f. k1 = k\<lparr>fs_nodes := F, closes := C, fdts := D, procs := (procs k)(p := (procs k p)\<lparr>fds := f\<rparr>)\<rparr>"
      by (rule close_fd_ok [OF Cons(2) refl i(1) False])
    have n1: "nodes (fds (procs k1 p)) = ?xs[i := NULL]" by (simp add: k1(3))
    have "\<exists>k' F C D f. close_all k1 p is = Some k' \<and> fd_ok k' p \<and>
        k' = k1\<lparr>fs_nodes := F, closes := C, fdts := D, procs := (procs k1)(p := (procs k1 p)\<lparr>fds := f\<rparr>)\<rparr> \<and>
        length (nodes f) = length ?xs \<and> (\<forall>j < length (nodes f). nodes f ! j = (if j \<in> set is then NULL else ?xs[i := NULL] ! j))"
      using Cons(1) [OF k1(2)] Cons(3,4) unfolding n1 length_list_update by (metis distinct.simps(2) list.set_intros(2))
    then obtain k' F C D f where k': "close_all k1 p is = Some k'" "fd_ok k' p"
      "k' = k1\<lparr>fs_nodes := F, closes := C, fdts := D, procs := (procs k1)(p := (procs k1 p)\<lparr>fds := f\<rparr>)\<rparr>"
      "length (nodes f) = length ?xs" "\<forall>j < length (nodes f). nodes f ! j = (if j \<in> set is then NULL else ?xs[i := NULL] ! j)" by blast
    have "k' = k\<lparr>fs_nodes := F, closes := C, fdts := D, procs := (procs k)(p := (procs k p)\<lparr>fds := f\<rparr>)\<rparr>"
      using k'(3) k1(4) by auto
    moreover have "close_all k p (i # is) = Some k'" using False k1(1) k'(1) by simp
    moreover have "\<forall>j < length (nodes f). nodes f ! j = (if j \<in> set (i # is) then NULL else ?xs ! j)"
      using k'(4,5) i by (auto simp: nth_list_update)
    ultimately show ?thesis using k'(2,4) by blast
  qed
qed

section \<open>Copying for a child\<close>

lemma copy_fds_ok:
  assumes "\<forall>x \<in> set xs. x \<noteq> NULL \<longrightarrow> (\<exists>t. fdts k x = Some t \<and> fs_nodes k (fd_node t) \<noteq> None)"
    and "length as = length xs" and "distinct as" and "\<forall>a \<in> set as. a \<noteq> NULL \<and> fdts k a = None"
  shows "\<exists>ys k'. copy_fds k xs as = Some (ys, k') \<and> length ys = length xs \<and> (\<exists>D F. k' = k\<lparr>fdts := D, fs_nodes := F\<rparr>) \<and>
    (\<forall>i < length xs. if xs ! i = NULL then ys ! i = NULL
       else ys ! i = as ! i \<and> fdts k' (ys ! i) = Some ((the (fdts k (xs ! i)))\<lparr>fd_links := 1\<rparr>)) \<and>
    (\<forall>x. x \<notin> set as \<longrightarrow> fdts k' x = fdts k x) \<and>
    (\<forall>n. fs_nodes k' n = map_option (\<lambda>f. f\<lparr>links := links f + of_nat (node_refs (fdts k) xs n)\<rparr>) (fs_nodes k n))"
  using assms
proof (induction xs arbitrary: k as)
  case Nil
  have "map_option (\<lambda>f. f\<lparr>links := links f + 0\<rparr>) z = z" for z :: "fs_node option" by (cases z) auto
  moreover have "\<exists>D F. k = k\<lparr>fdts := D, fs_nodes := F\<rparr>"
    by (rule exI [of _ "fdts k"], rule exI [of _ "fs_nodes k"]) simp
  ultimately show ?case by (simp add: node_refs_def)
next
  case (Cons x xs)
  obtain a bs where as: "as = a # bs" using Cons(3) by (cases as) auto
  have bs: "length bs = length xs" "distinct bs" "a \<notin> set bs" using Cons(3,4) as by auto
  show ?case
  proof (cases "x = NULL")
    case True
    have "\<exists>ys k'. copy_fds k xs bs = Some (ys, k') \<and> length ys = length xs \<and> (\<exists>D F. k' = k\<lparr>fdts := D, fs_nodes := F\<rparr>) \<and>
      (\<forall>i < length xs. if xs ! i = NULL then ys ! i = NULL
         else ys ! i = bs ! i \<and> fdts k' (ys ! i) = Some ((the (fdts k (xs ! i)))\<lparr>fd_links := 1\<rparr>)) \<and>
      (\<forall>x. x \<notin> set bs \<longrightarrow> fdts k' x = fdts k x) \<and>
      (\<forall>n. fs_nodes k' n = map_option (\<lambda>f. f\<lparr>links := links f + of_nat (node_refs (fdts k) xs n)\<rparr>) (fs_nodes k n))"
      by (rule Cons(1)) (use Cons(2,5) as bs in auto)
    then obtain ys k' where ih: "copy_fds k xs bs = Some (ys, k')" "length ys = length xs" "(\<exists>D F. k' = k\<lparr>fdts := D, fs_nodes := F\<rparr>)"
      "\<forall>i < length xs. if xs ! i = NULL then ys ! i = NULL
         else ys ! i = bs ! i \<and> fdts k' (ys ! i) = Some ((the (fdts k (xs ! i)))\<lparr>fd_links := 1\<rparr>)"
      "\<forall>x. x \<notin> set bs \<longrightarrow> fdts k' x = fdts k x"
      "\<forall>n. fs_nodes k' n = map_option (\<lambda>f. f\<lparr>links := links f + of_nat (node_refs (fdts k) xs n)\<rparr>) (fs_nodes k n)"
      by blast
    have r: "node_refs (fdts k) (x # xs) n = node_refs (fdts k) xs n" for n using True by (simp add: node_refs_def)
    have "copy_fds k (x # xs) as = Some (NULL # ys, k')" using True as ih(1) by simp
    moreover have "\<forall>i < length (x # xs). if (x # xs) ! i = NULL then (NULL # ys) ! i = NULL
        else (NULL # ys) ! i = as ! i \<and> fdts k' ((NULL # ys) ! i) = Some ((the (fdts k ((x # xs) ! i)))\<lparr>fd_links := 1\<rparr>)"
    proof (intro allI impI)
      fix i assume i: "i < length (x # xs)"
      show "if (x # xs) ! i = NULL then (NULL # ys) ! i = NULL
        else (NULL # ys) ! i = as ! i \<and> fdts k' ((NULL # ys) ! i) = Some ((the (fdts k ((x # xs) ! i)))\<lparr>fd_links := 1\<rparr>)"
      proof (cases i)
        case (Suc j)
        then show ?thesis using ih(4) [rule_format, of j] as i by (cases "xs ! j = NULL") auto
      qed (simp add: True)
    qed
    moreover have "\<forall>x. x \<notin> set as \<longrightarrow> fdts k' x = fdts k x" using ih(5) as by simp
    moreover have "length (NULL # ys) = length (x # xs)" using ih(2) by simp
    ultimately show ?thesis using ih(3,6) unfolding r by blast
  next
    case False
    obtain t n where t: "fdts k x = Some t" "fs_nodes k (fd_node t) = Some n" using Cons(2) False by auto
    let ?k1 = "k\<lparr>fdts := (fdts k)(a \<mapsto> t\<lparr>fd_links := 1\<rparr>), fs_nodes := (fs_nodes k)(fd_node t \<mapsto> n\<lparr>links := links n + 1\<rparr>)\<rparr>"
    have ax: "a \<notin> set (x # xs)" "a \<noteq> NULL" using Cons(2,5) as by auto
    have D: "y \<in> set xs \<Longrightarrow> fdts ?k1 y = fdts k y" for y using ax by auto
    have "\<exists>ys k'. copy_fds ?k1 xs bs = Some (ys, k') \<and> length ys = length xs \<and> (\<exists>D F. k' = ?k1\<lparr>fdts := D, fs_nodes := F\<rparr>) \<and>
      (\<forall>i < length xs. if xs ! i = NULL then ys ! i = NULL
         else ys ! i = bs ! i \<and> fdts k' (ys ! i) = Some ((the (fdts ?k1 (xs ! i)))\<lparr>fd_links := 1\<rparr>)) \<and>
      (\<forall>x. x \<notin> set bs \<longrightarrow> fdts k' x = fdts ?k1 x) \<and>
      (\<forall>m. fs_nodes k' m = map_option (\<lambda>f. f\<lparr>links := links f + of_nat (node_refs (fdts ?k1) xs m)\<rparr>) (fs_nodes ?k1 m))"
    proof (rule Cons(1) [OF _ bs(1,2)])
      show "\<forall>y \<in> set xs. y \<noteq> NULL \<longrightarrow> (\<exists>t. fdts ?k1 y = Some t \<and> fs_nodes ?k1 (fd_node t) \<noteq> None)"
      proof (intro ballI impI)
        fix y assume y: "y \<in> set xs" "y \<noteq> NULL"
        then obtain t' where "fdts k y = Some t'" "fs_nodes k (fd_node t') \<noteq> None" using Cons(2) by auto
        then show "\<exists>t. fdts ?k1 y = Some t \<and> fs_nodes ?k1 (fd_node t) \<noteq> None"
          using D [OF y(1)] by (intro exI [of _ t']) simp
      qed
    qed (use Cons(5) as bs(3) in auto)
    then obtain ys k' where ih: "copy_fds ?k1 xs bs = Some (ys, k')" "length ys = length xs" "(\<exists>D F. k' = ?k1\<lparr>fdts := D, fs_nodes := F\<rparr>)"
      "\<forall>i < length xs. if xs ! i = NULL then ys ! i = NULL
         else ys ! i = bs ! i \<and> fdts k' (ys ! i) = Some ((the (fdts ?k1 (xs ! i)))\<lparr>fd_links := 1\<rparr>)"
      "\<forall>x. x \<notin> set bs \<longrightarrow> fdts k' x = fdts ?k1 x"
      "\<forall>m. fs_nodes k' m = map_option (\<lambda>f. f\<lparr>links := links f + of_nat (node_refs (fdts ?k1) xs m)\<rparr>) (fs_nodes ?k1 m)"
      by blast
    have c: "copy_fds k (x # xs) as = Some (a # ys, k')" using False as t ih(1) by simp
    have e: "\<exists>D F. k' = k\<lparr>fdts := D, fs_nodes := F\<rparr>" using ih(3) by auto
    have s: "\<forall>i < length (x # xs). if (x # xs) ! i = NULL then (a # ys) ! i = NULL
        else (a # ys) ! i = as ! i \<and> fdts k' ((a # ys) ! i) = Some ((the (fdts k ((x # xs) ! i)))\<lparr>fd_links := 1\<rparr>)"
    proof (intro allI impI)
      fix i assume i: "i < length (x # xs)"
      show "if (x # xs) ! i = NULL then (a # ys) ! i = NULL
        else (a # ys) ! i = as ! i \<and> fdts k' ((a # ys) ! i) = Some ((the (fdts k ((x # xs) ! i)))\<lparr>fd_links := 1\<rparr>)"
      proof (cases i)
        case 0
        then show ?thesis using False as t ih(5) bs(3) by simp
      next
        case (Suc j)
        then have "xs ! j \<in> set xs" using i by simp
        then have "xs ! j \<noteq> a" using ax(1) by auto
        then show ?thesis using ih(4) [rule_format, of j] Suc i as by (cases "xs ! j = NULL") auto
      qed
    qed
    have u: "\<forall>x. x \<notin> set as \<longrightarrow> fdts k' x = fdts k x" using ih(5) as by simp
    have r1: "node_refs (fdts ?k1) xs m = node_refs (fdts k) xs m" for m by (rule node_refs_cong) (use D in simp)
    have r2: "node_refs (fdts k) (x # xs) m = node_refs (fdts k) xs m + (if fd_node t = m then 1 else 0)" for m
      using False t by (simp add: node_refs_def)
    have f: "fs_nodes k' m = map_option (\<lambda>f. f\<lparr>links := links f + of_nat (node_refs (fdts k) (x # xs) m)\<rparr>) (fs_nodes k m)" for m
    proof -
      have "fs_nodes k' m = map_option (\<lambda>f. f\<lparr>links := links f + of_nat (node_refs (fdts k) xs m)\<rparr>) (fs_nodes ?k1 m)"
        using ih(6) r1 by simp
      then show ?thesis using t(2) unfolding r2 by (cases "m = fd_node t") (simp_all add: algebra_simps)
    qed
    show ?thesis using c ih(2) e s u f by (intro exI [of _ "a # ys"] exI [of _ k']) simp
  qed
qed

text \<open>Process 7 with descriptors 0 and 2 on the files 256 and 272, the second to be closed on exec.\<close>

definition two_files :: kernel where
  "two_files = blank_kernel\<lparr>current_process := 7,
     procs := (procs blank_kernel)(7 := blank_process\<lparr>fds := \<lparr>nodes = [64, 0, 80], amount = 2, fds_size = 3\<rparr>\<rparr>),
     fdts := (\<lambda>_. None)(64 \<mapsto> \<lparr>fd_node = 256, fd_offset = 0, fd_links = 1\<rparr>, 80 \<mapsto> \<lparr>fd_node = 272, fd_offset = 9, fd_links = 1\<rparr>),
     fs_nodes := (\<lambda>_. None)(256 \<mapsto> \<lparr>links = 2, mode = 1\<rparr>, 272 \<mapsto> \<lparr>links = 1, mode = 258\<rparr>)\<rparr>"

lemma two_files_ok: "fd_ok two_files 7" "nodes (fds (procs two_files 7)) = [64, 0, 80]"
  by (auto simp: fd_ok_def two_files_def node_refs_def split: if_split_asm)

section \<open>Properties\<close>

text \<open>
  opening a file always succeeds, returns the lowest number that is not in use and puts the new
  descriptor, at offset 0 and with one reference, there; the other slots, the other processes and
  the file nodes do not change, \<open>fd2fdt\<close> finds the descriptor, and the table stays well formed. The
  end of the search loop that the code marks unreachable is never reached.
\<close>

theorem open_node_lowest_free:
  assumes "fd_ok k p" and "unat (fds_size (fds (procs k p))) < 2 ^ 31"
    and "fdt \<noteq> NULL" and "fdts k fdt = None" and "node \<noteq> NULL" and "fs_nodes k node = Some n"
    and "node_refs (fdts k) (nodes (fds (procs k p))) node < unat (links n)"
    and "xs = nodes (fds (procs k p))"
  shows "\<exists>fd k'. k_proc_process_open_node k p node fdt = Some (fd, k') \<and> fd_ok k' p \<and>
    (\<forall>j < unat fd. j < length xs \<and> xs ! j \<noteq> NULL) \<and> (unat fd < length xs \<longrightarrow> xs ! unat fd = NULL) \<and>
    fd2fdt (fds (procs k' p)) (int (unat fd)) = fdt \<and>
    fdts k' fdt = Some \<lparr>fd_node = node, fd_offset = 0, fd_links = 1\<rparr> \<and> (\<forall>x. x \<noteq> fdt \<longrightarrow> fdts k' x = fdts k x) \<and>
    (\<forall>i < length xs. i \<noteq> unat fd \<longrightarrow> fd2fdt (fds (procs k' p)) (int i) = xs ! i) \<and>
    fs_nodes k' = fs_nodes k \<and> (\<forall>p'. p' \<noteq> p \<longrightarrow> procs k' p' = procs k p')"
proof -
  let ?j = "length (takeWhile (\<lambda>x. x \<noteq> NULL) xs)"
  have small: "unat (fds_size (fds (procs k p))) < 2 ^ 32 - 1" using assms(2) by simp
  obtain k' where k': "k_proc_process_open_node k p node fdt = Some (of_nat ?j, k')" "fd_ok k' p" "?j < 2 ^ 32"
    "nodes (fds (procs k' p)) = take ?j xs @ fdt # drop (Suc ?j) xs"
    "fdts k' = (fdts k)(fdt \<mapsto> \<lparr>fd_node = node, fd_offset = 0, fd_links = 1\<rparr>)"
    "fs_nodes k' = fs_nodes k" "\<forall>p'. p' \<noteq> p \<longrightarrow> procs k' p' = procs k p'"
    using open_node_ok [OF assms(1) small assms(3-8) refl] by blast
  have u: "unat (of_nat ?j :: u32) = ?j" using k'(3) by (simp add: unat_of_nat)
  have jl: "?j \<le> length xs" by (rule length_takeWhile_le)
  have low: "j < length xs \<and> xs ! j \<noteq> NULL" if "j < ?j" for j
    using that jl nth_mem [of j "takeWhile (\<lambda>x. x \<noteq> NULL) xs"] by (auto simp: takeWhile_nth dest: set_takeWhileD)
  have hole: "?j < length xs \<longrightarrow> xs ! ?j = NULL" using nth_length_takeWhile [of "\<lambda>x. x \<noteq> NULL" xs] by auto
  have len: "length (nodes (fds (procs k' p))) = unat (fds_size (fds (procs k' p)))" by (rule fd_ok_length [OF k'(2)])
  have at: "fd2fdt (fds (procs k' p)) (int ?j) = fdt"
    using fd2fdt_nth [OF len, of ?j] k'(4) jl by (simp add: nth_append)
  have other: "fd2fdt (fds (procs k' p)) (int i) = xs ! i" if "i < length xs" "i \<noteq> ?j" for i
    using fd2fdt_nth [OF len, of i] nth_replaced [OF that(1) jl that(2), of fdt] jl that unfolding k'(4) by simp
  show ?thesis
    by (rule exI [of _ "of_nat ?j"], rule exI [of _ k'], unfold u) (use k' low hole at other in auto)
qed

theorem open_node_lowest_free_witness:
  "\<exists>fd k'. k_proc_process_open_node two_files 7 256 96 = Some (fd, k') \<and> fd_ok k' 7 \<and> \<not> 1 < unat fd \<and>
     fd2fdt (fds (procs k' 7)) (int (unat fd)) = 96"
proof -
  have a: "unat (fds_size (fds (procs two_files 7))) < 2 ^ 31" "fdts two_files 96 = None"
    "fs_nodes two_files 256 = Some \<lparr>links = 2, mode = 1\<rparr>"
    "node_refs (fdts two_files) (nodes (fds (procs two_files 7))) 256 < unat (links \<lparr>links = 2, mode = 1\<rparr>)"
    by (simp_all add: two_files_def node_refs_def)
  have "(96 :: ptr) \<noteq> NULL" "(256 :: ptr) \<noteq> NULL" by simp_all
  from open_node_lowest_free [OF two_files_ok(1) a(1) this(1) a(2) this(2) a(3,4) refl, unfolded two_files_ok(2)]
  obtain fd k' where r: "k_proc_process_open_node two_files 7 256 96 = Some (fd, k')" "fd_ok k' 7"
    "\<forall>j < unat fd. j < length [64, 0, 80 :: ptr] \<and> [64, 0, 80] ! j \<noteq> NULL" "fd2fdt (fds (procs k' 7)) (int (unat fd)) = 96"
    by blast
  moreover have "\<not> 1 < unat fd" using r(3) [rule_format, of 1] by auto
  ultimately show ?thesis by blast
qed


text \<open>
  closing a number outside the table changes nothing. Closing a used one empties its slot and
  no other, takes one reference off the descriptor, which is freed with the last one, and one off
  its file node; with the last of these the driver is told once and the node is freed. The table
  stays well formed.
\<close>

theorem close_fd_releases:
  assumes "fd_ok k p" and "xs = nodes (fds (procs k p))"
  shows "(\<forall>fd. length xs \<le> unat fd \<longrightarrow> k_proc_process_close_fd k p fd = Some k) \<and>
    (\<forall>fd. unat fd < length xs \<and> xs ! unat fd \<noteq> NULL \<longrightarrow>
      (\<exists>k' t n. k_proc_process_close_fd k p fd = Some k' \<and> fd_ok k' p \<and>
         nodes (fds (procs k' p)) = xs[unat fd := NULL] \<and> fdts k (xs ! unat fd) = Some t \<and>
         fdts k' = (fdts k)(xs ! unat fd := (if fd_links t = 1 then None else Some (t\<lparr>fd_links := fd_links t - 1\<rparr>))) \<and>
         fs_nodes k (fd_node t) = Some n \<and>
         fs_nodes k' = (fs_nodes k)(fd_node t := (if links n = 1 then None else Some (n\<lparr>links := links n - 1\<rparr>))) \<and>
         closes k' = (if links n = 1 then closes k @ [fd_node t] else closes k) \<and>
         (\<forall>p'. p' \<noteq> p \<longrightarrow> procs k' p' = procs k p')))"
proof (intro conjI allI impI)
  fix fd :: u32
  assume "length xs \<le> unat fd"
  then show "k_proc_process_close_fd k p fd = Some k"
    using fd_ok_length [OF assms(1)] assms(2) by (simp add: k_proc_process_close_fd_def word_le_nat_alt)
next
  fix fd :: u32
  assume a: "unat fd < length xs \<and> xs ! unat fd \<noteq> NULL"
  obtain k' t where c: "k_proc_process_close_fd k p (of_nat (unat fd)) = Some k'" "fd_ok k' p" "fdts k (xs ! unat fd) = Some t"
    "fds (procs k' p) = (fds (procs k p))\<lparr>amount := amount (fds (procs k p)) - 1, nodes := xs[unat fd := NULL]\<rparr>"
    "fdts k' = (fdts k)(xs ! unat fd := (if fd_links t = 1 then None else Some (t\<lparr>fd_links := fd_links t - 1\<rparr>)))"
    "\<exists>F C D f. k' = k\<lparr>fs_nodes := F, closes := C, fdts := D, procs := (procs k)(p := (procs k p)\<lparr>fds := f\<rparr>)\<rparr>"
    "\<forall>n. fd_node t \<noteq> NULL \<and> fs_nodes k (fd_node t) = Some n \<longrightarrow>
       fs_nodes k' = (fs_nodes k)(fd_node t := (if links n = 1 then None else Some (n\<lparr>links := links n - 1\<rparr>))) \<and>
       closes k' = (if links n = 1 then closes k @ [fd_node t] else closes k)"
    by (rule close_fd_ok [OF assms(1,2) conjunct1 [OF a] conjunct2 [OF a]])
  have x: "xs ! unat fd \<in> set (nodes (fds (procs k p)))" using a assms(2) by simp
  have "fd_node t \<noteq> NULL" using fd_ok_slot [OF assms(1) x] a c(3) by auto
  moreover obtain n where "fs_nodes k (fd_node t) = Some n" using fd_ok_file [OF assms(1) x] a c(3) by (metis option.inject)
  moreover have "\<forall>p'. p' \<noteq> p \<longrightarrow> procs k' p' = procs k p'" using c(6) by auto
  moreover have "nodes (fds (procs k' p)) = xs[unat fd := NULL]" by (simp add: c(4))
  moreover have "k_proc_process_close_fd k p fd = Some k'" using c(1) by simp
  ultimately show "\<exists>k' t n. k_proc_process_close_fd k p fd = Some k' \<and> fd_ok k' p \<and>
         nodes (fds (procs k' p)) = xs[unat fd := NULL] \<and> fdts k (xs ! unat fd) = Some t \<and>
         fdts k' = (fdts k)(xs ! unat fd := (if fd_links t = 1 then None else Some (t\<lparr>fd_links := fd_links t - 1\<rparr>))) \<and>
         fs_nodes k (fd_node t) = Some n \<and>
         fs_nodes k' = (fs_nodes k)(fd_node t := (if links n = 1 then None else Some (n\<lparr>links := links n - 1\<rparr>))) \<and>
         closes k' = (if links n = 1 then closes k @ [fd_node t] else closes k) \<and>
         (\<forall>p'. p' \<noteq> p \<longrightarrow> procs k' p' = procs k p')"
    using c(2,3,5,7) by blast
qed

theorem close_fd_releases_witness:
  "\<exists>k'. k_proc_process_close_fd two_files 7 2 = Some k' \<and> nodes (fds (procs k' 7)) = [64, 0, 0] \<and>
     fdts k' 80 = None \<and> fs_nodes k' 272 = None \<and> closes k' = [272]"
proof -
  have "unat (2 :: u32) < length [64, 0, 80 :: ptr] \<and> [64, 0, 80 :: ptr] ! unat (2 :: u32) \<noteq> NULL" by simp
  then obtain k' t n where k': "k_proc_process_close_fd two_files 7 2 = Some k'" "nodes (fds (procs k' 7)) = [64, 0, 80][unat (2 :: u32) := NULL]"
    "fdts two_files ([64, 0, 80] ! unat (2 :: u32)) = Some t"
    "fdts k' = (fdts two_files)([64, 0, 80] ! unat (2 :: u32) := (if fd_links t = 1 then None else Some (t\<lparr>fd_links := fd_links t - 1\<rparr>)))"
    "fs_nodes two_files (fd_node t) = Some n"
    "fs_nodes k' = (fs_nodes two_files)(fd_node t := (if links n = 1 then None else Some (n\<lparr>links := links n - 1\<rparr>)))"
    "closes k' = (if links n = 1 then closes two_files @ [fd_node t] else closes two_files)"
    using close_fd_releases [OF two_files_ok(1) two_files_ok(2) [symmetric]] by blast
  then have "t = \<lparr>fd_node = 272, fd_offset = 9, fd_links = 1\<rparr>" by (simp add: two_files_def)
  moreover have "n = \<lparr>links = 1, mode = 258\<rparr>" using k'(5) calculation by (simp add: two_files_def)
  ultimately show ?thesis using k' by (auto simp: two_files_def blank_kernel_def)
qed


text \<open>
  \<open>k_proc_process_prepare_exec\<close> always succeeds and closes exactly the descriptors whose file was
  opened with \<open>O_CLOEXEC\<close>; every other slot keeps its descriptor and the table stays well formed.
\<close>

theorem exec_closes_cloexec:
  assumes "p = current_process k" and "fd_ok k p" and "xs = nodes (fds (procs k p))"
  shows "\<exists>k'. k_proc_process_prepare_exec k = Some k' \<and> fd_ok k' p \<and> length (nodes (fds (procs k' p))) = length xs \<and>
    (\<forall>i < length xs. nodes (fds (procs k' p)) ! i = (if xs ! i \<noteq> NULL \<and> cloexec k (xs ! i) then NULL else xs ! i))"
proof -
  have len: "length xs = unat (fds_size (fds (procs k p)))" using fd_ok_length [OF assms(2)] assms(3) by simp
  obtain k' where k': "exec_loop k p [0..<length xs] = Some k'" "fd_ok k' p" "fds_size (fds (procs k' p)) = fds_size (fds (procs k p))"
    "\<forall>j < length xs. nodes (fds (procs k' p)) ! j =
       (if j \<in> set [0..<length xs] \<and> xs ! j \<noteq> NULL \<and> cloexec k (xs ! j) then NULL else xs ! j)"
    using exec_loop_ok [OF assms(2), of "[0..<length xs]"] assms(3) by auto
  have "length (nodes (fds (procs k' p))) = length xs" using fd_ok_length [OF k'(2)] k'(3) len by simp
  moreover have "k_proc_process_prepare_exec k = Some k'"
    using k'(1) assms(1) len by (simp add: k_proc_process_prepare_exec_def Let_def)
  ultimately show ?thesis using k'(2,4) by auto
qed

theorem exec_closes_cloexec_witness:
  "\<exists>k'. k_proc_process_prepare_exec two_files = Some k' \<and> nodes (fds (procs k' 7)) ! 0 = 64 \<and> nodes (fds (procs k' 7)) ! 2 = NULL"
proof -
  have c: "7 = current_process two_files" "\<not> cloexec two_files 64" "cloexec two_files 80"
    by (simp_all add: two_files_def cloexec_def)
  obtain k' where "k_proc_process_prepare_exec two_files = Some k'"
    "\<forall>i < length [64, 0, 80 :: ptr]. nodes (fds (procs k' 7)) ! i =
       (if [64, 0, 80] ! i \<noteq> NULL \<and> cloexec two_files ([64, 0, 80] ! i) then NULL else [64, 0, 80] ! i)"
    using exec_closes_cloexec [OF c(1) two_files_ok(1) two_files_ok(2) [symmetric]] by blast
  then show ?thesis using c(2,3) by (intro exI [of _ k']) simp
qed


end
