(* ===== verification/Lifecycle.thy ===== *)
theory Lifecycle
  imports Signals FdTable
begin

text \<open>
  The life of a process, from \<^verbatim>\<open>kernel/src/proc/process.c\<close>: \<open>fork\<close>, \<open>exit\<close>, \<open>waitpid\<close> and the
  destruction of a waited-for child. The tree operations are those of \<^verbatim>\<open>types/src/tree.c\<close> on the
  node of the process. Address spaces (page directories, kernel stacks, memory mappings, floating
  point state) are not part of the model; addresses returned by the kernel heap are arguments.
\<close>

section \<open>Operations\<close>

definition k_proc_process_find_by_pid :: "kernel \<Rightarrow> u32 \<Rightarrow> ptr" where
  "k_proc_process_find_by_pid k n =
     (case find (\<lambda>p. pid (procs k p) = n) (process_list k) of None \<Rightarrow> NULL | Some p \<Rightarrow> p)"

definition spawn :: "kernel \<Rightarrow> ptr \<Rightarrow> ptr \<Rightarrow> kernel" where
  "spawn k p par =
     (let k1 = k\<lparr>process_list := process_list k @ [p]\<rparr>;
          k2 = upd_proc k1 p (\<lambda>x. x\<lparr>parent := NULL, children := []\<rparr>)
      in if par \<noteq> NULL
         then let k3 = upd_proc k2 p (\<lambda>x. x\<lparr>uid := uid (procs k2 par), group_id := pid (procs k2 par), parent := par\<rparr>)
              in upd_proc k3 par (\<lambda>x. x\<lparr>children := children x @ [p]\<rparr>)
         else k2)"

text \<open>The descriptor of the child before its descriptors are copied.\<close>

definition fork_process :: "process \<Rightarrow> u32 \<Rightarrow> ptr \<Rightarrow> process" where
  "fork_process src n wq = src\<lparr>pid := n, pstate := PROCESS_STATE_STARTING, signals_ignored := 0, signal_queue := 0,
     signals := (\<lambda>_. \<lparr>handler = NULL, sig_flags = 0\<rparr>), wait_node := NULL, timeout_node := NULL, wait_queue := wq,
     block_node := Some [], kernel_stack_guard := GUARD_MAGIC\<rparr>"

definition k_proc_process_fork :: "kernel \<Rightarrow> ptr \<Rightarrow> ptr \<Rightarrow> ptr list \<Rightarrow> (u32 \<times> kernel) option" where
  "k_proc_process_fork k new wq as =
     (if process_list k = [] then Some (0, k)
      else let src = current_process k;
               n = next_pid k;
               k1 = k\<lparr>next_pid := n + 1, procs := (procs k)(new := fork_process (procs k src) n wq),
                      queues := (queues k)(wq := [])\<rparr>
           in do {
             (ys, k2) \<leftarrow> copy_fds k1 (nodes (fds (procs k1 src))) as;
             let k3 = upd_proc k2 new (\<lambda>x. x\<lparr>fds := (fds x)\<lparr>nodes := ys\<rparr>\<rparr>);
             k4 \<leftarrow> k_proc_process_mark_ready (spawn k3 new src) new;
             Some (n, k4) })"

text \<open>
  The children of an exiting process go to the root. The loop re-reads the length of the list it
  appends to when the process is the root itself: then it does not end.
\<close>

fun reparent :: "kernel \<Rightarrow> ptr list \<Rightarrow> kernel" where
  "reparent k [] = k"
| "reparent k (c # cs) =
     (let k1 = upd_proc k c (\<lambda>x. x\<lparr>parent := process_root k\<rparr>)
      in reparent (upd_proc k1 (process_root k) (\<lambda>x. x\<lparr>children := children x @ [c]\<rparr>)) cs)"

abbreviation (input) SIGCHLD :: int where "SIGCHLD \<equiv> 17"

text \<open>\<open>k_proc_process_exit\<close> up to the switch to another process, which does not return.\<close>

definition exit_prepare :: "kernel \<Rightarrow> ptr \<Rightarrow> u32 \<Rightarrow> kernel option" where
  "exit_prepare k p code =
     do {
       let k1 = upd_proc k p (\<lambda>x. x\<lparr>status := code\<rparr>);
       k2 \<leftarrow> close_all k1 p [0..<unat (fds_size (fds (procs k1 p)))];
       let k3 = upd_proc k2 p (\<lambda>x. x\<lparr>pstate := PROCESS_STATE_FINISHED\<rparr>);
       k4 \<leftarrow> (if p = process_root k3 \<and> children (procs k3 p) \<noteq> [] then None else Some (reparent k3 (children (procs k3 p))));
       let par = parent (procs k4 p);
       k5 \<leftarrow> (if par = NULL then Some k4
              else do { ka \<leftarrow> k_proc_process_wakeup_queue k4 (wait_queue (procs k4 par));
                        k_proc_process_send_signal ka par SIGCHLD });
       k6 \<leftarrow> k_proc_process_invalidate_locks k5 p;
       Some (upd_proc k6 p (\<lambda>x. x\<lparr>block_node := None\<rparr>)) }"

definition k_proc_process_exit :: "u64 \<Rightarrow> u64 \<Rightarrow> kernel \<Rightarrow> ptr \<Rightarrow> u32 \<Rightarrow> kernel option" where
  "k_proc_process_exit t1 t2 k p code = do { k' \<leftarrow> exit_prepare k p code; k_proc_process_switch t1 t2 k' }"

text \<open>\<open>tree_remove_node\<close> and the process list; the descriptor itself is freed.\<close>

definition k_proc_process_destroy :: "kernel \<Rightarrow> ptr \<Rightarrow> kernel" where
  "k_proc_process_destroy k p =
     (let k1 = k\<lparr>process_list := remove1 p (process_list k)\<rparr>; par = parent (procs k1 p)
      in if par \<noteq> NULL then upd_proc k1 par (\<lambda>x. x\<lparr>children := remove1 p (children x)\<rparr>) else k1)"

definition waitpid_can_pick :: "process \<Rightarrow> process \<Rightarrow> int \<Rightarrow> bool" where
  "waitpid_can_pick c par n =
     (if n < - 1 then sint (pid c) = - n
      else if n = 0 then group_id c = group_id par
      else if n > 0 then sint (pid c) = n
      else True)"

text \<open>The scan of the children: whether one matched, and the first that matched and has finished.\<close>

fun wait_scan :: "kernel \<Rightarrow> ptr \<Rightarrow> int \<Rightarrow> ptr list \<Rightarrow> bool \<Rightarrow> bool \<times> ptr option" where
  "wait_scan k p n [] was = (was, None)"
| "wait_scan k p n (c # cs) was =
     (if waitpid_can_pick (procs k c) (procs k p) n
      then if pstate (procs k c) = PROCESS_STATE_FINISHED then (True, Some c) else wait_scan k p n cs True
      else wait_scan k p n cs was)"

datatype wait_result =
    WaitError u32
  | Reaped u32 u32 kernel
  | WaitSleep

text \<open>
  One turn of the loop of \<open>k_proc_process_waitpid\<close>: an error, the pid and status of a child that is
  now gone, or a sleep on the wait queue of the caller, after which the loop starts over. The pid
  is read from the descriptor after it was freed.
\<close>

definition waitpid_turn :: "kernel \<Rightarrow> ptr \<Rightarrow> int \<Rightarrow> int \<Rightarrow> wait_result" where
  "waitpid_turn k p n options =
     (if options > 2 then WaitError (- EINVAL)
      else case wait_scan k p n (children (procs k p)) False of
        (was, child) \<Rightarrow>
          if \<not> was then WaitError (- ECHILD)
          else case child of
            Some c \<Rightarrow> Reaped (pid (procs k c)) (status (procs k c)) (k_proc_process_destroy k c)
          | None \<Rightarrow> if even options then WaitSleep else WaitError (- EINTR))"

section \<open>Waiting for a child\<close>

lemma wait_scan_spec:
  "wait_scan k p n cs was =
     (case find (\<lambda>c. waitpid_can_pick (procs k c) (procs k p) n \<and> pstate (procs k c) = PROCESS_STATE_FINISHED) cs of
        Some c \<Rightarrow> (True, Some c)
      | None \<Rightarrow> (was \<or> (\<exists>c \<in> set cs. waitpid_can_pick (procs k c) (procs k p) n), None))"
  by (induction cs arbitrary: was) (auto split: option.splits)

text \<open>
  \<open>waitpid\<close> with options above \<open>WUNTRACED\<close> fails with \<open>EINVAL\<close>; otherwise it fails with \<open>ECHILD\<close>
  exactly when no child matches. It returns the pid and the exit status of the first matching
  child that has finished and takes it out of the process list and of the children of its parent,
  changing no other process. With matching children of which none has finished it sleeps, or fails
  with \<open>EINTR\<close> under \<open>WNOHANG\<close>.
\<close>

theorem waitpid_turn_spec:
  assumes "cs = children (procs k p)" and "M = (\<lambda>c. waitpid_can_pick (procs k c) (procs k p) n)"
    and "F = (\<lambda>c. M c \<and> pstate (procs k c) = PROCESS_STATE_FINISHED)" and "options \<le> 2"
  shows "(\<forall>opt. opt > 2 \<longrightarrow> waitpid_turn k p n opt = WaitError (- EINVAL)) \<and>
    (waitpid_turn k p n options = WaitError (- ECHILD) \<longleftrightarrow> (\<forall>c \<in> set cs. \<not> M c)) \<and>
    ((\<exists>c \<in> set cs. M c) \<and> (\<forall>c \<in> set cs. \<not> F c) \<longrightarrow>
       waitpid_turn k p n options = (if even options then WaitSleep else WaitError (- EINTR))) \<and>
    (\<forall>us c vs. cs = us @ c # vs \<and> (\<forall>x \<in> set us. \<not> F x) \<and> F c \<longrightarrow>
       (\<exists>k'. waitpid_turn k p n options = Reaped (pid (procs k c)) (status (procs k c)) k' \<and>
          process_list k' = remove1 c (process_list k) \<and>
          (\<forall>q. procs k' q = (if q = parent (procs k c) \<and> q \<noteq> NULL
             then (procs k q)\<lparr>children := remove1 c (children (procs k q))\<rparr> else procs k q))))"
proof -
  let ?f = "find F cs"
  have none: "?f = None \<longleftrightarrow> (\<forall>c \<in> set cs. \<not> F c)" by (auto simp: find_None_iff)
  have turn: "waitpid_turn k p n options = (case ?f of
      Some c \<Rightarrow> Reaped (pid (procs k c)) (status (procs k c)) (k_proc_process_destroy k c)
    | None \<Rightarrow> if \<exists>c \<in> set cs. M c then if even options then WaitSleep else WaitError (- EINTR) else WaitError (- ECHILD))"
    using assms by (simp add: waitpid_turn_def wait_scan_spec split: option.splits)
  have first: "?f = Some c" if "cs = us @ c # vs" "\<forall>x \<in> set us. \<not> F x" "F c" for us c vs
    unfolding that(1) by (rule find_first [OF that(2,3)])
  have d: "process_list (k_proc_process_destroy k c) = remove1 c (process_list k)"
    "procs (k_proc_process_destroy k c) q = (if q = parent (procs k c) \<and> q \<noteq> NULL
       then (procs k q)\<lparr>children := remove1 c (children (procs k q))\<rparr> else procs k q)" for c q
    by (simp_all add: k_proc_process_destroy_def Let_def)
  have "?f = Some c \<Longrightarrow> \<exists>x \<in> set cs. M x" for c using assms(3) by (auto simp: find_Some_iff)
  then have ech: "waitpid_turn k p n options = WaitError (- ECHILD) \<longleftrightarrow> (\<forall>c \<in> set cs. \<not> M c)"
    unfolding turn by (cases ?f) auto
  have sl: "(\<exists>c \<in> set cs. M c) \<and> (\<forall>c \<in> set cs. \<not> F c) \<longrightarrow>
       waitpid_turn k p n options = (if even options then WaitSleep else WaitError (- EINTR))"
    unfolding turn using none by auto
  have inval: "\<forall>opt. opt > 2 \<longrightarrow> waitpid_turn k p n opt = WaitError (- EINVAL)" by (simp add: waitpid_turn_def)
  have reap: "\<forall>us c vs. cs = us @ c # vs \<and> (\<forall>x \<in> set us. \<not> F x) \<and> F c \<longrightarrow>
       (\<exists>k'. waitpid_turn k p n options = Reaped (pid (procs k c)) (status (procs k c)) k' \<and>
          process_list k' = remove1 c (process_list k) \<and>
          (\<forall>q. procs k' q = (if q = parent (procs k c) \<and> q \<noteq> NULL
             then (procs k q)\<lparr>children := remove1 c (children (procs k q))\<rparr> else procs k q)))"
  proof (intro allI impI)
    fix us c vs assume "cs = us @ c # vs \<and> (\<forall>x \<in> set us. \<not> F x) \<and> F c"
    then have "?f = Some c" using first by blast
    then have "waitpid_turn k p n options = Reaped (pid (procs k c)) (status (procs k c)) (k_proc_process_destroy k c)"
      unfolding turn by simp
    then show "\<exists>k'. waitpid_turn k p n options = Reaped (pid (procs k c)) (status (procs k c)) k' \<and>
          process_list k' = remove1 c (process_list k) \<and>
          (\<forall>q. procs k' q = (if q = parent (procs k c) \<and> q \<noteq> NULL
             then (procs k q)\<lparr>children := remove1 c (children (procs k q))\<rparr> else procs k q))"
      using d by blast
  qed
  show ?thesis using inval ech sl reap by blast
qed

definition family :: kernel where
  "family = blank_kernel\<lparr>process_list := [7, 8, 9],
     procs := (procs blank_kernel)(7 := blank_process\<lparr>pid := 3, children := [8, 9]\<rparr>,
       8 := blank_process\<lparr>pid := 4, parent := 7, pstate := 1\<rparr>,
       9 := blank_process\<lparr>pid := 5, parent := 7, pstate := 2, status := 42\<rparr>)\<rparr>"

theorem waitpid_turn_spec_witness:
  "\<exists>k'. waitpid_turn family 7 (- 1) 0 = Reaped 5 42 k' \<and> process_list k' = [7, 8] \<and> waitpid_turn family 7 4 0 = WaitSleep"
proof -
  have c: "children (procs family 7) = [8] @ 9 # []" "procs family 9 = blank_process\<lparr>pid := 5, parent := 7, pstate := 2, status := 42\<rparr>"
    "procs family 8 = blank_process\<lparr>pid := 4, parent := 7, pstate := 1\<rparr>" "process_list family = [7, 8, 9]"
    by (simp_all add: family_def)
  have le: "(0 :: int) \<le> 2" by simp
  note a = waitpid_turn_spec [OF refl refl refl le, of family 7 "- 1"] and b = waitpid_turn_spec [OF refl refl refl le, of family 7 4]
  have "\<exists>k'. waitpid_turn family 7 (- 1) 0 = Reaped (pid (procs family 9)) (status (procs family 9)) k' \<and>
      process_list k' = remove1 9 (process_list family)"
    using conjunct2 [OF conjunct2 [OF conjunct2 [OF a]], rule_format, of "[8]" 9 "[]"] c(1,2,3)
    by (auto simp: waitpid_can_pick_def)
  moreover have "waitpid_turn family 7 4 0 = WaitSleep"
    using conjunct1 [OF conjunct2 [OF conjunct2 [OF b]]] c(1,2,3)
    by (auto simp: waitpid_can_pick_def blank_process_def)
  ultimately show ?thesis using c(2,4) by simp
qed

section \<open>Fork\<close>

definition fresh_process :: "kernel \<Rightarrow> ptr \<Rightarrow> bool" where
  "fresh_process k p \<longleftrightarrow> p \<noteq> NULL \<and> p \<notin> set (process_list k) \<and> (\<forall>q. p \<notin> set (queues k q)) \<and>
     wait_node (procs k p) = NULL \<and> timeout_node (procs k p) = NULL"

lemma sched_inv_new:
  assumes inv: "sched_inv k" and fresh: "fresh_process k p" and wq: "queues k wq = []"
    and k': "queues k' = (queues k)(wq := [])" "wnodes k' = wnodes k" "sleep_queue k' = sleep_queue k"
    and P: "block_node (procs k' p) = Some []" "wait_node (procs k' p) = NULL" "timeout_node (procs k' p) = NULL"
    and same: "\<And>q. q \<noteq> p \<Longrightarrow> block_node (procs k' q) = block_node (procs k q) \<and> wait_node (procs k' q) = wait_node (procs k q) \<and>
       timeout_node (procs k' q) = timeout_node (procs k q) \<and> pstate (procs k' q) = pstate (procs k q)"
  shows "sched_inv k'"
proof -
  obtain xs where ok: "links_ok k" "timers_ok k xs" using inv by (auto simp: sched_inv_def)
  have q: "queues k' = queues k" using k'(1) wq by auto
  have l: "links_ok k'"
    unfolding links_ok_def q
  proof (intro allI)
    fix r w
    have c: "count_list (queues k w) r = (case block_node (procs k r) of None \<Rightarrow> 0 | Some os \<Rightarrow> count_list os w)"
      using ok(1) by (simp add: links_ok_def)
    show "count_list (queues k w) r = (case block_node (procs k' r) of None \<Rightarrow> 0 | Some os \<Rightarrow> count_list os w)"
    proof (cases "r = p")
      case True
      then have "count_list (queues k w) r = 0" using fresh by (simp add: fresh_process_def count_list_0_iff)
      then show ?thesis using True P(1) by simp
    qed (use c same in simp)
  qed
  have h: "holds_node (procs k' r) x = holds_node (procs k r) x" for r x
    using same [of r] P(2,3) fresh by (cases "r = p") (auto simp: holds_node_def fresh_process_def)
  have "timers_ok k' xs"
    unfolding timers_ok_def k'(2,3) h
  proof (intro conjI)
    show "sq_list (wnodes k) (sleep_queue k) xs" "distinct xs" using timers_okD(1,2) [OF ok(2)] .
    show "\<forall>r x. holds_node (procs k r) x \<longrightarrow> pstate (procs k' r) \<noteq> PROCESS_STATE_FINISHED \<and>
        block_node (procs k' r) \<noteq> None \<and> (\<exists>n. wnodes k x = Some n \<and> wn_process n = r)"
    proof (intro allI impI)
      fix r x assume a: "holds_node (procs k r) x"
      then have "r \<noteq> p" using fresh by (auto simp: holds_node_def fresh_process_def)
      then show "pstate (procs k' r) \<noteq> PROCESS_STATE_FINISHED \<and>
          block_node (procs k' r) \<noteq> None \<and> (\<exists>n. wnodes k x = Some n \<and> wn_process n = r)"
        using timers_ok_held [OF ok(2) a] same by simp
    qed
    show "\<forall>r. wait_node (procs k' r) = timeout_node (procs k' r) \<longrightarrow> wait_node (procs k' r) = NULL"
    proof
      fix r show "wait_node (procs k' r) = timeout_node (procs k' r) \<longrightarrow> wait_node (procs k' r) = NULL"
        using timers_ok_two [OF ok(2), of r] same [of r] P(2) by (cases "r = p") simp_all
    qed
    show "\<forall>x \<in> set xs. \<exists>n. wnodes k x = Some n \<and> holds_node (procs k (wn_process n)) x"
      using timers_ok_queued [OF ok(2)] by blast
  qed
  with l show ?thesis by (auto simp: sched_inv_def)
qed

text \<open>
  C34: \<open>fork\<close> returns the next process number and leaves a child with that number that is the last
  child of the caller, has its user and its number as group, no signals, timers or waits, and
  stands at the end of the ready queue. Its descriptor table has the caller's descriptors at the
  same numbers, with the same file and offset, each in a record of its own; every file node gets
  as many new references as the table refers to it. The caller differs only in its children.
\<close>

theorem fork_child:
  assumes "sched_inv k" and "src = current_process k" and "src \<noteq> NULL" and "process_list k \<noteq> []" and "fd_ok k src"
    and "fresh_process k new" and "new \<noteq> src" and "queues k wq = []"
    and "xs = nodes (fds (procs k src))" and "length as = length xs" and "distinct as"
    and "\<forall>a \<in> set as. a \<noteq> NULL \<and> fdts k a = None"
  shows "\<exists>k'. k_proc_process_fork k new wq as = Some (next_pid k, k') \<and> sched_inv k' \<and> next_pid k' = next_pid k + 1 \<and>
    process_list k' = process_list k @ [new] \<and> ready_queue k' = ready_queue k @ [new] \<and>
    procs k' src = (procs k src)\<lparr>children := children (procs k src) @ [new]\<rparr> \<and>
    (\<forall>p. p \<noteq> src \<and> p \<noteq> new \<longrightarrow> procs k' p = procs k p) \<and>
    (let c = procs k' new in pid c = next_pid k \<and> parent c = src \<and> children c = [] \<and> uid c = uid (procs k src) \<and>
       group_id c = pid (procs k src) \<and> PROCESS_IS_SCHEDULABLE c \<and> signal_queue c = 0 \<and> signals_ignored c = 0 \<and>
       (\<forall>s. handler (signals c s) = NULL) \<and> block_node c = Some [] \<and> wait_queue c = wq \<and>
       length (nodes (fds c)) = length xs \<and> fds_size (fds c) = fds_size (fds (procs k src)) \<and>
       (\<forall>i < length xs. if xs ! i = NULL then nodes (fds c) ! i = NULL
          else fdts k' (nodes (fds c) ! i) = Some ((the (fdts k (xs ! i)))\<lparr>fd_links := 1\<rparr>))) \<and>
    (\<forall>i < length xs. fdts k' (xs ! i) = fdts k (xs ! i) \<or> xs ! i = NULL) \<and>
    (\<forall>n. fs_nodes k' n = map_option (\<lambda>f. f\<lparr>links := links f + of_nat (node_refs (fdts k) xs n)\<rparr>) (fs_nodes k n))"
proof -
  let ?k1 = "k\<lparr>next_pid := next_pid k + 1, procs := (procs k)(new := fork_process (procs k src) (next_pid k) wq),
      queues := (queues k)(wq := [])\<rparr>"
  have slot: "\<exists>t. fdts k x = Some t \<and> fs_nodes k (fd_node t) \<noteq> None" if "x \<in> set xs" "x \<noteq> NULL" for x
    using fd_ok_file [OF assms(5), of x] that assms(9) by (metis option.distinct(1))
  obtain ys k2 where c: "copy_fds ?k1 xs as = Some (ys, k2)" "length ys = length xs"
    "\<exists>D F. k2 = ?k1\<lparr>fdts := D, fs_nodes := F\<rparr>"
    "\<forall>i < length xs. if xs ! i = NULL then ys ! i = NULL
       else ys ! i = as ! i \<and> fdts k2 (ys ! i) = Some ((the (fdts ?k1 (xs ! i)))\<lparr>fd_links := 1\<rparr>)"
    "\<forall>x. x \<notin> set as \<longrightarrow> fdts k2 x = fdts ?k1 x"
    "\<forall>n. fs_nodes k2 n = map_option (\<lambda>f. f\<lparr>links := links f + of_nat (node_refs (fdts ?k1) xs n)\<rparr>) (fs_nodes ?k1 n)"
    using copy_fds_ok [of xs ?k1 as] slot assms(10-12) by auto
  obtain D F where k2: "k2 = ?k1\<lparr>fdts := D, fs_nodes := F\<rparr>" using c(3) by blast
  let ?C = "(fork_process (procs k src) (next_pid k) wq)\<lparr>fds := (fds (procs k src))\<lparr>nodes := ys\<rparr>, parent := NULL, children := [],
      uid := uid (procs k src), group_id := pid (procs k src), parent := src\<rparr>"
  let ?S = "(procs k src)\<lparr>children := children (procs k src) @ [new]\<rparr>"
  let ?k3 = "k2\<lparr>process_list := process_list k @ [new], procs := (procs k)(new := ?C, src := ?S)\<rparr>"
  have sp: "spawn (upd_proc k2 new (\<lambda>x. x\<lparr>fds := (fds x)\<lparr>nodes := ys\<rparr>\<rparr>)) new src = ?k3"
    using assms(3,7) by (simp add: spawn_def upd_proc_def Let_def k2 fork_process_def)
  have nl: "\<not> locked (procs ?k3 new)" using assms(7) by (simp add: locked_def fork_process_def)
  let ?k4 = "(upd_proc ?k3 new (pstate_update (\<lambda>_. PROCESS_STATE_RUNNING)))\<lparr>ready_queue := ready_queue ?k3 @ [new]\<rparr>"
  have f: "k_proc_process_fork k new wq as = Some (next_pid k, ?k4)"
    using assms(2,4,7,9) c(1) sp mark_ready_unlocked [OF nl] by (simp add: k_proc_process_fork_def Let_def)
  have inv: "sched_inv ?k4"
    by (rule sched_inv_new [OF assms(1,6,8)]) (use assms(7) in \<open>auto simp: k2 fork_process_def\<close>)
  have x: "fdts k2 (xs ! i) = fdts k (xs ! i) \<or> xs ! i = NULL" if "i < length xs" for i
  proof (cases "xs ! i = NULL")
    case False
    have "xs ! i \<in> set xs" using that by simp
    then obtain t where "fdts k (xs ! i) = Some t" using slot False by blast
    then have "xs ! i \<notin> set as" using assms(12) by auto
    then show ?thesis using c(5) by simp
  qed simp
  have slots: "if xs ! i = NULL then ys ! i = NULL else fdts k2 (ys ! i) = Some ((the (fdts k (xs ! i)))\<lparr>fd_links := 1\<rparr>)"
    if "i < length xs" for i
  proof (cases "xs ! i = NULL")
    case False
    then have "fdts k2 (ys ! i) = Some ((the (fdts ?k1 (xs ! i)))\<lparr>fd_links := 1\<rparr>)" using c(4) that by metis
    then show ?thesis using False by simp
  qed (use c(4) that in simp)
  have sel: "fdts ?k4 = fdts k2" "fs_nodes ?k4 = fs_nodes k2" "next_pid ?k4 = next_pid k + 1"
    "process_list ?k4 = process_list k @ [new]" "ready_queue ?k4 = ready_queue k @ [new]"
    "procs ?k4 = (procs k)(new := ?C\<lparr>pstate := PROCESS_STATE_RUNNING\<rparr>, src := ?S)"
    using assms(7) by (simp_all add: k2 fun_eq_iff)
  show ?thesis
  proof (intro exI [of _ ?k4] conjI)
    show "let ch = procs ?k4 new in pid ch = next_pid k \<and> parent ch = src \<and> children ch = [] \<and> uid ch = uid (procs k src) \<and>
       group_id ch = pid (procs k src) \<and> PROCESS_IS_SCHEDULABLE ch \<and> signal_queue ch = 0 \<and> signals_ignored ch = 0 \<and>
       (\<forall>s. handler (signals ch s) = NULL) \<and> block_node ch = Some [] \<and> wait_queue ch = wq \<and>
       length (nodes (fds ch)) = length xs \<and> fds_size (fds ch) = fds_size (fds (procs k src)) \<and>
       (\<forall>i < length xs. if xs ! i = NULL then nodes (fds ch) ! i = NULL
          else fdts ?k4 (nodes (fds ch) ! i) = Some ((the (fdts k (xs ! i)))\<lparr>fd_links := 1\<rparr>))"
      unfolding sel(1,6) Let_def
      by (intro conjI allI impI) (use assms(7) c(2) slots in \<open>simp_all add: fork_process_def PROCESS_IS_SCHEDULABLE_def\<close>)
    show "\<forall>n. fs_nodes ?k4 n = map_option (\<lambda>f. f\<lparr>links := links f + of_nat (node_refs (fdts k) xs n)\<rparr>) (fs_nodes k n)"
      unfolding sel(2) using c(6) by simp
    show "\<forall>i < length xs. fdts ?k4 (xs ! i) = fdts k (xs ! i) \<or> xs ! i = NULL" unfolding sel(1) using x by blast
    show "procs ?k4 src = (procs k src)\<lparr>children := children (procs k src) @ [new]\<rparr>"
      "\<forall>p. p \<noteq> src \<and> p \<noteq> new \<longrightarrow> procs ?k4 p = procs k p" unfolding sel(6) by simp_all
  qed (fact f inv sel(3-5))+
qed

theorem fork_child_witness:
  "\<exists>k'. k_proc_process_fork (two_files\<lparr>process_list := [7]\<rparr>) 16 200 [96, 112, 128] = Some (2, k') \<and>
     process_list k' = [7, 16] \<and> parent (procs k' 16) = 7"
proof -
  let ?k = "two_files\<lparr>process_list := [7]\<rparr>"
  have i: "sched_inv ?k"
  proof -
    have "timers_ok ?k []"
      by (auto simp: timers_ok_def holds_node_def two_files_def blank_kernel_def blank_process_def split: if_split_asm)
    then show ?thesis
      by (auto simp: sched_inv_def links_ok_def two_files_def blank_kernel_def blank_process_def)
  qed
  have f: "fd_ok ?k 7" using two_files_ok(1) by (simp add: fd_ok_def)
  have a: "7 = current_process ?k" "(7 :: ptr) \<noteq> NULL" "process_list ?k \<noteq> []" "fresh_process ?k 16" "(16 :: ptr) \<noteq> 7" "queues ?k 200 = []"
    "length [96, 112, 128 :: ptr] = length (nodes (fds (procs ?k 7)))" "distinct [96, 112, 128 :: ptr]"
    "\<forall>a \<in> set [96, 112, 128]. a \<noteq> NULL \<and> fdts ?k a = None" "next_pid ?k = 2"
    by (simp_all add: two_files_def fresh_process_def blank_kernel_def blank_process_def)
  from fork_child [OF i a(1-3) f a(4-6) refl a(7-9)] show ?thesis unfolding a(10) by (auto simp: Let_def)
qed

section \<open>Exit\<close>

lemma reparent_procs:
  "procs (reparent k cs) = (\<lambda>q. let x = (if q \<in> set cs then (procs k q)\<lparr>parent := process_root k\<rparr> else procs k q)
     in if q = process_root k then x\<lparr>children := children x @ cs\<rparr> else x)"
proof (induction cs arbitrary: k)
  case (Cons c cs)
  show ?case by (rule ext) (auto simp: Let_def Cons)
qed (auto simp: fun_eq_iff Let_def)

lemma reparent_sel [simp]:
  "queues (reparent k cs) = queues k" "wnodes (reparent k cs) = wnodes k" "sleep_queue (reparent k cs) = sleep_queue k"
  "ready_queue (reparent k cs) = ready_queue k" "current_process (reparent k cs) = current_process k"
  "process_root (reparent k cs) = process_root k" "fdts (reparent k cs) = fdts k" "fs_nodes (reparent k cs) = fs_nodes k"
  "process_list (reparent k cs) = process_list k" "idle_process (reparent k cs) = idle_process k"
  by (induction cs arbitrary: k) (simp_all add: Let_def)

lemma sched_inv_cong:
  assumes "queues k' = queues k" "wnodes k' = wnodes k" "sleep_queue k' = sleep_queue k"
    "\<And>q. block_node (procs k' q) = block_node (procs k q) \<and> wait_node (procs k' q) = wait_node (procs k q) \<and>
       timeout_node (procs k' q) = timeout_node (procs k q) \<and> pstate (procs k' q) = pstate (procs k q)"
  shows "sched_inv k' = sched_inv k"
proof -
  have "links_ok k' = links_ok k" by (rule links_ok_cong) (use assms in auto)
  moreover have "holds_node (procs k' q) x = holds_node (procs k q) x" for q x using assms(4) by (simp add: holds_node_def)
  then have "timers_ok k' xs = timers_ok k xs" for xs
    unfolding timers_ok_def using assms by simp
  ultimately show ?thesis by (simp add: sched_inv_def)
qed

lemma kin_simps [simp]:
  "parent (ready_proc P) = parent P" "children (ready_proc P) = children P" "status (ready_proc P) = status P"
  "parent (off_queue q P) = parent P" "children (off_queue q P) = children P" "status (off_queue q P) = status P"
  "parent (off_queue_all q P) = parent P" "children (off_queue_all q P) = children P" "status (off_queue_all q P) = status P"
  "parent (posted s P) = parent P" "children (posted s P) = children P" "status (posted s P) = status P"
  "fds (ready_proc P) = fds P" "fds (off_queue q P) = fds P" "fds (off_queue_all q P) = fds P" "fds (posted s P) = fds P"
  "pstate (off_queue q P) = pstate P" "pstate (off_queue_all q P) = pstate P" "pstate (ready_proc P) = PROCESS_STATE_RUNNING"
  by (simp_all add: ready_proc_def off_queue_def off_queue_all_def posted_def)

lemma fd_ok_cong:
  "fds (procs k' p) = fds (procs k p) \<Longrightarrow> fdts k' = fdts k \<Longrightarrow> fs_nodes k' = fs_nodes k \<Longrightarrow> fd_ok k' p = fd_ok k p"
  by (simp add: fd_ok_def)

text \<open>The first half of \<open>exit\<close>: descriptors closed, state set, children handed over.\<close>

lemma exit_first:
  assumes inv: "sched_inv k" and ok: "fd_ok k p" and root: "p \<noteq> process_root k"
    and timers: "wait_node (procs k p) = NULL" "timeout_node (procs k p) = NULL"
    and cs: "cs = children (procs k p)" "p \<notin> set cs"
  obtains k2 k4 where
    "close_all (upd_proc k p (\<lambda>x. x\<lparr>status := code\<rparr>)) p [0..<unat (fds_size (fds (procs k p)))] = Some k2"
    "k4 = reparent (upd_proc k2 p (\<lambda>x. x\<lparr>pstate := PROCESS_STATE_FINISHED\<rparr>)) cs"
    "children (procs (upd_proc k2 p (\<lambda>x. x\<lparr>pstate := PROCESS_STATE_FINISHED\<rparr>)) p) = cs"
    "process_root k2 = process_root k" "sched_inv k4" "queues k4 = queues k" "ready_queue k4 = ready_queue k"
    "current_process k4 = current_process k" "process_root k4 = process_root k"
    "\<forall>x \<in> set (nodes (fds (procs k4 p))). x = NULL" "pstate (procs k4 p) = PROCESS_STATE_FINISHED" "status (procs k4 p) = code"
    "parent (procs k4 p) = parent (procs k p)" "block_node (procs k4 p) = block_node (procs k p)"
    "\<forall>q. q \<noteq> p \<longrightarrow> pstate (procs k4 q) = pstate (procs k q) \<and> block_node (procs k4 q) = block_node (procs k q) \<and>
       wait_queue (procs k4 q) = wait_queue (procs k q)"
    "\<forall>c \<in> set cs. parent (procs k4 c) = process_root k"
    "children (procs k4 (process_root k)) = children (procs k (process_root k)) @ cs"
proof -
  let ?k1 = "upd_proc k p (\<lambda>x. x\<lparr>status := code\<rparr>)"
  have ok1: "fd_ok ?k1 p" using ok by (subst fd_ok_cong [of _ p k]) auto
  have len: "length (nodes (fds (procs ?k1 p))) = unat (fds_size (fds (procs k p)))" using fd_ok_length [OF ok1] by simp
  obtain k2 F C D f where c: "close_all ?k1 p [0..<unat (fds_size (fds (procs k p)))] = Some k2"
    "k2 = ?k1\<lparr>fs_nodes := F, closes := C, fdts := D, procs := (procs ?k1)(p := (procs ?k1 p)\<lparr>fds := f\<rparr>)\<rparr>"
    "length (nodes f) = unat (fds_size (fds (procs k p)))"
    "\<forall>j < length (nodes f). nodes f ! j = (if j \<in> set [0..<unat (fds_size (fds (procs k p)))] then NULL else nodes (fds (procs ?k1 p)) ! j)"
    using close_all_ok [OF ok1, of "[0..<unat (fds_size (fds (procs k p)))]"] len by auto
  let ?P = "(procs k p)\<lparr>status := code, fds := f, pstate := PROCESS_STATE_FINISHED\<rparr>"
  let ?k3 = "upd_proc k2 p (\<lambda>x. x\<lparr>pstate := PROCESS_STATE_FINISHED\<rparr>)"
  let ?k4 = "reparent ?k3 cs"
  have p3: "procs ?k3 = (procs k)(p := ?P)" using c(2) by (simp add: upd_proc_def fun_eq_iff)
  have r3: "process_root ?k3 = process_root k" "process_root k2 = process_root k" "queues ?k3 = queues k" "wnodes ?k3 = wnodes k"
    "sleep_queue ?k3 = sleep_queue k" "ready_queue ?k3 = ready_queue k" "current_process ?k3 = current_process k"
    using c(2) by simp_all
  have nul: "\<forall>x \<in> set (nodes f). x = NULL" using c(3,4) by (auto simp: in_set_conv_nth)
  have i3: "sched_inv (k\<lparr>procs := (procs k)(p := ?P)\<rparr>)"
  proof -
    obtain xs where "links_ok k" "timers_ok k xs" using inv by (auto simp: sched_inv_def)
    then have "links_ok (k\<lparr>procs := (procs k)(p := ?P)\<rparr>)" "timers_ok (k\<lparr>procs := (procs k)(p := ?P)\<rparr>) xs"
      using timers by (subst links_ok_cong, auto intro!: timers_ok_proc simp: holds_node_def)
    then show ?thesis by (auto simp: sched_inv_def)
  qed
  have p4: "procs ?k4 q = (let x = (if q \<in> set cs then (((procs k)(p := ?P)) q)\<lparr>parent := process_root k\<rparr> else ((procs k)(p := ?P)) q)
      in if q = process_root k then x\<lparr>children := children x @ cs\<rparr> else x)" for q
    unfolding reparent_procs p3 r3(1) ..
  have i4: "sched_inv ?k4"
  proof (subst sched_inv_cong [where k = "k\<lparr>procs := (procs k)(p := ?P)\<rparr>"])
    show "queues ?k4 = queues (k\<lparr>procs := (procs k)(p := ?P)\<rparr>)" "wnodes ?k4 = wnodes (k\<lparr>procs := (procs k)(p := ?P)\<rparr>)"
      "sleep_queue ?k4 = sleep_queue (k\<lparr>procs := (procs k)(p := ?P)\<rparr>)"
      unfolding reparent_sel r3 by simp_all
    show "sched_inv (k\<lparr>procs := (procs k)(p := ?P)\<rparr>)" by (rule i3)
  qed (simp add: p4 Let_def)
  have e: "procs ?k4 p = ?P" using cs(2) root by (simp add: p4)
  show ?thesis
    by (rule that [OF c(1) refl]) (use e i4 p4 p3 r3 cs root nul in \<open>auto simp: Let_def\<close>)
qed

text \<open>The second part: the parent is woken and told.\<close>

lemma kin_posted [simp]:
  "signal_queue (ready_proc P) = signal_queue P" "bit (signal_queue (posted 17 P)) 17"
  "PROCESS_IS_SCHEDULABLE (ready_proc P)" "block_node (off_queue_all w P) = None \<longleftrightarrow> block_node P = None"
  by (simp_all add: ready_proc_def posted_def bit_or_iff sig_bit_bit PROCESS_IS_SCHEDULABLE_def off_queue_all_def)

lemma notify_parent:
  assumes inv: "sched_inv k" and q: "block_node (procs k q) \<noteq> None" "q \<noteq> p"
    and p: "p \<notin> set (queues k w)"
  obtains ka k' where "k_proc_process_wakeup_queue k w = Some ka" "k_proc_process_send_signal ka q SIGCHLD = Some k'"
    "sched_inv k'" "procs k' p = procs k p" "process_root k' = process_root k"
    "q = current_process k \<or> PROCESS_IS_SCHEDULABLE (procs k' q)" "bit (signal_queue (procs k' q)) 17"
    "\<forall>r. parent (procs k' r) = parent (procs k r) \<and> children (procs k' r) = children (procs k r)"
proof -
  obtain xs where ok: "links_ok k" "timers_ok k xs" using inv by (auto simp: sched_inv_def)
  obtain ka ys where a: "k_proc_process_wakeup_queue k w = Some ka" "links_ok ka" "timers_ok ka ys" "same_rest k ka"
    "procs ka = (\<lambda>p. if p \<in> set (woken k w) then ready_proc (off_queue w (procs k p)) else off_queue_all w (procs k p))"
    using wakeup_queue_ok [OF ok] by blast
  have ia: "sched_inv ka" using a(2,3) by (auto simp: sched_inv_def)
  have b: "block_node (procs ka q) \<noteq> None" unfolding a(5) using q(1) by (simp add: ready_proc_def del: not_None_eq)
  obtain k' where k': "k_proc_process_send_signal ka q SIGCHLD = Some k'" "sched_inv k'" "same_rest ka k'"
    "procs k' = (procs ka)(q := (if q = current_process ka \<or> PROCESS_IS_SCHEDULABLE (procs ka q)
       then posted (nat 17) (procs ka q) else ready_proc (posted (nat 17) (procs ka q))))"
  proof (rule send_signal_ok [OF ia b _ _ refl, of 17])
    show "(0 :: int) \<le> 17" "(17 :: int) < 64" by simp_all
  qed blast
  have pp: "procs ka p = procs k p" unfolding a(5) using p links_ok_off_all [OF ok(1) p] by (simp add: woken_def)
  have kin: "parent (procs ka r) = parent (procs k r)" "children (procs ka r) = children (procs k r)" for r
    unfolding a(5) by simp_all
  show ?thesis
  proof (rule that [OF a(1) k'(1,2)])
    show "procs k' p = procs k p" using k'(4) q(2) pp by simp
    show "process_root k' = process_root k" using a(4) k'(3) by (simp add: same_rest_def)
    show "q = current_process k \<or> PROCESS_IS_SCHEDULABLE (procs k' q)" using a(4) k'(4) by (auto simp: same_rest_def)
    show "bit (signal_queue (procs k' q)) 17" using k'(4) by simp
    show "\<forall>r. parent (procs k' r) = parent (procs k r) \<and> children (procs k' r) = children (procs k r)"
      unfolding k'(4) using kin by simp
  qed
qed

text \<open>The last part: the process leaves every queue and its block node is freed.\<close>

lemma release_locks:
  assumes inv: "sched_inv k" and b: "block_node (procs k p) \<noteq> None"
  obtains k' where "k_proc_process_invalidate_locks k p = Some k'" "process_root k' = process_root k"
    "sched_inv (upd_proc k' p (\<lambda>x. x\<lparr>block_node := None\<rparr>))" "\<forall>w. p \<notin> set (queues k' w)"
    "procs k' = (procs k)(p := (procs k p)\<lparr>block_node := Some [], wait_node := NULL, timeout_node := NULL\<rparr>)"
    "current_process k' = current_process k"
proof -
  obtain xs os where ok: "links_ok k" "timers_ok k xs" "block_node (procs k p) = Some os"
    using inv b by (auto simp: sched_inv_def)
  let ?k = "\<lambda>sq w. k\<lparr>procs := (procs k)(p := (procs k p)\<lparr>block_node := Some [], wait_node := NULL, timeout_node := NULL\<rparr>),
    queues := (\<lambda>q. removeAll p (queues k q)), sleep_queue := sq, wnodes := w\<rparr>"
  obtain sq w ys where i: "k_proc_process_invalidate_locks k p = Some (?k sq w)" "timers_ok (?k sq w) ys"
    by (rule invalidate_locks_ok [OF ok])
  let ?k' = "?k sq w" and ?P = "(procs k p)\<lparr>wait_node := NULL, timeout_node := NULL, block_node := None\<rparr>"
  have "timers_ok (?k'\<lparr>procs := (procs ?k')(p := ?P)\<rparr>) ys" by (rule timers_ok_proc [OF i(2)]) (auto simp: holds_node_def)
  moreover have "links_ok (?k'\<lparr>procs := (procs ?k')(p := ?P)\<rparr>)"
    using ok(1) by (auto simp: links_ok_def count_list_removeAll)
  moreover have "upd_proc ?k' p (\<lambda>x. x\<lparr>block_node := None\<rparr>) = ?k'\<lparr>procs := (procs ?k')(p := ?P)\<rparr>" by (simp add: upd_proc_def)
  ultimately have "sched_inv (upd_proc ?k' p (\<lambda>x. x\<lparr>block_node := None\<rparr>))" unfolding sched_inv_def by metis
  then show ?thesis by (rule that [OF i(1), rotated]) simp_all
qed

text \<open>
  C33: A process that exits is finished with the given status: every descriptor it had is closed, it is in
  no wait queue and its block node is gone; its children now belong to the root process, after the
  root's own; its parent has \<open>SIGCHLD\<close> pending and runs or can be scheduled, so a parent that
  sleeps in \<open>waitpid\<close> finds the child.
\<close>

theorem exit_hands_over:
  assumes "sched_inv k" and "fd_ok k p" and "p \<noteq> process_root k" and "wait_node (procs k p) = NULL" and "timeout_node (procs k p) = NULL"
    and "p \<notin> set (children (procs k p))" and "block_node (procs k p) \<noteq> None"
    and "q = parent (procs k p)" and "q \<noteq> NULL" and "q \<noteq> p" and "block_node (procs k q) \<noteq> None"
    and "p \<notin> set (queues k (wait_queue (procs k q)))"
  shows "\<exists>k'. exit_prepare k p code = Some k' \<and> sched_inv k' \<and>
    pstate (procs k' p) = PROCESS_STATE_FINISHED \<and> status (procs k' p) = code \<and>
    (\<forall>x \<in> set (nodes (fds (procs k' p))). x = NULL) \<and> (\<forall>w. p \<notin> set (queues k' w)) \<and> block_node (procs k' p) = None \<and>
    (\<forall>c \<in> set (children (procs k p)). parent (procs k' c) = process_root k) \<and>
    children (procs k' (process_root k)) = children (procs k (process_root k)) @ children (procs k p) \<and>
    bit (signal_queue (procs k' q)) (nat SIGCHLD) \<and> (q = current_process k \<or> PROCESS_IS_SCHEDULABLE (procs k' q))"
proof -
  obtain k2 k4 where f:
    "close_all (upd_proc k p (\<lambda>x. x\<lparr>status := code\<rparr>)) p [0..<unat (fds_size (fds (procs k p)))] = Some k2"
    "k4 = reparent (upd_proc k2 p (\<lambda>x. x\<lparr>pstate := PROCESS_STATE_FINISHED\<rparr>)) (children (procs k p))"
    "children (procs (upd_proc k2 p (\<lambda>x. x\<lparr>pstate := PROCESS_STATE_FINISHED\<rparr>)) p) = children (procs k p)"
    "process_root k2 = process_root k" "sched_inv k4" "queues k4 = queues k" "current_process k4 = current_process k"
    and g: "\<forall>x \<in> set (nodes (fds (procs k4 p))). x = NULL" "pstate (procs k4 p) = PROCESS_STATE_FINISHED" "status (procs k4 p) = code"
    "parent (procs k4 p) = parent (procs k p)" "block_node (procs k4 p) = block_node (procs k p)"
    "\<forall>q. q \<noteq> p \<longrightarrow> pstate (procs k4 q) = pstate (procs k q) \<and> block_node (procs k4 q) = block_node (procs k q) \<and>
       wait_queue (procs k4 q) = wait_queue (procs k q)"
    and h: "\<forall>c \<in> set (children (procs k p)). parent (procs k4 c) = process_root k"
    "children (procs k4 (process_root k)) = children (procs k (process_root k)) @ children (procs k p)"
    by (rule exit_first [OF assms(1-5) refl assms(6), of code]) blast
  have b: "block_node (procs k4 q) \<noteq> None" "wait_queue (procs k4 q) = wait_queue (procs k q)" using g(6) assms(10,11) by auto
  have n: "p \<notin> set (queues k4 (wait_queue (procs k q)))" unfolding f(6) by (rule assms(12))
  obtain ka k5 where m: "k_proc_process_wakeup_queue k4 (wait_queue (procs k q)) = Some ka" "k_proc_process_send_signal ka q SIGCHLD = Some k5"
    "sched_inv k5" "procs k5 p = procs k4 p" "process_root k5 = process_root k4"
    "q = current_process k4 \<or> PROCESS_IS_SCHEDULABLE (procs k5 q)" "bit (signal_queue (procs k5 q)) 17"
    "\<forall>r. parent (procs k5 r) = parent (procs k4 r) \<and> children (procs k5 r) = children (procs k4 r)"
    by (rule notify_parent [OF f(5) b(1) assms(10) n])
  have b5: "block_node (procs k5 p) \<noteq> None" unfolding m(4) g(5) by (rule assms(7))
  obtain k6 where r: "k_proc_process_invalidate_locks k5 p = Some k6" "process_root k6 = process_root k5"
    "sched_inv (upd_proc k6 p (\<lambda>x. x\<lparr>block_node := None\<rparr>))" "\<forall>w. p \<notin> set (queues k6 w)"
    "procs k6 = (procs k5)(p := (procs k5 p)\<lparr>block_node := Some [], wait_node := NULL, timeout_node := NULL\<rparr>)"
    by (rule release_locks [OF m(3) b5])
  have e: "exit_prepare k p code = Some (upd_proc k6 p (\<lambda>x. x\<lparr>block_node := None\<rparr>))"
    using f(1-4) m(1,2) r(1) g(4) b(2) assms(3,8,9) by (simp add: exit_prepare_def Let_def)
  have qq: "procs k6 q = procs k5 q" using assms(10) unfolding r(5) by simp
  show ?thesis
    by (intro exI [of _ "upd_proc k6 p (\<lambda>x. x\<lparr>block_node := None\<rparr>)"] conjI e r(3))
      (use g(1-3) h m(4,6-8) qq r(4) assms(3,10) f(7) in \<open>simp_all add: r(5)\<close>)
qed

definition waiting_parent :: kernel where
  "waiting_parent = blank_kernel\<lparr>process_root := 5, current_process := 7, queues := (\<lambda>_. [])(100 := [6]),
     procs := (procs blank_kernel)(6 := (sleeping_on 100)\<lparr>wait_queue := 100, children := [7]\<rparr>,
       7 := blank_process\<lparr>pstate := PROCESS_STATE_RUNNING, parent := 6, children := [8], wait_queue := 116\<rparr>,
       8 := blank_process\<lparr>parent := 7\<rparr>)\<rparr>"

theorem exit_hands_over_witness:
  "\<exists>k'. exit_prepare waiting_parent 7 3 = Some k' \<and> sched_inv k' \<and> pstate (procs k' 7) = 2 \<and> status (procs k' 7) = 3 \<and>
     parent (procs k' 8) = 5 \<and> children (procs k' 5) = [8] \<and> PROCESS_IS_SCHEDULABLE (procs k' 6)"
proof -
  note s = waiting_parent_def sleeping_on_def blank_kernel_def blank_process_def
  have "links_ok waiting_parent" "timers_ok waiting_parent []"
    by (auto simp: links_ok_def timers_ok_def holds_node_def s split: if_split_asm)
  then have i: "sched_inv waiting_parent" by (auto simp: sched_inv_def)
  have f: "fd_ok waiting_parent 7" by (simp add: fd_ok_def node_refs_def s)
  have a: "7 \<noteq> process_root waiting_parent" "wait_node (procs waiting_parent 7) = NULL" "timeout_node (procs waiting_parent 7) = NULL"
    "7 \<notin> set (children (procs waiting_parent 7))" "block_node (procs waiting_parent 7) \<noteq> None" "6 = parent (procs waiting_parent 7)"
    "(6 :: ptr) \<noteq> NULL" "(6 :: ptr) \<noteq> 7" "block_node (procs waiting_parent 6) \<noteq> None"
    "7 \<notin> set (queues waiting_parent (wait_queue (procs waiting_parent 6)))"
    "children (procs waiting_parent 7) = [8]" "process_root waiting_parent = 5" "children (procs waiting_parent 5) = []" "current_process waiting_parent = 7"
    by (simp_all add: s)
  from exit_hands_over [OF i f a(1-10), of 3, unfolded a(11-14)] show ?thesis by auto
qed

end
