(* ===== verification/CMem.thy ===== *)
theory CMem
  imports Prelude
begin

text \<open>
  The block routines of \<^verbatim>\<open>libc/src/string\<close> on a flat memory of bytes: \<open>memcpy\<close>, \<open>memmove\<close>, \<open>memset\<close>
  and \<open>memcmp\<close>, in their portable versions. A pointer is a 32 bit address and pointer arithmetic
  wraps; a loop over \<open>n\<close> bytes is a recursion over that number.
\<close>

type_synonym mem = "ptr \<Rightarrow> u8"

section \<open>Operations\<close>

fun copy_up :: "mem \<Rightarrow> ptr \<Rightarrow> ptr \<Rightarrow> nat \<Rightarrow> mem" where
  "copy_up m d s 0 = m"
| "copy_up m d s (Suc n) = copy_up (m(d := m s)) (d + 1) (s + 1) n"

definition memcpy :: "mem \<Rightarrow> ptr \<Rightarrow> ptr \<Rightarrow> u32 \<Rightarrow> ptr \<times> mem" where
  "memcpy m dest src n = (dest, if dest \<noteq> NULL \<and> src \<noteq> NULL then copy_up m dest src (unat n) else m)"

text \<open>The loop of \<open>memmove\<close> from the last byte to the first.\<close>

fun copy_down :: "mem \<Rightarrow> ptr \<Rightarrow> ptr \<Rightarrow> nat \<Rightarrow> mem" where
  "copy_down m d s 0 = m"
| "copy_down m d s (Suc i) = copy_down (m(d + of_nat i := m (s + of_nat i))) d s i"

text \<open>
  The overlap tests compare the pointer difference, a signed number, with \<open>n\<close> converted to \<open>int\<close>,
  and the downward loop counts a signed index from \<open>n - 1\<close>.
\<close>

definition memmove :: "mem \<Rightarrow> ptr \<Rightarrow> ptr \<Rightarrow> u32 \<Rightarrow> ptr \<times> mem" where
  "memmove m dest src n =
     (if src = dest \<or> n = 0 then (dest, m)
      else if dest > src \<and> sint (dest - src) < sint n then (dest, copy_down m dest src (nat (sint (n - 1) + 1)))
      else if src > dest \<and> sint (src - dest) < sint n then (dest, copy_up m dest src (unat n))
      else (dest, snd (memcpy m dest src n)))"

fun set_bytes :: "mem \<Rightarrow> ptr \<Rightarrow> u8 \<Rightarrow> nat \<Rightarrow> mem" where
  "set_bytes m p c 0 = m"
| "set_bytes m p c (Suc n) = set_bytes (m(p := c)) (p + 1) c n"

definition memset :: "mem \<Rightarrow> ptr \<Rightarrow> u32 \<Rightarrow> u32 \<Rightarrow> ptr \<times> mem" where
  "memset m dest c n = (dest, set_bytes m dest (ucast c) (unat n))"

fun compare_bytes :: "mem \<Rightarrow> ptr \<Rightarrow> ptr \<Rightarrow> nat \<Rightarrow> int" where
  "compare_bytes m s1 s2 0 = 0"
| "compare_bytes m s1 s2 (Suc n) =
     (if m s1 \<noteq> m s2 then uint (m s1) - uint (m s2) else compare_bytes m (s1 + 1) (s2 + 1) n)"

definition memcmp :: "mem \<Rightarrow> ptr \<Rightarrow> ptr \<Rightarrow> u32 \<Rightarrow> int" where
  "memcmp m s1 s2 n = compare_bytes m s1 s2 (unat n)"

section \<open>Blocks of memory\<close>

text \<open>\<open>block m a n\<close> are the \<open>n\<close> bytes at \<open>a\<close>; \<open>inside a n x\<close> says that \<open>x\<close> is one of their addresses.\<close>

definition block :: "mem \<Rightarrow> ptr \<Rightarrow> nat \<Rightarrow> u8 list" where
  "block m a n = map (\<lambda>i. m (a + of_nat i)) [0..<n]"

definition inside :: "ptr \<Rightarrow> nat \<Rightarrow> ptr \<Rightarrow> bool" where
  "inside a n x \<longleftrightarrow> unat (x - a) < n"

lemma unat_step: "x \<noteq> a \<Longrightarrow> unat (x - (a + 1)) = unat (x - a) - 1" for x a :: ptr
proof -
  assume "x \<noteq> a"
  then have "x - a \<noteq> 0" by simp
  then have "unat (x - a - 1) = unat (x - a) - 1" by (rule unat_pred32)
  then show ?thesis by (simp add: diff_diff_eq)
qed

lemma inside_0 [simp]: "\<not> inside a 0 x"
  by (simp add: inside_def)

lemma inside_Suc: "inside a (Suc n) x \<longleftrightarrow> x = a \<or> inside (a + 1) n x"
proof (cases "x = a")
  case False
  then have "unat (x - a) \<noteq> 0" by (simp add: unat_eq_0)
  then show ?thesis using unat_step [OF False] False by (auto simp: inside_def)
qed (simp add: inside_def)

lemma not_inside_next: "n < 2 ^ 32 \<Longrightarrow> \<not> inside (a + 1) n a"
proof -
  assume n: "n < 2 ^ 32"
  have "unat (a - (a + 1)) = 2 ^ 32 - 1" by (simp add: unsigned_minus_1_eq_mask mask_eq_exp_minus_1)
  then show ?thesis using n by (simp add: inside_def)
qed

lemma inside_top: "inside d (Suc i) x \<longleftrightarrow> inside d i x \<or> i < 2 ^ 32 \<and> x = d + of_nat i"
proof -
  have "unat (x - d) = i \<longleftrightarrow> i < 2 ^ 32 \<and> x = d + of_nat i"
  proof
    assume a: "unat (x - d) = i"
    have "x - d = of_nat (unat (x - d))" by simp
    then have "x - d = of_nat i" unfolding a .
    then show "i < 2 ^ 32 \<and> x = d + of_nat i" using a unat_less32 [of "x - d"] by (simp add: algebra_simps)
  qed (simp add: unat_of_nat take_bit_nat_eq_self_iff)
  then show ?thesis by (auto simp: inside_def less_Suc_eq)
qed

text \<open>An upward copy is right unless the destination starts inside the source, behind its first byte.\<close>

lemma copy_up_spec:
  assumes "n \<le> 2 ^ 32" and "d = s \<or> n \<le> unat (d - s)"
  shows "copy_up m d s n x = (if inside d n x then m (s + (x - d)) else m x)"
  using assms
proof (induction n arbitrary: m d s)
  case (Suc n)
  have "d + 1 = s + 1 \<or> n \<le> unat (d + 1 - (s + 1))" using Suc(3) by auto
  then have IH: "copy_up m' (d + 1) (s + 1) n x = (if inside (d + 1) n x then m' (s + 1 + (x - (d + 1))) else m' x)" for m'
    using Suc by simp
  have ne: "\<not> inside (d + 1) n d" using Suc(2) by (intro not_inside_next) simp
  have clear: "s + (x - d) \<noteq> d \<or> d = s" if "inside (d + 1) n x"
  proof (rule ccontr)
    assume a: "\<not> (s + (x - d) \<noteq> d \<or> d = s)"
    then have "x - d = d - s" by (simp add: algebra_simps)
    moreover have "unat (x - d) < Suc n" using that inside_Suc [of d n x] by (simp add: inside_def)
    ultimately show False using a Suc(3) by simp
  qed
  show ?case
  proof (cases "inside (d + 1) n x")
    case True
    have "s + 1 + (x - (d + 1)) = s + (x - d)" by simp
    then show ?thesis using True clear [OF True] ne by (auto simp: IH inside_Suc)
  qed (auto simp: IH inside_Suc)
qed simp

text \<open>A downward copy is right unless the source starts inside the destination, behind its first byte.\<close>

lemma copy_down_spec:
  assumes "n \<le> 2 ^ 32" and "n \<le> unat (s - d)"
  shows "copy_down m d s n x = (if inside d n x then m (s + (x - d)) else m x)"
  using assms
proof (induction n arbitrary: m)
  case (Suc i)
  have IH: "copy_down m' d s i x = (if inside d i x then m' (s + (x - d)) else m' x)" for m'
    using Suc by simp
  have clear: "s + (x - d) \<noteq> d + of_nat i" if "inside d i x"
  proof
    assume a: "s + (x - d) = d + of_nat i"
    let ?j = "unat (x - d)"
    have j: "?j < i" "x - d = of_nat ?j" using that by (simp_all add: inside_def)
    then have "s - d = of_nat i - of_nat ?j" using a by (simp add: algebra_simps)
    also have "\<dots> = of_nat (i - ?j)" using j(1) by (simp add: of_nat_diff)
    finally have "unat (s - d) \<le> i - ?j" by (simp add: unat_of_nat take_bit_nat_less_eq_self)
    then show False using Suc(3) j(1) by simp
  qed
  show ?case
  proof (cases "inside d i x")
    case False
    then show ?thesis using Suc(2) by (auto simp: IH inside_top)
  qed (use clear in \<open>auto simp: IH inside_top\<close>)
qed simp

lemma set_bytes_spec: "n \<le> 2 ^ 32 \<Longrightarrow> set_bytes m p c n x = (if inside p n x then c else m x)"
proof (induction n arbitrary: m p)
  case (Suc n)
  then show ?case using not_inside_next [of n p] by (auto simp: inside_Suc)
qed simp

lemma compare_bytes_0: "compare_bytes m a b n = 0 \<longleftrightarrow> block m a n = block m b n"
proof (induction n arbitrary: a b)
  case (Suc n)
  have "block m a (Suc n) = m a # block m (a + 1) n" for a
    by (simp add: block_def upt_conv_Cons map_Suc_upt [symmetric] add.assoc del: upt_Suc)
  then show ?case using Suc by (auto simp: word_uint_eq_iff)
qed (simp add: block_def)

lemma memmove_bytes:
  assumes "dest \<noteq> NULL" and "src \<noteq> NULL" and "unat n < 2 ^ 31"
    and "unat dest + unat n \<le> 2 ^ 32" and "unat src + unat n \<le> 2 ^ 32"
  shows "snd (memmove m dest src n) x = (if inside dest (unat n) x then m (src + (x - dest)) else m x)"
proof (cases "src = dest \<or> n = 0")
  case True
  then show ?thesis by (auto simp: memmove_def)
next
  case False
  have n: "nat (sint (n - 1) + 1) = unat n" "unat n \<le> 2 ^ 32" using False assms(3) unat_pred32 [of n] sint_small [of "n - 1"]
      unat_eq_zero32 [of n] by auto
  have up: "dest < src \<Longrightarrow> unat n \<le> unat (dest - src)" and down: "src < dest \<Longrightarrow> unat n \<le> unat (src - dest)"
    using unat_sub_wrap [of dest src] unat_sub_wrap [of src dest] assms(4,5) by linarith+
  have far: "unat n \<le> unat w" if "\<not> sint w < sint n" for w :: u32
    using that sint_le_unat [of w] sint_small [OF assms(3)] by linarith
  consider "dest > src" "sint (dest - src) < sint n" | "dest > src" "\<not> sint (dest - src) < sint n" | "src > dest"
    using False by force
  then show ?thesis
  proof cases
    case 1
    then show ?thesis using False n copy_down_spec [OF n(2) down] by (simp add: memmove_def)
  next
    case 2
    then show ?thesis using False assms(1,2) copy_up_spec [OF n(2), of dest src] far by (simp add: memmove_def memcpy_def)
  next
    case 3
    then show ?thesis using False assms(1,2) copy_up_spec [OF n(2), of dest src] up by (auto simp: memmove_def memcpy_def)
  qed
qed

section \<open>Properties\<close>

text \<open>
  \<open>memmove\<close> of two blocks that lie in the address space, overlapping or not, leaves in the
  destination the bytes the source had before the call and changes no other byte; it returns the
  destination.
\<close>

theorem memmove_correct:
  assumes "dest \<noteq> NULL" and "src \<noteq> NULL" and "unat n < 2 ^ 31"
    and "unat dest + unat n \<le> 2 ^ 32" and "unat src + unat n \<le> 2 ^ 32"
  shows "fst (memmove m dest src n) = dest \<and> block (snd (memmove m dest src n)) dest (unat n) = block m src (unat n) \<and>
    (\<forall>x. \<not> inside dest (unat n) x \<longrightarrow> snd (memmove m dest src n) x = m x)"
proof -
  let ?m = "snd (memmove m dest src n)"
  have fst: "fst (memmove m dest src n) = dest" by (simp add: memmove_def)
  note copied = memmove_bytes [OF assms]
  have "inside dest (unat n) (dest + of_nat i)" if "i < unat n" for i
    using that unat_less32 [of n] by (simp add: inside_def unat_of_nat take_bit_nat_eq_self)
  then have "block ?m dest (unat n) = block m src (unat n)" unfolding block_def by (simp add: copied)
  then show ?thesis using fst copied by simp
qed

theorem memmove_correct_witness:
  "block (snd (memmove (\<lambda>a. ucast a) 102 100 5)) 102 5 = [100, 101, 102, 103, 104]"
proof -
  have "block (snd (memmove (\<lambda>a. ucast a) 102 100 5)) 102 (unat (5 :: u32)) = block (\<lambda>a. ucast a) 100 (unat (5 :: u32))"
    using memmove_correct [of 102 100 5 "\<lambda>a. ucast a"] by simp
  then show ?thesis by (simp add: block_def upt_rec)
qed

end
