(* ===== verification/CString.thy ===== *)
theory CString
  imports CMem "HOL-Library.Monad_Syntax"
begin

text \<open>
  The string routines of \<^verbatim>\<open>libc/src/string\<close> on the memory of \<open>CMem\<close>. A loop that looks for the
  terminating zero byte need not end, so these routines return an \<open>option\<close>; the lemmas show that
  they return when the string has its terminator. A \<open>char\<close> is signed: where the code compares one
  with an \<open>int\<close> it is sign-extended. The block that \<open>strdup\<close> gets from the heap is an argument.
\<close>

section \<open>Operations\<close>

partial_function (option) scan_nul :: "mem \<Rightarrow> ptr \<Rightarrow> ptr option" where
  "scan_nul m s = (if m s = 0 then Some s else scan_nul m (s + 1))"

definition strlen :: "mem \<Rightarrow> ptr \<Rightarrow> u32 option" where
  "strlen m str = do { s \<leftarrow> scan_nul m str; Some (s - str) }"

text \<open>The copying loop of \<open>strcpy\<close> and \<open>strcat\<close>, with the terminator written after it.\<close>

partial_function (option) copy_str :: "mem \<Rightarrow> ptr \<Rightarrow> ptr \<Rightarrow> mem option" where
  "copy_str m d s = (if m s = 0 then Some (m(d := 0)) else copy_str (m(d := m s)) (d + 1) (s + 1))"

definition strcpy :: "mem \<Rightarrow> ptr \<Rightarrow> ptr \<Rightarrow> (ptr \<times> mem) option" where
  "strcpy m d s = (if d = NULL then Some (NULL, m) else do { m' \<leftarrow> copy_str m d s; Some (d, m') })"

definition strcat :: "mem \<Rightarrow> ptr \<Rightarrow> ptr \<Rightarrow> (ptr \<times> mem) option" where
  "strcat m d s = do { n \<leftarrow> strlen m d; m' \<leftarrow> copy_str m (d + n) s; Some (d, m') }"

definition strdup :: "mem \<Rightarrow> ptr \<Rightarrow> ptr \<Rightarrow> (ptr \<times> mem) option" where
  "strdup m buff str = do { _ \<leftarrow> strlen m str; (_, m') \<leftarrow> strcpy m buff str; Some (buff, m') }"

text \<open>The bounded loop of \<open>strncpy\<close> and \<open>strncat\<close>.\<close>

fun copy_strn :: "mem \<Rightarrow> ptr \<Rightarrow> ptr \<Rightarrow> nat \<Rightarrow> mem" where
  "copy_strn m d s 0 = m(d := 0)"
| "copy_strn m d s (Suc n) = (if m s = 0 then m(d := 0) else copy_strn (m(d := m s)) (d + 1) (s + 1) n)"

definition strncpy :: "mem \<Rightarrow> ptr \<Rightarrow> ptr \<Rightarrow> u32 \<Rightarrow> ptr \<times> mem" where
  "strncpy m d s num = (if d = NULL then (NULL, m) else (d, copy_strn m d s (unat num)))"

definition strncat :: "mem \<Rightarrow> ptr \<Rightarrow> ptr \<Rightarrow> u32 \<Rightarrow> (ptr \<times> mem) option" where
  "strncat m d s num = do { n \<leftarrow> strlen m d; Some (d, copy_strn m (d + n) s (unat num)) }"

partial_function (option) strchr :: "mem \<Rightarrow> ptr \<Rightarrow> u8 \<Rightarrow> ptr option" where
  "strchr m s c = (if m s \<noteq> c then (if m s = 0 then Some NULL else strchr m (s + 1) c) else Some s)"

partial_function (option) strchrnul :: "mem \<Rightarrow> ptr \<Rightarrow> u32 \<Rightarrow> ptr option" where
  "strchrnul m s c = (if m s \<noteq> 0 then (if c = scast (m s) then Some s else strchrnul m (s + 1) c) else Some s)"

partial_function (option) strcmp :: "mem \<Rightarrow> ptr \<Rightarrow> ptr \<Rightarrow> int option" where
  "strcmp m s1 s2 = (if m s1 \<noteq> 0 \<and> m s1 = m s2 then strcmp m (s1 + 1) (s2 + 1) else Some (uint (m s1) - uint (m s2)))"

fun strncmp_loop :: "mem \<Rightarrow> ptr \<Rightarrow> ptr \<Rightarrow> nat \<Rightarrow> int" where
  "strncmp_loop m s1 s2 0 = 0"
| "strncmp_loop m s1 s2 (Suc n) =
     (if m s1 \<noteq> 0 \<and> m s1 = m s2 then strncmp_loop m (s1 + 1) (s2 + 1) n else uint (m s1) - uint (m s2))"

definition strncmp :: "mem \<Rightarrow> ptr \<Rightarrow> ptr \<Rightarrow> u32 \<Rightarrow> int" where
  "strncmp m s1 s2 n = strncmp_loop m s1 s2 (unat n)"

text \<open>The set of bytes \<open>strcspn\<close> builds: eight 32 bit words, byte \<open>b\<close> at bit \<open>b mod 32\<close> of word \<open>b div 32\<close>.\<close>

definition byteset_add :: "u32 list \<Rightarrow> u8 \<Rightarrow> u32 list" where
  "byteset_add bs b = bs[unat b div 32 := bs ! (unat b div 32) OR push_bit (unat b mod 32) 1]"

definition byteset_has :: "u32 list \<Rightarrow> u8 \<Rightarrow> bool" where
  "byteset_has bs b \<longleftrightarrow> bs ! (unat b div 32) AND push_bit (unat b mod 32) 1 \<noteq> 0"

partial_function (option) byteset_of :: "mem \<Rightarrow> u32 list \<Rightarrow> ptr \<Rightarrow> u32 list option" where
  "byteset_of m bs c = (if m c \<noteq> 0 then byteset_of m (byteset_add bs (m c)) (c + 1) else Some bs)"

partial_function (option) skip_not_in :: "mem \<Rightarrow> u32 list \<Rightarrow> ptr \<Rightarrow> ptr option" where
  "skip_not_in m bs s = (if m s \<noteq> 0 \<and> \<not> byteset_has bs (m s) then skip_not_in m bs (s + 1) else Some s)"

definition strcspn :: "mem \<Rightarrow> ptr \<Rightarrow> ptr \<Rightarrow> u32 option" where
  "strcspn m s c =
     (if m c = 0 \<or> m (c + 1) = 0 then do { e \<leftarrow> strchrnul m s (scast (m c)); Some (e - s) }
      else do { bs \<leftarrow> byteset_of m (replicate 8 0) c; e \<leftarrow> skip_not_in m bs s; Some (e - s) })"

text \<open>The inner loop of \<open>strstr\<close> and its walk over the string.\<close>

partial_function (option) starts_with :: "mem \<Rightarrow> ptr \<Rightarrow> ptr \<Rightarrow> bool option" where
  "starts_with m a b = (if m b = 0 then Some True else if m a \<noteq> m b then Some False else starts_with m (a + 1) (b + 1))"

partial_function (option) strstr_loop :: "mem \<Rightarrow> ptr \<Rightarrow> ptr \<Rightarrow> ptr option" where
  "strstr_loop m s sub =
     (if m s = 0 then Some NULL
      else if m s \<noteq> m sub then strstr_loop m (s + 1) sub
      else Option.bind (starts_with m s sub) (\<lambda>hit. if hit then Some s else strstr_loop m (s + 1) sub))"

definition strstr :: "mem \<Rightarrow> ptr \<Rightarrow> ptr \<Rightarrow> ptr option" where
  "strstr m s sub = (if m sub = 0 then Some s else strstr_loop m s sub)"

text \<open>
  \<open>strnstr\<close>: \<open>c\<close> is the first byte of the searched string and \<open>len\<close> the length of its rest. The
  result is the address of a byte that is \<open>c\<close>, within the first \<open>slen\<close>, or \<open>NULL\<close>.
\<close>

fun strnstr_loop :: "mem \<Rightarrow> ptr \<Rightarrow> ptr \<Rightarrow> u8 \<Rightarrow> u32 \<Rightarrow> nat \<Rightarrow> ptr" where
  "strnstr_loop m s rest c len 0 = NULL"
| "strnstr_loop m s rest c len (Suc slen) =
     (if m s = 0 then NULL
      else if m s \<noteq> c then strnstr_loop m (s + 1) rest c len slen
      else if unat len > slen then NULL
      else if strncmp m (s + 1) rest len \<noteq> 0 then strnstr_loop m (s + 1) rest c len slen
      else s)"

definition strnstr :: "mem \<Rightarrow> ptr \<Rightarrow> ptr \<Rightarrow> u32 \<Rightarrow> ptr option" where
  "strnstr m s sub slen =
     (if m sub = 0 then Some s
      else do { len \<leftarrow> strlen m (sub + 1); Some (strnstr_loop m s (sub + 1) (m sub) len (unat slen)) })"

text \<open>\<open>strtok\<close> with its static pointer \<open>backup_string\<close>, which is passed in and returned.\<close>

partial_function (option) is_delim :: "mem \<Rightarrow> u8 \<Rightarrow> ptr \<Rightarrow> bool option" where
  "is_delim m c delim = (if m delim = 0 then Some False else if c = m delim then Some True else is_delim m c (delim + 1))"

partial_function (option) skip_delims :: "mem \<Rightarrow> ptr \<Rightarrow> ptr \<Rightarrow> ptr option" where
  "skip_delims m s delim = Option.bind (is_delim m (m s) delim) (\<lambda>d. if d then skip_delims m (s + 1) delim else Some s)"

partial_function (option) token_end :: "mem \<Rightarrow> ptr \<Rightarrow> ptr \<Rightarrow> (mem \<times> ptr) option" where
  "token_end m s delim =
     (if m s = 0 then Some (m, s)
      else Option.bind (is_delim m (m s) delim) (\<lambda>d. if d then Some (m(s := 0), s + 1) else token_end m (s + 1) delim))"

definition strtok :: "mem \<Rightarrow> ptr \<Rightarrow> ptr \<Rightarrow> ptr \<Rightarrow> (ptr \<times> mem \<times> ptr) option" where
  "strtok m backup src delim =
     (let s = (if src = NULL then backup else src)
      in if s = NULL then Some (NULL, m, backup)
         else do {
           ret \<leftarrow> skip_delims m s delim;
           if m ret = 0 then Some (NULL, m, backup)
           else do { (m', b) \<leftarrow> token_end m ret delim; Some (ret, m', b) } })"

text \<open>\<open>reverse\<close>: the loop with the two indices, as numbers of bytes from the start.\<close>

function reverse_loop :: "mem \<Rightarrow> ptr \<Rightarrow> int \<Rightarrow> int \<Rightarrow> mem" where
  "reverse_loop m s i j =
     (if i < j then reverse_loop (m(s + of_int i := m (s + of_int j), s + of_int j := m (s + of_int i))) s (i + 1) (j - 1) else m)"
  by auto
termination by (relation "measure (\<lambda>(m, s, i, j). nat (j - i))") auto

definition reverse :: "mem \<Rightarrow> ptr \<Rightarrow> mem option" where
  "reverse m s = do { n \<leftarrow> strlen m s; Some (reverse_loop m s 0 (sint (n - 1))) }"

section \<open>Strings in memory\<close>

fun cstr :: "mem \<Rightarrow> ptr \<Rightarrow> u8 list \<Rightarrow> bool" where
  "cstr m a [] \<longleftrightarrow> m a = 0"
| "cstr m a (c # s) \<longleftrightarrow> m a = c \<and> c \<noteq> 0 \<and> cstr m (a + 1) s"

lemma cstr_append: "cstr m a (s @ t) \<longleftrightarrow> (\<forall>i < length s. m (a + of_nat i) = s ! i \<and> s ! i \<noteq> 0) \<and> cstr m (a + of_nat (length s)) t"
proof (induction s arbitrary: a)
  case (Cons c s)
  have "(\<forall>i < length (c # s). m (a + of_nat i) = (c # s) ! i \<and> (c # s) ! i \<noteq> 0) \<longleftrightarrow>
      m a = c \<and> c \<noteq> 0 \<and> (\<forall>i < length s. m (a + 1 + of_nat i) = s ! i \<and> s ! i \<noteq> 0)"
    by (simp add: All_less_Suc2 add.assoc)
  then show ?case using Cons by (auto simp: add.assoc)
qed simp

lemma cstr_no_zero: "cstr m a s \<Longrightarrow> 0 \<notin> set s"
  by (induction s arbitrary: a) auto

text \<open>A write outside the bytes of a string, its terminator included, does not change it.\<close>

lemma cstr_cong: "(\<And>x. inside a (Suc (length s)) x \<Longrightarrow> m' x = m x) \<Longrightarrow> cstr m' a s = cstr m a s"
proof (induction s arbitrary: a)
  case (Cons c s)
  have "cstr m' (a + 1) s = cstr m (a + 1) s" by (rule Cons(1)) (use Cons(2) in \<open>simp add: inside_Suc [of a "Suc (length s)"]\<close>)
  moreover have "m' a = m a" by (rule Cons(2)) (simp add: inside_Suc)
  ultimately show ?case by simp
qed (simp add: inside_Suc)

lemma of_nat_eq_0_iff_dvd_32: "of_nat n = (0 :: u32) \<longleftrightarrow> 2 ^ 32 dvd n"
  using word_of_nat_eq_0_iff [of n, where 'a = 32] by simp

lemma scan_nul_cstr: "cstr m a s \<Longrightarrow> scan_nul m a = Some (a + of_nat (length s))"
  by (induction s arbitrary: a) (simp_all add: scan_nul.simps [of m] add.assoc)

lemma strlen_cstr: "cstr m a s \<Longrightarrow> strlen m a = Some (of_nat (length s))"
  by (simp add: strlen_def scan_nul_cstr)

lemma strchr_found:
  "cstr m a (us @ c # vs) \<Longrightarrow> c \<notin> set us \<Longrightarrow> strchr m a c = Some (a + of_nat (length us))"
  by (induction us arbitrary: a) (auto simp: strchr.simps [of m] add.assoc)

lemma strchr_none: "cstr m a s \<Longrightarrow> c \<notin> set s \<Longrightarrow> c \<noteq> 0 \<Longrightarrow> strchr m a c = Some NULL"
  by (induction s arbitrary: a) (auto simp: strchr.simps [of m])

text \<open>Copying a string to a place that does not meet it.\<close>

lemma copy_str_cstr:
  assumes "cstr m s str" and "length str < 2 ^ 32"
    and "\<And>x. inside s (Suc (length str)) x \<Longrightarrow> \<not> inside d (Suc (length str)) x"
  shows "\<exists>m'. copy_str m d s = Some m' \<and> cstr m' d str \<and> (\<forall>x. \<not> inside d (Suc (length str)) x \<longrightarrow> m' x = m x)"
  using assms
proof (induction str arbitrary: m d s)
  case Nil
  then show ?case by (simp add: copy_str.simps [of m] inside_Suc)
next
  case (Cons c str)
  let ?m = "m(d := c)"
  have apart: "\<not> inside (s + 1) (Suc (length str)) d"
    using Cons(4) [of d] inside_Suc [of s "Suc (length str)" d] inside_Suc [of d "Suc (length str)" d] by auto
  then have "cstr ?m (s + 1) str" using Cons(2) by (subst cstr_cong [of _ _ ?m m]) auto
  moreover have "\<not> inside (d + 1) (Suc (length str)) x" if "inside (s + 1) (Suc (length str)) x" for x
    using Cons(4) [of x] that inside_Suc [of s "Suc (length str)" x] inside_Suc [of d "Suc (length str)" x] by auto
  ultimately obtain m' where m': "copy_str ?m (d + 1) (s + 1) = Some m'" "cstr m' (d + 1) str"
      "\<And>x. \<not> inside (d + 1) (Suc (length str)) x \<Longrightarrow> m' x = ?m x"
    using Cons(1) [of ?m "s + 1" "d + 1"] Cons(3) by (auto simp del: fun_upd_apply)
  have "m' d = c" using m'(3) [of d] not_inside_next [of "Suc (length str)" d] Cons(3) by simp
  moreover have "m' x = m x" if "\<not> inside d (Suc (length (c # str))) x" for x
    using that m'(3) [of x] inside_Suc [of d "Suc (length str)" x] by auto
  moreover have "copy_str m d s = Some m'" using m'(1) Cons(2) by (simp add: copy_str.simps [of m])
  ultimately show ?case using m'(2) Cons(2) by auto
qed

section \<open>Tokens\<close>

text \<open>The delimiter-free runs of a string.\<close>

function tokens :: "u8 set \<Rightarrow> u8 list \<Rightarrow> u8 list list" where
  "tokens D s =
     (let t = dropWhile (\<lambda>c. c \<in> D) s
      in if t = [] then [] else takeWhile (\<lambda>c. c \<notin> D) t # tokens D (drop 1 (dropWhile (\<lambda>c. c \<notin> D) t)))"
  by pat_completeness auto
termination
proof (relation "measure (\<lambda>(D, s). length s)", goal_cases)
  case (2 D s t)
  have "0 < length t" using 2(2) by simp
  then have "length (drop 1 (dropWhile (\<lambda>c. c \<notin> D) t)) < length t"
    using length_dropWhile_le [of "\<lambda>c. c \<notin> D" t] by (simp only: length_drop)
  then show ?case using 2(1) length_dropWhile_le [of "\<lambda>c. c \<in> D" s] by simp
qed simp

declare tokens.simps [simp del]

lemma is_delim_cstr: "cstr m dl ds \<Longrightarrow> is_delim m c dl = Some (c \<in> set ds)"
  by (induction ds arbitrary: dl) (auto simp: is_delim.simps [of m])

lemma skip_delims_cstr:
  assumes "cstr m dl ds" and "cstr m a s"
  shows "skip_delims m a dl = Some (a + of_nat (length (takeWhile (\<lambda>c. c \<in> set ds) s))) \<and>
    cstr m (a + of_nat (length (takeWhile (\<lambda>c. c \<in> set ds) s))) (dropWhile (\<lambda>c. c \<in> set ds) s)"
  using assms(2)
proof (induction s arbitrary: a)
  case Nil
  then show ?case using cstr_no_zero [OF assms(1)]
    by (simp add: skip_delims.simps [of m a] is_delim_cstr [OF assms(1)])
next
  case (Cons c s)
  then show ?case using Cons(1) [of "a + 1"] by (simp add: skip_delims.simps [of m a] is_delim_cstr [OF assms(1)] add.assoc)
qed

lemma token_end_cstr:
  assumes dl: "cstr m dl ds" and a: "cstr m a s" "length s < 2 ^ 32"
    and t: "t = takeWhile (\<lambda>c. c \<notin> set ds) s" and r: "r = dropWhile (\<lambda>c. c \<notin> set ds) s"
  shows "\<exists>m' b. token_end m a dl = Some (m', b) \<and> cstr m' a t \<and> cstr m' b (drop 1 r) \<and>
    b = a + of_nat (length t) + of_nat (min 1 (length r)) \<and> (\<forall>x. x \<noteq> a + of_nat (length t) \<or> r = [] \<longrightarrow> m' x = m x)"
  using a t r
proof (induction s arbitrary: a t r)
  case Nil
  then show ?case by (simp add: token_end.simps [of m a])
next
  case (Cons c s)
  show ?case
  proof (cases "c \<in> set ds")
    case True
    have "token_end m a dl = Some (m(a := 0), a + 1)"
      using True Cons(2) by (simp add: token_end.simps [of m a] is_delim_cstr [OF dl])
    moreover have "cstr (m(a := 0)) (a + 1) s"
      using Cons(2,3) not_inside_next [of "Suc (length s)" a] by (subst cstr_cong [of _ _ _ m]) auto
    ultimately show ?thesis using True Cons(4,5) by simp
  next
    case False
    then obtain tt where t: "t = c # tt" "tt = takeWhile (\<lambda>c. c \<notin> set ds) s" using Cons(4) by simp
    obtain m' b where IH: "token_end m (a + 1) dl = Some (m', b)" "cstr m' (a + 1) tt" "cstr m' b (drop 1 r)"
      "b = a + 1 + of_nat (length tt) + of_nat (min 1 (length r))" "\<And>x. x \<noteq> a + 1 + of_nat (length tt) \<or> r = [] \<Longrightarrow> m' x = m x"
      using Cons(1) [of "a + 1" tt r] Cons(2-5) t(2) False by auto
    have "length tt \<le> length s" unfolding t(2) by (rule length_takeWhile_le)
    then have "length tt + 1 < 2 ^ 32" using Cons(3) by simp
    then have "of_nat (length tt + 1) \<noteq> (0 :: u32)" by (simp only: of_nat_eq_0_iff_dvd_32) (auto dest: dvd_imp_le)
    then have "a \<noteq> a + 1 + of_nat (length tt)" by (simp add: add.assoc add.commute [of 1])
    then have "m' a = c" using IH(5) Cons(2) by simp
    moreover have "token_end m a dl = Some (m', b)" using IH(1) Cons(2) False
      by (simp add: token_end.simps [of m a] is_delim_cstr [OF dl])
    ultimately show ?thesis using IH Cons(2) t(1) by (auto simp: add.assoc)
  qed
qed

lemma strtok_from:
  assumes "a = (if src = NULL then backup else src)" and "a \<noteq> NULL"
  shows "strtok m backup src dl = Option.bind (skip_delims m a dl) (\<lambda>ret. if m ret = 0 then Some (NULL, m, backup)
    else Option.bind (token_end m ret dl) (\<lambda>(m', b). Some (ret, m', b)))"
  using assms(2) unfolding strtok_def assms(1) [symmetric] Let_def by simp

text \<open>One call of \<open>strtok\<close> on a string without a token, and on one that has a token.\<close>

lemma strtok_end:
  assumes "cstr m dl ds" and "cstr m a s" and "a \<noteq> NULL" and "a = (if src = NULL then backup else src)"
    and "tokens (set ds) s = []"
  shows "strtok m backup src dl = Some (NULL, m, backup)"
proof -
  have "dropWhile (\<lambda>c. c \<in> set ds) s = []" using assms(5) by (simp add: tokens.simps [of _ s] Let_def split: if_splits)
  then show ?thesis unfolding strtok_from [OF assms(4,3)] using skip_delims_cstr [OF assms(1,2)] by (simp del: dropWhile_eq_Nil_conv)
qed

lemma inside_offset: "i < n \<Longrightarrow> n \<le> 2 ^ 32 \<Longrightarrow> inside a n (a + of_nat i)"
  by (simp add: inside_def unat_of_nat take_bit_nat_eq_self)

lemma inside_tail:
  assumes "inside (a + of_nat i) n x" and "unat a + i + n \<le> 2 ^ 32"
  shows "inside a (i + n) x" and "i \<le> unat (x - a)"
proof -
  let ?y = "x - (a + of_nat i)"
  have y: "unat ?y < n" using assms(1) by (simp add: inside_def)
  have i: "unat (of_nat i :: u32) = i" using assms(2) y by (intro unat_of_nat_eq32) simp
  have "x - a = ?y + of_nat i" by simp
  then have "unat (x - a) = unat (?y + of_nat i)" by (rule arg_cong)
  also have "\<dots> = unat ?y + i" using unat_add32 [of ?y "of_nat i"] i y assms(2) by linarith
  finally show "inside a (i + n) x" "i \<le> unat (x - a)" using y by (simp_all add: inside_def)
qed

lemma strtok_step:
  assumes dl: "cstr m dl ds" and a: "cstr m a s" "a \<noteq> NULL" "a = (if src = NULL then backup else src)"
    and lim: "unat a + length s < 2 ^ 32"
    and t: "tokens (set ds) s = t # ts"
  obtains p m' b s' i j where "strtok m backup src dl = Some (p, m', b)"
    "cstr m' p t" "cstr m' b s'" "tokens (set ds) s' = ts"
    "p = a + of_nat i" "b = a + of_nat j" "i + length t \<le> j" "j + length s' = length s"
    "\<forall>x. x \<noteq> a + of_nat (i + length t) \<or> i + length t = length s \<longrightarrow> m' x = m x" "i + length t \<le> length s"
    "i + length t < j \<or> s' = []"
proof -
  let ?i = "length (takeWhile (\<lambda>c. c \<in> set ds) s)" and ?u = "dropWhile (\<lambda>c. c \<in> set ds) s"
  let ?r = "dropWhile (\<lambda>c. c \<notin> set ds) ?u"
  have u: "?u \<noteq> []" "t = takeWhile (\<lambda>c. c \<notin> set ds) ?u" "ts = tokens (set ds) (drop 1 ?r)"
    using t by (simp_all add: tokens.simps [of _ s] Let_def split: if_splits)
  have len: "?i + length ?u = length s" "length t + length ?r = length ?u"
    unfolding u(2) length_append [symmetric] by (simp_all only: takeWhile_dropWhile_id)
  have sk: "skip_delims m a dl = Some (a + of_nat ?i)" "cstr m (a + of_nat ?i) ?u"
    using skip_delims_cstr [OF dl a(1)] by blast+
  have "length ?u < 2 ^ 32" using len(1) lim by linarith
  then obtain m' b where e: "token_end m (a + of_nat ?i) dl = Some (m', b)" "cstr m' (a + of_nat ?i) t" "cstr m' b (drop 1 ?r)"
    "b = a + of_nat ?i + of_nat (length t) + of_nat (min 1 (length ?r))"
    "\<forall>x. x \<noteq> a + of_nat ?i + of_nat (length t) \<or> ?r = [] \<longrightarrow> m' x = m x"
    using token_end_cstr [OF dl sk(2) _ u(2) refl] by blast
  have gen: "n < n + min 1 (length r) \<or> drop 1 r = []" for n and r :: "u8 list" by (cases r) auto
  have rest: "min 1 (length ?r) + length (drop 1 ?r) = length ?r" by (simp only: length_drop)
  have nz: "m (a + of_nat ?i) \<noteq> 0" using sk(2) u(1) by (cases ?u) auto
  show ?thesis
  proof (rule that [of "a + of_nat ?i" m' b "drop 1 ?r" ?i "?i + length t + min 1 (length ?r)"])
    show "strtok m backup src dl = Some (a + of_nat ?i, m', b)" unfolding strtok_from [OF a(3,2)] using sk(1) nz e(1) by simp
    show "?i + length t + min 1 (length ?r) + length (drop 1 ?r) = length s" using len rest by linarith
    show "?i + length t \<le> length s" using len by linarith
    show "?i + length t < ?i + length t + min 1 (length ?r) \<or> drop 1 ?r = []" by (rule gen)
    have "?i + length t = length s \<longleftrightarrow> ?r = []" 
      unfolding length_0_conv [symmetric] by (rule iffI) (use len in linarith)+
    then show "\<forall>x. x \<noteq> a + of_nat (?i + length t) \<or> ?i + length t = length s \<longrightarrow> m' x = m x"
      using e(5) by (simp only: add.assoc of_nat_add)
    show "b = a + of_nat (?i + length t + min 1 (length ?r))" unfolding e(4) by (simp only: add.assoc of_nat_add)
  qed (use e(2,3) u(3) in \<open>simp_all only: le_add1\<close>)
qed

text \<open>The usual loop: a first call with the string, then calls with \<open>NULL\<close>.\<close>

fun strtok_calls :: "nat \<Rightarrow> mem \<Rightarrow> ptr \<Rightarrow> ptr \<Rightarrow> ptr \<Rightarrow> (mem \<times> ptr list) option" where
  "strtok_calls 0 m backup src dl = Some (m, [])"
| "strtok_calls (Suc n) m backup src dl =
     do { (p, m1, b) \<leftarrow> strtok m backup src dl; (m2, ps) \<leftarrow> strtok_calls n m1 b NULL dl; Some (m2, p # ps) }"

lemma strtok_calls_ok:
  assumes "cstr m dl ds" and "cstr m a s" and "a \<noteq> NULL" and "a = (if src = NULL then backup else src)"
    and "unat a + length s < 2 ^ 32" and "\<forall>x. inside dl (Suc (length ds)) x \<longrightarrow> \<not> inside a (Suc (length s)) x"
    and "ts = tokens (set ds) s"
  shows "\<exists>m' ps. strtok_calls (Suc (length ts)) m backup src dl = Some (m', ps @ [NULL]) \<and>
    list_all2 (\<lambda>p t. p \<noteq> NULL \<and> cstr m' p t) ps ts \<and> (\<forall>x. \<not> inside a (length s) x \<longrightarrow> m' x = m x)"
  using assms
proof (induction ts arbitrary: m a s src backup)
  case Nil
  then show ?case using strtok_end [of m dl ds a s src backup] by simp
next
  case (Cons t ts)
  note lim = Cons(6)
  obtain p m1 b s' i j where st: "strtok m backup src dl = Some (p, m1, b)"
    "cstr m1 p t" "cstr m1 b s'" "tokens (set ds) s' = ts"
    "p = a + of_nat i" "b = a + of_nat j" "i + length t \<le> j" "j + length s' = length s"
    "\<forall>x. x \<noteq> a + of_nat (i + length t) \<or> i + length t = length s \<longrightarrow> m1 x = m x" "i + length t \<le> length s"
    "i + length t < j \<or> s' = []"
    by (rule strtok_step [OF Cons(2-6) Cons(8) [symmetric]])
  have na: "unat a \<noteq> 0" using Cons(4) by (simp add: unat_eq_0)
  have off: "unat (a + of_nat q) = unat a + q" if "q \<le> length s" for q
    using unat_add32 [of a "of_nat q"] unat_of_nat_eq32 [of q] that lim by simp
  have ub: "unat b = unat a + j" "b \<noteq> NULL" using off [of j] st(6,8) na by (auto simp: unat_eq_0)
  have tail: "inside a (Suc (length s)) x" if "inside b (Suc (length s')) x" for x
    using inside_tail(1) [of a j "Suc (length s')" x] that st(6,8) lim by simp
  have z: "inside a (Suc (length s)) (a + of_nat (i + length t))" using st(10) lim by (intro inside_offset) auto
  have dl1: "cstr m1 dl ds"
    using Cons(2) by (subst cstr_cong [of _ _ m1 m]) (use st(9) Cons(7) z in \<open>metis\<close>)
  have ap: "\<forall>x. inside dl (Suc (length ds)) x \<longrightarrow> \<not> inside b (Suc (length s')) x" using Cons(7) tail by blast
  have "unat b + length s' < 2 ^ 32" using ub(1) st(8) lim by linarith
  then obtain m' ps where IH: "strtok_calls (Suc (length ts)) m1 b NULL dl = Some (m', ps @ [NULL])"
    "list_all2 (\<lambda>p t. p \<noteq> NULL \<and> cstr m' p t) ps ts" "\<And>x. \<not> inside b (length s') x \<Longrightarrow> m' x = m1 x"
    using Cons(1) [OF dl1 st(3) ub(2) _ _ ap st(4) [symmetric], of NULL b] by auto
  have run: "strtok_calls (Suc (length (t # ts))) m backup src dl = Some (m', (p # ps) @ [NULL])"
    unfolding list.size add_0_right add_Suc_right strtok_calls.simps(2) [of "Suc (length ts)"]
    using st(1) IH(1) by (simp del: strtok_calls.simps)
  have up: "unat p = unat a + i" using off [of i] st(5,10) by simp
  have "m' x = m1 x" if x: "inside p (Suc (length t)) x" for x
  proof (rule IH(3))
    have "unat a + i + Suc (length t) \<le> 2 ^ 32" using st(10) lim by linarith
    then have "unat (x - a) < i + Suc (length t)" using inside_tail(1) [of a i "Suc (length t)" x] x st(5) by (simp add: inside_def)
    then show "\<not> inside b (length s') x"
      using inside_tail(2) [of a j "length s'" x] st(6,8,11) lim by (cases s') (auto simp: not_less)
  qed
  then have pt: "cstr m' p t" using st(2) by (subst cstr_cong [of _ _ m' m1]) auto
  have pn: "p \<noteq> NULL" using up na by (auto simp: unat_eq_0)
  have frame: "m' x = m x" if x: "\<not> inside a (length s) x" for x
  proof -
    have "\<not> inside b (length s') x" using inside_tail(1) [of a j "length s'" x] x st(6,8) lim by auto
    moreover have "x \<noteq> a + of_nat (i + length t) \<or> i + length t = length s"
      using x inside_offset [of "i + length t" "length s" a] st(10) lim by (metis le_neq_implies_less less_imp_le_nat add_leD2)
    ultimately show ?thesis using IH(3) st(9) by simp
  qed
  show ?case using run IH(2) pt pn frame by (intro exI [of _ m'] exI [of _ "p # ps"]) simp
qed

section \<open>Properties\<close>

text \<open>
  calling \<open>strtok\<close> on a string and then with \<open>NULL\<close> returns the tokens of the string, its
  maximal runs of bytes that are not in the delimiter set, in order, each as a terminated string
  that is still there after all the calls, and then \<open>NULL\<close>. No byte outside the string changes.
  The delimiter string must not overlap the string.
\<close>

theorem strtok_splits:
  assumes "cstr m dl ds" and "cstr m a s" and "a \<noteq> NULL" and "unat a + length s < 2 ^ 32"
    and "\<forall>x. inside dl (Suc (length ds)) x \<longrightarrow> \<not> inside a (Suc (length s)) x"
  shows "\<exists>m' ps. strtok_calls (Suc (length (tokens (set ds) s))) m backup a dl = Some (m', ps @ [NULL]) \<and>
    list_all2 (\<lambda>p t. p \<noteq> NULL \<and> cstr m' p t) ps (tokens (set ds) s) \<and> (\<forall>x. \<not> inside a (length s) x \<longrightarrow> m' x = m x)"
proof -
  have "a = (if a = NULL then backup else a)" using assms(3) by simp
  from strtok_calls_ok [OF assms(1-3) this assms(4,5) refl] show ?thesis .
qed

fun poke :: "mem \<Rightarrow> ptr \<Rightarrow> u8 list \<Rightarrow> mem" where
  "poke m a [] = m"
| "poke m a (c # s) = poke (m(a := c)) (a + 1) s"

theorem strtok_splits_witness:
  "\<exists>m' p q. strtok_calls 3 (poke (poke (\<lambda>_. 0) 16 [32]) 64 [32, 108, 115, 32, 32, 45, 97]) 0 64 16 = Some (m', [p, q, NULL]) \<and>
     cstr m' p [108, 115] \<and> cstr m' q [45, 97]"
proof -
  let ?m = "poke (poke (\<lambda>_. 0) 16 [32]) 64 [32, 108, 115, 32, 32, 45, 97]"
  let ?s = "[32, 108, 115, 32, 32, 45, 97] :: u8 list"
  have t: "tokens (set [32]) ?s = [[108, 115], [45, 97]]" by (simp add: tokens.simps)
  have c: "cstr ?m 16 [32]" "cstr ?m 64 ?s" "(64 :: ptr) \<noteq> NULL" "unat (64 :: ptr) + length ?s < 2 ^ 32" by simp_all
  have "\<forall>x. inside 16 (Suc (length [32 :: u8])) x \<longrightarrow> \<not> inside 64 (Suc (length ?s)) x"
    by (auto simp: inside_Suc)
  from strtok_splits [OF c this, of 0, unfolded t]
  obtain m' ps where r: "strtok_calls (Suc (Suc (Suc 0))) ?m 0 64 16 = Some (m', ps @ [NULL])"
    "list_all2 (\<lambda>p t. p \<noteq> NULL \<and> cstr m' p t) ps [[108, 115], [45, 97]]" by auto
  obtain p q where "ps = [p, q]" "cstr m' p [108, 115]" "cstr m' q [45, 97]"
    using r(2) by (auto simp: list_all2_Cons2)
  then show ?thesis using r(1) by (auto simp: numeral_3_eq_3)
qed

end
