(* ===== verification/Numbers.thy ===== *)
theory Numbers
  imports CString "HOL-Library.Signed_Division"
begin

text \<open>
  Numbers and text: \<^verbatim>\<open>libc/src/ctype/ctype.c\<close>, \<open>strtol\<close> of \<^verbatim>\<open>libc/src/string/strtol.c\<close> and
  \<open>atoi\<close> and \<open>itoa\<close> of \<^verbatim>\<open>libc/src/stdlib/atoi.c\<close>. An \<open>int\<close> or \<open>long\<close> of the code (32 bits) is an
  integer here. Where the code accumulates digits, every multiplication, addition and subtraction
  goes through \<open>long_val\<close>, in the order in which C evaluates them: a result outside of the 32 bits
  is a signed overflow, which C leaves undefined, and the model has no value then (\<open>None\<close>). So a
  theorem that gives \<open>Some\<close> value shows that no step overflows. \<open>/\<close> and \<open>%\<close> truncate towards zero,
  as \<open>sdiv\<close> and \<open>smod\<close> do.
\<close>

section \<open>Character classes\<close>

definition isspace :: "int \<Rightarrow> bool" where
  "isspace c \<longleftrightarrow> c = 9 \<or> c = 10 \<or> c = 11 \<or> c = 12 \<or> c = 13 \<or> c = 32"

definition isalpha :: "int \<Rightarrow> bool" where
  "isalpha c \<longleftrightarrow> c \<ge> 65 \<and> c \<le> 90 \<or> c \<ge> 97 \<and> c \<le> 122"

definition isdigit :: "int \<Rightarrow> bool" where
  "isdigit c \<longleftrightarrow> c \<ge> 48 \<and> c \<le> 57"

definition isalnum :: "int \<Rightarrow> bool" where
  "isalnum c \<longleftrightarrow> isalpha c \<or> isdigit c"

definition isblank :: "int \<Rightarrow> bool" where
  "isblank c = isspace c"

definition iscntrl :: "int \<Rightarrow> bool" where
  "iscntrl c \<longleftrightarrow> c = 0x7F \<or> c \<ge> 0 \<and> c \<le> 0x1F"

definition isgraph :: "int \<Rightarrow> bool" where
  "isgraph c \<longleftrightarrow> c \<ge> 0x21 \<and> c \<le> 0x7E"

definition islower :: "int \<Rightarrow> bool" where
  "islower c \<longleftrightarrow> c \<ge> 97 \<and> c \<le> 122"

definition isupper :: "int \<Rightarrow> bool" where
  "isupper c \<longleftrightarrow> c \<ge> 65 \<and> c \<le> 90"

definition isprint :: "int \<Rightarrow> bool" where
  "isprint c \<longleftrightarrow> c \<ge> 0x20 \<and> c \<le> 0x7E"

definition ispunct :: "int \<Rightarrow> bool" where
  "ispunct c \<longleftrightarrow> c \<noteq> 32 \<and> \<not> isalnum c \<and> isprint c"

definition isxdigit :: "int \<Rightarrow> bool" where
  "isxdigit c \<longleftrightarrow> isdigit c \<or> c \<ge> 65 \<and> c \<le> 70 \<or> c \<ge> 97 \<and> c \<le> 102"

definition toupper :: "int \<Rightarrow> int" where
  "toupper c = (if islower c then c - 97 + 65 else c)"

definition tolower :: "int \<Rightarrow> int" where
  "tolower c = (if isupper c then c - 65 + 97 else c)"

section \<open>The conversion of text to a number\<close>

abbreviation (input) LONG_MAX :: int where "LONG_MAX \<equiv> 2147483647"
abbreviation (input) LONG_MIN :: int where "LONG_MIN \<equiv> - 2147483648"

text \<open>The result of an operation on \<open>int\<close> or \<open>long\<close>, both of 32 bits; there is none after an overflow.\<close>

definition long_val :: "int \<Rightarrow> int option" where
  "long_val v = (if LONG_MIN \<le> v \<and> v \<le> LONG_MAX then Some v else None)"

text \<open>The first character after the white space, and the position behind it.\<close>

partial_function (option) skip_space :: "mem \<Rightarrow> ptr \<Rightarrow> (int \<times> ptr) option" where
  "skip_space m s = (if isspace (uint (m s)) then skip_space m (s + 1) else Some (uint (m s), s + 1))"

text \<open>The value the loop of \<open>strtol\<close> gives a character, before it is compared with the base.\<close>

definition digit_value :: "int \<Rightarrow> int option" where
  "digit_value c =
     (if isdigit c then Some (c - 48)
      else if isalpha c then Some (c - (if isupper c then 65 - 10 else 97 - 10))
      else None)"

definition strtol_acc :: "bool \<Rightarrow> int \<Rightarrow> int \<Rightarrow> int \<Rightarrow> int \<Rightarrow> int \<times> int \<Rightarrow> (int \<times> int) option" where
  "strtol_acc neg base cutoff cutlim c = (\<lambda>(acc, any).
     if any < 0 then Some (acc, any)
     else if neg
     then if acc < cutoff \<or> acc = cutoff \<and> c > cutlim then Some (LONG_MIN, - 1)
          else do { p \<leftarrow> long_val (acc * base); r \<leftarrow> long_val (p - c); Some (r, 1) }
     else if acc > cutoff \<or> acc = cutoff \<and> c > cutlim then Some (LONG_MAX, - 1)
          else do { p \<leftarrow> long_val (acc * base); r \<leftarrow> long_val (p + c); Some (r, 1) })"

partial_function (option) strtol_loop ::
  "mem \<Rightarrow> bool \<Rightarrow> int \<Rightarrow> int \<Rightarrow> int \<Rightarrow> ptr \<Rightarrow> int \<Rightarrow> int \<times> int \<Rightarrow> ((int \<times> int) \<times> ptr) option" where
  "strtol_loop m neg base cutoff cutlim s c st =
     (case digit_value c of
        None \<Rightarrow> Some (st, s)
      | Some d \<Rightarrow> if d \<ge> base then Some (st, s)
          else do { st1 \<leftarrow> strtol_acc neg base cutoff cutlim d st;
                    strtol_loop m neg base cutoff cutlim (s + 1) (uint (m s)) st1 })"

text \<open>\<open>cutoff\<close> and \<open>cutlim\<close>.\<close>

definition limits :: "bool \<Rightarrow> int \<Rightarrow> int \<times> int" where
  "limits neg base =
     (let lim = (if neg then LONG_MIN else LONG_MAX); cutlim0 = lim smod base; cutoff0 = lim sdiv base
      in if neg then (if cutlim0 > 0 then (cutoff0 + 1, - (cutlim0 - base)) else (cutoff0, - cutlim0)) else (cutoff0, cutlim0))"

text \<open>The value and \<open>*endptr\<close>.\<close>

definition strtol :: "mem \<Rightarrow> ptr \<Rightarrow> int \<Rightarrow> (int \<times> ptr) option" where
  "strtol m nptr base0 = do {
     (c0, s0) \<leftarrow> skip_space m nptr;
     let neg = (c0 = 45);
     let (c1, s1) = (if c0 = 45 \<or> c0 = 43 then (sint (m s0), s0 + 1) else (c0, s0));
     let hex = ((base0 = 0 \<or> base0 = 16) \<and> c1 = 48 \<and> (m s1 = 120 \<or> m s1 = 88));
     let (c2, s2, base1) = (if hex then (sint (m (s1 + 1)), s1 + 2, 16) else (c1, s1, base0));
     let base = (if base1 = 0 then (if c2 = 48 then 8 else 10) else base1);
     let (cutoff, cutlim) = limits neg base;
     ((acc, any), s) \<leftarrow> strtol_loop m neg base cutoff cutlim s2 c2 (0, 0);
     Some (acc, if any \<noteq> 0 then s - 1 else nptr) }"

section \<open>The conversions of \<open>atoi.c\<close>\<close>

partial_function (option) atoi_loop :: "mem \<Rightarrow> ptr \<Rightarrow> int \<Rightarrow> int option" where
  "atoi_loop m s res =
     (if m s \<noteq> 0
      then do { t \<leftarrow> long_val (res * 10); u \<leftarrow> long_val (t + sint (m s)); v \<leftarrow> long_val (u - 48);
                atoi_loop m (s + 1) v }
      else Some res)"

definition atoi :: "mem \<Rightarrow> ptr \<Rightarrow> int option" where
  "atoi m str = atoi_loop m str 0"

definition itoa_digit :: "int \<Rightarrow> u8" where
  "itoa_digit digit = (if digit < 10 then of_int (digit + 48) else of_int (digit + 97))"

text \<open>The loop returns the memory and the position behind the last digit.\<close>

partial_function (option) itoa_loop :: "mem \<Rightarrow> ptr \<Rightarrow> int \<Rightarrow> int \<Rightarrow> (mem \<times> ptr) option" where
  "itoa_loop m s n radix =
     (let m1 = m(s := itoa_digit (n smod radix))
      in if n sdiv radix > 0 then itoa_loop m1 (s + 1) (n sdiv radix) radix else Some (m1, s + 1))"

definition itoa :: "mem \<Rightarrow> u32 \<Rightarrow> ptr \<Rightarrow> int \<Rightarrow> mem option" where
  "itoa m n s radix = do {
     (m1, e) \<leftarrow> itoa_loop m s (if sint n < 0 then sint (- n) else sint n) radix;
     let (m2, e2) = (if sint n < 0 then (m1(e := 45), e + 1) else (m1, e));
     reverse (m2(e2 := 0)) s }"

section \<open>The limits of \<open>strtol\<close>\<close>

text \<open>
  The test before a digit is appended: it holds exactly when the new value is out of range.
\<close>

lemma cutoff_pos:
  fixes acc b d :: int
  assumes "0 \<le> d" "d < b"
  shows "acc > L div b \<or> acc = L div b \<and> d > L mod b \<longleftrightarrow> acc * b + d > L"
proof -
  have b: "0 < b" using assms by simp
  have L: "L = (L div b) * b + L mod b" "0 \<le> L mod b" "L mod b < b" using b by simp_all
  consider "acc > L div b" | "acc = L div b" | "acc < L div b" by linarith
  then show ?thesis
  proof cases
    case 1
    then have "(L div b + 1) * b \<le> acc * b" using b by (intro mult_right_mono) auto
    then have "L div b * b + b \<le> acc * b" by (simp only: distrib_right mult_1)
    then have "acc * b + d > L" using L assms by linarith
    then show ?thesis using 1 by simp
  next
    case 2
    have "acc * b + d - L = d - L mod b" unfolding 2 using L(1) by linarith
    then show ?thesis using 2 by auto
  next
    case 3
    then have "(acc + 1) * b \<le> (L div b) * b" using b by (intro mult_right_mono) auto
    then have "acc * b + b \<le> L div b * b" by (simp only: distrib_right mult_1)
    then have "\<not> acc * b + d > L" using L assms by linarith
    then show ?thesis using 3 by simp
  qed
qed

definition clamp :: "int \<Rightarrow> int" where
  "clamp v = (if v > LONG_MAX then LONG_MAX else if v < LONG_MIN then LONG_MIN else v)"

abbreviation value_of :: "int \<Rightarrow> int \<Rightarrow> int list \<Rightarrow> int" where
  "value_of b v ds \<equiv> foldl (\<lambda>v d. v * b + d) v ds"

lemma value_mono: "0 < b \<Longrightarrow> 0 \<le> v \<Longrightarrow> \<forall>d \<in> set ds. 0 \<le> d \<Longrightarrow> v \<le> value_of b v ds"
proof (induction ds arbitrary: v)
  case (Cons d ds)
  have "v * 1 \<le> v * b" using Cons(2,3) by (intro mult_left_mono) auto
  then have "v \<le> v * b + d" "0 \<le> v * b + d" using Cons(3,4) by auto
  then show ?case using Cons(1) [of "v * b + d"] Cons(2,4) by simp
qed simp

text \<open>With \<open>neg\<close> the accumulator is the negated value.\<close>

definition signed_value :: "bool \<Rightarrow> int \<Rightarrow> int" where
  "signed_value neg v = (if neg then - v else v)"

lemma limits_eq:
  assumes "2 \<le> b"
  shows "limits False b = (LONG_MAX div b, LONG_MAX mod b)" and "limits True b = (- (2147483648 div b), 2147483648 mod b)"
proof -
  show "limits False b = (LONG_MAX div b, LONG_MAX mod b)"
    using assms by (simp add: limits_def signed_divide_int_def signed_modulo_int_def minus_mult_div_eq_mod)
  have "LONG_MIN sdiv b = - (2147483648 div b)" "LONG_MIN smod b = - (2147483648 mod b)"
    using assms by (simp_all add: signed_divide_int_def signed_modulo_int_def minus_mult_div_eq_mod)
  moreover have "0 \<le> 2147483648 mod b" using assms by simp
  ultimately show "limits True b = (- (2147483648 div b), 2147483648 mod b)" by (simp add: limits_def)
qed

definition represents :: "bool \<Rightarrow> int \<Rightarrow> int \<times> int \<Rightarrow> bool" where
  "represents neg v = (\<lambda>(acc, any). acc = clamp (signed_value neg v) \<and> (any < 0 \<longleftrightarrow> clamp (signed_value neg v) \<noteq> signed_value neg v))"

lemma strtol_acc_step:
  assumes b: "2 \<le> b" and d: "0 \<le> d" "d < b" and v: "0 \<le> v" and st: "represents neg v st"
    and l: "limits neg b = (cutoff, cutlim)"
  shows "\<exists>st'. strtol_acc neg b cutoff cutlim d st = Some st' \<and> represents neg (v * b + d) st' \<and> snd st' \<noteq> 0"
proof -
  obtain acc any where s: "st = (acc, any)" by (cases st)
  have big: "v \<le> v * b" using mult_left_mono [of 1 b v] b v by simp
  then have big': "v \<le> v * b + d" using d by simp
  show ?thesis
  proof (cases "any < 0")
    case True
    then have "clamp (signed_value neg v) \<noteq> signed_value neg v" "acc = clamp (signed_value neg v)" using st s by (simp_all add: represents_def)
    then have "clamp (signed_value neg (v * b + d)) \<noteq> signed_value neg (v * b + d)" "acc = clamp (signed_value neg (v * b + d))"
      using big' v by (cases neg; simp add: clamp_def signed_value_def split: if_splits)+
    then show ?thesis using True s by (simp add: strtol_acc_def represents_def)
  next
    case False
    then have eq: "clamp (signed_value neg v) = signed_value neg v" "acc = signed_value neg v" using st s by (simp_all add: represents_def)
    have ge: "0 \<le> v * b" using v b by simp
    show ?thesis
    proof (cases neg)
      case True
      have c: "cutoff = - (2147483648 div b)" "cutlim = 2147483648 mod b" using l True limits_eq(2) [OF b] by auto
      have "acc < cutoff \<or> acc = cutoff \<and> d > cutlim \<longleftrightarrow> v * b + d > 2147483648"
        using cutoff_pos [OF d, of 2147483648 v] eq(2) True by (auto simp: c signed_value_def)
      then show ?thesis using False True s eq ge d
        by (auto simp: strtol_acc_def represents_def signed_value_def clamp_def long_val_def)
    next
      case neg: False
      have c: "cutoff = LONG_MAX div b" "cutlim = LONG_MAX mod b" using l neg limits_eq(1) [OF b] by auto
      have "acc > cutoff \<or> acc = cutoff \<and> d > cutlim \<longleftrightarrow> v * b + d > LONG_MAX"
        using cutoff_pos [OF d, of LONG_MAX v] eq(2) neg by (auto simp: c signed_value_def)
      then show ?thesis using False neg s eq ge d
        by (auto simp: strtol_acc_def represents_def signed_value_def clamp_def long_val_def)
    qed
  qed
qed

text \<open>The characters \<open>cs\<close> are digits of base \<open>b\<close> with the values \<open>ds\<close>.\<close>

definition digits_of :: "int \<Rightarrow> u8 list \<Rightarrow> int list \<Rightarrow> bool" where
  "digits_of b cs ds \<longleftrightarrow> list_all2 (\<lambda>c d. digit_value (uint c) = Some d \<and> d < b) cs ds"

lemma digit_value_nonneg: "digit_value c = Some d \<Longrightarrow> 0 \<le> d"
  by (auto simp: digit_value_def isdigit_def isalpha_def isupper_def split: if_splits)

text \<open>The loop has read the character \<open>c\<close> before \<open>s\<close>; the rest of the digits and the text after them are at \<open>s\<close>.\<close>

lemma strtol_loop_ok:
  assumes b: "2 \<le> b" and l: "limits neg b = (cutoff, cutlim)"
    and stop: "case digit_value (uint e) of None \<Rightarrow> True | Some d \<Rightarrow> b \<le> d"
  shows "digits_of b cs ds \<Longrightarrow> 0 \<le> v \<Longrightarrow> represents neg v st \<Longrightarrow> (\<forall>i < length (cs @ [e]). m (s + of_nat i) = (cs @ [e]) ! i) \<Longrightarrow>
    \<exists>st'. strtol_loop m neg b cutoff cutlim (s + 1) (uint (m s)) st = Some (st', s + of_nat (length cs) + 1) \<and>
      represents neg (value_of b v ds) st' \<and> (cs \<noteq> [] \<longrightarrow> snd st' \<noteq> 0) \<and> (cs = [] \<longrightarrow> st' = st)"
proof (induction cs arbitrary: s v st ds)
  case Nil
  have "m s = e" using Nil(4) by simp
  then show ?case using Nil stop by (cases st, subst strtol_loop.simps) (auto simp: digits_of_def split: option.splits)
next
  case (Cons c cs)
  obtain d ds' where ds: "ds = d # ds'" "digit_value (uint c) = Some d" "d < b" "digits_of b cs ds'"
    using Cons(2) by (auto simp: digits_of_def list_all2_Cons1)
  have d0: "0 \<le> d" using digit_value_nonneg [OF ds(2)] .
  obtain st1 where step: "strtol_acc neg b cutoff cutlim d st = Some st1" "represents neg (v * b + d) st1" "snd st1 \<noteq> 0"
    using strtol_acc_step [OF b d0 ds(3) Cons(3,4) l] by auto
  have v': "0 \<le> v * b + d" using Cons(3) b d0 by simp
  have mc: "m s = c" "\<forall>i < length (cs @ [e]). m (s + 1 + of_nat i) = (cs @ [e]) ! i"
    using Cons(5) [rule_format, of 0] Cons(5) [rule_format, of "Suc i" for i] by (auto simp: add.assoc)
  obtain st' where IH: "strtol_loop m neg b cutoff cutlim (s + 1 + 1) (uint (m (s + 1))) st1 = Some (st', s + 1 + of_nat (length cs) + 1)"
    "represents neg (value_of b (v * b + d) ds') st'" "cs \<noteq> [] \<longrightarrow> snd st' \<noteq> 0" "cs = [] \<longrightarrow> st' = st1"
    using Cons(1) [OF ds(4) v' step(2) mc(2)] by blast
  have "strtol_loop m neg b cutoff cutlim (s + 1) (uint (m s)) st = Some (st', s + of_nat (length (c # cs)) + 1)"
    unfolding mc(1) by (subst strtol_loop.simps) (use ds IH(1) step(1) in \<open>simp add: algebra_simps\<close>)
  then show ?case using IH step(3) ds(1) by auto
qed

lemma skip_space_ok:
  "\<forall>c \<in> set ws. isspace (uint c) \<Longrightarrow> \<not> isspace (uint (m (s + of_nat (length ws)))) \<Longrightarrow>
   (\<forall>i < length ws. m (s + of_nat i) = ws ! i) \<Longrightarrow>
   skip_space m s = Some (uint (m (s + of_nat (length ws))), s + of_nat (length ws) + 1)"
proof (induction ws arbitrary: s)
  case Nil
  then show ?case by (subst skip_space.simps) simp
next
  case (Cons c ws)
  have mc: "m s = c" "\<forall>i < length ws. m (s + 1 + of_nat i) = ws ! i"
    using Cons(4) [rule_format, of 0] Cons(4) [rule_format, of "Suc i" for i] by (auto simp: add.assoc)
  then show ?case using Cons(1) [of "s + 1"] Cons(2,3) by (subst skip_space.simps) (simp add: algebra_simps)
qed

lemma digit_char:
  fixes c :: u8
  assumes "digit_value (uint c) = Some d"
  shows "\<not> isspace (uint c)" "uint c \<noteq> 45" "uint c \<noteq> 43" "sint c = uint c"
proof -
  have r: "48 \<le> uint c" "uint c \<le> 122"
    using assms by (auto simp: digit_value_def isdigit_def isalpha_def split: if_splits)
  moreover have "int (unat c) = uint c" by simp
  ultimately have "unat c < 128" by linarith
  then have "0 \<le> sint c" by (subst sint_nonneg_iff) simp
  moreover have "sint c < 2 ^ 8" using sint_lt [of c] by simp
  ultimately show "sint c = uint c" using uint_sint [of c] by (simp add: take_bit_int_eq_self)
  show "\<not> isspace (uint c)" "uint c \<noteq> 45" "uint c \<noteq> 43" using r by (auto simp: isspace_def)
qed

text \<open>A string read from the middle.\<close>

lemma cstr_mid:
  assumes "cstr m a (us @ xs @ vs)"
  shows "\<forall>i < length (xs @ [hd (vs @ [0])]). m (a + of_nat (length us) + of_nat i) = (xs @ [hd (vs @ [0])]) ! i"
proof -
  have c: "cstr m (a + of_nat (length us)) (xs @ vs)" using assms unfolding cstr_append [of m a us] by blast
  then have v: "cstr m (a + of_nat (length us) + of_nat (length xs)) vs" unfolding cstr_append [of m _ xs] by blast
  have "m (a + of_nat (length us) + of_nat (length xs)) = hd (vs @ [0])" using v by (cases vs) auto
  moreover have "\<forall>i < length xs. m (a + of_nat (length us) + of_nat i) = xs ! i" using c unfolding cstr_append by blast
  ultimately show ?thesis by (auto simp: nth_append less_Suc_eq)
qed

lemma strtol_digits:
  assumes b: "2 \<le> b" and st: "cstr m nptr (ws @ sg @ cs @ rest)" and ws: "\<forall>c \<in> set ws. isspace (uint c)"
    and sg: "sg = [] \<or> sg = [45] \<or> sg = [43]" and cs: "cs \<noteq> []" "digits_of b cs ds"
    and stop: "case digit_value (uint (hd (rest @ [0]))) of None \<Rightarrow> True | Some d \<Rightarrow> b \<le> d"
    and nohex: "b = 16 \<and> hd cs = 48 \<longrightarrow> hd (tl cs @ rest @ [0]) \<noteq> 120 \<and> hd (tl cs @ rest @ [0]) \<noteq> 88"
  shows "strtol m nptr b = Some (clamp (signed_value (sg = [45]) (value_of b 0 ds)), nptr + of_nat (length ws + length sg + length cs))"
proof -
  let ?e = "hd (rest @ [0])" and ?neg = "sg = [45]"
  let ?p = "nptr + of_nat (length (ws @ sg))"
  obtain c cs' where c: "cs = c # cs'" using cs(1) by (cases cs) auto
  obtain d where d: "digit_value (uint c) = Some d" using cs(2) c by (auto simp: digits_of_def list_all2_Cons1)
  have mid: "\<forall>i < length (cs @ [?e]). m (?p + of_nat i) = (cs @ [?e]) ! i" using cstr_mid [of m nptr "ws @ sg" cs rest] st by simp
  have p0: "m ?p = c" using mid [rule_format, of 0] c by simp
  have p1: "m (?p + 1) = hd (tl cs @ rest @ [0])"
    using mid [rule_format, of 1] c by (cases cs') auto
  have lead: "skip_space m nptr = Some (uint (m (nptr + of_nat (length ws))), nptr + of_nat (length ws) + 1)"
  proof (rule skip_space_ok [OF ws])
    have "m (nptr + of_nat (length ws)) = hd (sg @ cs)" using st sg c by (auto simp: cstr_append)
    then show "\<not> isspace (uint (m (nptr + of_nat (length ws))))" using sg c digit_char(1) [OF d] by (auto simp: isspace_def)
    show "\<forall>i < length ws. m (nptr + of_nat i) = ws ! i" using st by (simp add: cstr_append)
  qed
  obtain cutoff cutlim where l: "limits ?neg b = (cutoff, cutlim)" by fastforce
  have r0: "represents ?neg 0 (0, 0)" by (simp add: represents_def clamp_def signed_value_def)
  obtain st' where loop: "strtol_loop m ?neg b cutoff cutlim (?p + 1) (uint (m ?p)) (0, 0) = Some (st', ?p + of_nat (length cs) + 1)"
    "represents ?neg (value_of b 0 ds) st'" "snd st' \<noteq> 0"
    using strtol_loop_ok [OF b l stop cs(2) order_refl r0 mid] cs(1) by blast
  let ?q = "nptr + of_nat (length ws)"
  let ?sel = "if uint (m ?q) = 45 \<or> uint (m ?q) = 43 then (sint (m (?q + 1)), ?q + 1 + 1) else (uint (m ?q), ?q + 1)"
  have "?sel = (uint (m ?p), ?p + 1) \<and> (uint (m ?q) = 45 \<longleftrightarrow> ?neg)"
    using sg
  proof (elim disjE)
    assume "sg = []"
    then show "?sel = (uint (m ?p), ?p + 1) \<and> (uint (m ?q) = 45 \<longleftrightarrow> ?neg)" using digit_char [OF d] p0 by simp_all
  next
    assume z: "sg = [45]"
    then have q: "m ?q = 45" "?q + 1 = ?p" using st by (simp_all add: cstr_append add.commute)
    show "?sel = (uint (m ?p), ?p + 1) \<and> (uint (m ?q) = 45 \<longleftrightarrow> ?neg)" unfolding q p0 using digit_char [OF d] z by simp
  next
    assume z: "sg = [43]"
    then have q: "m ?q = 43" "?q + 1 = ?p" using st by (simp_all add: cstr_append add.commute)
    show "?sel = (uint (m ?p), ?p + 1) \<and> (uint (m ?q) = 45 \<longleftrightarrow> ?neg)" unfolding q p0 using digit_char [OF d] z by simp
  qed
  then have sel: "?sel = (uint (m ?p), ?p + 1)" "uint (m ?q) = 45 \<longleftrightarrow> ?neg" by blast+
  have "c = 48" if "uint c = 48" using that by (simp add: word_uint_eq_iff)
  moreover have "b = 16 \<and> c = 48 \<longrightarrow> m (?p + 1) \<noteq> 120 \<and> m (?p + 1) \<noteq> 88" unfolding p1 using nohex c by simp
  moreover have "b \<noteq> 0" using b by simp
  ultimately have hex: "((b = 0 \<or> b = 16) \<and> uint (m ?p) = 48 \<and> (m (?p + 1) = 120 \<or> m (?p + 1) = 88)) = False"
    unfolding p0 by blast
  obtain acc any where a: "st' = (acc, any)" by (cases st')
  have v: "acc = clamp (signed_value ?neg (value_of b 0 ds))" "any \<noteq> 0" using loop(2,3) a by (simp_all add: represents_def)
  have b0: "b \<noteq> 0" using b by simp
  have "strtol m nptr b = Some (acc, ?p + of_nat (length cs) + 1 - 1)"
    unfolding strtol_def lead Let_def bind.simps prod.case sel(2)
    unfolding sel(1) [unfolded sel(2)] prod.case hex if_False
    using b0 v(2) loop(1) a l by simp
  then show ?thesis unfolding v(1) by (simp add: add.assoc)
qed

section \<open>Printing a number\<close>

text \<open>The digits of a number, lowest first, as the loop of \<open>itoa\<close> writes them.\<close>

function low_digits :: "nat \<Rightarrow> nat list" where
  "low_digits n = n mod 10 # (if n div 10 > 0 then low_digits (n div 10) else [])"
  by auto
termination by (relation "measure id") auto

declare low_digits.simps [simp del]

lemma low_digits_props:
  "low_digits n \<noteq> [] \<and> (\<forall>d \<in> set (low_digits n). d < 10) \<and> length (low_digits n) \<le> Suc (n div 10) \<and>
   foldr (\<lambda>d v. v * 10 + d) (low_digits n) 0 = n"
proof (induction n rule: low_digits.induct)
  case (1 n)
  show ?case
  proof (cases "n div 10 > 0")
    case True
    then have "Suc (n div 10 div 10) \<le> n div 10" by linarith
    then show ?thesis using 1 [OF True] True by (subst (1 2 3 4) low_digits.simps) auto
  next
    case False
    then show ?thesis by (subst (1 2 3 4) low_digits.simps) auto
  qed
qed

lemma itoa_digit_ascii: "d < 10 \<Longrightarrow> itoa_digit (int d) = of_nat (d + 48)"
  by (simp add: itoa_digit_def add.commute)

definition ascii :: "nat list \<Rightarrow> u8 list" where
  "ascii ds = map (\<lambda>d. of_nat (d + 48)) ds"

lemma itoa_loop_ok:
  "length (low_digits n) < 2 ^ 32 \<Longrightarrow> \<exists>m'. itoa_loop m s (int n) 10 = Some (m', s + of_nat (length (low_digits n))) \<and>
    (\<forall>i < length (low_digits n). m' (s + of_nat i) = ascii (low_digits n) ! i) \<and>
    (\<forall>x. \<not> inside s (length (low_digits n)) x \<longrightarrow> m' x = m x)"
proof (induction n arbitrary: m s rule: low_digits.induct)
  case (1 n)
  have q: "int n sdiv 10 = int (n div 10)" "int n smod 10 = int (n mod 10)"
    by (cases "n = 0"; simp add: signed_divide_int_def signed_modulo_int_def minus_mult_div_eq_mod zdiv_int zmod_int)+
  let ?m = "m(s := of_nat (n mod 10 + 48))"
  have st: "itoa_loop m s (int n) 10 = (if n div 10 > 0 then itoa_loop ?m (s + 1) (int (n div 10)) 10 else Some (?m, s + 1))"
    by (subst itoa_loop.simps) (simp only: q Let_def itoa_digit_ascii [OF mod_less_divisor [OF zero_less_numeral]] of_nat_0_less_iff)
  show ?case
  proof (cases "n div 10 > 0")
    case True
    let ?ds = "low_digits (n div 10)"
    have ds: "low_digits n = n mod 10 # ?ds" using True by (subst low_digits.simps) simp
    have lt: "Suc (length ?ds) < 2 ^ 32" using 1(2) unfolding ds by simp
    obtain m' where IH: "itoa_loop ?m (s + 1) (int (n div 10)) 10 = Some (m', s + 1 + of_nat (length ?ds))"
      "\<forall>i < length ?ds. m' (s + 1 + of_nat i) = ascii ?ds ! i" "\<forall>x. \<not> inside (s + 1) (length ?ds) x \<longrightarrow> m' x = ?m x"
      using 1(1) [OF True, of ?m "s + 1"] lt by (auto simp del: fun_upd_apply)
    have "m' s = of_nat (n mod 10 + 48)" using IH(3) not_inside_next [of "length ?ds" s] lt by simp
    then have "m' (s + of_nat i) = ascii (low_digits n) ! i" if "i < length (low_digits n)" for i
      using IH(2) that unfolding ds by (cases i) (auto simp: ascii_def add.assoc)
    moreover have "m' x = m x" if "\<not> inside s (length (low_digits n)) x" for x
      using that IH(3) unfolding ds by (simp add: inside_Suc)
    ultimately show ?thesis using st True IH(1) unfolding ds by (auto simp: add.assoc)
  next
    case False
    then have "low_digits n = [n mod 10]" by (subst low_digits.simps) simp
    then show ?thesis using st False by (simp add: ascii_def inside_Suc)
  qed
qed

text \<open>The swap loop of \<open>reverse\<close>, from index \<open>k\<close> of \<open>n\<close> bytes on, mirrors the bytes between the two indices.\<close>

declare reverse_loop.simps [simp del]

lemma word_unat_offset [simp]: "s + of_nat (unat (x - s)) = x" for x s :: ptr
  by simp

lemma at_offset: "k < 2 ^ 32 \<Longrightarrow> x = s + of_nat k \<longleftrightarrow> unat (x - s) = k" for x s :: ptr
proof
  assume a: "unat (x - s) = k"
  have "x - s = of_nat (unat (x - s))" by simp
  then have "x - s = of_nat k" unfolding a .
  then show "x = s + of_nat k" by (simp add: algebra_simps)
qed (simp add: unat_of_nat_eq32)

lemma reverse_loop_ok:
  assumes "n < 2 ^ 31" and "i + j + 1 = int n" and "0 \<le> i" and "i \<le> j + 1"
  shows "reverse_loop m s i j x =
    (if i \<le> int (unat (x - s)) \<and> int (unat (x - s)) \<le> j then m (s + of_nat (n - 1 - unat (x - s))) else m x)"
  using assms(2-)
proof (induction m s i j rule: reverse_loop.induct)
  case (1 m s i j)
  let ?u = "unat (x - s)"
  show ?case
  proof (cases "i < j")
    case True
    obtain a b where ab: "i = int a" "j = int b" using True 1(3) by (metis less_imp_le nonneg_int_cases order_trans)
    have n: "a + b + 1 = n" "a < b" "a < 2 ^ 32" "b < 2 ^ 32" using 1(2) True assms(1) ab by auto
    let ?m = "m(s + of_int i := m (s + of_int j), s + of_int j := m (s + of_int i))"
    have st: "reverse_loop m s i j = reverse_loop ?m s (i + 1) (j - 1)" using True by (subst reverse_loop.simps) simp
    have IH: "reverse_loop ?m s (i + 1) (j - 1) x =
        (if i + 1 \<le> int ?u \<and> int ?u \<le> j - 1 then ?m (s + of_nat (n - 1 - ?u)) else ?m x)"
      by (rule 1(1) [OF True]) (use 1(2-4) True in auto)
    have m: "?m y = (if unat (y - s) = b then m (s + of_nat a) else if unat (y - s) = a then m (s + of_nat b) else m y)" for y
      using at_offset [of a y s] at_offset [of b y s] n(3,4) by (simp add: ab)
    have k: "unat (s + of_nat (n - 1 - ?u) - s) = n - 1 - ?u" using assms(1) by (simp add: unat_of_nat_eq32)
    have w: "n - 1 - a = b" "n - 1 - b = a" using n by auto
    consider "?u = a" | "?u = b" | "a < ?u" "?u < b" | "?u < a" | "b < ?u" by linarith
    then show ?thesis
    proof cases
      case 3
      have "n - 1 - ?u \<noteq> a" "n - 1 - ?u \<noteq> b" using n 3 by linarith+
      moreover have "i + 1 \<le> int ?u \<and> int ?u \<le> j - 1" "i \<le> int ?u \<and> int ?u \<le> j" using ab 3 by (intro conjI; linarith)+
      ultimately show ?thesis unfolding st IH m k by (simp only: if_True if_False simp_thms)
    next
      case 4
      have "?u \<noteq> a" "?u \<noteq> b" using n(2) 4 by linarith+
      moreover have "\<not> (i + 1 \<le> int ?u \<and> int ?u \<le> j - 1)" by (rule notI, elim conjE) (use n(2) ab 4 in linarith)
      moreover have "\<not> (i \<le> int ?u \<and> int ?u \<le> j)" by (rule notI, elim conjE) (use n(2) ab 4 in linarith)
      ultimately show ?thesis unfolding st IH m k by (simp only: if_True if_False simp_thms)
    next
      case 5
      have "?u \<noteq> a" "?u \<noteq> b" using n(2) 5 by linarith+
      moreover have "\<not> (i + 1 \<le> int ?u \<and> int ?u \<le> j - 1)" by (rule notI, elim conjE) (use n(2) ab 5 in linarith)
      moreover have "\<not> (i \<le> int ?u \<and> int ?u \<le> j)" by (rule notI, elim conjE) (use n(2) ab 5 in linarith)
      ultimately show ?thesis unfolding st IH m k by (simp only: if_True if_False simp_thms)
    next
      case 1
      then show ?thesis unfolding st IH m k 1 w using n(2) ab by simp
    next
      case 2
      then show ?thesis unfolding st IH m k 2 w using n(2) ab by simp
    qed
  next
    case False
    then have "reverse_loop m s i j = m" by (subst reverse_loop.simps) simp
    moreover have "n - 1 - ?u = ?u" if "i \<le> int ?u" "int ?u \<le> j" using that False 1(2) by linarith
    ultimately show ?thesis by (cases "i \<le> int ?u \<and> int ?u \<le> j") (simp_all only: if_True if_False word_unat_offset simp_thms)
  qed
qed

lemma reverse_ok:
  assumes "cstr m s str" and "length str < 2 ^ 31"
  shows "\<exists>m'. reverse m s = Some m' \<and> cstr m' s (rev str) \<and> (\<forall>x. \<not> inside s (length str) x \<longrightarrow> m' x = m x)"
proof -
  let ?n = "length str"
  have r: "reverse m s = Some (reverse_loop m s 0 (sint (of_nat ?n - 1 :: u32)))"
    using strlen_cstr [OF assms(1)] by (simp add: reverse_def)
  have j: "sint (of_nat ?n - 1 :: u32) = int ?n - 1"
  proof (cases "?n = 0")
    case False
    then have "of_nat ?n - 1 = (of_nat (?n - 1) :: u32)" by (simp add: of_nat_diff Suc_le_eq)
    moreover have u: "unat (of_nat (?n - 1) :: u32) = ?n - 1" using assms(2) by (intro unat_of_nat_eq32) simp
    moreover have "sint (of_nat (?n - 1) :: u32) = int (unat (of_nat (?n - 1) :: u32))"
      by (rule sint_small) (use u assms(2) in simp)
    ultimately have "sint (of_nat ?n - 1 :: u32) = int (?n - 1)" by (simp only:)
    then show ?thesis using False by (simp add: of_nat_diff Suc_le_eq)
  qed simp
  let ?m = "reverse_loop m s 0 (int ?n - 1)"
  have v: "?m x = (if unat (x - s) < ?n then m (s + of_nat (?n - 1 - unat (x - s))) else m x)" for x
  proof -
    have c: "(0 \<le> int u \<and> int u \<le> int ?n - 1) = (u < ?n)" for u by auto
    show ?thesis using reverse_loop_ok [OF assms(2), of 0 "int ?n - 1" m s x] unfolding c by simp
  qed
  have off: "unat (s + of_nat i - s) = i" if "i \<le> ?n" for i using that assms(2) by (simp add: unat_of_nat_eq32)
  have str: "\<forall>i < ?n. m (s + of_nat i) = str ! i \<and> str ! i \<noteq> 0" "m (s + of_nat ?n) = 0"
    using assms(1) cstr_append [of m s str "[]"] by auto
  have "?m (s + of_nat i) = rev str ! i \<and> rev str ! i \<noteq> 0" if "i < ?n" for i
  proof -
    have "?m (s + of_nat i) = m (s + of_nat (?n - 1 - i))" unfolding v using that off [of i] by (simp only: if_True less_imp_le)
    moreover have "rev str ! i = str ! (?n - 1 - i)" "?n - 1 - i < ?n" using that by (simp_all add: rev_nth)
    ultimately show ?thesis using str(1) by simp
  qed
  moreover have "?m (s + of_nat ?n) = 0" using off [of ?n] str(2) unfolding v by simp
  ultimately have "cstr ?m s (rev str)" using cstr_append [of ?m s "rev str" "[]"] by simp
  then show ?thesis using r v unfolding j by (auto simp: inside_def)
qed

lemma unat_of_nat_eq8: "n < 256 \<Longrightarrow> unat (of_nat n :: u8) = n"
  by (simp add: unat_of_nat take_bit_nat_eq_self)

lemma ascii_nth_nonzero: "\<forall>d \<in> set ds. d < 10 \<Longrightarrow> i < length ds \<Longrightarrow> ascii ds ! i \<noteq> 0"
proof -
  assume a: "\<forall>d \<in> set ds. d < 10" "i < length ds"
  then have "ds ! i < 10" using nth_mem [of i ds] by blast
  then have "ds ! i + 48 < 256" by simp
  then have "unat (of_nat (ds ! i + 48) :: u8) \<noteq> 0" by (simp only: unat_of_nat_eq8)
  then show ?thesis using a(2) unfolding ascii_def by (simp only: nth_map unat_eq_0 simp_thms)
qed

lemma fold_digits: "foldl (\<lambda>v d. v * 10 + int d) 0 (rev ds) = int (foldr (\<lambda>d v. v * 10 + d) ds 0)"
  by (induction ds) simp_all

lemma fold_digits_mono: "v \<le> foldl (\<lambda>v d. v * 10 + int d) v ds" if "0 \<le> v" for v :: int
  using that
proof (induction ds arbitrary: v)
  case (Cons d ds)
  then have "v * 10 + int d \<le> foldl (\<lambda>v d. v * 10 + int d) (v * 10 + int d) ds" by simp
  then show ?case using Cons(2) unfolding foldl_Cons by linarith
qed simp

text \<open>The largest value the loop computes is \<open>v * 10 + d + '0'\<close> at the last digit, 48 above the result.\<close>

lemma atoi_loop_ok:
  "\<forall>d \<in> set ds. d < 10 \<Longrightarrow> cstr m a (ascii ds) \<Longrightarrow> 0 \<le> v \<Longrightarrow> foldl (\<lambda>v d. v * 10 + int d) v ds + 48 \<le> LONG_MAX \<Longrightarrow>
   atoi_loop m a v = Some (foldl (\<lambda>v d. v * 10 + int d) v ds)"
proof (induction ds arbitrary: a v)
  case Nil
  then show ?case by (subst atoi_loop.simps) (simp add: ascii_def)
next
  case (Cons d ds)
  have u: "unat (of_nat (d + 48) :: u8) = d + 48" by (rule unat_of_nat_eq8) (use Cons(2) in simp)
  have "0 \<le> sint (of_nat (d + 48) :: u8)" using u Cons(2) by (subst sint_nonneg_iff) simp
  moreover have "sint (of_nat (d + 48) :: u8) < 2 ^ 8" using sint_lt [of "of_nat (d + 48) :: u8"] by simp
  ultimately have s: "sint (of_nat (d + 48) :: u8) = int (d + 48)"
    using uint_sint [of "of_nat (d + 48) :: u8"] arg_cong [OF u, of int] by (simp add: take_bit_int_eq_self)
  have c: "m a = of_nat (d + 48)" "m a \<noteq> 0" "cstr m (a + 1) (ascii ds)" using Cons(3) by (simp_all add: ascii_def)
  have v: "0 \<le> v * 10 + int d" "v * 10 + int d + 48 \<le> LONG_MAX"
    using fold_digits_mono [of "v * 10 + int d" ds] Cons(4,5) by simp_all
  have "long_val (v * 10) = Some (v * 10)" "long_val (v * 10 + sint (m a)) = Some (v * 10 + int (d + 48))"
    "long_val (v * 10 + int (d + 48) - 48) = Some (v * 10 + int d)"
    using v Cons(4) unfolding c(1) s by (simp_all add: long_val_def)
  then have "atoi_loop m a v = atoi_loop m (a + 1) (v * 10 + int d)" using c(2) by (subst atoi_loop.simps) simp
  then show ?case using Cons(1) [of "a + 1" "v * 10 + int d"] Cons(2,5) c(3) v by simp
qed

text \<open>
  The order of the operations in \<open>atoi\<close> matters at the end of the range: the text of 2147483647, the
  largest \<open>int\<close>, overflows in \<open>res * 10 + str[i]\<close>.
\<close>

lemma atoi_overflows: "atoi (poke (\<lambda>_. 0) 64 [50, 49, 52, 55, 52, 56, 51, 54, 52, 55]) 64 = None"
  by (simp add: atoi_def atoi_loop.simps long_val_def)

section \<open>Properties\<close>



text \<open>
  C39: \<open>itoa\<close> in base 10 of a number between 0 and 2147483599 writes its digits, highest first, as
  a terminated string at the given place and nothing else, and \<open>atoi\<close> reads the number back without
  a signed overflow in any step. (From 2147483600 on the sum of \<open>res * 10\<close> and the character, before
  the subtraction of \<open>'0'\<close>, exceeds an \<open>int\<close>: \<open>atoi_overflows\<close>.)
\<close>

theorem itoa_atoi_roundtrip:
  assumes "n \<le> 2147483599"
  shows "\<exists>m'. itoa m (of_nat n) s 10 = Some m' \<and> cstr m' s (ascii (rev (low_digits n))) \<and> atoi m' s = Some (int n) \<and>
    (\<forall>x. \<not> inside s (Suc (length (low_digits n))) x \<longrightarrow> m' x = m x)"
proof -
  let ?ds = "low_digits n"
  have p: "?ds \<noteq> []" "\<forall>d \<in> set ?ds. d < 10" "foldr (\<lambda>d v. v * 10 + d) ?ds 0 = n" using low_digits_props [of n] by auto
  have "length ?ds \<le> Suc (n div 10)" using low_digits_props [of n] by blast
  moreover have "Suc (n div 10) < 2 ^ 31" using assms by simp
  ultimately have len: "length ?ds < 2 ^ 31" by (rule le_less_trans)
  have "unat (of_nat n :: u32) = n" using assms by (intro unat_of_nat_eq32) simp
  then have sn: "sint (of_nat n :: u32) = int n" using sint_small [of "of_nat n"] assms by simp
  obtain m1 where m1: "itoa_loop m s (int n) 10 = Some (m1, s + of_nat (length ?ds))"
    "\<forall>i < length ?ds. m1 (s + of_nat i) = ascii ?ds ! i" "\<forall>x. \<not> inside s (length ?ds) x \<longrightarrow> m1 x = m x"
    using itoa_loop_ok [of n m s] len by auto
  let ?m = "m1(s + of_nat (length ?ds) := 0)"
  have "?m (s + of_nat i) = ascii ?ds ! i \<and> ascii ?ds ! i \<noteq> 0" if "i < length ?ds" for i
  proof -
    have "of_nat i \<noteq> (of_nat (length ?ds) :: u32)" using that len unat_of_nat_eq32 [of i] unat_of_nat_eq32 [of "length ?ds"] by force
    then show ?thesis using m1(2) that p(2) by (simp add: ascii_nth_nonzero)
  qed
  moreover have "length (ascii ?ds) = length ?ds" by (simp add: ascii_def)
  ultimately have c: "cstr ?m s (ascii ?ds)" using cstr_append [of ?m s "ascii ?ds" "[]"] by simp
  obtain m' where m': "reverse ?m s = Some m'" "cstr m' s (rev (ascii ?ds))" "\<forall>x. \<not> inside s (length ?ds) x \<longrightarrow> m' x = ?m x"
    using reverse_ok [OF c] len by (auto simp: ascii_def simp del: fun_upd_apply)
  have st: "cstr m' s (ascii (rev ?ds))" using m'(2) by (simp add: ascii_def rev_map)
  have "foldl (\<lambda>v d. v * 10 + int d) 0 (rev ?ds) = int n" using p(3) fold_digits [of ?ds] by simp
  then have "atoi m' s = Some (int n)" using atoi_loop_ok [OF _ st, of 0] p(2) assms by (simp add: atoi_def)
  moreover have "itoa m (of_nat n) s 10 = Some m'" using m1(1) m'(1) sn by (simp add: itoa_def)
  moreover have "m' x = m x" if "\<not> inside s (Suc (length ?ds)) x" for x
    using that m'(3) m1(3) len by (simp add: inside_top)
  ultimately show ?thesis using st by blast
qed

theorem itoa_atoi_roundtrip_witness:
  "\<exists>m'. itoa (\<lambda>_. 0) 2026 64 10 = Some m' \<and> cstr m' 64 [50, 48, 50, 54] \<and> atoi m' 64 = Some 2026"
proof -
  have "ascii (rev (low_digits 2026)) = [50, 48, 50, 54]" by (simp add: low_digits.simps ascii_def)
  then show ?thesis using itoa_atoi_roundtrip [of 2026 "\<lambda>_. 0" 64] by auto
qed

end
