(* ===== verification/Fifo.thy ===== *)
theory Fifo
  imports Prelude
begin

text \<open>
  Bounded byte queues. The kernel has the same cyclic buffer twice, in the ring buffers of
  \<^verbatim>\<open>kernel/src/util/types/ringbuffer.c\<close> and in the pipes of \<^verbatim>\<open>kernel/src/fs/pipe.c\<close>. The locales
  say what their clients rely on: a bounded first-in first-out queue, and loops that put bytes
  until it is full or take bytes until it is empty. The window lemmas on a cyclic array discharge
  the laws for both.
\<close>

section \<open>The interface\<close>

locale bounded_fifo =
  fixes contents :: "'b \<Rightarrow> u8 list"
    and ok :: "'b \<Rightarrow> bool"
    and cap :: "'b \<Rightarrow> nat"
    and avail_r avail_w :: "'b \<Rightarrow> u32"
    and put :: "'b \<Rightarrow> u8 \<Rightarrow> 'b"
    and get :: "'b \<Rightarrow> u8 \<times> 'b"
  assumes readable: "ok b \<Longrightarrow> unat (avail_r b) = length (contents b)"
    and writable: "ok b \<Longrightarrow> unat (avail_w b) + length (contents b) = cap b"
    and put: "ok b \<Longrightarrow> avail_w b \<noteq> 0 \<Longrightarrow> ok (put b x) \<and> contents (put b x) = contents b @ [x] \<and> cap (put b x) = cap b"
    and get: "ok b \<Longrightarrow> avail_r b \<noteq> 0 \<Longrightarrow> ok (snd (get b)) \<and> fst (get b) = hd (contents b) \<and>
      contents (snd (get b)) = tl (contents b) \<and> cap (snd (get b)) = cap b"
begin

lemma avail_r_0: "ok b \<Longrightarrow> avail_r b = 0 \<longleftrightarrow> contents b = []"
  using readable [of b] unat_eq_zero32 [of "avail_r b"] by auto

lemma avail_w_0: "ok b \<Longrightarrow> avail_w b = 0 \<longleftrightarrow> length (contents b) = cap b"
  using writable [of b] unat_eq_zero32 [of "avail_w b"] by auto

lemma bounded: "ok b \<Longrightarrow> length (contents b) \<le> cap b"
  using writable [of b] by linarith

end

text \<open>
  The loops: \<open>fill\<close> returns the bytes that did not fit, \<open>drain\<close> the bytes it took, at most \<open>n\<close>.
\<close>

locale fifo_loops = bounded_fifo +
  fixes fill :: "'a \<Rightarrow> u8 list \<Rightarrow> 'a \<times> u8 list"
    and drain :: "'a \<Rightarrow> nat \<Rightarrow> 'a \<times> u8 list"
  assumes fill: "fill b [] = (b, [])"
      "fill b (x # xs) = (if avail_w b \<noteq> 0 then fill (put b x) xs else (b, x # xs))"
    and drain: "drain b 0 = (b, [])"
      "drain b (Suc n) = (if avail_r b \<noteq> 0 then let (x, b1) = get b; (b2, xs) = drain b1 n in (b2, x # xs) else (b, []))"
begin

lemma fill_spec:
  "ok b \<Longrightarrow> ok (fst (fill b xs)) \<and> cap (fst (fill b xs)) = cap b \<and>
   contents (fst (fill b xs)) = contents b @ take (cap b - length (contents b)) xs \<and>
   snd (fill b xs) = drop (cap b - length (contents b)) xs"
proof (induction xs arbitrary: b)
  case (Cons x xs)
  show ?case
  proof (cases "avail_w b = 0")
    case True
    then show ?thesis using Cons(2) avail_w_0 [OF Cons(2)] by (simp add: fill)
  next
    case False
    note p = put [OF Cons(2) False, of x]
    obtain r where r: "cap b - length (contents b) = Suc r"
      using False avail_w_0 [OF Cons(2)] bounded [OF Cons(2)] by (metis Suc_diff_Suc le_neq_implies_less)
    have "cap b - Suc (length (contents b)) = r" using r by simp
    then show ?thesis using Cons(1) [of "put b x"] p False r by (simp add: fill)
  qed
qed (simp add: fill)

lemma drain_spec:
  "ok b \<Longrightarrow> ok (fst (drain b n)) \<and> cap (fst (drain b n)) = cap b \<and>
   snd (drain b n) = take n (contents b) \<and> contents (fst (drain b n)) = drop n (contents b)"
proof (induction n arbitrary: b)
  case (Suc n)
  show ?case
  proof (cases "avail_r b = 0")
    case True
    then show ?thesis using Suc(2) avail_r_0 [OF Suc(2)] by (simp add: drain)
  next
    case False
    note g = get [OF Suc(2) False]
    obtain x ys where c: "contents b = x # ys" using False avail_r_0 [OF Suc(2)] by (cases "contents b") auto
    show ?thesis using Suc(1) [of "snd (get b)"] g False c by (simp add: drain split_beta)
  qed
qed (simp add: drain)

lemma fill_complete: "ok b \<Longrightarrow> snd (fill b xs) = [] \<longleftrightarrow> length xs + length (contents b) \<le> cap b"
  using fill_spec [of b xs] bounded [of b] by auto

lemma drain_after_fill:
  "ok b \<Longrightarrow> length xs + length (contents b) \<le> cap b \<Longrightarrow>
   snd (drain (fst (fill b xs)) (length (contents b) + length xs)) = contents b @ xs"
  using fill_spec [of b xs] drain_spec [of "fst (fill b xs)"] by simp

end

section \<open>Windows of a cyclic array\<close>

definition ring :: "'a list \<Rightarrow> nat \<Rightarrow> nat \<Rightarrow> 'a list" where
  "ring d r n = map (\<lambda>i. d ! ((r + i) mod length d)) [0..<n]"

lemma length_ring [simp]: "length (ring d r n) = n"
  by (simp add: ring_def)

lemma mod_window: "i < n \<Longrightarrow> n < L \<Longrightarrow> (r + i) mod L \<noteq> (r + n) mod (L :: nat)"
proof
  assume a: "i < n" "n < L" "(r + i) mod L = (r + n) mod L"
  then have "L dvd (r + n) - (r + i)" by (metis add_le_cancel_left less_imp_le mod_eq_dvd_iff_nat)
  then have "L dvd n - i" by simp
  then show False using a(1,2) by (auto dest: dvd_imp_le)
qed

lemma ring_put:
  assumes "n < length d"
  shows "ring (d[(r + n) mod length d := x]) r (Suc n) = ring d r n @ [x]"
proof -
  have "0 < length d" using assms by linarith
  then have last: "d[(r + n) mod length d := x] ! ((r + n) mod length d) = x" by (intro nth_list_update_eq) simp
  have "d[(r + n) mod length d := x] ! ((r + i) mod length d) = d ! ((r + i) mod length d)" if "i < n" for i
    using mod_window [OF that assms, of r] by (intro nth_list_update_neq) (rule not_sym)
  then show ?thesis using last by (simp add: ring_def)
qed

lemma ring_get:
  assumes "r < length d"
  shows "ring d r (Suc n) = d ! r # ring d (Suc r mod length d) n"
proof -
  have "(Suc r mod length d + i) mod length d = (r + Suc i) mod length d" for i
    by (metis add_Suc_right add_Suc mod_add_left_eq)
  then show ?thesis using assms by (simp add: ring_def upt_conv_Cons map_Suc_upt [symmetric] del: upt_Suc)
qed

text \<open>How many bytes are between the read and the write position.\<close>

definition ring_len :: "nat \<Rightarrow> nat \<Rightarrow> nat \<Rightarrow> nat" where
  "ring_len L r w = (if r \<le> w then w - r else L - r + w)"

lemma ring_len_less: "r < L \<Longrightarrow> w < L \<Longrightarrow> ring_len L r w < L"
  by (auto simp: ring_len_def)

lemma ring_len_pos: "r < L \<Longrightarrow> w < L \<Longrightarrow> (r + ring_len L r w) mod L = w"
  by (simp add: ring_len_def)

lemma ring_len_put:
  "r < L \<Longrightarrow> w < L \<Longrightarrow> Suc (ring_len L r w) < L \<Longrightarrow> ring_len L r (Suc w mod L) = Suc (ring_len L r w)"
  by (cases "Suc w = L") (auto simp: ring_len_def split: if_splits)

lemma ring_len_get:
  "r < L \<Longrightarrow> w < L \<Longrightarrow> r \<noteq> w \<Longrightarrow> Suc (ring_len L (Suc r mod L) w) = ring_len L r w"
  by (cases "Suc r = L") (auto simp: ring_len_def split: if_splits)

text \<open>The same on the 32 bit positions of the code.\<close>

lemma ring_read_word:
  fixes L r w :: u32
  assumes "r < L" "w < L"
  shows "unat (if r = w then 0 else if r > w then L - r + w else w - r) = ring_len (unat L) (unat r) (unat w)"
proof (cases "r > w")
  case True
  have "unat (L - r) = unat L - unat r" using assms by (intro unat_sub) simp
  moreover have "unat (L - r) + unat w < 2 ^ 32"
    using calculation True assms unat_less32 [of L] by (simp add: word_less_nat_alt)
  ultimately show ?thesis using True unat_add32 [of "L - r" w] by (auto simp: ring_len_def word_less_nat_alt)
next
  case False
  then show ?thesis using unat_sub [of r w] by (auto simp: ring_len_def word_less_nat_alt word_le_nat_alt)
qed

lemma ring_write_word:
  fixes L r w :: u32
  assumes "r < L" "w < L"
  shows "unat (if r = w then L - 1 else if r > w then r - w - 1 else (L - w) + r - 1) + ring_len (unat L) (unat r) (unat w) + 1 = unat L"
proof -
  have L: "L \<noteq> 0" using assms by auto
  consider "r = w" | "r > w" | "r < w" by (metis linorder_neqE)
  then show ?thesis
  proof cases
    case 1
    then show ?thesis using unat_pred32 [OF L] unat_eq_zero32 [of L] L by (auto simp: ring_len_def)
  next
    case 2
    have s: "unat (r - w) = unat r - unat w" using 2 by (intro unat_sub) simp
    then have "r - w \<noteq> 0" using 2 by auto
    then have "unat (r - w - 1) = unat r - unat w - 1" using unat_pred32 [of "r - w"] s by simp
    then show ?thesis using 2 assms by (auto simp: ring_len_def word_less_nat_alt)
  next
    case 3
    have s: "unat (L - w) = unat L - unat w" using assms(2) by (intro unat_sub) simp
    then have t: "unat (L - w + r) = unat L - unat w + unat r"
      using 3 assms(2) unat_less32 [of L] by (subst unat_add32) (auto simp: word_less_nat_alt)
    then have "L - w + r \<noteq> 0" using assms(2) by (metis add_is_0 unat_0 word_less_nat_alt zero_less_diff less_irrefl)
    then have "unat (L - w + r - 1) = unat L - unat w + unat r - 1" using unat_pred32 t by simp
    then show ?thesis using 3 assms by (auto simp: ring_len_def word_less_nat_alt)
  qed
qed

lemma ring_bump_word:
  fixes L w :: u32
  assumes "w < L"
  shows "unat (if w + 1 = L then 0 else w + 1) = Suc (unat w) mod unat L"
proof -
  have u: "unat (w + 1) = Suc (unat w)"
    using assms unat_less32 [of L] unat_Suc32 [of w] by (simp add: word_less_nat_alt)
  show ?thesis
  proof (cases "w + 1 = L")
    case True
    then show ?thesis using u by auto
  next
    case False
    then have "unat (w + 1) \<noteq> unat L" using word_unatI by blast
    then have "Suc (unat w) < unat L" using u assms by (simp add: word_less_nat_alt)
    then show ?thesis using False u by simp
  qed
qed

end
