(* ===== verification/Blocking.thy ===== *)
theory Blocking
  imports Sched_Select
begin

text \<open>
  What a blocking operation of a device relies on when it wakes a queue or goes to sleep on one, in
  the form the clients of the scheduler (ring buffers, pipes, mutexes, terminals) use it, and the
  outcome of one turn of such an operation.
\<close>

text \<open>What a turn of a blocking call ends with: the value it returns, with the bytes it delivers, or a sleep.\<close>

datatype io_turn =
    Completed u32 "u8 list"
  | Slept

definition has_block :: "kernel \<Rightarrow> ptr \<Rightarrow> bool" where
  "has_block k p \<longleftrightarrow> block_node (procs k p) \<noteq> None"

lemma links_okD: "links_ok k \<Longrightarrow> p \<in> set (queues k q) \<Longrightarrow> block_node (procs k p) \<noteq> None"
proof
  assume a: "links_ok k" "p \<in> set (queues k q)" "block_node (procs k p) = None"
  then have "count_list (queues k q) p = 0" unfolding links_ok_def by (metis option.simps(4))
  then show False using a(2) by (simp add: count_list_0_iff)
qed

lemma wakeup_facts:
  assumes "sched_inv k"
  obtains k' where "k_proc_process_wakeup_queue k q = Some k'" "sched_inv k'" "queues k' q = []"
    "\<forall>q'. queues k q' = [] \<longrightarrow> queues k' q' = []" "same_rest k k'" "\<forall>p. has_block k' p = has_block k p"
    "\<forall>p \<in> set (queues k q). pstate (procs k p) = PROCESS_STATE_SLEEPING \<longrightarrow> p \<in> set (ready_queue k')"
    "\<forall>p. p \<notin> set (queues k q) \<longrightarrow> procs k' p = procs k p \<and> (\<forall>q'. p \<in> set (queues k' q') \<longleftrightarrow> p \<in> set (queues k q'))"
proof -
  obtain xs where ok: "links_ok k" "timers_ok k xs" using assms by (auto simp: sched_inv_def)
  obtain k' ys where k': "k_proc_process_wakeup_queue k q = Some k'" "links_ok k'" "timers_ok k' ys" "same_rest k k'"
    "ready_queue k' = ready_queue k @ woken k q"
    "queues k' = (\<lambda>q'. if q' = q then [] else filter (\<lambda>p. p \<notin> set (woken k q)) (queues k q'))"
    "procs k' = (\<lambda>p. if p \<in> set (woken k q) then ready_proc (off_queue q (procs k p)) else off_queue_all q (procs k p))"
    using wakeup_queue_ok [OF ok, of q] by blast
  have w: "p \<in> set (woken k q) \<Longrightarrow> p \<in> set (queues k q)" for p by (auto simp: woken_def)
  have some: "has_block k p" if "p \<in> set (queues k q)" for p
    using links_okD [OF ok(1) that] by (auto simp: has_block_def)
  have hb: "has_block k' p = has_block k p" for p
    using some w by (auto simp: has_block_def k'(7) ready_proc_def off_queue_all_def)
  have el: "p \<in> set (ready_queue k')" if "p \<in> set (queues k q)" "pstate (procs k p) = PROCESS_STATE_SLEEPING" for p
    using that by (simp add: k'(5) woken_def eligible_def PROCESS_IS_SCHEDULABLE_def)
  have out: "procs k' p = procs k p \<and> (\<forall>q'. p \<in> set (queues k' q') \<longleftrightarrow> p \<in> set (queues k q'))" if "p \<notin> set (queues k q)" for p
    using that w links_ok_off_all [OF ok(1) that] by (auto simp: k'(6,7))
  show ?thesis
    by (rule that [OF k'(1)]) (use k'(2-4) hb el out in \<open>auto simp: sched_inv_def k'(6)\<close>)
qed

lemma sleep_facts:
  assumes "sched_inv k" and "has_block k p"
  obtains k' where "sleep_prepare k p q = Some k'" "sched_inv k'" "queues k' = (queues k)(q := queues k q @ [p])"
    "same_rest k k'" "\<forall>r. has_block k' r = has_block k r" "pstate (procs k' p) = PROCESS_STATE_SLEEPING"
    "\<forall>r. r \<noteq> p \<longrightarrow> procs k' r = procs k r" "ready_queue k' = ready_queue k"
proof -
  obtain xs os where ok: "links_ok k" "timers_ok k xs" "block_node (procs k p) = Some os"
    using assms by (auto simp: sched_inv_def has_block_def)
  obtain k1 where k1: "sleep_prepare k p q = Some k1"
    "k1 = k\<lparr>procs := (procs k)(p := asleep_proc q (procs k p)), queues := (queues k)(q := queues k q @ [p])\<rparr>"
    "links_ok k1" "timers_ok k1 xs"
    by (rule sleep_prepare_ok [OF ok])
  have i: "sched_inv k1" using k1(3,4) by (auto simp: sched_inv_def)
  show ?thesis
    by (rule that [OF k1(1) i]) (auto simp: k1(2) same_rest_def has_block_def asleep_proc_def)
qed

lemma select_facts:
  assumes "sched_inv k"
  obtains k' where "k_proc_process_wakeup_queue_select k q node event = Some k'" "sched_inv k'" "same_rest k k'"
    "\<forall>q'. queues k q' = [] \<longrightarrow> queues k' q' = []" "\<forall>p. has_block k p \<longrightarrow> has_block k' p"
    "\<forall>p. p \<notin> set (queues k q) \<longrightarrow> procs k' p = procs k p"
proof -
  obtain xs where ok: "links_ok k" "timers_ok k xs" using assms by (auto simp: sched_inv_def)
  obtain k' ys where k': "k_proc_process_wakeup_queue_select k q node event = Some k'" "links_ok k'" "timers_ok k' ys" "same_rest k k'"
    "queues k' = (\<lambda>q'. filter (\<lambda>p. p \<notin> set (queues k q)) (queues k q'))"
    "procs k' = (\<lambda>p. if p \<in> set (woken k q) then selected_proc node event (procs k p)
       else if p \<in> set (queues k q) then (procs k p)\<lparr>block_node := Some []\<rparr> else procs k p)"
    using wakeup_queue_select_ok [OF ok, of q node event] by blast
  have "has_block k' p" if "has_block k p" for p
    using that by (auto simp: has_block_def k'(6) selected_proc_def)
  moreover have "p \<in> set (woken k q) \<Longrightarrow> p \<in> set (queues k q)" for p by (auto simp: woken_def)
  ultimately show ?thesis
    by (intro that [OF k'(1) _ k'(4)]) (use k'(2,3) in \<open>auto simp: sched_inv_def k'(5,6)\<close>)
qed

end
