(* ===== verification/Ringbuffer.thy ===== *)
theory Ringbuffer
  imports Fifo Blocking
begin

text \<open>
  The blocking ring buffers of \<^verbatim>\<open>kernel/src/util/types/ringbuffer.c\<close>. \<open>ringbuffer_write\<close> and
  \<open>ringbuffer_read\<close> are loops around a sleep: one turn runs until the call returns or its process
  goes to sleep, and a woken process starts the next turn. The turns act on the scheduler state of
  \<open>Sched\<close>, so the wake-ups they make are real ones.
\<close>

section \<open>Operations\<close>

record ringbuffer =
  rb_buffer :: "u8 list"
  rb_size :: u32
  rb_read_ptr :: u32
  rb_write_ptr :: u32
  read_wait_queue :: ptr
  write_wait_queue :: ptr

text \<open>\<open>ringbuffer_create\<close>: the block from the heap has contents of its own, and the queues are two new lists.\<close>

definition ringbuffer_create :: "u8 list \<Rightarrow> u32 \<Rightarrow> ptr \<Rightarrow> ptr \<Rightarrow> kernel \<Rightarrow> ringbuffer \<times> kernel" where
  "ringbuffer_create block n rq wq k =
     (\<lparr>rb_buffer = block, rb_size = n, rb_read_ptr = 0, rb_write_ptr = 0, read_wait_queue = rq, write_wait_queue = wq\<rparr>,
      set_queue (set_queue k rq []) wq [])"

definition ringbuffer_free :: "kernel \<Rightarrow> ringbuffer \<Rightarrow> kernel option" where
  "ringbuffer_free k rb =
     do { k1 \<leftarrow> k_proc_process_wakeup_queue k (read_wait_queue rb); k_proc_process_wakeup_queue k1 (write_wait_queue rb) }"

definition ringbuffer_read_available :: "ringbuffer \<Rightarrow> u32" where
  "ringbuffer_read_available rb =
     (if rb_read_ptr rb = rb_write_ptr rb then 0
      else if rb_read_ptr rb > rb_write_ptr rb then rb_size rb - rb_read_ptr rb + rb_write_ptr rb
      else rb_write_ptr rb - rb_read_ptr rb)"

definition ringbuffer_write_available :: "ringbuffer \<Rightarrow> u32" where
  "ringbuffer_write_available rb =
     (if rb_read_ptr rb = rb_write_ptr rb then rb_size rb - 1
      else if rb_read_ptr rb > rb_write_ptr rb then rb_read_ptr rb - rb_write_ptr rb - 1
      else (rb_size rb - rb_write_ptr rb) + rb_read_ptr rb - 1)"

definition ringbuffer_bump_write_ptr :: "ringbuffer \<Rightarrow> ringbuffer" where
  "ringbuffer_bump_write_ptr rb =
     rb\<lparr>rb_write_ptr := (if rb_write_ptr rb + 1 = rb_size rb then 0 else rb_write_ptr rb + 1)\<rparr>"

definition ringbuffer_bump_read_ptr :: "ringbuffer \<Rightarrow> ringbuffer" where
  "ringbuffer_bump_read_ptr rb =
     rb\<lparr>rb_read_ptr := (if rb_read_ptr rb + 1 = rb_size rb then 0 else rb_read_ptr rb + 1)\<rparr>"

definition rb_put :: "ringbuffer \<Rightarrow> u8 \<Rightarrow> ringbuffer" where
  "rb_put rb x = ringbuffer_bump_write_ptr (rb\<lparr>rb_buffer := (rb_buffer rb)[unat (rb_write_ptr rb) := x]\<rparr>)"

definition rb_get :: "ringbuffer \<Rightarrow> u8 \<times> ringbuffer" where
  "rb_get rb = (rb_buffer rb ! unat (rb_read_ptr rb), ringbuffer_bump_read_ptr rb)"

text \<open>The inner loops: the bytes not yet written, and the bytes read.\<close>

fun rb_write_loop :: "ringbuffer \<Rightarrow> u8 list \<Rightarrow> ringbuffer \<times> u8 list" where
  "rb_write_loop rb [] = (rb, [])"
| "rb_write_loop rb (x # xs) = (if ringbuffer_write_available rb \<noteq> 0 then rb_write_loop (rb_put rb x) xs else (rb, x # xs))"

fun rb_read_loop :: "ringbuffer \<Rightarrow> nat \<Rightarrow> ringbuffer \<times> u8 list" where
  "rb_read_loop rb 0 = (rb, [])"
| "rb_read_loop rb (Suc n) =
     (if ringbuffer_read_available rb \<noteq> 0
      then let (x, rb1) = rb_get rb; (rb2, xs) = rb_read_loop rb1 n in (rb2, x # xs)
      else (rb, []))"

definition ringbuffer_write :: "kernel \<Rightarrow> ringbuffer \<Rightarrow> u8 list \<Rightarrow> (io_turn \<times> kernel \<times> ringbuffer) option" where
  "ringbuffer_write k rb bytes =
     (let (rb1, rest) = rb_write_loop rb bytes; written = of_nat (length bytes - length rest) :: u32
      in do {
        k1 \<leftarrow> k_proc_process_wakeup_queue k (read_wait_queue rb1);
        if written = 0
        then do { k2 \<leftarrow> sleep_prepare k1 (current_process k1) (write_wait_queue rb1); Some (Slept, k2, rb1) }
        else do { k2 \<leftarrow> k_proc_process_wakeup_queue k1 (read_wait_queue rb1); Some (Completed written [], k2, rb1) } })"

definition ringbuffer_read :: "kernel \<Rightarrow> ringbuffer \<Rightarrow> u32 \<Rightarrow> (io_turn \<times> kernel \<times> ringbuffer) option" where
  "ringbuffer_read k rb n =
     (let (rb1, xs) = rb_read_loop rb (unat n)
      in do {
        k1 \<leftarrow> k_proc_process_wakeup_queue k (write_wait_queue rb1);
        if xs = []
        then do { k2 \<leftarrow> sleep_prepare k1 (current_process k1) (read_wait_queue rb1); Some (Slept, k2, rb1) }
        else do { k2 \<leftarrow> k_proc_process_wakeup_queue k1 (write_wait_queue rb1); Some (Completed (of_nat (length xs)) xs, k2, rb1) } })"

text \<open>What the call does when its sleep ends: an interrupted sleep returns \<open>-ERESTARTSYS\<close>, else the loop goes on.\<close>

definition ringbuffer_woken :: "kernel \<Rightarrow> ptr \<Rightarrow> u32 option" where
  "ringbuffer_woken k p = (if sleep_result k p then Some (- 512) else None)"

section \<open>The buffer as a queue\<close>

definition rb_ok :: "ringbuffer \<Rightarrow> bool" where
  "rb_ok rb \<longleftrightarrow> length (rb_buffer rb) = unat (rb_size rb) \<and> rb_read_ptr rb < rb_size rb \<and> rb_write_ptr rb < rb_size rb"

definition rb_len :: "ringbuffer \<Rightarrow> nat" where
  "rb_len rb = ring_len (unat (rb_size rb)) (unat (rb_read_ptr rb)) (unat (rb_write_ptr rb))"

definition rb_contents :: "ringbuffer \<Rightarrow> u8 list" where
  "rb_contents rb = ring (rb_buffer rb) (unat (rb_read_ptr rb)) (rb_len rb)"

definition rb_cap :: "ringbuffer \<Rightarrow> nat" where
  "rb_cap rb = unat (rb_size rb) - 1"

interpretation rb: fifo_loops rb_contents rb_ok rb_cap ringbuffer_read_available ringbuffer_write_available rb_put rb_get
  rb_write_loop rb_read_loop
proof (unfold_locales, goal_cases)
  case (1 b)
  then show ?case
    using ring_read_word [of "rb_read_ptr b" "rb_size b" "rb_write_ptr b"]
    by (simp only: rb_ok_def ringbuffer_read_available_def rb_contents_def length_ring rb_len_def)
next
  case (2 b)
  then have "unat (ringbuffer_write_available b) + rb_len b + 1 = unat (rb_size b)"
    using ring_write_word [of "rb_read_ptr b" "rb_size b" "rb_write_ptr b"]
    by (simp only: rb_ok_def ringbuffer_write_available_def rb_len_def)
  then show ?case unfolding rb_contents_def length_ring rb_cap_def by linarith
next
  case (3 b x)
  let ?L = "unat (rb_size b)" and ?r = "unat (rb_read_ptr b)" and ?w = "unat (rb_write_ptr b)"
  have lt: "?r < ?L" "?w < ?L" using 3(1) by (simp_all add: rb_ok_def word_less_nat_alt)
  have "unat (ringbuffer_write_available b) + rb_len b + 1 = ?L"
    using 3(1) ring_write_word [of "rb_read_ptr b" "rb_size b" "rb_write_ptr b"]
    by (simp only: rb_ok_def ringbuffer_write_available_def rb_len_def)
  then have n: "Suc (rb_len b) < ?L" using 3(2) unat_eq_zero32 [of "ringbuffer_write_available b"] by linarith
  have w: "unat (rb_write_ptr (rb_put b x)) = Suc ?w mod ?L" using ring_bump_word [of "rb_write_ptr b" "rb_size b"] 3(1)
    by (auto simp: rb_put_def ringbuffer_bump_write_ptr_def rb_ok_def split: if_splits)
  have len: "rb_len (rb_put b x) = Suc (rb_len b)"
    using ring_len_put [OF lt] n w by (simp add: rb_len_def rb_put_def ringbuffer_bump_write_ptr_def)
  have "rb_contents (rb_put b x) = ring ((rb_buffer b)[(?r + rb_len b) mod length (rb_buffer b) := x]) ?r (Suc (rb_len b))"
    using len ring_len_pos [OF lt] 3(1) by (simp add: rb_contents_def rb_put_def ringbuffer_bump_write_ptr_def rb_ok_def rb_len_def)
  also have "\<dots> = rb_contents b @ [x]" unfolding rb_contents_def by (rule ring_put) (use n 3(1) in \<open>simp add: rb_ok_def\<close>)
  finally show ?case using 3(1) w lt
    by (auto simp: rb_ok_def rb_put_def ringbuffer_bump_write_ptr_def rb_cap_def word_less_nat_alt split: if_splits)
next
  case (4 b)
  let ?L = "unat (rb_size b)" and ?r = "unat (rb_read_ptr b)" and ?w = "unat (rb_write_ptr b)"
  have lt: "?r < ?L" "?w < ?L" using 4(1) by (simp_all add: rb_ok_def word_less_nat_alt)
  have ne: "?r \<noteq> ?w" using 4(2) word_unatI [of "rb_read_ptr b" "rb_write_ptr b"] by (auto simp: ringbuffer_read_available_def)
  have r: "unat (rb_read_ptr (snd (rb_get b))) = Suc ?r mod ?L" using ring_bump_word [of "rb_read_ptr b" "rb_size b"] 4(1)
    by (auto simp: rb_get_def ringbuffer_bump_read_ptr_def rb_ok_def split: if_splits)
  have len: "rb_len b = Suc (rb_len (snd (rb_get b)))"
    using ring_len_get [OF lt ne] r by (simp add: rb_len_def rb_get_def ringbuffer_bump_read_ptr_def)
  have "rb_contents b = rb_buffer b ! ?r # rb_contents (snd (rb_get b))"
    using ring_get [of ?r "rb_buffer b" "rb_len (snd (rb_get b))"] lt 4(1) r
    by (simp add: rb_contents_def len rb_ok_def) (simp add: rb_get_def ringbuffer_bump_read_ptr_def)
  then show ?case using 4(1) r lt
    by (auto simp: rb_ok_def rb_get_def ringbuffer_bump_read_ptr_def rb_cap_def word_less_nat_alt split: if_splits)
qed simp_all

lemma take_min_length: "take (min (length xs) n) xs = take n xs"
  by (simp add: min_def)

section \<open>Turns\<close>

lemma rb_loops_keep [simp]:
  "read_wait_queue (fst (rb_write_loop rb xs)) = read_wait_queue rb" "write_wait_queue (fst (rb_write_loop rb xs)) = write_wait_queue rb"
  "read_wait_queue (fst (rb_read_loop rb n)) = read_wait_queue rb" "write_wait_queue (fst (rb_read_loop rb n)) = write_wait_queue rb"
proof -
  show "read_wait_queue (fst (rb_write_loop rb xs)) = read_wait_queue rb" "write_wait_queue (fst (rb_write_loop rb xs)) = write_wait_queue rb"
    by (induction xs arbitrary: rb) (simp_all add: rb_put_def ringbuffer_bump_write_ptr_def)
  show "read_wait_queue (fst (rb_read_loop rb n)) = read_wait_queue rb" "write_wait_queue (fst (rb_read_loop rb n)) = write_wait_queue rb"
    by (induction n arbitrary: rb) (simp_all add: rb_get_def ringbuffer_bump_read_ptr_def split_beta Let_def)
qed

text \<open>
  A turn of either call always succeeds when the scheduler is in order and its process has a block
  node. A write that finds room puts what fits and leaves no sleeping reader; a write to a full
  buffer sleeps. A read that finds bytes takes them and leaves no sleeping writer; a read of an
  empty buffer sleeps.
\<close>

lemma write_turn_ok:
  assumes "sched_inv k" and "has_block k (current_process k)" and "rb_ok rb" and "bytes \<noteq> []" and "length bytes < 2 ^ 32"
  obtains k' rb' where "rb_ok rb'" "rb_cap rb' = rb_cap rb" "sched_inv k'" "read_wait_queue rb' = read_wait_queue rb"
    "write_wait_queue rb' = write_wait_queue rb" "same_rest k k'" "\<forall>p. has_block k' p = has_block k p"
    "if length (rb_contents rb) < rb_cap rb
     then ringbuffer_write k rb bytes = Some (Completed (of_nat (min (length bytes) (rb_cap rb - length (rb_contents rb)))) [], k', rb') \<and>
       rb_contents rb' = rb_contents rb @ take (rb_cap rb - length (rb_contents rb)) bytes \<and> queues k' (read_wait_queue rb) = [] \<and>
       (\<forall>q. queues k q = [] \<longrightarrow> queues k' q = [])
     else ringbuffer_write k rb bytes = Some (Slept, k', rb') \<and> rb_contents rb' = rb_contents rb \<and>
       (read_wait_queue rb \<noteq> write_wait_queue rb \<longrightarrow> queues k' (read_wait_queue rb) = []) \<and>
       (\<forall>q. q \<noteq> write_wait_queue rb \<and> queues k q = [] \<longrightarrow> queues k' q = [])"
proof -
  let ?rb = "fst (rb_write_loop rb bytes)" and ?free = "rb_cap rb - length (rb_contents rb)"
  let ?n = "length bytes - length (snd (rb_write_loop rb bytes))"
  have f: "rb_ok ?rb" "rb_cap ?rb = rb_cap rb" "rb_contents ?rb = rb_contents rb @ take ?free bytes"
    "snd (rb_write_loop rb bytes) = drop ?free bytes"
    using rb.fill_spec [OF assms(3)] by blast+
  have n: "?n = min (length bytes) ?free" unfolding f(4) by simp
  obtain k1 where k1: "k_proc_process_wakeup_queue k (read_wait_queue rb) = Some k1" "sched_inv k1"
    "queues k1 (read_wait_queue rb) = []" "\<forall>q'. queues k q' = [] \<longrightarrow> queues k1 q' = []" "same_rest k k1"
    "\<forall>p. has_block k1 p = has_block k p"
    by (rule wakeup_facts [OF assms(1)]) blast
  show ?thesis
  proof (cases "length (rb_contents rb) < rb_cap rb")
    case True
    then have "?n \<noteq> 0" "?n < 2 ^ 32" unfolding n using assms(4,5) by auto
    then have nz: "(of_nat ?n :: u32) \<noteq> 0" by (simp only: word_of_nat_eq_0_iff) (auto dest: dvd_imp_le)
    obtain k2 where k2: "k_proc_process_wakeup_queue k1 (read_wait_queue rb) = Some k2" "sched_inv k2"
      "queues k2 (read_wait_queue rb) = []" "\<forall>q'. queues k1 q' = [] \<longrightarrow> queues k2 q' = []" "same_rest k1 k2" "\<forall>p. has_block k2 p = has_block k1 p"
      by (rule wakeup_facts [OF k1(2)]) blast
    have "ringbuffer_write k rb bytes = Some (Completed (of_nat ?n) [], k2, ?rb)"
      using nz k1(1) k2(1) by (simp add: ringbuffer_write_def split_beta Let_def)
    then show ?thesis using that [of ?rb k2] f(1-3) k2 k1(4-6) True same_rest_trans [OF k1(5) k2(5)] unfolding n by simp
  next
    case False
    then have z: "?free = 0" by simp
    have hb: "has_block k1 (current_process k1)" using k1(5,6) assms(2) by (simp add: same_rest_def)
    obtain k2 where k2: "sleep_prepare k1 (current_process k1) (write_wait_queue rb) = Some k2" "sched_inv k2"
      "queues k2 = (queues k1)(write_wait_queue rb := queues k1 (write_wait_queue rb) @ [current_process k1])" "same_rest k1 k2" "\<forall>p. has_block k2 p = has_block k1 p"
      by (rule sleep_facts [OF k1(2) hb]) blast
    have "ringbuffer_write k rb bytes = Some (Slept, k2, ?rb)"
      using z k1(1) k2(1) f(4) by (simp add: ringbuffer_write_def split_beta Let_def)
    then show ?thesis using that [of ?rb k2] f(1-3) k2 k1(3-6) False z same_rest_trans [OF k1(5) k2(4)] by simp
  qed
qed

lemma read_turn_ok:
  assumes "sched_inv k" and "has_block k (current_process k)" and "rb_ok rb" and "n \<noteq> 0"
  obtains k' rb' where "rb_ok rb'" "rb_cap rb' = rb_cap rb" "sched_inv k'" "read_wait_queue rb' = read_wait_queue rb"
    "write_wait_queue rb' = write_wait_queue rb" "same_rest k k'" "\<forall>p. has_block k' p = has_block k p"
    "rb_contents rb = take (unat n) (rb_contents rb) @ rb_contents rb'"
    "if rb_contents rb \<noteq> []
     then ringbuffer_read k rb n = Some (Completed (of_nat (min (length (rb_contents rb)) (unat n))) (take (unat n) (rb_contents rb)), k', rb') \<and>
       queues k' (write_wait_queue rb) = [] \<and> (\<forall>q. queues k q = [] \<longrightarrow> queues k' q = [])
     else ringbuffer_read k rb n = Some (Slept, k', rb') \<and>
       (read_wait_queue rb \<noteq> write_wait_queue rb \<longrightarrow> queues k' (write_wait_queue rb) = []) \<and>
       (\<forall>q. q \<noteq> read_wait_queue rb \<and> queues k q = [] \<longrightarrow> queues k' q = [])"
proof -
  let ?rb = "fst (rb_read_loop rb (unat n))" and ?xs = "take (unat n) (rb_contents rb)"
  have f: "rb_ok ?rb" "rb_cap ?rb = rb_cap rb" "snd (rb_read_loop rb (unat n)) = ?xs" "rb_contents ?rb = drop (unat n) (rb_contents rb)"
    using rb.drain_spec [OF assms(3)] by blast+
  have nn: "unat n \<noteq> 0" using assms(4) by (simp add: unat_eq_0)
  obtain k1 where k1: "k_proc_process_wakeup_queue k (write_wait_queue rb) = Some k1" "sched_inv k1"
    "queues k1 (write_wait_queue rb) = []" "\<forall>q'. queues k q' = [] \<longrightarrow> queues k1 q' = []" "same_rest k k1"
    "\<forall>p. has_block k1 p = has_block k p"
    by (rule wakeup_facts [OF assms(1)]) blast
  show ?thesis
  proof (cases "rb_contents rb = []")
    case False
    obtain k2 where k2: "k_proc_process_wakeup_queue k1 (write_wait_queue rb) = Some k2" "sched_inv k2"
      "queues k2 (write_wait_queue rb) = []" "\<forall>q'. queues k1 q' = [] \<longrightarrow> queues k2 q' = []" "same_rest k1 k2" "\<forall>p. has_block k2 p = has_block k1 p"
      by (rule wakeup_facts [OF k1(2)]) blast
    have "ringbuffer_read k rb n = Some (Completed (of_nat (length ?xs)) ?xs, k2, ?rb)"
      using nn False k1(1) k2(1) f(3) by (simp add: ringbuffer_read_def split_beta Let_def)
    then show ?thesis using that [of ?rb k2] f k2 k1(4-6) False same_rest_trans [OF k1(5) k2(5)] by simp
  next
    case True
    have hb: "has_block k1 (current_process k1)" using k1(5,6) assms(2) by (simp add: same_rest_def)
    obtain k2 where k2: "sleep_prepare k1 (current_process k1) (read_wait_queue rb) = Some k2" "sched_inv k2"
      "queues k2 = (queues k1)(read_wait_queue rb := queues k1 (read_wait_queue rb) @ [current_process k1])" "same_rest k1 k2" "\<forall>p. has_block k2 p = has_block k1 p"
      by (rule sleep_facts [OF k1(2) hb]) blast
    have "ringbuffer_read k rb n = Some (Slept, k2, ?rb)"
      using True k1(1) k2(1) f(3) by (simp add: ringbuffer_read_def split_beta Let_def)
    then show ?thesis using that [of ?rb k2] f k2 k1(3-6) True same_rest_trans [OF k1(5) k2(4)] by auto
  qed
qed

section \<open>Readers and writers at work\<close>

text \<open>
  The states of a buffer shared by any number of processes: the scheduler, the buffer, and the bytes
  written and read so far. A step is a turn of a write or a read of at least one byte by the
  current process, or anything else the kernel does that puts no process into the queues of the
  buffer.
\<close>

type_synonym rb_state = "kernel \<times> ringbuffer \<times> u8 list \<times> u8 list"

inductive rb_step :: "rb_state \<Rightarrow> rb_state \<Rightarrow> bool" where
  write_turn: "bytes \<noteq> [] \<Longrightarrow> length bytes < 2 ^ 32 \<Longrightarrow> has_block k (current_process k) \<Longrightarrow>
    ringbuffer_write k rb bytes = Some (r, k', rb') \<Longrightarrow>
    rb_step (k, rb, ins, outs) (k', rb', ins @ (case r of Completed n _ \<Rightarrow> take (unat n) bytes | Slept \<Rightarrow> []), outs)"
| read_turn: "n \<noteq> 0 \<Longrightarrow> has_block k (current_process k) \<Longrightarrow> ringbuffer_read k rb n = Some (r, k', rb') \<Longrightarrow>
    rb_step (k, rb, ins, outs) (k', rb', ins, outs @ (case r of Completed _ xs \<Rightarrow> xs | Slept \<Rightarrow> []))"
| other_turn: "sched_inv k' \<Longrightarrow> (queues k (read_wait_queue rb) = [] \<Longrightarrow> queues k' (read_wait_queue rb) = []) \<Longrightarrow>
    (queues k (write_wait_queue rb) = [] \<Longrightarrow> queues k' (write_wait_queue rb) = []) \<Longrightarrow>
    rb_step (k, rb, ins, outs) (k', rb, ins, outs)"

definition rb_inv :: "ptr \<Rightarrow> ptr \<Rightarrow> nat \<Rightarrow> rb_state \<Rightarrow> bool" where
  "rb_inv rq wq c = (\<lambda>(k, rb, ins, outs). sched_inv k \<and> rb_ok rb \<and> rb_cap rb = c \<and> read_wait_queue rb = rq \<and> write_wait_queue rb = wq \<and>
     ins = outs @ rb_contents rb \<and> (queues k rq \<noteq> [] \<longrightarrow> rb_contents rb = []) \<and>
     (queues k wq \<noteq> [] \<longrightarrow> length (rb_contents rb) = c))"

lemma rb_inv_step:
  assumes "rb_step s s'" and "rq \<noteq> wq" and "rb_inv rq wq c s" and "c < 2 ^ 32"
  shows "rb_inv rq wq c s'"
  using assms
proof (induction rule: rb_step.induct)
  case (write_turn bytes k rb r k' rb' ins outs)
  note i = write_turn(6) [unfolded rb_inv_def prod.case]
  obtain k1 rb1 where t: "rb_ok rb1" "rb_cap rb1 = rb_cap rb" "sched_inv k1" "read_wait_queue rb1 = read_wait_queue rb"
    "write_wait_queue rb1 = write_wait_queue rb"
    "if length (rb_contents rb) < rb_cap rb
     then ringbuffer_write k rb bytes = Some (Completed (of_nat (min (length bytes) (rb_cap rb - length (rb_contents rb)))) [], k1, rb1) \<and>
       rb_contents rb1 = rb_contents rb @ take (rb_cap rb - length (rb_contents rb)) bytes \<and> queues k1 (read_wait_queue rb) = [] \<and>
       (\<forall>q. queues k q = [] \<longrightarrow> queues k1 q = [])
     else ringbuffer_write k rb bytes = Some (Slept, k1, rb1) \<and> rb_contents rb1 = rb_contents rb \<and>
       (read_wait_queue rb \<noteq> write_wait_queue rb \<longrightarrow> queues k1 (read_wait_queue rb) = []) \<and>
       (\<forall>q. q \<noteq> write_wait_queue rb \<and> queues k q = [] \<longrightarrow> queues k1 q = [])"
    using write_turn_ok [of k rb bytes] i write_turn(1-3) by metis
  show ?case
  proof (cases "length (rb_contents rb) < rb_cap rb")
    case True
    let ?m = "min (length bytes) (rb_cap rb - length (rb_contents rb))"
    have r: "r = Completed (of_nat ?m) []" "k' = k1" "rb' = rb1" using t(6) True write_turn(4) by auto
    have "unat (of_nat ?m :: u32) = ?m" using write_turn(2) by (simp add: unat_of_nat take_bit_nat_eq_self)
    then have "take (unat (of_nat ?m :: u32)) bytes = take (rb_cap rb - length (rb_contents rb)) bytes" by (simp only: take_min_length)
    moreover have "queues k wq = []" using i True by auto
    ultimately show ?thesis using t True r i by (auto simp: rb_inv_def)
  next
    case False
    have "length (rb_contents rb) = c" using False i rb.bounded [of rb] by auto
    then show ?thesis using t False write_turn(4,5) i by (auto simp: rb_inv_def)
  qed
next
  case (read_turn n k rb r k' rb' ins outs)
  note i = read_turn(5) [unfolded rb_inv_def prod.case]
  obtain k1 rb1 where t: "rb_ok rb1" "rb_cap rb1 = rb_cap rb" "sched_inv k1" "read_wait_queue rb1 = read_wait_queue rb"
    "write_wait_queue rb1 = write_wait_queue rb" "rb_contents rb = take (unat n) (rb_contents rb) @ rb_contents rb1"
    "if rb_contents rb \<noteq> []
     then ringbuffer_read k rb n = Some (Completed (of_nat (min (length (rb_contents rb)) (unat n))) (take (unat n) (rb_contents rb)), k1, rb1) \<and>
       queues k1 (write_wait_queue rb) = [] \<and> (\<forall>q. queues k q = [] \<longrightarrow> queues k1 q = [])
     else ringbuffer_read k rb n = Some (Slept, k1, rb1) \<and>
       (read_wait_queue rb \<noteq> write_wait_queue rb \<longrightarrow> queues k1 (write_wait_queue rb) = []) \<and>
       (\<forall>q. q \<noteq> read_wait_queue rb \<and> queues k q = [] \<longrightarrow> queues k1 q = [])"
    using read_turn_ok [of k rb n] i read_turn(1,2) by metis
  show ?case
  proof (cases "rb_contents rb = []")
    case True
    then have "rb_contents rb1 = []" using t(6) by simp
    then show ?thesis using t True read_turn(3,4) i by (auto simp: rb_inv_def)
  next
    case False
    have r: "r = Completed (of_nat (min (length (rb_contents rb)) (unat n))) (take (unat n) (rb_contents rb))" "k' = k1" "rb' = rb1"
      using t(7) False read_turn(3) by auto
    have "queues k rq = []" using i False by auto
    then show ?thesis using t(1-7) False r i by (auto simp: rb_inv_def)
  qed
next
  case (other_turn k' k rb ins outs)
  then show ?case by (auto simp: rb_inv_def)
qed

lemma rb_inv_run:
  assumes "rb_step\<^sup>*\<^sup>* s s'" and "rq \<noteq> wq" and "rb_inv rq wq c s" and "c < 2 ^ 32"
  shows "rb_inv rq wq c s'"
  using assms(1,3) by induction (use rb_inv_step assms(2,4) in blast)+

section \<open>Properties\<close>

text \<open>
  C9: in every state that readers and writers of a new ring buffer of \<open>n\<close> bytes reach by turns of
  nonempty reads and writes in any order, the bytes written are the bytes read followed by the
  contents, which are at most \<open>n - 1\<close>; and no wake-up is lost: a reader sleeps only while the
  buffer is empty, a writer only while it is full. Every such turn has a result.
\<close>

theorem ringbuffer_fifo_no_lost_wakeup:
  assumes "ringbuffer_create block n rq wq k0 = (rb0, k1)" and "length block = unat n" and "n \<noteq> 0" and "rq \<noteq> wq"
    and "sched_inv k0" and "queues k0 rq = []" and "queues k0 wq = []" and "rb_step\<^sup>*\<^sup>* (k1, rb0, [], []) (k, rb, ins, outs)"
  shows "ins = outs @ rb_contents rb \<and> length (rb_contents rb) \<le> unat n - 1 \<and> (queues k rq \<noteq> [] \<longrightarrow> rb_contents rb = []) \<and>
    (queues k wq \<noteq> [] \<longrightarrow> length (rb_contents rb) = unat n - 1) \<and>
    (has_block k (current_process k) \<longrightarrow> (\<forall>bytes. bytes \<noteq> [] \<and> length bytes < 2 ^ 32 \<longrightarrow> ringbuffer_write k rb bytes \<noteq> None) \<and>
       (\<forall>m. m \<noteq> 0 \<longrightarrow> ringbuffer_read k rb m \<noteq> None))"
proof -
  have q: "set_queue (set_queue k0 rq []) wq [] = k0" using assms(6,7) by (simp add: set_queue_def fun_upd_idem)
  have rb0: "rb0 = \<lparr>rb_buffer = block, rb_size = n, rb_read_ptr = 0, rb_write_ptr = 0, read_wait_queue = rq, write_wait_queue = wq\<rparr>"
    "k1 = k0" using assms(1) q by (auto simp: ringbuffer_create_def)
  have "0 < n" using assms(3) by (simp add: word_greater_zero_iff)
  then have "rb_inv rq wq (unat n - 1) (k1, rb0, [], [])"
    using assms(2,5-7) by (simp add: rb0 rb_inv_def rb_ok_def rb_cap_def rb_contents_def rb_len_def ring_len_def ring_def)
  moreover have "unat n - 1 < 2 ^ 32" using unat_less32 [of n] by linarith
  ultimately have i: "rb_inv rq wq (unat n - 1) (k, rb, ins, outs)" using rb_inv_run [OF assms(8,4)] by blast
  then have w: "ringbuffer_write k rb bytes \<noteq> None" if "has_block k (current_process k)" "bytes \<noteq> []" "length bytes < 2 ^ 32" for bytes
    using write_turn_ok [of k rb bytes] that by (metis (no_types, lifting) option.distinct(1) prod.case rb_inv_def)
  have r: "ringbuffer_read k rb m \<noteq> None" if "has_block k (current_process k)" "m \<noteq> 0" for m
    using read_turn_ok [of k rb m] that i by (metis (no_types, lifting) option.distinct(1) prod.case rb_inv_def)
  show ?thesis using i rb.bounded [of rb] w r by (auto simp: rb_inv_def)
qed

theorem ringbuffer_fifo_no_lost_wakeup_witness:
  "\<exists>k rb. ringbuffer_write blank_kernel (fst (ringbuffer_create [0, 0, 0] 3 100 116 blank_kernel)) [7, 8] = Some (Completed 2 [], k, rb) \<and>
     rb_contents rb = [7, 8] \<and> ringbuffer_read k rb 5 \<noteq> None"
proof -
  let ?rb = "fst (ringbuffer_create [0, 0, 0] 3 100 116 blank_kernel)"
  have q: "queues blank_kernel 100 = []" "queues blank_kernel 116 = []" "has_block blank_kernel (current_process blank_kernel)"
    by (simp_all add: blank_kernel_def has_block_def blank_process_def)
  have s: "snd (ringbuffer_create [0, 0, 0] 3 100 116 blank_kernel) = blank_kernel"
    using q(1,2) by (simp add: ringbuffer_create_def set_queue_def fun_upd_idem)
  have ok: "rb_ok ?rb" "rb_cap ?rb = 2" "rb_contents ?rb = []"
    by (simp_all add: ringbuffer_create_def rb_ok_def rb_cap_def rb_contents_def rb_len_def ring_len_def ring_def)
  obtain k rb where w: "ringbuffer_write blank_kernel ?rb [7, 8] = Some (Completed 2 [], k, rb)" "same_rest blank_kernel k" "\<forall>p. has_block k p = has_block blank_kernel p"
    by (rule write_turn_ok [OF blank_kernel_inv q(3) ok(1), of "[7, 8]", unfolded ok(2,3)]) auto
  have "rb_step (blank_kernel, ?rb, [], []) (k, rb, [] @ (case Completed 2 [] of Completed n _ \<Rightarrow> take (unat n) [7, 8] | Slept \<Rightarrow> []), [])"
    by (rule rb_step.write_turn [OF _ _ q(3) w(1)]) simp_all
  then have st: "rb_step\<^sup>*\<^sup>* (blank_kernel, ?rb, [], []) (k, rb, [7, 8], [])" by simp
  have c: "ringbuffer_create [0, 0, 0] 3 100 116 blank_kernel = (?rb, blank_kernel)" using s by (metis prod.collapse)
  have "has_block k (current_process k)" using w(2,3) q(3) by (simp add: same_rest_def)
  with ringbuffer_fifo_no_lost_wakeup [OF c _ _ _ blank_kernel_inv q(1,2) st] show ?thesis using w(1) by auto
qed

end
