(* ===== verification/Pipe.thy ===== *)
theory Pipe
  imports Fifo Blocking
begin

text \<open>
  Pipes, from \<^verbatim>\<open>kernel/src/fs/pipe.c\<close>: the cyclic buffer, reading and writing with sleeps, and the
  readiness interface of \<open>select\<close> (\<open>check\<close>, \<open>wait\<close>, the notification of waiting processes). A read
  or write is again a sequence of turns between sleeps; what is left of the request is passed from
  one turn to the next. The node a pipe belongs to is its address and its mode.
\<close>

section \<open>Operations\<close>

record pipe =
  p_buffer :: "u8 list"
  p_size :: u32
  p_write_ptr :: u32
  p_read_ptr :: u32
  p_wait_queue :: ptr
  p_sel_queues :: "ptr list"

abbreviation (input) VFS_EVENT_READ :: u8 where "VFS_EVENT_READ \<equiv> 1"
abbreviation (input) VFS_EVENT_WRITE :: u8 where "VFS_EVENT_WRITE \<equiv> 2"
abbreviation (input) VFS_EVENT_EXCEPT :: u8 where "VFS_EVENT_EXCEPT \<equiv> 4"
abbreviation (input) O_NOBLOCK :: u32 where "O_NOBLOCK \<equiv> 64"

definition pipe_event2index :: "u8 \<Rightarrow> int" where
  "pipe_event2index event =
     (if event = VFS_EVENT_READ then 0 else if event = VFS_EVENT_WRITE then 1 else if event = VFS_EVENT_EXCEPT then 2 else - 22)"

definition pipe_notify :: "kernel \<Rightarrow> pipe \<Rightarrow> ptr \<Rightarrow> u8 \<Rightarrow> kernel option" where
  "pipe_notify k p node event =
     (let idx = pipe_event2index event
      in if idx < 0 then Some k else k_proc_process_wakeup_queue_select k (p_sel_queues p ! nat idx) node event)"

definition pipe_read_available :: "pipe \<Rightarrow> u32" where
  "pipe_read_available p =
     (if p_read_ptr p = p_write_ptr p then 0
      else if p_read_ptr p > p_write_ptr p then (p_size p - p_read_ptr p) + p_write_ptr p
      else p_write_ptr p - p_read_ptr p)"

definition pipe_write_available :: "pipe \<Rightarrow> u32" where
  "pipe_write_available p =
     (if p_read_ptr p = p_write_ptr p then p_size p - 1
      else if p_read_ptr p > p_write_ptr p then p_read_ptr p - p_write_ptr p - 1
      else (p_size p - p_write_ptr p) + p_read_ptr p - 1)"

definition pipe_bump_write_ptr :: "pipe \<Rightarrow> pipe" where
  "pipe_bump_write_ptr p = p\<lparr>p_write_ptr := (if p_write_ptr p + 1 = p_size p then 0 else p_write_ptr p + 1)\<rparr>"

definition pipe_bump_read_ptr :: "pipe \<Rightarrow> pipe" where
  "pipe_bump_read_ptr p = p\<lparr>p_read_ptr := (if p_read_ptr p + 1 = p_size p then 0 else p_read_ptr p + 1)\<rparr>"

definition pipe_put :: "pipe \<Rightarrow> u8 \<Rightarrow> pipe" where
  "pipe_put p x = pipe_bump_write_ptr (p\<lparr>p_buffer := (p_buffer p)[unat (p_write_ptr p) := x]\<rparr>)"

definition pipe_get :: "pipe \<Rightarrow> u8 \<times> pipe" where
  "pipe_get p = (p_buffer p ! unat (p_read_ptr p), pipe_bump_read_ptr p)"

text \<open>The loops over the bytes of a request until the buffer is full or empty.\<close>

fun pipe_write_loop :: "pipe \<Rightarrow> u8 list \<Rightarrow> pipe \<times> u8 list" where
  "pipe_write_loop p [] = (p, [])"
| "pipe_write_loop p (x # xs) = (if pipe_write_available p \<noteq> 0 then pipe_write_loop (pipe_put p x) xs else (p, x # xs))"

fun pipe_read_loop :: "pipe \<Rightarrow> nat \<Rightarrow> pipe \<times> u8 list" where
  "pipe_read_loop p 0 = (p, [])"
| "pipe_read_loop p (Suc n) =
     (if pipe_read_available p \<noteq> 0
      then let (x, p1) = pipe_get p; (p2, xs) = pipe_read_loop p1 n in (p2, x # xs)
      else (p, []))"

text \<open>
  A turn of a write whose remaining bytes are \<open>rest\<close> of \<open>sz\<close>: it sleeps when the buffer is full,
  or stops there if the node does not block. The bytes that remain are part of the result.
\<close>

definition pipe_write :: "kernel \<Rightarrow> pipe option \<Rightarrow> ptr \<Rightarrow> u32 \<Rightarrow> u32 \<Rightarrow> u8 list \<Rightarrow> (io_turn \<times> kernel \<times> pipe option \<times> u8 list) option" where
  "pipe_write k dev node md sz rest =
     (case dev of
        None \<Rightarrow> Some (Completed (- ENOENT) [], k, None, rest)
      | Some p \<Rightarrow>
          let (p1, rest1) = pipe_write_loop p rest
          in if rest1 \<noteq> [] \<and> md AND O_NOBLOCK = 0
             then do { k1 \<leftarrow> sleep_prepare k (current_process k) (p_wait_queue p1); Some (Slept, k1, Some p1, rest1) }
             else do {
               k1 \<leftarrow> k_proc_process_wakeup_queue k (p_wait_queue p1);
               k2 \<leftarrow> pipe_notify k1 p1 node VFS_EVENT_READ;
               Some (Completed (sz - of_nat (length rest1)) [], k2, Some p1, rest1) })"

text \<open>The read: the test of a node that does not block comes before the first turn.\<close>

definition pipe_read_turn :: "kernel \<Rightarrow> pipe \<Rightarrow> ptr \<Rightarrow> u32 \<Rightarrow> u8 list \<Rightarrow> (io_turn \<times> kernel \<times> pipe \<times> u8 list) option" where
  "pipe_read_turn k p node sz sofar =
     (let (p1, xs) = pipe_read_loop p (unat sz - length sofar); got = sofar @ xs
      in if length got < unat sz
         then do { k1 \<leftarrow> sleep_prepare k (current_process k) (p_wait_queue p1); Some (Slept, k1, p1, got) }
         else do {
           k1 \<leftarrow> k_proc_process_wakeup_queue k (p_wait_queue p1);
           k2 \<leftarrow> pipe_notify k1 p1 node VFS_EVENT_WRITE;
           Some (Completed sz got, k2, p1, got) })"

definition pipe_read :: "kernel \<Rightarrow> pipe option \<Rightarrow> ptr \<Rightarrow> u32 \<Rightarrow> u32 \<Rightarrow> (io_turn \<times> kernel \<times> pipe option \<times> u8 list) option" where
  "pipe_read k dev node md sz =
     (case dev of
        None \<Rightarrow> Some (Completed (- ENOENT) [], k, None, [])
      | Some p \<Rightarrow>
          if md AND O_NOBLOCK \<noteq> 0 \<and> pipe_read_available p < sz then Some (Completed (- EAGAIN) [], k, Some p, [])
          else do { (r, k1, p1, got) \<leftarrow> pipe_read_turn k p node sz []; Some (r, k1, Some p1, got) })"

text \<open>An interrupted sleep ends either call with \<open>-ERESTARTSYS\<close>.\<close>

definition pipe_woken :: "kernel \<Rightarrow> ptr \<Rightarrow> u32 option" where
  "pipe_woken k p = (if sleep_result k p then Some (- 512) else None)"

definition pipe_check :: "pipe option \<Rightarrow> u8 \<Rightarrow> bool" where
  "pipe_check dev event =
     (case dev of None \<Rightarrow> False
      | Some p \<Rightarrow> if event = VFS_EVENT_READ then pipe_read_available p > 0
                 else if event = VFS_EVENT_WRITE then pipe_write_available p > 0 else False)"

definition pipe_wait :: "kernel \<Rightarrow> pipe option \<Rightarrow> u8 \<Rightarrow> ptr \<Rightarrow> (int \<times> kernel) option" where
  "pipe_wait k dev event prc =
     (case dev of None \<Rightarrow> Some (- 2, k)
      | Some p \<Rightarrow>
          let idx = pipe_event2index event
          in if idx < 0 then Some (idx, k)
             else let q = p_sel_queues p ! nat idx
                  in if prc \<notin> set (queues k q) then do { k1 \<leftarrow> k_proc_process_own_block k prc q; Some (0, k1) } else Some (0, k))"

text \<open>\<open>k_fs_pipe_create\<close>: a zeroed buffer and four new queues.\<close>

definition k_fs_pipe_create :: "kernel \<Rightarrow> u32 \<Rightarrow> ptr \<Rightarrow> ptr \<Rightarrow> ptr \<Rightarrow> ptr \<Rightarrow> pipe \<times> kernel" where
  "k_fs_pipe_create k sz q q0 q1 q2 =
     (\<lparr>p_buffer = replicate (unat sz) 0, p_size = sz, p_write_ptr = 0, p_read_ptr = 0, p_wait_queue = q, p_sel_queues = [q0, q1, q2]\<rparr>,
      set_queue (set_queue (set_queue (set_queue k q []) q0 []) q1 []) q2 [])"

section \<open>The pipe as a queue\<close>

definition pipe_ok :: "pipe \<Rightarrow> bool" where
  "pipe_ok p \<longleftrightarrow> length (p_buffer p) = unat (p_size p) \<and> p_read_ptr p < p_size p \<and> p_write_ptr p < p_size p"

definition pipe_len :: "pipe \<Rightarrow> nat" where
  "pipe_len p = ring_len (unat (p_size p)) (unat (p_read_ptr p)) (unat (p_write_ptr p))"

definition pipe_contents :: "pipe \<Rightarrow> u8 list" where
  "pipe_contents p = ring (p_buffer p) (unat (p_read_ptr p)) (pipe_len p)"

definition pipe_cap :: "pipe \<Rightarrow> nat" where
  "pipe_cap p = unat (p_size p) - 1"

lemma pipe_write_avail: "pipe_ok b \<Longrightarrow> unat (pipe_write_available b) + pipe_len b + 1 = unat (p_size b)"
  using ring_write_word [of "p_read_ptr b" "p_size b" "p_write_ptr b"] by (simp only: pipe_ok_def pipe_write_available_def pipe_len_def)

interpretation pi: fifo_loops pipe_contents pipe_ok pipe_cap pipe_read_available pipe_write_available pipe_put pipe_get
  pipe_write_loop pipe_read_loop
proof (unfold_locales, goal_cases)
  case (1 b)
  then show ?case
    using ring_read_word [of "p_read_ptr b" "p_size b" "p_write_ptr b"]
    by (simp only: pipe_ok_def pipe_read_available_def pipe_contents_def length_ring pipe_len_def)
next
  case (2 b)
  then show ?case using pipe_write_avail [OF 2] unfolding pipe_contents_def length_ring pipe_cap_def by linarith
next
  case (3 b x)
  let ?L = "unat (p_size b)" and ?r = "unat (p_read_ptr b)" and ?w = "unat (p_write_ptr b)"
  have lt: "?r < ?L" "?w < ?L" using 3(1) by (simp_all add: pipe_ok_def word_less_nat_alt)
  have n: "Suc (pipe_len b) < ?L" using pipe_write_avail [OF 3(1)] 3(2) unat_eq_zero32 [of "pipe_write_available b"] by linarith
  have w: "unat (p_write_ptr (pipe_put b x)) = Suc ?w mod ?L" using ring_bump_word [of "p_write_ptr b" "p_size b"] 3(1)
    by (auto simp: pipe_put_def pipe_bump_write_ptr_def pipe_ok_def split: if_splits)
  have len: "pipe_len (pipe_put b x) = Suc (pipe_len b)"
    using ring_len_put [OF lt] n w by (simp add: pipe_len_def pipe_put_def pipe_bump_write_ptr_def)
  have "pipe_contents (pipe_put b x) = ring ((p_buffer b)[(?r + pipe_len b) mod length (p_buffer b) := x]) ?r (Suc (pipe_len b))"
    using len ring_len_pos [OF lt] 3(1) by (simp add: pipe_contents_def pipe_put_def pipe_bump_write_ptr_def pipe_ok_def pipe_len_def)
  also have "\<dots> = pipe_contents b @ [x]" unfolding pipe_contents_def by (rule ring_put) (use n 3(1) in \<open>simp add: pipe_ok_def\<close>)
  finally show ?case using 3(1) w lt
    by (auto simp: pipe_ok_def pipe_put_def pipe_bump_write_ptr_def pipe_cap_def word_less_nat_alt split: if_splits)
next
  case (4 b)
  let ?L = "unat (p_size b)" and ?r = "unat (p_read_ptr b)" and ?w = "unat (p_write_ptr b)"
  have lt: "?r < ?L" "?w < ?L" using 4(1) by (simp_all add: pipe_ok_def word_less_nat_alt)
  have ne: "?r \<noteq> ?w" using 4(2) word_unatI [of "p_read_ptr b" "p_write_ptr b"] by (auto simp: pipe_read_available_def)
  have r: "unat (p_read_ptr (snd (pipe_get b))) = Suc ?r mod ?L" using ring_bump_word [of "p_read_ptr b" "p_size b"] 4(1)
    by (auto simp: pipe_get_def pipe_bump_read_ptr_def pipe_ok_def split: if_splits)
  have len: "pipe_len b = Suc (pipe_len (snd (pipe_get b)))"
    using ring_len_get [OF lt ne] r by (simp add: pipe_len_def pipe_get_def pipe_bump_read_ptr_def)
  have "pipe_contents b = p_buffer b ! ?r # pipe_contents (snd (pipe_get b))"
    using ring_get [of ?r "p_buffer b" "pipe_len (snd (pipe_get b))"] lt 4(1) r
    by (simp add: pipe_contents_def len pipe_ok_def) (simp add: pipe_get_def pipe_bump_read_ptr_def)
  then show ?case using 4(1) r lt
    by (auto simp: pipe_ok_def pipe_get_def pipe_bump_read_ptr_def pipe_cap_def word_less_nat_alt split: if_splits)
qed simp_all

lemma pipe_loops_keep [simp]:
  "p_wait_queue (fst (pipe_write_loop p xs)) = p_wait_queue p" "p_sel_queues (fst (pipe_write_loop p xs)) = p_sel_queues p"
  "p_wait_queue (fst (pipe_read_loop p n)) = p_wait_queue p" "p_sel_queues (fst (pipe_read_loop p n)) = p_sel_queues p"
proof -
  show "p_wait_queue (fst (pipe_write_loop p xs)) = p_wait_queue p" "p_sel_queues (fst (pipe_write_loop p xs)) = p_sel_queues p"
    by (induction xs arbitrary: p) (simp_all add: pipe_put_def pipe_bump_write_ptr_def)
  show "p_wait_queue (fst (pipe_read_loop p n)) = p_wait_queue p" "p_sel_queues (fst (pipe_read_loop p n)) = p_sel_queues p"
    by (induction n arbitrary: p) (simp_all add: pipe_get_def pipe_bump_read_ptr_def split_beta Let_def)
qed

section \<open>Turns\<close>

lemma pipe_notify_ok:
  assumes "sched_inv k"
  shows "\<exists>k'. pipe_notify k p node event = Some k' \<and> sched_inv k' \<and> same_rest k k' \<and> (\<forall>q. queues k q = [] \<longrightarrow> queues k' q = [])"
  by (rule select_facts [OF assms, of "p_sel_queues p ! nat (pipe_event2index event)" node event])
    (use assms in \<open>auto simp: pipe_notify_def Let_def\<close>)

text \<open>The end of a transfer: the sleepers of the pipe and the processes that wait for the event are woken.\<close>

lemma pipe_finish_ok:
  assumes "sched_inv k"
  shows "\<exists>k1 k'. k_proc_process_wakeup_queue k (p_wait_queue p) = Some k1 \<and> pipe_notify k1 p node event = Some k' \<and>
    sched_inv k' \<and> same_rest k k' \<and> queues k' (p_wait_queue p) = []"
proof -
  obtain k1 where k1: "k_proc_process_wakeup_queue k (p_wait_queue p) = Some k1" "sched_inv k1" "queues k1 (p_wait_queue p) = []" "same_rest k k1"
    by (rule wakeup_facts [OF assms]) blast
  then show ?thesis using pipe_notify_ok [OF k1(2), of p node event] same_rest_trans by blast
qed

lemma pipe_write_turn:
  assumes "sched_inv k" and "has_block k (current_process k)" and "pipe_ok p" and "free = pipe_cap p - length (pipe_contents p)"
  obtains k' p' where "pipe_ok p'" "pipe_cap p' = pipe_cap p" "sched_inv k'" "p_wait_queue p' = p_wait_queue p"
    "pipe_contents p' = pipe_contents p @ take free rest"
    "if free < length rest \<and> md AND O_NOBLOCK = 0
     then pipe_write k (Some p) node md sz rest = Some (Slept, k', Some p', drop free rest) \<and>
       sleep_prepare k (current_process k) (p_wait_queue p) = Some k'
     else pipe_write k (Some p) node md sz rest = Some (Completed (sz - of_nat (length (drop free rest))) [], k', Some p', drop free rest) \<and>
       queues k' (p_wait_queue p) = []"
proof -
  let ?p = "fst (pipe_write_loop p rest)"
  have f: "pipe_ok ?p" "pipe_cap ?p = pipe_cap p" "pipe_contents ?p = pipe_contents p @ take free rest"
    "snd (pipe_write_loop p rest) = drop free rest"
    using pi.fill_spec [OF assms(3)] unfolding assms(4) by blast+
  show ?thesis
  proof (cases "free < length rest \<and> md AND O_NOBLOCK = 0")
    case True
    obtain k' where k': "sleep_prepare k (current_process k) (p_wait_queue p) = Some k'" "sched_inv k'"
      by (rule sleep_facts [OF assms(1,2)]) blast
    have "pipe_write k (Some p) node md sz rest = Some (Slept, k', Some ?p, drop free rest)"
      using True k'(1) f(4) by (simp add: pipe_write_def split_beta Let_def)
    then show ?thesis using that [of ?p k'] f k' True by simp
  next
    case False
    then have c: "\<not> (drop free rest \<noteq> [] \<and> md AND O_NOBLOCK = 0)" by auto
    obtain k1 k' where k': "k_proc_process_wakeup_queue k (p_wait_queue ?p) = Some k1" "pipe_notify k1 ?p node VFS_EVENT_READ = Some k'"
      "sched_inv k'" "queues k' (p_wait_queue ?p) = []"
      using pipe_finish_ok [OF assms(1), of ?p node VFS_EVENT_READ] by blast
    have "pipe_write k (Some p) node md sz rest = Some (Completed (sz - of_nat (length (drop free rest))) [], k', Some ?p, drop free rest)"
      using c k'(1,2) f(4) by (auto simp: pipe_write_def split_beta Let_def)
    then show ?thesis using that [of ?p k'] f k'(3,4) False by simp
  qed
qed

lemma pipe_read_turn_ok:
  assumes "sched_inv k" and "has_block k (current_process k)" and "pipe_ok p"
  obtains k' p' where "pipe_ok p'" "pipe_cap p' = pipe_cap p" "sched_inv k'"
    "pipe_contents p = take (unat sz) (pipe_contents p) @ pipe_contents p'"
    "pipe_read_turn k p node sz [] = Some (if length (pipe_contents p) < unat sz then Slept else Completed sz (take (unat sz) (pipe_contents p)),
       k', p', take (unat sz) (pipe_contents p))"
    "length (pipe_contents p) \<ge> unat sz \<longrightarrow> queues k' (p_wait_queue p) = []"
proof -
  let ?p = "fst (pipe_read_loop p (unat sz))" and ?xs = "take (unat sz) (pipe_contents p)"
  have f: "pipe_ok ?p" "pipe_cap ?p = pipe_cap p" "snd (pipe_read_loop p (unat sz)) = ?xs" "pipe_contents ?p = drop (unat sz) (pipe_contents p)"
    using pi.drain_spec [OF assms(3)] by blast+
  show ?thesis
  proof (cases "length (pipe_contents p) < unat sz")
    case True
    obtain k' where k': "sleep_prepare k (current_process k) (p_wait_queue p) = Some k'" "sched_inv k'"
      by (rule sleep_facts [OF assms(1,2)]) blast
    then show ?thesis using that [of ?p k'] f True by (simp add: pipe_read_turn_def split_beta Let_def)
  next
    case False
    obtain k1 k' where k': "k_proc_process_wakeup_queue k (p_wait_queue ?p) = Some k1" "pipe_notify k1 ?p node VFS_EVENT_WRITE = Some k'"
      "sched_inv k'" "queues k' (p_wait_queue ?p) = []"
      using pipe_finish_ok [OF assms(1), of ?p node VFS_EVENT_WRITE] by blast
    then show ?thesis using that [of ?p k'] f False by (simp add: pipe_read_turn_def split_beta Let_def)
  qed
qed

section \<open>Properties\<close>

text \<open>
  C32: a turn of a pipe write puts into the buffer, behind what it holds, as many of the bytes as there is room
  for. If all fit, or the node does not block, the call returns the number of bytes transferred and
  every sleeper of the pipe is woken; otherwise the writer sleeps with the rest still to write. A
  read returns exactly the oldest bytes when enough are there and wakes the sleepers, sleeps with
  what it got when they are not, and fails with \<open>EAGAIN\<close>, taking nothing, on a node that does not
  block. The buffer never holds more than its size less one, and a removed pipe gives \<open>ENOENT\<close>.
\<close>

theorem pipe_transfers_in_order:
  assumes "sched_inv k" and "has_block k (current_process k)" and "pipe_ok p" and "free = pipe_cap p - length (pipe_contents p)"
  shows "(\<exists>k' p'. pipe_ok p' \<and> pipe_cap p' = pipe_cap p \<and> sched_inv k' \<and> pipe_contents p' = pipe_contents p @ take free rest \<and>
      pipe_write k (Some p) node md sz rest =
        Some (if free < length rest \<and> md AND O_NOBLOCK = 0 then Slept else Completed (sz - of_nat (length (drop free rest))) [],
          k', Some p', drop free rest) \<and>
      (\<not> (free < length rest \<and> md AND O_NOBLOCK = 0) \<longrightarrow> queues k' (p_wait_queue p) = [])) \<and>
    (\<exists>k' p'. pipe_ok p' \<and> pipe_cap p' = pipe_cap p \<and> sched_inv k' \<and>
      (if md AND O_NOBLOCK \<noteq> 0 \<and> length (pipe_contents p) < unat n
       then pipe_read k (Some p) node md n = Some (Completed (- EAGAIN) [], k, Some p, [])
       else pipe_contents p = take (unat n) (pipe_contents p) @ pipe_contents p' \<and>
         pipe_read k (Some p) node md n =
           Some (if length (pipe_contents p) < unat n then Slept else Completed n (take (unat n) (pipe_contents p)),
             k', Some p', take (unat n) (pipe_contents p)) \<and>
         (length (pipe_contents p) \<ge> unat n \<longrightarrow> queues k' (p_wait_queue p) = []))) \<and>
    length (pipe_contents p) \<le> pipe_cap p \<and>
    pipe_write k None node md sz rest = Some (Completed (- ENOENT) [], k, None, rest) \<and>
    pipe_read k None node md n = Some (Completed (- ENOENT) [], k, None, [])"
proof (intro conjI)
  obtain k' p' where w: "pipe_ok p'" "pipe_cap p' = pipe_cap p" "sched_inv k'" "pipe_contents p' = pipe_contents p @ take free rest"
    "if free < length rest \<and> md AND O_NOBLOCK = 0
     then pipe_write k (Some p) node md sz rest = Some (Slept, k', Some p', drop free rest) \<and>
       sleep_prepare k (current_process k) (p_wait_queue p) = Some k'
     else pipe_write k (Some p) node md sz rest = Some (Completed (sz - of_nat (length (drop free rest))) [], k', Some p', drop free rest) \<and>
       queues k' (p_wait_queue p) = []"
    by (rule pipe_write_turn [OF assms])
  show "\<exists>k' p'. pipe_ok p' \<and> pipe_cap p' = pipe_cap p \<and> sched_inv k' \<and> pipe_contents p' = pipe_contents p @ take free rest \<and>
      pipe_write k (Some p) node md sz rest =
        Some (if free < length rest \<and> md AND O_NOBLOCK = 0 then Slept else Completed (sz - of_nat (length (drop free rest))) [],
          k', Some p', drop free rest) \<and>
      (\<not> (free < length rest \<and> md AND O_NOBLOCK = 0) \<longrightarrow> queues k' (p_wait_queue p) = [])"
    by (intro exI [of _ k'] exI [of _ p'], cases "free < length rest \<and> md AND O_NOBLOCK = 0")
      (use w in \<open>simp_all only: if_True if_False simp_thms\<close>)
  obtain k1 p1 where r: "pipe_ok p1" "pipe_cap p1 = pipe_cap p" "sched_inv k1"
    "pipe_contents p = take (unat n) (pipe_contents p) @ pipe_contents p1"
    "pipe_read_turn k p node n [] = Some (if length (pipe_contents p) < unat n then Slept else Completed n (take (unat n) (pipe_contents p)),
       k1, p1, take (unat n) (pipe_contents p))"
    "length (pipe_contents p) \<ge> unat n \<longrightarrow> queues k1 (p_wait_queue p) = []"
    by (rule pipe_read_turn_ok [OF assms(1-3)])
  have av: "pipe_read_available p < n \<longleftrightarrow> length (pipe_contents p) < unat n"
    using pi.readable [OF assms(3)] by (simp add: word_less_nat_alt)
  show "\<exists>k' p'. pipe_ok p' \<and> pipe_cap p' = pipe_cap p \<and> sched_inv k' \<and>
      (if md AND O_NOBLOCK \<noteq> 0 \<and> length (pipe_contents p) < unat n
       then pipe_read k (Some p) node md n = Some (Completed (- EAGAIN) [], k, Some p, [])
       else pipe_contents p = take (unat n) (pipe_contents p) @ pipe_contents p' \<and>
         pipe_read k (Some p) node md n =
           Some (if length (pipe_contents p) < unat n then Slept else Completed n (take (unat n) (pipe_contents p)),
             k', Some p', take (unat n) (pipe_contents p)) \<and>
         (length (pipe_contents p) \<ge> unat n \<longrightarrow> queues k' (p_wait_queue p) = []))"
    by (intro exI [of _ k1] exI [of _ p1], cases "md AND O_NOBLOCK \<noteq> 0 \<and> length (pipe_contents p) < unat n")
      (use r av in \<open>auto simp: pipe_read_def\<close>)
qed (use pi.bounded [OF assms(3)] in \<open>simp_all add: pipe_write_def pipe_read_def\<close>)

definition small_pipe :: pipe where
  "small_pipe = fst (k_fs_pipe_create blank_kernel 4 100 116 132 148)"

lemma small_pipe_ok: "pipe_ok small_pipe" "pipe_cap small_pipe = 3" "pipe_contents small_pipe = []" "p_wait_queue small_pipe = 100"
  by (simp_all add: small_pipe_def k_fs_pipe_create_def pipe_ok_def pipe_cap_def pipe_contents_def pipe_len_def ring_len_def ring_def)

theorem pipe_transfers_in_order_witness:
  "\<exists>k' p'. pipe_write blank_kernel (Some small_pipe) 48 0 2 [7, 8] = Some (Completed 2 [], k', Some p', []) \<and> pipe_contents p' = [7, 8]"
proof -
  have h: "has_block blank_kernel (current_process blank_kernel)" by (simp add: has_block_def blank_kernel_def blank_process_def)
  have f: "3 = pipe_cap small_pipe - length (pipe_contents small_pipe)" by (simp add: small_pipe_ok)
  show ?thesis
    using pipe_transfers_in_order [OF blank_kernel_inv h small_pipe_ok(1) f, of "[7, 8]" 48 0 2 0] small_pipe_ok by auto
qed

text \<open>
  A writer that offers an empty pipe more bytes than it holds sleeps beside the reader that sleeps
  there: it fills the buffer and goes to sleep on the same queue without waking anybody, so the
  reader sleeps on although bytes are there, and nobody is left to wake either of them.
\<close>

theorem pipe_writer_sleeps_beside_reader:
  assumes "sched_inv k" and "has_block k w" and "w = current_process k" and "pipe_ok p" and "pipe_contents p = []"
    and "r \<in> set (queues k (p_wait_queue p))" and "pstate (procs k r) = PROCESS_STATE_SLEEPING" and "r \<noteq> w"
    and "pipe_cap p < length bytes" and "md AND O_NOBLOCK = 0"
  shows "\<exists>k' p'. pipe_write k (Some p) node md (of_nat (length bytes)) bytes = Some (Slept, k', Some p', drop (pipe_cap p) bytes) \<and>
    pipe_contents p' = take (pipe_cap p) bytes \<and> length (pipe_contents p') = pipe_cap p \<and>
    pstate (procs k' r) = PROCESS_STATE_SLEEPING \<and> pstate (procs k' w) = PROCESS_STATE_SLEEPING \<and>
    r \<in> set (queues k' (p_wait_queue p)) \<and> w \<in> set (queues k' (p_wait_queue p)) \<and> ready_queue k' = ready_queue k"
proof -
  have h: "has_block k (current_process k)" using assms(2,3) by simp
  have f: "pipe_cap p = pipe_cap p - length (pipe_contents p)" using assms(5) by simp
  obtain k' p' where t: "pipe_contents p' = pipe_contents p @ take (pipe_cap p) bytes"
    "if pipe_cap p < length bytes \<and> md AND O_NOBLOCK = 0
     then pipe_write k (Some p) node md (of_nat (length bytes)) bytes = Some (Slept, k', Some p', drop (pipe_cap p) bytes) \<and>
       sleep_prepare k (current_process k) (p_wait_queue p) = Some k'
     else pipe_write k (Some p) node md (of_nat (length bytes)) bytes =
         Some (Completed (of_nat (length bytes) - of_nat (length (drop (pipe_cap p) bytes))) [], k', Some p', drop (pipe_cap p) bytes) \<and>
       queues k' (p_wait_queue p) = []"
    by (rule pipe_write_turn [OF assms(1) h assms(4) f])
  obtain k2 where s: "sleep_prepare k w (p_wait_queue p) = Some k2" "queues k2 = (queues k)(p_wait_queue p := queues k (p_wait_queue p) @ [w])"
    "pstate (procs k2 w) = PROCESS_STATE_SLEEPING" "\<forall>r. r \<noteq> w \<longrightarrow> procs k2 r = procs k r" "ready_queue k2 = ready_queue k"
    by (rule sleep_facts [OF assms(1,2)])
  have e: "k' = k2" "pipe_write k (Some p) node md (of_nat (length bytes)) bytes = Some (Slept, k', Some p', drop (pipe_cap p) bytes)"
    using t(2) s(1) assms(3,9,10) by auto
  show ?thesis
    using e t(1) s assms(5-9) by (intro exI [of _ k'] exI [of _ p']) simp
qed

theorem pipe_writer_sleeps_beside_reader_witness:
  "\<exists>k' p'. pipe_write (two_asleep\<lparr>current_process := 7\<rparr>) (Some small_pipe) 48 0 4 [7, 8, 9, 10] = Some (Slept, k', Some p', [10]) \<and>
     pipe_contents p' = [7, 8, 9] \<and> pstate (procs k' 1) = PROCESS_STATE_SLEEPING \<and> ready_queue k' = []"
proof -
  let ?k = "two_asleep\<lparr>current_process := 7\<rparr>"
  have i: "sched_inv ?k" using two_asleep_inv by (simp add: sched_inv_def links_ok_def timers_ok_def)
  have a: "has_block ?k 7" "7 = current_process ?k" "1 \<in> set (queues ?k (p_wait_queue small_pipe))"
    "pstate (procs ?k 1) = PROCESS_STATE_SLEEPING" "(1 :: ptr) \<noteq> 7" "ready_queue ?k = []"
    by (simp_all add: has_block_def two_asleep_def sleeping_on_def blank_kernel_def blank_process_def small_pipe_ok)
  show ?thesis
    using pipe_writer_sleeps_beside_reader [OF i a(1,2) small_pipe_ok(1,3) a(3-5), of "[7, 8, 9, 10]" 0 48] a(6) small_pipe_ok(2) by auto
qed

end
