(* ===== verification/Tty.thy ===== *)
theory Tty
  imports Ringbuffer Lifecycle Numbers
begin

text \<open>
  Terminals, from \<^verbatim>\<open>kernel/src/dev/tty.c\<close>: the line discipline between a master (a terminal emulator
  or the virtual console) and a slave (the programs), reading and writing on both sides, the
  terminal control requests and the readiness interface. A character that goes through the line
  discipline causes a sequence of effects: bytes put into the input or the output ring buffer, the
  console callback, a signal to the foreground process. The functions return the terminal and
  these effects in the order the code performs them; \<open>tty_effect_step\<close> performs one on the scheduler and the
  ring buffers, where a full buffer makes the writer sleep; what other processes do to the terminal
  during such a sleep is not part of the model of the editing. The length of the line is a \<open>size_t\<close> that
  wraps around, and an access outside of the block of the line buffer has no result (\<open>None\<close>), so that a
  theorem with a result shows that there is none. A \<open>char\<close> is signed.
\<close>

section \<open>State\<close>

record termios =
  c_iflag :: u32
  c_oflag :: u32
  c_cflag :: u32
  c_lflag :: u32
  c_cc :: "u8 list"

record winsize =
  ws_rows :: u16
  ws_cols :: u16

record tty =
  tty_id :: u32
  master :: ptr
  slave :: ptr
  ws :: winsize
  ts :: termios
  in_buffer :: ringbuffer
  out_buffer :: ringbuffer
  master_sel_queues :: "ptr list"
  slave_sel_queues :: "ptr list"
  line_buffer :: "u8 list"
  line_length :: u32
  tty_flags :: u8
  fg_process :: u32
  is_pty :: bool

datatype tty_effect =
    PutIn u8
  | PutOut u8
  | VtCallback
  | SendSignal u32 int

abbreviation (input) PTY_BUFFER_SIZE :: u32 where "PTY_BUFFER_SIZE \<equiv> 4096"
abbreviation (input) TTY_FLAG_NEXTL :: u8 where "TTY_FLAG_NEXTL \<equiv> 1"
abbreviation (input) BRKINT :: u32 where "BRKINT \<equiv> 2"
abbreviation (input) ISTRIP :: u32 where "ISTRIP \<equiv> 32"
abbreviation (input) INLCR :: u32 where "INLCR \<equiv> 64"
abbreviation (input) IGNCR :: u32 where "IGNCR \<equiv> 128"
abbreviation (input) ICRNL :: u32 where "ICRNL \<equiv> 256"
abbreviation (input) IUCLC :: u32 where "IUCLC \<equiv> 512"
abbreviation (input) OPOST :: u32 where "OPOST \<equiv> 1"
abbreviation (input) OLCUC :: u32 where "OLCUC \<equiv> 2"
abbreviation (input) ONLCR :: u32 where "ONLCR \<equiv> 4"
abbreviation (input) OCRNL :: u32 where "OCRNL \<equiv> 8"
abbreviation (input) ONLRET :: u32 where "ONLRET \<equiv> 32"
abbreviation (input) ISIG :: u32 where "ISIG \<equiv> 1"
abbreviation (input) ICANON :: u32 where "ICANON \<equiv> 2"
abbreviation (input) ECHO :: u32 where "ECHO \<equiv> 8"
abbreviation (input) ECHOE :: u32 where "ECHOE \<equiv> 16"
abbreviation (input) ECHOK :: u32 where "ECHOK \<equiv> 32"
abbreviation (input) ECHONL :: u32 where "ECHONL \<equiv> 64"
abbreviation (input) ECHOCTL :: u32 where "ECHOCTL \<equiv> 128"
abbreviation (input) IEXTEN :: u32 where "IEXTEN \<equiv> 32768"
abbreviation (input) VINTR :: nat where "VINTR \<equiv> 1"
abbreviation (input) VQUIT :: nat where "VQUIT \<equiv> 2"
abbreviation (input) VERASE :: nat where "VERASE \<equiv> 3"
abbreviation (input) VKILL :: nat where "VKILL \<equiv> 4"
abbreviation (input) VEOF :: nat where "VEOF \<equiv> 5"
abbreviation (input) VMIN :: nat where "VMIN \<equiv> 6"
abbreviation (input) VEOL :: nat where "VEOL \<equiv> 7"
abbreviation (input) VSUSP :: nat where "VSUSP \<equiv> 13"
abbreviation (input) VLNEXT :: nat where "VLNEXT \<equiv> 15"
abbreviation (input) VWERASE :: nat where "VWERASE \<equiv> 16"

definition iflag :: "tty \<Rightarrow> u32 \<Rightarrow> bool" where
  "iflag t f \<longleftrightarrow> c_iflag (ts t) AND f \<noteq> 0"

definition oflag :: "tty \<Rightarrow> u32 \<Rightarrow> bool" where
  "oflag t f \<longleftrightarrow> c_oflag (ts t) AND f \<noteq> 0"

definition lflag :: "tty \<Rightarrow> u32 \<Rightarrow> bool" where
  "lflag t f \<longleftrightarrow> c_lflag (ts t) AND f \<noteq> 0"

text \<open>\<open>c == pty->ts.c_cc[v]\<close>: a signed \<open>char\<close> against an unsigned one.\<close>

definition is_cc :: "tty \<Rightarrow> u8 \<Rightarrow> nat \<Rightarrow> bool" where
  "is_cc t c v \<longleftrightarrow> sint c = uint (c_cc (ts t) ! v)"

text \<open>\<open>('@' + c) % 128\<close>.\<close>

definition caret_char :: "u8 \<Rightarrow> u8" where
  "caret_char c = of_int ((64 + sint c) smod 128)"

section \<open>The line discipline\<close>

definition putc_out :: "tty \<Rightarrow> u8 \<Rightarrow> tty_effect list" where
  "putc_out t c = PutOut c # (if is_pty t then [] else [VtCallback])"

definition process_output :: "tty \<Rightarrow> u8 \<Rightarrow> tty_effect list" where
  "process_output t c =
     (if \<not> oflag t OPOST then putc_out t c
      else let (pre, c1) = (if c = 10 then if oflag t ONLCR then ([PutOut 13], c) else if oflag t OCRNL then ([], 13) else ([], c)
                            else ([], c))
           in if c1 = 13 \<and> oflag t ONLRET then pre
              else let c2 = (if oflag t OLCUC \<and> islower (sint c1) then (if isupper (sint c1) then 1 else 0) else c1)
                   in pre @ putc_out t c2)"

text \<open>\<open>pty->line_buffer[i]\<close>, read and written.\<close>

definition line_at :: "tty \<Rightarrow> u32 \<Rightarrow> u8 option" where
  "line_at t i = (if unat i < length (line_buffer t) then Some (line_buffer t ! unat i) else None)"

definition line_set :: "tty \<Rightarrow> u32 \<Rightarrow> u8 \<Rightarrow> tty option" where
  "line_set t i c = (if unat i < length (line_buffer t) then Some (t\<lparr>line_buffer := (line_buffer t)[unat i := c]\<rparr>) else None)"

fun erase_loop :: "tty \<Rightarrow> nat \<Rightarrow> (tty \<times> tty_effect list) option" where
  "erase_loop t 0 = Some (t, [])"
| "erase_loop t (Suc n) = do {
     ctrl \<leftarrow> (if lflag t ECHOCTL then do { c \<leftarrow> line_at t (line_length t - 1); Some (iscntrl (sint c)) } else Some False);
     t1 \<leftarrow> line_set t (line_length t - 1) 0;
     let e1 = (if lflag t ECHO then process_output t 8 @ (if ctrl then process_output t 8 else []) else []);
     (t2, e2) \<leftarrow> erase_loop (t1\<lparr>line_length := line_length t1 - 1\<rparr>) n;
     Some (t2, e1 @ e2) }"

definition tty_erase :: "tty \<Rightarrow> u32 \<Rightarrow> (tty \<times> tty_effect list) option" where
  "tty_erase t n = erase_loop t (unat (if line_length t < n then line_length t else n))"

definition line_putc :: "tty \<Rightarrow> u8 \<Rightarrow> tty option" where
  "line_putc t c =
     (if line_length t < PTY_BUFFER_SIZE
      then do { t1 \<leftarrow> line_set t (line_length t) c; Some (t1\<lparr>line_length := line_length t1 + 1\<rparr>) } else Some t)"

text \<open>The loop of the flush, from index \<open>i\<close> on for \<open>n\<close> characters.\<close>

fun flush_loop :: "tty \<Rightarrow> u32 \<Rightarrow> nat \<Rightarrow> tty_effect list option" where
  "flush_loop t i 0 = Some []"
| "flush_loop t i (Suc n) = do { c \<leftarrow> line_at t i; es \<leftarrow> flush_loop t (i + 1) n; Some (PutIn c # es) }"

definition line_flush :: "tty \<Rightarrow> (tty \<times> tty_effect list) option" where
  "line_flush t = do { es \<leftarrow> flush_loop t 0 (unat (line_length t)); Some (t\<lparr>line_length := 0\<rparr>, es) }"

text \<open>The word erase: back to the last blank.\<close>

partial_function (option) word_erase :: "tty \<Rightarrow> (tty \<times> tty_effect list) option" where
  "word_erase t =
     (if line_length t \<noteq> 0
      then do {
        c \<leftarrow> line_at t (line_length t - 1);
        if c \<noteq> 32
        then do { (t1, e1) \<leftarrow> tty_erase t 1; (t2, e2) \<leftarrow> word_erase t1; Some (t2, e1 @ e2) }
        else Some (t, []) }
      else Some (t, []))"

definition echo_char :: "tty \<Rightarrow> u8 \<Rightarrow> tty_effect list" where
  "echo_char t c =
     (if lflag t ECHOCTL \<and> iscntrl (sint c) then process_output t 94 @ process_output t (caret_char c) else process_output t c)"

definition echo_caret :: "tty \<Rightarrow> u8 \<Rightarrow> tty_effect list" where
  "echo_caret t c = process_output t 94 @ process_output t (caret_char c)"

definition input_signal :: "tty \<Rightarrow> u8 \<Rightarrow> int option" where
  "input_signal t c =
     (if \<not> lflag t ISIG then None else if is_cc t c VINTR then Some 2 else if is_cc t c VQUIT then Some 3
      else if is_cc t c VSUSP then Some 20 else None)"

text \<open>The canonical mode, from the quoting character on.\<close>

definition canonical_input :: "tty \<Rightarrow> u8 \<Rightarrow> (tty \<times> tty_effect list) option" where
  "canonical_input t c0 =
     (if is_cc t c0 VLNEXT \<and> lflag t IEXTEN
      then Some (t\<lparr>tty_flags := tty_flags t OR TTY_FLAG_NEXTL\<rparr>, process_output t 94 @ process_output t 8)
      else
        let c = (if iflag t IUCLC \<and> lflag t IEXTEN \<and> isupper (sint c0) then of_int (tolower (sint c0)) else c0)
        in if lflag t ECHOE \<and> is_cc t c VERASE then tty_erase t 1
           else if lflag t ECHOE \<and> is_cc t c VWERASE
           then (if \<not> lflag t IEXTEN then Some (t, echo_caret t c) else word_erase t)
           else if \<not> lflag t ECHOE \<and> lflag t ECHOCTL \<and> (is_cc t c VERASE \<or> is_cc t c VWERASE) then Some (t, echo_caret t c)
           else if is_cc t c VKILL
           then (if lflag t ECHOK then tty_erase t (line_length t)
                 else if lflag t ECHOCTL then Some (t, echo_caret t c) else Some (t, []))
           else if is_cc t c VEOF then line_flush t
           else do {
             t1 \<leftarrow> line_putc t c;
             let e1 = (if lflag t ECHO then echo_char t c else []);
             if c = 10 \<or> is_cc t c VEOL
             then do {
               let e2 = (if \<not> lflag t ECHO \<and> lflag t ECHONL then process_output t c else []);
               t2 \<leftarrow> line_set t1 (line_length t1 - 1) c;
               (t3, e3) \<leftarrow> line_flush t2;
               Some (t3, e1 @ e2 @ e3) }
             else Some (t1, e1) })"

definition process_input :: "tty \<Rightarrow> u8 \<Rightarrow> (tty \<times> tty_effect list) option" where
  "process_input t c0 =
     (if tty_flags t AND TTY_FLAG_NEXTL \<noteq> 0
      then do {
        t1 \<leftarrow> line_putc (t\<lparr>tty_flags := tty_flags t AND NOT TTY_FLAG_NEXTL\<rparr>) c0;
        Some (t1, if lflag t ECHO then echo_char t c0 else []) }
      else case input_signal t c0 of
        Some sig \<Rightarrow>
          Some (t, (if lflag t ECHOCTL then echo_caret t c0 else []) @ (if sint (fg_process t) > 0 then [SendSignal (fg_process t) sig] else []))
      | None \<Rightarrow>
          let c1 = (if iflag t ISTRIP then c0 AND 0x7F else c0)
          in if iflag t IGNCR \<and> c1 = 13 then Some (t, [])
             else let c = (if iflag t INLCR \<and> c1 = 10 then 13 else if iflag t ICRNL \<and> c1 = 13 then 10 else c1)
                  in if lflag t ICANON then canonical_input t c
                     else Some (t, (if lflag t ECHO then process_output t c else []) @ [PutIn c]))"

section \<open>Reading and writing\<close>

text \<open>How much a read from the slave asks the input buffer for.\<close>

definition slave_read_size :: "tty \<Rightarrow> u32 \<Rightarrow> u32" where
  "slave_read_size t sz =
     (if \<not> lflag t ICANON
      then if c_cc (ts t) ! VMIN = 0
           then (if sz < ringbuffer_read_available (in_buffer t) then ringbuffer_read_available (in_buffer t) else sz)
           else (if sz < ucast (c_cc (ts t) ! VMIN) then ucast (c_cc (ts t) ! VMIN) else sz)
      else sz)"

definition pty_read :: "kernel \<Rightarrow> tty \<Rightarrow> bool \<Rightarrow> u32 \<Rightarrow> (io_turn \<times> kernel \<times> tty) option" where
  "pty_read k t is_master sz =
     (if is_master
      then do { (r, k1, rb) \<leftarrow> ringbuffer_read k (out_buffer t) sz; Some (r, k1, t\<lparr>out_buffer := rb\<rparr>) }
      else do { (r, k1, rb) \<leftarrow> ringbuffer_read k (in_buffer t) (slave_read_size t sz); Some (r, k1, t\<lparr>in_buffer := rb\<rparr>) })"

fun write_master :: "tty \<Rightarrow> u8 list \<Rightarrow> (tty \<times> tty_effect list) option" where
  "write_master t [] = Some (t, [])"
| "write_master t (c # cs) = do { (t1, e1) \<leftarrow> process_input t c; (t2, e2) \<leftarrow> write_master t1 cs; Some (t2, e1 @ e2) }"

definition write_slave :: "tty \<Rightarrow> u8 list \<Rightarrow> tty_effect list" where
  "write_slave t cs = concat (map (process_output t) cs)"

definition pty_write :: "tty \<Rightarrow> bool \<Rightarrow> u8 list \<Rightarrow> (tty \<times> tty_effect list) option" where
  "pty_write t is_master cs = (if is_master then write_master t cs else Some (t, write_slave t cs))"

text \<open>
  One effect. A byte for a full buffer leaves the effect to be done again after the sleep; the
  console callback is code of \<^verbatim>\<open>vt.c\<close> and is the argument \<open>cb\<close>.
\<close>

definition tty_effect_step :: "(kernel \<times> tty \<Rightarrow> kernel \<times> tty) \<Rightarrow> kernel \<Rightarrow> tty \<Rightarrow> tty_effect \<Rightarrow> (io_turn \<times> kernel \<times> tty) option" where
  "tty_effect_step cb k t e =
     (case e of
        PutIn c \<Rightarrow> do { (r, k1, rb) \<leftarrow> ringbuffer_write k (in_buffer t) [c]; Some (r, k1, t\<lparr>in_buffer := rb\<rparr>) }
      | PutOut c \<Rightarrow> do { (r, k1, rb) \<leftarrow> ringbuffer_write k (out_buffer t) [c]; Some (r, k1, t\<lparr>out_buffer := rb\<rparr>) }
      | VtCallback \<Rightarrow> (let (k1, t1) = cb (k, t) in Some (Completed 0 [], k1, t1))
      | SendSignal n sig \<Rightarrow>
          (let p = k_proc_process_find_by_pid k n
           in if p = NULL then Some (Completed 0 [], k, t)
              else do { k1 \<leftarrow> k_proc_process_send_signal k p sig; Some (Completed 0 [], k1, t) }))"

section \<open>Readiness, control and creation\<close>

definition tty_event2index :: "u8 \<Rightarrow> int" where
  "tty_event2index event = (if event = 1 then 0 else if event = 2 then 1 else if event = 4 then 2 else - 22)"

definition check_master :: "tty \<Rightarrow> u8 \<Rightarrow> bool" where
  "check_master t event =
     (if event = 1 then ringbuffer_read_available (out_buffer t) > 0
      else if event = 2 then ringbuffer_write_available (in_buffer t) > 0 else False)"

definition check_slave :: "tty \<Rightarrow> u8 \<Rightarrow> bool" where
  "check_slave t event =
     (if event = 1 then ringbuffer_read_available (in_buffer t) > 0
      else if event = 2 then ringbuffer_write_available (out_buffer t) > 0 else False)"

definition tty_check :: "tty option \<Rightarrow> ptr \<Rightarrow> u8 \<Rightarrow> bool" where
  "tty_check dev node event =
     (case dev of None \<Rightarrow> False | Some t \<Rightarrow> if node = master t then check_master t event else check_slave t event)"

text \<open>An unknown event indexes the queue array with a negative number: the result is \<open>None\<close>.\<close>

definition tty_wait :: "kernel \<Rightarrow> tty option \<Rightarrow> ptr \<Rightarrow> u8 \<Rightarrow> ptr \<Rightarrow> (int \<times> kernel) option" where
  "tty_wait k dev node event prc =
     (case dev of None \<Rightarrow> Some (0, k)
      | Some t \<Rightarrow>
          let idx = tty_event2index event
          in if idx < 0 then None
             else let q = (if node = master t then master_sel_queues t else slave_sel_queues t) ! nat idx
                  in if prc \<notin> set (queues k q) then do { k1 \<leftarrow> k_proc_process_own_block k prc q; Some (0, k1) } else Some (0, k))"

text \<open>
  The control requests. \<open>valid\<close> is \<open>IS_VALID_PTR(args)\<close>, \<open>arg_ts\<close> and \<open>arg_pid\<close> what is there; the last component
  is what the request stores through \<open>args\<close>.
\<close>

datatype ioctl_out =
    NoOut
  | OutTermios termios
  | OutPid u32

definition tty_ioctl ::
  "tty option \<Rightarrow> u32 \<Rightarrow> bool \<Rightarrow> termios \<Rightarrow> u32 \<Rightarrow> (int \<times> tty option \<times> tty_effect list \<times> ioctl_out) option" where
  "tty_ioctl dev req valid arg_ts arg_pid =
     (case dev of None \<Rightarrow> Some (- 19, None, [], NoOut)
      | Some t \<Rightarrow>
          if req = 0x5401 then Some (if valid then (0, Some t, [], OutTermios (ts t)) else (- 22, Some t, [], NoOut))
          else if req = 0x5043 \<or> req = 0x5044 \<or> req = 0x5402
          then if \<not> valid then Some (- 22, Some t, [], NoOut)
               else do {
                 (t1, e) \<leftarrow> (if lflag t ICANON \<and> c_lflag arg_ts AND ICANON = 0 then line_flush t else Some (t, []));
                 Some (0, Some (t1\<lparr>ts := arg_ts\<rparr>), e, NoOut) }
          else if req = 0x400A then Some (if valid then (0, Some t, [], OutPid (fg_process t)) else (- 22, Some t, [], NoOut))
          else if req = 0x400B then Some (if valid then (0, Some (t\<lparr>fg_process := arg_pid\<rparr>), [], NoOut) else (- 22, Some t, [], NoOut))
          else Some (- 22, Some t, [], NoOut))"

text \<open>The settings of a new terminal; the line buffer is a new block of the heap.\<close>

definition sane_cc :: "u8 list" where
  "sane_cc = [0, 3, 28, 0x7f, 21, 4, 1, 0, 0, 0, 0, 17, 19, 26, 0, 22, 23, 0, 0, 0]"

definition sane_termios :: termios where
  "sane_termios = \<lparr>c_iflag = ICRNL OR BRKINT, c_oflag = ONLCR OR OPOST, c_cflag = 512 OR 192,
     c_lflag = ECHO OR ECHOE OR ECHOK OR ICANON OR ISIG OR IEXTEN, c_cc = sane_cc\<rparr>"

definition tty_create ::
  "kernel \<Rightarrow> u32 \<Rightarrow> winsize \<Rightarrow> bool \<Rightarrow> ptr \<Rightarrow> ptr \<Rightarrow> u8 list \<Rightarrow> u8 list \<Rightarrow> u8 list \<Rightarrow> ptr list \<Rightarrow> ptr list \<Rightarrow> ptr list \<Rightarrow> tty \<times> kernel" where
  "tty_create k n w pseudo m s blk_in blk_out blk_line rbq mq sq =
     (let (rb_in, k1) = ringbuffer_create blk_in 4096 (rbq ! 0) (rbq ! 1) k;
          (rb_out, k2) = ringbuffer_create blk_out 4096 (rbq ! 2) (rbq ! 3) k1;
          k3 = foldl (\<lambda>k q. set_queue k q []) k2 (mq @ sq)
      in (\<lparr>tty_id = n, master = m, slave = s, ws = w, ts = sane_termios, in_buffer = rb_in, out_buffer = rb_out,
           master_sel_queues = mq, slave_sel_queues = sq, line_buffer = blk_line, line_length = 0, tty_flags = 0,
           fg_process = 0, is_pty = pseudo\<rparr>, k3))"

text \<open>A name in the directory of pseudo terminals: its number, with the wrap-around of 32 bits.\<close>

fun pts_number :: "u8 list \<Rightarrow> u32 \<Rightarrow> u32 option" where
  "pts_number [] n = Some n"
| "pts_number (c # cs) n = (if sint c > 57 \<or> sint c < 48 then None else pts_number cs (n * 10 + of_int (sint c) - 48))"

definition pty_root_finddir :: "tty list \<Rightarrow> u8 list \<Rightarrow> ptr" where
  "pty_root_finddir ptys path =
     (case pts_number path 0 of None \<Rightarrow> NULL
      | Some n \<Rightarrow> (case find (\<lambda>t. tty_id t = n) ptys of None \<Rightarrow> NULL | Some t \<Rightarrow> slave t))"

section \<open>Bounds of the line buffer\<close>

text \<open>The block of the line buffer has room for the longest line and two more bytes.\<close>

definition tty_ok :: "tty \<Rightarrow> bool" where
  "tty_ok t \<longleftrightarrow> length (line_buffer t) = 4098 \<and> line_length t \<le> PTY_BUFFER_SIZE"

definition line :: "tty \<Rightarrow> u8 list" where
  "line t = take (unat (line_length t)) (line_buffer t)"

text \<open>The part of a terminal the line discipline never changes.\<close>

definition same_setup :: "tty \<Rightarrow> tty \<Rightarrow> bool" where
  "same_setup t t' \<longleftrightarrow> ts t' = ts t \<and> is_pty t' = is_pty t \<and> fg_process t' = fg_process t \<and> master t' = master t \<and> slave t' = slave t"

lemma same_setup_refl [simp]: "same_setup t t"
  by (simp add: same_setup_def)

lemma same_setup_trans [trans]: "same_setup a b \<Longrightarrow> same_setup b c \<Longrightarrow> same_setup a c"
  by (simp add: same_setup_def)

lemma tty_ok_length: "tty_ok t \<Longrightarrow> unat (line_length t) \<le> 4096 \<and> length (line_buffer t) = 4098"
  by (simp add: tty_ok_def word_le_nat_alt)

lemma length_line: "tty_ok t \<Longrightarrow> length (line t) = unat (line_length t)"
  using tty_ok_length [of t] by (simp add: line_def)

text \<open>The bytes that go to the input buffer.\<close>

fun delivered :: "tty_effect list \<Rightarrow> u8 list" where
  "delivered [] = []"
| "delivered (PutIn c # es) = c # delivered es"
| "delivered (_ # es) = delivered es"

lemma delivered_append [simp]: "delivered (es @ fs) = delivered es @ delivered fs"
  by (induction es rule: delivered.induct) auto

lemma delivered_output [simp]:
  "delivered (process_output t c) = []" "delivered (echo_char t c) = []" "delivered (echo_caret t c) = []"
proof -
  show o: "delivered (process_output t c) = []" for c by (simp add: process_output_def putc_out_def Let_def)
  show "delivered (echo_char t c) = []" "delivered (echo_caret t c) = []" by (simp_all add: echo_char_def echo_caret_def o)
qed

lemma delivered_map [simp]: "delivered (map PutIn xs) = xs"
  by (induction xs) auto

text \<open>An operation of the editor: it has a result, leaves the line \<open>l\<close>, delivers \<open>d\<close> and keeps the rest.\<close>

definition edits :: "tty \<Rightarrow> (tty \<times> tty_effect list) option \<Rightarrow> u8 list \<Rightarrow> u8 list \<Rightarrow> bool" where
  "edits t r l d \<longleftrightarrow> (\<exists>t' es. r = Some (t', es) \<and> tty_ok t' \<and> same_setup t t' \<and> tty_flags t' = tty_flags t \<and> line t' = l \<and> delivered es = d)"

lemma editsE:
  assumes "edits t r l d"
  obtains t' es where "r = Some (t', es)" "tty_ok t'" "same_setup t t'" "tty_flags t' = tty_flags t" "line t' = l" "delivered es = d"
  using assms by (auto simp: edits_def)

lemma edits_stay [simp]: "edits t (Some (t, es)) l d \<longleftrightarrow> tty_ok t \<and> line t = l \<and> delivered es = d"
  by (simp add: edits_def)

lemma line_putc_ok:
  assumes "tty_ok t"
  obtains t' where "line_putc t c = Some t'" "tty_ok t'" "same_setup t t'" "tty_flags t' = tty_flags t"
    "line t' = (if length (line t) < 4096 then line t @ [c] else line t)" "line_length t' \<noteq> 0"
proof (cases "line_length t < PTY_BUFFER_SIZE")
  case True
  let ?t = "t\<lparr>line_buffer := (line_buffer t)[unat (line_length t) := c], line_length := line_length t + 1\<rparr>"
  have lt: "unat (line_length t) < 4096" using True by (simp add: word_less_nat_alt)
  have u: "unat (line_length t + 1) = Suc (unat (line_length t))" using lt by (simp add: unat_Suc32)
  have "line_putc t c = Some ?t" using True lt tty_ok_length [OF assms] by (simp add: line_putc_def line_set_def)
  moreover have "tty_ok ?t" using lt u tty_ok_length [OF assms] by (simp add: tty_ok_def word_le_nat_alt)
  moreover have "line ?t = (if length (line t) < 4096 then line t @ [c] else line t)"
    using lt u length_line [OF assms] tty_ok_length [OF assms] by (simp add: line_def take_Suc_conv_app_nth)
  moreover have "line_length ?t \<noteq> 0" using u by auto
  ultimately show ?thesis by (intro that [of ?t]) (simp_all add: same_setup_def)
next
  case False
  then have "line_length t = 4096" using assms by (simp add: tty_ok_def)
  moreover from this have "unat (line_length t) = 4096" by simp
  ultimately show ?thesis using False assms length_line [OF assms] by (intro that [of t]) (simp_all add: line_putc_def)
qed

lemma flush_loop_ok:
  "unat i + n \<le> length (line_buffer t) \<Longrightarrow> length (line_buffer t) = 4098 \<Longrightarrow>
   flush_loop t i n = Some (map PutIn (take n (drop (unat i) (line_buffer t))))"
proof (induction n arbitrary: i)
  case (Suc n)
  have u: "unat (i + 1) = Suc (unat i)" using Suc(2,3) by (simp add: unat_Suc32)
  have "drop (unat i) (line_buffer t) = line_buffer t ! unat i # drop (Suc (unat i)) (line_buffer t)"
    using Suc(2) by (intro Cons_nth_drop_Suc [symmetric]) simp
  then show ?case using Suc(1) [of "i + 1"] Suc(2,3) u by (simp add: line_at_def)
qed simp

lemma line_flush_ok: "tty_ok t \<Longrightarrow> edits t (line_flush t) [] (line t)"
  using flush_loop_ok [of 0 "unat (line_length t)" t] tty_ok_length [of t]
  by (simp add: line_flush_def edits_def tty_ok_def same_setup_def line_def)

lemma erase_loop_ok:
  "tty_ok t \<Longrightarrow> n \<le> unat (line_length t) \<Longrightarrow> edits t (erase_loop t n) (take (unat (line_length t) - n) (line t)) []"
proof (induction n arbitrary: t)
  case 0
  then show ?case using length_line [OF 0(1)] by simp
next
  case (Suc n)
  let ?k = "unat (line_length t)"
  let ?t = "t\<lparr>line_buffer := (line_buffer t)[?k - 1 := 0], line_length := line_length t - 1\<rparr>"
  have nz: "line_length t \<noteq> 0" using Suc(3) by auto
  then have u: "unat (line_length t - 1) = ?k - 1" by (rule unat_minus_one)
  have k: "0 < ?k" "?k \<le> 4096" "length (line_buffer t) = 4098" using Suc(3) tty_ok_length [OF Suc(2)] by auto
  have ok: "tty_ok ?t" "n \<le> unat (line_length ?t)" using Suc(3) k u by (simp_all add: tty_ok_def word_le_nat_alt)
  have s: "same_setup t ?t" "tty_flags ?t = tty_flags t" by (simp_all add: same_setup_def)
  have l: "line ?t = take (?k - 1) (line t)" using k u by (simp add: line_def min_def)
  obtain t' es where r: "erase_loop ?t n = Some (t', es)" "tty_ok t'" "same_setup ?t t'" "tty_flags t' = tty_flags ?t"
    "line t' = take (unat (line_length ?t) - n) (line ?t)" "delivered es = []"
    using Suc(1) [OF ok] by (rule editsE)
  have acc: "line_set t (line_length t - 1) 0 = Some (t\<lparr>line_buffer := (line_buffer t)[?k - 1 := 0]\<rparr>)" "line_at t (line_length t - 1) = Some (line_buffer t ! (?k - 1))"
    using k u by (simp_all add: line_set_def line_at_def)
  have "\<exists>es'. erase_loop t (Suc n) = Some (t', es') \<and> delivered es' = []" using r(1,6) by (simp add: acc)
  moreover have "line t' = take (?k - Suc n) (line t)" using r(5) l u by (simp add: min_def)
  moreover have "tty_flags t' = tty_flags t" using r(4) s(2) by (rule trans)
  ultimately show ?case using r(2) same_setup_trans [OF s(1) r(3)] by (auto simp: edits_def)
qed

lemma tty_erase_ok: "tty_ok t \<Longrightarrow> edits t (tty_erase t n) (take (length (line t) - unat n) (line t)) []"
  using erase_loop_ok [of t "unat (if line_length t < n then line_length t else n)"] length_line [of t]
  by (auto simp: tty_erase_def word_less_nat_alt split: if_splits)

lemma last_line: "tty_ok t \<Longrightarrow> line_length t \<noteq> 0 \<Longrightarrow> line t \<noteq> [] \<and> line_at t (line_length t - 1) = Some (last (line t))"
proof -
  assume a: "tty_ok t" "line_length t \<noteq> 0"
  have u: "unat (line_length t - 1) = unat (line_length t) - 1" "0 < unat (line_length t)" using a(2) by (simp_all add: unat_minus_one unat_gt_0)
  then have ne: "line t \<noteq> []" using length_line [OF a(1)] by auto
  have "last (line t) = line t ! (unat (line_length t) - 1)" using ne length_line [OF a(1)] by (simp add: last_conv_nth)
  also have "\<dots> = line_buffer t ! (unat (line_length t) - 1)" using u(2) by (simp add: line_def)
  finally show ?thesis using ne u tty_ok_length [OF a(1)] by (auto simp: line_at_def)
qed

lemma drop_word_step: "ws \<noteq> [] \<Longrightarrow> last ws \<noteq> 32 \<Longrightarrow> dropWhile (\<lambda>c. c \<noteq> 32) (rev ws) = dropWhile (\<lambda>c. c \<noteq> 32) (rev (butlast ws))" for ws :: "u8 list"
  by (cases ws rule: rev_cases) simp_all

lemma word_erase_ok: "tty_ok t \<Longrightarrow> edits t (word_erase t) (rev (dropWhile (\<lambda>c. c \<noteq> 32) (rev (line t)))) []"
proof (induction "length (line t)" arbitrary: t rule: less_induct)
  case less
  show ?case
  proof (cases "line_length t = 0")
    case True
    then have "line t = []" by (simp add: line_def)
    then show ?thesis using True less(2) by (subst word_erase.simps) simp
  next
    case nz: False
    note l = last_line [OF less(2) nz]
    show ?thesis
    proof (cases "last (line t) = 32")
      case True
      then have "dropWhile (\<lambda>c. c \<noteq> 32) (rev (line t)) = rev (line t)" using l by (cases "line t" rule: rev_cases) auto
      then show ?thesis using True l nz less(2) by (subst word_erase.simps) simp
    next
      case False
      obtain t1 e1 where e: "tty_erase t 1 = Some (t1, e1)" "tty_ok t1" "same_setup t t1" "tty_flags t1 = tty_flags t"
        "line t1 = take (length (line t) - unat (1 :: u32)) (line t)" "delivered e1 = []" using tty_erase_ok [OF less(2), of 1] by (rule editsE)
      have b: "line t1 = butlast (line t)" using e(5) by (simp add: butlast_conv_take)
      have "length (line t1) < length (line t)" using b l by simp
      from less(1) [OF this e(2)] obtain t2 e2 where w: "word_erase t1 = Some (t2, e2)" "tty_ok t2" "same_setup t1 t2" "tty_flags t2 = tty_flags t1"
        "line t2 = rev (dropWhile (\<lambda>c. c \<noteq> 32) (rev (line t1)))" "delivered e2 = []" by (rule editsE)
      have "word_erase t = Some (t2, e1 @ e2)" using False l nz e(1) w(1) by (subst word_erase.simps) simp
      then show ?thesis using drop_word_step [of "line t"] False l b w e same_setup_trans [OF e(3) w(3)] by (simp add: edits_def)
    qed
  qed
qed

text \<open>The end of a line: the last character is put once more, and the line goes to the reader.\<close>

lemma line_end_ok:
  assumes ok: "tty_ok t"
  obtains t1 t2 where "line_putc t c = Some t1" "line_set t1 (line_length t1 - 1) c = Some t2"
    "tty_ok t2" "line t2 = take 4095 (line t) @ [c]" "same_setup t t2" "tty_flags t2 = tty_flags t"
proof -
  obtain u where p: "line_putc t c = Some u" "tty_ok u" "same_setup t u" "tty_flags u = tty_flags t"
    "line u = (if length (line t) < 4096 then line t @ [c] else line t)" "line_length u \<noteq> 0"
    using line_putc_ok [OF ok] .
  define n where "n = unat (line_length u) - 1"
  have n: "unat (line_length u - 1) = n" "unat (line_length u) = Suc n" using p(6) by (simp_all add: n_def unat_minus_one unat_gt_0)
  have len: "Suc n \<le> 4096" "length (line_buffer u) = 4098" using tty_ok_length [OF p(2)] n(2) by auto
  let ?v = "u\<lparr>line_buffer := (line_buffer u)[n := c]\<rparr>"
  have "line ?v = (take (Suc n) (line_buffer u))[n := c]" using n by (simp add: line_def take_update_swap)
  also have "\<dots> = butlast (line u) @ [c]" using len n by (simp add: line_def take_Suc_conv_app_nth list_update_append butlast_append)
  also have "butlast (line u) = take 4095 (line t)"
    using p(5) length_line [OF ok] tty_ok_length [OF ok] by (auto simp: butlast_conv_take)
  finally have "line ?v = take 4095 (line t) @ [c]" .
  moreover have "line_set u (line_length u - 1) c = Some ?v" using n len by (simp add: line_set_def)
  moreover have "tty_ok ?v" "same_setup t ?v" "tty_flags ?v = tty_flags t" using p(2-4) by (simp_all add: tty_ok_def same_setup_def)
  ultimately show thesis using that p(1) by blast
qed

text \<open>Every character: there is a result, and the line is within its bounds again.\<close>

definition safe :: "tty \<Rightarrow> (tty \<times> tty_effect list) option \<Rightarrow> bool" where
  "safe t r \<longleftrightarrow> (\<exists>t' es. r = Some (t', es) \<and> tty_ok t' \<and> same_setup t t')"

lemma edits_safe: "edits t r l d \<Longrightarrow> safe t r"
  by (auto simp: edits_def safe_def)

lemma safe_stay [simp]: "safe t (Some (t, es)) \<longleftrightarrow> tty_ok t"
  by (simp add: safe_def)

lemma safe_if: "(b \<Longrightarrow> safe t x) \<Longrightarrow> (\<not> b \<Longrightarrow> safe t y) \<Longrightarrow> safe t (if b then x else y)"
  by simp

lemma canonical_input_ok:
  assumes "tty_ok t"
  shows "safe t (canonical_input t c)"
proof -
  have n: "safe t (Some (t\<lparr>tty_flags := f\<rparr>, es))" for f es using assms by (simp add: safe_def tty_ok_def same_setup_def)
  have tail: "safe t (do { t1 \<leftarrow> line_putc t c;
      if b then do { t2 \<leftarrow> line_set t1 (line_length t1 - 1) c; (t3, e3) \<leftarrow> line_flush t2; Some (t3, es @ fs @ e3) } else Some (t1, es) })" for b c es fs
  proof (cases b)
    case True
    obtain t1 t2 where e: "line_putc t c = Some t1" "line_set t1 (line_length t1 - 1) c = Some t2" "tty_ok t2" "same_setup t t2"
      using line_end_ok [OF assms] by metis
    obtain t3 e3 where f: "line_flush t2 = Some (t3, e3)" "tty_ok t3" "same_setup t2 t3" using line_flush_ok [OF e(3)] by (rule editsE)
    show ?thesis using True e f same_setup_trans [OF e(4) f(3)] by (simp add: safe_def)
  next
    case False
    obtain t1 where "line_putc t c = Some t1" "tty_ok t1" "same_setup t t1" using line_putc_ok [OF assms] by metis
    then show ?thesis using False by (simp add: safe_def)
  qed
  note ops = edits_safe [OF tty_erase_ok [OF assms]] edits_safe [OF word_erase_ok [OF assms]] edits_safe [OF line_flush_ok [OF assms]]
  show ?thesis unfolding canonical_input_def Let_def by (intro safe_if n tail ops) (simp_all add: assms)
qed

lemma process_input_ok:
  assumes "tty_ok t"
  shows "safe t (process_input t c)"
proof -
  have n: "tty_ok (t\<lparr>tty_flags := f\<rparr>)" "same_setup t (t\<lparr>tty_flags := f\<rparr>)" for f using assms by (simp_all add: tty_ok_def same_setup_def)
  have "safe t (do { t1 \<leftarrow> line_putc (t\<lparr>tty_flags := f\<rparr>) c; Some (t1, es) })" for f es
    using line_putc_ok [OF n(1), of f c] same_setup_trans [OF n(2)] by (metis bind.bind_lunit safe_def)
  then show ?thesis
    using assms canonical_input_ok [OF assms] by (auto simp: process_input_def Let_def split: option.splits)
qed

lemma write_master_ok: "tty_ok t \<Longrightarrow> safe t (write_master t cs)"
proof (induction cs arbitrary: t)
  case (Cons c cs)
  obtain t1 e1 where p: "process_input t c = Some (t1, e1)" "tty_ok t1" "same_setup t t1" using process_input_ok [OF Cons(2), of c] by (auto simp: safe_def)
  obtain t2 e2 where w: "write_master t1 cs = Some (t2, e2)" "tty_ok t2" "same_setup t1 t2" using Cons(1) [OF p(2)] by (auto simp: safe_def)
  show ?case using p w same_setup_trans [OF p(3) w(3)] by (simp add: safe_def)
qed simp

section \<open>The default settings\<close>

lemma sint_u8_eq: "unat k < 128 \<Longrightarrow> sint c = uint k \<longleftrightarrow> c = k" for c k :: u8
proof -
  assume k: "unat k < 128"
  then have "0 \<le> sint k" by (subst sint_nonneg_iff) simp
  moreover have "sint k < 2 ^ 8" using sint_lt [of k] by simp
  ultimately have "sint k = uint k" using uint_sint [of k] by (simp add: take_bit_int_eq_self)
  then have "sint c = uint k \<longleftrightarrow> sint c = sint k" by simp
  then show ?thesis by (auto dest: signed_word_eqI)
qed

lemma sane_cc_simps:
  assumes "ts t = sane_termios"
  shows "is_cc t c (Suc 0) \<longleftrightarrow> c = 3" "is_cc t c VQUIT \<longleftrightarrow> c = 28" "is_cc t c VSUSP \<longleftrightarrow> c = 26" "is_cc t c VLNEXT \<longleftrightarrow> c = 22"
    "is_cc t c VERASE \<longleftrightarrow> c = 127" "is_cc t c VWERASE \<longleftrightarrow> c = 23" "is_cc t c VKILL \<longleftrightarrow> c = 21" "is_cc t c VEOF \<longleftrightarrow> c = 4"
    "is_cc t c VEOL \<longleftrightarrow> c = 0"
  unfolding is_cc_def assms sane_termios_def sane_cc_def termios.simps
  using sint_u8_eq [of 3 c] sint_u8_eq [of 28 c] sint_u8_eq [of 26 c] sint_u8_eq [of 22 c] sint_u8_eq [of 127 c] sint_u8_eq [of 23 c]
    sint_u8_eq [of 21 c] sint_u8_eq [of 4 c] sint_u8_eq [of 0 c]
  by simp_all

lemma sane_flags:
  assumes "ts t = sane_termios"
  shows "lflag t ISIG" "lflag t ICANON" "lflag t ECHO" "lflag t ECHOE" "lflag t ECHOK" "lflag t IEXTEN" "\<not> lflag t ECHOCTL"
    "\<not> iflag t ISTRIP" "\<not> iflag t IGNCR" "\<not> iflag t INLCR" "iflag t ICRNL" "\<not> iflag t IUCLC"
    "oflag t OPOST" "oflag t ONLCR" "\<not> oflag t OCRNL" "\<not> oflag t ONLRET" "\<not> oflag t OLCUC"
  by (simp_all add: lflag_def iflag_def oflag_def assms sane_termios_def)

text \<open>
  The line editing a user of the default settings relies on, on the line alone: what a character
  does to the line and to the mark that the next character is taken literally, and the bytes it
  delivers to the reader.
\<close>

definition canon_step :: "u8 list \<times> bool \<Rightarrow> u8 \<Rightarrow> (u8 list \<times> bool) \<times> u8 list" where
  "canon_step st c0 =
     (let (l, quoted) = st; c = (if c0 = 13 then 10 else c0);
          add = (\<lambda>c. if length l < 4096 then l @ [c] else l)
      in if quoted then ((add c0, False), [])
         else if c0 = 3 \<or> c0 = 28 \<or> c0 = 26 then ((l, False), [])
         else if c = 22 then ((l, True), [])
         else if c = 127 then ((butlast l, False), [])
         else if c = 23 then ((rev (dropWhile (\<lambda>x. x \<noteq> 32) (rev l)), False), [])
         else if c = 21 then (([], False), [])
         else if c = 4 then (([], False), l)
         else if c = 10 \<or> c = 0 then (([], False), take 4095 l @ [c])
         else ((add c, False), []))"

fun canon_run :: "u8 list \<times> bool \<Rightarrow> u8 list \<Rightarrow> (u8 list \<times> bool) \<times> u8 list" where
  "canon_run st [] = (st, [])"
| "canon_run st (c # cs) = (let (st1, d1) = canon_step st c; (st2, d2) = canon_run st1 cs in (st2, d1 @ d2))"

definition abs_line :: "tty \<Rightarrow> u8 list \<times> bool" where
  "abs_line t = (line t, tty_flags t AND TTY_FLAG_NEXTL \<noteq> 0)"
text \<open>The editor does what the abstract one says.\<close>

definition does :: "(tty \<times> tty_effect list) option \<Rightarrow> (u8 list \<times> bool) \<times> u8 list \<Rightarrow> bool" where
  "does r x \<longleftrightarrow> (\<exists>t es. r = Some (t, es) \<and> (abs_line t, delivered es) = x)"

lemma edits_does: "edits t r l d \<Longrightarrow> tty_flags t AND TTY_FLAG_NEXTL = 0 \<Longrightarrow> does r ((l, False), d)"
  by (auto simp: edits_def does_def abs_line_def)

lemma canonical_input_refines:
  assumes "tty_ok t" and "ts t = sane_termios" and "tty_flags t AND TTY_FLAG_NEXTL = 0" and "c0 \<noteq> 3 \<and> c0 \<noteq> 28 \<and> c0 \<noteq> 26"
    and "c = (if c0 = 13 then 10 else c0)"
  shows "does (canonical_input t c) (canon_step (abs_line t) c0)"
proof -
  note fl = sane_flags [OF assms(2)] and cc = sane_cc_simps [OF assms(2)] and len = length_line [OF assms(1)]
  have q: "tty_flags t AND 1 = 0" using assms(3) .
  note step = canon_step_def abs_line_def Let_def
  consider "c = 22" | "c = 127" | "c = 23" | "c = 21" | "c = 4" | "c = 10 \<or> c = 0"
    | "c \<noteq> 22" "c \<noteq> 127" "c \<noteq> 23" "c \<noteq> 21" "c \<noteq> 4" "\<not> (c = 10 \<or> c = 0)" by blast
  then show ?thesis
  proof cases
    case 1
    then show ?thesis using assms(4,5) q by (simp add: does_def canonical_input_def cc fl step line_def split: if_splits)
  next
    case 2
    then have "canonical_input t c = tty_erase t 1" "canon_step (abs_line t) c0 = ((take (length (line t) - unat (1 :: u32)) (line t), False), [])"
      using assms(4,5) q by (simp_all add: canonical_input_def cc fl step butlast_conv_take split: if_splits)
    then show ?thesis using edits_does [OF tty_erase_ok [OF assms(1), of 1] assms(3)] by simp
  next
    case 3
    then have "canonical_input t c = word_erase t" "canon_step (abs_line t) c0 = ((rev (dropWhile (\<lambda>x. x \<noteq> 32) (rev (line t))), False), [])"
      using assms(4,5) q by (simp_all add: canonical_input_def cc fl step split: if_splits)
    then show ?thesis using edits_does [OF word_erase_ok [OF assms(1)] assms(3)] by simp
  next
    case 4
    then have "canonical_input t c = tty_erase t (line_length t)" "canon_step (abs_line t) c0 = (([], False), [])"
      using assms(4,5) q by (simp_all add: canonical_input_def cc fl step split: if_splits)
    then show ?thesis using edits_does [OF tty_erase_ok [OF assms(1), of "line_length t"] assms(3)] len by simp
  next
    case 5
    then have "canonical_input t c = line_flush t" "canon_step (abs_line t) c0 = (([], False), line t)"
      using assms(4,5) q by (simp_all add: canonical_input_def cc fl step split: if_splits)
    then show ?thesis using edits_does [OF line_flush_ok [OF assms(1)] assms(3)] by simp
  next
    case 6
    obtain t1 t2 where e: "line_putc t c = Some t1" "line_set t1 (line_length t1 - 1) c = Some t2"
      "tty_ok t2" "line t2 = take 4095 (line t) @ [c]" "same_setup t t2" "tty_flags t2 = tty_flags t" using line_end_ok [OF assms(1)] .
    obtain t3 e3 where f: "line_flush t2 = Some (t3, e3)" "tty_flags t3 = tty_flags t2" "line t3 = []" "delivered e3 = line t2"
      using line_flush_ok [OF e(3)] by (rule editsE)
    have ci: "canonical_input t c = Some (t3, echo_char t c @ e3)" using 6 e(1,2) f(1) by (auto simp: canonical_input_def cc fl Let_def)
    have st: "canon_step (abs_line t) c0 = (([], False), take 4095 (line t) @ [c])"
      using 6 assms(4,5) q by (auto simp: step split: if_splits)
    show ?thesis unfolding ci st using e f q by (simp add: does_def abs_line_def)
  next
    case 7
    obtain t1 where p: "line_putc t c = Some t1" "tty_flags t1 = tty_flags t" "line t1 = (if length (line t) < 4096 then line t @ [c] else line t)"
      using line_putc_ok [OF assms(1)] by metis
    have "canonical_input t c = Some (t1, echo_char t c)" using 7 p(1) by (simp add: canonical_input_def cc fl Let_def)
    then show ?thesis using 7 assms(4,5) q p(2,3) by (simp add: does_def step split: if_splits)
  qed
qed

lemma process_input_refines:
  assumes "tty_ok t" and "ts t = sane_termios"
  shows "does (process_input t c) (canon_step (abs_line t) c)"
proof -
  note fl = sane_flags [OF assms(2)] and cc = sane_cc_simps [OF assms(2)]
  show ?thesis
  proof (cases "tty_flags t AND TTY_FLAG_NEXTL = 0")
    case False
    let ?t = "t\<lparr>tty_flags := tty_flags t AND NOT TTY_FLAG_NEXTL\<rparr>"
    have ok: "tty_ok ?t" "line ?t = line t" using assms(1) by (simp_all add: tty_ok_def line_def)
    obtain t1 where p: "line_putc ?t c = Some t1" "tty_flags t1 = tty_flags ?t" "line t1 = (if length (line ?t) < 4096 then line ?t @ [c] else line ?t)"
      using line_putc_ok [OF ok(1)] by metis
    then show ?thesis using False ok(2) by (simp add: does_def process_input_def canon_step_def abs_line_def Let_def fl)
  next
    case True
    show ?thesis
    proof (cases "c = 3 \<or> c = 28 \<or> c = 26")
      case sig: True
      then have "input_signal t c \<noteq> None" by (auto simp: input_signal_def cc fl)
      then obtain s where "input_signal t c = Some s" by auto
      then show ?thesis using True sig by (auto simp: does_def process_input_def canon_step_def abs_line_def fl Let_def)
    next
      case nosig: False
      then have "input_signal t c = None" by (auto simp: input_signal_def cc fl)
      then have "process_input t c = canonical_input t (if c = 13 then 10 else c)"
        using True by (simp add: process_input_def fl Let_def)
      then show ?thesis using canonical_input_refines [OF assms True _ refl, of c] nosig by simp
    qed
  qed
qed

lemma write_master_refines:
  "tty_ok t \<Longrightarrow> ts t = sane_termios \<Longrightarrow> does (write_master t cs) (canon_run (abs_line t) cs)"
proof (induction cs arbitrary: t)
  case (Cons c cs)
  obtain t1 e1 where p: "process_input t c = Some (t1, e1)" "tty_ok t1" "same_setup t t1" using process_input_ok [OF Cons(2), of c] by (auto simp: safe_def)
  have s: "canon_step (abs_line t) c = (abs_line t1, delivered e1)" using process_input_refines [OF Cons(2,3), of c] p(1) by (auto simp: does_def)
  have "ts t1 = sane_termios" using p(3) Cons(3) by (simp add: same_setup_def)
  from Cons(1) [OF p(2) this] obtain t2 e2 where w: "write_master t1 cs = Some (t2, e2)" "canon_run (abs_line t1) cs = (abs_line t2, delivered e2)"
    unfolding does_def by metis
  show ?case using p(1) s w by (simp add: does_def)
qed (simp add: does_def)

text \<open>What a program writes, as the master sees it, ends each line with a carriage return and a newline.\<close>

fun shown :: "tty_effect list \<Rightarrow> u8 list" where
  "shown [] = []"
| "shown (PutOut c # es) = c # shown es"
| "shown (_ # es) = shown es"

lemma shown_append [simp]: "shown (es @ fs) = shown es @ shown fs"
  by (induction es rule: shown.induct) auto

lemma write_slave_shown:
  assumes "ts t = sane_termios"
  shows "shown (write_slave t cs) = concat (map (\<lambda>c. if c = 10 then [13, 10] else [c]) cs)"
proof (induction cs)
  case (Cons c cs)
  have "shown (process_output t c) = (if c = 10 then [13, 10] else [c])"
    by (simp add: process_output_def putc_out_def sane_flags [OF assms])
  then show ?case using Cons by (simp add: write_slave_def)
qed (simp add: write_slave_def)

section \<open>Properties\<close>

definition demo_tty :: tty where
  "demo_tty = fst (tty_create blank_kernel 0 \<lparr>ws_rows = 25, ws_cols = 80\<rparr> True 100 200 (replicate 4096 0) (replicate 4096 0)
     (replicate 4098 0) [1, 2, 3, 4] [5, 6, 7] [8, 9, 10])"

lemma demo_tty_facts: "tty_ok demo_tty" "ts demo_tty = sane_termios" "abs_line demo_tty = ([], False)"
  by (simp_all add: demo_tty_def tty_create_def tty_ok_def Let_def split_beta abs_line_def line_def)

text \<open>
  C24: the line editor never leaves its buffer. Whatever characters the master writes and whatever
  settings the terminal has, every access to the line buffer is inside of its block (one outside
  has no result in the model), the length of the line, which the code keeps in a \<open>size_t\<close> that wraps
  around, never goes below zero or above the 4096 bytes the code allows, the word erase ends, and
  the settings, the foreground process and the two nodes of the terminal stay as they are.
\<close>

theorem line_buffer_never_overrun:
  assumes "tty_ok t"
  shows "\<exists>t' es. pty_write t m cs = Some (t', es) \<and> tty_ok t' \<and> same_setup t t' \<and> length (line t') \<le> 4096"
proof -
  have "safe t (pty_write t m cs)" using write_master_ok [OF assms] assms by (simp add: pty_write_def)
  then obtain t' es where r: "pty_write t m cs = Some (t', es)" "tty_ok t'" "same_setup t t'" by (auto simp: safe_def)
  then show ?thesis using length_line [OF r(2)] tty_ok_length [OF r(2)] by auto
qed

theorem line_buffer_never_overrun_witness: "tty_ok demo_tty \<and> (\<exists>t es. pty_write demo_tty True [97, 127, 127, 98, 10] = Some (t, es) \<and> tty_ok t)"
  using line_buffer_never_overrun [OF demo_tty_facts(1), of True "[97, 127, 127, 98, 10]"] demo_tty_facts(1) by blast

text \<open>
  C23: canonical mode is line editing. On a terminal with its initial settings the characters a user
  types act on the line as the abstract editor \<open>canon_run\<close> says (erase, word erase, kill, quoting, end of file, a
  return that ends the line) and exactly the finished lines reach the reader, in order; and what
  a program writes reaches the master with every newline preceded by a carriage return.
\<close>

theorem canonical_mode_edits_lines:
  assumes "tty_ok t" and "ts t = sane_termios"
  shows "\<exists>t' es es'. pty_write t True typed = Some (t', es) \<and> abs_line t' = fst (canon_run (abs_line t) typed) \<and>
    delivered es = snd (canon_run (abs_line t) typed) \<and>
    pty_write t False out = Some (t, es') \<and>
    shown es' = concat (map (\<lambda>c. if c = 10 then [13, 10] else [c]) out)"
proof -
  obtain t' es where "write_master t typed = Some (t', es)" "(abs_line t', delivered es) = canon_run (abs_line t) typed"
    using write_master_refines [OF assms] unfolding does_def by blast
  then show ?thesis using write_slave_shown [OF assms(2)] by (auto simp: pty_write_def dest: sym)
qed

theorem canonical_mode_edits_lines_witness:
  "\<exists>t es es'. pty_write demo_tty True [108, 122, 127, 115, 13, 120] = Some (t, es) \<and> delivered es = [108, 115, 10] \<and>
   pty_write demo_tty False [104, 10] = Some (demo_tty, es') \<and> shown es' = [104, 13, 10]"
proof -
  have "canon_run ([], False) [108, 122, 127, 115, 13, 120] = (([120], False), [108, 115, 10])"
    by (simp add: canon_step_def)
  then show ?thesis
    using canonical_mode_edits_lines [OF demo_tty_facts(1,2), of "[108, 122, 127, 115, 13, 120]" "[104, 10]"] demo_tty_facts(3) by auto
qed

end
