(* ===== verification/Heap.thy ===== *)
theory Heap
  imports CMem "HOL-Library.Monad_Syntax"
begin

text \<open>
  The heap of the kernel, from \<^verbatim>\<open>libc/src/stdlib/alloc.c\<close> as the kernel compiles it (\<open>__LIBK\<close>) and
  \<^verbatim>\<open>kernel/src/mem/heap.c\<close>: a list of blocks, each a packed header of nine bytes (size, flags, next) in
  front of its memory. The headers live in the same memory of bytes as the data of the clients.
  The memory is that of the whole heap region: an address that is not mapped yet holds the bytes
  its frame will have, so that mapping pages changes nothing here. A panic never returns; a
  function that may panic or may walk a list forever returns \<open>None\<close> where it does not return.
\<close>

section \<open>State\<close>

record heap_state =
  hmem :: mem
  heap_size :: u32
  allocated :: u32
  freed :: u32

definition HEAP_START :: u32 where "HEAP_START = 0xF7001000"
definition HEAP_END :: u32 where "HEAP_END = 0xFFBFF000"
abbreviation (input) HEAP_INITIAL_SIZE :: u32 where "HEAP_INITIAL_SIZE \<equiv> 0x4000"
abbreviation (input) SIZEOF_BLOCK :: u32 where "SIZEOF_BLOCK \<equiv> 9"
abbreviation (input) M_BLOCK_FREE :: u8 where "M_BLOCK_FREE \<equiv> 1"

text \<open>A little endian word in memory.\<close>

definition get32 :: "mem \<Rightarrow> ptr \<Rightarrow> u32" where
  "get32 m a = ucast (m a) OR push_bit 8 (ucast (m (a + 1))) OR push_bit 16 (ucast (m (a + 2))) OR push_bit 24 (ucast (m (a + 3)))"

definition put32 :: "mem \<Rightarrow> ptr \<Rightarrow> u32 \<Rightarrow> mem" where
  "put32 m a v = m(a := ucast v, a + 1 := ucast (drop_bit 8 v), a + 2 := ucast (drop_bit 16 v), a + 3 := ucast (drop_bit 24 v))"

text \<open>The fields of the header at an address.\<close>

definition blk_size :: "mem \<Rightarrow> ptr \<Rightarrow> u32" where "blk_size m b = get32 m b"
definition blk_flags :: "mem \<Rightarrow> ptr \<Rightarrow> u8" where "blk_flags m b = m (b + 4)"
definition blk_next :: "mem \<Rightarrow> ptr \<Rightarrow> ptr" where "blk_next m b = get32 m (b + 5)"
definition set_size :: "mem \<Rightarrow> ptr \<Rightarrow> u32 \<Rightarrow> mem" where "set_size m b v = put32 m b v"
definition set_flags :: "mem \<Rightarrow> ptr \<Rightarrow> u8 \<Rightarrow> mem" where "set_flags m b v = m(b + 4 := v)"
definition set_next :: "mem \<Rightarrow> ptr \<Rightarrow> ptr \<Rightarrow> mem" where "set_next m b v = put32 m (b + 5) v"

section \<open>Operations\<close>

definition heap_end :: "heap_state \<Rightarrow> u32" where
  "heap_end h = HEAP_START + heap_size h"

definition is_valid_block :: "heap_state \<Rightarrow> ptr \<Rightarrow> bool" where
  "is_valid_block h b \<longleftrightarrow>
     b \<ge> HEAP_START \<and> b \<le> heap_end h \<and> blk_size (hmem h) b \<noteq> 0 \<and> b + SIZEOF_BLOCK + blk_size (hmem h) b \<le> heap_end h"

definition init_block :: "mem \<Rightarrow> ptr \<Rightarrow> u32 \<Rightarrow> mem option" where
  "init_block m b sz = (if sz = 0 then None else Some (set_next (set_flags (set_size m b sz) b M_BLOCK_FREE) b 0))"

definition mem_heap_init :: "mem \<Rightarrow> heap_state option" where
  "mem_heap_init m = do {
     m1 \<leftarrow> init_block m HEAP_START (HEAP_INITIAL_SIZE - SIZEOF_BLOCK);
     Some \<lparr>hmem = m1, heap_size = HEAP_INITIAL_SIZE, allocated = 0, freed = 0\<rparr> }"

text \<open>Zero when the heap cannot grow.\<close>

definition grow_heap :: "heap_state \<Rightarrow> u32 \<Rightarrow> ptr" where
  "grow_heap h n = (if n = 0 then HEAP_START else if heap_end h + n * 0x1000 > HEAP_END then 0 else heap_end h)"

definition split_block :: "heap_state \<Rightarrow> ptr \<Rightarrow> u32 \<Rightarrow> (nat \<times> mem) option" where
  "split_block h src sz =
     (let m = hmem h
      in if \<not> is_valid_block h src then Some (1, m)
         else if blk_size m src < sz then Some (2, m)
         else if blk_size m src < sz + SIZEOF_BLOCK + 1 then Some (0, m)
         else let diff = blk_size m src - sz; splitted = src + SIZEOF_BLOCK + sz
              in do {
                   m1 \<leftarrow> init_block m splitted (diff - SIZEOF_BLOCK);
                   let m2 = set_next m1 splitted (blk_next m1 src);
                   let m3 = set_next m2 src splitted;
                   Some (0, set_size m3 src sz) })"

partial_function (option) merge_loop :: "heap_state \<Rightarrow> ptr \<Rightarrow> heap_state option" where
  "merge_loop h src =
     (if is_valid_block h src
      then let m = hmem h; next = blk_next m src;
               h1 = (if blk_flags m src AND M_BLOCK_FREE \<noteq> 0 \<and> is_valid_block h next \<and> blk_flags m next AND M_BLOCK_FREE \<noteq> 0 \<and>
                        next = src + SIZEOF_BLOCK + blk_size m src
                     then h\<lparr>hmem := let m1 = set_size m src (blk_size m src + (SIZEOF_BLOCK + blk_size m next))
                                    in set_next m1 src (blk_next m1 next)\<rparr>
                     else h)
           in merge_loop h1 (blk_next (hmem h1) src)
      else Some h)"

definition mem_merge :: "heap_state \<Rightarrow> heap_state option" where
  "mem_merge h = merge_loop h HEAP_START"

partial_function (option) find_block :: "heap_state \<Rightarrow> u32 \<Rightarrow> ptr \<Rightarrow> ptr \<Rightarrow> (ptr \<times> ptr) option" where
  "find_block h sz blk last_valid =
     (let m = hmem h
      in if is_valid_block h blk \<and>
            (blk_flags m blk AND M_BLOCK_FREE = 0 \<or> blk_size m blk < sz \<or> blk_size m blk > sz \<and> blk_size m blk < sz + SIZEOF_BLOCK + 1)
         then find_block h sz (blk_next m blk) blk
         else Some (blk, last_valid))"

text \<open>The growth of the heap when no block fits: the new block is linked behind the last one.\<close>

definition grow_for :: "heap_state \<Rightarrow> u32 \<Rightarrow> ptr \<Rightarrow> (ptr \<times> heap_state) option" where
  "grow_for h sz last_valid =
     (let grow = (sz + SIZEOF_BLOCK + 1) div 0x1000 + 1; blk = grow_heap h grow
      in if blk = 0 then None
         else do {
           m1 \<leftarrow> init_block (hmem h) blk (grow * 0x1000 - SIZEOF_BLOCK);
           Some (blk, h\<lparr>heap_size := heap_size h + grow * 0x1000, hmem := set_next m1 last_valid blk\<rparr>) })"

text \<open>The end of \<open>malloc\<close>: the rest of the block found is split off and the block is marked as used.\<close>

definition carve :: "heap_state \<Rightarrow> ptr \<Rightarrow> u32 \<Rightarrow> (ptr \<times> heap_state) option" where
  "carve h blk sz = do {
     h1 \<leftarrow> (if blk_size (hmem h) blk \<noteq> sz
            then do { (r, m) \<leftarrow> split_block h blk sz; if r \<noteq> 0 then None else Some (h\<lparr>hmem := m\<rparr>) }
            else Some h);
     Some (blk + SIZEOF_BLOCK,
           h1\<lparr>hmem := set_flags (hmem h1) blk (blk_flags (hmem h1) blk AND NOT M_BLOCK_FREE), allocated := allocated h1 + sz\<rparr>) }"

definition malloc :: "heap_state \<Rightarrow> u32 \<Rightarrow> (ptr \<times> heap_state) option" where
  "malloc h sz = do {
     (found, last_valid) \<leftarrow> find_block h sz HEAP_START HEAP_START;
     (blk, h1) \<leftarrow> (if is_valid_block h found then Some (found, h) else grow_for h sz last_valid);
     carve h1 blk sz }"

definition free :: "heap_state \<Rightarrow> ptr \<Rightarrow> heap_state option" where
  "free h p =
     (let header = p - SIZEOF_BLOCK
      in if \<not> is_valid_block h header \<or> blk_flags (hmem h) header AND M_BLOCK_FREE \<noteq> 0 then Some h
         else mem_merge (h\<lparr>hmem := set_flags (hmem h) header (blk_flags (hmem h) header OR M_BLOCK_FREE),
                           freed := freed h + blk_size (hmem h) header\<rparr>))"

definition calloc :: "heap_state \<Rightarrow> u32 \<Rightarrow> u32 \<Rightarrow> (ptr \<times> heap_state) option" where
  "calloc h num sz = do {
     (p, h1) \<leftarrow> malloc h (num * sz);
     Some (p, h1\<lparr>hmem := snd (memset (hmem h1) p 0 (num * sz))\<rparr>) }"

definition realloc :: "heap_state \<Rightarrow> ptr \<Rightarrow> u32 \<Rightarrow> (ptr \<times> heap_state) option" where
  "realloc h old sz =
     (if blk_size (hmem h) (old - SIZEOF_BLOCK) = sz then Some (old, h)
      else do {
        (new_ptr, h1) \<leftarrow> malloc h sz;
        let hdr_size = blk_size (hmem h1) (old - SIZEOF_BLOCK);
        let copy_size = (if sz > hdr_size then hdr_size else sz);
        h2 \<leftarrow> free (h1\<lparr>hmem := snd (memmove (hmem h1) new_ptr old copy_size)\<rparr>) old;
        Some (new_ptr, h2) })"

definition vfree :: "heap_state \<Rightarrow> ptr \<Rightarrow> heap_state option" where
  "vfree h p = free h (get32 (hmem h) (p - 4))"

definition valloc :: "heap_state \<Rightarrow> u32 \<Rightarrow> u32 \<Rightarrow> (ptr \<times> heap_state) option" where
  "valloc h sz alignment =
     (let offset = alignment - 1 + 4
      in do {
           (p1, h1) \<leftarrow> malloc h (sz + offset);
           let p2 = (p1 + offset) AND NOT (alignment - 1);
           Some (p2, h1\<lparr>hmem := put32 (hmem h1) (p2 - 4) p1\<rparr>) })"

definition heap_usage :: "heap_state \<Rightarrow> u32" where
  "heap_usage h = allocated h - freed h"

section \<open>Bytes and headers\<close>

lemma get_put32 [simp]: "get32 (put32 m a v) a = v"
proof -
  have d: "a \<noteq> a + 1" "a \<noteq> a + 2" "a \<noteq> a + 3" "a + 1 \<noteq> a + 2" "a + 1 \<noteq> a + 3" "a + 2 \<noteq> a + 3" by simp_all
  have "ucast (ucast v :: u8) OR push_bit 8 (ucast (ucast (drop_bit 8 v) :: u8)) OR push_bit 16 (ucast (ucast (drop_bit 16 v) :: u8)) OR
     push_bit 24 (ucast (ucast (drop_bit 24 v) :: u8)) = v" (is "?l = v")
  proof (rule bit_word_eqI)
    fix n assume "n < LENGTH(32)"
    moreover have "n < 8 \<or> n \<in> {8..<16} \<or> n \<in> {16..<24} \<or> 24 \<le> n" by auto
    ultimately show "bit ?l n = bit v n" by (auto simp: bit_simps)
  qed
  then show ?thesis using d by (simp add: get32_def put32_def)
qed

lemma of_nat_eq32: "a < 2 ^ 32 \<Longrightarrow> b < 2 ^ 32 \<Longrightarrow> (of_nat a :: u32) = of_nat b \<longleftrightarrow> a = b"
  by (metis unat_of_nat_eq32)

text \<open>\<open>same_on m m' lo hi\<close>: the two memories agree on the addresses from \<open>lo\<close> up to \<open>hi\<close>.\<close>

definition same_on :: "mem \<Rightarrow> mem \<Rightarrow> nat \<Rightarrow> nat \<Rightarrow> bool" where
  "same_on m m' lo hi \<longleftrightarrow> (\<forall>x. lo \<le> x \<and> x < hi \<longrightarrow> m' (of_nat x) = m (of_nat x))"

lemma same_onD: "same_on m m' lo hi \<Longrightarrow> lo \<le> x \<Longrightarrow> x < hi \<Longrightarrow> m' (of_nat x) = m (of_nat x)"
  by (simp add: same_on_def)

lemma same_on_sub: "same_on m m' lo hi \<Longrightarrow> lo \<le> lo' \<Longrightarrow> hi' \<le> hi \<Longrightarrow> same_on m m' lo' hi'"
  by (auto simp: same_on_def)

lemma same_on_refl [simp]: "same_on m m lo hi"
  by (simp add: same_on_def)

lemma same_on_trans [trans]: "same_on a b lo hi \<Longrightarrow> same_on b c lo hi \<Longrightarrow> same_on a c lo hi"
  by (simp add: same_on_def)

lemma get32_same: "same_on m m' a (a + 4) \<Longrightarrow> get32 m' (of_nat a) = get32 m (of_nat a)"
proof -
  assume s: "same_on m m' a (a + 4)"
  have "m' (of_nat a + of_nat i) = m (of_nat a + of_nat i)" if "i < 4" for i
    using same_onD [OF s, of "a + i"] that by simp
  from this [of 0] this [of 1] this [of 2] this [of 3] show ?thesis by (simp add: get32_def)
qed

lemma put32_same:
  assumes "a + 4 \<le> 2 ^ 32" and "hi \<le> 2 ^ 32" and "hi \<le> a \<or> a + 4 \<le> lo"
  shows "same_on m (put32 m (of_nat a) v) lo hi"
  unfolding same_on_def
proof (intro allI impI)
  fix x assume x: "lo \<le> x \<and> x < hi"
  have "of_nat x \<noteq> (of_nat a + of_nat i :: u32)" if "i < 4" for i
    using of_nat_eq32 [of x "a + i"] that x assms by auto
  from this [of 0] this [of 1] this [of 2] this [of 3] show "put32 m (of_nat a) v (of_nat x) = m (of_nat x)"
    by (simp add: put32_def)
qed

lemma blk_same:
  assumes "same_on m m' a (a + 9)"
  shows "blk_size m' (of_nat a) = blk_size m (of_nat a)" "blk_flags m' (of_nat a) = blk_flags m (of_nat a)"
    "blk_next m' (of_nat a) = blk_next m (of_nat a)"
  using get32_same [OF same_on_sub [OF assms], of a] get32_same [OF same_on_sub [OF assms], of "a + 5"] same_onD [OF assms, of "a + 4"]
  by (simp_all add: blk_size_def blk_flags_def blk_next_def add.commute)

text \<open>A write to a header is seen in that header only.\<close>

lemma set_same:
  assumes "a + 9 \<le> 2 ^ 32" and "hi \<le> 2 ^ 32" and "hi \<le> a \<or> a + 9 \<le> lo"
  shows "same_on m (set_size m (of_nat a) v) lo hi" "same_on m (set_flags m (of_nat a) f) lo hi" "same_on m (set_next m (of_nat a) n) lo hi"
proof -
  show "same_on m (set_size m (of_nat a) v) lo hi" unfolding set_size_def using assms by (intro put32_same) auto
  have "same_on m (put32 m (of_nat (a + 5)) n) lo hi" using assms by (intro put32_same) auto
  then show "same_on m (set_next m (of_nat a) n) lo hi" by (simp add: set_next_def add.commute)
  have "of_nat x \<noteq> (of_nat a + 4 :: u32)" if "lo \<le> x" "x < hi" for x
    using of_nat_eq32 [of x "a + 4"] that assms by auto
  then show "same_on m (set_flags m (of_nat a) f) lo hi" by (simp add: same_on_def set_flags_def)
qed

lemma hdr_fields [simp]:
  "blk_size (set_size m b v) b = v" "blk_flags (set_size m b v) b = blk_flags m b" "blk_next (set_size m b v) b = blk_next m b"
  "blk_size (set_flags m b f) b = blk_size m b" "blk_flags (set_flags m b f) b = f" "blk_next (set_flags m b f) b = blk_next m b"
  "blk_size (set_next m b n) b = blk_size m b" "blk_flags (set_next m b n) b = blk_flags m b" "blk_next (set_next m b n) b = n"
  by (simp_all add: blk_size_def blk_flags_def blk_next_def set_size_def set_flags_def set_next_def)
    (simp_all add: get32_def put32_def add.assoc)

section \<open>The blocks of a heap\<close>

text \<open>
  The blocks from an address on as a list of sizes and free marks. \<open>part m p a bs\<close>: from the pointer \<open>p\<close>,
  which is the address \<open>a\<close>, the blocks \<open>bs\<close> follow one another without a gap and every header points
  to the next block; \<open>reach m p bs\<close> is the pointer behind them.
\<close>

type_synonym segment = "nat \<times> bool"

definition hdr :: "mem \<Rightarrow> ptr \<Rightarrow> nat \<Rightarrow> segment \<Rightarrow> bool" where
  "hdr m p a s \<longleftrightarrow> p = of_nat a \<and> 0 < fst s \<and> a + 9 + fst s \<le> 2 ^ 32 \<and> blk_size m p = of_nat (fst s) \<and>
     (blk_flags m p AND M_BLOCK_FREE \<noteq> 0 \<longleftrightarrow> snd s)"

fun span :: "segment list \<Rightarrow> nat" where
  "span [] = 0"
| "span (s # bs) = 9 + fst s + span bs"

fun part :: "mem \<Rightarrow> ptr \<Rightarrow> nat \<Rightarrow> segment list \<Rightarrow> bool" where
  "part m p a [] \<longleftrightarrow> True"
| "part m p a (s # bs) \<longleftrightarrow> hdr m p a s \<and> part m (blk_next m p) (a + 9 + fst s) bs"

fun reach :: "mem \<Rightarrow> ptr \<Rightarrow> segment list \<Rightarrow> ptr" where
  "reach m p [] = p"
| "reach m p (s # bs) = reach m (blk_next m p) bs"

definition heap_base :: nat where "heap_base = 0xF7001000"
definition heap_limit :: nat where "heap_limit = 0xFFBFF000"

definition heap_is :: "heap_state \<Rightarrow> segment list \<Rightarrow> bool" where
  "heap_is h bs \<longleftrightarrow> bs \<noteq> [] \<and> part (hmem h) HEAP_START heap_base bs \<and> reach (hmem h) HEAP_START bs = 0 \<and>
     span bs = unat (heap_size h) \<and> heap_base + span bs \<le> heap_limit"

lemma span_append [simp]: "span (xs @ ys) = span xs + span ys"
  by (induction xs) auto

lemma reach_append [simp]: "reach m p (xs @ ys) = reach m (reach m p xs) ys"
  by (induction xs arbitrary: p) auto

lemma part_append [simp]: "part m p a (xs @ ys) \<longleftrightarrow> part m p a xs \<and> part m (reach m p xs) (a + span xs) ys"
  by (induction xs arbitrary: p a) (auto simp: add.assoc)

text \<open>The addresses of the headers: only their bytes matter for the list.\<close>

fun heads :: "nat \<Rightarrow> segment list \<Rightarrow> nat list" where
  "heads a [] = []"
| "heads a (s # bs) = a # heads (a + 9 + fst s) bs"

lemma part_heads:
  "part m p a bs \<Longrightarrow> (\<forall>b\<in>set (heads a bs). same_on m m' b (b + 9)) \<Longrightarrow> part m' p a bs \<and> reach m' p bs = reach m p bs"
proof (induction bs arbitrary: p a)
  case (Cons s bs)
  have h: "hdr m p a s" and r: "part m (blk_next m p) (a + 9 + fst s) bs" using Cons(2) by simp_all
  have eq: "blk_size m' p = blk_size m p" "blk_flags m' p = blk_flags m p" "blk_next m' p = blk_next m p"
    using blk_same [of m m' a] Cons(3) h by (simp_all add: hdr_def)
  have "\<forall>b\<in>set (heads (a + 9 + fst s) bs). same_on m m' b (b + 9)" using Cons(3) by simp
  from Cons(1) [OF r this] show ?case using h eq by (auto simp: hdr_def)
qed simp

lemma heads_bounds: "b \<in> set (heads a bs) \<Longrightarrow> a \<le> b \<and> b + 9 \<le> a + span bs"
  by (induction bs arbitrary: a) fastforce+

lemma part_frame:
  "part m p a bs \<Longrightarrow> same_on m m' a (a + span bs) \<Longrightarrow> part m' p a bs \<and> reach m' p bs = reach m p bs"
  using part_heads [of m p a bs m'] heads_bounds same_on_sub by blast

lemma heap_consts: "HEAP_START = of_nat heap_base" "unat HEAP_START = heap_base" "unat HEAP_END = heap_limit"
  "HEAP_END = of_nat heap_limit" "heap_limit < 2 ^ 32" "0 < heap_base" "heap_base < heap_limit"
  by (simp_all add: heap_base_def heap_limit_def HEAP_START_def HEAP_END_def)

lemma unat_heap_end: "heap_is h bs \<Longrightarrow> unat (heap_end h) = heap_base + span bs"
  using heap_consts(2,5) unat_add32 [of HEAP_START "heap_size h"] by (simp add: heap_end_def heap_is_def)

lemma valid_block:
  assumes "heap_is h bs" and "hdr (hmem h) p a s" and "heap_base \<le> a" and "a + 9 + fst s \<le> heap_base + span bs"
  shows "is_valid_block h p"
proof -
  have lim: "heap_base + span bs < 2 ^ 32" using assms(1) heap_consts by (simp add: heap_is_def)
  have p: "p = of_nat a" "blk_size (hmem h) p = of_nat (fst s)" "0 < fst s" using assms(2) unfolding hdr_def by blast+
  have a: "unat p = a" "unat (blk_size (hmem h) p) = fst s" using p assms(4) lim by (simp_all add: unat_of_nat_eq32)
  have "p + SIZEOF_BLOCK + blk_size (hmem h) p = of_nat (a + 9 + fst s)" using p by simp
  then have "unat (p + SIZEOF_BLOCK + blk_size (hmem h) p) = a + 9 + fst s" using assms(4) lim by (simp only: unat_of_nat_eq32)
  moreover have "blk_size (hmem h) p \<noteq> 0" using a(2) p(3) unat_eq_zero32 [of "blk_size (hmem h) p"] by simp
  ultimately show ?thesis
    using a(1) assms(3,4) unat_heap_end [OF assms(1)] heap_consts(2) by (simp add: is_valid_block_def word_le_nat_alt)
qed

lemma null_invalid [simp]: "\<not> is_valid_block h 0"
  by (simp add: is_valid_block_def HEAP_START_def)


section \<open>Allocation\<close>

definition fits :: "nat \<Rightarrow> segment \<Rightarrow> bool" where
  "fits n s \<longleftrightarrow> snd s \<and> (fst s = n \<or> n + 10 \<le> fst s)"

definition cut :: "nat \<Rightarrow> nat \<Rightarrow> segment list" where
  "cut n k = (if k < n + 10 then [(k, False)] else [(n, False), (k - n - 9, True)])"

lemma hdr_unat:
  assumes "hdr m p a s"
  shows "unat p = a" "unat (blk_size m p) = fst s" "p = of_nat a" "blk_size m p = of_nat (fst s)" "0 < fst s" "a + 9 + fst s \<le> 2 ^ 32"
    "blk_flags m p AND M_BLOCK_FREE \<noteq> 0 \<longleftrightarrow> snd s"
proof -
  show d: "p = of_nat a" "blk_size m p = of_nat (fst s)" "0 < fst s" "a + 9 + fst s \<le> 2 ^ 32" "blk_flags m p AND M_BLOCK_FREE \<noteq> 0 \<longleftrightarrow> snd s"
    using assms unfolding hdr_def by blast+
  show "unat p = a" using unat_of_nat_eq32 [of a] d(1,4) by simp
  show "unat (blk_size m p) = fst s" unfolding d(2) using d(4) by (intro unat_of_nat_eq32) simp
qed

lemma add10: "unat (sz :: u32) + 10 < 2 ^ 32 \<Longrightarrow> unat (sz + SIZEOF_BLOCK + 1) = unat sz + 10"
proof -
  assume "unat sz + 10 < 2 ^ 32"
  then have "unat (sz + 10) = unat sz + 10" using unat_add32 [of sz 10] by simp
  moreover have "sz + SIZEOF_BLOCK + 1 = sz + 10" by simp
  ultimately show ?thesis by (simp only:)
qed

lemma skip_cond:
  assumes "hdr m p a s" and "unat sz + 10 < 2 ^ 32"
  shows "(blk_flags m p AND M_BLOCK_FREE = 0 \<or> blk_size m p < sz \<or> blk_size m p > sz \<and> blk_size m p < sz + SIZEOF_BLOCK + 1) \<longleftrightarrow>
    \<not> fits (unat sz) s"
  using hdr_unat [OF assms(1)] add10 [OF assms(2)] by (auto simp: fits_def word_less_nat_alt)

lemma find_block_run:
  assumes "heap_is h bs" and "unat sz + 10 < 2 ^ 32"
  shows "part (hmem h) p a pre \<Longrightarrow> heap_base \<le> a \<Longrightarrow> a + span pre \<le> heap_base + span bs \<Longrightarrow> (\<forall>s\<in>set pre. \<not> fits (unat sz) s) \<Longrightarrow>
    \<not> is_valid_block h (reach (hmem h) p pre) \<or> hdr (hmem h) (reach (hmem h) p pre) (a + span pre) t \<and> fits (unat sz) t \<Longrightarrow>
    find_block h sz p lv = Some (reach (hmem h) p pre, if pre = [] then lv else reach (hmem h) p (butlast pre))"
proof (induction pre arbitrary: p a lv)
  case Nil
  then have "\<not> is_valid_block h p \<or> \<not> (blk_flags (hmem h) p AND M_BLOCK_FREE = 0 \<or> blk_size (hmem h) p < sz \<or>
      blk_size (hmem h) p > sz \<and> blk_size (hmem h) p < sz + SIZEOF_BLOCK + 1)"
    using skip_cond [of "hmem h" p a t, OF _ assms(2)] by auto
  then show ?case by (subst find_block.simps) (auto simp: Let_def)
next
  case (Cons s pre)
  have h: "hdr (hmem h) p a s" and r: "part (hmem h) (blk_next (hmem h) p) (a + 9 + fst s) pre" using Cons(2) by simp_all
  have v: "is_valid_block h p" using valid_block [OF assms(1) h] Cons(3,4) by simp
  have "find_block h sz (blk_next (hmem h) p) p =
    Some (reach (hmem h) (blk_next (hmem h) p) pre, if pre = [] then p else reach (hmem h) (blk_next (hmem h) p) (butlast pre))"
    using Cons(3-6) by (intro Cons(1) [OF r]) (auto simp: add.assoc)
  moreover have "find_block h sz p lv = find_block h sz (blk_next (hmem h) p) p"
    using v skip_cond [OF h assms(2)] Cons(5) by (subst find_block.simps) (simp add: Let_def)
  ultimately show ?case by simp
qed

text \<open>A change of the memory outside the blocks before and behind a place keeps them.\<close>

lemma heap_is_replace:
  assumes "heap_is h (pre @ old @ post)" and "new \<noteq> []" and "a = heap_base + span pre" and "p = reach (hmem h) HEAP_START pre"
    and "same_on (hmem h) m' heap_base a" and "same_on (hmem h) m' (a + span old) (heap_base + span (pre @ old @ post))"
    and "part m' p a new" and "reach m' p new = reach (hmem h) p old" and "span new = span old"
  shows "heap_is (h\<lparr>hmem := m', allocated := x, freed := y\<rparr>) (pre @ new @ post)"
proof -
  have "part m' HEAP_START heap_base pre \<and> reach m' HEAP_START pre = p"
    using part_frame [of "hmem h" HEAP_START heap_base pre m'] assms(1,3-5) by (simp add: heap_is_def)
  moreover have "part m' (reach (hmem h) p old) (a + span old) post \<and> reach m' (reach (hmem h) p old) post = 0"
    using part_frame [of "hmem h" "reach (hmem h) p old" "a + span old" post m'] assms(1,3,4,6) by (simp add: heap_is_def add.assoc)
  ultimately show ?thesis using assms(1-4,7-9) by (simp add: heap_is_def)
qed

lemma carve_split:
  assumes "hdr m p a (k, True)" and "n + 10 \<le> k" and "0 < n" and "a + 9 + k < 2 ^ 32" and "q = of_nat (a + 9 + n)"
    and "m1 = set_next (set_flags (set_size m q (of_nat (k - n - 9))) q 1) q 0"
    and "m2 = set_next m1 q (blk_next m1 p)" and "m3 = set_size (set_next m2 p q) p (of_nat n)"
    and "m4 = set_flags m3 p (blk_flags m3 p AND NOT 1)"
  shows "part m4 p a [(n, False), (k - n - 9, True)]" and "reach m4 p [(n, False), (k - n - 9, True)] = blk_next m p"
    and "hi \<le> a \<Longrightarrow> same_on m m4 lo hi" and "a + 9 + k \<le> lo \<Longrightarrow> hi \<le> 2 ^ 32 \<Longrightarrow> same_on m m4 lo hi"
proof -
  have p: "p = of_nat a" using hdr_unat [OF assms(1)] by simp
  have s1: "same_on m m1 lo hi" if "hi \<le> 2 ^ 32" "hi \<le> a + 9 + n \<or> a + 18 + n \<le> lo" for lo hi
    unfolding assms(5,6) using that assms(2,4)
    by (intro same_on_trans [OF same_on_trans [OF set_same(1) set_same(2)] set_same(3)]) auto
  have s2: "same_on m1 m2 lo hi" if "hi \<le> 2 ^ 32" "hi \<le> a + 9 + n \<or> a + 18 + n \<le> lo" for lo hi
    unfolding assms(5,7) using that assms(2,4) by (intro set_same(3)) auto
  have s4: "same_on m2 m4 lo hi" if "hi \<le> 2 ^ 32" "hi \<le> a \<or> a + 9 \<le> lo" for lo hi
    unfolding p assms(8,9) using that assms(2,4)
    by (intro same_on_trans [OF same_on_trans [OF set_same(3) set_same(1)] set_same(2)]) auto
  have e2: "blk_size m2 p = of_nat k" "blk_next m1 p = blk_next m p"
    using blk_same [OF s1 [of "a + 9" a]] blk_same [OF s2 [of "a + 9" a]] assms(2,4) hdr_unat [OF assms(1)] by simp_all
  have e4: "blk_size m4 p = of_nat n" "blk_next m4 p = q" "blk_flags m4 p AND 1 = 0"
    by (simp_all add: assms(8,9))
  have q4: "blk_size m4 q = of_nat (k - n - 9)" "blk_flags m4 q = 1" "blk_next m4 q = blk_next m p"
    using blk_same [OF s4 [of "a + 9 + n + 9" "a + 9 + n"]] assms(2,4) e2(2) by (simp_all add: assms(5-7))
  show "part m4 p a [(n, False), (k - n - 9, True)]" using e4 q4 assms(2-5) p by (simp add: hdr_def)
  show "reach m4 p [(n, False), (k - n - 9, True)] = blk_next m p" using e4 q4 by simp
  show "same_on m m4 lo hi" if "hi \<le> a" for lo hi
    using that assms(2,4) by (intro same_on_trans [OF same_on_trans [OF s1 s2] s4]) auto
  show "same_on m m4 lo hi" if "a + 9 + k \<le> lo" "hi \<le> 2 ^ 32" for lo hi
    using that assms(2,4) by (intro same_on_trans [OF same_on_trans [OF s1 s2] s4]) auto
qed


lemma carve_ok:
  assumes "heap_is h (pre @ (k, True) # post)" and "p = reach (hmem h) HEAP_START pre" and "a = heap_base + span pre"
    and "0 < unat sz" and "unat sz \<le> k"
  shows "\<exists>h'. carve h p sz = Some (of_nat (a + 9), h') \<and> heap_is h' (pre @ cut (unat sz) k @ post) \<and>
    (\<forall>lo hi. hi \<le> a \<or> a + 9 + k \<le> lo \<and> hi \<le> 2 ^ 32 \<longrightarrow> same_on (hmem h) (hmem h') lo hi)"
proof -
  let ?m = "hmem h" and ?n = "unat sz"
  have hd: "hdr ?m p a (k, True)" using assms(1-3) by (simp add: heap_is_def)
  note u = hdr_unat [OF hd]
  have lim: "a + 9 + k < 2 ^ 32" using assms(1,3) heap_consts(5) by (simp add: heap_is_def)
  have v: "is_valid_block h p" using valid_block [OF assms(1) hd] assms(3) by simp
  have sz: "of_nat ?n = sz" "unat (sz + SIZEOF_BLOCK + 1) = ?n + 10" using add10 [of sz] lim assms(3,5) heap_consts(6) by simp_all
  have cmp: "\<not> blk_size ?m p < sz" "blk_size ?m p < sz + SIZEOF_BLOCK + 1 \<longleftrightarrow> k < ?n + 10"
    using u(2) sz(2) assms(5) by (simp_all add: word_less_nat_alt)
  have pa: "p + SIZEOF_BLOCK = of_nat (a + 9)" using u(3) by simp
  show ?thesis
  proof (cases "k < ?n + 10")
    case True
    let ?m' = "set_flags ?m p (blk_flags ?m p AND NOT 1)" 
    have sp: "split_block h p sz = Some (0, ?m)" if "blk_size ?m p \<noteq> sz"
      using cmp v True by (simp add: split_block_def)
    then have c: "carve h p sz = Some (of_nat (a + 9), h\<lparr>hmem := ?m', allocated := allocated h + sz\<rparr>)"
      using pa by (simp add: carve_def)
    have fr: "same_on ?m ?m' lo hi" if "hi \<le> a \<or> a + 9 + k \<le> lo \<and> hi \<le> 2 ^ 32" for lo hi
      unfolding u(3) using that lim by (intro set_same(2)) auto
    have "heap_is (h\<lparr>hmem := ?m', allocated := allocated h + sz, freed := freed h\<rparr>) (pre @ [(k, False)] @ post)"
      using assms(1,2,3) hd lim heap_consts(5) fr by (intro heap_is_replace [where old = "[(k, True)]"]) (auto simp: hdr_def heap_is_def)
    then show ?thesis using c True fr by (simp add: cut_def)
  next
    case False
    let ?q = "of_nat (a + 9 + ?n) :: ptr"
    define m1 where "m1 = set_next (set_flags (set_size ?m ?q (of_nat (k - ?n - 9))) ?q 1) ?q 0"
    define m2 where "m2 = set_next m1 ?q (blk_next m1 p)"
    define m3 where "m3 = set_size (set_next m2 p ?q) p (of_nat ?n)"
    define m4 where "m4 = set_flags m3 p (blk_flags m3 p AND NOT 1)"
    note cs = carve_split [OF hd _ assms(4) lim refl m1_def m2_def m3_def m4_def]
    have sub: "blk_size ?m p - sz - SIZEOF_BLOCK = of_nat (k - ?n - 9)" using u(4) False sz(1) by (simp add: of_nat_diff)
    have nz: "(of_nat (k - ?n - 9) :: u32) \<noteq> 0" using of_nat_eq32 [of "k - ?n - 9" 0] False lim by simp
    have q: "p + SIZEOF_BLOCK + sz = ?q" using u(3) sz(1) by simp
    have "split_block h p sz = Some (0, m3)"
      using cmp v False nz unfolding split_block_def Let_def sub q init_block_def by (simp add: m3_def m2_def m1_def)
    then have c: "carve h p sz = Some (of_nat (a + 9), h\<lparr>hmem := m4, allocated := allocated h + sz\<rparr>)"
      using pa u(2) False by (auto simp: carve_def m4_def)
    have "heap_is (h\<lparr>hmem := m4, allocated := allocated h + sz, freed := freed h\<rparr>) (pre @ [(?n, False), (k - ?n - 9, True)] @ post)"
      using assms(1,2,3) cs False lim heap_consts(5) by (intro heap_is_replace [where old = "[(k, True)]"]) (auto simp: heap_is_def)
    then show ?thesis using c False cs(3,4) by (simp add: cut_def)
  qed
qed


text \<open>How much the heap grows for a request; below four megabytes nothing wraps.\<close>

definition grown :: "nat \<Rightarrow> nat" where
  "grown n = ((n + 10) div 4096 + 1) * 4096"

lemma grown_bounds: "n + 11 \<le> grown n" "grown n \<le> n + 10 + 4096" "n + 10 < 0x400000 \<Longrightarrow> grown n \<le> 0x400000"
proof -
  have "4096 * ((n + 10) div 4096) + (n + 10) mod 4096 = n + 10" "(n + 10) mod 4096 < 4096" by simp_all
  then show "n + 11 \<le> grown n" and "grown n \<le> n + 10 + 4096" unfolding grown_def by (simp_all add: algebra_simps)
  assume "n + 10 < 0x400000"
  then have "(n + 10) div 4096 < 0x400" by (simp add: less_mult_imp_div_less)
  then show "grown n \<le> 0x400000" unfolding grown_def by simp
qed

lemma grown_word:
  assumes "unat sz + 10 < 0x400000"
  shows "((sz + SIZEOF_BLOCK + 1) div 0x1000 + 1) * 0x1000 = of_nat (grown (unat sz))" "(sz + SIZEOF_BLOCK + 1) div 0x1000 + 1 \<noteq> 0"
proof -
  let ?d = "(sz + SIZEOF_BLOCK + 1) div 0x1000"
  have d: "unat ?d = (unat sz + 10) div 4096" using add10 [of sz] assms by (simp add: unat_div)
  then have e: "?d = of_nat ((unat sz + 10) div 4096)" by (rule of_nat_unatI)
  show "(?d + 1) * 0x1000 = of_nat (grown (unat sz))" unfolding e grown_def by simp
  have "unat ?d < 2 ^ 32 - 1" unfolding d using assms by simp
  then show "?d + 1 \<noteq> 0" using unat_Suc32 [of ?d] unat_eq_zero32 [of "?d + 1"] by simp
qed

lemma grow_for_ok:
  assumes "heap_is h (pre @ [(k, f)])" and "p = reach (hmem h) HEAP_START pre" and "unat sz + 10 < 0x400000"
    and "a = heap_base + span pre" and "e = a + 9 + k"
  shows "heap_limit < e + grown (unat sz) \<Longrightarrow> grow_for h sz p = None"
    and "e + grown (unat sz) \<le> heap_limit \<Longrightarrow> \<exists>h'. grow_for h sz p = Some (of_nat e, h') \<and> reach (hmem h') HEAP_START (pre @ [(k, f)]) = of_nat e \<and>
      heap_is h' (pre @ [(k, f)] @ [(grown (unat sz) - 9, True)]) \<and>
      (\<forall>lo hi. hi \<le> e \<and> (hi \<le> a \<or> a + 9 \<le> lo) \<longrightarrow> same_on (hmem h) (hmem h') lo hi)"
proof -
  let ?m = "hmem h" and ?n = "unat sz"
  let ?g = "grown ?n"
  have g: "?g \<le> 0x400000" "?n + 11 \<le> ?g" using grown_bounds [of ?n] assms(3) by simp_all
  have hd: "hdr ?m p a (k, f)" using assms(1,2,4) by (simp add: heap_is_def)
  note u = hdr_unat [OF hd]
  have e: "unat (heap_end h) = e" "e \<le> heap_limit" using unat_heap_end [OF assms(1)] assms(1,4,5) by (simp_all add: heap_is_def)
  note eh = of_nat_unatI [OF e(1)]
  have nw: "e + ?g < 2 ^ 32" using e(2) g(1) by (simp add: heap_limit_def)
  have gu: "unat (of_nat ?g :: u32) = ?g" "(of_nat ?g - SIZEOF_BLOCK :: u32) = of_nat (?g - 9)" "(of_nat (?g - 9) :: u32) \<noteq> 0"
    using g nw of_nat_eq32 [of "?g - 9" 0] by (simp_all add: unat_of_nat_eq32 of_nat_diff)
  have se: "unat (heap_end h + of_nat ?g) = e + ?g" using unat_add32 [of "heap_end h" "of_nat ?g"] e(1) gu(1) nw by linarith
  have gr: "grow_heap h ((sz + SIZEOF_BLOCK + 1) div 0x1000 + 1) = (if heap_limit < e + ?g then 0 else of_nat e)"
    using se eh grown_word [OF assms(3)] heap_consts(3) by (simp add: grow_heap_def word_less_nat_alt)
  show "grow_for h sz p = None" if "heap_limit < e + ?g" using gr that by (simp add: grow_for_def Let_def)
  assume room: "e + ?g \<le> heap_limit"
  define m1 where "m1 = set_next (set_flags (set_size ?m (of_nat e) (of_nat (?g - 9))) (of_nat e) 1) (of_nat e) 0"
  define m' where "m' = set_next m1 p (of_nat e)"
  let ?h = "h\<lparr>heap_size := heap_size h + of_nat ?g, hmem := m'\<rparr>"
  have ne: "of_nat e \<noteq> (0 :: ptr)" using of_nat_eq32 [of e 0] nw assms(5) by simp
  have r: "grow_for h sz p = Some (of_nat e, ?h)"
    using gr room ne gu(2,3) grown_word(1) [OF assms(3)] by (simp add: grow_for_def Let_def init_block_def m1_def m'_def)
  have s1: "same_on ?m m1 lo hi" if "hi \<le> e" for lo hi
    unfolding m1_def using that g nw by (intro same_on_trans [OF same_on_trans [OF set_same(1) set_same(2)] set_same(3)]) auto
  have s2: "same_on m1 m' lo hi" if "hi \<le> 2 ^ 32" "hi \<le> a \<or> a + 9 \<le> lo" for lo hi
    unfolding m'_def u(3) using that u(6) by (intro set_same(3)) auto
  have fr: "same_on ?m m' lo hi" if "hi \<le> e" "hi \<le> a \<or> a + 9 \<le> lo" for lo hi
    using that nw by (intro same_on_trans [OF s1 s2]) auto
  have l: "blk_size m1 p = of_nat k" "blk_flags m1 p = blk_flags ?m p" using blk_same [OF s1 [of "a + 9" a]] u assms(5) by simp_all
  have lst: "hdr m' p a (k, f)" "blk_next m' p = of_nat e" using l u assms(5) by (simp_all add: hdr_def m'_def)
  have "blk_size m' (of_nat e) = of_nat (?g - 9)" "blk_flags m' (of_nat e) = 1" "blk_next m' (of_nat e) = 0"
    using blk_same [OF s2 [of "e + 9" e]] g nw assms(5) by (simp_all add: m1_def)
  then have new: "hdr m' (of_nat e) e (?g - 9, True)" "blk_next m' (of_nat e) = 0" using g nw by (simp_all add: hdr_def)
  have pr: "part m' HEAP_START heap_base pre" "reach m' HEAP_START pre = p"
    using part_frame [of ?m HEAP_START heap_base pre m'] fr [of a heap_base] assms(1,2,4,5) by (simp_all add: heap_is_def)
  have "unat (heap_size h + of_nat ?g) = unat (heap_size h) + ?g"
    using unat_add32 [of "heap_size h" "of_nat ?g"] gu(1) nw assms(1,4,5) by (simp add: heap_is_def)
  then have "heap_is ?h (pre @ [(k, f)] @ [(?g - 9, True)])"
    using pr lst new assms(1,4,5) g room by (simp add: heap_is_def add.assoc)
  then show "\<exists>h'. grow_for h sz p = Some (of_nat e, h') \<and> reach (hmem h') HEAP_START (pre @ [(k, f)]) = of_nat e \<and>
      heap_is h' (pre @ [(k, f)] @ [(?g - 9, True)]) \<and> (\<forall>lo hi. hi \<le> e \<and> (hi \<le> a \<or> a + 9 \<le> lo) \<longrightarrow> same_on (hmem h) (hmem h') lo hi)"
    using r fr pr lst by auto
qed


text \<open>The blocks in use, as addresses of their memory and sizes.\<close>

fun live_from :: "nat \<Rightarrow> segment list \<Rightarrow> (nat \<times> nat) list" where
  "live_from a [] = []"
| "live_from a (s # bs) = (if snd s then [] else [(a + 9, fst s)]) @ live_from (a + 9 + fst s) bs"

lemma live_append [simp]: "live_from a (xs @ ys) = live_from a xs @ live_from (a + span xs) ys"
  by (induction xs arbitrary: a) (auto simp: add.assoc)

lemma live_bounds: "(q, k) \<in> set (live_from a bs) \<Longrightarrow> a + 9 \<le> q \<and> q + k \<le> a + span bs"
  by (induction bs arbitrary: a) (fastforce split: if_splits)+

definition keeps :: "mem \<Rightarrow> mem \<Rightarrow> (nat \<times> nat) set \<Rightarrow> bool" where
  "keeps m m' bs \<longleftrightarrow> (\<forall>(q, k)\<in>bs. same_on m m' q (q + k))"

lemma keeps_refl [simp]: "keeps m m bs"
  by (simp add: keeps_def)

lemma keeps_trans: "keeps a b xs \<Longrightarrow> keeps b c xs \<Longrightarrow> keeps a c xs"
  unfolding keeps_def using same_on_trans by fast

lemma keeps_mono: "keeps m m' ys \<Longrightarrow> xs \<subseteq> ys \<Longrightarrow> keeps m m' xs"
  unfolding keeps_def by blast

text \<open>A change in the header of a block, or anywhere in a free one, keeps the blocks in use.\<close>

lemma keeps_around:
  assumes "heap_is h (pre @ s # post)" and "a = heap_base + span pre"
    and "\<And>lo hi. hi \<le> heap_base + span (pre @ s # post) \<Longrightarrow> hi \<le> a \<or> a + 9 \<le> lo \<and> (snd s \<longrightarrow> a + 9 + fst s \<le> lo) \<Longrightarrow> same_on (hmem h) m' lo hi"
  shows "keeps (hmem h) m' (set (live_from heap_base (pre @ s # post)))"
  unfolding keeps_def
proof (clarify)
  fix q k assume "(q, k) \<in> set (live_from heap_base (pre @ s # post))"
  then consider "(q, k) \<in> set (live_from heap_base pre)" | "q = a + 9" "k = fst s" "\<not> snd s" | "(q, k) \<in> set (live_from (a + 9 + fst s) post)"
    using assms(2) by (auto split: if_splits)
  then show "same_on (hmem h) m' q (q + k)"
  proof cases
    case 1
    then show ?thesis using live_bounds [OF 1] assms(2) by (intro assms(3)) auto
  next
    case 2
    then show ?thesis using assms(2) by (intro assms(3)) auto
  next
    case 3
    then show ?thesis using live_bounds [OF 3] assms(2) by (intro assms(3)) auto
  qed
qed

text \<open>\<open>malloc\<close> is first fit.\<close>

lemma malloc_fit:
  assumes "heap_is h (pre @ (k, True) # post)" and "\<forall>s\<in>set pre. \<not> fits (unat sz) s" and "fits (unat sz) (k, True)" and "0 < unat sz"
    and "unat sz + 10 < 2 ^ 32"
  shows "\<exists>h'. malloc h sz = Some (of_nat (heap_base + span pre + 9), h') \<and> heap_is h' (pre @ cut (unat sz) k @ post) \<and>
    keeps (hmem h) (hmem h') (set (live_from heap_base (pre @ (k, True) # post)))"
proof -
  let ?p = "reach (hmem h) HEAP_START pre"
  have hd: "hdr (hmem h) ?p (heap_base + span pre) (k, True)" and pr: "part (hmem h) HEAP_START heap_base pre"
    using assms(1) by (simp_all add: heap_is_def)
  have v: "is_valid_block h ?p" using valid_block [OF assms(1) hd] by simp
  have f: "find_block h sz HEAP_START HEAP_START = Some (?p, if pre = [] then HEAP_START else reach (hmem h) HEAP_START (butlast pre))"
    using hd assms(2,3) by (intro find_block_run [OF assms(1,5) pr, of "(k, True)"]) auto
  obtain h' where h': "carve h ?p sz = Some (of_nat (heap_base + span pre + 9), h')" "heap_is h' (pre @ cut (unat sz) k @ post)"
    and fr: "\<forall>lo hi. hi \<le> heap_base + span pre \<or> heap_base + span pre + 9 + k \<le> lo \<and> hi \<le> 2 ^ 32 \<longrightarrow> same_on (hmem h) (hmem h') lo hi"
    using carve_ok [OF assms(1) refl refl assms(4)] assms(3) by (auto simp: fits_def)
  have "keeps (hmem h) (hmem h') (set (live_from heap_base (pre @ (k, True) # post)))"
    using fr assms(1) heap_consts(5) by (intro keeps_around [OF assms(1) refl]) (auto simp: heap_is_def)
  then show ?thesis using f v h' by (simp add: malloc_def)
qed

lemma malloc_grow:
  assumes "heap_is h bs" and "\<forall>s\<in>set bs. \<not> fits (unat sz) s" and "0 < unat sz" and "unat sz + 10 < 0x400000" and "e = heap_base + span bs"
  shows "heap_limit < e + grown (unat sz) \<Longrightarrow> malloc h sz = None"
    and "e + grown (unat sz) \<le> heap_limit \<Longrightarrow> \<exists>h'. malloc h sz = Some (of_nat (e + 9), h') \<and>
      heap_is h' (bs @ cut (unat sz) (grown (unat sz) - 9)) \<and> keeps (hmem h) (hmem h') (set (live_from heap_base bs))"
proof -
  obtain pre k f where bs: "bs = pre @ [(k, f)]" using assms(1) by (metis heap_is_def rev_exhaust surj_pair)
  let ?p = "reach (hmem h) HEAP_START pre" and ?n = "unat sz"
  have pr: "part (hmem h) HEAP_START heap_base bs" "reach (hmem h) HEAP_START bs = 0" using assms(1) by (simp_all add: heap_is_def)
  have f: "find_block h sz HEAP_START HEAP_START = Some (0, ?p)"
    using find_block_run [OF assms(1) _ pr(1), of sz "(0, False)" HEAP_START] assms(2,4) pr(2) bs by simp
  have e: "e = heap_base + span pre + 9 + k" using assms(5) bs by simp
  note hb = assms(1) [unfolded bs]
  note g = grow_for_ok [OF hb refl assms(4) refl e]
  show "malloc h sz = None" if "heap_limit < e + grown ?n" using f g(1) [OF that] by (simp add: malloc_def)
  assume "e + grown ?n \<le> heap_limit"
  from g(2) [OF this] obtain h1 where h1: "grow_for h sz ?p = Some (of_nat e, h1)" "reach (hmem h1) HEAP_START bs = of_nat e"
    "heap_is h1 (bs @ (grown ?n - 9, True) # [])"
    and fr: "\<And>lo hi. hi \<le> e \<and> (hi \<le> heap_base + span pre \<or> heap_base + span pre + 9 \<le> lo) \<Longrightarrow> same_on (hmem h) (hmem h1) lo hi"
    using bs by auto
  have k1: "keeps (hmem h) (hmem h1) (set (live_from heap_base bs))"
    unfolding bs using fr e by (intro keeps_around [OF hb refl]) auto
  have "?n \<le> grown ?n - 9" using grown_bounds(1) [of ?n] by linarith
  from carve_ok [OF h1(3) h1(2) [symmetric] refl assms(3) this] obtain h2 where h2: "carve h1 (of_nat e) sz = Some (of_nat (e + 9), h2)"
    "heap_is h2 (bs @ cut ?n (grown ?n - 9))"
    and fr2: "\<And>lo hi. hi \<le> e \<Longrightarrow> same_on (hmem h1) (hmem h2) lo hi" using assms(5) by auto
  have "keeps (hmem h1) (hmem h2) (set (live_from heap_base bs))"
    unfolding keeps_def using fr2 live_bounds assms(5) by (auto simp: keeps_def)
  then show "\<exists>h'. malloc h sz = Some (of_nat (e + 9), h') \<and> heap_is h' (bs @ cut ?n (grown ?n - 9)) \<and>
      keeps (hmem h) (hmem h') (set (live_from heap_base bs))"
    using f h1(1) h2 keeps_trans [OF k1] by (simp add: malloc_def)
qed


section \<open>Release\<close>

text \<open>One pass over the blocks joins pairs of free neighbours.\<close>

fun merge_pass :: "segment list \<Rightarrow> segment list" where
  "merge_pass [] = []"
| "merge_pass [s] = [s]"
| "merge_pass (s # t # bs) =
     (if snd s \<and> snd t then (fst s + 9 + fst t, True) # merge_pass bs else s # merge_pass (t # bs))"

lemma live_merge_pass [simp]: "live_from a (merge_pass bs) = live_from a bs"
  by (induction bs arbitrary: a rule: merge_pass.induct) (auto simp: add.assoc)

lemma span_merge_pass [simp]: "span (merge_pass bs) = span bs"
  by (induction bs rule: merge_pass.induct) auto

lemma merge_pair:
  assumes "heap_is h (pre @ (k, True) # (l, True) # post)" and "p = reach (hmem h) HEAP_START pre" and "n = blk_next (hmem h) p"
    and "m1 = set_size (hmem h) p (blk_size (hmem h) p + (SIZEOF_BLOCK + blk_size (hmem h) n))" and "m2 = set_next m1 p (blk_next m1 n)"
  shows "heap_is (h\<lparr>hmem := m2\<rparr>) (pre @ (k + 9 + l, True) # post)" and "blk_next m2 p = blk_next (hmem h) n"
    and "keeps (hmem h) m2 (set (live_from heap_base (pre @ (k, True) # (l, True) # post)))"
proof -
  let ?m = "hmem h"
  define a where "a = heap_base + span pre"
  have hp: "hdr ?m p a (k, True)" and hn: "hdr ?m n (a + 9 + k) (l, True)" using assms(1-3) by (simp_all add: heap_is_def a_def)
  note up = hdr_unat [OF hp] and un = hdr_unat [OF hn]
  have lim: "a + 9 + k + 9 + l \<le> 2 ^ 32" using un(6) by simp
  have s1: "same_on ?m m1 lo hi" if "hi \<le> 2 ^ 32" "hi \<le> a \<or> a + 9 \<le> lo" for lo hi
    unfolding assms(4) up(3) using that lim by (intro set_same(1)) auto
  have s2: "same_on m1 m2 lo hi" if "hi \<le> 2 ^ 32" "hi \<le> a \<or> a + 9 \<le> lo" for lo hi
    unfolding assms(5) up(3) using that lim by (intro set_same(3)) auto
  note s = same_on_trans [OF s1 s2]
  have nn: "blk_next m1 n = blk_next ?m n" using blk_same(3) [OF s1 [of "a + 9 + k + 9" "a + 9 + k"]] un(3) lim by simp
  then show nx: "blk_next m2 p = blk_next ?m n" by (simp add: assms(5))
  have "blk_size m2 p = of_nat (k + 9 + l)" "blk_flags m2 p = blk_flags ?m p" using up(4) un(4) by (simp_all add: assms(4,5))
  then have "hdr m2 p a (k + 9 + l, True)" using up lim by (simp add: hdr_def)
  then have "heap_is (h\<lparr>hmem := m2, allocated := allocated h, freed := freed h\<rparr>) (pre @ [(k + 9 + l, True)] @ post)"
    using assms(1,2) nx lim s heap_consts(5)
    by (intro heap_is_replace [where old = "[(k, True), (l, True)]" and a = a and p = p]) (auto simp: heap_is_def a_def assms(3))
  then show "heap_is (h\<lparr>hmem := m2\<rparr>) (pre @ (k + 9 + l, True) # post)" by simp
  show "keeps ?m m2 (set (live_from heap_base (pre @ (k, True) # (l, True) # post)))"
    using s assms(1) heap_consts(5) by (intro keeps_around [OF assms(1) a_def]) (auto simp: heap_is_def)
qed

lemma merge_loop_run:
  "heap_is h (pre @ bs) \<Longrightarrow> p = reach (hmem h) HEAP_START pre \<Longrightarrow>
   \<exists>m'. merge_loop h p = Some (h\<lparr>hmem := m'\<rparr>) \<and> heap_is (h\<lparr>hmem := m'\<rparr>) (pre @ merge_pass bs) \<and>
     keeps (hmem h) m' (set (live_from heap_base (pre @ bs)))"
proof (induction bs arbitrary: h pre p rule: merge_pass.induct)
  case (3 s t bs)
  let ?m = "hmem h"
  let ?n = "blk_next ?m p"
  have hp: "hdr ?m p (heap_base + span pre) s" and hn: "hdr ?m ?n (heap_base + span pre + 9 + fst s) t"
    using 3(3,4) by (simp_all add: heap_is_def)
  have v: "is_valid_block h p" "is_valid_block h ?n" using valid_block [OF 3(3) hp] valid_block [OF 3(3) hn] by simp_all
  have adj: "?n = p + SIZEOF_BLOCK + blk_size ?m p" using hdr_unat [OF hp] hdr_unat [OF hn] by simp
  show ?case
  proof (cases "snd s \<and> snd t")
    case True
    then have st: "s = (fst s, True)" "t = (fst t, True)" by (metis prod.collapse)+
    define m1 where "m1 = set_size ?m p (blk_size ?m p + (SIZEOF_BLOCK + blk_size ?m ?n))"
    define m2 where "m2 = set_next m1 p (blk_next m1 ?n)"
    let ?h = "h\<lparr>hmem := m2\<rparr>" and ?pre = "pre @ [(fst s + 9 + fst t, True)]"
    have hs: "heap_is h (pre @ (fst s, True) # (fst t, True) # bs)" using 3(3) st by simp
    note mp = merge_pair [OF hs 3(4) refl m1_def m2_def]
    have eq: "merge_loop h p = merge_loop ?h (blk_next m2 p)"
      using v adj True hdr_unat(7) [OF hp] hdr_unat(7) [OF hn] by (subst merge_loop.simps) (simp add: Let_def m1_def m2_def)
    have "same_on ?m m2 heap_base (heap_base + span pre)"
      unfolding m2_def m1_def hdr_unat(3) [OF hp] using hdr_unat(6) [OF hp] by (intro same_on_trans [OF set_same(1) set_same(3)]) auto
    then have rp: "reach m2 HEAP_START pre = p"
      using part_frame [of ?m HEAP_START heap_base pre m2] 3(3,4) by (simp add: heap_is_def)
    have "heap_is ?h (?pre @ bs)" "blk_next m2 p = reach (hmem ?h) HEAP_START ?pre" using mp(1) rp by simp_all
    from 3(1) [OF True this] obtain m' where m': "merge_loop ?h (blk_next m2 p) = Some (?h\<lparr>hmem := m'\<rparr>)"
      "heap_is (?h\<lparr>hmem := m'\<rparr>) (?pre @ merge_pass bs)" "keeps (hmem ?h) m' (set (live_from heap_base (?pre @ bs)))" by blast
    have "live_from heap_base (?pre @ bs) = live_from heap_base (pre @ s # t # bs)" using True by (simp add: add.assoc)
    then have "keeps ?m m' (set (live_from heap_base (pre @ s # t # bs)))" using m'(3) mp(3) st keeps_trans by (metis heap_state.select_convs(1) heap_state.surjective heap_state.update_convs(1))
    then show ?thesis using eq m'(1,2) True by auto
  next
    case False
    have eq: "merge_loop h p = merge_loop h ?n"
      using v adj False hdr_unat(7) [OF hp] hdr_unat(7) [OF hn] by (subst merge_loop.simps) (auto simp: Let_def)
    have "heap_is h ((pre @ [s]) @ t # bs)" "?n = reach ?m HEAP_START (pre @ [s])" using 3(3,4) by simp_all
    from 3(2) [OF False this] show ?thesis unfolding eq using False by auto
  qed
next
  case 1
  then have "p = 0" by (simp add: heap_is_def)
  then have "merge_loop h p = Some h" by (subst merge_loop.simps) simp
  then show ?case using 1 by (intro exI [of _ "hmem h"]) simp
next
  case (2 s)
  then have "hdr (hmem h) p (heap_base + span pre) s" "blk_next (hmem h) p = 0" by (simp_all add: heap_is_def)
  moreover have "merge_loop h 0 = Some h" by (subst merge_loop.simps) simp
  ultimately have "merge_loop h p = Some h" by (subst merge_loop.simps) (simp add: Let_def)
  then show ?case using 2 by (intro exI [of _ "hmem h"]) simp
qed

lemma free_live:
  assumes "heap_is h (pre @ (k, False) # post)" and "p = of_nat (heap_base + span pre + 9)"
  shows "\<exists>h'. free h p = Some h' \<and> heap_is h' (merge_pass (pre @ (k, True) # post)) \<and>
    keeps (hmem h) (hmem h') (set (live_from heap_base (pre @ (k, True) # post)))"
proof -
  let ?b = "reach (hmem h) HEAP_START pre" and ?m = "hmem h"
  define a where "a = heap_base + span pre"
  have hd: "hdr ?m ?b a (k, False)" using assms(1) by (simp add: heap_is_def a_def)
  note u = hdr_unat [OF hd]
  have b: "p - SIZEOF_BLOCK = ?b" using u(3) assms(2) by (simp add: a_def)
  have v: "is_valid_block h ?b" using valid_block [OF assms(1) hd] by (simp add: a_def)
  define m1 where "m1 = set_flags ?m ?b (blk_flags ?m ?b OR 1)"
  let ?h = "h\<lparr>hmem := m1, freed := freed h + blk_size ?m ?b\<rparr>"
  have s1: "same_on ?m m1 lo hi" if "hi \<le> 2 ^ 32" "hi \<le> a \<or> a + 9 \<le> lo" for lo hi
    unfolding m1_def u(3) using that u(6) by (intro set_same(2)) auto
  have "hdr m1 ?b a (k, True)" "blk_next m1 ?b = blk_next ?m ?b" using u by (simp_all add: m1_def hdr_def)
  then have "heap_is (h\<lparr>hmem := m1, allocated := allocated h, freed := freed h + blk_size ?m ?b\<rparr>) (pre @ [(k, True)] @ post)"
    using assms(1) s1 heap_consts(5) u(6)
    by (intro heap_is_replace [where old = "[(k, False)]" and a = a and p = ?b]) (auto simp: heap_is_def a_def)
  then have h1: "heap_is ?h ([] @ pre @ (k, True) # post)" by simp
  from merge_loop_run [OF h1, of HEAP_START] obtain m' where m': "mem_merge ?h = Some (?h\<lparr>hmem := m'\<rparr>)"
    "heap_is (?h\<lparr>hmem := m'\<rparr>) (merge_pass (pre @ (k, True) # post))"
    "keeps m1 m' (set (live_from heap_base (pre @ (k, True) # post)))" by (auto simp: mem_merge_def)
  have "keeps ?m m1 (set (live_from heap_base (pre @ (k, False) # post)))"
    using s1 assms(1) heap_consts(5) by (intro keeps_around [OF assms(1) a_def]) (auto simp: heap_is_def)
  then have "keeps ?m m1 (set (live_from heap_base (pre @ (k, True) # post)))" by (rule keeps_mono) auto
  then have "keeps ?m m' (set (live_from heap_base (pre @ (k, True) # post)))" using m'(3) keeps_trans by blast
  moreover have "free h p = mem_merge ?h" using v u(7) by (simp add: free_def b m1_def Let_def)
  ultimately show ?thesis using m'(1,2) by auto
qed


section \<open>The interface of an allocator\<close>

lemma part_unique:
  "part m p a bs \<Longrightarrow> reach m p bs = 0 \<Longrightarrow> part m p a cs \<Longrightarrow> reach m p cs = 0 \<Longrightarrow> 0 < a \<Longrightarrow> bs = cs"
proof (induction bs arbitrary: p a cs)
  case Nil
  then show ?case using hdr_unat(1) by (cases cs) fastforce+
next
  case (Cons s bs)
  have h: "hdr m p a s" using Cons(2) by simp
  then have "p \<noteq> 0" using hdr_unat(1) [OF h] Cons(6) by auto
  then obtain t cs' where cs: "cs = t # cs'" using Cons(5) by (cases cs) auto
  have "hdr m p a t" using Cons(4) cs by simp
  then have "s = t" using hdr_unat(2,7) [OF h] hdr_unat(2,7) [of m p a t] by (simp add: prod_eq_iff)
  then show ?case using Cons(1) [of "blk_next m p" "a + 9 + fst s" cs'] Cons(2-6) cs by simp
qed

lemma heap_is_unique: "heap_is h bs \<Longrightarrow> heap_is h cs \<Longrightarrow> bs = cs"
  using part_unique [of "hmem h" HEAP_START heap_base bs cs] heap_consts(6) by (simp add: heap_is_def)

definition heap_ok :: "heap_state \<Rightarrow> bool" where
  "heap_ok h \<longleftrightarrow> (\<exists>bs. heap_is h bs)"

definition heap_live :: "heap_state \<Rightarrow> (nat \<times> nat) set" where
  "heap_live h = {x. \<exists>bs. heap_is h bs \<and> x \<in> set (live_from heap_base bs)}"

lemma heap_live_eq: "heap_is h bs \<Longrightarrow> heap_live h = set (live_from heap_base bs)"
  using heap_is_unique by (auto simp: heap_live_def)

lemma live_split:
  "(q, k) \<in> set (live_from a bs) \<Longrightarrow> \<exists>pre post. bs = pre @ (k, False) # post \<and> q = a + span pre + 9"
proof (induction bs arbitrary: a)
  case (Cons s bs)
  show ?case
  proof (cases "\<not> snd s \<and> q = a + 9 \<and> k = fst s")
    case True
    then have "s # bs = [] @ (k, False) # bs \<and> q = a + span [] + 9" by (cases s) auto
    then show ?thesis by blast
  next
    case False
    then have "(q, k) \<in> set (live_from (a + 9 + fst s) bs)" using Cons(2) by (auto split: if_splits)
    from Cons(1) [OF this] obtain pre post where "bs = pre @ (k, False) # post" "q = a + 9 + fst s + span pre + 9" by blast
    then have "s # bs = (s # pre) @ (k, False) # post \<and> q = a + span (s # pre) + 9" by simp
    then show ?thesis by blast
  qed
qed simp

lemma live_others:
  assumes "bs = pre @ (k, False) # post" and "(q, l) \<in> set (live_from a bs)" and "(q, l) \<noteq> (a + span pre + 9, k)"
  shows "(q, l) \<in> set (live_from a (pre @ (k, True) # post))" "q + l \<le> a + span pre \<or> a + span pre + 9 + k \<le> q"
proof -
  show m: "(q, l) \<in> set (live_from a (pre @ (k, True) # post))" using assms by auto
  then show "q + l \<le> a + span pre \<or> a + span pre + 9 + k \<le> q" using live_bounds by fastforce
qed

lemma live_marked: "set (live_from a (pre @ (k, True) # post)) = set (live_from a (pre @ (k, False) # post)) - {(a + span pre + 9, k)}"
  using live_bounds [of "a + span pre + 9" k a pre] live_bounds [of "a + span pre + 9" k "a + span pre + 9 + k" post] by auto

lemma inside_range:
  assumes "unat p + n \<le> 2 ^ 32"
  shows "inside p n x \<longleftrightarrow> unat p \<le> unat x \<and> unat x < unat p + n"
proof (cases "p \<le> x")
  case True
  then show ?thesis using unat_sub32 [OF True] by (auto simp: inside_def word_le_nat_alt)
next
  case False
  then have lt: "x < p" by simp
  have "n \<le> unat (x - p)" using unat_sub_wrap [OF lt] assms by linarith
  then show ?thesis using lt by (simp add: inside_def word_less_nat_alt)
qed

lemma offset_inside: "i < n \<Longrightarrow> n \<le> 2 ^ 32 \<Longrightarrow> inside p n (p + of_nat i)"
  by (simp add: inside_def unat_of_nat_eq32)

lemma block_same: "same_on m m' (unat p) (unat p + n) \<Longrightarrow> block m' p n = block m p n"
proof -
  assume s: "same_on m m' (unat p) (unat p + n)"
  have "m' (p + of_nat i) = m (p + of_nat i)" if "i < n" for i
    using same_onD [OF s, of "unat p + i"] that by simp
  then show ?thesis by (simp add: block_def)
qed

text \<open>
  What a client relies on. \<open>live\<close> are the blocks handed out (address and size), \<open>bytes\<close> the memory, \<open>put_bytes\<close> the
  client's own writes. The request is positive and below four megabytes.
\<close>

locale allocator =
  fixes ok :: "'s \<Rightarrow> bool"
    and live :: "'s \<Rightarrow> (nat \<times> nat) set"
    and bytes :: "'s \<Rightarrow> mem"
    and put_bytes :: "'s \<Rightarrow> mem \<Rightarrow> 's"
    and alloc :: "'s \<Rightarrow> u32 \<Rightarrow> (ptr \<times> 's) option"
    and release :: "'s \<Rightarrow> ptr \<Rightarrow> 's option"
  assumes apart: "ok s \<Longrightarrow> (x, k) \<in> live s \<Longrightarrow> (y, l) \<in> live s \<Longrightarrow> (x, k) \<noteq> (y, l) \<Longrightarrow> x + k \<le> y \<or> y + l \<le> x"
    and bounds: "ok s \<Longrightarrow> (x, k) \<in> live s \<Longrightarrow> 0 < x \<and> x + k \<le> 2 ^ 32 \<and> k < 2 ^ 31"
    and alloc_law: "ok s \<Longrightarrow> 0 < unat n \<Longrightarrow> unat n + 10 < 0x400000 \<Longrightarrow> alloc s n = Some (p, s') \<Longrightarrow>
      ok s' \<and> keeps (bytes s) (bytes s') (live s) \<and>
      (\<exists>k. unat n \<le> k \<and> (unat p, k) \<notin> live s \<and> live s' = insert (unat p, k) (live s))"
    and release_law: "ok s \<Longrightarrow> (unat p, k) \<in> live s \<Longrightarrow>
      \<exists>s'. release s p = Some s' \<and> ok s' \<and> live s' = live s - {(unat p, k)} \<and> keeps (bytes s) (bytes s') (live s')"
    and write_law: "ok s \<Longrightarrow> (x, k) \<in> live s \<Longrightarrow> (\<And>lo hi. hi \<le> 2 ^ 32 \<Longrightarrow> hi \<le> x \<or> x + k \<le> lo \<Longrightarrow> same_on (bytes s) m lo hi) \<Longrightarrow>
      ok (put_bytes s m) \<and> live (put_bytes s m) = live s \<and> bytes (put_bytes s m) = m"
begin

text \<open>
  Moving a block: a new one, the first bytes copied, the old one released. The new block holds
  what the old one held, and every other block keeps its bytes.
\<close>

lemma move_block:
  assumes "ok s" and "(unat old, k) \<in> live s" and "0 < unat n" and "unat n + 10 < 0x400000" and "alloc s n = Some (p, s1)"
    and "unat c \<le> k" and "unat c \<le> unat n"
  shows "\<exists>s2 l. release (put_bytes s1 (snd (memmove (bytes s1) p old c))) old = Some s2 \<and> ok s2 \<and> unat n \<le> l \<and>
    live s2 = insert (unat p, l) (live s - {(unat old, k)}) \<and> block (bytes s2) p (unat c) = block (bytes s) old (unat c) \<and>
    keeps (bytes s) (bytes s2) (live s - {(unat old, k)})"
proof -
  obtain l where l: "unat n \<le> l" "(unat p, l) \<notin> live s" "live s1 = insert (unat p, l) (live s)" "ok s1"
    and k1: "keeps (bytes s) (bytes s1) (live s)" using alloc_law [OF assms(1,3,4,5)] by blast
  have mem1: "(unat p, l) \<in> live s1" "(unat old, k) \<in> live s1" using l(3) assms(2) by auto
  note bp = bounds [OF l(4) mem1(1)] and bo = bounds [OF l(4) mem1(2)]
  let ?m = "snd (memmove (bytes s1) p old c)"
  have nz: "p \<noteq> 0" "old \<noteq> 0" using bp bo by auto
  have mv: "?m x = (if inside p (unat c) x then bytes s1 (old + (x - p)) else bytes s1 x)" for x
    using bp bo l(1) assms(6,7) by (intro memmove_bytes [OF nz]) auto
  have out: "same_on (bytes s1) ?m lo hi" if "hi \<le> 2 ^ 32" "hi \<le> unat p \<or> unat p + l \<le> lo" for lo hi
    unfolding same_on_def using that mv inside_range [of p "unat c"] bp l(1) assms(7) by (auto simp: unat_of_nat_eq32)
  have w: "ok (put_bytes s1 ?m)" "live (put_bytes s1 ?m) = live s1" "bytes (put_bytes s1 ?m) = ?m"
    using write_law [OF l(4) mem1(1) out] by blast+
  obtain s2 where s2: "release (put_bytes s1 ?m) old = Some s2" "ok s2" "live s2 = live s1 - {(unat old, k)}" "keeps ?m (bytes s2) (live s2)"
    using release_law [OF w(1)] w(2,3) mem1(2) by metis
  have ne: "(unat p, l) \<noteq> (unat old, k)" using l(2) assms(2) by auto
  have "block (bytes s2) p (unat c) = block ?m p (unat c)"
  proof (rule block_same)
    have "(unat p, l) \<in> live s2" using mem1(1) s2(3) ne by simp
    then have "same_on ?m (bytes s2) (unat p) (unat p + l)" using s2(4) by (auto simp: keeps_def)
    then show "same_on ?m (bytes s2) (unat p) (unat p + unat c)" using l(1) assms(7) by (auto elim: same_on_sub)
  qed
  also have "\<dots> = block (bytes s1) old (unat c)" using mv offset_inside [of _ "unat c" p] unat_less32 [of c] by (simp add: block_def)
  also have "\<dots> = block (bytes s) old (unat c)"
  proof (rule block_same)
    have "same_on (bytes s) (bytes s1) (unat old) (unat old + k)" using k1 assms(2) by (auto simp: keeps_def)
    then show "same_on (bytes s) (bytes s1) (unat old) (unat old + unat c)" using assms(6) by (auto elim: same_on_sub)
  qed
  finally have copied: "block (bytes s2) p (unat c) = block (bytes s) old (unat c)" .
  have "same_on (bytes s1) ?m y (y + j)" if "(y, j) \<in> live s - {(unat old, k)}" for y j
    using that apart [OF l(4) mem1(1), of y j] bounds [OF assms(1), of y j] l(2,3) by (intro out) auto
  then have "keeps (bytes s1) ?m (live s - {(unat old, k)})" unfolding keeps_def by blast
  moreover have "keeps (bytes s) (bytes s1) (live s - {(unat old, k)})" using k1 by (rule keeps_mono) auto
  moreover have "keeps ?m (bytes s2) (live s - {(unat old, k)})" using s2(3,4) l(3) by (auto intro: keeps_mono)
  ultimately have "keeps (bytes s) (bytes s2) (live s - {(unat old, k)})" using keeps_trans by blast
  moreover have "live s2 = insert (unat p, l) (live s - {(unat old, k)})" using s2(3) l(3) ne by auto
  ultimately show ?thesis using s2(1,2) l(1) copied by blast
qed

end

lemma put_payload:
  assumes "heap_is h bs" and "(q, k) \<in> set (live_from heap_base bs)"
    and "\<And>lo hi. hi \<le> 2 ^ 32 \<Longrightarrow> hi \<le> q \<or> q + k \<le> lo \<Longrightarrow> same_on (hmem h) m lo hi"
  shows "heap_is (h\<lparr>hmem := m\<rparr>) bs"
proof -
  obtain pre post where bs: "bs = pre @ (k, False) # post" "q = heap_base + span pre + 9" using live_split [OF assms(2)] by blast
  have "b + 9 \<le> q \<or> q + k \<le> b" if "b \<in> set (heads heap_base bs)" for b
  proof -
    have "heads a (xs @ ys) = heads a xs @ heads (a + span xs) ys" for a xs ys by (induction xs arbitrary: a) (auto simp: add.assoc)
    then show ?thesis using that bs heads_bounds [of b heap_base pre] heads_bounds [of b "heap_base + span pre + 9 + k" post] by auto
  qed
  then have "\<forall>b\<in>set (heads heap_base bs). same_on (hmem h) m b (b + 9)"
    using assms(1) heap_consts(5) heads_bounds [of _ heap_base bs] by (auto intro!: assms(3) simp: heap_is_def) fastforce
  then show ?thesis using part_heads [of "hmem h" HEAP_START heap_base bs m] assms(1) by (simp add: heap_is_def)
qed

lemma live_cut: "live_from a (cut n k) = [(a + 9, if k < n + 10 then k else n)]"
  by (simp add: cut_def)

lemma span_cut: "n \<le> k \<Longrightarrow> span (cut n k) = 9 + k"
  by (simp add: cut_def)

lemma malloc_live:
  assumes "heap_is h bs" and "0 < unat n" and "unat n + 10 < 0x400000" and "malloc h n = Some (p, h')"
  shows "heap_ok h' \<and> keeps (hmem h) (hmem h') (heap_live h) \<and>
    (\<exists>k. unat n \<le> k \<and> (unat p, k) \<notin> heap_live h \<and> heap_live h' = insert (unat p, k) (heap_live h))"
proof -
  have insert: ?thesis if "bs = pre @ old @ post" "heap_is h' (pre @ cut (unat n) k @ post)" "unat n \<le> k" "p = of_nat (heap_base + span pre + 9)"
      "keeps (hmem h) (hmem h') (set (live_from heap_base bs))" "live_from (heap_base + span pre) old = []" "span old = 9 + k \<or> post = []" for pre old post k
  proof -
    let ?a = "heap_base + span pre" and ?k = "if k < unat n + 10 then k else unat n"
    have "?a + 9 < 2 ^ 32" using that(2,3) heap_consts(5) by (simp add: heap_is_def span_cut)
    then have p: "unat p = ?a + 9" using that(4) by (simp only: unat_of_nat_eq32)
    have new: "heap_live h' = insert (unat p, ?k) (heap_live h)"
      using that heap_live_eq [OF that(2)] heap_live_eq [OF assms(1)] p by (auto simp: live_cut span_cut add.assoc)
    have "(unat p, l) \<notin> heap_live h" for l
      using that(1,6,7) heap_live_eq [OF assms(1)] p live_bounds [of "?a + 9" l heap_base pre] live_bounds [of "?a + 9" l "?a + span old" post] by auto
    then show ?thesis using new that(2,3,5) heap_live_eq [OF assms(1)] by (auto simp: heap_ok_def intro!: exI [of _ ?k])
  qed
  show ?thesis
  proof (cases "\<exists>s\<in>set bs. fits (unat n) s")
    case True
    then obtain pre s post where sp: "bs = pre @ s # post" "fits (unat n) s" "\<forall>y\<in>set pre. \<not> fits (unat n) y"
      using split_list_first_prop [OF True] by auto
    then obtain k where s: "s = (k, True)" "unat n \<le> k" by (cases s) (auto simp: fits_def)
    from malloc_fit [OF assms(1) [unfolded sp(1) s(1)] sp(3) _ assms(2)] assms(3,4) sp s
    show ?thesis by (intro insert [of pre "[s]" post k]) auto
  next
    case False
    then have nf: "\<forall>s\<in>set bs. \<not> fits (unat n) s" by blast
    note g = malloc_grow [OF assms(1) nf assms(2,3) refl]
    have room: "heap_base + span bs + grown (unat n) \<le> heap_limit" using g(1) assms(4) by fastforce
    have "unat n \<le> grown (unat n) - 9" using grown_bounds(1) [of "unat n"] by linarith
    then show ?thesis using g(2) [OF room] assms(4) by (intro insert [of bs "[]" "[]" "grown (unat n) - 9"]) auto
  qed
qed

interpretation kheap: allocator heap_ok heap_live hmem "\<lambda>h m. h\<lparr>hmem := m\<rparr>" malloc free
proof
  fix s :: heap_state and x k y l
  assume ok: "heap_ok s" and a: "(x, k) \<in> heap_live s" 
  then obtain bs where bs: "heap_is s bs" by (auto simp: heap_ok_def)
  note lv = heap_live_eq [OF bs]
  obtain pre post where sp: "bs = pre @ (k, False) # post" "x = heap_base + span pre + 9" using live_split a lv by metis
  show "0 < x \<and> x + k \<le> 2 ^ 32 \<and> k < 2 ^ 31" using bs sp heap_consts(5) by (auto simp: heap_is_def heap_base_def heap_limit_def)
  assume "(y, l) \<in> heap_live s" "(x, k) \<noteq> (y, l)"
  then show "x + k \<le> y \<or> y + l \<le> x" using live_others [OF sp(1), of y l heap_base] lv sp(2) by auto
next
  fix s :: heap_state and n :: u32 and p s'
  assume "heap_ok s" "0 < unat n" "unat n + 10 < 0x400000" "malloc s n = Some (p, s')"
  then show "heap_ok s' \<and> keeps (hmem s) (hmem s') (heap_live s) \<and> (\<exists>k. unat n \<le> k \<and> (unat p, k) \<notin> heap_live s \<and> heap_live s' = insert (unat p, k) (heap_live s))"
    using malloc_live by (auto simp: heap_ok_def)
next
  fix s :: heap_state and p :: ptr and k
  assume ok: "heap_ok s" and a: "(unat p, k) \<in> heap_live s"
  then obtain bs where bs: "heap_is s bs" by (auto simp: heap_ok_def)
  note lv = heap_live_eq [OF bs]
  obtain pre post where sp: "bs = pre @ (k, False) # post" "unat p = heap_base + span pre + 9" using live_split a lv by metis
  from free_live [OF bs [unfolded sp(1)] of_nat_unatI [OF sp(2)]] obtain h' where h': "free s p = Some h'"
    "heap_is h' (merge_pass (pre @ (k, True) # post))" "keeps (hmem s) (hmem h') (set (live_from heap_base (pre @ (k, True) # post)))" by blast
  have "heap_live h' = heap_live s - {(unat p, k)}" using heap_live_eq [OF h'(2)] live_marked lv sp by simp
  then show "\<exists>s'. free s p = Some s' \<and> heap_ok s' \<and> heap_live s' = heap_live s - {(unat p, k)} \<and> keeps (hmem s) (hmem s') (heap_live s')"
    using h' heap_live_eq [OF h'(2)] by (auto simp: heap_ok_def)
next
  fix s :: heap_state and x k m
  assume ok: "heap_ok s" and a: "(x, k) \<in> heap_live s"
    and w: "\<And>lo hi. hi \<le> 2 ^ 32 \<Longrightarrow> hi \<le> x \<or> x + k \<le> lo \<Longrightarrow> same_on (hmem s) m lo hi"
  then obtain bs where bs: "heap_is s bs" by (auto simp: heap_ok_def)
  note lv = heap_live_eq [OF bs]
  have "heap_is (s\<lparr>hmem := m\<rparr>) bs" using a lv w by (intro put_payload [OF bs]) auto
  then show "heap_ok (s\<lparr>hmem := m\<rparr>) \<and> heap_live (s\<lparr>hmem := m\<rparr>) = heap_live s \<and> hmem (s\<lparr>hmem := m\<rparr>) = m"
    using heap_live_eq lv by (auto simp: heap_ok_def)
qed


section \<open>Properties\<close>

text \<open>
  What \<open>malloc\<close> does to the list of blocks: the offset of the block it chooses and the new list, or
  nothing when no block fits and the heap region is exhausted.
\<close>

definition place :: "nat \<Rightarrow> segment list \<Rightarrow> (nat \<times> segment list) option" where
  "place n bs =
     (let pre = takeWhile (\<lambda>s. \<not> fits n s) bs
      in case dropWhile (\<lambda>s. \<not> fits n s) bs of
           (k, _) # post \<Rightarrow> Some (span pre, pre @ cut n k @ post)
         | [] \<Rightarrow> if heap_base + span bs + grown n \<le> heap_limit then Some (span bs, bs @ cut n (grown n - 9)) else None)"

lemma place_cases:
  obtains (fit) pre k post where "bs = pre @ (k, True) # post" "\<forall>s\<in>set pre. \<not> fits n s" "fits n (k, True)"
      "place n bs = Some (span pre, pre @ cut n k @ post)"
  | (grow) "\<forall>s\<in>set bs. \<not> fits n s" "place n bs = (if heap_base + span bs + grown n \<le> heap_limit then Some (span bs, bs @ cut n (grown n - 9)) else None)"
proof (cases "dropWhile (\<lambda>s. \<not> fits n s) bs")
  case Nil
  then have "\<forall>s\<in>set bs. \<not> fits n s" by (simp add: dropWhile_eq_Nil_conv)
  then show ?thesis using grow Nil by (simp add: place_def)
next
  case (Cons s post)
  have f: "fits n s" using hd_dropWhile [of "\<lambda>s. \<not> fits n s" bs] Cons by simp
  obtain k where s: "s = (k, True)" using f by (cases s) (auto simp: fits_def)
  let ?pre = "takeWhile (\<lambda>s. \<not> fits n s) bs"
  have d: "bs = ?pre @ (k, True) # post" using takeWhile_dropWhile_id [of "\<lambda>s. \<not> fits n s" bs] unfolding Cons s by (rule sym)
  have p: "\<forall>s\<in>set ?pre. \<not> fits n s" by (blast dest: set_takeWhileD)
  have r: "place n bs = Some (span ?pre, ?pre @ cut n k @ post)" unfolding place_def Cons s by (simp add: Let_def)
  show ?thesis by (rule fit [OF d p f [unfolded s] r])
qed

lemma boot_heap: "\<exists>h. mem_heap_init m = Some h \<and> heap_is h [(0x3FF7, True)]"
proof -
  define m1 where "m1 = set_next (set_flags (set_size m HEAP_START 0x3FF7) HEAP_START 1) HEAP_START 0"
  have "mem_heap_init m = Some \<lparr>hmem = m1, heap_size = 0x4000, allocated = 0, freed = 0\<rparr>"
    by (simp add: mem_heap_init_def init_block_def m1_def)
  moreover have "hdr m1 HEAP_START heap_base (0x3FF7, True)" using heap_consts(1) by (simp add: hdr_def m1_def heap_base_def)
  moreover have "blk_next m1 HEAP_START = 0" by (simp add: m1_def)
  ultimately show ?thesis by (auto simp: heap_is_def heap_base_def heap_limit_def)
qed

lemma live_header:
  assumes "heap_is h bs" and "(unat p, k) \<in> heap_live h"
  shows "blk_size (hmem h) (p - SIZEOF_BLOCK) = of_nat k" "k < 2 ^ 32"
proof -
  obtain pre post where sp: "bs = pre @ (k, False) # post" "unat p = heap_base + span pre + 9"
    using live_split assms heap_live_eq by metis
  have hd: "hdr (hmem h) (reach (hmem h) HEAP_START pre) (heap_base + span pre) (k, False)" using assms(1) sp by (simp add: heap_is_def)
  note u = hdr_unat [OF hd]
  have "p - SIZEOF_BLOCK = of_nat (heap_base + span pre)" using of_nat_unatI [OF sp(2)] by simp
  then show "blk_size (hmem h) (p - SIZEOF_BLOCK) = of_nat k" using u(3,4) by simp
  show "k < 2 ^ 32" using u(6) by simp
qed

text \<open>
  C1: \<open>malloc\<close> is first fit on a heap whose blocks tile its region. For a request of at least one
  byte and of less than four megabytes less ten bytes (a request of no bytes, and one so large that
  the rounding of the growth wraps, are outside) it takes the first free block that fits, splits it when the rest can hold a block of
  its own, grows the heap when no block fits, and returns the memory behind the header it chose;
  the blocks tile the region again and no byte of a block in use has changed. It panics exactly
  when nothing fits and the region cannot grow.
\<close>

theorem malloc_is_first_fit:
  assumes "heap_is h bs" and "0 < unat sz" and "unat sz + 10 < 0x400000"
  shows "case place (unat sz) bs of None \<Rightarrow> malloc h sz = None
    | Some (off, bs') \<Rightarrow> \<exists>h'. malloc h sz = Some (of_nat (heap_base + off + 9), h') \<and> heap_is h' bs' \<and>
        keeps (hmem h) (hmem h') (heap_live h)"
proof (cases rule: place_cases [of bs "unat sz"])
  case (fit pre k post)
  have "unat sz + 10 < 2 ^ 32" using assms(3) by simp
  from malloc_fit [OF assms(1) [unfolded fit(1)] fit(2,3) assms(2) this] show ?thesis
    using fit(1,4) heap_live_eq [OF assms(1)] by auto
next
  case grow
  note g = malloc_grow [OF assms(1) grow(1) assms(2,3) refl]
  show ?thesis
  proof (cases "heap_base + span bs + grown (unat sz) \<le> heap_limit")
    case True
    then show ?thesis using g(2) [OF True] grow(2) heap_live_eq [OF assms(1)] by auto
  next
    case False
    then show ?thesis using g(1) grow(2) by simp
  qed
qed

theorem malloc_is_first_fit_witness:
  "\<exists>h h'. mem_heap_init (\<lambda>_. 0) = Some h \<and> malloc h 100 = Some (of_nat (heap_base + 9), h') \<and> heap_is h' [(100, False), (0x3F8A, True)]"
proof -
  obtain h where h: "mem_heap_init (\<lambda>_. 0) = Some h" "heap_is h [(0x3FF7, True)]" using boot_heap by blast
  have "place 100 [(0x3FF7, True)] = Some (0, [(100, False), (0x3F8A, True)])" by (simp add: place_def fits_def cut_def)
  then show ?thesis using malloc_is_first_fit [OF h(2), of 100] h(1) by auto
qed

text \<open>
  C2: \<open>free\<close> gives back exactly the block it is called with. Called with the address of a block in use
  it ends, the heap is well formed again with that block and no other gone from the blocks in use,
  and the bytes of all the others are untouched.
\<close>

theorem free_returns_the_block:
  assumes "heap_ok h" and "(unat p, k) \<in> heap_live h"
  shows "\<exists>h'. free h p = Some h' \<and> heap_ok h' \<and> heap_live h' = heap_live h - {(unat p, k)} \<and> keeps (hmem h) (hmem h') (heap_live h')"
  by (rule kheap.release_law [OF assms])

theorem free_returns_the_block_witness:
  "\<exists>h p h' h''. mem_heap_init (\<lambda>_. 0) = Some h \<and> malloc h 100 = Some (p, h') \<and> free h' p = Some h'' \<and> heap_ok h'' \<and> heap_live h'' = {}"
proof -
  obtain h where h: "mem_heap_init (\<lambda>_. 0) = Some h" "heap_is h ([] @ (0x3FF7, True) # [])" using boot_heap by auto
  obtain h' where h': "malloc h 100 = Some (of_nat (heap_base + 9), h')" "heap_is h' [(100, False), (0x3F8A, True)]"
    using malloc_fit [OF h(2), of 100] by (auto simp: fits_def cut_def)
  have u: "unat (of_nat (heap_base + 9) :: ptr) = heap_base + 9" by (simp only: heap_base_def) simp
  have l: "heap_live h' = {(heap_base + 9, 100)}" using heap_live_eq [OF h'(2)] by simp
  have "(unat (of_nat (heap_base + 9) :: ptr), 100) \<in> heap_live h'" unfolding u l by simp
  from free_returns_the_block [OF _ this] show ?thesis using h(1) h' l u by (auto simp: heap_ok_def)
qed

text \<open>
  C3: \<open>realloc\<close> moves a block. On a block in use of size \<open>k\<close>, with a new size of at least one byte and
  of less than four megabytes less ten bytes, it returns the same address when the size does not change; otherwise it fails only as \<open>malloc\<close> does, and when it succeeds the old block is no longer
  in use, a new one of at least the requested size is, the first bytes (as many as both have) are
  those of the old block, and no other block in use has changed.
\<close>

theorem realloc_moves_the_block:
  assumes "heap_ok h" and "(unat old, k) \<in> heap_live h" and "0 < unat sz" and "unat sz + 10 < 0x400000"
  shows "case realloc h old sz of None \<Rightarrow> malloc h sz = None
    | Some (p, h') \<Rightarrow> heap_ok h' \<and>
        (if k = unat sz then p = old \<and> h' = h
         else \<exists>l. unat sz \<le> l \<and> heap_live h' = insert (unat p, l) (heap_live h - {(unat old, k)}) \<and>
           block (hmem h') p (min k (unat sz)) = block (hmem h) old (min k (unat sz)) \<and>
           keeps (hmem h) (hmem h') (heap_live h - {(unat old, k)}))"
proof -
  obtain bs where bs: "heap_is h bs" using assms(1) by (auto simp: heap_ok_def)
  note hd = live_header [OF bs assms(2)]
  have k: "unat (of_nat k :: u32) = k" using hd(2) by (rule unat_of_nat_eq32)
  then have eq: "of_nat k = sz \<longleftrightarrow> k = unat sz" by auto
  show ?thesis
  proof (cases "k = unat sz")
    case True
    then show ?thesis using hd(1) eq assms(1) by (simp add: realloc_def)
  next
    case False
    show ?thesis
    proof (cases "malloc h sz")
      case None
      then show ?thesis using hd(1) eq False by (simp add: realloc_def)
    next
      case (Some r)
      then obtain p h1 where m: "malloc h sz = Some (p, h1)" by (cases r) auto
      let ?c = "if sz > of_nat k then of_nat k else sz :: u32"
      have c: "unat ?c = min k (unat sz)" using k by (auto simp: word_less_nat_alt)
      obtain bs1 where "heap_is h1 bs1" "(unat old, k) \<in> heap_live h1"
        using malloc_live [OF bs assms(3,4) m] assms(2) by (auto simp: heap_ok_def)
      then have hd1: "blk_size (hmem h1) (old - SIZEOF_BLOCK) = of_nat k" using live_header(1) by blast
      have "unat ?c \<le> k" "unat ?c \<le> unat sz" using c by simp_all
      from kheap.move_block [OF assms m this] obtain h2 l where h2: "free (h1\<lparr>hmem := snd (memmove (hmem h1) p old ?c)\<rparr>) old = Some h2"
        "heap_ok h2" "unat sz \<le> l" "heap_live h2 = insert (unat p, l) (heap_live h - {(unat old, k)})"
        "block (hmem h2) p (unat ?c) = block (hmem h) old (unat ?c)" "keeps (hmem h) (hmem h2) (heap_live h - {(unat old, k)})" by blast
      have "realloc h old sz = Some (p, h2)" using hd(1) eq False m hd1 h2(1) by (cases "of_nat k < sz") (simp_all add: realloc_def Let_def)
      then show ?thesis using h2(2-6) c False by auto
    qed
  qed
qed

theorem realloc_moves_the_block_witness:
  "\<exists>h p h'. mem_heap_init (\<lambda>_. 0) = Some h \<and> malloc h 100 = Some (p, h') \<and>
     (case realloc h' p 200 of None \<Rightarrow> malloc h' 200 = None | Some (q, h'') \<Rightarrow> heap_ok h'' \<and> block (hmem h'') q 100 = block (hmem h') p 100)"
proof -
  obtain h where h: "mem_heap_init (\<lambda>_. 0) = Some h" "heap_is h ([] @ (0x3FF7, True) # [])" using boot_heap by auto
  obtain h' where h': "malloc h 100 = Some (of_nat (heap_base + 9), h')" "heap_is h' [(100, False), (0x3F8A, True)]"
    using malloc_fit [OF h(2), of 100] by (auto simp: fits_def cut_def)
  have u: "unat (of_nat (heap_base + 9) :: ptr) = heap_base + 9" by (simp only: heap_base_def) simp
  have ok: "heap_ok h'" "(unat (of_nat (heap_base + 9) :: ptr), 100) \<in> heap_live h'"
    unfolding u using heap_live_eq [OF h'(2)] h'(2) by (auto simp: heap_ok_def)
  show ?thesis using realloc_moves_the_block [OF ok, of 200] h(1) h'(1) by (auto split: option.splits)
qed

end
