(* ===== verification/Mutex.thy ===== *)
theory Mutex
  imports Blocking
begin

text \<open>
  Mutexes, from \<^verbatim>\<open>kernel/src/proc/mutex.c\<close>. The code runs in system calls, which the processor enters
  through an interrupt gate, so that a process gives up the processor only where it goes to sleep:
  a call is a sequence of turns, each up to the return or to the next sleep. The spin lock spins
  without yielding, so a turn that finds it taken never ends (\<open>None\<close>).
\<close>

section \<open>Operations\<close>

record mutex =
  spin :: u32
  locked :: u8
  owner :: ptr
  mutex_queue :: ptr

text \<open>\<open>mutex_init\<close> does not set \<open>locked\<close>: \<open>junk\<close> is what the memory of the mutex held.\<close>

definition mutex_init :: "kernel \<Rightarrow> u8 \<Rightarrow> ptr \<Rightarrow> mutex \<times> kernel" where
  "mutex_init k junk q = (\<lparr>spin = 0, locked = junk, owner = NULL, mutex_queue = q\<rparr>, set_queue k q [])"

datatype lock_turn =
    Acquired
  | Waiting

text \<open>
  The loop of \<open>mutex_lock\<close> from its test on: \<open>k_proc_process_sleep_and_unlock\<close> releases the spin lock, and the test is made
  again, without it, when the process runs again.
\<close>

definition lock_loop :: "kernel \<Rightarrow> mutex \<Rightarrow> (lock_turn \<times> kernel \<times> mutex) option" where
  "lock_loop k m =
     (if locked m \<noteq> 0
      then do { k1 \<leftarrow> sleep_prepare k (current_process k) (mutex_queue m); Some (Waiting, k1, m\<lparr>spin := 0\<rparr>) }
      else Some (Acquired, k, m\<lparr>locked := 1, owner := current_process k, spin := 0\<rparr>))"

definition mutex_lock :: "kernel \<Rightarrow> mutex \<Rightarrow> (lock_turn \<times> kernel \<times> mutex) option" where
  "mutex_lock k m = (if spin m \<noteq> 0 then None else lock_loop k (m\<lparr>spin := 1\<rparr>))"

definition mutex_unlock :: "kernel \<Rightarrow> mutex \<Rightarrow> (kernel \<times> mutex) option" where
  "mutex_unlock k m =
     (if spin m \<noteq> 0 then None
      else do {
        let m1 = m\<lparr>spin := 1, locked := 0, owner := NULL\<rparr>;
        k1 \<leftarrow> k_proc_process_wakeup_queue_single k (mutex_queue m1);
        Some (k1, m1\<lparr>spin := 0\<rparr>) })"

section \<open>Waking one sleeper\<close>

lemma wakeup_single_sleeper:
  assumes "sched_inv k" and "queues k q = us @ [p]" and "pstate (procs k p) = PROCESS_STATE_SLEEPING"
  shows "\<exists>k'. k_proc_process_wakeup_queue_single k q = Some k' \<and> sched_inv k' \<and> same_rest k k' \<and> ready_queue k' = ready_queue k @ [p] \<and>
    queues k' q = removeAll p us \<and> (\<forall>r. r \<noteq> p \<longrightarrow> procs k' r = procs k r) \<and> (\<forall>r. has_block k' r = has_block k r)"
proof -
  obtain xs where ok: "links_ok k" "timers_ok k xs" using assms(1) by (auto simp: sched_inv_def)
  have el: "eligible (procs k p)" using assms(3) by (simp add: eligible_def PROCESS_IS_SCHEDULABLE_def)
  obtain k' ys where k': "wake_step k q = Some k'" "links_ok k'" "timers_ok k' ys" "same_rest k k'"
    "procs k' = (procs k)(p := ready_proc (off_queue q (procs k p)))" "queues k' = (\<lambda>q. removeAll p (queues k q))" "ready_queue k' = ready_queue k @ [p]"
    using wake_step_ok [OF ok assms(2)] el by metis
  obtain k1 where k1: "pop_waiter k q = Some (p, k1)"
    "k1 = k\<lparr>procs := (procs k)(p := off_queue q (procs k p)), queues := (queues k)(q := us)\<rparr>" by (rule pop_waiter_ok [OF ok assms(2)])
  have "pstate (procs k1 p) = PROCESS_STATE_SLEEPING" using k1(2) assms(3) by (simp add: off_queue_def)
  then have "k_proc_process_wakeup_queue_single k q = wake_step k q"
    using assms(2) k1(1) by (subst k_proc_process_wakeup_queue_single.simps)
      (simp add: wake_step_def eligible_def k_proc_process_is_ready_def PROCESS_IS_SCHEDULABLE_def)
  moreover have "has_block k' r = has_block k r" for r
    using k'(5) links_okD [OF ok(1), of p q] assms(2) by (auto simp: has_block_def ready_proc_def)
  ultimately show ?thesis using k' assms(2) by (auto simp: sched_inv_def)
qed


section \<open>Processes at work\<close>

text \<open>
  The states of a mutex shared by any number of processes: the scheduler, the mutex, and the
  processes between a completed \<open>mutex_lock\<close> and their \<open>mutex_unlock\<close>. A step is a turn of the current process (the
  first of a call of \<open>mutex_lock\<close>, a later one after a sleep, or \<open>mutex_unlock\<close> by a process that holds the mutex) or
  anything else the kernel does that leaves only sleeping processes in the queue of the mutex.
\<close>

type_synonym mutex_state = "kernel \<times> mutex \<times> ptr list"

inductive mutex_step :: "mutex_state \<Rightarrow> mutex_state \<Rightarrow> bool" where
  lock_turn: "has_block k (current_process k) \<Longrightarrow> mutex_lock k m = Some (r, k', m') \<Longrightarrow>
    mutex_step (k, m, hs) (k', m', if r = Acquired then current_process k # hs else hs)"
| resume_turn: "has_block k (current_process k) \<Longrightarrow> lock_loop k m = Some (r, k', m') \<Longrightarrow>
    mutex_step (k, m, hs) (k', m', if r = Acquired then current_process k # hs else hs)"
| unlock_turn: "current_process k \<in> set hs \<Longrightarrow> mutex_unlock k m = Some (k', m') \<Longrightarrow> mutex_step (k, m, hs) (k', m', remove1 (current_process k) hs)"
| other_turn: "sched_inv k' \<Longrightarrow> \<forall>p\<in>set (queues k' (mutex_queue m)). pstate (procs k' p) = PROCESS_STATE_SLEEPING \<Longrightarrow> mutex_step (k, m, hs) (k', m, hs)"

definition mutex_inv :: "ptr \<Rightarrow> mutex_state \<Rightarrow> bool" where
  "mutex_inv q = (\<lambda>(k, m, hs). sched_inv k \<and> mutex_queue m = q \<and> spin m = 0 \<and> length hs \<le> 1 \<and> (locked m \<noteq> 0 \<longleftrightarrow> hs \<noteq> []) \<and>
     (hs \<noteq> [] \<longrightarrow> owner m = hd hs) \<and> (\<forall>p\<in>set (queues k q). pstate (procs k p) = PROCESS_STATE_SLEEPING))"

lemma lock_loop_ok:
  assumes "mutex_inv q (k, m\<lparr>spin := 0\<rparr>, hs)" and "has_block k (current_process k)"
  shows "\<exists>r k' m'. lock_loop k m = Some (r, k', m') \<and> mutex_inv q (k', m', if r = Acquired then current_process k # hs else hs)"
proof (cases "locked m \<noteq> 0")
  case True
  have i: "sched_inv k" "mutex_queue m = q" using assms(1) by (simp_all add: mutex_inv_def)
  obtain k1 where k1: "sleep_prepare k (current_process k) q = Some k1" "sched_inv k1" "queues k1 = (queues k)(q := queues k q @ [current_process k])"
    "pstate (procs k1 (current_process k)) = PROCESS_STATE_SLEEPING" "\<forall>r. r \<noteq> current_process k \<longrightarrow> procs k1 r = procs k r"
    by (rule sleep_facts [OF i(1) assms(2), of q]) blast
  have "\<forall>p\<in>set (queues k1 q). pstate (procs k1 p) = PROCESS_STATE_SLEEPING"
  proof
    fix p assume "p \<in> set (queues k1 q)"
    then show "pstate (procs k1 p) = PROCESS_STATE_SLEEPING"
      using k1(3-5) assms(1) by (cases "p = current_process k") (auto simp: mutex_inv_def)
  qed
  then show ?thesis using True k1(1,2) i(2) assms(1) by (auto simp: lock_loop_def mutex_inv_def)
next
  case False
  then show ?thesis using assms(1) by (auto simp: lock_loop_def mutex_inv_def)
qed

lemma unlock_ok:
  assumes "mutex_inv q (k, m, hs)" and "current_process k \<in> set hs"
  shows "\<exists>k' m'. mutex_unlock k m = Some (k', m') \<and> mutex_inv q (k', m', remove1 (current_process k) hs) \<and>
    (queues k q \<noteq> [] \<longrightarrow> last (queues k q) \<in> set (ready_queue k'))"
proof -
  have i: "sched_inv k" "mutex_queue m = q" "spin m = 0" "length hs \<le> 1" using assms(1) by (simp_all add: mutex_inv_def)
  have hs: "remove1 (current_process k) hs = []" using i(4) assms(2) by (cases hs) auto
  show ?thesis
  proof (cases "queues k q = []")
    case True
    then have "k_proc_process_wakeup_queue_single k q = Some k" by (subst k_proc_process_wakeup_queue_single.simps) simp
    then show ?thesis using True i hs by (auto simp: mutex_unlock_def mutex_inv_def)
  next
    case False
    then obtain us p where q: "queues k q = us @ [p]" by (metis rev_exhaust)
    have sl: "pstate (procs k r) = PROCESS_STATE_SLEEPING" if "r \<in> set us \<or> r = p" for r using assms(1) q that by (auto simp: mutex_inv_def)
    obtain k' where k': "k_proc_process_wakeup_queue_single k q = Some k'" "sched_inv k'" "ready_queue k' = ready_queue k @ [p]" "queues k' q = removeAll p us"
      "\<forall>r. r \<noteq> p \<longrightarrow> procs k' r = procs k r" using wakeup_single_sleeper [OF i(1) q] sl by blast
    then show ?thesis using q i hs sl by (auto simp: mutex_unlock_def mutex_inv_def)
  qed
qed

lemma mutex_inv_step: "mutex_step s s' \<Longrightarrow> mutex_inv q s \<Longrightarrow> mutex_inv q s'"
proof (induction rule: mutex_step.induct)
  case (lock_turn k m r k' m' hs)
  have "mutex_inv q (k, (m\<lparr>spin := 1\<rparr>)\<lparr>spin := 0\<rparr>, hs)" "spin m = 0" using lock_turn(3) by (simp_all add: mutex_inv_def)
  from lock_loop_ok [OF this(1) lock_turn(1)] this(2) lock_turn(2) show ?case by (auto simp: mutex_lock_def)
next
  case (resume_turn k m r k' m' hs)
  have "mutex_inv q (k, m\<lparr>spin := 0\<rparr>, hs)" using resume_turn(3) by (simp add: mutex_inv_def)
  from lock_loop_ok [OF this resume_turn(1)] resume_turn(2) show ?case by auto
next
  case (unlock_turn k hs m k' m')
  from unlock_ok [OF unlock_turn(3,1)] unlock_turn(2) show ?case by auto
next
  case (other_turn k' m k hs)
  then show ?case by (simp add: mutex_inv_def)
qed

lemma mutex_inv_run: "mutex_step\<^sup>*\<^sup>* s s' \<Longrightarrow> mutex_inv q s \<Longrightarrow> mutex_inv q s'"
  by (induction rule: rtranclp_induct) (use mutex_inv_step in blast)+

section \<open>Properties\<close>

text \<open>
  C8: a mutex in zeroed memory excludes. Whatever the processes do, in any order, at most one of
  them is between \<open>mutex_lock\<close> and \<open>mutex_unlock\<close>, and \<open>locked\<close> and \<open>owner\<close> say so; every turn ends, since no turn leaves the spin
  lock taken; and the process that unlocks makes the last sleeper of the queue ready.
\<close>

theorem mutex_excludes:
  assumes "mutex_init k0 0 q = (m0, k1)" and "sched_inv k0" and "queues k0 q = []" and "mutex_step\<^sup>*\<^sup>* (k1, m0, []) (k, m, hs)"
  shows "length hs \<le> 1 \<and> (locked m \<noteq> 0 \<longleftrightarrow> hs \<noteq> []) \<and> (hs \<noteq> [] \<longrightarrow> owner m = hd hs) \<and>
    (has_block k (current_process k) \<longrightarrow> mutex_lock k m \<noteq> None \<and> lock_loop k m \<noteq> None) \<and>
    (current_process k \<in> set hs \<longrightarrow> (\<exists>k' m'. mutex_unlock k m = Some (k', m') \<and> (queues k q \<noteq> [] \<longrightarrow> last (queues k q) \<in> set (ready_queue k'))))"
proof -
  have "k1 = k0" using assms(1,3) by (auto simp: mutex_init_def set_queue_def fun_upd_idem)
  then have "mutex_inv q (k1, m0, [])" using assms(1-3) by (auto simp: mutex_init_def mutex_inv_def)
  then have i: "mutex_inv q (k, m, hs)" using mutex_inv_run [OF assms(4)] by blast
  then have "mutex_inv q (k, m\<lparr>spin := 0\<rparr>, hs)" "mutex_inv q (k, (m\<lparr>spin := 1\<rparr>)\<lparr>spin := 0\<rparr>, hs)" "spin m = 0" by (simp_all add: mutex_inv_def)
  then have "has_block k (current_process k) \<longrightarrow> mutex_lock k m \<noteq> None \<and> lock_loop k m \<noteq> None"
    using lock_loop_ok by (fastforce simp: mutex_lock_def)
  then show ?thesis using i unlock_ok [OF i] by (auto simp: mutex_inv_def)
qed

theorem mutex_excludes_witness:
  "\<exists>m. mutex_lock blank_kernel (fst (mutex_init blank_kernel 0 100)) = Some (Acquired, blank_kernel, m) \<and> locked m \<noteq> 0 \<and>
     mutex_lock blank_kernel m \<noteq> None"
proof -
  let ?new = "fst (mutex_init blank_kernel 0 100)" and ?m = "\<lparr>spin = 0, locked = 1, owner = current_process blank_kernel, mutex_queue = 100\<rparr>"
  have q: "queues blank_kernel 100 = []" "has_block blank_kernel (current_process blank_kernel)" by (simp_all add: blank_kernel_def has_block_def blank_process_def)
  have "snd (mutex_init blank_kernel 0 100) = blank_kernel" using q(1) by (simp add: mutex_init_def set_queue_def fun_upd_idem)
  then have i: "mutex_init blank_kernel 0 100 = (?new, blank_kernel)" by (metis prod.collapse)
  have l: "mutex_lock blank_kernel ?new = Some (Acquired, blank_kernel, ?m)" by (simp add: mutex_init_def mutex_lock_def lock_loop_def)
  have "mutex_step (blank_kernel, ?new, []) (blank_kernel, ?m, if Acquired = Acquired then current_process blank_kernel # [] else [])"
    by (rule mutex_step.lock_turn [OF q(2) l])
  then have "mutex_step\<^sup>*\<^sup>* (blank_kernel, ?new, []) (blank_kernel, ?m, [current_process blank_kernel])" by simp
  from mutex_excludes [OF i blank_kernel_inv q(1) this] show ?thesis using l q(2) by auto
qed

end
