(* ===== verification/Vfs.thy ===== *)
theory Vfs
  imports Path
begin

text \<open>
  The virtual file system, from \<^verbatim>\<open>kernel/src/fs/vfs.c\<close> on the trees of \<^verbatim>\<open>types/src/tree.c\<close>: the tree of
  mount points, the lookup of a path through the tree and then through the driver of the deepest
  mount point, opening, mounting, and the dispatch to the functions of a node's driver. Nodes,
  entries and tree nodes are kept in stores by their address; an address that a function gets from
  the heap is an argument. The functions of a driver act on the whole state, in which \<open>drv_data\<close> is
  what the driver keeps for itself. A computation that uses a freed object, leaves a heap block or
  does not end has the value \<open>None\<close>; a null pointer is a value.
\<close>

section \<open>State\<close>

text \<open>The function table of a node: none, that of a directory of the tree, or that of a driver.\<close>

datatype fs_ops = NoOps | VirtualOps | DriverOps nat

record vnode =
  n_name :: string
  n_device :: ptr
  n_mode :: u16
  n_flags :: u32
  n_inode :: u64
  n_size :: u32
  n_fs :: fs_ops
  n_links :: u32
  n_path :: "string option"
  n_mountpoint :: ptr

record vfs_entry =
  e_name :: string
  e_node :: ptr
  e_tree_node :: ptr

record tree_node =
  t_parent :: ptr
  t_children :: "ptr list"
  t_value :: ptr
  t_in_tree :: bool

record 'd vfs =
  vnodes :: "ptr \<Rightarrow> vnode option"
  entries :: "ptr \<Rightarrow> vfs_entry option"
  tnodes :: "ptr \<Rightarrow> tree_node option"
  vfs_tree :: ptr
  tree_nodes :: "ptr list"
  drv_data :: 'd

record dirent =
  d_name :: string
  d_ino :: u32

record 'd driver =
  op_write :: "(ptr \<Rightarrow> u32 \<Rightarrow> u8 list \<Rightarrow> 'd vfs \<Rightarrow> int \<times> 'd vfs) option"
  op_read :: "(ptr \<Rightarrow> u32 \<Rightarrow> u32 \<Rightarrow> 'd vfs \<Rightarrow> (int \<times> u8 list) \<times> 'd vfs) option"
  op_open :: "(ptr \<Rightarrow> u16 \<Rightarrow> 'd vfs \<Rightarrow> 'd vfs) option"
  op_close :: "(ptr \<Rightarrow> 'd vfs \<Rightarrow> 'd vfs) option"
  op_finddir :: "(ptr \<Rightarrow> string \<Rightarrow> 'd vfs \<Rightarrow> ptr \<times> 'd vfs) option"
  op_readdir :: "(ptr \<Rightarrow> u32 \<Rightarrow> 'd vfs \<Rightarrow> dirent option \<times> 'd vfs) option"
  op_readlink :: "(ptr \<Rightarrow> 'd vfs \<Rightarrow> string \<times> 'd vfs) option"
  op_link :: "(ptr \<Rightarrow> string \<Rightarrow> string \<Rightarrow> 'd vfs \<Rightarrow> int \<times> 'd vfs) option"
  op_rm :: "(ptr \<Rightarrow> 'd vfs \<Rightarrow> 'd vfs) option"
  op_rmdir :: "(ptr \<Rightarrow> 'd vfs \<Rightarrow> 'd vfs) option"
  op_create :: "(ptr \<Rightarrow> string \<Rightarrow> u16 \<Rightarrow> 'd vfs \<Rightarrow> ptr \<times> 'd vfs) option"
  op_mkdir :: "(ptr \<Rightarrow> string \<Rightarrow> u16 \<Rightarrow> 'd vfs \<Rightarrow> ptr \<times> 'd vfs) option"
  op_ioctl :: "(ptr \<Rightarrow> u32 \<Rightarrow> ptr \<Rightarrow> 'd vfs \<Rightarrow> int \<times> 'd vfs) option"
  op_check :: "(ptr \<Rightarrow> u8 \<Rightarrow> 'd vfs \<Rightarrow> u8 \<times> 'd vfs) option"
  op_wait :: "(ptr \<Rightarrow> u8 \<Rightarrow> ptr \<Rightarrow> 'd vfs \<Rightarrow> int \<times> 'd vfs) option"
  op_truncate :: "(ptr \<Rightarrow> u32 \<Rightarrow> 'd vfs \<Rightarrow> int \<times> 'd vfs) option"

abbreviation (input) VFS_FILE :: u32 where "VFS_FILE \<equiv> 1"
abbreviation (input) VFS_DIR :: u32 where "VFS_DIR \<equiv> 2"
abbreviation (input) VFS_SYMLINK :: u32 where "VFS_SYMLINK \<equiv> 4"
abbreviation (input) VFS_MAPPER :: u32 where "VFS_MAPPER \<equiv> 32"
abbreviation (input) O_RDONLY :: u16 where "O_RDONLY \<equiv> 1"
abbreviation (input) O_WRONLY :: u16 where "O_WRONLY \<equiv> 2"
abbreviation (input) O_CREAT :: u16 where "O_CREAT \<equiv> 4"
abbreviation (input) O_NOFOLLOW :: u16 where "O_NOFOLLOW \<equiv> 32"

section \<open>Trees\<close>

text \<open>\<open>tree_insert_node\<close> and \<open>tree_remove_node\<close>; a removed node keeps its \<open>tree\<close> field.\<close>

definition tree_create_node :: "'d vfs \<Rightarrow> ptr \<Rightarrow> ptr \<Rightarrow> 'd vfs" where
  "tree_create_node s t v = s\<lparr>tnodes := (tnodes s)(t \<mapsto> \<lparr>t_parent = NULL, t_children = [], t_value = v, t_in_tree = False\<rparr>)\<rparr>"

definition tree_insert_node :: "'d vfs \<Rightarrow> ptr \<Rightarrow> ptr \<Rightarrow> 'd vfs option" where
  "tree_insert_node s t par = do {
     n \<leftarrow> tnodes s t;
     if t_in_tree n then Some s
     else do {
       let s1 = s\<lparr>tree_nodes := tree_nodes s @ [t], tnodes := (tnodes s)(t \<mapsto> n\<lparr>t_in_tree := True\<rparr>)\<rparr>;
       if par = NULL then Some s1
       else do {
         let s2 = s1\<lparr>tnodes := (tnodes s1)(t \<mapsto> n\<lparr>t_in_tree := True, t_parent := par\<rparr>)\<rparr>;
         p \<leftarrow> tnodes s2 par;
         Some (s2\<lparr>tnodes := (tnodes s2)(par \<mapsto> p\<lparr>t_children := t_children p @ [t]\<rparr>)\<rparr>) } } }"

definition tree_set_root :: "'d vfs \<Rightarrow> ptr \<Rightarrow> 'd vfs option" where
  "tree_set_root s t = do { s1 \<leftarrow> tree_insert_node s t NULL; Some (s1\<lparr>vfs_tree := t\<rparr>) }"

definition tree_remove_node :: "'d vfs \<Rightarrow> ptr \<Rightarrow> 'd vfs option" where
  "tree_remove_node s t = do {
     n \<leftarrow> tnodes s t;
     if \<not> t_in_tree n then Some s
     else do {
       s1 \<leftarrow> (if t_parent n = NULL then Some s
              else do { p \<leftarrow> tnodes s (t_parent n);
                        Some (s\<lparr>tnodes := (tnodes s)(t_parent n \<mapsto> p\<lparr>t_children := remove1 t (t_children p)\<rparr>)\<rparr>) });
       Some (s1\<lparr>tree_nodes := remove1 t (tree_nodes s1)\<rparr>) } }"

section \<open>Nodes and their drivers\<close>

text \<open>A name is copied by \<open>strcpy\<close> into a field of 256 bytes, one of them for the terminator; a longer one overruns it.\<close>

definition name_fits :: "string \<Rightarrow> bool" where
  "name_fits name \<longleftrightarrow> length name < 256"

definition blank_node :: "string \<Rightarrow> vnode" where
  "blank_node name = \<lparr>n_name = name, n_device = NULL, n_mode = 0, n_flags = 0, n_inode = 0, n_size = 0, n_fs = NoOps, n_links = 1,
     n_path = None, n_mountpoint = NULL\<rparr>"

definition k_fs_vfs_create_node :: "'d vfs \<Rightarrow> ptr \<Rightarrow> string \<Rightarrow> 'd vfs option" where
  "k_fs_vfs_create_node s a name =
     (if name_fits name then Some (s\<lparr>vnodes := (vnodes s)(a \<mapsto> blank_node name)\<rparr>) else None)"

definition k_fs_vfs_dup :: "'d vfs \<Rightarrow> ptr \<Rightarrow> ptr \<Rightarrow> 'd vfs option" where
  "k_fs_vfs_dup s node a = do { n \<leftarrow> vnodes s node; Some (s\<lparr>vnodes := (vnodes s)(a \<mapsto> n)\<rparr>) }"

text \<open>\<open>IS_VALID_PTR\<close> of the device and of its tree node: both are mapped as long as they exist.\<close>

definition virtual_readdir :: "'d vfs \<Rightarrow> ptr \<Rightarrow> u32 \<Rightarrow> dirent option" where
  "virtual_readdir s node index = do {
     n \<leftarrow> vnodes s node;
     e \<leftarrow> entries s (n_device n);
     t \<leftarrow> tnodes s (e_tree_node e);
     if index = 0 then Some \<lparr>d_name = ''.'', d_ino = 0\<rparr>
     else if index = 1 then Some \<lparr>d_name = ''..'', d_ino = 1\<rparr>
     else if length (t_children t) > unat (index - 2)
     then do { c \<leftarrow> tnodes s (t_children t ! unat (index - 2)); ce \<leftarrow> entries s (t_value c); Some \<lparr>d_name = e_name ce, d_ino = 1\<rparr> }
     else None }"

definition no_driver :: "'d driver" where
  "no_driver = \<lparr>op_write = None, op_read = None, op_open = None, op_close = None, op_finddir = None, op_readdir = None, op_readlink = None,
     op_link = None, op_rm = None, op_rmdir = None, op_create = None, op_mkdir = None, op_ioctl = None, op_check = None, op_wait = None,
     op_truncate = None\<rparr>"

fun fs :: "(nat \<Rightarrow> 'd driver) \<Rightarrow> fs_ops \<Rightarrow> 'd driver" where
  "fs drv NoOps = no_driver"
| "fs drv VirtualOps = no_driver\<lparr>op_readdir := Some (\<lambda>node index s. (virtual_readdir s node index, s))\<rparr>"
| "fs drv (DriverOps i) = drv i"

definition ops_of :: "(nat \<Rightarrow> 'd driver) \<Rightarrow> 'd vfs \<Rightarrow> ptr \<Rightarrow> 'd driver option" where
  "ops_of drv s node = do { n \<leftarrow> vnodes s node; Some (fs drv (n_fs n)) }"

definition k_fs_vfs_read :: "(nat \<Rightarrow> 'd driver) \<Rightarrow> 'd vfs \<Rightarrow> ptr \<Rightarrow> u32 \<Rightarrow> u32 \<Rightarrow> ((int \<times> u8 list) \<times> 'd vfs) option" where
  "k_fs_vfs_read drv s node off n = do {
     x \<leftarrow> vnodes s node;
     case op_read (fs drv (n_fs x)) of
       None \<Rightarrow> Some ((- 1, []), s)
     | Some f \<Rightarrow> Some (if n_mode x AND O_RDONLY = 0 then ((- 1, []), s) else f node off n s) }"

definition k_fs_vfs_write :: "(nat \<Rightarrow> 'd driver) \<Rightarrow> 'd vfs \<Rightarrow> ptr \<Rightarrow> u32 \<Rightarrow> u8 list \<Rightarrow> (int \<times> 'd vfs) option" where
  "k_fs_vfs_write drv s node off buf = do {
     x \<leftarrow> vnodes s node;
     case op_write (fs drv (n_fs x)) of
       None \<Rightarrow> Some (- 1, s)
     | Some f \<Rightarrow> Some (if n_mode x AND O_WRONLY = 0 then (- 1, s) else f node off buf s) }"

definition vfs_close :: "(nat \<Rightarrow> 'd driver) \<Rightarrow> 'd vfs \<Rightarrow> ptr \<Rightarrow> 'd vfs option" where
  "vfs_close drv s node =
     (if node = NULL then Some s
      else do {
        n \<leftarrow> vnodes s node;
        let s1 = s\<lparr>vnodes := (vnodes s)(node \<mapsto> n\<lparr>n_links := n_links n - 1\<rparr>)\<rparr>;
        if n_links n - 1 \<noteq> 0 then Some s1
        else do {
          let s2 = (case op_close (fs drv (n_fs n)) of None \<Rightarrow> s1 | Some f \<Rightarrow> f node s1);
          Some (s2\<lparr>vnodes := (vnodes s2)(node := None)\<rparr>) } })"

definition k_fs_vfs_finddir :: "(nat \<Rightarrow> 'd driver) \<Rightarrow> 'd vfs \<Rightarrow> ptr \<Rightarrow> string \<Rightarrow> (ptr \<times> 'd vfs) option" where
  "k_fs_vfs_finddir drv s node path = do {
     d \<leftarrow> ops_of drv s node; Some (case op_finddir d of None \<Rightarrow> (NULL, s) | Some f \<Rightarrow> f node path s) }"

definition k_fs_vfs_create :: "(nat \<Rightarrow> 'd driver) \<Rightarrow> 'd vfs \<Rightarrow> ptr \<Rightarrow> string \<Rightarrow> u16 \<Rightarrow> (ptr \<times> 'd vfs) option" where
  "k_fs_vfs_create drv s node path m = do {
     d \<leftarrow> ops_of drv s node; Some (case op_create d of None \<Rightarrow> (NULL, s) | Some f \<Rightarrow> f node path m s) }"

definition k_fs_vfs_mkdir :: "(nat \<Rightarrow> 'd driver) \<Rightarrow> 'd vfs \<Rightarrow> ptr \<Rightarrow> string \<Rightarrow> u16 \<Rightarrow> (ptr \<times> 'd vfs) option" where
  "k_fs_vfs_mkdir drv s node path m = do {
     d \<leftarrow> ops_of drv s node; Some (case op_mkdir d of None \<Rightarrow> (NULL, s) | Some f \<Rightarrow> f node path m s) }"

definition k_fs_vfs_ioctl :: "(nat \<Rightarrow> 'd driver) \<Rightarrow> 'd vfs \<Rightarrow> ptr \<Rightarrow> u32 \<Rightarrow> ptr \<Rightarrow> (int \<times> 'd vfs) option" where
  "k_fs_vfs_ioctl drv s node req args = do {
     d \<leftarrow> ops_of drv s node; Some (case op_ioctl d of None \<Rightarrow> (- 1, s) | Some f \<Rightarrow> f node req args s) }"

text \<open>The result is a \<open>uint8_t\<close>: the error \<open>-EPERM\<close> becomes 255.\<close>

definition k_fs_vfs_check :: "(nat \<Rightarrow> 'd driver) \<Rightarrow> 'd vfs \<Rightarrow> ptr \<Rightarrow> u8 \<Rightarrow> (u8 \<times> 'd vfs) option" where
  "k_fs_vfs_check drv s node event = do {
     d \<leftarrow> ops_of drv s node; Some (case op_check d of None \<Rightarrow> (- 1, s) | Some f \<Rightarrow> f node event s) }"

definition k_fs_vfs_wait :: "(nat \<Rightarrow> 'd driver) \<Rightarrow> 'd vfs \<Rightarrow> ptr \<Rightarrow> u8 \<Rightarrow> ptr \<Rightarrow> (int \<times> 'd vfs) option" where
  "k_fs_vfs_wait drv s node event prc = do {
     d \<leftarrow> ops_of drv s node; Some (case op_wait d of None \<Rightarrow> (- 1, s) | Some f \<Rightarrow> f node event prc s) }"

definition k_fs_vfs_truncate :: "(nat \<Rightarrow> 'd driver) \<Rightarrow> 'd vfs \<Rightarrow> ptr \<Rightarrow> u32 \<Rightarrow> (int \<times> 'd vfs) option" where
  "k_fs_vfs_truncate drv s node sz = do {
     d \<leftarrow> ops_of drv s node; Some (case op_truncate d of None \<Rightarrow> (- 1, s) | Some f \<Rightarrow> f node sz s) }"

text \<open>Without the driver function the buffer stays as the stack left it.\<close>

definition k_fs_vfs_readlink :: "(nat \<Rightarrow> 'd driver) \<Rightarrow> 'd vfs \<Rightarrow> ptr \<Rightarrow> (string \<times> 'd vfs) option" where
  "k_fs_vfs_readlink drv s node = do {
     d \<leftarrow> ops_of drv s node; case op_readlink d of None \<Rightarrow> None | Some f \<Rightarrow> Some (f node s) }"

definition k_fs_vfs_readdir :: "(nat \<Rightarrow> 'd driver) \<Rightarrow> 'd vfs \<Rightarrow> ptr \<Rightarrow> u32 \<Rightarrow> (dirent option \<times> 'd vfs) option" where
  "k_fs_vfs_readdir drv s node index = do {
     n \<leftarrow> vnodes s node;
     let driver = (\<lambda>i. case op_readdir (fs drv (n_fs n)) of None \<Rightarrow> Some (None, s) | Some f \<Rightarrow> Some (f node i s));
     if n_flags n AND VFS_MAPPER = 0 \<and> n_mountpoint n \<noteq> NULL
     then do {
       e \<leftarrow> entries s (n_mountpoint n);
       if e_tree_node e = NULL then driver index
       else do {
         t \<leftarrow> tnodes s (e_tree_node e);
         if length (t_children t) > unat index
         then do { c \<leftarrow> tnodes s (t_children t ! unat index);
                   if t_value c = NULL then driver index
                   else do { ce \<leftarrow> entries s (t_value c); Some (Some \<lparr>d_name = e_name ce, d_ino = 1\<rparr>, s) } }
         else driver (index - of_nat (length (t_children t))) } }
     else driver index }"

section \<open>Entries of the tree\<close>

definition create_virtual_node :: "'d vfs \<Rightarrow> ptr \<Rightarrow> ptr \<Rightarrow> 'd vfs option" where
  "create_virtual_node s e a = do {
     x \<leftarrow> entries s e;
     s1 \<leftarrow> k_fs_vfs_create_node s a (e_name x);
     n \<leftarrow> vnodes s1 a;
     Some (s1\<lparr>vnodes := (vnodes s1)(a \<mapsto> n\<lparr>n_flags := VFS_DIR OR VFS_MAPPER, n_device := e, n_mountpoint := e, n_fs := VirtualOps\<rparr>),
              entries := (entries s1)(e \<mapsto> x\<lparr>e_node := a\<rparr>)\<rparr>) }"

text \<open>The three addresses are those of the entry, of its tree node and of its directory node.\<close>

definition k_fs_vfs_create_entry :: "'d vfs \<Rightarrow> string \<Rightarrow> ptr \<Rightarrow> ptr \<times> ptr \<times> ptr \<Rightarrow> 'd vfs option" where
  "k_fs_vfs_create_entry s name par addrs = (case addrs of (e, t, a) \<Rightarrow> do {
     s1 \<leftarrow> (if name_fits name then Some (s\<lparr>entries := (entries s)(e \<mapsto> \<lparr>e_name = name, e_node = NULL, e_tree_node = NULL\<rparr>)\<rparr>) else None);
     s2 \<leftarrow> (if par = NULL then Some s1
            else do { let sa = tree_create_node s1 t e;
                      tree_insert_node (sa\<lparr>entries := (entries sa)(e \<mapsto> \<lparr>e_name = name, e_node = NULL, e_tree_node = t\<rparr>)\<rparr>) t par });
     create_virtual_node s2 e a })"

definition k_fs_vfs_init :: "'d \<Rightarrow> ptr \<times> ptr \<times> ptr \<Rightarrow> 'd vfs option" where
  "k_fs_vfs_init d addrs = (case addrs of (e, t, a) \<Rightarrow> do {
     let s = \<lparr>vnodes = (\<lambda>_. None), entries = (\<lambda>_. None), tnodes = (\<lambda>_. None), vfs_tree = NULL, tree_nodes = [], drv_data = d\<rparr>;
     s1 \<leftarrow> k_fs_vfs_create_entry s ''[root]'' NULL (e, t, a);
     let s2 = tree_create_node s1 t e;
     x \<leftarrow> entries s2 e;
     tree_set_root (s2\<lparr>entries := (entries s2)(e \<mapsto> x\<lparr>e_tree_node := t\<rparr>)\<rparr>) t })"

definition entry_of :: "'d vfs \<Rightarrow> ptr \<Rightarrow> vfs_entry option" where
  "entry_of s t = do { n \<leftarrow> tnodes s t; entries s (t_value n) }"

text \<open>The search of a child by name: the first match, or \<open>NULL\<close>.\<close>

fun child_loop :: "'d vfs \<Rightarrow> ptr list \<Rightarrow> string \<Rightarrow> ptr option" where
  "child_loop s [] part = Some NULL"
| "child_loop s (c # cs) part = do { e \<leftarrow> entry_of s c; if e_name e = part then Some c else child_loop s cs part }"

definition find_child :: "'d vfs \<Rightarrow> ptr \<Rightarrow> string \<Rightarrow> ptr option" where
  "find_child s t part = do { n \<leftarrow> tnodes s t; child_loop s (t_children n) part }"

text \<open>
  The segments of a path. The loops skip a null pointer from \<open>k_util_path_segment\<close> or stop at it; the function
  returns one only for an index behind the last segment, so that leaving them out covers both.
\<close>

fun fetch_segments :: "string \<Rightarrow> nat list \<Rightarrow> string list option" where
  "fetch_segments path [] = Some []"
| "fetch_segments path (i # is) = do {
     r \<leftarrow> k_util_path_segment path i; ws \<leftarrow> fetch_segments path is; Some (case r of None \<Rightarrow> ws | Some w \<Rightarrow> w # ws) }"

definition path_segments :: "string \<Rightarrow> string list option" where
  "path_segments path = do { n \<leftarrow> k_util_path_length path; fetch_segments path [0..<n] }"

fun entry_loop :: "'d vfs \<Rightarrow> ptr \<Rightarrow> string list \<Rightarrow> bool \<Rightarrow> (ptr \<times> ptr \<times> ptr) list \<Rightarrow> (ptr \<times> 'd vfs) option" where
  "entry_loop s t [] create new = do { n \<leftarrow> tnodes s t; Some (t_value n, s) }"
| "entry_loop s t (w # ws) create new = do {
     c \<leftarrow> find_child s t w;
     if c \<noteq> NULL then entry_loop s c ws create new
     else if \<not> create then Some (NULL, s)
     else case new of [] \<Rightarrow> None
       | a # as \<Rightarrow> do { s1 \<leftarrow> k_fs_vfs_create_entry s w t a; e \<leftarrow> entries s1 (fst a); entry_loop s1 (e_tree_node e) ws create as } }"

definition get_entry :: "'d vfs \<Rightarrow> string \<Rightarrow> bool \<Rightarrow> (ptr \<times> ptr \<times> ptr) list \<Rightarrow> (ptr \<times> 'd vfs) option" where
  "get_entry s path create new =
     (if path = ''/'' then do { n \<leftarrow> tnodes s (vfs_tree s); Some (t_value n, s) }
      else do { ws \<leftarrow> path_segments path; entry_loop s (vfs_tree s) ws create new })"


section \<open>Looking up, opening and mounting\<close>

text \<open>The walk through the tree of mount points: the node found so far, or where the tree ends.\<close>

fun tree_walk :: "'d vfs \<Rightarrow> ptr \<Rightarrow> string list \<Rightarrow> string \<Rightarrow> ptr \<Rightarrow> (ptr + ptr \<times> string list) option" where
  "tree_walk s t [] filename found = Some (Inl found)"
| "tree_walk s t (w # ws) filename found = do {
     c \<leftarrow> find_child s t w;
     if c = NULL then Some (Inr (t, w # ws))
     else do { e \<leftarrow> entry_of s c; tree_walk s c ws filename (if e_name e = filename then e_node e else found) } }"

definition maybe_free :: "'d vfs \<Rightarrow> ptr \<Rightarrow> 'd vfs option" where
  "maybe_free s node = do {
     n \<leftarrow> vnodes s node; Some (if n_mountpoint n = NULL then s\<lparr>vnodes := (vnodes s)(node := None)\<rparr> else s) }"

text \<open>
  The lookup calls itself to follow a symbolic link, which may never end. \<open>Find\<close> is
  \<open>__k_fs_vfs_find_node\<close>, \<open>Dirs\<close> its inner loop over the directories of a driver from the node given on.
\<close>

datatype lookup =
    Find string u16
  | Dirs ptr "string list" u16

partial_function (option) resolve :: "(nat \<Rightarrow> 'd driver) \<Rightarrow> 'd vfs \<Rightarrow> lookup \<Rightarrow> (ptr \<times> 'd vfs) option" where
  "resolve drv s job =
     (case job of
        Find path fl \<Rightarrow>
          if path = ''/'' then do { e \<leftarrow> entry_of s (vfs_tree s); Some (e_node e, s) }
          else do {
            ws \<leftarrow> path_segments path;
            name \<leftarrow> k_util_path_filename path;
            filename \<leftarrow> name;
            w \<leftarrow> tree_walk s (vfs_tree s) ws filename NULL;
            (r, s1) \<leftarrow> (case w of
                Inl found \<Rightarrow> Some (found, s)
              | Inr (t, rest) \<Rightarrow> do {
                  e \<leftarrow> entry_of s t;
                  (n, s1) \<leftarrow> resolve drv s (Dirs (e_node e) rest fl);
                  if n = NULL then Some (NULL, s1)
                  else do { x \<leftarrow> vnodes s1 n;
                            if n_name x \<noteq> filename then do { s2 \<leftarrow> maybe_free s1 n; Some (NULL, s2) } else Some (n, s1) } });
            if r = NULL then Some (NULL, s1)
            else do {
              x \<leftarrow> vnodes s1 r;
              if n_flags x AND VFS_SYMLINK \<noteq> 0 \<and> fl AND O_NOFOLLOW = 0
              then do {
                (target, s2) \<leftarrow> k_fs_vfs_readlink drv s1 r;
                (r2, s3) \<leftarrow> resolve drv s2 (Find target 0);
                s4 \<leftarrow> maybe_free s3 r;
                Some (r2, s4) }
              else Some (r, s1) } }
      | Dirs node ws fl \<Rightarrow>
          if node = NULL then Some (NULL, s)
          else (case ws of
              [] \<Rightarrow> Some (node, s)
            | w # rest \<Rightarrow> do {
                x \<leftarrow> vnodes s node;
                (dir, s1) \<leftarrow> (if n_flags x AND VFS_SYMLINK \<noteq> 0 \<and> fl AND O_NOFOLLOW = 0
                              then do { (target, sa) \<leftarrow> k_fs_vfs_readlink drv s node; resolve drv sa (Find target 0) }
                              else Some (node, s));
                if dir = NULL then do { s2 \<leftarrow> maybe_free s1 node; Some (NULL, s2) }
                else do {
                  (child, s2) \<leftarrow> k_fs_vfs_finddir drv s1 dir w;
                  s3 \<leftarrow> maybe_free s2 node;
                  resolve drv s3 (Dirs child rest fl) } }))"

definition find_node :: "(nat \<Rightarrow> 'd driver) \<Rightarrow> 'd vfs \<Rightarrow> string \<Rightarrow> u16 \<Rightarrow> (ptr \<times> 'd vfs) option" where
  "find_node drv s path fl = resolve drv s (Find path fl)"

text \<open>The part of \<open>k_fs_vfs_open\<close> behind the lookup: a copy of a mounted node, the driver, the new fields.\<close>

definition finish_open :: "(nat \<Rightarrow> 'd driver) \<Rightarrow> 'd vfs \<Rightarrow> ptr \<Rightarrow> string \<Rightarrow> u16 \<Rightarrow> ptr \<Rightarrow> (ptr \<times> 'd vfs) option" where
  "finish_open drv s root_node canon_path m copy =
     (if root_node = NULL then Some (NULL, s)
      else do {
        x \<leftarrow> vnodes s root_node;
        (node, s1) \<leftarrow> (if n_mountpoint x \<noteq> NULL then do { s1 \<leftarrow> k_fs_vfs_dup s root_node copy; Some (copy, s1) } else Some (root_node, s));
        d \<leftarrow> ops_of drv s1 node;
        let s2 = (case op_open d of None \<Rightarrow> s1 | Some f \<Rightarrow> f node m s1);
        y \<leftarrow> vnodes s2 node;
        Some (node, s2\<lparr>vnodes := (vnodes s2)(node \<mapsto> y\<lparr>n_mode := m, n_links := 1, n_path := Some canon_path\<rparr>)\<rparr>) })"

definition open_existing :: "(nat \<Rightarrow> 'd driver) \<Rightarrow> 'd vfs \<Rightarrow> string \<Rightarrow> u16 \<Rightarrow> ptr \<Rightarrow> (ptr \<times> 'd vfs) option" where
  "open_existing drv s path m copy = do {
     canon_path \<leftarrow> k_util_path_canonize path [];
     (root_node, s1) \<leftarrow> find_node drv s canon_path m;
     finish_open drv s1 root_node canon_path m copy }"

text \<open>With \<open>O_CREAT\<close> the folder is opened without it, so the recursion is one deep.\<close>

definition k_fs_vfs_open :: "(nat \<Rightarrow> 'd driver) \<Rightarrow> 'd vfs \<Rightarrow> string \<Rightarrow> u16 \<Rightarrow> ptr \<Rightarrow> ptr \<Rightarrow> (ptr \<times> 'd vfs) option" where
  "k_fs_vfs_open drv s path m copy copy2 =
     (if vfs_tree s = NULL then Some (NULL, s)
      else do {
        canon_path \<leftarrow> k_util_path_canonize path [];
        (found, s1) \<leftarrow> find_node drv s canon_path m;
        (root_node, s2) \<leftarrow>
          (if found = NULL \<and> m AND O_CREAT \<noteq> 0
           then do {
             folder \<leftarrow> k_util_path_folder canon_path;
             name \<leftarrow> k_util_path_filename canon_path;
             filename \<leftarrow> name;
             (root_folder, sa) \<leftarrow> open_existing drv s1 folder O_WRONLY copy2;
             (n, sb) \<leftarrow> (if root_folder \<noteq> NULL then k_fs_vfs_create drv sa root_folder filename m else Some (NULL, sa));
             sc \<leftarrow> vfs_close drv sb root_folder;
             Some (n, sc) }
           else Some (found, s1));
        finish_open drv s2 root_node canon_path m copy })"

definition k_fs_vfs_mount_node :: "(nat \<Rightarrow> 'd driver) \<Rightarrow> 'd vfs \<Rightarrow> string \<Rightarrow> ptr \<Rightarrow> (ptr \<times> ptr \<times> ptr) list \<Rightarrow> (nat \<times> 'd vfs) option" where
  "k_fs_vfs_mount_node drv s path fsroot new =
     (if vfs_tree s = NULL then Some (1, s)
      else do {
        (mp, s1) \<leftarrow> get_entry s path True new;
        if mp = NULL then Some (1, s1)
        else do {
          e \<leftarrow> entries s1 mp;
          s2 \<leftarrow> (if e_node e = NULL then Some s1
                 else do { x \<leftarrow> vnodes s1 (e_node e);
                           if n_flags x AND VFS_MAPPER \<noteq> 0 then vfs_close drv s1 (e_node e) else Some s1 });
          e2 \<leftarrow> entries s2 mp;
          n \<leftarrow> vnodes s2 fsroot;
          Some (0, s2\<lparr>entries := (entries s2)(mp \<mapsto> e2\<lparr>e_node := fsroot\<rparr>), vnodes := (vnodes s2)(fsroot \<mapsto> n\<lparr>n_mountpoint := mp\<rparr>)\<rparr>) } })"

text \<open>The registered file systems, by name; a mount function gets the path and the device.\<close>

type_synonym 'd mounts = "(string \<times> (string \<Rightarrow> string \<Rightarrow> 'd vfs \<Rightarrow> ptr \<times> 'd vfs)) list"

definition k_fs_vfs_register_fs :: "'d mounts \<Rightarrow> string \<Rightarrow> (string \<Rightarrow> string \<Rightarrow> 'd vfs \<Rightarrow> ptr \<times> 'd vfs) \<Rightarrow> 'd mounts" where
  "k_fs_vfs_register_fs filesystems alias mnt = filesystems @ [(alias, mnt)]"

definition get_mount_callback :: "'d mounts \<Rightarrow> string \<Rightarrow> (string \<Rightarrow> string \<Rightarrow> 'd vfs \<Rightarrow> ptr \<times> 'd vfs) option" where
  "get_mount_callback filesystems alias = map_of filesystems alias"

definition k_fs_vfs_mount :: "(nat \<Rightarrow> 'd driver) \<Rightarrow> 'd mounts \<Rightarrow> 'd vfs \<Rightarrow> string \<Rightarrow> string \<Rightarrow> string \<Rightarrow> (ptr \<times> ptr \<times> ptr) list \<Rightarrow> (nat \<times> 'd vfs) option" where
  "k_fs_vfs_mount drv filesystems s path device type new =
     (case get_mount_callback filesystems type of
        None \<Rightarrow> Some (1, s)
      | Some mnt \<Rightarrow> (let (node, s1) = mnt path device s in if node \<noteq> NULL then k_fs_vfs_mount_node drv s1 path node new else Some (1, s1)))"

definition k_fs_vfs_umount :: "'d vfs \<Rightarrow> string \<Rightarrow> (nat \<times> 'd vfs) option" where
  "k_fs_vfs_umount s path = do {
     (e, s1) \<leftarrow> get_entry s path False [];
     if e = NULL then Some (1, s1)
     else do {
       x \<leftarrow> entries s1 e;
       s2 \<leftarrow> (if e_node x = NULL then Some s1
              else do { n \<leftarrow> vnodes s1 (e_node x); Some (s1\<lparr>vnodes := (vnodes s1)(e_node x \<mapsto> n\<lparr>n_mountpoint := NULL\<rparr>)\<rparr>) });
       r \<leftarrow> tnodes s2 (vfs_tree s2);
       if e = t_value r then Some (0, s2)
       else do { s3 \<leftarrow> tree_remove_node s2 (e_tree_node x); Some (0, s3\<lparr>entries := (entries s3)(e := None)\<rparr>) } } }"

definition k_fs_vfs_link :: "(nat \<Rightarrow> 'd driver) \<Rightarrow> 'd vfs \<Rightarrow> string \<Rightarrow> string \<Rightarrow> (int \<times> 'd vfs) option" where
  "k_fs_vfs_link drv s source target = do {
     path \<leftarrow> k_util_path_folder target;
     (par, s1) \<leftarrow> find_node drv s path 0;
     if par = NULL then Some (- 2, s1)
     else do { d \<leftarrow> ops_of drv s1 par; Some (case op_link d of None \<Rightarrow> (- 22, s1) | Some f \<Rightarrow> f par source target s1) } }"

text \<open>The common end of \<open>k_fs_vfs_rm\<close> and \<open>k_fs_vfs_rmdir\<close>.\<close>

definition drop_node :: "(nat \<Rightarrow> 'd driver) \<Rightarrow> 'd vfs \<Rightarrow> ptr \<Rightarrow> (int \<times> 'd vfs) option" where
  "drop_node drv s node = do {
     n \<leftarrow> vnodes s node;
     s2 \<leftarrow> (if n_mountpoint n = NULL then Some s
            else do {
              e \<leftarrow> entries s (n_mountpoint n);
              s1 \<leftarrow> tree_remove_node (s\<lparr>vnodes := (vnodes s)(e_node e := None)\<rparr>) (e_tree_node e);
              Some (s1\<lparr>entries := (entries s1)(n_mountpoint n := None)\<rparr>) });
     s3 \<leftarrow> vfs_close drv s2 node;
     Some (0, s3) }"

definition k_fs_vfs_rm :: "(nat \<Rightarrow> 'd driver) \<Rightarrow> 'd vfs \<Rightarrow> ptr \<Rightarrow> (int \<times> 'd vfs) option" where
  "k_fs_vfs_rm drv s node = do {
     n \<leftarrow> vnodes s node;
     if n_flags n AND VFS_DIR \<noteq> 0 then Some (- 21, s)
     else drop_node drv (case op_rm (fs drv (n_fs n)) of None \<Rightarrow> s | Some f \<Rightarrow> f node s) node }"

definition k_fs_vfs_rmdir :: "(nat \<Rightarrow> 'd driver) \<Rightarrow> 'd vfs \<Rightarrow> ptr \<Rightarrow> (int \<times> 'd vfs) option" where
  "k_fs_vfs_rmdir drv s node = do {
     n \<leftarrow> vnodes s node;
     if n_flags n AND VFS_DIR = 0 then Some (- 20, s)
     else drop_node drv (case op_rmdir (fs drv (n_fs n)) of None \<Rightarrow> s | Some f \<Rightarrow> f node s) node }"


section \<open>The tree of mount points\<close>

text \<open>
  Every tree node belongs to an entry that points back to it, its children exist, and the node of
  an entry exists; a directory node of the tree (\<open>VFS_MAPPER\<close>) belongs to one entry.
\<close>

definition vfs_ok :: "'d vfs \<Rightarrow> bool" where
  "vfs_ok s \<longleftrightarrow> tnodes s (vfs_tree s) \<noteq> None \<and>
     (\<forall>t n. tnodes s t = Some n \<longrightarrow> t \<noteq> NULL \<and> t_value n \<noteq> NULL \<and> (\<exists>e. entries s (t_value n) = Some e \<and> e_tree_node e = t) \<and>
        (\<forall>c\<in>set (t_children n). tnodes s c \<noteq> None)) \<and>
     (\<forall>x e. entries s x = Some e \<longrightarrow> e_node e \<noteq> NULL \<longrightarrow>
        (\<exists>n. vnodes s (e_node e) = Some n \<and> (n_flags n AND VFS_MAPPER \<noteq> 0 \<longrightarrow> n_mountpoint n = x \<and> n_fs n = VirtualOps)))"

lemma vfs_okD:
  assumes "vfs_ok s"
  shows "tnodes s (vfs_tree s) \<noteq> None"
    and "tnodes s t = Some n \<Longrightarrow> t \<noteq> NULL \<and> t_value n \<noteq> NULL" and "tnodes s t = Some n \<Longrightarrow> \<exists>e. entries s (t_value n) = Some e \<and> e_tree_node e = t"
    and "tnodes s t = Some n \<Longrightarrow> c \<in> set (t_children n) \<Longrightarrow> tnodes s c \<noteq> None"
    and "entries s x = Some e \<Longrightarrow> e_node e \<noteq> NULL \<Longrightarrow>
      \<exists>n. vnodes s (e_node e) = Some n \<and> (n_flags n AND VFS_MAPPER \<noteq> 0 \<longrightarrow> n_mountpoint n = x \<and> n_fs n = VirtualOps)"
  using assms unfolding vfs_ok_def by blast+

definition fresh :: "'d vfs \<Rightarrow> ptr \<times> ptr \<times> ptr \<Rightarrow> bool" where
  "fresh s a \<longleftrightarrow> entries s (fst a) = None \<and> tnodes s (fst (snd a)) = None \<and> vnodes s (snd (snd a)) = None \<and>
     fst a \<noteq> NULL \<and> fst (snd a) \<noteq> NULL \<and> snd (snd a) \<noteq> NULL"

definition supply_ok :: "'d vfs \<Rightarrow> (ptr \<times> ptr \<times> ptr) list \<Rightarrow> bool" where
  "supply_ok s as \<longleftrightarrow> (\<forall>a\<in>set as. fresh s a) \<and> distinct (map fst as) \<and> distinct (map (fst \<circ> snd) as) \<and> distinct (map (snd \<circ> snd) as)"

text \<open>What a new entry is, and that everything else stays.\<close>

definition dir_node :: "string \<Rightarrow> ptr \<Rightarrow> vnode" where
  "dir_node w e = \<lparr>n_name = w, n_device = e, n_mode = 0, n_flags = VFS_DIR OR VFS_MAPPER, n_inode = 0, n_size = 0, n_fs = VirtualOps, n_links = 1,
     n_path = None, n_mountpoint = e\<rparr>"

lemma create_entry_eq:
  assumes "tnodes s par = Some pn" and "par \<noteq> NULL" and "t \<noteq> par" and "name_fits w"
  shows "k_fs_vfs_create_entry s w par (e, t, a) = Some (s\<lparr>
     entries := (entries s)(e \<mapsto> \<lparr>e_name = w, e_node = a, e_tree_node = t\<rparr>),
     tnodes := (tnodes s)(t \<mapsto> \<lparr>t_parent = par, t_children = [], t_value = e, t_in_tree = True\<rparr>, par \<mapsto> pn\<lparr>t_children := t_children pn @ [t]\<rparr>),
     tree_nodes := tree_nodes s @ [t], vnodes := (vnodes s)(a \<mapsto> dir_node w e)\<rparr>)"
  using assms by (simp add: k_fs_vfs_create_entry_def tree_create_node_def tree_insert_node_def create_virtual_node_def k_fs_vfs_create_node_def blank_node_def
      dir_node_def Let_def fun_upd_twist)

lemma child_loop_new:
  "child_loop s cs w = Some NULL \<Longrightarrow> NULL \<notin> set cs \<Longrightarrow> entry_of s t = Some e \<Longrightarrow> e_name e = w \<Longrightarrow> child_loop s (cs @ [t]) w = Some t"
  by (induction cs) (auto split: bind_splits if_splits)

lemma child_loop_old: "child_loop s cs w = Some c \<Longrightarrow> c \<noteq> NULL \<Longrightarrow> child_loop s (cs @ [t]) w = Some c"
  by (induction cs) (auto split: bind_splits if_splits)

lemma child_loop_cong: "(\<And>c. c \<in> set cs \<Longrightarrow> entry_of s' c = entry_of s c) \<Longrightarrow> child_loop s' cs w = child_loop s cs w"
  by (induction cs) (simp_all cong: if_cong)

text \<open>\<open>grows s s'\<close>: entries, nodes and the ways through the tree are still there.\<close>

definition grows :: "'d vfs \<Rightarrow> 'd vfs \<Rightarrow> bool" where
  "grows s s' \<longleftrightarrow> vfs_tree s' = vfs_tree s \<and> (\<forall>x e. entries s x = Some e \<longrightarrow> entries s' x = Some e) \<and>
     (\<forall>x n. vnodes s x = Some n \<longrightarrow> vnodes s' x = Some n) \<and>
     (\<forall>t n. tnodes s t = Some n \<longrightarrow> (\<exists>n'. tnodes s' t = Some n' \<and> t_value n' = t_value n)) \<and>
     (\<forall>t w c. find_child s t w = Some c \<longrightarrow> c \<noteq> NULL \<longrightarrow> find_child s' t w = Some c)"

lemma grows_refl [simp]: "grows s s"
  by (simp add: grows_def)

lemma grows_tnode: "grows s s' \<Longrightarrow> tnodes s t = Some n \<Longrightarrow> \<exists>n'. tnodes s' t = Some n' \<and> t_value n' = t_value n"
  by (simp add: grows_def)

lemma grows_trans: "grows a b \<Longrightarrow> grows b c \<Longrightarrow> grows a c"
  unfolding grows_def by (elim conjE, intro conjI) (simp, blast, blast, fastforce, blast)

fun descend :: "'d vfs \<Rightarrow> ptr \<Rightarrow> string list \<Rightarrow> ptr option" where
  "descend s t [] = Some t"
| "descend s t (w # ws) = do { c \<leftarrow> find_child s t w; if c = NULL then None else descend s c ws }"

lemma descend_grows: "descend s t ws = Some c \<Longrightarrow> grows s s' \<Longrightarrow> descend s' t ws = Some c"
proof (induction ws arbitrary: t)
  case (Cons w ws)
  then obtain d where "find_child s t w = Some d" "d \<noteq> NULL" "descend s d ws = Some c" by (auto split: bind_splits if_splits)
  moreover from this Cons(3) have "find_child s' t w = Some d" by (simp add: grows_def)
  ultimately show ?case using Cons(1,3) by simp
qed simp

lemma find_child_exists: "vfs_ok s \<Longrightarrow> find_child s t w = Some c \<Longrightarrow> c \<noteq> NULL \<Longrightarrow> tnodes s c \<noteq> None"
proof -
  assume ok: "vfs_ok s" and f: "find_child s t w = Some c" "c \<noteq> NULL"
  have "child_loop s cs w = Some c \<Longrightarrow> c \<in> set cs" for cs using f(2) by (induction cs) (auto split: bind_splits if_splits)
  then show ?thesis using f vfs_okD(4) [OF ok] by (auto simp: find_child_def split: bind_splits)
qed

lemma find_child_total:
  assumes "vfs_ok s" and "tnodes s t = Some n"
  shows "\<exists>c. find_child s t w = Some c"
proof -
  have "\<exists>c. child_loop s cs w = Some c" if "\<And>c. c \<in> set cs \<Longrightarrow> tnodes s c \<noteq> None" for cs
    using that
  proof (induction cs)
    case (Cons c cs)
    obtain m where "tnodes s c = Some m" using Cons(2) [of c] by auto
    then obtain e where "entry_of s c = Some e" using vfs_okD(3) [OF assms(1)] by (auto simp: entry_of_def)
    then show ?case using Cons by auto
  qed simp
  then show ?thesis using assms(2) vfs_okD(4) [OF assms] by (simp add: find_child_def)
qed

lemma create_entry_ok:
  assumes ok: "vfs_ok s" and par: "tnodes s par = Some pn" and new: "find_child s par w = Some NULL" and fr: "fresh s (e, t, a)" and fit: "name_fits w"
  shows "\<exists>s'. k_fs_vfs_create_entry s w par (e, t, a) = Some s' \<and> vfs_ok s' \<and> grows s s' \<and> find_child s' par w = Some t \<and>
    entries s' e = Some \<lparr>e_name = w, e_node = a, e_tree_node = t\<rparr> \<and> (\<exists>n. tnodes s' t = Some n \<and> t_children n = []) \<and>
    (\<forall>b. fresh s b \<longrightarrow> fst b \<noteq> e \<longrightarrow> fst (snd b) \<noteq> t \<longrightarrow> snd (snd b) \<noteq> a \<longrightarrow> fresh s' b)"
proof -
  have f: "entries s e = None" "tnodes s t = None" "vnodes s a = None" "e \<noteq> NULL" "t \<noteq> NULL" "a \<noteq> NULL" using fr by (simp_all add: fresh_def)
  have pt: "par \<noteq> NULL" "t \<noteq> par" using vfs_okD(2) [OF ok par] par f(2) by auto
  let ?s = "s\<lparr>entries := (entries s)(e \<mapsto> \<lparr>e_name = w, e_node = a, e_tree_node = t\<rparr>),
     tnodes := (tnodes s)(t \<mapsto> \<lparr>t_parent = par, t_children = [], t_value = e, t_in_tree = True\<rparr>, par \<mapsto> pn\<lparr>t_children := t_children pn @ [t]\<rparr>),
     tree_nodes := tree_nodes s @ [t], vnodes := (vnodes s)(a \<mapsto> dir_node w e)\<rparr>"
  have eo: "entry_of ?s x = entry_of s x" if x: "tnodes s x \<noteq> None" for x
  proof -
    obtain m where m: "tnodes s x = Some m" using x by auto
    then obtain y where "entries s (t_value m) = Some y" using vfs_okD(3) [OF ok] by blast
    then have "t_value m \<noteq> e" using f(1) by auto
    then show ?thesis using m par f(2) by (auto simp: entry_of_def)
  qed
  have et: "entry_of ?s t = Some \<lparr>e_name = w, e_node = a, e_tree_node = t\<rparr>" using pt by (simp add: entry_of_def)
  have kids: "child_loop ?s (t_children n) v = child_loop s (t_children n) v" if "tnodes s x = Some n" for x n v
    using vfs_okD(4) [OF ok that] by (intro child_loop_cong eo) auto
  have nn: "NULL \<notin> set (t_children pn)" using vfs_okD(2,4) [OF ok] par by blast
  have new': "find_child ?s par w = Some t"
    using new par pt nn et kids [OF par] by (auto simp: find_child_def intro!: child_loop_new)
  have old: "find_child ?s x v = Some c" if fc: "find_child s x v = Some c" "c \<noteq> NULL" for x v c
  proof -
    obtain n where n: "tnodes s x = Some n" "child_loop s (t_children n) v = Some c" using fc by (auto simp: find_child_def split: bind_splits)
    then have "child_loop ?s (t_children n) v = Some c" using kids by simp
    then show ?thesis using n par f(2) fc(2) child_loop_old [of ?s "t_children n" v c t] by (auto simp: find_child_def)
  qed
  have gr: "grows s ?s" using f par old by (auto simp: grows_def)
  have B: "x \<noteq> NULL \<and> t_value n \<noteq> NULL \<and> (\<exists>y. entries ?s (t_value n) = Some y \<and> e_tree_node y = x) \<and> (\<forall>c\<in>set (t_children n). tnodes ?s c \<noteq> None)"
    if n: "tnodes ?s x = Some n" for x n
  proof (cases "x = t")
    case True
    then show ?thesis using n f pt by auto
  next
    case False
    then obtain m where m: "tnodes s x = Some m" "t_value n = t_value m" "set (t_children n) \<subseteq> insert t (set (t_children m))"
      using n par by (auto split: if_splits)
    then show ?thesis using vfs_okD(2-4) [OF ok m(1)] gr f(5) by (fastforce simp: grows_def)
  qed
  have C: "\<exists>n. vnodes ?s (e_node y) = Some n \<and> (n_flags n AND VFS_MAPPER \<noteq> 0 \<longrightarrow> n_mountpoint n = x \<and> n_fs n = VirtualOps)"
    if "entries ?s x = Some y" "e_node y \<noteq> NULL" for x y
    using that vfs_okD(5) [OF ok, of x y] f(3) by (cases "x = e") (auto simp: dir_node_def)
  have "vfs_ok ?s" unfolding vfs_ok_def using B C vfs_okD(1) [OF ok] by auto
  moreover have "fresh ?s b" if "fresh s b" "fst b \<noteq> e" "fst (snd b) \<noteq> t" "snd (snd b) \<noteq> a" for b
    using that par by (auto simp: fresh_def)
  ultimately show ?thesis using create_entry_eq [OF par pt fit] gr new' pt by auto
qed


lemma supply_tail:
  assumes "supply_ok s (a # as)"
    and "\<forall>b. fresh s b \<longrightarrow> fst b \<noteq> fst a \<longrightarrow> fst (snd b) \<noteq> fst (snd a) \<longrightarrow> snd (snd b) \<noteq> snd (snd a) \<longrightarrow> fresh s' b"
  shows "supply_ok s' as"
proof -
  have "fresh s' b" if b: "b \<in> set as" for b
  proof -
    have "fresh s b" "fst a \<notin> fst ` set as" "(fst \<circ> snd) a \<notin> (fst \<circ> snd) ` set as" "(snd \<circ> snd) a \<notin> (snd \<circ> snd) ` set as"
      using assms(1) b by (simp_all add: supply_ok_def)
    then have "fresh s b" "fst b \<noteq> fst a" "fst (snd b) \<noteq> fst (snd a)" "snd (snd b) \<noteq> snd (snd a)"
      using b by (metis comp_apply imageI)+
    then show ?thesis using assms(2) by blast
  qed
  then show ?thesis using assms(1) by (simp add: supply_ok_def)
qed

text \<open>\<open>get_entry\<close> with \<open>create\<close>: the way to the entry exists afterwards, and nothing has gone.\<close>

lemma entry_loop_ok:
  "vfs_ok s \<Longrightarrow> tnodes s t \<noteq> None \<Longrightarrow> supply_ok s new \<Longrightarrow> length ws \<le> length new \<Longrightarrow> \<forall>w \<in> set ws. name_fits w \<Longrightarrow>
   \<exists>s' c n. entry_loop s t ws True new = Some (t_value n, s') \<and> vfs_ok s' \<and> grows s s' \<and> descend s' t ws = Some c \<and> tnodes s' c = Some n \<and>
     (descend s t ws = Some c \<or> tnodes s c = None)"
proof (induction ws arbitrary: s t new)
  case Nil
  then show ?case by auto
next
  case (Cons w ws)
  obtain n where n: "tnodes s t = Some n" using Cons(3) by auto
  obtain c where c: "find_child s t w = Some c" using find_child_total [OF Cons(2) n] by blast
  show ?case
  proof (cases "c = NULL")
    case False
    have "tnodes s c \<noteq> None" using find_child_exists [OF Cons(2) c False] .
    moreover have "length ws \<le> length new" "\<forall>w \<in> set ws. name_fits w" using Cons(5,6) by simp_all
    ultimately obtain s' d m where r: "entry_loop s c ws True new = Some (t_value m, s')" "vfs_ok s'" "grows s s'" "descend s' c ws = Some d" "tnodes s' d = Some m"
      "descend s c ws = Some d \<or> tnodes s d = None"
      using Cons(1) [OF Cons(2) _ Cons(4)] by blast
    have "find_child s' t w = Some c" using r(3) c False by (simp add: grows_def)
    then have "descend s' t (w # ws) = Some d" using r(4) False by simp
    moreover have "entry_loop s t (w # ws) True new = Some (t_value m, s')" using r(1) c False by simp
    moreover have "descend s t (w # ws) = Some d \<or> tnodes s d = None" using r(6) c False by simp
    ultimately show ?thesis using r(2,3,5) by blast
  next
    case True
    obtain e u a as where new: "new = (e, u, a) # as" using Cons(5) by (cases new) (auto simp del: entry_loop.simps)
    have fr: "fresh s (e, u, a)" "name_fits w" using Cons(4,6) new by (simp_all add: supply_ok_def)
    obtain s1 where s1: "k_fs_vfs_create_entry s w t (e, u, a) = Some s1" "vfs_ok s1" "grows s s1" "find_child s1 t w = Some u"
      "entries s1 e = Some \<lparr>e_name = w, e_node = a, e_tree_node = u\<rparr>"
      and leaf: "\<exists>n. tnodes s1 u = Some n \<and> t_children n = []"
      and fr1: "\<forall>b. fresh s b \<longrightarrow> fst b \<noteq> e \<longrightarrow> fst (snd b) \<noteq> u \<longrightarrow> snd (snd b) \<noteq> a \<longrightarrow> fresh s1 b"
      using create_entry_ok [OF Cons(2) n c [unfolded True] fr] by blast
    have u: "u \<noteq> NULL" using fr(1) by (simp add: fresh_def)
    have su: "supply_ok s1 as" using fr1 by (intro supply_tail [OF Cons(4) [unfolded new]]) simp
    have "tnodes s1 u \<noteq> None" using find_child_exists [OF s1(2,4) u] .
    moreover have "length ws \<le> length as" "\<forall>w \<in> set ws. name_fits w" using Cons(5,6) new by simp_all
    ultimately obtain s' d m where r: "entry_loop s1 u ws True as = Some (t_value m, s')" "vfs_ok s'" "grows s1 s'" "descend s' u ws = Some d" "tnodes s' d = Some m"
      "descend s1 u ws = Some d \<or> tnodes s1 d = None"
      using Cons(1) [OF s1(2) _ su] by blast
    have "tnodes s d = None"
    proof (cases "tnodes s1 d = None")
      case True
      then show ?thesis using grows_tnode [OF s1(3), of d] by (cases "tnodes s d") auto
    next
      case False
      have "descend s1 u ws = Some d" using r(6) by (rule disjE) (simp_all add: False)
      then have "d = u" using leaf by (cases ws) (auto simp: find_child_def)
      then show ?thesis using fr by (simp add: fresh_def)
    qed
    have "find_child s' t w = Some u" using r(3) s1(4) u by (simp add: grows_def)
    then have "descend s' t (w # ws) = Some d" using r(4) u by simp
    moreover have "entry_loop s t (w # ws) True new = Some (t_value m, s')" using r(1) c True s1(1,5) new by simp
    ultimately show ?thesis using r(2,5) grows_trans [OF s1(3) r(3)] \<open>tnodes s d = None\<close> by blast
  qed
qed

lemma find_child_name: "find_child s t w = Some c \<Longrightarrow> c \<noteq> NULL \<Longrightarrow> \<exists>e. entry_of s c = Some e \<and> e_name e = w"
proof -
  assume f: "find_child s t w = Some c" "c \<noteq> NULL"
  have "child_loop s cs w = Some c \<Longrightarrow> \<exists>e. entry_of s c = Some e \<and> e_name e = w" for cs using f(2) by (induction cs) (auto split: bind_splits if_splits)
  then show ?thesis using f by (auto simp: find_child_def split: bind_splits)
qed

lemma tree_walk_descend:
  "descend s t ws = Some c \<Longrightarrow> ws \<noteq> [] \<Longrightarrow> entry_of s c = Some e \<Longrightarrow> tree_walk s t ws (last ws) found = Some (Inl (e_node e))"
proof (induction ws arbitrary: t found)
  case (Cons w ws)
  then obtain d where d: "find_child s t w = Some d" "d \<noteq> NULL" "descend s d ws = Some c" by (auto split: bind_splits if_splits)
  obtain x where x: "entry_of s d = Some x" "e_name x = w" using find_child_name [OF d(1,2)] by blast
  show ?case using Cons(1,4) d x by (cases "ws = []") auto
qed simp

lemma fetch_segments_nth:
  "(\<And>i. i \<in> set is \<Longrightarrow> k_util_path_segment path i = Some (Some (ws ! i))) \<Longrightarrow> fetch_segments path is = Some (map ((!) ws) is)"
  by (induction "is") auto

lemma path_segments_mk_path: "comps_ok ws \<Longrightarrow> path_segments (mk_path lead ws trail) = Some ws"
  using fetch_segments_nth [of "[0..<length ws]" "mk_path lead ws trail" ws] segment_mk_path length_mk_path
  by (simp add: path_segments_def map_nth)

lemma filename_mk_path: "comps_ok ws \<Longrightarrow> k_util_path_filename (mk_path lead ws trail) = Some (Some (last ws))"
  using segment_mk_path [of ws "length ws - 1" lead trail] length_mk_path [of ws lead trail] mk_path_not_root [of ws lead trail]
  by (auto simp: k_util_path_filename_def comps_ok_def last_conv_nth)

lemma find_node_tree:
  assumes "comps_ok ws" and "path = mk_path lead ws trail" and "descend s (vfs_tree s) ws = Some c" and "entry_of s c = Some e"
    and "vnodes s (e_node e) = Some n" and "e_node e \<noteq> NULL" and "n_flags n AND VFS_SYMLINK = 0 \<or> fl AND O_NOFOLLOW \<noteq> 0"
  shows "find_node drv s path fl = Some (e_node e, s)"
proof -
  have "tree_walk s (vfs_tree s) ws (last ws) NULL = Some (Inl (e_node e))" using assms(1) tree_walk_descend [OF assms(3) _ assms(4)] by (simp add: comps_ok_def)
  then show ?thesis using assms(2,5-7) path_segments_mk_path [OF assms(1)] filename_mk_path [OF assms(1)] mk_path_not_root [OF assms(1)]
    unfolding find_node_def by (subst resolve.simps) auto
qed


text \<open>The end of \<open>k_fs_vfs_mount_node\<close>: the directory node of the entry goes, the new root takes its place.\<close>

lemma mount_entry:
  assumes ok: "vfs_ok s" and e: "entries s mp = Some e" and mp: "mp \<noteq> NULL" and r: "vnodes s fsroot = Some rn" "n_flags rn AND VFS_MAPPER = 0" "fsroot \<noteq> NULL"
    and v: "get_entry s0 path True new = Some (mp, s)" and t: "vfs_tree s0 \<noteq> NULL"
  shows "\<exists>s'. k_fs_vfs_mount_node drv s0 path fsroot new = Some (0, s') \<and> vfs_ok s' \<and> vfs_tree s' = vfs_tree s \<and> tnodes s' = tnodes s \<and>
    entries s' = (entries s)(mp \<mapsto> e\<lparr>e_node := fsroot\<rparr>) \<and> vnodes s' fsroot = Some (rn\<lparr>n_mountpoint := mp\<rparr>)"
proof -
  define old where "old = e_node e"
  have "\<exists>s2. (if old = NULL then Some s else do { x \<leftarrow> vnodes s old; if n_flags x AND VFS_MAPPER \<noteq> 0 then vfs_close drv s old else Some s }) = Some s2 \<and>
      tnodes s2 = tnodes s \<and> entries s2 = entries s \<and> vfs_tree s2 = vfs_tree s \<and> vnodes s2 fsroot = Some rn \<and>
      (\<forall>x. vnodes s2 x = vnodes s x \<or> x = old \<and> (\<exists>n. vnodes s x = Some n \<and> n_flags n AND VFS_MAPPER \<noteq> 0 \<and> n_mountpoint n = mp))"
  proof (cases "old = NULL")
    case False
    then obtain n where n: "vnodes s old = Some n" "n_flags n AND VFS_MAPPER \<noteq> 0 \<longrightarrow> n_mountpoint n = mp \<and> n_fs n = VirtualOps"
      using vfs_okD(5) [OF ok e] by (auto simp: old_def)
    show ?thesis
    proof (cases "n_flags n AND VFS_MAPPER \<noteq> 0")
      case True
      then have "old \<noteq> fsroot" using r n by auto
      then show ?thesis using True False n r by (auto simp: vfs_close_def no_driver_def Let_def)
    qed (use n r in auto)
  qed (use r in auto)
  then obtain s2 where s2: "(if old = NULL then Some s else do { x \<leftarrow> vnodes s old; if n_flags x AND VFS_MAPPER \<noteq> 0 then vfs_close drv s old else Some s }) = Some s2"
    "tnodes s2 = tnodes s" "entries s2 = entries s" "vfs_tree s2 = vfs_tree s" "vnodes s2 fsroot = Some rn"
    and chg: "\<And>x. vnodes s2 x = vnodes s x \<or> x = old \<and> (\<exists>n. vnodes s x = Some n \<and> n_flags n AND VFS_MAPPER \<noteq> 0 \<and> n_mountpoint n = mp)" by blast
  let ?s = "s2\<lparr>entries := (entries s2)(mp \<mapsto> e\<lparr>e_node := fsroot\<rparr>), vnodes := (vnodes s2)(fsroot \<mapsto> rn\<lparr>n_mountpoint := mp\<rparr>)\<rparr>"
  have m: "k_fs_vfs_mount_node drv s0 path fsroot new = Some (0, ?s)"
    unfolding k_fs_vfs_mount_node_def v using t mp e s2(2-5) by (simp add: s2(1) [unfolded old_def])
  have keep: "\<exists>n. vnodes ?s (e_node y) = Some n \<and> (n_flags n AND VFS_MAPPER \<noteq> 0 \<longrightarrow> n_mountpoint n = x \<and> n_fs n = VirtualOps)"
    if y: "entries ?s x = Some y" "e_node y \<noteq> NULL" for x y
  proof (cases "x = mp \<or> e_node y = fsroot")
    case True
    then show ?thesis using y r(2) by (auto split: if_splits)
  next
    case False
    then have ex: "entries s x = Some y" using y s2(3) by simp
    from vfs_okD(5) [OF ok ex y(2)] obtain n where n: "vnodes s (e_node y) = Some n"
      "n_flags n AND VFS_MAPPER \<noteq> 0 \<longrightarrow> n_mountpoint n = x \<and> n_fs n = VirtualOps" by blast
    then have "vnodes s2 (e_node y) = Some n" using chg [of "e_node y"] False by auto
    then show ?thesis using n False by simp
  qed
  have "vfs_ok ?s" unfolding vfs_ok_def
  proof (intro conjI allI impI)
    show "tnodes ?s (vfs_tree ?s) \<noteq> None" using vfs_okD(1) [OF ok] s2(2,4) by simp
    fix t n assume "tnodes ?s t = Some n"
    then have tn: "tnodes s t = Some n" using s2(2) by simp
    then show "t \<noteq> NULL" "t_value n \<noteq> NULL" "\<forall>c\<in>set (t_children n). tnodes ?s c \<noteq> None" using vfs_okD(2,4) [OF ok tn] s2(2) by auto
    show "\<exists>y. entries ?s (t_value n) = Some y \<and> e_tree_node y = t" using vfs_okD(3) [OF ok tn] e s2(3) by auto
  qed (use keep in blast)
  then show ?thesis using m s2 by auto
qed

section \<open>Properties\<close>

definition entry_at :: "'d vfs \<Rightarrow> string list \<Rightarrow> vfs_entry option" where
  "entry_at s ws = do { t \<leftarrow> descend s (vfs_tree s) ws; entry_of s t }"

text \<open>
  C25: what is mounted is found. Mounting a node at a path succeeds, creates the directories on the
  way that do not exist, and afterwards the path, with or without a leading slash and a trailing
  slash, leads to that node (unless the node is a symbolic link that is to be followed); every other place of the tree keeps
  its entry, so that what was mounted elsewhere is still found. The components are not empty, fit the
  256 bytes of a name, and are taken as they are: this layer gives \<open>.\<close> and \<open>..\<close> no meaning.
\<close>

theorem mount_then_find:
  assumes "vfs_ok s" and "comps_ok ws" and "vnodes s fsroot = Some rn" and "n_flags rn AND VFS_MAPPER = 0" and "fsroot \<noteq> NULL"
    and "supply_ok s new" and "length ws \<le> length new" and "n_flags rn AND VFS_SYMLINK = 0 \<or> fl AND O_NOFOLLOW \<noteq> 0"
    and "\<forall>w \<in> set ws. name_fits w"
  shows "\<exists>s'. k_fs_vfs_mount_node drv s (mk_path lead ws trail) fsroot new = Some (0, s') \<and> vfs_ok s' \<and>
    (\<forall>lead' trail'. find_node drv s' (mk_path lead' ws trail') fl = Some (fsroot, s')) \<and>
    (\<forall>vs e. entry_at s vs = Some e \<longrightarrow> descend s (vfs_tree s) vs \<noteq> descend s (vfs_tree s) ws \<longrightarrow> entry_at s' vs = Some e)"
proof -
  have t0: "tnodes s (vfs_tree s) \<noteq> None" using vfs_okD(1) [OF assms(1)] .
  then have tn: "vfs_tree s \<noteq> NULL" using vfs_okD(2) [OF assms(1)] by auto
  obtain s1 c n where r: "entry_loop s (vfs_tree s) ws True new = Some (t_value n, s1)" "vfs_ok s1" "grows s s1" "descend s1 (vfs_tree s) ws = Some c" "tnodes s1 c = Some n"
    "descend s (vfs_tree s) ws = Some c \<or> tnodes s c = None"
    using entry_loop_ok [OF assms(1) t0 assms(6,7,9)] by blast
  have ge: "get_entry s (mk_path lead ws trail) True new = Some (t_value n, s1)"
    using r(1) path_segments_mk_path [OF assms(2)] mk_path_not_root [OF assms(2)] by (simp add: get_entry_def)
  obtain e where e: "entries s1 (t_value n) = Some e" "e_tree_node e = c" using vfs_okD(3) [OF r(2,5)] by blast
  have mp: "t_value n \<noteq> NULL" using vfs_okD(2) [OF r(2,5)] by simp
  have rn: "vnodes s1 fsroot = Some rn" using assms(3) r(3) by (simp add: grows_def)
  obtain s' where s': "k_fs_vfs_mount_node drv s (mk_path lead ws trail) fsroot new = Some (0, s')" "vfs_ok s'" "vfs_tree s' = vfs_tree s1"
    "tnodes s' = tnodes s1" "entries s' = (entries s1)(t_value n \<mapsto> e\<lparr>e_node := fsroot\<rparr>)" "vnodes s' fsroot = Some (rn\<lparr>n_mountpoint := t_value n\<rparr>)"
    using mount_entry [OF r(2) e(1) mp rn assms(4,5) ge tn] by blast
  have names: "child_loop s' cs w = child_loop s1 cs w" for cs w
    using e(1) by (induction cs) (auto simp: entry_of_def s'(4,5) split: bind_splits)
  have fc: "find_child s' x w = find_child s1 x w" for x w by (simp add: find_child_def s'(4) names cong: Option.bind_cong)
  have ds: "descend s' x vs = descend s1 x vs" for x vs by (induction vs arbitrary: x) (simp_all add: fc cong: if_cong)
  have vt: "vfs_tree s' = vfs_tree s" using s'(3) r(3) by (simp add: grows_def)
  have eo: "entry_of s' c = Some (e\<lparr>e_node := fsroot\<rparr>)" using r(5) by (simp add: entry_of_def s'(4,5))
  have "find_node drv s' (mk_path lead' ws trail') fl = Some (fsroot, s')" for lead' trail'
    using find_node_tree [OF assms(2) refl _ eo, where fl = fl and drv = drv] r(4) s'(6) assms(5,8) vt ds by simp
  moreover have "entry_at s' vs = Some y" if y: "entry_at s vs = Some y" and ne: "descend s (vfs_tree s) vs \<noteq> descend s (vfs_tree s) ws" for vs y
  proof -
    obtain d m where d: "descend s (vfs_tree s) vs = Some d" "tnodes s d = Some m" "entries s (t_value m) = Some y"
      using y by (auto simp: entry_at_def entry_of_def split: bind_splits)
    have d1: "descend s1 (vfs_tree s) vs = Some d" using descend_grows [OF d(1) r(3)] .
    obtain m1 where m1: "tnodes s1 d = Some m1" "t_value m1 = t_value m" using grows_tnode [OF r(3) d(2)] by blast
    have y1: "entries s1 (t_value m) = Some y" using d(3) r(3) by (simp add: grows_def)
    have "t_value m \<noteq> t_value n"
    proof
      assume "t_value m = t_value n"
      then have "d = c" using vfs_okD(3) [OF r(2) m1(1)] m1(2) e by auto
      then show False using r(6) d(1,2) ne by auto
    qed
    then show ?thesis using d1 m1 y1 vt ds by (simp add: entry_at_def entry_of_def s'(4,5))
  qed
  ultimately show ?thesis using s'(1,2) by blast
qed


lemma init_ok:
  assumes "e \<noteq> NULL" and "t \<noteq> NULL" and "a \<noteq> NULL"
  shows "\<exists>s. k_fs_vfs_init d (e, t, a) = Some s \<and> vfs_ok s \<and> dom (entries s) = {e} \<and> dom (tnodes s) = {t} \<and> dom (vnodes s) = {a}"
proof -
  have "k_fs_vfs_init d (e, t, a) = Some \<lparr>vnodes = [a \<mapsto> dir_node ''[root]'' e],
      entries = [e \<mapsto> \<lparr>e_name = ''[root]'', e_node = a, e_tree_node = t\<rparr>],
      tnodes = [t \<mapsto> \<lparr>t_parent = NULL, t_children = [], t_value = e, t_in_tree = True\<rparr>], vfs_tree = t, tree_nodes = [t], drv_data = d\<rparr>"
    by (simp add: k_fs_vfs_init_def k_fs_vfs_create_entry_def create_virtual_node_def k_fs_vfs_create_node_def blank_node_def name_fits_def tree_create_node_def tree_set_root_def
        tree_insert_node_def dir_node_def)
  then show ?thesis using assms by (auto simp: vfs_ok_def dir_node_def)
qed

theorem mount_then_find_witness:
  "\<exists>s s1 s'. k_fs_vfs_init () (10, 20, 30) = Some s \<and> k_fs_vfs_create_node s 99 ''null'' = Some s1 \<and>
     k_fs_vfs_mount_node (\<lambda>_. no_driver) s1 ''/dev/null'' 99 [(11, 21, 31), (12, 22, 32)] = Some (0, s') \<and>
     find_node (\<lambda>_. no_driver) s' ''dev/null/'' 0 = Some (99, s')"
proof -
  obtain s :: "unit vfs" where s: "k_fs_vfs_init () (10, 20, 30) = Some s" "vfs_ok s" "dom (entries s) = {10}" "dom (tnodes s) = {20}" "dom (vnodes s) = {30}"
    using init_ok [of 10 20 30 "()"] by auto
  let ?s = "s\<lparr>vnodes := (vnodes s)(99 \<mapsto> blank_node ''null'')\<rparr>"
  have cr: "k_fs_vfs_create_node s 99 ''null'' = Some ?s" by (simp add: k_fs_vfs_create_node_def name_fits_def)
  have n: "vnodes s 99 = None" using s(5) domIff [of 99 "vnodes s"] by simp
  have ok: "vfs_ok ?s"
  proof -
    have "\<exists>n. vnodes ?s (e_node e) = Some n \<and> (n_flags n AND VFS_MAPPER \<noteq> 0 \<longrightarrow> n_mountpoint n = x \<and> n_fs n = VirtualOps)"
      if "entries ?s x = Some e" "e_node e \<noteq> NULL" for x e
      using that vfs_okD(5) [OF s(2), of x e] n by auto
    then show ?thesis using s(2) unfolding vfs_ok_def by simp
  qed
  have c: "comps_ok [''dev'', ''null'']" by (simp add: comps_ok_def)
  have su: "supply_ok ?s [(11, 21, 31), (12, 22, 32)]"
    unfolding supply_ok_def fresh_def
    using s(3-5) domIff [of 11 "entries s"] domIff [of 12 "entries s"] domIff [of 21 "tnodes s"] domIff [of 22 "tnodes s"]
      domIff [of 31 "vnodes s"] domIff [of 32 "vnodes s"] by simp
  obtain rn where rn: "vnodes ?s 99 = Some rn" "n_flags rn = 0" by (simp add: blank_node_def)
  have p: "mk_path True [''dev'', ''null''] False = ''/dev/null''" "mk_path False [''dev'', ''null''] True = ''dev/null/''" by (simp_all add: mk_path_def)
  have "\<exists>s'. k_fs_vfs_mount_node (\<lambda>_. no_driver) ?s ''/dev/null'' 99 [(11, 21, 31), (12, 22, 32)] = Some (0, s') \<and>
      (\<forall>lead' trail'. find_node (\<lambda>_. no_driver) s' (mk_path lead' [''dev'', ''null''] trail') 0 = Some (99, s'))"
    using mount_then_find [OF ok c rn(1) _ _ su, of 0 "\<lambda>_. no_driver" True False] rn(2) p(1) by (auto simp: name_fits_def)
  then show ?thesis using s(1) cr p(2) by metis
qed

end
