(* ===== verification/Syscall.thy ===== *)
theory Syscall
  imports Vfs Lifecycle
begin

text \<open>
  System calls, from \<^verbatim>\<open>kernel/src/int/syscall.c\<close>: the handlers that work on descriptors, processes and
  signals, and \<open>select\<close>. The state is that of the virtual file system whose drivers see the kernel: the
  field \<open>drv_data\<close> holds the kernel and what the drivers keep for themselves. A handler returns its result as
  a signed number, negative for an error number; user memory that it reads or writes through a
  valid pointer is an argument or a further result. \<open>select\<close> is split where the caller gives up the
  processor.
\<close>

section \<open>State\<close>

type_synonym 'x sys = "(kernel \<times> 'x) vfs"

definition kern :: "'x sys \<Rightarrow> kernel" where
  "kern s = fst (drv_data s)"

definition set_kern :: "'x sys \<Rightarrow> kernel \<Rightarrow> 'x sys" where
  "set_kern s k = s\<lparr>drv_data := (k, snd (drv_data s))\<rparr>"

definition cur :: "'x sys \<Rightarrow> process" where
  "cur s = procs (kern s) (current_process (kern s))"

definition fdt_at :: "'x sys \<Rightarrow> int \<Rightarrow> ptr" where
  "fdt_at s fd = fd2fdt (fds (cur s)) fd"

lemma kern_simps [simp]:
  "kern (set_kern s k) = k" "set_kern (set_kern s k) k' = set_kern s k'" "vnodes (set_kern s k) = vnodes s" "set_kern s (kern s) = s"
  by (simp_all add: kern_def set_kern_def)

section \<open>Files\<close>

text \<open>The 32 bits of a descriptor number are taken as a signed number by \<open>fd2fdt\<close>.\<close>

definition advance :: "'x sys \<Rightarrow> ptr \<Rightarrow> int \<Rightarrow> 'x sys option" where
  "advance s p n =
     (if n > 0 then do { t \<leftarrow> fdts (kern s) p;
                         Some (set_kern s ((kern s)\<lparr>fdts := (fdts (kern s))(p \<mapsto> t\<lparr>fd_offset := fd_offset t + of_int n\<rparr>)\<rparr>)) }
      else Some s)"

definition sys_read :: "(nat \<Rightarrow> (kernel \<times> 'x) driver) \<Rightarrow> 'x sys \<Rightarrow> u32 \<Rightarrow> u32 \<Rightarrow> ((int \<times> u8 list) \<times> 'x sys) option" where
  "sys_read drv s fd cnt =
     (let p = fdt_at s (sint fd)
      in if p = NULL then Some ((- 2, []), s)
         else do {
           t \<leftarrow> fdts (kern s) p;
           ((n, bytes), s1) \<leftarrow> k_fs_vfs_read drv s (fd_node t) (fd_offset t) cnt;
           s2 \<leftarrow> advance s1 p n;
           Some ((n, bytes), s2) })"

definition sys_write :: "(nat \<Rightarrow> (kernel \<times> 'x) driver) \<Rightarrow> 'x sys \<Rightarrow> u32 \<Rightarrow> u8 list \<Rightarrow> (int \<times> 'x sys) option" where
  "sys_write drv s fd buf =
     (let p = fdt_at s (sint fd)
      in if p = NULL then Some (- 2, s)
         else do {
           t \<leftarrow> fdts (kern s) p;
           (n, s1) \<leftarrow> k_fs_vfs_write drv s (fd_node t) (fd_offset t) buf;
           s2 \<leftarrow> advance s1 p n;
           Some (n, s2) })"

definition sys_seek :: "'x sys \<Rightarrow> u32 \<Rightarrow> u32 \<Rightarrow> u8 \<Rightarrow> (int \<times> 'x sys) option" where
  "sys_seek s fd off origin =
     (let p = fdt_at s (sint fd)
      in if p = NULL then Some (- 2, s)
         else do {
           t \<leftarrow> fdts (kern s) p;
           new \<leftarrow> (if origin = 1 then Some (fd_offset t + off)
                   else if origin = 0 then Some off
                   else if origin = 2 then do { n \<leftarrow> vnodes s (fd_node t); Some (n_size n + off) }
                   else Some (fd_offset t));
           Some (sint new, set_kern s ((kern s)\<lparr>fdts := (fdts (kern s))(p \<mapsto> t\<lparr>fd_offset := new\<rparr>)\<rparr>)) })"

definition sys_close :: "'x sys \<Rightarrow> u32 \<Rightarrow> (int \<times> 'x sys) option" where
  "sys_close s fd = do { k \<leftarrow> k_proc_process_close_fd (kern s) (current_process (kern s)) fd; Some (0, set_kern s k) }"

definition sys_readdir :: "(nat \<Rightarrow> (kernel \<times> 'x) driver) \<Rightarrow> 'x sys \<Rightarrow> u32 \<Rightarrow> u32 \<Rightarrow> ((int \<times> dirent option) \<times> 'x sys) option" where
  "sys_readdir drv s fd index =
     (let p = fdt_at s (sint fd)
      in if p = NULL then Some ((- 2, None), s)
         else do {
           t \<leftarrow> fdts (kern s) p;
           (r, s1) \<leftarrow> k_fs_vfs_readdir drv s (fd_node t) index;
           Some (case r of None \<Rightarrow> ((0, None), s1) | Some d \<Rightarrow> ((1, Some d), s1)) })"

definition sys_ioctl :: "(nat \<Rightarrow> (kernel \<times> 'x) driver) \<Rightarrow> 'x sys \<Rightarrow> int \<Rightarrow> u32 \<Rightarrow> ptr \<Rightarrow> (int \<times> 'x sys) option" where
  "sys_ioctl drv s fd req args =
     (let p = fdt_at s fd
      in if p = NULL then Some (0, s) else do { t \<leftarrow> fdts (kern s) p; k_fs_vfs_ioctl drv s (fd_node t) req args })"

definition sys_truncate :: "(nat \<Rightarrow> (kernel \<times> 'x) driver) \<Rightarrow> 'x sys \<Rightarrow> u32 \<Rightarrow> u32 \<Rightarrow> (int \<times> 'x sys) option" where
  "sys_truncate drv s fd sz =
     (let p = fdt_at s (sint fd)
      in if p = NULL then Some (- 2, s) else do { t \<leftarrow> fdts (kern s) p; k_fs_vfs_truncate drv s (fd_node t) sz })"

text \<open>
  \<open>dup2\<close>. A negative target asks for the lowest free slot. A slot behind the table makes it grow by
  \<open>size - fd2 + 1\<close> slots, in 32 bits; a store behind the table that results is \<open>None\<close>.
\<close>

definition dup_target :: "ptr list \<Rightarrow> int \<Rightarrow> int" where
  "dup_target xs fd2 = (if fd2 < 0 then int (length (takeWhile (\<lambda>x. x \<noteq> NULL) xs)) else fd2)"

definition sys_dup2 :: "'x sys \<Rightarrow> int \<Rightarrow> int \<Rightarrow> (int \<times> 'x sys) option" where
  "sys_dup2 s fd1 fd2 =
     (let p = current_process (kern s); f = fds (cur s)
      in if fd1 < 0 then Some (- 22, s)
         else if fd1 \<ge> int (unat (fds_size f)) \<or> nodes f ! nat fd1 = NULL then Some (- 22, s)
         else let fd = dup_target (take (unat (fds_size f)) (nodes f)) fd2;
                  size' = (if fd \<ge> int (unat (fds_size f)) then fds_size f + (fds_size f - of_int fd + 1) else fds_size f);
                  xs = (if fd \<ge> int (unat (fds_size f)) then arr_realloc NULL (nodes f) (unat size') else nodes f)
              in if nat fd \<ge> length xs \<or> nat fd1 \<ge> length xs then None
                 else let x = xs ! nat fd1;
                          k1 = upd_proc (kern s) p (\<lambda>P. P\<lparr>fds := (fds P)\<lparr>fds_size := size', nodes := xs[nat fd := x]\<rparr>\<rparr>)
                      in do {
                           t \<leftarrow> fdts k1 x;
                           Some (fd, set_kern s (k1\<lparr>fdts := (fdts k1)(x \<mapsto> t\<lparr>fd_links := fd_links t + 1\<rparr>)\<rparr>)) })"

definition sys_fcntl :: "'x sys \<Rightarrow> int \<Rightarrow> int \<Rightarrow> u32 \<Rightarrow> (int \<times> 'x sys) option" where
  "sys_fcntl s fd cmd arg =
     (let p = fdt_at s fd
      in if p = NULL then Some (- 2, s)
         else do {
           t \<leftarrow> fdts (kern s) p;
           if fd_node t = NULL then Some (- 2, s)
           else if cmd = 0 then sys_dup2 s fd (- 1)
           else do {
             n \<leftarrow> vnodes s (fd_node t);
             Some (if cmd = 1 then (sint (n_flags n), s)
                   else if cmd = 2 then (0, s\<lparr>vnodes := (vnodes s)(fd_node t \<mapsto> n\<lparr>n_mode := ucast arg\<rparr>)\<rparr>)
                   else (- 22, s)) } })"

section \<open>Paths\<close>

text \<open>
  The handlers that take a path; \<open>wd\<close> is the working directory of the process, a path of \<open>None\<close> an invalid
  pointer, and the addresses are those of the copies \<open>k_fs_vfs_open\<close> may make.
\<close>

definition sys_to_fullpath :: "string \<Rightarrow> string \<Rightarrow> string option" where
  "sys_to_fullpath wd path = (if path = [] \<or> path ! 0 \<noteq> slash then k_util_path_canonize wd path else k_util_path_canonize path [])"

text \<open>
  The link count and the mode of an open node are also kept where the process code finds them
  (\<open>fs_nodes\<close>): a node that a handler opens is entered there.
\<close>

definition enter_node :: "'x sys \<Rightarrow> ptr \<Rightarrow> 'x sys option" where
  "enter_node s node = do {
     n \<leftarrow> vnodes s node;
     Some (set_kern s ((kern s)\<lparr>fs_nodes := (fs_nodes (kern s))(node \<mapsto> \<lparr>links = n_links n, mode = ucast (n_mode n)\<rparr>)\<rparr>)) }"

definition sys_open :: "(nat \<Rightarrow> (kernel \<times> 'x) driver) \<Rightarrow> 'x sys \<Rightarrow> string \<Rightarrow> string option \<Rightarrow> u16 \<Rightarrow> ptr \<Rightarrow> ptr \<Rightarrow> ptr \<Rightarrow> (int \<times> 'x sys) option" where
  "sys_open drv s wd arg fl copy copy2 fdt =
     (case arg of None \<Rightarrow> Some (- 22, s)
      | Some path \<Rightarrow>
          if path = [] then Some (- 22, s)
          else do {
            full \<leftarrow> sys_to_fullpath wd path;
            (node, s1) \<leftarrow> k_fs_vfs_open drv s full fl copy copy2;
            if node = NULL then Some (- 2, s1)
            else do {
              s2 \<leftarrow> enter_node s1 node;
              (fd, k) \<leftarrow> k_proc_process_open_node (kern s2) (current_process (kern s2)) node fdt;
              Some (sint fd, set_kern s2 k) } })"

text \<open>What \<open>__stat\<close> stores; the mode is stored only for a node whose flags are exactly one of those listed.\<close>

record stat =
  st_ino :: u64
  st_size :: u32
  st_mode :: "u32 option"

definition stat_of :: "vnode \<Rightarrow> stat" where
  "stat_of n = \<lparr>st_ino = n_inode n, st_size = n_size n,
     st_mode = (if n_flags n = 1 then Some 0x8000 else if n_flags n = 2 then Some 0x4000 else if n_flags n = 4 then Some 0xA000
                else if n_flags n = 8 then Some 0x2000 else if n_flags n = 16 then Some 0x1000 else None)\<rparr>"

text \<open>\<open>sys_stat\<close> and \<open>sys_lstat\<close> have the same body. \<open>ok\<close> says that the result pointer is valid.\<close>

definition sys_stat ::
  "(nat \<Rightarrow> (kernel \<times> 'x) driver) \<Rightarrow> 'x sys \<Rightarrow> string \<Rightarrow> string option \<Rightarrow> bool \<Rightarrow> ptr \<Rightarrow> ptr \<Rightarrow> ((int \<times> stat option) \<times> 'x sys) option" where
  "sys_stat drv s wd arg ok copy copy2 =
     (case arg of None \<Rightarrow> Some ((- 22, None), s)
      | Some path \<Rightarrow>
          if \<not> ok then Some ((- 22, None), s)
          else do {
            full \<leftarrow> sys_to_fullpath wd path;
            (node, s1) \<leftarrow> k_fs_vfs_open drv s full 0 copy copy2;
            if node = NULL then Some ((- 2, None), s1)
            else do { n \<leftarrow> vnodes s1 node; s2 \<leftarrow> vfs_close drv s1 node; Some ((0, Some (stat_of n)), s2) } })"

definition sys_fstat :: "'x sys \<Rightarrow> int \<Rightarrow> bool \<Rightarrow> (int \<times> stat option) option" where
  "sys_fstat s fd ok =
     (if \<not> ok then Some (- 22, None)
      else let p = fdt_at s fd
           in if p = NULL then Some (- 2, None)
              else do { t \<leftarrow> fdts (kern s) p; n \<leftarrow> vnodes s (fd_node t); Some (0, Some (stat_of n)) })"

definition sys_mkdir :: "(nat \<Rightarrow> (kernel \<times> 'x) driver) \<Rightarrow> 'x sys \<Rightarrow> string \<Rightarrow> string \<Rightarrow> u16 \<Rightarrow> ptr \<Rightarrow> ptr \<Rightarrow> (int \<times> 'x sys) option" where
  "sys_mkdir drv s wd path m copy copy2 = do {
     full \<leftarrow> sys_to_fullpath wd path;
     name \<leftarrow> k_util_path_filename full;
     filename \<leftarrow> name;
     par \<leftarrow> k_util_path_folder full;
     (par_node, s1) \<leftarrow> k_fs_vfs_open drv s par m copy copy2;
     if par_node = NULL then Some (- 2, s1)
     else do { (d, s2) \<leftarrow> k_fs_vfs_mkdir drv s1 par_node filename m; s3 \<leftarrow> vfs_close drv s2 par_node; Some (0, s3) } }"

definition sys_rm :: "(nat \<Rightarrow> (kernel \<times> 'x) driver) \<Rightarrow> 'x sys \<Rightarrow> string \<Rightarrow> string \<Rightarrow> ptr \<Rightarrow> ptr \<Rightarrow> (int \<times> 'x sys) option" where
  "sys_rm drv s wd path copy copy2 = do {
     full \<leftarrow> sys_to_fullpath wd path;
     (node, s1) \<leftarrow> k_fs_vfs_open drv s full 0 copy copy2;
     if node = NULL then Some (- 2, s1) else k_fs_vfs_rm drv s1 node }"

definition sys_rmdir :: "(nat \<Rightarrow> (kernel \<times> 'x) driver) \<Rightarrow> 'x sys \<Rightarrow> string \<Rightarrow> string \<Rightarrow> ptr \<Rightarrow> ptr \<Rightarrow> (int \<times> 'x sys) option" where
  "sys_rmdir drv s wd path copy copy2 = do {
     full \<leftarrow> sys_to_fullpath wd path;
     (node, s1) \<leftarrow> k_fs_vfs_open drv s full 0 copy copy2;
     if node = NULL then Some (- 2, s1) else k_fs_vfs_rmdir drv s1 node }"

section \<open>Processes and signals\<close>

definition sys_getpid :: "'x sys \<Rightarrow> u32" where
  "sys_getpid s = pid (cur s)"

definition sys_getuid :: "'x sys \<Rightarrow> u32" where
  "sys_getuid s = uid (cur s)"

definition sys_kill :: "'x sys \<Rightarrow> u32 \<Rightarrow> int \<Rightarrow> (int \<times> 'x sys) option" where
  "sys_kill s n sig =
     (let p = k_proc_process_find_by_pid (kern s) n
      in if p \<noteq> NULL \<and> pstate (procs (kern s) p) \<noteq> PROCESS_STATE_FINISHED
         then do { k \<leftarrow> k_proc_process_send_signal (kern s) p sig; Some (0, set_kern s k) }
         else Some (0, s))"

text \<open>\<open>new\<close> is the \<open>sigaction\<close> behind a valid pointer; the second result goes to \<open>prev\<close> when that is valid.\<close>

definition sys_sigact :: "'x sys \<Rightarrow> int \<Rightarrow> (ptr \<times> u8) option \<Rightarrow> int \<times> ptr option \<times> 'x sys" where
  "sys_sigact s sig new =
     (if sig < 0 \<or> sig \<ge> MAX_SIGNAL then (1, None, s)
      else case new of None \<Rightarrow> (- 22, None, s)
        | Some (h, fl) \<Rightarrow>
            let i = nat sig; bit = sig_bit i; old = handler (signals (cur s) i);
                upd = (\<lambda>f. set_kern s (upd_proc (kern s) (current_process (kern s)) f))
            in (0, Some old,
                if h = 0
                then upd (\<lambda>P. P\<lparr>signals := (signals P)(i := (signals P i)\<lparr>handler := 0\<rparr>), signals_ignored := signals_ignored P AND NOT bit\<rparr>)
                else if h = 1 then upd (\<lambda>P. P\<lparr>signals_ignored := signals_ignored P OR bit\<rparr>)
                else upd (\<lambda>P. P\<lparr>signals_ignored := signals_ignored P AND NOT bit,
                                signals := (signals P)(i := \<lparr>handler = h, sig_flags = fl\<rparr>)\<rparr>)))"

section \<open>Waiting for several files\<close>

text \<open>A set of descriptors is a bitmap of 1024 bits.\<close>

type_synonym fd_set = "u32 list"

definition FD_ISSET :: "nat \<Rightarrow> fd_set \<Rightarrow> bool" where
  "FD_ISSET fd b \<longleftrightarrow> b ! (fd div 32) AND push_bit (fd mod 32) 1 \<noteq> 0"

definition FD_SET :: "nat \<Rightarrow> fd_set \<Rightarrow> fd_set" where
  "FD_SET fd b = b[fd div 32 := b ! (fd div 32) OR push_bit (fd mod 32) 1]"

definition FD_CLR :: "nat \<Rightarrow> fd_set \<Rightarrow> fd_set" where
  "FD_CLR fd b = b[fd div 32 := b ! (fd div 32) AND NOT (push_bit (fd mod 32) 1)]"

definition FD_ZERO :: fd_set where
  "FD_ZERO = replicate 32 0"

text \<open>
  The sets of a call, by event (1 read, 2 write, 4 exception): those of the caller, which may be
  null pointers, and the descriptors to wait for.
\<close>

record select_state =
  sel_set :: "u8 \<Rightarrow> fd_set option"
  wait_set :: "u8 \<Rightarrow> fd_set"
  has_result :: nat

definition events :: "u8 list" where
  "events = [1, 2, 4]"

text \<open>
  \<open>__select_for_event\<close> and the count behind each call; a bit outside the bitmap is \<open>None\<close>, \<open>Inl\<close> is the
  error. \<open>k_fs_vfs_check\<close> returns an unsigned byte, so its result is never negative.
\<close>

definition select_for_event ::
  "(nat \<Rightarrow> (kernel \<times> 'x) driver) \<Rightarrow> 'x sys \<Rightarrow> nat \<Rightarrow> ptr \<Rightarrow> u8 \<Rightarrow> select_state \<Rightarrow> (select_state \<times> 'x sys + select_state \<times> 'x sys) option" where
  "select_for_event drv s fd node event st =
     (case sel_set st event of
        None \<Rightarrow> Some (Inr (st, s))
      | Some b \<Rightarrow>
          if fd div 32 \<ge> length b then None
          else if \<not> FD_ISSET fd b then Some (Inr (st, s))
          else if node = NULL then Some (Inl (st\<lparr>sel_set := (sel_set st)(event \<mapsto> FD_CLR fd b)\<rparr>, s))
          else do {
            (r, s1) \<leftarrow> k_fs_vfs_check drv s node event;
            Some (Inr (if r = 0
                       then st\<lparr>sel_set := (sel_set st)(event \<mapsto> FD_CLR fd b), wait_set := (wait_set st)(event := FD_SET fd (wait_set st event))\<rparr>
                       else st\<lparr>sel_set := (sel_set st)(event \<mapsto> FD_SET fd (FD_CLR fd b)), has_result := has_result st + 1\<rparr>,
                       s1)) })"

fun select_events ::
  "(nat \<Rightarrow> (kernel \<times> 'x) driver) \<Rightarrow> 'x sys \<Rightarrow> nat \<Rightarrow> ptr \<Rightarrow> u8 list \<Rightarrow> select_state \<Rightarrow> (select_state \<times> 'x sys + select_state \<times> 'x sys) option" where
  "select_events drv s fd node [] st = Some (Inr (st, s))"
| "select_events drv s fd node (ev # evs) st = do {
     r \<leftarrow> select_for_event drv s fd node ev st;
     case r of Inl e \<Rightarrow> Some (Inl e) | Inr (st1, s1) \<Rightarrow> select_events drv s1 fd node evs st1 }"

definition node_at :: "'x sys \<Rightarrow> nat \<Rightarrow> ptr option" where
  "node_at s fd =
     (let p = fdt_at s (int fd) in if p = NULL then Some NULL else do { t \<leftarrow> fdts (kern s) p; Some (fd_node t) })"

fun select_scan ::
  "(nat \<Rightarrow> (kernel \<times> 'x) driver) \<Rightarrow> 'x sys \<Rightarrow> nat list \<Rightarrow> select_state \<Rightarrow> (select_state \<times> 'x sys + select_state \<times> 'x sys) option" where
  "select_scan drv s [] st = Some (Inr (st, s))"
| "select_scan drv s (fd # rest) st = do {
     node \<leftarrow> node_at s fd;
     r \<leftarrow> select_events drv s fd node events st;
     case r of Inl e \<Rightarrow> Some (Inl e) | Inr (st1, s1) \<Rightarrow> select_scan drv s1 rest st1 }"

text \<open>The second loop asks the drivers to wake the process up; a failure is only logged.\<close>

fun wait_events :: "(nat \<Rightarrow> (kernel \<times> 'x) driver) \<Rightarrow> 'x sys \<Rightarrow> ptr \<Rightarrow> nat \<Rightarrow> ptr \<Rightarrow> u8 list \<Rightarrow> select_state \<Rightarrow> 'x sys option" where
  "wait_events drv s prc fd node [] st = Some s"
| "wait_events drv s prc fd node (ev # evs) st =
     (if FD_ISSET fd (wait_set st ev)
      then do { (r, s1) \<leftarrow> k_fs_vfs_wait drv s node ev prc; wait_events drv s1 prc fd node evs st }
      else wait_events drv s prc fd node evs st)"

fun wait_scan_fds :: "(nat \<Rightarrow> (kernel \<times> 'x) driver) \<Rightarrow> 'x sys \<Rightarrow> ptr \<Rightarrow> nat list \<Rightarrow> select_state \<Rightarrow> 'x sys option" where
  "wait_scan_fds drv s prc [] st = Some s"
| "wait_scan_fds drv s prc (fd # rest) st = do {
     node \<leftarrow> node_at s fd;
     s1 \<leftarrow> (if node = NULL then Some s else wait_events drv s prc fd node events st);
     wait_scan_fds drv s1 prc rest st }"

datatype 'x select_turn =
    SelReturned int select_state "'x sys"
  | SelAsleep select_state "'x sys"

text \<open>
  The call up to the point where the process is asleep. \<open>tv\<close> is the timeout behind a valid pointer, in seconds
  and microseconds, \<open>ticks\<close> the time and \<open>new\<close> the address for the timeout node.
\<close>

definition sys_select_begin ::
  "(nat \<Rightarrow> (kernel \<times> 'x) driver) \<Rightarrow> 'x sys \<Rightarrow> int \<Rightarrow> (u8 \<Rightarrow> fd_set option) \<Rightarrow> (u32 \<times> u32) option \<Rightarrow> u64 \<Rightarrow> ptr \<Rightarrow> 'x select_turn option" where
  "sys_select_begin drv s n sets tv ticks new =
     (let st0 = \<lparr>sel_set = sets, wait_set = (\<lambda>_. FD_ZERO), has_result = 0\<rparr>
      in if n < 0 then Some (SelReturned (- 22) st0 s)
         else do {
           r \<leftarrow> select_scan drv s [0..<nat n] st0;
           case r of Inl (st, s1) \<Rightarrow> Some (SelReturned (- 9) st s1)
           | Inr (st, s1) \<Rightarrow>
               if has_result st > 0 then Some (SelReturned (int (has_result st)) st s1)
               else let me = current_process (kern s1)
                    in (case tv of
                          Some (sec, msec) \<Rightarrow>
                            if sint msec > 0 \<or> sint sec > 0
                            then do {
                              k \<leftarrow> k_proc_process_timeout (kern s1) me ticks (scast sec) (scast msec) new;
                              s2 \<leftarrow> wait_scan_fds drv (set_kern s1 k) me [0..<nat n] st;
                              Some (SelAsleep st (set_kern s2 (upd_proc (kern s2) me
                                (\<lambda>P. P\<lparr>flags := flags P AND NOT PROCESS_FLAG_INTERRUPTED, pstate := PROCESS_STATE_SLEEPING\<rparr>)))) }
                            else Some (SelReturned 0 st s1)
                        | None \<Rightarrow> do {
                            s2 \<leftarrow> wait_scan_fds drv s1 me [0..<nat n] st;
                            Some (SelAsleep st (set_kern s2 (upd_proc (kern s2) me
                              (\<lambda>P. P\<lparr>flags := flags P AND NOT PROCESS_FLAG_INTERRUPTED, pstate := PROCESS_STATE_SLEEPING\<rparr>)))) }) })"

text \<open>The search of the descriptor the process was woken up for.\<close>

fun select_find ::
  "(nat \<Rightarrow> (kernel \<times> 'x) driver) \<Rightarrow> 'x sys \<Rightarrow> nat list \<Rightarrow> u8 \<Rightarrow> select_state \<Rightarrow> (nat option \<times> 'x sys) option" where
  "select_find drv s [] ev st = Some (None, s)"
| "select_find drv s (fd # rest) ev st =
     (if \<not> FD_ISSET fd (wait_set st ev) then select_find drv s rest ev st
      else do {
        let p = fdt_at s (int fd);
        if p = NULL then select_find drv s rest ev st
        else do {
          t \<leftarrow> fdts (kern s) p;
          (r, s1) \<leftarrow> k_fs_vfs_check drv s (fd_node t) ev;
          if r \<noteq> 0 then Some (Some fd, s1) else select_find drv s1 rest ev st } })"

definition sys_select_finish :: "(nat \<Rightarrow> (kernel \<times> 'x) driver) \<Rightarrow> 'x sys \<Rightarrow> ptr \<Rightarrow> int \<Rightarrow> select_state \<Rightarrow> (int \<times> select_state \<times> 'x sys) option" where
  "sys_select_finish drv s me n st =
     (let P = procs (kern s) me; ev = select_wait_event P;
          reset = (\<lambda>s. set_kern s (upd_proc (kern s) me (\<lambda>P. P\<lparr>select_wait_event := 0, select_wait_node := NULL\<rparr>)))
      in if flags P AND PROCESS_FLAG_INTERRUPTED \<noteq> 0 then Some (- 4, st, s)
         else if select_wait_node P = NULL then Some (0, st, reset s)
         else if ev \<noteq> 1 \<and> ev \<noteq> 2 \<and> ev \<noteq> 4 then Some (- 14, st, reset s)
         else case sel_set st ev of
             None \<Rightarrow> Some (- 14, st, reset s)
           | Some b \<Rightarrow> do {
               (r, s1) \<leftarrow> select_find drv s [0..<nat n] ev st;
               Some (case r of
                   None \<Rightarrow> (int (has_result st), st, reset s1)
                 | Some fd \<Rightarrow> (int (has_result st) + 1, st\<lparr>sel_set := (sel_set st)(ev \<mapsto> FD_SET fd b), has_result := has_result st + 1\<rparr>, reset s1)) })"


section \<open>Descriptor sets as sets\<close>

definition bits :: "fd_set \<Rightarrow> nat set" where
  "bits b = {i. i < 32 * length b \<and> FD_ISSET i b}"

lemma bit_and_push: "w AND push_bit n 1 \<noteq> 0 \<longleftrightarrow> bit w n" if "n < 32" for w :: u32
proof
  assume "bit w n"
  then have "bit (w AND push_bit n 1) n" using that by (simp add: bit_simps)
  then show "w AND push_bit n 1 \<noteq> 0" by auto
next
  assume "w AND push_bit n 1 \<noteq> 0"
  then obtain m where "bit (w AND push_bit n 1) m" by (auto simp: bit_eq_iff)
  then show "bit w n" by (auto simp: bit_simps)
qed

lemma FD_ISSET_bit: "FD_ISSET i b \<longleftrightarrow> bit (b ! (i div 32)) (i mod 32)"
  unfolding FD_ISSET_def by (rule bit_and_push) simp

lemma same_bit: "i div 32 = j div 32 \<and> i mod 32 = j mod 32 \<longleftrightarrow> i = j" for i j :: nat
  by (metis div_mult_mod_eq)

lemma div32: "i < 32 * n \<longleftrightarrow> i div 32 < n" for i n :: nat
  by (simp add: div_less_iff_less_mult mult.commute)

lemma bits_simps [simp]:
  assumes "i div 32 < length b"
  shows "bits (FD_SET i b) = insert i (bits b)" "bits (FD_CLR i b) = bits b - {i}" "length (FD_SET i b) = length b" "length (FD_CLR i b) = length b"
proof -
  have s: "FD_ISSET j (FD_SET i b) \<longleftrightarrow> j = i \<or> FD_ISSET j b" if "j div 32 < length b" for j
    using assms that same_bit [of i j] by (cases "i div 32 = j div 32") (auto simp: FD_ISSET_bit FD_SET_def bit_simps)
  have c: "FD_ISSET j (FD_CLR i b) \<longleftrightarrow> j \<noteq> i \<and> FD_ISSET j b" if "j div 32 < length b" for j
    using assms that same_bit [of i j] by (cases "i div 32 = j div 32") (auto simp: FD_ISSET_bit FD_CLR_def bit_simps)
  show "bits (FD_SET i b) = insert i (bits b)" "bits (FD_CLR i b) = bits b - {i}" "length (FD_SET i b) = length b" "length (FD_CLR i b) = length b"
    using assms s c by (auto simp: bits_def div32) (auto simp: FD_SET_def FD_CLR_def)
qed

lemma bits_iff: "i div 32 < length b \<Longrightarrow> i \<in> bits b \<longleftrightarrow> FD_ISSET i b"
  by (simp add: bits_def div32)

lemma bits_zero [simp]: "bits FD_ZERO = {}" "length FD_ZERO = 32"
  by (auto simp: bits_def FD_ZERO_def FD_ISSET_def div32)

section \<open>The scan of select\<close>

definition wanted :: "select_state \<Rightarrow> u8 \<Rightarrow> nat set" where
  "wanted st ev = (case sel_set st ev of None \<Rightarrow> {} | Some b \<Rightarrow> bits b)"

definition waits :: "select_state \<Rightarrow> u8 \<Rightarrow> nat set" where
  "waits st ev = bits (wait_set st ev)"

definition sel_ok :: "select_state \<Rightarrow> bool" where
  "sel_ok st \<longleftrightarrow> (\<forall>ev. (\<forall>b. sel_set st ev = Some b \<longrightarrow> length b = 32) \<and> length (wait_set st ev) = 32)"

text \<open>What the driver of an open descriptor answers, and that the answer changes nothing.\<close>

definition pure_checks :: "(nat \<Rightarrow> (kernel \<times> 'x) driver) \<Rightarrow> bool" where
  "pure_checks drv \<longleftrightarrow> (\<forall>j f. op_check (drv j) = Some f \<longrightarrow> (\<forall>n ev s. snd (f n ev s) = s))"

definition is_ready :: "(nat \<Rightarrow> (kernel \<times> 'x) driver) \<Rightarrow> 'x sys \<Rightarrow> nat \<Rightarrow> u8 \<Rightarrow> bool" where
  "is_ready drv s fd ev \<longleftrightarrow> (\<exists>node r s'. node_at s fd = Some node \<and> k_fs_vfs_check drv s node ev = Some (r, s') \<and> r \<noteq> 0)"

definition is_open :: "'x sys \<Rightarrow> nat \<Rightarrow> bool" where
  "is_open s fd \<longleftrightarrow> (\<exists>node n. node_at s fd = Some node \<and> node \<noteq> NULL \<and> vnodes s node = Some n)"

lemma check_pure: "pure_checks drv \<Longrightarrow> vnodes s node = Some n \<Longrightarrow> \<exists>r. k_fs_vfs_check drv s node ev = Some (r, s)"
proof -
  assume p: "pure_checks drv" and n: "vnodes s node = Some n"
  show ?thesis
  proof (cases "op_check (fs drv (n_fs n))")
    case (Some f)
    then obtain j where "op_check (drv j) = Some f" by (cases "n_fs n") (auto simp: no_driver_def)
    then obtain r where "f node ev s = (r, s)" using p by (metis prod.collapse pure_checks_def)
    then show ?thesis using n Some by (simp add: k_fs_vfs_check_def ops_of_def)
  qed (use n in \<open>simp add: k_fs_vfs_check_def ops_of_def\<close>)
qed

lemma select_for_event_ok:
  assumes "pure_checks drv" and "sel_ok st" and "fd < 1024" and "node_at s fd = Some node" and "fd \<in> wanted st ev \<Longrightarrow> is_open s fd"
  shows "\<exists>st'. select_for_event drv s fd node ev st = Some (Inr (st', s)) \<and> sel_ok st' \<and>
    wanted st' = (wanted st)(ev := {x \<in> wanted st ev. x = fd \<longrightarrow> is_ready drv s fd ev}) \<and>
    waits st' = (waits st)(ev := waits st ev \<union> {x \<in> wanted st ev. x = fd \<and> \<not> is_ready drv s fd ev}) \<and>
    has_result st' = has_result st + card {x \<in> wanted st ev. x = fd \<and> is_ready drv s fd ev}"
proof (cases "fd \<in> wanted st ev")
  case False
  then have e: "{x \<in> wanted st ev. x = fd \<and> Q} = {}" "{x \<in> wanted st ev. x = fd \<longrightarrow> Q} = wanted st ev" for Q by auto
  have "select_for_event drv s fd node ev st = Some (Inr (st, s))"
  proof (cases "sel_set st ev")
    case (Some b)
    then have "length b = 32" "\<not> FD_ISSET fd b" using assms(2,3) False bits_iff [of fd b] by (auto simp: sel_ok_def wanted_def)
    then show ?thesis using Some assms(3) by (simp add: select_for_event_def)
  qed (simp add: select_for_event_def)
  then show ?thesis unfolding e using assms(2) by (intro exI [of _ st]) simp
next
  case True
  then obtain b where b: "sel_set st ev = Some b" "fd \<in> bits b" by (auto simp: wanted_def split: option.splits)
  have len: "length b = 32" "length (wait_set st ev) = 32" using assms(2) b by (auto simp: sel_ok_def)
  then have fd: "fd div 32 < length b" "fd div 32 < length (wait_set st ev)" "FD_ISSET fd b" using assms(3) b(2) bits_iff [of fd b] by auto
  obtain n where n: "node \<noteq> NULL" "vnodes s node = Some n" using assms(4,5) True by (auto simp: is_open_def)
  obtain r where r: "k_fs_vfs_check drv s node ev = Some (r, s)" using check_pure [OF assms(1) n(2)] by blast
  have rd: "is_ready drv s fd ev \<longleftrightarrow> r \<noteq> 0" using r assms(4) by (auto simp: is_ready_def)
  have w: "wanted st ev = bits b" using b(1) by (simp add: wanted_def)
  show ?thesis
  proof (cases "r = 0")
    case True
    let ?st = "st\<lparr>sel_set := (sel_set st)(ev \<mapsto> FD_CLR fd b), wait_set := (wait_set st)(ev := FD_SET fd (wait_set st ev))\<rparr>"
    have "select_for_event drv s fd node ev st = Some (Inr (?st, s))" using b(1) fd n r True by (simp add: select_for_event_def)
    moreover have "sel_ok ?st" using assms(2) fd len by (auto simp: sel_ok_def)
    moreover have "wanted ?st = (wanted st)(ev := {x \<in> wanted st ev. x = fd \<longrightarrow> is_ready drv s fd ev})"
      using fd rd True w by (auto simp: wanted_def fun_eq_iff)
    moreover have "waits ?st = (waits st)(ev := waits st ev \<union> {x \<in> wanted st ev. x = fd \<and> \<not> is_ready drv s fd ev})"
      using fd rd True w b(2) by (auto simp: waits_def fun_eq_iff)
    ultimately show ?thesis using rd True by (intro exI [of _ ?st]) simp
  next
    case False
    let ?st = "st\<lparr>sel_set := (sel_set st)(ev \<mapsto> FD_SET fd (FD_CLR fd b)), has_result := has_result st + 1\<rparr>"
    have "select_for_event drv s fd node ev st = Some (Inr (?st, s))" using b(1) fd n r False by (simp add: select_for_event_def)
    moreover have "sel_ok ?st" using assms(2) fd len by (auto simp: sel_ok_def)
    moreover have "wanted ?st = (wanted st)(ev := {x \<in> wanted st ev. x = fd \<longrightarrow> is_ready drv s fd ev})"
      using fd rd False w b(2) by (auto simp: wanted_def fun_eq_iff)
    moreover have "waits ?st = waits st" by (simp add: waits_def fun_eq_iff)
    moreover have "{x \<in> wanted st ev. x = fd \<and> is_ready drv s fd ev} = {fd}" using rd False w b(2) by auto
    ultimately show ?thesis using rd False by (intro exI [of _ ?st]) simp
  qed
qed


text \<open>The three events of one descriptor, and the whole scan.\<close>

definition picked :: "(nat \<Rightarrow> u8 \<Rightarrow> bool) \<Rightarrow> nat set \<Rightarrow> select_state \<Rightarrow> u8 \<Rightarrow> nat set" where
  "picked rdy X st ev = {x \<in> wanted st ev. x \<in> X \<and> rdy x ev}"

definition scanned :: "(nat \<Rightarrow> u8 \<Rightarrow> bool) \<Rightarrow> nat set \<Rightarrow> select_state \<Rightarrow> select_state \<Rightarrow> bool" where
  "scanned rdy X st st' \<longleftrightarrow> sel_ok st' \<and>
     (\<forall>ev\<in>set events. wanted st' ev = {x \<in> wanted st ev. x \<in> X \<longrightarrow> rdy x ev} \<and>
        waits st' ev = waits st ev \<union> {x \<in> wanted st ev. x \<in> X \<and> \<not> rdy x ev}) \<and>
     has_result st' = has_result st + (\<Sum>ev\<in>set events. card (picked rdy X st ev))"

lemma wanted_finite: "sel_ok st \<Longrightarrow> finite (wanted st ev)"
proof -
  have "finite (bits b)" for b by (rule finite_subset [of _ "{..<32 * length b}"]) (auto simp: bits_def)
  then show ?thesis by (simp add: wanted_def split: option.splits)
qed

lemma select_events_ok:
  assumes "pure_checks drv" and "sel_ok st" and "fd < 1024" and "node_at s fd = Some node" and "\<And>ev. ev \<in> set events \<Longrightarrow> fd \<in> wanted st ev \<Longrightarrow> is_open s fd"
  shows "\<exists>st'. select_events drv s fd node events st = Some (Inr (st', s)) \<and> scanned (is_ready drv s) {fd} st st'"
proof -
  note step = select_for_event_ok [OF assms(1) _ assms(3,4)]
  obtain s1 where s1: "select_for_event drv s fd node 1 st = Some (Inr (s1, s))" "sel_ok s1"
    "wanted s1 = (wanted st)(1 := {x \<in> wanted st 1. x = fd \<longrightarrow> is_ready drv s fd 1})"
    "waits s1 = (waits st)(1 := waits st 1 \<union> {x \<in> wanted st 1. x = fd \<and> \<not> is_ready drv s fd 1})"
    "has_result s1 = has_result st + card {x \<in> wanted st 1. x = fd \<and> is_ready drv s fd 1}"
    using step [OF assms(2), of 1] assms(5) by (auto simp: events_def)
  obtain s2 where s2: "select_for_event drv s fd node 2 s1 = Some (Inr (s2, s))" "sel_ok s2"
    "wanted s2 = (wanted s1)(2 := {x \<in> wanted s1 2. x = fd \<longrightarrow> is_ready drv s fd 2})"
    "waits s2 = (waits s1)(2 := waits s1 2 \<union> {x \<in> wanted s1 2. x = fd \<and> \<not> is_ready drv s fd 2})"
    "has_result s2 = has_result s1 + card {x \<in> wanted s1 2. x = fd \<and> is_ready drv s fd 2}"
    using step [OF s1(2), of 2] assms(5) s1(3) by (auto simp: events_def)
  obtain s3 where s3: "select_for_event drv s fd node 4 s2 = Some (Inr (s3, s))" "sel_ok s3"
    "wanted s3 = (wanted s2)(4 := {x \<in> wanted s2 4. x = fd \<longrightarrow> is_ready drv s fd 4})"
    "waits s3 = (waits s2)(4 := waits s2 4 \<union> {x \<in> wanted s2 4. x = fd \<and> \<not> is_ready drv s fd 4})"
    "has_result s3 = has_result s2 + card {x \<in> wanted s2 4. x = fd \<and> is_ready drv s fd 4}"
    using step [OF s2(2), of 4] assms(5) s1(3) s2(3) by (auto simp: events_def)
  have card: "{x \<in> wanted st ev. x = fd \<and> is_ready drv s fd ev} = picked (is_ready drv s) {fd} st ev" for ev
    by (auto simp: picked_def)
  have "scanned (is_ready drv s) {fd} st s3"
    unfolding scanned_def using s1(3-5) s2(3-5) s3(2-5) by (auto simp: events_def card)
  moreover have "select_events drv s fd node events st = Some (Inr (s3, s))" using s1(1) s2(1) s3(1) by (simp add: events_def)
  ultimately show ?thesis by blast
qed

lemma scanned_step:
  assumes "scanned rdy {i} st st1" and "scanned rdy X st1 st2" and "i \<notin> X" and "sel_ok st"
  shows "scanned rdy (insert i X) st st2"
proof -
  have w: "wanted st1 ev = {x \<in> wanted st ev. x = i \<longrightarrow> rdy x ev}" "waits st1 ev = waits st ev \<union> {x \<in> wanted st ev. x = i \<and> \<not> rdy x ev}"
    "wanted st2 ev = {x \<in> wanted st1 ev. x \<in> X \<longrightarrow> rdy x ev}" "waits st2 ev = waits st1 ev \<union> {x \<in> wanted st1 ev. x \<in> X \<and> \<not> rdy x ev}"
    if "ev \<in> set events" for ev using assms(1,2) that by (auto simp: scanned_def)
  have "card (picked rdy (insert i X) st ev) = card (picked rdy {i} st ev) + card (picked rdy X st1 ev)" if "ev \<in> set events" for ev
  proof -
    have "picked rdy (insert i X) st ev = picked rdy {i} st ev \<union> picked rdy X st1 ev" "picked rdy {i} st ev \<inter> picked rdy X st1 ev = {}"
      using w(1) [OF that] assms(3) by (auto simp: picked_def)
    moreover have "finite (picked rdy {i} st ev)" "finite (picked rdy X st1 ev)"
      using wanted_finite assms by (auto simp: picked_def scanned_def)
    ultimately show ?thesis by (simp add: card_Un_disjoint)
  qed
  then have "has_result st2 = has_result st + (\<Sum>ev\<in>set events. card (picked rdy (insert i X) st ev))"
    using assms(1,2) by (simp add: scanned_def sum.distrib)
  moreover have "wanted st2 ev = {x \<in> wanted st ev. x \<in> insert i X \<longrightarrow> rdy x ev}"
    "waits st2 ev = waits st ev \<union> {x \<in> wanted st ev. x \<in> insert i X \<and> \<not> rdy x ev}" if "ev \<in> set events" for ev
    using w [OF that] assms(3) by auto
  ultimately show ?thesis using assms(2) by (simp add: scanned_def)
qed

lemma select_scan_ok:
  assumes "pure_checks drv"
  shows "sel_ok st \<Longrightarrow> distinct is \<Longrightarrow> (\<forall>i\<in>set is. i < 1024 \<and> (\<exists>node. node_at s i = Some node)) \<Longrightarrow>
    (\<forall>ev\<in>set events. \<forall>i\<in>set is. i \<in> wanted st ev \<longrightarrow> is_open s i) \<Longrightarrow>
    \<exists>st'. select_scan drv s is st = Some (Inr (st', s)) \<and> scanned (is_ready drv s) (set is) st st'"
proof (induction "is" arbitrary: st)
  case Nil
  then show ?case by (auto simp: scanned_def picked_def)
next
  case (Cons i "is")
  obtain node where node: "node_at s i = Some node" using Cons(4) by auto
  obtain st1 where st1: "select_events drv s i node events st = Some (Inr (st1, s))" "scanned (is_ready drv s) {i} st st1"
    using select_events_ok [OF assms Cons(2) _ node] Cons(4,5) by auto
  have "\<forall>ev\<in>set events. \<forall>j\<in>set is. j \<in> wanted st1 ev \<longrightarrow> is_open s j" using Cons(5) st1(2) by (auto simp: scanned_def)
  then obtain st' where st': "select_scan drv s is st1 = Some (Inr (st', s))" "scanned (is_ready drv s) (set is) st1 st'"
    using Cons(1) [of st1] Cons(3,4) st1(2) by (auto simp: scanned_def)
  have "scanned (is_ready drv s) (set (i # is)) st st'" using scanned_step [OF st1(2) st'(2) _ Cons(2)] Cons(3) by simp
  then show ?case using node st1(1) st'(1) by simp
qed


lemma select_events_closed:
  assumes "sel_ok st" and "fd < 1024"
  shows "(\<exists>ev\<in>set evs. fd \<in> wanted st ev) \<Longrightarrow> \<exists>e. select_events drv s fd NULL evs st = Some (Inl e)"
    and "(\<forall>ev\<in>set evs. fd \<notin> wanted st ev) \<Longrightarrow> select_events drv s fd node evs st = Some (Inr (st, s))"
proof -
  have one: "select_for_event drv s fd node ev st = Some (Inr (st, s))" if "fd \<notin> wanted st ev" for ev node
    using assms that bits_iff by (auto simp: select_for_event_def sel_ok_def wanted_def split: option.splits)
  have bad: "\<exists>e. select_for_event drv s fd NULL ev st = Some (Inl e)" if "fd \<in> wanted st ev" for ev
    using assms that bits_iff by (auto simp: select_for_event_def sel_ok_def wanted_def split: option.splits)
  show "\<exists>e. select_events drv s fd NULL evs st = Some (Inl e)" if "\<exists>ev\<in>set evs. fd \<in> wanted st ev"
    using that
  proof (induction evs)
    case (Cons ev evs)
    then show ?case using one [of ev NULL] bad [of ev] by (cases "fd \<in> wanted st ev") auto
  qed simp
  show "select_events drv s fd node evs st = Some (Inr (st, s))" if "\<forall>ev\<in>set evs. fd \<notin> wanted st ev"
    using that one by (induction evs) auto
qed

lemma select_scan_closed:
  assumes "pure_checks drv"
  shows "sel_ok st \<Longrightarrow> distinct is \<Longrightarrow>
    (\<forall>i\<in>set is. i < 1024 \<and> (\<exists>node. node_at s i = Some node \<and> (node \<noteq> NULL \<longrightarrow> vnodes s node \<noteq> None))) \<Longrightarrow>
    \<exists>i\<in>set is. \<exists>ev\<in>set events. i \<in> wanted st ev \<and> node_at s i = Some NULL \<Longrightarrow>
    \<exists>e. select_scan drv s is st = Some (Inl e)"
proof (induction "is" arbitrary: st)
  case (Cons i "is")
  obtain node where node: "node_at s i = Some node" "node \<noteq> NULL \<longrightarrow> vnodes s node \<noteq> None" using Cons(4) by auto
  have i: "i < 1024" using Cons(4) by simp
  show ?case
  proof (cases "node = NULL \<and> (\<exists>ev\<in>set events. i \<in> wanted st ev)")
    case True
    then obtain e where "select_events drv s i NULL events st = Some (Inl e)" using select_events_closed(1) [OF Cons(2) i] by blast
    then show ?thesis using node(1) True by simp
  next
    case False
    have "\<exists>st1. select_events drv s i node events st = Some (Inr (st1, s)) \<and> scanned (is_ready drv s) {i} st st1"
    proof (cases "node = NULL")
      case True
      then have nw: "\<forall>ev\<in>set events. i \<notin> wanted st ev" using False by blast
      then have "picked (is_ready drv s) {i} st ev = {}" if "ev \<in> set events" for ev using that by (auto simp: picked_def)
      then have "scanned (is_ready drv s) {i} st st" using Cons(2) nw by (auto simp: scanned_def)
      then show ?thesis using select_events_closed(2) [OF Cons(2) i nw] by blast
    next
      case False
      then have "is_open s i" using node by (auto simp: is_open_def)
      then show ?thesis using select_events_ok [OF assms Cons(2) i node(1)] by blast
    qed
    then obtain st1 where st1: "select_events drv s i node events st = Some (Inr (st1, s))" "scanned (is_ready drv s) {i} st st1" by blast
    have "\<exists>j\<in>set is. \<exists>ev\<in>set events. j \<in> wanted st1 ev \<and> node_at s j = Some NULL"
    proof -
      obtain j ev where j: "j \<in> set (i # is)" "ev \<in> set events" "j \<in> wanted st ev" "node_at s j = Some NULL" using Cons(5) by blast
      then have "j \<noteq> i" using False node(1) by auto
      moreover from this j have "j \<in> wanted st1 ev" using st1(2) by (auto simp: scanned_def)
      ultimately show ?thesis using j by auto
    qed
    then obtain e where "select_scan drv s is st1 = Some (Inl e)" using Cons(1) [of st1] Cons(3,4) st1(2) by (auto simp: scanned_def)
    then show ?thesis using node(1) st1(1) by simp
  qed
qed simp

section \<open>Properties\<close>

text \<open>A process with one open file that is always readable and never writable.\<close>

definition reader_sys :: "unit sys" where
  "reader_sys = \<lparr>vnodes = [60 \<mapsto> \<lparr>n_name = ''f'', n_device = 0, n_mode = 3, n_flags = 1, n_inode = 0, n_size = 0, n_fs = DriverOps 0, n_links = 1,
       n_path = None, n_mountpoint = 0\<rparr>], entries = (\<lambda>_. None), tnodes = (\<lambda>_. None), vfs_tree = 0, tree_nodes = [],
     drv_data = (blank_kernel\<lparr>procs := (\<lambda>_. blank_process\<lparr>fds := \<lparr>nodes = [50], amount = 1, fds_size = 1\<rparr>\<rparr>),
                              fdts := [50 \<mapsto> \<lparr>fd_node = 60, fd_offset = 0, fd_links = 1\<rparr>]\<rparr>, ())\<rparr>"

definition reader_drv :: "nat \<Rightarrow> (kernel \<times> unit) driver" where
  "reader_drv = (\<lambda>_. no_driver\<lparr>op_check := Some (\<lambda>_ ev s. (if ev = 1 then 1 else 0, s))\<rparr>)"

definition reader_sets :: "u8 \<Rightarrow> fd_set option" where
  "reader_sets = [1 \<mapsto> FD_SET 0 FD_ZERO, 2 \<mapsto> FD_SET 0 FD_ZERO]"

lemma reader_facts:
  "pure_checks reader_drv" "node_at reader_sys 0 = Some 60" "node_at reader_sys 1 = Some NULL" "is_open reader_sys 0" "is_ready reader_drv reader_sys 0 1"
  "\<not> is_ready reader_drv reader_sys 0 2" "\<forall>ev b. reader_sets ev = Some b \<longrightarrow> length b = 32"
  "wanted \<lparr>sel_set = reader_sets, wait_set = w, has_result = r\<rparr> = (\<lambda>_. {})(1 := {0}, 2 := {0})" "vnodes reader_sys 60 \<noteq> None"
proof -
  show n: "node_at reader_sys 0 = Some 60" "node_at reader_sys 1 = Some NULL" 
    by (simp_all add: node_at_def fdt_at_def fd2fdt_def cur_def kern_def reader_sys_def blank_kernel_def)
  show "pure_checks reader_drv" by (auto simp: pure_checks_def reader_drv_def)
  show "is_open reader_sys 0" using n by (simp add: is_open_def reader_sys_def)
  show "is_ready reader_drv reader_sys 0 1" "\<not> is_ready reader_drv reader_sys 0 2"
    using n by (simp_all add: is_ready_def k_fs_vfs_check_def ops_of_def reader_sys_def reader_drv_def)
  show "\<forall>ev b. reader_sets ev = Some b \<longrightarrow> length b = 32" by (auto simp: reader_sets_def split: if_splits)
  show "wanted \<lparr>sel_set = reader_sets, wait_set = w, has_result = r\<rparr> = (\<lambda>_. {})(1 := {0}, 2 := {0})"
    by (auto simp: wanted_def reader_sets_def fun_eq_iff)
  show "vnodes reader_sys 60 \<noteq> None" by (simp add: reader_sys_def)
qed

text \<open>
  C26: \<open>select\<close> reports exactly what is ready. For open descriptors below \<open>n\<close> (at most 1024, and drivers whose
  readiness test changes nothing) the first pass leaves in each set of the caller exactly the
  requested descriptors that are ready; when there is one the call returns their number without
  sleeping, otherwise a zero timeout returns 0, and in both cases the rest of the system is as before.
\<close>

theorem select_reports_ready:
  assumes "pure_checks drv" and "0 \<le> n" and "n \<le> 1024" and "\<forall>ev b. sets ev = Some b \<longrightarrow> length b = 32"
    and "\<forall>i<nat n. \<exists>node. node_at s i = Some node"
    and "st0 = \<lparr>sel_set = sets, wait_set = (\<lambda>_. FD_ZERO), has_result = 0\<rparr>"
    and "\<forall>ev\<in>set events. \<forall>i<nat n. i \<in> wanted st0 ev \<longrightarrow> is_open s i"
    and "ready = (\<Sum>ev\<in>set events. card {i \<in> wanted st0 ev. i < nat n \<and> is_ready drv s i ev})"
  shows "\<exists>st. (ready > 0 \<longrightarrow> sys_select_begin drv s n sets tv ticks new = Some (SelReturned (int ready) st s)) \<and>
    (ready = 0 \<longrightarrow> tv = Some (0, 0) \<longrightarrow> sys_select_begin drv s n sets tv ticks new = Some (SelReturned 0 st s)) \<and>
    (\<forall>ev\<in>set events. wanted st ev = {i \<in> wanted st0 ev. i < nat n \<longrightarrow> is_ready drv s i ev} \<and>
       waits st ev = {i \<in> wanted st0 ev. i < nat n \<and> \<not> is_ready drv s i ev})"
proof -
  have ok: "sel_ok st0" using assms(4,6) by (auto simp: sel_ok_def)
  obtain st where st: "select_scan drv s [0..<nat n] st0 = Some (Inr (st, s))" "scanned (is_ready drv s) (set [0..<nat n]) st0 st"
    using select_scan_ok [OF assms(1) ok, of "[0..<nat n]" s] assms(3,5,7) by (auto simp: zless_nat_eq_int_zless)
  have w0: "waits st0 ev = {}" for ev using assms(6) by (simp add: waits_def)
  have r: "has_result st = ready" using st(2) assms(6,8) by (simp add: scanned_def picked_def)
  have "sys_select_begin drv s n sets tv ticks new = Some (SelReturned (int ready) st s)" if "ready > 0"
    using st(1) that r assms(2,6) by (simp add: sys_select_begin_def)
  moreover have "sys_select_begin drv s n sets tv ticks new = Some (SelReturned 0 st s)" if "ready = 0" "tv = Some (0, 0)"
    using st(1) that r assms(2,6) by (simp add: sys_select_begin_def)
  ultimately show ?thesis using st(2) w0 by (intro exI [of _ st]) (auto simp: scanned_def)
qed

theorem select_reports_ready_witness:
  "\<exists>st. sys_select_begin reader_drv reader_sys 1 reader_sets None 0 0 = Some (SelReturned 1 st reader_sys) \<and> wanted st 1 = {0} \<and> wanted st 2 = {}"
proof -
  let ?st0 = "\<lparr>sel_set = reader_sets, wait_set = (\<lambda>_. FD_ZERO), has_result = 0\<rparr>"
  have c: "{i \<in> {0 :: nat}. i < nat 1 \<and> is_ready reader_drv reader_sys i 1} = {0}" "{i \<in> {0 :: nat}. i < nat 1 \<and> is_ready reader_drv reader_sys i 2} = {}"
    using reader_facts(5,6) by auto
  have r: "(1 :: nat) = (\<Sum>ev\<in>set events. card {i \<in> wanted ?st0 ev. i < nat 1 \<and> is_ready reader_drv reader_sys i ev})"
    unfolding reader_facts(8) using c by (simp add: events_def)
  show ?thesis
    using select_reports_ready [OF reader_facts(1) _ _ reader_facts(7) _ refl _ r, where tv = None and ticks = 0 and new = 0]
      reader_facts(2,4) reader_facts(8) reader_facts(5,6) by (auto simp: events_def)
qed

text \<open>
  C27: \<open>select\<close> refuses closed descriptors. When the caller asks for a descriptor below \<open>n\<close> that is not open the
  call returns \<open>-EBADF\<close>, and for a negative \<open>n\<close> it returns \<open>-EINVAL\<close>, whatever the other descriptors and the timeout
  are; it never goes to sleep.
\<close>

theorem select_refuses_closed:
  assumes "pure_checks drv" and "0 \<le> n" and "n \<le> 1024" and "\<forall>ev b. sets ev = Some b \<longrightarrow> length b = 32"
    and "\<forall>i<nat n. \<exists>node. node_at s i = Some node \<and> (node \<noteq> NULL \<longrightarrow> vnodes s node \<noteq> None)"
    and "i < nat n" and "ev \<in> set events" and "i \<in> wanted \<lparr>sel_set = sets, wait_set = (\<lambda>_. FD_ZERO), has_result = 0\<rparr> ev" and "node_at s i = Some NULL"
    and "m < 0"
  shows "(\<exists>st s'. sys_select_begin drv s n sets tv ticks new = Some (SelReturned (- 9) st s')) \<and>
    (\<exists>st. sys_select_begin drv s m sets tv ticks new = Some (SelReturned (- 22) st s))"
proof -
  let ?st = "\<lparr>sel_set = sets, wait_set = (\<lambda>_. FD_ZERO), has_result = 0\<rparr>"
  have ok: "sel_ok ?st" using assms(4) by (auto simp: sel_ok_def)
  have "\<exists>e. select_scan drv s [0..<nat n] ?st = Some (Inl e)"
    using assms(3,5-9) by (intro select_scan_closed [OF assms(1) ok]) auto
  then show ?thesis using assms(2,10) by (auto simp: sys_select_begin_def)
qed

theorem select_refuses_closed_witness:
  "\<exists>st s'. sys_select_begin reader_drv reader_sys 2 [1 \<mapsto> FD_SET 1 FD_ZERO] None 0 0 = Some (SelReturned (- 9) st s')"
proof -
  have l: "\<forall>(ev :: u8) b. [1 \<mapsto> FD_SET 1 FD_ZERO] ev = Some b \<longrightarrow> length b = 32" by (auto split: if_splits)
  have n: "\<forall>i<nat 2. \<exists>node. node_at reader_sys i = Some node \<and> (node \<noteq> NULL \<longrightarrow> vnodes reader_sys node \<noteq> None)"
    using reader_facts(2,3,9) by (auto simp: numeral_2_eq_2 less_Suc_eq)
  have w: "1 \<in> wanted \<lparr>sel_set = [1 \<mapsto> FD_SET 1 FD_ZERO], wait_set = (\<lambda>_. FD_ZERO), has_result = 0\<rparr> 1" by (simp add: wanted_def)
  show ?thesis using select_refuses_closed [OF reader_facts(1) _ _ l n _ _ w reader_facts(3), of "- 1" None 0 0] by (simp add: events_def)
qed

end
