(* ===== verification/Blockdev.thy ===== *)
theory Blockdev
  imports CMem "HOL-Library.Monad_Syntax"
begin

text \<open>
  Disks as the file systems see them. A file system reads its device with \<open>k_fs_vfs_read\<close>, which calls
  the function of the driver of the device: the locale \<open>block_device\<close> states what the file systems rely
  on. Two drivers of the repository provide it: the RAM disk of \<^verbatim>\<open>kernel/src/fs/ramdisk.c\<close>, and the
  partitions of \<^verbatim>\<open>modules/dospart/main.c\<close> on any other such device. The theory also has the
  little-endian fields of the structures on a disk.
\<close>

section \<open>Bytes of a disk\<close>

definition slice :: "'a list \<Rightarrow> nat \<Rightarrow> nat \<Rightarrow> 'a list" where
  "slice xs off n = take n (drop off xs)"

text \<open>Fields of packed structures; a field that is not inside the bytes read is \<open>None\<close>.\<close>

definition le16 :: "u8 list \<Rightarrow> nat \<Rightarrow> u16 option" where
  "le16 xs i = (if i + 2 \<le> length xs then Some (ucast (xs ! i) OR push_bit 8 (ucast (xs ! (i + 1)))) else None)"

definition le32 :: "u8 list \<Rightarrow> nat \<Rightarrow> u32 option" where
  "le32 xs i =
     (if i + 4 \<le> length xs
      then Some (ucast (xs ! i) OR push_bit 8 (ucast (xs ! (i + 1))) OR push_bit 16 (ucast (xs ! (i + 2))) OR push_bit 24 (ucast (xs ! (i + 3))))
      else None)"

definition put_le32 :: "u8 list \<Rightarrow> nat \<Rightarrow> u32 \<Rightarrow> u8 list option" where
  "put_le32 xs i w =
     (if i + 4 \<le> length xs
      then Some (xs[i := ucast w, i + 1 := ucast (drop_bit 8 w), i + 2 := ucast (drop_bit 16 w), i + 3 := ucast (drop_bit 24 w)])
      else None)"

lemma length_slice: "off + n \<le> length xs \<Longrightarrow> length (slice xs off n) = n"
  by (simp add: slice_def)

lemma length_slice_le: "length (slice xs off n) \<le> n"
  by (simp add: slice_def)

lemma slice_nth: "i < n \<Longrightarrow> off + i < length xs \<Longrightarrow> slice xs off n ! i = xs ! (off + i)"
  by (simp add: slice_def)

lemma slice_slice: "b + m \<le> n \<Longrightarrow> slice (slice xs a n) b m = slice xs (a + b) m"
  by (simp add: slice_def drop_take add.commute min_def)

lemma slice_append: "slice xs a (m + n) = slice xs a m @ slice xs (a + m) n"
  by (simp add: slice_def take_add add.commute)

lemma slice_all: "slice xs 0 (length xs) = xs"
  by (simp add: slice_def)

lemma le32_slice: "b + 4 \<le> n \<Longrightarrow> a + n \<le> length xs \<Longrightarrow> le32 (slice xs a n) b = le32 xs (a + b)"
  by (simp add: le32_def length_slice slice_nth add.assoc)

lemma le32_defined: "i + 4 \<le> length xs \<Longrightarrow> \<exists>w. le32 xs i = Some w"
  by (simp add: le32_def)

lemma le32_append: "i + 4 \<le> length xs \<Longrightarrow> le32 (xs @ ys) i = le32 xs i"
  by (simp add: le32_def nth_append)

lemma length_put_le32: "put_le32 xs i w = Some ys \<Longrightarrow> length ys = length xs"
  by (auto simp: put_le32_def split: if_splits)

lemma put_le32_other: "put_le32 xs i w = Some ys \<Longrightarrow> j < i \<or> i + 4 \<le> j \<Longrightarrow> ys ! j = xs ! j"
  by (auto simp: put_le32_def split: if_splits)

lemma le32_put_other: "put_le32 xs i w = Some ys \<Longrightarrow> j + 4 \<le> i \<or> i + 4 \<le> j \<Longrightarrow> le32 ys j = le32 xs j"
  using length_put_le32 [of xs i w ys] by (auto simp: le32_def put_le32_other)

lemma le16_put_other: "put_le32 xs i w = Some ys \<Longrightarrow> j + 2 \<le> i \<or> i + 4 \<le> j \<Longrightarrow> le16 ys j = le16 xs j"
  using length_put_le32 [of xs i w ys] by (auto simp: le16_def put_le32_other)

lemma le32_put: "put_le32 xs i w = Some ys \<Longrightarrow> le32 ys i = Some w"
proof -
  assume "put_le32 xs i w = Some ys"
  then have "i + 4 \<le> length xs" and ys: "ys = xs[i := ucast w, i + 1 := ucast (drop_bit 8 w), i + 2 := ucast (drop_bit 16 w), i + 3 := ucast (drop_bit 24 w)]"
    by (auto simp: put_le32_def split: if_splits)
  then have "le32 ys i = Some (ucast (ucast w :: u8) OR push_bit 8 (ucast (ucast (drop_bit 8 w) :: u8)) OR
      push_bit 16 (ucast (ucast (drop_bit 16 w) :: u8)) OR push_bit 24 (ucast (ucast (drop_bit 24 w) :: u8)))"
    by (simp add: le32_def)
  also have "\<dots> = Some w"
  proof (simp, rule bit_word_eqI)
    fix n assume "n < LENGTH(32)"
    then consider "n < 8" | "8 \<le> n" "n < 16" | "16 \<le> n" "n < 24" | "24 \<le> n" "n < 32" by force
    then show "bit ((ucast (ucast w :: u8) :: u32) OR push_bit 8 (ucast (ucast (drop_bit 8 w) :: u8)) OR push_bit 16 (ucast (ucast (drop_bit 16 w) :: u8)) OR
      push_bit 24 (ucast (ucast (drop_bit 24 w) :: u8))) n = bit w n"
      by cases (auto simp: bit_simps)
  qed
  finally show ?thesis .
qed

section \<open>Devices\<close>

text \<open>
  \<open>rd off n\<close> is the result of \<open>k_fs_vfs_read\<close> on the device: the count and the bytes stored. A read that starts
  inside the device, and that lies inside or is at most eight megabytes long, returns at least the
  bytes that are inside; what a device returns behind its end is left open. The count is always
  that of the bytes stored and never more than was asked for. A RAM disk does not start at address
  0, from which \<open>memcpy\<close> copies nothing.
\<close>

definition reads_at :: "u8 list \<Rightarrow> u32 \<Rightarrow> u32 \<Rightarrow> u32 \<times> u8 list \<Rightarrow> bool" where
  "reads_at data off n r \<longleftrightarrow> length (snd r) = unat (fst r) \<and> fst r \<le> n \<and> min (unat n) (length data - unat off) \<le> unat (fst r) \<and>
     take (length data - unat off) (snd r) = slice data (unat off) (unat (fst r))"

locale block_device =
  fixes rd :: "u32 \<Rightarrow> u32 \<Rightarrow> u32 \<times> u8 list" and data :: "u8 list"
  assumes small: "length data + 0x800000 \<le> 2 ^ 32"
    and counts: "length (snd (rd off n)) = unat (fst (rd off n))"
    and bounded: "fst (rd off n) \<le> n"
    and reads: "unat off < length data \<Longrightarrow> n \<noteq> 0 \<Longrightarrow> unat off + unat n \<le> length data \<or> unat n \<le> 0x800000 \<Longrightarrow> reads_at data off n (rd off n)"
begin

lemma read_inside:
  assumes "n \<noteq> 0" and "unat off + unat n \<le> length data"
  shows "rd off n = (n, slice data (unat off) (unat n))"
proof -
  have "unat n \<noteq> 0" using assms(1) unat_eq_zero32 by blast
  then have r: "reads_at data off n (rd off n)" using assms by (intro reads) auto
  then have c: "fst (rd off n) = n" using assms(2) by (auto simp: reads_at_def word_le_nat_alt intro: word_unatI)
  have l: "length (snd (rd off n)) = unat n" and t: "take (length data - unat off) (snd (rd off n)) = slice data (unat off) (unat n)"
    using r c by (simp_all add: reads_at_def)
  have "take (length data - unat off) (snd (rd off n)) = snd (rd off n)" using l assms(2) by simp
  then show ?thesis using t c by (intro prod_eqI) simp_all
qed

end

section \<open>RAM disks\<close>

record ramdisk =
  ram_base :: ptr
  ram_size :: u32

definition ramdisk_read :: "mem \<Rightarrow> ramdisk \<Rightarrow> u32 \<Rightarrow> u32 \<Rightarrow> u32 \<times> u8 list" where
  "ramdisk_read m d off n =
     (if off > ram_size d then (0, [])
      else let r_size = (if off + n > ram_size d then ram_size d - off else n)
           in (r_size, block m (ram_base d + off) (unat r_size)))"

text \<open>What a file system may rely on: the sum in the code overflows on a disk that nearly fills the address space.\<close>

definition ramdisk_data :: "mem \<Rightarrow> ramdisk \<Rightarrow> u8 list" where
  "ramdisk_data m d = (if unat (ram_size d) + 0x800000 \<le> 2 ^ 32 then block m (ram_base d) (unat (ram_size d)) else [])"

lemma block_slice: "off + n \<le> k \<Longrightarrow> block m (a + of_nat off) n = slice (block m a k) off n"
  by (rule nth_equalityI) (simp_all add: block_def slice_def add.assoc)

lemma length_block [simp]: "length (block m a n) = n"
  by (simp add: block_def)

interpretation ram: block_device "ramdisk_read m d" "ramdisk_data m d"
proof
  show "length (ramdisk_data m d) + 0x800000 \<le> 2 ^ 32" by (simp add: ramdisk_data_def)
next
  show "length (snd (ramdisk_read m d off n)) = unat (fst (ramdisk_read m d off n))" for off n by (simp add: ramdisk_read_def Let_def)
next
  fix off n
  have "ram_size d - off \<le> n" if "off \<le> ram_size d" "ram_size d < off + n"
  proof -
    have "unat (off + n) \<le> unat off + unat n" by (simp add: unat_word_ariths)
    then show ?thesis using that by (simp add: word_le_nat_alt word_less_nat_alt unat_sub32)
  qed
  then show "fst (ramdisk_read m d off n) \<le> n" by (auto simp: ramdisk_read_def Let_def not_less)
next
  fix off n :: u32 assume a: "unat off < length (ramdisk_data m d)" "n \<noteq> 0"
    "unat off + unat n \<le> length (ramdisk_data m d) \<or> unat n \<le> 0x800000"
  define k where "k = unat (ram_size d)"
  have k: "ramdisk_data m d = block m (ram_base d) k" "unat off < k" "k + 0x800000 \<le> 2 ^ 32"
    using a(1) by (auto simp: ramdisk_data_def k_def split: if_splits)
  have sum: "unat (off + n) = unat off + unat n" using a(3) k by (intro unat_add32) auto
  let ?r = "if off + n > ram_size d then ram_size d - off else n"
  have r: "unat ?r = min (unat n) (k - unat off)" "?r \<le> n" "unat off + unat ?r \<le> k"
    using k(2) sum by (auto simp: word_less_nat_alt word_le_nat_alt unat_sub32 k_def)
  have e: "ramdisk_read m d off n = (?r, block m (ram_base d + off) (unat ?r))"
    using k(2) by (simp add: ramdisk_read_def word_less_nat_alt k_def Let_def)
  have b: "block m (ram_base d + off) (unat ?r) = slice (block m (ram_base d) k) (unat off) (unat ?r)"
    using block_slice [of "unat off" "unat ?r" k m "ram_base d"] r(3) by simp
  show "reads_at (ramdisk_data m d) off n (ramdisk_read m d off n)"
    unfolding reads_at_def e k(1) b fst_conv snd_conv using r by (simp add: length_slice)
qed

section \<open>Partitions\<close>

record mbr_partition =
  attributes :: u8
  ptype :: u8
  lba_start :: u32
  part_size :: u32

definition dospart_clip :: "mbr_partition \<Rightarrow> u32 \<Rightarrow> u32 \<Rightarrow> u32 option" where
  "dospart_clip p off n =
     (let patr_offset = lba_start p * 512; patr_size = part_size p * 512
      in if off \<ge> patr_offset + patr_size then None
         else if off + n \<ge> patr_offset + patr_size
         then (let n1 = patr_offset + patr_size - off in if n1 = 0 then None else Some n1)
         else Some n)"

definition dospart_read :: "(u32 \<Rightarrow> u32 \<Rightarrow> u32 \<times> u8 list) \<Rightarrow> mbr_partition \<Rightarrow> u32 \<Rightarrow> u32 \<Rightarrow> u32 \<times> u8 list" where
  "dospart_read rd p off n = (case dospart_clip p off n of None \<Rightarrow> (0, []) | Some n1 \<Rightarrow> rd (lba_start p * 512 + off) n1)"

definition dospart_write :: "(u32 \<Rightarrow> u8 list \<Rightarrow> 'd \<Rightarrow> u32 \<times> 'd) \<Rightarrow> mbr_partition \<Rightarrow> u32 \<Rightarrow> u8 list \<Rightarrow> 'd \<Rightarrow> u32 \<times> 'd" where
  "dospart_write wr p off bytes d =
     (case dospart_clip p off (of_nat (length bytes)) of None \<Rightarrow> (0, d) | Some n1 \<Rightarrow> wr (lba_start p * 512 + off) (take (unat n1) bytes) d)"

definition parse_partition :: "u8 list \<Rightarrow> nat \<Rightarrow> mbr_partition option" where
  "parse_partition mbr i = do {
     start \<leftarrow> le32 mbr (446 + 16 * i + 8);
     len \<leftarrow> le32 mbr (446 + 16 * i + 12);
     Some \<lparr>attributes = mbr ! (446 + 16 * i), ptype = mbr ! (446 + 16 * i + 4), lba_start = start, part_size = len\<rparr> }"

text \<open>
  \<open>__dospart_try_mbr\<close>: the partitions for which a node is made, with their numbers; \<open>None\<close> when the read was
  too short, so that the structure on the stack is not filled.
\<close>

definition dospart_try_mbr :: "(u32 \<Rightarrow> u32 \<Rightarrow> u32 \<times> u8 list) \<Rightarrow> (nat \<times> mbr_partition) list option" where
  "dospart_try_mbr rd = do {
     let mbr = snd (rd 0 512);
     sig \<leftarrow> le16 mbr 510;
     if sig \<noteq> 0xAA55 then Some []
     else do {
       p0 \<leftarrow> parse_partition mbr 0; p1 \<leftarrow> parse_partition mbr 1; p2 \<leftarrow> parse_partition mbr 2; p3 \<leftarrow> parse_partition mbr 3;
       Some (filter (\<lambda>(i, p). lba_start p \<noteq> 0) [(0, p0), (1, p1), (2, p2), (3, p3)]) } }"

text \<open>The bytes of a partition that lies inside its disk.\<close>

definition part_data :: "mbr_partition \<Rightarrow> u8 list \<Rightarrow> u8 list" where
  "part_data p data =
     (if 512 * unat (lba_start p) + 512 * unat (part_size p) \<le> length data
      then slice data (512 * unat (lba_start p)) (512 * unat (part_size p)) else [])"

locale disk = block_device

sublocale disk \<subseteq> part: block_device "dospart_read rd p" "part_data p data" for p
proof
  show "length (part_data p data) + 0x800000 \<le> 2 ^ 32" using small by (auto simp: part_data_def length_slice)
next
  show "length (snd (dospart_read rd p off n)) = unat (fst (dospart_read rd p off n))" for off n
    by (simp add: dospart_read_def counts split: option.split)
next
  fix off n
  have "n1 \<le> n" if "dospart_clip p off n = Some n1" for n1
  proof -
    define e where "e = lba_start p * 512 + part_size p * 512"
    have "e - off \<le> n" if "off < e" "e \<le> off + n"
    proof -
      have "unat (off + n) \<le> unat off + unat n" by (simp add: unat_word_ariths)
      then show ?thesis using that by (simp add: word_le_nat_alt word_less_nat_alt unat_sub32)
    qed
    then show ?thesis using that by (auto simp: dospart_clip_def Let_def e_def not_le split: if_splits)
  qed
  then show "fst (dospart_read rd p off n) \<le> n" using bounded by (fastforce simp: dospart_read_def split: option.split intro: order_trans)
next
  fix off n :: u32 assume a: "unat off < length (part_data p data)" "n \<noteq> 0"
    "unat off + unat n \<le> length (part_data p data) \<or> unat n \<le> 0x800000"
  define po ps where "po = 512 * unat (lba_start p)" and "ps = 512 * unat (part_size p)"
  have fits: "po + ps \<le> length data" "part_data p data = slice data po ps" "unat off < ps"
    using a(1) by (auto simp: part_data_def po_def ps_def length_slice split: if_splits)
  have w: "unat (lba_start p * 512) = po" "unat (part_size p * 512) = ps"
    using fits(1) small by (simp_all add: po_def ps_def unat_word_ariths)
  have w2: "unat (lba_start p * 512 + part_size p * 512) = po + ps" "unat (lba_start p * 512 + off) = po + unat off"
    using fits small w by (auto simp: unat_add32)
  have len: "length (part_data p data) = ps" using fits by (simp add: length_slice)
  have sum: "unat (off + n) = unat off + unat n" using a(3) fits(1,3) small len by (intro unat_add32) auto
  obtain n1 where n1: "dospart_clip p off n = Some n1" "unat n1 = (if unat off + unat n \<ge> po + ps then po + ps - unat off else unat n)"
  proof -
    have "unat (lba_start p * 512 + part_size p * 512 - off) = po + ps - unat off" using w2(1) fits(3) by (simp add: unat_sub32 word_le_nat_alt)
    moreover have "lba_start p * 512 + part_size p * 512 - off \<noteq> 0" using calculation fits(3) by auto
    ultimately show thesis
      using that [of "if po + ps \<le> unat off + unat n then lba_start p * 512 + part_size p * 512 - off else n"] w2(1) fits(3) sum
      by (simp add: dospart_clip_def Let_def word_le_nat_alt)
  qed
  have le: "unat n1 \<le> unat n" "min (unat n) (ps - unat off) \<le> unat n1" "n1 \<noteq> 0"
    using n1(2) fits(3) a(2) unat_eq_zero32 [of n] unat_eq_zero32 [of n1] by (auto split: if_splits)
  have "reads_at data (lba_start p * 512 + off) n1 (rd (lba_start p * 512 + off) n1)"
    using fits a(3) w2(2) le len n1(2) by (intro reads) auto
  then have r: "reads_at data (lba_start p * 512 + off) n1 (dospart_read rd p off n)" by (simp add: dospart_read_def n1(1))
  obtain k bs where kb: "dospart_read rd p off n = (k, bs)" by (cases "dospart_read rd p off n")
  have "take (ps - unat off) bs = slice (part_data p data) (unat off) (unat k)"
  proof -
    have "take (ps - unat off) bs = take (ps - unat off) (take (length data - (po + unat off)) bs)" using fits(1) by (simp add: min_def)
    also have "\<dots> = take (ps - unat off) (slice data (po + unat off) (unat k))" using r kb w2(2) by (simp add: reads_at_def)
    also have "\<dots> = slice (slice data po ps) (unat off) (unat k)" by (simp add: slice_def drop_take min.commute add.commute)
    finally show ?thesis using fits(2) by simp
  qed
  then show "reads_at (part_data p data) off n (dospart_read rd p off n)"
    using r kb le w2(2) fits(1,3) len by (auto simp: reads_at_def word_le_nat_alt)
qed

interpretation ramdisk: disk "ramdisk_read m d" "ramdisk_data m d" ..

section \<open>Sparse images\<close>

text \<open>Disk images for examples, by the bytes that are not zero; the image starts at one megabyte.\<close>

definition sparse_mem :: "(nat \<times> u8) list \<Rightarrow> mem" where
  "sparse_mem bs a = (case map_of bs (unat (a - 0x100000)) of None \<Rightarrow> 0 | Some b \<Rightarrow> b)"

definition sparse_at :: "(nat \<times> u8) list \<Rightarrow> nat \<Rightarrow> nat \<Rightarrow> u8 list" where
  "sparse_at bs off n = block (sparse_mem bs) (0x100000 + of_nat off) n"

lemma sparse_nth: "i < n \<Longrightarrow> off + i < 2 ^ 32 \<Longrightarrow> sparse_at bs off n ! i = (case map_of bs (off + i) of None \<Rightarrow> 0 | Some b \<Rightarrow> b)"
  using unat_of_nat_eq32 [of "off + i"] by (simp add: sparse_at_def block_def sparse_mem_def)

lemma sparse_length [simp]: "length (sparse_at bs off n) = n"
  by (simp add: sparse_at_def)

lemma sparse_nonempty [simp]: "sparse_at bs off n = [] \<longleftrightarrow> n = 0"
  using sparse_length [of bs off n] by (metis length_0_conv)

lemma sparse_slice: "b + m \<le> n \<Longrightarrow> slice (sparse_at bs a n) b m = sparse_at bs (a + b) m"
  using block_slice [of b m n "sparse_mem bs" "0x100000 + of_nat a"] by (simp add: sparse_at_def add.assoc)

lemma sparse_le32: "i + 4 \<le> n \<Longrightarrow> off + n < 2 ^ 32 \<Longrightarrow> le32 (sparse_at bs off n) i =
    Some (ucast (case map_of bs (off + i) of None \<Rightarrow> 0 | Some b \<Rightarrow> b) OR
      push_bit 8 (ucast (case map_of bs (off + (i + 1)) of None \<Rightarrow> 0 | Some b \<Rightarrow> b)) OR
      push_bit 16 (ucast (case map_of bs (off + (i + 2)) of None \<Rightarrow> 0 | Some b \<Rightarrow> b)) OR
      push_bit 24 (ucast (case map_of bs (off + (i + 3)) of None \<Rightarrow> 0 | Some b \<Rightarrow> b)))"
  by (simp add: le32_def sparse_nth)

lemma sparse_le16: "i + 2 \<le> n \<Longrightarrow> off + n < 2 ^ 32 \<Longrightarrow> le16 (sparse_at bs off n) i =
    Some (ucast (case map_of bs (off + i) of None \<Rightarrow> 0 | Some b \<Rightarrow> b) OR
      push_bit 8 (ucast (case map_of bs (off + (i + 1)) of None \<Rightarrow> 0 | Some b \<Rightarrow> b)))"
  by (simp add: le16_def sparse_nth)

end
