(* ===== verification/Ext2.thy ===== *)
theory Ext2
  imports Blockdev Vfs
begin

text \<open>
  The ext2 file system of \<^verbatim>\<open>modules/ext2/main.c\<close>: blocks and inodes read through caches that keep the
  most recently used ones, the map from the blocks of a file to the blocks of the disk, reading
  files and directories, the lookup of a path, and the writing side. The device is a pair of
  functions (\<open>Blockdev\<close>). Structures read from the disk are kept as their bytes and the code's fields are
  offsets into them; a field outside the bytes that were read, and memory that was never written,
  is \<open>None\<close>. \<open>t\<close> is the clock, which does not advance during a call.
\<close>

section \<open>State\<close>

record superblock =
  total_blocks :: u32
  log_size :: u32
  blocks_per_group :: u32
  inodes_per_group :: u32
  inode_size :: u16

definition parse_superblock :: "u8 list \<Rightarrow> (u16 \<times> superblock) option" where
  "parse_superblock b = do {
     tb \<leftarrow> le32 b 4; ls \<leftarrow> le32 b 24; bpg \<leftarrow> le32 b 32; ipg \<leftarrow> le32 b 40; sig \<leftarrow> le16 b 56; isz \<leftarrow> le16 b 88;
     Some (sig, \<lparr>total_blocks = tb, log_size = ls, blocks_per_group = bpg, inodes_per_group = ipg, inode_size = isz\<rparr>) }"

definition BLOCK_SIZE :: "superblock \<Rightarrow> u32" where
  "BLOCK_SIZE s = push_bit (unat (log_size s)) 1024"

text \<open>The caches, the most recently used entry first: inodes by number, blocks by number with the time of the last access.\<close>

record ext2_fs =
  sb :: superblock
  bgds :: "u8 list"
  inode_cache :: "(u32 \<times> u8 list) list"
  block_cache :: "(u32 \<times> u32 \<times> u8 list) list"
  readahead_buffer :: "u8 list"

abbreviation (input) bsize :: "ext2_fs \<Rightarrow> u32" where "bsize f \<equiv> BLOCK_SIZE (sb f)"

abbreviation (input) INODES_PER_CACHE :: nat where "INODES_PER_CACHE \<equiv> 256"
abbreviation (input) BLOCKS_PER_CACHE :: nat where "BLOCKS_PER_CACHE \<equiv> 2048"
abbreviation (input) MAX_READAHEAD :: u32 where "MAX_READAHEAD \<equiv> 0x800000"

section \<open>Caches\<close>

text \<open>The search loop with \<open>list_delete_element\<close> of the entry found.\<close>

fun cache_find :: "u32 \<Rightarrow> (u32 \<times> 'a) list \<Rightarrow> ('a \<times> (u32 \<times> 'a) list) option" where
  "cache_find n [] = None"
| "cache_find n ((m, x) # c) =
     (if m = n then Some (x, c) else case cache_find n c of None \<Rightarrow> None | Some (y, c') \<Rightarrow> Some (y, (m, x) # c'))"

definition cache_push :: "nat \<Rightarrow> 'a \<Rightarrow> 'a list \<Rightarrow> 'a list" where
  "cache_push limit x c = (if length (x # c) > limit then butlast (x # c) else x # c)"

definition ext2_try_get_cached_inode :: "u32 \<Rightarrow> ext2_fs \<Rightarrow> u32 \<Rightarrow> (u8 list option \<times> ext2_fs) option" where
  "ext2_try_get_cached_inode t f n =
     (case cache_find n (inode_cache f) of
        None \<Rightarrow> Some (None, f)
      | Some (x, c) \<Rightarrow> do { y \<leftarrow> put_le32 x 8 t; Some (Some y, f\<lparr>inode_cache := (n, y) # c\<rparr>) })"

definition ext2_try_get_cached_block :: "u32 \<Rightarrow> ext2_fs \<Rightarrow> u32 \<Rightarrow> u8 list option \<times> ext2_fs" where
  "ext2_try_get_cached_block t f n =
     (case cache_find n (block_cache f) of
        None \<Rightarrow> (None, f)
      | Some ((_, x), c) \<Rightarrow> (Some x, f\<lparr>block_cache := (n, t, x) # c\<rparr>))"

definition ext2_invalidate_block :: "ext2_fs \<Rightarrow> u32 \<Rightarrow> ext2_fs" where
  "ext2_invalidate_block f n = (case cache_find n (block_cache f) of None \<Rightarrow> f | Some (_, c) \<Rightarrow> f\<lparr>block_cache := c\<rparr>)"

definition ext2_invalidate_inode :: "ext2_fs \<Rightarrow> u32 \<Rightarrow> ext2_fs" where
  "ext2_invalidate_inode f n = (case cache_find n (inode_cache f) of None \<Rightarrow> f | Some (_, c) \<Rightarrow> f\<lparr>inode_cache := c\<rparr>)"

definition ext2_cache_inode :: "u32 \<Rightarrow> ext2_fs \<Rightarrow> u32 \<Rightarrow> u8 list \<Rightarrow> ext2_fs option" where
  "ext2_cache_inode t f n x = do { y \<leftarrow> put_le32 x 8 t; Some (f\<lparr>inode_cache := cache_push INODES_PER_CACHE (n, y) (inode_cache f)\<rparr>) }"

definition ext2_cache_block :: "u32 \<Rightarrow> ext2_fs \<Rightarrow> u32 \<Rightarrow> u8 list \<Rightarrow> ext2_fs" where
  "ext2_cache_block t f n x = f\<lparr>block_cache := cache_push BLOCKS_PER_CACHE (n, t, x) (block_cache f)\<rparr>"

section \<open>Blocks\<close>

definition fetch :: "u8 list \<Rightarrow> nat \<Rightarrow> nat \<Rightarrow> u8 list option" where
  "fetch buf off n = (if off + n \<le> length buf then Some (slice buf off n) else None)"

text \<open>The loop that caches the blocks read ahead, by the number of the block in the buffer.\<close>

fun readahead_loop :: "u32 \<Rightarrow> ext2_fs \<Rightarrow> u32 \<Rightarrow> nat list \<Rightarrow> ext2_fs option" where
  "readahead_loop t f start [] = Some f"
| "readahead_loop t f start (j # js) = do {
     x \<leftarrow> fetch (readahead_buffer f) (j * unat (bsize f)) (unat (bsize f));
     readahead_loop t (ext2_cache_block t f (start + of_nat j) x) start js }"

text \<open>
  The count returned and the bytes stored. The read-ahead goes to a buffer that keeps what earlier
  reads left behind the bytes read now. A block size of 0 makes its loop endless.
\<close>

definition ext2_read_block ::
  "(u32 \<Rightarrow> u32 \<Rightarrow> u32 \<times> u8 list) \<Rightarrow> u32 \<Rightarrow> ext2_fs \<Rightarrow> u32 \<Rightarrow> u32 \<Rightarrow> ((u32 \<times> u8 list) \<times> ext2_fs) option" where
  "ext2_read_block rd t f start readahead =
     (if start > total_blocks (sb f) then Some ((0, []), f)
      else let bs = bsize f
           in case ext2_try_get_cached_block t f start of
                (Some x, f1) \<Rightarrow> Some ((bs, x), f1)
              | (None, f1) \<Rightarrow>
                  if readahead \<noteq> 0
                  then if bs = 0 then None
                       else do {
                         let (n, bytes) = rd (start * bs) (if readahead > MAX_READAHEAD then MAX_READAHEAD else readahead);
                         let f2 = f1\<lparr>readahead_buffer := bytes @ drop (length bytes) (readahead_buffer f1)\<rparr>;
                         f3 \<leftarrow> readahead_loop t f2 start [0..<(unat n + unat bs - 1) div unat bs];
                         x \<leftarrow> fetch (readahead_buffer f3) 0 (unat bs);
                         Some ((bs, x), f3) }
                  else let (n, bytes) = rd (start * bs) bs
                       in Some ((n, bytes), if n = bs then ext2_cache_block t f1 start bytes else f1))"

section \<open>The blocks of a file\<close>

definition SINGLE :: "ext2_fs \<Rightarrow> u32" where
  "SINGLE f = bsize f div 4"

definition ext2_resolve_single ::
  "(u32 \<Rightarrow> u32 \<Rightarrow> u32 \<times> u8 list) \<Rightarrow> u32 \<Rightarrow> ext2_fs \<Rightarrow> u32 \<Rightarrow> u32 \<Rightarrow> (u32 \<times> ext2_fs) option" where
  "ext2_resolve_single rd t f p off =
     (if p = 0 then Some (0, f)
      else do {
        ((_, buf), f1) \<leftarrow> ext2_read_block rd t f p 0;
        w \<leftarrow> le32 buf (4 * unat (off - 12));
        Some (w, f1) })"

definition ext2_resolve_double ::
  "(u32 \<Rightarrow> u32 \<Rightarrow> u32 \<times> u8 list) \<Rightarrow> u32 \<Rightarrow> ext2_fs \<Rightarrow> u32 \<Rightarrow> u32 \<Rightarrow> (u32 \<times> ext2_fs) option" where
  "ext2_resolve_double rd t f p off =
     (if p = 0 then Some (0, f)
      else do {
        let extra = off - SINGLE f;
        ((_, buf), f1) \<leftarrow> ext2_read_block rd t f p 0;
        w \<leftarrow> le32 buf (4 * unat (extra div SINGLE f));
        ext2_resolve_single rd t f1 w (extra mod SINGLE f) })"

text \<open>
  The macro for the capacity of a double indirect block has no outer parentheses: the quotient and
  the remainder by it are taken by its first factor and multiplied by the second.
\<close>

definition ext2_resolve_triple ::
  "(u32 \<Rightarrow> u32 \<Rightarrow> u32 \<times> u8 list) \<Rightarrow> u32 \<Rightarrow> ext2_fs \<Rightarrow> u32 \<Rightarrow> u32 \<Rightarrow> (u32 \<times> ext2_fs) option" where
  "ext2_resolve_triple rd t f p off =
     (if p = 0 then Some (0, f)
      else do {
        let extra = off - SINGLE f * SINGLE f;
        ((_, buf), f1) \<leftarrow> ext2_read_block rd t f p 0;
        w \<leftarrow> le32 buf (4 * unat (extra div SINGLE f * SINGLE f));
        ext2_resolve_double rd t f1 w (extra mod SINGLE f * SINGLE f) })"

definition ext2_block_from_offset ::
  "(u32 \<Rightarrow> u32 \<Rightarrow> u32 \<times> u8 list) \<Rightarrow> u32 \<Rightarrow> ext2_fs \<Rightarrow> u8 list \<Rightarrow> u32 \<Rightarrow> (u32 \<times> ext2_fs) option" where
  "ext2_block_from_offset rd t f ino off = do {
     s \<leftarrow> le32 ino 88; d \<leftarrow> le32 ino 92; tr \<leftarrow> le32 ino 96;
     if off < 12 then do { w \<leftarrow> le32 ino (40 + 4 * unat off); Some (w, f) }
     else if off < SINGLE f \<and> s \<noteq> 0 then ext2_resolve_single rd t f s off
     else if off < SINGLE f * SINGLE f \<and> d \<noteq> 0 then ext2_resolve_double rd t f d off
     else if off < SINGLE f * SINGLE f * SINGLE f \<and> tr \<noteq> 0 then ext2_resolve_triple rd t f tr off
     else Some (0, f) }"

partial_function (option) contents_loop ::
  "(u32 \<Rightarrow> u32 \<Rightarrow> u32 \<times> u8 list) \<Rightarrow> u32 \<Rightarrow> ext2_fs \<Rightarrow> u8 list \<Rightarrow> u32 \<Rightarrow> u32 \<Rightarrow> u32 \<Rightarrow> u8 list \<Rightarrow> (u8 list \<times> ext2_fs) option" where
  "contents_loop rd t f ino sz block_off part_off acc =
     (if sz = 0 then Some (acc, f)
      else do {
        (target, f1) \<leftarrow> ext2_block_from_offset rd t f ino block_off;
        if target = 0 then Some (acc, f1)
        else do {
          size_low \<leftarrow> le32 ino 4;
          ((_, buf), f2) \<leftarrow> ext2_read_block rd t f1 target ((size_low div bsize f - block_off + 1) * bsize f);
          if sz \<le> bsize f - part_off
          then do { x \<leftarrow> fetch buf (unat part_off) (unat sz); Some (acc @ x, f2) }
          else do {
            x \<leftarrow> fetch buf (unat part_off) (unat (bsize f - part_off));
            contents_loop rd t f2 ino (sz - (bsize f - part_off)) (block_off + 1) 0 (acc @ x) } } })"

definition ext2_read_inode_contents ::
  "(u32 \<Rightarrow> u32 \<Rightarrow> u32 \<times> u8 list) \<Rightarrow> u32 \<Rightarrow> ext2_fs \<Rightarrow> u8 list \<Rightarrow> u32 \<Rightarrow> u32 \<Rightarrow> (u8 list \<times> ext2_fs) option" where
  "ext2_read_inode_contents rd t f ino off sz = do {
     size_low \<leftarrow> le32 ino 4;
     if off \<ge> size_low then Some ([], f)
     else if bsize f = 0 then None
     else contents_loop rd t f ino (if off + sz \<ge> size_low then size_low - off else sz) (off div bsize f) (off mod bsize f) [] }"

section \<open>Inodes\<close>

text \<open>The place of an inode: its block and the offset in it; the quotients trap when a divisor is 0.\<close>

definition inode_place :: "ext2_fs \<Rightarrow> u32 \<Rightarrow> (u32 \<times> u32) option" where
  "inode_place f n =
     (let isz = ucast (inode_size (sb f))
      in if inodes_per_group (sb f) = 0 \<or> bsize f = 0 \<or> isz = 0 then None
         else do {
           let group = (n - 1) div inodes_per_group (sb f);
           inode_table \<leftarrow> le32 (bgds f) (32 * unat group + 8);
           let index = (n - 1) mod inodes_per_group (sb f);
           let block_off = index * isz div bsize f;
           let inner = index - block_off * (bsize f div isz);
           Some (inode_table + block_off, inner * isz) })"

definition ext2_read_inode ::
  "(u32 \<Rightarrow> u32 \<Rightarrow> u32 \<times> u8 list) \<Rightarrow> u32 \<Rightarrow> ext2_fs \<Rightarrow> u32 \<Rightarrow> (u8 list option \<times> ext2_fs) option" where
  "ext2_read_inode rd t f n =
     (if n = 0 then Some (None, f)
      else do {
        (cached, f1) \<leftarrow> ext2_try_get_cached_inode t f n;
        case cached of Some x \<Rightarrow> Some (Some x, f1)
        | None \<Rightarrow> do {
            (target, inner) \<leftarrow> inode_place f1 n;
            ((_, buf), f2) \<leftarrow> ext2_read_block rd t f1 target 0;
            x \<leftarrow> fetch buf (unat inner) (unat (inode_size (sb f)));
            f3 \<leftarrow> ext2_cache_inode t f2 n x;
            Some (Some x, f3) } })"

text \<open>The result \<open>-1\<close> is \<open>None\<close> in place of the bytes.\<close>

definition ext2_read ::
  "(u32 \<Rightarrow> u32 \<Rightarrow> u32 \<times> u8 list) \<Rightarrow> u32 \<Rightarrow> ext2_fs \<Rightarrow> u32 \<Rightarrow> u32 \<Rightarrow> u32 \<Rightarrow> (u8 list option \<times> ext2_fs) option" where
  "ext2_read rd t f n off sz =
     (if sz = 0 then Some (Some [], f)
      else do {
        (ino, f1) \<leftarrow> ext2_read_inode rd t f n;
        case ino of None \<Rightarrow> Some (None, f1)
        | Some x \<Rightarrow> do { (bytes, f2) \<leftarrow> ext2_read_inode_contents rd t f1 x off sz; Some (Some bytes, f2) } })"

section \<open>Directories\<close>

text \<open>
  The walk over the entries; \<open>buf\<close> is the entry on the stack, which a read near the end of the directory
  fills only in part. An entry of size 0 keeps the loop where it is.
\<close>

partial_function (option) readdir_loop ::
  "(u32 \<Rightarrow> u32 \<Rightarrow> u32 \<times> u8 list) \<Rightarrow> u32 \<Rightarrow> ext2_fs \<Rightarrow> u8 list \<Rightarrow> u32 \<Rightarrow> u32 \<Rightarrow> u32 \<Rightarrow> u8 list \<Rightarrow> (u8 list option \<times> ext2_fs) option" where
  "readdir_loop rd t f ino index cur off buf = do {
     size_low \<leftarrow> le32 ino 4;
     if off \<ge> size_low then Some (None, f)
     else do {
       (bytes, f1) \<leftarrow> ext2_read_inode_contents rd t f ino off 263;
       let buf1 = bytes @ drop (length bytes) buf;
       d_inode \<leftarrow> le32 buf1 0;
       d_size \<leftarrow> le16 buf1 4;
       if d_inode \<noteq> 0 \<and> index = cur then Some (Some buf1, f1)
       else readdir_loop rd t f1 ino index (if d_inode \<noteq> 0 then cur + 1 else cur) (off + ucast d_size) buf1 } }"

definition dirent_of :: "u8 list \<Rightarrow> dirent option" where
  "dirent_of buf = do {
     d_inode \<leftarrow> le32 buf 0;
     len \<leftarrow> fetch buf 6 1;
     name \<leftarrow> fetch buf 8 (unat (hd len));
     Some \<lparr>d_name = map (\<lambda>b. char_of (unat b)) (takeWhile (\<lambda>b. b \<noteq> 0) name), d_ino = d_inode\<rparr> }"

definition ext2_readdir ::
  "(u32 \<Rightarrow> u32 \<Rightarrow> u32 \<times> u8 list) \<Rightarrow> u32 \<Rightarrow> ext2_fs \<Rightarrow> u32 \<Rightarrow> u32 \<Rightarrow> (dirent option \<times> ext2_fs) option" where
  "ext2_readdir rd t f dir index = do {
     (ino, f1) \<leftarrow> ext2_read_inode rd t f dir;
     case ino of None \<Rightarrow> Some (None, f1)
     | Some x \<Rightarrow> do {
         perms \<leftarrow> le16 x 0;
         if perms AND 0x4000 = 0 then Some (None, f1)
         else do {
           (r, f2) \<leftarrow> readdir_loop rd t f1 x index 0 0 [];
           case r of None \<Rightarrow> Some (None, f2) | Some buf \<Rightarrow> do { d \<leftarrow> dirent_of buf; Some (Some d, f2) } } } }"

text \<open>The search of a name in a directory.\<close>

partial_function (option) ext2_search ::
  "(u32 \<Rightarrow> u32 \<Rightarrow> u32 \<times> u8 list) \<Rightarrow> u32 \<Rightarrow> ext2_fs \<Rightarrow> u32 \<Rightarrow> string \<Rightarrow> u32 \<Rightarrow> (dirent option \<times> ext2_fs) option" where
  "ext2_search rd t f dir name index = do {
     (d, f1) \<leftarrow> ext2_readdir rd t f dir index;
     case d of None \<Rightarrow> Some (None, f1)
     | Some e \<Rightarrow> if d_name e = name then Some (Some e, f1) else ext2_search rd t f1 dir name (index + 1) }"

text \<open>A node for an inode; \<open>dev\<close> is the address of the file system and \<open>ops\<close> its table of functions.\<close>

definition ext2_from_inode ::
  "(u32 \<Rightarrow> u32 \<Rightarrow> u32 \<times> u8 list) \<Rightarrow> u32 \<Rightarrow> ptr \<Rightarrow> fs_ops \<Rightarrow> ext2_fs \<Rightarrow> string \<Rightarrow> u32 \<Rightarrow> (vnode \<times> ext2_fs) option" where
  "ext2_from_inode rd t dev ops f name n = do {
     (r, f1) \<leftarrow> ext2_read_inode rd t f n;
     x \<leftarrow> r;
     size_low \<leftarrow> le32 x 4;
     perms \<leftarrow> le16 x 0;
     Some (\<lparr>n_name = name, n_device = dev, n_mode = 0, n_flags = (if perms AND 0x4000 \<noteq> 0 then VFS_DIR else VFS_FILE), n_inode = ucast n,
            n_size = size_low, n_fs = ops, n_links = 1, n_path = None, n_mountpoint = NULL\<rparr>, f1) }"

fun finddir_loop ::
  "(u32 \<Rightarrow> u32 \<Rightarrow> u32 \<times> u8 list) \<Rightarrow> u32 \<Rightarrow> ptr \<Rightarrow> fs_ops \<Rightarrow> ext2_fs \<Rightarrow> vnode \<Rightarrow> string \<Rightarrow> nat list \<Rightarrow> (vnode option \<times> ext2_fs) option" where
  "finddir_loop rd t dev ops f root path [] = Some (Some root, f)"
| "finddir_loop rd t dev ops f root path (i # is) = do {
     seg \<leftarrow> k_util_path_segment path i;
     folder \<leftarrow> seg;
     (d, f1) \<leftarrow> ext2_search rd t f (ucast (n_inode root)) folder 0;
     case d of None \<Rightarrow> Some (None, f1)
     | Some e \<Rightarrow> do {
         (node, f2) \<leftarrow> ext2_from_inode rd t dev ops f1 (d_name e) (d_ino e);
         finddir_loop rd t dev ops f2 node path is } }"

definition ext2_finddir ::
  "(u32 \<Rightarrow> u32 \<Rightarrow> u32 \<times> u8 list) \<Rightarrow> u32 \<Rightarrow> ptr \<Rightarrow> fs_ops \<Rightarrow> ext2_fs \<Rightarrow> vnode \<Rightarrow> string \<Rightarrow> (vnode option \<times> ext2_fs) option" where
  "ext2_finddir rd t dev ops f root path = do {
     n \<leftarrow> k_util_path_length path;
     (r, f1) \<leftarrow> finddir_loop rd t dev ops f root path [0..<n];
     case r of None \<Rightarrow> Some (None, f1)
     | Some node \<Rightarrow> do {
         name \<leftarrow> k_util_path_filename path;
         final \<leftarrow> name;
         Some (if n_name node \<noteq> final then None else Some node, f1) } }"

section \<open>Writing\<close>

text \<open>The device has a state of type \<open>'d\<close>; \<open>wr off bytes d\<close> returns the count and the new state.\<close>

type_synonym 'd reader = "'d \<Rightarrow> u32 \<Rightarrow> u32 \<Rightarrow> u32 \<times> u8 list"
type_synonym 'd writer = "u32 \<Rightarrow> u8 list \<Rightarrow> 'd \<Rightarrow> u32 \<times> 'd"

definition ext2_write_inode :: "'d writer \<Rightarrow> ext2_fs \<Rightarrow> 'd \<Rightarrow> u32 \<Rightarrow> u8 list \<Rightarrow> (ext2_fs \<times> 'd) option" where
  "ext2_write_inode wr f d n x = do {
     (target, inner) \<leftarrow> inode_place f n;
     bytes \<leftarrow> fetch x 0 (unat (inode_size (sb f)));
     let (_, d1) = wr (target * bsize f + inner) bytes d;
     Some (ext2_invalidate_inode f n, d1) }"

text \<open>The first free direct slot, as its offset in the inode; without one the code stores through a null pointer.\<close>

definition ext2_free_block_slot :: "u8 list \<Rightarrow> nat option" where
  "ext2_free_block_slot ino = find (\<lambda>i. le32 ino i = Some 0) (map (\<lambda>i. 40 + 4 * i) [0..<12])"

text \<open>The bitmap has 1024 words, whatever the size of the block that was read into it.\<close>

fun free_bit :: "u32 \<Rightarrow> nat list \<Rightarrow> nat option" where
  "free_bit w [] = None"
| "free_bit w (j # js) = (if w AND push_bit j 1 = 0 then Some j else free_bit w js)"

fun ext2_get_free_block :: "u8 list \<Rightarrow> nat list \<Rightarrow> (u32 \<times> u8 list) option" where
  "ext2_get_free_block bm [] = Some (0, bm)"
| "ext2_get_free_block bm (i # is) = do {
     w \<leftarrow> le32 bm (4 * i);
     case (if w = 0xFFFFFFFF then None else free_bit w [0..<32]) of
       None \<Rightarrow> ext2_get_free_block bm is
     | Some j \<Rightarrow> do { bm1 \<leftarrow> put_le32 bm (4 * i) (w OR push_bit j 1); Some (of_nat (i * 32 + j), bm1) } }"

fun allocate_loop :: "u32 \<Rightarrow> u8 list \<Rightarrow> u8 list \<Rightarrow> nat \<Rightarrow> (u8 list \<times> u8 list) option" where
  "allocate_loop base bm ino 0 = Some (bm, ino)"
| "allocate_loop base bm ino (Suc n) = do {
     slot \<leftarrow> ext2_free_block_slot ino;
     (b, bm1) \<leftarrow> ext2_get_free_block bm [0..<1024];
     ino1 \<leftarrow> put_le32 ino slot (base + b);
     allocate_loop base bm1 ino1 n }"

definition ext2_allocate_blocks :: "'d reader \<Rightarrow> 'd writer \<Rightarrow> u32 \<Rightarrow> ext2_fs \<Rightarrow> 'd \<Rightarrow> u32 \<Rightarrow> u8 list \<Rightarrow> u32 \<Rightarrow> (u8 list \<times> ext2_fs \<times> 'd) option" where
  "ext2_allocate_blocks rd wr t f d n ino blocks =
     (if inodes_per_group (sb f) = 0 then None
      else do {
        let group = (n - 1) div inodes_per_group (sb f);
        free \<leftarrow> le16 (bgds f) (32 * unat group + 12);
        bitmap_address \<leftarrow> le32 (bgds f) (32 * unat group);
        if ucast free < blocks then Some (ino, f, d)
        else do {
          ((_, bm), f1) \<leftarrow> ext2_read_block (rd d) t f bitmap_address 0;
          (bm1, ino1) \<leftarrow> allocate_loop (group * blocks_per_group (sb f)) bm ino (unat blocks);
          bytes \<leftarrow> fetch bm1 0 (unat (bsize f));
          let (_, d1) = wr bitmap_address bytes d;
          Some (ino1, f1, d1) } })"

definition ext2_count_allocated :: "u8 list \<Rightarrow> nat" where
  "ext2_count_allocated ino = length (takeWhile (\<lambda>i. le32 ino i \<noteq> Some 0) (map (\<lambda>i. 40 + 4 * i) [0..<12]))"

text \<open>
  \<open>__ext2_write\<close>. The buffer of \<open>total_blocks\<close> blocks comes from the heap and what the read does not fill
  of it is \<open>junk\<close>; the result is written at the offset in the file, counted from the start of the device.
\<close>

definition ext2_write ::
  "'d reader \<Rightarrow> 'd writer \<Rightarrow> u8 \<Rightarrow> u32 \<Rightarrow> ext2_fs \<Rightarrow> 'd \<Rightarrow> u32 \<Rightarrow> u32 \<Rightarrow> u32 \<Rightarrow> u8 list \<Rightarrow> (u32 \<times> ext2_fs \<times> 'd) option" where
  "ext2_write rd wr junk t f d node_size n off bytes =
     (if off \<ge> node_size then Some (0, f, d)
      else do {
        (r, f1) \<leftarrow> ext2_read_inode (rd d) t f n;
        case r of None \<Rightarrow> Some (0, f1, d)
        | Some ino \<Rightarrow>
            if bsize f = 0 then None
            else do {
              let bs = bsize f;
              let sz = of_nat (length bytes);
              let block_off = off div bs;
              let part_off = off mod bs;
              let needed = sz div bs;
              let before = (if bs - part_off = bs then 0 else bs - part_off);
              let after = sz - needed - before;
              let total = needed + (if after > 0 then 1 else 0) + (if before > 0 then 1 else 0);
              let total_off = block_off - (if part_off > 0 then 1 else 0);
              let allocated = (of_nat (ext2_count_allocated ino) :: u32);
              (ino1, f2, d1) \<leftarrow> (if needed > allocated then ext2_allocate_blocks rd wr t f1 d n ino (needed - allocated) else Some (ino, f1, d));
              (old, f3) \<leftarrow> ext2_read_inode_contents (rd d1) t f2 ino1 (total_off * bs) (total * bs);
              let buf = old @ replicate (unat (total * bs) - length old) junk;
              if unat part_off + length bytes > length buf then None
              else do {
                let buf1 = take (unat part_off) buf @ bytes @ drop (unat part_off + length bytes) buf;
                let (count, d2) = wr (total_off * bs) buf1 d1;
                (f4, d3) \<leftarrow> ext2_write_inode wr f3 d2 n ino1;
                Some (count, f4, d3) } } })"

section \<open>Mounting\<close>

fun read_bgds :: "(u32 \<Rightarrow> u32 \<Rightarrow> u32 \<times> u8 list) \<Rightarrow> u32 \<Rightarrow> ext2_fs \<Rightarrow> u32 \<Rightarrow> nat \<Rightarrow> ext2_fs option" where
  "read_bgds rd t f start 0 = Some f"
| "read_bgds rd t f start (Suc n) = do {
     ((_, buf), f1) \<leftarrow> ext2_read_block rd t f start 0;
     x \<leftarrow> fetch buf 0 (unat (bsize f));
     read_bgds rd t (f1\<lparr>bgds := bgds f1 @ x\<rparr>) (start + 1) n }"

text \<open>The loop that rounds the number of groups up, with a product of 32 bits.\<close>

partial_function (option) groups_loop :: "superblock \<Rightarrow> u32 \<Rightarrow> u32 option" where
  "groups_loop s n = (if n * blocks_per_group s < total_blocks s then groups_loop s (n + 1) else Some n)"

text \<open>
  \<open>__ext2_mount\<close> up to the node, which has inode 2: \<open>Some None\<close> is the null pointer for a device that is not an ext2. The
  number of blocks with group descriptors is computed with \<open>total_blocks\<close> as the divisor.
\<close>

definition ext2_mount :: "(u32 \<Rightarrow> u32 \<Rightarrow> u32 \<times> u8 list) \<Rightarrow> u32 \<Rightarrow> u8 list \<Rightarrow> ext2_fs option option" where
  "ext2_mount rd t junk = do {
     let raw = snd (rd 1024 1024);
     (sig, s) \<leftarrow> parse_superblock raw;
     if sig \<noteq> 0xEF53 then Some None
     else if blocks_per_group s = 0 \<or> total_blocks s = 0 then None
     else do {
       amount \<leftarrow> groups_loop s (total_blocks s div blocks_per_group s);
       let blocks = 32 * amount div total_blocks s + 1;
       let f = \<lparr>sb = s, bgds = [], inode_cache = [], block_cache = [], readahead_buffer = junk\<rparr>;
       f1 \<leftarrow> read_bgds rd t f (if BLOCK_SIZE s > 1024 then 1 else 2) (unat blocks);
       Some (Some f1) } }"

end
