(* ===== verification/Ext2_Read.thy ===== *)
theory Ext2_Read
  imports Ext2
begin

text \<open>
  Reading an ext2 file system on a device that keeps the contract of \<open>Blockdev\<close>: the caches never show,
  a file is the sequence of its blocks on the disk, and the lookup finds what the directories on
  the disk list. The files are those whose blocks are direct or in the single indirect block,
  where the map of the code is right.
\<close>

section \<open>Caches\<close>

lemma cache_find_some:
  "cache_find n c = Some (x, c') \<Longrightarrow> (n, x) \<in> set c \<and> set c' \<subseteq> set c \<and> length c = Suc (length c')"
  by (induction n c arbitrary: x c' rule: cache_find.induct) (auto split: if_splits option.splits)

lemma cache_push_set: "set (cache_push l x c) \<subseteq> insert x (set c)"
  unfolding cache_push_def using in_set_butlastD [of _ "x # c"] by (auto simp del: butlast.simps)

lemma cache_push_length: "length c \<le> l \<Longrightarrow> length (cache_push l x c) \<le> l"
  by (auto simp: cache_push_def)

section \<open>Blocks through the cache\<close>

definition geometry :: "ext2_fs \<Rightarrow> bool" where
  "geometry f \<longleftrightarrow> (\<exists>k. 10 \<le> k \<and> k \<le> 23 \<and> unat (bsize f) = 2 ^ k)"

definition block_at :: "u8 list \<Rightarrow> ext2_fs \<Rightarrow> nat \<Rightarrow> u8 list" where
  "block_at data f b = slice data (b * unat (bsize f)) (unat (bsize f))"

definition on_disk :: "u8 list \<Rightarrow> ext2_fs \<Rightarrow> nat \<Rightarrow> bool" where
  "on_disk data f b \<longleftrightarrow> (b + 1) * unat (bsize f) \<le> length data"

definition valid_block :: "u8 list \<Rightarrow> ext2_fs \<Rightarrow> u32 \<Rightarrow> bool" where
  "valid_block data f b \<longleftrightarrow> b \<noteq> 0 \<and> b \<le> total_blocks (sb f) \<and> on_disk data f (unat b)"

definition blocks_ok :: "u8 list \<Rightarrow> ext2_fs \<Rightarrow> bool" where
  "blocks_ok data f \<longleftrightarrow> geometry f \<and> length (readahead_buffer f) = 0x800000 \<and> length (block_cache f) \<le> 2048 \<and>
     (\<forall>(b, _, x) \<in> set (block_cache f). length x = unat (bsize f) \<and> (on_disk data f (unat b) \<longrightarrow> x = block_at data f (unat b)))"

definition same_fs :: "ext2_fs \<Rightarrow> ext2_fs \<Rightarrow> bool" where
  "same_fs f f' \<longleftrightarrow> sb f' = sb f \<and> bgds f' = bgds f \<and> inode_cache f' = inode_cache f"

lemma same_fs_refl [simp]: "same_fs f f"
  by (simp add: same_fs_def)

lemma same_fs_trans: "same_fs f g \<Longrightarrow> same_fs g h \<Longrightarrow> same_fs f h"
  by (simp add: same_fs_def)

lemma sb_views:
  "sb g = sb f \<Longrightarrow> block_at data g = block_at data f \<and> on_disk data g = on_disk data f \<and> valid_block data g = valid_block data f \<and>
     geometry g = geometry f \<and> SINGLE g = SINGLE f \<and> bsize g = bsize f"
  by (auto simp: block_at_def on_disk_def valid_block_def geometry_def SINGLE_def fun_eq_iff)

lemma same_fs_views:
  "same_fs f g \<Longrightarrow> block_at data g = block_at data f \<and> on_disk data g = on_disk data f \<and> valid_block data g = valid_block data f \<and>
     geometry g = geometry f \<and> SINGLE g = SINGLE f \<and> bsize g = bsize f"
  by (rule sb_views) (simp add: same_fs_def)

lemma geometry_bounds: "geometry f \<Longrightarrow> 1024 \<le> unat (bsize f) \<and> unat (bsize f) \<le> 0x800000 \<and> unat (bsize f) dvd 0x800000"
proof -
  assume "geometry f"
  then obtain k where k: "10 \<le> k" "k \<le> 23" "unat (bsize f) = 2 ^ k" by (auto simp: geometry_def)
  have "(2 :: nat) ^ 10 \<le> 2 ^ k" "(2 :: nat) ^ k \<le> 2 ^ 23" "(2 :: nat) ^ k dvd 2 ^ 23"
    using power_increasing [of 10 k "2 :: nat"] power_increasing [of k 23 "2 :: nat"] le_imp_power_dvd [of k 23 "2 :: nat"] k(1,2) by simp_all
  then show ?thesis using k(3) by simp
qed

lemma cached_block_ok:
  assumes "blocks_ok data f" and "length x = unat (bsize f)" and "on_disk data f (unat b) \<longrightarrow> x = block_at data f (unat b)"
  shows "blocks_ok data (ext2_cache_block t f b x) \<and> same_fs f (ext2_cache_block t f b x)"
proof -
  let ?f = "ext2_cache_block t f b x"
  have s: "same_fs f ?f" "readahead_buffer ?f = readahead_buffer f" by (simp_all add: ext2_cache_block_def same_fs_def)
  have c: "set (block_cache ?f) \<subseteq> insert (b, t, x) (set (block_cache f))" "length (block_cache ?f) \<le> 2048"
    using cache_push_set [of 2048 "(b, t, x)" "block_cache f"] cache_push_length [of "block_cache f" 2048 "(b, t, x)"] assms(1)
    by (simp_all add: ext2_cache_block_def blocks_ok_def)
  have "\<forall>(b', _, x') \<in> set (block_cache ?f). length x' = unat (bsize f) \<and> (on_disk data f (unat b') \<longrightarrow> x' = block_at data f (unat b'))"
  proof
    fix e assume "e \<in> set (block_cache ?f)"
    then have "e = (b, t, x) \<or> e \<in> set (block_cache f)" using c(1) by auto
    then show "case e of (b', _, x') \<Rightarrow> length x' = unat (bsize f) \<and> (on_disk data f (unat b') \<longrightarrow> x' = block_at data f (unat b'))"
      using assms by (auto simp: blocks_ok_def)
  qed
  then show ?thesis using s c(2) assms(1) same_fs_views [OF s(1)] by (simp add: blocks_ok_def)
qed

lemma readahead_loop_ok:
  assumes "blocks_ok data f"
    and "\<forall>j \<in> set js. (j + 1) * unat (bsize f) \<le> 0x800000 \<and>
      (on_disk data f (unat (start + of_nat j)) \<longrightarrow> slice (readahead_buffer f) (j * unat (bsize f)) (unat (bsize f)) = block_at data f (unat (start + of_nat j)))"
  shows "\<exists>g. readahead_loop t f start js = Some g \<and> blocks_ok data g \<and> same_fs f g \<and> readahead_buffer g = readahead_buffer f"
  using assms
proof (induction js arbitrary: f)
  case (Cons j js)
  let ?x = "slice (readahead_buffer f) (j * unat (bsize f)) (unat (bsize f))"
  let ?f = "ext2_cache_block t f (start + of_nat j) ?x"
  have room: "j * unat (bsize f) + unat (bsize f) \<le> length (readahead_buffer f)" using Cons(2,3) by (simp add: blocks_ok_def)
  have ok: "blocks_ok data ?f" "same_fs f ?f" using cached_block_ok [OF Cons(2), of ?x "start + of_nat j" t] Cons(3) room by (auto simp: length_slice)
  have ra: "readahead_buffer ?f = readahead_buffer f" by (simp add: ext2_cache_block_def)
  have "\<exists>g. readahead_loop t ?f start js = Some g \<and> blocks_ok data g \<and> same_fs ?f g \<and> readahead_buffer g = readahead_buffer ?f"
    using Cons(3) by (intro Cons.IH [OF ok(1)]) (simp add: ra same_fs_views [OF ok(2)])
  then show ?case using ok(2) ra room by (auto simp: fetch_def intro: same_fs_trans)
qed simp

lemma div_ceil_less:
  assumes "0 < (b :: nat)" and "j < (k + b - 1) div b" and "b dvd n" and "k \<le> n"
  shows "(j + 1) * b \<le> n"
proof -
  obtain q where q: "n = b * q" using assms(3) by auto
  have "(k + b - 1) div b \<le> q"
  proof -
    have "(k + b - 1) div b \<le> (b * q + b - 1) div b" using assms(4) q by (intro div_le_mono) simp
    also have "\<dots> = q" using assms(1) by (intro div_nat_eqI) (auto simp: algebra_simps)
    finally show ?thesis .
  qed
  then have "j + 1 \<le> q" using assms(2) by simp
  then have "(j + 1) * b \<le> q * b" by (rule mult_le_mono1)
  then show ?thesis using q by (simp add: mult.commute [of b])
qed

context block_device
begin

lemma read_ahead_ok:
  assumes "blocks_ok data f" and "on_disk data f (unat b)" and "r \<noteq> 0" and "unat (bsize f) dvd unat r" and "r \<le> MAX_READAHEAD"
    and "rd (b * bsize f) r = (n, bytes)" and "f1 = f\<lparr>readahead_buffer := bytes @ drop (length bytes) (readahead_buffer f)\<rparr>"
  shows "\<exists>g. readahead_loop t f1 b [0..<(unat n + unat (bsize f) - 1) div unat (bsize f)] = Some g \<and> blocks_ok data g \<and> same_fs f g \<and>
    fetch (readahead_buffer g) 0 (unat (bsize f)) = Some (block_at data f (unat b))"
proof -
  let ?bs = "unat (bsize f)" and ?ra = "bytes @ drop (length bytes) (readahead_buffer f)"
  have g: "1024 \<le> ?bs" "?bs \<le> 0x800000" using geometry_bounds [of f] assms(1) by (auto simp: blocks_ok_def)
  have b: "unat b * ?bs + ?bs \<le> length data" using assms(2) by (simp add: on_disk_def algebra_simps)
  have off: "unat (b * bsize f) = unat b * ?bs" using b small g by (simp add: unat_word_ariths)
  have r: "?bs \<le> unat r" "unat r \<le> 0x800000" using assms(3-5) dvd_imp_le [of ?bs "unat r"] unat_eq_zero32 [of r] by (auto simp: word_le_nat_alt)
  have "reads_at data (b * bsize f) r (n, bytes)"
    using reads [of "b * bsize f" r] assms(3,6) off b g r by auto
  then have ra: "length bytes = unat n" "unat n \<le> unat r" "min (unat r) (length data - unat b * ?bs) \<le> unat n"
    "take (length data - unat b * ?bs) bytes = slice data (unat b * ?bs) (unat n)" by (simp_all add: reads_at_def off word_le_nat_alt)
  have f1: "blocks_ok data f1" "same_fs f f1" "readahead_buffer f1 = ?ra" using assms(1,7) ra(1,2) r by (simp_all add: blocks_ok_def same_fs_def geometry_def on_disk_def block_at_def)
  have part: "slice ?ra (j * ?bs) ?bs = block_at data f (unat b + j)" if j: "(j + 1) * ?bs \<le> unat r" "on_disk data f (unat b + j)" for j
  proof -
    have in_data: "unat b * ?bs + (j * ?bs + ?bs) \<le> length data" using j(2) by (simp add: on_disk_def algebra_simps)
    then have in_n: "j * ?bs + ?bs \<le> unat n" using ra(3) j(1) by simp
    have "slice ?ra (j * ?bs) ?bs = slice bytes (j * ?bs) ?bs" using in_n ra(1) by (simp add: slice_def)
    also have "\<dots> = slice (take (length data - unat b * ?bs) bytes) (j * ?bs) ?bs" using in_data by (simp add: slice_def drop_take min_def)
    also have "\<dots> = slice data (unat b * ?bs + j * ?bs) ?bs" using ra(4) in_n by (simp add: slice_slice)
    finally show ?thesis by (simp add: block_at_def algebra_simps)
  qed
  let ?js = "[0..<(unat n + ?bs - 1) div ?bs]"
  have js: "(j + 1) * ?bs \<le> unat r" if "j \<in> set ?js" for j
    using that g(1) div_ceil_less [of ?bs j "unat n" "unat r"] assms(4) ra(2) by simp
  have num: "unat (b + of_nat j) = unat b + j" if "(j + 1) * ?bs \<le> unat r" for j
  proof -
    have "unat b * 1024 \<le> unat b * ?bs" "j * 1024 \<le> j * ?bs" "(j + 1) * ?bs = j * ?bs + ?bs" using g(1) by simp_all
    then have "unat b + j < 2 ^ 32" "j < 2 ^ 32" using b that r small by linarith+
    then show ?thesis by (simp add: unat_add32 unat_of_nat_eq32)
  qed
  have "\<forall>j \<in> set ?js. (j + 1) * unat (bsize f1) \<le> 0x800000 \<and> (on_disk data f1 (unat (b + of_nat j)) \<longrightarrow>
      slice (readahead_buffer f1) (j * unat (bsize f1)) (unat (bsize f1)) = block_at data f1 (unat (b + of_nat j)))"
  proof
    fix j assume j: "j \<in> set ?js"
    note jr = js [OF j]
    show "(j + 1) * unat (bsize f1) \<le> 0x800000 \<and> (on_disk data f1 (unat (b + of_nat j)) \<longrightarrow>
      slice (readahead_buffer f1) (j * unat (bsize f1)) (unat (bsize f1)) = block_at data f1 (unat (b + of_nat j)))"
      using part [OF jr] num [OF jr] jr r(2) f1(3) by (simp add: same_fs_views [OF f1(2)])
  qed
  from readahead_loop_ok [OF f1(1) this, of t]
  obtain h where h: "readahead_loop t f1 b ?js = Some h" "blocks_ok data h" "same_fs f1 h" "readahead_buffer h = ?ra"
    using assms(7) by auto
  have "slice ?ra 0 ?bs = block_at data f (unat b)" using part [of 0] r(1) assms(2) by simp
  then show ?thesis using h same_fs_trans [OF f1(2) h(3)] ra(1,2) r g assms(1) by (auto simp: fetch_def blocks_ok_def)
qed

lemma read_block_ok:
  assumes "blocks_ok data f" and "valid_block data f b" and "unat (bsize f) dvd unat r"
  shows "\<exists>g. ext2_read_block rd t f b r = Some ((bsize f, block_at data f (unat b)), g) \<and> blocks_ok data g \<and> same_fs f g"
proof (cases "cache_find b (block_cache f)")
  case (Some e)
  obtain ta x c where e: "e = ((ta, x), c)" by (metis prod.collapse)
  have m: "(b, ta, x) \<in> set (block_cache f)" "set c \<subseteq> set (block_cache f)" "length (block_cache f) = Suc (length c)"
    using cache_find_some [of b "block_cache f" "(ta, x)" c] Some e by auto
  then have x: "length x = unat (bsize f)" "x = block_at data f (unat b)" using assms(1,2) by (auto simp: blocks_ok_def valid_block_def)
  let ?g = "f\<lparr>block_cache := (b, t, x) # c\<rparr>"
  have "blocks_ok data ?g" "same_fs f ?g"
    using assms(1,2) m x by (auto simp: blocks_ok_def same_fs_def geometry_def on_disk_def block_at_def)
  then show ?thesis using Some e x assms(2) by (auto simp: ext2_read_block_def ext2_try_get_cached_block_def valid_block_def Let_def)
next
  case None
  have v: "\<not> total_blocks (sb f) < b" "on_disk data f (unat b)" using assms(2) by (auto simp: valid_block_def)
  have g: "1024 \<le> unat (bsize f)" "unat (bsize f) dvd 0x800000" using geometry_bounds [of f] assms(1) by (auto simp: blocks_ok_def)
  have nz: "bsize f \<noteq> 0" using g(1) by auto
  show ?thesis
  proof (cases "r = 0")
    case True
    have b: "unat b * unat (bsize f) + unat (bsize f) \<le> length data" using v(2) by (simp add: on_disk_def algebra_simps)
    have off: "unat (b * bsize f) = unat b * unat (bsize f)" using b small g by (simp add: unat_word_ariths)
    have "rd (b * bsize f) (bsize f) = (bsize f, block_at data f (unat b))" using read_inside [OF nz, of "b * bsize f"] b off by (simp add: block_at_def)
    moreover have "length (block_at data f (unat b)) = unat (bsize f)" using b by (simp add: block_at_def length_slice)
    ultimately show ?thesis using True None v(1) cached_block_ok [OF assms(1), of "block_at data f (unat b)" b t]
      by (simp add: ext2_read_block_def ext2_try_get_cached_block_def)
  next
    case False
    let ?r = "if r > MAX_READAHEAD then MAX_READAHEAD else r"
    obtain n bytes where rb: "rd (b * bsize f) ?r = (n, bytes)" by (cases "rd (b * bsize f) ?r")
    have r: "?r \<noteq> 0" "unat (bsize f) dvd unat ?r" "?r \<le> MAX_READAHEAD" using False assms(3) g(2) by auto
    from read_ahead_ok [OF assms(1) v(2) r rb refl, of t] show ?thesis
      using False None v(1) nz rb by (auto simp: ext2_read_block_def ext2_try_get_cached_block_def Let_def)
  qed
qed

end

section \<open>Files\<close>

text \<open>The file an inode stands for: its blocks on the disk, one after the other, up to its size.\<close>

definition file_size :: "u8 list \<Rightarrow> nat" where
  "file_size ino = (case le32 ino 4 of None \<Rightarrow> 0 | Some w \<Rightarrow> unat w)"

definition file_blocks :: "ext2_fs \<Rightarrow> u8 list \<Rightarrow> nat" where
  "file_blocks f ino = (file_size ino + unat (bsize f) - 1) div unat (bsize f)"

definition file_block :: "u8 list \<Rightarrow> ext2_fs \<Rightarrow> u8 list \<Rightarrow> nat \<Rightarrow> u32 option" where
  "file_block data f ino j =
     (if j < 12 then le32 ino (40 + 4 * j) else do { s \<leftarrow> le32 ino 88; le32 (block_at data f (unat s)) (4 * (j - 12)) })"

definition file_bytes :: "u8 list \<Rightarrow> ext2_fs \<Rightarrow> u8 list \<Rightarrow> u8 list" where
  "file_bytes data f ino = take (file_size ino)
     (concat (map (\<lambda>j. case file_block data f ino j of None \<Rightarrow> [] | Some p \<Rightarrow> block_at data f (unat p)) [0..<file_blocks f ino]))"

definition file_ok :: "u8 list \<Rightarrow> ext2_fs \<Rightarrow> u8 list \<Rightarrow> bool" where
  "file_ok data f ino \<longleftrightarrow> 100 \<le> length ino \<and> file_size ino + unat (bsize f) < 2 ^ 32 \<and> file_blocks f ino \<le> unat (SINGLE f) \<and>
     (12 < file_blocks f ino \<longrightarrow> (\<exists>s. le32 ino 88 = Some s \<and> valid_block data f s)) \<and>
     (\<forall>j < file_blocks f ino. \<exists>p. file_block data f ino j = Some p \<and> valid_block data f p)"

lemma file_views_sb:
  "sb g = sb f \<Longrightarrow> file_ok data g = file_ok data f \<and> file_bytes data g = file_bytes data f \<and> file_blocks g = file_blocks f \<and>
     file_block data g = file_block data f"
  by (frule sb_views [where data = data]) (auto simp: file_ok_def file_bytes_def file_blocks_def file_block_def fun_eq_iff cong: option.case_cong if_cong)

lemma file_views:
  "same_fs f g \<Longrightarrow> file_ok data g = file_ok data f \<and> file_bytes data g = file_bytes data f \<and> file_blocks g = file_blocks f \<and>
     file_block data g = file_block data f"
  by (rule file_views_sb) (simp add: same_fs_def)

lemma concat_drop:
  "\<forall>j < n. length (g j) = b \<Longrightarrow> k \<le> n \<Longrightarrow> drop (k * b) (concat (map g [0..<n])) = concat (map g [k..<n])"
proof (induction k)
  case (Suc k)
  have "drop (Suc k * b) (concat (map g [0..<n])) = drop b (drop (k * b) (concat (map g [0..<n])))" by (simp add: add.commute)
  also have "\<dots> = drop b (concat (map g [k..<n]))" using Suc by simp
  also have "[k..<n] = k # [Suc k..<n]" using Suc(3) by (simp add: upt_conv_Cons)
  finally show ?case using Suc(2,3) by simp
qed simp

lemma concat_slice:
  assumes "\<forall>j < n. length (g j) = b" and "k < n" and "p + m \<le> b"
  shows "slice (concat (map g [0..<n])) (k * b + p) m = slice (g k) p m"
proof -
  have "drop (k * b + p) (concat (map g [0..<n])) = drop p (drop (k * b) (concat (map g [0..<n])))" by (simp add: add.commute)
  also have "\<dots> = drop p (g k @ concat (map g [Suc k..<n]))" using concat_drop [OF assms(1), of k] assms(2) by (simp add: upt_conv_Cons)
  finally show ?thesis using assms by (simp add: slice_def)
qed

lemma concat_length: "\<forall>j < n. length (g j) = b \<Longrightarrow> length (concat (map g [0..<n])) = n * b"
  by (induction n) auto

lemma blocks_cover: "0 < (b :: nat) \<Longrightarrow> s \<le> (s + b - 1) div b * b"
proof -
  assume b: "0 < b"
  have "(s + b - 1) div b * b + (s + b - 1) mod b = s + b - 1" by (rule div_mult_mod_eq)
  moreover have "(s + b - 1) mod b < b" using b by simp
  ultimately show ?thesis using b by linarith
qed

lemma block_count: "0 < (b :: nat) \<Longrightarrow> k * b < s \<Longrightarrow> k < (s + b - 1) div b"
proof -
  assume "0 < b" "k * b < s"
  then have "(k + 1) * b \<le> s + b - 1" by simp
  then have "k + 1 \<le> (s + b - 1) div b" using \<open>0 < b\<close> by (simp add: less_eq_div_iff_mult_less_eq)
  then show ?thesis by simp
qed

lemma file_block_length:
  assumes "file_ok data f ino"
  shows "\<forall>j < file_blocks f ino. length (case file_block data f ino j of None \<Rightarrow> [] | Some p \<Rightarrow> block_at data f (unat p)) = unat (bsize f)"
proof (intro allI impI)
  fix j assume "j < file_blocks f ino"
  then obtain p where p: "file_block data f ino j = Some p" "valid_block data f p" using assms by (auto simp: file_ok_def)
  then have "unat p * unat (bsize f) + unat (bsize f) \<le> length data" by (simp add: valid_block_def on_disk_def algebra_simps)
  then show "length (case file_block data f ino j of None \<Rightarrow> [] | Some p \<Rightarrow> block_at data f (unat p)) = unat (bsize f)"
    using p(1) by (simp add: block_at_def length_slice)
qed

lemma length_file_bytes: "file_ok data f ino \<Longrightarrow> geometry f \<Longrightarrow> length (file_bytes data f ino) = file_size ino"
  using concat_length [OF file_block_length] blocks_cover [of "unat (bsize f)" "file_size ino"] geometry_bounds [of f]
  by (simp add: file_bytes_def file_blocks_def)

lemma file_bytes_slice:
  assumes "file_ok data f ino" and "0 < unat (bsize f)" and "k * unat (bsize f) + p + m \<le> file_size ino" and "p + m \<le> unat (bsize f)" and "0 < m"
  shows "\<exists>b. k < file_blocks f ino \<and> file_block data f ino k = Some b \<and> valid_block data f b \<and>
    slice (file_bytes data f ino) (k * unat (bsize f) + p) m = slice (block_at data f (unat b)) p m"
proof -
  have k: "k < file_blocks f ino" using assms(2-5) unfolding file_blocks_def by (intro block_count) auto
  then obtain b where b: "file_block data f ino k = Some b" "valid_block data f b" using assms(1) by (auto simp: file_ok_def)
  have "slice (file_bytes data f ino) (k * unat (bsize f) + p) m =
    slice (concat (map (\<lambda>j. case file_block data f ino j of None \<Rightarrow> [] | Some p \<Rightarrow> block_at data f (unat p)) [0..<file_blocks f ino])) (k * unat (bsize f) + p) m"
    using assms(3) by (simp add: file_bytes_def slice_def drop_take min_def)
  also have "\<dots> = slice (block_at data f (unat b)) p m" using concat_slice [OF file_block_length [OF assms(1)] k assms(4)] b(1) by simp
  finally show ?thesis using k b by blast
qed

context block_device
begin

lemma block_from_offset_ok:
  assumes "blocks_ok data f" and "file_ok data f ino" and "unat off < file_blocks f ino" and "file_block data f ino (unat off) = Some p"
  shows "\<exists>g. ext2_block_from_offset rd t f ino off = Some (p, g) \<and> blocks_ok data g \<and> same_fs f g"
proof -
  obtain s d tr where ptrs: "le32 ino 88 = Some s" "le32 ino 92 = Some d" "le32 ino 96 = Some tr"
    using assms(2) by (auto simp: file_ok_def le32_def)
  show ?thesis
  proof (cases "unat off < 12")
    case True
    then show ?thesis using assms(1,4) ptrs by (auto simp: ext2_block_from_offset_def file_block_def word_less_nat_alt)
  next
    case False
    have s: "valid_block data f s" "off < SINGLE f" using assms(2,3) False ptrs(1) by (auto simp: file_ok_def word_less_nat_alt)
    obtain g where g: "ext2_read_block rd t f s 0 = Some ((bsize f, block_at data f (unat s)), g)" "blocks_ok data g" "same_fs f g"
      using read_block_ok [OF assms(1) s(1), of 0 t] by auto
    have "unat (off - 12) = unat off - 12" using False by (simp add: unat_sub32 word_le_nat_alt)
    then have "le32 (block_at data f (unat s)) (4 * unat (off - 12)) = Some p" using assms(4) False ptrs(1) by (simp add: file_block_def)
    moreover have "s \<noteq> 0" using s(1) by (simp add: valid_block_def)
    ultimately show ?thesis using g False s(2) ptrs by (auto simp: ext2_block_from_offset_def ext2_resolve_single_def word_less_nat_alt)
  qed
qed

lemma contents_loop_ok:
  assumes "blocks_ok data f" and "file_ok data f ino" and "unat poff < unat (bsize f)"
    and "unat boff * unat (bsize f) + unat poff + unat sz \<le> file_size ino"
  shows "\<exists>g. contents_loop rd t f ino sz boff poff acc =
      Some (acc @ slice (file_bytes data f ino) (unat boff * unat (bsize f) + unat poff) (unat sz), g) \<and> blocks_ok data g \<and> same_fs f g"
  using assms
proof (induction "unat sz" arbitrary: f sz boff poff acc rule: less_induct)
  case less
  let ?bs = "unat (bsize f)" and ?file = "file_bytes data f ino"
  have bs: "0 < ?bs" "?bs < 2 ^ 32" using less(4) unat_less32 by auto
  show ?case
  proof (cases "sz = 0")
    case True
    then show ?thesis using less(2) by (subst contents_loop.simps) (simp add: slice_def)
  next
    case False
    then have sz: "0 < unat sz" using unat_eq_zero32 [of sz] by simp
    define m where "m = min (unat sz) (?bs - unat poff)"
    have m: "0 < m" "unat poff + m \<le> ?bs" "unat boff * ?bs + unat poff + m \<le> file_size ino" "m \<le> unat sz"
      using sz less(4,5) by (auto simp: m_def)
    obtain p where p: "unat boff < file_blocks f ino" "file_block data f ino (unat boff) = Some p" "valid_block data f p"
      "slice ?file (unat boff * ?bs + unat poff) m = slice (block_at data f (unat p)) (unat poff) m"
      using file_bytes_slice [OF less(3) bs(1) m(3,2,1)] by blast
    obtain g where g: "ext2_block_from_offset rd t f ino boff = Some (p, g)" "blocks_ok data g" "same_fs f g"
      using block_from_offset_ok [OF less(2,3) p(1,2)] by blast
    note vg = same_fs_views [OF g(3), of data]
    obtain w where w: "le32 ino 4 = Some w" "unat w = file_size ino" using less(3) by (auto simp: file_ok_def le32_def file_size_def)
    let ?ra = "(w div bsize f - boff + 1) * bsize f"
    have ra: "?bs dvd unat ?ra"
    proof -
      have "unat boff * ?bs \<le> unat w" using w(2) m(3) by linarith
      then have le: "unat boff \<le> unat w div ?bs" using bs(1) by (simp add: less_eq_div_iff_mult_less_eq)
      have q: "unat (w div bsize f) = unat w div ?bs" by (rule unat_div)
      have "unat w div ?bs * ?bs \<le> unat w" by (rule div_times_less_eq_dividend)
      have a: "unat (w div bsize f - boff + 1) = unat w div ?bs - unat boff + 1"
      proof -
        have d: "unat (w div bsize f - boff) = unat w div ?bs - unat boff" using le q by (simp add: unat_sub32 word_le_nat_alt)
        have "unat w + ?bs < 2 ^ 32" using less(3) w(2) by (simp add: file_ok_def)
        then have "unat (w div bsize f - boff) + 1 < 2 ^ 32" using div_le_dividend [of "unat w" ?bs] bs(1) unfolding d by linarith
        then show ?thesis using d unat_Suc32 by metis
      qed
      have "(unat w div ?bs - unat boff + 1) * ?bs \<le> unat w div ?bs * ?bs + ?bs" by (simp add: diff_mult_distrib)
      also have "\<dots> \<le> unat w + ?bs" by simp
      also have "\<dots> < 2 ^ 32" using less(3) w(2) by (simp add: file_ok_def)
      finally have "unat ?ra = (unat w div ?bs - unat boff + 1) * ?bs" using a by (simp add: unat_word_ariths)
      then show ?thesis by simp
    qed
    obtain h where h: "ext2_read_block rd t g p ?ra = Some ((bsize f, block_at data f (unat p)), h)" "blocks_ok data h" "same_fs g h"
      using read_block_ok [OF g(2), of p ?ra t] p(3) ra vg by auto
    have fh: "same_fs f h" using g(3) h(3) by (rule same_fs_trans)
    have pz: "p \<noteq> 0" using p(3) by (simp add: valid_block_def)
    have len: "length (block_at data f (unat p)) = ?bs" using file_block_length [OF less(3)] p(1,2) by auto
    have rest: "unat (bsize f - poff) = ?bs - unat poff" using less(4) by (simp add: unat_sub32 word_le_nat_alt)
    have le: "sz \<le> bsize f - poff \<longleftrightarrow> unat sz \<le> ?bs - unat poff" by (simp add: word_le_nat_alt rest)
    have step: "contents_loop rd t f ino sz boff poff acc =
      (if unat sz \<le> ?bs - unat poff then Some (acc @ slice ?file (unat boff * ?bs + unat poff) m, h)
       else contents_loop rd t h ino (sz - (bsize f - poff)) (boff + 1) 0 (acc @ slice ?file (unat boff * ?bs + unat poff) m))"
    proof (cases "unat sz \<le> ?bs - unat poff")
      case True
      then have "m = unat sz" by (simp add: m_def)
      then show ?thesis using False g(1) pz w(1) h(1) True m(2) len p(4) le
        by (subst contents_loop.simps) (simp add: fetch_def)
    next
      case b: False
      then have "m = ?bs - unat poff" by (simp add: m_def)
      then show ?thesis using False g(1) pz w(1) h(1) b m(2) len p(4) le rest
        by (subst contents_loop.simps) (simp add: fetch_def)
    qed
    show ?thesis
    proof (cases "unat sz \<le> ?bs - unat poff")
      case True
      then have "m = unat sz" by (simp add: m_def)
      then show ?thesis using step True h(2) fh by simp
    next
      case big: False
      then have mm: "m = ?bs - unat poff" by (simp add: m_def)
      have sz': "unat (sz - (bsize f - poff)) = unat sz - m" using big rest mm by (simp add: unat_sub32 word_le_nat_alt)
      have wb: "unat (boff + 1) = unat boff + 1"
      proof -
        have "unat boff * 1 \<le> unat boff * ?bs" using bs(1) by (intro mult_le_mono2) simp
        moreover have "file_size ino + ?bs < 2 ^ 32" using less(3) by (simp add: file_ok_def)
        ultimately have "unat boff + 1 < 2 ^ 32" using less(5) bs(1) by linarith
        then show ?thesis by (rule unat_Suc32)
      qed
      have next_off: "unat (boff + 1) * ?bs = unat boff * ?bs + unat poff + m" using wb mm less(4) by simp
      have vh: "bsize h = bsize f" "file_bytes data h = file_bytes data f" "file_ok data h ino"
        using fh same_fs_views [OF fh, of data] file_views [OF fh, of data] less(3) by auto
      have "\<exists>k. contents_loop rd t h ino (sz - (bsize f - poff)) (boff + 1) 0 (acc @ slice ?file (unat boff * ?bs + unat poff) m) =
        Some ((acc @ slice ?file (unat boff * ?bs + unat poff) m) @ slice (file_bytes data h ino) (unat (boff + 1) * unat (bsize h) + unat (0 :: u32)) (unat (sz - (bsize f - poff))), k) \<and>
        blocks_ok data k \<and> same_fs h k"
        using less(5) m(1,4) sz' bs(1) vh next_off by (intro less(1) h(2)) simp_all
      then obtain k where k: "contents_loop rd t h ino (sz - (bsize f - poff)) (boff + 1) 0 (acc @ slice ?file (unat boff * ?bs + unat poff) m) =
        Some (acc @ slice ?file (unat boff * ?bs + unat poff) m @ slice ?file (unat boff * ?bs + unat poff + m) (unat sz - m), k)"
        "blocks_ok data k" "same_fs h k" using vh sz' next_off by auto
      have "slice ?file (unat boff * ?bs + unat poff) (unat sz) =
        slice ?file (unat boff * ?bs + unat poff) m @ slice ?file (unat boff * ?bs + unat poff + m) (unat sz - m)"
        using slice_append [of ?file "unat boff * ?bs + unat poff" m "unat sz - m"] m(4) by simp
      then show ?thesis using step big k same_fs_trans [OF fh k(3)] by auto
    qed
  qed
qed

lemma read_contents_ok:
  assumes "blocks_ok data f" and "file_ok data f ino" and "unat off + unat sz < 2 ^ 32"
  shows "\<exists>g. ext2_read_inode_contents rd t f ino off sz = Some (slice (file_bytes data f ino) (unat off) (unat sz), g) \<and> blocks_ok data g \<and> same_fs f g"
proof -
  have geo: "geometry f" using assms(1) by (simp add: blocks_ok_def)
  then have bs: "0 < unat (bsize f)" "bsize f \<noteq> 0" using geometry_bounds by fastforce+
  obtain w where w: "le32 ino 4 = Some w" "unat w = file_size ino" using assms(2) by (auto simp: file_ok_def le32_def file_size_def)
  have len: "length (file_bytes data f ino) = unat w" using length_file_bytes [OF assms(2) geo] w(2) by simp
  show ?thesis
  proof (cases "off \<ge> w")
    case True
    then show ?thesis using w(1) assms(1) len by (auto simp: ext2_read_inode_contents_def slice_def word_le_nat_alt)
  next
    case False
    define n where "n = (if off + sz \<ge> w then w - off else sz)"
    have lt: "unat off < unat w" using False by (simp add: word_le_nat_alt)
    have n: "unat n = min (unat sz) (unat w - unat off)"
      using assms(3) lt by (auto simp: n_def word_le_nat_alt unat_add32 unat_sub32)
    have split: "unat (off div bsize f) * unat (bsize f) + unat (off mod bsize f) = unat off" by (simp add: unat_div unat_mod)
    have "unat off + unat n \<le> file_size ino" using n lt w(2) by linarith
    moreover have "unat (off mod bsize f) < unat (bsize f)" using bs by (simp add: unat_mod)
    ultimately obtain g where g: "contents_loop rd t f ino n (off div bsize f) (off mod bsize f) [] = Some (slice (file_bytes data f ino) (unat off) (unat n), g)"
      "blocks_ok data g" "same_fs f g"
      using contents_loop_ok [OF assms(1,2), of "off mod bsize f" "off div bsize f" n t "[]"] split by auto
    have "slice (file_bytes data f ino) (unat off) (unat n) = slice (file_bytes data f ino) (unat off) (unat sz)"
      using n len by (simp add: slice_def min_def)
    then show ?thesis using g False w(1) bs(2) by (auto simp: ext2_read_inode_contents_def n_def)
  qed
qed

end

section \<open>Inodes\<close>

text \<open>
  The inode on the disk, by the format of the file system and on the bytes of the disk alone. Inode
  \<open>n\<close> is the entry \<open>(n - 1) mod ipg\<close> of the table of group \<open>(n - 1) div ipg\<close>; the tables are found
  through the group descriptors of 32 bytes each, which start with the block behind the one of the
  superblock (byte 1024). There is an inode when its descriptor lies in a whole block of the disk
  that the mount has read, the size of an inode divides that of a block, and the table entry is
  in a block the superblock counts. A cached inode differs from the one on the disk in the time of
  the last access only.
\<close>

definition desc_start :: "ext2_fs \<Rightarrow> nat" where
  "desc_start f = 1024 div unat (bsize f) + 1"

definition desc_here :: "u8 list \<Rightarrow> ext2_fs \<Rightarrow> nat \<Rightarrow> bool" where
  "desc_here data f i \<longleftrightarrow> (i + 1) * unat (bsize f) \<le> length (bgds f) \<and> on_disk data f (desc_start f + i)"

definition inode_position :: "u8 list \<Rightarrow> ext2_fs \<Rightarrow> u32 \<Rightarrow> nat option" where
  "inode_position data f n =
     (let bs = unat (bsize f); isz = unat (inode_size (sb f)); ipg = unat (inodes_per_group (sb f));
          group = (unat n - 1) div ipg; index = (unat n - 1) mod ipg
      in if n = 0 \<or> ipg = 0 \<or> isz = 0 \<or> \<not> isz dvd bs \<or> \<not> desc_here data f (32 * group div bs) then None
         else do {
           inode_table \<leftarrow> le32 data (desc_start f * bs + 32 * group + 8);
           Some (unat inode_table * bs + index * isz) })"

definition disk_inode :: "u8 list \<Rightarrow> ext2_fs \<Rightarrow> u32 \<Rightarrow> u8 list option" where
  "disk_inode data f n = do {
     pos \<leftarrow> inode_position data f n;
     if pos < 2 ^ 32 \<and> valid_block data f (of_nat (pos div unat (bsize f))) then fetch data pos (unat (inode_size (sb f))) else None }"

text \<open>The descriptors in memory are those of the disk.\<close>

definition desc_ok :: "u8 list \<Rightarrow> ext2_fs \<Rightarrow> bool" where
  "desc_ok data f \<longleftrightarrow> (\<forall>i. desc_here data f i \<longrightarrow> slice (bgds f) (i * unat (bsize f)) (unat (bsize f)) = block_at data f (desc_start f + i))"

text \<open>The arithmetic of the code on 32 bits leads to the same place.\<close>

lemma desc_le32:
  assumes "desc_ok data f" and "geometry f" and "desc_here data f (32 * g div unat (bsize f))"
  shows "le32 (bgds f) (32 * g + 8) = le32 data (desc_start f * unat (bsize f) + 32 * g + 8)"
proof -
  let ?bs = "unat (bsize f)" and ?i = "32 * g div unat (bsize f)" and ?o = "32 * g mod unat (bsize f)"
  obtain k where k: "10 \<le> k" "?bs = 2 ^ k" using assms(2) by (auto simp: geometry_def)
  have "(2 :: nat) ^ 5 dvd 2 ^ k" using k(1) by (intro le_imp_power_dvd) simp
  then have bs: "32 dvd ?bs" "0 < ?bs" using k(2) by simp_all
  then have "?o < ?bs" "32 dvd ?o" by (simp_all add: dvd_mod)
  then have o: "?o + 32 \<le> ?bs" using bs(1) by (auto elim!: dvdE)
  have in_b: "?i * ?bs + ?bs \<le> length (bgds f)" and in_d: "(desc_start f + ?i) * ?bs + ?bs \<le> length data"
    using assms(3) by (simp_all add: desc_here_def on_disk_def algebra_simps)
  have e: "32 * g = ?i * ?bs + ?o" by simp
  have "le32 (bgds f) (?i * ?bs + (?o + 8)) = le32 (slice (bgds f) (?i * ?bs) ?bs) (?o + 8)"
    using in_b o by (intro le32_slice [symmetric]) simp_all
  also have "\<dots> = le32 (block_at data f (desc_start f + ?i)) (?o + 8)" using assms(1,3) by (simp add: desc_ok_def)
  also have "\<dots> = le32 data ((desc_start f + ?i) * ?bs + (?o + 8))"
    unfolding block_at_def using in_d o by (intro le32_slice) simp_all
  finally have "le32 (bgds f) (?i * ?bs + ?o + 8) = le32 data (desc_start f * ?bs + (?i * ?bs + ?o) + 8)"
    by (simp only: add_mult_distrib add.assoc)
  then show ?thesis unfolding e [symmetric] by (simp only: add.assoc)
qed

lemma entry_in_block:
  fixes bs isz x t :: nat
  assumes "isz dvd bs" and "0 < isz" and "0 < bs"
  shows "(x * isz div bs) * (bs div isz) \<le> x" "(x - (x * isz div bs) * (bs div isz)) * isz = x * isz mod bs" "x * isz mod bs + isz \<le> bs"
    "(t * bs + x * isz) div bs = t + x * isz div bs" "t * bs + x * isz = (t + x * isz div bs) * bs + x * isz mod bs"
proof -
  obtain q where "bs = isz * q" using assms(1) by auto
  then have q: "bs = q * isz" by (simp only: mult.commute)
  have "q * isz div isz = q" using assms(2) by simp
  moreover have "x * isz div (q * isz) = x div q" using assms(2) by (simp only: div_mult_mult2 neq0_conv)
  ultimately have d: "bs div isz = q" "0 < q" "x * isz div bs = x div q" "x * isz mod bs = (x mod q) * isz"
    using assms(3) unfolding q by (simp_all only: mult_mod_left nat_0_less_mult_iff)
  show "(x * isz div bs) * (bs div isz) \<le> x" unfolding d by simp
  show "(x - (x * isz div bs) * (bs div isz)) * isz = x * isz mod bs" unfolding d by (simp only: minus_div_mult_eq_mod)
  have "(x mod q + 1) * isz \<le> q * isz" using d(2) by (intro mult_le_mono1) (simp add: Suc_le_eq)
  then show "x * isz mod bs + isz \<le> bs" unfolding d unfolding q by (simp only: add_mult_distrib mult_1)
  show "(t * bs + x * isz) div bs = t + x * isz div bs" using assms(3) by simp
  show "t * bs + x * isz = (t + x * isz div bs) * bs + x * isz mod bs" by (simp add: add_mult_distrib)
qed

lemma inode_place_ok:
  assumes "geometry f" and "desc_ok data f" and "disk_inode data f n = Some y"
  shows "\<exists>target inner. inode_place f n = Some (target, inner) \<and> valid_block data f target \<and>
    fetch (block_at data f (unat target)) (unat inner) (unat (inode_size (sb f))) = Some y"
proof -
  let ?bs = "unat (bsize f)" and ?isz = "unat (inode_size (sb f))" and ?ipg = "unat (inodes_per_group (sb f))"
  let ?g = "(unat n - 1) div ?ipg" and ?x = "(unat n - 1) mod ?ipg"
  obtain tab pos where t: "n \<noteq> 0" "?ipg \<noteq> 0" "?isz \<noteq> 0" "?isz dvd ?bs" "desc_here data f (32 * ?g div ?bs)"
    "le32 data (desc_start f * ?bs + 32 * ?g + 8) = Some tab" "pos = unat tab * ?bs + ?x * ?isz" "pos < 2 ^ 32"
    "valid_block data f (of_nat (pos div ?bs))" "fetch data pos ?isz = Some y"
    using assms(3) by (auto simp: disk_inode_def inode_position_def Let_def split: Option.bind_splits if_splits)
  have bs: "0 < ?bs" using geometry_bounds [OF assms(1)] by linarith
  have isz: "unat (ucast (inode_size (sb f)) :: u32) = ?isz" 
    using unsigned_less [of "inode_size (sb f)", where ?'a = nat] by (simp add: unsigned_ucast_eq take_bit_nat_eq_self)
  note en = entry_in_block [OF t(4) neq0_conv [THEN iffD1, OF t(3)] bs, where x = ?x]
  have n1: "unat (n - 1) = unat n - 1" using t(1) by (simp add: unat_minus_one)
  have g: "unat ((n - 1) div inodes_per_group (sb f)) = ?g" "unat ((n - 1) mod inodes_per_group (sb f)) = ?x" by (simp_all add: unat_div unat_mod n1)
  define ix where "ix = (n - 1) mod inodes_per_group (sb f)"
  have ux: "unat ix = ?x" using g(2) by (simp add: ix_def)
  have xi: "?x * ?isz < 2 ^ 32" using t(7,8) by linarith
  have m: "unat (ix * ucast (inode_size (sb f))) = ?x * ?isz" using xi by (simp add: unat_word_ariths ux isz)
  define bo where "bo = ix * ucast (inode_size (sb f)) div bsize f"
  have ubo: "unat bo = ?x * ?isz div ?bs" by (simp add: bo_def unat_div m)
  define inn where "inn = ix - bo * (bsize f div ucast (inode_size (sb f)))"
  have ub: "unat (bo * (bsize f div ucast (inode_size (sb f)))) = (?x * ?isz div ?bs) * (?bs div ?isz)"
    
  proof (subst unat_mult32)
    have q: "unat (bsize f div ucast (inode_size (sb f))) = ?bs div ?isz" by (simp add: unat_div isz)
    show "unat bo * unat (bsize f div ucast (inode_size (sb f))) < 2 ^ 32"
      unfolding q ubo using en(1) unsigned_less [of ix, where ?'a = nat] unfolding ux by simp
    show "unat bo * unat (bsize f div ucast (inode_size (sb f))) = (?x * ?isz div ?bs) * (?bs div ?isz)" unfolding q ubo ..
  qed
  have "unat inn = ?x - (?x * ?isz div ?bs) * (?bs div ?isz)" unfolding inn_def using en(1) ub ux by (simp add: unat_sub32 word_le_nat_alt)
  then have "unat inn * ?isz = ?x * ?isz mod ?bs" using en(2) by simp
  moreover have "?x * ?isz mod ?bs < 2 ^ 32" 
    using mod_less_divisor [OF bs, of "?x * ?isz"] unsigned_less [of "bsize f", where ?'a = nat] by simp
  ultimately have ui: "unat (inn * ucast (inode_size (sb f))) = ?x * ?isz mod ?bs" by (simp add: unat_word_ariths isz)
  have pd: "pos div ?bs = unat tab + ?x * ?isz div ?bs" using en(4) [where t = "unat tab"] t(7) by simp
  have "pos div ?bs < 2 ^ 32" using t(8) by (rule order_le_less_trans [OF div_le_dividend])
  then have ut: "unat (tab + bo) = pos div ?bs" "tab + bo = of_nat (pos div ?bs)"
    unfolding pd ubo [symmetric] by (simp_all add: unat_add32)
  have pl: "inode_place f n = Some (tab + bo, inn * ucast (inode_size (sb f)))"
    using t(2,3) bs desc_le32 [OF assms(2,1) t(5)] t(6) isz
    by (auto simp: inode_place_def Let_def g(1) ix_def [symmetric] bo_def [symmetric] inn_def [symmetric] unat_eq_0 [symmetric])
  have in_disk: "(pos div ?bs) * ?bs + ?bs \<le> length data" using t(9) ut by (simp add: valid_block_def on_disk_def algebra_simps)
  have "pos = (pos div ?bs) * ?bs + ?x * ?isz mod ?bs" using en(5) [where t = "unat tab"] t(7) unfolding pd by simp
  then have "y = slice (block_at data f (pos div ?bs)) (?x * ?isz mod ?bs) ?isz"
    using t(10) en(3) by (auto simp: fetch_def block_at_def slice_slice split: if_splits)
  moreover have "length (block_at data f (pos div ?bs)) = ?bs" using in_disk by (simp add: block_at_def length_slice)
  ultimately have "fetch (block_at data f (unat (tab + bo))) (unat (inn * ucast (inode_size (sb f)))) ?isz = Some y"
    unfolding ut(1) ui using en(3) by (simp add: fetch_def)
  then show ?thesis using pl t(9) unfolding ut(2) [symmetric] by blast
qed

definition same_inode :: "u8 list \<Rightarrow> u8 list \<Rightarrow> bool" where
  "same_inode x y \<longleftrightarrow> length x = length y \<and> (\<forall>j < length y. j < 8 \<or> 12 \<le> j \<longrightarrow> x ! j = y ! j)"

definition ext2_ok :: "u8 list \<Rightarrow> ext2_fs \<Rightarrow> bool" where
  "ext2_ok data f \<longleftrightarrow> blocks_ok data f \<and> desc_ok data f \<and> 128 \<le> unat (inode_size (sb f)) \<and> length (inode_cache f) \<le> 256 \<and>
     (\<forall>(n, x) \<in> set (inode_cache f). \<exists>y. disk_inode data f n = Some y \<and> same_inode x y)"

definition same_disk :: "ext2_fs \<Rightarrow> ext2_fs \<Rightarrow> bool" where
  "same_disk f g \<longleftrightarrow> sb g = sb f \<and> bgds g = bgds f"

lemma same_disk_refl [simp]: "same_disk f f"
  by (simp add: same_disk_def)

lemma same_disk_trans: "same_disk f g \<Longrightarrow> same_disk g h \<Longrightarrow> same_disk f h"
  by (simp add: same_disk_def)

lemma same_fs_disk: "same_fs f g \<Longrightarrow> same_disk f g"
  by (simp add: same_fs_def same_disk_def)

lemma disk_views:
  "same_disk f g \<Longrightarrow> disk_inode data g = disk_inode data f \<and> file_ok data g = file_ok data f \<and> file_bytes data g = file_bytes data f \<and>
     desc_ok data g = desc_ok data f"
proof -
  assume s: "same_disk f g"
  then have e: "sb g = sb f" "bgds g = bgds f" by (simp_all add: same_disk_def)
  have h: "desc_start g = desc_start f" "desc_here data g = desc_here data f" using sb_views [OF e(1), of data]
    by (simp_all add: desc_start_def desc_here_def fun_eq_iff e)
  then have "inode_position data g = inode_position data f" by (intro ext) (simp only: inode_position_def e h)
  then have "disk_inode data g = disk_inode data f"
    using sb_views [OF e(1), of data] by (intro ext) (simp add: disk_inode_def e(1) cong: if_cong)
  moreover have "desc_ok data g = desc_ok data f" using sb_views [OF e(1), of data] by (simp add: desc_ok_def h e)
  ultimately show ?thesis using file_views_sb [OF e(1), of data] by blast
qed

lemma same_inode_refl [simp]: "same_inode x x"
  by (simp add: same_inode_def)

lemma same_inode_put: "same_inode x y \<Longrightarrow> put_le32 x 8 t = Some z \<Longrightarrow> same_inode z y"
  using length_put_le32 [of x 8 t z] by (auto simp: same_inode_def put_le32_other)

lemma same_inode_le32: "same_inode x y \<Longrightarrow> j + 4 \<le> 8 \<or> 12 \<le> j \<Longrightarrow> le32 x j = le32 y j"
  by (auto simp: same_inode_def le32_def)

lemma same_inode_le16: "same_inode x y \<Longrightarrow> j + 2 \<le> 8 \<Longrightarrow> le16 x j = le16 y j"
  by (auto simp: same_inode_def le16_def)

lemma same_inode_file: "same_inode x y \<Longrightarrow> file_ok data f x = file_ok data f y \<and> file_bytes data f x = file_bytes data f y \<and> file_size x = file_size y"
proof -
  assume s: "same_inode x y"
  have "file_size x = file_size y" using same_inode_le32 [OF s, of 4] by (simp add: file_size_def)
  moreover have "file_block data f x = file_block data f y" using same_inode_le32 [OF s] by (auto simp: file_block_def fun_eq_iff)
  moreover have "le32 x 88 = le32 y 88" "length x = length y" using same_inode_le32 [OF s, of 88] s by (simp_all add: same_inode_def)
  ultimately show ?thesis by (simp add: file_ok_def file_bytes_def file_blocks_def)
qed

lemma disk_inode_length: "disk_inode data f n = Some y \<Longrightarrow> length y = unat (inode_size (sb f))"
  by (auto simp: disk_inode_def fetch_def length_slice split: Option.bind_splits if_splits)

lemma put_access_time: "12 \<le> length x \<Longrightarrow> \<exists>z. put_le32 x 8 t = Some z"
  by (simp add: put_le32_def)

context block_device
begin

lemma read_inode_ok:
  assumes "ext2_ok data f" and "disk_inode data f n = Some y"
  shows "\<exists>x g. ext2_read_inode rd t f n = Some (Some x, g) \<and> same_inode x y \<and> ext2_ok data g \<and> same_disk f g"
proof -
  have len: "length y = unat (inode_size (sb f))" "128 \<le> length y" using disk_inode_length [OF assms(2)] assms(1) by (simp_all add: ext2_ok_def)
  have nz: "n \<noteq> 0" using assms(2) by (auto simp: disk_inode_def inode_position_def)
  show ?thesis
  proof (cases "cache_find n (inode_cache f)")
    case (Some e)
    obtain x c where e: "e = (x, c)" by (cases e)
    have m: "(n, x) \<in> set (inode_cache f)" "set c \<subseteq> set (inode_cache f)" "length (inode_cache f) = Suc (length c)"
      using cache_find_some [of n "inode_cache f" x c] Some e by auto
    have xy: "same_inode x y" using m(1) assms by (auto simp: ext2_ok_def)
    have "12 \<le> length x" using xy len by (simp add: same_inode_def)
    then obtain z where z: "put_le32 x 8 t = Some z" using put_access_time by blast
    have zy: "same_inode z y" using xy z by (rule same_inode_put)
    let ?g = "f\<lparr>inode_cache := (n, z) # c\<rparr>"
    have d: "same_disk f ?g" by (simp add: same_disk_def)
    have "blocks_ok data ?g" using assms(1) sb_views [of ?g f data] by (simp add: ext2_ok_def blocks_ok_def)
    then have "ext2_ok data ?g" using assms m zy disk_views [OF d, of data] by (auto simp: ext2_ok_def)
    then show ?thesis using Some e z zy d nz by (auto simp: ext2_read_inode_def ext2_try_get_cached_inode_def)
  next
    case None
    obtain target inner where tg: "inode_place f n = Some (target, inner)" "valid_block data f target"
      "fetch (block_at data f (unat target)) (unat inner) (unat (inode_size (sb f))) = Some y"
      using inode_place_ok [OF _ _ assms(2)] assms(1) by (auto simp: ext2_ok_def blocks_ok_def)
    have "blocks_ok data f" using assms(1) by (simp add: ext2_ok_def)
    then obtain g where g: "ext2_read_block rd t f target 0 = Some ((bsize f, block_at data f (unat target)), g)" "blocks_ok data g" "same_fs f g"
      using read_block_ok [of f target 0 t] tg(2) by auto
    obtain z where z: "put_le32 y 8 t = Some z" using put_access_time [of y t] len by auto
    have zy: "same_inode z y" using same_inode_refl z by (rule same_inode_put)
    let ?h = "g\<lparr>inode_cache := cache_push 256 (n, z) (inode_cache g)\<rparr>"
    have d: "same_disk f ?h" using g(3) by (simp add: same_disk_def same_fs_def)
    have "blocks_ok data ?h" using g(2) sb_views [of ?h g data] by (simp add: blocks_ok_def)
    moreover have "\<forall>(m, x) \<in> set (inode_cache ?h). \<exists>y. disk_inode data ?h m = Some y \<and> same_inode x y"
    proof
      fix e assume "e \<in> set (inode_cache ?h)"
      then have "e = (n, z) \<or> e \<in> set (inode_cache f)" using cache_push_set [of 256 "(n, z)" "inode_cache g"] g(3) by (auto simp: same_fs_def)
      then show "case e of (m, x) \<Rightarrow> \<exists>y. disk_inode data ?h m = Some y \<and> same_inode x y"
        using assms zy disk_views [OF d, of data] by (auto simp: ext2_ok_def)
    qed
    moreover have "length (inode_cache ?h) \<le> 256" using cache_push_length [of "inode_cache g" 256] assms(1) g(3) by (simp add: ext2_ok_def same_fs_def)
    ultimately have "ext2_ok data ?h" using assms(1) d disk_views [OF d, of data] by (simp add: ext2_ok_def same_disk_def)
    then show ?thesis using None nz tg g(1) z d by (auto simp: ext2_read_inode_def ext2_try_get_cached_inode_def ext2_cache_inode_def)
  qed
qed

lemma contents_of_inode:
  assumes "ext2_ok data f" and "file_ok data f y" and "same_inode x y" and "unat off + unat sz < 2 ^ 32"
  shows "\<exists>g. ext2_read_inode_contents rd t f x off sz = Some (slice (file_bytes data f y) (unat off) (unat sz), g) \<and> ext2_ok data g \<and> same_disk f g"
proof -
  note eq = same_inode_file [OF assms(3), of data f]
  obtain g where g: "ext2_read_inode_contents rd t f x off sz = Some (slice (file_bytes data f x) (unat off) (unat sz), g)" "blocks_ok data g" "same_fs f g"
    using read_contents_ok [of f x off sz t] assms eq by (auto simp: ext2_ok_def)
  have "ext2_ok data g" using assms(1) g(2,3) disk_views [OF same_fs_disk [OF g(3)], of data] by (simp add: ext2_ok_def same_fs_def)
  then show ?thesis using g same_fs_disk eq by auto
qed

lemma ext2_read_ok:
  assumes "ext2_ok data f" and "disk_inode data f n = Some y" and "file_ok data f y" and "unat off + unat sz < 2 ^ 32"
  shows "\<exists>g. ext2_read rd t f n off sz = Some (Some (slice (file_bytes data f y) (unat off) (unat sz)), g) \<and> ext2_ok data g \<and> same_disk f g"
proof (cases "sz = 0")
  case True
  then show ?thesis using assms(1) by (simp add: ext2_read_def slice_def)
next
  case False
  obtain x g where g: "ext2_read_inode rd t f n = Some (Some x, g)" "same_inode x y" "ext2_ok data g" "same_disk f g"
    using read_inode_ok [OF assms(1,2)] by blast
  have "\<exists>h. ext2_read_inode_contents rd t g x off sz = Some (slice (file_bytes data g y) (unat off) (unat sz), h) \<and> ext2_ok data h \<and> same_disk g h"
    using assms(3,4) disk_views [OF g(4), of data] by (intro contents_of_inode g(2,3)) auto
  then show ?thesis using g False disk_views [OF g(4), of data] same_disk_trans by (fastforce simp: ext2_read_def)
qed

end

section \<open>Directories\<close>

text \<open>The entries of a directory, read off its bytes; deleted entries have inode 0.\<close>

function dir_list :: "u8 list \<Rightarrow> dirent list option" where
  "dir_list b =
     (if b = [] then Some []
      else do {
        i \<leftarrow> le32 b 0;
        sz \<leftarrow> le16 b 4;
        if sz = 0 \<or> unat sz > length b then None
        else do {
          rest \<leftarrow> dir_list (drop (unat sz) b);
          if i = 0 then Some rest else do { d \<leftarrow> dirent_of b; Some (d # rest) } } })"
  by pat_completeness auto
termination
  by (relation "measure length") (auto simp: unat_gt_0)

declare dir_list.simps [simp del]

definition directory :: "u8 list \<Rightarrow> ext2_fs \<Rightarrow> u32 \<Rightarrow> dirent list option" where
  "directory data f n = do {
     y \<leftarrow> disk_inode data f n;
     perms \<leftarrow> le16 y 0;
     if perms AND 0x4000 = 0 \<or> \<not> file_ok data f y then None else dir_list (file_bytes data f y) }"

lemma le_prefix:
  "le32 b 0 = Some i \<Longrightarrow> le32 (take 263 b @ s) 0 = Some i" "le16 b 4 = Some j \<Longrightarrow> le16 (take 263 b @ s) 4 = Some j"
  by (auto simp: le32_def le16_def nth_append split: if_splits)

lemma fetch_prefix: "fetch b off n = Some x \<Longrightarrow> off + n \<le> 263 \<Longrightarrow> fetch (take 263 b @ s) off n = Some x"
  by (auto simp: fetch_def slice_def drop_take min_def split: if_splits)

lemma dirent_prefix:
  assumes "dirent_of b = Some d"
  shows "dirent_of (take 263 b @ s) = Some d"
proof -
  obtain i len name where f: "le32 b 0 = Some i" "fetch b 6 1 = Some len" "fetch b 8 (unat (hd len)) = Some name"
    using assms by (auto simp: dirent_of_def split: Option.bind_splits)
  have "unat (hd len) < 2 ^ LENGTH(8)" by (rule unsigned_less)
  then have "unat (hd len) \<le> 255" by simp
  then show ?thesis using assms f le_prefix(1) [OF f(1), of s] fetch_prefix [OF f(2), of s] fetch_prefix [OF f(3), of s] by (simp add: dirent_of_def)
qed

lemma dir_list_length: "dir_list b = Some ds \<Longrightarrow> length ds \<le> length b"
proof (induction b arbitrary: ds rule: dir_list.induct)
  case (1 b)
  show ?case
  proof (cases "b = []")
    case True
    then show ?thesis using 1(2) by (simp add: dir_list.simps)
  next
    case False
    then obtain i sz rest where r: "le32 b 0 = Some i" "le16 b 4 = Some sz" "sz \<noteq> 0" "\<not> unat sz > length b" "dir_list (drop (unat sz) b) = Some rest"
      "ds = rest \<or> (\<exists>d. ds = d # rest)"
      using 1(2) by (subst (asm) dir_list.simps) (auto split: Option.bind_splits if_splits)
    have "length rest \<le> length (drop (unat sz) b)" using 1(1) False r by blast
    moreover have "0 < unat sz" using r(3) by (simp add: unat_gt_0)
    ultimately show ?thesis using r(4,6) by auto
  qed
qed

context block_device
begin

lemma readdir_loop_ok:
  assumes "ext2_ok data f" and "file_ok data f y" and "same_inode x y" and "dir_list (drop (unat off) (file_bytes data f y)) = Some ds"
    and "unat off \<le> file_size y" and "cur \<le> index"
  shows "\<exists>r g. readdir_loop rd t f x index cur off buf = Some (r, g) \<and> ext2_ok data g \<and> same_disk f g \<and>
    (if unat (index - cur) < length ds then \<exists>b. r = Some b \<and> dirent_of b = Some (ds ! unat (index - cur)) else r = None)"
  using assms
proof (induction "length (drop (unat off) (file_bytes data f y))" arbitrary: f off cur buf ds rule: less_induct)
  case less
  let ?file = "file_bytes data f y" and ?b = "drop (unat off) (file_bytes data f y)"
  have geo: "geometry f" using less(2) by (simp add: ext2_ok_def blocks_ok_def)
  have len: "length ?file = file_size y" using length_file_bytes [OF less(3) geo] .
  obtain w where w: "le32 x 4 = Some w" "unat w = file_size y"
    using same_inode_le32 [OF less(4), of 4] less(3) by (auto simp: file_ok_def le32_def file_size_def)
  show ?case
  proof (cases "off \<ge> w")
    case True
    then have "ds = []" using less(5) w(2) len by (simp add: word_le_nat_alt dir_list.simps)
    then show ?thesis using True w(1) less(2) by (subst readdir_loop.simps) simp
  next
    case False
    then have ne: "?b \<noteq> []" using w(2) len by (simp add: word_le_nat_alt)
    obtain i sz rest where r: "le32 ?b 0 = Some i" "le16 ?b 4 = Some sz" "sz \<noteq> 0" "unat sz \<le> length ?b"
      "dir_list (drop (unat sz) ?b) = Some rest" "i = 0 \<and> ds = rest \<or> i \<noteq> 0 \<and> (\<exists>d. dirent_of ?b = Some d \<and> ds = d # rest)"
      using less(5) ne by (subst (asm) dir_list.simps) (auto split: Option.bind_splits if_splits)
    have size: "file_size y + 1024 < 2 ^ 32" using less(3) geometry_bounds [OF geo] by (auto simp: file_ok_def)
    obtain g where g: "ext2_read_inode_contents rd t f x off 263 = Some (take 263 ?b, g)" "ext2_ok data g" "same_disk f g"
      using contents_of_inode [OF less(2,3,4), of off 263 t] less(6) size by (auto simp: slice_def)
    define buf1 where "buf1 = take 263 ?b @ drop (length (take 263 ?b)) buf"
    have fields: "le32 buf1 0 = Some i" "le16 buf1 4 = Some sz" unfolding buf1_def using le_prefix r(1,2) by blast+
    let ?cur = "if i \<noteq> 0 then cur + 1 else cur" and ?off = "off + ucast sz"
    have step: "readdir_loop rd t f x index cur off buf =
      (if i \<noteq> 0 \<and> index = cur then Some (Some buf1, g) else readdir_loop rd t g x index ?cur ?off buf1)"
      using False w(1) g(1) fields by (subst readdir_loop.simps) (simp add: buf1_def)
    show ?thesis
    proof (cases "i \<noteq> 0 \<and> index = cur")
      case True
      then obtain d where d: "dirent_of ?b = Some d" "ds = d # rest" using r(6) by auto
      then have "dirent_of buf1 = Some d" unfolding buf1_def using dirent_prefix by blast
      then show ?thesis using True step g d(2) by auto
    next
      case cont: False
      have off1: "unat ?off = unat off + unat sz"
      proof -
        have "unat sz < 2 ^ 16" using unsigned_less [of sz] by simp
        then have u: "unat (ucast sz :: u32) = unat sz" by (simp add: unsigned_ucast_eq take_bit_nat_eq_self)
        have "unat off + unat sz < 2 ^ 32" using r(4) len less(6) size by simp
        then show ?thesis using u by (simp add: unat_add32)
      qed
      have v: "file_bytes data g y = ?file" "file_ok data g y" using disk_views [OF g(3), of data] less(3) by auto
      have szpos: "0 < unat sz" using r(3) by (simp add: unat_gt_0)
      have cur: "?cur \<le> index" "unat (index - cur) = (if i \<noteq> 0 then unat (index - ?cur) + 1 else unat (index - ?cur))"
      proof -
        have lt: "cur < index" if "i \<noteq> 0" using cont less(7) that by auto
        then have "unat (cur + 1) = unat cur + 1" if "i \<noteq> 0" using that unat_less32 [of index] by (intro unat_Suc32) (auto simp: word_less_nat_alt)
        then show "?cur \<le> index" "unat (index - cur) = (if i \<noteq> 0 then unat (index - ?cur) + 1 else unat (index - ?cur))"
          using lt less(7) by (auto simp: word_less_nat_alt word_le_nat_alt unat_sub32)
      qed
      have "\<exists>r h. readdir_loop rd t g x index ?cur ?off buf1 = Some (r, h) \<and> ext2_ok data h \<and> same_disk g h \<and>
        (if unat (index - ?cur) < length rest then \<exists>b. r = Some b \<and> dirent_of b = Some (rest ! unat (index - ?cur)) else r = None)"
        using r(4,5) len szpos off1 v less(6) by (intro less(1) g(2) less(4) cur(1)) (auto simp: add.commute)
      then obtain q h where q: "readdir_loop rd t g x index ?cur ?off buf1 = Some (q, h)" "ext2_ok data h" "same_disk g h"
        "if unat (index - ?cur) < length rest then \<exists>b. q = Some b \<and> dirent_of b = Some (rest ! unat (index - ?cur)) else q = None" by blast
      have "if unat (index - cur) < length ds then \<exists>b. q = Some b \<and> dirent_of b = Some (ds ! unat (index - cur)) else q = None"
      proof (cases "i = 0")
        case True
        then show ?thesis using q(4) r(6) by (simp cong: if_cong)
      next
        case False
        then obtain d where d: "ds = d # rest" using r(6) by auto
        have "unat (index - cur) = Suc (unat (index - ?cur))" using cur(2) False by simp
        then show ?thesis using q(4) unfolding d by (simp only: length_Cons nth_Cons_Suc Suc_less_eq)
      qed
      then show ?thesis using step cont q same_disk_trans [OF g(3) q(3)] by auto
    qed
  qed
qed

lemma readdir_ok:
  assumes "ext2_ok data f" and "directory data f n = Some ds"
  shows "\<exists>g. ext2_readdir rd t f n index = Some (if unat index < length ds then Some (ds ! unat index) else None, g) \<and> ext2_ok data g \<and> same_disk f g"
proof -
  obtain y perms where y: "disk_inode data f n = Some y" "le16 y 0 = Some perms" "perms AND 0x4000 \<noteq> 0" "file_ok data f y" "dir_list (file_bytes data f y) = Some ds"
    using assms(2) by (auto simp: directory_def split: Option.bind_splits if_splits)
  obtain x g where g: "ext2_read_inode rd t f n = Some (Some x, g)" "same_inode x y" "ext2_ok data g" "same_disk f g"
    using read_inode_ok [OF assms(1) y(1)] by blast
  have "\<exists>r h. readdir_loop rd t g x index 0 0 [] = Some (r, h) \<and> ext2_ok data h \<and> same_disk g h \<and>
    (if unat (index - 0) < length ds then \<exists>b. r = Some b \<and> dirent_of b = Some (ds ! unat (index - 0)) else r = None)"
    using y(4,5) disk_views [OF g(4), of data] by (intro readdir_loop_ok [OF g(3) _ g(2)]) auto
  then obtain r h where h: "readdir_loop rd t g x index 0 0 [] = Some (r, h)" "ext2_ok data h" "same_disk g h"
    "if unat index < length ds then \<exists>b. r = Some b \<and> dirent_of b = Some (ds ! unat index) else r = None" by (auto cong: if_cong)
  then show ?thesis using g(1) y(2,3) same_inode_le16 [OF g(2), of 0] same_disk_trans [OF g(4) h(3)]
    by (auto simp: ext2_readdir_def split: if_splits)
qed

lemma directory_length: "ext2_ok data f \<Longrightarrow> directory data f n = Some ds \<Longrightarrow> length ds < 2 ^ 32"
proof -
  assume a: "ext2_ok data f" "directory data f n = Some ds"
  then obtain y where y: "file_ok data f y" "dir_list (file_bytes data f y) = Some ds" by (auto simp: directory_def split: Option.bind_splits if_splits)
  have "length (file_bytes data f y) = file_size y" using length_file_bytes [OF y(1)] a(1) by (simp add: ext2_ok_def blocks_ok_def)
  then show ?thesis using dir_list_length [OF y(2)] y(1) by (simp add: file_ok_def)
qed

lemma directory_views: "same_disk f g \<Longrightarrow> directory data g = directory data f"
  using disk_views [of f g data] by (simp add: directory_def fun_eq_iff cong: if_cong)

lemma search_ok:
  assumes "ext2_ok data f" and "directory data f n = Some ds"
  shows "\<exists>g. ext2_search rd t f n name index = Some (find (\<lambda>d. d_name d = name) (drop (unat index) ds), g) \<and> ext2_ok data g \<and> same_disk f g"
  using assms
proof (induction "length ds - unat index" arbitrary: f index rule: less_induct)
  case less
  obtain g where g: "ext2_readdir rd t f n index = Some (if unat index < length ds then Some (ds ! unat index) else None, g)" "ext2_ok data g" "same_disk f g"
    using readdir_ok [OF less(2,3)] by blast
  show ?case
  proof (cases "unat index < length ds")
    case False
    then show ?thesis using g by (subst ext2_search.simps) simp
  next
    case True
    have i: "unat (index + 1) = unat index + 1" using True directory_length [OF less(2,3)] by (intro unat_Suc32) simp
    have d: "drop (unat index) ds = ds ! unat index # drop (unat index + 1) ds" using True by (simp add: Cons_nth_drop_Suc)
    have "\<exists>h. ext2_search rd t g n name (index + 1) = Some (find (\<lambda>d. d_name d = name) (drop (unat (index + 1)) ds), h) \<and> ext2_ok data h \<and> same_disk g h"
      using True i directory_views [OF g(3)] less(3) by (intro less(1) g(2)) auto
    then show ?thesis using g True d i same_disk_trans [OF g(3)] by (subst ext2_search.simps) fastforce
  qed
qed

end

section \<open>Paths\<close>

text \<open>
  The inode a path of names leads to from a directory, on the disk: the outer \<open>None\<close> is a disk on which a
  directory or inode on the way is damaged, the inner one a name that does not exist.
\<close>

fun ext2_walk :: "u8 list \<Rightarrow> ext2_fs \<Rightarrow> u32 \<Rightarrow> string list \<Rightarrow> u32 option option" where
  "ext2_walk data f n [] = Some (Some n)"
| "ext2_walk data f n (w # ws) = do {
     ds \<leftarrow> directory data f n;
     case find (\<lambda>d. d_name d = w) ds of
       None \<Rightarrow> Some None
     | Some d \<Rightarrow> do { _ \<leftarrow> disk_inode data f (d_ino d); ext2_walk data f (d_ino d) ws } }"

lemma walk_views: "same_disk f g \<Longrightarrow> ext2_walk data g n ws = ext2_walk data f n ws"
proof (induction ws arbitrary: n)
  case (Cons w ws)
  have "directory data g = directory data f"
    using disk_views [OF Cons(2), of data] by (simp add: directory_def fun_eq_iff cong: if_cong)
  then show ?case using Cons disk_views [OF Cons(2), of data] by (simp cong: option.case_cong)
qed simp

lemma ucast_up_down [simp]: "ucast (ucast (n :: u32) :: u64) = n"
  by (rule word_unatI) (use unat_less32 [of n] in simp)

definition ext2_node :: "u8 list \<Rightarrow> ptr \<Rightarrow> fs_ops \<Rightarrow> string \<Rightarrow> u32 \<Rightarrow> u8 list \<Rightarrow> vnode" where
  "ext2_node data dev ops name n y =
     \<lparr>n_name = name, n_device = dev, n_mode = 0,
      n_flags = (case le16 y 0 of Some perms \<Rightarrow> if perms AND 0x4000 \<noteq> 0 then VFS_DIR else VFS_FILE | None \<Rightarrow> VFS_FILE), n_inode = ucast n,
      n_size = of_nat (file_size y), n_fs = ops, n_links = 1, n_path = None, n_mountpoint = NULL\<rparr>"

context block_device
begin

lemma from_inode_ok:
  assumes "ext2_ok data f" and "disk_inode data f n = Some y"
  shows "\<exists>g. ext2_from_inode rd t dev ops f name n = Some (ext2_node data dev ops name n y, g) \<and> ext2_ok data g \<and> same_disk f g"
proof -
  obtain x g where g: "ext2_read_inode rd t f n = Some (Some x, g)" "same_inode x y" "ext2_ok data g" "same_disk f g"
    using read_inode_ok [OF assms] by blast
  have len: "128 \<le> length y" using disk_inode_length [OF assms(2)] assms(1) by (simp add: ext2_ok_def)
  then obtain w perms where w: "le32 y 4 = Some w" "le16 y 0 = Some perms" by (auto simp: le32_def le16_def)
  then have "le32 x 4 = Some w" "le16 x 0 = Some perms" using same_inode_le32 [OF g(2), of 4] same_inode_le16 [OF g(2), of 0] by simp_all
  then show ?thesis using g w by (simp add: ext2_from_inode_def ext2_node_def file_size_def)
qed

lemma finddir_loop_ok:
  assumes "ext2_ok data f" and "comps_ok ws" and "k \<le> length ws" and "n_inode root = ucast n" and "ext2_walk data f n (drop k ws) = Some r"
    and "k = length ws \<longrightarrow> node = root"
    and "\<forall>m y. r = Some m \<longrightarrow> k < length ws \<longrightarrow> disk_inode data f m = Some y \<longrightarrow> node = ext2_node data dev ops (last ws) m y"
  shows "\<exists>g. finddir_loop rd t dev ops f root (mk_path lead ws trail) [k..<length ws] = Some (map_option (\<lambda>_. node) r, g) \<and>
    ext2_ok data g \<and> same_disk f g"
  using assms
proof (induction "length ws - k" arbitrary: k f root n)
  case 0
  then show ?case by auto
next
  case (Suc d)
  then have k: "k < length ws" by simp
  let ?w = "ws ! k"
  have dr: "drop k ws = ?w # drop (Suc k) ws" using k by (simp add: Cons_nth_drop_Suc)
  have seg: "k_util_path_segment (mk_path lead ws trail) k = Some (Some ?w)" using Suc(4) k by (rule segment_mk_path)
  obtain ds where ds: "directory data f n = Some ds" using Suc(7) dr by (auto split: Option.bind_splits)
  obtain g where g: "ext2_search rd t f n ?w 0 = Some (find (\<lambda>e. d_name e = ?w) ds, g)" "ext2_ok data g" "same_disk f g"
    using search_ok [OF Suc(3) ds, of t ?w 0] by auto
  have up: "[k..<length ws] = k # [Suc k..<length ws]" using k by (simp add: upt_conv_Cons)
  show ?case
  proof (cases "find (\<lambda>e. d_name e = ?w) ds")
    case None
    then show ?thesis using Suc(6,7) dr ds g seg up by auto
  next
    case (Some e)
    have e: "d_name e = ?w" using Some by (auto simp: find_Some_iff)
    obtain y where y: "disk_inode data f (d_ino e) = Some y" "ext2_walk data f (d_ino e) (drop (Suc k) ws) = Some r"
      using Suc(7) dr ds Some by (auto split: Option.bind_splits)
    note vg = disk_views [OF g(3), of data]
    obtain h where h: "ext2_from_inode rd t dev ops g ?w (d_ino e) = Some (ext2_node data dev ops ?w (d_ino e) y, h)" "ext2_ok data h" "same_disk g h"
      using from_inode_ok [OF g(2), of "d_ino e" y t dev ops ?w] y(1) vg by auto
    have fh: "same_disk f h" using g(3) h(3) by (rule same_disk_trans)
    have end_node: "Suc k = length ws \<longrightarrow> node = ext2_node data dev ops ?w (d_ino e) y"
    proof
      assume s: "Suc k = length ws"
      then have "r = Some (d_ino e)" using y(2) by simp
      moreover have "last ws = ?w" using s last_conv_nth [of ws] by (metis diff_Suc_1 length_0_conv nat.distinct(1))
      ultimately show "node = ext2_node data dev ops ?w (d_ino e) y" using Suc(9) k y(1) by auto
    qed
    have "\<exists>q. finddir_loop rd t dev ops h (ext2_node data dev ops ?w (d_ino e) y) (mk_path lead ws trail) [Suc k..<length ws] =
      Some (map_option (\<lambda>_. node) r, q) \<and> ext2_ok data q \<and> same_disk h q"
      using Suc(2,4,9) k y(2) walk_views [OF fh] disk_views [OF fh, of data] end_node
      by (intro Suc(1) h(2)) (auto simp: ext2_node_def)
    then obtain q where q: "finddir_loop rd t dev ops h (ext2_node data dev ops ?w (d_ino e) y) (mk_path lead ws trail) [Suc k..<length ws] =
      Some (map_option (\<lambda>_. node) r, q)" "ext2_ok data q" "same_disk h q" by blast
    then show ?thesis using Some e g(1) h(1) seg up Suc(6) same_disk_trans [OF fh q(3)] by auto
  qed
qed

end

section \<open>Mounting\<close>

lemma block_size_value: "unat (log_size s) \<le> 13 \<Longrightarrow> unat (BLOCK_SIZE s) = 2 ^ (10 + unat (log_size s))"
proof -
  assume l: "unat (log_size s) \<le> 13"
  have "1024 * (2 :: nat) ^ unat (log_size s) \<le> 1024 * 2 ^ 13" using l by (intro mult_le_mono2 power_increasing) auto
  then have "1024 * (2 :: nat) ^ unat (log_size s) < 2 ^ 32" by simp
  then have "take_bit 32 (push_bit (unat (log_size s)) 1024) = 1024 * (2 :: nat) ^ unat (log_size s)" by (simp add: push_bit_eq_mult take_bit_nat_eq_self)
  moreover have "unat (BLOCK_SIZE s) = take_bit LENGTH(32) (push_bit (unat (log_size s)) (unat (1024 :: u32)))"
    unfolding BLOCK_SIZE_def by (rule unsigned_push_bit_eq)
  ultimately show ?thesis by (simp add: power_add)
qed

lemma read_block_sb: "ext2_read_block rd t f b 0 = Some (r, g) \<Longrightarrow> sb g = sb f"
  by (auto simp: ext2_read_block_def ext2_try_get_cached_block_def ext2_cache_block_def Let_def split: if_splits option.splits prod.splits)

lemma read_bgds_sb: "read_bgds rd t f start k = Some g \<Longrightarrow> sb g = sb f"
proof (induction k arbitrary: f start)
  case (Suc k)
  then obtain r h x where h: "ext2_read_block rd t f start 0 = Some (r, h)" "read_bgds rd t (h\<lparr>bgds := bgds h @ x\<rparr>) (start + 1) k = Some g"
    by (auto split: Option.bind_splits)
  then show ?case using Suc(1) [OF h(2)] read_block_sb [OF h(1)] by simp
qed simp

context block_device
begin

lemma read_block_keeps:
  assumes "blocks_ok data f" and "ext2_read_block rd t f b 0 = Some ((n, buf), g)"
  shows "blocks_ok data g \<and> same_fs f g \<and> (unat (bsize f) \<le> length buf \<longrightarrow> on_disk data f (unat b) \<longrightarrow> buf = block_at data f (unat b))"
proof (cases "total_blocks (sb f) < b")
  case True
  have "0 < unat (bsize f)" using geometry_bounds [of f] assms(1) by (auto simp: blocks_ok_def)
  then show ?thesis using assms True by (auto simp: ext2_read_block_def)
next
  case valid: False
  show ?thesis
  proof (cases "cache_find b (block_cache f)")
    case (Some e)
    obtain ta x c where e: "e = ((ta, x), c)" by (metis prod.collapse)
    have m: "(b, ta, x) \<in> set (block_cache f)" "set c \<subseteq> set (block_cache f)" "length (block_cache f) = Suc (length c)"
      using cache_find_some [of b "block_cache f" "(ta, x)" c] Some e by auto
    have "g = f\<lparr>block_cache := (b, t, x) # c\<rparr>" "buf = x" using assms(2) Some e valid by (auto simp: ext2_read_block_def ext2_try_get_cached_block_def Let_def)
    then show ?thesis using assms(1) m by (auto simp: blocks_ok_def same_fs_def geometry_def on_disk_def block_at_def)
  next
    case None
    obtain k bytes where rb: "rd (b * bsize f) (bsize f) = (k, bytes)" by (cases "rd (b * bsize f) (bsize f)")
    have g: "g = (if k = bsize f then ext2_cache_block t f b bytes else f)" "buf = bytes"
      using assms(2) None valid rb by (auto simp: ext2_read_block_def ext2_try_get_cached_block_def Let_def)
    have geo: "1024 \<le> unat (bsize f)" using geometry_bounds [of f] assms(1) by (auto simp: blocks_ok_def)
    have "bytes = block_at data f (unat b)" if "on_disk data f (unat b)"
    proof -
      have b: "unat b * unat (bsize f) + unat (bsize f) \<le> length data" using that by (simp add: on_disk_def algebra_simps)
      have off: "unat (b * bsize f) = unat b * unat (bsize f)" using b small geo by (simp add: unat_word_ariths)
      have "bsize f \<noteq> 0" using geo by auto
      from read_inside [OF this, of "b * bsize f"] show ?thesis using rb b off by (simp add: block_at_def)
    qed
    moreover have "length bytes = unat k" using counts [of "b * bsize f" "bsize f"] rb by simp
    ultimately show ?thesis using g assms(1) cached_block_ok [OF assms(1), of bytes b t] by auto
  qed
qed

lemma read_bgds_content:
  assumes "read_bgds rd t f start k = Some g" and "blocks_ok data f"
  shows "\<exists>xs. bgds g = bgds f @ concat xs \<and> length xs = k \<and>
    (\<forall>i < k. length (xs ! i) = unat (bsize f) \<and> (on_disk data f (unat start + i) \<longrightarrow> xs ! i = block_at data f (unat start + i)))"
  using assms
proof (induction k arbitrary: f start)
  case (Suc k)
  then obtain n buf h x where h: "ext2_read_block rd t f start 0 = Some ((n, buf), h)" "fetch buf 0 (unat (bsize f)) = Some x"
    "read_bgds rd t (h\<lparr>bgds := bgds h @ x\<rparr>) (start + 1) k = Some g"
    by (auto split: Option.bind_splits)
  let ?h = "h\<lparr>bgds := bgds h @ x\<rparr>"
  have x: "unat (bsize f) \<le> length buf" "x = take (unat (bsize f)) buf" using h(2) by (auto simp: fetch_def slice_def split: if_splits)
  have kp: "blocks_ok data h" "same_fs f h" "on_disk data f (unat start) \<longrightarrow> buf = block_at data f (unat start)"
    using read_block_keeps [OF Suc(3) h(1)] x(1) by auto
  have v: "sb ?h = sb f" "bgds ?h = bgds f @ x" using kp(2) by (simp_all add: same_fs_def)
  have "blocks_ok data ?h" using kp(1) by (simp add: blocks_ok_def geometry_def on_disk_def block_at_def)
  from Suc(1) [OF h(3) this] obtain xs where xs: "bgds g = bgds ?h @ concat xs" "length xs = k"
    "\<forall>i < k. length (xs ! i) = unat (bsize f) \<and> (on_disk data f (unat (start + 1) + i) \<longrightarrow> xs ! i = block_at data f (unat (start + 1) + i))"
    using sb_views [OF v(1), of data] by auto
  have sx: "length x = unat (bsize f)" "on_disk data f (unat start) \<longrightarrow> x = block_at data f (unat start)"
    using x kp(3) by (auto simp: block_at_def slice_def)
  have geo: "1024 \<le> unat (bsize f)" using geometry_bounds [of f] Suc(3) by (auto simp: blocks_ok_def)
  have "unat (start + 1) = unat start + 1" if "on_disk data f (unat start + Suc i)" for i
  proof -
    have "(unat start + 1) * 1 \<le> (unat start + Suc i + 1) * unat (bsize f)" using geo by (intro mult_le_mono) auto
    then show ?thesis using that small by (intro unat_Suc32) (simp add: on_disk_def)
  qed
  then have "\<forall>i < Suc k. length ((x # xs) ! i) = unat (bsize f) \<and> (on_disk data f (unat start + i) \<longrightarrow> (x # xs) ! i = block_at data f (unat start + i))"
    using xs(3) sx by (auto simp: less_Suc_eq_0_disj)
  then show ?case using xs(1,2) v(2) by (intro exI [of _ "x # xs"]) simp
qed simp

lemma concat_slice_nth:
  "i < length xs \<Longrightarrow> \<forall>x \<in> set xs. length x = b \<Longrightarrow> slice (concat xs) (i * b) b = xs ! i"
proof (induction xs arbitrary: i)
  case (Cons x xs)
  then show ?case by (cases i) (auto simp: slice_def)
qed simp

lemma read_bgds_keeps: "read_bgds rd t f start k = Some g \<Longrightarrow> blocks_ok data f \<Longrightarrow> blocks_ok data g \<and> sb g = sb f \<and> inode_cache g = inode_cache f"
proof (induction k arbitrary: f start)
  case (Suc k)
  then obtain n buf h x where h: "ext2_read_block rd t f start 0 = Some ((n, buf), h)" "read_bgds rd t (h\<lparr>bgds := bgds h @ x\<rparr>) (start + 1) k = Some g"
    by (auto split: Option.bind_splits)
  have k: "blocks_ok data h" "same_fs f h" using read_block_keeps [OF Suc(3) h(1)] by auto
  have "blocks_ok data (h\<lparr>bgds := bgds h @ x\<rparr>)" using k(1) by (simp add: blocks_ok_def geometry_def on_disk_def block_at_def)
  then show ?case using Suc(1) [OF h(2)] k(2) by (simp add: same_fs_def)
qed simp

lemma mount_ok:
  assumes "ext2_mount rd t junk = Some (Some f)" and "length junk = 0x800000" and "unat (log_size (sb f)) \<le> 13" and "128 \<le> unat (inode_size (sb f))"
  shows "ext2_ok data f"
proof -
  obtain s k where m: "read_bgds rd t \<lparr>sb = s, bgds = [], inode_cache = [], block_cache = [], readahead_buffer = junk\<rparr> (if BLOCK_SIZE s > 1024 then 1 else 2) k = Some f"
    using assms(1) by (auto simp: ext2_mount_def Let_def split: Option.bind_splits if_splits)
  let ?f = "\<lparr>sb = s, bgds = [], inode_cache = [], block_cache = [], readahead_buffer = junk\<rparr>"
  have s: "sb f = s" using read_bgds_sb [OF m] by simp
  have "geometry ?f" using block_size_value [of s] assms(3) s by (auto simp: geometry_def intro!: exI [of _ "10 + unat (log_size s)"])
  then have ok: "blocks_ok data ?f" using assms(2) by (simp add: blocks_ok_def)
  have "1024 \<le> unat (BLOCK_SIZE s)" using geometry_bounds [of ?f] ok by (auto simp: blocks_ok_def)
  then have st: "unat (if BLOCK_SIZE s > 1024 then 1 else 2 :: u32) = desc_start f"
    by (cases "unat (BLOCK_SIZE s) = 1024") (auto simp: desc_start_def s word_less_nat_alt)
  obtain xs where xs: "bgds f = concat xs" "length xs = k"
    "\<forall>i < k. length (xs ! i) = unat (bsize f) \<and> (on_disk data f (desc_start f + i) \<longrightarrow> xs ! i = block_at data f (desc_start f + i))"
    using read_bgds_content [OF m ok] sb_views [of ?f f data] unfolding st by (auto simp: s)
  have len: "\<forall>x \<in> set xs. length x = unat (bsize f)" using xs(2,3) by (auto simp: in_set_conv_nth)
  have "desc_ok data f" unfolding desc_ok_def
  proof (intro allI impI)
    fix i assume d: "desc_here data f i"
    have "length (bgds f) = k * unat (bsize f)" using xs(1,2) len by (simp add: length_concat sum_list_triv cong: map_cong)
    then have "i < k" using d \<open>1024 \<le> unat (BLOCK_SIZE s)\<close> s mult_le_cancel2 [of "i + 1" "unat (bsize f)" k] by (simp add: desc_here_def)
    then show "slice (bgds f) (i * unat (bsize f)) (unat (bsize f)) = block_at data f (desc_start f + i)"
      using xs concat_slice_nth [OF _ len, of i] d by (simp add: desc_here_def)
  qed
  then show ?thesis using read_bgds_keeps [OF m ok] assms(4) by (simp add: ext2_ok_def)
qed

lemma read_bgds_value:
  assumes "blocks_ok data f" and "\<forall>i < k. valid_block data f (start + of_nat i)"
  shows "\<exists>g. read_bgds rd t f start k = Some g \<and> bgds g = bgds f @ concat (map (\<lambda>i. block_at data f (unat (start + of_nat i))) [0..<k])"
  using assms
proof (induction k arbitrary: f start)
  case (Suc k)
  have v0: "valid_block data f start" using Suc(3) by auto
  obtain h where h: "ext2_read_block rd t f start 0 = Some ((bsize f, block_at data f (unat start)), h)" "blocks_ok data h" "same_fs f h"
    using read_block_ok [OF Suc(2) v0, of 0 t] by auto
  have "unat start * unat (bsize f) + unat (bsize f) \<le> length data" using v0 by (simp add: valid_block_def on_disk_def algebra_simps)
  then have len: "length (block_at data f (unat start)) = unat (bsize f)" by (simp add: block_at_def length_slice)
  let ?h = "h\<lparr>bgds := bgds h @ block_at data f (unat start)\<rparr>"
  have sb: "sb ?h = sb f" using h(3) by (simp add: same_fs_def)
  note views = sb_views [OF sb, of data]
  have "blocks_ok data ?h" using h(2) by (simp add: blocks_ok_def geometry_def on_disk_def block_at_def)
  moreover have "\<forall>i < k. valid_block data ?h (start + 1 + of_nat i)"
    using Suc(3) views by (metis (no_types, lifting) Suc_mono add.assoc of_nat_Suc)
  ultimately obtain g where g: "read_bgds rd t ?h (start + 1) k = Some g"
    "bgds g = bgds ?h @ concat (map (\<lambda>i. block_at data ?h (unat (start + 1 + of_nat i))) [0..<k])" using Suc(1) by blast
  have "[0..<Suc k] = 0 # map Suc [0..<k]" by (simp add: map_Suc_upt upt_conv_Cons del: upt_Suc)
  then have "concat (map (\<lambda>i. block_at data f (unat (start + of_nat i))) [0..<Suc k]) =
      block_at data f (unat start) @ concat (map (\<lambda>i. block_at data f (unat (start + 1 + of_nat i))) [0..<k])"
    by (simp add: comp_def add.assoc del: upt_Suc)
  then show ?case using g h(1,3) len views by (simp add: fetch_def slice_def same_fs_def del: upt_Suc)
qed simp

end

section \<open>Properties\<close>

text \<open>A sequence of reads: the time, the inode, the offset and the size of each.\<close>

fun ext2_reads :: "(u32 \<Rightarrow> u32 \<Rightarrow> u32 \<times> u8 list) \<Rightarrow> ext2_fs \<Rightarrow> (u32 \<times> u32 \<times> u32 \<times> u32) list \<Rightarrow> (u8 list list \<times> ext2_fs) option" where
  "ext2_reads rd f [] = Some ([], f)"
| "ext2_reads rd f ((t, n, off, sz) # rs) = do {
     (r, f1) \<leftarrow> ext2_read rd t f n off sz;
     bytes \<leftarrow> r;
     (rest, f2) \<leftarrow> ext2_reads rd f1 rs;
     Some (bytes # rest, f2) }"

definition file_of :: "u8 list \<Rightarrow> ext2_fs \<Rightarrow> u32 \<Rightarrow> u8 list option" where
  "file_of data f n = do { y \<leftarrow> disk_inode data f n; if file_ok data f y then Some (file_bytes data f y) else None }"

lemma file_of_views: "same_disk f g \<Longrightarrow> file_of data g = file_of data f"
  using disk_views [of f g data] by (simp add: file_of_def fun_eq_iff cong: if_cong)

lemma reads_ok:
  assumes "block_device rd data" and "ext2_ok data f" and "\<forall>(t, n, off, sz) \<in> set rs. file_of data f n \<noteq> None \<and> unat off + unat sz < 2 ^ 32"
  shows "\<exists>g. ext2_reads rd f rs = Some (map (\<lambda>(t, n, off, sz). slice (the (file_of data f n)) (unat off) (unat sz)) rs, g) \<and> ext2_ok data g"
  using assms(2,3)
proof (induction rs arbitrary: f)
  case (Cons r rs)
  obtain t n off sz where r: "r = (t, n, off, sz)" by (metis prod.collapse)
  obtain y where y: "disk_inode data f n = Some y" "file_ok data f y" "file_of data f n = Some (file_bytes data f y)" "unat off + unat sz < 2 ^ 32"
    using Cons(3) r by (auto simp: file_of_def split: Option.bind_splits if_splits)
  obtain g where g: "ext2_read rd t f n off sz = Some (Some (slice (file_bytes data f y) (unat off) (unat sz)), g)" "ext2_ok data g" "same_disk f g"
    using block_device.ext2_read_ok [OF assms(1) Cons(2) y(1,2,4)] by blast
  have "\<exists>h. ext2_reads rd g rs = Some (map (\<lambda>(t, n, off, sz). slice (the (file_of data g n)) (unat off) (unat sz)) rs, h) \<and> ext2_ok data h"
    using Cons(3) file_of_views [OF g(3), of data] by (intro Cons.IH g(2)) auto
  then show ?case using g y(3) r file_of_views [OF g(3), of data] by auto
qed simp

lemma walk_inode: "ext2_walk data f n ws = Some (Some m) \<Longrightarrow> ws \<noteq> [] \<Longrightarrow> disk_inode data f m \<noteq> None"
proof (induction ws arbitrary: n)
  case (Cons w ws)
  then obtain j y where "disk_inode data f j = Some y" "ext2_walk data f j ws = Some (Some m)"
    by (auto split: Option.bind_splits option.splits)
  then show ?case using Cons(1) by (cases "ws = []") auto
qed simp

text \<open>
  C11: the ext2 driver reads what is on the disk. After mounting, every sequence of reads of files
  without holes whose blocks are all direct or in the single indirect block (in the double indirect
  range the code is wrong, see below) returns the bytes that the disk holds for them, each cut off
  at the end of the file. Where the inode of a file lies on the disk is said by \<open>inode_position\<close>, from
  the bytes of the disk and the format, not by the arithmetic of the driver. The caches of blocks
  and inodes and the read-ahead never show, and they stay within their bounds of 2048 blocks and 256
  inodes.
\<close>

theorem ext2_reads_files:
  assumes "block_device rd data" and "ext2_mount rd t0 junk = Some (Some f)" and "length junk = 0x800000"
    and "unat (log_size (sb f)) \<le> 13" and "128 \<le> unat (inode_size (sb f))"
    and "\<forall>(t, n, off, sz) \<in> set rs. file_of data f n \<noteq> None \<and> unat off + unat sz < 2 ^ 32"
  shows "\<exists>g. ext2_reads rd f rs = Some (map (\<lambda>(t, n, off, sz). slice (the (file_of data f n)) (unat off) (unat sz)) rs, g) \<and>
    length (block_cache g) \<le> 2048 \<and> length (inode_cache g) \<le> 256"
proof -
  have "ext2_ok data f" using block_device.mount_ok [OF assms(1-5)] .
  from reads_ok [OF assms(1) this assms(6)] show ?thesis by (auto simp: ext2_ok_def blocks_ok_def)
qed

text \<open>
  C12: the lookup follows the directories on the disk. For a path of names the driver returns a node for
  the inode that the entries on the disk lead to, named by the last name and with the size and the
  kind of that inode, and the null pointer when a name on the way does not exist; the first entry
  of a name counts, and the caches stay coherent.
\<close>

theorem ext2_finds_paths:
  assumes "block_device rd data" and "ext2_ok data f" and "comps_ok ws" and "n_inode root = ucast n" and "ext2_walk data f n ws = Some r"
  shows "\<exists>g. ext2_finddir rd t dev ops f root (mk_path lead ws trail) =
      Some (case r of None \<Rightarrow> None | Some m \<Rightarrow> map_option (ext2_node data dev ops (last ws) m) (disk_inode data f m), g) \<and>
    ext2_ok data g \<and> file_of data g = file_of data f"
proof -
  define node where "node = (case r of None \<Rightarrow> root | Some m \<Rightarrow> case disk_inode data f m of None \<Rightarrow> root | Some y \<Rightarrow> ext2_node data dev ops (last ws) m y)"
  have ws: "ws \<noteq> []" using assms(3) by (simp add: comps_ok_def)
  obtain g where g: "finddir_loop rd t dev ops f root (mk_path lead ws trail) [0..<length ws] = Some (map_option (\<lambda>_. node) r, g)"
    "ext2_ok data g" "same_disk f g"
    using block_device.finddir_loop_ok [OF assms(1-3) _ assms(4), of 0 r node dev ops t lead trail] assms(5) ws by (auto simp: node_def)
  have "n_name node = last ws \<and> disk_inode data f m \<noteq> None" if "r = Some m" for m
    using walk_inode [of data f n ws m] assms(5) ws that by (auto simp: node_def ext2_node_def)
  then have "ext2_finddir rd t dev ops f root (mk_path lead ws trail) =
      Some (case r of None \<Rightarrow> None | Some m \<Rightarrow> map_option (ext2_node data dev ops (last ws) m) (disk_inode data f m), g)"
    using g(1) by (auto simp: ext2_finddir_def length_mk_path [OF assms(3)] filename_mk_path [OF assms(3)] node_def split: option.splits)
  then show ?thesis using g(2) file_of_views [OF g(3)] by blast
qed

section \<open>A limit of the driver\<close>

text \<open>
  The offset into a double indirect block is counted from the capacity of an indirect block, without
  the twelve direct ones, and the single indirect routine subtracts twelve from the remainder: for
  the first twelve blocks of the double indirect range the index is negative and the read leaves the block.
\<close>

lemma double_indirect_leaves_block:
  assumes "block_device rd data" and "blocks_ok data f" and "100 \<le> length ino" and "le32 ino 92 = Some d" and "valid_block data f d"
    and "le32 (block_at data f (unat d)) 0 = Some p" and "valid_block data f p"
    and "unat (SINGLE f) \<le> unat off" and "unat off < unat (SINGLE f) + 12" and "off < SINGLE f * SINGLE f"
  shows "ext2_block_from_offset rd t f ino off = None"
proof -
  obtain s tr where ptrs: "le32 ino 88 = Some s" "le32 ino 96 = Some tr" using assms(3) by (auto simp: le32_def)
  have geo: "1024 \<le> unat (bsize f)" "unat (bsize f) \<le> 0x800000" using geometry_bounds [of f] assms(2) by (auto simp: blocks_ok_def)
  have cap: "unat (SINGLE f) = unat (bsize f) div 4" by (simp add: SINGLE_def unat_div)
  define extra where "extra = off - SINGLE f"
  have ex: "unat extra = unat off - unat (SINGLE f)" "unat extra < 12" using assms(8,9) by (simp_all add: extra_def unat_sub32 word_le_nat_alt)
  have small: "unat extra < unat (SINGLE f)" using ex(2) cap geo(1) by linarith
  have q: "extra div SINGLE f = 0" "extra mod SINGLE f = extra" using small by (auto intro!: word_unatI simp: unat_div unat_mod)
  obtain g where g: "ext2_read_block rd t f d 0 = Some ((bsize f, block_at data f (unat d)), g)" "blocks_ok data g" "same_fs f g"
    using block_device.read_block_ok [OF assms(1,2,5), of 0 t] by auto
  have pg: "valid_block data g p" using assms(7) same_fs_views [OF g(3), of data] by simp
  obtain h where h: "ext2_read_block rd t g p 0 = Some ((bsize g, block_at data g (unat p)), h)"
    using block_device.read_block_ok [OF assms(1) g(2) pg, of 0 t] by auto
  have "unat (extra - 12) = 2 ^ 32 - (12 - unat extra)" using ex(2) by (subst unat_sub_wrap) (simp_all add: word_less_nat_alt)
  then have "le32 (block_at data g (unat p)) (4 * unat (extra - 12)) = None"
    using geo length_slice_le [of data "unat p * unat (bsize g)" "unat (bsize g)"] same_fs_views [OF g(3), of data] by (simp add: le32_def block_at_def)
  then have "ext2_resolve_single rd t g p extra = None" using h pg by (simp add: ext2_resolve_single_def valid_block_def)
  then have "ext2_resolve_double rd t f d off = None" using g(1) assms(5,6) q by (simp add: ext2_resolve_double_def valid_block_def extra_def [symmetric])
  moreover have "\<not> off < SINGLE f" "\<not> off < 12" using assms(8) cap geo(1) by (simp_all add: word_less_nat_alt)
  ultimately show ?thesis using ptrs assms(4,5,10) by (simp add: ext2_block_from_offset_def valid_block_def)
qed

section \<open>An example disk\<close>

text \<open>
  A disk of nine blocks of 1024 bytes at one megabyte: the superblock (block 1), the group descriptor
  (2), the inode table (3), the root directory with the entry \<open>a\<close> for inode 3 (4), and the file (5).
\<close>

definition demo_bytes :: "(nat \<times> u8) list" where
  "demo_bytes = [(1028, 8), (1056, 8), (1064, 8), (1080, 0x53), (1081, 0xEF), (1112, 128), (2056, 3),
     (3201, 0x40), (3205, 4), (3240, 4), (3329, 0x80), (3332, 5), (3368, 5),
     (4096, 3), (4101, 4), (4102, 1), (4104, 97), (5120, 104), (5121, 101), (5122, 108), (5123, 108), (5124, 111)]"

definition demo :: ramdisk where
  "demo = \<lparr>ram_base = 0x100000, ram_size = 9216\<rparr>"

definition demo_sb :: superblock where
  "demo_sb = \<lparr>total_blocks = 8, log_size = 0, blocks_per_group = 8, inodes_per_group = 8, inode_size = 128\<rparr>"

abbreviation (input) demo_mem :: mem where "demo_mem \<equiv> sparse_mem demo_bytes"
abbreviation (input) demo_at :: "nat \<Rightarrow> nat \<Rightarrow> u8 list" where "demo_at \<equiv> sparse_at demo_bytes"
abbreviation (input) demo_rd :: "u32 \<Rightarrow> u32 \<Rightarrow> u32 \<times> u8 list" where "demo_rd \<equiv> ramdisk_read demo_mem demo"
abbreviation (input) demo_data :: "u8 list" where "demo_data \<equiv> ramdisk_data demo_mem demo"

lemma demo_data_value: "demo_data = demo_at 0 9216"
  by (simp add: ramdisk_data_def demo_def sparse_at_def)

lemma demo_block: "sb f = demo_sb \<Longrightarrow> b < 9 \<Longrightarrow> block_at demo_data f b = demo_at (1024 * b) 1024"
  by (simp add: demo_data_value block_at_def BLOCK_SIZE_def demo_sb_def sparse_slice mult.commute)

lemma demo_valid: "sb f = demo_sb \<Longrightarrow> b \<noteq> 0 \<Longrightarrow> unat b \<le> 8 \<Longrightarrow> valid_block demo_data f b"
  by (simp add: demo_data_value valid_block_def on_disk_def BLOCK_SIZE_def demo_sb_def word_le_nat_alt)

lemma demo_mount: "\<exists>f. ext2_mount demo_rd 0 (replicate 0x800000 0) = Some (Some f) \<and> sb f = demo_sb \<and> (\<exists>ys. bgds f = demo_at 2048 1024 @ ys)"
proof -
  have raw: "snd (demo_rd 1024 1024) = demo_at 1024 1024" by (simp add: ramdisk_read_def demo_def sparse_at_def)
  have parse: "parse_superblock (demo_at 1024 1024) = Some (0xEF53, demo_sb)"
    by (simp add: parse_superblock_def sparse_le32 sparse_le16 demo_bytes_def demo_sb_def)
  have groups: "groups_loop demo_sb 1 = Some 1" by (subst groups_loop.simps) (simp add: demo_sb_def)
  let ?f = "\<lparr>sb = demo_sb, bgds = [], inode_cache = [], block_cache = [], readahead_buffer = replicate 0x800000 0\<rparr>"
  have "geometry ?f" using block_size_value [of demo_sb] by (auto simp: geometry_def demo_sb_def intro!: exI [of _ 10])
  then have ok: "blocks_ok demo_data ?f" by (simp add: blocks_ok_def)
  have v: "\<forall>i < 5. valid_block demo_data ?f (2 + of_nat i)"
  proof (intro allI impI)
    fix i :: nat assume i: "i < 5"
    have "unat (2 + of_nat i :: u32) = 2 + i" using i by (simp add: unat_add32 unat_of_nat_eq32)
    then show "valid_block demo_data ?f (2 + of_nat i)" using i by (intro demo_valid) auto
  qed
  obtain f where f: "read_bgds demo_rd 0 ?f 2 5 = Some f"
    "bgds f = bgds ?f @ concat (map (\<lambda>i. block_at demo_data ?f (unat (2 + of_nat i :: u32))) [0..<5])"
    using ram.read_bgds_value [OF ok v, of 0] by blast
  have b: "bgds f = demo_at 2048 1024 @ concat (map (\<lambda>i. block_at demo_data ?f (unat (2 + of_nat i :: u32))) [1..<5])"
    using f(2) demo_block [of ?f 2] by (simp add: upt_conv_Cons)
  have "sb f = demo_sb" using read_bgds_sb [OF f(1)] by simp
  moreover have "ext2_mount demo_rd 0 (replicate 0x800000 0) = Some (Some f)"
    using f(1) groups by (simp add: ext2_mount_def raw parse) (simp add: demo_sb_def BLOCK_SIZE_def)
  ultimately show ?thesis using b by blast
qed

lemma demo_inodes:
  assumes "sb f = demo_sb" and "bgds f = demo_at 2048 1024 @ ys"
  shows "disk_inode demo_data f 3 = Some (demo_at 3328 128)" "disk_inode demo_data f 2 = Some (demo_at 3200 128)"
proof -
  have s: "inodes_per_group (sb f) = 8" "bsize f = 1024" "inode_size (sb f) = 128" using assms(1) by (simp_all add: demo_sb_def BLOCK_SIZE_def)
  have "desc_here demo_data f 0" using s assms(2) by (simp add: desc_here_def desc_start_def on_disk_def demo_data_value)
  moreover have "le32 demo_data 2056 = Some 3" unfolding demo_data_value by (simp add: sparse_le32) (simp add: demo_bytes_def)
  ultimately have "inode_position demo_data f 3 = Some 3328" "inode_position demo_data f 2 = Some 3200"
    using s by (simp_all add: inode_position_def desc_start_def)
  moreover have "valid_block demo_data f 3" using assms(1) by (intro demo_valid) auto
  ultimately show "disk_inode demo_data f 3 = Some (demo_at 3328 128)" "disk_inode demo_data f 2 = Some (demo_at 3200 128)"
    using s by (simp_all add: disk_inode_def fetch_def demo_data_value sparse_slice)
qed

lemma demo_file:
  assumes "sb f = demo_sb" and "file_size (demo_at off 128) = s" and "0 < s" and "s \<le> 1024" and "off < 2 ^ 31" and "le32 (demo_at off 128) 40 = Some b"
    and "b \<noteq> 0" and "unat b \<le> 8"
  shows "file_ok demo_data f (demo_at off 128)" "file_bytes demo_data f (demo_at off 128) = demo_at (1024 * unat b) s"
proof -
  have bs: "bsize f = 1024" using assms(1) by (simp add: demo_sb_def BLOCK_SIZE_def)
  have n: "file_blocks f (demo_at off 128) = 1" using assms(2-4) bs by (simp add: file_blocks_def div_nat_eqI)
  have blk: "file_block demo_data f (demo_at off 128) 0 = Some b" using assms(6) by (simp add: file_block_def)
  show "file_ok demo_data f (demo_at off 128)" using assms blk bs n demo_valid [OF assms(1,7,8)] by (simp add: file_ok_def SINGLE_def)
  have "take s (demo_at (1024 * unat b) 1024) = demo_at (1024 * unat b) s" using sparse_slice [of 0 s 1024 demo_bytes "1024 * unat b"] assms(4) by (simp add: slice_def)
  then show "file_bytes demo_data f (demo_at off 128) = demo_at (1024 * unat b) s"
    using n blk assms(2) demo_block [OF assms(1), of "unat b"] assms(8) by (simp add: file_bytes_def)
qed

lemma demo_hello:
  assumes "sb f = demo_sb" and "bgds f = demo_at 2048 1024 @ ys"
  shows "file_of demo_data f 3 = Some [104, 101, 108, 108, 111]"
proof -
  have size: "file_size (demo_at 3328 128) = 5" by (simp add: file_size_def sparse_le32 demo_bytes_def)
  have ptr: "le32 (demo_at 3328 128) 40 = Some 5" by (simp add: sparse_le32 demo_bytes_def)
  note hello = demo_file [OF assms(1) size _ _ _ ptr]
  have "demo_at 5120 5 = [104, 101, 108, 108, 111]"
    by (simp add: sparse_at_def block_def upt_rec sparse_mem_def demo_bytes_def)
  then show ?thesis using hello demo_inodes(1) [OF assms] by (simp add: file_of_def)
qed

theorem ext2_reads_files_witness:
  "\<exists>f g. ext2_mount (ramdisk_read demo_mem demo) 0 (replicate 0x800000 0) = Some (Some f) \<and>
     ext2_reads (ramdisk_read demo_mem demo) f [(1, 3, 1, 100), (2, 3, 0, 2)] = Some ([[101, 108, 108, 111], [104, 101]], g)"
proof -
  obtain f ys where f: "ext2_mount demo_rd 0 (replicate 0x800000 0) = Some (Some f)" "sb f = demo_sb" "bgds f = demo_at 2048 1024 @ ys"
    using demo_mount by blast
  let ?rs = "[(1, 3, 1, 100), (2, 3, 0, 2)] :: (u32 \<times> u32 \<times> u32 \<times> u32) list"
  have "\<exists>g. ext2_reads demo_rd f ?rs = Some (map (\<lambda>(t, n, off, sz). slice (the (file_of demo_data f n)) (unat off) (unat sz)) ?rs, g) \<and>
    length (block_cache g) \<le> 2048 \<and> length (inode_cache g) \<le> 256"
    using f(2) demo_hello [OF f(2,3)] by (intro ext2_reads_files [OF ram.block_device_axioms f(1)]) (auto simp: demo_sb_def)
  then show ?thesis using f(1) demo_hello [OF f(2,3)] by (auto simp: slice_def)
qed

theorem ext2_finds_paths_witness:
  "\<exists>f node g. ext2_mount (ramdisk_read demo_mem demo) 0 (replicate 0x800000 0) = Some (Some f) \<and>
     ext2_finddir (ramdisk_read demo_mem demo) 1 9 NoOps f (ext2_node [] 9 NoOps ''disk'' 2 []) ''/a'' = Some (Some node, g) \<and>
     n_inode node = 3 \<and> n_size node = 5 \<and> n_flags node = VFS_FILE"
proof -
  obtain f ys where f: "ext2_mount demo_rd 0 (replicate 0x800000 0) = Some (Some f)" "sb f = demo_sb" "bgds f = demo_at 2048 1024 @ ys"
    using demo_mount by blast
  have ok: "ext2_ok demo_data f" using f(2) by (intro ram.mount_ok [OF f(1)]) (simp_all add: demo_sb_def)
  have size: "file_size (demo_at 3200 128) = 1024" by (simp add: file_size_def sparse_le32 demo_bytes_def)
  have ptr: "le32 (demo_at 3200 128) 40 = Some 4" by (simp add: sparse_le32 demo_bytes_def)
  note root = demo_file [OF f(2) size _ _ _ ptr]
  have "of_char CHR ''a'' = (97 :: nat)" by simp
  then have "char_of (97 :: nat) = CHR ''a''" by (metis char_of_char)
  then have "dirent_of (demo_at 4096 1024) = Some \<lparr>d_name = ''a'', d_ino = 3\<rparr>"
    by (simp add: dirent_of_def fetch_def sparse_slice sparse_le32) (simp add: demo_bytes_def sparse_at_def block_def sparse_mem_def)
  then have "dir_list (demo_at 4096 1024) = Some [\<lparr>d_name = ''a'', d_ino = 3\<rparr>]"
    by (subst dir_list.simps, simp add: sparse_le32 sparse_le16 demo_bytes_def, subst dir_list.simps) simp
  then have "directory demo_data f 2 = Some [\<lparr>d_name = ''a'', d_ino = 3\<rparr>]"
    using root demo_inodes(2) [OF f(2,3)] by (simp add: directory_def sparse_le16 demo_bytes_def)
  then have w: "ext2_walk demo_data f 2 [''a''] = Some (Some 3)" using demo_inodes(1) [OF f(2,3)] by simp
  have "comps_ok [''a'']" "mk_path True [''a''] False = ''/a''" by (simp_all add: comps_ok_def mk_path_def)
  moreover have "n_inode (ext2_node [] 9 NoOps ''disk'' 2 []) = ucast (2 :: u32)" by (simp add: ext2_node_def)
  ultimately show ?thesis
    using ext2_finds_paths [OF ram.block_device_axioms ok _ _ w, of "ext2_node [] 9 NoOps ''disk'' 2 []" 1 9 NoOps True False]
      demo_inodes(1) [OF f(2,3)] f(1)
    by (auto simp: ext2_node_def sparse_le16 file_size_def sparse_le32 demo_bytes_def)
qed

end
