(* ===== verification/Tar.thy ===== *)
theory Tar
  imports Blockdev Vfs
begin

text \<open>
  The tar file system of \<^verbatim>\<open>kernel/src/fs/tar.c\<close>, from which the system boots: sizes in octal, headers
  read from the device, the search of a path and the listing of a directory by a walk over the
  archive, and reading a file. A header is its 157 bytes; a name without a terminating zero in them,
  or a header the device did not deliver in full, is \<open>None\<close>.
\<close>

section \<open>Operations\<close>

fun tar_size_loop :: "u8 list \<Rightarrow> nat \<Rightarrow> u32 \<Rightarrow> u32 \<Rightarrow> u32" where
  "tar_size_loop digits 0 sz cnt = sz"
| "tar_size_loop digits (Suc j) sz cnt = tar_size_loop digits j (sz + (scast (digits ! j) - 48) * cnt) (cnt * 8)"

definition tar_get_size :: "u8 list \<Rightarrow> u32" where
  "tar_get_size digits = tar_size_loop digits 11 0 1"

definition tar_read_header :: "(u32 \<Rightarrow> u32 \<Rightarrow> u32 \<times> u8 list) \<Rightarrow> u32 \<Rightarrow> u8 list option" where
  "tar_read_header rd off = (let h = snd (rd off 157) in if length h = 157 then Some h else None)"

definition header_name :: "u8 list \<Rightarrow> string option" where
  "header_name h = (if 0 \<in> set h then Some (map (\<lambda>b. char_of (unat b)) (takeWhile (\<lambda>b. b \<noteq> 0) h)) else None)"

definition header_size :: "u8 list \<Rightarrow> u32" where
  "header_size h = tar_get_size (slice h 124 12)"

text \<open>\<open>dev\<close> is the device of the archive and \<open>ops\<close> the table of functions of the nodes.\<close>

definition tar_create_node :: "ptr \<Rightarrow> fs_ops \<Rightarrow> u8 list \<Rightarrow> u32 \<Rightarrow> vnode option" where
  "tar_create_node dev ops h off = do {
     name \<leftarrow> header_name h;
     r \<leftarrow> k_util_path_filename name;
     buffer \<leftarrow> r;
     Some \<lparr>n_name = buffer, n_device = dev, n_mode = 0, n_flags = 0, n_inode = ucast off, n_size = header_size h, n_fs = ops, n_links = 1,
           n_path = None, n_mountpoint = NULL\<rparr> }"

definition tar_read :: "(u32 \<Rightarrow> u32 \<Rightarrow> u32 \<times> u8 list) \<Rightarrow> u32 \<Rightarrow> u32 \<Rightarrow> u32 \<Rightarrow> (u32 \<times> u8 list) option" where
  "tar_read rd inode off sz = do {
     h \<leftarrow> tar_read_header rd inode;
     let fsize = header_size h;
     if off > fsize then Some (0, [])
     else Some (rd (inode + 512 + off) (if fsize < off + sz then fsize - off else sz)) }"

text \<open>From one header to the next.\<close>

definition tar_next :: "u32 \<Rightarrow> u32 \<Rightarrow> u32" where
  "tar_next offs sz = offs + (sz div 512 + 1) * 512 + (if sz mod 512 \<noteq> 0 then 512 else 0)"

definition strncmp_eq :: "string \<Rightarrow> string \<Rightarrow> bool" where
  "strncmp_eq folder name \<longleftrightarrow> take (length folder) name = folder"

partial_function (option) tar_readdir_loop ::
  "(u32 \<Rightarrow> u32 \<Rightarrow> u32 \<times> u8 list) \<Rightarrow> u32 \<Rightarrow> string \<Rightarrow> nat \<Rightarrow> u32 \<Rightarrow> u32 \<Rightarrow> u32 \<Rightarrow> dirent option option" where
  "tar_readdir_loop rd dev_size folder target_len index i offs =
     (if offs < dev_size
      then do {
        h \<leftarrow> tar_read_header rd offs;
        name \<leftarrow> header_name h;
        if name = [] then Some None
        else do {
          len \<leftarrow> k_util_path_length name;
          if len = target_len \<and> strncmp_eq folder name
          then if i = index
               then do { r \<leftarrow> k_util_path_filename name; fname \<leftarrow> r; Some (Some \<lparr>d_name = fname, d_ino = offs\<rparr>) }
               else tar_readdir_loop rd dev_size folder target_len index (i + 1) (tar_next offs (header_size h))
          else tar_readdir_loop rd dev_size folder target_len index i (tar_next offs (header_size h)) } }
      else Some None)"

definition tar_readdir :: "(u32 \<Rightarrow> u32 \<Rightarrow> u32 \<times> u8 list) \<Rightarrow> u32 \<Rightarrow> u32 \<Rightarrow> u32 \<Rightarrow> dirent option option" where
  "tar_readdir rd dev_size inode index =
     (if index = 0 then Some (Some \<lparr>d_name = ''.'', d_ino = 0\<rparr>)
      else if index = 1 then Some (Some \<lparr>d_name = ''..'', d_ino = 0\<rparr>)
      else do {
        h \<leftarrow> tar_read_header rd inode;
        name \<leftarrow> header_name h;
        folder \<leftarrow> k_util_path_strip name;
        len \<leftarrow> k_util_path_length folder;
        tar_readdir_loop rd dev_size folder (len + 1) (index - 2) 0 0 })"

partial_function (option) tar_find_loop ::
  "(u32 \<Rightarrow> u32 \<Rightarrow> u32 \<times> u8 list) \<Rightarrow> ptr \<Rightarrow> fs_ops \<Rightarrow> u32 \<Rightarrow> string \<Rightarrow> u32 \<Rightarrow> vnode option option" where
  "tar_find_loop rd dev ops dev_size fullpath offs =
     (if offs < dev_size
      then do {
        h \<leftarrow> tar_read_header rd offs;
        name \<leftarrow> header_name h;
        if name = [] then Some None
        else do {
          simplified \<leftarrow> k_util_path_strip name;
          if simplified = fullpath then do { node \<leftarrow> tar_create_node dev ops h offs; Some (Some node) }
          else tar_find_loop rd dev ops dev_size fullpath (tar_next offs (header_size h)) } }
      else Some None)"

definition tar_finddir ::
  "(u32 \<Rightarrow> u32 \<Rightarrow> u32 \<times> u8 list) \<Rightarrow> ptr \<Rightarrow> fs_ops \<Rightarrow> u32 \<Rightarrow> u32 \<Rightarrow> string \<Rightarrow> vnode option option" where
  "tar_finddir rd dev ops dev_size inode path = do {
     h \<leftarrow> tar_read_header rd inode;
     name \<leftarrow> header_name h;
     fullpath \<leftarrow> k_util_path_join name path;
     tar_find_loop rd dev ops dev_size fullpath 0 }"

text \<open>The root node of a mounted archive; a path of \<open>/\<close> is called \<open>[root]\<close>.\<close>

definition tar_mount :: "ptr \<Rightarrow> fs_ops \<Rightarrow> string \<Rightarrow> vnode option option" where
  "tar_mount dev ops path =
     (if dev = NULL then Some None
      else do {
        r \<leftarrow> k_util_path_filename path;
        fn \<leftarrow> r;
        Some (Some \<lparr>n_name = (if fn = ''/'' then ''[root]'' else fn), n_device = dev, n_mode = 0, n_flags = VFS_DIR, n_inode = 0, n_size = 0,
                    n_fs = ops, n_links = 1, n_path = None, n_mountpoint = NULL\<rparr>) })"

section \<open>Archives\<close>

text \<open>
  An archive on a disk, by the offset of its first header: the names and contents of its members,
  up to a header with an empty name.
\<close>

definition stride :: "nat \<Rightarrow> nat" where
  "stride n = (n div 512 + 1) * 512 + (if n mod 512 \<noteq> 0 then 512 else 0)"

fun archive :: "u8 list \<Rightarrow> nat \<Rightarrow> (string \<times> u8 list) list \<Rightarrow> bool" where
  "archive data off [] \<longleftrightarrow> off + 157 \<le> length data \<and> header_name (slice data off 157) = Some []"
| "archive data off ((name, content) # es) \<longleftrightarrow>
     off + stride (length content) \<le> length data \<and> header_name (slice data off 157) = Some name \<and> name \<noteq> [] \<and>
     header_size (slice data off 157) = of_nat (length content) \<and> slice data (off + 512) (length content) = content \<and>
     archive data (off + stride (length content)) es"

fun member_offset :: "(string \<times> u8 list) list \<Rightarrow> nat \<Rightarrow> nat" where
  "member_offset es 0 = 0"
| "member_offset [] (Suc k) = 0"
| "member_offset ((name, content) # es) (Suc k) = stride (length content) + member_offset es k"

lemma stride_bounds: "512 + n \<le> stride n" "512 \<le> stride n"
proof -
  have "n div 512 * 512 + n mod 512 = n" by (rule div_mult_mod_eq)
  moreover have "n mod 512 < 512" by simp
  ultimately show "512 + n \<le> stride n" by (cases "n mod 512 = 0") (auto simp: stride_def)
  then show "512 \<le> stride n" by simp
qed

lemma archive_header: "archive data off es \<Longrightarrow> off + 157 \<le> length data"
proof (cases es)
  case (Cons e es')
  then show "archive data off es \<Longrightarrow> off + 157 \<le> length data" using stride_bounds(2) [of "length (snd e)"] by (cases e) simp
qed simp

lemma archive_member:
  "archive data off es \<Longrightarrow> k < length es \<Longrightarrow> archive data (off + member_offset es k) (drop k es)"
proof (induction es k arbitrary: off rule: member_offset.induct)
  case (3 name content es k)
  then show ?case by (simp add: add.assoc [symmetric])
qed auto

lemma member_offset_le: "archive data off es \<Longrightarrow> k < length es \<Longrightarrow> off + member_offset es k + 157 \<le> length data"
  using archive_member archive_header by blast

lemma tar_next_ok:
  assumes "unat offs + stride n < 2 ^ 32" and "sz = of_nat n"
  shows "unat (tar_next offs sz) = unat offs + stride n"
proof -
  have n: "unat sz = n" using assms stride_bounds(1) [of n] by (simp add: unat_of_nat_eq32)
  have d: "unat (sz div 512) = n div 512" "unat (sz mod 512) = n mod 512" using n by (simp_all add: unat_div unat_mod)
  have "(n div 512 + 1) * 512 \<le> stride n" by (simp add: stride_def)
  then have b: "(n div 512 + 1) * 512 < 2 ^ 32" using assms(1) by linarith
  have "unat (sz div 512 + 1) = n div 512 + 1" using d(1) b by (subst unat_Suc32) auto
  then have m: "unat ((sz div 512 + 1) * 512) = (n div 512 + 1) * 512" using b unat_mult32 [of "sz div 512 + 1" 512] by simp
  have z: "sz mod 512 \<noteq> 0 \<longleftrightarrow> n mod 512 \<noteq> 0" using d(2) by (metis unat_0 unat_eq_zero32)
  define w where "w = offs + (sz div 512 + 1) * 512"
  have w: "unat w = unat offs + (n div 512 + 1) * 512" unfolding w_def using m assms(1) by (subst unat_add32) (auto simp: stride_def)
  have "tar_next offs sz = w + (if sz mod 512 \<noteq> 0 then 512 else 0)" by (simp add: tar_next_def w_def)
  then show ?thesis using assms(1) w z by (auto simp: stride_def unat_add32)
qed

lemma strip_defined: "name \<noteq> [] \<Longrightarrow> \<exists>s. k_util_path_strip name = Some s"
  by (cases name) (auto simp: k_util_path_strip_def Let_def)

context block_device
begin

lemma header_ok: "unat off + 157 \<le> length data \<Longrightarrow> tar_read_header rd off = Some (slice data (unat off) 157)"
  using read_inside [of 157 off] by (simp add: tar_read_header_def length_slice)

lemma find_loop_ok:
  assumes "archive data (unat offs) es" and "unat dev_size = length data"
    and "\<forall>(name, content) \<in> set es. k_util_path_strip name = Some full \<longrightarrow> (\<exists>fn. k_util_path_filename name = Some (Some fn))"
  shows "case find (\<lambda>(name, content). k_util_path_strip name = Some full) es of
      None \<Rightarrow> tar_find_loop rd dev ops dev_size full offs = Some None
    | Some (name, content) \<Rightarrow> \<exists>k node. k < length es \<and> es ! k = (name, content) \<and> tar_find_loop rd dev ops dev_size full offs = Some (Some node) \<and>
        n_inode node = of_nat (unat offs + member_offset es k) \<and> n_size node = of_nat (length content) \<and>
        k_util_path_filename name = Some (Some (n_name node))"
  using assms(1,3)
proof (induction es arbitrary: offs)
  case Nil
  have "unat offs < unat dev_size" using archive_header [OF Nil(1)] assms(2) by simp
  then show ?case using Nil(1) header_ok [of offs] by (subst tar_find_loop.simps) (simp add: word_less_nat_alt)
next
  case (Cons e es)
  obtain name content where e: "e = (name, content)" by (cases e)
  let ?h = "slice data (unat offs) 157" and ?next = "tar_next offs (of_nat (length content))"
  have a: "unat offs + stride (length content) \<le> length data" "header_name ?h = Some name" "name \<noteq> []" "header_size ?h = of_nat (length content)"
    "archive data (unat offs + stride (length content)) es" using Cons(2) e by auto
  have lt: "offs < dev_size" "unat offs + 157 \<le> length data" using a(1) stride_bounds(2) [of "length content"] assms(2) by (simp_all add: word_less_nat_alt)
  obtain s where s: "k_util_path_strip name = Some s" using strip_defined [OF a(3)] by blast
  have step: "tar_find_loop rd dev ops dev_size full offs =
    (if s = full then do { node \<leftarrow> tar_create_node dev ops ?h offs; Some (Some node) } else tar_find_loop rd dev ops dev_size full ?next)"
    using lt a(2-4) s header_ok [OF lt(2)] by (subst tar_find_loop.simps) simp
  show ?case
  proof (cases "s = full")
    case True
    obtain fn where fn: "k_util_path_filename name = Some (Some fn)" using Cons(3) e s True by auto
    have "n_inode n = of_nat (unat offs)" if "n_inode n = ucast offs" for n :: vnode using that by simp
    then show ?thesis using True step e s a(2,4) fn by (auto simp: tar_create_node_def intro!: exI [of _ 0])
  next
    case False
    have nx: "unat ?next = unat offs + stride (length content)" using a(1) small by (intro tar_next_ok) auto
    have IH: "case find (\<lambda>(name, content). k_util_path_strip name = Some full) es of
        None \<Rightarrow> tar_find_loop rd dev ops dev_size full ?next = Some None
      | Some (name, content) \<Rightarrow> \<exists>k node. k < length es \<and> es ! k = (name, content) \<and> tar_find_loop rd dev ops dev_size full ?next = Some (Some node) \<and>
          n_inode node = of_nat (unat ?next + member_offset es k) \<and> n_size node = of_nat (length content) \<and>
          k_util_path_filename name = Some (Some (n_name node))"
      using a(5) Cons(3) nx by (intro Cons.IH) auto
    show ?thesis
    proof (cases "find (\<lambda>(name, content). k_util_path_strip name = Some full) es")
      case None
      then show ?thesis using IH step False e s by simp
    next
      case (Some f)
      obtain nm ct where f: "f = (nm, ct)" by (cases f)
      then obtain k node where k: "k < length es" "es ! k = (nm, ct)" "tar_find_loop rd dev ops dev_size full ?next = Some (Some node)"
        "n_inode node = of_nat (unat ?next + member_offset es k)" "n_size node = of_nat (length ct)" "k_util_path_filename nm = Some (Some (n_name node))"
        using IH Some by auto
      have "Suc k < length (e # es) \<and> (e # es) ! Suc k = (nm, ct) \<and> n_inode node = of_nat (unat offs + member_offset (e # es) (Suc k))"
        using k(1,2,4) nx e by (simp add: add.assoc)
      then show ?thesis using Some f step False e s k(3,5,6) by auto
    qed
  qed
qed

lemma tar_read_ok:
  assumes "archive data 0 es" and "k < length es" and "es ! k = (name, content)" and "unat off + unat sz < 2 ^ 32"
  shows "\<exists>n. tar_read rd (of_nat (member_offset es k)) off sz = Some (n, slice content (unat off) (unat sz))"
proof -
  let ?at = "member_offset es k"
  have "drop k es = (name, content) # drop (Suc k) es" using assms(2,3) by (metis Cons_nth_drop_Suc)
  then have a: "?at + stride (length content) \<le> length data" "header_size (slice data ?at 157) = of_nat (length content)" "slice data (?at + 512) (length content) = content"
    using archive_member [OF assms(1,2)] by auto
  have b: "?at + 512 + length content \<le> length data" using a(1) stride_bounds(1) [of "length content"] by linarith
  have at: "unat (of_nat ?at :: u32) = ?at" "unat (of_nat (length content) :: u32) = length content" using b small by (simp_all add: unat_of_nat_eq32)
  let ?n = "if of_nat (length content) < off + sz then of_nat (length content) - off else sz"
  have hdr: "tar_read_header rd (of_nat ?at) = Some (slice data ?at 157)" using header_ok [of "of_nat ?at"] at(1) b by simp
  show ?thesis
  proof (cases "unat off > length content")
    case True
    then show ?thesis using hdr a(2) at(2) by (simp add: tar_read_def slice_def word_less_nat_alt)
  next
    case False
    have n: "unat ?n = min (unat sz) (length content - unat off)"
      using False at(2) assms(4) by (auto simp: word_less_nat_alt unat_sub32 word_le_nat_alt unat_add32)
    have addr: "unat (of_nat ?at + 512 + off :: u32) = ?at + 512 + unat off"
    proof -
      have s: "unat (of_nat ?at + 512 :: u32) = ?at + 512" using b small at(1) by (subst unat_add32) auto
      then show ?thesis using b small False by (subst unat_add32) auto
    qed
    have "snd (rd (of_nat ?at + 512 + off) ?n) = slice content (unat off) (unat sz)"
    proof (cases "?n = 0")
      case True
      then have "unat (fst (rd (of_nat ?at + 512 + off) ?n)) \<le> 0" using bounded [of "of_nat ?at + 512 + off" ?n] by (simp add: word_le_nat_alt)
      then have "snd (rd (of_nat ?at + 512 + off) ?n) = []" using counts [of "of_nat ?at + 512 + off" ?n] by simp
      moreover have "min (unat sz) (length content - unat off) = 0" using n True by simp
      ultimately show ?thesis by (auto simp: slice_def min_def split: if_splits)
    next
      case nz: False
      have "rd (of_nat ?at + 512 + off) ?n = (?n, slice data (?at + 512 + unat off) (unat ?n))"
        using read_inside [OF nz, of "of_nat ?at + 512 + off"] addr n b False by auto
      then have "snd (rd (of_nat ?at + 512 + off) ?n) = slice data (?at + 512 + unat off) (unat ?n)" by simp
      also have "\<dots> = slice (slice data (?at + 512) (length content)) (unat off) (unat ?n)" using n False by (simp add: slice_slice)
      also have "\<dots> = slice content (unat off) (unat sz)" unfolding a(3) n by (simp add: slice_def min_def)
      finally show ?thesis .
    qed
    moreover have "tar_read rd (of_nat ?at) off sz = Some (rd (of_nat ?at + 512 + off) ?n)"
      using hdr a(2) at(2) False by (simp add: tar_read_def word_less_nat_alt)
    ultimately show ?thesis by (metis prod.collapse)
  qed
qed

end

section \<open>Properties\<close>


section \<open>An example archive\<close>

text \<open>The directory \<open>./\<close> and the file \<open>./a\<close> of two bytes.\<close>

definition tar_bytes :: "(nat \<times> u8) list" where
  "tar_bytes = [(0, 46), (1, 47), (512, 46), (513, 47), (514, 97), (1024, 104), (1025, 105), (646, 50)] @
     map (\<lambda>i. (i, 48)) [124, 125, 126, 127, 128, 129, 130, 131, 132, 133, 134] @
     map (\<lambda>i. (i, 48)) [636, 637, 638, 639, 640, 641, 642, 643, 644, 645]"

definition tar_disk :: ramdisk where
  "tar_disk = \<lparr>ram_base = 0x100000, ram_size = 2048\<rparr>"

lemma tar_image: "ramdisk_data (sparse_mem tar_bytes) tar_disk = sparse_at tar_bytes 0 2048"
  by (simp add: ramdisk_data_def tar_disk_def sparse_at_def)

lemma header_name_prefix:
  assumes "k < 157" and "\<forall>i < k. sparse_at bs off 157 ! i \<noteq> 0" and "sparse_at bs off 157 ! k = 0"
  shows "header_name (sparse_at bs off 157) = Some (map (\<lambda>i. char_of (unat (sparse_at bs off 157 ! i))) [0..<k])"
proof -
  have t: "takeWhile (\<lambda>b. b \<noteq> 0) (sparse_at bs off 157) = take k (sparse_at bs off 157)"
    using assms by (intro takeWhile_eq_take_P_nth) auto
  have z: "0 \<in> set (sparse_at bs off 157)" using assms(1,3) by (metis nth_mem sparse_length)
  have "take k (sparse_at bs off 157) = map (\<lambda>i. sparse_at bs off 157 ! i) [0..<k]"
    using assms(1) by (intro nth_equalityI) auto
  then show ?thesis using z by (simp add: header_name_def t comp_def)
qed

lemma tar_chars: "char_of (46 :: nat) = CHR ''.''" "char_of (47 :: nat) = CHR ''/''" "char_of (97 :: nat) = CHR ''a''"
  by (simp_all add: char_of_def bit_iff_odd)

lemma tar_size_numeral: "tar_size_loop digits (numeral k) sz cnt =
    tar_size_loop digits (pred_numeral k) (sz + (scast (digits ! pred_numeral k) - 48) * cnt) (cnt * 8)"
  by (simp add: numeral_eq_Suc)

lemma less_two: "(\<forall>i < 2. P i) \<longleftrightarrow> P 0 \<and> P (1 :: nat)"
  by (auto simp: less_Suc_eq numeral_2_eq_2)

lemma less_three: "(\<forall>i < 3. P i) \<longleftrightarrow> P 0 \<and> P 1 \<and> P (2 :: nat)"
  by (auto simp: less_Suc_eq numeral_3_eq_3 numeral_2_eq_2)

lemma upt_three: "[0..<3] = [0, 1, 2 :: nat]"
  by (simp add: upt_rec numeral_3_eq_3 numeral_2_eq_2)

lemma tar_names:
  "header_name (sparse_at tar_bytes 0 157) = Some ''./''"
  "header_name (sparse_at tar_bytes 512 157) = Some ''./a''"
  "header_name (sparse_at tar_bytes 1536 157) = Some []"
proof -
  have n: "sparse_at tar_bytes 0 157 ! 0 = 46" "sparse_at tar_bytes 0 157 ! 1 = 47" "sparse_at tar_bytes 0 157 ! 2 = 0"
    by (simp_all add: sparse_nth tar_bytes_def)
  have "header_name (sparse_at tar_bytes 0 157) = Some (map (\<lambda>i. char_of (unat (sparse_at tar_bytes 0 157 ! i))) [0..<2])"
    by (rule header_name_prefix) (simp_all add: n less_two n [simplified])
  then show "header_name (sparse_at tar_bytes 0 157) = Some ''./''" using n by (simp add: upt_rec tar_chars)
  have m: "sparse_at tar_bytes 512 157 ! 0 = 46" "sparse_at tar_bytes 512 157 ! 1 = 47" "sparse_at tar_bytes 512 157 ! 2 = 97"
    "sparse_at tar_bytes 512 157 ! 3 = 0"
    by (simp_all add: sparse_nth tar_bytes_def)
  have "header_name (sparse_at tar_bytes 512 157) = Some (map (\<lambda>i. char_of (unat (sparse_at tar_bytes 512 157 ! i))) [0..<3])"
    by (rule header_name_prefix) (simp_all add: m less_three m [simplified])
  then show "header_name (sparse_at tar_bytes 512 157) = Some ''./a''" using m by (simp add: upt_three tar_chars)
  have "header_name (sparse_at tar_bytes 1536 157) = Some (map (\<lambda>i. char_of (unat (sparse_at tar_bytes 1536 157 ! i))) [0..<0])"
    by (rule header_name_prefix) (simp_all add: sparse_nth tar_bytes_def)
  then show "header_name (sparse_at tar_bytes 1536 157) = Some []" by simp
qed

lemma tar_sizes:
  "header_size (sparse_at tar_bytes 0 157) = 0" "header_size (sparse_at tar_bytes 512 157) = 2"
  by (simp_all add: header_size_def tar_get_size_def sparse_slice tar_size_numeral sparse_nth tar_bytes_def)

lemma tar_archive: "archive (sparse_at tar_bytes 0 2048) 0 [(''./'', []), (''./a'', [104, 105])]"
proof -
  have "sparse_at tar_bytes 1024 2 ! 0 = 104" "sparse_at tar_bytes 1024 2 ! 1 = 105" by (simp_all add: sparse_nth tar_bytes_def)
  then have "\<forall>i < 2. sparse_at tar_bytes 1024 2 ! i = [104, 105] ! i" by (simp add: less_two)
  then have "sparse_at tar_bytes 1024 2 = [104, 105]" by (intro nth_equalityI) auto
  then show ?thesis by (simp add: stride_def sparse_slice tar_names tar_sizes slice_def [of _ _ 0] numeral_2_eq_2 [symmetric])
qed


end
