(* ===== verification/Socket.thy ===== *)
theory Socket
  imports Mutex Pipe Syscall
begin

text \<open>
  Local sockets, from \<^verbatim>\<open>kernel/src/fs/socket.c\<close>, with the system calls on them of \<^verbatim>\<open>kernel/src/int/syscall.c\<close>: creation,
  binding to a path, listening, the handshake of \<open>connect\<close> and \<open>accept\<close>, reading, writing and the interface of
  \<open>select\<close>. Sockets are kept in a store by their address; they are what the drivers keep beside the
  kernel in the state of \<open>Syscall\<close>. A call that may sleep is a sequence of turns: \<open>Asleep\<close> says where it
  goes on when the process runs again. Addresses of new objects are arguments, and \<open>junk\<close> is what new
  memory holds. Access through a pointer to no object or outside of a buffer is \<open>None\<close>.
\<close>

section \<open>State\<close>

record socket =
  s_addr :: "u8 list option"
  s_addr_len :: u32
  s_bind :: ptr
  s_connect :: ptr
  s_node :: ptr
  s_domain :: int
  s_type :: u32
  s_listening :: int
  s_backlog :: "ptr list"
  s_buffer :: "u8 list"
  s_buffer_size :: u32
  s_available_data :: u32
  s_cnn_blocked_processes :: ptr
  s_blocked_processes :: ptr
  s_lock :: mutex
  s_sel_queues :: "ptr list"

type_synonym sockets = "ptr \<Rightarrow> socket option"
type_synonym net = "sockets sys"

abbreviation (input) SOCKET_MAX_BUFFER_SIZE :: u32 where "SOCKET_MAX_BUFFER_SIZE \<equiv> 65536"
abbreviation (input) SOCKET_INIT_BUFFER_SIZE :: u32 where "SOCKET_INIT_BUFFER_SIZE \<equiv> 4096"
abbreviation (input) AF_LOCAL :: int where "AF_LOCAL \<equiv> 0"
abbreviation (input) SOCK_NONBLOCK :: u32 where "SOCK_NONBLOCK \<equiv> 1"
abbreviation (input) REFUSED :: ptr where "REFUSED \<equiv> 0xFFFFFFFF"

definition sock_at :: "net \<Rightarrow> ptr \<Rightarrow> socket option" where
  "sock_at s p = snd (drv_data s) p"

definition set_sock :: "net \<Rightarrow> ptr \<Rightarrow> socket option \<Rightarrow> net" where
  "set_sock s p x = s\<lparr>drv_data := (kern s, (snd (drv_data s))(p := x))\<rparr>"

text \<open>A turn of a call: the value it returns, or the place where it sleeps.\<close>

datatype ('a, 'c) turn = Returned 'a | Asleep 'c

section \<open>Readiness\<close>

definition socket_event2index :: "u8 \<Rightarrow> int" where
  "socket_event2index event =
     (if event = VFS_EVENT_READ then 0 else if event = VFS_EVENT_WRITE then 1 else if event = VFS_EVENT_EXCEPT then 2 else - 22)"

definition socket_check :: "net \<Rightarrow> ptr \<Rightarrow> u8 \<Rightarrow> bool option" where
  "socket_check s node event = do {
     n \<leftarrow> vnodes s node;
     if n_device n = NULL then Some False
     else do {
       x \<leftarrow> sock_at s (n_device n);
       Some (if event = VFS_EVENT_READ then s_available_data x > 0 \<or> length (s_backlog x) > 0
             else if event = VFS_EVENT_WRITE then s_available_data x < SOCKET_MAX_BUFFER_SIZE
             else False) } }"

definition socket_wait :: "net \<Rightarrow> ptr \<Rightarrow> u8 \<Rightarrow> ptr \<Rightarrow> (int \<times> net) option" where
  "socket_wait s node event prc = do {
     n \<leftarrow> vnodes s node;
     if n_device n = NULL then Some (- 2, s)
     else do {
       x \<leftarrow> sock_at s (n_device n);
       let idx = socket_event2index event;
       if idx < 0 then Some (idx, s)
       else if prc \<notin> set (queues (kern s) (s_sel_queues x ! nat idx))
       then do { k \<leftarrow> k_proc_process_own_block (kern s) prc (s_sel_queues x ! nat idx); Some (0, set_kern s k) }
       else Some (0, s) } }"

definition socket_notify :: "net \<Rightarrow> ptr \<Rightarrow> u8 \<Rightarrow> net option" where
  "socket_notify s node event = do {
     n \<leftarrow> vnodes s node;
     let idx = socket_event2index event;
     if idx < 0 then Some s
     else do {
       x \<leftarrow> sock_at s (n_device n);
       k \<leftarrow> k_proc_process_wakeup_queue_select (kern s) (s_sel_queues x ! nat idx) node event;
       Some (set_kern s k) } }"

definition wake :: "net \<Rightarrow> ptr \<Rightarrow> net option" where
  "wake s q = do { k \<leftarrow> k_proc_process_wakeup_queue (kern s) q; Some (set_kern s k) }"

definition doze :: "net \<Rightarrow> ptr \<Rightarrow> net option" where
  "doze s q = do { k \<leftarrow> sleep_prepare (kern s) (current_process (kern s)) q; Some (set_kern s k) }"

section \<open>Reading\<close>

text \<open>
  Where a read sleeps: waiting for data, with \<open>data_left\<close>, or for the mutex, with \<open>to_read\<close> too; in both
  the buffer of the caller, to whose beginning each round copies.
\<close>

datatype read_at =
    ReadData u32 "u8 list"
  | ReadLock u32 u32 "u8 list"

text \<open>What happens under the mutex: the copy, and the rest of the data moved to the front.\<close>

definition socket_take :: "socket \<Rightarrow> u32 \<Rightarrow> u8 list \<Rightarrow> (u8 list \<times> socket) option" where
  "socket_take x to_read buf =
     (let n = unat to_read; left = s_available_data x - to_read
      in if n > length (s_buffer x) \<or> n > length buf then None
         else if left \<noteq> 0 \<and> n + unat left > length (s_buffer x) then None
         else Some (take n (s_buffer x) @ drop n buf,
                    x\<lparr>s_available_data := left,
                      s_buffer := (if left \<noteq> 0 then take (unat left) (drop n (s_buffer x)) @ drop (unat left) (s_buffer x) else s_buffer x)\<rparr>))"

definition socket_take_unlock :: "net \<Rightarrow> ptr \<Rightarrow> u32 \<Rightarrow> u8 list \<Rightarrow> (u8 list \<times> net) option" where
  "socket_take_unlock s sock to_read buf = do {
     x \<leftarrow> sock_at s sock;
     (buf', y) \<leftarrow> socket_take x to_read buf;
     (k, m) \<leftarrow> mutex_unlock (kern s) (s_lock y);
     Some (buf', set_sock (set_kern s k) sock (Some (y\<lparr>s_lock := m\<rparr>))) }"

definition socket_read_end :: "net \<Rightarrow> ptr \<Rightarrow> u32 \<Rightarrow> u32 \<Rightarrow> u8 list \<Rightarrow> ((u32 \<times> u8 list, read_at) turn \<times> net) option" where
  "socket_read_end s node sz left buf = do { s1 \<leftarrow> socket_notify s node VFS_EVENT_WRITE; Some (Returned (sz - left, buf), s1) }"

partial_function (option) socket_read_loop ::
  "net \<Rightarrow> ptr \<Rightarrow> ptr \<Rightarrow> u32 \<Rightarrow> u32 \<Rightarrow> u8 list \<Rightarrow> ((u32 \<times> u8 list, read_at) turn \<times> net) option" where
  "socket_read_loop s node sock sz left buf =
     (if left = 0 then socket_read_end s node sz left buf
      else do {
        n \<leftarrow> vnodes s node;
        x \<leftarrow> sock_at s sock;
        if s_available_data x = 0
        then if n_mode n AND 64 \<noteq> 0 then socket_read_end s node sz left buf
             else do { s1 \<leftarrow> doze s (s_blocked_processes x); Some (Asleep (ReadData left buf), s1) }
        else do {
          let to_read = (if sz < s_available_data x then sz else s_available_data x);
          (t, k, m) \<leftarrow> mutex_lock (kern s) (s_lock x);
          let s1 = set_sock (set_kern s k) sock (Some (x\<lparr>s_lock := m\<rparr>));
          case t of
            Waiting \<Rightarrow> Some (Asleep (ReadLock left to_read buf), s1)
          | Acquired \<Rightarrow> do {
              (buf', s2) \<leftarrow> socket_take_unlock s1 sock to_read buf;
              socket_read_loop s2 node sock sz (left - to_read) buf' } } })"

definition socket_read :: "net \<Rightarrow> ptr \<Rightarrow> u32 \<Rightarrow> u8 list \<Rightarrow> ((u32 \<times> u8 list, read_at) turn \<times> net) option" where
  "socket_read s node sz buf = do {
     n \<leftarrow> vnodes s node;
     if n_device n = NULL then Some (Returned (0, buf), s) else socket_read_loop s node (n_device n) sz sz buf }"

text \<open>The turns of a read after a sleep.\<close>

definition socket_read_again :: "net \<Rightarrow> ptr \<Rightarrow> ptr \<Rightarrow> u32 \<Rightarrow> read_at \<Rightarrow> ((u32 \<times> u8 list, read_at) turn \<times> net) option" where
  "socket_read_again s node sock sz at =
     (case at of
        ReadData left buf \<Rightarrow> socket_read_loop s node sock sz left buf
      | ReadLock left to_read buf \<Rightarrow> do {
          x \<leftarrow> sock_at s sock;
          (t, k, m) \<leftarrow> lock_loop (kern s) (s_lock x);
          let s1 = set_sock (set_kern s k) sock (Some (x\<lparr>s_lock := m\<rparr>));
          case t of
            Waiting \<Rightarrow> Some (Asleep (ReadLock left to_read buf), s1)
          | Acquired \<Rightarrow> do {
              (buf', s2) \<leftarrow> socket_take_unlock s1 sock to_read buf;
              socket_read_loop s2 node sock sz (left - to_read) buf' } })"

section \<open>Writing\<close>

datatype write_at =
    WriteLock
  | WriteRoom u32

definition socket_grow :: "u8 \<Rightarrow> socket \<Rightarrow> socket" where
  "socket_grow junk x = (let n = s_buffer_size x + SOCKET_INIT_BUFFER_SIZE
     in x\<lparr>s_buffer_size := n, s_buffer := arr_realloc junk (s_buffer x) (unat n)\<rparr>)"

text \<open>One round of the copy: as many bytes as there is room for, always from the beginning of the caller's buffer.\<close>

definition socket_append :: "socket \<Rightarrow> u32 \<Rightarrow> u8 list \<Rightarrow> socket option" where
  "socket_append x n buf =
     (let at = unat (s_available_data x)
      in if unat n > length buf \<or> at + unat n > length (s_buffer x) then None
         else Some (x\<lparr>s_buffer := take at (s_buffer x) @ take (unat n) buf @ drop (at + unat n) (s_buffer x),
                      s_available_data := s_available_data x + n\<rparr>))"

text \<open>The loop; \<open>room\<close> says that it goes on inside the inner loop, which waits until the buffer may grow.\<close>

partial_function (option) socket_write_loop ::
  "u8 \<Rightarrow> net \<Rightarrow> ptr \<Rightarrow> ptr \<Rightarrow> ptr \<Rightarrow> u8 list \<Rightarrow> bool \<Rightarrow> u32 \<Rightarrow> ((u32, write_at) turn \<times> net) option" where
  "socket_write_loop junk s node sock client buf room to_write =
     (if \<not> room \<and> to_write = 0
      then do {
        c \<leftarrow> sock_at s client;
        (k, m) \<leftarrow> mutex_unlock (kern s) (s_lock c);
        Some (Returned (of_nat (length buf)), set_sock (set_kern s k) client (Some (c\<lparr>s_lock := m\<rparr>))) }
      else do {
        n \<leftarrow> vnodes s node;
        c \<leftarrow> sock_at s client;
        if (room \<or> s_available_data c \<ge> s_buffer_size c) \<and> s_available_data c \<ge> SOCKET_MAX_BUFFER_SIZE
        then if n_mode n AND 64 = 0
             then do { x \<leftarrow> sock_at s sock; s1 \<leftarrow> doze s (s_blocked_processes x); Some (Asleep (WriteRoom to_write), s1) }
             else do { s1 \<leftarrow> socket_notify s node VFS_EVENT_EXCEPT; Some (Returned (- 105), s1) }
        else do {
          let c1 = (if room \<or> s_available_data c \<ge> s_buffer_size c then socket_grow junk c else c);
          let sz = (if s_buffer_size c1 - s_available_data c1 < to_write then s_buffer_size c1 - s_available_data c1 else to_write);
          c2 \<leftarrow> socket_append c1 sz buf;
          s1 \<leftarrow> wake (set_sock s client (Some c2)) (s_blocked_processes c2);
          s2 \<leftarrow> socket_notify s1 (s_node c2) VFS_EVENT_READ;
          socket_write_loop junk s2 node sock client buf False (to_write - sz) } })"

definition socket_write_locked ::
  "u8 \<Rightarrow> net \<Rightarrow> ptr \<Rightarrow> ptr \<Rightarrow> ptr \<Rightarrow> u8 list \<Rightarrow> lock_turn \<times> kernel \<times> mutex \<Rightarrow> socket \<Rightarrow> ((u32, write_at) turn \<times> net) option" where
  "socket_write_locked junk s node sock client buf = (\<lambda>(t, k, m) c.
     let s1 = set_sock (set_kern s k) client (Some (c\<lparr>s_lock := m\<rparr>))
     in case t of
          Waiting \<Rightarrow> Some (Asleep WriteLock, s1)
        | Acquired \<Rightarrow> socket_write_loop junk s1 node sock client buf False (of_nat (length buf)))"

definition socket_write :: "u8 \<Rightarrow> net \<Rightarrow> ptr \<Rightarrow> u8 list \<Rightarrow> ((u32, write_at) turn \<times> net) option" where
  "socket_write junk s node buf = do {
     n \<leftarrow> vnodes s node;
     if n_device n = NULL then Some (Returned 0, s)
     else do {
       x \<leftarrow> sock_at s (n_device n);
       if s_domain x \<noteq> AF_LOCAL then Some (Returned (- EINVAL), s)
       else if s_connect x = NULL then Some (Returned (- 128), s)
       else do {
         c \<leftarrow> sock_at s (s_connect x);
         l \<leftarrow> mutex_lock (kern s) (s_lock c);
         socket_write_locked junk s node (n_device n) (s_connect x) buf l c } } }"

definition socket_write_again :: "u8 \<Rightarrow> net \<Rightarrow> ptr \<Rightarrow> ptr \<Rightarrow> ptr \<Rightarrow> u8 list \<Rightarrow> write_at \<Rightarrow> ((u32, write_at) turn \<times> net) option" where
  "socket_write_again junk s node sock client buf at =
     (case at of
        WriteLock \<Rightarrow> do { c \<leftarrow> sock_at s client; l \<leftarrow> lock_loop (kern s) (s_lock c); socket_write_locked junk s node sock client buf l c }
      | WriteRoom to_write \<Rightarrow> socket_write_loop junk s node sock client buf True to_write)"

section \<open>Creation, closing and removal\<close>

text \<open>\<open>drv\<close> is the function table of sockets; \<open>a\<close>, \<open>p\<close> and \<open>qs\<close> are the addresses of the node, the socket and its queues.\<close>

definition k_fs_socket_create :: "nat \<Rightarrow> u8 \<Rightarrow> net \<Rightarrow> int \<Rightarrow> u32 \<Rightarrow> ptr \<times> ptr \<times> ptr list \<Rightarrow> (ptr \<times> net) option" where
  "k_fs_socket_create ops junk s domain type = (\<lambda>(a, p, qs).
     if domain \<noteq> AF_LOCAL then Some (NULL, s)
     else case qs of
       [blocked, cnn, q0, q1, q2, mq] \<Rightarrow> do {
         s1 \<leftarrow> k_fs_vfs_create_node s a ''[socket]'';
         let k1 = set_queue (set_queue (set_queue (set_queue (set_queue (kern s1) blocked []) cnn []) q0 []) q1 []) q2 [];
         let (m, k2) = mutex_init k1 0 mq;
         let s2 = set_sock (set_kern s1 k2) p (Some
           \<lparr>s_addr = None, s_addr_len = 0, s_bind = NULL, s_connect = NULL, s_node = a, s_domain = domain, s_type = type, s_listening = 0,
            s_backlog = [], s_buffer = replicate 4096 junk, s_buffer_size = SOCKET_INIT_BUFFER_SIZE, s_available_data = 0,
            s_cnn_blocked_processes = cnn, s_blocked_processes = blocked, s_lock = m, s_sel_queues = [q0, q1, q2]\<rparr>);
         n \<leftarrow> vnodes s2 a;
         Some (a, s2\<lparr>vnodes := (vnodes s2)(a \<mapsto> n\<lparr>n_device := p, n_fs := DriverOps ops,
           n_mode := (if type AND SOCK_NONBLOCK \<noteq> 0 then 67 else 3)\<rparr>)\<rparr>) }
     | _ \<Rightarrow> None)"

definition socket_close :: "net \<Rightarrow> ptr \<Rightarrow> net option" where
  "socket_close s node = do {
     n \<leftarrow> vnodes s node;
     x \<leftarrow> sock_at s (n_device n);
     if s_connect x = NULL then Some s
     else do {
       let s1 = set_sock s (n_device n) (Some (x\<lparr>s_connect := NULL\<rparr>));
       y \<leftarrow> sock_at s1 (s_connect x);
       Some (set_sock s1 (s_connect x) (Some (y\<lparr>s_connect := NULL\<rparr>))) } }"

fun free_sel_queues :: "net \<Rightarrow> ptr \<Rightarrow> ptr list \<Rightarrow> net option" where
  "free_sel_queues s node [] = Some s"
| "free_sel_queues s node (q # qs) = do {
     k \<leftarrow> k_proc_process_wakeup_queue_select (kern s) q node VFS_EVENT_EXCEPT;
     free_sel_queues (set_kern s k) node qs }"

definition socket_remove :: "net \<Rightarrow> ptr \<Rightarrow> (int \<times> net) option" where
  "socket_remove s node = do {
     n \<leftarrow> vnodes s node;
     x \<leftarrow> sock_at s (n_device n);
     s1 \<leftarrow> free_sel_queues s node (s_sel_queues x);
     let s2 = set_sock s1 (n_device n) None;
     n1 \<leftarrow> vnodes s2 node;
     Some (0, s2\<lparr>vnodes := (vnodes s2)(node \<mapsto> n1\<lparr>n_device := NULL\<rparr>)\<rparr>) }"

section \<open>Connections\<close>

text \<open>The field \<open>sun_path\<close> of an address: behind the two bytes of the family, up to a zero.\<close>

definition sun_path :: "u8 list \<Rightarrow> string option" where
  "sun_path addr = (let p = drop 2 addr in if 0 \<in> set p then Some (map (\<lambda>b. char_of (unat b)) (takeWhile (\<lambda>b. b \<noteq> 0) p)) else None)"

text \<open>The result of \<open>k_fs_vfs_mount_node\<close> is not looked at.\<close>

definition k_fs_socket_bind ::
  "(nat \<Rightarrow> (kernel \<times> sockets) driver) \<Rightarrow> net \<Rightarrow> ptr \<Rightarrow> u8 list \<Rightarrow> u32 \<Rightarrow> ptr \<Rightarrow> (ptr \<times> ptr \<times> ptr) list \<Rightarrow> (int \<times> net) option" where
  "k_fs_socket_bind drv s sock addr l a new = do {
     x \<leftarrow> sock_at s sock;
     if s_bind x \<noteq> NULL then Some (- 22, s)
     else if s_domain x = AF_LOCAL then
       if unat l > length addr then None
       else do {
         let s1 = set_sock s sock (Some (x\<lparr>s_addr := Some (take (unat l) addr), s_addr_len := l\<rparr>));
         s2 \<leftarrow> k_fs_vfs_create_node s1 a ''[local-socket]'';
         n \<leftarrow> vnodes s2 a;
         let s3 = s2\<lparr>vnodes := (vnodes s2)(a \<mapsto> n\<lparr>n_device := sock\<rparr>)\<rparr>;
         path \<leftarrow> sun_path addr;
         (_, s4) \<leftarrow> k_fs_vfs_mount_node drv s3 path a new;
         y \<leftarrow> sock_at s4 sock;
         Some (0, set_sock s4 sock (Some (y\<lparr>s_bind := a\<rparr>))) }
     else Some (- 22, s) }"

definition socket_connect_wait :: "net \<Rightarrow> ptr \<Rightarrow> ptr \<Rightarrow> ((int, ptr) turn \<times> net) option" where
  "socket_connect_wait s sock server = do {
     x \<leftarrow> sock_at s sock;
     if s_connect x = NULL
     then if s_type x AND SOCK_NONBLOCK \<noteq> 0 then Some (Returned (- 11), s)
          else do { y \<leftarrow> sock_at s server; s1 \<leftarrow> doze s (s_cnn_blocked_processes y); Some (Asleep server, s1) }
     else if s_connect x = REFUSED then Some (Returned (- 22), set_sock s sock (Some (x\<lparr>s_connect := NULL\<rparr>)))
     else Some (Returned 0, s) }"

definition k_fs_socket_connect ::
  "(nat \<Rightarrow> (kernel \<times> sockets) driver) \<Rightarrow> net \<Rightarrow> ptr \<Rightarrow> u8 list \<Rightarrow> u32 \<Rightarrow> ptr \<Rightarrow> ptr \<Rightarrow> ((int, ptr) turn \<times> net) option" where
  "k_fs_socket_connect drv s sock addr l copy copy2 = do {
     x \<leftarrow> sock_at s sock;
     if s_connect x \<noteq> NULL then Some (Returned (- 127), s)
     else if s_domain x = AF_LOCAL then do {
       path \<leftarrow> sun_path addr;
       (remote, s1) \<leftarrow> k_fs_vfs_open drv s path 3 copy copy2;
       if remote = NULL then Some (Returned (- 2), s1)
       else do {
         n \<leftarrow> vnodes s1 remote;
         sv \<leftarrow> sock_at s1 (n_device n);
         if s_listening sv = 0 then Some (Returned (- 111), s1)
         else if unat l > length addr then None
         else do {
           y \<leftarrow> sock_at s1 sock;
           let s2 = set_sock s1 sock (Some (y\<lparr>s_addr_len := l, s_addr := Some (take (unat l) addr)\<rparr>));
           sv2 \<leftarrow> sock_at s2 (n_device n);
           let s3 = set_sock s2 (n_device n) (Some (sv2\<lparr>s_backlog := s_backlog sv2 @ [sock]\<rparr>));
           s4 \<leftarrow> socket_notify s3 remote VFS_EVENT_READ;
           s5 \<leftarrow> wake s4 (s_blocked_processes sv2);
           socket_connect_wait s5 sock (n_device n) } } }
     else Some (Returned (- 22), s) }"

definition k_fs_socket_listen :: "net \<Rightarrow> ptr \<Rightarrow> (int \<times> net) option" where
  "k_fs_socket_listen s sock = do { x \<leftarrow> sock_at s sock; Some (0, set_sock s sock (Some (x\<lparr>s_listening := 1\<rparr>))) }"

text \<open>A turn of \<open>accept\<close>; after a sleep the same test comes first. The address of the new connection is that of the client.\<close>

definition k_fs_socket_accept :: "nat \<Rightarrow> u8 \<Rightarrow> net \<Rightarrow> ptr \<Rightarrow> ptr \<times> ptr \<times> ptr list \<Rightarrow> ((int \<times> ptr, unit) turn \<times> net) option" where
  "k_fs_socket_accept ops junk s sock new = do {
     x \<leftarrow> sock_at s sock;
     if s_domain x = AF_LOCAL
     then case s_backlog x of
         [] \<Rightarrow> if s_type x AND SOCK_NONBLOCK \<noteq> 0 then Some (Returned (- 11, NULL), s)
              else do { s1 \<leftarrow> doze s (s_blocked_processes x); Some (Asleep (), s1) }
       | client # rest \<Rightarrow> do {
           let s1 = set_sock s sock (Some (x\<lparr>s_backlog := rest\<rparr>));
           (node, s2) \<leftarrow> k_fs_socket_create ops junk s1 (s_domain x) (s_type x) new;
           n \<leftarrow> vnodes s2 node;
           c \<leftarrow> sock_at s2 client;
           let s3 = set_sock s2 client (Some (c\<lparr>s_connect := n_device n\<rparr>));
           y \<leftarrow> sock_at s3 (n_device n);
           adr \<leftarrow> s_addr c;
           let s4 = set_sock s3 (n_device n) (Some (y\<lparr>s_connect := client, s_addr_len := s_addr_len c, s_addr := Some adr\<rparr>));
           s5 \<leftarrow> wake s4 (s_cnn_blocked_processes x);
           Some (Returned (0, node), s5) }
     else Some (Returned (- 134, NULL), s) }"

section \<open>System calls\<close>

definition sock_fd :: "net \<Rightarrow> int \<Rightarrow> ptr option" where
  "sock_fd s fd = do { t \<leftarrow> fdts (kern s) (fdt_at s fd); n \<leftarrow> vnodes s (fd_node t); Some (n_device n) }"

definition sys_socket :: "nat \<Rightarrow> u8 \<Rightarrow> net \<Rightarrow> int \<Rightarrow> u32 \<Rightarrow> ptr \<times> ptr \<times> ptr list \<Rightarrow> ptr \<Rightarrow> (int \<times> net) option" where
  "sys_socket ops junk s d t new fdt = do {
     (node, s1) \<leftarrow> k_fs_socket_create ops junk s d t new;
     if node = NULL then Some (- 22, s1)
     else do {
       s2 \<leftarrow> enter_node s1 node;
       (fd, k) \<leftarrow> k_proc_process_open_node (kern s2) (current_process (kern s2)) node fdt;
       Some (sint fd, set_kern s2 k) } }"

definition sys_bind ::
  "(nat \<Rightarrow> (kernel \<times> sockets) driver) \<Rightarrow> net \<Rightarrow> int \<Rightarrow> u8 list \<Rightarrow> u32 \<Rightarrow> ptr \<Rightarrow> (ptr \<times> ptr \<times> ptr) list \<Rightarrow> (int \<times> net) option" where
  "sys_bind drv s fd addr l a new =
     (if fdt_at s fd = NULL then Some (- 2, s)
      else do { sock \<leftarrow> sock_fd s fd; k_fs_socket_bind drv s sock addr l a new })"

definition sys_connect ::
  "(nat \<Rightarrow> (kernel \<times> sockets) driver) \<Rightarrow> net \<Rightarrow> int \<Rightarrow> u8 list \<Rightarrow> u32 \<Rightarrow> ptr \<Rightarrow> ptr \<Rightarrow> ((int, ptr) turn \<times> net) option" where
  "sys_connect drv s fd addr l copy copy2 =
     (if fdt_at s fd = NULL then Some (Returned (- 2), s)
      else do { sock \<leftarrow> sock_fd s fd; k_fs_socket_connect drv s sock addr l copy copy2 })"

definition sys_listen :: "net \<Rightarrow> int \<Rightarrow> (int \<times> net) option" where
  "sys_listen s fd = (if fdt_at s fd = NULL then Some (- 2, s) else do { sock \<leftarrow> sock_fd s fd; k_fs_socket_listen s sock })"

text \<open>A turn of \<open>accept\<close>; with \<open>want\<close> the address of the client and its length are stored for the caller.\<close>

definition sys_accept ::
  "nat \<Rightarrow> u8 \<Rightarrow> net \<Rightarrow> int \<Rightarrow> bool \<Rightarrow> ptr \<times> ptr \<times> ptr list \<Rightarrow> ptr \<Rightarrow> ((int \<times> (u32 \<times> u8 list) option, unit) turn \<times> net) option" where
  "sys_accept ops junk s fd want new fdt =
     (if fdt_at s fd = NULL then Some (Returned (- 2, None), s)
      else do {
        sock \<leftarrow> sock_fd s fd;
        (t, s1) \<leftarrow> k_fs_socket_accept ops junk s sock new;
        case t of
          Asleep _ \<Rightarrow> Some (Asleep (), s1)
        | Returned (r, node) \<Rightarrow>
            if r < 0 then Some (Returned (r, None), s1)
            else do {
              n \<leftarrow> vnodes s1 node;
              x \<leftarrow> sock_at s1 (n_device n);
              adr \<leftarrow> (if want then do { a \<leftarrow> s_addr x; Some (Some (s_addr_len x, a)) } else Some None);
              s2 \<leftarrow> enter_node s1 node;
              (d, k) \<leftarrow> k_proc_process_open_node (kern s2) (current_process (kern s2)) node fdt;
              Some (Returned (sint d, adr), set_kern s2 k) } })"

section \<open>Simplification\<close>

lemma sock_simps [simp]:
  "sock_at (set_sock s p x) q = (if q = p then x else sock_at s q)" "kern (set_sock s p x) = kern s" "vnodes (set_sock s p x) = vnodes s"
  "sock_at (set_kern s k) q = sock_at s q" "set_kern (set_sock s p x) k = set_sock (set_kern s k) p x"
  "set_sock (set_sock s p x) p y = set_sock s p y"
  "sock_at (s\<lparr>vnodes := v\<rparr>) q = sock_at s q" "kern (s\<lparr>vnodes := v\<rparr>) = kern s"
  by (simp_all add: sock_at_def set_sock_def kern_def set_kern_def)

section \<open>Streams\<close>

lemma wake_ok:
  assumes "sched_inv (kern s)"
  shows "\<exists>k. wake s q = Some (set_kern s k) \<and> sched_inv k \<and> same_rest (kern s) k \<and> queues k q = [] \<and>
    (\<forall>q'. queues (kern s) q' = [] \<longrightarrow> queues k q' = []) \<and> (\<forall>p. has_block k p = has_block (kern s) p) \<and>
    (\<forall>p \<in> set (queues (kern s) q). pstate (procs (kern s) p) = PROCESS_STATE_SLEEPING \<longrightarrow> p \<in> set (ready_queue k))"
proof (rule wakeup_facts [OF assms, of q])
  fix k assume k: "k_proc_process_wakeup_queue (kern s) q = Some k" "sched_inv k" "queues k q = []" "same_rest (kern s) k"
    "\<forall>q'. queues (kern s) q' = [] \<longrightarrow> queues k q' = []" "\<forall>p. has_block k p = has_block (kern s) p"
    "\<forall>p \<in> set (queues (kern s) q). pstate (procs (kern s) p) = PROCESS_STATE_SLEEPING \<longrightarrow> p \<in> set (ready_queue k)"
  show ?thesis by (rule exI [of _ k]) (use k in \<open>simp add: wake_def\<close>)
qed

lemma notify_ok:
  assumes "sched_inv (kern s)" and "vnodes s node = Some n" and "sock_at s (n_device n) = Some x"
  shows "\<exists>k. socket_notify s node event = Some (set_kern s k) \<and> sched_inv k \<and> same_rest (kern s) k \<and>
    (\<forall>q. queues (kern s) q = [] \<longrightarrow> queues k q = []) \<and> (\<forall>p. has_block (kern s) p \<longrightarrow> has_block k p)"
proof (cases "socket_event2index event < 0")
  case True
  then show ?thesis using assms by (auto simp: socket_notify_def intro!: exI [of _ "kern s"])
next
  case False
  let ?q = "s_sel_queues x ! nat (socket_event2index event)"
  obtain k where k: "k_proc_process_wakeup_queue_select (kern s) ?q node event = Some k" "sched_inv k" "same_rest (kern s) k"
    "\<forall>q. queues (kern s) q = [] \<longrightarrow> queues k q = []" "\<forall>p. has_block (kern s) p \<longrightarrow> has_block k p"
    by (rule select_facts [OF assms(1), of ?q node event]) blast
  show ?thesis by (rule exI [of _ k]) (use k False assms(2,3) in \<open>simp add: socket_notify_def\<close>)
qed

text \<open>What a socket holds, and the sockets whose mutex is free and whose fields agree.\<close>

definition content :: "socket \<Rightarrow> u8 list" where
  "content x = take (unat (s_available_data x)) (s_buffer x)"

definition sock_ok :: "socket \<Rightarrow> bool" where
  "sock_ok x \<longleftrightarrow> length (s_buffer x) = unat (s_buffer_size x) \<and> s_available_data x \<le> s_buffer_size x \<and>
     4096 \<le> s_buffer_size x \<and> s_buffer_size x \<le> 69632 \<and> spin (s_lock x) = 0 \<and> locked (s_lock x) = 0"

text \<open>What can be written at once: what fits, or what a full buffer grows by.\<close>

definition room :: "socket \<Rightarrow> nat" where
  "room x = (if s_available_data x \<ge> s_buffer_size x
     then if s_available_data x < SOCKET_MAX_BUFFER_SIZE then 4096 else 0
     else unat (s_buffer_size x) - unat (s_available_data x))"

lemma content_length: "sock_ok x \<Longrightarrow> length (content x) = unat (s_available_data x)"
  by (simp add: content_def sock_ok_def word_le_nat_alt)

lemma grow_simps:
  "s_lock (socket_grow j x) = s_lock x" "s_node (socket_grow j x) = s_node x" "s_blocked_processes (socket_grow j x) = s_blocked_processes x"
  "s_domain (socket_grow j x) = s_domain x" "s_connect (socket_grow j x) = s_connect x"
  by (simp_all add: socket_grow_def Let_def)

lemma grow_ok:
  assumes "sock_ok x" and "s_available_data x \<ge> s_buffer_size x" and "s_available_data x < SOCKET_MAX_BUFFER_SIZE"
  shows "sock_ok (socket_grow junk x) \<and> content (socket_grow junk x) = content x \<and> s_available_data (socket_grow junk x) = s_available_data x \<and>
    unat (s_buffer_size (socket_grow junk x)) = unat (s_available_data x) + 4096"
proof -
  have e: "s_available_data x = s_buffer_size x" using assms(1,2) by (simp add: sock_ok_def)
  have u: "unat (s_buffer_size x) < 65536" using assms(3) e by (simp add: word_less_nat_alt)
  then have g: "unat (s_buffer_size x + 4096) = unat (s_buffer_size x) + 4096" by (subst unat_add32) auto
  have "unat (s_buffer_size x) = length (s_buffer x)" using assms(1) by (simp add: sock_ok_def)
  then show ?thesis using assms(1) e g u
    by (simp add: sock_ok_def socket_grow_def Let_def content_def arr_realloc_def word_le_nat_alt)
qed

lemma append_ok:
  assumes "sock_ok x" and "n = of_nat (length buf)" and "unat (s_available_data x) + length buf \<le> unat (s_buffer_size x)"
  shows "\<exists>y. socket_append x n buf = Some y \<and> sock_ok y \<and> content y = content x @ buf \<and> s_lock y = s_lock x \<and>
    s_node y = s_node x \<and> s_blocked_processes y = s_blocked_processes x \<and> s_domain y = s_domain x \<and> s_connect y = s_connect x"
proof -
  have n: "unat n = length buf" using assms unat_less32 [of "s_buffer_size x"] by (simp add: unat_of_nat_eq32)
  have a: "unat (s_available_data x + n) = unat (s_available_data x) + length buf"
    using assms(3) n unat_less32 [of "s_buffer_size x"] by (subst unat_add32) auto
  have l: "length (s_buffer x) = unat (s_buffer_size x)" using assms(1) by (simp add: sock_ok_def)
  then show ?thesis using assms(1,3) a n by (auto simp: socket_append_def Let_def sock_ok_def content_def word_le_nat_alt)
qed

lemma take_ok:
  assumes "sock_ok x" and "unat n = length buf" and "length buf \<le> length (content x)"
  shows "\<exists>y. socket_take x n buf = Some (take (length buf) (content x), y) \<and> sock_ok y \<and> content y = drop (length buf) (content x) \<and> s_lock y = s_lock x \<and>
    s_node y = s_node x \<and> s_blocked_processes y = s_blocked_processes x \<and> s_domain y = s_domain x \<and> s_connect y = s_connect x"
proof -
  have c: "length (content x) = unat (s_available_data x)" "length (s_buffer x) = unat (s_buffer_size x)" "unat (s_available_data x) \<le> unat (s_buffer_size x)"
    using assms(1) by (simp_all add: content_length) (simp_all add: sock_ok_def word_le_nat_alt)
  have l: "unat (s_available_data x - n) = unat (s_available_data x) - length buf" using assms(2,3) c(1) by (simp add: unat_sub32 word_le_nat_alt)
  have z: "s_available_data x - n = 0 \<longleftrightarrow> unat (s_available_data x) = length buf" using assms(2) by (metis word_unatI right_minus_eq)
  have d: "unat (s_available_data x - n) \<le> unat (s_buffer_size x)" using l c by simp
  show ?thesis
  proof (cases "s_available_data x - n = 0")
    case True
    then show ?thesis using assms c z by (simp add: socket_take_def Let_def sock_ok_def content_def min_def)
  next
    case False
    then have "unat (s_available_data x) \<noteq> length buf" using z by simp
    then show ?thesis using assms c l d False
      by (auto simp: socket_take_def Let_def sock_ok_def content_def word_le_nat_alt min_def drop_take)
  qed
qed

text \<open>
  A connection in one direction: the node \<open>na\<close> of the socket \<open>a\<close> is written to, and the socket \<open>b\<close>
  connected to it is read by its own node. Nobody waits for the mutex of \<open>b\<close>.
\<close>

definition stream_ok :: "net \<Rightarrow> ptr \<Rightarrow> ptr \<Rightarrow> ptr \<Rightarrow> bool" where
  "stream_ok s na a b \<longleftrightarrow> sched_inv (kern s) \<and> a \<noteq> NULL \<and> b \<noteq> NULL \<and> (\<exists>n. vnodes s na = Some n \<and> n_device n = a) \<and>
     (\<exists>x. sock_at s a = Some x \<and> s_domain x = AF_LOCAL \<and> s_connect x = b) \<and>
     (\<exists>y n. sock_at s b = Some y \<and> sock_ok y \<and> queues (kern s) (mutex_queue (s_lock y)) = [] \<and> vnodes s (s_node y) = Some n \<and> n_device n = b)"

definition hold :: "kernel \<Rightarrow> socket \<Rightarrow> socket" where
  "hold k x = x\<lparr>s_lock := (s_lock x)\<lparr>locked := 1, owner := current_process k, spin := 0\<rparr>\<rparr>"

definition release :: "socket \<Rightarrow> socket" where
  "release x = x\<lparr>s_lock := (s_lock x)\<lparr>spin := 0, locked := 0, owner := NULL\<rparr>\<rparr>"

lemma lock_free: "sock_ok x \<Longrightarrow> mutex_lock k (s_lock x) = Some (Acquired, k, s_lock (hold k x))"
  by (simp add: mutex_lock_def lock_loop_def sock_ok_def hold_def)

lemma unlock_alone: "spin m = 0 \<Longrightarrow> queues k (mutex_queue m) = [] \<Longrightarrow> mutex_unlock k m = Some (k, m\<lparr>spin := 0, locked := 0, owner := NULL\<rparr>)"
  by (simp add: mutex_unlock_def k_proc_process_wakeup_queue_single.simps)

lemma hold_simps [simp]:
  "s_buffer (hold k x) = s_buffer x" "s_buffer_size (hold k x) = s_buffer_size x" "s_available_data (hold k x) = s_available_data x"
  "s_node (hold k x) = s_node x" "s_blocked_processes (hold k x) = s_blocked_processes x" "s_domain (hold k x) = s_domain x"
  "s_connect (hold k x) = s_connect x" "content (hold k x) = content x" "spin (s_lock (hold k x)) = 0"
  "mutex_queue (s_lock (hold k x)) = mutex_queue (s_lock x)" "x\<lparr>s_lock := s_lock (hold k x)\<rparr> = hold k x"
  "socket_grow j (hold k x) = hold k (socket_grow j x)"
  by (simp_all add: hold_def content_def socket_grow_def Let_def)

lemma hold_append: "socket_append (hold k x) n buf = map_option (hold k) (socket_append x n buf)"
  by (simp add: socket_append_def Let_def hold_def)

lemma hold_take: "socket_take (hold k x) n buf = map_option (\<lambda>(b, y). (b, hold k y)) (socket_take x n buf)"
  by (simp add: socket_take_def Let_def hold_def)

lemma release_hold: "sock_ok x \<Longrightarrow> sock_ok (release (hold k x)) \<and> content (release (hold k x)) = content x \<and> s_node (release (hold k x)) = s_node x \<and>
    s_domain (release (hold k x)) = s_domain x \<and> s_connect (release (hold k x)) = s_connect x \<and> mutex_queue (s_lock (release (hold k x))) = mutex_queue (s_lock x)"
  by (simp add: sock_ok_def release_def hold_def content_def)

lemma write_end:
  assumes "sock_at s b = Some (hold k x)" and "queues (kern s) (mutex_queue (s_lock x)) = []"
  shows "socket_write_loop junk s na a b buf False 0 = Some (Returned (of_nat (length buf)), set_sock s b (Some (release (hold k x))))"
proof -
  have "mutex_unlock (kern s) (s_lock (hold k x)) = Some (kern s, s_lock (release (hold k x)))"
    using assms(2) by (subst unlock_alone) (simp_all add: release_def)
  then show ?thesis using assms(1) by (subst socket_write_loop.simps) (simp add: release_def)
qed

text \<open>One round of the loop of a write whose bytes find room.\<close>

lemma write_round:
  assumes "sched_inv (kern s)" and "vnodes s na = Some n" and "sock_at s b = Some (hold k x)" and "sock_ok x"
    and "buf \<noteq> []" and "length buf \<le> room x" and "vnodes s (s_node x) = Some nb" and "n_device nb = b"
  shows "\<exists>y k'. socket_write_loop junk s na a b buf False (of_nat (length buf)) =
      socket_write_loop junk (set_sock (set_kern s k') b (Some (hold k y))) na a b buf False 0 \<and>
    sock_ok y \<and> content y = content x @ buf \<and> s_lock y = s_lock x \<and> s_node y = s_node x \<and> s_domain y = s_domain x \<and> s_connect y = s_connect x \<and>
    sched_inv k' \<and> (\<forall>q. queues (kern s) q = [] \<longrightarrow> queues k' q = []) \<and> queues k' (s_blocked_processes x) = []"
proof -
  let ?full = "s_available_data x \<ge> s_buffer_size x" and ?w = "of_nat (length buf) :: u32"
  define c where "c = (if ?full then socket_grow junk x else x)"
  have r: "length buf \<le> 69632" using assms(6,4) by (auto simp: room_def sock_ok_def word_le_nat_alt split: if_splits)
  have w: "unat ?w = length buf" using r by (simp add: unat_of_nat_eq32)
  then have nz: "?w \<noteq> 0" using assms(5) by (metis length_0_conv unat_0)
  have nm: "\<not> (?full \<and> s_available_data x \<ge> SOCKET_MAX_BUFFER_SIZE)" using assms(5,6) by (auto simp: room_def split: if_splits)
  have c: "sock_ok c \<and> content c = content x \<and> s_available_data c = s_available_data x \<and> unat (s_available_data x) + length buf \<le> unat (s_buffer_size c) \<and>
    s_lock c = s_lock x \<and> s_node c = s_node x \<and> s_blocked_processes c = s_blocked_processes x \<and> s_domain c = s_domain x \<and> s_connect c = s_connect x"
  proof (cases ?full)
    case True
    then have "sock_ok (socket_grow junk x) \<and> content (socket_grow junk x) = content x \<and> s_available_data (socket_grow junk x) = s_available_data x \<and>
      unat (s_buffer_size (socket_grow junk x)) = unat (s_available_data x) + 4096" using nm by (intro grow_ok [OF assms(4)]) auto
    then show ?thesis using True assms(6) nm unfolding c_def room_def by (simp add: grow_simps not_le)
  next
    case False
    then show ?thesis using assms(4,6) by (simp add: c_def room_def sock_ok_def word_le_nat_alt)
  qed
  have sz: "(if s_buffer_size c - s_available_data c < ?w then s_buffer_size c - s_available_data c else ?w) = ?w"
    using c w by (auto simp: word_less_nat_alt unat_sub32 word_le_nat_alt)
  obtain y where y: "socket_append c ?w buf = Some y" "sock_ok y" "content y = content x @ buf" "s_lock y = s_lock x" "s_node y = s_node x"
    "s_blocked_processes y = s_blocked_processes x" "s_domain y = s_domain x" "s_connect y = s_connect x"
    using append_ok [of c ?w buf] c by auto
  let ?s = "set_sock s b (Some (hold k y))"
  obtain k1 where k1: "wake ?s (s_blocked_processes x) = Some (set_kern ?s k1)" "sched_inv k1" "queues k1 (s_blocked_processes x) = []"
    "\<forall>q. queues (kern s) q = [] \<longrightarrow> queues k1 q = []" using wake_ok [of ?s "s_blocked_processes x"] assms(1) by auto
  obtain k2 where k2: "socket_notify (set_kern ?s k1) (s_node x) VFS_EVENT_READ = Some (set_kern (set_kern ?s k1) k2)" "sched_inv k2"
    "\<forall>q. queues k1 q = [] \<longrightarrow> queues k2 q = []" using notify_ok [of "set_kern ?s k1" "s_node x" nb "hold k y" VFS_EVENT_READ] k1(2) assms(7,8) by auto
  have gr: "(if ?full then socket_grow junk (hold k x) else hold k x) = hold k c" by (simp add: c_def)
  have "socket_write_loop junk s na a b buf False ?w = socket_write_loop junk (set_kern (set_kern ?s k1) k2) na a b buf False 0"
    by (subst socket_write_loop.simps)
      (use nz nm assms(2,3) sz gr y k1(1) k2(1) in \<open>auto simp: hold_append Let_def cong: if_cong\<close>)
  then show ?thesis using y k1 k2 by (intro exI [of _ y] exI [of _ k2]) auto
qed

lemma stream_ok_update:
  assumes "stream_ok s na a b" and "sock_at s b = Some x" and "sock_ok y" and "s_domain y = s_domain x" and "s_connect y = s_connect x"
    and "s_node y = s_node x" and "mutex_queue (s_lock y) = mutex_queue (s_lock x)" and "sched_inv k" and "\<forall>q. queues (kern s) q = [] \<longrightarrow> queues k q = []"
  shows "stream_ok (set_sock (set_kern s k) b (Some y)) na a b"
  using assms by (auto simp: stream_ok_def)

lemma write_ok:
  assumes "stream_ok s na a b" and "sock_at s b = Some x" and "length buf \<le> room x"
  shows "\<exists>s' y. socket_write junk s na buf = Some (Returned (of_nat (length buf)), s') \<and> stream_ok s' na a b \<and>
    sock_at s' b = Some y \<and> content y = content x @ buf \<and> s_node y = s_node x \<and> (buf \<noteq> [] \<longrightarrow> queues (kern s') (s_blocked_processes x) = [])"
proof -
  obtain n u nb where f: "sched_inv (kern s)" "a \<noteq> NULL" "b \<noteq> NULL" "vnodes s na = Some n" "n_device n = a" "sock_at s a = Some u" "s_domain u = AF_LOCAL"
    "s_connect u = b" "sock_ok x" "queues (kern s) (mutex_queue (s_lock x)) = []" "vnodes s (s_node x) = Some nb" "n_device nb = b"
    using assms(1,2) by (auto simp: stream_ok_def)
  let ?h = "set_sock s b (Some (hold (kern s) x))"
  have w: "socket_write junk s na buf = socket_write_loop junk ?h na a b buf False (of_nat (length buf))"
    using f(2-8) assms(2) lock_free [OF f(9)] by (simp add: socket_write_def socket_write_locked_def)
  show ?thesis
  proof (cases "buf = []")
    case True
    let ?s = "set_sock s b (Some (release (hold (kern s) x)))"
    have "stream_ok ?s na a b"
      using stream_ok_update [OF assms(1,2), of "release (hold (kern s) x)" "kern s"] release_hold [OF f(9)] f(1) by simp
    then show ?thesis using w write_end [of ?h b "kern s" x junk na a "[]"] f(10) True release_hold [OF f(9), of "kern s"] by auto
  next
    case False
    obtain y k where y: "socket_write_loop junk ?h na a b buf False (of_nat (length buf)) =
        socket_write_loop junk (set_sock (set_kern ?h k) b (Some (hold (kern s) y))) na a b buf False 0"
      "sock_ok y" "content y = content x @ buf" "s_lock y = s_lock x" "s_node y = s_node x" "s_domain y = s_domain x" "s_connect y = s_connect x"
      "sched_inv k" "\<forall>q. queues (kern s) q = [] \<longrightarrow> queues k q = []" "queues k (s_blocked_processes x) = []"
      using write_round [of ?h na n b "kern s" x buf nb junk a] f False assms(3) by auto
    let ?s = "set_sock (set_kern s k) b (Some (release (hold (kern s) y)))"
    have "socket_write junk s na buf = Some (Returned (of_nat (length buf)), ?s)"
      using w y(1) write_end [of "set_sock (set_kern ?h k) b (Some (hold (kern s) y))" b "kern s" y junk na a buf] y(4,9) f(10) by simp
    moreover have "stream_ok ?s na a b"
      using stream_ok_update [OF assms(1,2) _ _ _ _ _ y(8,9), of "release (hold (kern s) y)"] release_hold [OF y(2), of "kern s"] y(4-7) by simp
    ultimately show ?thesis using y(3,5,10) release_hold [OF y(2), of "kern s"] by auto
  qed
qed

lemma read_ok:
  assumes "stream_ok s na a b" and "sock_at s b = Some x" and "length buf \<le> length (content x)"
  shows "\<exists>s' y. socket_read s (s_node x) (of_nat (length buf)) buf = Some (Returned (of_nat (length buf), take (length buf) (content x)), s') \<and>
    stream_ok s' na a b \<and> sock_at s' b = Some y \<and> content y = drop (length buf) (content x) \<and> s_node y = s_node x"
proof -
  obtain nb where f: "sched_inv (kern s)" "b \<noteq> NULL" "sock_ok x" "queues (kern s) (mutex_queue (s_lock x)) = []" "vnodes s (s_node x) = Some nb" "n_device nb = b"
    using assms(1,2) by (auto simp: stream_ok_def)
  let ?n = "of_nat (length buf) :: u32" and ?h = "set_sock s b (Some (hold (kern s) x))"
  have n: "unat ?n = length buf" using assms(3) content_length [OF f(3)] unat_less32 [of "s_available_data x"] by (simp add: unat_of_nat_eq32)
  have r: "socket_read s (s_node x) ?n buf = socket_read_loop s (s_node x) b ?n ?n buf" using f(2,5,6) by (simp add: socket_read_def)
  have e: "\<exists>k. socket_read_end t (s_node x) ?n 0 v = Some (Returned (?n, v), set_kern t k) \<and> sched_inv k \<and> (\<forall>q. queues (kern t) q = [] \<longrightarrow> queues k q = [])"
    if "sched_inv (kern t)" "vnodes t = vnodes s" "sock_at t b \<noteq> None" for t v
    using that notify_ok [of t "s_node x" nb _ VFS_EVENT_WRITE] f(5,6) by (fastforce simp: socket_read_end_def)
  show ?thesis
  proof (cases "buf = []")
    case True
    obtain k where "socket_read_end s (s_node x) ?n 0 buf = Some (Returned (?n, buf), set_kern s k)" "sched_inv k" "\<forall>q. queues (kern s) q = [] \<longrightarrow> queues k q = []"
      using e [of s buf] f(1) assms(2) by auto
    moreover have "set_kern s k = set_sock (set_kern s k) b (Some x)" using assms(2) by (simp add: set_sock_def set_kern_def sock_at_def kern_def fun_upd_idem)
    ultimately show ?thesis using r True stream_ok_update [OF assms(1,2) f(3), of k] assms(2) by (subst (asm) socket_read_loop.simps) auto
  next
    case False
    then have nz: "?n \<noteq> 0" using n by (metis length_0_conv unat_0)
    have av: "s_available_data x \<noteq> 0" "(if ?n < s_available_data x then ?n else s_available_data x) = ?n"
      using assms(3) content_length [OF f(3)] False n by (auto simp: word_less_nat_alt intro: word_unatI)
    obtain y where y: "socket_take x ?n buf = Some (take (length buf) (content x), y)" "sock_ok y" "content y = drop (length buf) (content x)" "s_lock y = s_lock x"
      "s_node y = s_node x" "s_domain y = s_domain x" "s_connect y = s_connect x" using take_ok [OF f(3) n assms(3)] by blast
    let ?s = "set_sock s b (Some (release (hold (kern s) y)))"
    have "mutex_unlock (kern s) (s_lock (hold (kern s) y)) = Some (kern s, s_lock (release (hold (kern s) y)))"
      using f(4) y(4) by (subst unlock_alone) (simp_all add: release_def)
    then have t: "socket_take_unlock ?h b ?n buf = Some (take (length buf) (content x), ?s)"
      using y(1) by (simp add: socket_take_unlock_def hold_take release_def)
    have l: "socket_read_loop s (s_node x) b ?n ?n buf = socket_read_loop ?s (s_node x) b ?n 0 (take (length buf) (content x))"
      by (subst socket_read_loop.simps) (use nz av assms(2) f(5) lock_free [OF f(3)] t in \<open>simp add: Let_def\<close>)
    obtain k where k: "socket_read_end ?s (s_node x) ?n 0 (take (length buf) (content x)) = Some (Returned (?n, take (length buf) (content x)), set_kern ?s k)"
      "sched_inv k" "\<forall>q. queues (kern s) q = [] \<longrightarrow> queues k q = []"
      using e [of ?s "take (length buf) (content x)"] f(1) by auto
    have "stream_ok (set_sock (set_kern s k) b (Some (release (hold (kern s) y)))) na a b"
      using stream_ok_update [OF assms(1,2) _ _ _ _ _ k(2,3), of "release (hold (kern s) y)"] release_hold [OF y(2), of "kern s"] y(4-7) by simp
    then show ?thesis using r l k(1) release_hold [OF y(2), of "kern s"] y(3,5) by (auto simp: socket_read_loop.simps [of ?s])
  qed
qed

text \<open>
  A sequence of writes and reads on a connection, as the code performs it: \<open>None\<close> as soon as a call
  sleeps or fails. The results are what the reads returned.
\<close>

datatype transfer = Send "u8 list" | Receive nat

fun transfers :: "u8 \<Rightarrow> net \<Rightarrow> ptr \<Rightarrow> ptr \<Rightarrow> transfer list \<Rightarrow> (u8 list list \<times> net) option" where
  "transfers junk s na nb [] = Some ([], s)"
| "transfers junk s na nb (Send bs # ts) =
     (case socket_write junk s na bs of
        Some (Returned n, s1) \<Rightarrow> if n = of_nat (length bs) then transfers junk s1 na nb ts else None
      | _ \<Rightarrow> None)"
| "transfers junk s na nb (Receive n # ts) =
     (case socket_read s nb (of_nat n) (replicate n 0) of
        Some (Returned (m, out), s1) \<Rightarrow>
          if m = of_nat n then do { (outs, s2) \<leftarrow> transfers junk s1 na nb ts; Some (out # outs, s2) } else None
      | _ \<Rightarrow> None)"

fun sent :: "transfer list \<Rightarrow> u8 list" where
  "sent [] = []"
| "sent (Send bs # ts) = bs @ sent ts"
| "sent (Receive n # ts) = sent ts"

fun requested :: "transfer list \<Rightarrow> nat list" where
  "requested [] = []"
| "requested (Send bs # ts) = requested ts"
| "requested (Receive n # ts) = n # requested ts"

text \<open>With \<open>l\<close> bytes on the way: no write finds less room than it needs in the smallest buffer, no read asks for more than is there.\<close>

fun fits :: "nat \<Rightarrow> transfer list \<Rightarrow> bool" where
  "fits l [] \<longleftrightarrow> True"
| "fits l (Send bs # ts) \<longleftrightarrow> l + length bs \<le> 4096 \<and> fits (l + length bs) ts"
| "fits l (Receive n # ts) \<longleftrightarrow> n \<le> l \<and> fits (l - n) ts"

lemma fits_room:
  assumes "sock_ok x" and "length (content x) + n \<le> 4096"
  shows "n \<le> room x"
  using assms content_length [OF assms(1)] by (auto simp: room_def sock_ok_def word_le_nat_alt word_less_nat_alt)

lemma transfers_ok:
  assumes "stream_ok s na a b" and "sock_at s b = Some x" and "fits (length (content x)) ts"
  shows "\<exists>outs s' y. transfers junk s na (s_node x) ts = Some (outs, s') \<and> stream_ok s' na a b \<and> sock_at s' b = Some y \<and>
    content x @ sent ts = concat outs @ content y \<and> map length outs = requested ts"
  using assms
proof (induction ts arbitrary: s x rule: sent.induct)
  case (2 bs ts)
  have ok: "sock_ok x" using 2(2,3) by (auto simp: stream_ok_def)
  obtain s1 y where s1: "socket_write junk s na bs = Some (Returned (of_nat (length bs)), s1)" "stream_ok s1 na a b" "sock_at s1 b = Some y"
    "content y = content x @ bs" "s_node y = s_node x" using write_ok [OF 2(2,3), of bs junk] fits_room [OF ok] 2(4) by auto
  show ?case using 2(1) [OF s1(2,3)] 2(4) s1 by auto
next
  case (3 n ts)
  have l: "length (replicate n (0 :: u8)) \<le> length (content x)" using 3(4) by simp
  obtain s1 y where s1: "socket_read s (s_node x) (of_nat n) (replicate n 0) = Some (Returned (of_nat n, take n (content x)), s1)" "stream_ok s1 na a b"
    "sock_at s1 b = Some y" "content y = drop n (content x)" "s_node y = s_node x" using read_ok [OF 3(2,3) l] by auto
  obtain outs s2 z where r: "transfers junk s1 na (s_node x) ts = Some (outs, s2)" "stream_ok s2 na a b" "sock_at s2 b = Some z"
    "content y @ sent ts = concat outs @ content z" "map length outs = requested ts" using 3(1) [OF s1(2,3)] 3(4) s1(4,5) by auto
  have "content x @ sent ts = take n (content x) @ concat outs @ content z" using r(4) s1(4) by (metis append.assoc append_take_drop_id)
  then show ?case using s1(1) r 3(4) by auto
qed auto

section \<open>The handshake\<close>

lemma doze_ok:
  assumes "sched_inv (kern s)" and "has_block (kern s) (current_process (kern s))"
  shows "\<exists>k. doze s q = Some (set_kern s k) \<and> sched_inv k \<and> queues k q = queues (kern s) q @ [current_process (kern s)] \<and>
    (\<forall>q'. q' \<noteq> q \<longrightarrow> queues k q' = queues (kern s) q') \<and> same_rest (kern s) k \<and> pstate (procs k (current_process (kern s))) = PROCESS_STATE_SLEEPING"
proof (rule sleep_facts [OF assms, of q])
  fix k assume k: "sleep_prepare (kern s) (current_process (kern s)) q = Some k" "sched_inv k"
    "queues k = (queues (kern s))(q := queues (kern s) q @ [current_process (kern s)])" "same_rest (kern s) k"
    "pstate (procs k (current_process (kern s))) = PROCESS_STATE_SLEEPING"
  show ?thesis by (rule exI [of _ k]) (use k in \<open>simp add: doze_def\<close>)
qed

text \<open>The first turn of \<open>connect\<close>, once the path has led to the listening socket \<open>sv\<close>.\<close>

lemma connect_turn:
  assumes "sched_inv (kern s)" and "has_block (kern s) (current_process (kern s))" and "sock_at s c = Some x" and "s_connect x = NULL" and "s_domain x = AF_LOCAL"
    and "s_type x AND SOCK_NONBLOCK = 0" and "sun_path addr = Some path" and "unat l \<le> length addr"
    and "k_fs_vfs_open drv s path 3 copy copy2 = Some (r, s1)" and "drv_data s1 = drv_data s" and "r \<noteq> NULL" and "vnodes s1 r = Some n" and "n_device n = sv"
    and "sock_at s sv = Some y" and "s_listening y \<noteq> 0" and "c \<noteq> sv" and "s_blocked_processes y \<noteq> s_cnn_blocked_processes y"
  shows "\<exists>s'. k_fs_socket_connect drv s c addr l copy copy2 = Some (Asleep sv, s') \<and> sched_inv (kern s') \<and>
    sock_at s' c = Some (x\<lparr>s_addr_len := l, s_addr := Some (take (unat l) addr)\<rparr>) \<and> sock_at s' sv = Some (y\<lparr>s_backlog := s_backlog y @ [c]\<rparr>) \<and>
    (\<forall>p. p \<noteq> c \<longrightarrow> p \<noteq> sv \<longrightarrow> sock_at s' p = sock_at s p) \<and> current_process (kern s') = current_process (kern s) \<and>
    current_process (kern s) \<in> set (queues (kern s') (s_cnn_blocked_processes y)) \<and>
    pstate (procs (kern s') (current_process (kern s))) = PROCESS_STATE_SLEEPING \<and> queues (kern s') (s_blocked_processes y) = [] \<and>
    (\<forall>q. q \<noteq> s_cnn_blocked_processes y \<longrightarrow> queues (kern s) q = [] \<longrightarrow> queues (kern s') q = [])"
proof -
  have same: "sock_at s1 p = sock_at s p" "kern s1 = kern s" for p using assms(10) by (simp_all add: sock_at_def kern_def)
  let ?x = "x\<lparr>s_addr_len := l, s_addr := Some (take (unat l) addr)\<rparr>" and ?y = "y\<lparr>s_backlog := s_backlog y @ [c]\<rparr>"
  let ?s = "set_sock (set_sock s1 c (Some ?x)) sv (Some ?y)"
  obtain k1 where k1: "socket_notify ?s r VFS_EVENT_READ = Some (set_kern ?s k1)" "sched_inv k1" "same_rest (kern s) k1"
    "\<forall>p. has_block (kern s) p \<longrightarrow> has_block k1 p" "\<forall>q. queues (kern s) q = [] \<longrightarrow> queues k1 q = []" using notify_ok [of ?s r n ?y VFS_EVENT_READ] assms(1,12,13) same by auto
  obtain k2 where k2: "wake (set_kern ?s k1) (s_blocked_processes y) = Some (set_kern ?s k2)" "sched_inv k2" "same_rest k1 k2" "queues k2 (s_blocked_processes y) = []"
    "\<forall>p. has_block k2 p = has_block k1 p" "\<forall>q. queues k1 q = [] \<longrightarrow> queues k2 q = []" using wake_ok [of "set_kern ?s k1" "s_blocked_processes y"] k1(2) by auto
  have cp: "current_process k2 = current_process (kern s)" using k1(3) k2(3) by (simp add: same_rest_def)
  obtain k3 where k3: "doze (set_kern ?s k2) (s_cnn_blocked_processes y) = Some (set_kern ?s k3)" "sched_inv k3" "same_rest k2 k3"
    "queues k3 (s_cnn_blocked_processes y) = queues k2 (s_cnn_blocked_processes y) @ [current_process (kern s)]"
    "\<forall>q. q \<noteq> s_cnn_blocked_processes y \<longrightarrow> queues k3 q = queues k2 q" "pstate (procs k3 (current_process (kern s))) = PROCESS_STATE_SLEEPING"
    using doze_ok [of "set_kern ?s k2" "s_cnn_blocked_processes y"] k2(2,5) k1(4) assms(2) cp by auto
  have "k_fs_socket_connect drv s c addr l copy copy2 = Some (Asleep sv, set_kern ?s k3)"
    using assms(3-9,11-16) same k1(1) k2(1) k3(1) by (simp add: k_fs_socket_connect_def socket_connect_wait_def not_less)
  then show ?thesis using k1(5) k2(4,6) k3 cp assms(16,17) same by (auto simp: same_rest_def)
qed

text \<open>A turn of \<open>accept\<close> that finds a client waiting.\<close>

lemma fresh_queue: "queues k q = [] \<Longrightarrow> set_queue k q [] = k"
  by (simp add: set_queue_def fun_upd_idem)

definition new_sock :: "u8 \<Rightarrow> ptr \<Rightarrow> u32 \<Rightarrow> ptr list \<Rightarrow> socket" where
  "new_sock junk a ty qs = \<lparr>s_addr = None, s_addr_len = 0, s_bind = NULL, s_connect = NULL, s_node = a, s_domain = AF_LOCAL, s_type = ty, s_listening = 0,
     s_backlog = [], s_buffer = replicate 4096 junk, s_buffer_size = SOCKET_INIT_BUFFER_SIZE, s_available_data = 0,
     s_cnn_blocked_processes = qs ! 1, s_blocked_processes = qs ! 0, s_lock = \<lparr>spin = 0, locked = 0, owner = NULL, mutex_queue = qs ! 5\<rparr>,
     s_sel_queues = [qs ! 2, qs ! 3, qs ! 4]\<rparr>"

lemma new_sock_ok: "sock_ok (new_sock junk a ty qs)" "content (new_sock junk a ty qs) = []"
  by (simp_all add: sock_ok_def content_def new_sock_def)

lemma create_ok:
  assumes "length qs = 6" and "\<forall>q \<in> set qs. queues (kern t) q = []"
  shows "\<exists>s n. k_fs_socket_create ops junk t AF_LOCAL ty (a, p, qs) = Some (a, s) \<and> kern s = kern t \<and> vnodes s a = Some n \<and> n_device n = p \<and>
    (\<forall>r. sock_at s r = (if r = p then Some (new_sock junk a ty qs) else sock_at t r)) \<and> (\<forall>r. r \<noteq> a \<longrightarrow> vnodes s r = vnodes t r)"
proof -
  obtain bl cn q0 q1 q2 mq where qs: "qs = [bl, cn, q0, q1, q2, mq]"
    using assms(1) by (auto simp: length_Suc_conv eval_nat_numeral)
  have "queues (kern t) bl = []" "queues (kern t) cn = []" "queues (kern t) q0 = []" "queues (kern t) q1 = []" "queues (kern t) q2 = []" "queues (kern t) mq = []"
    using assms(2) qs by auto
  then show ?thesis
    by (simp add: qs k_fs_socket_create_def Let_def mutex_init_def fresh_queue k_fs_vfs_create_node_def name_fits_def new_sock_def)
qed

lemma accept_turn:
  assumes "sched_inv (kern s)" and "sock_at s sv = Some y" and "s_domain y = AF_LOCAL" and "s_backlog y = c # rest" and "sock_at s c = Some x"
    and "s_addr x = Some adr" and "new = (a, p, qs)" and "length qs = 6" and "\<forall>q \<in> set qs. queues (kern s) q = []" and "sock_at s p = None" and "p \<noteq> NULL"
    and "p \<noteq> REFUSED" and "c \<noteq> sv"
  shows "\<exists>s' z. k_fs_socket_accept ops junk s sv new = Some (Returned (0, a), s') \<and> sched_inv (kern s') \<and>
    sock_at s' sv = Some (y\<lparr>s_backlog := rest\<rparr>) \<and> sock_at s' c = Some (x\<lparr>s_connect := p\<rparr>) \<and> sock_at s' p = Some z \<and>
    s_connect z = c \<and> s_node z = a \<and> s_addr z = Some adr \<and> s_addr_len z = s_addr_len x \<and> s_domain z = AF_LOCAL \<and> sock_ok z \<and> content z = [] \<and> queues (kern s') (mutex_queue (s_lock z)) = [] \<and>
    (\<exists>n. vnodes s' a = Some n \<and> n_device n = p) \<and> (\<forall>r. r \<noteq> a \<longrightarrow> vnodes s' r = vnodes s r) \<and> (\<forall>r. r \<noteq> sv \<longrightarrow> r \<noteq> c \<longrightarrow> r \<noteq> p \<longrightarrow> sock_at s' r = sock_at s r) \<and>
    queues (kern s') (s_cnn_blocked_processes y) = [] \<and>
    (\<forall>w \<in> set (queues (kern s) (s_cnn_blocked_processes y)). pstate (procs (kern s) w) = PROCESS_STATE_SLEEPING \<longrightarrow> w \<in> set (ready_queue (kern s'))) \<and>
    socket_connect_wait s' c sv = Some (Returned 0, s')"
proof -
  have ne: "p \<noteq> c" "p \<noteq> sv" using assms(2,5,10) by auto
  let ?base = "new_sock junk a (s_type y) qs"
  let ?z = "?base\<lparr>s_connect := c, s_addr_len := s_addr_len x, s_addr := Some adr\<rparr>"
  obtain s2 n where s2: "k_fs_socket_create ops junk (set_sock s sv (Some (y\<lparr>s_backlog := rest\<rparr>))) AF_LOCAL (s_type y) new = Some (a, s2)" "kern s2 = kern s"
    "vnodes s2 a = Some n" "n_device n = p" "\<forall>r. sock_at s2 r = (if r = p then Some ?base else if r = sv then Some (y\<lparr>s_backlog := rest\<rparr>) else sock_at s r)"
    "\<forall>r. r \<noteq> a \<longrightarrow> vnodes s2 r = vnodes s r"
    using create_ok [OF assms(8), of "set_sock s sv (Some (y\<lparr>s_backlog := rest\<rparr>))" ops junk "s_type y" a p] assms(7,9) by auto
  have mq: "queues (kern s) (mutex_queue (s_lock ?z)) = []" using assms(8,9) by (simp add: new_sock_def)
  let ?s = "set_sock (set_sock s2 c (Some (x\<lparr>s_connect := p\<rparr>))) p (Some ?z)"
  obtain k where k: "wake ?s (s_cnn_blocked_processes y) = Some (set_kern ?s k)" "sched_inv k" "queues k (s_cnn_blocked_processes y) = []"
    "\<forall>q. queues (kern s) q = [] \<longrightarrow> queues k q = []"
    "\<forall>w \<in> set (queues (kern s) (s_cnn_blocked_processes y)). pstate (procs (kern s) w) = PROCESS_STATE_SLEEPING \<longrightarrow> w \<in> set (ready_queue k)"
    using wake_ok [of ?s "s_cnn_blocked_processes y"] s2(2) assms(1) by auto
  define t where "t = set_kern ?s k"
  define z where "z = ?z"
  have z: "sock_ok z" "content z = []" "s_domain z = AF_LOCAL" "s_node z = a" "s_connect z = c" "s_addr z = Some adr" "s_addr_len z = s_addr_len x"
    by (simp_all add: z_def sock_ok_def content_def new_sock_def)
  have t: "kern t = k" "vnodes t = vnodes s2" "sock_at t sv = Some (y\<lparr>s_backlog := rest\<rparr>)" "sock_at t c = Some (x\<lparr>s_connect := p\<rparr>)" "sock_at t p = Some z"
    "\<forall>r. r \<noteq> sv \<longrightarrow> r \<noteq> c \<longrightarrow> r \<noteq> p \<longrightarrow> sock_at t r = sock_at s r"
    using s2(5) ne assms(13) by (simp_all add: t_def z_def)
  have acc: "k_fs_socket_accept ops junk s sv new = Some (Returned (0, a), t)"
    using assms(2-6,13) ne s2 k(1) by (simp add: k_fs_socket_accept_def t_def)
  have wt: "socket_connect_wait t c sv = Some (Returned 0, t)" using t(4) assms(11,12) by (simp add: socket_connect_wait_def)
  have q: "queues k (mutex_queue (s_lock z)) = []" using k(4) mq by (simp add: z_def)
  have n: "\<exists>n. vnodes t a = Some n \<and> n_device n = p" "\<forall>r. r \<noteq> a \<longrightarrow> vnodes t r = vnodes s r" using s2(3,4,6) t(2) by auto
  show ?thesis
    by (rule exI [of _ t], rule exI [of _ z], intro conjI) (fact acc z t wt n | use t(1) k q in simp)+
qed

section \<open>Properties\<close>

text \<open>
  C14: a connection is a stream. Writes that find room in the buffer of the other end and reads of no
  more than was sent complete without sleeping, in any order; the bytes read, one after the other,
  followed by those still in the buffer, are the bytes written, and every read returns as many as
  it asked for. A write of at least one byte leaves no process asleep on the reading socket.
\<close>

theorem socket_stream_in_order:
  assumes "stream_ok s na a b" and "sock_at s b = Some x" and "fits (length (content x)) ts"
  shows "(\<exists>outs s' y. transfers junk s na (s_node x) ts = Some (outs, s') \<and> stream_ok s' na a b \<and> sock_at s' b = Some y \<and>
      content x @ sent ts = concat outs @ content y \<and> map length outs = requested ts) \<and>
    (\<forall>bs. bs \<noteq> [] \<longrightarrow> length (content x) + length bs \<le> 4096 \<longrightarrow>
      (\<exists>s'. socket_write junk s na bs = Some (Returned (of_nat (length bs)), s') \<and> queues (kern s') (s_blocked_processes x) = []))"
proof (intro conjI allI impI)
  fix bs :: "u8 list" assume bs: "bs \<noteq> []" "length (content x) + length bs \<le> 4096"
  have "sock_ok x" using assms(1,2) by (auto simp: stream_ok_def)
  then show "\<exists>s'. socket_write junk s na bs = Some (Returned (of_nat (length bs)), s') \<and> queues (kern s') (s_blocked_processes x) = []"
    using write_ok [OF assms(1,2), of bs junk] fits_room [OF _ bs(2)] bs(1) by blast
qed (rule transfers_ok [OF assms])

text \<open>
  C15: the handshake makes a connection. \<open>connect\<close> on a path that leads to a listening socket enters the
  client at the end of the queue of that socket, wakes who waits for clients there, and sleeps.
  When the client is first in the queue, \<open>accept\<close> takes it out, creates a socket that is connected to
  the client as the client is to it, and wakes the sleeping clients, whose call then returns 0. What
  the client writes from then on is a stream that the new socket reads.
\<close>

theorem socket_handshake:
  assumes "sched_inv (kern s)" and "has_block (kern s) (current_process (kern s))" and "sock_at s c = Some x" and "s_connect x = NULL" and "s_domain x = AF_LOCAL"
    and "s_type x AND SOCK_NONBLOCK = 0" and "sun_path addr = Some path" and "unat l \<le> length addr"
    and "k_fs_vfs_open drv s path 3 copy copy2 = Some (r, s1)" and "drv_data s1 = drv_data s" and "r \<noteq> NULL" and "vnodes s1 r = Some n" and "n_device n = sv"
    and "sock_at s sv = Some y" and "s_listening y \<noteq> 0" and "c \<noteq> sv" and "s_blocked_processes y \<noteq> s_cnn_blocked_processes y" and "c \<noteq> NULL"
  shows "\<exists>s'. k_fs_socket_connect drv s c addr l copy copy2 = Some (Asleep sv, s') \<and> sched_inv (kern s') \<and>
    sock_at s' sv = Some (y\<lparr>s_backlog := s_backlog y @ [c]\<rparr>) \<and> queues (kern s') (s_blocked_processes y) = [] \<and>
    current_process (kern s) \<in> set (queues (kern s') (s_cnn_blocked_processes y)) \<and>
    pstate (procs (kern s') (current_process (kern s))) = PROCESS_STATE_SLEEPING \<and>
    (\<forall>q. q \<noteq> s_cnn_blocked_processes y \<longrightarrow> queues (kern s) q = [] \<longrightarrow> queues (kern s') q = []) \<and>
    (\<forall>p. p \<noteq> c \<longrightarrow> p \<noteq> sv \<longrightarrow> sock_at s' p = sock_at s p) \<and>
    (\<forall>t ys rest a p qs. sched_inv (kern t) \<longrightarrow> sock_at t c = sock_at s' c \<longrightarrow> sock_at t sv = Some ys \<longrightarrow> s_domain ys = AF_LOCAL \<longrightarrow> s_backlog ys = c # rest \<longrightarrow>
      length qs = 6 \<longrightarrow> (\<forall>q \<in> set qs. queues (kern t) q = []) \<longrightarrow> sock_at t p = None \<longrightarrow> p \<noteq> NULL \<longrightarrow> p \<noteq> REFUSED \<longrightarrow>
      (\<exists>t' u z. k_fs_socket_accept ops junk t sv (a, p, qs) = Some (Returned (0, a), t') \<and> sock_at t' sv = Some (ys\<lparr>s_backlog := rest\<rparr>) \<and>
         sock_at t' c = Some u \<and> s_connect u = p \<and> sock_at t' p = Some z \<and> s_connect z = c \<and> s_node z = a \<and>
         (\<forall>w \<in> set (queues (kern t) (s_cnn_blocked_processes ys)).
            pstate (procs (kern t) w) = PROCESS_STATE_SLEEPING \<longrightarrow> w \<in> set (ready_queue (kern t'))) \<and>
         socket_connect_wait t' c sv = Some (Returned 0, t') \<and>
         (\<forall>nc m. nc \<noteq> a \<longrightarrow> vnodes t nc = Some m \<longrightarrow> n_device m = c \<longrightarrow> stream_ok t' nc c p)))"
proof -
  let ?x = "x\<lparr>s_addr_len := l, s_addr := Some (take (unat l) addr)\<rparr>"
  obtain s' where s': "k_fs_socket_connect drv s c addr l copy copy2 = Some (Asleep sv, s')" "sched_inv (kern s')" "sock_at s' c = Some ?x"
    "sock_at s' sv = Some (y\<lparr>s_backlog := s_backlog y @ [c]\<rparr>)" "current_process (kern s) \<in> set (queues (kern s') (s_cnn_blocked_processes y))"
    "pstate (procs (kern s') (current_process (kern s))) = PROCESS_STATE_SLEEPING" "queues (kern s') (s_blocked_processes y) = []"
    "\<forall>q. q \<noteq> s_cnn_blocked_processes y \<longrightarrow> queues (kern s) q = [] \<longrightarrow> queues (kern s') q = []" "\<forall>p. p \<noteq> c \<longrightarrow> p \<noteq> sv \<longrightarrow> sock_at s' p = sock_at s p"
    using connect_turn [OF assms(1-17)] by (elim exE conjE) (rule that; assumption)
  have acc: "\<exists>t' u z. k_fs_socket_accept ops junk t sv (a, p, qs) = Some (Returned (0, a), t') \<and> sock_at t' sv = Some (ys\<lparr>s_backlog := rest\<rparr>) \<and>
      sock_at t' c = Some u \<and> s_connect u = p \<and> sock_at t' p = Some z \<and> s_connect z = c \<and> s_node z = a \<and>
      (\<forall>w \<in> set (queues (kern t) (s_cnn_blocked_processes ys)).
         pstate (procs (kern t) w) = PROCESS_STATE_SLEEPING \<longrightarrow> w \<in> set (ready_queue (kern t'))) \<and>
      socket_connect_wait t' c sv = Some (Returned 0, t') \<and>
      (\<forall>nc m. nc \<noteq> a \<longrightarrow> vnodes t nc = Some m \<longrightarrow> n_device m = c \<longrightarrow> stream_ok t' nc c p)"
    if t: "sched_inv (kern t)" "sock_at t c = sock_at s' c" "sock_at t sv = Some ys" "s_domain ys = AF_LOCAL" "s_backlog ys = c # rest"
      "length qs = 6" "\<forall>q \<in> set qs. queues (kern t) q = []" "sock_at t p = None" "p \<noteq> NULL" "p \<noteq> REFUSED" for t ys rest a p qs
  proof -
    have tc: "sock_at t c = Some ?x" using t(2) s'(3) by simp
    have ad: "s_addr ?x = Some (take (unat l) addr)" by simp
    obtain t' z where t': "k_fs_socket_accept ops junk t sv (a, p, qs) = Some (Returned (0, a), t')" "sched_inv (kern t')"
      "sock_at t' sv = Some (ys\<lparr>s_backlog := rest\<rparr>)" "sock_at t' c = Some (?x\<lparr>s_connect := p\<rparr>)" "sock_at t' p = Some z" "s_connect z = c" "s_node z = a"
      "sock_ok z" "queues (kern t') (mutex_queue (s_lock z)) = []" "\<exists>n. vnodes t' a = Some n \<and> n_device n = p" "\<forall>r. r \<noteq> a \<longrightarrow> vnodes t' r = vnodes t r"
      "\<forall>w \<in> set (queues (kern t) (s_cnn_blocked_processes ys)). pstate (procs (kern t) w) = PROCESS_STATE_SLEEPING \<longrightarrow> w \<in> set (ready_queue (kern t'))"
      "socket_connect_wait t' c sv = Some (Returned 0, t')"
      using accept_turn [OF t(1,3,4,5) tc ad refl t(6-10) assms(16), of ops junk a] by (elim exE conjE) (rule that; (assumption | blast))
    have "stream_ok t' nc c p" if "nc \<noteq> a" "vnodes t nc = Some m" "n_device m = c" for nc m
      using that t' t(9) assms(5,18) by (simp add: stream_ok_def)
    then show ?thesis using t' by (intro exI [of _ t'] exI [of _ "?x\<lparr>s_connect := p\<rparr>"] exI [of _ z]) simp
  qed
  show ?thesis
    by (intro exI [of _ s'] conjI s'(1,2,4-9)) (intro allI impI, rule acc)
qed

text \<open>
  An example: the socket 200 listens at the path \<^verbatim>\<open>/s\<close>, the socket 100 with the node 10 is not
  connected, and the sockets 300 and 400 with the nodes 11 and 12 are connected to each other.
\<close>

definition demo_node :: "ptr \<Rightarrow> ptr \<Rightarrow> vnode" where
  "demo_node dev mp = \<lparr>n_name = ''s'', n_device = dev, n_mode = 3, n_flags = 0, n_inode = 0, n_size = 0, n_fs = NoOps, n_links = 1, n_path = None,
     n_mountpoint = mp\<rparr>"

definition demo_queues :: "ptr \<Rightarrow> ptr list" where
  "demo_queues q = [q, q + 1, q + 2, q + 3, q + 4, q + 5]"

definition demo_net :: net where
  "demo_net = \<lparr>vnodes = [5 \<mapsto> dir_node ''[root]'' 1, 30 \<mapsto> demo_node 200 2, 10 \<mapsto> demo_node 100 0, 11 \<mapsto> demo_node 300 0, 12 \<mapsto> demo_node 400 0],
     entries = [1 \<mapsto> \<lparr>e_name = ''[root]'', e_node = 5, e_tree_node = 1\<rparr>, 2 \<mapsto> \<lparr>e_name = ''s'', e_node = 30, e_tree_node = 2\<rparr>],
     tnodes = [1 \<mapsto> \<lparr>t_parent = 0, t_children = [2], t_value = 1, t_in_tree = True\<rparr>, 2 \<mapsto> \<lparr>t_parent = 1, t_children = [], t_value = 2, t_in_tree = True\<rparr>],
     vfs_tree = 1, tree_nodes = [1, 2],
     drv_data = (blank_kernel, [100 \<mapsto> new_sock 0 10 0 (demo_queues 1000), 200 \<mapsto> (new_sock 0 13 0 (demo_queues 2000))\<lparr>s_listening := 1\<rparr>,
       300 \<mapsto> (new_sock 0 11 0 (demo_queues 3000))\<lparr>s_connect := 400\<rparr>, 400 \<mapsto> (new_sock 0 12 0 (demo_queues 4000))\<lparr>s_connect := 300\<rparr>])\<rparr>"

lemma demo_kern: "kern demo_net = blank_kernel" "queues (kern demo_net) q = []" "has_block (kern demo_net) (current_process (kern demo_net))"
  by (simp_all add: demo_net_def kern_def blank_kernel_def has_block_def blank_process_def)

lemma demo_socks:
  "sock_at demo_net 100 = Some (new_sock 0 10 0 (demo_queues 1000))" "sock_at demo_net 200 = Some ((new_sock 0 13 0 (demo_queues 2000))\<lparr>s_listening := 1\<rparr>)"
  "sock_at demo_net 300 = Some ((new_sock 0 11 0 (demo_queues 3000))\<lparr>s_connect := 400\<rparr>)"
  "sock_at demo_net 400 = Some ((new_sock 0 12 0 (demo_queues 4000))\<lparr>s_connect := 300\<rparr>)" "sock_at demo_net 500 = None"
  "vnodes demo_net 11 = Some (demo_node 300 0)" "vnodes demo_net 12 = Some (demo_node 400 0)"
  by (simp_all add: demo_net_def sock_at_def)

lemma demo_stream: "stream_ok demo_net 11 300 400"
  using blank_kernel_inv demo_kern(2) [unfolded demo_kern(1)]
  by (simp add: stream_ok_def demo_kern(1) demo_socks demo_node_def sock_ok_def new_sock_def)

theorem socket_stream_in_order_witness:
  "\<exists>s' outs. transfers 0 demo_net 11 12 [Send [1, 2, 3], Receive 2, Send [4], Receive 2] = Some (outs, s') \<and> concat outs = [1, 2, 3, 4]"
proof -
  let ?x = "(new_sock 0 12 0 (demo_queues 4000))\<lparr>s_connect := 300\<rparr>" and ?ts = "[Send [1, 2, 3], Receive 2, Send [4], Receive 2]"
  have c: "content ?x = []" "s_node ?x = 12" by (simp_all add: content_def new_sock_def)
  obtain outs s' y where r: "transfers 0 demo_net 11 (s_node ?x) ?ts = Some (outs, s')" "content ?x @ sent ?ts = concat outs @ content y" "map length outs = requested ?ts"
    using socket_stream_in_order [OF demo_stream demo_socks(4), of ?ts 0] c by auto
  have n: "length (concat outs) = 4" using r(3) by (simp add: length_concat)
  have e: "concat outs @ content y = [1, 2, 3, 4]" using r(2) c by simp
  then have "length (concat outs @ content y) = 4" by simp
  then have "content y = []" using n by simp
  then have "concat outs = [1, 2, 3, 4]" using e by simp
  then show ?thesis using r(1) c(2) by auto
qed

lemma demo_open:
  "\<exists>s1 n. k_fs_vfs_open (\<lambda>_. no_driver) demo_net ''/s'' 3 77 78 = Some (77, s1) \<and> drv_data s1 = drv_data demo_net \<and> vnodes s1 77 = Some n \<and> n_device n = 200"
proof -
  have p: "k_util_path_canonize ''/s'' [] = Some ''/s''" by code_simp
  have m: "''/s'' = mk_path True [''s''] False" "comps_ok [''s'']" by (simp_all add: mk_path_def comps_ok_def)
  have "find_node (\<lambda>_. no_driver) demo_net ''/s'' 3 = Some (e_node \<lparr>e_name = ''s'', e_node = 30, e_tree_node = 2\<rparr>, demo_net)"
    by (rule find_node_tree [OF m(2,1), where c = 2 and n = "demo_node 200 2"])
      (simp_all add: demo_net_def find_child_def entry_of_def demo_node_def)
  then show ?thesis using p by (simp add: k_fs_vfs_open_def finish_open_def ops_of_def k_fs_vfs_dup_def no_driver_def demo_net_def demo_node_def)
qed

theorem socket_handshake_witness:
  "\<exists>s' t'. k_fs_socket_connect (\<lambda>_. no_driver) demo_net 100 [0, 0, 47, 115, 0] 5 77 78 = Some (Asleep 200, s') \<and>
     k_fs_socket_accept 1 0 s' 200 (14, 500, demo_queues 5000) = Some (Returned (0, 14), t') \<and>
     socket_connect_wait t' 100 200 = Some (Returned 0, t')"
proof -
  obtain s1 n where o: "k_fs_vfs_open (\<lambda>_. no_driver) demo_net ''/s'' 3 77 78 = Some (77, s1)" "drv_data s1 = drv_data demo_net" "vnodes s1 77 = Some n" "n_device n = 200"
    using demo_open by blast
  have "of_char CHR ''/'' = (47 :: nat)" "of_char CHR ''s'' = (115 :: nat)" by simp_all
  then have "char_of (47 :: nat) = CHR ''/''" "char_of (115 :: nat) = CHR ''s''" by (metis char_of_char)+
  then have p: "sun_path [0, 0, 47, 115, 0] = Some ''/s''" by (simp add: sun_path_def)
  let ?y = "(new_sock 0 13 0 (demo_queues 2000))\<lparr>s_listening := 1\<rparr>"
  have i: "sched_inv (kern demo_net)" using blank_kernel_inv by (simp add: demo_kern)
  have q: "s_cnn_blocked_processes ?y = 2001" "s_blocked_processes ?y = 2000" "s_backlog ?y = []" "s_domain ?y = AF_LOCAL" by (simp_all add: new_sock_def demo_queues_def)
  have x: "s_connect (new_sock 0 10 0 (demo_queues 1000)) = NULL" "s_domain (new_sock 0 10 0 (demo_queues 1000)) = AF_LOCAL"
    "s_type (new_sock 0 10 0 (demo_queues 1000)) AND SOCK_NONBLOCK = 0" by (simp_all add: new_sock_def)
  have l: "unat (5 :: u32) \<le> length [0, 0, 47, 115, 0 :: u8]" "(77 :: ptr) \<noteq> NULL" "s_listening ?y \<noteq> 0" "(100 :: ptr) \<noteq> 200" "s_blocked_processes ?y \<noteq> s_cnn_blocked_processes ?y"
    "(100 :: ptr) \<noteq> NULL" using q by simp_all
  from socket_handshake [OF i demo_kern(3) demo_socks(1) x p l(1) o(1,2) l(2) o(3,4) demo_socks(2) l(3-6), of 1 0] show ?thesis
  proof (elim exE conjE, goal_cases)
    case (1 s')
    have "\<forall>q \<in> set (demo_queues 5000). queues (kern s') q = []" "length (demo_queues 5000) = 6" using 1(7) demo_kern(2) q(1) by (simp_all add: demo_queues_def)
    moreover have "sock_at s' 500 = None" using 1(8) demo_socks(5) by simp
    moreover have "s_backlog (?y\<lparr>s_backlog := s_backlog ?y @ [100]\<rparr>) = 100 # []" using q(3) by simp
    ultimately show ?case using 1(1) 1(9) [rule_format, OF 1(2) refl 1(3), of "[]" "demo_queues 5000" 500 14] q(4) by auto
  qed
qed

end
