(* ===== verification/Stdio.thy ===== *)
theory Stdio
  imports Blockdev Syscall CString
begin

text \<open>
  Buffered files of the C library, from \<^verbatim>\<open>libc/src/stdio/stdio.c\<close> over the calls of \<^verbatim>\<open>libc/src/unistd/fs.c\<close>:
  opening, closing, reading, writing, seeking. The system calls on descriptors are the fields of \<open>descr\<close>, applied
  to the state \<open>os\<close> of the system; \<open>kernel_descr\<close> are those of \<open>Syscall\<close>. Buffers are heap blocks by
  their address, since \<open>setbuf\<close> makes both buffers of a file the same block. An access outside of a
  block, or of a block that is not there, is \<open>None\<close>; an address the heap returns is an argument.
\<close>

section \<open>State\<close>

record 'f descr =
  d_open :: "string \<Rightarrow> u16 \<Rightarrow> 'f \<Rightarrow> (int \<times> 'f) option"
  d_close :: "u32 \<Rightarrow> 'f \<Rightarrow> (int \<times> 'f) option"
  d_read :: "u32 \<Rightarrow> u32 \<Rightarrow> 'f \<Rightarrow> ((int \<times> u8 list) \<times> 'f) option"
  d_write :: "u32 \<Rightarrow> u8 list \<Rightarrow> 'f \<Rightarrow> (int \<times> 'f) option"
  d_seek :: "u32 \<Rightarrow> u32 \<Rightarrow> u8 \<Rightarrow> 'f \<Rightarrow> (int \<times> 'f) option"

record 'f libc =
  os :: 'f
  errno :: int
  bufs :: "ptr \<Rightarrow> u8 list option"

record FILE =
  f_fd :: u32
  f_buffer_size :: u32
  f_read_buffer :: ptr
  f_write_buffer :: ptr
  f_read_ptr :: u32
  f_read_buffer_offset :: u32
  f_write_ptr :: u32
  f_available :: u32
  f_real_offset :: u32
  f_eof :: u8
  f_ungetc :: u8

abbreviation (input) BUFSIZE :: u32 where "BUFSIZE \<equiv> 512"

text \<open>\<open>__return_errno\<close>: a negative result becomes -1 and is kept in \<open>errno\<close>.\<close>

definition return_errno :: "int \<Rightarrow> 'f libc \<Rightarrow> int \<times> 'f libc" where
  "return_errno res c = (if res < 0 then (- 1, c\<lparr>errno := - res\<rparr>) else (res, c))"

definition read_fd :: "'f descr \<Rightarrow> u32 \<Rightarrow> u32 \<Rightarrow> 'f libc \<Rightarrow> ((int \<times> u8 list) \<times> 'f libc) option" where
  "read_fd ops fd n c = do {
     ((r, bs), w) \<leftarrow> d_read ops fd n (os c);
     let (r', c') = return_errno r (c\<lparr>os := w\<rparr>);
     Some ((r', bs), c') }"

definition write_fd :: "'f descr \<Rightarrow> u32 \<Rightarrow> u8 list \<Rightarrow> 'f libc \<Rightarrow> (int \<times> 'f libc) option" where
  "write_fd ops fd bs c = do { (r, w) \<leftarrow> d_write ops fd bs (os c); Some (return_errno r (c\<lparr>os := w\<rparr>)) }"

section \<open>Opening, flushing, seeking\<close>

text \<open>The second character of an empty mode is behind its end.\<close>

definition mode_to_options :: "string \<Rightarrow> u16 option" where
  "mode_to_options m =
     (if m = [] then None
      else if length m = 1 \<or> m ! 1 \<noteq> CHR ''+''
      then Some (if m ! 0 = CHR ''r'' then 1 else if m ! 0 = CHR ''w'' then 2 else if m ! 0 = CHR ''a'' then 18 else 0)
      else Some (if m ! 0 = CHR ''r'' then 3 else if m ! 0 = CHR ''w'' then 7 else if m ! 0 = CHR ''a'' then 22 else 0))"

definition fflush :: "'f descr \<Rightarrow> FILE \<Rightarrow> 'f libc \<Rightarrow> (int \<times> FILE \<times> 'f libc) option" where
  "fflush ops f c =
     (if f_write_buffer f = NULL then Some (0, f, c)
      else if f_write_ptr f \<noteq> 0
      then do {
        b \<leftarrow> bufs c (f_write_buffer f);
        if unat (f_write_ptr f) > length b then None
        else do { (r, c1) \<leftarrow> write_fd ops (f_fd f) (take (unat (f_write_ptr f)) b) c; Some (r, f\<lparr>f_write_ptr := 0\<rparr>, c1) } }
      else Some (0, f, c))"

text \<open>\<open>wb\<close> and \<open>rb\<close> are the new blocks, which hold \<open>junk\<close>.\<close>

definition fdopen :: "u8 \<Rightarrow> u32 \<Rightarrow> ptr \<Rightarrow> ptr \<Rightarrow> 'f libc \<Rightarrow> FILE \<times> 'f libc" where
  "fdopen junk fd wb rb c =
     (\<lparr>f_fd = fd, f_buffer_size = BUFSIZE, f_read_buffer = rb, f_write_buffer = wb, f_read_ptr = 0, f_read_buffer_offset = 0, f_write_ptr = 0,
       f_available = 0, f_real_offset = 0, f_eof = 0, f_ungetc = 0\<rparr>,
      c\<lparr>bufs := (bufs c)(wb \<mapsto> replicate 512 junk, rb \<mapsto> replicate 512 junk)\<rparr>)"

definition fopen :: "'f descr \<Rightarrow> u8 \<Rightarrow> string \<Rightarrow> string \<Rightarrow> ptr \<Rightarrow> ptr \<Rightarrow> 'f libc \<Rightarrow> (FILE option \<times> 'f libc) option" where
  "fopen ops junk path m wb rb c = do {
     opt \<leftarrow> mode_to_options m;
     (fd, w) \<leftarrow> d_open ops path opt (os c);
     if fd < 0 then Some (None, c\<lparr>os := w, errno := - fd\<rparr>)
     else let (f, c1) = fdopen junk (of_int fd) wb rb (c\<lparr>os := w\<rparr>) in Some (Some f, c1) }"

definition fclose :: "'f descr \<Rightarrow> FILE \<Rightarrow> 'f libc \<Rightarrow> (int \<times> 'f libc) option" where
  "fclose ops f c = do {
     (_, f1, c1) \<leftarrow> fflush ops f c;
     (_, w) \<leftarrow> d_close ops (f_fd f1) (os c1);
     Some (0, c1\<lparr>os := w, bufs := (bufs c1)(f_read_buffer f1 := None, f_write_buffer f1 := None)\<rparr>) }"

definition fseek :: "'f descr \<Rightarrow> FILE \<Rightarrow> u32 \<Rightarrow> u8 \<Rightarrow> 'f libc \<Rightarrow> (int \<times> FILE \<times> 'f libc) option" where
  "fseek ops f offset whence c = do {
     let (offset', whence') = (if f_read_ptr f \<noteq> 0 \<and> whence = 1 then (offset + (f_real_offset f + f_read_ptr f), 0) else (offset, whence));
     (_, f1, c1) \<leftarrow> (if f_write_ptr f \<noteq> 0 then fflush ops f c else Some (0, f, c));
     let f2 = f1\<lparr>f_read_ptr := 0, f_write_ptr := 0, f_available := 0, f_eof := 0\<rparr>;
     (r, w) \<leftarrow> d_seek ops (f_fd f2) offset' whence' (os c1);
     Some (r, f2, c1\<lparr>os := w\<rparr>) }"

definition ftell :: "'f descr \<Rightarrow> FILE \<Rightarrow> 'f libc \<Rightarrow> (int \<times> FILE \<times> 'f libc) option" where
  "ftell ops f c = fseek ops f 0 1 c"

definition rewind :: "'f descr \<Rightarrow> FILE \<Rightarrow> 'f libc \<Rightarrow> (FILE \<times> 'f libc) option" where
  "rewind ops f c = do {
     (_, f1, c1) \<leftarrow> fseek ops f 0 0 c;
     Some (f1\<lparr>f_read_buffer_offset := 0, f_available := 0, f_eof := 0, f_ungetc := 0\<rparr>, c1) }"

text \<open>With a buffer of the caller both buffers are that block; the old ones are freed only without one.\<close>

definition setbuf :: "FILE \<Rightarrow> ptr \<Rightarrow> 'f libc \<Rightarrow> FILE \<times> 'f libc" where
  "setbuf f buf c =
     (let f1 = f\<lparr>f_read_ptr := 0, f_write_ptr := 0, f_read_buffer_offset := 0, f_available := 0\<rparr>
      in if buf = NULL
         then (f1\<lparr>f_read_buffer := NULL, f_write_buffer := NULL, f_buffer_size := 0\<rparr>,
               c\<lparr>bufs := (bufs c)(f_read_buffer f := None, f_write_buffer f := None)\<rparr>)
         else (f1\<lparr>f_write_buffer := buf, f_read_buffer := buf, f_buffer_size := BUFSIZE\<rparr>, c))"

definition clearerr :: "FILE \<Rightarrow> FILE" where
  "clearerr f = f\<lparr>f_eof := 0\<rparr>"

definition feof :: "FILE \<Rightarrow> u8" where
  "feof f = f_eof f"

definition ferror :: "FILE \<Rightarrow> int" where
  "ferror f = 0"

definition fileno :: "FILE \<Rightarrow> u32" where
  "fileno f = f_fd f"

section \<open>Reading\<close>

text \<open>The refill of the buffer in \<open>fread\<close>; the flag is whether the read succeeded.\<close>

definition fread_fill :: "'f descr \<Rightarrow> FILE \<Rightarrow> 'f libc \<Rightarrow> (bool \<times> FILE \<times> 'f libc) option" where
  "fread_fill ops f c = do {
     let f1 = (if f_read_buffer_offset f = f_buffer_size f then f\<lparr>f_read_buffer_offset := 0\<rparr> else f);
     (p, f2, c1) \<leftarrow> fseek ops f1 0 1 c;
     let f3 = f2\<lparr>f_real_offset := of_int p\<rparr>;
     let at = f_read_buffer_offset f3;
     ((r, bs), c2) \<leftarrow> read_fd ops (f_fd f3) (f_buffer_size f3 - at) c1;
     b \<leftarrow> bufs c2 (f_read_buffer f3);
     if unat at + length bs > length b then None
     else do {
       let c3 = c2\<lparr>bufs := (bufs c2)(f_read_buffer f3 \<mapsto> take (unat at) b @ bs @ drop (unat at + length bs) b)\<rparr>;
       if r < 0 then Some (False, f3, c3)
       else Some (True, f3\<lparr>f_read_ptr := at, f_read_buffer_offset := at + of_int r, f_available := of_int r\<rparr>, c3) } }"

text \<open>The loop over the bytes still to read, which stops at an error or at the end of the file.\<close>

fun fread_loop :: "'f descr \<Rightarrow> nat \<Rightarrow> FILE \<Rightarrow> 'f libc \<Rightarrow> (u8 list \<times> FILE \<times> 'f libc) option" where
  "fread_loop ops 0 f c = Some ([], f, c)"
| "fread_loop ops (Suc n) f c = do {
     (go, f1, c1) \<leftarrow> (if f_available f = 0 then fread_fill ops f c else Some (True, f, c));
     if \<not> go then Some ([], f1, c1)
     else if f_available f1 \<noteq> 0
     then do {
       b \<leftarrow> bufs c1 (f_read_buffer f1);
       if unat (f_read_ptr f1) \<ge> length b then None
       else do {
         (xs, f2, c2) \<leftarrow> fread_loop ops n (f1\<lparr>f_read_ptr := f_read_ptr f1 + 1, f_available := f_available f1 - 1\<rparr>) c1;
         Some (b ! unat (f_read_ptr f1) # xs, f2, c2) } }
     else Some ([], f1\<lparr>f_eof := 1\<rparr>, c1) }"

definition fread :: "'f descr \<Rightarrow> u32 \<Rightarrow> u32 \<Rightarrow> FILE \<Rightarrow> 'f libc \<Rightarrow> ((u32 \<times> u8 list) \<times> FILE \<times> 'f libc) option" where
  "fread ops sz nmemb f c =
     (if f_read_buffer f = NULL
      then do { ((r, bs), c1) \<leftarrow> read_fd ops (f_fd f) (sz * nmemb) c; Some ((of_int r, bs), f, c1) }
      else do { (xs, f1, c1) \<leftarrow> fread_loop ops (unat (sz * nmemb)) f c; Some ((of_nat (length xs), xs), f1, c1) })"

text \<open>\<open>fgetc\<close> returns a \<open>char\<close>, in which \<open>EOF\<close> is 255; a failed unbuffered read leaves the byte uninitialised.\<close>

definition fgetc :: "'f descr \<Rightarrow> FILE \<Rightarrow> 'f libc \<Rightarrow> (u8 \<times> FILE \<times> 'f libc) option" where
  "fgetc ops f c = do {
     ((n, bs), f1, c1) \<leftarrow> fread ops 1 1 f c;
     if n = 0 then Some (255, f1\<lparr>f_eof := 1\<rparr>, c1)
     else case bs of [] \<Rightarrow> None | x # _ \<Rightarrow> Some (x, f1, c1) }"

text \<open>The bytes stored at the buffer of the caller, with the terminating zero where there is one.\<close>

fun fgets_loop :: "'f descr \<Rightarrow> nat \<Rightarrow> u8 list \<Rightarrow> FILE \<Rightarrow> 'f libc \<Rightarrow> (u8 list option \<times> FILE \<times> 'f libc) option" where
  "fgets_loop ops 0 acc f c = None"
| "fgets_loop ops (Suc n) acc f c = do {
     (x, f1, c1) \<leftarrow> fgetc ops f c;
     if x = 255 then Some (if acc = [] then None else Some acc, f1, c1)
     else if n = 0 \<or> x = 10 then Some (Some (acc @ [x, 0]), f1, c1)
     else fgets_loop ops n (acc @ [x]) f1 c1 }"

definition fgets :: "'f descr \<Rightarrow> int \<Rightarrow> FILE \<Rightarrow> 'f libc \<Rightarrow> (u8 list option \<times> FILE \<times> 'f libc) option" where
  "fgets ops sz f c = (if sz \<le> 1 then Some (None, f, c) else fgets_loop ops (nat (sz - 1)) [] f c)"

section \<open>Writing\<close>

fun fwrite_loop :: "'f descr \<Rightarrow> u8 list \<Rightarrow> FILE \<Rightarrow> 'f libc \<Rightarrow> (FILE \<times> 'f libc) option" where
  "fwrite_loop ops [] f c = Some (f, c)"
| "fwrite_loop ops (x # xs) f c = do {
     b \<leftarrow> bufs c (f_write_buffer f);
     if unat (f_write_ptr f) \<ge> length b then None
     else do {
       let c1 = c\<lparr>bufs := (bufs c)(f_write_buffer f \<mapsto> b[unat (f_write_ptr f) := x])\<rparr>;
       let f1 = f\<lparr>f_write_ptr := f_write_ptr f + 1\<rparr>;
       (_, f2, c2) \<leftarrow> (if f_write_ptr f1 = f_buffer_size f1 \<or> x = 10 then fflush ops f1 c1 else Some (0, f1, c1));
       fwrite_loop ops xs f2 c2 } }"

definition fwrite :: "'f descr \<Rightarrow> u8 list \<Rightarrow> u32 \<Rightarrow> u32 \<Rightarrow> FILE \<Rightarrow> 'f libc \<Rightarrow> (u32 \<times> FILE \<times> 'f libc) option" where
  "fwrite ops buf sz nmemb f c =
     (if unat (sz * nmemb) > length buf then None
      else if f_write_buffer f = NULL
      then do { (r, c1) \<leftarrow> write_fd ops (f_fd f) (take (unat (sz * nmemb)) buf) c; Some (of_int r, f, c1) }
      else do { (f1, c1) \<leftarrow> fwrite_loop ops (take (unat (sz * nmemb)) buf) f c; Some (sz * nmemb, f1, c1) })"

text \<open>\<open>fputc\<close> stores the lowest byte of its argument.\<close>

definition fputc :: "'f descr \<Rightarrow> u32 \<Rightarrow> FILE \<Rightarrow> 'f libc \<Rightarrow> (u32 \<times> FILE \<times> 'f libc) option" where
  "fputc ops ch f c = do {
     (n, f1, c1) \<leftarrow> fwrite ops [ucast ch] 1 1 f c;
     Some (if n = 0 then (- 1, f1\<lparr>f_eof := 1\<rparr>, c1) else (ch, f1, c1)) }"

definition puts :: "'f descr \<Rightarrow> u8 list \<Rightarrow> FILE \<Rightarrow> 'f libc \<Rightarrow> (u32 \<times> FILE \<times> 'f libc) option" where
  "puts ops str f c = do {
     (r, f1, c1) \<leftarrow> fwrite ops str 1 (of_nat (length str)) f c;
     (_, f2, c2) \<leftarrow> fwrite ops [10] 1 1 f1 c1;
     Some (r, f2, c2) }"

section \<open>Output\<close>

text \<open>A descriptor that takes what is written to it: \<open>written\<close> is all it took so far.\<close>

definition sink :: "'f descr \<Rightarrow> u32 \<Rightarrow> ('f \<Rightarrow> bool) \<Rightarrow> ('f \<Rightarrow> u8 list) \<Rightarrow> bool" where
  "sink ops fd fine written \<longleftrightarrow>
     (\<forall>w bs. fine w \<longrightarrow> length bs \<le> 512 \<longrightarrow> (\<exists>w'. d_write ops fd bs w = Some (int (length bs), w') \<and> fine w' \<and> written w' = written w @ bs))"

definition out_ok :: "FILE \<Rightarrow> 'f libc \<Rightarrow> bool" where
  "out_ok f c \<longleftrightarrow> f_write_buffer f \<noteq> NULL \<and> f_buffer_size f = BUFSIZE \<and> f_write_ptr f < BUFSIZE \<and>
     (\<exists>b. bufs c (f_write_buffer f) = Some b \<and> length b = 512)"

definition pending :: "FILE \<Rightarrow> 'f libc \<Rightarrow> u8 list" where
  "pending f c = (case bufs c (f_write_buffer f) of None \<Rightarrow> [] | Some b \<Rightarrow> take (unat (f_write_ptr f)) b)"

lemma fflush_ok:
  assumes "sink ops (f_fd f) fine written" and "fine (os c)" and "f_write_buffer f \<noteq> NULL" and "bufs c (f_write_buffer f) = Some b" and "length b = 512" and "f_write_ptr f \<le> BUFSIZE"
  shows "\<exists>r c'. fflush ops f c = Some (r, f\<lparr>f_write_ptr := 0\<rparr>, c') \<and> fine (os c') \<and> written (os c') = written (os c) @ take (unat (f_write_ptr f)) b \<and> bufs c' = bufs c"
proof (cases "f_write_ptr f = 0")
  case True
  then have "f\<lparr>f_write_ptr := 0\<rparr> = f" by (cases f) simp
  then show ?thesis using True assms by (simp add: fflush_def)
next
  case False
  have l: "unat (f_write_ptr f) \<le> 512" using assms(6) by (simp add: word_le_nat_alt)
  obtain w where w: "d_write ops (f_fd f) (take (unat (f_write_ptr f)) b) (os c) = Some (int (length (take (unat (f_write_ptr f)) b)), w)" "fine w"
    "written w = written (os c) @ take (unat (f_write_ptr f)) b"
    using assms(1,2,5) unfolding sink_def by (metis length_take min.cobounded1)
  then show ?thesis using False assms(3-5) l by (auto simp: fflush_def write_fd_def return_errno_def)
qed

lemma take_update: "i < length b \<Longrightarrow> take (Suc i) (b[i := x]) = take i b @ [x]"
  by (simp add: take_Suc_conv_app_nth)

lemma fwrite_loop_ok:
  assumes "sink ops (f_fd f) fine written" and "fine (os c)" and "out_ok f c" and "10 \<notin> set (pending f c)"
  shows "\<exists>f' c'. fwrite_loop ops xs f c = Some (f', c') \<and> f_fd f' = f_fd f \<and> fine (os c') \<and> out_ok f' c' \<and> 10 \<notin> set (pending f' c') \<and>
    written (os c') @ pending f' c' = written (os c) @ pending f c @ xs"
  using assms
proof (induction xs arbitrary: f c)
  case (Cons x xs)
  obtain b where b: "f_write_buffer f \<noteq> NULL" "f_buffer_size f = BUFSIZE" "f_write_ptr f < BUFSIZE" "bufs c (f_write_buffer f) = Some b" "length b = 512"
    using Cons.prems(3) by (auto simp: out_ok_def)
  let ?i = "unat (f_write_ptr f)" and ?c = "c\<lparr>bufs := (bufs c)(f_write_buffer f \<mapsto> b[unat (f_write_ptr f) := x])\<rparr>" and ?f = "f\<lparr>f_write_ptr := f_write_ptr f + 1\<rparr>"
  have i: "?i < 512" using b(3) by (simp add: word_less_nat_alt)
  then have u: "unat (f_write_ptr f + 1) = Suc ?i" by (subst unat_Suc32) auto
  have p: "pending f c = take ?i b" using b(4) by (simp add: pending_def)
  have t: "take (Suc ?i) (b[?i := x]) = take ?i b @ [x]" using i b(5) by (simp add: take_update)
  show ?case
  proof (cases "f_write_ptr f + 1 = BUFSIZE \<or> x = 10")
    case True
    have le: "f_write_ptr ?f \<le> BUFSIZE" using u i by (simp add: word_le_nat_alt)
    obtain r c' where r: "fflush ops ?f ?c = Some (r, ?f\<lparr>f_write_ptr := 0\<rparr>, c')" "fine (os c')" "written (os c') = written (os c) @ take ?i b @ [x]" "bufs c' = bufs ?c"
      using fflush_ok [of ops ?f fine written ?c "b[?i := x]"] Cons.prems(1,2) b(1,5) le u t by auto
    let ?g = "f\<lparr>f_write_ptr := 0\<rparr>"
    have "out_ok ?g c'" "pending ?g c' = []" using b r(4) by (auto simp: out_ok_def pending_def)
    then obtain f2 c2 where f2: "fwrite_loop ops xs ?g c' = Some (f2, c2)" "f_fd f2 = f_fd f" "fine (os c2)" "out_ok f2 c2" "10 \<notin> set (pending f2 c2)"
      "written (os c2) @ pending f2 c2 = written (os c') @ xs"
      using Cons.IH [of ?g c'] Cons.prems(1) r(2) by auto
    have "fwrite_loop ops (x # xs) f c = Some (f2, c2)" using True b i r(1) f2(1) by (auto simp: Let_def not_le)
    then show ?thesis using f2 r(3) p by auto
  next
    case False
    have "unat (f_write_ptr f) \<noteq> unat (511 :: u32)" using False word_unatI [of "f_write_ptr f" 511] by auto
    then have "f_write_ptr f + 1 < BUFSIZE" using i u by (simp add: word_less_nat_alt)
    then have ok: "out_ok ?f ?c" using b by (simp add: out_ok_def)
    have pe: "pending ?f ?c = take ?i b @ [x]" using u t by (simp add: pending_def)
    have np: "10 \<notin> set (pending ?f ?c)" using pe False Cons.prems(4) p by auto
    obtain f2 c2 where f2: "fwrite_loop ops xs ?f ?c = Some (f2, c2)" "f_fd f2 = f_fd f" "fine (os c2)" "out_ok f2 c2" "10 \<notin> set (pending f2 c2)"
      "written (os c2) @ pending f2 c2 = written (os c) @ pending ?f ?c @ xs"
      using Cons.IH [of ?f ?c] Cons.prems(1,2) ok np by auto
    have "fwrite_loop ops (x # xs) f c = Some (f2, c2)" using False b i f2(1) by (auto simp: Let_def not_le)
    then show ?thesis using f2 pe p by auto
  qed
qed auto

text \<open>A sequence of \<open>fwrite\<close> calls.\<close>

fun fwrites :: "'f descr \<Rightarrow> u8 list list \<Rightarrow> FILE \<Rightarrow> 'f libc \<Rightarrow> (u32 list \<times> FILE \<times> 'f libc) option" where
  "fwrites ops [] f c = Some ([], f, c)"
| "fwrites ops (b # bs) f c = do {
     (n, f1, c1) \<leftarrow> fwrite ops b 1 (of_nat (length b)) f c;
     (ns, f2, c2) \<leftarrow> fwrites ops bs f1 c1;
     Some (n # ns, f2, c2) }"

lemma fwrites_ok:
  assumes "sink ops (f_fd f) fine written" and "fine (os c)" and "out_ok f c" and "10 \<notin> set (pending f c)" and "\<forall>b \<in> set bs. length b < 2 ^ 32"
  shows "\<exists>f' c'. fwrites ops bs f c = Some (map (\<lambda>b. of_nat (length b)) bs, f', c') \<and> f_fd f' = f_fd f \<and> fine (os c') \<and> out_ok f' c' \<and> 10 \<notin> set (pending f' c') \<and>
    written (os c') @ pending f' c' = written (os c) @ pending f c @ concat bs"
  using assms
proof (induction bs arbitrary: f c)
  case (Cons b bs)
  have l: "unat (of_nat (length b) :: u32) = length b" using Cons.prems(5) by (simp add: unat_of_nat_eq32)
  obtain f1 c1 where f1: "fwrite_loop ops b f c = Some (f1, c1)" "f_fd f1 = f_fd f" "fine (os c1)" "out_ok f1 c1" "10 \<notin> set (pending f1 c1)"
    "written (os c1) @ pending f1 c1 = written (os c) @ pending f c @ b" using fwrite_loop_ok [OF Cons.prems(1-4), of b] by blast
  have w: "fwrite ops b 1 (of_nat (length b)) f c = Some (of_nat (length b), f1, c1)" using l f1(1) Cons.prems(3) by (simp add: fwrite_def out_ok_def)
  obtain f2 c2 where f2: "fwrites ops bs f1 c1 = Some (map (\<lambda>b. of_nat (length b)) bs, f2, c2)" "f_fd f2 = f_fd f" "fine (os c2)" "out_ok f2 c2" "10 \<notin> set (pending f2 c2)"
    "written (os c2) @ pending f2 c2 = written (os c1) @ pending f1 c1 @ concat bs" using Cons.IH [of f1 c1] Cons.prems(1,5) f1 by auto
  have "written (os c2) @ pending f2 c2 = written (os c) @ pending f c @ concat (b # bs)" using f2(6) f1(6) by (metis append.assoc concat.simps(2))
  then show ?case using w f2 by auto
qed auto

section \<open>Input\<close>

text \<open>
  A descriptor of a file that can be read and positioned: a read returns the bytes at the
  position, fewer only at the end of the file, and moves the position behind them.
\<close>

locale readable =
  fixes ops :: "'f descr" and fd :: u32 and good :: "'f \<Rightarrow> bool" and data :: "u8 list" and pos :: "'f \<Rightarrow> nat"
  assumes small: "good w \<Longrightarrow> length data < 2 ^ 30"
    and reads: "good w \<Longrightarrow> pos w < 2 ^ 31 \<Longrightarrow> unat n \<le> 512 \<Longrightarrow>
      \<exists>w'. d_read ops fd n w = Some ((int (length (slice data (pos w) (unat n))), slice data (pos w) (unat n)), w') \<and>
        good w' \<and> pos w' = pos w + length (slice data (pos w) (unat n))"
    and seeks: "good w \<Longrightarrow> unat off < 2 ^ 31 \<Longrightarrow> \<exists>w'. d_seek ops fd off 0 w = Some (int (unat off), w') \<and> good w' \<and> pos w' = unat off"
    and tells: "good w \<Longrightarrow> pos w < 2 ^ 31 \<Longrightarrow> \<exists>w'. d_seek ops fd 0 1 w = Some (int (pos w), w') \<and> good w' \<and> pos w' = pos w"
begin

text \<open>Where the next refill seeks to.\<close>

definition target :: "FILE \<Rightarrow> 'f libc \<Rightarrow> nat" where
  "target f c = (if f_read_ptr f = 0 then pos (os c) else unat (f_real_offset f) + unat (f_read_ptr f))"

text \<open>
  The state of a file at position \<open>P\<close>: with bytes in the buffer, they are those at \<open>P\<close> and the descriptor is
  behind them; with none, the next refill seeks to \<open>P\<close>, or behind the end when the end was reached.
  Each read at the end, of which there were at most \<open>j\<close>, may take the target further off.
\<close>

definition in_ok :: "FILE \<Rightarrow> 'f libc \<Rightarrow> nat \<Rightarrow> nat \<Rightarrow> bool" where
  "in_ok f c P j \<longleftrightarrow> f_fd f = fd \<and> f_read_buffer f \<noteq> NULL \<and> f_buffer_size f = BUFSIZE \<and> f_write_ptr f = 0 \<and> good (os c) \<and> P \<le> length data \<and>
     (\<exists>b. bufs c (f_read_buffer f) = Some b \<and> length b = 512 \<and>
        unat (f_read_ptr f) + unat (f_available f) = unat (f_read_buffer_offset f) \<and> unat (f_read_buffer_offset f) \<le> 512 \<and>
        (if f_available f = 0
         then (target f c = P \<or> P = length data \<and> P \<le> target f c) \<and> (unat (f_read_buffer_offset f) = 0 \<or> unat (f_read_buffer_offset f) = 512 \<or> P = length data) \<and>
           target f c \<le> length data + 512 * j
         else unat (f_real_offset f) + unat (f_read_ptr f) = P \<and> pos (os c) = P + unat (f_available f) \<and> P + unat (f_available f) \<le> length data \<and>
           slice b (unat (f_read_ptr f)) (unat (f_available f)) = slice data P (unat (f_available f)) \<and>
           (unat (f_read_buffer_offset f) = 512 \<or> P + unat (f_available f) = length data)))"

lemma seek_target:
  assumes "in_ok f c P j" and "f_available f = 0" and "j < 2 ^ 20" and "f1 = (if f_read_buffer_offset f = f_buffer_size f then f\<lparr>f_read_buffer_offset := 0\<rparr> else f)"
  shows "\<exists>w. fseek ops f1 0 1 c = Some (int (target f c), f1\<lparr>f_read_ptr := 0, f_write_ptr := 0, f_available := 0, f_eof := 0\<rparr>, c\<lparr>os := w\<rparr>) \<and>
    good w \<and> pos w = target f c \<and> target f c < 2 ^ 31"
proof -
  have g: "good (os c)" "f_fd f = fd" "f_write_ptr f = 0" "target f c \<le> length data + 512 * j" using assms(1,2) by (auto simp: in_ok_def)
  have t: "target f c < 2 ^ 31" using g(4) assms(3) small [OF g(1)] by simp
  show ?thesis
  proof (cases "f_read_ptr f = 0")
    case True
    then obtain w where "d_seek ops fd 0 1 (os c) = Some (int (pos (os c)), w)" "good w" "pos w = pos (os c)" using tells [OF g(1)] t by (auto simp: target_def)
    then show ?thesis using True t g assms(4) by (auto simp: fseek_def target_def)
  next
    case False
    then have u: "unat (f_real_offset f + f_read_ptr f) = target f c" using t by (simp add: target_def unat_add32)
    then obtain w where "d_seek ops fd (f_real_offset f + f_read_ptr f) 0 (os c) = Some (int (target f c), w)" "good w" "pos w = target f c"
      using seeks [OF g(1), of "f_real_offset f + f_read_ptr f"] t by auto
    then show ?thesis using False t g assms(4) by (auto simp: fseek_def)
  qed
qed

lemma fill_ok:
  assumes "in_ok f c P j" and "f_available f = 0" and "j < 2 ^ 20"
  shows "\<exists>f1 c1. fread_fill ops f c = Some (True, f1, c1) \<and>
    (if P < length data then f_available f1 \<noteq> 0 \<and> in_ok f1 c1 P j else f_available f1 = 0 \<and> in_ok f1 c1 P (Suc j))"
proof -
  define f1 where "f1 = (if f_read_buffer_offset f = f_buffer_size f then f\<lparr>f_read_buffer_offset := 0\<rparr> else f)"
  obtain w where w: "fseek ops f1 0 1 c = Some (int (target f c), f1\<lparr>f_read_ptr := 0, f_write_ptr := 0, f_available := 0, f_eof := 0\<rparr>, c\<lparr>os := w\<rparr>)"
    "good w" "pos w = target f c" "target f c < 2 ^ 31" using seek_target [OF assms f1_def] by blast
  obtain b where b: "f_fd f = fd" "f_read_buffer f \<noteq> NULL" "f_buffer_size f = BUFSIZE" "good (os c)" "P \<le> length data" "bufs c (f_read_buffer f) = Some b" "length b = 512"
    "f_read_ptr f = f_read_buffer_offset f" "unat (f_read_buffer_offset f) \<le> 512" "target f c = P \<or> P = length data \<and> P \<le> target f c"
    "unat (f_read_buffer_offset f) = 0 \<or> unat (f_read_buffer_offset f) = 512 \<or> P = length data" "target f c \<le> length data + 512 * j"
    using assms(1,2) by (auto simp: in_ok_def intro: word_unatI)
  define at where "at = f_read_buffer_offset f1"
  have ne: "f_read_buffer_offset f \<noteq> BUFSIZE \<Longrightarrow> unat (f_read_buffer_offset f) \<noteq> 512" using word_unatI [of "f_read_buffer_offset f" BUFSIZE] by auto
  have at: "unat at < 512" "P < length data \<Longrightarrow> at = 0" using b(3,9,11) ne by (auto simp: at_def f1_def unat_eq_zero32)
  have n: "unat (BUFSIZE - at) = 512 - unat at" using at(1) by (subst unat_sub32) (simp_all add: word_le_nat_alt)
  let ?bs = "slice data (target f c) (512 - unat at)"
  have ex: "\<exists>w'. d_read ops fd (BUFSIZE - at) w = Some ((int (length (slice data (pos w) (unat (BUFSIZE - at)))), slice data (pos w) (unat (BUFSIZE - at))), w') \<and>
      good w' \<and> pos w' = pos w + length (slice data (pos w) (unat (BUFSIZE - at)))"
    using w(2-4) n by (intro reads) auto
  obtain w' where w': "d_read ops fd (BUFSIZE - at) w = Some ((int (length ?bs), ?bs), w')" "good w'" "pos w' = target f c + length ?bs"
    using ex w(3) n by auto
  have l: "length ?bs \<le> 512 - unat at" by (rule length_slice_le)
  let ?f = "f1\<lparr>f_read_ptr := at, f_write_ptr := 0, f_available := of_nat (length ?bs), f_eof := 0, f_real_offset := of_nat (target f c), f_read_buffer_offset := at + of_nat (length ?bs)\<rparr>"
  let ?b = "take (unat at) b @ ?bs @ drop (unat at + length ?bs) b" and ?rb = "f_read_buffer f"
  let ?c = "c\<lparr>os := w', bufs := (bufs c)(?rb \<mapsto> take (unat at) b @ ?bs @ drop (unat at + length ?bs) b)\<rparr>"
  have f1: "f_fd f1 = fd" "f_buffer_size f1 = BUFSIZE" "f_read_buffer f1 = ?rb" using b by (simp_all add: f1_def)
  have fill: "fread_fill ops f c = Some (True, ?f, ?c)"
    unfolding fread_fill_def f1_def [symmetric] Let_def
    using w(1) w'(1) b(6,7) l at(1) f1 by (simp add: read_fd_def return_errno_def at_def [symmetric])
  have u: "unat (of_nat (length ?bs) :: u32) = length ?bs" "unat (of_nat (target f c) :: u32) = target f c" using l w(4) by (simp_all add: unat_of_nat_eq32)
  have s: "unat (at + of_nat (length ?bs)) = unat at + length ?bs" using l u at(1) by (subst unat_add32) auto
  have lb: "length ?b = 512" using l b(7) at(1) by simp
  show ?thesis
  proof (cases "P < length data")
    case True
    then have T: "target f c = P" "at = 0" using b(10) at by auto
    then have len: "length ?bs = min 512 (length data - P)" by (simp add: slice_def)
    then have nz: "of_nat (length ?bs) \<noteq> (0 :: u32)" using True u(1) by (metis T(2) diff_is_0_eq' leD min_def unat_0 zero_less_diff zero_less_numeral less_irrefl)
    have sl: "slice ?b 0 (length ?bs) = slice data P (length ?bs)" using T l b(7) by (simp add: slice_def min_def)
    have "in_ok ?f ?c P j" unfolding in_ok_def
      using True T nz u s w'(2,3) lb sl f1 b(2) len l by (auto simp: min_def split: if_splits)
    then show ?thesis using fill nz True by auto
  next
    case False
    then have P: "P = length data" "length data \<le> target f c" using b(5,10) by auto
    then have e: "?bs = []" by (simp add: slice_def)
    have tg: "target ?f ?c \<le> length data + 512 * Suc j" "length data \<le> target ?f ?c" using e w'(3) b(12) at(1) u(2) P by (simp_all add: target_def)
    have "in_ok ?f ?c P (Suc j)" unfolding in_ok_def using P e tg w'(2) lb f1 b(2) at(1) by auto
    then show ?thesis using fill e False by auto
  qed
qed

end

text \<open>A sequence of \<open>fread\<close> calls of single bytes each: what each returns and the end-of-file flag after it.\<close>

fun freads :: "'f descr \<Rightarrow> u32 list \<Rightarrow> FILE \<Rightarrow> 'f libc \<Rightarrow> ((u8 list \<times> bool) list \<times> FILE \<times> 'f libc) option" where
  "freads ops [] f c = Some ([], f, c)"
| "freads ops (n # ns) f c = do {
     ((k, xs), f1, c1) \<leftarrow> fread ops 1 n f c;
     (rs, f2, c2) \<leftarrow> freads ops ns f1 c1;
     Some ((xs, feof f1 \<noteq> 0) # rs, f2, c2) }"

text \<open>The same on the bytes of the file from a position on.\<close>

fun cuts :: "u8 list \<Rightarrow> nat \<Rightarrow> nat list \<Rightarrow> u8 list list" where
  "cuts data P [] = []"
| "cuts data P (n # ns) = slice data P n # cuts data (P + length (slice data P n)) ns"

context readable
begin

lemma consume_ok:
  assumes "in_ok f c P j" and "f_available f \<noteq> 0"
  shows "\<exists>b. bufs c (f_read_buffer f) = Some b \<and> unat (f_read_ptr f) < length b \<and> P < length data \<and> b ! unat (f_read_ptr f) = data ! P \<and>
    in_ok (f\<lparr>f_read_ptr := f_read_ptr f + 1, f_available := f_available f - 1\<rparr>) c (Suc P) j"
proof -
  let ?rp = "unat (f_read_ptr f)" and ?av = "unat (f_available f)" and ?f = "f\<lparr>f_read_ptr := f_read_ptr f + 1, f_available := f_available f - 1\<rparr>"
  obtain b where b: "f_fd f = fd" "f_read_buffer f \<noteq> NULL" "f_buffer_size f = BUFSIZE" "f_write_ptr f = 0" "good (os c)" "bufs c (f_read_buffer f) = Some b" "length b = 512"
    "?rp + ?av = unat (f_read_buffer_offset f)" "unat (f_read_buffer_offset f) \<le> 512" "unat (f_real_offset f) + ?rp = P" "pos (os c) = P + ?av" "P + ?av \<le> length data"
    "slice b ?rp ?av = slice data P ?av" "unat (f_read_buffer_offset f) = 512 \<or> P + ?av = length data"
    using assms by (auto simp: in_ok_def)
  have av: "?av > 0" using assms(2) unat_eq_zero32 by (metis gr0I)
  have u: "unat (f_read_ptr f + 1) = Suc ?rp" "unat (f_available f - 1) = ?av - 1"
    using av b(8,9) unat_Suc32 [of "f_read_ptr f"] unat_sub32 [of 1 "f_available f"] by (simp_all add: word_le_nat_alt)
  have nx: "b ! ?rp = data ! P" using arg_cong [OF b(13), of "\<lambda>xs. xs ! 0"] av b(7-9,12) by (simp add: slice_nth)
  have sl: "slice b (Suc ?rp) (?av - 1) = slice data (Suc P) (?av - 1)"
  proof -
    have d: "slice xs (Suc i) (n - 1) = drop 1 (slice xs i n)" for xs :: "u8 list" and i n by (cases n) (simp_all add: slice_def drop_take)
    show ?thesis using b(13) by (simp only: d)
  qed
  have "in_ok ?f c (Suc P) j"
  proof (cases "f_available f - 1 = 0")
    case True
    then have "?av = 1" using u(2) av by simp
    moreover have "f_read_ptr f + 1 \<noteq> 0" using u(1) by (metis nat.distinct(1) unat_0)
    then have "target ?f c = Suc P" using u(1) b(10) by (simp add: target_def)
    ultimately show ?thesis unfolding in_ok_def using True b u by auto
  next
    case False
    then show ?thesis unfolding in_ok_def using b u sl av by auto
  qed
  then show ?thesis using b av nx by (intro exI [of _ b]) auto
qed

lemma in_ok_eof: "in_ok f c P j \<Longrightarrow> in_ok (f\<lparr>f_eof := e\<rparr>) c P j"
proof -
  assume a: "in_ok f c P j"
  have "target (f\<lparr>f_eof := e\<rparr>) c = target f c" by (simp add: target_def)
  then show ?thesis using a unfolding in_ok_def by auto
qed

lemma in_ok_mono: "in_ok f c P j \<Longrightarrow> j \<le> k \<Longrightarrow> in_ok f c P k"
  by (fastforce simp: in_ok_def)

lemma slice_step: "P < length xs \<Longrightarrow> slice xs P (Suc n) = xs ! P # slice xs (Suc P) n"
  by (simp add: slice_def Cons_nth_drop_Suc [symmetric])

lemma fread_loop_ok:
  assumes "in_ok f c P j" and "j < 2 ^ 20"
  shows "\<exists>f' c'. fread_loop ops n f c = Some (slice data P n, f', c') \<and> in_ok f' c' (P + length (slice data P n)) (Suc j) \<and>
    (length (slice data P n) < n \<longrightarrow> f_eof f' = 1)"
  using assms
proof (induction n arbitrary: f c P)
  case 0
  then show ?case using in_ok_mono [of f c P j "Suc j"] by (simp add: slice_def)
next
  case (Suc n)
  obtain f1 c1 where f1: "(if f_available f = 0 then fread_fill ops f c else Some (True, f, c)) = Some (True, f1, c1)"
    "if P < length data then f_available f1 \<noteq> 0 \<and> in_ok f1 c1 P j else f_available f1 = 0 \<and> in_ok f1 c1 P (Suc j)"
    using fill_ok [OF Suc.prems(1) _ Suc.prems(2)] consume_ok [OF Suc.prems(1)] Suc.prems(1) by (cases "f_available f = 0") auto
  show ?case
  proof (cases "P < length data")
    case True
    let ?g = "f1\<lparr>f_read_ptr := f_read_ptr f1 + 1, f_available := f_available f1 - 1\<rparr>"
    obtain b where b: "bufs c1 (f_read_buffer f1) = Some b" "unat (f_read_ptr f1) < length b" "b ! unat (f_read_ptr f1) = data ! P" "in_ok ?g c1 (Suc P) j"
      using consume_ok [of f1 c1 P j] f1(2) True by auto
    obtain f2 c2 where f2: "fread_loop ops n ?g c1 = Some (slice data (Suc P) n, f2, c2)" "in_ok f2 c2 (Suc P + length (slice data (Suc P) n)) (Suc j)"
      "length (slice data (Suc P) n) < n \<longrightarrow> f_eof f2 = 1" using Suc.IH [OF b(4) Suc.prems(2)] by blast
    have "fread_loop ops (Suc n) f c = Some (data ! P # slice data (Suc P) n, f2, c2)" using f1 b f2(1) True by (simp add: not_le)
    then show ?thesis using f2(2,3) slice_step [OF True, of n] by auto
  next
    case False
    then have "slice data P (Suc n) = []" by (simp add: slice_def)
    moreover have "fread_loop ops (Suc n) f c = Some ([], f1\<lparr>f_eof := 1\<rparr>, c1)" using f1 False by simp
    ultimately show ?thesis using f1(2) False in_ok_eof by auto
  qed
qed

lemma freads_ok:
  assumes "in_ok f c P j" and "j + length ns \<le> 2 ^ 20"
  shows "\<exists>rs f' c'. freads ops ns f c = Some (rs, f', c') \<and> map fst rs = cuts data P (map unat ns) \<and>
    (\<forall>i < length ns. length (fst (rs ! i)) < unat (ns ! i) \<longrightarrow> snd (rs ! i))"
  using assms
proof (induction ns arbitrary: f c P j)
  case (Cons n ns)
  have j: "j < 2 ^ 20" using Cons.prems(2) by simp
  obtain f1 c1 where f1: "fread_loop ops (unat n) f c = Some (slice data P (unat n), f1, c1)" "in_ok f1 c1 (P + length (slice data P (unat n))) (Suc j)"
    "length (slice data P (unat n)) < unat n \<longrightarrow> f_eof f1 = 1" using fread_loop_ok [OF Cons.prems(1) j, of "unat n"] by blast
  have r: "fread ops 1 n f c = Some ((of_nat (length (slice data P (unat n))), slice data P (unat n)), f1, c1)"
    using f1(1) Cons.prems(1) by (simp add: fread_def in_ok_def)
  obtain rs f2 c2 where rs: "freads ops ns f1 c1 = Some (rs, f2, c2)" "map fst rs = cuts data (P + length (slice data P (unat n))) (map unat ns)"
    "\<forall>i < length ns. length (fst (rs ! i)) < unat (ns ! i) \<longrightarrow> snd (rs ! i)" using Cons.IH [OF f1(2)] Cons.prems(2) by auto
  have "\<forall>i < length (n # ns). length (fst (((slice data P (unat n), feof f1 \<noteq> 0) # rs) ! i)) < unat ((n # ns) ! i) \<longrightarrow>
      snd (((slice data P (unat n), feof f1 \<noteq> 0) # rs) ! i)"
    using rs(3) f1(3) by (auto simp: feof_def nth_Cons split: nat.splits)
  then show ?case using r rs(1,2) by auto
qed auto

lemma fdopen_in_ok:
  assumes "good (os c)" and "pos (os c) \<le> length data" and "rb \<noteq> NULL" and "fdopen junk fd wb rb c = (f, c')"
  shows "in_ok f c' (pos (os c)) 0"
  using assms by (auto simp: fdopen_def in_ok_def target_def)

end

section \<open>Descriptors of the kernel\<close>

text \<open>The system calls on descriptors of the current process; the working directory and the addresses \<open>k_fs_vfs_open\<close> needs are arguments.\<close>

definition kernel_descr :: "(nat \<Rightarrow> (kernel \<times> 'x) driver) \<Rightarrow> string \<Rightarrow> ptr \<times> ptr \<times> ptr \<Rightarrow> 'x sys descr" where
  "kernel_descr drv wd = (\<lambda>(copy, copy2, fdt).
     \<lparr>d_open = (\<lambda>path fl s. sys_open drv s wd (Some path) fl copy copy2 fdt), d_close = (\<lambda>fd s. sys_close s fd),
      d_read = (\<lambda>fd n s. sys_read drv s fd n), d_write = (\<lambda>fd bs s. sys_write drv s fd bs), d_seek = (\<lambda>fd off wh s. sys_seek s fd off wh)\<rparr>)"

text \<open>The driver of RAM disks.\<close>

definition ram_driver :: "mem \<Rightarrow> ramdisk \<Rightarrow> 'd driver" where
  "ram_driver m d = no_driver\<lparr>op_read := Some (\<lambda>node off n s. let (r, bs) = ramdisk_read m d off n in ((sint r, bs), s))\<rparr>"

text \<open>The descriptor \<open>fd\<close> of the current process is open for reading on the RAM disk, and where it stands.\<close>

definition ram_open :: "ramdisk \<Rightarrow> nat \<Rightarrow> u32 \<Rightarrow> 'x sys \<Rightarrow> bool" where
  "ram_open d i fd s \<longleftrightarrow> unat (ram_size d) < 2 ^ 30 \<and> fdt_at s (sint fd) \<noteq> NULL \<and>
     (\<exists>t n. fdts (kern s) (fdt_at s (sint fd)) = Some t \<and> vnodes s (fd_node t) = Some n \<and> n_fs n = DriverOps i \<and> n_mode n AND O_RDONLY \<noteq> 0)"

definition fd_pos :: "u32 \<Rightarrow> 'x sys \<Rightarrow> nat" where
  "fd_pos fd s = (case fdts (kern s) (fdt_at s (sint fd)) of None \<Rightarrow> 0 | Some t \<Rightarrow> unat (fd_offset t))"

lemma fdt_at_fdts: "fdt_at (set_kern s ((kern s)\<lparr>fdts := x\<rparr>)) fd = fdt_at s fd"
  by (simp add: fdt_at_def cur_def kern_def set_kern_def)

lemma ram_open_moves:
  assumes "ram_open d i fd s" and "fdts (kern s) (fdt_at s (sint fd)) = Some t"
  shows "ram_open d i fd (set_kern s ((kern s)\<lparr>fdts := (fdts (kern s))(fdt_at s (sint fd) \<mapsto> t\<lparr>fd_offset := off\<rparr>)\<rparr>)) \<and>
    fd_pos fd (set_kern s ((kern s)\<lparr>fdts := (fdts (kern s))(fdt_at s (sint fd) \<mapsto> t\<lparr>fd_offset := off\<rparr>)\<rparr>)) = unat off"
  using assms by (auto simp: ram_open_def fd_pos_def fdt_at_fdts)

lemma ramdisk_read_slice:
  assumes "unat (ram_size d) < 2 ^ 30" and "unat off < 2 ^ 31" and "unat n \<le> 512"
  shows "snd (ramdisk_read m d off n) = slice (block m (ram_base d) (unat (ram_size d))) (unat off) (unat n) \<and>
    sint (fst (ramdisk_read m d off n)) = int (length (slice (block m (ram_base d) (unat (ram_size d))) (unat off) (unat n)))"
proof (cases "off > ram_size d")
  case True
  then show ?thesis by (simp add: ramdisk_read_def slice_def word_less_nat_alt)
next
  case False
  let ?r = "if off + n > ram_size d then ram_size d - off else n" and ?D = "block m (ram_base d) (unat (ram_size d))"
  have le: "unat off \<le> unat (ram_size d)" using False by (simp add: word_less_nat_alt)
  have s: "unat (off + n) = unat off + unat n" using assms by (subst unat_add32) auto
  have r: "unat ?r = min (unat n) (unat (ram_size d) - unat off)" using s le by (auto simp: word_less_nat_alt unat_sub32 word_le_nat_alt)
  have "block m (ram_base d + of_nat (unat off)) (unat ?r) = slice ?D (unat off) (unat ?r)" using r le by (intro block_slice) auto
  moreover have "slice ?D (unat off) (unat ?r) = slice ?D (unat off) (unat n)" unfolding r by (simp add: slice_def min_def)
  moreover have "sint ?r = int (unat ?r)" using r assms(3) by (intro sint_small) simp
  moreover have "ramdisk_read m d off n = (?r, block m (ram_base d + off) (unat ?r))" using False by (simp add: ramdisk_read_def Let_def)
  ultimately show ?thesis using r by (simp add: slice_def)
qed

interpretation ram_file: readable "kernel_descr (\<lambda>_. ram_driver m d) wd new" fd "ram_open d i fd" "block m (ram_base d) (unat (ram_size d))" "fd_pos fd"
proof
  fix w :: "'x sys" assume g: "ram_open d i fd w"
  then show "length (block m (ram_base d) (unat (ram_size d))) < 2 ^ 30" by (simp add: ram_open_def)
next
  fix w :: "'x sys" and n :: u32
  assume g: "ram_open d i fd w" and p: "fd_pos fd w < 2 ^ 31" and n: "unat n \<le> 512"
  let ?p = "fdt_at w (sint fd)" and ?D = "block m (ram_base d) (unat (ram_size d))"
  obtain t x where t: "unat (ram_size d) < 2 ^ 30" "?p \<noteq> NULL" "fdts (kern w) ?p = Some t" "vnodes w (fd_node t) = Some x" "n_fs x = DriverOps i" "n_mode x AND O_RDONLY \<noteq> 0"
    using g by (auto simp: ram_open_def)
  have pos: "fd_pos fd w = unat (fd_offset t)" using t(3) by (simp add: fd_pos_def)
  let ?bs = "slice ?D (unat (fd_offset t)) (unat n)"
  have r: "snd (ramdisk_read m d (fd_offset t) n) = ?bs" "sint (fst (ramdisk_read m d (fd_offset t) n)) = int (length ?bs)"
    using ramdisk_read_slice [OF t(1) _ n, of "fd_offset t" m] p pos by auto
  have v: "k_fs_vfs_read (\<lambda>_. ram_driver m d) w (fd_node t) (fd_offset t) n = Some ((int (length ?bs), ?bs), w)"
    using t(4-6) r by (simp add: k_fs_vfs_read_def ram_driver_def case_prod_beta)
  have l: "length ?bs \<le> 512" using n length_slice_le [of ?D "unat (fd_offset t)" "unat n"] by simp
  then have u: "unat (fd_offset t + of_nat (length ?bs)) = unat (fd_offset t) + length ?bs"
    using p pos by (subst unat_add32) (simp_all add: unat_of_nat_eq32)
  let ?w = "if length ?bs > 0 then set_kern w ((kern w)\<lparr>fdts := (fdts (kern w))(?p \<mapsto> t\<lparr>fd_offset := fd_offset t + of_nat (length ?bs)\<rparr>)\<rparr>) else w"
  have "sys_read (\<lambda>_. ram_driver m d) w fd n = Some ((int (length ?bs), ?bs), ?w)"
    using t(2,3) v by (simp add: sys_read_def advance_def)
  moreover have "ram_open d i fd ?w" "fd_pos fd ?w = unat (fd_offset t) + length ?bs"
    using ram_open_moves [OF g t(3), of "fd_offset t + of_nat (length ?bs)"] g u pos by (cases "length ?bs > 0"; simp)+
  ultimately show "\<exists>w'. d_read (kernel_descr (\<lambda>_. ram_driver m d) wd new) fd n w =
        Some ((int (length (slice ?D (fd_pos fd w) (unat n))), slice ?D (fd_pos fd w) (unat n)), w') \<and>
      ram_open d i fd w' \<and> fd_pos fd w' = fd_pos fd w + length (slice ?D (fd_pos fd w) (unat n))"
    unfolding pos by (intro exI [of _ ?w]) (simp add: kernel_descr_def case_prod_beta)
next
  fix w :: "'x sys" and off :: u32 assume g: "ram_open d i fd w" and o: "unat off < 2 ^ 31"
  let ?p = "fdt_at w (sint fd)"
  obtain t where t: "?p \<noteq> NULL" "fdts (kern w) ?p = Some t" using g by (auto simp: ram_open_def)
  have "sys_seek w fd off 0 = Some (int (unat off), set_kern w ((kern w)\<lparr>fdts := (fdts (kern w))(?p \<mapsto> t\<lparr>fd_offset := off\<rparr>)\<rparr>))"
    using t sint_small [OF o] by (simp add: sys_seek_def)
  then show "\<exists>w'. d_seek (kernel_descr (\<lambda>_. ram_driver m d) wd new) fd off 0 w = Some (int (unat off), w') \<and> ram_open d i fd w' \<and> fd_pos fd w' = unat off"
    using ram_open_moves [OF g t(2), of off] by (auto simp: kernel_descr_def case_prod_beta)
next
  fix w :: "'x sys" assume g: "ram_open d i fd w" and p: "fd_pos fd w < 2 ^ 31"
  let ?p = "fdt_at w (sint fd)"
  obtain t where t: "?p \<noteq> NULL" "fdts (kern w) ?p = Some t" using g by (auto simp: ram_open_def)
  then have pos: "fd_pos fd w = unat (fd_offset t)" by (simp add: fd_pos_def)
  have "sys_seek w fd 0 1 = Some (int (unat (fd_offset t)), set_kern w ((kern w)\<lparr>fdts := (fdts (kern w))(?p \<mapsto> t\<lparr>fd_offset := fd_offset t\<rparr>)\<rparr>))"
    using t sint_small [of "fd_offset t"] p pos by (simp add: sys_seek_def)
  then show "\<exists>w'. d_seek (kernel_descr (\<lambda>_. ram_driver m d) wd new) fd 0 1 w = Some (int (fd_pos fd w), w') \<and> ram_open d i fd w' \<and> fd_pos fd w' = fd_pos fd w"
    using ram_open_moves [OF g t(2), of "fd_offset t"] pos by (auto simp: kernel_descr_def case_prod_beta)
qed

section \<open>Properties\<close>

text \<open>
  C16: buffered reading is reading. On a file just opened, whose descriptor reads and seeks as a file
  does, up to a million calls of \<open>fread\<close> of any sizes return the bytes of the file from the position of
  the descriptor on, one after the other, each as many as it asked for as long as there are that
  many; a call that returns fewer sets the end-of-file flag. The buffer is never left.
\<close>

theorem fread_reads_the_file:
  assumes "readable ops fd good data pos" and "good (os c)" and "pos (os c) \<le> length data" and "rb \<noteq> NULL" and "fdopen junk fd wb rb c = (f, c')"
    and "length ns \<le> 2 ^ 20"
  shows "\<exists>rs f' c''. freads ops ns f c' = Some (rs, f', c'') \<and> map fst rs = cuts data (pos (os c)) (map unat ns) \<and>
    (\<forall>i < length ns. length (fst (rs ! i)) < unat (ns ! i) \<longrightarrow> snd (rs ! i))"
  using readable.freads_ok [OF assms(1) readable.fdopen_in_ok [OF assms(1-5)], of ns] assms(6) by simp

text \<open>
  C17: buffered writing is writing. On a descriptor that takes what it is given, any sequence of calls of
  \<open>fwrite\<close> returns the lengths asked for, and what the descriptor has taken, followed by what is in the
  buffer, is all that was written, in order; the buffer, which is never overrun, holds no newline, so
  that every complete line is out, and after \<open>fflush\<close> everything is.
\<close>

theorem fwrite_writes_lines:
  assumes "sink ops fd fine written" and "fine (os c)" and "wb \<noteq> NULL" and "rb \<noteq> wb" and "fdopen junk fd wb rb c = (f, c0)"
    and "\<forall>b \<in> set bs. length b < 2 ^ 32"
  shows "\<exists>f1 c1 rest f2 c2 r. fwrites ops bs f c0 = Some (map (\<lambda>b. of_nat (length b)) bs, f1, c1) \<and>
    written (os c) @ concat bs = written (os c1) @ rest \<and> 10 \<notin> set rest \<and> length rest < 512 \<and>
    fflush ops f1 c1 = Some (r, f2, c2) \<and> written (os c2) = written (os c) @ concat bs"
proof -
  have f: "f_fd f = fd" "out_ok f c0" "pending f c0 = []" "os c0 = os c"
    using assms(3-5) by (auto simp: fdopen_def out_ok_def pending_def)
  obtain f1 c1 where f1: "fwrites ops bs f c0 = Some (map (\<lambda>b. of_nat (length b)) bs, f1, c1)" "f_fd f1 = fd" "fine (os c1)" "out_ok f1 c1"
    "10 \<notin> set (pending f1 c1)" "written (os c1) @ pending f1 c1 = written (os c) @ concat bs"
    using fwrites_ok [of ops f fine written c0 bs] assms(1,2,6) f by auto
  obtain b where b: "f_write_buffer f1 \<noteq> NULL" "f_write_ptr f1 < BUFSIZE" "bufs c1 (f_write_buffer f1) = Some b" "length b = 512"
    using f1(4) by (auto simp: out_ok_def)
  have p: "pending f1 c1 = take (unat (f_write_ptr f1)) b" using b(3) by (simp add: pending_def)
  obtain r c2 where c2: "fflush ops f1 c1 = Some (r, f1\<lparr>f_write_ptr := 0\<rparr>, c2)" "written (os c2) = written (os c1) @ take (unat (f_write_ptr f1)) b"
    using fflush_ok [of ops f1 fine written c1 b] assms(1) f1(2,3) b order_less_imp_le [OF b(2)] by auto
  have "length (pending f1 c1) < 512" using p b(2,4) by (simp add: word_less_nat_alt)
  then show ?thesis using f1 c2 p by (intro exI [of _ f1] exI [of _ c1] exI [of _ "pending f1 c1"] exI [of _ "f1\<lparr>f_write_ptr := 0\<rparr>"] exI [of _ c2] exI [of _ r]) auto
qed

text \<open>A process whose descriptor 0 is open on a RAM disk of five bytes.\<close>

definition hello_disk :: ramdisk where
  "hello_disk = \<lparr>ram_base = 0x100000, ram_size = 5\<rparr>"

definition hello_mem :: mem where
  "hello_mem = sparse_mem [(0, 104), (1, 101), (2, 108), (3, 108), (4, 111)]"

definition hello_sys :: "unit sys" where
  "hello_sys = \<lparr>vnodes = [60 \<mapsto> \<lparr>n_name = ''ram'', n_device = 0, n_mode = 1, n_flags = 0, n_inode = 0, n_size = 5, n_fs = DriverOps 0, n_links = 1, n_path = None, n_mountpoint = 0\<rparr>],
     entries = Map.empty, tnodes = Map.empty, vfs_tree = 0, tree_nodes = [],
     drv_data = (blank_kernel\<lparr>procs := (\<lambda>_. blank_process\<lparr>fds := \<lparr>nodes = [50], amount = 1, fds_size = 1\<rparr>\<rparr>),
       fdts := [50 \<mapsto> \<lparr>fd_node = 60, fd_offset = 0, fd_links = 1\<rparr>]\<rparr>, ())\<rparr>"

lemma hello_open: "ram_open hello_disk 0 0 hello_sys" "fd_pos 0 hello_sys = 0"
  by (simp_all add: ram_open_def fd_pos_def hello_sys_def fdt_at_def fd2fdt_def cur_def kern_def hello_disk_def)

lemma hello_bytes: "block hello_mem (ram_base hello_disk) (unat (ram_size hello_disk)) = [104, 101, 108, 108, 111]"
  by (simp add: hello_mem_def hello_disk_def block_def sparse_mem_def upt_rec)

definition hello_libc :: "unit sys libc" where
  "hello_libc = \<lparr>os = hello_sys, errno = 0, bufs = Map.empty\<rparr>"

theorem fread_reads_the_file_witness:
  "\<exists>rs f c. freads (kernel_descr (\<lambda>_. ram_driver hello_mem hello_disk) ''/'' (0, 0, 0)) [2, 10, 3]
       (fst (fdopen 0 0 16 32 hello_libc)) (snd (fdopen 0 0 16 32 hello_libc)) = Some (rs, f, c) \<and>
     map fst rs = [[104, 101], [108, 108, 111], []] \<and> snd (rs ! 1)"
proof -
  let ?ops = "kernel_descr (\<lambda>_. ram_driver hello_mem hello_disk) ''/'' (0, 0, 0)"
  have fc: "fdopen 0 0 16 32 hello_libc = (fst (fdopen 0 0 16 32 hello_libc), snd (fdopen 0 0 16 32 hello_libc))" by simp
  have r: "readable ?ops 0 (ram_open hello_disk 0 0) [104, 101, 108, 108, 111] (fd_pos 0)"
    using ram_file.readable_axioms [of hello_mem hello_disk "''/''" "(0, 0, 0)" 0 0] by (simp only: hello_bytes)
  have o: "os hello_libc = hello_sys" by (simp add: hello_libc_def)
  have "\<exists>rs f' c'. freads ?ops [2, 10, 3] (fst (fdopen 0 0 16 32 hello_libc)) (snd (fdopen 0 0 16 32 hello_libc)) = Some (rs, f', c') \<and>
      map fst rs = cuts [104, 101, 108, 108, 111] (fd_pos 0 (os hello_libc)) (map unat [2, 10, 3 :: u32]) \<and>
      (\<forall>i < length [2, 10, 3 :: u32]. length (fst (rs ! i)) < unat ([2, 10, 3 :: u32] ! i) \<longrightarrow> snd (rs ! i))"
    by (rule fread_reads_the_file [OF r _ _ _ fc]) (simp_all add: o hello_open)
  then obtain rs f' c' where rs: "freads ?ops [2, 10, 3] (fst (fdopen 0 0 16 32 hello_libc)) (snd (fdopen 0 0 16 32 hello_libc)) = Some (rs, f', c')"
    "map fst rs = cuts [104, 101, 108, 108, 111] (fd_pos 0 (os hello_libc)) (map unat [2, 10, 3 :: u32])"
    "\<forall>i < length [2, 10, 3 :: u32]. length (fst (rs ! i)) < unat ([2, 10, 3 :: u32] ! i) \<longrightarrow> snd (rs ! i)" by blast
  have m: "map fst rs = [[104, 101], [108, 108, 111], []]" using rs(2) by (simp add: slice_def o hello_open)
  then obtain a b d where "rs = [a, b, d]" "fst b = [108, 108, 111]" by (auto simp: map_eq_Cons_conv)
  then have "snd (rs ! 1)" using rs(3) [rule_format, of 1] by simp
  then show ?thesis using rs(1) m by (intro exI [of _ rs] exI [of _ f'] exI [of _ c'] conjI)
qed

definition log_ops :: "u8 list descr" where
  "log_ops = \<lparr>d_open = (\<lambda>_ _ w. Some (0, w)), d_close = (\<lambda>_ w. Some (0, w)), d_read = (\<lambda>_ _ w. Some ((0, []), w)),
     d_write = (\<lambda>_ bs w. Some (int (length bs), w @ bs)), d_seek = (\<lambda>_ _ _ w. Some (0, w))\<rparr>"

definition log_libc :: "u8 list libc" where
  "log_libc = \<lparr>os = [], errno = 0, bufs = Map.empty\<rparr>"

theorem fwrite_writes_lines_witness:
  "\<exists>f c rest. fwrites log_ops [[97, 10, 98], [99]] (fst (fdopen 0 1 16 32 log_libc)) (snd (fdopen 0 1 16 32 log_libc)) = Some ([3, 1], f, c) \<and>
     [97, 10, 98, 99] = os c @ rest \<and> 10 \<notin> set rest"
proof -
  have fc: "fdopen 0 1 16 32 log_libc = (fst (fdopen 0 1 16 32 log_libc), snd (fdopen 0 1 16 32 log_libc))" by simp
  have "sink log_ops 1 (\<lambda>_. True) id" by (simp add: sink_def log_ops_def)
  then have "\<exists>f1 c1 rest f2 c2 r. fwrites log_ops [[97, 10, 98], [99]] (fst (fdopen 0 1 16 32 log_libc)) (snd (fdopen 0 1 16 32 log_libc)) =
        Some (map (\<lambda>b. of_nat (length b)) [[97, 10, 98], [99 :: u8]], f1, c1) \<and>
      id (os log_libc) @ concat [[97, 10, 98], [99]] = id (os c1) @ rest \<and> 10 \<notin> set rest \<and> length rest < 512 \<and>
      fflush log_ops f1 c1 = Some (r, f2, c2) \<and> id (os c2) = id (os log_libc) @ concat [[97, 10, 98], [99]]"
    by (rule fwrite_writes_lines [OF _ _ _ _ fc]) simp_all
  moreover have "os log_libc = []" by (simp add: log_libc_def)
  ultimately show ?thesis by (simp del: fwrites.simps fdopen_def) blast
qed

end
