(* ===== verification/Input.thy ===== *)
theory Input
  imports Numbers
begin

text \<open>
  Keyboard and mouse: the interrupt handlers of \<^verbatim>\<open>kernel/src/dev/ps2.c\<close>, which put the bytes of the
  controller into the pipes \<^verbatim>\<open>/dev/kbd\<close> and \<^verbatim>\<open>/dev/mouse\<close>, the translation of scan codes for the console
  in \<^verbatim>\<open>kernel/src/dev/vt.c\<close>, and the packets that \<^verbatim>\<open>libs/libinput\<close> makes of the bytes read from the
  pipes. A handler returns the bytes it writes to its pipe; what becomes of them there is the subject of
  \<open>Mouse\<close>. Characters are numbers, as in \<open>Numbers\<close>; an
  index outside of a table is \<open>None\<close>.
\<close>

section \<open>Scan codes\<close>

definition scancodes :: "int list" where
  "scancodes = [0, 27, 49, 50, 51, 52, 53, 54, 55, 56, 57, 48, 45, 61, 8, 9,
     113, 119, 101, 114, 116, 121, 117, 105, 111, 112, 91, 93, 10, 0,
     97, 115, 100, 102, 103, 104, 106, 107, 108, 59, 39, 96, 0,
     92, 122, 120, 99, 118, 98, 110, 109, 44, 46, 47, 0, 42, 0, 32, 0] @
     replicate 10 0 @ [0, 0, 0, 0, 0, 45, 0, 0, 0, 43] @ replicate 49 0"

definition scancodes_shifted :: "int list" where
  "scancodes_shifted = [0, 27, 33, 64, 35, 36, 37, 94, 38, 42, 40, 41, 95, 43, 8, 9,
     81, 87, 69, 82, 84, 89, 85, 73, 79, 80, 123, 125, 10, 0,
     65, 83, 68, 70, 71, 72, 74, 75, 76, 58, 34, 126, 0,
     124, 90, 88, 67, 86, 66, 78, 77, 60, 62, 63, 0, 42, 0, 32, 0] @
     replicate 10 0 @ [0, 0, 0, 0, 0, 45, 0, 0, 0, 43] @ replicate 49 0"

definition scancodes_ext :: "int list" where
  "scancodes_ext = (replicate 128 0)[0x47 := 102, 0x1C := 96, 0x35 := 98, 0x4B := 105, 0x5B := 125, 0x4D := 106]"

abbreviation (input) KBD_EVENT_FLAG_UP :: u8 where "KBD_EVENT_FLAG_UP \<equiv> 1"
abbreviation (input) KBD_EVENT_FLAG_EXT :: u8 where "KBD_EVENT_FLAG_EXT \<equiv> 2"
abbreviation (input) KBD_MOD_ALT :: u8 where "KBD_MOD_ALT \<equiv> 1"
abbreviation (input) KBD_MOD_SHIFT :: u8 where "KBD_MOD_SHIFT \<equiv> 2"
abbreviation (input) KBD_MOD_CTRL :: u8 where "KBD_MOD_CTRL \<equiv> 4"
abbreviation (input) KBD_MOD_CAPS :: u8 where "KBD_MOD_CAPS \<equiv> 8"

record keyboard_packet =
  kp_scancode :: int
  kp_flags :: u8

definition input_kbd_create_packet :: "u32 \<Rightarrow> keyboard_packet" where
  "input_kbd_create_packet code =
     (let fl = (if code AND 0x80 \<noteq> 0 then KBD_EVENT_FLAG_UP else 0) OR (if code AND 0x100 \<noteq> 0 then KBD_EVENT_FLAG_EXT else 0);
          c = unat (code AND 0x7F)
      in \<lparr>kp_scancode = (if fl AND KBD_EVENT_FLAG_EXT \<noteq> 0 then scancodes_ext ! c else int c), kp_flags = fl\<rparr>)"

text \<open>The code with the control key held: the letter less 0x40, when that is a control character.\<close>

definition control_code :: "int \<Rightarrow> int" where
  "control_code plain =
     (let t = toupper plain;
          t1 = (if t = 45 then 95 else t);
          t2 = (if t1 = 96 then 64 else t1);
          out = t2 - 0x40
      in if out < 0 \<or> out > 0x1F then plain else out)"

text \<open>The bound lets the code 128 pass, one behind the tables.\<close>

definition input_kbd_translate :: "int \<Rightarrow> u8 \<Rightarrow> int option" where
  "input_kbd_translate code md =
     (if code < 0 \<or> code > 128 then Some 0
      else if code = 128 then None
      else let t = (if md AND KBD_MOD_CTRL \<noteq> 0 then control_code (scancodes ! nat code)
                    else if md AND KBD_MOD_SHIFT \<noteq> 0 then scancodes_shifted ! nat code
                    else scancodes ! nat code)
           in Some (if isalpha t \<and> t \<noteq> 0 \<and> md AND KBD_MOD_CAPS \<noteq> 0 then if isupper t then tolower t else toupper t else t))"

section \<open>The console\<close>

abbreviation (input) MOD_RCTRL :: u8 where "MOD_RCTRL \<equiv> 1"
abbreviation (input) MOD_LCTRL :: u8 where "MOD_LCTRL \<equiv> 2"
abbreviation (input) MOD_CTRL :: u8 where "MOD_CTRL \<equiv> 3"
abbreviation (input) MOD_RSHIFT :: u8 where "MOD_RSHIFT \<equiv> 4"
abbreviation (input) MOD_LSHIFT :: u8 where "MOD_LSHIFT \<equiv> 8"
abbreviation (input) MOD_SHIFT :: u8 where "MOD_SHIFT \<equiv> 12"
abbreviation (input) MOD_ALT :: u8 where "MOD_ALT \<equiv> 16"
abbreviation (input) MOD_CAPS :: u8 where "MOD_CAPS \<equiv> 32"

record vt_keys =
  vt_ex :: u8
  vt_mods :: u8

text \<open>What a scan code leads to: nothing, a change of the console, or a character for the active terminal.\<close>

datatype key_action =
    Nothing
  | ChangeVt u8
  | TypeChar int

definition hold_modifier :: "bool \<Rightarrow> u8 \<Rightarrow> u8 \<Rightarrow> u8" where
  "hold_modifier up md m = (if up then md AND NOT m else md OR m)"

definition vt_modifier :: "u8 \<Rightarrow> bool \<Rightarrow> u8 \<Rightarrow> u8" where
  "vt_modifier v up md =
     (if v = 0x1D then hold_modifier up md MOD_LCTRL
      else if v = 0x2A then hold_modifier up md MOD_LSHIFT
      else if v = 0x36 then hold_modifier up md MOD_RSHIFT
      else if v = 0x38 then hold_modifier up md MOD_ALT
      else if v = 0x3A \<and> up then if md AND MOD_CAPS \<noteq> 0 then md AND NOT MOD_CAPS else md OR MOD_CAPS
      else md)"

definition k_dev_vt_handle_scancode :: "bool \<Rightarrow> vt_keys \<Rightarrow> u8 \<Rightarrow> vt_keys \<times> key_action" where
  "k_dev_vt_handle_scancode atty k v =
     (if \<not> atty then (k, Nothing)
      else if v = 0xE0 then (k\<lparr>vt_ex := 1\<rparr>, Nothing)
      else if vt_ex k \<noteq> 0 then (k\<lparr>vt_ex := 0\<rparr>, Nothing)
      else let is_up = (v AND 0x80 \<noteq> 0); c = v AND 0x7F; plain = scancodes ! unat c
           in if plain = 0
              then let k1 = k\<lparr>vt_mods := vt_modifier c is_up (vt_mods k)\<rparr>
                   in (k1, if \<not> is_up \<and> vt_mods k1 AND MOD_ALT \<noteq> 0 \<and> vt_mods k1 AND MOD_CTRL \<noteq> 0 \<and> c \<ge> 0x3B \<and> c \<le> 0x44
                           then ChangeVt (c - 0x3B) else Nothing)
              else if is_up then (k, Nothing)
              else let s = (if vt_mods k AND MOD_CTRL \<noteq> 0 then control_code plain
                            else if vt_mods k AND MOD_SHIFT \<noteq> 0 then scancodes_shifted ! unat c else plain)
                   in (k, TypeChar (if s = 8 then 0x7F else s)))"

section \<open>The controller\<close>

record mouse_raw =
  raw_data :: u8
  raw_mx :: u8
  raw_my :: u8

record ps2 =
  kbd_ext :: u8
  mouse_packet_counter :: u8
  current_mouse_packet :: mouse_raw

text \<open>The scan code goes to the console and, as two bytes, to the pipe.\<close>

definition ps2_handle_keyboard :: "bool \<Rightarrow> ps2 \<times> vt_keys \<Rightarrow> u8 \<Rightarrow> (ps2 \<times> vt_keys) \<times> key_action \<times> u8 list" where
  "ps2_handle_keyboard atty s b =
     (case s of (p, k) \<Rightarrow>
       (case k_dev_vt_handle_scancode atty k b of (k1, act) \<Rightarrow>
         let d = (ucast b :: u16); d1 = (if kbd_ext p \<noteq> 0 then d OR 0x100 else d)
         in ((p\<lparr>kbd_ext := 0\<rparr>, k1), act, [ucast d1, ucast (drop_bit 8 d1)])))"

definition irq1_handler :: "bool \<Rightarrow> ps2 \<times> vt_keys \<Rightarrow> u8 \<Rightarrow> (ps2 \<times> vt_keys) \<times> key_action \<times> u8 list" where
  "irq1_handler atty s b =
     (if b = 0xE0 then ((fst s\<lparr>kbd_ext := 1\<rparr>, snd s), Nothing, []) else ps2_handle_keyboard atty s b)"

text \<open>The cases of the switch fall through, so that the first byte is stored in all three fields.\<close>

definition ps2_handle_mouse :: "ps2 \<Rightarrow> u8 \<Rightarrow> ps2 \<times> u8 list" where
  "ps2_handle_mouse p b =
     (if mouse_packet_counter p = 0 \<and> b AND 8 = 0 then (p, [])
      else let r = current_mouse_packet p;
               r1 = (if mouse_packet_counter p = 0 then \<lparr>raw_data = b, raw_mx = b, raw_my = b\<rparr>
                     else if mouse_packet_counter p = 1 then r\<lparr>raw_mx := b, raw_my := b\<rparr>
                     else if mouse_packet_counter p = 2 then r\<lparr>raw_my := b\<rparr> else r);
               n = mouse_packet_counter p + 1
           in if n \<ge> 3 then (p\<lparr>mouse_packet_counter := 0, current_mouse_packet := r1\<rparr>, [raw_data r1, raw_mx r1, raw_my r1])
              else (p\<lparr>mouse_packet_counter := n, current_mouse_packet := r1\<rparr>, []))"

section \<open>Mouse packets\<close>

record mouse_packet =
  mp_dx :: u32
  mp_dy :: u32
  mp_buttons :: u8

definition input_mouse_create_packet :: "mouse_raw \<Rightarrow> mouse_packet option" where
  "input_mouse_create_packet r =
     (if raw_data r AND 64 \<noteq> 0 \<or> raw_data r AND 128 \<noteq> 0 then None
      else let dx = (ucast (raw_mx r) :: u32); dy = (ucast (raw_my r) :: u32)
           in Some \<lparr>mp_dx = (if raw_data r AND 16 \<noteq> 0 then dx OR 0xFFFFFF00 else dx),
                    mp_dy = (if raw_data r AND 32 \<noteq> 0 then dy OR 0xFFFFFF00 else dy),
                    mp_buttons = (if raw_data r AND 1 \<noteq> 0 then 1 else 0) OR (if raw_data r AND 2 \<noteq> 0 then 2 else 0) OR (if raw_data r AND 4 \<noteq> 0 then 4 else 0)\<rparr>)"

lemma table_lengths [simp]: "length scancodes = 128" "length scancodes_shifted = 128" "length scancodes_ext = 128"
  by (simp_all add: scancodes_def scancodes_shifted_def scancodes_ext_def)

section \<open>From the wire to the packets\<close>

primrec run_mouse :: "ps2 \<Rightarrow> u8 list \<Rightarrow> ps2 \<times> u8 list" where
  "run_mouse p [] = (p, [])"
| "run_mouse p (b # bs) =
     (case ps2_handle_mouse p b of (p1, out) \<Rightarrow> (case run_mouse p1 bs of (p2, out2) \<Rightarrow> (p2, out @ out2)))"

primrec run_keyboard :: "bool \<Rightarrow> ps2 \<times> vt_keys \<Rightarrow> u8 list \<Rightarrow> (ps2 \<times> vt_keys) \<times> u8 list" where
  "run_keyboard atty s [] = (s, [])"
| "run_keyboard atty s (b # bs) =
     (case irq1_handler atty s b of (s1, act, out) \<Rightarrow> (case run_keyboard atty s1 bs of (s2, out2) \<Rightarrow> (s2, out @ out2)))"

text \<open>The three bytes that a mouse sends for a movement: nine bit numbers, the ninth bits in the first byte.\<close>

definition mouse_wire :: "int \<Rightarrow> int \<Rightarrow> u8 \<Rightarrow> u8 list" where
  "mouse_wire dx dy btn =
     [btn OR 8 OR (if dx < 0 then 16 else 0) OR (if dy < 0 then 32 else 0), word_of_int dx, word_of_int dy]"

text \<open>The bytes of a pipe as the structures that the reader declares.\<close>

fun raw_packets :: "u8 list \<Rightarrow> mouse_raw list" where
  "raw_packets (a # b # c # bs) = \<lparr>raw_data = a, raw_mx = b, raw_my = c\<rparr> # raw_packets bs"
| "raw_packets _ = []"

fun raw_key :: "u8 list \<Rightarrow> u32" where
  "raw_key [a, b] = ucast a OR push_bit 8 (ucast b)"
| "raw_key _ = 0"

lemma run_mouse_unsynced:
  assumes "mouse_packet_counter p = 0" and "\<forall>b\<in>set junk. b AND 8 = 0"
  shows "run_mouse p (junk @ bs) = run_mouse p bs"
  using assms by (induction junk) (simp_all add: ps2_handle_mouse_def case_prod_beta)

lemma run_mouse_packet:
  assumes "mouse_packet_counter p = 0" and "a AND 8 \<noteq> 0"
  shows "run_mouse p (a # b # c # bs) =
    (case run_mouse (p\<lparr>mouse_packet_counter := 0, current_mouse_packet := \<lparr>raw_data = a, raw_mx = b, raw_my = c\<rparr>\<rparr>) bs of (q, out) \<Rightarrow> (q, a # b # c # out))"
  using assms by (simp add: ps2_handle_mouse_def Let_def case_prod_beta word_le_nat_alt)

lemma bit_sign:
  fixes d :: int
  assumes "- 256 \<le> d" and "d < 256" and "8 \<le> n"
  shows "bit d n \<longleftrightarrow> d < 0"
proof -
  have "(2 :: int) ^ 8 \<le> 2 ^ n" using assms(3) by (intro power_increasing) simp_all
  then have "d div 2 ^ n = (if d < 0 then - 1 else 0)"
    using assms(1,2) by (simp add: div_pos_pos_trivial int_div_pos_eq [of d "2 ^ n" "- 1" "d + 2 ^ n"])
  then show ?thesis by (simp add: bit_iff_odd)
qed

lemma word8_sign_extend:
  fixes d :: int
  assumes "- 256 \<le> d" and "d < 256"
  shows "(if d < 0 then (ucast (word_of_int d :: u8) :: u32) OR 0xFFFFFF00 else ucast (word_of_int d :: u8)) = word_of_int d"
proof (rule bit_word_eqI)
  fix n assume n: "n < LENGTH(32)"
  have m: "(0xFFFFFF00 :: u32) = push_bit 8 (mask 24)" by (simp add: mask_eq_exp_minus_1 push_bit_eq_mult)
  show "bit (if d < 0 then (ucast (word_of_int d :: u8) :: u32) OR 0xFFFFFF00 else ucast (word_of_int d :: u8)) n
      = bit (word_of_int d :: u32) n"
    using n bit_sign [OF assms] by (cases "n < 8") (auto simp: m bit_simps)
qed

lemma mouse_wire_synced: "mouse_wire dx dy btn = [a, b, c] \<Longrightarrow> a AND 8 \<noteq> 0"
proof -
  assume "mouse_wire dx dy btn = [a, b, c]"
  then have "bit a 3" by (auto simp: mouse_wire_def bit_simps)
  then have "bit (a AND 8) 3" by (simp add: bit_simps)
  then show ?thesis by auto
qed

lemma first_byte:
  fixes btn :: u8
  assumes "btn < 8" and "a = btn OR 8 OR (if sx then 16 else 0) OR (if sy then 32 else 0)"
  shows "a AND 64 = 0" and "a AND 128 = 0" and "a AND 16 \<noteq> 0 \<longleftrightarrow> sx" and "a AND 32 \<noteq> 0 \<longleftrightarrow> sy"
    and "(if a AND 1 \<noteq> 0 then 1 else 0) OR (if a AND 2 \<noteq> 0 then 2 else 0) OR (if a AND 4 \<noteq> 0 then 4 else 0) = btn"
proof -
  have "unat btn < 8" using assms(1) by (simp add: word_less_nat_alt)
  then have "unat btn \<in> {0, 1, 2, 3, 4, 5, 6, 7}" by auto
  then have "btn \<in> {0, 1, 2, 3, 4, 5, 6, 7}" by (auto simp: word_unat_eq_iff)
  then have "a AND 64 = 0 \<and> a AND 128 = 0 \<and> (a AND 16 \<noteq> 0 \<longleftrightarrow> sx) \<and> (a AND 32 \<noteq> 0 \<longleftrightarrow> sy) \<and>
      (if a AND 1 \<noteq> 0 then 1 else 0) OR (if a AND 2 \<noteq> 0 then 2 else 0) OR (if a AND 4 \<noteq> 0 then 4 else 0) = btn"
    unfolding assms(2) by (elim insertE emptyE; cases sx; cases sy; simp)
  then show "a AND 64 = 0" "a AND 128 = 0" "a AND 16 \<noteq> 0 \<longleftrightarrow> sx" "a AND 32 \<noteq> 0 \<longleftrightarrow> sy"
    and "(if a AND 1 \<noteq> 0 then 1 else 0) OR (if a AND 2 \<noteq> 0 then 2 else 0) OR (if a AND 4 \<noteq> 0 then 4 else 0) = btn"
    by blast+
qed

lemma mouse_wire_decoded:
  assumes "- 256 \<le> dx" and "dx < 256" and "- 256 \<le> dy" and "dy < 256" and "btn < 8" and "mouse_wire dx dy btn = [a, b, c]"
  shows "input_mouse_create_packet \<lparr>raw_data = a, raw_mx = b, raw_my = c\<rparr>
    = Some \<lparr>mp_dx = word_of_int dx, mp_dy = word_of_int dy, mp_buttons = btn\<rparr>"
proof -
  have w: "a = btn OR 8 OR (if dx < 0 then 16 else 0) OR (if dy < 0 then 32 else 0)" "b = word_of_int dx" "c = word_of_int dy"
    using assms(6) by (simp_all add: mouse_wire_def)
  show ?thesis
    unfolding input_mouse_create_packet_def Let_def mouse_raw.simps
    using first_byte [OF assms(5) w(1)] w(2,3) word8_sign_extend [OF assms(1,2)] word8_sign_extend [OF assms(3,4)]
    by (cases "dx < 0"; cases "dy < 0"; simp)
qed

fun movement_ok :: "int \<times> int \<times> u8 \<Rightarrow> bool" where
  "movement_ok (dx, dy, btn) \<longleftrightarrow> - 256 \<le> dx \<and> dx < 256 \<and> - 256 \<le> dy \<and> dy < 256 \<and> btn < 8"

fun wire_of :: "int \<times> int \<times> u8 \<Rightarrow> u8 list" where
  "wire_of (dx, dy, btn) = mouse_wire dx dy btn"

fun packet_of :: "int \<times> int \<times> u8 \<Rightarrow> mouse_packet" where
  "packet_of (dx, dy, btn) = \<lparr>mp_dx = word_of_int dx, mp_dy = word_of_int dy, mp_buttons = btn\<rparr>"

lemma run_mouse_wires:
  assumes "mouse_packet_counter p = 0" and "list_all movement_ok ms"
  shows "map input_mouse_create_packet (raw_packets (snd (run_mouse p (concat (map wire_of ms))))) = map (Some \<circ> packet_of) ms"
  using assms
proof (induction ms arbitrary: p)
  case (Cons m ms)
  obtain dx dy btn where m: "m = (dx, dy, btn)" by (cases m)
  obtain a b c where w: "mouse_wire dx dy btn = [a, b, c]" by (simp add: mouse_wire_def)
  have d: "input_mouse_create_packet \<lparr>raw_data = a, raw_mx = b, raw_my = c\<rparr> = Some (packet_of m)"
    using Cons.prems(2) mouse_wire_decoded [OF _ _ _ _ _ w] by (simp add: m)
  have run: "snd (run_mouse p (concat (map wire_of (m # ms)))) =
      a # b # c # snd (run_mouse (p\<lparr>mouse_packet_counter := 0, current_mouse_packet := \<lparr>raw_data = a, raw_mx = b, raw_my = c\<rparr>\<rparr>) (concat (map wire_of ms)))"
    using run_mouse_packet [OF Cons.prems(1) mouse_wire_synced [OF w], of b c] by (simp add: m w case_prod_beta)
  have "map input_mouse_create_packet (raw_packets (snd (run_mouse
        (p\<lparr>mouse_packet_counter := 0, current_mouse_packet := \<lparr>raw_data = a, raw_mx = b, raw_my = c\<rparr>\<rparr>) (concat (map wire_of ms)))))
      = map (Some \<circ> packet_of) ms"
    using Cons.prems(2) by (intro Cons.IH) simp_all
  then show ?case by (subst run) (simp only: raw_packets.simps list.map d comp_apply)
qed simp

text \<open>The bytes the handler of the mouse hands to the pipe, for a stream of bytes of the mouse.\<close>

lemma handler_packets:
  assumes "mouse_packet_counter p = 0" and "\<forall>b\<in>set junk. b AND 8 = 0" and "list_all movement_ok ms"
  shows "map input_mouse_create_packet (raw_packets (snd (run_mouse p (junk @ concat (map wire_of ms))))) = map (Some \<circ> packet_of) ms"
  using run_mouse_wires [OF assms(1,3)] run_mouse_unsynced [OF assms(1,2)] by simp

lemma raw_key_bytes:
  fixes b :: u8
  defines "d \<equiv> (ucast b :: u16)"
  shows "raw_key [ucast (if e then d OR 0x100 else d), ucast (drop_bit 8 (if e then d OR 0x100 else d))]
    = ucast b OR (if e then 0x100 else 0)"
proof (rule bit_word_eqI)
  fix n assume n: "n < LENGTH(32)"
  have m: "bit (0x100 :: u16) i \<longleftrightarrow> i = 8" "bit (0x100 :: u32) i \<longleftrightarrow> i = 8" "bit (0x100 :: int) i \<longleftrightarrow> i = 8" for i
    using bit_exp_iff [of 8 i, where 'a = u16] bit_exp_iff [of 8 i, where 'a = u32] bit_exp_iff [of 8 i, where 'a = int] by auto
  show "bit (raw_key [ucast (if e then d OR 0x100 else d), ucast (drop_bit 8 (if e then d OR 0x100 else d))]) n
      = bit (ucast b OR (if e then 0x100 else 0) :: u32) n"
    using n unfolding d_def raw_key.simps by (cases "n < 8") (auto simp: m bit_simps dest: bit_imp_le_length)
qed

lemma key_word_bits:
  fixes b :: u8 and e :: bool
  defines "w \<equiv> (ucast b OR (if e then 0x100 else 0) :: u32)"
  shows "w AND 0x80 \<noteq> 0 \<longleftrightarrow> bit b 7" and "w AND 0x100 \<noteq> 0 \<longleftrightarrow> e" and "w AND 0x7F = ucast (take_bit 7 b)"
proof -
  have m: "(0x100 :: u32) = 2 ^ 8" "(0x80 :: u32) = 2 ^ 7" "(0x7F :: u32) = mask 7" by (simp_all add: mask_eq_exp_minus_1)
  show "w AND 0x80 \<noteq> 0 \<longleftrightarrow> bit b 7" "w AND 0x100 \<noteq> 0 \<longleftrightarrow> e"
    unfolding m and_exp_eq_0_iff_not_bit w_def by (auto simp: bit_simps dest: bit_imp_le_length)
  show "w AND 0x7F = ucast (take_bit 7 b)"
    unfolding m(3) take_bit_eq_mask [symmetric] w_def m(1) by (auto intro!: bit_word_eqI simp: bit_simps)
qed

lemma key_byte:
  fixes c :: u8
  assumes "c < 128"
  shows "bit (if up then c OR 0x80 else c) 7 \<longleftrightarrow> up" and "take_bit 7 (if up then c OR 0x80 else c) = c"
proof -
  have t: "take_bit 7 c = c" using assms by (simp add: word_uint_eq_iff unsigned_take_bit_eq take_bit_int_eq_self word_less_alt)
  then have h: "bit c n \<Longrightarrow> n < 7" for n by (metis bit_take_bit_iff)
  have m: "(0x80 :: u8) = 2 ^ 7" by simp
  show "bit (if up then c OR 0x80 else c) 7 \<longleftrightarrow> up"
    using h [of 7] unfolding m by (auto simp: bit_simps)
  show "take_bit 7 (if up then c OR 0x80 else c) = c"
    using t unfolding m by (auto intro!: bit_word_eqI simp: bit_simps h)
qed

lemma ucast_byte [simp]:
  fixes c :: u8
  shows "unat (ucast c :: u32) = unat c" and "uint (ucast c :: u32) = uint c"
  using unsigned_less [of c, where 'a = nat] unsigned_less [of c, where 'a = int]
  by (simp_all add: unsigned_ucast_eq take_bit_nat_eq_self take_bit_int_eq_self)

lemma key_packet_of_byte:
  fixes c :: u8
  assumes "c < 128"
  shows "input_kbd_create_packet (ucast (if up then c OR 0x80 else c) OR (if e then 0x100 else 0)) =
    \<lparr>kp_scancode = (if e then scancodes_ext ! unat c else uint c), kp_flags = (if up then 1 else 0) OR (if e then 2 else 0)\<rparr>"
  unfolding input_kbd_create_packet_def key_word_bits key_byte [OF assms] Let_def
  by (cases up; cases e) simp_all

lemma key_not_prefix:
  fixes c :: u8
  assumes "c < 128" and "\<not> (c = 0x60 \<and> up)"
  shows "(if up then c OR 0x80 else c) \<noteq> 0xE0"
proof
  assume q: "(if up then c OR 0x80 else c) = 0xE0"
  have "bit (0xE0 :: u8) 7" and "take_bit 7 (0xE0 :: u8) = 0x60" by (simp_all add: take_bit_eq_mod)
  then show False using key_byte [OF assms(1), of up] assms(2) unfolding q by simp
qed

lemma ps2_keyboard_bytes:
  "ps2_handle_keyboard atty (p, k) b = ((p\<lparr>kbd_ext := 0\<rparr>, fst (k_dev_vt_handle_scancode atty k b)), snd (k_dev_vt_handle_scancode atty k b),
     [ucast (if kbd_ext p \<noteq> 0 then ucast b OR 0x100 else ucast b :: u16), ucast (drop_bit 8 (if kbd_ext p \<noteq> 0 then ucast b OR 0x100 else ucast b :: u16))])"
  by (simp add: ps2_handle_keyboard_def Let_def case_prod_beta)

lemma run_key:
  assumes "b \<noteq> 0xE0" and "kbd_ext p = 0"
  shows "run_keyboard atty (p, k) ((if e then [0xE0] else []) @ [b]) =
    ((p\<lparr>kbd_ext := 0\<rparr>, fst (k_dev_vt_handle_scancode atty k b)),
     [ucast (if e then ucast b OR 0x100 else ucast b :: u16), ucast (drop_bit 8 (if e then ucast b OR 0x100 else ucast b :: u16))])"
  using assms by (cases e) (simp_all add: irq1_handler_def ps2_keyboard_bytes)

text \<open>
  A key that is pressed or released, extended or not, reaches the reader of \<^verbatim>\<open>/dev/kbd\<close> as one packet
  with its code and the right flags, and the prefix of extended keys is used up. The one exception is the
  release of key 0x60, whose code is that prefix. The console sees the scan code without the prefix.
\<close>

lemma key_event_arrives:
  assumes "c < 128" and "\<not> (c = 0x60 \<and> up)" and "kbd_ext p = 0"
  shows "case run_keyboard atty (p, k) ((if e then [0xE0] else []) @ [if up then c OR 0x80 else c]) of
    ((q, k2), out) \<Rightarrow> kbd_ext q = 0 \<and> k2 = fst (k_dev_vt_handle_scancode atty k (if up then c OR 0x80 else c)) \<and>
      input_kbd_create_packet (raw_key out) =
        \<lparr>kp_scancode = (if e then scancodes_ext ! unat c else uint c),
         kp_flags = (if up then 1 else 0) OR (if e then 2 else 0)\<rparr>"
  unfolding run_key [OF key_not_prefix [OF assms(1,2)] assms(3)] prod.case raw_key_bytes key_packet_of_byte [OF assms(1)] by simp

lemma irq1_handler_vt_ex:
  assumes "vt_ex (snd s) = 0"
  shows "vt_ex (snd (fst (irq1_handler atty s b))) = 0"
  using assms by (cases s) (simp add: irq1_handler_def ps2_keyboard_bytes k_dev_vt_handle_scancode_def Let_def)

lemma caps_bit:
  fixes m :: u8
  shows "(m OR MOD_CAPS) AND MOD_CTRL = m AND MOD_CTRL" and "(m OR MOD_CAPS) AND MOD_SHIFT = m AND MOD_SHIFT"
    and "(m OR MOD_CAPS) AND MOD_ALT = m AND MOD_ALT"
  by (simp_all add: bit.conj_disj_distrib2)

lemma k_dev_vt_caps_ignored:
  assumes "scancodes ! unat (v AND 0x7F) \<noteq> 0"
  shows "snd (k_dev_vt_handle_scancode atty (k\<lparr>vt_mods := vt_mods k OR MOD_CAPS\<rparr>) v) = snd (k_dev_vt_handle_scancode atty k v)"
  using assms by (simp add: k_dev_vt_handle_scancode_def Let_def caps_bit)

lemma letter_keys:
  "list_all (\<lambda>(a, b). isalpha a \<longrightarrow> islower a \<and> b = toupper a) (zip scancodes scancodes_shifted)"
  by (simp add: scancodes_def scancodes_shifted_def numeral_eq_Suc isalpha_def islower_def toupper_def)

lemma input_kbd_translate_letter:
  assumes "c < 128" and "isalpha (scancodes ! c)" and "md AND KBD_MOD_CTRL = 0"
  shows "input_kbd_translate (int c) md =
    Some (if (md AND KBD_MOD_SHIFT \<noteq> 0) \<noteq> (md AND KBD_MOD_CAPS \<noteq> 0) then toupper (scancodes ! c) else scancodes ! c)"
proof -
  have "(scancodes ! c, scancodes_shifted ! c) \<in> set (zip scancodes scancodes_shifted)"
    using assms(1) by (auto simp: set_zip)
  then have "islower (scancodes ! c)" "scancodes_shifted ! c = toupper (scancodes ! c)"
    using letter_keys assms(2) by (auto simp: list_all_iff)
  then show ?thesis
    using assms by (simp add: input_kbd_translate_def Let_def toupper_def tolower_def islower_def isupper_def isalpha_def)
qed

lemma home_key: "scancodes ! 71 = 0" "scancodes_ext ! 71 = 102"
  by (simp_all add: scancodes_def scancodes_ext_def numeral_eq_Suc)

lemma home_key_up: "fst (k_dev_vt_handle_scancode True \<lparr>vt_ex = 0, vt_mods = 0\<rparr> 199) = \<lparr>vt_ex = 0, vt_mods = 0\<rparr>"
  by (simp add: k_dev_vt_handle_scancode_def Let_def vt_modifier_def home_key)

lemma key_event_arrives_witness:
  "case run_keyboard True (\<lparr>kbd_ext = 0, mouse_packet_counter = 0, current_mouse_packet = \<lparr>raw_data = 0, raw_mx = 0, raw_my = 0\<rparr>\<rparr>,
      \<lparr>vt_ex = 0, vt_mods = 0\<rparr>) [0xE0, 0xC7] of
    ((q, k2), out) \<Rightarrow> kbd_ext q = 0 \<and> k2 = \<lparr>vt_ex = 0, vt_mods = 0\<rparr> \<and> input_kbd_create_packet (raw_key out) = \<lparr>kp_scancode = 102, kp_flags = 3\<rparr>"
  using key_event_arrives [where c = 71 and up = True and e = True and atty = True and k = "\<lparr>vt_ex = 0, vt_mods = 0\<rparr>" and p = "\<lparr>kbd_ext = 0, mouse_packet_counter = 0, current_mouse_packet = \<lparr>raw_data = 0, raw_mx = 0, raw_my = 0\<rparr>\<rparr>"]
  by (simp add: home_key home_key_up del: run_keyboard.simps)

end
