(* ===== verification/Mouse.thy ===== *)
theory Mouse
  imports Input Pipe
begin

text \<open>
  The mouse and its pipe: the interrupt handler of \<^verbatim>\<open>kernel/src/dev/ps2.c\<close> writes packets of three bytes to a
  pipe of \<^verbatim>\<open>kernel/src/fs/pipe.c\<close> that does not block, and a reader (the window server in
  \<^verbatim>\<open>libs/libcompose/src/compose.c\<close>) takes them out, three bytes at a time. Interrupts and reads come in any
  order; both run through interrupt gates and so do not interrupt each other. The pipe has 384 bytes, one
  of which stays free: as long as at most 127 packets are unread nothing is lost, and with 127 unread the next packet loses its
  last byte.
\<close>

section \<open>Interrupts and reads\<close>

text \<open>The result of the write is not looked at.\<close>

definition irq12_handler :: "ptr \<Rightarrow> u32 \<Rightarrow> kernel \<Rightarrow> ps2 \<Rightarrow> pipe \<Rightarrow> u8 \<Rightarrow> (kernel \<times> ps2 \<times> pipe) option" where
  "irq12_handler node md k p dev b =
     (case ps2_handle_mouse p b of (p1, out) \<Rightarrow>
        if out = [] then Some (k, p1, dev)
        else do {
          (_, k1, dev1, _) \<leftarrow> pipe_write k (Some dev) node md (of_nat (length out)) out;
          pi \<leftarrow> dev1;
          Some (k1, p1, pi) })"

text \<open>The read of the window server: the packet, or nothing (\<open>None\<close>) when the call fails.\<close>

definition read_mouse :: "ptr \<Rightarrow> u32 \<Rightarrow> kernel \<Rightarrow> pipe \<Rightarrow> (u8 list option \<times> kernel \<times> pipe) option" where
  "read_mouse node md k dev = do {
     (r, k1, dev1, _) \<leftarrow> pipe_read k (Some dev) node md 3;
     pi \<leftarrow> dev1;
     case r of Slept \<Rightarrow> None
     | Completed e bytes \<Rightarrow> Some (if sint e \<le> 0 then None else Some bytes, k1, pi) }"

text \<open>
  What happens: a byte from the mouse, a read, or other work of the kernel, after which the
  scheduler is in some other state.
\<close>

datatype mouse_event =
    Byte u8
  | Take
  | Elsewhere kernel

fun mouse_run :: "ptr \<Rightarrow> u32 \<Rightarrow> ptr \<Rightarrow> u32 \<Rightarrow> kernel \<Rightarrow> ps2 \<Rightarrow> pipe \<Rightarrow> mouse_event list \<Rightarrow> (u8 list option list \<times> ps2 \<times> pipe) option" where
  "mouse_run node md rnode rmd k p dev [] = Some ([], p, dev)"
| "mouse_run node md rnode rmd k p dev (Byte b # es) = do {
     (k1, p1, dev1) \<leftarrow> irq12_handler node md k p dev b; mouse_run node md rnode rmd k1 p1 dev1 es }"
| "mouse_run node md rnode rmd k p dev (Take # es) = do {
     (x, k1, dev1) \<leftarrow> read_mouse rnode rmd k dev;
     (xs, p2, dev2) \<leftarrow> mouse_run node md rnode rmd k1 p dev1 es;
     Some (x # xs, p2, dev2) }"
| "mouse_run node md rnode rmd k p dev (Elsewhere k1 # es) = mouse_run node md rnode rmd k1 p dev es"

fun mouse_bytes :: "mouse_event list \<Rightarrow> u8 list" where
  "mouse_bytes [] = []"
| "mouse_bytes (Byte b # es) = b # mouse_bytes es"
| "mouse_bytes (_ # es) = mouse_bytes es"

section \<open>A queue of packets\<close>

text \<open>
  The abstract mouse: \<open>n\<close> bytes of a packet have come in as \<open>cur\<close>, and the packets \<open>q\<close> are waiting. There is no
  next state when a packet arrives while 127 are waiting.
\<close>

fun packet_queue :: "u8 list \<Rightarrow> u8 list list \<Rightarrow> mouse_event list \<Rightarrow> (u8 list option list \<times> u8 list list) option" where
  "packet_queue cur q [] = Some ([], q)"
| "packet_queue cur q (Byte b # es) =
     (if cur = [] \<and> b AND 8 = 0 then packet_queue [] q es
      else if length cur < 2 then packet_queue (cur @ [b]) q es
      else if length q < 127 then packet_queue [] (q @ [cur @ [b]]) es
      else None)"
| "packet_queue cur q (Take # es) =
     (case q of [] \<Rightarrow> do { (xs, r) \<leftarrow> packet_queue cur [] es; Some (None # xs, r) }
      | x # q1 \<Rightarrow> do { (xs, r) \<leftarrow> packet_queue cur q1 es; Some (Some x # xs, r) })"
| "packet_queue cur q (Elsewhere k # es) = packet_queue cur q es"

definition taken :: "u8 list option list \<Rightarrow> u8 list list" where
  "taken xs = concat (map (\<lambda>x. case x of None \<Rightarrow> [] | Some y \<Rightarrow> [y]) xs)"

lemma taken_simps [simp]: "taken [] = []" "taken (None # xs) = taken xs" "taken (Some y # xs) = y # taken xs"
  by (simp_all add: taken_def)

section \<open>The pipe keeps the queue\<close>

text \<open>The handler between two bytes.\<close>

definition half_packet :: "ps2 \<Rightarrow> u8 list \<Rightarrow> bool" where
  "half_packet p cur \<longleftrightarrow> length cur \<le> 2 \<and> mouse_packet_counter p = of_nat (length cur) \<and>
     (cur \<noteq> [] \<longrightarrow> raw_data (current_mouse_packet p) = cur ! 0) \<and> (length cur = 2 \<longrightarrow> raw_mx (current_mouse_packet p) = cur ! 1)"

definition pipe_holds :: "pipe \<Rightarrow> u8 list list \<Rightarrow> bool" where
  "pipe_holds dev q \<longleftrightarrow> pipe_ok dev \<and> pipe_cap dev = 383 \<and> pipe_contents dev = concat q \<and> (\<forall>x \<in> set q. length x = 3)"

lemma handle_mouse_step:
  assumes "half_packet p cur"
  shows "\<exists>p1. ps2_handle_mouse p b = (p1, if length cur = 2 then cur @ [b] else []) \<and>
    half_packet p1 (if cur = [] \<and> b AND 8 = 0 \<or> length cur = 2 then [] else cur @ [b])"
proof -
  have "cur = [] \<or> (\<exists>x. cur = [x]) \<or> (\<exists>x y. cur = [x, y])"
    using assms by (cases cur; cases "tl cur"; cases "tl (tl cur)") (auto simp: half_packet_def)
  then show ?thesis
    using assms by (elim disjE exE) (auto simp: half_packet_def ps2_handle_mouse_def Let_def word_le_nat_alt)
qed

lemma length_concat3: "\<forall>x \<in> set q. length x = 3 \<Longrightarrow> length (concat q) = 3 * length q"
  by (induction q) simp_all

text \<open>A write that fits and a read that finds enough, on a node that does not block.\<close>

lemma write_fits:
  assumes "sched_inv k" and "pipe_ok dev" and "length xs + length (pipe_contents dev) \<le> pipe_cap dev"
  shows "\<exists>k1 dev1 r. pipe_write k (Some dev) node md sz xs = Some (r, k1, Some dev1, []) \<and> sched_inv k1 \<and> pipe_ok dev1 \<and>
    pipe_cap dev1 = pipe_cap dev \<and> pipe_contents dev1 = pipe_contents dev @ xs"
proof -
  let ?d = "fst (pipe_write_loop dev xs)"
  have f: "pipe_ok ?d" "pipe_cap ?d = pipe_cap dev" "pipe_contents ?d = pipe_contents dev @ xs" "snd (pipe_write_loop dev xs) = []"
    using pi.fill_spec [OF assms(2), of xs] assms(3) by simp_all
  obtain k1 k2 where "k_proc_process_wakeup_queue k (p_wait_queue ?d) = Some k1" "pipe_notify k1 ?d node VFS_EVENT_READ = Some k2" "sched_inv k2"
    using pipe_finish_ok [OF assms(1)] by blast
  then show ?thesis using f by (simp add: pipe_write_def split_beta Let_def)
qed

lemma read_some:
  assumes "sched_inv k" and "pipe_ok dev" and "unat n \<le> length (pipe_contents dev)"
  shows "\<exists>k1 dev1. pipe_read k (Some dev) node md n = Some (Completed n (take (unat n) (pipe_contents dev)), k1, Some dev1, take (unat n) (pipe_contents dev)) \<and>
    sched_inv k1 \<and> pipe_ok dev1 \<and> pipe_cap dev1 = pipe_cap dev \<and> pipe_contents dev1 = drop (unat n) (pipe_contents dev)"
proof -
  let ?d = "fst (pipe_read_loop dev (unat n))"
  have f: "pipe_ok ?d" "pipe_cap ?d = pipe_cap dev" "pipe_contents ?d = drop (unat n) (pipe_contents dev)"
    "snd (pipe_read_loop dev (unat n)) = take (unat n) (pipe_contents dev)"
    using pi.drain_spec [OF assms(2), of "unat n"] by simp_all
  have a: "\<not> pipe_read_available dev < n" using pi.readable [OF assms(2)] assms(3) by (simp add: word_less_nat_alt)
  obtain k1 k2 where "k_proc_process_wakeup_queue k (p_wait_queue ?d) = Some k1" "pipe_notify k1 ?d node VFS_EVENT_WRITE = Some k2" "sched_inv k2"
    using pipe_finish_ok [OF assms(1)] by blast
  then show ?thesis using f a assms(3) by (simp add: pipe_read_def pipe_read_turn_def split_beta Let_def)
qed

lemma irq12_step:
  assumes "sched_inv k" and "half_packet p cur" and "pipe_holds dev q" and "length cur = 2 \<longrightarrow> length q < 127"
  shows "\<exists>k1 p1 dev1. irq12_handler node md k p dev b = Some (k1, p1, dev1) \<and> sched_inv k1 \<and>
    half_packet p1 (if cur = [] \<and> b AND 8 = 0 \<or> length cur = 2 then [] else cur @ [b]) \<and>
    pipe_holds dev1 (if length cur = 2 then q @ [cur @ [b]] else q)"
proof -
  obtain p1 where p1: "ps2_handle_mouse p b = (p1, if length cur = 2 then cur @ [b] else [])"
    "half_packet p1 (if cur = [] \<and> b AND 8 = 0 \<or> length cur = 2 then [] else cur @ [b])" using handle_mouse_step [OF assms(2)] by blast
  show ?thesis
  proof (cases "length cur = 2")
    case True
    have d: "pipe_ok dev" "pipe_cap dev = 383" "pipe_contents dev = concat q" "\<forall>x \<in> set q. length x = 3" using assms(3) by (simp_all add: pipe_holds_def)
    have "length (cur @ [b]) + length (pipe_contents dev) \<le> pipe_cap dev" using True assms(4) d(2,3) length_concat3 [OF d(4)] by simp
    from write_fits [OF assms(1) d(1) this] obtain k1 dev1 r where w: "pipe_write k (Some dev) node md 3 (cur @ [b]) = Some (r, k1, Some dev1, [])"
      "sched_inv k1" "pipe_ok dev1" "pipe_cap dev1 = pipe_cap dev" "pipe_contents dev1 = pipe_contents dev @ cur @ [b]" by blast
    then have "irq12_handler node md k p dev b = Some (k1, p1, dev1)" using True p1(1) by (simp add: irq12_handler_def)
    moreover have "pipe_holds dev1 (q @ [cur @ [b]])" using w d True by (simp add: pipe_holds_def)
    ultimately show ?thesis using True w(2) p1(2) by simp
  next
    case False
    then show ?thesis using p1 assms(1,3) by (auto simp: irq12_handler_def)
  qed
qed

lemma read_mouse_step:
  assumes "sched_inv k" and "pipe_holds dev q" and "md AND O_NOBLOCK \<noteq> 0"
  shows "\<exists>k1 dev1. read_mouse node md k dev = Some (case q of [] \<Rightarrow> None | x # _ \<Rightarrow> Some x, k1, dev1) \<and> sched_inv k1 \<and> pipe_holds dev1 (tl q)"
proof -
  have d: "pipe_ok dev" "pipe_cap dev = 383" "pipe_contents dev = concat q" "\<forall>x \<in> set q. length x = 3" using assms(2) by (simp_all add: pipe_holds_def)
  show ?thesis
  proof (cases q)
    case Nil
    have "pipe_read_available dev < 3" using pi.readable [OF d(1)] d(3) Nil by (simp add: word_less_nat_alt)
    then have "pipe_read k (Some dev) node md 3 = Some (Completed (- EAGAIN) [], k, Some dev, [])" using assms(3) by (simp add: pipe_read_def)
    moreover have "sint (- EAGAIN :: u32) \<le> 0" by simp
    ultimately have "read_mouse node md k dev = Some (None, k, dev)" by (simp add: read_mouse_def)
    then show ?thesis using Nil assms(1,2) by simp
  next
    case (Cons x q1)
    have x: "length x = 3" using d(4) Cons by simp
    have "unat (3 :: u32) \<le> length (pipe_contents dev)" using d(3) Cons x by simp
    from read_some [OF assms(1) d(1) this, where node = node and md = md] obtain k1 dev1 where r: "pipe_read k (Some dev) node md 3 = Some (Completed 3 x, k1, Some dev1, x)" "sched_inv k1"
      "pipe_ok dev1" "pipe_cap dev1 = pipe_cap dev" "pipe_contents dev1 = concat q1" using d(3) Cons x by auto
    then have "read_mouse node md k dev = Some (Some x, k1, dev1)" by (simp add: read_mouse_def)
    moreover have "pipe_holds dev1 q1" using r d Cons by (simp add: pipe_holds_def)
    ultimately show ?thesis using Cons r(2) by simp
  qed
qed

lemma mouse_run_refines:
  assumes "rmd AND O_NOBLOCK \<noteq> 0"
  shows "packet_queue cur q es = Some (xs, r) \<Longrightarrow> sched_inv k \<Longrightarrow> half_packet p cur \<Longrightarrow> pipe_holds dev q \<Longrightarrow>
    (\<forall>k1. Elsewhere k1 \<in> set es \<longrightarrow> sched_inv k1) \<Longrightarrow>
    \<exists>p1 dev1. mouse_run node md rnode rmd k p dev es = Some (xs, p1, dev1) \<and> pipe_holds dev1 r"
proof (induction cur q es arbitrary: xs k p dev rule: packet_queue.induct)
  case (2 cur q b es)
  have l: "length cur \<le> 2" using "2.prems"(3) by (simp add: half_packet_def)
  have room: "length cur = 2 \<longrightarrow> length q < 127" using "2.prems"(1) by (auto split: if_splits)
  obtain k1 p1 dev1 where s: "irq12_handler node md k p dev b = Some (k1, p1, dev1)" "sched_inv k1"
    "half_packet p1 (if cur = [] \<and> b AND 8 = 0 \<or> length cur = 2 then [] else cur @ [b])" "pipe_holds dev1 (if length cur = 2 then q @ [cur @ [b]] else q)"
    using irq12_step [OF "2.prems"(2,3,4) room] by blast
  have e: "\<forall>k1. Elsewhere k1 \<in> set es \<longrightarrow> sched_inv k1" using "2.prems"(5) by simp
  consider "cur = [] \<and> b AND 8 = 0" | "\<not> (cur = [] \<and> b AND 8 = 0)" "length cur < 2" | "\<not> (cur = [] \<and> b AND 8 = 0)" "length cur = 2" using l by linarith
  then show ?case
  proof cases
    case 1
    have "\<exists>p2 dev2. mouse_run node md rnode rmd k1 p1 dev1 es = Some (xs, p2, dev2) \<and> pipe_holds dev2 r"
      using "2.prems"(1) s 1 by (intro "2.IH"(1) [OF 1 _ s(2) _ _ e]) simp_all
    then show ?thesis using s(1) by simp
  next
    case 2
    have "\<exists>p2 dev2. mouse_run node md rnode rmd k1 p1 dev1 es = Some (xs, p2, dev2) \<and> pipe_holds dev2 r"
      using "2.prems"(1) s 2 by (intro "2.IH"(2) [OF 2 _ s(2) _ _ e]) simp_all
    then show ?thesis using s(1) by simp
  next
    case 3
    have n: "\<not> length cur < 2" using 3 by simp
    have "\<exists>p2 dev2. mouse_run node md rnode rmd k1 p1 dev1 es = Some (xs, p2, dev2) \<and> pipe_holds dev2 r"
      using "2.prems"(1) s 3 room by (intro "2.IH"(3) [OF 3(1) n _ _ s(2) _ _ e]) simp_all
    then show ?thesis using s(1) by simp
  qed
next
  case (3 cur q es)
  obtain k1 dev1 where s: "read_mouse rnode rmd k dev = Some (case q of [] \<Rightarrow> None | x # _ \<Rightarrow> Some x, k1, dev1)" "sched_inv k1" "pipe_holds dev1 (tl q)"
    using read_mouse_step [OF "3.prems"(2,4) assms] by blast
  obtain ys where y: "packet_queue cur (tl q) es = Some (ys, r)" "xs = (case q of [] \<Rightarrow> None | x # _ \<Rightarrow> Some x) # ys"
    using "3.prems"(1) by (cases q) (auto split: Option.bind_splits)
  have "\<exists>p2 dev2. mouse_run node md rnode rmd k1 p dev1 es = Some (ys, p2, dev2) \<and> pipe_holds dev2 r"
    using "3.IH" y(1) s(2,3) "3.prems"(3,5) by (cases q) simp_all
  then show ?case using s(1) y(2) by auto
qed simp_all

text \<open>The queue passes on what the handler makes of the bytes.\<close>

lemma packet_queue_bytes:
  "packet_queue cur q es = Some (xs, r) \<Longrightarrow> half_packet p cur \<Longrightarrow> concat (taken xs @ r) = concat q @ snd (run_mouse p (mouse_bytes es))"
proof (induction cur q es arbitrary: xs p rule: packet_queue.induct)
  case (2 cur q b es)
  have l: "length cur \<le> 2" using "2.prems"(2) by (simp add: half_packet_def)
  obtain p1 where p1: "ps2_handle_mouse p b = (p1, if length cur = 2 then cur @ [b] else [])"
    "half_packet p1 (if cur = [] \<and> b AND 8 = 0 \<or> length cur = 2 then [] else cur @ [b])" using handle_mouse_step [OF "2.prems"(2)] by blast
  have run: "snd (run_mouse p (mouse_bytes (Byte b # es))) = (if length cur = 2 then cur @ [b] else []) @ snd (run_mouse p1 (mouse_bytes es))"
    using p1(1) by (simp add: case_prod_beta)
  consider "cur = [] \<and> b AND 8 = 0" | "\<not> (cur = [] \<and> b AND 8 = 0)" "length cur < 2" | "\<not> (cur = [] \<and> b AND 8 = 0)" "length cur = 2" "length q < 127"
    using l "2.prems"(1) by (auto split: if_splits)
  then show ?case unfolding run
  proof cases
    case 1
    then show "concat (taken xs @ r) = concat q @ (if length cur = 2 then cur @ [b] else []) @ snd (run_mouse p1 (mouse_bytes es))"
      using "2.IH"(1) [OF 1, of xs p1] "2.prems"(1) p1(2) by simp
  next
    case 2
    then show "concat (taken xs @ r) = concat q @ (if length cur = 2 then cur @ [b] else []) @ snd (run_mouse p1 (mouse_bytes es))"
      using "2.IH"(2) [OF 2, of xs p1] "2.prems"(1) p1(2) by (auto split: if_splits)
  next
    case 3
    have n: "\<not> length cur < 2" using 3 by simp
    show "concat (taken xs @ r) = concat q @ (if length cur = 2 then cur @ [b] else []) @ snd (run_mouse p1 (mouse_bytes es))"
      using "2.IH"(3) [OF 3(1) n 3(3), of xs p1] "2.prems"(1) p1(2) 3 by (auto split: if_splits)
  qed
next
  case (3 cur q es)
  then show ?case by (cases q) (auto split: Option.bind_splits)
qed simp_all

lemma packet_queue_sizes:
  "packet_queue cur q es = Some (xs, r) \<Longrightarrow> length cur \<le> 2 \<Longrightarrow> \<forall>x \<in> set q. length x = 3 \<Longrightarrow> \<forall>x \<in> set (taken xs @ r). length x = 3"
proof (induction cur q es arbitrary: xs rule: packet_queue.induct)
  case (2 cur q b es)
  show ?case
  proof (cases "cur = [] \<and> b AND 8 = 0")
    case True
    then show ?thesis using "2.IH"(1) [OF True, of xs] "2.prems" by simp
  next
    case f: False
    show ?thesis
    proof (cases "length cur < 2")
      case True
      then show ?thesis using "2.IH"(2) [OF f True, of xs] "2.prems" f by (auto split: if_splits)
    next
      case False
      have "packet_queue (cur :: u8 list) q (Byte b # es) = (if length q < 127 then packet_queue [] (q @ [cur @ [b]]) es else None)"
        using f False by auto
      then have n: "length q < 127" "packet_queue [] (q @ [cur @ [b]]) es = Some (xs, r)" using "2.prems"(1) by (auto split: if_splits)
      then show ?thesis using "2.IH"(3) [OF f False n(1,2)] "2.prems"(2,3) False by simp
    qed
  qed
next
  case (3 cur q es)
  obtain ys where y: "packet_queue cur (tl q) es = Some (ys, r)" "xs = (case q of [] \<Rightarrow> None | x # _ \<Rightarrow> Some x) # ys"
    using "3.prems"(1) by (cases q) (auto split: Option.bind_splits)
  have "\<forall>x \<in> set (taken ys @ r). length x = 3"
  proof (cases q)
    case Nil
    show ?thesis by (rule "3.IH"(1) [OF Nil]) (use y(1) "3.prems"(2) Nil in simp_all)
  next
    case (Cons x q1)
    show ?thesis by (rule "3.IH"(2) [OF Cons]) (use y(1) "3.prems"(2,3) Cons in simp_all)
  qed
  then show ?case using y(2) "3.prems"(3) by (cases q) simp_all
qed simp_all

section \<open>Properties\<close>

text \<open>The three bytes of a packet as the structure that the reader declares.\<close>

definition raw_of :: "u8 list \<Rightarrow> mouse_raw" where
  "raw_of x = \<lparr>raw_data = x ! 0, raw_mx = x ! 1, raw_my = x ! 2\<rparr>"

lemma raw_packets_concat: "\<forall>x \<in> set ys. length x = 3 \<Longrightarrow> raw_packets (concat ys) = map raw_of ys"
proof (induction ys)
  case (Cons x ys)
  have "length x = 3" using Cons(2) by simp
  then obtain a b c where "x = [a, b, c]" by (auto simp: length_Suc_conv numeral_3_eq_3)
  then show ?case using Cons by (simp add: raw_of_def)
qed simp

lemma new_mouse_pipe: "k_fs_pipe_create k0 384 q q0 q1 q2 = (dev, k) \<Longrightarrow> pipe_holds dev []"
  by (auto simp: k_fs_pipe_create_def pipe_holds_def pipe_ok_def pipe_cap_def pipe_contents_def pipe_len_def ring_len_def ring_def)

text \<open>
  C22: Movements in, packets out. The handler of the mouse waits for a packet, its pipe is new, and then
  bytes from the mouse, reads of three bytes on a descriptor that does not block and other work of the kernel
  follow in any order. The bytes are some without the synchronisation bit and then the three of each
  movement, of at most nine signed bits per axis and with any buttons. As long as no packet arrives while 127 are unread (the queue
  \<open>packet_queue\<close> has a result), every call returns; each read gets the oldest unread packet whole, or fails
  when there is none; and the packets read and those still in the pipe are, in order, one for each movement, from which
  \<^verbatim>\<open>input_mouse_create_packet\<close> makes exactly that movement, sign-extended to 32 bits, and those buttons.
\<close>

theorem mouse_movements_arrive:
  assumes "k_fs_pipe_create k0 384 q q0 q1 q2 = (dev, k)" and "sched_inv k" and "mouse_packet_counter p = 0" and "rmd AND O_NOBLOCK \<noteq> 0"
    and "\<forall>k1. Elsewhere k1 \<in> set es \<longrightarrow> sched_inv k1" and "mouse_bytes es = junk @ concat (map wire_of ms)"
    and "\<forall>b \<in> set junk. b AND 8 = 0" and "list_all movement_ok ms" and "packet_queue [] [] es = Some (xs, unread)"
  shows "\<exists>p1 dev1. mouse_run node md rnode rmd k p dev es = Some (xs, p1, dev1) \<and> pipe_contents dev1 = concat unread \<and>
    map (\<lambda>x. input_mouse_create_packet (raw_of x)) (taken xs @ unread) = map (Some \<circ> packet_of) ms"
proof -
  have h: "half_packet p []" using assms(3) by (simp add: half_packet_def)
  obtain p1 dev1 where r: "mouse_run node md rnode rmd k p dev es = Some (xs, p1, dev1)" "pipe_holds dev1 unread"
    using mouse_run_refines [OF assms(4,9,2) h new_mouse_pipe [OF assms(1)] assms(5)] by blast
  have "concat (taken xs @ unread) = snd (run_mouse p (junk @ concat (map wire_of ms)))"
    using packet_queue_bytes [OF assms(9) h] assms(6) by simp
  then have "map input_mouse_create_packet (raw_packets (concat (taken xs @ unread))) = map (Some \<circ> packet_of) ms"
    using handler_packets [OF assms(3,7,8)] by (simp only:)
  moreover have "raw_packets (concat (taken xs @ unread)) = map raw_of (taken xs @ unread)"
    using packet_queue_sizes [OF assms(9)] by (intro raw_packets_concat) simp
  ultimately show ?thesis using r by (simp add: pipe_holds_def comp_def)
qed

definition idle_mouse :: ps2 where
  "idle_mouse = \<lparr>kbd_ext = 0, mouse_packet_counter = 0, current_mouse_packet = \<lparr>raw_data = 0, raw_mx = 0, raw_my = 0\<rparr>\<rparr>"

theorem mouse_movements_arrive_witness:
  "\<exists>dev p1 dev1. fst (k_fs_pipe_create blank_kernel 384 100 116 132 148) = dev \<and>
     mouse_run 48 64 64 64 blank_kernel idle_mouse dev ([Byte 1, Take] @ map Byte (mouse_wire (- 3) 200 1) @ [Take] @ map Byte (mouse_wire 255 (- 256) 6)) =
       Some ([None, Some (mouse_wire (- 3) 200 1)], p1, dev1) \<and> pipe_contents dev1 = mouse_wire 255 (- 256) 6"
proof -
  let ?es = "[Byte 1, Take] @ map Byte (mouse_wire (- 3) 200 1) @ [Take] @ map Byte (mouse_wire 255 (- 256) 6)"
  have new: "k_fs_pipe_create blank_kernel 384 100 116 132 148 = (fst (k_fs_pipe_create blank_kernel 384 100 116 132 148), blank_kernel)"
    by (simp add: k_fs_pipe_create_def set_queue_def blank_kernel_def fun_upd_idem)
  have b: "mouse_bytes ?es = [1] @ concat (map wire_of [(- 3, 200, 1), (255, - 256, 6)])" by (simp add: mouse_wire_def)
  have o: "\<forall>k1. Elsewhere k1 \<in> set ?es \<longrightarrow> sched_inv k1" by auto
  have i: "mouse_packet_counter idle_mouse = 0" "(64 :: u32) AND O_NOBLOCK \<noteq> 0" "\<forall>b \<in> set [1 :: u8]. b AND 8 = 0"
    "list_all movement_ok [(- 3, 200, 1), (255, - 256, 6)]" by (simp_all add: idle_mouse_def)
  have q: "packet_queue [] [] ?es = Some ([None, Some (mouse_wire (- 3) 200 1)], [mouse_wire 255 (- 256) 6])" by (simp add: mouse_wire_def)
  show ?thesis
    using mouse_movements_arrive [OF new blank_kernel_inv i(1,2) o b i(3,4) q, where node = 48 and md = 64 and rnode = 64]
    by (auto simp del: mouse_run.simps)
qed

text \<open>
  With 127 packets unread the next one is cut: its first two bytes fill the pipe, the write ends there because
  the node does not block, and the handler starts the next packet, so that from then on the reader
  gets packets that begin in the middle.
\<close>

lemma full_pipe_cuts_packet:
  assumes "sched_inv k" and "half_packet p [a, b]" and "pipe_holds dev q" and "length q = 127" and "md AND O_NOBLOCK \<noteq> 0"
  shows "\<exists>k1 p1 dev1. irq12_handler node md k p dev c = Some (k1, p1, dev1) \<and> half_packet p1 [] \<and> pipe_contents dev1 = concat q @ [a, b]"
proof -
  obtain p1 where p1: "ps2_handle_mouse p c = (p1, [a, b, c])" "half_packet p1 []" using handle_mouse_step [OF assms(2), of c] by auto
  have d: "pipe_ok dev" "pipe_cap dev = 383" "pipe_contents dev = concat q" "\<forall>x \<in> set q. length x = 3" using assms(3) by (simp_all add: pipe_holds_def)
  let ?d = "fst (pipe_write_loop dev [a, b, c])"
  have "pipe_cap dev - length (pipe_contents dev) = 2" using d(2,3) length_concat3 [OF d(4)] assms(4) by simp
  then have f: "pipe_contents ?d = concat q @ [a, b]" using pi.fill_spec [OF d(1), of "[a, b, c]"] d(3) by simp
  obtain k1 k2 where "k_proc_process_wakeup_queue k (p_wait_queue ?d) = Some k1" "pipe_notify k1 ?d node VFS_EVENT_READ = Some k2"
    using pipe_finish_ok [OF assms(1)] by blast
  then have "\<exists>r rest. pipe_write k (Some dev) node md 3 [a, b, c] = Some (r, k2, Some ?d, rest)"
    using assms(5) unfolding pipe_write_def by (simp add: split_beta Let_def)
  then show ?thesis using p1 f by (auto simp: irq12_handler_def)
qed

end
