(* ===== verification/Compose.thy ===== *)
theory Compose
  imports KList Input "HOL-Library.Monad_Syntax"
begin

text \<open>
  The window server: \<^verbatim>\<open>libs/libcompose/src\<close>, files \<^verbatim>\<open>compose.c\<close>, \<^verbatim>\<open>events.c\<close> and \<^verbatim>\<open>request.c\<close>. Windows
  and clients are objects in two stores, addressed by numbers that are never used twice; 0 is the null
  pointer. Every operation returns \<open>None\<close> when the code follows a pointer to no object, so that a result
  \<open>Some\<close> says that no null or freed pointer was used. Lists of pointers are sequences (\<open>KList\<close> shows that
  \<^verbatim>\<open>types/list.c\<close> implements them). Coordinates are 32 bit words, compared as the types of the code say.
  Events that are written to the socket of a client are recorded in order; a field that the code does not
  initialise is \<open>None\<close>. The shared memory calls for the buffers of a window are taken to succeed, and
  \<open>uuid\<close> is the name of the buffer.
\<close>

section \<open>Data\<close>

record position =
  p_x :: u32
  p_y :: u32
  p_z :: u32

record window_properties =
  wp_x :: u32
  wp_y :: u32
  wp_w :: u32
  wp_h :: u32
  wp_flags :: u32
  wp_event_mask :: u64

text \<open>The part of a buffer that server and client share.\<close>

record compose_gc =
  gc_buff_id :: nat
  gc_w :: u32
  gc_h :: u32
  gc_data_size :: u32

record window =
  w_id :: u32
  w_client :: nat
  w_parent :: nat
  w_root :: nat
  w_gc :: compose_gc
  w_old_data_size :: u32
  w_flags :: u32
  w_pos :: position
  w_layer :: u32
  w_sizes :: "u32 \<times> u32"
  w_delayed :: "u32 \<times> u32"
  w_children :: "nat list"
  w_event_mask :: u64

record client =
  cl_id :: u32
  cl_socket :: u32
  cl_ping :: u32

record grab =
  g_type :: u64
  g_client :: nat
  g_window :: nat

abbreviation (input) COMPOSE_EVENT_KEY :: u64 where "COMPOSE_EVENT_KEY \<equiv> 1"
abbreviation (input) COMPOSE_EVENT_MOUSE :: u64 where "COMPOSE_EVENT_MOUSE \<equiv> 2"
abbreviation (input) COMPOSE_EVENT_BUTTON :: u64 where "COMPOSE_EVENT_BUTTON \<equiv> 4"
abbreviation (input) COMPOSE_EVENT_RESIZE :: u64 where "COMPOSE_EVENT_RESIZE \<equiv> 8"
abbreviation (input) COMPOSE_EVENT_MOVE :: u64 where "COMPOSE_EVENT_MOVE \<equiv> 16"
abbreviation (input) COMPOSE_EVENT_WIN :: u64 where "COMPOSE_EVENT_WIN \<equiv> 32"
abbreviation (input) COMPOSE_EVENT_CNN :: u64 where "COMPOSE_EVENT_CNN \<equiv> 64"
abbreviation (input) COMPOSE_EVENT_FOCUS :: u64 where "COMPOSE_EVENT_FOCUS \<equiv> 128"
abbreviation (input) COMPOSE_EVENT_UNFOCUS :: u64 where "COMPOSE_EVENT_UNFOCUS \<equiv> 256"
abbreviation (input) COMPOSE_EVENT_PROPS :: u64 where "COMPOSE_EVENT_PROPS \<equiv> 512"
abbreviation (input) COMPOSE_EVENT_KEEPALIVE :: u64 where "COMPOSE_EVENT_KEEPALIVE \<equiv> 1024"

datatype payload =
    NoPayload
  | Connected u32
  | KeyInput keyboard_packet "int option" u8
  | MouseInput mouse_packet u32 u32 u32 u32
  | Moved position position
  | Resized "u32 \<times> u32" "u32 \<times> u32"
  | Properties window_properties

record event =
  ev_type :: u64
  ev_size :: u32
  ev_win :: "u32 option"
  ev_child :: "u32 option"
  ev_root :: "u32 option"
  ev_payload :: payload

text \<open>The server with its static variables, the two stores, and what it wrote to and closed of its sockets.\<close>

record server =
  sv_client_id :: u32
  sv_window_id :: u32
  sv_fb_w :: u32
  sv_fb_h :: u32
  sv_root :: nat
  sv_overlay :: nat
  sv_clients :: "nat list"
  sv_remove_queue :: "nat list"
  sv_windows :: "nat list"
  sv_grabs :: "grab list"
  mouse_x :: u32
  mouse_y :: u32
  last_buttons :: u8
  input_focus :: nat
  kbd_mods :: u8
  windows :: "nat \<rightharpoonup> window"
  clients :: "nat \<rightharpoonup> client"
  brk :: nat
  sent :: "(u32 \<times> event) list"
  closed :: "u32 list"

section \<open>Stores\<close>

definition set_window :: "nat \<Rightarrow> window \<Rightarrow> server \<Rightarrow> server" where
  "set_window a w s = s\<lparr>windows := (windows s)(a \<mapsto> w)\<rparr>"

text \<open>A loop over a list of pointers that changes the state, and a search for the first object that fits.\<close>

primrec for_each :: "('a \<Rightarrow> 's \<Rightarrow> 's option) \<Rightarrow> 'a list \<Rightarrow> 's \<Rightarrow> 's option" where
  "for_each f [] s = Some s"
| "for_each f (x # xs) s = do { s1 \<leftarrow> f x s; for_each f xs s1 }"

primrec find_object :: "(nat \<rightharpoonup> 'b) \<Rightarrow> ('b \<Rightarrow> bool) \<Rightarrow> nat list \<Rightarrow> nat option" where
  "find_object st P [] = Some 0"
| "find_object st P (a # as) = do { x \<leftarrow> st a; if P x then Some a else find_object st P as }"

section \<open>Sending events\<close>

definition compose_sv_event_send :: "nat \<Rightarrow> event \<Rightarrow> server \<Rightarrow> server option" where
  "compose_sv_event_send c ev s = do { cl \<leftarrow> clients s c; Some (s\<lparr>sent := sent s @ [(cl_socket cl, ev)]\<rparr>) }"

definition compose_sv_event_send_to_all :: "event \<Rightarrow> server \<Rightarrow> server option" where
  "compose_sv_event_send_to_all ev s = for_each (\<lambda>c. compose_sv_event_send c ev) (sv_clients s) s"

text \<open>The first grab of the type on the window: \<open>Some None\<close> when there is none.\<close>

primrec get_grab :: "(nat \<rightharpoonup> window) \<Rightarrow> u32 \<Rightarrow> u64 \<Rightarrow> grab list \<Rightarrow> grab option option" where
  "get_grab st wid ty [] = Some None"
| "get_grab st wid ty (g # gs) =
     (if g_type g AND ty \<noteq> 0
      then do { w \<leftarrow> st (g_window g); if w_id w = wid then Some (Some g) else get_grab st wid ty gs }
      else get_grab st wid ty gs)"

text \<open>What one window does with an event on its way to the root; the event is changed in place.\<close>

definition deliver :: "window \<Rightarrow> event \<Rightarrow> server \<Rightarrow> (server \<times> event) option" where
  "deliver w ev s = do {
     gr \<leftarrow> get_grab (windows s) (w_id w) (ev_type ev) (sv_grabs s);
     if w_event_mask w AND ev_type ev \<noteq> 0 \<or> gr \<noteq> None
     then do {
       let ev1 = ev\<lparr>ev_win := Some (w_id w)\<rparr>;
       s1 \<leftarrow> (if w_event_mask w AND ev_type ev \<noteq> 0 \<and> w_client w \<noteq> 0 then compose_sv_event_send (w_client w) ev1 s else Some s);
       s2 \<leftarrow> (case gr of None \<Rightarrow> Some s1 | Some g \<Rightarrow> compose_sv_event_send (g_client g) ev1 s1);
       Some (s2, ev1) }
     else Some (s, ev) }"

partial_function (option) compose_sv_event_propagate :: "nat \<Rightarrow> event \<Rightarrow> server \<Rightarrow> (server \<times> event) option" where
  "compose_sv_event_propagate a ev s = do {
     w \<leftarrow> windows s a;
     (s1, ev1) \<leftarrow> deliver w ev s;
     if w_parent w \<noteq> 0 then compose_sv_event_propagate (w_parent w) (ev1\<lparr>ev_child := Some (w_id w)\<rparr>) s1
     else Some (s1, ev1) }"

section \<open>Clients\<close>

definition compose_create_client :: "u32 \<Rightarrow> u32 \<Rightarrow> client" where
  "compose_create_client sock now = \<lparr>cl_id = 0, cl_socket = sock, cl_ping = now\<rparr>"

definition compose_get_client :: "u32 \<Rightarrow> server \<Rightarrow> nat option" where
  "compose_get_client sock s = find_object (clients s) (\<lambda>c. cl_socket c = sock) (sv_clients s)"

definition compose_add_client :: "u32 \<Rightarrow> u32 \<Rightarrow> server \<Rightarrow> (nat \<times> server) option" where
  "compose_add_client fd now s = do {
     old \<leftarrow> compose_get_client fd s;
     if old \<noteq> 0 then Some (0, s)
     else let a = brk s; n = sv_client_id s + 1
          in Some (a, s\<lparr>sv_client_id := n, brk := Suc a, clients := (clients s)(a \<mapsto> compose_create_client fd now\<lparr>cl_id := n\<rparr>),
                        sv_clients := sv_clients s @ [a]\<rparr>) }"

definition compose_remove_client :: "nat \<Rightarrow> server \<Rightarrow> server" where
  "compose_remove_client c s = s\<lparr>sv_clients := remove1 c (sv_clients s)\<rparr>"

definition compose_sv_get_client :: "u32 \<Rightarrow> server \<Rightarrow> nat option" where
  "compose_sv_get_client cid s = find_object (clients s) (\<lambda>c. cl_id c = cid) (sv_clients s)"

definition compose_sv_get_window :: "u32 \<Rightarrow> server \<Rightarrow> nat option" where
  "compose_sv_get_window wid s = find_object (windows s) (\<lambda>w. w_id w = wid) (sv_windows s)"
section \<open>Keyboard, mouse and focus\<close>

text \<open>Signed comparisons of coordinates.\<close>

abbreviation (input) sless :: "u32 \<Rightarrow> u32 \<Rightarrow> bool" where "sless a b \<equiv> sint a < sint b"

text \<open>The position is signed, the size of the screen is not: the last two comparisons are unsigned.\<close>

definition compose_update_mouse :: "u32 \<Rightarrow> u32 \<Rightarrow> server \<Rightarrow> server" where
  "compose_update_mouse dx dy s =
     (let x = mouse_x s + dx; y = mouse_y s - dy;
          x1 = (if sless x 0 then 0 else x);
          y1 = (if sless y 0 then 0 else y);
          x2 = (if x1 \<ge> sv_fb_w s then sv_fb_w s - 4 else x1);
          y2 = (if y1 \<ge> sv_fb_h s then sv_fb_h s - 4 else y1)
      in s\<lparr>mouse_x := x2, mouse_y := y2\<rparr>)"

abbreviation (input) KEY_LEFTCTRL :: int where "KEY_LEFTCTRL \<equiv> 29"
abbreviation (input) KEY_LEFTSHIFT :: int where "KEY_LEFTSHIFT \<equiv> 42"
abbreviation (input) KEY_RIGHTSHIFT :: int where "KEY_RIGHTSHIFT \<equiv> 54"
abbreviation (input) KEY_LEFTALT :: int where "KEY_LEFTALT \<equiv> 56"
abbreviation (input) KEY_CAPSLOCK :: int where "KEY_CAPSLOCK \<equiv> 58"
abbreviation (input) KEY_RIGHTCTRL :: int where "KEY_RIGHTCTRL \<equiv> 97"
abbreviation (input) KEY_RIGHTALT :: int where "KEY_RIGHTALT \<equiv> 100"

definition kbd_modifier :: "keyboard_packet \<Rightarrow> u8 \<Rightarrow> u8" where
  "kbd_modifier k md =
     (let up = (kp_flags k AND KBD_EVENT_FLAG_UP \<noteq> 0); c = kp_scancode k
      in if c = KEY_LEFTSHIFT \<or> c = KEY_RIGHTSHIFT then hold_modifier up md KBD_MOD_SHIFT
         else if c = KEY_LEFTALT \<or> c = KEY_RIGHTALT then hold_modifier up md KBD_MOD_ALT
         else if c = KEY_LEFTCTRL \<or> c = KEY_RIGHTCTRL then hold_modifier up md KBD_MOD_CTRL
         else if c = KEY_CAPSLOCK \<and> \<not> up then if md AND KBD_MOD_CAPS \<noteq> 0 then md AND NOT KBD_MOD_CAPS else md OR KBD_MOD_CAPS
         else md)"

text \<open>The number that an event gives as the root: that of the root window, or a default when there is none.\<close>

definition root_id :: "window \<Rightarrow> u32 \<Rightarrow> server \<Rightarrow> u32 option" where
  "root_id w d s = (if w_root w \<noteq> 0 then do { r \<leftarrow> windows s (w_root w); Some (w_id r) } else Some d)"

definition compose_handle_key :: "keyboard_packet \<Rightarrow> server \<Rightarrow> server option" where
  "compose_handle_key k s =
     (if input_focus s = 0 then Some s
      else do {
        w \<leftarrow> windows s (input_focus s);
        r \<leftarrow> root_id w (w_id w) s;
        let md = kbd_modifier k (kbd_mods s);
        tr \<leftarrow> (if kp_flags k AND KBD_EVENT_FLAG_EXT = 0 then do { c \<leftarrow> input_kbd_translate (kp_scancode k) md; Some (Some c) } else Some None);
        (s1, ev) \<leftarrow> compose_sv_event_propagate (input_focus s)
          \<lparr>ev_type = COMPOSE_EVENT_KEY, ev_size = 36, ev_win = Some (w_id w), ev_child = None, ev_root = Some r, ev_payload = KeyInput k tr md\<rparr>
          (s\<lparr>kbd_mods := md\<rparr>);
        Some s1 })"

definition focus_event :: "u64 \<Rightarrow> window \<Rightarrow> u32 \<Rightarrow> event" where
  "focus_event ty w r = \<lparr>ev_type = ty, ev_size = 24, ev_win = Some (w_id w), ev_child = None, ev_root = Some r, ev_payload = NoPayload\<rparr>"

definition send_focus :: "u64 \<Rightarrow> nat \<Rightarrow> server \<Rightarrow> server option" where
  "send_focus ty a s = do {
     w \<leftarrow> windows s a;
     r \<leftarrow> root_id w 1 s;
     (s1, ev) \<leftarrow> compose_sv_event_propagate a (focus_event ty w r) s;
     Some s1 }"

definition compose_sv_focus :: "nat \<Rightarrow> server \<Rightarrow> server option" where
  "compose_sv_focus win s = do {
     s1 \<leftarrow> (if input_focus s \<noteq> 0 then send_focus COMPOSE_EVENT_UNFOCUS (input_focus s) s else Some s);
     let win1 = (if win = 0 then sv_root s1 else win);
     let s2 = s1\<lparr>input_focus := win1\<rparr>;
     if win1 \<noteq> 0 then send_focus COMPOSE_EVENT_FOCUS win1 s2 else Some s2 }"

section \<open>Places of windows\<close>

text \<open>The sum of the positions of a window and of the windows that contain it.\<close>

partial_function (option) window_origin :: "nat \<Rightarrow> u32 \<Rightarrow> u32 \<Rightarrow> server \<Rightarrow> (u32 \<times> u32) option" where
  "window_origin a ox oy s = do {
     w \<leftarrow> windows s a;
     if w_parent w \<noteq> 0
     then do {
       par \<leftarrow> windows s (w_parent w);
       window_origin (w_parent w) (ox + p_x (w_pos par)) (oy + p_y (w_pos par)) s }
     else Some (ox, oy) }"

definition compose_sv_translate_local :: "nat \<Rightarrow> u32 \<Rightarrow> u32 \<Rightarrow> server \<Rightarrow> (u32 \<times> u32) option" where
  "compose_sv_translate_local a sx sy s = do {
     w \<leftarrow> windows s a;
     (ox, oy) \<leftarrow> window_origin a (p_x (w_pos w)) (p_y (w_pos w)) s;
     Some (sx - ox, sy - oy) }"

definition compose_sv_translate_abs :: "nat \<Rightarrow> u32 \<Rightarrow> u32 \<Rightarrow> server \<Rightarrow> (u32 \<times> u32) option" where
  "compose_sv_translate_abs a x y s = do {
     w \<leftarrow> windows s a;
     (ox, oy) \<leftarrow> window_origin a (p_x (w_pos w)) (p_y (w_pos w)) s;
     Some (x + ox, y + oy) }"

text \<open>The right and lower borders are computed in \<^verbatim>\<open>size_t\<close>, so those comparisons are unsigned.\<close>

definition window_hit :: "u32 \<Rightarrow> u32 \<Rightarrow> u32 \<times> u32 \<Rightarrow> window \<Rightarrow> bool" where
  "window_hit x y org w =
     (\<not> sless x (fst org) \<and> \<not> sless y (snd org) \<and> x \<le> fst org + fst (w_sizes w) \<and> y \<le> snd org + snd (w_sizes w))"

primrec window_at :: "u32 \<Rightarrow> u32 \<Rightarrow> server \<Rightarrow> nat list \<Rightarrow> nat option" where
  "window_at x y s [] = Some 0"
| "window_at x y s (a # as) =
     (if a = sv_overlay s then window_at x y s as
      else do {
        org \<leftarrow> compose_sv_translate_abs a 0 0 s;
        w \<leftarrow> windows s a;
        if window_hit x y org w then Some a else window_at x y s as })"

definition compose_sv_get_window_at :: "u32 \<Rightarrow> u32 \<Rightarrow> server \<Rightarrow> nat option" where
  "compose_sv_get_window_at x y s = window_at x y s (rev (sv_windows s))"

definition compose_handle_mouse :: "mouse_packet \<Rightarrow> server \<Rightarrow> server option" where
  "compose_handle_mouse p s = do {
     let s1 = compose_update_mouse (mp_dx p) (mp_dy p) s;
     let rdx = mouse_x s1 - mouse_x s;
     let rdy = mouse_y s - mouse_y s1;
     win \<leftarrow> compose_sv_get_window_at (mouse_x s1) (mouse_y s1) s1;
     w \<leftarrow> windows s1 win;
     root \<leftarrow> windows s1 (sv_root s1);
     (lx, ly) \<leftarrow> compose_sv_translate_local win (mouse_x s1) (mouse_y s1) s1;
     let p1 = p\<lparr>mp_dx := rdx, mp_dy := rdy\<rparr>;
     let ev = \<lparr>ev_type = 0, ev_size = 52, ev_win = Some (w_id w), ev_child = None, ev_root = Some (w_id root),
               ev_payload = MouseInput p1 lx ly (mouse_x s1) (mouse_y s1)\<rparr>;
     (s2, ev2) \<leftarrow> (if rdx \<noteq> 0 \<or> rdy \<noteq> 0 then compose_sv_event_propagate win (ev\<lparr>ev_type := COMPOSE_EVENT_MOUSE\<rparr>) s1 else Some (s1, ev));
     (s3, ev3) \<leftarrow> (if mp_buttons p \<noteq> last_buttons s2 then compose_sv_event_propagate win (ev2\<lparr>ev_type := COMPOSE_EVENT_BUTTON\<rparr>) s2 else Some (s2, ev2));
     Some (s3\<lparr>last_buttons := mp_buttons p\<rparr>) }"

partial_function (option) compose_sv_is_child :: "nat \<Rightarrow> nat \<Rightarrow> server \<Rightarrow> bool option" where
  "compose_sv_is_child a par s =
     (if a = 0 then Some False
      else do { w \<leftarrow> windows s a; if w_parent w = par then Some True else compose_sv_is_child (w_parent w) par s })"

section \<open>Stacking\<close>

definition z_above :: "server \<Rightarrow> nat \<Rightarrow> nat \<Rightarrow> bool" where
  "z_above s a b = sless (p_z (w_pos (the (windows s b)))) (p_z (w_pos (the (windows s a))))"

definition sort_windows :: "(nat \<Rightarrow> nat \<Rightarrow> bool) \<Rightarrow> server \<Rightarrow> nat list \<Rightarrow> nat list option" where
  "sort_windows P s as = (if list_all (\<lambda>a. windows s a \<noteq> None) as then Some (sort_seq P as) else None)"

text \<open>The children of a window are sorted, then those of each child; \<open>n\<close> bounds the depth.\<close>

primrec compose_sv_restack :: "nat \<Rightarrow> nat \<Rightarrow> server \<Rightarrow> server option" where
  "compose_sv_restack 0 a s = None"
| "compose_sv_restack (Suc n) a s = do {
     w \<leftarrow> windows s a;
     cs \<leftarrow> sort_windows (z_above s) s (w_children w);
     for_each (compose_sv_restack n) cs (set_window a (w\<lparr>w_children := cs\<rparr>) s) }"

definition layer_above :: "server \<Rightarrow> nat \<Rightarrow> nat \<Rightarrow> bool" where
  "layer_above s a b =
     (let u = the (windows s a); v = the (windows s b)
      in if w_layer u = w_layer v then z_above s a b else sless (w_layer v) (w_layer u))"

abbreviation (input) COMPOSE_MOVE_X :: u8 where "COMPOSE_MOVE_X \<equiv> 1"
abbreviation (input) COMPOSE_MOVE_Y :: u8 where "COMPOSE_MOVE_Y \<equiv> 2"
abbreviation (input) COMPOSE_MOVE_Z :: u8 where "COMPOSE_MOVE_Z \<equiv> 4"
abbreviation (input) COMPOSE_MOVE_RAISE :: u8 where "COMPOSE_MOVE_RAISE \<equiv> 8"
abbreviation (input) COMPOSE_MOVE_SUNK :: u8 where "COMPOSE_MOVE_SUNK \<equiv> 16"

text \<open>The three assignments at the start of \<^verbatim>\<open>compose_sv_move\<close>, with the restacking after the last.\<close>

definition move_window :: "nat \<Rightarrow> position \<Rightarrow> u8 \<Rightarrow> server \<Rightarrow> server option" where
  "move_window a new fl s = do {
     w \<leftarrow> windows s a;
     let pos = w_pos w;
     let pos1 = (if fl AND COMPOSE_MOVE_X \<noteq> 0 then pos\<lparr>p_x := p_x new\<rparr> else pos);
     let pos2 = (if fl AND COMPOSE_MOVE_Y \<noteq> 0 then pos1\<lparr>p_y := p_y new\<rparr> else pos1);
     let pos3 = (if fl AND COMPOSE_MOVE_Z \<noteq> 0 then pos2\<lparr>p_z := p_z new\<rparr> else pos2);
     let s1 = set_window a (w\<lparr>w_pos := pos3\<rparr>) s;
     if fl AND COMPOSE_MOVE_Z \<noteq> 0 \<and> w_parent w \<noteq> 0 then compose_sv_restack (brk s) (w_parent w) s1 else Some s1 }"

definition notify_move :: "nat \<Rightarrow> position \<Rightarrow> server \<Rightarrow> server option" where
  "notify_move a old s = do {
     w \<leftarrow> windows s a;
     if w_client w \<noteq> 0
     then compose_sv_event_send (w_client w)
       \<lparr>ev_type = COMPOSE_EVENT_MOVE, ev_size = 48, ev_win = Some (w_id w), ev_child = None, ev_root = None, ev_payload = Moved old (w_pos w)\<rparr> s
     else Some s }"

lemma mask_raise: "(m :: u8) AND 8 \<noteq> 0 \<Longrightarrow> m AND 24 \<noteq> 0" "(m :: u8) AND 16 \<noteq> 0 \<Longrightarrow> m AND 24 \<noteq> 0"
proof -
  have "(m AND 24) AND 8 = m AND 8" "(m AND 24) AND 16 = m AND 16" by (simp_all add: and.assoc)
  then show "m AND 8 \<noteq> 0 \<Longrightarrow> m AND 24 \<noteq> 0" "m AND 16 \<noteq> 0 \<Longrightarrow> m AND 24 \<noteq> 0" by auto
qed

text \<open>
  Moving and raising call each other, but raising moves along the third axis only. Lowering a window by the
  flag of a request raises it.
\<close>

function compose_sv_move :: "nat \<Rightarrow> position \<Rightarrow> u8 \<Rightarrow> server \<Rightarrow> server option"
  and compose_sv_raise :: "nat \<Rightarrow> server \<Rightarrow> server option" where
  "compose_sv_move a new fl s = do {
     w \<leftarrow> windows s a;
     if w_pos w = new then Some s
     else do {
       s1 \<leftarrow> move_window a new fl s;
       s2 \<leftarrow> (if fl AND COMPOSE_MOVE_RAISE \<noteq> 0 then compose_sv_raise a s1 else Some s1);
       s3 \<leftarrow> (if fl AND COMPOSE_MOVE_SUNK \<noteq> 0 then compose_sv_raise a s2 else Some s2);
       notify_move a (w_pos w) s3 } }"
| "compose_sv_raise a s = do {
     w \<leftarrow> windows s a;
     if w_parent w = 0 then Some s
     else do {
       par \<leftarrow> windows s (w_parent w);
       let top = (if w_children par = [] then 0 else last (w_children par));
       if top = a then Some s
       else do {
         t \<leftarrow> windows s top;
         compose_sv_move a ((w_pos w)\<lparr>p_z := p_z (w_pos t) + 1\<rparr>) COMPOSE_MOVE_Z s } } }"
  by pat_completeness auto

termination
  by (relation "measure (\<lambda>x. case x of Inl (a, new, fl, s) \<Rightarrow> (if fl AND 24 = 0 then 0 else 2) | Inr _ \<Rightarrow> 1)")
    (auto dest: mask_raise)

definition compose_sv_sunk :: "nat \<Rightarrow> server \<Rightarrow> server option" where
  "compose_sv_sunk a s = do {
     w \<leftarrow> windows s a;
     if w_parent w = 0 then Some s
     else do {
       par \<leftarrow> windows s (w_parent w);
       t \<leftarrow> windows s (if w_children par = [] then 0 else hd (w_children par));
       compose_sv_move a ((w_pos w)\<lparr>p_z := p_z (w_pos t) - 1\<rparr>) COMPOSE_MOVE_Z s } }"
section \<open>Resizing\<close>

abbreviation (input) COMPOSE_WIN_FLAGS_IN_RESIZE :: u32 where "COMPOSE_WIN_FLAGS_IN_RESIZE \<equiv> 4"
abbreviation (input) COMPOSE_WIN_FLAGS_HAS_DELAYED_RESIZE :: u32 where "COMPOSE_WIN_FLAGS_HAS_DELAYED_RESIZE \<equiv> 8"

definition compose_sv_start_resize :: "nat \<Rightarrow> u32 \<times> u32 \<Rightarrow> server \<Rightarrow> server option" where
  "compose_sv_start_resize a wh s = do {
     w \<leftarrow> windows s a;
     if w_flags w AND COMPOSE_WIN_FLAGS_IN_RESIZE \<noteq> 0
     then Some (set_window a (w\<lparr>w_delayed := wh, w_flags := w_flags w OR COMPOSE_WIN_FLAGS_HAS_DELAYED_RESIZE\<rparr>) s)
     else if w_sizes w = wh then Some s
     else do {
       let s1 = set_window a (w\<lparr>w_flags := w_flags w OR COMPOSE_WIN_FLAGS_IN_RESIZE\<rparr>) s;
       if w_client w \<noteq> 0
       then compose_sv_event_send (w_client w)
         \<lparr>ev_type = COMPOSE_EVENT_RESIZE, ev_size = 44, ev_win = Some (w_id w), ev_child = None, ev_root = None, ev_payload = Resized (w_sizes w) wh\<rparr> s1
       else Some s1 } }"

definition compose_sv_apply_size :: "nat \<Rightarrow> server \<Rightarrow> server option" where
  "compose_sv_apply_size a s = do {
     w \<leftarrow> windows s a;
     if w_flags w AND COMPOSE_WIN_FLAGS_IN_RESIZE = 0 then Some s
     else do {
       let w1 = w\<lparr>w_old_data_size := gc_data_size (w_gc w), w_sizes := (gc_w (w_gc w), gc_h (w_gc w)),
                  w_flags := w_flags w AND NOT COMPOSE_WIN_FLAGS_IN_RESIZE\<rparr>;
       if w_flags w1 AND COMPOSE_WIN_FLAGS_HAS_DELAYED_RESIZE \<noteq> 0
       then compose_sv_start_resize a (w_delayed w1) (set_window a (w1\<lparr>w_flags := w_flags w1 AND NOT COMPOSE_WIN_FLAGS_HAS_DELAYED_RESIZE\<rparr>) s)
       else Some (set_window a w1 s) } }"

text \<open>The client's side of a change of size: it writes the shared part of the buffer.\<close>

definition compose_cl_resize_gc :: "nat \<Rightarrow> u32 \<times> u32 \<Rightarrow> compose_gc \<Rightarrow> compose_gc" where
  "compose_cl_resize_gc uuid wh gc = gc\<lparr>gc_w := fst wh, gc_h := snd wh, gc_data_size := fst wh * snd wh * 4, gc_buff_id := uuid\<rparr>"

section \<open>Creating and removing windows\<close>

definition new_window :: "u32 \<Rightarrow> nat \<Rightarrow> nat \<Rightarrow> nat \<Rightarrow> u32 \<Rightarrow> window_properties \<Rightarrow> nat \<Rightarrow> window" where
  "new_window n root cl par layer props uuid =
     \<lparr>w_id = n, w_client = cl, w_parent = par, w_root = root,
      w_gc = \<lparr>gc_buff_id = uuid, gc_w = wp_w props, gc_h = wp_h props, gc_data_size = wp_w props * wp_h props * 4\<rparr>,
      w_old_data_size = wp_w props * wp_h props * 4, w_flags = wp_flags props,
      w_pos = \<lparr>p_x = wp_x props, p_y = wp_y props, p_z = 0\<rparr>, w_layer = layer,
      w_sizes = (wp_w props, wp_h props), w_delayed = (0, 0), w_children = [], w_event_mask = wp_event_mask props\<rparr>"

definition add_child :: "nat \<Rightarrow> nat \<Rightarrow> server \<Rightarrow> server option" where
  "add_child par a s =
     (if par = 0 then Some s
      else do {
        p \<leftarrow> windows s par;
        compose_sv_restack (brk s) par (set_window par (p\<lparr>w_children := w_children p @ [a]\<rparr>) s) })"

definition announce_window :: "nat \<Rightarrow> nat \<Rightarrow> server \<Rightarrow> server option" where
  "announce_window cl a s =
     (if cl = 0 then Some s
      else do {
        w \<leftarrow> windows s a;
        r \<leftarrow> windows s (w_root w);
        let ev = \<lparr>ev_type = COMPOSE_EVENT_WIN, ev_size = 24, ev_win = Some (w_id w), ev_child = Some 0, ev_root = Some (w_id r), ev_payload = NoPayload\<rparr>;
        s1 \<leftarrow> compose_sv_event_send cl ev s;
        (s2, ev2) \<leftarrow> compose_sv_event_propagate a ev s1;
        Some s2 })"

definition compose_sv_create_window :: "nat \<Rightarrow> nat \<Rightarrow> window_properties \<Rightarrow> nat \<Rightarrow> server \<Rightarrow> (nat \<times> server) option" where
  "compose_sv_create_window cl par props uuid s = do {
     let a = brk s;
     let n = sv_window_id s + 1;
     layer \<leftarrow> (if par \<noteq> 0 then do { p \<leftarrow> windows s par; Some (w_layer p + 1) } else Some 0);
     let s1 = set_window a (new_window n (sv_root s) cl par layer props uuid)
                (s\<lparr>brk := Suc a, sv_window_id := n, sv_windows := sv_windows s @ [a]\<rparr>);
     s2 \<leftarrow> add_child par a s1;
     ws \<leftarrow> sort_windows (layer_above s2) s2 (sv_windows s2);
     s3 \<leftarrow> announce_window cl a (s2\<lparr>sv_windows := ws\<rparr>);
     s4 \<leftarrow> compose_sv_focus a s3;
     Some (a, s4) }"

definition delete_from_parent :: "nat \<Rightarrow> nat \<Rightarrow> server \<Rightarrow> server option" where
  "delete_from_parent par a s = do {
     p \<leftarrow> windows s par;
     Some (set_window par (p\<lparr>w_children := remove1 a (w_children p)\<rparr>) s) }"

definition forget_focus :: "nat \<Rightarrow> server \<Rightarrow> server" where
  "forget_focus a s = (if input_focus s = a then s\<lparr>input_focus := 0\<rparr> else s)"

text \<open>The children are removed first, without being taken from the list of their parent; \<open>n\<close> bounds the depth.\<close>

primrec compose_sv_remove_window :: "nat \<Rightarrow> nat \<Rightarrow> bool \<Rightarrow> server \<Rightarrow> server option" where
  "compose_sv_remove_window 0 a notify s = None"
| "compose_sv_remove_window (Suc n) a notify s = do {
     w \<leftarrow> windows s a;
     s1 \<leftarrow> for_each (\<lambda>c. compose_sv_remove_window n c False) (w_children w) (forget_focus a s);
     s2 \<leftarrow> (if notify \<and> w_parent w \<noteq> 0 then delete_from_parent (w_parent w) a s1 else Some s1);
     Some (s2\<lparr>sv_windows := remove1 a (sv_windows s2), sv_grabs := filter (\<lambda>g. g_window g \<noteq> a) (sv_grabs s2),
              windows := (windows s2)(a := None)\<rparr>) }"

text \<open>The windows that are removed with a client: those of its own that lie in the root window or nowhere.\<close>

definition client_windows :: "nat \<Rightarrow> server \<Rightarrow> nat list option" where
  "client_windows c s =
     (if list_all (\<lambda>a. windows s a \<noteq> None) (sv_windows s)
      then Some (filter (\<lambda>a. let w = the (windows s a) in w_client w = c \<and> (w_parent w = 0 \<or> w_parent w = sv_root s)) (sv_windows s))
      else None)"

definition compose_sv_disconnect :: "nat \<Rightarrow> server \<Rightarrow> server option" where
  "compose_sv_disconnect c s = do {
     let s1 = compose_remove_client c s;
     ws \<leftarrow> client_windows c s1;
     s2 \<leftarrow> for_each (\<lambda>a. compose_sv_remove_window (brk s) a True) ws s1;
     cl \<leftarrow> clients s2 c;
     Some (s2\<lparr>sv_grabs := filter (\<lambda>g. g_client g \<noteq> c) (sv_grabs s2), closed := closed s2 @ [cl_socket cl],
              clients := (clients s2)(c := None)\<rparr>) }"

definition compose_sv_send_props :: "nat \<Rightarrow> nat \<Rightarrow> server \<Rightarrow> server option" where
  "compose_sv_send_props c a s = do {
     w \<leftarrow> windows s a;
     r \<leftarrow> root_id w (w_id w) s;
     compose_sv_event_send c
       \<lparr>ev_type = COMPOSE_EVENT_PROPS, ev_size = 52, ev_win = Some (w_id w), ev_child = None, ev_root = Some r,
        ev_payload = Properties \<lparr>wp_x = p_x (w_pos w), wp_y = p_y (w_pos w), wp_w = fst (w_sizes w), wp_h = snd (w_sizes w),
          wp_flags = w_flags w, wp_event_mask = w_event_mask w\<rparr>\<rparr> s }"

text \<open>\<open>gone\<close> says of which sockets the other end is closed, so that writing fails with \<^verbatim>\<open>ENOTCONN\<close>.\<close>

definition compose_sv_send_keepalive :: "(u32 \<Rightarrow> bool) \<Rightarrow> server \<Rightarrow> server option" where
  "compose_sv_send_keepalive gone s = do {
     s1 \<leftarrow> compose_sv_event_send_to_all
       \<lparr>ev_type = COMPOSE_EVENT_KEEPALIVE, ev_size = 24, ev_win = Some 0, ev_child = Some 0, ev_root = Some 0, ev_payload = NoPayload\<rparr> s;
     for_each compose_sv_disconnect (filter (\<lambda>c. gone (cl_socket (the (clients s1 c)))) (sv_clients s1)) s1 }"

section \<open>Requests\<close>

text \<open>A resize request that confirms a new size leaves the size itself uninitialised.\<close>

datatype request =
    ReqMove u32 u8 position
  | ReqResize u32 u8 "(u32 \<times> u32) option"
  | ReqEvent u32 event
  | ReqNewwin u32 window_properties
  | ReqFlush u32
  | ReqEvmask u32 u64
  | ReqGrab u32 u64
  | ReqFocus u32
  | ReqDisconnect
  | ReqProps u32
  | ReqKeepalive

abbreviation (input) COMPOSE_RESIZE_STAGE_INITIAL :: u8 where "COMPOSE_RESIZE_STAGE_INITIAL \<equiv> 1"
abbreviation (input) COMPOSE_RESIZE_STAGE_FINAL :: u8 where "COMPOSE_RESIZE_STAGE_FINAL \<equiv> 2"

fun compose_sv_handle_request :: "u32 \<Rightarrow> nat \<Rightarrow> nat \<Rightarrow> request \<Rightarrow> server \<Rightarrow> server option" where
  "compose_sv_handle_request now uuid c (ReqMove wid fl pos) s = do {
     a \<leftarrow> compose_sv_get_window wid s;
     if a = 0 then Some s else compose_sv_move a pos fl s }"
| "compose_sv_handle_request now uuid c (ReqResize wid stage wh) s = do {
     a \<leftarrow> compose_sv_get_window wid s;
     if a = 0 then Some s
     else if stage = COMPOSE_RESIZE_STAGE_INITIAL then do { x \<leftarrow> wh; compose_sv_start_resize a x s }
     else compose_sv_apply_size a s }"
| "compose_sv_handle_request now uuid c (ReqEvent target ev) s =
     (if target = 0 then compose_sv_event_send_to_all ev s
      else do {
        t \<leftarrow> compose_sv_get_client target s;
        if t = 0 then Some s else compose_sv_event_send t ev s })"
| "compose_sv_handle_request now uuid c (ReqNewwin par props) s = do {
     a \<leftarrow> compose_sv_get_window par s;
     (w, s1) \<leftarrow> compose_sv_create_window c a props uuid s;
     Some s1 }"
| "compose_sv_handle_request now uuid c (ReqFlush wid) s = Some s"
| "compose_sv_handle_request now uuid c (ReqEvmask wid em) s = do {
     a \<leftarrow> compose_sv_get_window wid s;
     if a = 0 then Some s else do { w \<leftarrow> windows s a; Some (set_window a (w\<lparr>w_event_mask := em\<rparr>) s) } }"
| "compose_sv_handle_request now uuid c (ReqGrab wid ty) s = do {
     a \<leftarrow> compose_sv_get_window wid s;
     Some (s\<lparr>sv_grabs := sv_grabs s @ [\<lparr>g_type = ty, g_client = c, g_window = a\<rparr>]\<rparr>) }"
| "compose_sv_handle_request now uuid c (ReqFocus wid) s = do {
     a \<leftarrow> compose_sv_get_window wid s;
     compose_sv_focus a s }"
| "compose_sv_handle_request now uuid c ReqDisconnect s = Some (s\<lparr>sv_remove_queue := sv_remove_queue s @ [c]\<rparr>)"
| "compose_sv_handle_request now uuid c (ReqProps wid) s = do {
     a \<leftarrow> compose_sv_get_window wid s;
     compose_sv_send_props c a s }"
| "compose_sv_handle_request now uuid c ReqKeepalive s = do {
     cl \<leftarrow> clients s c;
     Some (s\<lparr>clients := (clients s)(c \<mapsto> cl\<lparr>cl_ping := now\<rparr>)\<rparr>) }"

section \<open>The loop of the server\<close>

definition initial_server :: "u32 \<Rightarrow> u32 \<Rightarrow> server" where
  "initial_server w h =
     \<lparr>sv_client_id = 0, sv_window_id = 0, sv_fb_w = w, sv_fb_h = h, sv_root = 0, sv_overlay = 0, sv_clients = [],
      sv_remove_queue = [], sv_windows = [], sv_grabs = [], mouse_x = 0, mouse_y = 0, last_buttons = 0, input_focus = 0,
      kbd_mods = 0, windows = Map.empty, clients = Map.empty, brk = 1, sent = [], closed = []\<rparr>"

definition compose_sv_create :: "u32 \<Rightarrow> u32 \<Rightarrow> nat \<Rightarrow> nat \<Rightarrow> server option" where
  "compose_sv_create w h u1 u2 = do {
     let props = \<lparr>wp_x = 0, wp_y = 0, wp_w = w, wp_h = h, wp_flags = 0, wp_event_mask = 0\<rparr>;
     (r, s1) \<leftarrow> compose_sv_create_window 0 0 props u1 (initial_server w h);
     (v, s2) \<leftarrow> compose_sv_create_window 0 0 props u2 (s1\<lparr>sv_root := r\<rparr>);
     Some (s2\<lparr>sv_overlay := v\<rparr>) }"

text \<open>One accepted connection, the requests of one client, the clients that asked to leave, and one packet.\<close>

definition accept_client :: "u32 \<Rightarrow> u32 \<Rightarrow> server \<Rightarrow> server option" where
  "accept_client now fd s = do {
     (c, s1) \<leftarrow> compose_add_client fd now s;
     if c = 0 then Some s1
     else do {
       r \<leftarrow> windows s1 (sv_root s1);
       v \<leftarrow> windows s1 (sv_overlay s1);
       compose_sv_event_send c \<lparr>ev_type = COMPOSE_EVENT_CNN, ev_size = 28, ev_win = None, ev_child = None,
         ev_root = Some (w_id r), ev_payload = Connected (w_id v)\<rparr> s1 } }"

primrec reap_clients :: "nat list \<Rightarrow> server \<Rightarrow> server option" where
  "reap_clients [] s = Some (s\<lparr>sv_remove_queue := []\<rparr>)"
| "reap_clients (c # cs) s = do { s1 \<leftarrow> compose_sv_disconnect c s; reap_clients cs s1 }"

definition mouse_input :: "mouse_raw \<Rightarrow> server \<Rightarrow> server option" where
  "mouse_input raw s = (case input_mouse_create_packet raw of None \<Rightarrow> Some s | Some p \<Rightarrow> compose_handle_mouse p s)"

primrec draw_window :: "nat \<Rightarrow> u32 \<Rightarrow> u32 \<Rightarrow> server \<Rightarrow> nat \<Rightarrow> (nat \<times> u32 \<times> u32) list \<Rightarrow> (nat \<times> u32 \<times> u32) list option" where
  "draw_window 0 ox oy s a ds = None"
| "draw_window (Suc n) ox oy s a ds = do {
     w \<leftarrow> windows s a;
     let x = p_x (w_pos w) + ox;
     let y = p_y (w_pos w) + oy;
     for_each (draw_window n x y s) (w_children w) (ds @ [(a, x, y)]) }"

text \<open>The windows in the order in which they are painted, with their places on the screen.\<close>

definition compose_sv_redraw :: "server \<Rightarrow> (server \<times> (nat \<times> u32 \<times> u32) list) option" where
  "compose_sv_redraw s = do {
     s1 \<leftarrow> compose_sv_restack (brk s) (sv_root s) s;
     d1 \<leftarrow> draw_window (brk s) 0 0 s1 (sv_root s1) [];
     d2 \<leftarrow> draw_window (brk s) 0 0 s1 (sv_overlay s1) d1;
     Some (s1, d2) }"

record tick_input =
  ti_time_out :: bool
  ti_accepted :: "u32 list"
  ti_requests :: "u32 \<Rightarrow> request list"
  ti_keys :: "u32 list"
  ti_mouse :: "mouse_raw list"
  ti_gone :: "u32 \<Rightarrow> bool"
  ti_now :: u32
  ti_uuid :: "nat \<Rightarrow> nat"

definition client_requests :: "tick_input \<Rightarrow> nat \<Rightarrow> server \<Rightarrow> server option" where
  "client_requests i c s = do {
     cl \<leftarrow> clients s c;
     for_each (\<lambda>r s. compose_sv_handle_request (ti_now i) (ti_uuid i (brk s)) c r s) (ti_requests i (cl_socket cl)) s }"

definition compose_sv_tick :: "tick_input \<Rightarrow> server \<Rightarrow> server option" where
  "compose_sv_tick i s =
     (if ti_time_out i then compose_sv_send_keepalive (ti_gone i) s
      else do {
        s1 \<leftarrow> for_each (accept_client (ti_now i)) (ti_accepted i) s;
        s2 \<leftarrow> for_each (client_requests i) (sv_clients s1) s1;
        s3 \<leftarrow> reap_clients (rev (sv_remove_queue s2)) s2;
        s4 \<leftarrow> compose_sv_send_keepalive (ti_gone i) s3;
        s5 \<leftarrow> for_each (\<lambda>k. compose_handle_key (input_kbd_create_packet k)) (ti_keys i) s4;
        s6 \<leftarrow> for_each mouse_input (ti_mouse i) s5;
        (s7, ds) \<leftarrow> compose_sv_redraw s6;
        Some s7 })"

end
