(* ===== verification/Compose_Inv.thy ===== *)
theory Compose_Inv
  imports Compose
begin

text \<open>
  What the window server keeps: the windows form a forest in which a window is created after its parent and
  every list of children is sorted by depth, no list holds a freed pointer, every window belongs to a
  connected client or to the server, and the pointer of the mouse is on the screen. Under this invariant no
  operation follows a null or freed pointer, every recursion ends, and the invariant is kept.
\<close>

section \<open>The invariant\<close>

definition z_of :: "(nat \<rightharpoonup> window) \<Rightarrow> nat \<Rightarrow> int" where
  "z_of h a = sint (p_z (w_pos (the (h a))))"

definition forest :: "(nat \<rightharpoonup> window) \<Rightarrow> nat \<Rightarrow> bool" where
  "forest h n \<longleftrightarrow> (\<forall>a w. h a = Some w \<longrightarrow>
     0 < a \<and> a < n \<and> (w_parent w \<noteq> 0 \<longrightarrow> w_parent w < a \<and> h (w_parent w) \<noteq> None) \<and>
     distinct (w_children w) \<and> set (w_children w) = {c. \<exists>v. h c = Some v \<and> w_parent v = a})"

definition stacked :: "(nat \<rightharpoonup> window) \<Rightarrow> bool" where
  "stacked h \<longleftrightarrow> (\<forall>a w. h a = Some w \<longrightarrow> sorted (map (z_of h) (w_children w)))"

text \<open>Whose a window is: a window inside another one that is not the root belongs to the owner of that one.\<close>

definition owned :: "server \<Rightarrow> bool" where
  "owned s \<longleftrightarrow> (\<forall>a w. windows s a = Some w \<longrightarrow>
     (w_client w = 0 \<or> clients s (w_client w) \<noteq> None) \<and> (w_root w = 0 \<or> w_root w = sv_root s) \<and> (w_client w \<noteq> 0 \<longrightarrow> w_root w \<noteq> 0) \<and>
     (w_parent w \<noteq> 0 \<longrightarrow> w_parent w \<noteq> sv_root s \<longrightarrow> w_client w = w_client (the (windows s (w_parent w)))))"

definition listed :: "server \<Rightarrow> bool" where
  "listed s \<longleftrightarrow> distinct (sv_windows s) \<and> set (sv_windows s) = dom (windows s) \<and>
     distinct (sv_clients s) \<and> set (sv_clients s) \<subseteq> dom (clients s) \<and> (\<forall>c\<in>dom (clients s). 0 < c \<and> c < brk s)"

text \<open>Between two operations every client is in the list; those that asked to leave are connected, and each asked once.\<close>

definition connected :: "server \<Rightarrow> bool" where
  "connected s \<longleftrightarrow> set (sv_clients s) = dom (clients s) \<and> distinct (sv_remove_queue s) \<and> set (sv_remove_queue s) \<subseteq> dom (clients s)"

text \<open>The root window covers the screen, and with the overlay belongs to the server.\<close>

definition rooted :: "server \<Rightarrow> bool" where
  "rooted s \<longleftrightarrow>
     (\<exists>r. windows s (sv_root s) = Some r \<and> w_parent r = 0 \<and> w_client r = 0 \<and> p_x (w_pos r) = 0 \<and> p_y (w_pos r) = 0 \<and> w_sizes r = (sv_fb_w s, sv_fb_h s)) \<and>
     (\<exists>v. windows s (sv_overlay s) = Some v \<and> w_parent v = 0 \<and> w_client v = 0) \<and> sv_overlay s \<noteq> sv_root s"

definition screen_ok :: "server \<Rightarrow> bool" where
  "screen_ok s \<longleftrightarrow> 4 \<le> sint (sv_fb_w s) \<and> 4 \<le> sint (sv_fb_h s) \<and> mouse_x s < sv_fb_w s \<and> mouse_y s < sv_fb_h s"

definition targets_ok :: "server \<Rightarrow> bool" where
  "targets_ok s \<longleftrightarrow> (input_focus s = 0 \<or> windows s (input_focus s) \<noteq> None) \<and>
     (\<forall>g\<in>set (sv_grabs s). windows s (g_window g) \<noteq> None \<and> clients s (g_client g) \<noteq> None)"

definition sv_ok :: "server \<Rightarrow> bool" where
  "sv_ok s \<longleftrightarrow> forest (windows s) (brk s) \<and> stacked (windows s) \<and> owned s \<and> listed s \<and> rooted s \<and> screen_ok s \<and> targets_ok s"

lemmas sv_parts = owned_def listed_def rooted_def screen_ok_def targets_ok_def

lemma sv_ok_frame [simp]:
  "sv_ok (s\<lparr>sent := x\<rparr>) = sv_ok s" "sv_ok (s\<lparr>sv_remove_queue := q\<rparr>) = sv_ok s" "sv_ok (s\<lparr>closed := y\<rparr>) = sv_ok s" "sv_ok (s\<lparr>kbd_mods := m\<rparr>) = sv_ok s" "sv_ok (s\<lparr>last_buttons := l\<rparr>) = sv_ok s"
  by (simp_all add: sv_ok_def sv_parts)

lemma connected_frame [simp]:
  "connected (s\<lparr>sent := x\<rparr>) = connected s" "connected (s\<lparr>kbd_mods := m\<rparr>) = connected s" "connected (s\<lparr>last_buttons := l\<rparr>) = connected s"
  "connected (compose_update_mouse dx dy s) = connected s"
  by (simp_all add: connected_def compose_update_mouse_def Let_def)

lemma forestD:
  assumes "forest h n" and "h a = Some w"
  shows "0 < a" and "a < n" and "w_parent w \<noteq> 0 \<Longrightarrow> w_parent w < a" and "w_parent w \<noteq> 0 \<Longrightarrow> h (w_parent w) \<noteq> None"
    and "distinct (w_children w)" and "c \<in> set (w_children w) \<longleftrightarrow> (\<exists>v. h c = Some v \<and> w_parent v = a)"
  using assms by (auto simp: forest_def)

lemma forest_child:
  assumes "forest h n" and "h a = Some w" and "c \<in> set (w_children w)"
  obtains v where "h c = Some v" "w_parent v = a" "a < c" "c < n"
proof -
  obtain v where v: "h c = Some v" "w_parent v = a" using assms by (auto simp: forestD(6))
  moreover have "a \<noteq> 0" using forestD(1) [OF assms(1,2)] by simp
  ultimately show ?thesis using that [of v] forestD(2,3) [OF assms(1) v(1)] by simp
qed

lemma forest_childD: "forest h n \<Longrightarrow> h a = Some w \<Longrightarrow> c \<in> set (w_children w) \<Longrightarrow> h c \<noteq> None \<and> a < c \<and> c < n"
  by (erule (2) forest_child) simp

lemma ownedD:
  assumes "sv_ok s" and "windows s a = Some w"
  shows "w_client w \<noteq> 0 \<Longrightarrow> clients s (w_client w) \<noteq> None" and "w_root w = 0 \<or> w_root w = sv_root s" and "w_client w \<noteq> 0 \<Longrightarrow> w_root w \<noteq> 0"
    and "w_parent w \<noteq> 0 \<Longrightarrow> w_parent w \<noteq> sv_root s \<Longrightarrow> w_client w = w_client (the (windows s (w_parent w)))"
  using assms unfolding sv_ok_def owned_def by metis+

lemma rootE:
  assumes "sv_ok s"
  obtains r where "windows s (sv_root s) = Some r" "w_parent r = 0" "w_client r = 0" "p_x (w_pos r) = 0" "p_y (w_pos r) = 0"
    "w_sizes r = (sv_fb_w s, sv_fb_h s)" "sv_root s \<noteq> 0"
  using assms by (auto simp: sv_ok_def rooted_def dest: forestD(1))

lemma sv_ok_windows: "sv_ok s \<Longrightarrow> windows s a = Some w \<Longrightarrow> a \<noteq> 0 \<and> a < brk s"
  by (auto simp: sv_ok_def dest: forestD)

section \<open>The mouse\<close>

lemma update_axis:
  fixes x d w :: u32
  assumes "x < w" and "4 \<le> sint w"
  shows "(let y = x + d; y1 = (if sless y 0 then 0 else y) in if y1 \<ge> w then w - 4 else y1) < w"
proof -
  have w: "unat w < 2 ^ 31" "4 \<le> unat w"
    using assms(2) sint_nonneg_iff [of w] sint_small [of w] by (auto simp flip: of_nat_le_iff [where 'a = int])
  then have "w - 4 < w" by (simp add: word_less_nat_alt unat_sub32 word_le_nat_alt)
  moreover have "0 < w" using w by (simp add: word_less_nat_alt)
  ultimately show ?thesis by (auto simp: Let_def)
qed

lemma update_mouse_screen:
  assumes "screen_ok s"
  shows "screen_ok (compose_update_mouse dx dy s)"
  using assms update_axis [of "mouse_x s" "sv_fb_w s" dx] update_axis [of "mouse_y s" "sv_fb_h s" "- dy"]
  by (simp add: screen_ok_def compose_update_mouse_def Let_def)

lemma update_mouse_ok: "sv_ok s \<Longrightarrow> sv_ok (compose_update_mouse dx dy s)"
  using update_mouse_screen [of s dx dy]
  by (simp add: sv_ok_def) (simp add: compose_update_mouse_def Let_def sv_parts)

section \<open>Events\<close>

lemma find_object_spec:
  assumes "\<forall>a\<in>set as. st a \<noteq> None"
  shows "\<exists>a. find_object st P as = Some a \<and> (a = 0 \<or> (\<exists>x. a \<in> set as \<and> st a = Some x \<and> P x))"
  using assms
proof (induction as)
  case (Cons b as)
  then obtain x where "st b = Some x" by auto
  with Cons show ?case by (cases "P x") auto
qed simp

lemma get_window_spec:
  assumes "sv_ok s"
  obtains a where "compose_sv_get_window wid s = Some a" "a = 0 \<or> (\<exists>w. windows s a = Some w \<and> w_id w = wid)"
proof -
  have "\<forall>a\<in>set (sv_windows s). windows s a \<noteq> None" using assms by (auto simp: sv_ok_def listed_def)
  from find_object_spec [OF this, of "\<lambda>w. w_id w = wid"] that show ?thesis
    by (auto simp: compose_sv_get_window_def)
qed

lemma sent_same [simp]: "s\<lparr>sent := sent s\<rparr> = s"
  by (cases s) simp

lemma if_sent: "(b \<Longrightarrow> \<exists>x. m = Some (s\<lparr>sent := x\<rparr>)) \<Longrightarrow> \<exists>x. (if b then m else Some s) = Some (s\<lparr>sent := x\<rparr>)"
  using sent_same [of s] by (cases b) (simp, metis)

lemma event_send_sent:
  assumes "clients s c \<noteq> None"
  shows "\<exists>x. compose_sv_event_send c ev s = Some (s\<lparr>sent := x\<rparr>)"
  using assms by (auto simp: compose_sv_event_send_def)

lemma get_grab_spec:
  assumes "\<forall>g\<in>set gs. st (g_window g) \<noteq> None"
  shows "\<exists>gr. get_grab st wid ty gs = Some gr \<and> (\<forall>g. gr = Some g \<longrightarrow> g \<in> set gs)"
  using assms
proof (induction gs)
  case (Cons g gs)
  then obtain x where "st (g_window g) = Some x" by auto
  with Cons show ?case by (cases "w_id x = wid") auto
qed simp

lemma deliver_sent:
  assumes "sv_ok s" and "windows s a = Some w"
  shows "\<exists>x e. deliver w ev s = Some (s\<lparr>sent := x\<rparr>, e)"
proof -
  have "\<forall>g\<in>set (sv_grabs s). windows s (g_window g) \<noteq> None" using assms(1) by (auto simp: sv_ok_def targets_ok_def)
  from get_grab_spec [OF this] obtain gr where gr: "get_grab (windows s) (w_id w) (ev_type ev) (sv_grabs s) = Some gr"
    "\<forall>g. gr = Some g \<longrightarrow> g \<in> set (sv_grabs s)" by blast
  note own = ownedD(1) [OF assms]
  have grc: "gr = Some g \<Longrightarrow> clients s (g_client g) \<noteq> None" for g using assms(1) gr(2) by (auto simp: sv_ok_def targets_ok_def)
  define e where "e = ev\<lparr>ev_win := Some (w_id w)\<rparr>"
  obtain x where x: "(if w_event_mask w AND ev_type ev \<noteq> 0 \<and> w_client w \<noteq> 0 then compose_sv_event_send (w_client w) e s else Some s) = Some (s\<lparr>sent := x\<rparr>)"
    using if_sent [of "w_event_mask w AND ev_type ev \<noteq> 0 \<and> w_client w \<noteq> 0" "compose_sv_event_send (w_client w) e s" s] event_send_sent [of s "w_client w" e] own
    by blast
  obtain y where y: "(case gr of None \<Rightarrow> Some (s\<lparr>sent := x\<rparr>) | Some g \<Rightarrow> compose_sv_event_send (g_client g) e (s\<lparr>sent := x\<rparr>)) = Some (s\<lparr>sent := y\<rparr>)"
  proof (cases gr)
    case None
    then show ?thesis by (intro that [of x]) simp
  next
    case (Some g)
    then obtain y where "compose_sv_event_send (g_client g) e (s\<lparr>sent := x\<rparr>) = Some ((s\<lparr>sent := x\<rparr>)\<lparr>sent := y\<rparr>)"
      using event_send_sent [of "s\<lparr>sent := x\<rparr>" "g_client g" e] grc by auto
    with Some show ?thesis by (intro that [of y]) simp
  qed
  have "deliver w ev s = (if w_event_mask w AND ev_type ev \<noteq> 0 \<or> gr \<noteq> None then Some (s\<lparr>sent := y\<rparr>, e) else Some (s, ev))"
    unfolding deliver_def gr(1) Option.bind_lunit Let_def e_def [symmetric] x y by simp
  then show ?thesis
  proof (cases "w_event_mask w AND ev_type ev \<noteq> 0 \<or> gr \<noteq> None")
    case False
    then show ?thesis using \<open>deliver w ev s = _\<close> by (intro exI [of _ "sent s"]) simp
  qed auto
qed

lemma propagate_sent:
  assumes "sv_ok s" and "windows s a \<noteq> None"
  shows "\<exists>x e. compose_sv_event_propagate a ev s = Some (s\<lparr>sent := x\<rparr>, e)"
  using assms
proof (induction a arbitrary: ev s rule: less_induct)
  case (less a)
  then obtain w where w: "windows s a = Some w" by auto
  obtain x e where d: "deliver w ev s = Some (s\<lparr>sent := x\<rparr>, e)" using deliver_sent [OF less.prems(1) w] by blast
  show ?case
  proof (cases "w_parent w = 0")
    case False
    then have "w_parent w < a" "windows s (w_parent w) \<noteq> None"
      using less.prems(1) w by (auto simp: sv_ok_def dest: forestD)
    then show ?thesis
      using less.IH [of "w_parent w" "s\<lparr>sent := x\<rparr>" "e\<lparr>ev_child := Some (w_id w)\<rparr>"] less.prems(1) w d False
      by (subst compose_sv_event_propagate.simps) auto
  next
    case True
    then show ?thesis using w d by (subst compose_sv_event_propagate.simps) auto
  qed
qed

lemma root_id_spec:
  assumes "sv_ok s" and "windows s a = Some w"
  shows "\<exists>r. root_id w d s = Some r"
  using ownedD(2) [OF assms] by (auto simp: root_id_def intro: rootE [OF assms(1)])

lemma send_focus_sent:
  assumes "sv_ok s" and "windows s a \<noteq> None"
  shows "\<exists>x. send_focus ty a s = Some (s\<lparr>sent := x\<rparr>)"
proof -
  obtain w where w: "windows s a = Some w" using assms(2) by auto
  obtain r where r: "root_id w 1 s = Some r" using root_id_spec [OF assms(1) w] by blast
  show ?thesis using propagate_sent [OF assms, of "focus_event ty w r"] w r by (auto simp: send_focus_def)
qed

lemma focus_ok:
  assumes "sv_ok s" and "a \<noteq> 0 \<Longrightarrow> windows s a \<noteq> None"
  shows "\<exists>x. compose_sv_focus a s = Some (s\<lparr>input_focus := (if a = 0 then sv_root s else a), sent := x\<rparr>) \<and>
    sv_ok (s\<lparr>input_focus := (if a = 0 then sv_root s else a), sent := x\<rparr>)"
proof -
  obtain r where r: "windows s (sv_root s) = Some r" "sv_root s \<noteq> 0" using rootE [OF assms(1)] by metis
  define b where "b = (if a = 0 then sv_root s else a)"
  have b: "windows s b \<noteq> None" "b \<noteq> 0" using assms(2) r by (auto simp: b_def)
  have "input_focus s \<noteq> 0 \<Longrightarrow> windows s (input_focus s) \<noteq> None" using assms(1) by (simp add: sv_ok_def targets_ok_def)
  then obtain x where x: "(if input_focus s \<noteq> 0 then send_focus COMPOSE_EVENT_UNFOCUS (input_focus s) s else Some s) = Some (s\<lparr>sent := x\<rparr>)"
    using if_sent [of "input_focus s \<noteq> 0" _ s] send_focus_sent [OF assms(1), of "input_focus s"] by blast
  have ok: "sv_ok (s\<lparr>input_focus := b, sent := y\<rparr>)" "sv_ok (s\<lparr>sent := y, input_focus := b\<rparr>)" for y using assms(1) b by (auto simp: sv_ok_def sv_parts)
  obtain y where y: "send_focus COMPOSE_EVENT_FOCUS b (s\<lparr>sent := x, input_focus := b\<rparr>) = Some (s\<lparr>input_focus := b, sent := y\<rparr>)"
    using send_focus_sent [OF ok(2) [of x], of b COMPOSE_EVENT_FOCUS] b by auto
  show ?thesis
    unfolding compose_sv_focus_def x using y ok(1) [of y] b
    by (intro exI [of _ y]) (cases "a = 0"; simp add: b_def Let_def)
qed

section \<open>Input\<close>

lemma create_packet_code:
  assumes "kp_flags (input_kbd_create_packet k) AND KBD_EVENT_FLAG_EXT = 0"
  shows "\<exists>c. input_kbd_translate (kp_scancode (input_kbd_create_packet k)) md = Some c"
proof -
  have ext: "\<not> k AND 0x100 \<noteq> 0"
    using assms by (auto simp: input_kbd_create_packet_def Let_def split: if_splits)
  have "k AND 0x7F \<le> 0x7F" by (rule word_and_le1)
  then have "unat (k AND 0x7F) \<le> 127" by (simp add: word_le_nat_alt)
  then have "uint (k AND 0x7F) \<le> 127" using uint_nat [of "k AND 0x7F"] by linarith
  moreover have "kp_scancode (input_kbd_create_packet k) = uint (k AND 0x7F)"
    using ext by (auto simp: input_kbd_create_packet_def Let_def)
  ultimately show ?thesis by (auto simp: input_kbd_translate_def Let_def)
qed

lemma handle_key_ok:
  assumes "sv_ok s"
  shows "\<exists>t. compose_handle_key (input_kbd_create_packet k) s = Some t \<and> sv_ok t \<and> (connected s \<longrightarrow> connected t)"
proof (cases "input_focus s = 0")
  case False
  let ?k = "input_kbd_create_packet k"
  define md where "md = kbd_modifier ?k (kbd_mods s)"
  obtain w where w: "windows s (input_focus s) = Some w" using assms False by (auto simp: sv_ok_def targets_ok_def)
  obtain r where r: "root_id w (w_id w) s = Some r" using root_id_spec [OF assms w] by blast
  obtain tr where tr: "(if kp_flags ?k AND KBD_EVENT_FLAG_EXT = 0 then do { c \<leftarrow> input_kbd_translate (kp_scancode ?k) md; Some (Some c) } else Some None) = Some tr"
    using create_packet_code [of k md] by (cases "kp_flags ?k AND KBD_EVENT_FLAG_EXT = 0") auto
  define e where "e = \<lparr>ev_type = COMPOSE_EVENT_KEY, ev_size = 36, ev_win = Some (w_id w), ev_child = None, ev_root = Some r, ev_payload = KeyInput ?k tr md\<rparr>"
  obtain x e2 where "compose_sv_event_propagate (input_focus s) e (s\<lparr>kbd_mods := md\<rparr>) = Some (s\<lparr>kbd_mods := md, sent := x\<rparr>, e2)"
    using propagate_sent [of "s\<lparr>kbd_mods := md\<rparr>" "input_focus s" e] w assms by auto
  then show ?thesis
    unfolding compose_handle_key_def md_def [symmetric] using w r tr False assms
    by (simp add: Let_def e_def [symmetric])
qed (use assms in \<open>simp add: compose_handle_key_def\<close>)

lemma window_origin_some:
  assumes "sv_ok s" and "windows s a \<noteq> None"
  shows "\<exists>p. window_origin a ox oy s = Some p"
  using assms(2)
proof (induction a arbitrary: ox oy rule: less_induct)
  case (less a)
  then obtain w where w: "windows s a = Some w" by auto
  show ?case
  proof (cases "w_parent w = 0")
    case False
    then obtain p where p: "w_parent w < a" "windows s (w_parent w) = Some p"
      using assms(1) w by (auto simp: sv_ok_def dest: forestD)
    then show ?thesis using less.IH [OF p(1)] w False by (subst window_origin.simps) auto
  next
    case True
    then show ?thesis using w by (subst window_origin.simps) simp
  qed
qed

lemma translate_some:
  assumes "sv_ok s" and "windows s a \<noteq> None"
  shows "\<exists>p. compose_sv_translate_abs a x y s = Some p" and "\<exists>p. compose_sv_translate_local a x y s = Some p"
proof -
  obtain w where w: "windows s a = Some w" using assms(2) by auto
  obtain ox oy where "window_origin a (p_x (w_pos w)) (p_y (w_pos w)) s = Some (ox, oy)"
    using window_origin_some [OF assms] by fastforce
  with w show "\<exists>p. compose_sv_translate_abs a x y s = Some p" "\<exists>p. compose_sv_translate_local a x y s = Some p"
    by (auto simp: compose_sv_translate_abs_def compose_sv_translate_local_def)
qed

text \<open>Some window is always found below the mouse, because the root window is.\<close>

lemma root_hit:
  assumes "sv_ok s"
  shows "\<exists>org r. compose_sv_translate_abs (sv_root s) 0 0 s = Some org \<and> windows s (sv_root s) = Some r \<and> window_hit (mouse_x s) (mouse_y s) org r"
proof -
  obtain r where r: "windows s (sv_root s) = Some r" "w_parent r = 0" "p_x (w_pos r) = 0" "p_y (w_pos r) = 0" "w_sizes r = (sv_fb_w s, sv_fb_h s)"
    using rootE [OF assms] by metis
  have m: "mouse_x s < sv_fb_w s" "mouse_y s < sv_fb_h s" "4 \<le> sint (sv_fb_w s)" "4 \<le> sint (sv_fb_h s)"
    using assms by (auto simp: sv_ok_def screen_ok_def)
  have "unat (sv_fb_w s) < 2 ^ 31" "unat (sv_fb_h s) < 2 ^ 31" using m(3,4) sint_nonneg_iff [of "sv_fb_w s"] sint_nonneg_iff [of "sv_fb_h s"] by auto
  then have "0 \<le> sint (mouse_x s)" "0 \<le> sint (mouse_y s)"
    using m(1,2) by (auto simp: sint_nonneg_iff word_less_nat_alt)
  moreover have "window_origin (sv_root s) 0 0 s = Some (0, 0)" using r by (subst window_origin.simps) simp
  ultimately show ?thesis using r m by (simp add: compose_sv_translate_abs_def window_hit_def less_imp_le)
qed

lemma window_at_some:
  assumes "sv_ok s" and "set as \<subseteq> dom (windows s)" and "sv_root s \<in> set as"
  shows "\<exists>a. window_at (mouse_x s) (mouse_y s) s as = Some a \<and> a \<in> set as"
  using assms(2,3)
proof (induction as)
  case (Cons b as)
  have ov: "sv_overlay s \<noteq> sv_root s" using assms(1) by (simp add: sv_ok_def rooted_def)
  obtain w org where w: "windows s b = Some w" "compose_sv_translate_abs b 0 0 s = Some org"
    using Cons.prems(1) translate_some(1) [OF assms(1), of b 0 0] by (auto simp: dom_def)
  show ?case
  proof (cases "b = sv_root s")
    case True
    then show ?thesis using root_hit [OF assms(1)] ov by auto
  next
    case False
    with Cons have "\<exists>a. window_at (mouse_x s) (mouse_y s) s as = Some a \<and> a \<in> set as" by auto
    with w show ?thesis by auto
  qed
qed simp

lemma handle_mouse_ok:
  assumes "sv_ok s"
  shows "\<exists>t. compose_handle_mouse p s = Some t \<and> sv_ok t \<and> (connected s \<longrightarrow> connected t)"
proof -
  define s1 where "s1 = compose_update_mouse (mp_dx p) (mp_dy p) s"
  have ok: "sv_ok s1" using update_mouse_ok [OF assms] by (simp add: s1_def)
  obtain r where r: "windows s1 (sv_root s1) = Some r" using rootE [OF ok] by metis
  have ws: "set (rev (sv_windows s1)) = dom (windows s1)" using ok by (simp add: sv_ok_def listed_def)
  obtain a w where a: "compose_sv_get_window_at (mouse_x s1) (mouse_y s1) s1 = Some a" "windows s1 a = Some w"
    using window_at_some [OF ok, of "rev (sv_windows s1)"] ws r unfolding compose_sv_get_window_at_def by (auto simp: dom_def)
  obtain lx ly where l: "compose_sv_translate_local a (mouse_x s1) (mouse_y s1) s1 = Some (lx, ly)"
    using translate_some(2) [OF ok, of a "mouse_x s1" "mouse_y s1"] a(2) by auto
  have prp: "\<exists>x f. compose_sv_event_propagate a e (s1\<lparr>sent := y\<rparr>) = Some (s1\<lparr>sent := x\<rparr>, f)" for e y
    using propagate_sent [of "s1\<lparr>sent := y\<rparr>" a e] ok a(2) by auto
  have step: "\<exists>x f. (if b then compose_sv_event_propagate a e (s1\<lparr>sent := y\<rparr>) else Some (s1\<lparr>sent := y\<rparr>, g)) = Some (s1\<lparr>sent := x\<rparr>, f)" for b e y g
    using prp [of e y] by (cases b) auto
  define rdx rdy where "rdx = mouse_x s1 - mouse_x s" and "rdy = mouse_y s - mouse_y s1"
  define ev where "ev = \<lparr>ev_type = 0, ev_size = 52, ev_win = Some (w_id w), ev_child = None, ev_root = Some (w_id r),
      ev_payload = MouseInput (p\<lparr>mp_dx := rdx, mp_dy := rdy\<rparr>) lx ly (mouse_x s1) (mouse_y s1)\<rparr>"
  obtain x f where x: "(if rdx \<noteq> 0 \<or> rdy \<noteq> 0 then compose_sv_event_propagate a (ev\<lparr>ev_type := COMPOSE_EVENT_MOUSE\<rparr>) s1 else Some (s1, ev)) = Some (s1\<lparr>sent := x\<rparr>, f)"
    using step [of "rdx \<noteq> 0 \<or> rdy \<noteq> 0" "ev\<lparr>ev_type := COMPOSE_EVENT_MOUSE\<rparr>" "sent s1" ev] unfolding sent_same by blast
  obtain y g where y: "(if mp_buttons p \<noteq> last_buttons (s1\<lparr>sent := x\<rparr>) then compose_sv_event_propagate a (f\<lparr>ev_type := COMPOSE_EVENT_BUTTON\<rparr>) (s1\<lparr>sent := x\<rparr>)
      else Some (s1\<lparr>sent := x\<rparr>, f)) = Some (s1\<lparr>sent := y\<rparr>, g)"
    using step [of "mp_buttons p \<noteq> last_buttons (s1\<lparr>sent := x\<rparr>)" "f\<lparr>ev_type := COMPOSE_EVENT_BUTTON\<rparr>" x f] by blast
  have "compose_handle_mouse p s = Some (s1\<lparr>sent := y, last_buttons := mp_buttons p\<rparr>)"
    unfolding compose_handle_mouse_def Let_def s1_def [symmetric] rdx_def [symmetric] rdy_def [symmetric]
    by (simp only: a r l x y server.simps Option.bind.simps prod.case ev_def [symmetric])
  then show ?thesis using ok by (simp add: s1_def)
qed

section \<open>Stacking\<close>

definition sv_pre :: "server \<Rightarrow> bool" where
  "sv_pre s \<longleftrightarrow> forest (windows s) (brk s) \<and> owned s \<and> listed s \<and> rooted s \<and> screen_ok s \<and> targets_ok s"

lemma sv_ok_iff: "sv_ok s \<longleftrightarrow> sv_pre s \<and> stacked (windows s)"
  by (auto simp: sv_ok_def sv_pre_def)

lemma windows_set_window [simp]: "windows (set_window a w s) = (windows s)(a \<mapsto> w)"
  by (simp add: set_window_def)

lemma set_window_frame [simp]:
  "brk (set_window a w s) = brk s" "clients (set_window a w s) = clients s" "sv_root (set_window a w s) = sv_root s"
  "sv_overlay (set_window a w s) = sv_overlay s" "sv_windows (set_window a w s) = sv_windows s" "sv_clients (set_window a w s) = sv_clients s"
  "sv_grabs (set_window a w s) = sv_grabs s" "input_focus (set_window a w s) = input_focus s" "sv_remove_queue (set_window a w s) = sv_remove_queue s"
  "sv_fb_w (set_window a w s) = sv_fb_w s" "sv_fb_h (set_window a w s) = sv_fb_h s" "mouse_x (set_window a w s) = mouse_x s" "mouse_y (set_window a w s) = mouse_y s"
  by (simp_all add: set_window_def)

lemma set_window_same [simp]: "windows s a = Some w \<Longrightarrow> set_window a w s = s"
  by (cases s) (simp add: set_window_def map_upd_triv)

lemma forest_upd:
  assumes "forest h m" and "h a = Some w" and "w_parent v = w_parent w" and "mset (w_children v) = mset (w_children w)"
  shows "forest (h(a \<mapsto> v)) m"
proof -
  have cs: "distinct (w_children v)" "set (w_children v) = set (w_children w)"
    using assms(4) forestD(5) [OF assms(1,2)] by (metis mset_eq_imp_distinct_iff, metis mset_eq_setD)
  have ch: "{c. \<exists>u. (h(a \<mapsto> v)) c = Some u \<and> w_parent u = b} = {c. \<exists>u. h c = Some u \<and> w_parent u = b}" for b
    using assms(2,3) by (auto split: if_splits)
  show ?thesis
    unfolding forest_def ch
  proof (intro allI impI)
    fix b u assume "(h(a \<mapsto> v)) b = Some u"
    then have "b = a \<and> u = v \<or> b \<noteq> a \<and> h b = Some u" by (auto split: if_splits)
    then show "0 < b \<and> b < m \<and> (w_parent u \<noteq> 0 \<longrightarrow> w_parent u < b \<and> (h(a \<mapsto> v)) (w_parent u) \<noteq> None) \<and>
        distinct (w_children u) \<and> set (w_children u) = {c. \<exists>u. h c = Some u \<and> w_parent u = b}"
    proof
      assume "b = a \<and> u = v"
      then show ?thesis using assms cs forestD(1,2,3,4,6) [OF assms(1,2)] by auto
    next
      assume "b \<noteq> a \<and> h b = Some u"
      then show ?thesis using assms(1) by (auto simp: forest_def)
    qed
  qed
qed

text \<open>A window that keeps its parent, its client, its root and its children may change otherwise.\<close>

lemma sv_pre_set:
  assumes "sv_pre s" and "windows s a = Some w" and "w_parent v = w_parent w" and "mset (w_children v) = mset (w_children w)"
    and "w_client v = w_client w" and "w_root v = w_root w"
    and "a = sv_root s \<Longrightarrow> p_x (w_pos v) = p_x (w_pos w) \<and> p_y (w_pos v) = p_y (w_pos w) \<and> w_sizes v = w_sizes w"
  shows "sv_pre (set_window a v s)"
proof -
  have f: "forest (windows (set_window a v s)) (brk s)"
    using assms(1) forest_upd [of "windows s" "brk s", OF _ assms(2-4)] by (simp add: sv_pre_def)
  have cl: "w_client (the (((windows s)(a \<mapsto> v)) p)) = w_client (the (windows s p))" for p using assms(2,5) by simp
  have "owned (set_window a v s)"
    using assms(1,2,3,5,6) unfolding sv_pre_def owned_def windows_set_window set_window_frame cl by (auto split: if_splits)
  moreover have "listed (set_window a v s)" using assms(1,2) by (auto simp: sv_pre_def listed_def)
  moreover have "rooted (set_window a v s)" using assms by (auto simp: sv_pre_def rooted_def)
  moreover have "screen_ok (set_window a v s)" "targets_ok (set_window a v s)" using assms(1,2) by (auto simp: sv_pre_def screen_ok_def targets_ok_def)
  ultimately show ?thesis using f by (simp add: sv_pre_def)
qed

lemma z_of_upd: "w_pos v = w_pos (the (h a)) \<Longrightarrow> z_of (h(a \<mapsto> v)) = z_of h"
  by (auto simp: z_of_def fun_eq_iff)

lemma stacked_upd:
  assumes "stacked h" and "h a = Some w" and "w_pos v = w_pos w" and "w_children v = w_children w"
  shows "stacked (h(a \<mapsto> v))"
  using assms z_of_upd [of v h a] by (auto simp: stacked_def split: if_splits)

lemma for_each_same: "\<forall>x\<in>set xs. f x s = Some s \<Longrightarrow> for_each f xs s = Some s"
  by (induction xs) auto

lemma sort_windows_z:
  assumes "\<forall>c\<in>set cs. windows s c \<noteq> None"
  shows "sort_windows (z_above s) s cs = Some (sort_key (z_of (windows s)) cs)"
proof -
  have "sort_seq (z_above s) cs = sort_key (z_of (windows s)) cs"
    by (rule sort_seq_stable) (simp add: z_above_def z_of_def)
  then show ?thesis using assms by (simp add: sort_windows_def list_all_iff)
qed

lemma restack_same:
  assumes "forest (windows s) m" and "stacked (windows s)" and "windows s a \<noteq> None" and "m \<le> n + a"
  shows "compose_sv_restack n a s = Some s"
  using assms(3,4)
proof (induction n arbitrary: a)
  case 0
  then obtain w where "windows s a = Some w" by auto
  from forestD(2) [OF assms(1) this] 0 show ?case by simp
next
  case (Suc n)
  then obtain w where w: "windows s a = Some w" by auto
  have d: "\<forall>c\<in>set (w_children w). windows s c \<noteq> None" using forest_childD [OF assms(1) w] by blast
  have "compose_sv_restack n c s = Some s" if "c \<in> set (w_children w)" for c
    using forest_childD [OF assms(1) w that] Suc.prems(2) by (intro Suc.IH) auto
  moreover have "sort_windows (z_above s) s (w_children w) = Some (w_children w)"
    using sort_windows_z [OF d] assms(2) w by (simp add: stacked_def sort_key_id_if_sorted)
  ultimately show ?case using w for_each_same [of "w_children w" "compose_sv_restack n" s] by simp
qed

lemma restack_one:
  assumes "forest (windows s) m" and "windows s a = Some w" and "m \<le> n + a"
    and "\<forall>b u. windows s b = Some u \<longrightarrow> b \<noteq> a \<longrightarrow> sorted (map (z_of (windows s)) (w_children u))"
  shows "compose_sv_restack n a s = Some (set_window a (w\<lparr>w_children := sort_key (z_of (windows s)) (w_children w)\<rparr>) s)"
proof -
  obtain k where k: "n = Suc k" using assms(3) forestD(2) [OF assms(1,2)] by (cases n) auto
  let ?v = "w\<lparr>w_children := sort_key (z_of (windows s)) (w_children w)\<rparr>"
  let ?t = "set_window a ?v s"
  have z: "z_of ((windows s)(a \<mapsto> ?v)) = z_of (windows s)" using assms(2) by (intro z_of_upd) simp
  have f: "forest (windows ?t) m" using forest_upd [OF assms(1,2)] by simp
  have st: "stacked (windows ?t)" using assms(4) by (auto simp: stacked_def z split: if_splits)
  have "compose_sv_restack k c ?t = Some ?t" if "c \<in> set (w_children w)" for c
    using forest_childD [OF assms(1,2) that] assms(3) k by (intro restack_same [OF f st]) auto
  then have "\<forall>c\<in>set (w_children ?v). compose_sv_restack k c ?t = Some ?t" by simp
  moreover have "\<forall>c\<in>set (w_children w). windows s c \<noteq> None" using forest_childD [OF assms(1,2)] by blast
  ultimately show ?thesis using for_each_same [of _ "compose_sv_restack k" ?t] assms(2) by (simp add: k sort_windows_z)
qed

end
