(* ===== verification/Compose_Ops.thy ===== *)
theory Compose_Ops
  imports Compose_Inv
begin

text \<open>
  Every operation of the window server keeps the invariant of \<open>Compose_Inv\<close>: moving, raising and resizing
  windows and creating them. Removing them is in \<open>Compose_Remove\<close>.
\<close>

section \<open>Moving\<close>

text \<open>What an operation on existing windows keeps beside the invariant.\<close>

definition sv_keeps :: "server \<Rightarrow> server \<Rightarrow> bool" where
  "sv_keeps s t \<longleftrightarrow> sv_ok t \<and> dom (windows t) = dom (windows s) \<and> sv_root t = sv_root s \<and> clients t = clients s \<and>
     sv_clients t = sv_clients s \<and> sv_remove_queue t = sv_remove_queue s"

lemma sv_keeps_refl: "sv_ok s \<Longrightarrow> sv_keeps s s"
  by (simp add: sv_keeps_def)

lemma sv_keeps_trans: "sv_keeps s t \<Longrightarrow> sv_keeps t u \<Longrightarrow> sv_keeps s u"
  by (simp add: sv_keeps_def)

lemma sv_keeps_window: "sv_keeps s t \<Longrightarrow> windows s a \<noteq> None \<Longrightarrow> windows t a \<noteq> None"
  by (auto simp: sv_keeps_def dom_def set_eq_iff)

lemma sv_keeps_sent: "sv_ok s \<Longrightarrow> sv_keeps s (s\<lparr>sent := x\<rparr>)"
  by (simp add: sv_keeps_def)

lemma sv_keeps_set:
  assumes "sv_ok s" and "windows s a = Some w" and "w_parent v = w_parent w" and "w_children v = w_children w"
    and "w_client v = w_client w" and "w_root v = w_root w" and "w_pos v = w_pos w" and "a = sv_root s \<Longrightarrow> w_sizes v = w_sizes w"
  shows "sv_keeps s (set_window a v s)"
proof -
  have "sv_pre (set_window a v s)" using assms by (intro sv_pre_set [of s a w v]) (simp_all add: sv_ok_iff)
  moreover have "stacked (windows (set_window a v s))" using assms stacked_upd [of "windows s" a w v] by (simp add: sv_ok_iff)
  ultimately show ?thesis using assms(2) by (auto simp: sv_keeps_def sv_ok_iff)
qed

text \<open>The state after a change of the depth: the window's own record, and the order of its siblings.\<close>

definition restacked :: "nat \<Rightarrow> window \<Rightarrow> server \<Rightarrow> server" where
  "restacked a v s =
     (let s1 = set_window a v s; par = the (windows s1 (w_parent v))
      in if w_parent v = 0 then s1
         else set_window (w_parent v) (par\<lparr>w_children := sort_key (z_of (windows s1)) (w_children par)\<rparr>) s1)"

lemma sibling_sorted:
  assumes "sv_ok s" and "windows s a = Some w" and "windows s b = Some u" and "b \<noteq> w_parent w"
  shows "sorted (map (z_of ((windows s)(a \<mapsto> v))) (w_children u))"
proof -
  have "a \<notin> set (w_children u)" using assms forestD(6) [of "windows s" "brk s" b u a] by (auto simp: sv_ok_def)
  then have z: "map (z_of ((windows s)(a \<mapsto> v))) (w_children u) = map (z_of (windows s)) (w_children u)" by (auto simp: z_of_def)
  show ?thesis unfolding z using assms(1,3) by (simp add: sv_ok_def stacked_def)
qed

lemma restack_moved:
  assumes "sv_ok s" and "windows s a = Some w" and "w_parent v = w_parent w" and "w_children v = w_children w" and "w_parent w \<noteq> 0"
  shows "compose_sv_restack (brk s) (w_parent w) (set_window a v s) = Some (restacked a v s)"
proof -
  obtain p where p: "windows s (w_parent w) = Some p" "w_parent w < a"
    using assms(1,2,5) by (auto simp: sv_ok_def dest: forestD)
  have f: "forest (windows (set_window a v s)) (brk s)"
    using forest_upd [of "windows s" "brk s" a w v] assms by (simp add: sv_ok_def)
  have "sorted (map (z_of (windows (set_window a v s))) (w_children u))" if "windows (set_window a v s) b = Some u" "b \<noteq> w_parent w" for b u
  proof (cases "b = a")
    case True
    then show ?thesis using that sibling_sorted [OF assms(1,2,2), of v] assms(4) by simp
  next
    case False
    then show ?thesis using that sibling_sorted [OF assms(1,2), of b u v] by simp
  qed
  then have srt: "\<forall>b u. windows (set_window a v s) b = Some u \<longrightarrow> b \<noteq> w_parent w \<longrightarrow> sorted (map (z_of (windows (set_window a v s))) (w_children u))"
    by blast
  have wp: "windows (set_window a v s) (w_parent w) = Some p" using p by simp
  have "restacked a v s = set_window (w_parent w) (p\<lparr>w_children := sort_key (z_of (windows (set_window a v s))) (w_children p)\<rparr>) (set_window a v s)"
    using assms(3,5) wp by (simp add: restacked_def Let_def)
  then show ?thesis using restack_one [OF f wp _ srt] by simp
qed

lemma restacked_keeps:
  assumes "sv_ok s" and "windows s a = Some w" and "w_parent v = w_parent w" and "w_children v = w_children w"
    and "w_client v = w_client w" and "w_root v = w_root w"
    and "a = sv_root s \<Longrightarrow> p_x (w_pos v) = p_x (w_pos w) \<and> p_y (w_pos v) = p_y (w_pos w) \<and> w_sizes v = w_sizes w"
  shows "sv_keeps s (restacked a v s)"
proof -
  have pre: "sv_pre (set_window a v s)" using assms by (intro sv_pre_set [of s a w v]) (simp_all add: sv_ok_iff)
  show ?thesis
  proof (cases "w_parent w = 0")
    case True
    have "sorted (map (z_of ((windows s)(a \<mapsto> v))) (w_children u))" if "((windows s)(a \<mapsto> v)) b = Some u" for b u
      using sibling_sorted [OF assms(1,2), of b _ v] that assms(2,4) True forestD(1) [of "windows s" "brk s" b] assms(1)
      by (auto simp: sv_ok_def split: if_splits)
    then have "stacked ((windows s)(a \<mapsto> v))" by (simp add: stacked_def)
    then show ?thesis using pre True assms(2,3) by (auto simp: sv_keeps_def sv_ok_iff restacked_def Let_def)
  next
    case False
    then obtain p where p: "windows s (w_parent w) = Some p" "w_parent w < a"
      using assms(1,2) by (auto simp: sv_ok_def dest: forestD)
    let ?h = "(windows s)(a \<mapsto> v)"
    let ?q = "p\<lparr>w_children := sort_key (z_of ?h) (w_children p)\<rparr>"
    have r: "restacked a v s = set_window (w_parent w) ?q (set_window a v s)"
      using False assms(3) p by (simp add: restacked_def Let_def)
    have "sv_pre (restacked a v s)"
      unfolding r using p by (intro sv_pre_set [OF pre, of _ p]) simp_all
    moreover have z: "z_of (?h(w_parent w \<mapsto> ?q)) = z_of ?h" using p by (intro z_of_upd) simp
    have "stacked (?h(w_parent w \<mapsto> ?q))"
      unfolding stacked_def z using sibling_sorted [OF assms(1,2), of _ _ v] assms(2,4) by (auto split: if_splits)
    ultimately show ?thesis using p assms(2) by (auto simp: sv_keeps_def sv_ok_iff r)
  qed
qed

lemma set_keeps_xy:
  assumes "sv_ok s" and "windows s a = Some w" and "w_parent v = w_parent w" and "w_children v = w_children w"
    and "w_client v = w_client w" and "w_root v = w_root w" and "p_z (w_pos v) = p_z (w_pos w)" and "a \<noteq> sv_root s"
  shows "sv_keeps s (set_window a v s)"
proof -
  have z: "z_of ((windows s)(a \<mapsto> v)) = z_of (windows s)" using assms(2,7) by (auto simp: z_of_def fun_eq_iff)
  have "sv_pre (set_window a v s)" using assms by (intro sv_pre_set [of s a w v]) (simp_all add: sv_ok_iff)
  moreover have "stacked (windows (set_window a v s))" using assms(1,2,4) by (auto simp: sv_ok_iff stacked_def z split: if_splits)
  ultimately show ?thesis using assms(2) by (auto simp: sv_keeps_def sv_ok_iff)
qed

lemma move_window_ok:
  assumes "sv_ok s" and "windows s a \<noteq> None" and "a \<noteq> sv_root s"
  shows "\<exists>t. move_window a new fl s = Some t \<and> sv_keeps s t"
proof -
  obtain w where w: "windows s a = Some w" using assms(2) by auto
  define pos1 where "pos1 = (if fl AND COMPOSE_MOVE_X \<noteq> 0 then (w_pos w)\<lparr>p_x := p_x new\<rparr> else w_pos w)"
  define pos2 where "pos2 = (if fl AND COMPOSE_MOVE_Y \<noteq> 0 then pos1\<lparr>p_y := p_y new\<rparr> else pos1)"
  define pos3 where "pos3 = (if fl AND COMPOSE_MOVE_Z \<noteq> 0 then pos2\<lparr>p_z := p_z new\<rparr> else pos2)"
  define v where "v = w\<lparr>w_pos := pos3\<rparr>"
  have m: "move_window a new fl s = (if fl AND COMPOSE_MOVE_Z \<noteq> 0 \<and> w_parent w \<noteq> 0
      then compose_sv_restack (brk s) (w_parent w) (set_window a v s) else Some (set_window a v s))"
    unfolding move_window_def w Let_def Option.bind.simps pos1_def [symmetric] pos2_def [symmetric] pos3_def [symmetric] v_def ..
  have k: "sv_keeps s (restacked a v s)" using restacked_keeps [OF assms(1) w, of v] assms(3) by (simp add: v_def)
  consider "fl AND COMPOSE_MOVE_Z \<noteq> 0" "w_parent w \<noteq> 0" | "w_parent w = 0" | "fl AND COMPOSE_MOVE_Z = 0" by blast
  then show ?thesis
  proof cases
    case 1
    then show ?thesis using m k restack_moved [OF assms(1) w, of v] by (simp add: v_def)
  next
    case 2
    then show ?thesis using m k by (simp add: restacked_def v_def Let_def)
  next
    case 3
    then have "p_z (w_pos v) = p_z (w_pos w)" by (simp add: v_def pos3_def pos2_def pos1_def)
    then show ?thesis using set_keeps_xy [OF assms(1) w, of v] assms(3) m 3 by (simp add: v_def)
  qed
qed

lemma notify_move_ok:
  assumes "sv_ok s" and "windows s a \<noteq> None"
  shows "\<exists>x. notify_move a old s = Some (s\<lparr>sent := x\<rparr>)"
proof -
  obtain w where w: "windows s a = Some w" using assms(2) by auto
  define e where "e = \<lparr>ev_type = COMPOSE_EVENT_MOVE, ev_size = 48, ev_win = Some (w_id w), ev_child = None, ev_root = None, ev_payload = Moved old (w_pos w)\<rparr>"
  have "notify_move a old s = (if w_client w \<noteq> 0 then compose_sv_event_send (w_client w) e s else Some s)"
    by (simp add: notify_move_def w e_def)
  then show ?thesis
    using if_sent [of "w_client w \<noteq> 0" "compose_sv_event_send (w_client w) e s" s] event_send_sent [OF ownedD(1) [OF assms(1) w], of e] by simp
qed

lemma sv_keeps_notify:
  assumes "sv_keeps s t" and "windows s a \<noteq> None"
  shows "\<exists>x. notify_move a old t = Some (t\<lparr>sent := x\<rparr>) \<and> sv_keeps s (t\<lparr>sent := x\<rparr>)"
  using notify_move_ok [of t a old] sv_keeps_window [OF assms] assms(1) by (auto simp: sv_keeps_def)

lemma move_z_ok:
  assumes "sv_ok s" and "windows s a \<noteq> None" and "a \<noteq> sv_root s"
  shows "\<exists>t. compose_sv_move a new COMPOSE_MOVE_Z s = Some t \<and> sv_keeps s t"
proof -
  obtain w where w: "windows s a = Some w" using assms(2) by auto
  obtain t where t: "move_window a new COMPOSE_MOVE_Z s = Some t" "sv_keeps s t" using move_window_ok [OF assms] by blast
  obtain x where x: "notify_move a (w_pos w) t = Some (t\<lparr>sent := x\<rparr>)"
    using sv_keeps_notify [OF t(2) assms(2)] by blast
  show ?thesis using w t x sv_keeps_refl [OF assms(1)] by (simp add: sv_keeps_def)
qed

lemma raise_ok:
  assumes "sv_ok s" and "windows s a \<noteq> None" and "a \<noteq> sv_root s"
  shows "\<exists>t. compose_sv_raise a s = Some t \<and> sv_keeps s t"
proof -
  obtain w where w: "windows s a = Some w" using assms(2) by auto
  show ?thesis
  proof (cases "w_parent w = 0")
    case True
    then show ?thesis using w sv_keeps_refl [OF assms(1)] by simp
  next
    case False
    have f: "forest (windows s) (brk s)" using assms(1) by (simp add: sv_ok_def)
    obtain p where p: "windows s (w_parent w) = Some p" using False forestD(4) [OF f w] by auto
    have "a \<in> set (w_children p)" using forestD(6) [OF f p] w by auto
    then have ne: "w_children p \<noteq> []" and l: "last (w_children p) \<in> set (w_children p)" by (auto intro: last_in_set)
    obtain t where t: "windows s (last (w_children p)) = Some t" using forest_childD [OF f p l] by auto
    show ?thesis
      using w False p ne t move_z_ok [OF assms] sv_keeps_refl [OF assms(1)]
      by (cases "last (w_children p) = a") (simp_all del: compose_sv_move.simps add: Let_def)
  qed
qed

lemma move_ok:
  assumes "sv_ok s" and "windows s a \<noteq> None" and "a \<noteq> sv_root s"
  shows "\<exists>t. compose_sv_move a new fl s = Some t \<and> sv_keeps s t"
proof -
  obtain w where w: "windows s a = Some w" using assms(2) by auto
  have step: "\<exists>t. (if b then compose_sv_raise a u else Some u) = Some t \<and> sv_keeps s t" if u: "sv_keeps s u" for b u
  proof (cases b)
    case True
    have "sv_ok u" "windows u a \<noteq> None" "a \<noteq> sv_root u" using u assms sv_keeps_window [OF u assms(2)] by (simp_all add: sv_keeps_def)
    from raise_ok [OF this] True show ?thesis using sv_keeps_trans [OF u] by auto
  qed (use u in simp)
  obtain s1 where s1: "move_window a new fl s = Some s1" "sv_keeps s s1" using move_window_ok [OF assms] by blast
  obtain s2 where s2: "(if fl AND COMPOSE_MOVE_RAISE \<noteq> 0 then compose_sv_raise a s1 else Some s1) = Some s2" "sv_keeps s s2"
    using step [OF s1(2)] by blast
  obtain s3 where s3: "(if fl AND COMPOSE_MOVE_SUNK \<noteq> 0 then compose_sv_raise a s2 else Some s2) = Some s3" "sv_keeps s s3"
    using step [OF s2(2)] by blast
  obtain x where x: "notify_move a (w_pos w) s3 = Some (s3\<lparr>sent := x\<rparr>)"
    using sv_keeps_notify [OF s3(2) assms(2)] by blast
  have "compose_sv_move a new fl s = (if w_pos w = new then Some s else Some (s3\<lparr>sent := x\<rparr>))"
    unfolding compose_sv_move.simps by (simp only: w s1 s2 s3 x Option.bind.simps)
  then show ?thesis using s3(2) sv_keeps_refl [OF assms(1)] by (auto simp: sv_keeps_def)
qed
section \<open>Resizing\<close>

lemma start_resize_ok:
  assumes "sv_ok s" and "windows s a \<noteq> None"
  shows "\<exists>t. compose_sv_start_resize a wh s = Some t \<and> sv_keeps s t"
proof -
  obtain w where w: "windows s a = Some w" using assms(2) by auto
  define v where "v = w\<lparr>w_flags := w_flags w OR COMPOSE_WIN_FLAGS_IN_RESIZE\<rparr>"
  define e where "e = \<lparr>ev_type = COMPOSE_EVENT_RESIZE, ev_size = 44, ev_win = Some (w_id w), ev_child = None, ev_root = None, ev_payload = Resized (w_sizes w) wh\<rparr>"
  have k: "sv_keeps s (set_window a v s)" using sv_keeps_set [OF assms(1) w, of v] by (simp add: v_def)
  have d: "sv_keeps s (set_window a (w\<lparr>w_delayed := wh, w_flags := w_flags w OR COMPOSE_WIN_FLAGS_HAS_DELAYED_RESIZE\<rparr>) s)"
    using sv_keeps_set [OF assms(1) w] by simp
  obtain x where x: "(if w_client w \<noteq> 0 then compose_sv_event_send (w_client w) e (set_window a v s) else Some (set_window a v s)) = Some ((set_window a v s)\<lparr>sent := x\<rparr>)"
    using if_sent [of "w_client w \<noteq> 0" "compose_sv_event_send (w_client w) e (set_window a v s)" "set_window a v s"]
      event_send_sent [of "set_window a v s" "w_client w" e] ownedD(1) [OF assms(1) w] by auto
  have "compose_sv_start_resize a wh s =
      (if w_flags w AND COMPOSE_WIN_FLAGS_IN_RESIZE \<noteq> 0
       then Some (set_window a (w\<lparr>w_delayed := wh, w_flags := w_flags w OR COMPOSE_WIN_FLAGS_HAS_DELAYED_RESIZE\<rparr>) s)
       else if w_sizes w = wh then Some s else Some ((set_window a v s)\<lparr>sent := x\<rparr>))"
    unfolding compose_sv_start_resize_def w Option.bind.simps Let_def v_def [symmetric] e_def [symmetric] x ..
  then show ?thesis using k d sv_keeps_refl [OF assms(1)] sv_keeps_trans [OF k sv_keeps_sent] by (auto simp: sv_keeps_def)
qed

lemma apply_size_ok:
  assumes "sv_ok s" and "windows s a \<noteq> None" and "a \<noteq> sv_root s"
  shows "\<exists>t. compose_sv_apply_size a s = Some t \<and> sv_keeps s t"
proof -
  obtain w where w: "windows s a = Some w" using assms(2) by auto
  define v where "v = w\<lparr>w_old_data_size := gc_data_size (w_gc w), w_sizes := (gc_w (w_gc w), gc_h (w_gc w)), w_flags := w_flags w AND NOT COMPOSE_WIN_FLAGS_IN_RESIZE\<rparr>"
  define u where "u = v\<lparr>w_flags := w_flags v AND NOT COMPOSE_WIN_FLAGS_HAS_DELAYED_RESIZE\<rparr>"
  have kv: "sv_keeps s (set_window a v s)" using sv_keeps_set [OF assms(1) w, of v] assms(3) by (simp add: v_def)
  have ku: "sv_keeps s (set_window a u s)" using sv_keeps_set [OF assms(1) w, of u] assms(3) by (simp add: u_def v_def)
  obtain t where t: "compose_sv_start_resize a (w_delayed v) (set_window a u s) = Some t" "sv_keeps s t"
    using start_resize_ok [of "set_window a u s" a "w_delayed v"] ku sv_keeps_trans [OF ku] by (auto simp: sv_keeps_def)
  have "compose_sv_apply_size a s =
      (if w_flags w AND COMPOSE_WIN_FLAGS_IN_RESIZE = 0 then Some s
       else if w_flags v AND COMPOSE_WIN_FLAGS_HAS_DELAYED_RESIZE \<noteq> 0 then Some t else Some (set_window a v s))"
    unfolding compose_sv_apply_size_def w Option.bind.simps Let_def v_def [symmetric] u_def [symmetric] t(1) ..
  then show ?thesis using kv t(2) sv_keeps_refl [OF assms(1)] by auto
qed

section \<open>Creating windows\<close>

text \<open>A new window at a fresh address, entered into the list of its parent when it has one.\<close>

definition with_window :: "(nat \<rightharpoonup> window) \<Rightarrow> nat \<Rightarrow> window \<Rightarrow> nat list \<Rightarrow> (nat \<rightharpoonup> window)" where
  "with_window h a v cs = (h(a \<mapsto> v))(w_parent v := map_option (\<lambda>w. w\<lparr>w_children := cs\<rparr>) (h (w_parent v)))"

lemma with_window_cases:
  assumes "with_window h a v cs b = Some u" and "h a = None" and "w_parent v \<noteq> a"
  shows "b = a \<and> u = v \<or> b \<noteq> a \<and> (\<exists>w. h b = Some w \<and> u = (if b = w_parent v then w\<lparr>w_children := cs\<rparr> else w))"
  using assms by (auto simp: with_window_def split: if_splits)

lemma with_window_other:
  assumes "h b = Some w" and "h a = None"
  shows "with_window h a v cs b = Some (if b = w_parent v then w\<lparr>w_children := cs\<rparr> else w)"
  using assms by (auto simp: with_window_def)

lemma with_window_new: "w_parent v \<noteq> a \<Longrightarrow> with_window h a v cs a = Some v"
  by (simp add: with_window_def)

lemma forest_fresh: "forest h m \<Longrightarrow> h m = None"
  using forestD(2) [of h m m] by (cases "h m") auto

lemma forest_null: "forest h m \<Longrightarrow> h 0 = None"
  using forestD(1) [of h m 0] by (cases "h 0") auto

lemma forest_with:
  assumes "forest h m" and "0 < m" and "w_children v = []" and "w_parent v \<noteq> 0 \<Longrightarrow> h (w_parent v) \<noteq> None"
    and "\<And>p. h (w_parent v) = Some p \<Longrightarrow> mset cs = mset (w_children p @ [m])"
  shows "forest (with_window h m v cs) (Suc m)"
proof -
  have fr: "h m = None" using forest_fresh [OF assms(1)] .
  have pm: "w_parent v \<noteq> m" using assms(2,4) fr by auto
  have ch: "(\<exists>u. with_window h m v cs c = Some u \<and> w_parent u = b) \<longleftrightarrow> (\<exists>u. h c = Some u \<and> w_parent u = b) \<or> c = m \<and> b = w_parent v" for b c
  proof (cases "c = m")
    case True
    then show ?thesis using fr by (auto simp: with_window_new [OF pm])
  next
    case False
    then show ?thesis by (cases "h c") (auto simp: with_window_def)
  qed
  show ?thesis
    unfolding forest_def ch
  proof (intro allI impI)
    fix b u assume b: "with_window h m v cs b = Some u"
    from with_window_cases [OF b fr pm] consider "b = m" "u = v"
      | w where "b \<noteq> m" "h b = Some w" "u = (if b = w_parent v then w\<lparr>w_children := cs\<rparr> else w)" by blast
    then show "0 < b \<and> b < Suc m \<and> (w_parent u \<noteq> 0 \<longrightarrow> w_parent u < b \<and> with_window h m v cs (w_parent u) \<noteq> None) \<and>
        distinct (w_children u) \<and> set (w_children u) = {c. (\<exists>u. h c = Some u \<and> w_parent u = b) \<or> c = m \<and> b = w_parent v}"
    proof cases
      case 1
      have "w_parent v < m" if "w_parent v \<noteq> 0" using assms(4) that forestD(2) [OF assms(1)] by fastforce
      moreover have "w_parent v \<noteq> 0 \<Longrightarrow> with_window h m v cs (w_parent v) \<noteq> None" using assms(4) fr with_window_other by fastforce
      moreover have "\<not> (\<exists>u. h c = Some u \<and> w_parent u = m)" for c using forestD(4) [OF assms(1), of c] fr assms(2) by fastforce
      ultimately show ?thesis using 1 assms(2,3) pm by auto
    next
      case 2
      note w = forestD [OF assms(1) 2(2)]
      have cs: "b = w_parent v \<Longrightarrow> distinct cs \<and> set cs = insert m (set (w_children w))"
        using assms(5) [of w] 2(2) w(5) w(6) [of m] fr
        mset_eq_imp_distinct_iff [of cs "w_children w @ [m]"] mset_eq_setD [of cs "w_children w @ [m]"] by auto
      have par: "w_parent u = w_parent w" using 2(3) by simp
      have "w_parent w \<noteq> 0 \<Longrightarrow> with_window h m v cs (w_parent w) \<noteq> None" using w(4) fr with_window_other by fastforce
      then show ?thesis using w cs 2 par by (auto split: if_splits)
    qed
  qed
qed
text \<open>The conditions on a new window: its client is connected, its parent exists and has the same owner.\<close>

definition window_fits :: "server \<Rightarrow> window \<Rightarrow> bool" where
  "window_fits s v \<longleftrightarrow> w_children v = [] \<and> w_root v = sv_root s \<and> (w_client v = 0 \<or> clients s (w_client v) \<noteq> None) \<and>
     (w_parent v \<noteq> 0 \<longrightarrow> windows s (w_parent v) \<noteq> None \<and>
       (w_parent v = sv_root s \<or> w_client v = w_client (the (windows s (w_parent v)))))"

lemma sv_ok_with:
  assumes "sv_ok s" and "window_fits s v" and "\<And>p. windows s (w_parent v) = Some p \<Longrightarrow> mset cs = mset (w_children p @ [brk s])"
    and "stacked (with_window (windows s) (brk s) v cs)" and "distinct ws" and "set ws = insert (brk s) (set (sv_windows s))"
  shows "sv_ok (s\<lparr>brk := Suc (brk s), sv_window_id := n, sv_windows := ws, windows := with_window (windows s) (brk s) v cs\<rparr>)"
    (is "sv_ok ?t")
proof -
  let ?a = "brk s" and ?h = "windows s"
  let ?g = "with_window ?h ?a v cs"
  have f: "forest ?h ?a" using assms(1) by (simp add: sv_ok_def)
  have fr: "?h ?a = None" and nul: "?h 0 = None" using forest_fresh [OF f] forest_null [OF f] by auto
  note oth = with_window_other [where h = "windows s" and a = "brk s" and v = v and cs = cs, OF _ fr]
  note cas = with_window_cases [where h = "windows s" and a = "brk s" and v = v and cs = cs, OF _ fr]
  obtain r where r: "?h (sv_root s) = Some r" "w_parent r = 0" "w_client r = 0" "sv_root s \<noteq> 0" using rootE [OF assms(1)] by metis
  have pos: "0 < ?a" using forestD(2) [OF f r(1)] by simp
  have pm: "w_parent v \<noteq> ?a" using assms(2) fr pos by (auto simp: window_fits_def)
  have fg: "forest ?g (Suc ?a)" using assms(2,3) pos by (intro forest_with [OF f]) (auto simp: window_fits_def)
  have cl: "b \<noteq> ?a \<Longrightarrow> w_client (the (?g b)) = w_client (the (?h b))" if "?h b \<noteq> None" for b
    using that oth [of b] by fastforce
  have dm: "dom ?g = insert ?a (dom ?h)"
    using with_window_new [OF pm] oth cas [OF _ pm] by (fastforce simp: dom_def)
  have "owned ?t"
    unfolding owned_def
  proof (intro allI impI)
    fix b u assume "windows ?t b = Some u"
    then have b: "?g b = Some u" by simp
    from with_window_cases [OF b fr pm] consider "b = ?a" "u = v"
      | w where "b \<noteq> ?a" "?h b = Some w" "u = (if b = w_parent v then w\<lparr>w_children := cs\<rparr> else w)" by blast
    then show "(w_client u = 0 \<or> clients ?t (w_client u) \<noteq> None) \<and> (w_root u = 0 \<or> w_root u = sv_root ?t) \<and> (w_client u \<noteq> 0 \<longrightarrow> w_root u \<noteq> 0) \<and>
        (w_parent u \<noteq> 0 \<longrightarrow> w_parent u \<noteq> sv_root ?t \<longrightarrow> w_client u = w_client (the (windows ?t (w_parent u))))"
    proof cases
      case 1
      then show ?thesis using assms(2) r(4) cl [of "w_parent v"] pm by (auto simp: window_fits_def)
    next
      case 2
      have par: "w_parent w \<noteq> 0 \<Longrightarrow> ?h (w_parent w) \<noteq> None \<and> w_parent w \<noteq> ?a" using forestD(4) [OF f 2(2)] fr by auto
      have u: "w_client u = w_client w" "w_root u = w_root w" "w_parent u = w_parent w" using 2(3) by simp_all
      show ?thesis unfolding u using ownedD [OF assms(1) 2(2)] par cl [of "w_parent w"] by auto
    qed
  qed
  moreover have "listed ?t"
  proof -
    have "listed s" using assms(1) by (simp add: sv_ok_def)
    moreover from this have "\<forall>c\<in>dom (clients s). 0 < c \<and> c < Suc ?a" unfolding listed_def by (blast intro: less_SucI)
    ultimately show ?thesis using assms(5,6) dm by (simp add: listed_def)
  qed
  moreover have "rooted ?t"
  proof -
    have "sv_root s \<noteq> ?a" "sv_overlay s \<noteq> ?a" using assms(1) fr by (auto simp: sv_ok_def rooted_def)
    then show ?thesis using assms(1) oth by (fastforce simp: sv_ok_def rooted_def)
  qed
  moreover have "screen_ok ?t" using assms(1) by (simp add: sv_ok_def screen_ok_def)
  moreover have "targets_ok ?t" using assms(1) dm by (auto simp: sv_ok_def targets_ok_def dom_def set_eq_iff)
  ultimately show ?thesis using fg assms(4) by (simp add: sv_ok_def)
qed

lemma z_of_with:
  assumes "h a = None" and "h b \<noteq> None"
  shows "z_of (with_window h a v cs) b = z_of h b"
  using assms with_window_other [of h b _ a v cs] by (fastforce simp: z_of_def)

lemma with_window_sorted:
  assumes "sv_ok s" and "window_fits s v" and "with_window (windows s) (brk s) v cs b = Some u" and "b \<noteq> w_parent v"
  shows "sorted (map (z_of (with_window (windows s) (brk s) v cs)) (w_children u))"
proof -
  have f: "forest (windows s) (brk s)" using assms(1) by (simp add: sv_ok_def)
  have fr: "windows s (brk s) = None" using forest_fresh [OF f] .
  have pm: "w_parent v \<noteq> brk s" using assms(1,2) fr sv_ok_windows [OF assms(1), of "brk s"] forestD(2) [OF f] rootE [OF assms(1)]
    by (metis gr_implies_not_zero window_fits_def)
  from with_window_cases [OF assms(3) fr pm] show ?thesis
  proof (elim disjE conjE exE)
    fix w assume w: "windows s b = Some w" "u = (if b = w_parent v then w\<lparr>w_children := cs\<rparr> else w)"
    then have "map (z_of (with_window (windows s) (brk s) v cs)) (w_children u) = map (z_of (windows s)) (w_children w)"
      using assms(4) forest_childD [OF f w(1)] z_of_with [of "windows s" "brk s" _ v cs, OF fr] by auto
    then show ?thesis using assms(1) w(1) by (simp add: sv_ok_def stacked_def)
  qed (use assms(2) in \<open>simp add: window_fits_def\<close>)
qed

lemma add_child_result:
  assumes "sv_ok s" and "window_fits s v"
    and s1_def: "s1 = set_window (brk s) v (s\<lparr>brk := Suc (brk s), sv_window_id := n, sv_windows := ws\<rparr>)"
  shows "\<exists>cs. add_child (w_parent v) (brk s) s1 = Some (s1\<lparr>windows := with_window (windows s) (brk s) v cs\<rparr>) \<and>
    (\<forall>p. windows s (w_parent v) = Some p \<longrightarrow> mset cs = mset (w_children p @ [brk s])) \<and>
    stacked (with_window (windows s) (brk s) v cs)"
proof -
  let ?a = "brk s"
  have f: "forest (windows s) ?a" using assms(1) by (simp add: sv_ok_def)
  have fr: "windows s ?a = None" and nul: "windows s 0 = None" using forest_fresh [OF f] forest_null [OF f] by auto
  have pos: "0 < ?a" using rootE [OF assms(1)] forestD(2) [OF f] by (metis gr_implies_not_zero neq0_conv)
  show ?thesis
  proof (cases "w_parent v = 0")
    case True
    then have "with_window (windows s) ?a v [] = (windows s)(?a \<mapsto> v)" using nul pos by (auto simp: with_window_def fun_eq_iff)
    moreover have "stacked (with_window (windows s) ?a v [])"
      unfolding stacked_def using with_window_sorted [OF assms(1,2)] True nul pos by (metis calculation fun_upd_apply less_numeral_extra(3) option.distinct(1))
    ultimately show ?thesis using True nul by (intro exI [of _ "[]"]) (simp add: add_child_def s1_def set_window_def)
  next
    case False
    then obtain p where p: "windows s (w_parent v) = Some p" using assms(2) by (auto simp: window_fits_def)
    have pm: "w_parent v \<noteq> ?a" using p fr by auto
    let ?cs = "w_children p @ [?a]"
    define s2 where "s2 = set_window (w_parent v) (p\<lparr>w_children := ?cs\<rparr>) s1"
    have h2: "windows s2 = with_window (windows s) ?a v ?cs" using p pm by (simp add: s2_def s1_def with_window_def)
    have f2: "forest (windows s2) (Suc ?a)"
      unfolding h2 using assms(2) p pos by (intro forest_with [OF f]) (auto simp: window_fits_def)
    have srt: "\<forall>b u. windows s2 b = Some u \<longrightarrow> b \<noteq> w_parent v \<longrightarrow> sorted (map (z_of (windows s2)) (w_children u))"
      unfolding h2 using with_window_sorted [OF assms(1,2)] by blast
    have w2: "windows s2 (w_parent v) = Some (p\<lparr>w_children := ?cs\<rparr>)" unfolding h2 using with_window_other [OF p fr] by simp
    define cs where "cs = sort_key (z_of (windows s2)) ?cs"
    have res: "compose_sv_restack (Suc ?a) (w_parent v) s2 = Some (set_window (w_parent v) (p\<lparr>w_children := cs\<rparr>) s2)"
      using restack_one [OF f2 w2 _ srt, of "Suc ?a"] by (simp add: cs_def)
    have h3: "(windows s2)(w_parent v \<mapsto> p\<lparr>w_children := cs\<rparr>) = with_window (windows s) ?a v cs"
      unfolding h2 using p by (simp add: with_window_def)
    have "z_of ((windows s2)(w_parent v \<mapsto> p\<lparr>w_children := cs\<rparr>)) = z_of (windows s2)" using w2 by (intro z_of_upd) simp
    then have "stacked (with_window (windows s) ?a v cs)"
      unfolding h3 [symmetric] stacked_def using srt by (auto simp: cs_def split: if_splits)
    moreover have "add_child (w_parent v) ?a s1 = Some (s1\<lparr>windows := with_window (windows s) ?a v cs\<rparr>)"
      using False p pm res h3 by (simp add: add_child_def s2_def s1_def set_window_def)
    ultimately show ?thesis using p by (intro exI [of _ cs]) (simp add: cs_def)
  qed
qed

lemma announce_ok:
  assumes "sv_ok s" and "windows s a = Some w" and "w_client w = cl"
  shows "\<exists>x. announce_window cl a s = Some (s\<lparr>sent := x\<rparr>)"
proof (cases "cl = 0")
  case True
  then show ?thesis by (simp add: announce_window_def exI [of _ "sent s"])
next
  case False
  then have "w_root w = sv_root s" using ownedD(2,3) [OF assms(1,2)] assms(3) by simp
  then obtain r where r: "windows s (w_root w) = Some r" using rootE [OF assms(1)] by metis
  define e where "e = \<lparr>ev_type = COMPOSE_EVENT_WIN, ev_size = 24, ev_win = Some (w_id w), ev_child = Some 0, ev_root = Some (w_id r), ev_payload = NoPayload\<rparr>"
  obtain x where x: "compose_sv_event_send cl e s = Some (s\<lparr>sent := x\<rparr>)"
    using event_send_sent [of s cl e] ownedD(1) [OF assms(1,2)] assms(3) False by auto
  obtain y g where y: "compose_sv_event_propagate a e (s\<lparr>sent := x\<rparr>) = Some (s\<lparr>sent := y\<rparr>, g)"
    using propagate_sent [of "s\<lparr>sent := x\<rparr>" a e] assms(1,2) by auto
  show ?thesis
    using False assms(2) r x y by (intro exI [of _ y]) (simp add: announce_window_def Let_def e_def [symmetric])
qed

lemma create_window_ok:
  assumes "sv_ok s" and "cl = 0 \<or> clients s cl \<noteq> None"
    and "par \<noteq> 0 \<Longrightarrow> \<exists>p. windows s par = Some p \<and> (par = sv_root s \<or> cl = w_client p)"
  shows "\<exists>t. compose_sv_create_window cl par props uuid s = Some (brk s, t) \<and> sv_ok t \<and>
    dom (windows t) = insert (brk s) (dom (windows s)) \<and> input_focus t = brk s \<and> sv_root t = sv_root s \<and> clients t = clients s \<and>
    sv_clients t = sv_clients s \<and> sv_remove_queue t = sv_remove_queue s"
proof -
  obtain layer where layer: "(if par \<noteq> 0 then do { p \<leftarrow> windows s par; Some (w_layer p + 1) } else Some 0) = Some layer"
    using assms(3) by (cases "par = 0") auto
  define n where "n = sv_window_id s + 1"
  define v where "v = new_window n (sv_root s) cl par layer props uuid"
  have v: "w_parent v = par" "w_client v = cl" by (simp_all add: v_def new_window_def)
  have fits: "window_fits s v" using assms(2,3) by (auto simp: window_fits_def v_def new_window_def)
  define s1 where "s1 = set_window (brk s) v (s\<lparr>brk := Suc (brk s), sv_window_id := n, sv_windows := sv_windows s @ [brk s]\<rparr>)"
  obtain cs where cs: "add_child par (brk s) s1 = Some (s1\<lparr>windows := with_window (windows s) (brk s) v cs\<rparr>)"
    "\<forall>p. windows s (w_parent v) = Some p \<longrightarrow> mset cs = mset (w_children p @ [brk s])" "stacked (with_window (windows s) (brk s) v cs)"
    using add_child_result [OF assms(1) fits s1_def] v(1) by blast
  define s2 where "s2 = s1\<lparr>windows := with_window (windows s) (brk s) v cs\<rparr>"
  define ws where "ws = sort_seq (layer_above s2) (sv_windows s2)"
  have f: "forest (windows s) (brk s)" using assms(1) by (simp add: sv_ok_def)
  have fr: "windows s (brk s) = None" using forest_fresh [OF f] .
  have par: "par \<noteq> brk s" using assms(3) fr rootE [OF assms(1)] forestD(2) [OF f] by (metis gr_implies_not_zero option.distinct(1))
  have lst: "distinct (sv_windows s)" "set (sv_windows s) = dom (windows s)" using assms(1) by (simp_all add: sv_ok_def listed_def)
  have ws: "distinct ws" "set ws = insert (brk s) (set (sv_windows s))" using lst fr by (auto simp: ws_def s2_def s1_def)
  define s3 where "s3 = s2\<lparr>sv_windows := ws\<rparr>"
  have s3: "s3 = s\<lparr>brk := Suc (brk s), sv_window_id := n, sv_windows := ws, windows := with_window (windows s) (brk s) v cs\<rparr>"
    by (simp add: s3_def s2_def s1_def set_window_def)
  have ok: "sv_ok s3" unfolding s3 using cs(2) by (intro sv_ok_with [OF assms(1) fits _ cs(3) ws]) blast
  have new: "windows s3 (brk s) = Some v" using with_window_new [of v "brk s"] par v by (simp add: s3)
  have dm: "set ws = dom (windows s3)" using ok by (simp add: sv_ok_def listed_def s3)
  have sorted: "sort_windows (layer_above s2) s2 (sv_windows s2) = Some ws"
  proof -
    have "set (sv_windows s2) = dom (windows s2)" using dm by (simp add: ws_def s3_def)
    then show ?thesis by (simp add: sort_windows_def ws_def list_all_iff dom_def)
  qed
  obtain x where x: "announce_window cl (brk s) s3 = Some (s3\<lparr>sent := x\<rparr>)" using announce_ok [OF ok new v(2)] by blast
  have nz: "brk s \<noteq> 0" using sv_ok_windows [OF ok new] by simp
  obtain y where y: "compose_sv_focus (brk s) (s3\<lparr>sent := x\<rparr>) = Some (s3\<lparr>input_focus := brk s, sent := y\<rparr>)" "sv_ok (s3\<lparr>input_focus := brk s, sent := y\<rparr>)"
    using focus_ok [of "s3\<lparr>sent := x\<rparr>" "brk s"] ok new nz by auto
  have "compose_sv_create_window cl par props uuid s = Some (brk s, s3\<lparr>input_focus := brk s, sent := y\<rparr>)"
    unfolding compose_sv_create_window_def Let_def n_def [symmetric]
    by (simp only: layer Option.bind.simps v_def [symmetric] s1_def [symmetric] cs(1) s2_def [symmetric] sorted s3_def [symmetric] x y(1))
  then show ?thesis using y(2) dm lst ws by (auto simp: s3)
qed

end
