(* ===== verification/Compose_Remove.thy ===== *)
theory Compose_Remove
  imports Compose_Ops
begin

text \<open>
  Removing windows: \<^verbatim>\<open>compose_sv_remove_window\<close> removes exactly the windows below its argument, and
  \<^verbatim>\<open>compose_sv_disconnect\<close> exactly the windows of the client.
\<close>

section \<open>Below a window\<close>

inductive below :: "(nat \<rightharpoonup> window) \<Rightarrow> nat \<Rightarrow> nat \<Rightarrow> bool" for h a where
  below_refl: "below h a a"
| below_step: "h x = Some w \<Longrightarrow> w_parent w \<noteq> 0 \<Longrightarrow> below h a (w_parent w) \<Longrightarrow> below h a x"

lemma below_trans: "below h b x \<Longrightarrow> below h a b \<Longrightarrow> below h a x"
  by (induction rule: below.induct) (auto intro: below_step)

lemma below_le:
  assumes "forest h m"
  shows "below h a x \<Longrightarrow> a \<le> x"
proof (induction rule: below.induct)
  case (below_step x w)
  then show ?case using forestD(3) [OF assms below_step(1,2)] by simp
qed simp

lemma below_parent: "below h a x \<Longrightarrow> x \<noteq> a \<Longrightarrow> h x = Some w \<Longrightarrow> w_parent w \<noteq> 0 \<and> below h a (w_parent w)"
  by (erule below.cases) auto

lemma below_dom: "below h a x \<Longrightarrow> h a \<noteq> None \<Longrightarrow> h x \<noteq> None"
  by (erule below.cases) auto

lemma below_linear: "below h a x \<Longrightarrow> below h b x \<Longrightarrow> below h a b \<or> below h b a"
proof (induction rule: below.induct)
  case (below_step x w)
  show ?case
  proof (cases "x = b")
    case True
    then show ?thesis using below.below_step [OF below_step.hyps(1,2,3)] by simp
  next
    case False
    then show ?thesis using below_step.IH below_parent [OF below_step.prems _ below_step.hyps(1)] by simp
  qed
qed simp

lemma siblings_disjoint:
  assumes "forest h m" and "h c = Some u" and "h d = Some v" and "w_parent u = w_parent v" and "w_parent u \<noteq> 0" and "c \<noteq> d" and "below h c x"
  shows "\<not> below h d x"
proof
  assume "below h d x"
  then consider "below h c d" | "below h d c" using below_linear [OF assms(7)] by blast
  then show False
  proof cases
    case 1
    then have "c \<le> w_parent v" using below_parent [OF 1 _ assms(3)] assms(6) below_le [OF assms(1)] by auto
    then show False using forestD(3) [OF assms(1,2,5)] assms(4) by simp
  next
    case 2
    then have "d \<le> w_parent u" using below_parent [OF 2 _ assms(2)] assms(6) below_le [OF assms(1)] by auto
    then show False using forestD(3) [OF assms(1,3)] assms(4,5) by simp
  qed
qed

lemma below_children:
  assumes "forest h m" and "h a = Some w"
  shows "{x. below h a x} = insert a (\<Union>c\<in>set (w_children w). {x. below h c x})"
proof (intro equalityI subsetI)
  fix x assume "x \<in> {x. below h a x}"
  then have "below h a x" by simp
  then show "x \<in> insert a (\<Union>c\<in>set (w_children w). {x. below h c x})"
  proof (induction rule: below.induct)
    case (below_step x u)
    then show ?case using forestD(6) [OF assms, of x] by (auto intro: below.intros)
  qed simp
next
  fix x assume "x \<in> insert a (\<Union>c\<in>set (w_children w). {x. below h c x})"
  moreover have "below h a c" if c: "c \<in> set (w_children w)" for c
  proof -
    obtain v where "h c = Some v" "w_parent v = a" using forestD(6) [OF assms] c by auto
    then show ?thesis using forestD(1) [OF assms] by (auto intro: below.intros)
  qed
  ultimately show "x \<in> {x. below h a x}" by (auto intro: below_refl below_trans)
qed

section \<open>Pruning\<close>

definition prune :: "nat set \<Rightarrow> server \<Rightarrow> server" where
  "prune D s = s\<lparr>windows := (windows s) |` (- D), sv_windows := filter (\<lambda>x. x \<notin> D) (sv_windows s),
     sv_grabs := filter (\<lambda>g. g_window g \<notin> D) (sv_grabs s), input_focus := (if input_focus s \<in> D then 0 else input_focus s)\<rparr>"

lemma prune_simps [simp]:
  "windows (prune D s) = (windows s) |` (- D)" "sv_windows (prune D s) = filter (\<lambda>x. x \<notin> D) (sv_windows s)"
  "sv_grabs (prune D s) = filter (\<lambda>g. g_window g \<notin> D) (sv_grabs s)" "input_focus (prune D s) = (if input_focus s \<in> D then 0 else input_focus s)"
  "clients (prune D s) = clients s" "sv_clients (prune D s) = sv_clients s" "brk (prune D s) = brk s" "sv_root (prune D s) = sv_root s"
  "sv_overlay (prune D s) = sv_overlay s" "sv_remove_queue (prune D s) = sv_remove_queue s" "closed (prune D s) = closed s" "sent (prune D s) = sent s" "sv_fb_w (prune D s) = sv_fb_w s" "sv_fb_h (prune D s) = sv_fb_h s" "mouse_x (prune D s) = mouse_x s" "mouse_y (prune D s) = mouse_y s"
  by (simp_all add: prune_def)

lemma prune_prune: "prune D (prune E s) = prune (E \<union> D) s"
  by (simp add: prune_def restrict_map_def fun_eq_iff)

lemma prune_empty [simp]: "prune {} s = s"
  by (cases s) (simp add: prune_def restrict_map_def)

lemma forget_focus_simps [simp]:
  "windows (forget_focus a s) = windows s" "sv_windows (forget_focus a s) = sv_windows s" "sv_grabs (forget_focus a s) = sv_grabs s"
  by (simp_all add: forget_focus_def)

text \<open>The last steps of a removal, after the children are gone.\<close>

lemma prune_insert:
  assumes "distinct (sv_windows s)"
  shows "(prune D (forget_focus a s))
     \<lparr>sv_windows := remove1 a (filter (\<lambda>x. x \<notin> D) (sv_windows s)),
      sv_grabs := filter (\<lambda>g. g_window g \<noteq> a) (filter (\<lambda>g. g_window g \<notin> D) (sv_grabs s)),
      windows := ((windows s) |` (- D))(a := None)\<rparr> = prune (insert a D) s"
proof -
  have ws: "remove1 a (filter (\<lambda>x. x \<notin> D) (sv_windows s)) = filter (\<lambda>x. x \<notin> insert a D) (sv_windows s)"
    using assms by (simp add: distinct_remove1_removeAll removeAll_filter_not_eq conj_commute eq_commute)
  have gs: "filter (\<lambda>g. g_window g \<noteq> a) (filter (\<lambda>g. g_window g \<notin> D) (sv_grabs s)) = filter (\<lambda>g. g_window g \<notin> insert a D) (sv_grabs s)"
    by (simp add: conj_commute)
  have hs: "((windows s) |` (- D))(a := None) = (windows s) |` (- insert a D)" by (auto simp: restrict_map_def fun_eq_iff)
  show ?thesis unfolding ws gs hs by (cases s) (auto simp: prune_def forget_focus_def)
qed

lemma remove_children:
  fixes f :: "nat \<Rightarrow> server \<Rightarrow> server option"
  assumes "\<And>c s. c \<in> set cs \<Longrightarrow> \<forall>x. below h c x \<longrightarrow> windows s x = h x \<Longrightarrow> distinct (sv_windows s) \<Longrightarrow> f c s = Some (prune {x. below h c x} s)"
    and "\<And>c d x. c \<in> set cs \<Longrightarrow> d \<in> set cs \<Longrightarrow> c \<noteq> d \<Longrightarrow> below h c x \<Longrightarrow> \<not> below h d x"
    and "distinct cs" and "\<forall>c\<in>set cs. \<forall>x. below h c x \<longrightarrow> windows s x = h x" and "distinct (sv_windows s)"
  shows "for_each f cs s = Some (prune (\<Union>c\<in>set cs. {x. below h c x}) s)"
  using assms
proof (induction cs arbitrary: s)
  case (Cons c cs)
  let ?t = "prune {x. below h c x} s"
  have t: "f c s = Some ?t" using Cons.prems(1) [of c s] Cons.prems(4,5) by simp
  have "for_each f cs ?t = Some (prune (\<Union>c\<in>set cs. {x. below h c x}) ?t)"
  proof (rule Cons.IH)
    show "\<not> below h d x" if "b \<in> set cs" "d \<in> set cs" "b \<noteq> d" "below h b x" for b d x
      using Cons.prems(2) [of b d x] that by simp
    show "\<forall>d\<in>set cs. \<forall>x. below h d x \<longrightarrow> windows ?t x = h x"
      using Cons.prems(2) [of _ c] Cons.prems(3,4) by (auto simp: restrict_map_def)
  qed (use Cons.prems in auto)
  then show ?case using t by (simp add: prune_prune)
qed simp

lemma remove_window_prunes:
  assumes "forest h m"
  shows "h a \<noteq> None \<Longrightarrow> m \<le> n + a \<Longrightarrow> \<forall>x. below h a x \<longrightarrow> windows s x = h x \<Longrightarrow> distinct (sv_windows s) \<Longrightarrow>
    compose_sv_remove_window n a False s = Some (prune {x. below h a x} s)"
proof (induction n arbitrary: a s)
  case 0
  then show ?case using assms by (auto dest: forestD(2))
next
  case (Suc n)
  obtain w where w: "h a = Some w" using Suc.prems(1) by auto
  have ws: "windows s a = Some w" using Suc.prems(3) w by (simp add: below_refl)
  let ?s = "forget_focus a s"
  let ?D = "\<Union>c\<in>set (w_children w). {x. below h c x}"
  have B: "{x. below h a x} = insert a ?D" using below_children [OF assms w] .
  have "for_each (\<lambda>c. compose_sv_remove_window n c False) (w_children w) ?s = Some (prune ?D ?s)"
  proof (rule remove_children)
    fix c and t :: server assume c: "c \<in> set (w_children w)" "\<forall>x. below h c x \<longrightarrow> windows t x = h x" "distinct (sv_windows t)"
    then show "compose_sv_remove_window n c False t = Some (prune {x. below h c x} t)"
      using forest_childD [OF assms w c(1)] Suc.prems(2) by (intro Suc.IH) auto
  next
    fix c d x assume c: "c \<in> set (w_children w)" "d \<in> set (w_children w)" "c \<noteq> d" "below h c x"
    obtain u v where "h c = Some u" "w_parent u = a" "h d = Some v" "w_parent v = a" using c(1,2) forestD(6) [OF assms w] by auto
    then show "\<not> below h d x" using siblings_disjoint [OF assms] c(3,4) forestD(1) [OF assms w] by auto
  next
    show "distinct (w_children w)" using forestD(5) [OF assms w] .
    show "\<forall>c\<in>set (w_children w). \<forall>x. below h c x \<longrightarrow> windows ?s x = h x" using Suc.prems(3) B by auto
    show "distinct (sv_windows ?s)" using Suc.prems(4) by simp
  qed
  then show ?case
    using ws prune_insert [OF Suc.prems(4), of ?D a] B by simp
qed
section \<open>Taking out one tree\<close>

definition uproot :: "nat \<Rightarrow> server \<Rightarrow> server" where
  "uproot a s =
     (let t = prune {x. below (windows s) a x} s; par = w_parent (the (windows s a))
      in t\<lparr>windows := (windows t)(par := map_option (\<lambda>p. p\<lparr>w_children := remove1 a (w_children p)\<rparr>) (windows t par))\<rparr>)"

lemma remove_window_uproots:
  assumes "sv_ok s" and "windows s a = Some w"
  shows "compose_sv_remove_window (brk s) a True s = Some (uproot a s)"
proof -
  let ?h = "windows s"
  have f: "forest ?h (brk s)" and dw: "distinct (sv_windows s)" using assms(1) by (simp_all add: sv_ok_def listed_def)
  obtain n where n: "brk s = Suc n" using forestD(2) [OF f assms(2)] by (cases "brk s") auto
  let ?s = "forget_focus a s"
  let ?D = "\<Union>c\<in>set (w_children w). {x. below ?h c x}"
  have B: "{x. below ?h a x} = insert a ?D" using below_children [OF f assms(2)] .
  have F: "compose_sv_remove_window (Suc n) a False s = Some (prune (insert a ?D) s)"
    using remove_window_prunes [OF f, of a "Suc n" s] assms(2) dw n B by simp
  then obtain t where t: "for_each (\<lambda>c. compose_sv_remove_window n c False) (w_children w) ?s = Some t"
    and tp: "t\<lparr>sv_windows := remove1 a (sv_windows t), sv_grabs := filter (\<lambda>g. g_window g \<noteq> a) (sv_grabs t), windows := (windows t)(a := None)\<rparr> = prune (insert a ?D) s"
    using assms(2) by (cases "for_each (\<lambda>c. compose_sv_remove_window n c False) (w_children w) ?s") auto
  have par: "w_parent w \<noteq> a" and np: "w_parent w \<noteq> 0 \<Longrightarrow> w_parent w \<notin> {x. below ?h a x} \<and> ?h (w_parent w) \<noteq> None"
    using forestD(1,3,4) [OF f assms(2)] below_le [OF f, of a "w_parent w"] by fastforce+
  have tw: "windows t x = windows (prune (insert a ?D) s) x" if "x \<noteq> a" for x
    using arg_cong [OF tp, of "\<lambda>u. windows u x"] that by simp
  show ?thesis
  proof (cases "w_parent w = 0")
    case True
    have "uproot a s = prune (insert a ?D) s"
      using True assms(2) forest_null [OF f] B by (cases s) (simp add: uproot_def Let_def prune_def restrict_map_def fun_upd_idem)
    then show ?thesis using True assms(2) t tp n by simp
  next
    case False
    then obtain p where p: "?h (w_parent w) = Some p" using np by auto
    have wp: "windows t (w_parent w) = Some p" "windows (prune (insert a ?D) s) (w_parent w) = Some p"
      using tw [OF par] np [OF False] p B by (simp_all add: restrict_map_def)
    have "uproot a s = (prune (insert a ?D) s)\<lparr>windows := (windows (prune (insert a ?D) s))(w_parent w \<mapsto> p\<lparr>w_children := remove1 a (w_children p)\<rparr>)\<rparr>"
      using assms(2) wp B by (simp add: uproot_def Let_def)
    also have "\<dots> = t\<lparr>sv_windows := remove1 a (sv_windows t), sv_grabs := filter (\<lambda>g. g_window g \<noteq> a) (sv_grabs t),
        windows := ((windows t)(w_parent w \<mapsto> p\<lparr>w_children := remove1 a (w_children p)\<rparr>))(a := None)\<rparr>"
      unfolding tp [symmetric] using par by (simp add: fun_upd_twist)
    finally show ?thesis
      using False assms(2) t wp n by (simp add: delete_from_parent_def set_window_def)
  qed
qed

lemma uproot_window:
  assumes "sv_ok s" and "windows s a = Some w"
  shows "windows (uproot a s) x =
    (if below (windows s) a x then None
     else if x = w_parent w then map_option (\<lambda>p. p\<lparr>w_children := remove1 a (w_children p)\<rparr>) (windows s x) else windows s x)"
proof -
  have f: "forest (windows s) (brk s)" using assms(1) by (simp add: sv_ok_def)
  have "\<not> below (windows s) a (w_parent w)"
    using forestD(1,3) [OF f assms(2)] below_le [OF f, of a "w_parent w"] by fastforce
  then show ?thesis using assms(2) by (simp add: uproot_def Let_def restrict_map_def)
qed

lemma uproot_frame [simp]:
  "sv_windows (uproot a s) = filter (\<lambda>x. \<not> below (windows s) a x) (sv_windows s)" "clients (uproot a s) = clients s" "brk (uproot a s) = brk s"
  "sv_clients (uproot a s) = sv_clients s" "sv_root (uproot a s) = sv_root s" "sv_overlay (uproot a s) = sv_overlay s"
  "sv_grabs (uproot a s) = filter (\<lambda>g. \<not> below (windows s) a (g_window g)) (sv_grabs s)"
  "input_focus (uproot a s) = (if below (windows s) a (input_focus s) then 0 else input_focus s)"
  "sv_remove_queue (uproot a s) = sv_remove_queue s" "closed (uproot a s) = closed s" "sent (uproot a s) = sent s"
  "sv_fb_w (uproot a s) = sv_fb_w s" "sv_fb_h (uproot a s) = sv_fb_h s" "mouse_x (uproot a s) = mouse_x s" "mouse_y (uproot a s) = mouse_y s"
  by (simp_all add: uproot_def Let_def)
lemma uproot_cases:
  assumes "sv_ok s" and "windows s a = Some w" and "windows (uproot a s) x = Some u"
  obtains v where "windows s x = Some v" "\<not> below (windows s) a x" "u = (if x = w_parent w then v\<lparr>w_children := remove1 a (w_children v)\<rparr> else v)"
  using assms(3) unfolding uproot_window [OF assms(1,2)] by (auto split: if_splits)

lemma uproot_same:
  assumes "sv_ok s" and "windows s a = Some w" and "windows (uproot a s) x = Some u"
  shows "\<exists>v. windows s x = Some v \<and> w_client u = w_client v \<and> w_parent u = w_parent v \<and> w_root u = w_root v \<and> w_pos u = w_pos v \<and> w_sizes u = w_sizes v"
  by (rule uproot_cases [OF assms]) auto

lemma uproot_none:
  assumes "sv_ok s" and "windows s a = Some w"
  shows "windows (uproot a s) x \<noteq> None \<longleftrightarrow> windows s x \<noteq> None \<and> \<not> below (windows s) a x"
  unfolding uproot_window [OF assms] by (cases "windows s x") auto

lemma uproot_forest:
  assumes "sv_ok s" and "windows s a = Some w"
  shows "forest (windows (uproot a s)) (brk s)"
proof -
  let ?h = "windows s" and ?g = "windows (uproot a s)"
  have f: "forest ?h (brk s)" using assms(1) by (simp add: sv_ok_def)
  have ch: "(\<exists>u. ?g c = Some u \<and> w_parent u = b) \<longleftrightarrow> (\<exists>v. ?h c = Some v \<and> w_parent v = b) \<and> \<not> below ?h a c" for b c
    unfolding uproot_window [OF assms] by (cases "?h c") auto
  show ?thesis
    unfolding forest_def ch
  proof (intro allI impI)
    fix b u assume "?g b = Some u"
    then obtain v where v: "?h b = Some v" "\<not> below ?h a b" "u = (if b = w_parent w then v\<lparr>w_children := remove1 a (w_children v)\<rparr> else v)"
      using uproot_cases [OF assms] by metis
    note fv = forestD [OF f v(1)]
    have up: "w_parent v \<noteq> 0 \<Longrightarrow> \<not> below ?h a (w_parent v)" using v(2) below_step [of ?h b v a] v(1) by blast
    have down: "below ?h a c \<longleftrightarrow> c = a \<and> b = w_parent w" if "?h c = Some z" "w_parent z = b" for c z
    proof
      assume bc: "below ?h a c"
      show "c = a \<and> b = w_parent w"
      proof (cases "c = a")
        case False
        then show ?thesis using below_parent [OF bc _ that(1)] that(2) v(2) by simp
      qed (use that assms(2) in simp)
    qed (simp add: below_refl)
    have "set (w_children u) = {c. (\<exists>v. ?h c = Some v \<and> w_parent v = b) \<and> \<not> below ?h a c}"
    proof -
      have "set (w_children u) = set (w_children v) - (if b = w_parent w then {a} else {})" using v(3) fv(5) by auto
      also have "\<dots> = {c. (\<exists>v. ?h c = Some v \<and> w_parent v = b) \<and> \<not> below ?h a c}" using fv(6) down by auto
      finally show ?thesis .
    qed
    moreover have "w_parent u = w_parent v" "distinct (w_children u)" using v(3) fv(5) by simp_all
    moreover have "w_parent v \<noteq> 0 \<Longrightarrow> ?g (w_parent v) \<noteq> None" using up fv(4) uproot_none [OF assms] by blast
    ultimately show "0 < b \<and> b < brk s \<and> (w_parent u \<noteq> 0 \<longrightarrow> w_parent u < b \<and> ?g (w_parent u) \<noteq> None) \<and> distinct (w_children u) \<and>
        set (w_children u) = {c. (\<exists>v. ?h c = Some v \<and> w_parent v = b) \<and> \<not> below ?h a c}"
      using fv(1,2,3) by simp
  qed
qed

lemma uproot_stacked:
  assumes "sv_ok s" and "windows s a = Some w"
  shows "stacked (windows (uproot a s))"
  unfolding stacked_def
proof (intro allI impI)
  fix b u assume b: "windows (uproot a s) b = Some u"
  then obtain v where v: "windows s b = Some v" "u = (if b = w_parent w then v\<lparr>w_children := remove1 a (w_children v)\<rparr> else v)"
    using uproot_cases [OF assms] by metis
  have "z_of (windows (uproot a s)) c = z_of (windows s) c" if c: "c \<in> set (w_children u)" for c
  proof -
    obtain x where x: "windows (uproot a s) c = Some x" using forestD(6) [OF uproot_forest [OF assms] b, of c] c by auto
    then show ?thesis using uproot_same [OF assms x] by (auto simp: z_of_def)
  qed
  then have z: "map (z_of (windows (uproot a s))) (w_children u) = map (z_of (windows s)) (w_children u)" by simp
  have "sorted (map (z_of (windows s)) (w_children v))" using assms(1) v(1) by (simp add: sv_ok_def stacked_def)
  then show "sorted (map (z_of (windows (uproot a s))) (w_children u))"
    unfolding z using v(2) by (cases "b = w_parent w") (simp_all add: sorted_map_remove1)
qed

lemma uproot_ok:
  assumes "sv_ok s" and "windows s a = Some w" and "a \<noteq> sv_root s" and "a \<noteq> sv_overlay s"
  shows "sv_ok (uproot a s)"
proof -
  let ?h = "windows s"
  note um = uproot_window [OF assms(1,2)]
  have f: "forest ?h (brk s)" using assms(1) by (simp add: sv_ok_def)
  have top: "\<not> below ?h a x" if "x \<noteq> a" "?h x = Some u" "w_parent u = 0" for x u
    using below_parent [of ?h a x u] that by auto
  have "owned (uproot a s)"
    unfolding owned_def
  proof (intro allI impI)
    fix b u assume b: "windows (uproot a s) b = Some u"
    then obtain v where v: "?h b = Some v" "w_client u = w_client v" "w_parent u = w_parent v" "w_root u = w_root v"
      using uproot_same [OF assms(1,2)] by blast
    have "windows (uproot a s) (w_parent v) \<noteq> None" if "w_parent v \<noteq> 0"
      using forestD(4) [OF uproot_forest [OF assms(1,2)] b] that v(3) by simp
    then have "w_parent v \<noteq> 0 \<Longrightarrow> w_client (the (windows (uproot a s) (w_parent v))) = w_client (the (?h (w_parent v)))"
      using uproot_same [OF assms(1,2), of "w_parent v"] by auto
    then show "(w_client u = 0 \<or> clients (uproot a s) (w_client u) \<noteq> None) \<and> (w_root u = 0 \<or> w_root u = sv_root (uproot a s)) \<and>
        (w_client u \<noteq> 0 \<longrightarrow> w_root u \<noteq> 0) \<and>
        (w_parent u \<noteq> 0 \<longrightarrow> w_parent u \<noteq> sv_root (uproot a s) \<longrightarrow> w_client u = w_client (the (windows (uproot a s) (w_parent u))))"
      unfolding v(2-4) using ownedD [OF assms(1) v(1)] by auto
  qed
  moreover have "listed (uproot a s)"
  proof -
    have "dom (windows (uproot a s)) = {x \<in> dom ?h. \<not> below ?h a x}" unfolding dom_def um by auto
    then show ?thesis using assms(1) by (auto simp: sv_ok_def listed_def)
  qed
  moreover have "rooted (uproot a s)"
  proof -
    obtain r v where r: "?h (sv_root s) = Some r" "w_parent r = 0" "w_client r = 0" "p_x (w_pos r) = 0" "p_y (w_pos r) = 0" "w_sizes r = (sv_fb_w s, sv_fb_h s)"
      and v: "?h (sv_overlay s) = Some v" "w_parent v = 0" "w_client v = 0" and ne: "sv_overlay s \<noteq> sv_root s"
      using assms(1) by (auto simp: sv_ok_def rooted_def)
    have "\<not> below ?h a (sv_root s)" "\<not> below ?h a (sv_overlay s)" using top [OF _ r(1,2)] top [OF _ v(1,2)] assms(3,4) by auto
    then show ?thesis unfolding rooted_def um uproot_frame using r v ne by auto
  qed
  moreover have "screen_ok (uproot a s)" using assms(1) by (simp add: sv_ok_def screen_ok_def)
  moreover have "targets_ok (uproot a s)"
  proof -
    show ?thesis using assms(1) unfolding targets_ok_def uproot_none [OF assms(1,2)] by (auto simp: sv_ok_def targets_ok_def)
  qed
  ultimately show ?thesis using uproot_forest [OF assms(1,2)] uproot_stacked [OF assms(1,2)] by (simp add: sv_ok_def)
qed

section \<open>Disconnecting\<close>

text \<open>Everything below a window of a client belongs to that client, and its windows hang on such at the top.\<close>

lemma below_owner:
  assumes "sv_ok s" and "windows s a = Some w" and "w_client w \<noteq> 0" and "below (windows s) a x"
  shows "\<exists>u. windows s x = Some u \<and> w_client u = w_client w"
  using assms(4)
proof (induction rule: below.induct)
  case (below_step x v)
  obtain r where r: "windows s (sv_root s) = Some r" "w_parent r = 0" "w_client r = 0" using rootE [OF assms(1)] by metis
  have "w_parent v \<noteq> sv_root s" using below_step.IH r assms(3) by auto
  then show ?case using below_step ownedD(4) [OF assms(1) below_step(1,2)] by auto
qed (use assms(2) in simp)

lemma owner_top:
  assumes "sv_ok s" and "windows s x = Some u" and "w_client u \<noteq> 0"
  shows "\<exists>y v. windows s y = Some v \<and> w_client v = w_client u \<and> (w_parent v = 0 \<or> w_parent v = sv_root s)"
  using assms(2,3)
proof (induction x arbitrary: u rule: less_induct)
  case (less x)
  show ?case
  proof (cases "w_parent u = 0 \<or> w_parent u = sv_root s")
    case False
    have f: "forest (windows s) (brk s)" using assms(1) by (simp add: sv_ok_def)
    obtain p where "windows s (w_parent u) = Some p" "w_parent u < x" using False forestD(3,4) [OF f less.prems(1)] by auto
    moreover from this have "w_client p = w_client u" using ownedD(4) [OF assms(1) less.prems(1)] False by simp
    ultimately show ?thesis using less.IH [of "w_parent u" p] less.prems(2) by simp
  qed (use less.prems in blast)
qed

text \<open>What removing windows of the client \<open>c\<close> leaves: the others, with their owners and parents.\<close>

definition without :: "nat \<Rightarrow> server \<Rightarrow> server \<Rightarrow> bool" where
  "without c s t \<longleftrightarrow> sv_ok t \<and> clients t = clients s \<and> sv_clients t = sv_clients s \<and> brk t = brk s \<and> sv_root t = sv_root s \<and> sv_overlay t = sv_overlay s \<and>
     sv_remove_queue t = sv_remove_queue s \<and> closed t = closed s \<and> sent t = sent s \<and>
     (\<forall>x u. windows t x = Some u \<longrightarrow> (\<exists>v. windows s x = Some v \<and> w_client u = w_client v \<and> w_parent u = w_parent v)) \<and>
     (\<forall>x v. windows s x = Some v \<longrightarrow> windows t x = None \<longrightarrow> w_client v = c)"

lemma without_trans: "without c s t \<Longrightarrow> without c t u \<Longrightarrow> without c s u"
proof -
  assume st: "without c s t" and tu: "without c t u"
  have "\<exists>v. windows s x = Some v \<and> w_client z = w_client v \<and> w_parent z = w_parent v" if z: "windows u x = Some z" for x z
  proof -
    obtain y where "windows t x = Some y" "w_client z = w_client y" "w_parent z = w_parent y" using tu z unfolding without_def by blast
    then show ?thesis using st unfolding without_def by auto
  qed
  moreover have "w_client v = c" if v: "windows s x = Some v" "windows u x = None" for x v
  proof (cases "windows t x")
    case None
    then show ?thesis using st v(1) unfolding without_def by blast
  next
    case (Some y)
    then have "w_client y = c" using tu v(2) unfolding without_def by blast
    then show ?thesis using st Some v(1) unfolding without_def by force
  qed
  ultimately show ?thesis using st tu unfolding without_def by simp
qed

lemma uproot_without:
  assumes "sv_ok s" and "windows s a = Some w" and "w_client w = c" and "c \<noteq> 0"
  shows "without c s (uproot a s)"
proof -
  have "a \<noteq> sv_root s \<and> a \<noteq> sv_overlay s" using assms by (auto simp: sv_ok_def rooted_def)
  then have "sv_ok (uproot a s)" using uproot_ok [OF assms(1,2)] by blast
  moreover have "w_client v = c" if "windows s x = Some v" "windows (uproot a s) x = None" for x v
    using that below_owner [OF assms(1,2), of x] assms(3,4) unfolding uproot_window [OF assms(1,2)] by (auto split: if_splits)
  ultimately show ?thesis unfolding without_def using uproot_same [OF assms(1,2)] by fastforce
qed

lemma remove_all:
  assumes "sv_ok s" and "c \<noteq> 0" and "distinct ws"
    and "\<forall>a\<in>set ws. \<exists>w. windows s a = Some w \<and> w_client w = c \<and> (w_parent w = 0 \<or> w_parent w = sv_root s)"
  shows "\<exists>t. for_each (\<lambda>a. compose_sv_remove_window (brk s) a True) ws s = Some t \<and> without c s t \<and> (\<forall>a\<in>set ws. windows t a = None)"
  using assms
proof (induction ws arbitrary: s)
  case Nil
  then show ?case by (auto simp: without_def)
next
  case (Cons a ws)
  obtain w where w: "windows s a = Some w" "w_client w = c" "w_parent w = 0 \<or> w_parent w = sv_root s" using Cons.prems(4) by auto
  let ?t = "uproot a s"
  have wo: "without c s ?t" using uproot_without [OF Cons.prems(1) w(1,2) Cons.prems(2)] .
  obtain r where r: "windows s (sv_root s) = Some r" "w_parent r = 0" "w_client r = 0" using rootE [OF Cons.prems(1)] by metis
  have "sv_root s \<noteq> a" using r w Cons.prems(2) by auto
  then have nr: "\<not> below (windows s) a (sv_root s)" using below_parent [of "windows s" a "sv_root s" r] r by auto
  have keep: "windows ?t b = windows s b" if b: "b \<in> set ws" for b
  proof -
    obtain u where u: "windows s b = Some u" "w_client u = c" "w_parent u = 0 \<or> w_parent u = sv_root s" using Cons.prems(4) b by force
    have "b \<noteq> a" using Cons.prems(3) b by auto
    then have "\<not> below (windows s) a b" using below_parent [of "windows s" a b u] u nr by auto
    moreover have "b \<noteq> w_parent w"
    proof
      assume "b = w_parent w"
      then have "b = 0 \<or> b = sv_root s" using w(3) by simp
      then show False using u(1,2) r Cons.prems(1,2) sv_ok_windows [OF Cons.prems(1) u(1)] by auto
    qed
    ultimately show ?thesis unfolding uproot_window [OF Cons.prems(1) w(1)] by simp
  qed
  obtain t where t: "for_each (\<lambda>a. compose_sv_remove_window (brk ?t) a True) ws ?t = Some t" "without c ?t t" "\<forall>a\<in>set ws. windows t a = None"
    using Cons.IH [of ?t] Cons.prems(2,3,4) keep wo by (auto simp: without_def)
  have "windows ?t a = None" unfolding uproot_window [OF Cons.prems(1) w(1)] by (simp add: below_refl)
  then have "windows t a = None" using t(2) unfolding without_def by (metis not_None_eq option.distinct(1))
  then show ?case
    using t remove_window_uproots [OF Cons.prems(1) w(1)] without_trans [OF wo t(2)] by simp
qed

lemma client_windows_spec:
  assumes "sv_ok s"
  shows "client_windows c (compose_remove_client c s) = Some (filter (\<lambda>a. let w = the (windows s a) in w_client w = c \<and> (w_parent w = 0 \<or> w_parent w = sv_root s)) (sv_windows s))"
  using assms by (auto simp: client_windows_def compose_remove_client_def sv_ok_def listed_def list_all_iff)

lemma remove_client_ok: "sv_ok s \<Longrightarrow> sv_ok (compose_remove_client c s)"
  using set_remove1_subset [of c "sv_clients s"] by (auto simp: sv_ok_def sv_parts compose_remove_client_def)

lemma forget_client_ok:
  assumes "sv_ok s" and "c \<notin> set (sv_clients s)" and "\<And>x w. windows s x = Some w \<Longrightarrow> w_client w \<noteq> c"
  shows "sv_ok (s\<lparr>sv_grabs := filter (\<lambda>g. g_client g \<noteq> c) (sv_grabs s), closed := cs, clients := (clients s)(c := None)\<rparr>)"
    (is "sv_ok ?t")
proof -
  have "owned ?t"
    unfolding owned_def
  proof (intro allI impI)
    fix a w assume "windows ?t a = Some w"
    then have w: "windows s a = Some w" by simp
    show "(w_client w = 0 \<or> clients ?t (w_client w) \<noteq> None) \<and> (w_root w = 0 \<or> w_root w = sv_root ?t) \<and> (w_client w \<noteq> 0 \<longrightarrow> w_root w \<noteq> 0) \<and>
        (w_parent w \<noteq> 0 \<longrightarrow> w_parent w \<noteq> sv_root ?t \<longrightarrow> w_client w = w_client (the (windows ?t (w_parent w))))"
      using ownedD [OF assms(1) w] assms(3) [OF w] by auto
  qed
  moreover have "listed ?t" using assms(1,2) by (auto simp: sv_ok_def listed_def)
  moreover have "rooted ?t" "screen_ok ?t" "targets_ok ?t" using assms(1) by (auto simp: sv_ok_def rooted_def screen_ok_def targets_ok_def)
  ultimately show ?thesis using assms(1) by (simp add: sv_ok_def)
qed

lemma disconnect_spec:
  assumes "sv_ok s" and "clients s c = Some cl"
  shows "\<exists>t. compose_sv_disconnect c s = Some t \<and> sv_ok t \<and> dom (windows t) = {x. \<exists>w. windows s x = Some w \<and> w_client w \<noteq> c} \<and>
    clients t = (clients s)(c := None) \<and> sv_clients t = remove1 c (sv_clients s) \<and> sv_remove_queue t = sv_remove_queue s \<and>
    sv_root t = sv_root s \<and> sent t = sent s \<and> closed t = closed s @ [cl_socket cl] \<and> (\<forall>g\<in>set (sv_grabs t). g_client g \<noteq> c)"
proof -
  let ?s = "compose_remove_client c s"
  let ?ws = "filter (\<lambda>a. let w = the (windows s a) in w_client w = c \<and> (w_parent w = 0 \<or> w_parent w = sv_root s)) (sv_windows s)"
  have ok: "sv_ok ?s" using remove_client_ok [OF assms(1)] .
  have l: "distinct (sv_windows s)" "set (sv_windows s) = dom (windows s)" "distinct (sv_clients s)" and c0: "c \<noteq> 0"
    using assms by (auto simp: sv_ok_def listed_def)
  have fs: "windows ?s = windows s" "brk ?s = brk s" "sv_root ?s = sv_root s" "clients ?s = clients s" "sv_clients ?s = remove1 c (sv_clients s)"
    "sv_remove_queue ?s = sv_remove_queue s" "closed ?s = closed s" "sent ?s = sent s"
    by (simp_all add: compose_remove_client_def)
  obtain t where t: "for_each (\<lambda>a. compose_sv_remove_window (brk s) a True) ?ws ?s = Some t" "without c ?s t" "\<forall>a\<in>set ?ws. windows t a = None"
  proof -
    have "\<forall>a\<in>set ?ws. \<exists>w. windows ?s a = Some w \<and> w_client w = c \<and> (w_parent w = 0 \<or> w_parent w = sv_root ?s)"
      unfolding fs using l(2) by (auto simp: Let_def)
    from remove_all [OF ok c0 _ this] l(1) that show ?thesis unfolding fs by auto
  qed
  have tok: "sv_ok t" and tf: "clients t = clients s" "sv_clients t = remove1 c (sv_clients s)" "sv_root t = sv_root s" "sv_remove_queue t = sv_remove_queue s" "closed t = closed s" "sent t = sent s"
    using t(2) fs by (simp_all add: without_def)
  have none: "w_client w \<noteq> c" if w: "windows t x = Some w" for x w
  proof
    assume "w_client w = c"
    then obtain y v where y: "windows t y = Some v" "w_client v = c" "w_parent v = 0 \<or> w_parent v = sv_root t"
      using owner_top [OF tok w] c0 by auto
    then obtain u where "windows s y = Some u" "w_client u = c" "w_parent u = 0 \<or> w_parent u = sv_root s"
      using t(2) tf(3) fs(1) unfolding without_def by force
    then have "y \<in> set ?ws" using l(2) by (auto simp: Let_def)
    then show False using t(3) y(1) by simp
  qed
  have dm: "dom (windows t) = {x. \<exists>w. windows s x = Some w \<and> w_client w \<noteq> c}"
  proof (intro equalityI subsetI)
    fix x assume "x \<in> dom (windows t)"
    then obtain w where w: "windows t x = Some w" by auto
    then obtain v where "windows s x = Some v" "w_client w = w_client v" using t(2) fs(1) unfolding without_def by force
    then show "x \<in> {x. \<exists>w. windows s x = Some w \<and> w_client w \<noteq> c}" using none [OF w] by simp
  next
    fix x assume "x \<in> {x. \<exists>w. windows s x = Some w \<and> w_client w \<noteq> c}"
    then obtain w where w: "windows ?s x = Some w" "w_client w \<noteq> c" using fs(1) by auto
    have "windows t x \<noteq> None"
    proof
      assume "windows t x = None"
      then show False using t(2) w unfolding without_def by blast
    qed
    then show "x \<in> dom (windows t)" by auto
  qed
  define u where "u = t\<lparr>sv_grabs := filter (\<lambda>g. g_client g \<noteq> c) (sv_grabs t), closed := closed t @ [cl_socket cl], clients := (clients t)(c := None)\<rparr>"
  have "sv_ok u" unfolding u_def using none tf(2) l(3) by (intro forget_client_ok [OF tok]) auto
  moreover have "compose_sv_disconnect c s = Some u"
    using client_windows_spec [OF assms(1), of c] t(1) tf(1) assms(2) by (simp add: compose_sv_disconnect_def u_def Let_def)
  ultimately show ?thesis using dm tf by (simp add: u_def)
qed

text \<open>A list of connected clients is disconnected one by one.\<close>

lemma disconnect_all:
  assumes "sv_ok s" and "distinct cs" and "set cs \<subseteq> dom (clients s)"
  shows "\<exists>t. for_each compose_sv_disconnect cs s = Some t \<and> sv_ok t \<and> clients t = (clients s) |` (- set cs) \<and>
    sv_clients t = filter (\<lambda>c. c \<notin> set cs) (sv_clients s) \<and> sv_remove_queue t = sv_remove_queue s \<and> sv_root t = sv_root s"
  using assms
proof (induction cs arbitrary: s)
  case Nil
  then show ?case by (simp add: restrict_map_def)
next
  case (Cons c cs)
  obtain cl where "clients s c = Some cl" using Cons.prems(3) by auto
  then obtain t where t: "compose_sv_disconnect c s = Some t" "sv_ok t" "clients t = (clients s)(c := None)" "sv_clients t = remove1 c (sv_clients s)"
    "sv_remove_queue t = sv_remove_queue s" "sv_root t = sv_root s"
    using disconnect_spec [OF Cons.prems(1)] by blast
  have d: "distinct (sv_clients s)" using Cons.prems(1) by (simp add: sv_ok_def listed_def)
  obtain u where u: "for_each compose_sv_disconnect cs t = Some u" "sv_ok u" "clients u = (clients t) |` (- set cs)"
    "sv_clients u = filter (\<lambda>c. c \<notin> set cs) (sv_clients t)" "sv_remove_queue u = sv_remove_queue t" "sv_root u = sv_root t"
  proof -
    have "set cs \<subseteq> dom (clients t)" using Cons.prems(2,3) t(3) by auto
    from Cons.IH [OF t(2) _ this] Cons.prems(2) that show ?thesis by auto
  qed
  have "clients u = (clients s) |` (- set (c # cs))" using u(3) t(3) by (auto simp: restrict_map_def fun_eq_iff)
  moreover have "sv_clients u = filter (\<lambda>x. x \<notin> set (c # cs)) (sv_clients s)"
    using u(4) t(4) d by (simp add: distinct_remove1_removeAll removeAll_filter_not_eq) (metis (no_types, lifting) filter_cong)
  ultimately show ?case using t u by simp
qed

end
