(* ===== verification/Compose_Safe.thy ===== *)
theory Compose_Safe
  imports Compose_Remove
begin

text \<open>
  The window server as a state machine: what it does between two waits is a sequence of steps, each for one
  connection, request, packet or round of keepalives. In every reachable state every permitted step runs
  through without following a null or freed pointer. What is not permitted are the inputs on which the code
  does: they are the findings of this component.
\<close>

section \<open>Requests\<close>

text \<open>
  The requests that are safe: moving or resizing windows other than the root window, grabs and questions on
  windows that exist, new windows in the root window or in a window of the same client, one farewell.
\<close>

fun request_ok :: "nat \<Rightarrow> request \<Rightarrow> server \<Rightarrow> bool" where
  "request_ok c (ReqMove wid fl pos) s = (wid \<noteq> w_id (the (windows s (sv_root s))))"
| "request_ok c (ReqResize wid stage wh) s = (wid \<noteq> w_id (the (windows s (sv_root s))) \<and> (stage = COMPOSE_RESIZE_STAGE_INITIAL \<longrightarrow> wh \<noteq> None))"
| "request_ok c (ReqNewwin par props) s =
     (let a = the (compose_sv_get_window par s) in a = 0 \<or> a = sv_root s \<or> w_client (the (windows s a)) = c)"
| "request_ok c (ReqGrab wid ty) s = (compose_sv_get_window wid s \<noteq> Some 0)"
| "request_ok c (ReqProps wid) s = (compose_sv_get_window wid s \<noteq> Some 0)"
| "request_ok c ReqDisconnect s = (c \<notin> set (sv_remove_queue s))"
| "request_ok c _ s = True"

definition good :: "server \<Rightarrow> bool" where
  "good s \<longleftrightarrow> sv_ok s \<and> connected s"

lemma good_keeps: "good s \<Longrightarrow> sv_keeps s t \<Longrightarrow> good t"
  by (simp add: good_def sv_keeps_def connected_def)

lemma good_sent: "good s \<Longrightarrow> good (s\<lparr>sent := x\<rparr>)"
  by (simp add: good_def connected_def)

lemma for_each_send:
  assumes "\<forall>c\<in>set cs. clients s c \<noteq> None"
  shows "\<exists>x. for_each (\<lambda>c. compose_sv_event_send c ev) cs s = Some (s\<lparr>sent := x\<rparr>)"
  using assms
proof (induction cs arbitrary: s)
  case Nil
  show ?case by (intro exI [of _ "sent s"]) simp
next
  case (Cons c cs)
  obtain x where x: "compose_sv_event_send c ev s = Some (s\<lparr>sent := x\<rparr>)" using event_send_sent [of s c ev] Cons.prems by auto
  show ?case using Cons.IH [of "s\<lparr>sent := x\<rparr>"] Cons.prems x by auto
qed

lemma send_to_all_ok:
  assumes "sv_ok s"
  shows "\<exists>x. compose_sv_event_send_to_all ev s = Some (s\<lparr>sent := x\<rparr>)"
proof -
  have "\<forall>c\<in>set (sv_clients s). clients s c \<noteq> None" using assms by (auto simp: sv_ok_def listed_def)
  then show ?thesis unfolding compose_sv_event_send_to_all_def by (rule for_each_send)
qed

lemma send_props_ok:
  assumes "sv_ok s" and "windows s a \<noteq> None" and "clients s c \<noteq> None"
  shows "\<exists>x. compose_sv_send_props c a s = Some (s\<lparr>sent := x\<rparr>)"
proof -
  obtain w where w: "windows s a = Some w" using assms(2) by auto
  obtain r where r: "root_id w (w_id w) s = Some r" using root_id_spec [OF assms(1) w] by blast
  show ?thesis using event_send_sent [OF assms(3)] by (simp add: compose_sv_send_props_def w r)
qed

lemma get_client_spec:
  assumes "sv_ok s"
  obtains a where "compose_sv_get_client cid s = Some a" "a = 0 \<or> clients s a \<noteq> None"
proof -
  have "\<forall>a\<in>set (sv_clients s). clients s a \<noteq> None" using assms by (auto simp: sv_ok_def listed_def)
  from find_object_spec [OF this, of "\<lambda>c. cl_id c = cid"] that show ?thesis by (auto simp: compose_sv_get_client_def)
qed

lemma handle_request_ok:
  assumes "good s" and "clients s c = Some cl" and "request_ok c r s"
  shows "\<exists>t. compose_sv_handle_request now uuid c r s = Some t \<and> good t"
proof -
  have ok: "sv_ok s" and co: "connected s" using assms(1) by (simp_all add: good_def)
  obtain rt where rt: "windows s (sv_root s) = Some rt" using rootE [OF ok] by metis
  show ?thesis
  proof (cases r)
    case (ReqMove wid fl pos)
    obtain a where a: "compose_sv_get_window wid s = Some a" "a = 0 \<or> (\<exists>w. windows s a = Some w \<and> w_id w = wid)" using get_window_spec [OF ok] by metis
    have "a \<noteq> 0 \<Longrightarrow> a \<noteq> sv_root s" using a(2) rt assms(3) by (auto simp: ReqMove)
    then show ?thesis using a move_ok [OF ok, of a pos fl] good_keeps [OF assms(1)] assms(1) by (auto simp: ReqMove simp del: compose_sv_move.simps)
  next
    case (ReqResize wid stage wh)
    obtain a where a: "compose_sv_get_window wid s = Some a" "a = 0 \<or> (\<exists>w. windows s a = Some w \<and> w_id w = wid)" using get_window_spec [OF ok] by metis
    have ar: "a \<noteq> 0 \<Longrightarrow> a \<noteq> sv_root s" using a(2) rt assms(3) by (auto simp: ReqResize)
    show ?thesis
    proof (cases "stage = COMPOSE_RESIZE_STAGE_INITIAL")
      case True
      then obtain x where "wh = Some x" using assms(3) by (auto simp: ReqResize)
      then show ?thesis using True a start_resize_ok [OF ok, of a x] good_keeps [OF assms(1)] assms(1) by (auto simp: ReqResize)
    next
      case False
      then show ?thesis using a ar apply_size_ok [OF ok, of a] good_keeps [OF assms(1)] assms(1) by (auto simp: ReqResize)
    qed
  next
    case (ReqEvent target ev)
    obtain a where a: "compose_sv_get_client target s = Some a" "a = 0 \<or> clients s a \<noteq> None" using get_client_spec [OF ok] by metis
    show ?thesis
      using a send_to_all_ok [OF ok, of ev] event_send_sent [of s a ev] good_sent [OF assms(1)] assms(1) by (cases "target = 0"; cases "a = 0") (auto simp: ReqEvent)
  next
    case (ReqNewwin par props)
    obtain a where a: "compose_sv_get_window par s = Some a" "a = 0 \<or> (\<exists>w. windows s a = Some w \<and> w_id w = par)" using get_window_spec [OF ok] by metis
    have "a \<noteq> 0 \<Longrightarrow> \<exists>p. windows s a = Some p \<and> (a = sv_root s \<or> c = w_client p)" using a assms(3) by (auto simp: ReqNewwin)
    then obtain t where t: "compose_sv_create_window c a props uuid s = Some (brk s, t)" "sv_ok t" "clients t = clients s" "sv_clients t = sv_clients s" "sv_remove_queue t = sv_remove_queue s"
      using create_window_ok [OF ok, of c a props uuid] assms(2) by auto
    then show ?thesis using a co by (simp add: ReqNewwin good_def connected_def)
  next
    case (ReqFlush wid)
    then show ?thesis using assms(1) by simp
  next
    case (ReqEvmask wid em)
    obtain a where a: "compose_sv_get_window wid s = Some a" "a = 0 \<or> (\<exists>w. windows s a = Some w \<and> w_id w = wid)" using get_window_spec [OF ok] by metis
    have "a \<noteq> 0 \<Longrightarrow> \<exists>w. windows s a = Some w \<and> sv_keeps s (set_window a (w\<lparr>w_event_mask := em\<rparr>) s)" 
      using a(2) sv_keeps_set [OF ok] by fastforce
    then show ?thesis using a good_keeps [OF assms(1)] assms(1) by (auto simp: ReqEvmask)
  next
    case (ReqGrab wid ty)
    obtain a where a: "compose_sv_get_window wid s = Some a" "a = 0 \<or> (\<exists>w. windows s a = Some w \<and> w_id w = wid)" using get_window_spec [OF ok] by metis
    have "sv_ok (s\<lparr>sv_grabs := sv_grabs s @ [\<lparr>g_type = ty, g_client = c, g_window = a\<rparr>]\<rparr>)"
      using ok a assms(2,3) by (auto simp: sv_ok_def sv_parts ReqGrab)
    then show ?thesis using a co by (simp add: ReqGrab good_def connected_def)
  next
    case (ReqFocus wid)
    obtain a where a: "compose_sv_get_window wid s = Some a" "a = 0 \<or> (\<exists>w. windows s a = Some w \<and> w_id w = wid)" using get_window_spec [OF ok] by metis
    then show ?thesis using focus_ok [OF ok, of a] co by (auto simp: ReqFocus good_def connected_def)
  next
    case ReqDisconnect
    then show ?thesis using ok co assms(2,3) by (auto simp: good_def connected_def)
  next
    case (ReqProps wid)
    obtain a where a: "compose_sv_get_window wid s = Some a" "a = 0 \<or> (\<exists>w. windows s a = Some w \<and> w_id w = wid)" using get_window_spec [OF ok] by metis
    then have "windows s a \<noteq> None" using assms(3) by (auto simp: ReqProps)
    then show ?thesis using a send_props_ok [OF ok, of a c] assms(2) good_sent [OF assms(1)] by (auto simp: ReqProps)
  next
    case ReqKeepalive
    have d: "dom ((clients s)(c \<mapsto> cl\<lparr>cl_ping := now\<rparr>)) = dom (clients s)" using assms(2) by auto
    have "sv_ok (s\<lparr>clients := (clients s)(c \<mapsto> cl\<lparr>cl_ping := now\<rparr>)\<rparr>)"
      using ok assms(2) by (auto simp: sv_ok_def sv_parts)
    then show ?thesis using assms(2) co d by (simp add: ReqKeepalive good_def connected_def)
  qed
qed

section \<open>Steps\<close>

datatype sv_op =
    Accept u32 u32
  | Request u32 nat nat request
  | Reap
  | Keepalive "u32 list"
  | Key u32
  | Mouse mouse_raw
  | Redraw

text \<open>The pieces of \<^verbatim>\<open>compose_sv_tick\<close> in whatever order and number.\<close>

fun sv_exec :: "sv_op \<Rightarrow> server \<Rightarrow> server option" where
  "sv_exec (Accept now fd) s = accept_client now fd s"
| "sv_exec (Request now uuid c r) s = compose_sv_handle_request now uuid c r s"
| "sv_exec Reap s = reap_clients (rev (sv_remove_queue s)) s"
| "sv_exec (Keepalive gone) s = compose_sv_send_keepalive (\<lambda>fd. fd \<in> set gone) s"
| "sv_exec (Key k) s = compose_handle_key (input_kbd_create_packet k) s"
| "sv_exec (Mouse raw) s = mouse_input raw s"
| "sv_exec Redraw s = do { (t, ds) \<leftarrow> compose_sv_redraw s; Some t }"

text \<open>Requests come from connected clients, and the clients that asked to leave are gone before the next keepalive.\<close>

fun sv_allowed :: "sv_op \<Rightarrow> server \<Rightarrow> bool" where
  "sv_allowed (Request now uuid c r) s = (clients s c \<noteq> None \<and> request_ok c r s)"
| "sv_allowed (Keepalive gone) s = (sv_remove_queue s = [])"
| "sv_allowed _ s = True"

inductive sv_reachable :: "server \<Rightarrow> bool" where
  sv_start: "compose_sv_create w h u1 u2 = Some s \<Longrightarrow> 4 \<le> sint w \<Longrightarrow> 4 \<le> sint h \<Longrightarrow> sv_reachable s"
| sv_step: "sv_reachable s \<Longrightarrow> sv_allowed op s \<Longrightarrow> sv_exec op s = Some t \<Longrightarrow> sv_reachable t"

lemma accept_ok:
  assumes "good s"
  shows "\<exists>t. accept_client now fd s = Some t \<and> good t \<and> (\<exists>c cl. clients t c = Some cl)"
proof -
  have ok: "sv_ok s" and co: "connected s" using assms by (simp_all add: good_def)
  have "\<forall>a\<in>set (sv_clients s). clients s a \<noteq> None" using ok by (auto simp: sv_ok_def listed_def)
  from find_object_spec [OF this, of "\<lambda>c. cl_socket c = fd"] obtain old where old: "compose_get_client fd s = Some old" "old = 0 \<or> (\<exists>cl. clients s old = Some cl)"
    by (auto simp: compose_get_client_def)
  show ?thesis
  proof (cases "old = 0")
    case False
    then show ?thesis using old assms by (auto simp: accept_client_def compose_add_client_def)
  next
    case True
    define n where "n = sv_client_id s + 1"
    define t where "t = s\<lparr>sv_client_id := n, brk := Suc (brk s), clients := (clients s)(brk s \<mapsto> compose_create_client fd now\<lparr>cl_id := n\<rparr>), sv_clients := sv_clients s @ [brk s]\<rparr>"
    have add: "compose_add_client fd now s = Some (brk s, t)" using old True by (simp add: compose_add_client_def t_def n_def Let_def)
    have li: "listed s" and fo: "forest (windows s) (brk s)" using ok by (simp_all add: sv_ok_def)
    have new: "clients s (brk s) = None" using li by (fastforce simp: listed_def)
    obtain r v where r: "windows s (sv_root s) = Some r" "windows s (sv_overlay s) = Some v" using ok by (auto simp: sv_ok_def rooted_def)
    have b0: "brk s \<noteq> 0" using forestD(2) [OF fo r(1)] by simp
    have "forest (windows s) (Suc (brk s))" using fo unfolding forest_def by (auto intro: less_SucI)
    moreover have "listed t"
    proof -
      have "\<forall>c\<in>dom (clients t). 0 < c \<and> c < brk t" using li b0 by (auto simp: listed_def t_def intro: less_SucI)
      then show ?thesis using li new by (auto simp: listed_def t_def)
    qed
    moreover have "owned t" "rooted t" "screen_ok t" "targets_ok t" using ok by (auto simp: sv_ok_def sv_parts t_def)
    ultimately have tok: "sv_ok t" using ok by (simp add: sv_ok_def t_def)
    have tco: "connected t" using co by (auto simp: connected_def t_def)
    have "clients t (brk s) \<noteq> None" by (simp add: t_def)
    from event_send_sent [OF this] obtain x where x: "compose_sv_event_send (brk s) \<lparr>ev_type = COMPOSE_EVENT_CNN, ev_size = 28, ev_win = None, ev_child = None,
        ev_root = Some (w_id r), ev_payload = Connected (w_id v)\<rparr> t = Some (t\<lparr>sent := x\<rparr>)" by blast
    have "windows t (sv_root t) = Some r" "windows t (sv_overlay t) = Some v" using r by (simp_all add: t_def)
    then have "accept_client now fd s = Some (t\<lparr>sent := x\<rparr>)" using add b0 x by (simp add: accept_client_def)
    moreover have "clients (t\<lparr>sent := x\<rparr>) (brk s) = Some (compose_create_client fd now\<lparr>cl_id := n\<rparr>)" by (simp add: t_def)
    ultimately show ?thesis using tok tco by (auto simp: good_def)
  qed
qed

lemma reap_for_each:
  "reap_clients cs s = do { t \<leftarrow> for_each compose_sv_disconnect cs s; Some (t\<lparr>sv_remove_queue := []\<rparr>) }"
  by (induction cs arbitrary: s) simp_all

lemma reap_ok:
  assumes "good s"
  shows "\<exists>t. sv_exec Reap s = Some t \<and> good t"
proof -
  have "distinct (rev (sv_remove_queue s))" "set (rev (sv_remove_queue s)) \<subseteq> dom (clients s)" "sv_ok s" "set (sv_clients s) = dom (clients s)"
    using assms by (auto simp: good_def connected_def)
  from disconnect_all [OF this(3,1,2)] this(4) show ?thesis
    by (auto simp: reap_for_each good_def connected_def restrict_map_def dom_def)
qed

lemma keepalive_ok:
  assumes "good s" and "sv_remove_queue s = []"
  shows "\<exists>t. compose_sv_send_keepalive gone s = Some t \<and> good t"
proof -
  have ok: "sv_ok s" and co: "set (sv_clients s) = dom (clients s)" using assms by (simp_all add: good_def connected_def)
  define ev where "ev = \<lparr>ev_type = COMPOSE_EVENT_KEEPALIVE, ev_size = 24, ev_win = Some 0, ev_child = Some 0, ev_root = Some 0, ev_payload = NoPayload\<rparr>"
  obtain x where x: "compose_sv_event_send_to_all ev s = Some (s\<lparr>sent := x\<rparr>)" using send_to_all_ok [OF ok] by blast
  let ?s = "s\<lparr>sent := x\<rparr>"
  let ?cs = "filter (\<lambda>c. gone (cl_socket (the (clients s c)))) (sv_clients s)"
  have d: "distinct ?cs" using ok by (simp add: sv_ok_def listed_def)
  have sub: "set ?cs \<subseteq> dom (clients ?s)" using co by auto
  have "sv_ok ?s" using ok by simp
  from disconnect_all [OF this d sub] obtain t where t: "for_each compose_sv_disconnect ?cs ?s = Some t" "sv_ok t"
    "clients t = clients s |` (- set ?cs)" "sv_clients t = filter (\<lambda>c. c \<notin> set ?cs) (sv_clients s)" "sv_remove_queue t = []"
    using assms(2) by auto
  have "connected t" using t(3,4,5) co by (auto simp: connected_def restrict_map_def dom_def split: if_splits)
  then show ?thesis using x t by (simp add: compose_sv_send_keepalive_def ev_def good_def)
qed

text \<open>Painting visits windows that exist only.\<close>

lemma for_each_some:
  assumes "\<And>x s. x \<in> set xs \<Longrightarrow> \<exists>t. f x s = Some t"
  shows "\<exists>t. for_each f xs s = Some t"
  using assms
proof (induction xs arbitrary: s)
  case (Cons x xs)
  obtain t where "f x s = Some t" using Cons.prems [of x s] by auto
  then show ?case using Cons by auto
qed simp

lemma draw_ok:
  assumes "forest (windows s) m"
  shows "windows s a \<noteq> None \<Longrightarrow> m \<le> n + a \<Longrightarrow> \<exists>ds2. draw_window n ox oy s a ds = Some ds2"
proof (induction n arbitrary: a ox oy ds)
  case 0
  then show ?case using assms by (auto dest: forestD(2))
next
  case (Suc n)
  then obtain w where w: "windows s a = Some w" by auto
  have "\<exists>t. draw_window n x y s c ds2 = Some t" if "c \<in> set (w_children w)" for c x y ds2
    using forest_childD [OF assms w that] Suc.prems(2) by (intro Suc.IH) auto
  then have "\<exists>t. for_each (draw_window n x y s) (w_children w) ds2 = Some t" for x y ds2 by (rule for_each_some)
  then show ?case using w by (simp add: Let_def)
qed

lemma redraw_ok:
  assumes "good s"
  shows "\<exists>ds. compose_sv_redraw s = Some (s, ds)"
proof -
  have ok: "sv_ok s" using assms by (simp add: good_def)
  have f: "forest (windows s) (brk s)" and st: "stacked (windows s)" using ok by (simp_all add: sv_ok_def)
  obtain r v where r: "windows s (sv_root s) = Some r" "windows s (sv_overlay s) = Some v" using ok by (auto simp: sv_ok_def rooted_def)
  have re: "compose_sv_restack (brk s) (sv_root s) s = Some s" using restack_same [OF f st] r by simp
  obtain d where d: "draw_window (brk s) 0 0 s (sv_root s) [] = Some d" using draw_ok [OF f, of "sv_root s" "brk s" 0 0 "[]"] r by auto
  obtain e where e: "draw_window (brk s) 0 0 s (sv_overlay s) d = Some e" using draw_ok [OF f, of "sv_overlay s" "brk s" 0 0 d] r by auto
  show ?thesis using re d e by (simp add: compose_sv_redraw_def)
qed

lemma sv_exec_ok:
  assumes "good s" and "sv_allowed op s"
  shows "\<exists>t. sv_exec op s = Some t \<and> good t"
proof (cases op)
  case (Request now uuid c r)
  then show ?thesis using handle_request_ok [OF assms(1)] assms(2) by auto
next
  case (Key k)
  then show ?thesis using handle_key_ok [of s k] assms(1) by (auto simp: good_def)
next
  case (Mouse raw)
  then show ?thesis using handle_mouse_ok [of s] assms(1) by (auto simp: good_def mouse_input_def split: option.splits)
next
  case (Accept now fd)
  then show ?thesis using accept_ok [OF assms(1), of now fd] by auto
qed (use assms reap_ok [OF assms(1)] keepalive_ok [OF assms(1)] redraw_ok [OF assms(1)] in auto)

section \<open>Start\<close>

text \<open>A window without interest in the event is passed by when there are no grabs.\<close>

lemma propagate_silent:
  assumes "windows s a = Some w" and "w_event_mask w = 0" and "w_parent w = 0" and "sv_grabs s = []"
  shows "compose_sv_event_propagate a ev s = Some (s, ev)"
  using assms by (subst compose_sv_event_propagate.simps) (simp add: deliver_def)

lemma create_first:
  fixes s :: server
  assumes "sv_grabs s = []" and "input_focus s \<noteq> 0 \<longrightarrow> (\<exists>w. windows s (input_focus s) = Some w \<and> w_event_mask w = 0 \<and> w_parent w = 0 \<and> (w_root w = 0 \<or> windows s (w_root w) \<noteq> None))"
    and "set (sv_windows s) = dom (windows s)" and "wp_event_mask props = 0" and "brk s \<noteq> 0" and "input_focus s \<noteq> brk s" and "sv_root s \<noteq> 0 \<longrightarrow> windows s (sv_root s) \<noteq> None"
    and "windows s (brk s) = None"
  shows "\<exists>ws. mset ws = mset (sv_windows s @ [brk s]) \<and> compose_sv_create_window 0 0 props uuid s =
    Some (brk s, s\<lparr>brk := Suc (brk s), sv_window_id := sv_window_id s + 1, sv_windows := ws,
      windows := (windows s)(brk s \<mapsto> new_window (sv_window_id s + 1) (sv_root s) 0 0 0 props uuid), input_focus := brk s\<rparr>)"
proof -
  define v where "v = new_window (sv_window_id s + 1) (sv_root s) 0 0 0 props uuid"
  define s1 where "s1 = set_window (brk s) v (s\<lparr>brk := Suc (brk s), sv_window_id := sv_window_id s + 1, sv_windows := sv_windows s @ [brk s]\<rparr>)"
  define ws where "ws = sort_seq (layer_above s1) (sv_windows s1)"
  define s2 where "s2 = s1\<lparr>sv_windows := ws\<rparr>"
  have w1: "sort_windows (layer_above s1) s1 (sv_windows s1) = Some ws"
    using assms(3) by (auto simp: sort_windows_def list_all_iff ws_def s1_def dom_def)
  have v: "w_event_mask v = 0" "w_parent v = 0" "w_root v = sv_root s" using assms(4) by (simp_all add: v_def new_window_def)
  have foc: "send_focus ty a t = Some t" if t: "sv_grabs t = []" "windows t a = Some w" "w_event_mask w = 0" "w_parent w = 0" "w_root w = 0 \<or> windows t (w_root w) \<noteq> None" for ty a w and t :: server
    using t by (auto simp: send_focus_def root_id_def propagate_silent)
  have un: "(if input_focus s2 \<noteq> 0 then send_focus COMPOSE_EVENT_UNFOCUS (input_focus s2) s2 else Some s2) = Some s2"
  proof (cases "input_focus s = 0")
    case False
    then obtain w where "windows s (input_focus s) = Some w" "w_event_mask w = 0" "w_parent w = 0" "w_root w = 0 \<or> windows s (w_root w) \<noteq> None"
      using assms(2) by auto
    then show ?thesis using foc [of s2 "input_focus s" w] assms(1,6) by (simp add: s2_def s1_def)
  qed (simp add: s2_def s1_def)
  have fo: "send_focus COMPOSE_EVENT_FOCUS (brk s) (s2\<lparr>input_focus := brk s\<rparr>) = Some (s2\<lparr>input_focus := brk s\<rparr>)"
  proof (rule foc)
    show "w_root v = 0 \<or> windows (s2\<lparr>input_focus := brk s\<rparr>) (w_root v) \<noteq> None"
      using v(3) assms(7) by (cases "sv_root s = 0") (auto simp: s2_def s1_def)
  qed (use v assms(1) in \<open>simp_all add: s2_def s1_def\<close>)
  have "compose_sv_focus (brk s) s2 = Some (s2\<lparr>input_focus := brk s\<rparr>)"
    unfolding compose_sv_focus_def un using fo assms(5) by (simp add: Let_def)
  then have "compose_sv_create_window 0 0 props uuid s = Some (brk s, s2\<lparr>input_focus := brk s\<rparr>)"
    unfolding compose_sv_create_window_def Let_def
    by (simp add: add_child_def announce_window_def v_def [symmetric] s1_def [symmetric] w1 s2_def [symmetric] del: set_window_frame)
  moreover have "mset ws = mset (sv_windows s @ [brk s])" by (simp add: ws_def s1_def)
  ultimately show ?thesis by (intro exI [of _ ws]) (simp add: s2_def s1_def set_window_def v_def)
qed

lemma create_good:
  assumes "4 \<le> sint w" and "4 \<le> sint h"
  shows "\<exists>s. compose_sv_create w h u1 u2 = Some s \<and> good s"
proof -
  let ?props = "\<lparr>wp_x = 0, wp_y = 0, wp_w = w, wp_h = h, wp_flags = 0, wp_event_mask = 0\<rparr>"
  let ?i = "initial_server w h"
  define r where "r = new_window 1 0 0 0 0 ?props u1"
  define s1 where "s1 = ?i\<lparr>brk := 2, sv_window_id := 1, sv_windows := [1], windows := [1 \<mapsto> r], input_focus := 1\<rparr>"
  have e1: "compose_sv_create_window 0 0 ?props u1 ?i = Some (1, s1)"
    using create_first [of ?i ?props u1] by (auto simp: initial_server_def s1_def r_def numeral_2_eq_2)
  define v where "v = new_window 2 1 0 0 0 ?props u2"
  obtain ws where ws: "mset ws = mset [1, 2 :: nat]" "compose_sv_create_window 0 0 ?props u2 (s1\<lparr>sv_root := 1\<rparr>)
      = Some (2, s1\<lparr>sv_root := 1, brk := 3, sv_window_id := 2, sv_windows := ws, windows := [1 \<mapsto> r, 2 \<mapsto> v], input_focus := 2\<rparr>)"
    using create_first [of "s1\<lparr>sv_root := 1\<rparr>" ?props u2]
    by (auto simp: s1_def v_def initial_server_def r_def new_window_def numeral_3_eq_3 numeral_2_eq_2)
  define s where "s = s1\<lparr>sv_root := 1, brk := 3, sv_window_id := 2, sv_windows := ws, windows := [1 \<mapsto> r, 2 \<mapsto> v], input_focus := 2, sv_overlay := 2\<rparr>"
  have "compose_sv_create w h u1 u2 = Some s" using e1 ws(2) by (simp add: compose_sv_create_def Let_def s_def)
  moreover have "good s"
  proof -
    have "set ws = {1, 2}" "distinct ws" using ws(1) by (metis set_mset_mset list.set(2) empty_set insert_iff, metis mset_eq_imp_distinct_iff distinct_length_2_or_more distinct_singleton numeral_eq_one_iff semiring_norm(85))
    moreover have "0 < w" "0 < h" using assms by (auto simp: word_gt_0)
    ultimately show ?thesis
      using assms by (auto simp: good_def connected_def sv_ok_def forest_def stacked_def sv_parts s_def s1_def initial_server_def r_def v_def new_window_def split: if_splits)
  qed
  ultimately show ?thesis by blast
qed

section \<open>Properties\<close>

lemma reachable_good: "sv_reachable s \<Longrightarrow> good s"
proof (induction rule: sv_reachable.induct)
  case (sv_start w h u1 u2 s)
  then show ?case using create_good [of w h u1 u2] by auto
next
  case (sv_step s op t)
  then show ?case using sv_exec_ok [of s op] by auto
qed

text \<open>
  C18: The window server does not crash. In every state reachable from its start on a screen of at least four
  by four pixels by any sequence of permitted steps, every further permitted step runs to its end: every
  recursion over the windows stops, no null pointer or freed window or client is used, and the next state has
  again a forest of windows sorted by depth, owned by connected clients, below a root window that covers the
  screen, with the mouse on it.
\<close>

theorem server_never_crashes:
  assumes "sv_reachable s" and "sv_allowed op s"
  shows "\<exists>t. sv_exec op s = Some t \<and> sv_ok t \<and> connected t"
  using sv_exec_ok [OF reachable_good [OF assms(1)] assms(2)] by (auto simp: good_def)

lemma server_never_crashes_witness:
  "\<exists>s. compose_sv_create 640 480 7 8 = Some s \<and> sv_reachable s \<and> (\<exists>t. sv_exec (Mouse \<lparr>raw_data = 8, raw_mx = 3, raw_my = 4\<rparr>) s = Some t \<and> sv_ok t \<and> connected t)"
proof -
  obtain s where s: "compose_sv_create 640 480 7 8 = Some s" using create_good [of 640 480 7 8] by auto
  then have r: "sv_reachable s" by (rule sv_start) simp_all
  show ?thesis using s r server_never_crashes [OF r, of "Mouse \<lparr>raw_data = 8, raw_mx = 3, raw_my = 4\<rparr>"] by auto
qed

text \<open>
  C19: A client that disconnects takes with it exactly its own windows, in every state reachable by permitted
  steps: no client has put a window into the overlay window or into a window of another client (such windows
  the code would leave behind). The call returns, afterwards the windows that exist are those of the other clients and of the server, the client is gone from the list of clients, no
  grab of it is left, its socket is closed once, and nothing was sent.
\<close>

theorem disconnect_removes_own_windows:
  assumes "sv_reachable s" and "clients s c = Some cl"
  shows "\<exists>t. compose_sv_disconnect c s = Some t \<and> dom (windows t) = {x. \<exists>w. windows s x = Some w \<and> w_client w \<noteq> c} \<and>
    set (sv_windows t) = dom (windows t) \<and> clients t = (clients s)(c := None) \<and> set (sv_clients t) = set (sv_clients s) - {c} \<and>
    (\<forall>g\<in>set (sv_grabs t). g_client g \<noteq> c \<and> windows t (g_window g) \<noteq> None) \<and> closed t = closed s @ [cl_socket cl] \<and> sent t = sent s"
proof -
  have ok: "sv_ok s" using reachable_good [OF assms(1)] by (simp add: good_def)
  then have d: "distinct (sv_clients s)" by (simp add: sv_ok_def listed_def)
  obtain t where t: "compose_sv_disconnect c s = Some t" "sv_ok t" "dom (windows t) = {x. \<exists>w. windows s x = Some w \<and> w_client w \<noteq> c}"
    "clients t = (clients s)(c := None)" "sv_clients t = remove1 c (sv_clients s)" "sent t = sent s" "closed t = closed s @ [cl_socket cl]" "\<forall>g\<in>set (sv_grabs t). g_client g \<noteq> c"
    using disconnect_spec [OF ok assms(2)] by blast
  have "set (sv_windows t) = dom (windows t)" "\<forall>g\<in>set (sv_grabs t). windows t (g_window g) \<noteq> None"
    using t(2) by (simp_all add: sv_ok_def listed_def targets_ok_def)
  then show ?thesis using t d by (intro exI [of _ t]) auto
qed

lemma disconnect_removes_own_windows_witness:
  "\<exists>s c cl t. sv_reachable s \<and> clients s c = Some cl \<and> compose_sv_disconnect c s = Some t \<and> clients t = (clients s)(c := None)"
proof -
  obtain s where s: "compose_sv_create 640 480 7 8 = Some s" using create_good [of 640 480 7 8] by auto
  then have r: "sv_reachable s" by (rule sv_start) simp_all
  then obtain s1 where s1: "sv_exec (Accept 0 5) s = Some s1" "\<exists>c cl. clients s1 c = Some cl"
    using accept_ok [OF reachable_good, of s 0 5] by auto
  have r1: "sv_reachable s1" using sv_step [OF r _ s1(1)] by simp
  obtain c cl where c: "clients s1 c = Some cl" using s1(2) by blast
  obtain t where "compose_sv_disconnect c s1 = Some t" "clients t = (clients s1)(c := None)"
    using disconnect_removes_own_windows [OF r1 c] by blast
  with r1 c show ?thesis by (intro exI conjI)
qed

end
