(* ===== verification/Compose_Props.thy ===== *)
theory Compose_Props
  imports Compose_Safe
begin

text \<open>
  What the window server does for its users: a raised window is the topmost of its siblings and nothing else
  changes, and an event goes to exactly those who asked for it, on the way from a window to the root.
\<close>

section \<open>Raising\<close>

lemma sort_key_raise:
  assumes "distinct cs" and "a \<in> set cs" and "sorted (map f (remove1 a cs))" and "\<forall>x\<in>set cs. x \<noteq> a \<longrightarrow> f x < (f a :: int)"
  shows "sort_key f cs = remove1 a cs @ [a]"
proof (rule properties_for_sort_key)
  show "mset (remove1 a cs @ [a]) = mset cs" using assms(2) by simp
  have "\<forall>x\<in>set (remove1 a cs). f x \<le> f a" using assms(1,4) by fastforce
  then show "sorted (map f (remove1 a cs @ [a]))" using assms(3) by (simp add: sorted_append)
  fix k assume "k \<in> set (remove1 a cs @ [a])"
  have r: "filter P (remove1 a cs) = filter P cs" if "\<not> P a" for P using that by (induction cs) auto
  show "filter (\<lambda>x. f k = f x) (remove1 a cs @ [a]) = filter (\<lambda>x. f k = f x) cs"
  proof (cases "f k = f a")
    case True
    then have "filter (\<lambda>x. f k = f x) cs = filter ((=) a) cs" using assms(4) by (auto intro!: filter_cong)
    also have "\<dots> = [a]" using assms(1,2) by (induction cs) (auto simp: filter_empty_conv)
    finally have 1: "filter (\<lambda>x. f k = f x) cs = [a]" .
    have "filter (\<lambda>x. f k = f x) (remove1 a cs) = []" using True assms(1,4) by (force simp: filter_empty_conv)
    then show ?thesis using 1 True by simp
  next
    case False
    then show ?thesis using r [of "\<lambda>x. f k = f x"] by simp
  qed
qed

lemma move_window_z:
  assumes "sv_ok s" and "windows s a = Some w" and "w_parent w \<noteq> 0"
  shows "move_window a new COMPOSE_MOVE_Z s = Some (restacked a (w\<lparr>w_pos := (w_pos w)\<lparr>p_z := p_z new\<rparr>\<rparr>) s)"
proof -
  define v where "v = w\<lparr>w_pos := (w_pos w)\<lparr>p_z := p_z new\<rparr>\<rparr>"
  have "move_window a new COMPOSE_MOVE_Z s = compose_sv_restack (brk s) (w_parent w) (set_window a v s)"
    using assms(2,3) by (simp add: move_window_def v_def)
  moreover have "w_parent v = w_parent w" "w_children v = w_children w" by (simp_all add: v_def)
  ultimately show ?thesis using restack_moved [OF assms(1,2) _ _ assms(3), of v] by (simp only: v_def)
qed

lemma sorted_last: "sorted (map f xs) \<Longrightarrow> x \<in> set xs \<Longrightarrow> f x \<le> (f (last xs) :: int)"
  by (induction xs rule: rev_induct) (auto simp: sorted_append)

lemma remove1_last: "distinct xs \<Longrightarrow> xs \<noteq> [] \<Longrightarrow> remove1 (last xs) xs @ [last xs] = xs"
  by (induction xs rule: rev_induct) (auto simp: remove1_append)

lemma sint_Suc:
  fixes x :: u32
  assumes "sint x < 2 ^ 31 - 1"
  shows "sint (x + 1) = sint x + 1"
proof -
  have "- (2 ^ 31) \<le> sint x" using sint_ge [of x] by simp
  then have "signed_take_bit 31 (sint x + 1) = sint x + 1" using assms by (intro signed_take_bit_int_eq_self) simp_all
  then show ?thesis by (simp add: sint_word_ariths)
qed

lemma raise_result:
  assumes "sv_ok s" and "windows s a = Some w" and "w_parent w \<noteq> 0" and "windows s (w_parent w) = Some par"
    and "z_of (windows s) (last (w_children par)) < 2 ^ 31 - 1"
  shows "\<exists>t q. compose_sv_raise a s = Some t \<and> windows t (w_parent w) = Some q \<and> w_children q = remove1 a (w_children par) @ [a] \<and>
    (\<forall>x. x \<noteq> a \<longrightarrow> x \<noteq> w_parent w \<longrightarrow> windows t x = windows s x)"
proof -
  let ?cs = "w_children par" and ?h = "windows s"
  have f: "forest ?h (brk s)" using assms(1) by (simp add: sv_ok_def)
  note par = forestD [OF f assms(4)]
  have a: "a \<in> set ?cs" using par(6) assms(2) by blast
  then have ne: "?cs \<noteq> []" by auto
  then have l: "last ?cs \<in> set ?cs" by simp
  obtain u where u: "?h (last ?cs) = Some u" using forest_childD [OF f assms(4) l] by auto
  have srt: "sorted (map (z_of ?h) ?cs)" using assms(1,4) by (simp add: sv_ok_def stacked_def)
  show ?thesis
  proof (cases "last ?cs = a")
    case True
    then show ?thesis using assms(2,3,4) ne remove1_last [OF par(5) ne] by simp
  next
    case False
    define new where "new = (w_pos w)\<lparr>p_z := p_z (w_pos u) + 1\<rparr>"
    define v where "v = w\<lparr>w_pos := (w_pos w)\<lparr>p_z := p_z new\<rparr>\<rparr>"
    define t where "t = restacked a v s"
    have z: "sint (p_z (w_pos u) + 1) = z_of ?h (last ?cs) + 1"
      using assms(5) u sint_Suc [of "p_z (w_pos u)"] by (simp add: z_of_def)
    have pz: "p_z (w_pos w) \<noteq> p_z new" using z sorted_last [OF srt a] assms(2) by (auto simp: z_of_def new_def)
    have pa: "w_parent w \<noteq> a" using forestD(3) [OF f assms(2,3)] by simp
    have k: "sv_keeps s t" unfolding t_def using assms(2,3) rootE [OF assms(1)] by (intro restacked_keeps [OF assms(1,2)]) (auto simp: v_def)
    obtain x where x: "notify_move a (w_pos w) t = Some (t\<lparr>sent := x\<rparr>)" using sv_keeps_notify [OF k, of a] assms(2) by auto
    have mv: "compose_sv_move a new COMPOSE_MOVE_Z s = Some (t\<lparr>sent := x\<rparr>)"
      using pz x move_window_z [OF assms(1,2,3), of new] assms(2) by (auto simp: t_def v_def)
    have rs: "compose_sv_raise a s = Some (t\<lparr>sent := x\<rparr>)"
      using mv assms(2,3,4) ne False u by (simp add: Let_def new_def del: compose_sv_move.simps)
    let ?g = "?h(a \<mapsto> v)"
    have tw: "windows t = ?g(w_parent w \<mapsto> par\<lparr>w_children := sort_key (z_of ?g) ?cs\<rparr>)"
      using assms(3,4) pa by (simp add: t_def restacked_def Let_def v_def)
    have zo: "z_of ?g c = z_of ?h c" if "c \<noteq> a" for c using that by (simp add: z_of_def)
    have za: "z_of ?g a = z_of ?h (last ?cs) + 1" using z by (simp add: z_of_def v_def new_def)
    have "sort_key (z_of ?g) ?cs = remove1 a ?cs @ [a]"
    proof (rule sort_key_raise [OF par(5) a])
      have "map (z_of ?g) (remove1 a ?cs) = map (z_of ?h) (remove1 a ?cs)" using zo par(5) by auto
      then show "sorted (map (z_of ?g) (remove1 a ?cs))" using srt by (simp only: sorted_map_remove1)
      show "\<forall>x\<in>set ?cs. x \<noteq> a \<longrightarrow> z_of ?g x < z_of ?g a" using zo za sorted_last [OF srt] by fastforce
    qed
    then show ?thesis using rs tw by auto
  qed
qed

text \<open>
  C21: Raising puts a window on top of its siblings. In a reachable state, as long as the depth of the topmost
  sibling can still be incremented, \<^verbatim>\<open>compose_sv_raise\<close> returns, the window is the last of its parent's children,
  the other children keep their order, and no other window is changed.
\<close>

theorem raise_puts_on_top:
  assumes "sv_reachable s" and "windows s a = Some w" and "w_parent w \<noteq> 0" and "windows s (w_parent w) = Some par"
    and "z_of (windows s) (last (w_children par)) < 2 ^ 31 - 1"
  shows "\<exists>t q. compose_sv_raise a s = Some t \<and> windows t (w_parent w) = Some q \<and> w_children q = remove1 a (w_children par) @ [a] \<and>
    (\<forall>x. x \<noteq> a \<longrightarrow> x \<noteq> w_parent w \<longrightarrow> windows t x = windows s x)"
  using raise_result [OF _ assms(2-5)] reachable_good [OF assms(1)] by (simp add: good_def)

section \<open>Events\<close>

text \<open>A window and the windows that contain it, from the inside out.\<close>

primrec window_path :: "nat \<Rightarrow> (nat \<rightharpoonup> window) \<Rightarrow> nat \<Rightarrow> window list" where
  "window_path 0 h a = []"
| "window_path (Suc n) h a =
     (case h a of None \<Rightarrow> [] | Some w \<Rightarrow> w # (if w_parent w = 0 then [] else window_path n h (w_parent w)))"

text \<open>The sockets of those who want an event of a window: its owner by the mask, and the first who grabbed it.\<close>

definition recipients :: "server \<Rightarrow> u64 \<Rightarrow> window \<Rightarrow> u32 list" where
  "recipients s ty w =
     (let sock = (\<lambda>c. cl_socket (the (clients s c)))
      in (if w_event_mask w AND ty \<noteq> 0 \<and> w_client w \<noteq> 0 then [sock (w_client w)] else []) @
         (case find (\<lambda>g. g_type g AND ty \<noteq> 0 \<and> w_id (the (windows s (g_window g))) = w_id w) (sv_grabs s) of
            None \<Rightarrow> [] | Some g \<Rightarrow> [sock (g_client g)]))"

definition sent_by :: "server \<Rightarrow> event \<Rightarrow> u32 option \<Rightarrow> window \<Rightarrow> (u32 \<times> event) list" where
  "sent_by s ev child w = map (\<lambda>sock. (sock, ev\<lparr>ev_win := Some (w_id w), ev_child := child\<rparr>)) (recipients s (ev_type ev) w)"

text \<open>Each window of the path sends to its recipients, with itself as the window and the one before it as the child.\<close>

definition deliveries :: "server \<Rightarrow> event \<Rightarrow> window list \<Rightarrow> (u32 \<times> event) list" where
  "deliveries s ev ws = concat (map2 (sent_by s ev) (ev_child ev # map (Some \<circ> w_id) ws) ws)"

lemma get_grab_find:
  assumes "\<forall>g\<in>set gs. st (g_window g) \<noteq> None"
  shows "get_grab st wid ty gs = Some (find (\<lambda>g. g_type g AND ty \<noteq> 0 \<and> w_id (the (st (g_window g))) = wid) gs)"
  using assms by (induction gs) auto

lemma deliver_spec:
  assumes "sv_ok s" and "windows s a = Some w"
  shows "\<exists>e. deliver w ev s = Some (s\<lparr>sent := sent s @ sent_by s ev (ev_child ev) w\<rparr>, ev\<lparr>ev_win := e\<rparr>)"
proof -
  have g: "\<forall>g\<in>set (sv_grabs s). windows s (g_window g) \<noteq> None" using assms(1) by (simp add: sv_ok_def targets_ok_def)
  define gr where "gr = find (\<lambda>g. g_type g AND ev_type ev \<noteq> 0 \<and> w_id (the (windows s (g_window g))) = w_id w) (sv_grabs s)"
  have gg: "get_grab (windows s) (w_id w) (ev_type ev) (sv_grabs s) = Some gr" using get_grab_find [OF g] by (simp add: gr_def)
  have "\<forall>g. gr = Some g \<longrightarrow> g \<in> set (sv_grabs s)" by (auto simp: gr_def find_Some_iff)
  then have gc: "\<And>g. gr = Some g \<Longrightarrow> clients s (g_client g) \<noteq> None" using assms(1) by (auto simp: sv_ok_def targets_ok_def)
  have rc: "recipients s (ev_type ev) w =
      (if w_event_mask w AND ev_type ev \<noteq> 0 \<and> w_client w \<noteq> 0 then [cl_socket (the (clients s (w_client w)))] else []) @
      (case gr of None \<Rightarrow> [] | Some g \<Rightarrow> [cl_socket (the (clients s (g_client g)))])"
    by (simp add: recipients_def gr_def)
  define m where "m \<longleftrightarrow> w_event_mask w AND ev_type ev \<noteq> 0"
  define k where "k \<longleftrightarrow> m \<and> w_client w \<noteq> 0"
  have ow: "k \<Longrightarrow> clients s (w_client w) \<noteq> None" using ownedD(1) [OF assms] by (simp add: k_def)
  have ev: "ev\<lparr>ev_win := e, ev_child := ev_child ev\<rparr> = ev\<lparr>ev_win := e\<rparr>" "ev\<lparr>ev_win := ev_win ev\<rparr> = ev" for e by (cases ev, simp)+
  show ?thesis
  proof (cases "m \<or> gr \<noteq> None")
    case False
    then have "sent_by s ev (ev_child ev) w = []" by (simp add: sent_by_def rc m_def)
    moreover have "deliver w ev s = Some (s, ev)" using gg False by (simp add: deliver_def m_def)
    ultimately show ?thesis using ev(2) by (intro exI [of _ "ev_win ev"]) simp
  next
    case True
    define e1 where "e1 = ev\<lparr>ev_win := Some (w_id w)\<rparr>"
    have sb: "sent_by s ev (ev_child ev) w = (if k then [(cl_socket (the (clients s (w_client w))), e1)] else []) @
        (case gr of None \<Rightarrow> [] | Some g \<Rightarrow> [(cl_socket (the (clients s (g_client g))), e1)])"
      by (simp add: sent_by_def rc ev(1) e1_def k_def m_def split: option.splits)
    have snd: "compose_sv_event_send c e t = Some (t\<lparr>sent := sent t @ [(cl_socket (the (clients t c)), e)]\<rparr>)" if "clients t c \<noteq> None" for c e and t :: server
      using that by (auto simp: compose_sv_event_send_def)
    have "deliver w ev s = Some (s\<lparr>sent := sent s @ sent_by s ev (ev_child ev) w\<rparr>, e1)"
      unfolding deliver_def gg sb Option.bind.simps Let_def e1_def [symmetric] m_def [symmetric] k_def [symmetric]
      using True ow gc by (cases k; cases gr) (simp_all add: snd)
    then show ?thesis by (auto simp: e1_def)
  qed
qed

lemma sent_by_same: "sent_by s (ev\<lparr>ev_win := x, ev_child := y\<rparr>) = sent_by s ev" "sent_by (s\<lparr>sent := z\<rparr>) ev = sent_by s ev"
  by (simp_all add: sent_by_def recipients_def fun_eq_iff)

lemma deliveries_Cons:
  "deliveries s ev (w # ws) = sent_by s ev (ev_child ev) w @ deliveries (s\<lparr>sent := z\<rparr>) (ev\<lparr>ev_win := x, ev_child := Some (w_id w)\<rparr>) ws"
  by (simp add: deliveries_def sent_by_same)

lemma propagate_spec:
  assumes "sv_ok s" and "windows s a \<noteq> None" and "a \<le> n"
  shows "\<exists>e. compose_sv_event_propagate a ev s = Some (s\<lparr>sent := sent s @ deliveries s ev (window_path n (windows s) a)\<rparr>, e)"
  using assms
proof (induction a arbitrary: n ev s rule: less_induct)
  case (less a)
  then obtain w where w: "windows s a = Some w" by auto
  have f: "forest (windows s) (brk s)" using less.prems(1) by (simp add: sv_ok_def)
  obtain k where k: "n = Suc k" using forestD(1) [OF f w] less.prems(3) by (cases n) auto
  obtain x where d: "deliver w ev s = Some (s\<lparr>sent := sent s @ sent_by s ev (ev_child ev) w\<rparr>, ev\<lparr>ev_win := x\<rparr>)"
    using deliver_spec [OF less.prems(1) w] by blast
  show ?case
  proof (cases "w_parent w = 0")
    case True
    then show ?thesis using w d by (subst compose_sv_event_propagate.simps) (simp add: k deliveries_def)
  next
    case False
    let ?s = "s\<lparr>sent := sent s @ sent_by s ev (ev_child ev) w\<rparr>" and ?e = "ev\<lparr>ev_win := x, ev_child := Some (w_id w)\<rparr>"
    have p: "w_parent w < a" "windows s (w_parent w) \<noteq> None" using forestD(3,4) [OF f w] False by auto
    then obtain e where e: "compose_sv_event_propagate (w_parent w) ?e ?s = Some (?s\<lparr>sent := sent ?s @ deliveries ?s ?e (window_path k (windows ?s) (w_parent w))\<rparr>, e)"
      using less.IH [of "w_parent w" ?s k ?e] less.prems(1,3) k by auto
    have "compose_sv_event_propagate a ev s = compose_sv_event_propagate (w_parent w) ?e ?s"
      using w d False by (subst compose_sv_event_propagate.simps) simp
    also have "\<dots> = Some (s\<lparr>sent := sent s @ deliveries s ev (window_path n (windows s) a)\<rparr>, e)"
      unfolding e using w False by (simp add: k deliveries_Cons [where z = "sent s @ sent_by s ev (ev_child ev) w" and x = x])
    finally show ?thesis by blast
  qed
qed

text \<open>
  C20: An event reaches exactly those who asked for it. In a state reachable by permitted steps the call of
  \<^verbatim>\<open>compose_sv_event_propagate\<close> returns, and what it has written is, for the window and each window around it from the inside out: the event
  to the owner when its mask wants the type, then to the client of the first grab of that type on that window,
  each time with that window as target and the window before it as child, and with the type, the root and the
  contents unchanged. Nothing else of the server changes.
\<close>

theorem event_reaches_listeners:
  assumes "sv_reachable s" and "windows s a \<noteq> None"
  shows "\<exists>e. compose_sv_event_propagate a ev s = Some (s\<lparr>sent := sent s @ deliveries s ev (window_path (brk s) (windows s) a)\<rparr>, e)"
proof -
  have ok: "sv_ok s" using reachable_good [OF assms(1)] by (simp add: good_def)
  obtain w where w: "windows s a = Some w" using assms(2) by auto
  have "a \<le> brk s" using sv_ok_windows [OF ok w] by simp
  then show ?thesis by (rule propagate_spec [OF ok assms(2)])
qed

section \<open>Examples\<close>

text \<open>A server with a client at socket 5 that has opened two windows in the root window and listens to keys in the second.\<close>

definition demo_props :: "u64 \<Rightarrow> window_properties" where
  "demo_props em = \<lparr>wp_x = 10, wp_y = 20, wp_w = 100, wp_h = 50, wp_flags = 0, wp_event_mask = em\<rparr>"

lemmas demo_simps = compose_sv_create_def initial_server_def compose_sv_create_window_def new_window_def add_child_def announce_window_def set_window_def
  sort_windows_def sort_seq_def layer_above_def z_above_def compose_sv_focus_def send_focus_def focus_event_def root_id_def deliver_def
  accept_client_def compose_add_client_def compose_get_client_def compose_create_client_def compose_sv_event_send_def compose_sv_get_window_def
  demo_props_def Let_def

definition permitted :: "sv_op \<Rightarrow> server \<Rightarrow> server option" where
  "permitted op s = (if sv_allowed op s then sv_exec op s else None)"

definition demo :: "server option" where
  "demo = do {
     s0 \<leftarrow> compose_sv_create 640 480 7 8;
     s1 \<leftarrow> permitted (Accept 0 5) s0;
     s2 \<leftarrow> permitted (Request 0 9 3 (ReqNewwin 1 (demo_props 0))) s1;
     permitted (Request 0 10 3 (ReqNewwin 1 (demo_props 1))) s2 }"

lemma permitted_reachable: "sv_reachable s \<Longrightarrow> permitted op s = Some t \<Longrightarrow> sv_reachable t"
  by (auto simp: permitted_def split: if_splits intro: sv_step)

lemma demo_reachable: "demo = Some s \<Longrightarrow> sv_reachable s"
proof -
  assume "demo = Some s"
  then obtain s0 s1 s2 where st: "compose_sv_create 640 480 7 8 = Some s0" "permitted (Accept 0 5) s0 = Some s1"
    "permitted (Request 0 9 3 (ReqNewwin 1 (demo_props 0))) s1 = Some s2" "permitted (Request 0 10 3 (ReqNewwin 1 (demo_props 1))) s2 = Some s"
    by (auto simp: demo_def bind_eq_Some_conv)
  have "sv_reachable s0" by (rule sv_start [OF st(1)]) simp_all
  from permitted_reachable [OF permitted_reachable [OF permitted_reachable [OF this st(2)] st(3)] st(4)] show ?thesis .
qed

lemma window_path_numeral:
  "window_path (numeral n) h a = (case h a of None \<Rightarrow> [] | Some w \<Rightarrow> w # (if w_parent w = 0 then [] else window_path (pred_numeral n) h (w_parent w)))"
  by (simp add: numeral_eq_Suc)

definition key_event :: "u32 option \<Rightarrow> event" where
  "key_event win = \<lparr>ev_type = 1, ev_size = 36, ev_win = win, ev_child = None, ev_root = None, ev_payload = NoPayload\<rparr>"

lemma demo_state:
  "\<exists>s. demo = Some s \<and> map_option w_parent (windows s 4) = Some 1 \<and> map_option w_children (windows s 1) = Some [4, 5] \<and> z_of (windows s) 5 = 0 \<and>
     deliveries s (key_event None) (window_path (brk s) (windows s) 5) = [(5, key_event (Some 4))] \<and> windows s 5 \<noteq> None"
  by (simp add: demo_def permitted_def demo_simps compose_sv_event_propagate.simps z_of_def deliveries_def sent_by_def recipients_def window_path_numeral key_event_def)

lemma raise_puts_on_top_witness:
  "\<exists>s t q. sv_reachable s \<and> compose_sv_raise 4 s = Some t \<and> windows t 1 = Some q \<and> w_children q = [5, 4]"
proof -
  obtain s w r where s: "sv_reachable s" "windows s 4 = Some w" "w_parent w = 1" "windows s 1 = Some r" "w_children r = [4, 5]" "z_of (windows s) 5 = 0"
    using demo_state demo_reachable by fastforce
  then have "z_of (windows s) (last (w_children r)) < 2 ^ 31 - 1" by simp
  then show ?thesis using raise_puts_on_top [OF s(1,2), of r] s by auto
qed

lemma event_reaches_listeners_witness:
  "\<exists>s t e. sv_reachable s \<and> compose_sv_event_propagate 5 (key_event None) s = Some (t, e) \<and> sent t = sent s @ [(5, key_event (Some 4))]"
proof -
  obtain s where s: "sv_reachable s" "windows s 5 \<noteq> None" "deliveries s (key_event None) (window_path (brk s) (windows s) 5) = [(5, key_event (Some 4))]"
    using demo_state demo_reachable by blast
  obtain e where e: "compose_sv_event_propagate 5 (key_event None) s = Some (s\<lparr>sent := sent s @ [(5, key_event (Some 4))]\<rparr>, e)"
    using event_reaches_listeners [OF s(1,2), of "key_event None"] s(3) by auto
  show ?thesis using s(1) e by (intro exI conjI) (assumption, assumption, simp)
qed

end
