(* ===== verification/Compose_Client.thy ===== *)
theory Compose_Client
  imports Compose
begin

text \<open>
  The client's side of \<^verbatim>\<open>libs/libcompose\<close>: the requests that the calls of the library write to the socket,
  the events read from it, and the queues in which events that arrive while the library waits for an answer
  are kept for the program. The socket is the list of events that the server has written and will write.
\<close>

section \<open>Requests\<close>

definition compose_cl_move :: "u32 \<Rightarrow> u32 \<Rightarrow> u32 \<Rightarrow> request" where
  "compose_cl_move win x y = ReqMove win 3 \<lparr>p_x = x, p_y = y, p_z = - 1\<rparr>"

definition compose_cl_raise :: "u32 \<Rightarrow> request" where
  "compose_cl_raise win = ReqMove win COMPOSE_MOVE_RAISE \<lparr>p_x = - 1, p_y = - 1, p_z = - 1\<rparr>"

definition compose_cl_sunk :: "u32 \<Rightarrow> request" where
  "compose_cl_sunk win = ReqMove win COMPOSE_MOVE_SUNK \<lparr>p_x = - 1, p_y = - 1, p_z = - 1\<rparr>"

definition compose_cl_layer :: "u32 \<Rightarrow> u32 \<Rightarrow> request" where
  "compose_cl_layer win z = ReqMove win 4 \<lparr>p_x = 0, p_y = 0, p_z = z\<rparr>"

definition compose_cl_confirm_resize :: "u32 \<Rightarrow> request" where
  "compose_cl_confirm_resize win = ReqResize win COMPOSE_RESIZE_STAGE_FINAL None"

definition compose_cl_resize :: "u32 \<Rightarrow> u32 \<Rightarrow> u32 \<Rightarrow> request" where
  "compose_cl_resize win w h = ReqResize win COMPOSE_RESIZE_STAGE_INITIAL (Some (w, h))"

definition compose_cl_evmask :: "u32 \<Rightarrow> u64 \<Rightarrow> request" where
  "compose_cl_evmask win em = ReqEvmask win em"

definition compose_cl_grab :: "u32 \<Rightarrow> u64 \<Rightarrow> request" where
  "compose_cl_grab win ty = ReqGrab win ty"

definition compose_cl_focus :: "u32 \<Rightarrow> request" where
  "compose_cl_focus win = ReqFocus win"

definition compose_cl_unfocus :: "u32 \<Rightarrow> request" where
  "compose_cl_unfocus win = ReqFocus (- 1)"

definition compose_cl_disconnect :: request where
  "compose_cl_disconnect = ReqDisconnect"

definition compose_cl_flush :: "u32 \<Rightarrow> request" where
  "compose_cl_flush win = ReqFlush win"

section \<open>Events\<close>

record cl_state =
  raised_events :: "(u32 \<times> event list) list"
  inbox :: "event list"
  requests :: "request list"

definition compose_cl_send_request :: "request \<Rightarrow> cl_state \<Rightarrow> cl_state" where
  "compose_cl_send_request r st = st\<lparr>requests := requests st @ [r]\<rparr>"

text \<open>The first queue with the number of the client; a new one is put behind the others.\<close>

fun raise_event :: "u32 \<Rightarrow> event \<Rightarrow> (u32 \<times> event list) list \<Rightarrow> (u32 \<times> event list) list" where
  "raise_event cid ev [] = [(cid, [ev])]"
| "raise_event cid ev ((i, q) # qs) = (if i = cid then (i, q @ [ev]) # qs else (i, q) # raise_event cid ev qs)"

definition compose_cl_event_raise :: "u32 \<Rightarrow> event \<Rightarrow> cl_state \<Rightarrow> cl_state" where
  "compose_cl_event_raise cid ev st = st\<lparr>raised_events := raise_event cid ev (raised_events st)\<rparr>"

text \<open>The oldest event of the first queue of the client, and the queues without it.\<close>

fun take_raised :: "u32 \<Rightarrow> (u32 \<times> event list) list \<Rightarrow> (event \<times> (u32 \<times> event list) list) option" where
  "take_raised cid [] = None"
| "take_raised cid ((i, q) # qs) =
     (if i = cid then (case q of [] \<Rightarrow> None | ev # rest \<Rightarrow> Some (ev, (i, rest) # qs))
      else (case take_raised cid qs of None \<Rightarrow> None | Some (ev, qs1) \<Rightarrow> Some (ev, (i, q) # qs1)))"

definition compose_cl_event_poll :: "u32 \<Rightarrow> bool \<Rightarrow> cl_state \<Rightarrow> event option \<times> cl_state" where
  "compose_cl_event_poll cid raised st =
     (case if raised then take_raised cid (raised_events st) else None of
        Some (ev, qs) \<Rightarrow> (Some ev, st\<lparr>raised_events := qs\<rparr>)
      | None \<Rightarrow>
          (case inbox st of
             [] \<Rightarrow> (None, st)
           | ev # evs \<Rightarrow>
               let st1 = st\<lparr>inbox := evs\<rparr>
               in (Some ev, if ev_type ev = COMPOSE_EVENT_KEEPALIVE then compose_cl_send_request ReqKeepalive st1 else st1)))"

text \<open>Waiting for the answer to a request: the loop ends with the event of the wanted type.\<close>

partial_function (option) wait_window :: "u32 \<Rightarrow> cl_state \<Rightarrow> (u32 option \<times> cl_state) option" where
  "wait_window cid st =
     (case compose_cl_event_poll cid False st of
        (None, st1) \<Rightarrow> None
      | (Some ev, st1) \<Rightarrow>
          if ev_type ev = COMPOSE_EVENT_WIN then Some (ev_win ev, st1)
          else wait_window cid (compose_cl_event_raise cid ev st1))"

definition compose_cl_create_window :: "u32 \<Rightarrow> u32 \<Rightarrow> window_properties \<Rightarrow> cl_state \<Rightarrow> (u32 option \<times> cl_state) option" where
  "compose_cl_create_window cid par props st = wait_window cid (compose_cl_send_request (ReqNewwin par props) st)"

partial_function (option) wait_properties :: "u32 \<Rightarrow> cl_state \<Rightarrow> (payload \<times> cl_state) option" where
  "wait_properties cid st =
     (case compose_cl_event_poll cid False st of
        (None, st1) \<Rightarrow> wait_properties cid st1
      | (Some ev, st1) \<Rightarrow>
          if ev_type ev = COMPOSE_EVENT_PROPS then Some (ev_payload ev, st1)
          else wait_properties cid (compose_cl_event_raise cid ev st1))"

definition compose_cl_get_properties :: "u32 \<Rightarrow> u32 \<Rightarrow> cl_state \<Rightarrow> (payload \<times> cl_state) option" where
  "compose_cl_get_properties cid win st = wait_properties cid (compose_cl_send_request (ReqProps win) st)"

section \<open>No event is lost\<close>

text \<open>The queue that belongs to a client.\<close>

fun queue_of :: "u32 \<Rightarrow> (u32 \<times> event list) list \<Rightarrow> event list" where
  "queue_of cid [] = []"
| "queue_of cid ((i, q) # qs) = (if i = cid then q else queue_of cid qs)"

definition answers :: "event list \<Rightarrow> request list" where
  "answers evs = map (\<lambda>_. ReqKeepalive) (filter (\<lambda>ev. ev_type ev = COMPOSE_EVENT_KEEPALIVE) evs)"

primrec poll_all :: "u32 \<Rightarrow> nat \<Rightarrow> cl_state \<Rightarrow> event option list \<times> cl_state" where
  "poll_all cid 0 st = ([], st)"
| "poll_all cid (Suc n) st =
     (case compose_cl_event_poll cid True st of (ev, st1) \<Rightarrow> (case poll_all cid n st1 of (evs, st2) \<Rightarrow> (ev # evs, st2)))"

lemma queue_raise: "queue_of cid (raise_event i ev qs) = (if cid = i then queue_of cid qs @ [ev] else queue_of cid qs)"
  by (induction i ev qs rule: raise_event.induct) auto

lemma take_raised_spec:
  "case take_raised cid qs of
     None \<Rightarrow> queue_of cid qs = []
   | Some (ev, qs1) \<Rightarrow> queue_of cid qs = ev # queue_of cid qs1 \<and> (\<forall>j. j \<noteq> cid \<longrightarrow> queue_of j qs1 = queue_of j qs)"
  by (induction cid qs rule: take_raised.induct) (auto split: list.splits option.splits)

lemma wait_window_spec:
  assumes "\<forall>ev\<in>set pre. ev_type ev \<noteq> COMPOSE_EVENT_WIN" and "ev_type w = COMPOSE_EVENT_WIN" and "inbox st = pre @ w # post"
  shows "\<exists>st1. wait_window cid st = Some (ev_win w, st1) \<and> inbox st1 = post \<and>
    requests st1 = requests st @ answers pre \<and>
    queue_of cid (raised_events st1) = queue_of cid (raised_events st) @ pre \<and>
    (\<forall>j. j \<noteq> cid \<longrightarrow> queue_of j (raised_events st1) = queue_of j (raised_events st))"
  using assms
proof (induction pre arbitrary: st)
  case Nil
  then show ?case by (subst wait_window.simps) (simp add: compose_cl_event_poll_def Let_def answers_def)
next
  case (Cons ev pre)
  let ?st = "compose_cl_event_raise cid ev (snd (compose_cl_event_poll cid False st))"
  have "inbox ?st = pre @ w # post" using Cons.prems(3)
    by (simp add: compose_cl_event_raise_def compose_cl_event_poll_def compose_cl_send_request_def Let_def)
  from Cons.IH [OF _ Cons.prems(2) this] Cons.prems(1)
  obtain st1 where st1: "wait_window cid ?st = Some (ev_win w, st1)" "inbox st1 = post"
    "requests st1 = requests ?st @ answers pre"
    "queue_of cid (raised_events st1) = queue_of cid (raised_events ?st) @ pre"
    "\<forall>j. j \<noteq> cid \<longrightarrow> queue_of j (raised_events st1) = queue_of j (raised_events ?st)"
    by auto
  have "wait_window cid st = wait_window cid ?st"
    using Cons.prems(1,3) by (subst wait_window.simps) (simp add: compose_cl_event_poll_def Let_def)
  moreover have "requests ?st = requests st @ answers [ev]" "raised_events ?st = raise_event cid ev (raised_events st)"
    using Cons.prems(3) by (simp_all add: compose_cl_event_raise_def compose_cl_event_poll_def compose_cl_send_request_def Let_def answers_def)
  ultimately show ?case using st1 by (auto simp: queue_raise answers_def)
qed

lemma poll_all_spec:
  assumes "queue_of cid (raised_events st) = q"
  shows "\<exists>st1. poll_all cid (length q) st = (map Some q, st1) \<and> inbox st1 = inbox st \<and> requests st1 = requests st \<and> queue_of cid (raised_events st1) = []"
  using assms
proof (induction q arbitrary: st)
  case (Cons ev q)
  obtain qs where "take_raised cid (raised_events st) = Some (ev, qs)" "queue_of cid qs = q"
    using take_raised_spec [of cid "raised_events st"] Cons.prems by (auto split: option.splits)
  then show ?case
    using Cons.IH [of "st\<lparr>raised_events := qs\<rparr>"] by (auto simp: compose_cl_event_poll_def)
qed simp

text \<open>
  Waiting for a new window loses no event. Whatever events \<open>pre\<close> arrive before the answer,
  \<^verbatim>\<open>compose_cl_create_window\<close> returns the number in the answer, has sent the request and then one reply to each
  keepalive among \<open>pre\<close>, and the program's next calls of \<^verbatim>\<open>compose_cl_event_poll\<close> get the events it had not yet
  taken followed by \<open>pre\<close>, in order; the events behind the answer are still unread.
\<close>

theorem create_window_keeps_events:
  assumes "\<forall>ev\<in>set pre. ev_type ev \<noteq> COMPOSE_EVENT_WIN" and "ev_type w = COMPOSE_EVENT_WIN"
    and "inbox st = pre @ w # post" and "queue_of cid (raised_events st) = q"
  shows "\<exists>st1 st2. compose_cl_create_window cid par props st = Some (ev_win w, st1) \<and>
    requests st1 = requests st @ ReqNewwin par props # answers pre \<and> inbox st1 = post \<and>
    poll_all cid (length (q @ pre)) st1 = (map Some (q @ pre), st2) \<and> inbox st2 = post"
proof -
  have "inbox (compose_cl_send_request (ReqNewwin par props) st) = pre @ w # post"
    using assms(3) by (simp add: compose_cl_send_request_def)
  from wait_window_spec [OF assms(1,2) this, of cid] obtain st1
    where st1: "compose_cl_create_window cid par props st = Some (ev_win w, st1)" "inbox st1 = post"
      "requests st1 = requests st @ ReqNewwin par props # answers pre" "queue_of cid (raised_events st1) = q @ pre"
    using assms(4) by (auto simp: compose_cl_create_window_def compose_cl_send_request_def)
  from poll_all_spec [OF st1(4)] st1 show ?thesis by auto
qed

definition plain_event :: "u64 \<Rightarrow> u32 \<Rightarrow> event" where
  "plain_event ty n = \<lparr>ev_type = ty, ev_size = 24, ev_win = Some n, ev_child = None, ev_root = None, ev_payload = NoPayload\<rparr>"

lemma create_window_keeps_events_witness:
  "\<exists>st1 st2. compose_cl_create_window 0 1 \<lparr>wp_x = 0, wp_y = 0, wp_w = 9, wp_h = 9, wp_flags = 0, wp_event_mask = 0\<rparr>
      \<lparr>raised_events = [], inbox = [plain_event 1 5, plain_event 1024 0] @ plain_event 32 6 # [plain_event 2 6], requests = []\<rparr>
      = Some (ev_win (plain_event 32 6), st1) \<and>
    requests st1 = [] @ ReqNewwin 1 \<lparr>wp_x = 0, wp_y = 0, wp_w = 9, wp_h = 9, wp_flags = 0, wp_event_mask = 0\<rparr> # answers [plain_event 1 5, plain_event 1024 0] \<and>
    inbox st1 = [plain_event 2 6] \<and>
    poll_all 0 (length ([] @ [plain_event 1 5, plain_event 1024 0])) st1 = (map Some ([] @ [plain_event 1 5, plain_event 1024 0]), st2) \<and>
    inbox st2 = [plain_event 2 6]"
  using create_window_keeps_events [where pre = "[plain_event 1 5, plain_event 1024 0]" and w = "plain_event 32 6" and post = "[plain_event 2 6]"
      and st = "\<lparr>raised_events = [], inbox = [plain_event 1 5, plain_event 1024 0] @ plain_event 32 6 # [plain_event 2 6], requests = []\<rparr>"
      and cid = 0 and q = "[]" and par = 1 and props = "\<lparr>wp_x = 0, wp_y = 0, wp_w = 9, wp_h = 9, wp_flags = 0, wp_event_mask = 0\<rparr>"]
  by (simp add: plain_event_def)

end
