(* ===== verification/Paging.thy ===== *)
theory Paging
  imports Pmm "HOL-Library.Monad_Syntax"
begin

text \<open>
  Address spaces, from \<^verbatim>\<open>kernel/src/mem/paging.c\<close> and \<^verbatim>\<open>kernel/src/mem/memory.c\<close>. Physical memory is a table of
  frames of 1024 words, and every access of the kernel to a page table goes through the translation of the
  processor (\<open>mmu\<close>), as in the code: the directory at its address in the kernel's half, the tables in the window at
  \<open>0xFFC00000\<close> that the last entry of the directory opens. An access to an address that is not mapped is \<open>None\<close>, as
  is a panic. The processor runs in supervisor mode without write protection (\<open>boot.asm\<close> sets only the
  paging bit), so that a present page can be written.

  The processor may remember translations, and drops them when a directory is loaded or when a page is flushed. The model
  has no such memory: an access follows the tables as they are. The calls of \<open>__k_mem_paging_invlpg\<close> are there to make
  this true, but the routine (\<open>paging.asm\<close>, line 19) flushes the page of its own argument on the stack and not the page
  it is given. For a page that was not mapped this is harmless, since a missing translation is never remembered; a page
  that was unmapped and is mapped again to another frame, as the window through which \<open>k_mem_paging_clone_page_directory\<close>
  writes each new frame, may still be translated to the old one. What is proved of such sequences is about the tables.
\<close>

section \<open>Physical memory and translation\<close>

type_synonym frame = "20 word"
type_synonym slot = "10 word"

record pg =
  ram :: "frame \<Rightarrow> slot \<Rightarrow> u32"
  cr3 :: u32
  current_page_directory :: u32
  initial_page_directory :: u32
  pmm_of :: pmm
  first_free_address :: u32

text \<open>The bit fields of an entry: \<open>data.present\<close>, \<open>data.size\<close> and \<open>data.page\<close>.\<close>

definition e_present :: "u32 \<Rightarrow> bool" where
  "e_present e = bit e 0"

definition e_size :: "u32 \<Rightarrow> bool" where
  "e_size e = bit e 7"

definition e_page :: "u32 \<Rightarrow> frame" where
  "e_page e = ucast (drop_bit 12 e)"

definition PDE :: "u32 \<Rightarrow> slot" where
  "PDE addr = ucast (drop_bit 22 addr)"

definition PTE :: "u32 \<Rightarrow> slot" where
  "PTE addr = ucast (drop_bit 12 addr)"

definition ADDR :: "slot \<Rightarrow> slot \<Rightarrow> u32" where
  "ADDR pd pt = ucast pd * 0x400000 + ucast pt * 0x1000"

definition PT_PTR :: "slot \<Rightarrow> u32" where
  "PT_PTR pd_index = 0xFFC00000 + 0x1000 * ucast pd_index"

text \<open>
  The translation of the processor: the frame of an address. An entry of the directory with the size bit is a page
  of 4 MiB.
\<close>

definition mmu :: "pg \<Rightarrow> u32 \<Rightarrow> frame option" where
  "mmu s va =
     (let e = ram s (e_page (cr3 s)) (PDE va) in
      if \<not> e_present e then None
      else if e_size e then Some (push_bit 10 (ucast (drop_bit 22 e)) OR ucast (PTE va))
      else let t = ram s (e_page e) (PTE va) in if e_present t then Some (e_page t) else None)"

definition word_ix :: "u32 \<Rightarrow> slot" where
  "word_ix va = ucast (drop_bit 2 va)"

definition rd :: "pg \<Rightarrow> u32 \<Rightarrow> u32 option" where
  "rd s va = do { f \<leftarrow> mmu s va; Some (ram s f (word_ix va)) }"

definition poke :: "frame \<Rightarrow> slot \<Rightarrow> u32 \<Rightarrow> pg \<Rightarrow> pg" where
  "poke f k v s = s\<lparr>ram := (ram s)(f := (ram s f)(k := v))\<rparr>"

definition wr :: "u32 \<Rightarrow> u32 \<Rightarrow> pg \<Rightarrow> pg option" where
  "wr va v s = do { f \<leftarrow> mmu s va; Some (poke f (word_ix va) v s) }"

text \<open>Loops over the words of a page.\<close>

fun for_slots :: "(slot \<Rightarrow> pg \<Rightarrow> pg option) \<Rightarrow> slot list \<Rightarrow> pg \<Rightarrow> pg option" where
  "for_slots f [] s = Some s"
| "for_slots f (k # ks) s = do { t \<leftarrow> f k s; for_slots f ks t }"

definition slots :: "nat \<Rightarrow> slot list" where
  "slots n = map of_nat [0..<n]"

text \<open>\<open>memset(p, 0, 0x1000)\<close> and \<open>memcpy(dst, src, 0x1000)\<close> on pages, word by word.\<close>

definition clear_page :: "u32 \<Rightarrow> pg \<Rightarrow> pg option" where
  "clear_page p = for_slots (\<lambda>k. wr (p + 4 * ucast k) 0) (slots 1024)"

definition copy_page :: "u32 \<Rightarrow> u32 \<Rightarrow> pg \<Rightarrow> pg option" where
  "copy_page dst src = for_slots (\<lambda>k s. do { v \<leftarrow> rd s (src + 4 * ucast k); wr (dst + 4 * ucast k) v s }) (slots 1024)"

section \<open>Operations\<close>

text \<open>\<open>k_mem_pmm_alloc_frames(1)\<close> and \<open>k_mem_pmm_free(frame, 1)\<close> on the frames of this state.\<close>

definition pg_alloc :: "u32 \<Rightarrow> pg \<Rightarrow> (u32 \<times> pg) option" where
  "pg_alloc n s = do { (f, p) \<leftarrow> k_mem_pmm_alloc_frames (pmm_of s) n; Some (f, s\<lparr>pmm_of := p\<rparr>) }"

definition pg_free :: "u64 \<Rightarrow> pg \<Rightarrow> pg option" where
  "pg_free f s = do { p \<leftarrow> k_mem_pmm_free (pmm_of s) f 1; Some (s\<lparr>pmm_of := p\<rparr>) }"

definition dir_entry :: "pg \<Rightarrow> slot \<Rightarrow> u32 option" where
  "dir_entry s i = rd s (current_page_directory s + 4 * ucast i)"

definition k_mem_paging_virt2phys :: "pg \<Rightarrow> u32 \<Rightarrow> u32 option" where
  "k_mem_paging_virt2phys s vaddr = do {
     e \<leftarrow> dir_entry s (PDE vaddr);
     if \<not> e_present e then Some 0
     else if e_size e then
       Some ((push_bit 8 (e AND 0xffc00000) OR (e AND 0x1fe000)) + ((vaddr mod 0x400000) AND 0xfffff000) + vaddr mod 0x1000)
     else do {
       t \<leftarrow> rd s (PT_PTR (PDE vaddr) + 4 * ucast (PTE vaddr));
       Some (if e_present t then push_bit 12 (ucast (e_page t)) + vaddr mod 0x1000 else 0) } }"

definition PD_SET_FORCE :: u8 where "PD_SET_FORCE = 1"

definition k_mem_paging_set_page_directory :: "u32 \<Rightarrow> u8 \<Rightarrow> pg \<Rightarrow> pg option" where
  "k_mem_paging_set_page_directory addr fl s = (
     let a = (if addr = 0 then initial_page_directory s else addr) in do {
       valid \<leftarrow> k_mem_paging_virt2phys s a;
       if valid = 0 then None
       else if fl AND PD_SET_FORCE = 0 \<and> a = current_page_directory s then Some s
       else do {
         phys \<leftarrow> k_mem_paging_virt2phys s a;
         Some (s\<lparr>current_page_directory := a, cr3 := phys\<rparr>) } })"

definition k_mem_paging_unmap :: "u32 \<Rightarrow> pg \<Rightarrow> pg option" where
  "k_mem_paging_unmap vaddr s = do {
     e \<leftarrow> dir_entry s (PDE vaddr);
     if \<not> e_present e then Some s
     else wr (PT_PTR (PDE vaddr) + 4 * ucast (PTE vaddr)) 0 s }"

definition k_mem_paging_unmap_and_free :: "u32 \<Rightarrow> pg \<Rightarrow> pg option" where
  "k_mem_paging_unmap_and_free vaddr s = do {
     e \<leftarrow> dir_entry s (PDE vaddr);
     if \<not> e_present e then Some s
     else do {
       t \<leftarrow> rd s (PT_PTR (PDE vaddr) + 4 * ucast (PTE vaddr));
       s1 \<leftarrow> wr (PT_PTR (PDE vaddr) + 4 * ucast (PTE vaddr)) 0 s;
       let frame = (ucast (e_page t) * 0x1000 :: u32);
       if frame \<noteq> 0 then pg_free (ucast frame) s1 else Some s1 } }"

definition PAGE_PRESENT :: u8 where "PAGE_PRESENT = 1"
definition PAGE_WRITABLE :: u8 where "PAGE_WRITABLE = 2"
definition PAGE_USER :: u8 where "PAGE_USER = 4"

text \<open>The part of \<open>k_mem_paging_map\<close> that makes a missing table.\<close>

definition need_table :: "slot \<Rightarrow> u8 \<Rightarrow> pg \<Rightarrow> pg option" where
  "need_table i fl s = do {
     e \<leftarrow> dir_entry s i;
     if e_present e then Some s
     else do {
       (f, s1) \<leftarrow> pg_alloc 1 s;
       if f = 0 then None
       else do {
         s2 \<leftarrow> wr (current_page_directory s1 + 4 * ucast i)
                 (f OR ucast (PAGE_PRESENT OR PAGE_WRITABLE OR (if fl AND PAGE_USER \<noteq> 0 then PAGE_USER else 0))) s1;
         clear_page (PT_PTR i) s2 } } }"

definition k_mem_paging_map :: "u32 \<Rightarrow> u32 \<Rightarrow> u8 \<Rightarrow> pg \<Rightarrow> pg option" where
  "k_mem_paging_map vaddr paddr flags s = (
     let fl = (if flags = 0 then PAGE_PRESENT OR PAGE_WRITABLE else flags);
         a = PT_PTR (PDE vaddr) + 4 * ucast (PTE vaddr)
     in do {
       s1 \<leftarrow> need_table (PDE vaddr) fl s;
       t \<leftarrow> rd s1 a;
       if e_present t then None
       else do {
         (p, s2) \<leftarrow> (if paddr = 0 then pg_alloc 1 s1 else Some (paddr, s1));
         wr a (p OR ucast fl) s2 } })"

text \<open>The loops over a region; \<open>k\<close> counts up to \<open>size\<close>.\<close>

fun map_pages :: "u32 \<Rightarrow> (nat \<Rightarrow> u32) \<Rightarrow> u8 \<Rightarrow> nat list \<Rightarrow> pg \<Rightarrow> pg option" where
  "map_pages vaddr frame_at flags [] s = Some s"
| "map_pages vaddr frame_at flags (k # ks) s = (
     let f = frame_at k;
         s1 = (if k_mem_pmm_is_allocated (pmm_of s) (ucast f) then s
               else s\<lparr>pmm_of := k_mem_pmm_set_allocated (pmm_of s) (ucast f)\<rparr>)
     in do {
       s2 \<leftarrow> k_mem_paging_map (vaddr + 0x1000 * of_nat k) f flags s1;
       map_pages vaddr frame_at flags ks s2 })"

fun map_fresh :: "u32 \<Rightarrow> u8 \<Rightarrow> nat list \<Rightarrow> pg \<Rightarrow> pg option" where
  "map_fresh vaddr flags [] s = Some s"
| "map_fresh vaddr flags (k # ks) s = do {
     (f, s1) \<leftarrow> pg_alloc 1 s;
     s2 \<leftarrow> map_pages vaddr (\<lambda>_. f) flags [k] s1;
     map_fresh vaddr flags ks s2 }"

definition k_mem_paging_map_region :: "u32 \<Rightarrow> u32 \<Rightarrow> u32 \<Rightarrow> u8 \<Rightarrow> bool \<Rightarrow> pg \<Rightarrow> pg option" where
  "k_mem_paging_map_region vaddr paddr n flags contigous s =
     (if contigous then do {
        (f, s1) \<leftarrow> (if paddr \<noteq> 0 then Some (paddr, s) else pg_alloc n s);
        map_pages vaddr (\<lambda>k. f + 0x1000 * of_nat k) flags [0..<unat n] s1 }
      else if paddr \<noteq> 0 then map_pages vaddr (\<lambda>k. paddr + 0x1000 * of_nat k) flags [0..<unat n] s
      else map_fresh vaddr flags [0..<unat n] s)"

fun each_page :: "(u32 \<Rightarrow> pg \<Rightarrow> pg option) \<Rightarrow> u32 \<Rightarrow> nat list \<Rightarrow> pg \<Rightarrow> pg option" where
  "each_page f vaddr [] s = Some s"
| "each_page f vaddr (k # ks) s = do { t \<leftarrow> f (vaddr + of_nat k * 0x1000) s; each_page f vaddr ks t }"

definition k_mem_paging_unmap_region :: "u32 \<Rightarrow> u32 \<Rightarrow> pg \<Rightarrow> pg option" where
  "k_mem_paging_unmap_region vaddr n = each_page k_mem_paging_unmap vaddr [0..<unat n]"

definition k_mem_paging_unmap_and_free_region :: "u32 \<Rightarrow> u32 \<Rightarrow> pg \<Rightarrow> pg option" where
  "k_mem_paging_unmap_and_free_region vaddr n = each_page k_mem_paging_unmap_and_free vaddr [0..<unat n]"

subsection \<open>Pages for the kernel\<close>

text \<open>
  The search of \<open>k_map\<close> and of \<open>k_mem_mmap_allocate_block\<close>: the first of the pages that is mapped, and the loop that
  goes on from it while \<open>taken\<close> holds.
\<close>

fun first_mapped :: "pg \<Rightarrow> u32 \<Rightarrow> u32 \<Rightarrow> nat list \<Rightarrow> u32 option option" where
  "first_mapped s start offset [] = Some None"
| "first_mapped s start offset (k # ks) = do {
     p \<leftarrow> k_mem_paging_virt2phys s (start + (of_nat k + offset) * 0x1000);
     if p \<noteq> 0 then Some (Some (of_nat k)) else first_mapped s start offset ks }"

partial_function (option) skip_taken :: "(u32 \<Rightarrow> bool option) \<Rightarrow> u32 \<Rightarrow> u32 \<Rightarrow> u32 \<Rightarrow> u32 option" where
  "skip_taken taken start offset i = do {
     b \<leftarrow> taken (start + (i + offset) * 0x1000);
     if b then skip_taken taken start offset (i + 1) else Some i }"

definition is_mapped :: "pg \<Rightarrow> u32 \<Rightarrow> bool option" where
  "is_mapped s va = do { p \<leftarrow> k_mem_paging_virt2phys s va; Some (p \<noteq> 0) }"

definition LOWMEM_START :: u32 where "LOWMEM_START = 0xC1000000"
definition LOWMEM_END :: u32 where "LOWMEM_END = 0xF7000000"

partial_function (option) k_map_search :: "pg \<Rightarrow> u32 \<Rightarrow> u32 \<Rightarrow> u32 \<Rightarrow> u32 option" where
  "k_map_search s start n offset = do {
     c \<leftarrow> first_mapped s start offset [0..<unat n];
     case c of
       None \<Rightarrow> Some offset
     | Some i \<Rightarrow> do {
         j \<leftarrow> skip_taken (is_mapped s) start offset i;
         if start + j * 0x1000 \<ge> LOWMEM_END then Some j else k_map_search s start n j } }"

definition k_map :: "u32 \<Rightarrow> u32 \<Rightarrow> u8 \<Rightarrow> pg \<Rightarrow> (u32 \<times> pg) option" where
  "k_map frame n flags s = (
     let start = first_free_address s in do {
       offset \<leftarrow> k_map_search s start n 0;
       if start + (offset + n) * 0x1000 > LOWMEM_END then None
       else do {
         let a = start + 0x1000 * offset;
         s1 \<leftarrow> k_mem_paging_map_region a frame n flags True (s\<lparr>first_free_address := a + n * 0x1000\<rparr>);
         Some (a, s1) } })"

definition k_unmap :: "u32 \<Rightarrow> u32 \<Rightarrow> pg \<Rightarrow> pg option" where
  "k_unmap addr n s =
     (if addr \<ge> LOWMEM_START \<and> addr + n * 0x1000 \<le> LOWMEM_END then do {
        s1 \<leftarrow> k_mem_paging_unmap_region addr n s;
        Some (if addr < first_free_address s1 then s1\<lparr>first_free_address := addr\<rparr> else s1) }
      else Some s)"

subsection \<open>Directories\<close>

definition VIRTUAL_BASE :: u32 where "VIRTUAL_BASE = 0xC0000000"

text \<open>The slots below \<open>kernel_pd\<close>, the user's half of a directory.\<close>

definition user_slots :: "slot list" where
  "user_slots = slots (unat (PDE VIRTUAL_BASE))"

definition clone_page :: "slot \<Rightarrow> u32 \<Rightarrow> slot \<Rightarrow> pg \<Rightarrow> pg option" where
  "clone_page i copy_pt j s = do {
     t \<leftarrow> rd s (PT_PTR i + 4 * ucast j);
     if \<not> e_present t then Some s
     else do {
       (frame, s1) \<leftarrow> pg_alloc 1 s;
       (page, s2) \<leftarrow> k_map frame 1 (PAGE_PRESENT OR PAGE_WRITABLE) s1;
       u \<leftarrow> rd s2 (PT_PTR i + 4 * ucast j);
       s3 \<leftarrow> wr (copy_pt + 4 * ucast j) (frame OR (u AND 0xFFF)) s2;
       s4 \<leftarrow> copy_page page (ADDR i j) s3;
       k_unmap page 1 s4 } }"

definition clone_table :: "u32 \<Rightarrow> u32 \<Rightarrow> slot \<Rightarrow> pg \<Rightarrow> pg option" where
  "clone_table src cpy i s = do {
     e \<leftarrow> rd s (src + 4 * ucast i);
     if \<not> e_present e then Some s
     else do {
       (frame, s1) \<leftarrow> pg_alloc 1 s;
       (copy_pt, s2) \<leftarrow> k_map frame 1 (PAGE_PRESENT OR PAGE_WRITABLE) s1;
       u \<leftarrow> rd s2 (src + 4 * ucast i);
       s3 \<leftarrow> wr (cpy + 4 * ucast i) (frame OR (u AND 0xFFF)) s2;
       s4 \<leftarrow> clear_page copy_pt s3;
       s5 \<leftarrow> for_slots (clone_page i copy_pt) (slots 1024) s4;
       k_unmap copy_pt 1 s5 } }"

text \<open>\<open>cpy\<close> is the page \<open>k_vallocp\<close> returns; the result is the physical address of the new directory.\<close>

definition k_mem_paging_clone_page_directory :: "u32 \<Rightarrow> u32 \<Rightarrow> pg \<Rightarrow> (u32 \<times> pg) option" where
  "k_mem_paging_clone_page_directory src0 cpy s = (
     let src = (if src0 = 0 then current_page_directory s else src0) in do {
       phys \<leftarrow> k_mem_paging_virt2phys s cpy;
       s1 \<leftarrow> copy_page cpy src s;
       s2 \<leftarrow> wr (cpy + 4 * 1023) (phys OR ucast (PAGE_PRESENT OR PAGE_WRITABLE)) s1;
       let prev = current_page_directory s2;
       s3 \<leftarrow> k_mem_paging_set_page_directory src 0 s2;
       s4 \<leftarrow> for_slots (clone_table src cpy) user_slots s3;
       s5 \<leftarrow> k_mem_paging_set_page_directory prev 0 s4;
       Some (phys, s5) })"

definition k_mem_paging_clone_root_page_directory :: "u32 \<Rightarrow> pg \<Rightarrow> (u32 \<times> pg) option" where
  "k_mem_paging_clone_root_page_directory cpy s =
     k_mem_paging_clone_page_directory (initial_page_directory s) cpy s"

text \<open>
  \<open>data.page * 0x1000\<close> is a product of type \<open>int\<close>, since a field of 20 bits is promoted to it; as an argument of
  type \<open>pmm_frame_t\<close> it is extended with its sign.
\<close>

definition page_frame :: "u32 \<Rightarrow> u64" where
  "page_frame e = scast (ucast (e_page e) * 0x1000 :: u32)"

definition release_page :: "slot \<Rightarrow> slot \<Rightarrow> pg \<Rightarrow> pg option" where
  "release_page i j s = do {
     t \<leftarrow> rd s (PT_PTR i + 4 * ucast j);
     if e_present t then pg_free (page_frame t) s else Some s }"

definition release_table :: "u32 \<Rightarrow> slot \<Rightarrow> pg \<Rightarrow> pg option" where
  "release_table src i s = do {
     e \<leftarrow> rd s (src + 4 * ucast i);
     if \<not> e_present e then Some s
     else do {
       s1 \<leftarrow> for_slots (release_page i) (slots 1024) s;
       u \<leftarrow> rd s1 (src + 4 * ucast i);
       pg_free (page_frame u) s1 } }"

text \<open>Without the last call, which gives the page of the directory back to the heap.\<close>

definition k_mem_paging_release_directory :: "u32 \<Rightarrow> pg \<Rightarrow> pg option" where
  "k_mem_paging_release_directory src s = (
     let prev = current_page_directory s in do {
       s1 \<leftarrow> k_mem_paging_set_page_directory src 0 s;
       s2 \<leftarrow> for_slots (release_table src) user_slots s1;
       k_mem_paging_set_page_directory prev 0 s2 })"

text \<open>The set-up at boot; the handler of page faults is registered first.\<close>

definition init_table :: "u32 \<Rightarrow> slot \<Rightarrow> pg \<Rightarrow> pg option" where
  "init_table pd i s = do {
     e \<leftarrow> rd s (pd + 4 * ucast i);
     if e_present e then Some s
     else do {
       (f, s1) \<leftarrow> pg_alloc 1 s;
       if f = 0 then None
       else do {
         s2 \<leftarrow> wr (pd + 4 * ucast i) (f OR ucast (PAGE_PRESENT OR PAGE_WRITABLE)) s1;
         clear_page (PT_PTR (PDE VIRTUAL_BASE)) s2 } } }"

definition k_mem_paging_init :: "pg \<Rightarrow> pg option" where
  "k_mem_paging_init s = (
     let phys = cr3 s; pd = phys + VIRTUAL_BASE in do {
       s1 \<leftarrow> wr (pd + 4 * 1023) (phys OR ucast (PAGE_PRESENT OR PAGE_WRITABLE))
               (s\<lparr>initial_page_directory := pd, current_page_directory := pd\<rparr>);
       for_slots (init_table pd) (drop (unat (PDE VIRTUAL_BASE)) (slots 1024)) s1 })"

end
