(* ===== verification/Paging_Inv.thy ===== *)
theory Paging_Inv
  imports Paging
begin

text \<open>
  The invariant of the current address space and what single operations on it do: the tables that the kernel sees
  in the window of the directory are those the processor walks, so that the kernel's own translation agrees with
  the processor's, and mapping or unmapping a page changes the translation of that page only.
\<close>

section \<open>Addresses\<close>

lemma unat_slot: "unat (k :: slot) < 1024"
  using unsigned_less [where 'a = nat, of k] by simp

lemma unat_u32: "unat (a :: u32) < 2 ^ 32"
  using unsigned_less [where 'a = nat, of a] by simp

lemma unat_ucast_slot [simp]: "unat (ucast (k :: slot) :: u32) = unat k"
  using unat_slot [of k] by (simp add: unsigned_ucast_eq take_bit_eq_mod)

lemma unat_PDE: "unat (PDE a) = unat a div 2 ^ 22"
proof -
  have "unat a div 2 ^ 22 < 2 ^ 10" using unat_u32 [of a] by (simp add: less_mult_imp_div_less)
  then show ?thesis
    by (simp add: PDE_def unsigned_ucast_eq take_bit_eq_mod drop_bit_eq_div unat_div_distrib)
qed

lemma unat_PTE: "unat (PTE a) = unat a div 2 ^ 12 mod 1024"
  by (simp add: PTE_def unsigned_ucast_eq take_bit_eq_mod drop_bit_eq_div unat_div_distrib)

lemma unat_word_ix: "unat (word_ix a) = unat a div 4 mod 1024"
  by (simp add: word_ix_def unsigned_ucast_eq take_bit_eq_mod drop_bit_eq_div unat_div_distrib)

lemma unat_e_page: "unat (e_page a) = unat a div 4096"
proof -
  have "unat a div 4096 < 2 ^ 20" using unat_u32 [of a] by (simp add: less_mult_imp_div_less)
  then show ?thesis
    by (simp add: e_page_def unsigned_ucast_eq take_bit_eq_mod drop_bit_eq_div unat_div_distrib)
qed

definition aligned :: "u32 \<Rightarrow> bool" where
  "aligned a \<longleftrightarrow> unat a mod 4096 = 0"

lemma page_parts: "unat (e_page a) = 1024 * unat (PDE a) + unat (PTE a)"
proof -
  have "unat a div 2 ^ 22 = unat a div 4096 div 1024" by (simp add: div_mult2_eq [symmetric])
  then show ?thesis by (simp add: unat_e_page unat_PDE unat_PTE)
qed

lemma same_page: "e_page a = e_page b \<longleftrightarrow> PDE a = PDE b \<and> PTE a = PTE b"
proof
  assume "e_page a = e_page b"
  then have "unat a div 4096 = unat b div 4096" using unat_e_page [of a] unat_e_page [of b] by simp
  then show "PDE a = PDE b \<and> PTE a = PTE b"
    using div_mult2_eq [of "unat a" 4096 1024] div_mult2_eq [of "unat b" 4096 1024]
    by (auto intro!: word_unatI simp: unat_PDE unat_PTE)
next
  assume "PDE a = PDE b \<and> PTE a = PTE b"
  then show "e_page a = e_page b" using page_parts [of a] page_parts [of b] by (intro word_unatI) simp
qed

lemma unat_in_page: "aligned a \<Longrightarrow> unat (a + 4 * ucast (k :: slot)) = unat a + 4 * unat k"
proof -
  assume a: "aligned a"
  have k: "unat (4 * ucast k :: u32) = 4 * unat k" using unat_slot [of k] by (simp add: unat_word_ariths)
  obtain q where q: "unat a = 4096 * q" using a by (auto simp: aligned_def)
  then have "unat a + 4 * unat k < 2 ^ 32" using unat_u32 [of a] unat_slot [of k] by simp
  then show ?thesis using k by (simp add: unat_word_ariths)
qed

lemma in_page:
  assumes "aligned a"
  shows "PDE (a + 4 * ucast (k :: slot)) = PDE a" and "PTE (a + 4 * ucast k) = PTE a" and "word_ix (a + 4 * ucast k) = k"
proof -
  obtain q where q: "unat a = 4096 * q" using assms by (auto simp: aligned_def)
  have "unat (e_page (a + 4 * ucast k)) = unat (e_page a)"
    unfolding unat_e_page unat_in_page [OF assms] q using unat_slot [of k] by simp
  then have "e_page (a + 4 * ucast k) = e_page a" by (rule word_unatI)
  then show "PDE (a + 4 * ucast k) = PDE a" "PTE (a + 4 * ucast k) = PTE a" by (simp_all add: same_page)
  show "word_ix (a + 4 * ucast k) = k"
    using unat_slot [of k] by (intro word_unatI) (simp add: unat_word_ix unat_in_page [OF assms] q)
qed

lemma unat_PT_PTR: "unat (PT_PTR i) = 0xFFC00000 + 4096 * unat i"
  using unat_slot [of i] by (simp add: PT_PTR_def unat_word_ariths)

lemma PT_PTR_parts [simp]: "aligned (PT_PTR i)" "PDE (PT_PTR i) = 1023" "PTE (PT_PTR i) = i"
proof -
  have a: "unat (PT_PTR i) = 4096 * (0xFFC00 + unat i)" by (simp add: unat_PT_PTR)
  then show "aligned (PT_PTR i)" by (simp add: aligned_def)
  show "PDE (PT_PTR i) = 1023" using unat_slot [of i] by (intro word_unatI) (simp add: unat_PDE unat_PT_PTR)
  show "PTE (PT_PTR i) = i" 
    using unat_slot [of i] mod_mult_self3 [of 1023 1024 "unat i"] by (intro word_unatI) (simp add: unat_PTE a)
qed

lemma unat_ADDR: "unat (ADDR i j) = 4096 * (1024 * unat i + unat j)"
  using unat_slot [of i] unat_slot [of j] by (simp add: ADDR_def unat_word_ariths)

lemma ADDR_parts [simp]: "aligned (ADDR i j)" "PDE (ADDR i j) = i" "PTE (ADDR i j) = j"
proof -
  show "aligned (ADDR i j)" by (simp add: aligned_def unat_ADDR)
  show "PDE (ADDR i j) = i" using unat_slot [of j] by (intro word_unatI) (simp add: unat_PDE unat_ADDR)
  show "PTE (ADDR i j) = j" using unat_slot [of j] by (intro word_unatI) (simp add: unat_PTE unat_ADDR)
qed

lemma ADDR_page: "e_page va = e_page (ADDR (PDE va) (PTE va))"
  by (simp add: same_page)

section \<open>The invariant\<close>

text \<open>
  The directory of the current space and its tables. A slot below the last has a table when its entry is present
  and not a large page. \<open>avail\<close> are the frames the frame allocator may hand out.
\<close>

definition root :: "pg \<Rightarrow> frame" where
  "root s = e_page (cr3 s)"

definition dir :: "pg \<Rightarrow> slot \<Rightarrow> u32" where
  "dir s = ram s (root s)"

definition tabled :: "pg \<Rightarrow> slot \<Rightarrow> bool" where
  "tabled s i \<longleftrightarrow> i \<noteq> 1023 \<and> e_present (dir s i) \<and> \<not> e_size (dir s i)"

definition tab :: "pg \<Rightarrow> slot \<Rightarrow> frame" where
  "tab s i = e_page (dir s i)"

definition avail :: "pg \<Rightarrow> frame set" where
  "avail s = {f. unat f \<in> free_frames (pmm_of s)}"

definition pg_ok :: "pg \<Rightarrow> bool" where
  "pg_ok s \<longleftrightarrow> pmm_inv (pmm_of s) \<and> 0 \<notin> avail s \<and>
     aligned (current_page_directory s) \<and> mmu s (current_page_directory s) = Some (root s) \<and>
     PDE (current_page_directory s) \<noteq> 1023 \<and>
     e_present (dir s 1023) \<and> \<not> e_size (dir s 1023) \<and> tab s 1023 = root s \<and>
     root s \<notin> avail s \<and>
     (\<forall>i. tabled s i \<longrightarrow> tab s i \<noteq> root s \<and> tab s i \<notin> avail s) \<and> inj_on (tab s) {i. tabled s i}"

lemma mmu_cong: "PDE a = PDE b \<Longrightarrow> PTE a = PTE b \<Longrightarrow> mmu s a = mmu s b"
  by (simp add: mmu_def Let_def)

lemma mmu_in_page: "aligned a \<Longrightarrow> mmu s (a + 4 * ucast (k :: slot)) = mmu s a"
  by (intro mmu_cong) (simp_all add: in_page)

lemma rd_in_page: "aligned a \<Longrightarrow> mmu s a = Some f \<Longrightarrow> rd s (a + 4 * ucast k) = Some (ram s f k)"
  by (simp add: rd_def mmu_in_page in_page)

lemma wr_in_page: "aligned a \<Longrightarrow> mmu s a = Some f \<Longrightarrow> wr (a + 4 * ucast k) v s = Some (poke f k v s)"
  by (simp add: wr_def mmu_in_page in_page)

text \<open>The translation of an address outside of the window, by the table of its slot.\<close>

lemma mmu_tabled:
  "tabled s (PDE va) \<Longrightarrow> mmu s va = (if e_present (ram s (tab s (PDE va)) (PTE va)) then Some (e_page (ram s (tab s (PDE va)) (PTE va))) else None)"
  by (simp add: mmu_def tabled_def tab_def dir_def root_def Let_def)

lemma mmu_absent: "\<not> e_present (dir s (PDE va)) \<Longrightarrow> mmu s va = None"
  by (simp add: mmu_def dir_def root_def)

lemma mmu_untabled:
  assumes "\<not> tabled s (PDE va)" and "PDE va \<noteq> 1023"
  shows "mmu s va = (if e_present (dir s (PDE va)) then Some (push_bit 10 (ucast (drop_bit 22 (dir s (PDE va)))) OR ucast (PTE va)) else None)"
  using assms by (simp add: mmu_def tabled_def dir_def root_def Let_def)

lemma dir_mapped: "pg_ok s \<Longrightarrow> mmu s (current_page_directory s) = Some (root s)" "pg_ok s \<Longrightarrow> aligned (current_page_directory s)"
  by (auto simp: pg_ok_def)

lemma dir_entry_spec: "pg_ok s \<Longrightarrow> dir_entry s i = Some (dir s i)"
  by (simp add: dir_entry_def dir_def rd_in_page dir_mapped)

lemma window: "pg_ok s \<Longrightarrow> e_present (dir s i) \<Longrightarrow> mmu s (PT_PTR i) = Some (tab s i)"
  by (simp add: mmu_def pg_ok_def dir_def root_def tab_def Let_def)

text \<open>The kernel's translation is the processor's, outside of large pages.\<close>

lemma unat_mod_page: "unat (va mod 0x1000 :: u32) = unat va mod 4096"
  by (simp add: unat_mod_distrib)

definition phys_of :: "frame \<Rightarrow> u32 \<Rightarrow> u32" where
  "phys_of f va = push_bit 12 (ucast f) + va mod 0x1000"

lemma virt2phys_spec:
  assumes "pg_ok s" and "\<not> e_present (dir s (PDE va)) \<or> tabled s (PDE va)"
  shows "k_mem_paging_virt2phys s va = Some (case mmu s va of None \<Rightarrow> 0 | Some f \<Rightarrow> phys_of f va)"
proof (cases "e_present (dir s (PDE va))")
  case True
  then have t: "tabled s (PDE va)" using assms(2) by simp
  then have "\<not> e_size (dir s (PDE va))" by (simp add: tabled_def)
  with True show ?thesis
    by (simp add: k_mem_paging_virt2phys_def dir_entry_spec [OF assms(1)] rd_in_page [OF _ window [OF assms(1) True]] mmu_tabled [OF t] phys_of_def)
next
  case False
  then show ?thesis by (simp add: k_mem_paging_virt2phys_def dir_entry_spec [OF assms(1)] mmu_absent)
qed

text \<open>Writing an entry of a table.\<close>

definition set_pte :: "u32 \<Rightarrow> u32 \<Rightarrow> pg \<Rightarrow> pg" where
  "set_pte va e s = poke (tab s (PDE va)) (PTE va) e s"

lemma poke_simps [simp]:
  "cr3 (poke f k v s) = cr3 s" "current_page_directory (poke f k v s) = current_page_directory s"
  "initial_page_directory (poke f k v s) = initial_page_directory s" "pmm_of (poke f k v s) = pmm_of s"
  "first_free_address (poke f k v s) = first_free_address s" "root (poke f k v s) = root s" "avail (poke f k v s) = avail s"
  "ram (poke f k v s) = (ram s)(f := (ram s f)(k := v))"
  by (simp_all add: poke_def root_def avail_def)

lemma set_pte_simps [simp]:
  "cr3 (set_pte va e s) = cr3 s" "current_page_directory (set_pte va e s) = current_page_directory s"
  "initial_page_directory (set_pte va e s) = initial_page_directory s" "pmm_of (set_pte va e s) = pmm_of s"
  "first_free_address (set_pte va e s) = first_free_address s" "root (set_pte va e s) = root s" "avail (set_pte va e s) = avail s"
  "ram (set_pte va e s) = (ram s)(tab s (PDE va) := (ram s (tab s (PDE va)))(PTE va := e))"
  by (simp_all add: set_pte_def)

lemma window_set: "pg_ok s \<Longrightarrow> e_present (dir s (PDE va)) \<Longrightarrow>
    wr (PT_PTR (PDE va) + 4 * ucast (PTE va)) e s = Some (set_pte va e s)"
  by (simp add: wr_in_page [OF _ window] set_pte_def)

lemma window_get: "pg_ok s \<Longrightarrow> e_present (dir s i) \<Longrightarrow> rd s (PT_PTR i + 4 * ucast k) = Some (ram s (tab s i) k)"
  by (simp add: rd_in_page [OF _ window])

lemma tables_distinct:
  assumes "pg_ok s" and "tabled s i"
  shows "tab s i \<noteq> root s" and "tabled s j \<Longrightarrow> j \<noteq> i \<Longrightarrow> tab s j \<noteq> tab s i" and "tab s i \<notin> avail s"
  using assms by (auto simp: pg_ok_def inj_on_def)

lemma set_pte_dir [simp]:
  assumes "pg_ok s" and "tabled s (PDE va)"
  shows "dir (set_pte va e s) = dir s" "tab (set_pte va e s) = tab s" "tabled (set_pte va e s) = tabled s"
proof -
  show d: "dir (set_pte va e s) = dir s" using tables_distinct [OF assms] by (auto simp: dir_def set_pte_def)
  show "tab (set_pte va e s) = tab s" "tabled (set_pte va e s) = tabled s" by (auto simp: tab_def tabled_def d)
qed

lemma mmu_set_pte:
  assumes "pg_ok s" and "tabled s (PDE va)" and "PDE vb \<noteq> 1023"
  shows "mmu (set_pte va e s) vb = (if e_page vb = e_page va then if e_present e then Some (e_page e) else None else mmu s vb)"
proof (cases "tabled s (PDE vb)")
  case True
  then have "mmu (set_pte va e s) vb = (if e_present (ram (set_pte va e s) (tab s (PDE vb)) (PTE vb)) then Some (e_page (ram (set_pte va e s) (tab s (PDE vb)) (PTE vb))) else None)"
    using mmu_tabled [of "set_pte va e s" vb] assms(1,2) by simp
  moreover have "ram (set_pte va e s) (tab s (PDE vb)) (PTE vb) = (if e_page vb = e_page va then e else ram s (tab s (PDE vb)) (PTE vb))"
    using tables_distinct(2) [OF assms(1,2) True] same_page [of vb va] by auto
  ultimately show ?thesis using mmu_tabled [OF True] by simp
next
  case False
  then have "PDE vb \<noteq> PDE va" using assms(2) by auto
  moreover have "dir (set_pte va e s) = dir s" "\<not> tabled (set_pte va e s) (PDE vb)" using assms(1,2) False by simp_all
  ultimately show ?thesis
    using mmu_untabled [OF False assms(3)] mmu_untabled [of "set_pte va e s" vb] assms(3) same_page [of vb va] by simp
qed

lemma pg_ok_set_pte:
  assumes "pg_ok s" and "tabled s (PDE va)" and "e_page va \<noteq> e_page (current_page_directory s)"
  shows "pg_ok (set_pte va e s)"
proof -
  have "mmu (set_pte va e s) (current_page_directory s) = mmu s (current_page_directory s)"
    using mmu_set_pte [OF assms(1,2), of "current_page_directory s" e] assms(1,3) by (simp add: pg_ok_def)
  moreover have "current_page_directory (set_pte va e s) = current_page_directory s" "root (set_pte va e s) = root s"
    "avail (set_pte va e s) = avail s" "pmm_of (set_pte va e s) = pmm_of s" by simp_all
  ultimately show ?thesis using assms(1) set_pte_dir [OF assms(1,2)] by (simp add: pg_ok_def)
qed
section \<open>Whole frames\<close>

definition fill :: "frame \<Rightarrow> (slot \<Rightarrow> u32) \<Rightarrow> pg \<Rightarrow> pg" where
  "fill f g s = s\<lparr>ram := (ram s)(f := g)\<rparr>"

lemma fill_simps [simp]:
  "cr3 (fill f g s) = cr3 s" "current_page_directory (fill f g s) = current_page_directory s"
  "initial_page_directory (fill f g s) = initial_page_directory s" "pmm_of (fill f g s) = pmm_of s"
  "first_free_address (fill f g s) = first_free_address s" "root (fill f g s) = root s" "avail (fill f g s) = avail s"
  "ram (fill f g s) = (ram s)(f := g)"
  by (simp_all add: fill_def root_def avail_def)

lemma poke_fill [simp]: "poke f k v (fill f g s) = fill f (g(k := v)) s"
  by (simp add: poke_def fill_def)

lemma poke_eq_fill: "poke f k v s = fill f ((ram s f)(k := v)) s"
  by (simp add: poke_def fill_def)

lemma fill_same [simp]: "fill f (ram s f) s = s"
  by (simp add: fill_def)

lemma dir_fill: "root s \<noteq> f \<Longrightarrow> dir (fill f g s) = dir s"
  by (simp add: dir_def)

lemma mmu_fill:
  assumes "root s \<noteq> f" and "e_present (dir s (PDE va)) \<Longrightarrow> \<not> e_size (dir s (PDE va)) \<Longrightarrow> tab s (PDE va) \<noteq> f"
  shows "mmu (fill f g s) va = mmu s va"
  using assms by (auto simp: mmu_def Let_def dir_def root_def tab_def)

lemma slots_all [simp]: "set (slots 1024) = UNIV"
proof -
  have "k \<in> set (slots 1024)" for k
    using unat_slot [of k] by (auto simp: slots_def image_iff intro!: bexI [of _ "unat k"])
  then show ?thesis by auto
qed

lemma for_slots_fill:
  assumes "\<And>g k. body k (fill f g s) = Some (fill f (g(k := h k)) s)"
  shows "for_slots body ks (fill f g s) = Some (fill f (\<lambda>k. if k \<in> set ks then h k else g k) s)"
proof (induction ks arbitrary: g)
  case (Cons k ks)
  have "(\<lambda>j. if j \<in> set ks then h j else (g(k := h k)) j) = (\<lambda>j. if j \<in> set (k # ks) then h j else g j)" by auto
  with Cons [of "g(k := h k)"] have "for_slots body ks (fill f (g(k := h k)) s) = Some (fill f (\<lambda>j. if j \<in> set (k # ks) then h j else g j) s)"
    by (simp only:)
  then show ?case by (simp add: assms del: fun_upd_apply)
qed simp

lemma clear_page_spec:
  assumes "aligned p" and "mmu s p = Some f" and "root s \<noteq> f"
    and "e_present (dir s (PDE p)) \<Longrightarrow> \<not> e_size (dir s (PDE p)) \<Longrightarrow> tab s (PDE p) \<noteq> f"
  shows "clear_page p s = Some (fill f (\<lambda>_. 0) s)"
  unfolding clear_page_def
  using for_slots_fill [of "\<lambda>k. wr (p + 4 * ucast k) 0" f s "\<lambda>_. 0" "slots 1024" "ram s f"]
    wr_in_page [OF assms(1)] mmu_fill [OF assms(3,4)] assms(2) by simp

lemma copy_page_spec:
  assumes "aligned p" and "mmu s p = Some f" and "root s \<noteq> f"
    and "e_present (dir s (PDE p)) \<Longrightarrow> \<not> e_size (dir s (PDE p)) \<Longrightarrow> tab s (PDE p) \<noteq> f"
    and "aligned q" and "mmu s q = Some h" and "h \<noteq> f"
    and "e_present (dir s (PDE q)) \<Longrightarrow> \<not> e_size (dir s (PDE q)) \<Longrightarrow> tab s (PDE q) \<noteq> f"
  shows "copy_page p q s = Some (fill f (ram s h) s)"
  unfolding copy_page_def
  using for_slots_fill [of "\<lambda>k s. do { v \<leftarrow> rd s (q + 4 * ucast k); wr (p + 4 * ucast k) v s }" f s "ram s h" "slots 1024" "ram s f"]
    wr_in_page [OF assms(1)] rd_in_page [OF assms(5)] mmu_fill [OF assms(3,4)] mmu_fill [OF assms(3,8)] assms(2,6,7) by simp

section \<open>Frames and entries\<close>

definition addr_of :: "frame \<Rightarrow> u32" where
  "addr_of f = ucast f * 0x1000"

lemma unat_frame_lt: "unat (f :: frame) < 2 ^ 20"
  using unsigned_less [where 'a = nat, of f] by simp

lemma unat_addr_of: "unat (addr_of f) = 4096 * unat f"
  using unat_frame_lt [of f] by (simp add: addr_of_def unat_word_ariths unsigned_ucast_eq take_bit_eq_mod)

lemma addr_of_parts [simp]: "aligned (addr_of f)" "e_page (addr_of f) = f" "addr_of f = 0 \<longleftrightarrow> f = 0"
proof -
  show "aligned (addr_of f)" by (simp add: aligned_def unat_addr_of)
  show "e_page (addr_of f) = f" by (intro word_unatI) (simp add: unat_e_page unat_addr_of)
  show "addr_of f = 0 \<longleftrightarrow> f = 0" using unat_addr_of [of f] unat_eq_zero [of "addr_of f"] unat_eq_zero [of f] by auto
qed

lemma addr_of_e_page: "aligned a \<Longrightarrow> addr_of (e_page a) = a"
  by (intro word_unatI) (auto simp: unat_addr_of unat_e_page aligned_def)

lemma aligned_bits: "aligned a \<Longrightarrow> n < 12 \<Longrightarrow> \<not> bit a n"
proof -
  assume a: "aligned a" and n: "n < 12"
  have "unat (a mod 0x1000) = 0" using a unat_mod_page [of a] by (simp only: aligned_def)
  then have "a mod 0x1000 = 0" by (simp only: unat_eq_zero)
  then have "take_bit 12 a = 0" by (simp add: take_bit_eq_mod)
  then have "\<not> bit (take_bit 12 a) n" by simp
  then show ?thesis using n by (simp add: bit_take_bit_iff)
qed

text \<open>An entry made of a frame and low bits.\<close>

lemma e_page_or: "e < 0x1000 \<Longrightarrow> e_page (a OR e) = e_page a"
proof -
  assume "e < 0x1000"
  then have "unat e < 4096" by (simp add: word_less_nat_alt)
  then have "drop_bit 12 e = 0" by (intro word_unatI) (simp add: drop_bit_eq_div unat_div_distrib)
  then show ?thesis by (simp add: e_page_def)
qed

lemma e_bits_or: "aligned a \<Longrightarrow> e_present (a OR e) = e_present e" "aligned a \<Longrightarrow> e_size (a OR e) = e_size e"
  by (auto simp: e_present_def e_size_def bit_or_iff aligned_bits)

lemma flags_small: "(ucast (fl :: u8) :: u32) < 0x1000"
proof -
  have "unat fl < 256" using unsigned_less [where 'a = nat, of fl] by simp
  then show ?thesis by (simp add: word_less_nat_alt unsigned_ucast_eq take_bit_eq_mod)
qed

lemma low_small: "(e AND 0xFFF :: u32) < 0x1000"
proof -
  have "e AND 0xFFF = take_bit 12 e" by (simp add: take_bit_eq_mask mask_eq_exp_minus_1 and.commute)
  then have "unat (e AND 0xFFF) < 4096" by (simp add: take_bit_eq_mod unat_mod_distrib)
  then show ?thesis by (simp add: word_less_nat_alt)
qed

lemma ucast_addr_of: "(ucast (addr_of f) :: u64) = 0x1000 * of_nat (unat f)"
  using unat_addr_of [of f] unat_frame_lt [of f] unat_frame [of "unat f"] by (intro word_unatI) (simp add: unsigned_ucast_eq take_bit_eq_mod)

section \<open>Allocating a frame\<close>

lemma pg_alloc_spec:
  assumes "pmm_inv (pmm_of s)" and "0 \<notin> avail s" and "avail s \<noteq> {}"
  shows "\<exists>f q. pg_alloc 1 s = Some (addr_of f, s\<lparr>pmm_of := q\<rparr>) \<and> f \<in> avail s \<and> f \<noteq> 0 \<and> pmm_inv q \<and>
    avail (s\<lparr>pmm_of := q\<rparr>) = avail s - {f} \<and> k_mem_pmm_is_allocated q (ucast (addr_of f))"
proof -
  obtain g where "g \<in> avail s" using assms(3) by auto
  then have "{unat g..<unat g + unat (1 :: u32)} \<subseteq> free_frames (pmm_of s)" by (simp add: avail_def)
  from alloc_succeeds [OF assms(1) _ this] obtain fr q where fr: "k_mem_pmm_alloc_frames (pmm_of s) 1 = Some (fr, q)" by auto
  have b: "bitmap_size q = bitmap_size (pmm_of s)" using alloc_frames_spec [OF assms(1), of 1] fr by simp
  from fr alloc_frames_spec [OF assms(1), of 1] obtain n where n: "pmm_inv q" "unat fr = 4096 * n" "n \<in> free_frames (pmm_of s)"
      "free_frames q = free_frames (pmm_of s) - {n}" by auto
  have "n < 2 ^ 20" using free_frames_bound [OF assms(1) n(3)] .
  then have u: "unat (of_nat n :: frame) = n" by (simp add: unat_of_nat)
  define f :: frame where "f = of_nat n"
  have "fr = addr_of f" using n(2) u by (intro word_unatI) (simp add: unat_addr_of f_def)
  moreover have "f \<in> avail s" using u n(3) by (simp add: avail_def f_def)
  moreover have "unat g = n \<longleftrightarrow> g = f" for g using u word_unatI [of g f] by (auto simp: f_def)
  then have "avail (s\<lparr>pmm_of := q\<rparr>) = avail s - {f}" using n(4) by (simp add: avail_def set_eq_iff)
  moreover have "k_mem_pmm_is_allocated q (ucast (addr_of f))"
  proof -
    have "n \<notin> free_frames q" using n(4) by simp
    moreover have l: "n < 32 * unat (bitmap_size q)" using n(3) b by (simp add: free_frames_fbit)
    ultimately have "\<not> fbit (bitmap q) n" by (simp add: free_frames_fbit)
    moreover have "n div 32 < unat (bitmap_size q)" using l by linarith
    ultimately show ?thesis using is_allocated_fbit [of n q] \<open>n < 2 ^ 20\<close> u by (simp add: ucast_addr_of f_def)
  qed
  ultimately show ?thesis using fr n(1) assms(2) by (auto simp: pg_alloc_def)
qed

section \<open>Mapping\<close>

text \<open>The state after a missing table has been made.\<close>

definition new_table :: "slot \<Rightarrow> frame \<Rightarrow> u32 \<Rightarrow> pmm \<Rightarrow> pg \<Rightarrow> pg" where
  "new_table i f e q s = fill f (\<lambda>_. 0) (poke (root s) i e (s\<lparr>pmm_of := q\<rparr>))"

lemma new_table_simps [simp]:
  "cr3 (new_table i f e q s) = cr3 s" "current_page_directory (new_table i f e q s) = current_page_directory s"
  "initial_page_directory (new_table i f e q s) = initial_page_directory s" "pmm_of (new_table i f e q s) = q"
  "first_free_address (new_table i f e q s) = first_free_address s" "root (new_table i f e q s) = root s"
  "avail (new_table i f e q s) = avail (s\<lparr>pmm_of := q\<rparr>)"
  "ram (new_table i f e q s) = (ram s)(root s := (dir s)(i := e), f := \<lambda>_. 0)"
  by (simp_all add: new_table_def dir_def, simp_all add: root_def)

lemma new_table_dir: "f \<noteq> root s \<Longrightarrow> dir (new_table i f e q s) = (dir s)(i := e)"
  by (simp add: dir_def)

lemma new_table_tabs:
  assumes "pg_ok s" and "\<not> e_present (dir s i)" and "i \<noteq> 1023" and "f \<in> avail s"
    and "e_page e = f" and "e_present e" and "\<not> e_size e"
  shows "tab (new_table i f e q s) = (tab s)(i := f)" "tabled (new_table i f e q s) = (tabled s)(i := True)"
proof -
  have d: "dir (new_table i f e q s) = (dir s)(i := e)" using assms by (intro new_table_dir) (auto simp: pg_ok_def)
  show "tab (new_table i f e q s) = (tab s)(i := f)" using assms(5) by (simp add: fun_eq_iff tab_def d)
  show "tabled (new_table i f e q s) = (tabled s)(i := True)" using assms(3,6,7) by (simp add: fun_eq_iff tabled_def d)
qed

lemma mmu_new_table:
  assumes "pg_ok s" and "\<not> e_present (dir s i)" and "i \<noteq> 1023" and "f \<in> avail s"
    and "e_page e = f" and "e_present e" and "\<not> e_size e" and "PDE va \<noteq> 1023"
  shows "mmu (new_table i f e q s) va = mmu s va"
proof -
  note t = new_table_tabs [OF assms(1-7), of q]
  have fr: "f \<noteq> root s" and ft: "tabled s (PDE va) \<Longrightarrow> tab s (PDE va) \<noteq> f \<and> tab s (PDE va) \<noteq> root s"
    using assms by (auto simp: pg_ok_def)
  have d: "dir (new_table i f e q s) = (dir s)(i := e)" using fr by (rule new_table_dir)
  show ?thesis
  proof (cases "PDE va = i")
    case True
    then show ?thesis using mmu_tabled [of "new_table i f e q s" va] t mmu_absent [of s va] assms(2) by (simp add: e_present_def)
  next
    case n: False
    show ?thesis
    proof (cases "tabled s (PDE va)")
      case True
      then show ?thesis using n t ft mmu_tabled [of "new_table i f e q s" va] mmu_tabled [of s va] by simp
    next
      case False
      then show ?thesis using n t d mmu_untabled [of "new_table i f e q s" va] mmu_untabled [of s va] assms(8) by simp
    qed
  qed
qed

lemma pg_ok_new_table:
  assumes "pg_ok s" and "\<not> e_present (dir s i)" and "i \<noteq> 1023" and "f \<in> avail s"
    and "e_page e = f" and "e_present e" and "\<not> e_size e" and "pmm_inv q" and "avail (s\<lparr>pmm_of := q\<rparr>) = avail s - {f}"
  shows "pg_ok (new_table i f e q s)"
proof -
  note t = new_table_tabs [OF assms(1-7), of q]
  have fr: "f \<noteq> root s" using assms by (auto simp: pg_ok_def)
  have d: "dir (new_table i f e q s) = (dir s)(i := e)" using fr by (rule new_table_dir)
  have "mmu (new_table i f e q s) (current_page_directory s) = Some (root s)"
    using mmu_new_table [OF assms(1-7), of "current_page_directory s" q] assms(1) by (simp add: pg_ok_def)
  moreover have "inj_on ((tab s)(i := f)) {j. ((tabled s)(i := True)) j}"
    using assms(1,4) by (auto simp: pg_ok_def inj_on_def)
  ultimately show ?thesis using assms(1,3,4,8,9) fr by (auto simp: pg_ok_def t d)
qed

lemma need_table_spec:
  assumes "pg_ok s" and "\<not> e_present (dir s i)" and "i \<noteq> 1023" and "avail s \<noteq> {}"
  shows "\<exists>f e q. need_table i fl s = Some (new_table i f e q s) \<and> f \<in> avail s \<and> e_page e = f \<and> e_present e \<and> \<not> e_size e \<and>
    pmm_inv q \<and> avail (s\<lparr>pmm_of := q\<rparr>) = avail s - {f}"
proof -
  obtain f q where f: "pg_alloc 1 s = Some (addr_of f, s\<lparr>pmm_of := q\<rparr>)" "f \<in> avail s" "f \<noteq> 0" "pmm_inv q"
      "avail (s\<lparr>pmm_of := q\<rparr>) = avail s - {f}"
    using pg_alloc_spec [of s] assms by (auto simp: pg_ok_def)
  define e where "e = addr_of f OR ucast (PAGE_PRESENT OR PAGE_WRITABLE OR (if fl AND PAGE_USER \<noteq> 0 then PAGE_USER else 0))"
  have e: "e_page e = f" "e_present e" "\<not> e_size e"
    unfolding e_def e_page_or [OF flags_small] e_bits_or [OF addr_of_parts(1)]
    by (auto simp: e_present_def e_size_def PAGE_PRESENT_def PAGE_WRITABLE_def PAGE_USER_def)
  define s2 where "s2 = poke (root s) i e (s\<lparr>pmm_of := q\<rparr>)"
  have m1: "mmu (s\<lparr>pmm_of := q\<rparr>) va = mmu s va" for va by (simp add: mmu_def Let_def)
  have w: "wr (current_page_directory s + 4 * ucast i) e (s\<lparr>pmm_of := q\<rparr>) = Some s2"
    unfolding s2_def using wr_in_page [OF dir_mapped(2) [OF assms(1)], of "s\<lparr>pmm_of := q\<rparr>" "root s"] m1 dir_mapped(1) [OF assms(1)] by simp
  have d2: "dir s2 = (dir s)(i := e)" "root s2 = root s" by (auto simp: s2_def dir_def) (auto simp: root_def)
  have "mmu s2 (PT_PTR i) = Some f"
    using assms(1,3) e d2 by (simp add: mmu_def Let_def dir_def root_def pg_ok_def tab_def)
  moreover have "f \<noteq> root s" using assms(1) f(2) by (auto simp: pg_ok_def)
  moreover have "tab s2 1023 = root s" using assms(1,3) by (simp add: tab_def d2 pg_ok_def)
  ultimately have "clear_page (PT_PTR i) s2 = Some (fill f (\<lambda>_. 0) s2)"
    by (intro clear_page_spec) (auto simp: d2)
  then have "need_table i fl s = Some (new_table i f e q s)"
    using f w assms(2) by (simp add: need_table_def dir_entry_spec [OF assms(1)] e_def [symmetric] new_table_def s2_def)
  then show ?thesis using f e by blast
qed

definition small :: "pg \<Rightarrow> slot \<Rightarrow> bool" where
  "small s i \<longleftrightarrow> i \<noteq> 1023 \<and> (e_present (dir s i) \<longrightarrow> \<not> e_size (dir s i))"

lemma small_cases: "small s i \<Longrightarrow> tabled s i \<or> i \<noteq> 1023 \<and> \<not> e_present (dir s i)"
  by (auto simp: small_def tabled_def)

lemma tabled_small: "tabled s i \<Longrightarrow> small s i" "tabled s i \<Longrightarrow> e_present (dir s i)" "tabled s i \<Longrightarrow> i \<noteq> 1023"
  by (auto simp: small_def tabled_def)

definition map_flags :: "u8 \<Rightarrow> u8" where
  "map_flags fl = (if fl = 0 then PAGE_PRESENT OR PAGE_WRITABLE else fl)"

text \<open>With its table in place, mapping a page to a given frame writes one entry.\<close>

lemma need_table_tabled: "pg_ok s \<Longrightarrow> tabled s i \<Longrightarrow> need_table i fl s = Some s"
  by (simp add: need_table_def dir_entry_spec tabled_small)

lemma map_tabled:
  assumes "pg_ok s" and "tabled s (PDE va)" and "mmu s va = None" and "p \<noteq> 0"
  shows "k_mem_paging_map va p fl s = Some (set_pte va (p OR ucast (map_flags fl)) s)"
proof -
  have "\<not> e_present (ram s (tab s (PDE va)) (PTE va))" using mmu_tabled [OF assms(2)] assms(3) by (auto split: if_splits)
  moreover have "k_mem_paging_map va p fl s = do {
      s1 \<leftarrow> need_table (PDE va) (map_flags fl) s;
      t \<leftarrow> rd s1 (PT_PTR (PDE va) + 4 * ucast (PTE va));
      if e_present t then None else wr (PT_PTR (PDE va) + 4 * ucast (PTE va)) (p OR ucast (map_flags fl)) s1 }"
    using assms(4) by (simp add: k_mem_paging_map_def map_flags_def Let_def cong: if_cong)
  ultimately show ?thesis
    using assms(1,2) by (simp add: need_table_tabled window_get window_set tabled_small)
qed

lemma map_need_table:
  assumes "need_table (PDE va) (map_flags fl) s = Some t" and "need_table (PDE va) (map_flags fl) t = Some t"
  shows "k_mem_paging_map va p fl s = k_mem_paging_map va p fl t"
  using assms by (simp add: k_mem_paging_map_def map_flags_def Let_def)

lemma unmap_tabled: "pg_ok s \<Longrightarrow> tabled s (PDE va) \<Longrightarrow> k_mem_paging_unmap va s = Some (set_pte va 0 s)"
  by (simp add: k_mem_paging_unmap_def dir_entry_spec window_set tabled_small)

lemma pg_free_spec:
  assumes "pmm_inv (pmm_of s)" and "f \<notin> avail s"
  shows "\<exists>q. pg_free (ucast (addr_of f)) s = Some (s\<lparr>pmm_of := q\<rparr>) \<and> pmm_inv q \<and> avail (s\<lparr>pmm_of := q\<rparr>) = insert f (avail s)"
proof -
  note a = ucast_addr_of [of f]
  have b: "unat f + unat (1 :: u32) \<le> 2 ^ 20" using unat_frame_lt [of f] by simp
  obtain q d where q: "k_mem_pmm_free (pmm_of s) (0x1000 * of_nat (unat f)) 1 = Some q" "pmm_inv q" "d \<le> 1"
      "free_frames q = free_frames (pmm_of s) \<union> {unat f..<unat f + d}" "d < 1 \<longrightarrow> unat f + d \<in> free_frames (pmm_of s)"
    using k_mem_pmm_free_spec [OF assms(1) b] by auto
  have "d = 1" using q(3,5) assms(2) by (cases d) (auto simp: avail_def)
  moreover have "unat g = unat f \<longleftrightarrow> g = f" for g using word_unatI [of g f] by auto
  ultimately have "avail (s\<lparr>pmm_of := q\<rparr>) = insert f (avail s)" using q(4) by (simp add: avail_def set_eq_iff)
  then show ?thesis using q(1,2) a by (auto simp: pg_free_def)
qed

section \<open>A small machine\<close>

text \<open>
  A directory in frame 1, seen at \<open>0xC1000000\<close> through the table in frame 2, and a page of the user at \<open>0x400000\<close>
  in frame 5 through the table in frame 4. Frames 8 to 31 are free.
\<close>

definition demo :: pg where
  "demo = \<lparr>ram = (\<lambda>_ _. 0)(1 := (\<lambda>_. 0)(1 := 0x4007, 772 := 0x2003, 1023 := 0x1003), 2 := (\<lambda>_. 0)(0 := 0x1003, 1 := 0x3003),
      4 := (\<lambda>_. 0)(0 := 0x5007), 5 := (\<lambda>_. 0)(7 := 42)),
     cr3 = 0x1000, current_page_directory = 0xC1000000, initial_page_directory = 0xC1000000,
     pmm_of = \<lparr>bitmap = (\<lambda>_. 0)(0 := 0xFFFFFF00), bitmap_size = 1, first_free_index = 0, allocated = 0, freed = 0\<rparr>,
     first_free_address = LOWMEM_START\<rparr>"

lemma demo_root: "root demo = 1"
  by (simp add: root_def demo_def e_page_def)

lemma demo_dir: "dir demo = (\<lambda>_. 0)(1 := 0x4007, 772 := 0x2003, 1023 := 0x1003)"
  by (simp add: dir_def demo_root, simp add: demo_def)

lemma demo_tabled: "tabled demo i \<longleftrightarrow> i = 1 \<or> i = 772"
  by (auto simp: tabled_def demo_dir e_present_def e_size_def)

lemma demo_tab: "tab demo 1 = 4" "tab demo 772 = 2" "tab demo 1023 = 1"
  by (simp_all add: tab_def demo_dir e_page_def)

lemma demo_avail: "f \<in> avail demo \<longleftrightarrow> unat f < 32 \<and> bit (0xFFFFFF00 :: u32) (unat f)"
  by (auto simp: avail_def free_frames_def demo_def)

lemma demo_mmu: "mmu demo 0xC1000000 = Some 1" "mmu demo 0xC1001000 = Some 3" "mmu demo 0x400000 = Some 5"
  by (simp_all add: mmu_def demo_def Let_def PDE_def PTE_def e_present_def e_size_def e_page_def)

lemma demo_ok: "pg_ok demo"
proof -
  have "pmm_inv (pmm_of demo)" by (simp add: demo_def pmm_inv_def)
  moreover have "inj_on (tab demo) (Collect (tabled demo))" using demo_tab by (auto simp: inj_on_def demo_tabled)
  moreover have "PDE (current_page_directory demo) \<noteq> 1023" "aligned (current_page_directory demo)"
    by (simp_all add: demo_def PDE_def aligned_def)
  moreover have "mmu demo (current_page_directory demo) = Some (root demo)" using demo_mmu demo_root by (simp add: demo_def)
  moreover have "e_present (dir demo 1023)" "\<not> e_size (dir demo 1023)" by (simp_all add: demo_dir e_present_def e_size_def)
  ultimately show ?thesis unfolding pg_ok_def using demo_tab by (auto simp: demo_avail demo_root demo_tabled)
qed

section \<open>Properties\<close>

text \<open>
  C7: what the kernel computes for an address by reading its tables through the window is what the processor
  translates the address to, and 0 where it finds no page, for every address outside of large pages.
\<close>

theorem virt2phys_is_mmu:
  assumes "pg_ok s" and "small s (PDE va)"
  shows "k_mem_paging_virt2phys s va = Some (case mmu s va of None \<Rightarrow> 0 | Some f \<Rightarrow> phys_of f va)"
  using virt2phys_spec [OF assms(1)] small_cases [OF assms(2)] by blast

theorem virt2phys_is_mmu_witness:
  "pg_ok demo \<and> small demo (PDE 0x40001C) \<and> k_mem_paging_virt2phys demo 0x40001C = Some 0x501C"
proof -
  have p: "PDE 0x40001C = 1" by (simp add: PDE_def)
  then have sm: "small demo (PDE 0x40001C)" using demo_tabled tabled_small by simp
  have "mmu demo 0x40001C = Some 5" using demo_mmu(3) mmu_cong [of "0x40001C" "0x400000" demo] by (simp add: PDE_def PTE_def)
  then show ?thesis using virt2phys_is_mmu [OF demo_ok sm] demo_ok sm by (simp add: phys_of_def)
qed

text \<open>
  C6: mapping a page that is not mapped ends; afterwards the processor translates the page to the given frame and
  every other address below the window as before. A missing table is one frame taken from the allocator; no frame
  changes that is not the directory or the table of the page.
\<close>

theorem map_changes_one_page:
  assumes "pg_ok s" and "small s (PDE va)" and "mmu s va = None" and "p \<noteq> 0" and "bit fl 0"
    and "e_present (dir s (PDE va)) \<or> avail s \<noteq> {}"
  shows "\<exists>t. k_mem_paging_map va p fl s = Some t \<and> pg_ok t \<and> mmu t va = Some (e_page p) \<and>
    (\<forall>vb. PDE vb \<noteq> 1023 \<longrightarrow> e_page vb \<noteq> e_page va \<longrightarrow> mmu t vb = mmu s vb) \<and>
    (\<forall>f. f \<noteq> root s \<longrightarrow> f \<noteq> tab t (PDE va) \<longrightarrow> ram t f = ram s f) \<and>
    (if e_present (dir s (PDE va)) then avail t = avail s \<and> dir t = dir s
     else tab t (PDE va) \<in> avail s \<and> avail t = avail s - {tab t (PDE va)})"
proof -
  have fl: "map_flags fl = fl" "e_present (ucast fl)" using assms(5) by (auto simp: map_flags_def e_present_def bit_ucast_iff)
  have e: "e_present (p OR ucast fl)" "e_page (p OR ucast fl) = e_page p"
    using fl(2) e_page_or [OF flags_small] by (auto simp: e_present_def bit_or_iff)
  have np: "e_page va \<noteq> e_page (current_page_directory t)" if "pg_ok t" "mmu t va = None" for t
    using that mmu_cong [of va "current_page_directory t" t] same_page [of va "current_page_directory t"] by (auto simp: pg_ok_def)
  show ?thesis
  proof (cases "e_present (dir s (PDE va))")
    case True
    then have t: "tabled s (PDE va)" using assms(2) by (simp add: small_def tabled_def)
    show ?thesis
      using map_tabled [OF assms(1) t assms(3,4), of fl] pg_ok_set_pte [OF assms(1) t np [OF assms(1,3)]]
        mmu_set_pte [OF assms(1) t] e fl True set_pte_dir [OF assms(1) t] tabled_small(3) [OF t] by auto
  next
    case False
    then obtain f x q where n: "need_table (PDE va) fl s = Some (new_table (PDE va) f x q s)" "f \<in> avail s" "e_page x = f" "e_present x"
        "\<not> e_size x" "pmm_inv q" "avail (s\<lparr>pmm_of := q\<rparr>) = avail s - {f}"
      using need_table_spec [OF assms(1), of "PDE va" fl] assms(2,6) by (auto simp: small_def)
    have i: "PDE va \<noteq> 1023" using assms(2) by (simp add: small_def)
    define t where "t = new_table (PDE va) f x q s"
    have ok: "pg_ok t" and m: "\<And>vb. PDE vb \<noteq> 1023 \<Longrightarrow> mmu t vb = mmu s vb" and tb: "tabled t (PDE va)" "tab t (PDE va) = f"
      using pg_ok_new_table [OF assms(1) False i n(2-)] mmu_new_table [OF assms(1) False i n(2-5)] new_table_tabs [OF assms(1) False i n(2-5)]
      unfolding t_def by auto
    have mt: "mmu t va = None" using m [OF i] assms(3) by simp
    have "k_mem_paging_map va p fl s = Some (set_pte va (p OR ucast fl) t)"
      using map_need_table [of va fl s t p] need_table_tabled [OF ok tb(1)] n(1) map_tabled [OF ok tb(1) mt assms(4), of fl] fl(1) by (simp add: t_def)
    moreover have "\<forall>g. g \<noteq> root s \<longrightarrow> g \<noteq> f \<longrightarrow> ram (set_pte va (p OR ucast fl) t) g = ram s g" using tb by (auto simp: t_def)
    ultimately show ?thesis
      using pg_ok_set_pte [OF ok tb(1) np [OF ok mt]] mmu_set_pte [OF ok tb(1)] e set_pte_dir [OF ok tb(1)] tb m i False n(2,7)
      by (auto simp: t_def)
  qed
qed

theorem map_changes_one_page_witness:
  "\<exists>t. k_mem_paging_map 0x800000 0x6000 7 demo = Some t \<and> pg_ok t \<and> mmu t 0x800000 = Some 6 \<and> mmu t 0x400000 = Some 5"
proof -
  have d: "PDE 0x800000 = 2" "PDE 0x400000 = 1" by (simp_all add: PDE_def)
  have "small demo (PDE 0x800000)" "\<not> e_present (dir demo (PDE 0x800000))" by (simp_all add: small_def demo_dir d e_present_def)
  moreover from this have "mmu demo 0x800000 = None" by (intro mmu_absent)
  moreover have "avail demo \<noteq> {}" using demo_avail [of 8] by auto
  moreover have "bit (7 :: u8) 0" "(0x6000 :: u32) \<noteq> 0" "e_page 0x400000 \<noteq> e_page 0x800000" "e_page 0x6000 = 6" by (simp_all add: e_page_def)
  ultimately obtain t where t: "k_mem_paging_map 0x800000 0x6000 7 demo = Some t" "pg_ok t" "mmu t 0x800000 = Some (e_page 0x6000)"
      "\<forall>vb. PDE vb \<noteq> 1023 \<longrightarrow> e_page vb \<noteq> e_page 0x800000 \<longrightarrow> mmu t vb = mmu demo vb"
    using map_changes_one_page [OF demo_ok, of "0x800000" "0x6000" 7] by blast
  then show ?thesis using demo_mmu(3) d by (auto simp: e_page_def)
qed

end
