(* ===== verification/Paging_Clone.thy ===== *)
theory Paging_Clone
  imports Paging_Inv
begin

text \<open>
  Copying and releasing address spaces. The kernel maps each new frame for a moment with \<open>k_map\<close> to write it; the theory
  shows what \<open>k_map\<close> and \<open>k_unmap\<close> do for one page, that \<open>k_mem_paging_clone_page_directory\<close> builds a space with
  the same contents in frames of its own. All of this is about the page tables: the same page serves as the window
  for one frame after the other, so that the running kernel behaves like this only where the flush of the page takes
  effect, which \<open>__k_mem_paging_invlpg\<close> as it is written does not achieve (\<open>paging.asm\<close>, line 19).
\<close>

section \<open>Changes that keep the translation\<close>

lemma ffa_simps [simp]:
  "mmu (s\<lparr>first_free_address := x\<rparr>) = mmu s" "root (s\<lparr>first_free_address := x\<rparr>) = root s" "dir (s\<lparr>first_free_address := x\<rparr>) = dir s"
  "tab (s\<lparr>first_free_address := x\<rparr>) = tab s" "tabled (s\<lparr>first_free_address := x\<rparr>) = tabled s"
  "avail (s\<lparr>first_free_address := x\<rparr>) = avail s" "pg_ok (s\<lparr>first_free_address := x\<rparr>) = pg_ok s"
proof -
  show r: "root (s\<lparr>first_free_address := x\<rparr>) = root s" by (simp add: root_def)
  show d: "dir (s\<lparr>first_free_address := x\<rparr>) = dir s" by (simp add: dir_def r)
  show t: "tab (s\<lparr>first_free_address := x\<rparr>) = tab s" by (simp add: fun_eq_iff tab_def d)
  show b: "tabled (s\<lparr>first_free_address := x\<rparr>) = tabled s" by (simp add: fun_eq_iff tabled_def d)
  show a: "avail (s\<lparr>first_free_address := x\<rparr>) = avail s" by (simp add: avail_def)
  show m: "mmu (s\<lparr>first_free_address := x\<rparr>) = mmu s" by (simp add: fun_eq_iff mmu_def Let_def)
  show "pg_ok (s\<lparr>first_free_address := x\<rparr>) = pg_ok s" by (simp add: pg_ok_def r d t b a m)
qed

lemma pmm_simps [simp]:
  "mmu (s\<lparr>pmm_of := q\<rparr>) = mmu s" "root (s\<lparr>pmm_of := q\<rparr>) = root s" "dir (s\<lparr>pmm_of := q\<rparr>) = dir s"
  "tab (s\<lparr>pmm_of := q\<rparr>) = tab s" "tabled (s\<lparr>pmm_of := q\<rparr>) = tabled s"
proof -
  show r: "root (s\<lparr>pmm_of := q\<rparr>) = root s" by (simp add: root_def)
  show d: "dir (s\<lparr>pmm_of := q\<rparr>) = dir s" by (simp add: dir_def r)
  show "tab (s\<lparr>pmm_of := q\<rparr>) = tab s" by (simp add: fun_eq_iff tab_def d)
  show "tabled (s\<lparr>pmm_of := q\<rparr>) = tabled s" by (simp add: fun_eq_iff tabled_def d)
  show "mmu (s\<lparr>pmm_of := q\<rparr>) = mmu s" by (simp add: fun_eq_iff mmu_def Let_def)
qed

lemma pg_ok_pmm: "pg_ok s \<Longrightarrow> pmm_inv q \<Longrightarrow> avail (s\<lparr>pmm_of := q\<rparr>) \<subseteq> avail s \<Longrightarrow> pg_ok (s\<lparr>pmm_of := q\<rparr>)"
  by (auto simp: pg_ok_def)

text \<open>A frame that is no table of the current space can be overwritten.\<close>

definition not_table :: "pg \<Rightarrow> frame \<Rightarrow> bool" where
  "not_table s f \<longleftrightarrow> f \<noteq> root s \<and> (\<forall>i. tabled s i \<longrightarrow> tab s i \<noteq> f)"

lemma avail_not_table: "pg_ok s \<Longrightarrow> f \<in> avail s \<Longrightarrow> not_table s f"
  by (auto simp: pg_ok_def not_table_def)

lemma fill_tables:
  assumes "not_table s f"
  shows "dir (fill f g s) = dir s" "tab (fill f g s) = tab s" "tabled (fill f g s) = tabled s"
proof -
  show d: "dir (fill f g s) = dir s" using assms by (intro dir_fill) (auto simp: not_table_def)
  show "tab (fill f g s) = tab s" "tabled (fill f g s) = tabled s" by (auto simp: tab_def tabled_def d)
qed

lemma mmu_fill_frame: "not_table s f \<Longrightarrow> PDE va \<noteq> 1023 \<Longrightarrow> mmu (fill f g s) va = mmu s va"
  by (rule mmu_fill) (auto simp: not_table_def tabled_def)

lemma pg_ok_fill:
  assumes "pg_ok s" and "not_table s f"
  shows "pg_ok (fill f g s)"
proof -
  have "mmu (fill f g s) (current_page_directory s) = mmu s (current_page_directory s)"
    using assms(1) by (intro mmu_fill_frame [OF assms(2)]) (simp add: pg_ok_def)
  then show ?thesis using assms(1) fill_tables [OF assms(2), of g] by (simp add: pg_ok_def)
qed

section \<open>One page of the kernel\<close>

text \<open>\<open>a\<close> is the first page from \<open>start\<close> that is not mapped; the pages before it are.\<close>

definition first_free :: "pg \<Rightarrow> u32 \<Rightarrow> u32 \<Rightarrow> bool" where
  "first_free s start a \<longleftrightarrow> aligned start \<and> aligned a \<and> LOWMEM_START \<le> start \<and> start \<le> a \<and> a < LOWMEM_END \<and>
     tabled s (PDE a) \<and> mmu s a = None \<and>
     (\<forall>v. aligned v \<longrightarrow> start \<le> v \<longrightarrow> v < a \<longrightarrow> tabled s (PDE v) \<and> mmu s v \<noteq> None \<and> mmu s v \<noteq> Some 0)"

lemma first_free_later: "first_free s start a \<Longrightarrow> aligned b \<Longrightarrow> start \<le> b \<Longrightarrow> b \<le> a \<Longrightarrow> first_free s b a"
  by (auto simp: first_free_def)

lemma is_mapped_spec:
  assumes "pg_ok s" and "tabled s (PDE v)" and "aligned v"
  shows "k_mem_paging_virt2phys s v = Some (case mmu s v of None \<Rightarrow> 0 | Some f \<Rightarrow> addr_of f)"
    and "is_mapped s v = Some (mmu s v \<noteq> None \<and> mmu s v \<noteq> Some 0)"
proof -
  have "v mod 0x1000 = 0"
  proof -
    have "unat (v mod 0x1000) = 0" using assms(3) unat_mod_page [of v] by (simp only: aligned_def)
    then show ?thesis by (simp only: unat_eq_zero)
  qed
  moreover have "push_bit 12 (ucast f :: u32) = addr_of f" for f by (simp add: addr_of_def push_bit_eq_mult)
  ultimately have "phys_of f v = addr_of f" for f by (simp add: phys_of_def)
  then show v: "k_mem_paging_virt2phys s v = Some (case mmu s v of None \<Rightarrow> 0 | Some f \<Rightarrow> addr_of f)"
    using virt2phys_spec [OF assms(1), of v] assms(2) by (cases "mmu s v") simp_all
  show "is_mapped s v = Some (mmu s v \<noteq> None \<and> mmu s v \<noteq> Some 0)" by (auto simp: is_mapped_def v split: option.splits)
qed

lemma skip_taken_spec:
  assumes "\<And>k. i \<le> k \<Longrightarrow> k < n \<Longrightarrow> taken (start + (of_nat k + off) * 0x1000) = Some True"
    and "taken (start + (of_nat n + off) * 0x1000) = Some False" and "i \<le> n"
  shows "skip_taken taken start off (of_nat i) = Some (of_nat n)"
  using assms
proof (induction "n - i" arbitrary: i)
  case 0
  then have "i = n" by simp
  then show ?case using 0 by (simp add: skip_taken.simps)
next
  case (Suc m)
  then have "skip_taken taken start off (of_nat (Suc i)) = Some (of_nat n)" by (intro Suc.hyps) auto
  moreover have "taken (start + (of_nat i + off) * 0x1000) = Some True" using Suc by auto
  ultimately show ?case by (subst skip_taken.simps) (simp add: add.commute)
qed

lemma LOWMEM_END_nat: "a < LOWMEM_END \<longleftrightarrow> unat a < 0xF7000000" "LOWMEM_START \<le> a \<longleftrightarrow> 0xC1000000 \<le> unat a"
  by (simp_all add: LOWMEM_END_def LOWMEM_START_def word_less_nat_alt word_le_nat_alt)

lemma next_page: "first_free s x a \<Longrightarrow> a < a + 0x1000"
  using LOWMEM_END_nat(1) [of a] by (auto simp: first_free_def word_less_nat_alt unat_word_ariths)

lemma pages_between:
  assumes "aligned start" and "unat start + 4096 * n < 2 ^ 32"
  shows "unat (start + of_nat n * 0x1000) = unat start + 4096 * n" and "aligned (start + of_nat n * 0x1000)"
proof -
  have "n < 2 ^ 32" using assms(2) by simp
  then have "unat (of_nat n * 0x1000 :: u32) = 4096 * n" using assms(2) by (simp add: unat_word_ariths unat_of_nat)
  then show u: "unat (start + of_nat n * 0x1000) = unat start + 4096 * n" using assms(2) by (simp add: unat_word_ariths)
  show "aligned (start + of_nat n * 0x1000)" using assms(1) by (simp add: aligned_def u)
qed

lemma k_map_search_one:
  assumes "pg_ok s" and "first_free s start a"
  shows "\<exists>n. k_map_search s start 1 0 = Some (of_nat n) \<and> unat a = unat start + 4096 * n \<and> a = start + of_nat n * 0x1000"
proof -
  have al: "aligned start" "aligned a" and le: "unat start \<le> unat a" "unat a < 0xF7000000"
    and fa: "tabled s (PDE a)" "mmu s a = None"
    and before: "\<And>v. aligned v \<Longrightarrow> start \<le> v \<Longrightarrow> v < a \<Longrightarrow> tabled s (PDE v) \<and> mmu s v \<noteq> None \<and> mmu s v \<noteq> Some 0"
    using assms(2) LOWMEM_END_nat by (auto simp: first_free_def word_le_nat_alt)
  obtain n where n: "unat a = unat start + 4096 * n"
  proof -
    obtain p q where "unat start = 4096 * p" "unat a = 4096 * q" using al by (auto simp: aligned_def elim!: dvdE)
    then have "unat a = unat start + 4096 * (q - p)" using le(1) by simp
    then show ?thesis by (rule that)
  qed
  have u: "unat (start + of_nat k * 0x1000) = unat start + 4096 * k" "aligned (start + of_nat k * 0x1000)" if "k \<le> n" for k
    using pages_between [OF al(1), of k] that le(2) n by auto
  have a: "a = start + of_nat n * 0x1000" using u(1) [of n] n by (intro word_unatI) simp
  have mapped: "is_mapped s (start + of_nat k * 0x1000) = Some True" if "k < n" for k
    using is_mapped_spec(2) [OF assms(1)] before [of "start + of_nat k * 0x1000"] u [of k] that n by (simp add: word_le_nat_alt word_less_nat_alt)
  have free: "is_mapped s a = Some False" "k_mem_paging_virt2phys s a = Some 0" using is_mapped_spec [OF assms(1) fa(1) al(2)] fa(2) by simp_all
  have last: "k_map_search s start 1 (of_nat n) = Some (of_nat n)" using free(2) a by (simp add: k_map_search.simps)
  show ?thesis
  proof (cases "n = 0")
    case True
    then show ?thesis using last a n by auto
  next
    case False
    then obtain p where p: "k_mem_paging_virt2phys s start = Some p" "p \<noteq> 0" using mapped [of 0] by (auto simp: is_mapped_def Option.bind_eq_Some_conv)
    have "skip_taken (is_mapped s) start 0 (of_nat 0) = Some (of_nat n)"
      using mapped free(1) a by (intro skip_taken_spec) auto
    then have "k_map_search s start 1 0 = k_map_search s start 1 (of_nat n)"
      using p LOWMEM_END_nat(1) [of a] le(2) a by (subst k_map_search.simps) (simp add: not_le [symmetric])
    then show ?thesis using last a n by auto
  qed
qed

lemma map_region_one:
  assumes "k_mem_pmm_is_allocated (pmm_of s) (ucast p)" and "p \<noteq> 0"
  shows "k_mem_paging_map_region a p 1 fl True s = k_mem_paging_map a p fl s"
  using assms by (cases "k_mem_paging_map a p fl s") (simp_all add: k_mem_paging_map_region_def)

lemma k_map_one:
  assumes "pg_ok s" and "first_free s (first_free_address s) a" and "k_mem_pmm_is_allocated (pmm_of s) (ucast (addr_of f))" and "f \<noteq> 0"
    and "fl \<noteq> 0"
  shows "k_map (addr_of f) 1 fl s = Some (a, (set_pte a (addr_of f OR ucast fl) s)\<lparr>first_free_address := a + 0x1000\<rparr>)"
proof -
  obtain n where n: "k_map_search s (first_free_address s) 1 0 = Some (of_nat n)" "a = first_free_address s + of_nat n * 0x1000"
    using k_map_search_one [OF assms(1,2)] by auto
  have t: "tabled s (PDE a)" "mmu s a = None" and u: "unat a < 0xF7000000" "aligned a"
    using assms(2) LOWMEM_END_nat by (auto simp: first_free_def)
  have al: "unat (a + 0x1000) = unat a + 4096" using u(1) by (simp add: unat_word_ariths)
  have an: "first_free_address s + (of_nat n + 1) * 0x1000 = a + 0x1000" unfolding n(2) by (simp add: distrib_right)
  have "unat a + 4096 \<le> 0xF7000000" using u by (auto simp: aligned_def elim!: dvdE)
  then have "\<not> first_free_address s + (of_nat n + 1) * 0x1000 > LOWMEM_END"
    unfolding an using al by (simp add: LOWMEM_END_def word_less_nat_alt)
  moreover have m: "k_mem_paging_map a (addr_of f) fl (s\<lparr>first_free_address := a + 0x1000\<rparr>) =
      Some ((set_pte a (addr_of f OR ucast fl) s)\<lparr>first_free_address := a + 0x1000\<rparr>)"
    using map_tabled [of "s\<lparr>first_free_address := a + 0x1000\<rparr>" a "addr_of f" fl] assms(1,4,5) t
    by (simp add: map_flags_def set_pte_def poke_def)
  moreover have "a = first_free_address s + 0x1000 * of_nat n" using n(2) by (simp add: mult.commute)
  ultimately show ?thesis
    using n(1) map_region_one [of "s\<lparr>first_free_address := a + 0x1000\<rparr>" "addr_of f" a fl] assms(3,4) by (simp add: k_map_def Let_def)
qed

lemma k_unmap_one:
  assumes "pg_ok s" and "first_free t x a" and "tabled s (PDE a)" and "a < first_free_address s"
  shows "k_unmap a 1 s = Some ((set_pte a 0 s)\<lparr>first_free_address := a\<rparr>)"
proof -
  have u: "unat a < 0xF7000000" "aligned a" "0xC1000000 \<le> unat a"
    using assms(2) LOWMEM_END_nat by (auto simp: first_free_def word_le_nat_alt LOWMEM_START_def)
  have al: "unat (a + 0x1000) = unat a + 4096" using u(1) by (simp add: unat_word_ariths)
  moreover have "unat a + 4096 \<le> 0xF7000000" using u by (auto simp: aligned_def elim!: dvdE)
  ultimately have "a + 0x1000 \<le> LOWMEM_END" by (simp add: LOWMEM_END_def word_le_nat_alt)
  then show ?thesis
    using unmap_tabled [OF assms(1,3)] u(3) assms(4) LOWMEM_END_nat(2) [of a] by (simp add: k_unmap_def k_mem_paging_unmap_region_def)
qed

section \<open>The state of a copy\<close>

text \<open>The tables and the pages of the user in the current space, and the tables of the kernel.\<close>

definition utabs :: "pg \<Rightarrow> slot set" where
  "utabs s = {i. i < 768 \<and> tabled s i}"

definition uent :: "pg \<Rightarrow> slot \<times> slot \<Rightarrow> u32" where
  "uent s p = ram s (tab s (fst p)) (snd p)"

definition upages :: "pg \<Rightarrow> (slot \<times> slot) set" where
  "upages s = {p. fst p \<in> utabs s \<and> e_present (uent s p)}"

definition ktab :: "pg \<Rightarrow> frame set" where
  "ktab s = tab s ` {i. 768 \<le> i \<and> tabled s i}"

text \<open>
  The situation in which a copy is made: the new directory is a page of the kernel in a frame \<open>c\<close> of its own, two pages
  \<open>a\<close> and \<open>b\<close> for the kernel are free, and the pages of the user lie in frames that are in use and hold no table of the kernel.
\<close>

definition clone_ok :: "pg \<Rightarrow> frame \<Rightarrow> u32 \<Rightarrow> u32 \<Rightarrow> u32 \<Rightarrow> bool" where
  "clone_ok s c cpy a b \<longleftrightarrow> pg_ok s \<and> aligned cpy \<and> PDE cpy \<noteq> 1023 \<and> mmu s cpy = Some c \<and> c \<notin> avail s \<and> not_table s c \<and>
     first_free s (first_free_address s) a \<and> first_free s (a + 0x1000) b \<and>
     (\<forall>i < 768. small s i) \<and> (\<forall>p \<in> upages s. e_page (uent s p) \<notin> avail s \<and> e_page (uent s p) \<noteq> c \<and> e_page (uent s p) \<notin> ktab s)"

text \<open>
  A copy under way: the tables of \<open>T\<close> are copied to the frames \<open>G\<close> and the pages of \<open>Q\<close> to the frames \<open>H\<close>; \<open>X\<close> is what the
  page \<open>a\<close> is mapped to.
\<close>

definition cp :: "pg \<Rightarrow> frame \<Rightarrow> u32 \<Rightarrow> frame option \<Rightarrow> slot set \<Rightarrow> (slot \<times> slot) set \<Rightarrow> (slot \<Rightarrow> frame) \<Rightarrow> (slot \<times> slot \<Rightarrow> frame) \<Rightarrow> pg \<Rightarrow> bool" where
  "cp s c a X T Q G H t \<longleftrightarrow>
     cr3 t = cr3 s \<and> current_page_directory t = current_page_directory s \<and> initial_page_directory t = initial_page_directory s \<and>
     pg_ok t \<and> dir t = dir s \<and>
     (\<forall>va. PDE va \<noteq> 1023 \<longrightarrow> mmu t va = (if e_page va = e_page a then X else mmu s va)) \<and>
     (\<forall>f. f \<noteq> c \<longrightarrow> f \<notin> G ` T \<union> H ` Q \<longrightarrow> f \<notin> ktab s \<longrightarrow> ram t f = ram s f) \<and>
     G ` T \<union> H ` Q \<subseteq> avail s \<and> avail t = avail s - (G ` T \<union> H ` Q) \<and>
     inj_on G T \<and> inj_on H Q \<and> G ` T \<inter> H ` Q = {} \<and>
     (\<forall>i. ram t c i = (if i \<in> T then addr_of (G i) OR (dir s i AND 0xFFF) else ram s c i)) \<and>
     (\<forall>i \<in> T. \<forall>j. ram t (G i) j = (if (i, j) \<in> Q then addr_of (H (i, j)) OR (uent s (i, j) AND 0xFFF) else 0)) \<and>
     (\<forall>p \<in> Q. ram t (H p) = ram s (e_page (uent s p)))"

lemma cp_same:
  assumes "cp s c a X T Q G H t"
  shows "root t = root s" "dir t = dir s" "tab t = tab s" "tabled t = tabled s" "not_table t = not_table s"
proof -
  show r: "root t = root s" and d: "dir t = dir s" using assms by (auto simp: cp_def root_def)
  then show t: "tab t = tab s" "tabled t = tabled s" by (auto simp: tab_def tabled_def)
  show "not_table t = not_table s" by (simp add: fun_eq_iff not_table_def r t)
qed

lemma cp_start: "clone_ok s c cpy a b \<Longrightarrow> cp s c a None {} {} G H s"
proof -
  assume o: "clone_ok s c cpy a b"
  then have "mmu s a = None" by (simp add: clone_ok_def first_free_def)
  then have "mmu s va = None" if "e_page va = e_page a" for va using that mmu_cong [of va a s] same_page [of va a] by simp
  then show ?thesis using o by (simp add: cp_def clone_ok_def)
qed

lemma cp_ram: "cp s c a X T Q G H t \<Longrightarrow> f \<noteq> c \<Longrightarrow> f \<notin> G ` T \<union> H ` Q \<Longrightarrow> f \<notin> ktab s \<Longrightarrow> ram t f = ram s f"
  by (simp add: cp_def)

lemma cp_fresh: "cp s c a X T Q G H t \<Longrightarrow> G ` T \<union> H ` Q \<subseteq> avail s"
  by (simp add: cp_def)

lemma cp_mmu: "cp s c a X T Q G H t \<Longrightarrow> PDE va \<noteq> 1023 \<Longrightarrow> mmu t va = (if e_page va = e_page a then X else mmu s va)"
  by (simp add: cp_def)

lemma clone_page_frame:
  "clone_ok s c cpy a b \<Longrightarrow> p \<in> upages s \<Longrightarrow> e_page (uent s p) \<notin> avail s \<and> e_page (uent s p) \<noteq> c \<and> e_page (uent s p) \<notin> ktab s"
  by (simp add: clone_ok_def)

lemma user_table:
  assumes "pg_ok s" and "i \<in> utabs s"
  shows "tab s i \<notin> ktab s" and "tab s i \<notin> avail s" and "tabled s i" and "i \<noteq> 1023"
proof -
  show t: "tabled s i" using assms(2) by (simp add: utabs_def)
  then show "i \<noteq> 1023" by (simp add: tabled_def)
  show "tab s i \<notin> avail s" using tables_distinct(3) [OF assms(1) t] .
  have "tab s k \<noteq> tab s i" if "768 \<le> k" "tabled s k" for k
  proof -
    have "k \<noteq> i" using that(1) assms(2) not_le [of 768 i] by (auto simp: utabs_def)
    then show ?thesis using tables_distinct(2) [OF assms(1) t that(2)] by simp
  qed
  then show "tab s i \<notin> ktab s" by (force simp: ktab_def)
qed

text \<open>The tables and the pages of the user keep their contents.\<close>

lemma cp_user_table:
  assumes "clone_ok s c cpy a b" and "cp s c a X T Q G H t" and "i \<in> utabs s"
  shows "ram t (tab s i) = ram s (tab s i)"
proof -
  have ok: "pg_ok s" and nc: "not_table s c" using assms(1) by (auto simp: clone_ok_def)
  have "tab s i \<noteq> c" using nc user_table(3) [OF ok assms(3)] by (auto simp: not_table_def)
  moreover have "tab s i \<notin> G ` T \<union> H ` Q" using user_table(2) [OF ok assms(3)] cp_fresh [OF assms(2)] by blast
  ultimately show ?thesis using user_table(1) [OF ok assms(3)] cp_ram [OF assms(2)] by blast
qed

lemma cp_user_page:
  assumes "clone_ok s c cpy a b" and "cp s c a X T Q G H t" and "p \<in> upages s"
  shows "ram t (e_page (uent s p)) = ram s (e_page (uent s p))"
  using clone_page_frame [OF assms(1,3)] cp_fresh [OF assms(2)] cp_ram [OF assms(2)] by blast

lemma first_free_parts:
  assumes "first_free s x a"
  shows "aligned a" "tabled s (PDE a)" "mmu s a = None" "768 \<le> PDE a" "PDE a \<noteq> 1023"
proof -
  show "aligned a" "tabled s (PDE a)" "mmu s a = None" using assms by (auto simp: first_free_def)
  then show "PDE a \<noteq> 1023" by (simp add: tabled_def)
  have "0xC1000000 \<le> unat a" using assms LOWMEM_END_nat(2) [of x] by (auto simp: first_free_def word_le_nat_alt)
  then have "0xC1000000 div 2 ^ 22 \<le> unat a div 2 ^ 22" by (rule div_le_mono)
  then show "768 \<le> PDE a" by (simp add: word_le_nat_alt unat_PDE)
qed

lemma user_page_mmu:
  assumes "pg_ok s" and "p \<in> upages s"
  shows "mmu s (ADDR (fst p) (snd p)) = Some (e_page (uent s p))"
  using assms mmu_tabled [of s "ADDR (fst p) (snd p)"] by (simp add: upages_def utabs_def uent_def)

lemma first_free_mono:
  assumes "first_free s x b" and "\<And>v. aligned v \<Longrightarrow> x \<le> v \<Longrightarrow> v \<le> b \<Longrightarrow> PDE v \<noteq> 1023 \<Longrightarrow> mmu t v = mmu s v" and "tabled t = tabled s"
  shows "first_free t x b"
  using assms by (auto simp: first_free_def tabled_def)

text \<open>Mapping the frame of a copied page, writing through the mapping and unmapping it, in one piece.\<close>

lemma kernel_entry: "e_present (addr_of f OR ucast (PAGE_PRESENT OR PAGE_WRITABLE))" "e_page (addr_of f OR ucast (PAGE_PRESENT OR PAGE_WRITABLE)) = f"
  using e_page_or [OF flags_small, of "addr_of f" "PAGE_PRESENT OR PAGE_WRITABLE"]
  by (simp_all add: e_bits_or) (simp add: e_present_def PAGE_PRESENT_def PAGE_WRITABLE_def)

lemma other_page: "mmu s a \<noteq> mmu s b \<Longrightarrow> e_page a \<noteq> e_page b"
  using mmu_cong [of a b s] same_page [of a b] by auto

lemma set_pte_space:
  assumes "pg_ok s" and "tabled s (PDE b)" and "mmu s b = None" and "PDE va \<noteq> 1023"
  shows "pg_ok (set_pte b e s)" and "mmu (set_pte b e s) va = (if e_page va = e_page b then if e_present e then Some (e_page e) else None else mmu s va)"
proof -
  have "mmu s b \<noteq> mmu s (current_page_directory s)" using assms(3) dir_mapped(1) [OF assms(1)] by simp
  from pg_ok_set_pte [OF assms(1,2) other_page [OF this]] show "pg_ok (set_pte b e s)" .
  show "mmu (set_pte b e s) va = (if e_page va = e_page b then if e_present e then Some (e_page e) else None else mmu s va)"
    using mmu_set_pte [OF assms(1,2,4)] .
qed

section \<open>Copying a page\<close>

text \<open>The state after the page at slot \<open>j\<close> of the table in frame \<open>g\<close> has been written.\<close>

definition page_done :: "u32 \<Rightarrow> frame \<Rightarrow> slot \<Rightarrow> u32 \<Rightarrow> frame \<Rightarrow> frame \<Rightarrow> pmm \<Rightarrow> pg \<Rightarrow> pg" where
  "page_done b g j x h leaf q t = t\<lparr>pmm_of := q, first_free_address := b,
     ram := (ram t)(tab t (PDE b) := (ram t (tab t (PDE b)))(PTE b := 0), g := (ram t g)(j := x), h := ram t leaf)\<rparr>"

lemma clone_page_run:
  assumes ok: "pg_ok t" and ff: "first_free t (first_free_address t) b"
    and a: "mmu t a = Some g" "aligned a" "PDE a \<noteq> 1023" and g: "not_table t g" "g \<notin> avail t"
    and i: "tabled t i" "i \<noteq> PDE b" and pr: "e_present (ram t (tab t i) j)"
    and leaf: "leaf = e_page (ram t (tab t i) j)" "leaf \<notin> avail t" "leaf \<noteq> g" "leaf \<noteq> tab t (PDE b)" and av: "avail t \<noteq> {}"
  shows "\<exists>h q. h \<in> avail t \<and> pmm_inv q \<and> avail (t\<lparr>pmm_of := q\<rparr>) = avail t - {h} \<and>
    clone_page i a j t = Some (page_done b g j (addr_of h OR (ram t (tab t i) j AND 0xFFF)) h leaf q t) \<and>
    pg_ok (page_done b g j (addr_of h OR (ram t (tab t i) j AND 0xFFF)) h leaf q t) \<and>
    (\<forall>va. PDE va \<noteq> 1023 \<longrightarrow> mmu (page_done b g j (addr_of h OR (ram t (tab t i) j AND 0xFFF)) h leaf q t) va = mmu t va)"
proof -
  note b = first_free_parts [OF ff]
  define u where "u = ram t (tab t i) j"
  obtain h q where h: "pg_alloc 1 t = Some (addr_of h, t\<lparr>pmm_of := q\<rparr>)" "h \<in> avail t" "h \<noteq> 0" "pmm_inv q"
      "avail (t\<lparr>pmm_of := q\<rparr>) = avail t - {h}" "k_mem_pmm_is_allocated q (ucast (addr_of h))"
    using pg_alloc_spec [of t] ok av by (auto simp: pg_ok_def)
  define t1 where "t1 = t\<lparr>pmm_of := q\<rparr>"
  have ok1: "pg_ok t1" unfolding t1_def using h by (intro pg_ok_pmm [OF ok]) auto
  have ff1: "first_free t1 (first_free_address t1) b" using ff by (simp add: t1_def first_free_def)
  define e where "e = addr_of h OR ucast (PAGE_PRESENT OR PAGE_WRITABLE)"
  define t2 where "t2 = (set_pte b e t1)\<lparr>first_free_address := b + 0x1000\<rparr>"
  have same1: "tab t1 = tab t" "tabled t1 = tabled t" "root t1 = root t" "ram t1 = ram t" "mmu t1 = mmu t" by (simp_all add: t1_def)
  have tb: "tabled t1 (PDE b)" "mmu t1 b = None" using b by (simp_all add: same1)
  have k2: "k_map (addr_of h) 1 (PAGE_PRESENT OR PAGE_WRITABLE) t1 = Some (b, t2)"
    unfolding t2_def e_def using h(3,6) by (intro k_map_one [OF ok1 ff1]) (simp_all add: t1_def PAGE_PRESENT_def PAGE_WRITABLE_def)
  have ok2: "pg_ok t2" and m2: "\<And>va. PDE va \<noteq> 1023 \<Longrightarrow> mmu t2 va = (if e_page va = e_page b then Some h else mmu t va)"
    using set_pte_space [OF ok1 tb] kernel_entry [of h] b(5) by (auto simp: t2_def e_def same1)
  have same2: "tab t2 = tab t" "tabled t2 = tabled t" "root t2 = root t" "avail t2 = avail t - {h}"
      "ram t2 = (ram t)(tab t (PDE b) := (ram t (tab t (PDE b)))(PTE b := e))"
    using set_pte_dir [OF ok1 tb(1)] h(5) by (simp_all add: t2_def same1 t1_def)
  have tn: "tab t i \<noteq> tab t (PDE b)" using tables_distinct(2) [OF ok b(2) i(1)] i(2) by simp
  have r2: "rd t2 (PT_PTR i + 4 * ucast j) = Some u"
    using window_get [OF ok2, of i j] i(1) tn tabled_small(2) [of t2 i] by (simp add: same2 u_def)
  define x where "x = addr_of h OR (u AND 0xFFF)"
  define t3 where "t3 = fill g ((ram t g)(j := x)) t2"
  have ga: "g \<noteq> tab t (PDE b)" "g \<noteq> h" using g b(2) h(2) by (auto simp: not_table_def)
  have nb: "e_page a \<noteq> e_page b" using other_page [of t a b] a(1) b(3) by simp
  have w3: "wr (a + 4 * ucast j) x t2 = Some t3"
    using wr_in_page [OF a(2), of t2 g] m2 [OF a(3)] nb a(1) ga(1) by (simp add: t3_def poke_eq_fill same2)
  have g2: "not_table t2 g" using g(1) by (simp add: not_table_def same2)
  have ok3: "pg_ok t3" and m3: "\<And>va. PDE va \<noteq> 1023 \<Longrightarrow> mmu t3 va = (if e_page va = e_page b then Some h else mmu t va)"
    using pg_ok_fill [OF ok2 g2] mmu_fill_frame [OF g2] m2 by (simp_all add: t3_def)
  have same3: "tab t3 = tab t" "tabled t3 = tabled t" "root t3 = root t" "avail t3 = avail t - {h}"
    using fill_tables [OF g2] by (simp_all add: t3_def same2)
  have h3: "not_table t3 h" using avail_not_table [OF ok h(2)] by (simp add: not_table_def same3)
  have li: "mmu t (ADDR i j) = Some leaf" using mmu_tabled [of t "ADDR i j"] i(1) pr leaf(1) by simp
  have "mmu t3 b = Some h" "mmu t3 (ADDR i j) = Some leaf"
    using m3 [of b] m3 [of "ADDR i j"] b(5) i li other_page [of t "ADDR i j" b] b(3) tabled_small(3) [OF i(1)] by simp_all
  then have c4: "copy_page b (ADDR i j) t3 = Some (fill h (ram t3 leaf) t3)"
    using h3 leaf(2) h(2) b(1,5) tabled_small(3) [OF i(1)] by (intro copy_page_spec) (auto simp: not_table_def tabled_def)
  define t4 where "t4 = fill h (ram t3 leaf) t3"
  have ok4: "pg_ok t4" and m4: "\<And>va. PDE va \<noteq> 1023 \<Longrightarrow> mmu t4 va = mmu t3 va" and same4: "tab t4 = tab t" "tabled t4 = tabled t"
    using pg_ok_fill [OF ok3 h3] mmu_fill_frame [OF h3] fill_tables [OF h3] by (simp_all add: t4_def same3)
  have tb4: "tabled t4 (PDE b)" using b(2) by (simp add: same4)
  have f4: "b < first_free_address t4" using next_page [OF ff] by (simp add: t4_def t3_def t2_def)
  have u5: "k_unmap b 1 t4 = Some ((set_pte b 0 t4)\<lparr>first_free_address := b\<rparr>)"
    by (rule k_unmap_one [OF ok4 ff tb4 f4])
  have nd: "e_page b \<noteq> e_page (current_page_directory t4)"
  proof -
    have "current_page_directory t4 = current_page_directory t" by (simp add: t4_def t3_def t2_def t1_def)
    then show ?thesis using other_page [of t b "current_page_directory t"] b(3) dir_mapped(1) [OF ok] by simp
  qed
  have hb: "h \<noteq> tab t (PDE b)" using avail_not_table [OF ok h(2)] b(2) by (auto simp: not_table_def)
  have r4: "ram t4 = (ram t)(tab t (PDE b) := (ram t (tab t (PDE b)))(PTE b := e), g := (ram t g)(j := x), h := ram t leaf)"
    using leaf(3,4) by (simp add: t4_def t3_def same2)
  have r5: "ram (set_pte b 0 t4) = ram (page_done b g j x h leaf q t)"
    using ga(1) hb by (auto simp: fun_eq_iff page_done_def same4 r4)
  have fin: "(set_pte b 0 t4)\<lparr>first_free_address := b\<rparr> = page_done b g j x h leaf q t"
    by (rule pg.equality) (use r5 in simp, simp_all add: page_done_def t4_def t3_def t2_def t1_def)
  have m5: "mmu (set_pte b 0 t4) va = mmu t va" if "PDE va \<noteq> 1023" for va
    using mmu_set_pte [OF ok4 tb4 that, of 0] m4 [OF that] m3 [OF that] mmu_cong [of va b t] same_page [of va b] b(3)
    by (simp add: e_present_def)
  have ok5: "pg_ok (set_pte b 0 t4)" by (rule pg_ok_set_pte [OF ok4 tb4 nd])
  have run: "clone_page i a j t = Some (page_done b g j x h leaf q t)"
    using window_get [OF ok, of i j] tabled_small(2) [OF i(1)] pr h(1) k2 r2 w3 c4 u5 fin
    by (simp add: clone_page_def t1_def u_def x_def t4_def)
  have "pg_ok (page_done b g j x h leaf q t)" "\<And>va. PDE va \<noteq> 1023 \<Longrightarrow> mmu (page_done b g j x h leaf q t) va = mmu t va"
    using ok5 m5 unfolding fin [symmetric] by simp_all
  then show ?thesis using h(2,4,5) run by (auto simp: x_def u_def)
qed

lemma inj_on_extend: "inj_on H Q \<Longrightarrow> p \<notin> Q \<Longrightarrow> h \<notin> H ` Q \<Longrightarrow> inj_on (H(p := h)) (insert p Q)"
  by (auto simp: inj_on_def)

lemma image_extend: "p \<notin> Q \<Longrightarrow> (H(p := h)) ` insert p Q = insert h (H ` Q)"
  by auto

text \<open>What is left to say of a state that differs from one under way in the frames of the kernel's tables, one table and one new page.\<close>

lemma cp_page:
  assumes o: "clone_ok s c cpy a b" and cp: "cp s c a X T Q G H t" and i: "i \<in> T" and p: "(i, j) \<in> upages s" "(i, j) \<notin> Q"
    and h: "h \<in> avail t" "avail (t\<lparr>pmm_of := q\<rparr>) = avail t - {h}" and b: "tabled s (PDE b)" "768 \<le> PDE b"
    and d: "t' = page_done b (G i) j (addr_of h OR (uent s (i, j) AND 0xFFF)) h (e_page (uent s (i, j))) q t"
    and ok: "pg_ok t'" and m: "\<And>va. PDE va \<noteq> 1023 \<Longrightarrow> mmu t' va = mmu t va"
  shows "cp s c a X T (insert (i, j) Q) G (H((i, j) := h)) t'"
proof -
  note same = cp_same [OF cp]
  define N where "N = G ` T \<union> H ` Q"
  have fr: "N \<subseteq> avail s" and at: "avail t = avail s - N" and inj: "inj_on G T" "inj_on H Q" "G ` T \<inter> H ` Q = {}"
    using cp by (simp_all add: cp_def N_def)
  have so: "pg_ok s" and nc: "not_table s c" "c \<notin> avail s" using o by (simp_all add: clone_ok_def)
  have hs: "h \<in> avail s" "h \<notin> N" using h(1) at by auto
  have gs: "G i \<in> N" using i by (simp add: N_def)
  have kb: "tab s (PDE b) \<in> ktab s" using b by (simp add: ktab_def)
  have ka: "ktab s \<inter> avail s = {}" using so by (auto simp: ktab_def pg_ok_def)
  have nt: "tab s (PDE b) \<noteq> c" "root s \<notin> avail s" using nc(1) b(1) so by (auto simp: not_table_def pg_ok_def)
  have hN: "G ` T \<union> (H((i, j) := h)) ` insert (i, j) Q = insert h N" using p(2) by (auto simp: N_def)
  have rt: "ram t' = (ram t)(tab s (PDE b) := (ram t (tab s (PDE b)))(PTE b := 0),
      G i := (ram t (G i))(j := addr_of h OR (uent s (i, j) AND 0xFFF)), h := ram t (e_page (uent s (i, j))))"
    by (simp add: d page_done_def same)
  have other: "ram t' f = ram t f" if "f \<notin> ktab s" "f \<noteq> G i" "f \<noteq> h" for f using that kb by (auto simp: rt)
  have new: "ram t' h = ram s (e_page (uent s (i, j)))" using cp_user_page [OF o cp p(1)] by (simp add: rt)
  have tabl: "ram t' (G i) = (ram t (G i))(j := addr_of h OR (uent s (i, j) AND 0xFFF))" using gs hs(2) by (auto simp: rt)
  have nk: "f \<notin> ktab s" if "f \<in> N" for f using that fr ka by blast
  have dr: "dir t' = dir s"
  proof -
    have "root s \<notin> ktab s" using so by (auto simp: ktab_def pg_ok_def)
    moreover have "root s \<noteq> G i" "root s \<noteq> h" using gs fr hs(1) nt(2) by auto
    ultimately have "ram t' (root s) = ram t (root s)" by (rule other)
    moreover have "root t' = root s" using same(1) by (simp add: d page_done_def root_def)
    ultimately show ?thesis using same(1,2) by (simp add: dir_def)
  qed
  have A: "cr3 t' = cr3 s" "current_page_directory t' = current_page_directory s" "initial_page_directory t' = initial_page_directory s"
    using cp by (simp_all add: cp_def d page_done_def)
  have B: "mmu t' va = (if e_page va = e_page a then X else mmu s va)" if "PDE va \<noteq> 1023" for va
    using m [OF that] cp_mmu [OF cp that] by simp
  have C: "ram t' f = ram s f" if "f \<noteq> c" "f \<notin> insert h N" "f \<notin> ktab s" for f
    using other [of f] cp_ram [OF cp that(1)] that gs by (auto simp: N_def)
  have D: "avail t' = avail s - insert h N" using h(2) at by (auto simp: d page_done_def avail_def)
  have E: "ram t' c k = (if k \<in> T then addr_of (G k) OR (dir s k AND 0xFFF) else ram s c k)" for k
  proof -
    have "c \<notin> ktab s" using nc(1) by (auto simp: ktab_def not_table_def)
    moreover have "c \<noteq> G i" "c \<noteq> h" using gs fr hs(1) nc(2) by auto
    ultimately have "ram t' c = ram t c" by (rule other)
    then show ?thesis using cp by (simp add: cp_def)
  qed
  have F: "ram t' (G k) l = (if (k, l) \<in> insert (i, j) Q then addr_of ((H((i, j) := h)) (k, l)) OR (uent s (k, l) AND 0xFFF) else 0)" if "k \<in> T" for k l
  proof -
    have t: "ram t (G k) l = (if (k, l) \<in> Q then addr_of (H (k, l)) OR (uent s (k, l) AND 0xFFF) else 0)" using cp that by (simp add: cp_def)
    have "G k \<in> N" using that by (simp add: N_def)
    show ?thesis
    proof (cases "k = i")
      case True
      then show ?thesis using tabl t p(2) by auto
    next
      case False
      then have "G k \<noteq> G i" using inj(1) i that by (auto simp: inj_on_def)
      moreover have "G k \<noteq> h" using \<open>G k \<in> N\<close> hs(2) by auto
      ultimately have "ram t' (G k) = ram t (G k)" using other nk [OF \<open>G k \<in> N\<close>] by simp
      then show ?thesis using t False p(2) by auto
    qed
  qed
  have H: "ram t' ((H((i, j) := h)) r) = ram s (e_page (uent s r))" if "r \<in> insert (i, j) Q" for r
  proof (cases "r = (i, j)")
    case True
    then show ?thesis using new by simp
  next
    case False
    then have r: "r \<in> Q" using that by simp
    then have n: "H r \<in> N" "H r \<noteq> G i" using inj(3) i by (auto simp: N_def)
    moreover have "H r \<noteq> h" using n(1) hs(2) by auto
    ultimately have "ram t' (H r) = ram t (H r)" using other nk [OF n(1)] by simp
    then show ?thesis using cp r False by (simp add: cp_def)
  qed
  have inj': "inj_on (H((i, j) := h)) (insert (i, j) Q)" using inj_on_extend [OF inj(2) p(2)] hs(2) by (simp add: N_def)
  have dj: "G ` T \<inter> (H((i, j) := h)) ` insert (i, j) Q = {}" using inj(3) hs(2) p(2) by (auto simp: N_def)
  show ?thesis
    unfolding cp_def hN using A B C D E F H inj(1) inj' dj ok dr fr hs by simp
qed

lemma aligned_page_less: "aligned a \<Longrightarrow> aligned v \<Longrightarrow> a < v \<Longrightarrow> e_page a \<noteq> e_page v"
  using addr_of_e_page [of a] addr_of_e_page [of v] by (metis less_irrefl)

lemma cp_room:
  assumes o: "clone_ok s c cpy a b" and cp: "cp s c a X T Q G H t" and ff: "first_free s (first_free_address t) b" and lt: "a < first_free_address t"
  shows "first_free t (first_free_address t) b"
proof (rule first_free_mono [OF ff])
  fix v
  assume v: "aligned v" "first_free_address t \<le> v" "v \<le> b" "PDE v \<noteq> 1023"
  have "aligned a" using o by (simp add: clone_ok_def first_free_def)
  moreover have "a < v" using lt v(2) by (rule less_le_trans)
  ultimately have "e_page v \<noteq> e_page a" using aligned_page_less [of a v] v(1) by auto
  then show "mmu t v = mmu s v" using cp_mmu [OF cp v(4)] by simp
next
  show "tabled t = tabled s" using cp_same(4) [OF cp] .
qed

lemma clone_page_step:
  assumes o: "clone_ok s c cpy a b" and cp: "cp s c a (Some (G i)) T Q G H t" and i: "i \<in> T" "i \<in> utabs s" and p: "(i, j) \<notin> Q"
    and ff: "first_free s (first_free_address t) b" "a < first_free_address t"
  shows "(i, j) \<notin> upages s \<Longrightarrow> clone_page i a j t = Some t"
    and "(i, j) \<in> upages s \<Longrightarrow> avail t \<noteq> {} \<Longrightarrow> \<exists>H' t'. clone_page i a j t = Some t' \<and>
      cp s c a (Some (G i)) T (insert (i, j) Q) G H' t' \<and> first_free s (first_free_address t') b \<and> a < first_free_address t' \<and>
      card (avail t') = card (avail t) - 1"
proof -
  have so: "pg_ok s" and a: "aligned a" "PDE a \<noteq> 1023" and fa: "first_free s (a + 0x1000) b"
    using o first_free_parts [of s "first_free_address s" a] by (auto simp: clone_ok_def)
  have ok: "pg_ok t" using cp by (simp add: cp_def)
  note same = cp_same [OF cp]
  have ti: "tabled t i" using i(2) by (simp add: same utabs_def)
  have u: "ram t (tab t i) j = uent s (i, j)" using cp_user_table [OF o cp i(2)] by (simp add: same uent_def)
  have r: "rd t (PT_PTR i + 4 * ucast j) = Some (uent s (i, j))" using window_get [OF ok] tabled_small(2) [OF ti] u by simp
  show "clone_page i a j t = Some t" if "(i, j) \<notin> upages s" using r that i(2) by (simp add: clone_page_def upages_def)
  assume up: "(i, j) \<in> upages s" and av: "avail t \<noteq> {}"
  have fb: "768 \<le> PDE b" "tabled s (PDE b)" using first_free_parts [OF ff(1)] by auto
  have gi: "G i \<in> avail s" "G i \<notin> avail t" using cp i(1) by (auto simp: cp_def)
  have "not_table t (G i)" using avail_not_table [OF so gi(1)] same(5) by simp
  moreover have "mmu t a = Some (G i)" using cp_mmu [OF cp a(2)] by simp
  moreover have "i \<noteq> PDE b" using fb(1) i(2) by (auto simp: utabs_def not_le [symmetric])
  moreover have "e_present (ram t (tab t i) j)" using up by (simp add: u upages_def)
  moreover have "e_page (uent s (i, j)) \<notin> avail t" "e_page (uent s (i, j)) \<noteq> G i" "e_page (uent s (i, j)) \<noteq> tab t (PDE b)"
    using clone_page_frame [OF o up] gi(1) cp fb same by (auto simp: cp_def ktab_def)
  ultimately obtain h q where h: "h \<in> avail t" "avail (t\<lparr>pmm_of := q\<rparr>) = avail t - {h}"
      and d: "clone_page i a j t = Some (page_done b (G i) j (addr_of h OR (uent s (i, j) AND 0xFFF)) h (e_page (uent s (i, j))) q t)"
        "pg_ok (page_done b (G i) j (addr_of h OR (uent s (i, j) AND 0xFFF)) h (e_page (uent s (i, j))) q t)"
        "\<forall>va. PDE va \<noteq> 1023 \<longrightarrow> mmu (page_done b (G i) j (addr_of h OR (uent s (i, j) AND 0xFFF)) h (e_page (uent s (i, j))) q t) va = mmu t va"
    using clone_page_run [OF ok cp_room [OF o cp ff] _ a _ gi(2) ti, of j "e_page (uent s (i, j))"] av u by auto
  define t' where "t' = page_done b (G i) j (addr_of h OR (uent s (i, j) AND 0xFFF)) h (e_page (uent s (i, j))) q t"
  have "cp s c a (Some (G i)) T (insert (i, j) Q) G (H((i, j) := h)) t'"
    using cp_page [OF o cp i(1) up p h fb(2,1) t'_def] d(2,3) by (simp add: t'_def)
  moreover have "first_free s (first_free_address t') b" "a < first_free_address t'"
  proof -
    have "b \<le> b" "first_free_address t \<le> b" "aligned b" using ff(1) by (auto simp: first_free_def)
    then show "first_free s (first_free_address t') b" using first_free_later [OF ff(1)] by (simp add: t'_def page_done_def)
    show "a < first_free_address t'" using ff(2) \<open>first_free_address t \<le> b\<close> by (simp add: t'_def page_done_def)
  qed
  moreover have "avail t' = avail t - {h}" using h(2) by (simp add: t'_def page_done_def avail_def)
  ultimately show "\<exists>H' t'. clone_page i a j t = Some t' \<and>
      cp s c a (Some (G i)) T (insert (i, j) Q) G H' t' \<and> first_free s (first_free_address t') b \<and> a < first_free_address t' \<and>
      card (avail t') = card (avail t) - 1"
    using d(1) h(1) by (auto simp: t'_def)
qed

definition pages_at :: "pg \<Rightarrow> slot \<Rightarrow> slot set \<Rightarrow> (slot \<times> slot) set" where
  "pages_at s i J = {(i, j) |j. j \<in> J} \<inter> upages s"

lemma clone_pages:
  assumes o: "clone_ok s c cpy a b" and i: "i \<in> T" "i \<in> utabs s"
  shows "cp s c a (Some (G i)) T Q G H t \<Longrightarrow> distinct js \<Longrightarrow> (\<forall>j \<in> set js. (i, j) \<notin> Q) \<Longrightarrow> first_free s (first_free_address t) b \<Longrightarrow>
    a < first_free_address t \<Longrightarrow> card (pages_at s i (set js)) \<le> card (avail t) \<Longrightarrow>
    \<exists>H' t'. for_slots (clone_page i a) js t = Some t' \<and> cp s c a (Some (G i)) T (Q \<union> pages_at s i (set js)) G H' t' \<and>
      a < first_free_address t' \<and> card (avail t') = card (avail t) - card (pages_at s i (set js))"
proof (induction js arbitrary: Q H t)
  case Nil
  then show ?case by (auto simp: pages_at_def)
next
  case (Cons j js)
  have p: "(i, j) \<notin> Q" using Cons.prems(3) by simp
  note step = clone_page_step [OF o Cons.prems(1) i p Cons.prems(4,5)]
  show ?case
  proof (cases "(i, j) \<in> upages s")
    case False
    then have "pages_at s i (set (j # js)) = pages_at s i (set js)" by (auto simp: pages_at_def)
    then show ?thesis using Cons.IH [OF Cons.prems(1)] Cons.prems step(1) [OF False] by simp
  next
    case True
    have n: "(i, j) \<notin> pages_at s i (set js)" and e: "pages_at s i (set (j # js)) = insert (i, j) (pages_at s i (set js))"
      using Cons.prems(2) True by (auto simp: pages_at_def)
    have cd: "card (pages_at s i (set (j # js))) = Suc (card (pages_at s i (set js)))" using n e by (simp add: card_insert_disjoint)
    then have "avail t \<noteq> {}" using Cons.prems(6) by auto
    from step(2) [OF True this] obtain H' t' where t': "clone_page i a j t = Some t'" "cp s c a (Some (G i)) T (insert (i, j) Q) G H' t'"
        "first_free s (first_free_address t') b" "a < first_free_address t'" "card (avail t') = card (avail t) - 1" by blast
    have "\<forall>k \<in> set js. (i, k) \<notin> insert (i, j) Q" using Cons.prems(2,3) by auto
    moreover have "card (pages_at s i (set js)) \<le> card (avail t')" using Cons.prems(6) cd t'(5) by simp
    ultimately obtain H'' t'' where "for_slots (clone_page i a) js t' = Some t''"
        "cp s c a (Some (G i)) T (insert (i, j) Q \<union> pages_at s i (set js)) G H'' t''" "a < first_free_address t''"
        "card (avail t'') = card (avail t') - card (pages_at s i (set js))"
      using Cons.IH [OF t'(2) _ _ t'(3,4)] Cons.prems(2) by auto
    then show ?thesis using t'(1,5) e cd by auto
  qed
qed

section \<open>Copying a table\<close>

text \<open>The state in which the new table of slot \<open>i\<close> is mapped at \<open>a\<close>, empty and entered in the new directory.\<close>

definition table_open :: "u32 \<Rightarrow> frame \<Rightarrow> slot \<Rightarrow> frame \<Rightarrow> u32 \<Rightarrow> pmm \<Rightarrow> pg \<Rightarrow> pg" where
  "table_open a c i g x q t = t\<lparr>pmm_of := q, first_free_address := a + 0x1000,
     ram := (ram t)(tab t (PDE a) := (ram t (tab t (PDE a)))(PTE a := addr_of g OR ucast (PAGE_PRESENT OR PAGE_WRITABLE)),
       c := (ram t c)(i := x), g := \<lambda>_. 0)\<rparr>"

lemma clone_table_opens:
  assumes ok: "pg_ok t" and ff: "first_free t (first_free_address t) a"
    and c: "mmu t cpy = Some c" "aligned cpy" "PDE cpy \<noteq> 1023" "not_table t c" "c \<notin> avail t" and i: "e_present (dir t i)" and av: "avail t \<noteq> {}"
  shows "\<exists>g q. g \<in> avail t \<and> pmm_inv q \<and> avail (t\<lparr>pmm_of := q\<rparr>) = avail t - {g} \<and>
    (let t' = table_open a c i g (addr_of g OR (dir t i AND 0xFFF)) q t in
     clone_table (current_page_directory t) cpy i t = do { t5 \<leftarrow> for_slots (clone_page i a) (slots 1024) t'; k_unmap a 1 t5 } \<and>
     pg_ok t' \<and> (\<forall>va. PDE va \<noteq> 1023 \<longrightarrow> mmu t' va = (if e_page va = e_page a then Some g else mmu t va)))"
proof -
  note a = first_free_parts [OF ff]
  obtain g q where g: "pg_alloc 1 t = Some (addr_of g, t\<lparr>pmm_of := q\<rparr>)" "g \<in> avail t" "g \<noteq> 0" "pmm_inv q"
      "avail (t\<lparr>pmm_of := q\<rparr>) = avail t - {g}" "k_mem_pmm_is_allocated q (ucast (addr_of g))"
    using pg_alloc_spec [of t] ok av by (auto simp: pg_ok_def)
  define t1 where "t1 = t\<lparr>pmm_of := q\<rparr>"
  have ok1: "pg_ok t1" unfolding t1_def using g by (intro pg_ok_pmm [OF ok]) auto
  have ff1: "first_free t1 (first_free_address t1) a" using ff by (simp add: t1_def first_free_def)
  define e where "e = addr_of g OR ucast (PAGE_PRESENT OR PAGE_WRITABLE)"
  define t2 where "t2 = (set_pte a e t1)\<lparr>first_free_address := a + 0x1000\<rparr>"
  have same1: "tab t1 = tab t" "tabled t1 = tabled t" "root t1 = root t" "ram t1 = ram t" "mmu t1 = mmu t" "dir t1 = dir t" by (simp_all add: t1_def)
  have ta: "tabled t1 (PDE a)" "mmu t1 a = None" using a by (simp_all add: same1)
  have k2: "k_map (addr_of g) 1 (PAGE_PRESENT OR PAGE_WRITABLE) t1 = Some (a, t2)"
    unfolding t2_def e_def using g(3,6) by (intro k_map_one [OF ok1 ff1]) (simp_all add: t1_def PAGE_PRESENT_def PAGE_WRITABLE_def)
  have ok2: "pg_ok t2" and m2: "\<And>va. PDE va \<noteq> 1023 \<Longrightarrow> mmu t2 va = (if e_page va = e_page a then Some g else mmu t va)"
    using set_pte_space [OF ok1 ta] kernel_entry [of g] a(5) by (auto simp: t2_def e_def same1)
  have same2: "tab t2 = tab t" "tabled t2 = tabled t" "root t2 = root t" "dir t2 = dir t" "current_page_directory t2 = current_page_directory t"
      "ram t2 = (ram t)(tab t (PDE a) := (ram t (tab t (PDE a)))(PTE a := e))"
    using set_pte_dir [OF ok1 ta(1)] by (simp_all add: t2_def same1 t1_def)
  have r: "rd t (current_page_directory t + 4 * ucast i) = Some (dir t i)" "rd t2 (current_page_directory t + 4 * ucast i) = Some (dir t i)"
    using dir_entry_spec [OF ok, of i] dir_entry_spec [OF ok2, of i] by (simp_all add: dir_entry_def same2)
  define x where "x = addr_of g OR (dir t i AND 0xFFF)"
  have ca: "c \<noteq> tab t (PDE a)" "c \<noteq> g" "g \<noteq> tab t (PDE a)" using c(4,5) a(2) g(2) avail_not_table [OF ok g(2)] by (auto simp: not_table_def)
  define t3 where "t3 = fill c ((ram t c)(i := x)) t2"
  have na: "e_page cpy \<noteq> e_page a" using other_page [of t cpy a] c(1) a(3) by simp
  have w3: "wr (cpy + 4 * ucast i) x t2 = Some t3"
    using wr_in_page [OF c(2), of t2 c] m2 [OF c(3)] na c(1) ca(1) by (simp add: t3_def poke_eq_fill same2)
  have c2: "not_table t2 c" using c(4) by (simp add: not_table_def same2)
  have ok3: "pg_ok t3" and m3: "\<And>va. PDE va \<noteq> 1023 \<Longrightarrow> mmu t3 va = mmu t2 va"
    using pg_ok_fill [OF ok2 c2] mmu_fill_frame [OF c2] by (simp_all add: t3_def)
  have same3: "tab t3 = tab t" "tabled t3 = tabled t" "root t3 = root t" using fill_tables [OF c2] by (simp_all add: t3_def same2)
  have g3: "not_table t3 g" using avail_not_table [OF ok g(2)] by (simp add: not_table_def same3)
  define t4 where "t4 = fill g (\<lambda>_. 0) t3"
  have c4: "clear_page a t3 = Some t4" unfolding t4_def
    using g3 a(1,5) m3 [of a] m2 [of a] by (intro clear_page_spec) (auto simp: not_table_def tabled_def)
  have ok4: "pg_ok t4" and m4: "\<And>va. PDE va \<noteq> 1023 \<Longrightarrow> mmu t4 va = (if e_page va = e_page a then Some g else mmu t va)"
    using pg_ok_fill [OF ok3 g3] mmu_fill_frame [OF g3] m3 m2 by (simp_all add: t4_def)
  have fin: "t4 = table_open a c i g x q t"
    by (rule pg.equality) (use ca in \<open>simp add: t4_def t3_def same2 table_open_def e_def\<close>, simp_all add: t4_def t3_def t2_def t1_def table_open_def)
  have "clone_table (current_page_directory t) cpy i t = do { t5 \<leftarrow> for_slots (clone_page i a) (slots 1024) t4; k_unmap a 1 t5 }"
    using r i g(1) k2 w3 c4 by (simp add: clone_table_def t1_def x_def)
  then show ?thesis using g(2,4,5) ok4 m4 unfolding Let_def fin x_def by (intro exI [of _ g] exI [of _ q]) simp
qed

lemma cp_open:
  assumes o: "clone_ok s c cpy a b" and cp: "cp s c a None T Q G H t" and i: "i \<in> utabs s" "i \<notin> T" "\<And>j. (i, j) \<notin> Q"
    and g: "g \<in> avail t" "avail (t\<lparr>pmm_of := q\<rparr>) = avail t - {g}"
    and d: "t' = table_open a c i g (addr_of g OR (dir t i AND 0xFFF)) q t" and ok: "pg_ok t'"
    and m: "\<And>va. PDE va \<noteq> 1023 \<Longrightarrow> mmu t' va = (if e_page va = e_page a then Some g else mmu t va)"
  shows "cp s c a (Some g) (insert i T) Q (G(i := g)) H t'"
proof -
  note same = cp_same [OF cp]
  define N where "N = G ` T \<union> H ` Q"
  have fr: "N \<subseteq> avail s" and at: "avail t = avail s - N" and inj: "inj_on G T" "inj_on H Q" "G ` T \<inter> H ` Q = {}"
    using cp by (simp_all add: cp_def N_def)
  have so: "pg_ok s" and nc: "not_table s c" "c \<notin> avail s" using o by (simp_all add: clone_ok_def)
  have a: "tabled s (PDE a)" "768 \<le> PDE a" using o first_free_parts [of s "first_free_address s" a] by (auto simp: clone_ok_def)
  have gs: "g \<in> avail s" "g \<notin> N" using g(1) at by auto
  have ka: "tab s (PDE a) \<in> ktab s" using a by (simp add: ktab_def)
  have kv: "ktab s \<inter> avail s = {}" "root s \<notin> avail s" "root s \<notin> ktab s" using so by (auto simp: ktab_def pg_ok_def)
  have ck: "c \<notin> ktab s" "root s \<noteq> c" using nc(1) by (auto simp: ktab_def not_table_def)
  have hN: "(G(i := g)) ` insert i T \<union> H ` Q = insert g N" using i(2) by (auto simp: N_def)
  have rt: "ram t' = (ram t)(tab s (PDE a) := (ram t (tab s (PDE a)))(PTE a := addr_of g OR ucast (PAGE_PRESENT OR PAGE_WRITABLE)),
      c := (ram t c)(i := addr_of g OR (dir s i AND 0xFFF)), g := \<lambda>_. 0)"
    by (simp add: d table_open_def same)
  have other: "ram t' f = ram t f" if "f \<notin> ktab s" "f \<noteq> c" "f \<noteq> g" for f using that ka by (auto simp: rt)
  have cc: "ram t' c = (ram t c)(i := addr_of g OR (dir s i AND 0xFFF))" using nc(2) gs(1) by (auto simp: rt)
  have nk: "f \<notin> ktab s \<and> f \<noteq> c \<and> f \<noteq> g" if "f \<in> N" for f using that fr kv(1) nc(2) gs(2) by blast
  have "ram t' (root s) = ram t (root s)" using kv ck gs(1) by (intro other) auto
  moreover have "root t' = root s" using same(1) by (simp add: d table_open_def root_def)
  ultimately have dr: "dir t' = dir s" using same(1,2) by (simp add: dir_def)
  have A: "cr3 t' = cr3 s" "current_page_directory t' = current_page_directory s" "initial_page_directory t' = initial_page_directory s"
    using cp by (simp_all add: cp_def d table_open_def)
  have B: "mmu t' va = (if e_page va = e_page a then Some g else mmu s va)" if "PDE va \<noteq> 1023" for va
    using m [OF that] cp_mmu [OF cp that] by simp
  have C: "ram t' f = ram s f" if "f \<noteq> c" "f \<notin> insert g N" "f \<notin> ktab s" for f
    using other [of f] cp_ram [OF cp that(1)] that by (auto simp: N_def)
  have D: "avail t' = avail s - insert g N" using g(2) at by (auto simp: d table_open_def avail_def)
  have E: "ram t' c k = (if k \<in> insert i T then addr_of ((G(i := g)) k) OR (dir s k AND 0xFFF) else ram s c k)" for k
    using cp i(2) by (auto simp: cc cp_def)
  have F: "ram t' ((G(i := g)) k) l = (if (k, l) \<in> Q then addr_of (H (k, l)) OR (uent s (k, l) AND 0xFFF) else 0)" if "k \<in> insert i T" for k l
  proof (cases "k = i")
    case True
    then show ?thesis using i(3) by (simp add: rt)
  next
    case False
    then have "k \<in> T" "G k \<in> N" using that by (auto simp: N_def)
    then have "ram t' (G k) = ram t (G k)" using nk [of "G k"] other by simp
    then show ?thesis using cp \<open>k \<in> T\<close> False by (simp add: cp_def)
  qed
  have H: "ram t' (H r) = ram s (e_page (uent s r))" if "r \<in> Q" for r
    using cp that nk [of "H r"] other [of "H r"] by (simp add: cp_def N_def)
  have inj': "inj_on (G(i := g)) (insert i T)" using inj_on_extend [OF inj(1) i(2)] gs(2) by (simp add: N_def)
  have dj: "(G(i := g)) ` insert i T \<inter> H ` Q = {}" using inj(3) gs(2) i(2) by (auto simp: N_def)
  show ?thesis
    unfolding cp_def hN using A B C D E F H inj(2) inj' dj ok dr fr gs by simp
qed

lemma cp_close:
  assumes o: "clone_ok s c cpy a b" and cp: "cp s c a X T Q G H t"
  shows "cp s c a None T Q G H ((set_pte a 0 t)\<lparr>first_free_address := x\<rparr>)"
proof -
  note same = cp_same [OF cp]
  have a: "tabled s (PDE a)" "768 \<le> PDE a" "mmu s a = None" "PDE a \<noteq> 1023" and so: "pg_ok s" and nc: "not_table s c" "c \<notin> avail s"
    using o first_free_parts [of s "first_free_address s" a] by (auto simp: clone_ok_def)
  have ta: "tabled t (PDE a)" and ok: "pg_ok t" using a(1) same(4) cp by (simp_all add: cp_def)
  have ka: "tab s (PDE a) \<in> ktab s" "tab s (PDE a) \<noteq> c" "tab s (PDE a) \<notin> avail s"
    using a nc(1) tables_distinct(3) [OF so a(1)] by (auto simp: ktab_def not_table_def)
  have fr: "G ` T \<union> H ` Q \<subseteq> avail s" using cp_fresh [OF cp] .
  have nd: "e_page a \<noteq> e_page (current_page_directory t)"
    using other_page [of s a "current_page_directory s"] a(3) dir_mapped(1) [OF so] cp by (simp add: cp_def)
  have rt: "ram (set_pte a 0 t) f = ram t f" if "f \<noteq> tab s (PDE a)" for f using that by (simp add: same)
  have g: "G i \<noteq> tab s (PDE a)" if "i \<in> T" for i using that fr ka(3) by auto
  have h: "H p \<noteq> tab s (PDE a)" if "p \<in> Q" for p using that fr ka(3) by auto
  have M: "mmu (set_pte a 0 t) va = (if e_page va = e_page a then None else mmu s va)" if "PDE va \<noteq> 1023" for va
    using mmu_set_pte [OF ok ta that, of 0] cp_mmu [OF cp that] by (simp add: e_present_def)
  have K: "f \<noteq> tab s (PDE a)" if "f \<notin> ktab s" for f using that ka(1) by auto
  show ?thesis
    using cp pg_ok_set_pte [OF ok ta nd] set_pte_dir(1) [OF ok ta] M rt g h K ka(2)
    by (simp add: cp_def del: set_pte_simps(8))
qed

lemma distinct_slots: "n \<le> 1024 \<Longrightarrow> distinct (slots n)"
  by (auto simp: slots_def distinct_map inj_on_def word_of_nat_eq_iff take_bit_eq_mod)

lemma clone_table_step:
  assumes o: "clone_ok s c cpy a b" and cp: "cp s c a None T Q G H t" and i: "i \<in> utabs s" "i \<notin> T" "\<And>j. (i, j) \<notin> Q"
    and ff: "first_free s (first_free_address t) a" and av: "Suc (card (pages_at s i UNIV)) \<le> card (avail t)"
  shows "\<exists>G' H' t'. clone_table (current_page_directory s) cpy i t = Some t' \<and> cp s c a None (insert i T) (Q \<union> pages_at s i UNIV) G' H' t' \<and>
    first_free s (first_free_address t') a \<and> card (avail t') = card (avail t) - Suc (card (pages_at s i UNIV))"
proof -
  note same = cp_same [OF cp]
  have so: "pg_ok s" and nc: "not_table s c" "c \<notin> avail s" and cy: "mmu s cpy = Some c" "aligned cpy" "PDE cpy \<noteq> 1023"
    and ab: "first_free s (a + 0x1000) b" and fa: "first_free s (first_free_address s) a" using o by (auto simp: clone_ok_def)
  note a = first_free_parts [OF fa]
  have ok: "pg_ok t" and cur: "current_page_directory t = current_page_directory s" using cp by (simp_all add: cp_def)
  have mm: "mmu t v = mmu s v" if "PDE v \<noteq> 1023" for v
    using cp_mmu [OF cp that] a(3) mmu_cong [of v a s] same_page [of v a] by simp
  have ft: "first_free t (first_free_address t) a" using mm same(4) by (intro first_free_mono [OF ff]) auto
  have ct: "mmu t cpy = Some c" "not_table t c" "c \<notin> avail t" using mm cy nc same cp by (auto simp: cp_def)
  have pi: "e_present (dir t i)" using i(1) same by (simp add: utabs_def tabled_def)
  have ne: "avail t \<noteq> {}" using av by auto
  obtain g q where g: "g \<in> avail t" "avail (t\<lparr>pmm_of := q\<rparr>) = avail t - {g}"
    and d: "let t' = table_open a c i g (addr_of g OR (dir t i AND 0xFFF)) q t in
     clone_table (current_page_directory t) cpy i t = do { t5 \<leftarrow> for_slots (clone_page i a) (slots 1024) t'; k_unmap a 1 t5 } \<and>
     pg_ok t' \<and> (\<forall>va. PDE va \<noteq> 1023 \<longrightarrow> mmu t' va = (if e_page va = e_page a then Some g else mmu t va))"
    using clone_table_opens [OF ok ft ct(1) cy(2,3) ct(2,3) pi ne] by blast
  define t4 where "t4 = table_open a c i g (addr_of g OR (dir t i AND 0xFFF)) q t"
  have run: "clone_table (current_page_directory s) cpy i t = do { t5 \<leftarrow> for_slots (clone_page i a) (slots 1024) t4; k_unmap a 1 t5 }"
    and ok4: "pg_ok t4" and m4: "\<And>va. PDE va \<noteq> 1023 \<Longrightarrow> mmu t4 va = (if e_page va = e_page a then Some g else mmu t va)"
    using d by (simp_all add: Let_def t4_def cur)
  define G4 where "G4 = G(i := g)"
  have cp4: "cp s c a (Some (G4 i)) (insert i T) Q G4 H t4"
    using cp_open [OF o cp i g t4_def ok4 m4] by (simp add: G4_def)
  have f4: "first_free_address t4 = a + 0x1000" "avail t4 = avail t - {g}" using g(2) by (simp_all add: t4_def table_open_def avail_def)
  have c4: "card (avail t4) = card (avail t) - 1" using g(1) by (simp add: f4(2))
  have l4: "a < first_free_address t4" using next_page [OF fa] by (simp add: f4)
  have e4: "card (pages_at s i (set (slots 1024))) \<le> card (avail t4)" using av c4 by simp
  have q4: "\<forall>j \<in> set (slots 1024). (i, j) \<notin> Q" using i(3) by simp
  obtain H' t5 where t5: "for_slots (clone_page i a) (slots 1024) t4 = Some t5" "cp s c a (Some (G4 i)) (insert i T) (Q \<union> pages_at s i UNIV) G4 H' t5"
      "a < first_free_address t5" "card (avail t5) = card (avail t4) - card (pages_at s i UNIV)"
    using clone_pages [OF o _ i(1) cp4 distinct_slots q4 _ l4 e4] ab f4(1) by auto
  have ta5: "tabled t5 (PDE a)" and ok5: "pg_ok t5" using a(2) cp_same(4) [OF t5(2)] t5(2) by (simp_all add: cp_def)
  define t6 where "t6 = (set_pte a 0 t5)\<lparr>first_free_address := a\<rparr>"
  have "k_unmap a 1 t5 = Some t6" unfolding t6_def by (rule k_unmap_one [OF ok5 fa ta5 t5(3)])
  moreover have "cp s c a None (insert i T) (Q \<union> pages_at s i UNIV) G4 H' t6" unfolding t6_def by (rule cp_close [OF o t5(2)])
  moreover have "first_free s (first_free_address t6) a"
    using first_free_later [OF ff, of a] ff a(1) by (simp add: t6_def first_free_def)
  moreover have "card (avail t6) = card (avail t) - Suc (card (pages_at s i UNIV))" using t5(4) c4 by (simp add: t6_def)
  ultimately show ?thesis using run t5(1) by auto
qed

definition upages_in :: "pg \<Rightarrow> slot set \<Rightarrow> (slot \<times> slot) set" where
  "upages_in s I = {p \<in> upages s. fst p \<in> I}"

lemma clone_tables:
  assumes o: "clone_ok s c cpy a b"
  shows "cp s c a None T Q G H t \<Longrightarrow> distinct is \<Longrightarrow> (\<forall>i \<in> set is. i < 768 \<and> i \<notin> T \<and> (\<forall>j. (i, j) \<notin> Q)) \<Longrightarrow>
    first_free s (first_free_address t) a \<Longrightarrow> card (utabs s \<inter> set is) + card (upages_in s (set is)) \<le> card (avail t) \<Longrightarrow>
    \<exists>G' H' t'. for_slots (clone_table (current_page_directory s) cpy) is t = Some t' \<and>
      cp s c a None (T \<union> (utabs s \<inter> set is)) (Q \<union> upages_in s (set is)) G' H' t' \<and>
      card (avail t') = card (avail t) - (card (utabs s \<inter> set is) + card (upages_in s (set is)))"
proof (induction "is" arbitrary: T Q G H t)
  case Nil
  then show ?case by (auto simp: upages_in_def)
next
  case (Cons i "is")
  note same = cp_same [OF Cons.prems(1)]
  have new: "i \<notin> T" "\<And>j. (i, j) \<notin> Q" and lt: "i < 768" using Cons.prems(3) by auto
  show ?case
  proof (cases "i \<in> utabs s")
    case False
    then have "\<not> e_present (dir s i)" using o lt small_cases [of s i] by (auto simp: clone_ok_def utabs_def)
    moreover have "rd t (current_page_directory s + 4 * ucast i) = Some (dir s i)"
      using dir_entry_spec [of t i] Cons.prems(1) same by (simp add: cp_def dir_entry_def)
    ultimately have "clone_table (current_page_directory s) cpy i t = Some t" by (simp add: clone_table_def)
    moreover have "utabs s \<inter> set (i # is) = utabs s \<inter> set is" "upages_in s (set (i # is)) = upages_in s (set is)"
      using False by (auto simp: upages_in_def upages_def)
    ultimately show ?thesis using Cons.IH [OF Cons.prems(1)] Cons.prems by simp
  next
    case True
    let ?P = "pages_at s i UNIV"
    have u: "utabs s \<inter> set (i # is) = insert i (utabs s \<inter> set is)" "upages_in s (set (i # is)) = ?P \<union> upages_in s (set is)"
      using True by (auto simp: upages_in_def pages_at_def)
    have dj: "?P \<inter> upages_in s (set is) = {}" using Cons.prems(2) by (auto simp: upages_in_def pages_at_def)
    have cd: "card (utabs s \<inter> set (i # is)) = Suc (card (utabs s \<inter> set is))" "card (upages_in s (set (i # is))) = card ?P + card (upages_in s (set is))"
      using Cons.prems(2) u dj by (simp_all add: card_Un_disjoint)
    then have "Suc (card ?P) \<le> card (avail t)" using Cons.prems(5) by simp
    from clone_table_step [OF o Cons.prems(1) True new Cons.prems(4) this] obtain G' H' t' where
      t': "clone_table (current_page_directory s) cpy i t = Some t'" "cp s c a None (insert i T) (Q \<union> ?P) G' H' t'"
        "first_free s (first_free_address t') a" "card (avail t') = card (avail t) - Suc (card ?P)" by blast
    have "\<forall>k \<in> set is. k < 768 \<and> k \<notin> insert i T \<and> (\<forall>j. (k, j) \<notin> Q \<union> ?P)"
      using Cons.prems(2,3) by (auto simp: pages_at_def)
    moreover have "card (utabs s \<inter> set is) + card (upages_in s (set is)) \<le> card (avail t')" using Cons.prems(5) cd t'(4) by simp
    ultimately obtain G'' H'' t'' where "for_slots (clone_table (current_page_directory s) cpy) is t' = Some t''"
        "cp s c a None (insert i T \<union> (utabs s \<inter> set is)) (Q \<union> ?P \<union> upages_in s (set is)) G'' H'' t''"
        "card (avail t'') = card (avail t') - (card (utabs s \<inter> set is) + card (upages_in s (set is)))"
      using Cons.IH [OF t'(2) _ _ t'(3)] Cons.prems(2) by auto
    then show ?thesis using t'(1,4) u cd by (auto simp: Un_assoc)
  qed
qed

section \<open>The new space\<close>

lemma entry_low:
  "e_page (addr_of f OR (e AND 0xFFF)) = f" "e_present (addr_of f OR (e AND 0xFFF)) = e_present e" "e_size (addr_of f OR (e AND 0xFFF)) = e_size e"
  "(addr_of f OR (e AND 0xFFF)) AND 0xFFF = e AND 0xFFF"
proof -
  show "e_page (addr_of f OR (e AND 0xFFF)) = f" using e_page_or [OF low_small] by simp
  show "e_present (addr_of f OR (e AND 0xFFF)) = e_present e" "e_size (addr_of f OR (e AND 0xFFF)) = e_size e"
    by (simp_all add: e_bits_or) (simp_all add: e_present_def e_size_def bit_and_iff)
  have m: "(0xFFF :: u32) = mask 12" by (simp add: mask_eq_exp_minus_1)
  show "(addr_of f OR (e AND 0xFFF)) AND 0xFFF = e AND 0xFFF"
    unfolding m using aligned_bits [OF addr_of_parts(1)] by (intro bit_word_eqI) (auto simp: bit_and_iff bit_or_iff bit_mask_iff)
qed

text \<open>The space that the new directory in frame \<open>c\<close> describes, as the processor sees it once it is entered.\<close>

definition entered :: "frame \<Rightarrow> u32 \<Rightarrow> pg \<Rightarrow> pg" where
  "entered c cpy t = t\<lparr>cr3 := addr_of c, current_page_directory := cpy\<rparr>"

lemma entered_simps [simp]:
  "ram (entered c cpy t) = ram t" "root (entered c cpy t) = c" "pmm_of (entered c cpy t) = pmm_of t" "avail (entered c cpy t) = avail t"
  "dir (entered c cpy t) = ram t c" "current_page_directory (entered c cpy t) = cpy"
  by (simp_all add: entered_def root_def dir_def avail_def)

text \<open>The base of a copy: the new directory holds the entries of the old one and itself in the last slot.\<close>

definition base :: "pg \<Rightarrow> frame \<Rightarrow> pg" where
  "base s c = fill c ((dir s)(1023 := addr_of c OR ucast (PAGE_PRESENT OR PAGE_WRITABLE))) s"

lemma base_same:
  assumes "not_table s c"
  shows "dir (base s c) = dir s" "tab (base s c) = tab s" "tabled (base s c) = tabled s" "root (base s c) = root s" "avail (base s c) = avail s"
    "utabs (base s c) = utabs s" "ktab (base s c) = ktab s" "\<And>p. fst p \<in> utabs s \<Longrightarrow> uent (base s c) p = uent s p" "upages (base s c) = upages s"
    "not_table (base s c) = not_table s" "\<And>va. PDE va \<noteq> 1023 \<Longrightarrow> mmu (base s c) va = mmu s va"
proof -
  show t: "dir (base s c) = dir s" "tab (base s c) = tab s" "tabled (base s c) = tabled s" using fill_tables [OF assms] by (simp_all add: base_def)
  show r: "root (base s c) = root s" "avail (base s c) = avail s" by (simp_all add: base_def)
  show u: "utabs (base s c) = utabs s" by (simp add: utabs_def t)
  show "ktab (base s c) = ktab s" by (simp add: ktab_def t)
  show e: "uent (base s c) p = uent s p" if "fst p \<in> utabs s" for p
  proof -
    have "tab s (fst p) \<noteq> c" using that assms by (auto simp: utabs_def not_table_def)
    then have "ram (base s c) (tab s (fst p)) = ram s (tab s (fst p))" by (simp add: base_def)
    then show ?thesis by (simp add: uent_def t)
  qed
  show "upages (base s c) = upages s" using e by (auto simp: upages_def u)
  show "not_table (base s c) = not_table s" by (simp add: fun_eq_iff not_table_def t r)
  show "mmu (base s c) va = mmu s va" if "PDE va \<noteq> 1023" for va using mmu_fill_frame [OF assms that] by (simp add: base_def)
qed

lemma clone_ok_base:
  assumes "clone_ok s c cpy a b"
  shows "clone_ok (base s c) c cpy a b"
proof -
  have nc: "not_table s c" and ok: "pg_ok s" using assms by (simp_all add: clone_ok_def)
  note same = base_same [OF nc]
  have "first_free (base s c) x y" if "first_free s x y" for x y
    using same(3,11) by (intro first_free_mono [OF that]) auto
  moreover have "pg_ok (base s c)" using pg_ok_fill [OF ok nc] by (simp add: base_def)
  moreover have "first_free_address (base s c) = first_free_address s" by (simp add: base_def)
  moreover have "\<forall>p \<in> upages s. uent (base s c) p = uent s p" using same(8) by (simp add: upages_def)
  moreover have "small (base s c) = small s" by (simp add: fun_eq_iff small_def same)
  ultimately show ?thesis using assms by (simp add: clone_ok_def same)
qed

text \<open>The old space is as it was.\<close>

lemma old_space:
  assumes o: "clone_ok s c cpy a b" and cp: "cp (base s c) c a None (utabs s) (upages s) G H t"
  shows "PDE va \<noteq> 1023 \<Longrightarrow> mmu t va = mmu s va" and "f \<notin> avail s \<Longrightarrow> f \<noteq> c \<Longrightarrow> f \<notin> ktab s \<Longrightarrow> ram t f = ram s f"
proof -
  have nc: "not_table s c" and fa: "first_free s (first_free_address s) a" using o by (auto simp: clone_ok_def)
  note sb = base_same [OF nc]
  show "mmu t va = mmu s va" if "PDE va \<noteq> 1023"
    using cp_mmu [OF cp that] sb(11) [OF that] first_free_parts(3) [OF fa] mmu_cong [of va a s] same_page [of va a] by simp
  assume f: "f \<notin> avail s" "f \<noteq> c" "f \<notin> ktab s"
  then have "ram t f = ram (base s c) f" using cp_ram [OF cp f(2)] cp_fresh [OF cp] sb(5,7) by blast
  then show "ram t f = ram s f" using f(2) by (simp add: base_def)
qed

lemma inj_on_mix:
  assumes "inj_on G U" and "G ` U \<subseteq> A" and "\<And>i. i \<in> I \<Longrightarrow> f i \<notin> A" and "inj_on f I"
  shows "inj_on (\<lambda>i. if i \<in> U then G i else f i) I"
proof (rule inj_onI)
  fix i k
  assume ik: "i \<in> I" "k \<in> I" "(if i \<in> U then G i else f i) = (if k \<in> U then G k else f k)"
  have "i \<in> U \<longleftrightarrow> k \<in> U" using ik assms(2) assms(3) [of i] assms(3) [of k] by (auto split: if_splits)
  then show "i = k" using ik assms(1,4) by (auto simp: inj_on_def split: if_splits)
qed

lemma new_space:
  assumes o: "clone_ok s c cpy a b" and cp: "cp (base s c) c a None (utabs s) (upages s) G H t" and cy: "768 \<le> PDE cpy"
  defines "n \<equiv> entered c cpy t"
  shows "pg_ok n" and "PDE va \<noteq> 1023 \<Longrightarrow> 768 \<le> PDE va \<Longrightarrow> mmu n va = mmu s va"
    and "PDE va < 768 \<Longrightarrow> mmu n va = (if (PDE va, PTE va) \<in> upages s then Some (H (PDE va, PTE va)) else None)"
    and "p \<in> upages s \<Longrightarrow> uent n p AND 0xFFF = uent s p AND 0xFFF"
    and "tabled n = tabled s" and "i \<in> utabs s \<Longrightarrow> tab n i = G i"
    and "fst p \<in> utabs s \<Longrightarrow> uent n p = (if p \<in> upages s then addr_of (H p) OR (uent s p AND 0xFFF) else 0)"
    and "i < 768 \<Longrightarrow> small n i"
proof -
  have nc: "not_table s c" "c \<notin> avail s" and ok: "pg_ok s" using o by (simp_all add: clone_ok_def)
  note sb = base_same [OF nc(1)]
  note same = cp_same [OF cp]
  have sm: "small s i" if "i < 768" for i using o that by (simp add: clone_ok_def)
  have rc: "ram t c i = (if i \<in> utabs s then addr_of (G i) OR (dir s i AND 0xFFF) else if i = 1023 then addr_of c OR ucast (PAGE_PRESENT OR PAGE_WRITABLE) else dir s i)" for i
    using cp by (simp add: cp_def sb) (simp add: base_def)
  have dn: "dir n = ram t c" "root n = c" "ram n = ram t" "avail n = avail t" by (simp_all add: n_def)
  have gu: "1023 \<notin> utabs s" by (simp add: utabs_def)
  have tn: "tabled n i \<longleftrightarrow> tabled s i" for i
    using sm [of i] by (auto simp: tabled_def dn rc entry_low utabs_def small_def)
  have tu: "tab n i = G i" if "i \<in> utabs s" for i using that by (simp add: tab_def dn rc entry_low)
  then show "i \<in> utabs s \<Longrightarrow> tab n i = G i" .
  show "tabled n = tabled s" by (simp add: fun_eq_iff tn)
  show "small n i" if "i < 768" for i
  proof -
    have "i \<noteq> 1023" using that by auto
    then show ?thesis using sm [OF that] by (simp add: small_def dn rc entry_low)
  qed
  show ue: "uent n p = (if p \<in> upages s then addr_of (H p) OR (uent s p AND 0xFFF) else 0)" if "fst p \<in> utabs s" for p
    using cp that sb(8) by (cases p) (simp add: uent_def [of n] tu dn cp_def)
  have tk: "tab n i = tab s i" if "i \<notin> utabs s" "i \<noteq> 1023" for i using that by (simp add: tab_def dn rc)
  have t3: "tab n 1023 = c" "e_present (dir n 1023)" "\<not> e_size (dir n 1023)"
    using gu kernel_entry [of c] by (simp_all add: tab_def dn rc e_bits_or) (simp add: e_size_def PAGE_PRESENT_def PAGE_WRITABLE_def)
  have fr: "G ` utabs s \<subseteq> avail s" "avail t = avail s - (G ` utabs s \<union> H ` upages s)" "inj_on G (utabs s)"
    using cp by (simp_all add: cp_def sb)
  show kern: "mmu n va = mmu s va" if "PDE va \<noteq> 1023" "768 \<le> PDE va" for va
  proof -
    have nu: "PDE va \<notin> utabs s" using that(2) by (auto simp: utabs_def not_le [symmetric])
    have mt: "mmu t va = mmu s va" 
      using cp_mmu [OF cp that(1)] o mmu_cong [of va a s] same_page [of va a] sb(11) [OF that(1)] by (auto simp: clone_ok_def first_free_def)
    show ?thesis
    proof (cases "tabled s (PDE va)")
      case True
      then have "mmu n va = mmu t va" using mmu_tabled [of n va] mmu_tabled [of t va] tk [OF nu that(1)] tn same sb dn by simp
      then show ?thesis using mt by simp
    next
      case False
      then have "mmu n va = mmu s va" using mmu_untabled [of n va] mmu_untabled [of s va] tn that(1) nu by (simp add: dn rc)
      then show ?thesis .
    qed
  qed
  show user: "mmu n va = (if (PDE va, PTE va) \<in> upages s then Some (H (PDE va, PTE va)) else None)" if "PDE va < 768" for va
  proof (cases "PDE va \<in> utabs s")
    case True
    then have "ram n (tab n (PDE va)) (PTE va) = (if (PDE va, PTE va) \<in> upages s then addr_of (H (PDE va, PTE va)) OR (uent s (PDE va, PTE va) AND 0xFFF) else 0)"
      using cp sb(8) by (simp add: tu dn cp_def)
    moreover have "tabled n (PDE va)" using True tn by (simp add: utabs_def)
    moreover have "\<not> e_present 0" by (simp add: e_present_def)
    ultimately show ?thesis using mmu_tabled [of n va] by (auto simp: entry_low upages_def)
  next
    case False
    then have "\<not> e_present (dir s (PDE va))" using small_cases [OF sm [OF that]] that by (auto simp: utabs_def)
    moreover have "PDE va \<noteq> 1023" using that by auto
    ultimately have "\<not> e_present (dir n (PDE va))" using False by (simp add: dn rc)
    then show ?thesis using mmu_absent [of n va] False by (simp add: upages_def)
  qed
  show "uent n p AND 0xFFF = uent s p AND 0xFFF" if "p \<in> upages s"
  proof -
    have i: "fst p \<in> utabs s" using that by (simp add: upages_def)
    then show ?thesis using ue [OF i] that by (simp add: entry_low)
  qed
  have cpyn: "mmu n cpy = Some c" "aligned cpy" "PDE cpy \<noteq> 1023" using kern [of cpy] o cy by (auto simp: clone_ok_def)
  have inj: "inj_on (tab n) {i. tabled n i}"
  proof -
    have "inj_on (\<lambda>i. if i \<in> utabs s then G i else tab s i) {i. tabled s i}"
      using fr(1,3) tables_distinct(3) [OF ok] ok by (intro inj_on_mix [where A = "avail s"]) (auto simp: pg_ok_def)
    moreover have "tab n i = (if i \<in> utabs s then G i else tab s i)" if "tabled s i" for i
      using that tu [of i] tk [of i] tabled_small(3) [OF that] by simp
    ultimately show ?thesis by (simp add: tn inj_on_def)
  qed
  have "tab n i \<noteq> c \<and> tab n i \<notin> avail t" if "tabled n i" for i
  proof -
    have "tabled s i" "i \<noteq> 1023" using that tabled_small(3) by (auto simp: tn)
    then show ?thesis
      using tu [of i] tk [of i] fr(1,2) nc tables_distinct(3) [OF ok, of i] by (cases "i \<in> utabs s") (auto simp: not_table_def)
  qed
  moreover have "pg_ok t" using cp by (simp add: cp_def)
  then have "pmm_inv (pmm_of n)" "0 \<notin> avail n" by (simp_all add: n_def pg_ok_def)
  moreover have "c \<notin> avail n" using nc(2) fr(2) by (simp add: n_def)
  moreover have "current_page_directory n = cpy" by (simp add: n_def)
  ultimately show "pg_ok n" using inj cpyn t3 by (simp add: pg_ok_def dn)
qed

section \<open>Properties\<close>

lemma user_slots_spec: "set user_slots = {i. i < 768}" "distinct user_slots"
proof -
  have u: "user_slots = slots 768" by (simp add: user_slots_def PDE_def VIRTUAL_BASE_def)
  show "distinct user_slots" by (simp add: u distinct_slots)
  have "i \<in> of_nat ` {0..<768}" if "i < 768" for i :: slot
  proof (rule image_eqI)
    show "i = of_nat (unat i)" "unat i \<in> {0..<768}" using that by (simp_all add: word_less_nat_alt)
  qed
  moreover have "of_nat k < (768 :: slot)" if "k < 768" for k using that by (simp add: word_less_nat_alt unat_of_nat)
  ultimately show "set user_slots = {i. i < 768}" by (auto simp: u slots_def)
qed

lemma set_directory_current:
  assumes "pg_ok s" and "tabled s (PDE (current_page_directory s))" and "root s \<noteq> 0" and "current_page_directory s \<noteq> 0"
  shows "k_mem_paging_set_page_directory (current_page_directory s) 0 s = Some s"
  using is_mapped_spec(1) [OF assms(1,2) dir_mapped(2) [OF assms(1)]] dir_mapped(1) [OF assms(1)] assms(3,4)
  by (simp add: k_mem_paging_set_page_directory_def)

text \<open>The run of the whole copy: the state afterwards, in the terms of a copy under way.\<close>

lemma clone_run:
  assumes o: "clone_ok s c cpy a b" and cy: "768 \<le> PDE cpy" "tabled s (PDE cpy)"
    and src: "src = 0 \<or> src = current_page_directory s" "tabled s (PDE (current_page_directory s))" "root s \<noteq> 0" "current_page_directory s \<noteq> 0"
    and room: "card (utabs s) + card (upages s) \<le> card (avail s)"
  shows "\<exists>G H t. k_mem_paging_clone_page_directory src cpy s = Some (addr_of c, t) \<and>
    cp (base s c) c a None (utabs s) (upages s) G H t \<and> card (avail t) = card (avail s) - (card (utabs s) + card (upages s))"
proof -
  have ok: "pg_ok s" and nc: "not_table s c" "c \<notin> avail s" and m: "mmu s cpy = Some c" "aligned cpy" "PDE cpy \<noteq> 1023"
    and fa: "first_free s (first_free_address s) a" using o by (auto simp: clone_ok_def)
  define s1 where "s1 = base s c"
  note sb = base_same [OF nc(1), folded s1_def]
  have o1: "clone_ok s1 c cpy a b" using clone_ok_base [OF o] by (simp add: s1_def)
  have ok1: "pg_ok s1" using o1 by (simp add: clone_ok_def)
  have cur: "current_page_directory s1 = current_page_directory s" "first_free_address s1 = first_free_address s" by (simp_all add: s1_def base_def)
  have "copy_page cpy (current_page_directory s) s = Some (fill c (dir s) s)"
    unfolding dir_def using nc(1) m(1,2,3) dir_mapped [OF ok] cy(2) src(2) ok by (intro copy_page_spec) (auto simp: not_table_def pg_ok_def)
  moreover have "wr (cpy + 4 * 1023) (addr_of c OR ucast (PAGE_PRESENT OR PAGE_WRITABLE)) (fill c (dir s) s) = Some s1"
    using wr_in_page [OF m(2), of "fill c (dir s) s" c 1023] mmu_fill_frame [OF nc(1) m(3), of "dir s"] m(1) by (simp add: s1_def base_def)
  moreover have "k_mem_paging_virt2phys s cpy = Some (addr_of c)" using is_mapped_spec(1) [OF ok cy(2) m(2)] m(1) by simp
  moreover have set1: "k_mem_paging_set_page_directory (current_page_directory s) 0 s1 = Some s1"
    using set_directory_current [OF ok1] src sb cur by simp
  moreover obtain G H t where t: "for_slots (clone_table (current_page_directory s) cpy) user_slots s1 = Some t"
      "cp s1 c a None (utabs s) (upages s) G H t" "card (avail t) = card (avail s) - (card (utabs s) + card (upages s))"
  proof -
    have u: "utabs s1 \<inter> set user_slots = utabs s" "upages_in s1 (set user_slots) = upages s"
      using sb user_slots_spec by (auto simp: utabs_def upages_in_def upages_def)
    then show ?thesis
      using that clone_tables [OF o1 cp_start [OF o1] user_slots_spec(2)] room user_slots_spec(1) fa sb(5) cur o1 by (auto simp: clone_ok_def)
  qed
  moreover have "k_mem_paging_set_page_directory (current_page_directory s) 0 t = Some t"
    using set_directory_current [of t] src cp_same [OF t(2)] t(2) sb cur by (simp add: cp_def)
  ultimately have run: "k_mem_paging_clone_page_directory src cpy s = Some (addr_of c, t)"
    using src(1,4) cur by (auto simp: k_mem_paging_clone_page_directory_def Let_def)
  with t(2,3) show ?thesis by (auto simp: s1_def)
qed

text \<open>
  Under the assumption that every flush of a page takes effect: copying the current address space ends when there are
  frames for its tables and pages and two free pages for the kernel to write them through. In the new space every address
  of the user is mapped exactly when it was mapped before, to a frame of its own that was free, with the same permissions
  and the same contents; the addresses of the kernel are mapped as before. The old space, and every frame that was in use,
  is unchanged, and the number of frames taken is that of the tables and pages of the user.
\<close>

theorem clone_copies_the_space:
  assumes o: "clone_ok s c cpy a b" and cy: "768 \<le> PDE cpy" "tabled s (PDE cpy)"
    and src: "src = 0 \<or> src = current_page_directory s" "tabled s (PDE (current_page_directory s))" "root s \<noteq> 0" "current_page_directory s \<noteq> 0"
    and room: "card (utabs s) + card (upages s) \<le> card (avail s)"
  shows "\<exists>t. k_mem_paging_clone_page_directory src cpy s = Some (addr_of c, t) \<and> pg_ok t \<and> pg_ok (entered c cpy t) \<and>
    (\<forall>va. PDE va \<noteq> 1023 \<longrightarrow> mmu t va = mmu s va) \<and> (\<forall>f. f \<notin> avail s \<longrightarrow> f \<noteq> c \<longrightarrow> f \<notin> ktab s \<longrightarrow> ram t f = ram s f) \<and>
    (\<forall>va. 768 \<le> PDE va \<longrightarrow> PDE va \<noteq> 1023 \<longrightarrow> mmu (entered c cpy t) va = mmu s va) \<and>
    (\<forall>va. PDE va < 768 \<longrightarrow> (case mmu s va of None \<Rightarrow> mmu (entered c cpy t) va = None
       | Some f \<Rightarrow> \<exists>g \<in> avail s - avail t. mmu (entered c cpy t) va = Some g \<and> ram t g = ram s f)) \<and>
    (\<forall>va vb. PDE va < 768 \<longrightarrow> PDE vb < 768 \<longrightarrow> mmu (entered c cpy t) va \<noteq> None \<longrightarrow>
       mmu (entered c cpy t) va = mmu (entered c cpy t) vb \<longrightarrow> e_page va = e_page vb) \<and>
    (\<forall>p \<in> upages s. uent (entered c cpy t) p AND 0xFFF = uent s p AND 0xFFF) \<and>
    card (avail t) = card (avail s) - (card (utabs s) + card (upages s))"
proof -
  obtain G H t where run: "k_mem_paging_clone_page_directory src cpy s = Some (addr_of c, t)"
      and cp: "cp (base s c) c a None (utabs s) (upages s) G H t" and cd: "card (avail t) = card (avail s) - (card (utabs s) + card (upages s))"
    using clone_run [OF assms] by blast
  have ok: "pg_ok s" and nc: "not_table s c" "c \<notin> avail s" and fa: "first_free s (first_free_address s) a" using o by (auto simp: clone_ok_def)
  note sb = base_same [OF nc(1)]
  let ?n = "entered c cpy t"
  note sp = new_space [OF o cp cy(1)]
  note mt = old_space(1) [OF o cp] and kept = old_space(2) [OF o cp]
  have fr: "avail t = avail s - (G ` utabs s \<union> H ` upages s)" "H ` upages s \<subseteq> avail s" "inj_on H (upages s)" "pg_ok t"
    using cp by (simp_all add: cp_def sb)
  have user: "case mmu s va of None \<Rightarrow> mmu ?n va = None | Some f \<Rightarrow> \<exists>g \<in> avail s - avail t. mmu ?n va = Some g \<and> ram t g = ram s f" if "PDE va < 768" for va
  proof (cases "(PDE va, PTE va) \<in> upages s")
    case True
    let ?p = "(PDE va, PTE va)"
    have "mmu s va = Some (e_page (uent s ?p))" using user_page_mmu [OF ok True] mmu_cong [of va "ADDR (PDE va) (PTE va)" s] by simp
    moreover have "mmu ?n va = Some (H ?p)" using sp(3) [OF that] True by simp
    moreover have "ram t (H ?p) = ram s (e_page (uent s ?p))"
    proof -
      have "uent (base s c) ?p = uent s ?p" using sb(8) [of ?p] True by (simp add: upages_def)
      then have "ram t (H ?p) = ram (base s c) (e_page (uent s ?p))" using cp True by (simp add: cp_def)
      then show ?thesis using clone_page_frame [OF o True] by (simp add: base_def)
    qed
    moreover have "H ?p \<in> avail s - avail t" using fr True by auto
    ultimately show ?thesis by auto
  next
    case False
    have "mmu s va = None"
    proof (cases "PDE va \<in> utabs s")
      case True
      then show ?thesis using False mmu_tabled [of s va] by (simp add: upages_def uent_def utabs_def)
    next
      case n: False
      then have "\<not> e_present (dir s (PDE va))" using small_cases [of s "PDE va"] o that by (auto simp: utabs_def clone_ok_def)
      then show ?thesis by (rule mmu_absent)
    qed
    then show ?thesis using sp(3) [OF that] False by simp
  qed
  have own: "e_page va = e_page vb" if "PDE va < 768" "PDE vb < 768" "mmu ?n va \<noteq> None" "mmu ?n va = mmu ?n vb" for va vb
    using that sp(3) [OF that(1)] sp(3) [OF that(2)] fr(3) same_page [of va vb] by (auto simp: inj_on_def split: if_splits)
  show ?thesis
    using run sp(1,2,4) mt kept user own cd fr(4) by (intro exI [of _ t] conjI) blast+
qed

text \<open>The small machine is in such a situation, with the new directory in frame 3.\<close>

lemma pages_in_steps:
  assumes "aligned v" and "unat x = 4096 * n" and "x \<le> v" and "unat v < 4096 * (n + k)"
  shows "\<exists>d < k. unat v = 4096 * (n + d)"
proof -
  obtain q where q: "unat v = 4096 * q" using assms(1) by (auto simp: aligned_def elim!: dvdE)
  then have "n \<le> q" "q < n + k" using assms(2-4) by (simp_all add: word_le_nat_alt)
  then show ?thesis using q by (intro exI [of _ "q - n"]) simp
qed

lemma demo_unmapped: "mmu demo 0xC1002000 = None" "mmu demo 0xC1003000 = None"
  by (simp_all add: mmu_def demo_def Let_def PDE_def PTE_def e_present_def e_size_def e_page_def)

lemma demo_first_free: "first_free demo 0xC1000000 0xC1002000" "first_free demo 0xC1003000 0xC1003000"
proof -
  have p: "PDE 0xC1000000 = 772" "PDE 0xC1001000 = 772" "PDE 0xC1002000 = 772" "PDE 0xC1003000 = 772" by (simp_all add: PDE_def)
  have "tabled demo (PDE v) \<and> mmu demo v \<noteq> None \<and> mmu demo v \<noteq> Some 0" if v: "aligned v" "0xC1000000 \<le> v" "v < 0xC1002000" for v
  proof -
    obtain d where "d < 2" "unat v = 4096 * (0xC1000 + d)"
      using pages_in_steps [OF v(1), of "0xC1000000" "0xC1000" 2] v(2,3) by (auto simp: word_less_nat_alt)
    then have "v = 0xC1000000 \<or> v = 0xC1001000" by (auto simp: less_2_cases_iff intro!: word_unatI)
    then show ?thesis using demo_mmu p demo_tabled by auto
  qed
  then show "first_free demo 0xC1000000 0xC1002000"
    using demo_unmapped p demo_tabled by (simp add: first_free_def aligned_def LOWMEM_START_def LOWMEM_END_def)
  have "first_free s a a" if "aligned a" "LOWMEM_START \<le> a" "a < LOWMEM_END" "tabled s (PDE a)" "mmu s a = None" for s a
    using that by (auto simp: first_free_def)
  from this [of "0xC1003000" demo] show "first_free demo 0xC1003000 0xC1003000"
    using demo_unmapped(2) p(4) demo_tabled by (simp add: aligned_def LOWMEM_START_def LOWMEM_END_def)
qed

lemma demo_user: "utabs demo = {1}" "upages demo = {(1, 0)}" "uent demo (1, 0) = 0x5007" "ktab demo = {2}"
proof -
  show u: "utabs demo = {1}" by (auto simp: utabs_def demo_tabled)
  have r: "ram demo 4 = (\<lambda>_. 0)(0 := 0x5007)" by (simp add: demo_def)
  then show "uent demo (1, 0) = 0x5007" by (simp add: uent_def demo_tab)
  show "upages demo = {(1, 0)}" by (auto simp: upages_def u uent_def demo_tab r e_present_def split: if_splits)
  have "{i. 768 \<le> i \<and> tabled demo i} = {772}" by (auto simp: demo_tabled word_le_nat_alt)
  then show "ktab demo = {2}" by (simp add: ktab_def demo_tab)
qed

lemma demo_clone_ok: "clone_ok demo 3 0xC1001000 0xC1002000 0xC1003000"
proof -
  have "not_table demo 3" by (auto simp: not_table_def demo_root demo_tabled demo_tab)
  moreover have "small demo i" if "i < 768" for i using that by (auto simp: small_def demo_dir e_present_def e_size_def)
  moreover have "first_free_address demo = 0xC1000000" by (simp add: demo_def LOWMEM_START_def)
  moreover have "\<forall>p \<in> upages demo. e_page (uent demo p) \<notin> avail demo \<and> e_page (uent demo p) \<noteq> 3 \<and> e_page (uent demo p) \<notin> ktab demo"
    by (simp add: demo_user demo_avail e_page_def)
  moreover have "(3 :: frame) \<notin> avail demo" by (simp add: demo_avail)
  moreover have "aligned 0xC1001000" "PDE 0xC1001000 \<noteq> 1023" by (simp_all add: aligned_def PDE_def)
  ultimately show ?thesis using demo_ok demo_mmu(2) demo_first_free by (simp add: clone_ok_def)
qed

lemma demo_room: "card (utabs demo) + card (upages demo) \<le> card (avail demo)"
proof -
  have "{8, 9} \<subseteq> avail demo" by (simp add: demo_avail)
  then have "card {8, 9 :: frame} \<le> card (avail demo)" by (intro card_mono) simp_all
  then show ?thesis by (simp add: demo_user)
qed

theorem clone_copies_the_space_witness:
  "\<exists>t g. k_mem_paging_clone_page_directory 0 0xC1001000 demo = Some (addr_of 3, t) \<and>
     mmu (entered 3 0xC1001000 t) 0x400000 = Some g \<and> g \<noteq> 5 \<and> ram t g 7 = 42 \<and> mmu t 0x400000 = Some 5"
proof -
  have p: "768 \<le> PDE 0xC1001000" "tabled demo (PDE 0xC1001000)" "tabled demo (PDE (current_page_directory demo))"
      "root demo \<noteq> 0" "current_page_directory demo \<noteq> 0" "PDE 0x400000 = 1"
    using demo_tabled demo_root by (simp_all add: PDE_def demo_def)
  obtain t where t: "k_mem_paging_clone_page_directory 0 0xC1001000 demo = Some (addr_of 3, t)"
      "\<forall>va. PDE va \<noteq> 1023 \<longrightarrow> mmu t va = mmu demo va"
      "\<forall>va. PDE va < 768 \<longrightarrow> (case mmu demo va of None \<Rightarrow> mmu (entered 3 0xC1001000 t) va = None
         | Some f \<Rightarrow> \<exists>g \<in> avail demo - avail t. mmu (entered 3 0xC1001000 t) va = Some g \<and> ram t g = ram demo f)"
    using clone_copies_the_space [OF demo_clone_ok p(1,2) _ p(3-5) demo_room, of 0] by auto
  obtain g where g: "g \<in> avail demo" "mmu (entered 3 0xC1001000 t) 0x400000 = Some g" "ram t g = ram demo 5"
    using t(3) [rule_format, of "0x400000"] demo_mmu(3) p(6) by auto
  have "ram demo 5 7 = 42" by (simp add: demo_def)
  moreover have "g \<noteq> 5" using g(1) by (auto simp: demo_avail)
  moreover have "mmu t 0x400000 = Some 5" using t(2) demo_mmu(3) p(6) by simp
  ultimately show ?thesis using t(1) g(2,3) by auto
qed

end
