(* ===== verification/Paging_Release.thy ===== *)
theory Paging_Release
  imports Paging_Clone
begin

text \<open>
  Releasing an address space gives exactly its tables and pages back, so that a copy that is released leaves the frame
  allocator as it was, if the flushes of pages during the copy take effect (see \<open>Paging_Clone\<close>). The theory ends with what the code does outside of the situations of these theorems: the
  search of \<open>k_map\<close> for several pages, the set-up of the tables at boot, and frames above 2 GiB.
\<close>

section \<open>Reading is independent of the frame allocator\<close>

lemma rd_pmm [simp]: "rd (s\<lparr>pmm_of := q\<rparr>) va = rd s va"
  by (simp add: rd_def)

lemma pmm_again [simp]: "s\<lparr>pmm_of := p, pmm_of := q\<rparr> = s\<lparr>pmm_of := q\<rparr>"
  by simp

lemma page_frame_low:
  assumes "unat (e_page e) < 2 ^ 19"
  shows "page_frame e = ucast (addr_of (e_page e))"
proof -
  have u: "unat (addr_of (e_page e)) < 2 ^ 31" using assms by (simp add: unat_addr_of)
  then have "\<not> bit (unat (addr_of (e_page e))) 31" by (simp add: bit_iff_odd)
  then have nb: "\<not> bit (addr_of (e_page e)) 31" by (simp add: bit_unsigned_iff)
  then have "\<not> bit (addr_of (e_page e)) n" if "31 \<le> n" for n using bit_imp_le_length [of "addr_of (e_page e)" n] that by (cases "n = 31") auto
  then have "(scast (addr_of (e_page e)) :: u64) = ucast (addr_of (e_page e))"
    by (intro bit_word_eqI) (auto simp: bit_signed_iff bit_unsigned_iff min_def nb)
  then show ?thesis by (simp add: page_frame_def addr_of_def)
qed

section \<open>Releasing a space\<close>

lemma free_frame:
  assumes "pmm_inv p" and "e_page e \<notin> avail (n\<lparr>pmm_of := p\<rparr>)" and "unat (e_page e) < 2 ^ 19"
  shows "\<exists>q. pg_free (page_frame e) (n\<lparr>pmm_of := p\<rparr>) = Some (n\<lparr>pmm_of := q\<rparr>) \<and> pmm_inv q \<and>
    avail (n\<lparr>pmm_of := q\<rparr>) = insert (e_page e) (avail (n\<lparr>pmm_of := p\<rparr>))"
  using pg_free_spec [of "n\<lparr>pmm_of := p\<rparr>" "e_page e"] assms by (simp add: page_frame_low)

text \<open>The frames of the user's pages and tables in a space, each used once and below 2 GiB.\<close>

definition page_of :: "pg \<Rightarrow> slot \<times> slot \<Rightarrow> frame" where
  "page_of n p = e_page (uent n p)"

definition user_frames :: "pg \<Rightarrow> frame set" where
  "user_frames n = tab n ` utabs n \<union> page_of n ` upages n"

definition frames_once :: "pg \<Rightarrow> bool" where
  "frames_once n \<longleftrightarrow> inj_on (tab n) (utabs n) \<and> inj_on (page_of n) (upages n) \<and> tab n ` utabs n \<inter> page_of n ` upages n = {} \<and>
     user_frames n \<inter> avail n = {} \<and> (\<forall>f \<in> user_frames n. unat f < 2 ^ 19)"

lemma release_pages:
  assumes ok: "pg_ok n" and i: "i \<in> utabs n" and o: "frames_once n"
  shows "pmm_inv p \<Longrightarrow> distinct js \<Longrightarrow> avail (n\<lparr>pmm_of := p\<rparr>) \<inter> page_of n ` pages_at n i (set js) = {} \<Longrightarrow>
    \<exists>q. for_slots (release_page i) js (n\<lparr>pmm_of := p\<rparr>) = Some (n\<lparr>pmm_of := q\<rparr>) \<and> pmm_inv q \<and>
      avail (n\<lparr>pmm_of := q\<rparr>) = avail (n\<lparr>pmm_of := p\<rparr>) \<union> page_of n ` pages_at n i (set js)"
proof (induction js arbitrary: p)
  case Nil
  then show ?case by (auto simp: pages_at_def)
next
  case (Cons j js)
  have ti: "tabled n i" using i by (simp add: utabs_def)
  have r: "rd n (PT_PTR i + 4 * ucast j) = Some (uent n (i, j))" using window_get [OF ok] tabled_small(2) [OF ti] by (simp add: uent_def)
  show ?case
  proof (cases "(i, j) \<in> upages n")
    case False
    then have "release_page i j (n\<lparr>pmm_of := p\<rparr>) = Some (n\<lparr>pmm_of := p\<rparr>)" using r i by (simp add: release_page_def upages_def)
    moreover have "pages_at n i (set (j # js)) = pages_at n i (set js)" using False by (auto simp: pages_at_def)
    ultimately show ?thesis using Cons.IH [OF Cons.prems(1)] Cons.prems by simp
  next
    case True
    have e: "pages_at n i (set (j # js)) = insert (i, j) (pages_at n i (set js))" using True by (auto simp: pages_at_def)
    have ni: "page_of n (i, j) \<notin> page_of n ` pages_at n i (set js)"
    proof -
      have "(i, j) \<notin> pages_at n i (set js)" "pages_at n i (set js) \<subseteq> upages n" using Cons.prems(2) by (auto simp: pages_at_def)
      then show ?thesis using o True inj_on_image_mem_iff [of "page_of n" "upages n" "(i, j)"] by (simp add: frames_once_def)
    qed
    have "page_of n (i, j) \<notin> avail (n\<lparr>pmm_of := p\<rparr>)" using Cons.prems(3) e by auto
    moreover have "unat (page_of n (i, j)) < 2 ^ 19" using o True by (auto simp: frames_once_def user_frames_def)
    ultimately obtain q where q: "pg_free (page_frame (uent n (i, j))) (n\<lparr>pmm_of := p\<rparr>) = Some (n\<lparr>pmm_of := q\<rparr>)" "pmm_inv q"
        "avail (n\<lparr>pmm_of := q\<rparr>) = insert (page_of n (i, j)) (avail (n\<lparr>pmm_of := p\<rparr>))"
      using free_frame [OF Cons.prems(1), of "uent n (i, j)" n] by (auto simp: page_of_def)
    have "release_page i j (n\<lparr>pmm_of := p\<rparr>) = Some (n\<lparr>pmm_of := q\<rparr>)" using r True q(1) by (simp add: release_page_def upages_def)
    moreover have "avail (n\<lparr>pmm_of := q\<rparr>) \<inter> page_of n ` pages_at n i (set js) = {}" using q(3) ni Cons.prems(3) e by auto
    ultimately show ?thesis using Cons.IH [OF q(2)] Cons.prems(2) q(3) e by auto
  qed
qed

definition frames_in :: "pg \<Rightarrow> slot set \<Rightarrow> frame set" where
  "frames_in n I = tab n ` (utabs n \<inter> I) \<union> page_of n ` upages_in n I"

lemma release_tables:
  assumes ok: "pg_ok n" and sm: "\<And>i. i < 768 \<Longrightarrow> small n i" and o: "frames_once n"
  shows "pmm_inv p \<Longrightarrow> distinct is \<Longrightarrow> (\<forall>i \<in> set is. i < 768) \<Longrightarrow> avail (n\<lparr>pmm_of := p\<rparr>) \<inter> frames_in n (set is) = {} \<Longrightarrow>
    \<exists>q. for_slots (release_table (current_page_directory n)) is (n\<lparr>pmm_of := p\<rparr>) = Some (n\<lparr>pmm_of := q\<rparr>) \<and> pmm_inv q \<and>
      avail (n\<lparr>pmm_of := q\<rparr>) = avail (n\<lparr>pmm_of := p\<rparr>) \<union> frames_in n (set is)"
proof (induction "is" arbitrary: p)
  case Nil
  then show ?case by (auto simp: frames_in_def upages_in_def)
next
  case (Cons i "is")
  have r: "rd n (current_page_directory n + 4 * ucast i) = Some (dir n i)" using dir_entry_spec [OF ok, of i] by (simp add: dir_entry_def)
  show ?case
  proof (cases "i \<in> utabs n")
    case False
    moreover have "small n i" "i < 768" using sm [of i] Cons.prems(3) by simp_all
    ultimately have "\<not> e_present (dir n i)" using small_cases [of n i] by (auto simp: utabs_def)
    then have "release_table (current_page_directory n) i (n\<lparr>pmm_of := p\<rparr>) = Some (n\<lparr>pmm_of := p\<rparr>)" using r by (simp add: release_table_def)
    moreover have "frames_in n (set (i # is)) = frames_in n (set is)" using False by (auto simp: frames_in_def upages_in_def upages_def)
    ultimately show ?thesis using Cons.IH [OF Cons.prems(1)] Cons.prems by simp
  next
    case True
    let ?P = "page_of n ` pages_at n i UNIV"
    have e: "frames_in n (set (i # is)) = insert (tab n i) (?P \<union> frames_in n (set is))"
      using True by (auto simp: frames_in_def upages_in_def pages_at_def)
    have pi: "e_present (dir n i)" using True by (simp add: utabs_def tabled_def)
    have dj: "tab n i \<notin> ?P" "tab n i \<notin> frames_in n (set is)" "?P \<inter> frames_in n (set is) = {}"
    proof -
      have sub: "pages_at n i UNIV \<subseteq> upages n" "upages_in n (set is) \<subseteq> upages n" by (auto simp: pages_at_def upages_in_def)
      show "tab n i \<notin> ?P" using o True sub(1) by (auto simp: frames_once_def)
      have "i \<notin> set is" using Cons.prems(2) by simp
      then have "tab n i \<notin> tab n ` (utabs n \<inter> set is)"
        using o True inj_on_image_mem_iff [of "tab n" "utabs n" i "utabs n \<inter> set is"] by (simp add: frames_once_def)
      moreover have "tab n i \<notin> page_of n ` upages_in n (set is)" using o True sub(2) by (auto simp: frames_once_def)
      ultimately show "tab n i \<notin> frames_in n (set is)" by (simp add: frames_in_def)
      have "pages_at n i UNIV \<inter> upages_in n (set is) = {}" using \<open>i \<notin> set is\<close> by (auto simp: pages_at_def upages_in_def)
      then have "?P \<inter> page_of n ` upages_in n (set is) = {}" 
        using o inj_on_image_Int [OF _ sub, of "page_of n"] by (simp add: frames_once_def)
      moreover have "?P \<inter> tab n ` (utabs n \<inter> set is) = {}"
        using o image_mono [OF sub(1), of "page_of n"] unfolding frames_once_def by blast
      ultimately show "?P \<inter> frames_in n (set is) = {}" unfolding frames_in_def by blast
    qed
    obtain q where q: "for_slots (release_page i) (slots 1024) (n\<lparr>pmm_of := p\<rparr>) = Some (n\<lparr>pmm_of := q\<rparr>)" "pmm_inv q"
        "avail (n\<lparr>pmm_of := q\<rparr>) = avail (n\<lparr>pmm_of := p\<rparr>) \<union> ?P"
    proof -
      have "avail (n\<lparr>pmm_of := p\<rparr>) \<inter> page_of n ` pages_at n i (set (slots 1024)) = {}" using Cons.prems(4) e by auto
      from release_pages [OF ok True o Cons.prems(1) distinct_slots this] show ?thesis using that by auto
    qed
    have "tab n i \<notin> avail (n\<lparr>pmm_of := q\<rparr>)" using q(3) Cons.prems(4) e dj(1) by auto
    moreover have "unat (tab n i) < 2 ^ 19" using o True by (auto simp: frames_once_def user_frames_def)
    ultimately obtain u where u: "pg_free (page_frame (dir n i)) (n\<lparr>pmm_of := q\<rparr>) = Some (n\<lparr>pmm_of := u\<rparr>)" "pmm_inv u"
        "avail (n\<lparr>pmm_of := u\<rparr>) = insert (tab n i) (avail (n\<lparr>pmm_of := q\<rparr>))"
      using free_frame [OF q(2), of "dir n i" n] by (auto simp: tab_def)
    have run: "release_table (current_page_directory n) i (n\<lparr>pmm_of := p\<rparr>) = Some (n\<lparr>pmm_of := u\<rparr>)"
      using r pi q(1) u(1) by (simp add: release_table_def)
    have "avail (n\<lparr>pmm_of := u\<rparr>) \<inter> frames_in n (set is) = {}" using u(3) q(3) Cons.prems(4) e dj by auto
    then show ?thesis using Cons.IH [OF u(2)] Cons.prems(2,3) run u(3) q(3) e by auto
  qed
qed

lemma set_directory:
  assumes "pg_ok s" and "aligned d" and "tabled s (PDE d)" and "mmu s d = Some r" and "r \<noteq> 0" and "d \<noteq> 0"
    and "d = current_page_directory s \<Longrightarrow> cr3 s = addr_of r"
  shows "k_mem_paging_set_page_directory d 0 s = Some (entered r d s)"
  using is_mapped_spec(1) [OF assms(1,3,2)] assms(4-7) by (auto simp: k_mem_paging_set_page_directory_def entered_def)

lemma entered_back: "cr3 s = addr_of (root s) \<Longrightarrow> entered (root s) (current_page_directory s) (entered r d s \<lparr>pmm_of := q\<rparr>) = s\<lparr>pmm_of := q\<rparr>"
  by (simp add: entered_def)

lemma release_run:
  assumes "pg_ok s" and "cr3 s = addr_of (root s)" and "root s \<noteq> 0" and "current_page_directory s \<noteq> 0"
    and d: "aligned d" "tabled s (PDE d)" "mmu s d = Some r" "r \<noteq> 0" "d \<noteq> 0" "d \<noteq> current_page_directory s"
    and n: "n = entered r d s" "pg_ok n" "\<forall>i < 768. small n i" "frames_once n"
      "tabled n (PDE (current_page_directory s))" "mmu n (current_page_directory s) = Some (root s)"
  shows "\<exists>q. k_mem_paging_release_directory d s = Some (s\<lparr>pmm_of := q\<rparr>) \<and> pmm_inv q \<and> avail (s\<lparr>pmm_of := q\<rparr>) = avail s \<union> user_frames n"
proof -
  have u: "frames_in n (set user_slots) = user_frames n"
    by (auto simp: frames_in_def user_frames_def user_slots_spec upages_in_def upages_def utabs_def)
  have nn: "n\<lparr>pmm_of := pmm_of n\<rparr> = n" by simp
  have av: "avail (n\<lparr>pmm_of := q\<rparr>) = avail (s\<lparr>pmm_of := q\<rparr>)" for q by (simp add: avail_def)
  have "k_mem_paging_set_page_directory d 0 s = Some n"
    unfolding n(1) using d by (intro set_directory [OF assms(1)]) auto
  moreover obtain q where q: "for_slots (release_table d) user_slots n = Some (n\<lparr>pmm_of := q\<rparr>)" "pmm_inv q"
      "avail (n\<lparr>pmm_of := q\<rparr>) = avail n \<union> user_frames n"
  proof -
    have "pmm_inv (pmm_of n)" using n(2) by (simp add: pg_ok_def)
    moreover have "avail n \<inter> user_frames n = {}" using n(4) by (auto simp: frames_once_def)
    moreover have "current_page_directory n = d" by (simp add: n(1))
    moreover have "\<forall>i \<in> set user_slots. i < 768" "distinct user_slots" using user_slots_spec by simp_all
    moreover have "small n i" if "i < 768" for i using n(3) that by simp
    ultimately have "\<exists>q. for_slots (release_table d) user_slots n = Some (n\<lparr>pmm_of := q\<rparr>) \<and> pmm_inv q \<and> avail (n\<lparr>pmm_of := q\<rparr>) = avail n \<union> user_frames n"
      using release_tables [OF n(2) _ n(4), of "pmm_of n" user_slots] by (simp only: u nn)
    then show ?thesis using that by blast
  qed
  moreover have "k_mem_paging_set_page_directory (current_page_directory s) 0 (n\<lparr>pmm_of := q\<rparr>) = Some (s\<lparr>pmm_of := q\<rparr>)"
  proof -
    have "k_mem_paging_virt2phys (n\<lparr>pmm_of := q\<rparr>) v = k_mem_paging_virt2phys n v" for v
      unfolding k_mem_paging_virt2phys_def dir_entry_def rd_pmm by simp
    moreover have "k_mem_paging_virt2phys n (current_page_directory s) = Some (addr_of (root s))"
      using is_mapped_spec(1) [OF n(2,5) dir_mapped(2) [OF assms(1)]] n(6) by simp
    ultimately show ?thesis
      using assms(2-4) d(6) by (simp add: k_mem_paging_set_page_directory_def Let_def) (simp add: n(1) entered_def assms(2))
  qed
  ultimately have "k_mem_paging_release_directory d s = Some (s\<lparr>pmm_of := q\<rparr>)"
    using n(1) by (simp add: k_mem_paging_release_directory_def Let_def)
  then show ?thesis using q(2,3) av n(1) by auto
qed

text \<open>The frames of a copy are those it was given, each used once.\<close>

lemma copy_frames:
  assumes o: "clone_ok s c cpy a b" and cp: "cp (base s c) c a None (utabs s) (upages s) G H t" and cy: "768 \<le> PDE cpy"
    and low: "\<forall>f \<in> avail s. unat f < 2 ^ 19"
  shows "frames_once (entered c cpy t) \<and> user_frames (entered c cpy t) = G ` utabs s \<union> H ` upages s"
proof -
  have nc: "not_table s c" using o by (simp add: clone_ok_def)
  note sb = base_same [OF nc]
  define n where "n = entered c cpy t"
  note sp = new_space [OF o cp cy, folded n_def]
  have fr: "avail n = avail s - (G ` utabs s \<union> H ` upages s)" "G ` utabs s \<union> H ` upages s \<subseteq> avail s"
      "inj_on G (utabs s)" "inj_on H (upages s)" "G ` utabs s \<inter> H ` upages s = {}"
    using cp by (simp_all add: cp_def sb n_def)
  have u: "utabs n = utabs s" by (simp add: utabs_def sp(5))
  have p0: "\<not> e_present 0" by (simp add: e_present_def)
  have up: "upages n = upages s"
  proof (rule set_eqI)
    fix p
    show "p \<in> upages n \<longleftrightarrow> p \<in> upages s"
      using sp(7) [of p] p0 by (cases "p \<in> upages s") (auto simp: upages_def u entry_low)
  qed
  have tg: "tab n ` utabs n = G ` utabs s" and ti: "inj_on (tab n) (utabs n) = inj_on G (utabs s)"
    unfolding u using sp(6) by (auto intro!: inj_on_cong image_cong)
  have "page_of n p = H p" if "p \<in> upages s" for p
    using sp(7) [of p] that by (simp add: page_of_def entry_low upages_def)
  then have ph: "page_of n ` upages n = H ` upages s" "inj_on (page_of n) (upages n) = inj_on H (upages s)"
    unfolding up by (auto intro!: inj_on_cong image_cong)
  have uf: "user_frames n = G ` utabs s \<union> H ` upages s" by (simp add: user_frames_def tg ph)
  have "frames_once n" unfolding frames_once_def uf unfolding tg ti ph using fr low by auto
  then show ?thesis using uf by (simp add: n_def)
qed

section \<open>Properties\<close>

text \<open>
  Under the assumption that every flush of a page takes effect while the copy is made: a copy of the current address space
  that is released again leaves every address mapped as before, every frame that was in use as it was, and gives back
  every frame it took, on a machine whose free frames lie below 2 GiB.
\<close>

theorem clone_release_roundtrip:
  assumes o: "clone_ok s c cpy a b" and cy: "768 \<le> PDE cpy" "tabled s (PDE cpy)" "cpy \<noteq> 0" "c \<noteq> 0" "cpy \<noteq> current_page_directory s"
    and src: "tabled s (PDE (current_page_directory s))" "768 \<le> PDE (current_page_directory s)" "root s \<noteq> 0" "current_page_directory s \<noteq> 0"
      "cr3 s = addr_of (root s)"
    and room: "card (utabs s) + card (upages s) \<le> card (avail s)" and low: "\<forall>f \<in> avail s. unat f < 2 ^ 19"
  shows "\<exists>t u. k_mem_paging_clone_page_directory 0 cpy s = Some (addr_of c, t) \<and> k_mem_paging_release_directory cpy t = Some u \<and>
    avail u = avail s \<and> pmm_inv (pmm_of u) \<and> (\<forall>va. PDE va \<noteq> 1023 \<longrightarrow> mmu u va = mmu s va) \<and>
    (\<forall>f. f \<notin> avail s \<longrightarrow> f \<noteq> c \<longrightarrow> f \<notin> ktab s \<longrightarrow> ram u f = ram s f)"
proof -
  obtain G H t where run: "k_mem_paging_clone_page_directory 0 cpy s = Some (addr_of c, t)"
      and cp: "cp (base s c) c a None (utabs s) (upages s) G H t"
    using clone_run [OF o cy(1,2) _ src(1,3,4) room, of 0] by auto
  have nc: "not_table s c" "c \<notin> avail s" and ok: "pg_ok s" and m: "mmu s cpy = Some c" "aligned cpy" "PDE cpy \<noteq> 1023"
    and fa: "first_free s (first_free_address s) a" using o by (auto simp: clone_ok_def)
  note same = cp_same [OF cp]
  note sb = base_same [OF nc(1)]
  define n where "n = entered c cpy t"
  note sp = new_space [OF o cp cy(1), folded n_def]
  have st: "tabled t = tabled s" "root t = root s" "current_page_directory t = current_page_directory s" "cr3 t = cr3 s" "pg_ok t"
    using same sb cp by (simp_all add: cp_def) (simp_all add: base_def)
  have fr: "avail t = avail s - (G ` utabs s \<union> H ` upages s)" "G ` utabs s \<union> H ` upages s \<subseteq> avail s"
      "inj_on G (utabs s)" "inj_on H (upages s)" "G ` utabs s \<inter> H ` upages s = {}"
    using cp by (simp_all add: cp_def sb)
  have fo: "frames_once n" and uf: "user_frames n = G ` utabs s \<union> H ` upages s"
    using copy_frames [OF o cp cy(1) low, folded n_def] by auto
  have dp: "PDE (current_page_directory s) \<noteq> 1023" "mmu s (current_page_directory s) = Some (root s)" using ok by (simp_all add: pg_ok_def)
  have "\<exists>q. k_mem_paging_release_directory cpy t = Some (t\<lparr>pmm_of := q\<rparr>) \<and> pmm_inv q \<and> avail (t\<lparr>pmm_of := q\<rparr>) = avail t \<union> user_frames n"
  proof (rule release_run [OF st(5) _ _ _ m(2) _ _ cy(4,3) _ n_def sp(1) _ fo])
    show "cr3 t = addr_of (root t)" "root t \<noteq> 0" "current_page_directory t \<noteq> 0" "tabled t (PDE cpy)" "cpy \<noteq> current_page_directory t"
      using st src cy by simp_all
    show "mmu t cpy = Some c" using old_space(1) [OF o cp m(3)] m(1) by simp
    show "\<forall>i<768. small n i" using sp(8) by simp
    show "tabled n (PDE (current_page_directory t))" using sp(5) st src(1) by simp
    show "mmu n (current_page_directory t) = Some (root t)" using sp(2) [OF dp(1) src(2)] dp(2) st by simp
  qed
  then obtain q where q: "k_mem_paging_release_directory cpy t = Some (t\<lparr>pmm_of := q\<rparr>)" "pmm_inv q" "avail (t\<lparr>pmm_of := q\<rparr>) = avail t \<union> user_frames n"
    by blast
  have "avail (t\<lparr>pmm_of := q\<rparr>) = avail s" unfolding q(3) fr(1) uf using fr(2) by (simp only: Diff_partition Un_commute)
  then have "avail (t\<lparr>pmm_of := q\<rparr>) = avail s \<and> pmm_inv (pmm_of (t\<lparr>pmm_of := q\<rparr>)) \<and> (\<forall>va. PDE va \<noteq> 1023 \<longrightarrow> mmu (t\<lparr>pmm_of := q\<rparr>) va = mmu s va) \<and>
      (\<forall>f. f \<notin> avail s \<longrightarrow> f \<noteq> c \<longrightarrow> f \<notin> ktab s \<longrightarrow> ram (t\<lparr>pmm_of := q\<rparr>) f = ram s f)"
    using q(2) old_space [OF o cp] by simp
  then show ?thesis using run q(1) by blast
qed

theorem clone_release_roundtrip_witness:
  "\<exists>t u. k_mem_paging_clone_page_directory 0 0xC1001000 demo = Some (addr_of 3, t) \<and> k_mem_paging_release_directory 0xC1001000 t = Some u \<and>
     avail u = avail demo \<and> mmu u 0x400000 = Some 5"
proof -
  have p: "768 \<le> PDE 0xC1001000" "tabled demo (PDE 0xC1001000)" "tabled demo (PDE (current_page_directory demo))"
      "768 \<le> PDE (current_page_directory demo)" "root demo \<noteq> 0" "current_page_directory demo \<noteq> 0" "PDE 0x400000 = 1"
      "0xC1001000 \<noteq> current_page_directory demo" "cr3 demo = addr_of (root demo)"
    using demo_tabled demo_root by (simp_all add: PDE_def addr_of_def) (simp_all add: demo_def)
  have "\<forall>f \<in> avail demo. unat f < 2 ^ 19" by (auto simp: demo_avail)
  from clone_release_roundtrip [OF demo_clone_ok p(1,2) _ _ p(8,3-6,9) demo_room this] obtain t u where
    "k_mem_paging_clone_page_directory 0 0xC1001000 demo = Some (addr_of 3, t)" "k_mem_paging_release_directory 0xC1001000 t = Some u"
    "avail u = avail demo" "\<forall>va. PDE va \<noteq> 1023 \<longrightarrow> mmu u va = mmu demo va" by auto
  then show ?thesis using demo_mmu(3) p(7) by auto
qed

section \<open>Outside of these situations\<close>

text \<open>The kernel's translation of a large page that is not the first one in memory: the processor has frame \<open>0x400\<close>.\<close>

definition demo_large :: pg where
  "demo_large = poke 1 769 0x400083 demo"

lemma large_page_translated_wrongly:
  "mmu demo_large 0xC0400000 = Some 0x400 \<and> k_mem_paging_virt2phys demo_large 0xC0400000 = Some 0x40000000"
proof -
  have d: "ram demo_large 1 = (\<lambda>_. 0)(1 := 0x4007, 769 := 0x400083, 772 := 0x2003, 1023 := 0x1003)" "ram demo_large 2 = ram demo 2"
      "cr3 demo_large = 0x1000" "current_page_directory demo_large = 0xC1000000"
    by (simp_all add: demo_large_def demo_def fun_upd_twist)
  have "mmu demo_large 0xC0400000 = Some 0x400"
    by (simp add: mmu_def d Let_def PDE_def PTE_def e_present_def e_size_def e_page_def)
  moreover have "mmu demo_large 0xC1000C04 = Some 1"
    by (simp add: mmu_def d Let_def PDE_def PTE_def e_present_def e_size_def e_page_def) (simp add: demo_def)
  then have "dir_entry demo_large 769 = Some 0x400083"
    by (simp add: dir_entry_def d rd_def word_ix_def)
  ultimately show ?thesis by (simp add: k_mem_paging_virt2phys_def PDE_def e_present_def e_size_def)
qed

text \<open>A frame at 2 GiB is released as another number, far above the memory.\<close>

lemma high_frame_released_wrongly: "page_frame 0x80000007 = 0xFFFFFFFF80000000"
  by (simp add: page_frame_def e_page_def)

text \<open>
  \<open>k_map\<close> of two pages where every second page is mapped: the search goes from offset 1 to offset 2 and back to 1, and does
  not end.
\<close>

definition demo_gap :: pg where
  "demo_gap = poke 2 2 0x3003 (poke 2 1 0 demo)"

lemma demo_gap_mapped:
  "k_mem_paging_virt2phys demo_gap 0xC1000000 = Some 0x1000" "k_mem_paging_virt2phys demo_gap 0xC1001000 = Some 0"
  "k_mem_paging_virt2phys demo_gap 0xC1002000 = Some 0x3000" "k_mem_paging_virt2phys demo_gap 0xC1003000 = Some 0"
proof -
  have r: "ram demo_gap 1 = (\<lambda>_. 0)(1 := 0x4007, 772 := 0x2003, 1023 := 0x1003)" "ram demo_gap 2 = (\<lambda>_. 0)(0 := 0x1003, 2 := 0x3003)"
      "cr3 demo_gap = 0x1000" "current_page_directory demo_gap = 0xC1000000"
    by (simp_all add: demo_gap_def demo_def fun_eq_iff)
  have w: "mmu demo_gap 0xC1000C10 = Some 1" "mmu demo_gap 0xFFF04000 = Some 2" "mmu demo_gap 0xFFF04004 = Some 2" "mmu demo_gap 0xFFF04008 = Some 2"
      "mmu demo_gap 0xFFF0400C = Some 2"
    by (simp_all add: mmu_def r Let_def PDE_def PTE_def e_present_def e_size_def e_page_def)
  have "dir_entry demo_gap 772 = Some 0x2003" by (simp add: dir_entry_def rd_def w r word_ix_def)
  then show "k_mem_paging_virt2phys demo_gap 0xC1000000 = Some 0x1000" "k_mem_paging_virt2phys demo_gap 0xC1001000 = Some 0"
    "k_mem_paging_virt2phys demo_gap 0xC1002000 = Some 0x3000" "k_mem_paging_virt2phys demo_gap 0xC1003000 = Some 0"
    by (simp_all add: k_mem_paging_virt2phys_def PDE_def PTE_def PT_PTR_def e_present_def e_size_def e_page_def rd_def w r word_ix_def)
qed

lemma gap_search_step:
  "first_mapped demo_gap 0xC1000000 0 [0, 1] = Some (Some 0)" "first_mapped demo_gap 0xC1000000 1 [0, 1] = Some (Some 1)"
  "first_mapped demo_gap 0xC1000000 2 [0, 1] = Some (Some 0)"
  "skip_taken (is_mapped demo_gap) 0xC1000000 0 0 = Some 1" "skip_taken (is_mapped demo_gap) 0xC1000000 1 1 = Some 2"
  "skip_taken (is_mapped demo_gap) 0xC1000000 2 0 = Some 1"
  using demo_gap_mapped
    skip_taken.simps [of "is_mapped demo_gap" "0xC1000000" 0 0] skip_taken.simps [of "is_mapped demo_gap" "0xC1000000" 0 1]
    skip_taken.simps [of "is_mapped demo_gap" "0xC1000000" 1 1] skip_taken.simps [of "is_mapped demo_gap" "0xC1000000" 1 2]
    skip_taken.simps [of "is_mapped demo_gap" "0xC1000000" 2 0] skip_taken.simps [of "is_mapped demo_gap" "0xC1000000" 2 1]
  by (simp_all add: is_mapped_def)

definition in_gap :: "pg \<Rightarrow> u32 \<Rightarrow> u32 \<Rightarrow> u32 \<Rightarrow> bool" where
  "in_gap s start n off \<longleftrightarrow> s = demo_gap \<and> start = 0xC1000000 \<and> n = 2 \<and> off \<in> {0, 1, 2}"

lemma gap_search_cycles:
  assumes "k_map_search s start n off = Some y"
  shows "\<not> in_gap s start n off"
proof (rule k_map_search.raw_induct [OF _ assms, where P = "\<lambda>s start n off y. \<not> in_gap s start n off"])
  fix f s start n off y
  assume ih: "\<And>s start n off y. f s start n off = Some y \<Longrightarrow> \<not> in_gap s start n off"
    and run: "do { c \<leftarrow> first_mapped s start off [0..<unat n];
      case c of None \<Rightarrow> Some off
      | Some i \<Rightarrow> do { j \<leftarrow> skip_taken (is_mapped s) start off i; if LOWMEM_END \<le> start + j * 0x1000 then Some j else f s start n j } } = Some y"
  show "\<not> in_gap s start n off"
  proof
    assume a: "in_gap s start n off"
    have n: "[0..<unat (2 :: u32)] = [0, 1]" by (simp add: upt_rec)
    have "off = 0 \<or> off = 1 \<or> off = 2" using a by (auto simp: in_gap_def)
    then have "f demo_gap 0xC1000000 2 1 = Some y \<or> f demo_gap 0xC1000000 2 2 = Some y"
      using run a n gap_search_step by (auto simp: LOWMEM_END_def in_gap_def simp del: first_mapped.simps)
    moreover have "in_gap demo_gap 0xC1000000 2 1" "in_gap demo_gap 0xC1000000 2 2" by (simp_all add: in_gap_def)
    ultimately show False using ih by blast
  qed
qed

lemma k_map_of_two_pages_hangs: "k_map frame 2 flags demo_gap = None"
proof -
  have "k_map_search demo_gap 0xC1000000 2 0 = None" using gap_search_cycles [of demo_gap "0xC1000000" 2 0] by (cases "k_map_search demo_gap 0xC1000000 2 0") (auto simp: in_gap_def)
  moreover have "first_free_address demo_gap = 0xC1000000" by (simp add: demo_gap_def demo_def LOWMEM_START_def)
  ultimately show ?thesis by (simp add: k_map_def)
qed

text \<open>
  The set-up at boot: each missing table of the kernel's half gets a frame, but the frame that is cleared is the one that the
  entry of the kernel's own 4 MiB page shows in the window, frame 0; the new table keeps what its frame held.
\<close>

lemma init_clears_frame_zero:
  assumes ok: "pg_ok s" and k: "dir s 768 = 0x83" and i: "\<not> e_present (dir s i)" and av: "avail s \<noteq> {}" and r: "root s \<noteq> 0"
  shows "\<exists>f t. f \<in> avail s \<and> init_table (current_page_directory s) i s = Some t \<and> tab t i = f \<and> ram t f = ram s f \<and> ram t 0 = (\<lambda>_. 0)"
proof -
  obtain f q where f: "pg_alloc 1 s = Some (addr_of f, s\<lparr>pmm_of := q\<rparr>)" "f \<in> avail s" "f \<noteq> 0"
    using pg_alloc_spec [of s] ok av by (auto simp: pg_ok_def)
  define e where "e = addr_of f OR ucast (PAGE_PRESENT OR PAGE_WRITABLE)"
  define t2 where "t2 = poke (root s) i e (s\<lparr>pmm_of := q\<rparr>)"
  have fr: "f \<noteq> root s" using ok f(2) by (auto simp: pg_ok_def)
  have i3: "i \<noteq> 1023" "i \<noteq> 768" using ok i k by (auto simp: pg_ok_def e_present_def)
  have w: "wr (current_page_directory s + 4 * ucast i) e (s\<lparr>pmm_of := q\<rparr>) = Some t2"
    unfolding t2_def using wr_in_page [OF dir_mapped(2) [OF ok], of "s\<lparr>pmm_of := q\<rparr>" "root s"] dir_mapped(1) [OF ok] by simp
  have d2: "dir t2 = (dir s)(i := e)" "root t2 = root s" by (auto simp: t2_def dir_def) 
  have "mmu t2 (PT_PTR 768) = Some 0"
    using ok k i3 d2 by (simp add: mmu_def Let_def dir_def root_def pg_ok_def tab_def e_present_def e_page_def)
  then have "clear_page (PT_PTR 768) t2 = Some (fill 0 (\<lambda>_. 0) t2)"
    using r ok i3 by (intro clear_page_spec) (auto simp: d2 tab_def pg_ok_def)
  moreover have "PDE VIRTUAL_BASE = 768" by (simp add: PDE_def VIRTUAL_BASE_def)
  moreover have "rd s (current_page_directory s + 4 * ucast i) = Some (dir s i)" using dir_entry_spec [OF ok, of i] by (simp add: dir_entry_def)
  ultimately have "init_table (current_page_directory s) i s = Some (fill 0 (\<lambda>_. 0) t2)"
    using f(1,3) w i by (simp add: init_table_def e_def)
  moreover have "tab (fill 0 (\<lambda>_. 0) t2) i = f" using r d2 dir_fill [of t2 0] kernel_entry(2) [of f] by (simp add: tab_def e_def)
  moreover have "ram (fill 0 (\<lambda>_. 0) t2) f = ram s f" using f(3) fr by (simp add: t2_def)
  ultimately show ?thesis using f(2) by (intro exI [of _ f] exI [of _ "fill 0 (\<lambda>_. 0) t2"]) simp
qed

end
