(* ===== verification/Paging_Space.thy ===== *)
theory Paging_Space
  imports Paging_Release
begin

text \<open>
  What \<open>exec\<close> does with address spaces: it makes an empty one with \<open>k_mem_paging_clone_root_page_directory\<close> and gives the
  old one back with \<open>k_mem_paging_release_directory\<close>. Neither changes a page that is mapped in the space it works in, and
  a space is always entered by loading its directory into the processor, which drops what the processor remembers of other
  spaces: the two theorems do not depend on the flushes of single pages that \<open>__k_mem_paging_invlpg\<close> fails to make.
\<close>

section \<open>Spaces that share the kernel\<close>

text \<open>The current space: its directory is a page of the kernel that the processor was told of.\<close>

definition space_ok :: "pg \<Rightarrow> bool" where
  "space_ok s \<longleftrightarrow> pg_ok s \<and> cr3 s = addr_of (root s) \<and> root s \<noteq> 0 \<and> current_page_directory s \<noteq> 0 \<and>
     768 \<le> PDE (current_page_directory s) \<and> tabled s (PDE (current_page_directory s))"

text \<open>The directory at \<open>d\<close>, in frame \<open>r\<close>, describes a space of its own with the kernel's half of the current one.\<close>

definition shares_kernel :: "pg \<Rightarrow> frame \<Rightarrow> u32 \<Rightarrow> bool" where
  "shares_kernel s r d \<longleftrightarrow> pg_ok (entered r d s) \<and> r \<noteq> 0 \<and> d \<noteq> 0 \<and> 768 \<le> PDE d \<and> tabled s (PDE d) \<and> mmu s d = Some r \<and>
     (\<forall>i. 768 \<le> i \<longrightarrow> i \<noteq> 1023 \<longrightarrow> ram s r i = dir s i)"

lemma kernel_half:
  assumes "shares_kernel s r d" and "768 \<le> i" and "i \<noteq> 1023"
  shows "dir (entered r d s) i = dir s i" "tabled (entered r d s) i = tabled s i" "tab (entered r d s) i = tab s i"
  using assms by (simp_all add: shares_kernel_def tabled_def tab_def)

lemma same_entry_mmu: "dir t (PDE va) = dir s (PDE va) \<Longrightarrow> ram t = ram s \<Longrightarrow> mmu t va = mmu s va"
  by (simp add: mmu_def dir_def root_def Let_def)

lemma kernel_mmu: "shares_kernel s r d \<Longrightarrow> 768 \<le> PDE va \<Longrightarrow> PDE va \<noteq> 1023 \<Longrightarrow> mmu (entered r d s) va = mmu s va"
  using kernel_half(1) [of s r d "PDE va"] by (intro same_entry_mmu) simp_all

lemma shares_kernel_page:
  assumes "space_ok s" and "shares_kernel s r d"
  shows "aligned d" and "PDE d \<noteq> 1023" and "d = current_page_directory s \<Longrightarrow> r = root s"
proof -
  have n: "pg_ok (entered r d s)" "tabled s (PDE d)" "mmu s d = Some r" using assms(2) by (simp_all add: shares_kernel_def)
  show "aligned d" using dir_mapped(2) [OF n(1)] by simp
  show "PDE d \<noteq> 1023" by (rule tabled_small(3) [OF n(2)])
  have "mmu s (current_page_directory s) = Some (root s)" using assms(1) dir_mapped(1) by (simp add: space_ok_def)
  then show "r = root s" if "d = current_page_directory s" using n(3) that by simp
qed

lemma back_to_space:
  assumes s: "space_ok s" and d: "shares_kernel s r d"
  shows "k_mem_paging_set_page_directory (current_page_directory s) 0 (entered r d s) = Some s"
proof -
  have cur: "PDE (current_page_directory s) \<noteq> 1023" "768 \<le> PDE (current_page_directory s)" "mmu s (current_page_directory s) = Some (root s)"
      "aligned (current_page_directory s)" "tabled s (PDE (current_page_directory s))" "root s \<noteq> 0" "current_page_directory s \<noteq> 0" "cr3 s = addr_of (root s)"
    using s by (simp_all add: space_ok_def pg_ok_def)
  have "k_mem_paging_set_page_directory (current_page_directory s) 0 (entered r d s) = Some (entered (root s) (current_page_directory s) (entered r d s))"
  proof (rule set_directory [OF _ cur(4)])
    show "pg_ok (entered r d s)" using d by (simp add: shares_kernel_def)
    show "tabled (entered r d s) (PDE (current_page_directory s))" using kernel_half(2) [OF d cur(2,1)] cur(5) by simp
    show "mmu (entered r d s) (current_page_directory s) = Some (root s)" using kernel_mmu [OF d cur(2,1)] cur(3) by simp
    show "cr3 (entered r d s) = addr_of (root s)" if "current_page_directory s = current_page_directory (entered r d s)"
      using shares_kernel_page(3) [OF s d] that by (simp add: entered_def)
  qed (fact cur)+
  then show ?thesis using cur(8) by (simp add: entered_def)
qed

section \<open>An empty space\<close>

lemma for_slots_none: "(\<forall>k \<in> set ks. body k s = Some s) \<Longrightarrow> for_slots body ks s = Some s"
  by (induction ks) simp_all

lemma clone_no_tables:
  assumes "pg_ok n" and "\<forall>i < 768. \<not> e_present (dir n i)"
  shows "for_slots (clone_table (current_page_directory n) cpy) user_slots n = Some n"
proof (rule for_slots_none, rule ballI)
  fix i assume "i \<in> set user_slots"
  then have "\<not> e_present (dir n i)" using assms(2) user_slots_spec(1) by simp
  then show "clone_table (current_page_directory n) cpy i n = Some n"
    using dir_entry_spec [OF assms(1), of i] by (simp add: clone_table_def dir_entry_def)
qed

text \<open>The new directory, in the frame \<open>c\<close>.\<close>

definition empty_space :: "frame \<Rightarrow> frame \<Rightarrow> pg \<Rightarrow> pg" where
  "empty_space c r s = fill c ((ram s r)(1023 := addr_of c OR ucast (PAGE_PRESENT OR PAGE_WRITABLE))) s"

lemma entered_fill: "entered r d (fill f g s) = fill f g (entered r d s)"
  by (simp add: entered_def fill_def)

lemma fill_space_ok:
  assumes "space_ok s" and "not_table s c"
  shows "space_ok (fill c g s)"
  using assms fill_tables [OF assms(2), of g] pg_ok_fill [of s c g] by (simp add: space_ok_def)

lemma fill_shares_kernel:
  assumes "shares_kernel s r d" and "not_table s c" and "not_table (entered r d s) c"
  shows "shares_kernel (fill c g s) r d"
proof -
  have cr: "c \<noteq> r" using assms(3) by (simp add: not_table_def)
  have "PDE d \<noteq> 1023" using assms(1) by (auto simp: shares_kernel_def tabled_def)
  then show ?thesis
    using assms(1) fill_tables [OF assms(2), of g] mmu_fill_frame [OF assms(2), of d g] pg_ok_fill [OF _ assms(3), of g] cr
    by (simp add: shares_kernel_def entered_fill)
qed

lemma root_tables_kernel:
  assumes "shares_kernel s r d" and "\<forall>i < 768. \<not> e_present (ram s r i)" and "tabled (entered r d s) i"
  shows "768 \<le> i" and "i \<noteq> 1023" and "tabled s i" and "tab (entered r d s) i = tab s i"
proof -
  show i: "768 \<le> i" "i \<noteq> 1023" using assms(2,3) by (auto simp: tabled_def not_less [symmetric])
  show "tabled s i" "tab (entered r d s) i = tab s i" using kernel_half [OF assms(1) i] assms(3) by simp_all
qed

text \<open>The new directory as a space of its own.\<close>

lemma empty_space_spec:
  assumes s: "space_ok s" and d: "shares_kernel s r d" and none: "\<forall>i < 768. \<not> e_present (ram s r i)"
    and c: "aligned cpy" "768 \<le> PDE cpy" "PDE cpy \<noteq> 1023" "mmu s cpy = Some c" "c \<notin> avail s" "not_table s c"
  defines "n \<equiv> entered c cpy (empty_space c r s)"
  shows "PDE va < 768 \<Longrightarrow> mmu n va = None" and "768 \<le> PDE va \<Longrightarrow> PDE va \<noteq> 1023 \<Longrightarrow> mmu n va = mmu s va" and "pg_ok n"
proof -
  let ?e = "addr_of c OR ucast (PAGE_PRESENT OR PAGE_WRITABLE) :: u32"
  have dn: "dir n = (ram s r)(1023 := ?e)" by (simp add: n_def empty_space_def)
  have k: "dir n i = dir s i" if "768 \<le> i" "i \<noteq> 1023" for i using d that by (simp add: dn shares_kernel_def)
  have tn: "768 \<le> i \<and> i \<noteq> 1023 \<and> tabled s i \<and> tab n i = tab s i" if "tabled n i" for i
  proof -
    have i: "i \<noteq> 1023" "768 \<le> i" using that none by (auto simp: tabled_def dn not_less [symmetric])
    then show ?thesis using that k by (simp add: tabled_def tab_def)
  qed
  show "mmu n va = None" if "PDE va < 768"
  proof (rule mmu_absent)
    have "PDE va \<noteq> 1023" using that by auto
    then show "\<not> e_present (dir n (PDE va))" using none that by (simp add: dn)
  qed
  show km: "mmu n va = mmu s va" if "768 \<le> PDE va" "PDE va \<noteq> 1023" for va
  proof -
    have "mmu n va = mmu (empty_space c r s) va"
      using k [OF that] fill_tables(1) [OF c(6)] by (intro same_entry_mmu) (simp_all add: n_def empty_space_def)
    then show ?thesis using mmu_fill_frame [OF c(6) that(2)] by (simp add: empty_space_def)
  qed
  have p: "pmm_inv (pmm_of s)" "0 \<notin> avail s" and inj: "inj_on (tab s) {i. tabled s i}" and ta: "\<And>i. tabled s i \<Longrightarrow> tab s i \<notin> avail s"
    using s by (auto simp: space_ok_def pg_ok_def)
  have sz: "\<not> e_size ?e" using e_bits_or(2) [of "addr_of c"] by (simp add: e_size_def PAGE_PRESENT_def PAGE_WRITABLE_def)
  have "inj_on (tab n) {i. tabled n i}" using tn inj by (auto simp: inj_on_def)
  moreover have "tab n i \<noteq> c \<and> tab n i \<notin> avail s" if "tabled n i" for i using tn [OF that] c(6) ta by (auto simp: not_table_def)
  moreover have "mmu n cpy = Some c" using km [OF c(2,3)] c(4) by simp
  moreover have "e_present (dir n 1023)" "\<not> e_size (dir n 1023)" "tab n 1023 = c" using kernel_entry [of c] sz by (simp_all add: dn tab_def)
  moreover have "root n = c" "avail n = avail s" "pmm_of n = pmm_of s" "current_page_directory n = cpy" by (simp_all add: n_def empty_space_def)
  ultimately show "pg_ok n" using p c by (simp add: pg_ok_def)
qed

section \<open>Properties\<close>


text \<open>
  A small machine that runs a program: frame 1 holds the initial directory, frame 3 the directory of the program with the
  table in frame 4 and the page in frame 5, and frame 6 is for a new directory; the table in frame 2 maps the three for the
  kernel. Frames 8 to 31 are free.
\<close>

definition demo_exec :: pg where
  "demo_exec = demo\<lparr>ram := (ram demo)(1 := (\<lambda>_. 0)(772 := 0x2003, 1023 := 0x1003), 3 := (\<lambda>_. 0)(1 := 0x4007, 772 := 0x2003, 1023 := 0x3003),
     2 := (\<lambda>_. 0)(0 := 0x1003, 1 := 0x3003, 2 := 0x6003)), cr3 := 0x3000, current_page_directory := 0xC1001000\<rparr>"

lemma demo_exec_ram:
  "ram demo_exec 1 = (\<lambda>_. 0)(772 := 0x2003, 1023 := 0x1003)" "ram demo_exec 3 = (\<lambda>_. 0)(1 := 0x4007, 772 := 0x2003, 1023 := 0x3003)"
  "ram demo_exec 2 = (\<lambda>_. 0)(0 := 0x1003, 1 := 0x3003, 2 := 0x6003)" "ram demo_exec 4 = (\<lambda>_. 0)(0 := 0x5007)"
  by (simp_all add: demo_exec_def) (simp add: demo_def)

lemma demo_exec_fields:
  "cr3 demo_exec = 0x3000" "current_page_directory demo_exec = 0xC1001000" "initial_page_directory demo_exec = 0xC1000000"
  "root demo_exec = 3" "dir demo_exec = ram demo_exec 3" "pmm_of demo_exec = pmm_of demo" "avail demo_exec = avail demo"
proof -
  show c: "cr3 demo_exec = 0x3000" "current_page_directory demo_exec = 0xC1001000" "pmm_of demo_exec = pmm_of demo"
    by (simp_all add: demo_exec_def)
  show "initial_page_directory demo_exec = 0xC1000000" by (simp add: demo_exec_def demo_def)
  show r: "root demo_exec = 3" by (simp add: root_def c e_page_def)
  show "dir demo_exec = ram demo_exec 3" "avail demo_exec = avail demo" by (simp_all add: dir_def r avail_def c)
qed

lemma demo_exec_mmu: "mmu demo_exec 0xC1000000 = Some 1" "mmu demo_exec 0xC1001000 = Some 3" "mmu demo_exec 0xC1002000 = Some 6"
  by (simp_all add: mmu_def demo_exec_ram demo_exec_fields Let_def PDE_def PTE_def e_present_def e_size_def e_page_def)

lemma demo_exec_tabled: "tabled demo_exec i \<longleftrightarrow> i = 1 \<or> i = 772" "tab demo_exec 1 = 4" "tab demo_exec 772 = 2"
  by (auto simp: tabled_def tab_def demo_exec_fields demo_exec_ram e_present_def e_size_def e_page_def)

lemma demo_exec_initial: "tabled (entered 1 0xC1000000 demo_exec) i \<longleftrightarrow> i = 772" "tab (entered 1 0xC1000000 demo_exec) 772 = 2"
  by (auto simp: tabled_def tab_def demo_exec_ram e_present_def e_size_def e_page_def)

lemma demo_exec_pages: "PDE 0xC1000000 = 772" "PDE 0xC1001000 = 772" "PDE 0xC1002000 = 772" "aligned 0xC1000000" "aligned 0xC1001000" "aligned 0xC1002000"
  by (simp_all add: PDE_def aligned_def)

lemma demo_exec_space: "space_ok demo_exec"
proof -
  have "inj_on (tab demo_exec) {i. tabled demo_exec i}" using demo_exec_tabled by (auto simp: inj_on_def)
  moreover have "pmm_inv (pmm_of demo_exec)" "0 \<notin> avail demo_exec" using demo_ok by (simp_all add: pg_ok_def demo_exec_fields)
  moreover have "e_present (dir demo_exec 1023)" "\<not> e_size (dir demo_exec 1023)" "tab demo_exec 1023 = 3"
    by (simp_all add: demo_exec_fields demo_exec_ram tab_def e_present_def e_size_def e_page_def)
  moreover have "tab demo_exec i \<noteq> 3 \<and> tab demo_exec i \<notin> avail demo" if "tabled demo_exec i" for i
    using that demo_exec_tabled demo_avail by auto
  moreover have "3 \<notin> avail demo" using demo_avail by simp
  ultimately have "pg_ok demo_exec" using demo_exec_mmu demo_exec_pages by (simp add: pg_ok_def demo_exec_fields)
  then show ?thesis using demo_exec_tabled demo_exec_pages by (simp add: space_ok_def demo_exec_fields addr_of_def)
qed

lemma demo_exec_shares: "shares_kernel demo_exec 1 0xC1000000"
proof -
  have m: "mmu (entered 1 0xC1000000 demo_exec) 0xC1000000 = Some 1"
    by (simp add: mmu_def entered_def demo_exec_ram Let_def PDE_def PTE_def e_present_def e_size_def e_page_def addr_of_def)
  have e: "e_present (ram demo_exec 1 1023)" "\<not> e_size (ram demo_exec 1 1023)" "tab (entered 1 0xC1000000 demo_exec) 1023 = 1"
    by (simp_all add: demo_exec_ram tab_def e_present_def e_size_def e_page_def)
  have "inj_on (tab (entered 1 0xC1000000 demo_exec)) {i. tabled (entered 1 0xC1000000 demo_exec) i}"
    using demo_exec_initial by (auto simp: inj_on_def)
  moreover have "tab (entered 1 0xC1000000 demo_exec) i \<noteq> 1 \<and> tab (entered 1 0xC1000000 demo_exec) i \<notin> avail demo"
    if "tabled (entered 1 0xC1000000 demo_exec) i" for i using that demo_exec_initial demo_avail by auto
  moreover have "1 \<notin> avail demo" using demo_avail by simp
  ultimately have "pg_ok (entered 1 0xC1000000 demo_exec)"
    using m e demo_exec_pages demo_ok by (simp add: pg_ok_def demo_exec_fields)
  moreover have "ram demo_exec 1 i = dir demo_exec i" if "768 \<le> i" "i \<noteq> 1023" for i
    using that by (auto simp: demo_exec_fields demo_exec_ram word_le_nat_alt)
  ultimately show ?thesis using demo_exec_mmu(1) demo_exec_tabled demo_exec_pages by (simp add: shares_kernel_def)
qed


text \<open>
  C5: releasing a space other than the current one, with the kernel's half of the current one, below 2 GiB and in which no
  frame of the user is used twice: exactly the frames of its tables and pages of the user become free, and nothing else
  changes.
\<close>

theorem release_frees_the_space:
  assumes s: "space_ok s" and d: "shares_kernel s r d" "d \<noteq> current_page_directory s"
    and u: "\<forall>i < 768. small (entered r d s) i" "frames_once (entered r d s)"
  shows "\<exists>q. k_mem_paging_release_directory d s = Some (s\<lparr>pmm_of := q\<rparr>) \<and> pmm_inv q \<and>
    avail (s\<lparr>pmm_of := q\<rparr>) = avail s \<union> user_frames (entered r d s)"
proof (rule release_run [OF _ _ _ _ shares_kernel_page(1) [OF s d(1)] _ _ _ _ d(2) refl _ u])
  have cur: "768 \<le> PDE (current_page_directory s)" "PDE (current_page_directory s) \<noteq> 1023" "mmu s (current_page_directory s) = Some (root s)"
      "tabled s (PDE (current_page_directory s))" using s by (auto simp: space_ok_def pg_ok_def)
  show "tabled (entered r d s) (PDE (current_page_directory s))" using kernel_half(2) [OF d(1) cur(1,2)] cur(4) by simp
  show "mmu (entered r d s) (current_page_directory s) = Some (root s)" using kernel_mmu [OF d(1) cur(1,2)] cur(3) by simp
qed (use s d in \<open>auto simp: space_ok_def shares_kernel_def\<close>)

text \<open>The same machine in the initial space: the space of the program can be released.\<close>

lemma demo_exec_release:
  defines "s \<equiv> entered 1 0xC1000000 demo_exec"
  shows "space_ok s" "shares_kernel s 3 0xC1001000" "entered 3 0xC1001000 s = demo_exec"
proof -
  show b: "entered 3 0xC1001000 s = demo_exec" by (simp add: s_def entered_def demo_exec_def addr_of_def)
  have ok: "pg_ok s" using demo_exec_shares by (simp add: s_def shares_kernel_def)
  have t: "tabled s 772" using demo_exec_initial by (simp add: s_def)
  have cr: "cr3 s = addr_of 1" by (simp add: s_def entered_def)
  show "space_ok s" using ok t cr demo_exec_pages by (simp add: space_ok_def) (simp add: s_def demo_exec_pages)
  have "mmu s 0xC1001000 = Some 3" using kernel_mmu [OF demo_exec_shares, of "0xC1001000"] demo_exec_pages demo_exec_mmu(2) by (simp add: s_def)
  moreover have "\<forall>i. 768 \<le> i \<longrightarrow> i \<noteq> 1023 \<longrightarrow> ram s 3 i = dir s i"
    using kernel_half(1) [OF demo_exec_shares] by (simp add: s_def demo_exec_fields)
  moreover have "pg_ok (entered 3 0xC1001000 s)" using demo_exec_space by (simp add: b space_ok_def)
  ultimately show "shares_kernel s 3 0xC1001000" using t demo_exec_pages by (simp add: shares_kernel_def)
qed

lemma demo_exec_user: "utabs demo_exec = {1}" "upages demo_exec = {(1, 0)}" "page_of demo_exec (1, 0) = 5"
proof -
  show u: "utabs demo_exec = {1}" by (auto simp: utabs_def demo_exec_tabled)
  show "upages demo_exec = {(1, 0)}" by (auto simp: upages_def u uent_def demo_exec_tabled demo_exec_ram e_present_def split: if_splits)
  show "page_of demo_exec (1, 0) = 5" by (simp add: page_of_def uent_def demo_exec_tabled demo_exec_ram e_page_def)
qed

theorem release_frees_the_space_witness:
  "\<exists>t. k_mem_paging_release_directory 0xC1001000 (entered 1 0xC1000000 demo_exec) = Some t \<and> avail t = avail demo \<union> {4, 5}"
proof -
  have f: "user_frames demo_exec = {4, 5}" by (auto simp: user_frames_def demo_exec_user demo_exec_tabled)
  have "4 \<notin> avail demo" "5 \<notin> avail demo" using demo_avail by simp_all
  then have "frames_once demo_exec" unfolding frames_once_def f by (simp add: demo_exec_user demo_exec_tabled demo_exec_fields)
  moreover have "\<forall>i < 768. small demo_exec i" by (auto simp: small_def demo_exec_fields demo_exec_ram e_present_def e_size_def)
  moreover have "(0xC1001000 :: u32) \<noteq> current_page_directory (entered 1 0xC1000000 demo_exec)" by simp
  ultimately show ?thesis
    using release_frees_the_space [OF demo_exec_release(1,2)] f by (auto simp: demo_exec_release(3) demo_exec_fields)
qed

end
