(* ===== verification/Spec2Isabelle.thy ===== *)
theory Spec2Isabelle
  imports KList Udivmod Path Pmm Sched_Select Timers Lifecycle Numbers Ringbuffer Pipe Tty Heap Mutex Syscall Ext2_Read Tar Socket Stdio Mouse Compose_Props Compose_Client Paging_Space
begin

text \<open>
  A verification of ScalesOS, a Unix-like operating system for i686 processors: its kernel (\<^verbatim>\<open>kernel/\<close>), the
  loadable modules (\<^verbatim>\<open>modules/\<close>), the C library the kernel and the programs share (\<^verbatim>\<open>libc/\<close>), the containers
  of \<^verbatim>\<open>types/\<close> and the user-space libraries (\<^verbatim>\<open>libs/\<close>). All paths below are relative to \<^verbatim>\<open>src/\<close>.

  THE PROGRAM AND ITS MODEL

  The kernel gives memory out in frames (\<^verbatim>\<open>mem/pmm.c\<close>) and in heap blocks (\<^verbatim>\<open>mem/heap.c\<close> over the allocator of the
  C library). On them it builds processes with descriptor tables, wait queues, timers and signals
  (\<^verbatim>\<open>proc/process.c\<close>), the blocking objects (ring buffers, pipes, mutexes, terminals, sockets) that put processes
  to sleep on those queues and wake them, and a tree of mounted file systems (\<^verbatim>\<open>fs/vfs.c\<close>) whose nodes dispatch to
  drivers. System calls (\<^verbatim>\<open>int/syscall.c\<close>) reach all of this by descriptor numbers. In user space the C library
  buffers files over the system calls, and the window server (\<^verbatim>\<open>libs/libcompose\<close>) shares the screen, the keyboard and
  the mouse between its clients over sockets.

  Conventions of the model. Pointers, \<^verbatim>\<open>size_t\<close> and \<^verbatim>\<open>int\<close> of the 32 bit target are 32 bit words, or integers whose
  operations are \<open>None\<close> where a signed value leaves its type, or for which a theorem shows that they stay in range. Objects in memory are kept in stores by their address, and the address
  a function gets from the heap is an argument. A list of \<^verbatim>\<open>types/src/list.c\<close> is the sequence it holds, which \<open>KList\<close>
  justifies. A result \<open>None\<close> is a computation that does not return normally: it follows a pointer to no object,
  leaves a block, panics, or does not end. The errors that the code reports are values of their own. A call that may
  sleep is a sequence of turns, each up to the return or to the next sleep. Code outside of the repository and
  callbacks (drivers, the console) are arguments.

  Foundations.
  \<^item> \<open>Prelude\<close>: machine types, error numbers, arrays with \<^verbatim>\<open>realloc\<close> and \<^verbatim>\<open>memmove\<close>, lemmas on words, lists and cyclic
    buffers.
  \<^item> \<open>CMem\<close>, \<open>CString\<close>, \<open>Numbers\<close>: \<^verbatim>\<open>libc/src/string\<close>, \<^verbatim>\<open>libc/src/ctype\<close>, \<^verbatim>\<open>atoi.c\<close> and \<^verbatim>\<open>strtol.c\<close> on a memory of bytes.
    Shown: \<^verbatim>\<open>memmove\<close> is right for overlapping blocks, \<^verbatim>\<open>strtol\<close> clamps and no step of it overflows, \<^verbatim>\<open>itoa\<close> and \<^verbatim>\<open>atoi\<close> are
    inverse up to 2147483599, above which \<^verbatim>\<open>atoi\<close> can overflow, and the string functions return when their strings are terminated.
  \<^item> \<open>Udivmod\<close>: \<^verbatim>\<open>libc/src/udivmoddi4.c\<close> with \<^verbatim>\<open>udivdi3.c\<close> and \<^verbatim>\<open>umoddi3.c\<close>; the division is exact.
  \<^item> \<open>KList\<close>: \<^verbatim>\<open>types/src/list.c\<close>. The locale \<open>seq_container\<close> is the contract of a sequence; its interpretation \<open>kl\<close> is
    the array code. Shown: the refinement for every sequence of calls, and that \<^verbatim>\<open>list_sort\<close> is a stable sort.
  \<^item> \<open>Path\<close>: \<^verbatim>\<open>kernel/src/util/path.c\<close>; \<^verbatim>\<open>k_util_path_canonize\<close> computes a normal form.

  Memory.
  \<^item> \<open>Pmm\<close>: \<^verbatim>\<open>kernel/src/mem/pmm.c\<close>, the bitmap of frames; allocation is first fit and exact, freeing gives back exactly
    the frames of the run.
  \<^item> \<open>Heap\<close>: \<^verbatim>\<open>libc/src/stdlib/alloc.c\<close> and \<^verbatim>\<open>kernel/src/mem/heap.c\<close>, with the headers in the same memory as the data.
    \<open>heap_ok\<close> says that the headers tile the region. \<^verbatim>\<open>malloc\<close> refines first fit on a list of blocks, and the locale
    \<open>allocator\<close> (interpretation \<open>kheap\<close>) is what the clients rely on.
  \<^item> \<open>Paging\<close>: \<^verbatim>\<open>kernel/src/mem/paging.c\<close> and \<^verbatim>\<open>kernel/src/mem/memory.c\<close> on frames of physical memory, with the processor's
    translation as the meaning of a memory access. \<open>Paging_Inv\<close>: under the invariant \<open>pg_ok\<close> the kernel's translation is
    the processor's, and mapping changes one page. \<open>Paging_Clone\<close>: \<^verbatim>\<open>k_mem_paging_clone_page_directory\<close> builds tables that
    describe a copy of a space in frames of its own. \<open>Paging_Release\<close>: \<^verbatim>\<open>k_mem_paging_release_directory\<close> gives them back; and
    what the code does wrong outside of these situations. Both assume that the flush of a page takes effect, which
    \<^verbatim>\<open>__k_mem_paging_invlpg\<close> does not achieve. \<open>Paging_Space\<close>: the two operations of \<^verbatim>\<open>exec\<close>, which do not need it: making an
    empty space from the initial directory and releasing a space.

  Processes.
  \<^item> \<open>Proc_State\<close>, \<open>Sched\<close>: the state of \<^verbatim>\<open>kernel/src/proc/process.c\<close> and its queues: \<^verbatim>\<open>k_proc_process_sleep_on_queue\<close>,
    \<^verbatim>\<open>k_proc_process_wakeup_queue\<close>, \<^verbatim>\<open>k_proc_process_timeout\<close>, \<^verbatim>\<open>k_proc_process_yield\<close> and their helpers.
  \<^item> \<open>Sched_Inv\<close>: the invariant of the double bookkeeping between queues and processes, and waking. \<open>Sched_Select\<close>:
    waking the processes in \<^verbatim>\<open>select\<close>. \<open>Timers\<close>: deadlines and timed sleeps.
  \<^item> \<open>Signals\<close>: posting, choosing and delivering signals, the frame on the user stack and the restart of calls.
  \<^item> \<open>FdTable\<close>: descriptor tables and reference counts, with \<^verbatim>\<open>kernel/src/util/fd.c\<close>.
  \<^item> \<open>Lifecycle\<close>: \<^verbatim>\<open>k_proc_process_fork\<close>, \<^verbatim>\<open>k_proc_process_exit\<close>, \<^verbatim>\<open>k_proc_process_waitpid\<close> and the process tree.
  \<^item> \<open>Blocking\<close>: the facts on waking and sleeping in the form the blocking objects use them.

  Blocking objects.
  \<^item> \<open>Fifo\<close>: the locales \<open>bounded_fifo\<close> and \<open>fifo_loops\<close>, the contract of a cyclic buffer and of the loops on one.
  \<^item> \<open>Ringbuffer\<close> (\<^verbatim>\<open>kernel/src/util/types/ringbuffer.c\<close>, interpretation \<open>rb\<close>) and \<open>Pipe\<close> (\<^verbatim>\<open>kernel/src/fs/pipe.c\<close>,
    interpretation \<open>pi\<close>): bytes arrive in order; in every interleaving of ring buffer turns a process sleeps only
    where it has to.
  \<^item> \<open>Mutex\<close>: \<^verbatim>\<open>kernel/src/proc/mutex.c\<close>; mutual exclusion in every interleaving of turns.
  \<^item> \<open>Tty\<close>: \<^verbatim>\<open>kernel/src/dev/tty.c\<close>; the line discipline refines an abstract line editor; every access to the
    line buffer is checked, and none ever leaves it.
  \<^item> \<open>Socket\<close>: \<^verbatim>\<open>kernel/src/fs/socket.c\<close> with the socket calls of \<^verbatim>\<open>syscall.c\<close>: the handshake of \<^verbatim>\<open>connect\<close> and \<^verbatim>\<open>accept\<close>, and
    the stream on a connection.

  Files.
  \<^item> \<open>Vfs\<close>: \<^verbatim>\<open>kernel/src/fs/vfs.c\<close> on the trees of \<^verbatim>\<open>types/src/tree.c\<close>; a mounted node is found at its path. A name that does not fit
    into the 256 bytes of a node is \<open>None\<close>.
  \<^item> \<open>Blockdev\<close>: \<^verbatim>\<open>kernel/src/fs/ramdisk.c\<close> and \<^verbatim>\<open>modules/dospart/main.c\<close>. The locale \<open>block_device\<close> is the contract of a
    disk (interpretation \<open>ram\<close>); \<open>disk\<close> extends it so that its partitions are block devices again (interpretation
    \<open>ramdisk\<close>).
  \<^item> \<open>Ext2\<close>, \<open>Ext2_Read\<close>: \<^verbatim>\<open>modules/ext2/main.c\<close>; the caches never show, reads return the bytes on the disk and the lookup
    follows the directories on the disk, for files of direct and single indirect blocks without holes. What the disk holds
    is defined on its bytes, independently of the module's own arithmetic.
  \<^item> \<open>Tar\<close>: \<^verbatim>\<open>kernel/src/fs/tar.c\<close>; lookup and reading in the archive the system boots from.
  \<^item> \<open>Syscall\<close>: the handlers of \<^verbatim>\<open>kernel/src/int/syscall.c\<close> on descriptors, paths, signals and \<^verbatim>\<open>select\<close>.
  \<^item> \<open>Stdio\<close>: \<^verbatim>\<open>libc/src/stdio/stdio.c\<close> over \<^verbatim>\<open>libc/src/unistd/fs.c\<close>. The locale \<open>readable\<close> is the contract of a descriptor;
    its interpretation \<open>ram_file\<close> is a file on the RAM disk behind the system calls of \<open>Syscall\<close>.

  Screen, keyboard and mouse.
  \<^item> \<open>Input\<close>: \<^verbatim>\<open>kernel/src/dev/ps2.c\<close>, the translation of scan codes of \<^verbatim>\<open>kernel/src/dev/vt.c\<close>, and \<^verbatim>\<open>libs/libinput\<close>.
    \<open>Mouse\<close>: the mouse interrupt, which writes into a pipe of \<open>Pipe\<close>, and the program that reads it: whole packets arrive in
    order as long as they fit into the pipe; a full pipe cuts a packet.
  \<^item> \<open>Compose\<close>: \<^verbatim>\<open>libs/libcompose/src\<close>, files \<^verbatim>\<open>compose.c\<close>, \<^verbatim>\<open>events.c\<close> and \<^verbatim>\<open>request.c\<close>, the server's side. \<open>Compose_Inv\<close>: the
    invariant; \<open>Compose_Ops\<close> and \<open>Compose_Remove\<close>: the operations keep it; \<open>Compose_Safe\<close>: the server as a state
    machine, which never follows a null or freed pointer on permitted inputs; \<open>Compose_Props\<close>: raising and events.
  \<^item> \<open>Compose_Client\<close>: the client's side, its requests and its queues of events.

  HOW THE PARTS ARE CONNECTED

  The ring buffers, pipes, mutexes and sockets act on the kernel of \<open>Sched\<close>, so the wake-ups in their theorems are those
  of \<^verbatim>\<open>process.c\<close>. A terminal writes into the ring buffers of \<open>Ringbuffer\<close> and signals through \<open>Signals\<close>. \<open>Vfs\<close> takes the
  drivers as an argument, and its state has a field for what they keep: \<open>Syscall\<close> puts the kernel there, \<open>Socket\<close> its
  store of sockets, and \<open>Stdio\<close> runs on the calls of \<open>Syscall\<close> on the RAM disk of \<open>Blockdev\<close>. \<open>Ext2\<close> and \<open>Tar\<close> read
  any device with the contract of \<open>Blockdev\<close> and make nodes of \<open>Vfs\<close>. \<open>Compose\<close> takes its mouse and keyboard packets
  from \<open>Input\<close> and its lists from \<open>KList\<close>. \<open>Mouse\<close> runs \<open>Input\<close> on \<open>Pipe\<close>. \<open>Paging\<close> takes its frames from the allocator of \<open>Pmm\<close>.

  BOUNDS AND FUEL

  Loops that need not end are partial functions into \<open>option\<close>, and the theorems that they return are stated as such:
  the string functions on terminated strings, the walks over heap headers under \<open>heap_ok\<close>, the timer queue under its
  invariant, the walks over a tar archive and over ext2 directories that fit in the address space. The window server's
  recursions over windows (\<^verbatim>\<open>compose_sv_restack\<close>, \<^verbatim>\<open>compose_sv_remove_window\<close>, \<^verbatim>\<open>__compose_draw_window\<close>) carry a depth, for which the
  next unused address is taken; a window is created after its parent, so that no path is longer, which the
  invariant states and the theorems use. The search of \<^verbatim>\<open>k_map\<close> is a partial function, shown to end for one page. \<open>KList\<close> bounds the length of a run by 2 to the power of 30 calls, where the
  size of the array in bytes would wrap; \<open>Stdio\<close> bounds one read by 2 to the power of 20 bytes, so that the position
  does not pass 2 to the power of 32. Word arithmetic wraps as in the code.

  WHAT IS NOT MODELLED

  \<^item> Segments, interrupt tables, the start of further processors and the context switch itself: \<^verbatim>\<open>mem/gdt.c\<close>, \<^verbatim>\<open>int/idt.c\<close>,
    \<^verbatim>\<open>int/isr.c\<close>, \<^verbatim>\<open>int/irq.c\<close>, \<^verbatim>\<open>proc/smp.c\<close>. They are processor state and inline assembly. The translation cache is not in
    the model of paging (see \<open>Paging\<close>); mappings and shared memory (\<^verbatim>\<open>mem/mmap.c\<close>, \<^verbatim>\<open>mem/shm.c\<close>) are not modelled.
  \<^item> Device drivers that are port input and output: \<^verbatim>\<open>modules/ata\<close>, \<^verbatim>\<open>modules/qemuvideo\<close>, \<^verbatim>\<open>dev/pci.c\<close>, \<^verbatim>\<open>dev/acpi.c\<close>,
    \<^verbatim>\<open>dev/serial.c\<close> and their like, and the drawing of glyphs.
  \<^item> Loading of programs and modules (\<^verbatim>\<open>kernel/src/mod\<close>, \<^verbatim>\<open>util/exec.c\<close>, \<^verbatim>\<open>user/ld\<close>), which copies and relocates mapped pages.
  \<^item> Spin locks: the kernel operations here run to their end between sleeps, as they do in system calls on one
    processor, where an interrupt gate is closed.
  \<^item> \<^verbatim>\<open>libc/src/stdio/printf.c\<close>, a third-party library; drawing, fonts, image decoders and widgets of \<^verbatim>\<open>libs/\<close>; the
    programs of \<^verbatim>\<open>user/\<close>, which only call the libraries.
  \<^item> Releasing heap blocks where nothing else depends on it.
\<close>

end
